(* ===== verification/VE_Prelude.thy ===== *)
theory VE_Prelude
  imports Main "HOL-Library.Word"
begin

text \<open>
  Prelude of the development: the machine integer types of the C++ sources, the
  collection \<open>ve_simps\<close> of facts that component proofs share, and generic
  lemmas on lists, options and words.
\<close>

unbundle bit_operations_syntax

named_theorems ve_simps

type_synonym u8 = "8 word"
type_synonym u32 = "32 word"
type_synonym u64 = "64 word"
type_synonym u128 = "128 word"

section \<open>Lists\<close>

lemma nth_take_drop_mid [simp]:
  "i < length xs \<Longrightarrow> (take i xs @ x # drop i xs) ! i = x"
  by (simp add: nth_append)

lemma map_of_filter_neq:
  "map_of (filter (\<lambda>p. fst p \<noteq> k) xs) = (map_of xs)(k := None)"
  by (induction xs) (auto simp: fun_eq_iff)

lemma distinct_map_filter: "distinct (map f xs) \<Longrightarrow> distinct (map f (filter P xs))"
  by (induction xs) auto

lemma fold_max_ge: "x \<in> set xs \<Longrightarrow> x \<le> fold max xs (a :: nat)"
  by (metis Max_ge List.finite_set Max.set_eq_fold finite_insert insert_iff list.simps(15))

text \<open>Lists of results, all of which must be there.\<close>

lemma those_map_option: "those (map (\<lambda>x. map_option f (g x)) xs) = map_option (map f) (those (map g xs))"
  by (induction xs) (simp_all add: option.map_comp o_def split: option.splits)

lemma those_Some: "those (map f xs) = Some ys \<longleftrightarrow> list_all2 (\<lambda>x y. f x = Some y) xs ys"
  by (induction xs arbitrary: ys) (auto simp: list_all2_Cons1 split: option.splits)

lemma those_length: "those (map f xs) = Some ys \<Longrightarrow> length ys = length xs"
  by (metis list_all2_lengthD those_Some)

lemma those_cong: "(\<And>x. x \<in> set xs \<Longrightarrow> f x = g x) \<Longrightarrow> those (map f xs) = those (map g xs)"
  by (metis map_cong)

lemma those_list_all2:
  "list_all2 (\<lambda>x y. f x = g y) xs ys \<Longrightarrow> those (map f xs) = those (map g ys)"
  by (induction rule: list_all2_induct) (auto split: option.splits)

end
