(* ===== verification/Hash_Funcs.thy ===== *)
theory Hash_Funcs
  imports VE_Prelude
begin

text \<open>
  The hash functions of \<open>ve/include/ve/core/impl/hashfuncs.h\<close> and
  \<open>ve/src/core/hashfuncs.cpp\<close>: the DJB2 family, Wang's 64-to-32 bit mix,
  MurmurHash3 and its finalizers, the table of prime capacities with their
  precomputed inverses and the division-free \<open>fastmod\<close>. All arithmetic is on machine
  words. Bytes of a buffer are a list of \<open>u8\<close>; blocks are read little-endian.
\<close>

section \<open>DJB2\<close>

definition djb2_step :: "u32 \<Rightarrow> u32 \<Rightarrow> u32" where
  "djb2_step hash c = (push_bit 5 hash + hash) XOR c"

text \<open>
  \<open>hash_djb2\<close> walks a NUL-terminated string. The memory from the pointer on is a list
  of bytes; reading past its end is outside the model (\<open>None\<close>).
\<close>

fun hash_djb2_loop :: "u32 \<Rightarrow> u8 list \<Rightarrow> u32 option" where
  "hash_djb2_loop hash [] = None"
| "hash_djb2_loop hash (c # cs) =
     (if c = 0 then Some hash else hash_djb2_loop (djb2_step hash (ucast c)) cs)"

definition hash_djb2 :: "u8 list \<Rightarrow> u32 option" where
  "hash_djb2 mem = hash_djb2_loop 5381 mem"

text \<open>The loop \<open>for (int i = 0; i < p_len; i++)\<close> over a buffer, \<open>p_len\<close> signed.\<close>

definition hash_djb2_buffer :: "u8 list \<Rightarrow> int \<Rightarrow> u32 \<Rightarrow> u32" where
  "hash_djb2_buffer buff len prev =
     fold (\<lambda>b h. djb2_step h (ucast b)) (take (nat len) buff) prev"

definition hash_djb2_one_32 :: "u32 \<Rightarrow> u32 \<Rightarrow> u32" where
  "hash_djb2_one_32 p_in p_prev = (push_bit 5 p_prev + p_prev) XOR p_in"

definition hash_djb2_one_64 :: "u64 \<Rightarrow> u64 \<Rightarrow> u64" where
  "hash_djb2_one_64 p_in p_prev = (push_bit 5 p_prev + p_prev) XOR p_in"

section \<open>Wang and Murmur mixes\<close>

definition hash_one_uint64 :: "u64 \<Rightarrow> u32" where
  "hash_one_uint64 p_int =
     (let v = p_int;
          v = NOT v + push_bit 18 v;
          v = v XOR drop_bit 31 v;
          v = v * 21;
          v = v XOR drop_bit 11 v;
          v = v + push_bit 6 v;
          v = v XOR drop_bit 22 v
      in ucast v)"

definition hash64_murmur3_64 :: "u64 \<Rightarrow> u64 \<Rightarrow> u64" where
  "hash64_murmur3_64 key seed =
     (let key = key XOR seed;
          key = key XOR drop_bit 33 key;
          key = key * 0xff51afd7ed558ccd;
          key = key XOR drop_bit 33 key;
          key = key * 0xc4ceb9fe1a85ec53;
          key = key XOR drop_bit 33 key
      in key)"

definition VE_HASH_MURMUR3_SEED :: u32 where
  "VE_HASH_MURMUR3_SEED = 0x7F07C65"

definition hash_murmur3_one_32 :: "u32 \<Rightarrow> u32 \<Rightarrow> u32" where
  "hash_murmur3_one_32 p_in p_seed =
     (let p_in = p_in * 0xcc9e2d51;
          p_in = push_bit 15 p_in OR drop_bit 17 p_in;
          p_in = p_in * 0x1b873593;
          p_seed = p_seed XOR p_in;
          p_seed = push_bit 13 p_seed OR drop_bit 19 p_seed;
          p_seed = p_seed * 5 + 0xe6546b64
      in p_seed)"

definition hash_murmur3_one_64 :: "u64 \<Rightarrow> u32 \<Rightarrow> u32" where
  "hash_murmur3_one_64 p_in p_seed =
     (let p_seed = hash_murmur3_one_32 (ucast (p_in AND 0xFFFFFFFF)) p_seed
      in hash_murmur3_one_32 (ucast (drop_bit 32 p_in)) p_seed)"

definition hash_rotl32 :: "u32 \<Rightarrow> nat \<Rightarrow> u32" where
  "hash_rotl32 x r = push_bit r x OR drop_bit (32 - r) x"

definition hash_fmix32 :: "u32 \<Rightarrow> u32" where
  "hash_fmix32 h =
     (let h = h XOR drop_bit 16 h;
          h = h * 0x85ebca6b;
          h = h XOR drop_bit 13 h;
          h = h * 0xc2b2ae35;
          h = h XOR drop_bit 16 h
      in h)"

definition le32 :: "u8 list \<Rightarrow> u32" where
  "le32 bs = ucast (bs ! 0) OR push_bit 8 (ucast (bs ! 1))
             OR push_bit 16 (ucast (bs ! 2)) OR push_bit 24 (ucast (bs ! 3))"

definition murmur3_block :: "u32 \<Rightarrow> u32 \<Rightarrow> u32" where
  "murmur3_block h1 k1 =
     (let k1 = k1 * 0xcc9e2d51;
          k1 = hash_rotl32 k1 15;
          k1 = k1 * 0x1b873593;
          h1 = h1 XOR k1;
          h1 = hash_rotl32 h1 13
      in h1 * 5 + 0xe6546b64)"

text \<open>The loop over \<open>nblocks\<close> four-byte blocks, then the fall-through switch on the tail.\<close>

fun murmur3_blocks :: "nat \<Rightarrow> u8 list \<Rightarrow> u32 \<Rightarrow> u32" where
  "murmur3_blocks 0 data h1 = h1"
| "murmur3_blocks (Suc n) data h1 =
     murmur3_blocks n (drop 4 data) (murmur3_block h1 (le32 data))"

definition murmur3_tail :: "u8 list \<Rightarrow> u32 \<Rightarrow> u32" where
  "murmur3_tail tail h1 =
     (let n = length tail;
          k1 = 0 :: u32;
          k1 = (if n \<ge> 3 then k1 XOR push_bit 16 (ucast (tail ! 2)) else k1);
          k1 = (if n \<ge> 2 then k1 XOR push_bit 8 (ucast (tail ! 1)) else k1)
      in if n \<ge> 1 then
           (let k1 = k1 XOR ucast (tail ! 0);
                k1 = k1 * 0xcc9e2d51;
                k1 = hash_rotl32 k1 15;
                k1 = k1 * 0x1b873593
            in h1 XOR k1)
         else h1)"

definition hash_murmur3_buffer :: "u8 list \<Rightarrow> u32 \<Rightarrow> u32" where
  "hash_murmur3_buffer key seed =
     (let len = length key;
          nblocks = len div 4;
          h1 = murmur3_blocks nblocks key seed;
          h1 = murmur3_tail (drop (nblocks * 4) key) h1;
          h1 = h1 XOR of_nat len
      in hash_fmix32 h1)"

section \<open>Prime capacities and fastmod\<close>

definition HASH_TABLE_SIZE_MAX :: nat where
  "HASH_TABLE_SIZE_MAX = 29"

definition hash_table_size_primes :: "u32 list" where
  "hash_table_size_primes =
    [5, 13, 23, 47, 97, 193, 389, 769, 1543, 3079,
     6151, 12289, 24593, 49157, 98317, 196613, 393241, 786433, 1572869, 3145739,
     6291469, 12582917, 25165843, 50331653, 100663319, 201326611, 402653189,
     805306457, 1610612741]"

definition hash_table_size_primes_inv :: "u64 list" where
  "hash_table_size_primes_inv =
    [3689348814741910324, 1418980313362273202, 802032351030850071, 392483916461905354,
     190172619316593316, 95578984837873325, 47420935922132524, 23987963684927896,
     11955116055547344, 5991147799191151, 2998982941588287, 1501077717772769,
     750081082979285, 375261795343686, 187625172388393, 93822606204624, 46909513691883,
     23456218233098, 11728086747027, 5864041509391, 2932024948977, 1466014921160,
     733007198436, 366503839517, 183251896093, 91625960335, 45812983922, 22906489714,
     11453246088]"

definition fastmod :: "u32 \<Rightarrow> u64 \<Rightarrow> u32 \<Rightarrow> u32" where
  "fastmod n c d =
     (let lowbits = c * ucast n :: u64
      in ucast (ucast (drop_bit 64 ((ucast lowbits :: u128) * ucast d)) :: u64))"


section \<open>Floating-point keys\<close>

text \<open>
  A \<open>float\<close> or \<open>double\<close> key is hashed through its bit pattern after normalisation:
  both zeros become \<open>+0\<close> and every NaN becomes the quiet NaN. The model takes the IEEE
  bit pattern.
\<close>

definition float_is_zero :: "u32 \<Rightarrow> bool" where
  "float_is_zero b \<longleftrightarrow> b AND 0x7FFFFFFF = 0"

definition float_is_nan :: "u32 \<Rightarrow> bool" where
  "float_is_nan b \<longleftrightarrow> b AND 0x7F800000 = 0x7F800000 \<and> b AND 0x007FFFFF \<noteq> 0"

definition double_is_zero :: "u64 \<Rightarrow> bool" where
  "double_is_zero b \<longleftrightarrow> b AND 0x7FFFFFFFFFFFFFFF = 0"

definition double_is_nan :: "u64 \<Rightarrow> bool" where
  "double_is_nan b \<longleftrightarrow> b AND 0x7FF0000000000000 = 0x7FF0000000000000
     \<and> b AND 0x000FFFFFFFFFFFFF \<noteq> 0"

definition double_eq :: "u64 \<Rightarrow> u64 \<Rightarrow> bool" where
  "double_eq a b \<longleftrightarrow> \<not> double_is_nan a \<and> \<not> double_is_nan b
     \<and> (a = b \<or> double_is_zero a \<and> double_is_zero b)"

definition hash_murmur3_one_float :: "u32 \<Rightarrow> u32 \<Rightarrow> u32" where
  "hash_murmur3_one_float p_in p_seed =
     (let u = (if float_is_zero p_in then 0
               else if float_is_nan p_in then 0x7FC00000 else p_in)
      in hash_murmur3_one_32 u p_seed)"

definition hash_murmur3_one_double :: "u64 \<Rightarrow> u32 \<Rightarrow> u32" where
  "hash_murmur3_one_double p_in p_seed =
     (let u = (if double_is_zero p_in then 0
               else if double_is_nan p_in then 0x7FF8000000000000 else p_in)
      in hash_murmur3_one_64 u p_seed)"

definition hash_djb2_one_float :: "u64 \<Rightarrow> u32 \<Rightarrow> u32" where
  "hash_djb2_one_float p_in p_prev =
     (let u = (if double_is_zero p_in then 0
               else if double_is_nan p_in then 0x7FF8000000000000 else p_in)
      in (push_bit 5 p_prev + p_prev) + hash_one_uint64 u)"

definition hash_djb2_one_float_64 :: "u64 \<Rightarrow> u64 \<Rightarrow> u64" where
  "hash_djb2_one_float_64 p_in p_prev =
     (let u = (if double_is_zero p_in then 0
               else if double_is_nan p_in then 0x7FF8000000000000 else p_in)
      in (push_bit 5 p_prev + p_prev) + u)"

text \<open>\<open>HashMapHasherDefault\<close>: the specialisations for pointers, character and integer types
  (narrow signed ones are sign-extended by the conversion to \<open>uint32_t\<close>), floats and strings.\<close>

datatype hash_key =
  KPointer u64 | KCStr "u8 list" | KChar32 u32 | KChar16 "16 word"
| KUInt64 u64 | KInt64 u64 | KFloat u32 | KDouble u64 | KUInt32 u32 | KInt32 u32
| KUInt16 "16 word" | KInt16 "16 word" | KUInt8 u8 | KInt8 u8 | KString "u8 list"

fun hash_default :: "hash_key \<Rightarrow> u32 option" where
  "hash_default (KPointer p) = Some (hash_one_uint64 p)"
| "hash_default (KCStr p_cstr) = hash_djb2 p_cstr"
| "hash_default (KChar32 p) = Some (hash_fmix32 p)"
| "hash_default (KChar16 p) = Some (hash_fmix32 (ucast p))"
| "hash_default (KUInt64 p) = Some (hash_one_uint64 p)"
| "hash_default (KInt64 p) = Some (hash_one_uint64 p)"
| "hash_default (KFloat p) = Some (hash_murmur3_one_float p VE_HASH_MURMUR3_SEED)"
| "hash_default (KDouble p) = Some (hash_murmur3_one_double p VE_HASH_MURMUR3_SEED)"
| "hash_default (KUInt32 p) = Some (hash_fmix32 p)"
| "hash_default (KInt32 p) = Some (hash_fmix32 p)"
| "hash_default (KUInt16 p) = Some (hash_fmix32 (ucast p))"
| "hash_default (KInt16 p) = Some (hash_fmix32 (scast p))"
| "hash_default (KUInt8 p) = Some (hash_fmix32 (ucast p))"
| "hash_default (KInt8 p) = Some (hash_fmix32 (scast p))"
| "hash_default (KString p) = Some (hash_djb2_buffer p (int (length p)) 5381)"

section \<open>Facts about the string hash\<close>

lemma hash_djb2_loop_eq:
  assumes "0 \<notin> set s"
  shows "hash_djb2_loop h (s @ 0 # rest) = Some (fold (\<lambda>b h. djb2_step h (ucast b)) s h)"
  using assms by (induction s arbitrary: h) auto

section \<open>fastmod computes the remainder\<close>

lemma fastmod_nat:
  fixes c d n e N :: nat
  assumes cd: "c * d = N + e" and en: "e * n < N" and d: "0 < d"
  shows "((c * n) mod N) * d div N = n mod d"
proof -
  define q r where "q = n div d" and "r = n mod d"
  have n: "n = q * d + r" and r: "r < d"
    using d by (auto simp: q_def r_def)
  have cn: "c * n = q * N + (q * e + c * r)"
  proof -
    have "c * n = q * (c * d) + c * r" by (simp add: n algebra_simps)
    then show ?thesis by (simp add: cd algebra_simps)
  qed
  have prod: "(q * e + c * r) * d = r * N + e * n"
  proof -
    have "(q * e + c * r) * d = e * (q * d) + r * (c * d)" by (simp add: algebra_simps)
    then show ?thesis by (simp add: cd n algebra_simps)
  qed
  have "(q * e + c * r) * d < d * N"
  proof -
    have "r * N + e * n < Suc r * N" using en by simp
    also have "\<dots> \<le> d * N" using r by (intro mult_le_mono1) simp
    finally show ?thesis by (simp add: prod)
  qed
  then have lt: "q * e + c * r < N" using d by (simp add: mult.commute)
  have "(c * n) mod N = q * e + c * r" using lt by (simp add: cn)
  then have "((c * n) mod N) * d div N = (r * N + e * n) div N" by (simp add: prod)
  also have "\<dots> = r" using en by simp
  finally show ?thesis by (simp add: r_def)
qed

lemma unat_fastmod:
  "unat (fastmod n c d) = (((unat c * unat n) mod 2 ^ 64) * unat d div 2 ^ 64) mod 2 ^ 32"
proof -
  have dn: "unat d < 2 ^ 32" "unat n < 2 ^ 32"
    using unsigned_less [of d] unsigned_less [of n] by simp_all
  have b: "((unat c * unat n) mod 2 ^ 64) * unat d < 2 ^ 128"
  proof -
    have "((unat c * unat n) mod 2 ^ 64) * unat d < 2 ^ 64 * 2 ^ 32"
      using dn by (intro mult_strict_mono) auto
    then show ?thesis by simp
  qed
  have un: "unat (ucast n :: u64) = unat n"
    using dn by (simp add: unsigned_ucast_eq take_bit_eq_mod)
  have low: "unat ((c * ucast n) :: u64) = (unat c * unat n) mod 2 ^ 64"
    by (simp add: unat_word_ariths un)
  define l :: u64 where "l = c * ucast n"
  have l: "unat l = (unat c * unat n) mod 2 ^ 64" by (simp add: l_def low)
  have "unat l < 2 ^ 64" by (simp add: l)
  then have ul: "unat (ucast l :: u128) = unat l"
    by (simp add: unsigned_ucast_eq take_bit_eq_mod)
  have ud: "unat (ucast d :: u128) = unat d"
    using dn by (simp add: unsigned_ucast_eq take_bit_eq_mod)
  have p: "unat ((ucast l :: u128) * ucast d) = unat l * unat d"
    using b by (simp add: unat_word_ariths ul ud l)
  have dr: "unat (drop_bit 64 ((ucast l :: u128) * ucast d)) = unat l * unat d div 2 ^ 64"
    by (simp add: unat_drop_bit_eq p drop_bit_eq_div unat_div)
  have lt: "unat l * unat d div 2 ^ 64 < 2 ^ 64"
    using b by (simp add: l less_mult_imp_div_less)
  define w where "w = drop_bit 64 ((ucast l :: u128) * ucast d)"
  have "unat (ucast (ucast w :: u64) :: u32) = take_bit 32 (take_bit 64 (unat w))"
  proof -
    have "unat (ucast w :: u64) = take_bit 64 (unat w)" by (simp add: unsigned_ucast_eq)
    then show ?thesis by (subst unsigned_ucast_eq) simp
  qed
  also have "\<dots> = (unat l * unat d div 2 ^ 64) mod 2 ^ 32"
    using lt by (simp add: dr w_def take_bit_eq_mod)
  finally show ?thesis
    unfolding fastmod_def Let_def l_def [symmetric] w_def [symmetric] by (simp add: l)
qed

lemma fastmod_eq_mod:
  assumes "unat c * unat d = 2 ^ 64 + e" and "e < 2 ^ 32" and "0 < d"
  shows "fastmod n c d = n mod d"
proof (rule word_unat_eq_iff [THEN iffD2])
  have n: "unat n < 2 ^ 32" using unsigned_less [of n] by simp
  have "e * unat n < 2 ^ 32 * 2 ^ 32"
    using assms(2) n by (intro mult_strict_mono) auto
  then have "e * unat n < 2 ^ 64" by simp
  moreover have "0 < unat d" using assms(3) by (simp add: unat_gt_0)
  ultimately have "((unat c * unat n) mod 2 ^ 64) * unat d div 2 ^ 64 = unat n mod unat d"
    using assms(1) by (intro fastmod_nat) simp_all
  moreover have "unat n mod unat d < 2 ^ 32" using n by (meson le_less_trans mod_less_eq_dividend)
  ultimately show "unat (fastmod n c d) = unat (n mod d)"
    by (simp add: unat_fastmod unat_mod)
qed


definition fast_inverse_ok :: "u32 \<Rightarrow> u64 \<Rightarrow> bool" where
  "fast_inverse_ok d c \<longleftrightarrow>
     0 < d \<and> 2 ^ 64 \<le> unat c * unat d \<and> unat c * unat d < 2 ^ 64 + 2 ^ 32"

lemma fast_inverse_okD: "fast_inverse_ok d c \<Longrightarrow> fastmod n c d = n mod d"
  by (rule fastmod_eq_mod [where e = "unat c * unat d - 2 ^ 64"])
    (auto simp: fast_inverse_ok_def)

lemma primes_table_ok:
  "list_all2 fast_inverse_ok hash_table_size_primes hash_table_size_primes_inv"
  by (simp add: hash_table_size_primes_def hash_table_size_primes_inv_def fast_inverse_ok_def)

lemma length_primes [simp]:
  "length hash_table_size_primes = HASH_TABLE_SIZE_MAX"
  "length hash_table_size_primes_inv = HASH_TABLE_SIZE_MAX"
  by (simp_all add: hash_table_size_primes_def hash_table_size_primes_inv_def
      HASH_TABLE_SIZE_MAX_def)

text \<open>C3: \<open>fastmod\<close> with the tabulated inverse is the remainder by the tabulated prime,
  for every 32-bit dividend and every entry of the capacity table.\<close>

theorem fastmod_table_correct:
  assumes "i < HASH_TABLE_SIZE_MAX"
  shows "fastmod n (hash_table_size_primes_inv ! i) (hash_table_size_primes ! i)
         = n mod (hash_table_size_primes ! i)"
  by (rule fast_inverse_okD, rule list_all2_nthD [OF primes_table_ok]) (simp add: assms)

theorem fastmod_table_correct_witness:
  "(3::nat) < HASH_TABLE_SIZE_MAX
   \<and> fastmod 1000000007 (hash_table_size_primes_inv ! 3) (hash_table_size_primes ! 3)
     = 1000000007 mod (hash_table_size_primes ! 3)"
  using fastmod_table_correct [of 3 1000000007] by (simp add: HASH_TABLE_SIZE_MAX_def)

section \<open>The finalizers are injective\<close>

lemma xor_shift_inverse_32_16:
  fixes h :: u32
  shows "(h XOR drop_bit 16 h) XOR drop_bit 16 (h XOR drop_bit 16 h) = h"
  by (rule bit_word_eqI) (auto simp: bit_simps)

lemma xor_shift_inverse_32_13:
  fixes h :: u32
  defines "g \<equiv> h XOR drop_bit 13 h"
  shows "g XOR drop_bit 13 g XOR drop_bit 26 g = h"
  unfolding g_def by (rule bit_word_eqI) (auto simp: bit_simps ac_simps)

lemma xor_shift_inverse_64_33:
  fixes h :: u64
  shows "(h XOR drop_bit 33 h) XOR drop_bit 33 (h XOR drop_bit 33 h) = h"
  by (rule bit_word_eqI) (auto simp: bit_simps)

lemma mult_inverse_cancel:
  fixes a b :: "'a::len word"
  assumes "c * d = 1" and "a * c = b * c"
  shows "a = b"
proof -
  have "a * c * d = b * c * d" using assms(2) by simp
  then show ?thesis using assms(1) by (simp add: mult.assoc)
qed


lemma inj_xor_shift_32_16: "inj (\<lambda>h::u32. h XOR drop_bit 16 h)"
  by (rule inj_on_inverseI [where g = "\<lambda>h. h XOR drop_bit 16 h"])
    (simp only: xor_shift_inverse_32_16)

lemma inj_xor_shift_32_13: "inj (\<lambda>h::u32. h XOR drop_bit 13 h)"
  by (rule inj_on_inverseI [where g = "\<lambda>g. g XOR drop_bit 13 g XOR drop_bit 26 g"])
    (simp only: xor_shift_inverse_32_13)

lemma inj_xor_shift_64_33: "inj (\<lambda>h::u64. h XOR drop_bit 33 h)"
  by (rule inj_on_inverseI [where g = "\<lambda>h. h XOR drop_bit 33 h"])
    (simp only: xor_shift_inverse_64_33)

lemma inj_fmix32_mults:
  "inj (\<lambda>h::u32. h * 0x85ebca6b)" "inj (\<lambda>h::u32. h * 0xc2b2ae35)"
  by (auto intro!: injI
      dest: mult_inverse_cancel [where c = "0x85ebca6b" and d = "2781581891", rotated]
        mult_inverse_cancel [where c = "0xc2b2ae35" and d = "2127672349", rotated])

lemma inj_murmur64_mults:
  "inj (\<lambda>h::u64. h * 0xff51afd7ed558ccd)" "inj (\<lambda>h::u64. h * 0xc4ceb9fe1a85ec53)"
  by (auto intro!: injI
      dest: mult_inverse_cancel [where c = "0xff51afd7ed558ccd" and d = "5725274745694666757", rotated]
        mult_inverse_cancel [where c = "0xc4ceb9fe1a85ec53" and d = "11291846944257947611", rotated])

text \<open>Neither finalizer loses information: \<open>hash_fmix32\<close> maps different 32-bit keys to
  different hashes (so integer keys of a hash map never share a full hash, except through
  the reserved empty value), and \<open>hash64_murmur3_64\<close> is injective in the key for every seed.\<close>

theorem finalizers_injective:
  "inj hash_fmix32 \<and> inj (\<lambda>key. hash64_murmur3_64 key seed)"
proof
  have "hash_fmix32 = (\<lambda>h. h XOR drop_bit 16 h) \<circ> (\<lambda>h. h * 0xc2b2ae35)
      \<circ> (\<lambda>h. h XOR drop_bit 13 h) \<circ> (\<lambda>h. h * 0x85ebca6b) \<circ> (\<lambda>h. h XOR drop_bit 16 h)"
    by (rule ext) (simp only: hash_fmix32_def Let_def o_apply)
  then show "inj hash_fmix32"
    by (elim ssubst) (intro inj_compose inj_xor_shift_32_16 inj_xor_shift_32_13 inj_fmix32_mults)
next
  have "(\<lambda>key. hash64_murmur3_64 key seed) = (\<lambda>h. h XOR drop_bit 33 h)
      \<circ> (\<lambda>h. h * 0xc4ceb9fe1a85ec53) \<circ> (\<lambda>h. h XOR drop_bit 33 h)
      \<circ> (\<lambda>h. h * 0xff51afd7ed558ccd) \<circ> (\<lambda>h. h XOR drop_bit 33 h) \<circ> (\<lambda>k. k XOR seed)"
    by (rule ext) (simp only: hash64_murmur3_64_def Let_def o_apply)
  moreover have "inj (\<lambda>k::u64. k XOR seed)"
    by (rule inj_on_inverseI [where g = "\<lambda>k. k XOR seed"])
      (simp add: xor.assoc)
  ultimately show "inj (\<lambda>key. hash64_murmur3_64 key seed)"
    by (elim ssubst) (intro inj_compose inj_xor_shift_64_33 inj_murmur64_mults)
qed

section \<open>Reference facts\<close>

lemma hash_djb2_buffer_append:
  "hash_djb2_buffer (a @ b) (int (length (a @ b))) h
   = hash_djb2_buffer b (int (length b)) (hash_djb2_buffer a (int (length a)) h)"
  by (simp add: hash_djb2_buffer_def)

lemma hash_djb2_cstring:
  assumes "0 \<notin> set s"
  shows "hash_djb2 (s @ 0 # rest) = Some (hash_djb2_buffer s (int (length s)) 5381)"
  by (simp add: hash_djb2_def hash_djb2_buffer_def hash_djb2_loop_eq [OF assms])

lemma double_eq_same_hash:
  "double_eq a b \<Longrightarrow> hash_murmur3_one_double a seed = hash_murmur3_one_double b seed"
  by (auto simp: double_eq_def hash_murmur3_one_double_def Let_def)

end
