(* ===== verification/Ordered_HashMap.thy ===== *)
theory Ordered_HashMap
  imports Hash_Funcs "HOL-Library.Multiset" "HOL-Library.AList"
begin

text \<open>
  \<open>InsertionOrderedHashMap\<close> of \<open>ve/include/ve/core/impl/ordered_hashmap.h\<close>: open
  addressing with Robin Hood displacement and backward-shift deletion, plus a doubly
  linked list through the elements that keeps insertion order.

  The two parallel arrays \<open>_hashes\<close> and \<open>_elements\<close> are lists; element pointers are
  natural numbers into the store \<open>mem\<close> of the allocated \<open>HashMapElement\<close>s, with the
  \<open>next\<close> and \<open>prev\<close> pointers as fields. Array indices and probe distances stay below
  the capacity, which is at most 1610612741, so they are natural numbers; the one
  computation that wraps around, \<open>_get_probe_length\<close>, is on words. The \<open>while (true)\<close>
  loops take fuel, \<open>None\<close> meaning that the loop has not returned; a failed \<open>assert\<close> is
  \<open>None\<close> as well. \<open>hasher\<close> and \<open>cmp\<close> are the template parameters.
\<close>

section \<open>State\<close>

record ('k, 'v) elem =
  e_next :: "nat option"
  e_prev :: "nat option"
  e_key :: 'k
  e_val :: 'v

record ('k, 'v) hmap =
  allocated :: bool
  elements :: "nat list"
  hashes :: "u32 list"
  head_element :: "nat option"
  tail_element :: "nat option"
  capacity_idx :: nat
  msize :: nat
  mem :: "nat \<Rightarrow> ('k, 'v) elem option"
  brk :: nat

definition MIN_CAPACITY_INDEX :: nat where
  "MIN_CAPACITY_INDEX = 2"

definition EMPTY_HASH :: u32 where
  "EMPTY_HASH = 0"

definition capacity_at :: "nat \<Rightarrow> nat" where
  "capacity_at ci = unat (hash_table_size_primes ! ci)"

definition empty_hmap :: "('k, 'v) hmap" where
  "empty_hmap = \<lparr>allocated = False, elements = [], hashes = [], head_element = None,
     tail_element = None, capacity_idx = MIN_CAPACITY_INDEX, msize = 0,
     mem = Map.empty, brk = 0\<rparr>"

section \<open>Hashing and probing\<close>

definition key_hash :: "('k \<Rightarrow> u32) \<Rightarrow> 'k \<Rightarrow> u32" where
  "key_hash hasher k = (let hash = hasher k in if hash = EMPTY_HASH then EMPTY_HASH + 1 else hash)"

definition increment_mod :: "nat \<Rightarrow> nat \<Rightarrow> nat" where
  "increment_mod idx cap = (let idx = idx + 1 in if idx = cap then 0 else idx)"

definition get_probe_length_w :: "u32 \<Rightarrow> u32 \<Rightarrow> u32 \<Rightarrow> u64 \<Rightarrow> u32" where
  "get_probe_length_w p_idx p_hash p_capacity p_capacity_inv =
     (let original_idx = fastmod p_hash p_capacity_inv p_capacity;
          distance_idx = p_idx - original_idx + p_capacity
      in if distance_idx \<ge> p_capacity then distance_idx - p_capacity else distance_idx)"

definition get_probe_length :: "nat \<Rightarrow> nat \<Rightarrow> u32 \<Rightarrow> nat" where
  "get_probe_length ci idx hash =
     unat (get_probe_length_w (of_nat idx) hash (hash_table_size_primes ! ci)
             (hash_table_size_primes_inv ! ci))"

definition home_idx :: "nat \<Rightarrow> u32 \<Rightarrow> nat" where
  "home_idx ci hash =
     unat (fastmod hash (hash_table_size_primes_inv ! ci) (hash_table_size_primes ! ci))"

section \<open>Lookup\<close>

fun lookup_loop :: "('k \<Rightarrow> 'k \<Rightarrow> bool) \<Rightarrow> ('k, 'v) hmap \<Rightarrow> 'k \<Rightarrow> u32 \<Rightarrow> nat \<Rightarrow> nat \<Rightarrow> nat
    \<Rightarrow> nat option option" where
  "lookup_loop cmp m key hash 0 idx distance = None"
| "lookup_loop cmp m key hash (Suc fuel) idx distance =
    (let ci = capacity_idx m; h = hashes m ! idx;
         continue = (\<lambda>_. lookup_loop cmp m key hash fuel
                           (increment_mod idx (capacity_at ci)) (distance + 1))
     in if h = EMPTY_HASH then Some None
        else if distance > get_probe_length ci idx h then Some None
        else if h = hash then
          (case mem m (elements m ! idx) of
             None \<Rightarrow> None
           | Some e \<Rightarrow> if cmp (e_key e) key then Some (Some idx) else continue ())
        else continue ())"

definition lookup_idx_unchecked ::
    "('k \<Rightarrow> 'k \<Rightarrow> bool) \<Rightarrow> ('k, 'v) hmap \<Rightarrow> 'k \<Rightarrow> u32 \<Rightarrow> nat option option" where
  "lookup_idx_unchecked cmp m key hash =
     lookup_loop cmp m key hash (capacity_at (capacity_idx m) + 2)
       (home_idx (capacity_idx m) hash) 0"

definition lookup_idx ::
    "('k \<Rightarrow> u32) \<Rightarrow> ('k \<Rightarrow> 'k \<Rightarrow> bool) \<Rightarrow> ('k, 'v) hmap \<Rightarrow> 'k \<Rightarrow> nat option option" where
  "lookup_idx hasher cmp m key =
     (if allocated m \<and> msize m > 0
      then lookup_idx_unchecked cmp m key (key_hash hasher key) else Some None)"

text \<open>\<open>has\<close>, and \<open>find\<close> with the element its iterator points to.\<close>

definition hm_has :: "('k \<Rightarrow> u32) \<Rightarrow> ('k \<Rightarrow> 'k \<Rightarrow> bool) \<Rightarrow> ('k, 'v) hmap \<Rightarrow> 'k \<Rightarrow> bool option" where
  "hm_has hasher cmp m key = map_option (\<lambda>r. r \<noteq> None) (lookup_idx hasher cmp m key)"

definition hm_find ::
    "('k \<Rightarrow> u32) \<Rightarrow> ('k \<Rightarrow> 'k \<Rightarrow> bool) \<Rightarrow> ('k, 'v) hmap \<Rightarrow> 'k \<Rightarrow> nat option option" where
  "hm_find hasher cmp m key =
     map_option (map_option (\<lambda>idx. elements m ! idx)) (lookup_idx hasher cmp m key)"

text \<open>\<open>get\<close>: the value, or a failed assertion (\<open>None\<close>) when the key is absent.\<close>

definition hm_get :: "('k \<Rightarrow> u32) \<Rightarrow> ('k \<Rightarrow> 'k \<Rightarrow> bool) \<Rightarrow> ('k, 'v) hmap \<Rightarrow> 'k \<Rightarrow> 'v option" where
  "hm_get hasher cmp m key =
     (case hm_find hasher cmp m key of
        Some (Some p) \<Rightarrow> map_option e_val (mem m p) | _ \<Rightarrow> None)"

section \<open>Robin Hood insertion and rehashing\<close>

fun insert_loop :: "nat \<Rightarrow> nat \<Rightarrow> u32 list \<Rightarrow> nat list \<Rightarrow> u32 \<Rightarrow> nat \<Rightarrow> nat \<Rightarrow> nat
    \<Rightarrow> (u32 list \<times> nat list) option" where
  "insert_loop ci 0 hs es hash val idx distance = None"
| "insert_loop ci (Suc fuel) hs es hash val idx distance =
    (if hs ! idx = EMPTY_HASH then Some (hs[idx := hash], es[idx := val])
     else
       (let existing_probe_len = get_probe_length ci idx (hs ! idx);
            next = increment_mod idx (capacity_at ci)
        in if existing_probe_len < distance
           then insert_loop ci fuel (hs[idx := hash]) (es[idx := val]) (hs ! idx) (es ! idx)
                  next (existing_probe_len + 1)
           else insert_loop ci fuel hs es hash val next (distance + 1)))"

definition insert_element :: "u32 \<Rightarrow> nat \<Rightarrow> ('k, 'v) hmap \<Rightarrow> ('k, 'v) hmap option" where
  "insert_element hash val m =
     (case insert_loop (capacity_idx m) (capacity_at (capacity_idx m)) (hashes m) (elements m)
             hash val (home_idx (capacity_idx m) hash) 0 of
        None \<Rightarrow> None
      | Some (hs, es) \<Rightarrow> Some (m\<lparr>hashes := hs, elements := es, msize := msize m + 1\<rparr>))"

fun rehash_loop :: "(u32 \<times> nat) list \<Rightarrow> ('k, 'v) hmap \<Rightarrow> ('k, 'v) hmap option" where
  "rehash_loop [] m = Some m"
| "rehash_loop ((h, e) # rest) m =
     (if h = EMPTY_HASH then rehash_loop rest m
      else (case insert_element h e m of None \<Rightarrow> None | Some m' \<Rightarrow> rehash_loop rest m'))"

definition alloc_table :: "nat \<Rightarrow> ('k, 'v) hmap \<Rightarrow> ('k, 'v) hmap" where
  "alloc_table cap m = m\<lparr>allocated := True, hashes := replicate cap 0, elements := replicate cap 0\<rparr>"

definition resize_and_rehash :: "nat \<Rightarrow> ('k, 'v) hmap \<Rightarrow> ('k, 'v) hmap option" where
  "resize_and_rehash new_ci m =
     (let ci = (if new_ci > MIN_CAPACITY_INDEX then new_ci else MIN_CAPACITY_INDEX)
      in rehash_loop (zip (hashes m) (elements m))
           (alloc_table (capacity_at ci) (m\<lparr>capacity_idx := ci, msize := 0\<rparr>)))"

text \<open>
  The occupancy test \<open>_size + 1 > MAX_OCCUPANCY * capacity\<close> is evaluated in single
  precision: both integers and the product are rounded to 24 significant bits, ties to
  even. \<open>3 / 4 * x\<close> rounds like \<open>3 * x\<close> up to the power of two.
\<close>

fun bitlen :: "nat \<Rightarrow> nat" where
  "bitlen n = (if n = 0 then 0 else Suc (bitlen (n div 2)))"

declare bitlen.simps [simp del]

definition f32_round :: "nat \<Rightarrow> nat" where
  "f32_round n =
     (if bitlen n \<le> 24 then n
      else (let s = bitlen n - 24; q = n div 2 ^ s; r = n mod 2 ^ s; half = 2 ^ (s - 1)
            in (if half < r \<or> (r = half \<and> odd q) then q + 1 else q) * 2 ^ s))"

definition over_occupancy :: "nat \<Rightarrow> nat \<Rightarrow> bool" where
  "over_occupancy size1 cap \<longleftrightarrow> f32_round (3 * f32_round cap) < 4 * f32_round size1"

section \<open>The insertion-order list\<close>

definition set_elem ::
    "nat \<Rightarrow> (('k, 'v) elem \<Rightarrow> ('k, 'v) elem) \<Rightarrow> ('k, 'v) hmap \<Rightarrow> ('k, 'v) hmap" where
  "set_elem p f m = m\<lparr>mem := (mem m)(p := map_option f (mem m p))\<rparr>"

definition link_element :: "bool \<Rightarrow> nat \<Rightarrow> ('k, 'v) hmap \<Rightarrow> ('k, 'v) hmap" where
  "link_element front elem m =
     (case (tail_element m, head_element m) of
        (Some t, Some h) \<Rightarrow>
          if front then
            (set_elem elem (e_next_update (\<lambda>_. Some h))
               (set_elem h (e_prev_update (\<lambda>_. Some elem)) m))\<lparr>head_element := Some elem\<rparr>
          else
            (set_elem elem (e_prev_update (\<lambda>_. Some t))
               (set_elem t (e_next_update (\<lambda>_. Some elem)) m))\<lparr>tail_element := Some elem\<rparr>
      | _ \<Rightarrow> m\<lparr>head_element := Some elem, tail_element := Some elem\<rparr>)"

definition new_element :: "'k \<Rightarrow> 'v \<Rightarrow> ('k, 'v) hmap \<Rightarrow> nat \<times> ('k, 'v) hmap" where
  "new_element k v m =
     (brk m, m\<lparr>mem := (mem m)(brk m \<mapsto> \<lparr>e_next = None, e_prev = None, e_key = k, e_val = v\<rparr>),
               brk := brk m + 1\<rparr>)"

text \<open>\<open>_insert\<close>: allocate on first use, grow when over-occupied, link, place.\<close>

definition insert_absent ::
    "'k \<Rightarrow> 'v \<Rightarrow> u32 \<Rightarrow> bool \<Rightarrow> ('k, 'v) hmap \<Rightarrow> (nat \<times> ('k, 'v) hmap) option" where
  "insert_absent k v hash front m =
     (let cap = capacity_at (capacity_idx m);
          m1 = (if allocated m then m else alloc_table cap m);
          grown = (if over_occupancy (msize m1 + 1) cap
                   then (if capacity_idx m1 + 1 < HASH_TABLE_SIZE_MAX
                         then resize_and_rehash (capacity_idx m1 + 1) m1 else None)
                   else Some m1)
      in case grown of
           None \<Rightarrow> None
         | Some m2 \<Rightarrow>
             (let (p, m3) = new_element k v m2
              in map_option (Pair p) (insert_element hash p (link_element front p m3))))"

text \<open>\<open>insert\<close>: overwrite the value of a present key, else \<open>_insert\<close>.\<close>

definition hm_insert ::
    "('k \<Rightarrow> u32) \<Rightarrow> ('k \<Rightarrow> 'k \<Rightarrow> bool) \<Rightarrow> 'k \<Rightarrow> 'v \<Rightarrow> bool \<Rightarrow> ('k, 'v) hmap
     \<Rightarrow> (nat \<times> ('k, 'v) hmap) option" where
  "hm_insert hasher cmp k v front m =
     (case lookup_idx hasher cmp m k of
        None \<Rightarrow> None
      | Some None \<Rightarrow> insert_absent k v (key_hash hasher k) front m
      | Some (Some idx) \<Rightarrow>
          Some (elements m ! idx, set_elem (elements m ! idx) (e_val_update (\<lambda>_. v)) m))"

text \<open>\<open>operator[]\<close>: the element of the key, inserted with a default value when absent.\<close>

definition hm_index ::
    "('k \<Rightarrow> u32) \<Rightarrow> ('k \<Rightarrow> 'k \<Rightarrow> bool) \<Rightarrow> 'v \<Rightarrow> 'k \<Rightarrow> ('k, 'v) hmap
     \<Rightarrow> (nat \<times> ('k, 'v) hmap) option" where
  "hm_index hasher cmp dflt k m =
     (case lookup_idx hasher cmp m k of
        None \<Rightarrow> None
      | Some None \<Rightarrow> insert_absent k dflt (key_hash hasher k) False m
      | Some (Some idx) \<Rightarrow> Some (elements m ! idx, m))"

section \<open>Backward-shift deletion\<close>

fun erase_loop :: "nat \<Rightarrow> nat \<Rightarrow> u32 list \<Rightarrow> nat list \<Rightarrow> nat \<Rightarrow> nat
    \<Rightarrow> (u32 list \<times> nat list \<times> nat) option" where
  "erase_loop ci 0 hs es idx next_idx = None"
| "erase_loop ci (Suc fuel) hs es idx next_idx =
    (if hs ! next_idx \<noteq> EMPTY_HASH \<and> get_probe_length ci next_idx (hs ! next_idx) \<noteq> 0
     then erase_loop ci fuel
            (hs[next_idx := hs ! idx, idx := hs ! next_idx])
            (es[next_idx := es ! idx, idx := es ! next_idx])
            next_idx (increment_mod next_idx (capacity_at ci))
     else Some (hs, es, idx))"

definition unlink_element :: "nat \<Rightarrow> ('k, 'v) elem \<Rightarrow> ('k, 'v) hmap \<Rightarrow> ('k, 'v) hmap" where
  "unlink_element p e m =
     (let m = (if head_element m = Some p then m\<lparr>head_element := e_next e\<rparr> else m);
          m = (if tail_element m = Some p then m\<lparr>tail_element := e_prev e\<rparr> else m);
          m = (case e_prev e of Some q \<Rightarrow> set_elem q (e_next_update (\<lambda>_. e_next e)) m | None \<Rightarrow> m);
          m = (case e_next e of Some q \<Rightarrow> set_elem q (e_prev_update (\<lambda>_. e_prev e)) m | None \<Rightarrow> m)
      in m\<lparr>mem := (mem m)(p := None)\<rparr>)"

definition hm_erase ::
    "('k \<Rightarrow> u32) \<Rightarrow> ('k \<Rightarrow> 'k \<Rightarrow> bool) \<Rightarrow> 'k \<Rightarrow> ('k, 'v) hmap \<Rightarrow> (bool \<times> ('k, 'v) hmap) option" where
  "hm_erase hasher cmp k m =
     (case lookup_idx hasher cmp m k of
        None \<Rightarrow> None
      | Some None \<Rightarrow> Some (False, m)
      | Some (Some idx) \<Rightarrow>
          (let ci = capacity_idx m
           in case erase_loop ci (capacity_at ci) (hashes m) (elements m) idx
                     (home_idx ci (of_nat (idx + 1))) of
                None \<Rightarrow> None
              | Some (hs, es, idx') \<Rightarrow>
                  (case mem m (es ! idx') of
                     None \<Rightarrow> None
                   | Some e \<Rightarrow>
                       (let m' = unlink_element (es ! idx') e
                                   (m\<lparr>hashes := hs[idx' := EMPTY_HASH], elements := es\<rparr>)
                        in Some (True, m'\<lparr>msize := msize m' - 1\<rparr>)))))"

section \<open>Clearing, reserving, iterating\<close>

text \<open>\<open>_clear_data\<close> walks back from the tail deleting elements.\<close>

fun clear_data :: "nat \<Rightarrow> nat option \<Rightarrow> (nat \<Rightarrow> ('k, 'v) elem option)
    \<Rightarrow> (nat \<Rightarrow> ('k, 'v) elem option) option" where
  "clear_data fuel None mm = Some mm"
| "clear_data 0 (Some p) mm = None"
| "clear_data (Suc fuel) (Some p) mm =
     (case mm p of None \<Rightarrow> None | Some e \<Rightarrow> clear_data fuel (e_prev e) (mm(p := None)))"

definition hm_clear :: "('k, 'v) hmap \<Rightarrow> ('k, 'v) hmap option" where
  "hm_clear m =
     (if \<not> allocated m \<or> msize m = 0 then Some m
      else (case clear_data (msize m) (tail_element m) (mem m) of
              None \<Rightarrow> None
            | Some mm \<Rightarrow>
                Some (m\<lparr>mem := mm, hashes := replicate (capacity_at (capacity_idx m)) EMPTY_HASH,
                        tail_element := None, head_element := None, msize := 0\<rparr>)))"

fun reserve_idx :: "nat \<Rightarrow> nat \<Rightarrow> nat \<Rightarrow> nat option" where
  "reserve_idx 0 new_idx cap = None"
| "reserve_idx (Suc fuel) new_idx cap =
     (if capacity_at new_idx < cap
      then (if new_idx + 1 < HASH_TABLE_SIZE_MAX then reserve_idx fuel (new_idx + 1) cap else None)
      else Some new_idx)"

definition hm_reserve :: "nat \<Rightarrow> ('k, 'v) hmap \<Rightarrow> ('k, 'v) hmap option" where
  "hm_reserve cap m =
     (case reserve_idx HASH_TABLE_SIZE_MAX (capacity_idx m) cap of
        None \<Rightarrow> None
      | Some new_idx \<Rightarrow>
          if new_idx = capacity_idx m then Some m
          else if \<not> allocated m then Some (m\<lparr>capacity_idx := new_idx\<rparr>)
          else resize_and_rehash new_idx m)"

text \<open>Iteration: \<open>begin()\<close> is the head, \<open>++\<close> follows \<open>next\<close>, \<open>end()\<close> is the null pointer.\<close>

fun iterate :: "nat \<Rightarrow> ('k, 'v) hmap \<Rightarrow> nat option \<Rightarrow> ('k \<times> 'v) list option" where
  "iterate fuel m None = Some []"
| "iterate 0 m (Some p) = None"
| "iterate (Suc fuel) m (Some p) =
     (case mem m p of
        None \<Rightarrow> None
      | Some e \<Rightarrow> map_option (Cons (e_key e, e_val e)) (iterate fuel m (e_next e)))"

definition hm_items :: "('k, 'v) hmap \<Rightarrow> ('k \<times> 'v) list option" where
  "hm_items m = iterate (msize m) m (head_element m)"

text \<open>The copy constructor: reserve the same capacity, insert the items in order.\<close>

fun insert_all :: "('k \<Rightarrow> u32) \<Rightarrow> ('k \<Rightarrow> 'k \<Rightarrow> bool) \<Rightarrow> ('k \<times> 'v) list \<Rightarrow> ('k, 'v) hmap
    \<Rightarrow> ('k, 'v) hmap option" where
  "insert_all hasher cmp [] m = Some m"
| "insert_all hasher cmp ((k, v) # rest) m =
     (case hm_insert hasher cmp k v False m of
        None \<Rightarrow> None | Some (_, m') \<Rightarrow> insert_all hasher cmp rest m')"

definition hm_copy ::
    "('k \<Rightarrow> u32) \<Rightarrow> ('k \<Rightarrow> 'k \<Rightarrow> bool) \<Rightarrow> ('k, 'v) hmap \<Rightarrow> ('k, 'v) hmap option" where
  "hm_copy hasher cmp other =
     (case hm_reserve (capacity_at (capacity_idx other)) (empty_hmap\<lparr>capacity_idx := 0\<rparr>) of
        None \<Rightarrow> None
      | Some m \<Rightarrow>
          if msize other = 0 then Some m
          else (case hm_items other of
                  None \<Rightarrow> None | Some items \<Rightarrow> insert_all hasher cmp items m))"


section \<open>Slot arithmetic\<close>

definition valid_ci :: "nat \<Rightarrow> bool" where
  "valid_ci ci \<longleftrightarrow> ci < HASH_TABLE_SIZE_MAX"

definition dec_mod :: "nat \<Rightarrow> nat \<Rightarrow> nat" where
  "dec_mod idx cap = (if idx = 0 then cap - 1 else idx - 1)"

lemma primes_bounds:
  "\<forall>p \<in> set hash_table_size_primes. 5 \<le> unat p \<and> unat p \<le> 1610612741"
  by (simp add: hash_table_size_primes_def)

lemma capacity_bounds:
  assumes "valid_ci ci"
  shows "5 \<le> capacity_at ci" "capacity_at ci \<le> 1610612741"
  using primes_bounds assms
  by (auto simp: capacity_at_def valid_ci_def)

lemma home_idx_eq: "valid_ci ci \<Longrightarrow> home_idx ci h = unat h mod capacity_at ci"
  by (simp add: home_idx_def capacity_at_def valid_ci_def unat_mod
      fast_inverse_okD [OF list_all2_nthD [OF primes_table_ok]])

lemma home_idx_less [simp]: "valid_ci ci \<Longrightarrow> home_idx ci h < capacity_at ci"
  using capacity_bounds [of ci] by (simp add: home_idx_eq)

text \<open>The wrapping subtraction of \<open>_get_probe_length\<close> never goes wrong.\<close>

lemma get_probe_length_eq:
  assumes ci: "valid_ci ci" and i: "i < capacity_at ci"
  shows "get_probe_length ci i h =
    (if home_idx ci h \<le> i then i - home_idx ci h else i + capacity_at ci - home_idx ci h)"
proof -
  define c :: u32 where "c = hash_table_size_primes ! ci"
  define o' :: u32 where
    "o' = fastmod h (hash_table_size_primes_inv ! ci) (hash_table_size_primes ! ci)"
  have uc: "unat c = capacity_at ci" by (simp add: c_def capacity_at_def)
  have uo: "unat o' = home_idx ci h" by (simp add: o'_def home_idx_def)
  have h: "home_idx ci h < capacity_at ci" using ci by simp
  have b: "capacity_at ci \<le> 1610612741" using ci by (rule capacity_bounds)
  have ui: "unat (of_nat i :: u32) = i"
    using i b by (simp add: unat_of_nat take_bit_eq_mod)
  have d: "unat (of_nat i - o' + c) = i + capacity_at ci - home_idx ci h"
  proof -
    have "of_nat i - o' + c = (of_nat (i + capacity_at ci - home_idx ci h) :: u32)"
    proof -
      have "home_idx ci h \<le> i + capacity_at ci" using h by simp
      then have "(of_nat (i + capacity_at ci - home_idx ci h) :: u32)
          = of_nat i + of_nat (capacity_at ci) - of_nat (home_idx ci h)"
        by (simp only: of_nat_diff of_nat_add)
      moreover have "(of_nat (capacity_at ci) :: u32) = c" "(of_nat (home_idx ci h) :: u32) = o'"
        by (simp_all flip: uc uo)
      ultimately show ?thesis by (simp only:) (simp add: algebra_simps)
    qed
    moreover have "i + capacity_at ci - home_idx ci h < 2 ^ 32" using i b by simp
    ultimately show ?thesis by (simp add: unat_of_nat take_bit_eq_mod)
  qed
  have le: "c \<le> of_nat i - o' + c \<longleftrightarrow> home_idx ci h \<le> i"
    using h by (auto simp: word_le_nat_alt d uc)
  define x where "x = of_nat i - o' + c"
  have "get_probe_length ci i h = unat (if c \<le> x then x - c else x)"
    unfolding get_probe_length_def get_probe_length_w_def Let_def
    unfolding o'_def [symmetric] unfolding c_def [symmetric] x_def ..
  then show ?thesis
    using h le d uc by (auto simp: unat_sub simp flip: x_def)
qed

lemma probe_arith:
  assumes ci: "valid_ci ci" and i: "i < capacity_at ci"
  shows probe_less: "get_probe_length ci i h < capacity_at ci"
    and inc_less: "increment_mod i (capacity_at ci) < capacity_at ci"
    and dec_less: "dec_mod i (capacity_at ci) < capacity_at ci"
    and dec_inc: "dec_mod (increment_mod i (capacity_at ci)) (capacity_at ci) = i"
    and inc_dec: "increment_mod (dec_mod i (capacity_at ci)) (capacity_at ci) = i"
    and inc_neq: "increment_mod i (capacity_at ci) \<noteq> i"
    and dec_neq: "dec_mod i (capacity_at ci) \<noteq> i"
    and probe_inc: "get_probe_length ci i h + 1 < capacity_at ci \<Longrightarrow>
        get_probe_length ci (increment_mod i (capacity_at ci)) h = get_probe_length ci i h + 1"
    and probe_dec: "0 < get_probe_length ci i h \<Longrightarrow>
        get_probe_length ci (dec_mod i (capacity_at ci)) h = get_probe_length ci i h - 1"
    and probe_home: "get_probe_length ci i h = 0 \<longleftrightarrow> i = home_idx ci h"
  using capacity_bounds [OF ci] i home_idx_less [OF ci, of h]
  by (auto simp: get_probe_length_eq [OF ci] increment_mod_def dec_mod_def Let_def split: if_splits)

lemma probe_home_zero: "valid_ci ci \<Longrightarrow> get_probe_length ci (home_idx ci h) h = 0"
  by (simp add: get_probe_length_eq)

lemma inc_funpow:
  assumes "valid_ci ci" "i < capacity_at ci"
  shows "((\<lambda>j. increment_mod j (capacity_at ci)) ^^ k) i = (i + k) mod capacity_at ci"
proof (induction k)
  case 0
  then show ?case using assms by simp
next
  case (Suc k)
  then show ?case using capacity_bounds [OF assms(1)]
    by (auto simp: increment_mod_def Let_def mod_Suc)
qed

lemma inc_reaches:
  assumes ci: "valid_ci ci" and i: "i < capacity_at ci" and j: "j < capacity_at ci"
  shows "\<exists>k < capacity_at ci. ((\<lambda>j. increment_mod j (capacity_at ci)) ^^ k) i = j"
proof (cases "i \<le> j")
  case True
  then show ?thesis using j by (intro exI [of _ "j - i"]) (simp add: inc_funpow [OF ci i] less_imp_diff_less)
next
  case False
  then show ?thesis using i j
    by (intro exI [of _ "j + capacity_at ci - i"]) (simp add: inc_funpow [OF ci i])
qed

section \<open>The Robin Hood invariant\<close>

text \<open>
  Local form: an occupied slot that is displaced from its home by \<open>p > 0\<close> has an occupied
  predecessor displaced by at least \<open>p - 1\<close>.
\<close>

definition rh_slot :: "nat \<Rightarrow> u32 list \<Rightarrow> nat \<Rightarrow> nat \<Rightarrow> bool" where
  "rh_slot ci hs i p \<longleftrightarrow> (0 < p \<longrightarrow>
     (let j = dec_mod i (capacity_at ci)
      in hs ! j \<noteq> EMPTY_HASH \<and> p \<le> get_probe_length ci j (hs ! j) + 1))"

definition rh_inv :: "nat \<Rightarrow> u32 list \<Rightarrow> bool" where
  "rh_inv ci hs \<longleftrightarrow> length hs = capacity_at ci \<and>
     (\<forall>i < capacity_at ci. hs ! i \<noteq> EMPTY_HASH \<longrightarrow>
        rh_slot ci hs i (get_probe_length ci i (hs ! i)))"

text \<open>The occupied slots, as a multiset of (hash, element) pairs.\<close>

definition entries :: "u32 list \<Rightarrow> nat list \<Rightarrow> (u32 \<times> nat) multiset" where
  "entries hs es = mset (filter (\<lambda>p. fst p \<noteq> EMPTY_HASH) (zip hs es))"

lemma rh_invD: "rh_inv ci hs \<Longrightarrow> i < capacity_at ci \<Longrightarrow> hs ! i \<noteq> EMPTY_HASH \<Longrightarrow>
    rh_slot ci hs i (get_probe_length ci i (hs ! i))"
  by (simp add: rh_inv_def)

lemma rh_chain:
  assumes inv: "rh_inv ci hs" and ci: "valid_ci ci"
  shows "i < capacity_at ci \<Longrightarrow> rh_slot ci hs i p \<Longrightarrow> k < p \<Longrightarrow>
    (let j = ((\<lambda>j. dec_mod j (capacity_at ci)) ^^ Suc k) i
     in j < capacity_at ci \<and> hs ! j \<noteq> EMPTY_HASH \<and> p - Suc k \<le> get_probe_length ci j (hs ! j))"
proof (induction k arbitrary: i p)
  case 0
  then show ?case using dec_less [OF ci] by (auto simp: rh_slot_def Let_def)
next
  case (Suc k)
  define j where "j = dec_mod i (capacity_at ci)"
  have j: "j < capacity_at ci" using Suc.prems ci by (simp add: j_def dec_less)
  have occ: "hs ! j \<noteq> EMPTY_HASH" "p \<le> get_probe_length ci j (hs ! j) + 1"
    using Suc.prems by (auto simp: rh_slot_def Let_def j_def)
  have "rh_slot ci hs j (p - 1)"
    using rh_invD [OF inv j occ(1)] occ(2) by (auto simp: rh_slot_def Let_def)
  from Suc.IH [OF j this] Suc.prems(3)
  show ?case
    unfolding funpow_Suc_right [of "Suc k"] o_apply j_def [symmetric]
    by (simp add: Let_def)
qed


section \<open>Insertion keeps the invariant and adds one entry\<close>

abbreviation inc_slot :: "nat \<Rightarrow> nat \<Rightarrow> nat" where
  "inc_slot ci \<equiv> (\<lambda>j. increment_mod j (capacity_at ci))"

lemma dec_inc_funpow:
  assumes ci: "valid_ci ci"
  shows "j < capacity_at ci \<Longrightarrow>
    ((\<lambda>j. dec_mod j (capacity_at ci)) ^^ m) ((inc_slot ci ^^ m) j) = j"
proof (induction m arbitrary: j)
  case 0
  then show ?case by simp
next
  case (Suc m)
  have "(inc_slot ci ^^ Suc m) j = (inc_slot ci ^^ m) (inc_slot ci j)"
    by (simp only: funpow_Suc_right o_apply)
  with Suc show ?case by (simp add: inc_less [OF ci] dec_inc [OF ci])
qed

lemma not_full:
  assumes inv: "rh_inv ci hs" and ci: "valid_ci ci" and i: "i < capacity_at ci"
    and slot: "rh_slot ci hs i p" and occ: "hs ! i \<noteq> EMPTY_HASH"
    and e: "e < capacity_at ci" "hs ! e = EMPTY_HASH"
  shows "p + 1 < capacity_at ci"
proof (rule ccontr)
  assume big: "\<not> p + 1 < capacity_at ci"
  obtain m where m: "m < capacity_at ci" "(inc_slot ci ^^ m) e = i"
    using inc_reaches [OF ci e(1) i] by blast
  then have bk: "((\<lambda>j. dec_mod j (capacity_at ci)) ^^ m) i = e"
    using dec_inc_funpow [OF ci e(1), of m] by simp
  obtain k where k: "m = Suc k" using m(2) e(2) occ by (cases m) auto
  have "k < p" using m(1) k big by linarith
  from rh_chain [OF inv ci i slot this] bk k e(2) show False by (simp add: Let_def)
qed

lemma rh_update:
  assumes inv: "rh_inv ci hs" and ci: "valid_ci ci" and i: "i < capacity_at ci"
    and slot: "rh_slot ci hs i (get_probe_length ci i h)"
    and le: "hs ! i = EMPTY_HASH \<or> get_probe_length ci i (hs ! i) \<le> get_probe_length ci i h"
    and h: "h \<noteq> EMPTY_HASH"
  shows "rh_inv ci (hs[i := h])"
  unfolding rh_inv_def
proof (intro conjI allI impI)
  show "length (hs[i := h]) = capacity_at ci" using inv by (simp add: rh_inv_def)
next
  fix j assume j: "j < capacity_at ci" and occ: "hs[i := h] ! j \<noteq> EMPTY_HASH"
  have len: "length hs = capacity_at ci" using inv by (simp add: rh_inv_def)
  show "rh_slot ci (hs[i := h]) j (get_probe_length ci j (hs[i := h] ! j))"
  proof (cases "j = i")
    case True
    then show ?thesis using slot i len dec_neq [OF ci i]
      by (auto simp: rh_slot_def Let_def)
  next
    case False
    then have "rh_slot ci hs j (get_probe_length ci j (hs ! j))"
      using occ rh_invD [OF inv j] by simp
    then show ?thesis using False le h i len
      by (cases "dec_mod j (capacity_at ci) = i") (auto simp: rh_slot_def Let_def)
  qed
qed

lemma entries_update:
  assumes "i < length hs" and "length es = length hs" and "h \<noteq> EMPTY_HASH"
  shows "hs ! i = EMPTY_HASH \<Longrightarrow> entries (hs[i := h]) (es[i := v]) = add_mset (h, v) (entries hs es)"
    and "hs ! i \<noteq> EMPTY_HASH \<Longrightarrow>
      add_mset (hs ! i, es ! i) (entries (hs[i := h]) (es[i := v])) = add_mset (h, v) (entries hs es)"
proof -
  have z: "(hs ! i, es ! i) \<in># mset (zip hs es)"
    using assms by (force simp: set_zip)
  have eq: "entries (hs[i := h]) (es[i := v]) =
      filter_mset (\<lambda>p. fst p \<noteq> EMPTY_HASH) (add_mset (h, v) (mset (zip hs es) - {#(hs ! i, es ! i)#}))"
  proof -
    have "zip (hs[i := h]) (es[i := v]) = (zip hs es)[i := (h, v)]" by (simp add: update_zip)
    then show ?thesis using assms by (simp add: entries_def mset_update del: filter_mset_add_mset)
  qed
  have eq2: "entries hs es = filter_mset (\<lambda>p. fst p \<noteq> EMPTY_HASH)
      (add_mset (hs ! i, es ! i) (mset (zip hs es) - {#(hs ! i, es ! i)#}))"
    using z by (simp add: entries_def)
  show "hs ! i = EMPTY_HASH \<Longrightarrow> entries (hs[i := h]) (es[i := v]) = add_mset (h, v) (entries hs es)"
    unfolding eq eq2 using assms(3) by simp
  show "hs ! i \<noteq> EMPTY_HASH \<Longrightarrow>
      add_mset (hs ! i, es ! i) (entries (hs[i := h]) (es[i := v])) = add_mset (h, v) (entries hs es)"
    unfolding eq eq2 using assms(3) by simp
qed

lemma insert_loop_correct:
  assumes ci: "valid_ci ci"
  shows "rh_inv ci hs \<Longrightarrow> length es = capacity_at ci \<Longrightarrow> idx < capacity_at ci \<Longrightarrow>
    hash \<noteq> EMPTY_HASH \<Longrightarrow> distance = get_probe_length ci idx hash \<Longrightarrow>
    rh_slot ci hs idx distance \<Longrightarrow> \<exists>k < fuel. hs ! ((inc_slot ci ^^ k) idx) = EMPTY_HASH \<Longrightarrow>
    \<exists>hs' es'. insert_loop ci fuel hs es hash val idx distance = Some (hs', es') \<and>
      rh_inv ci hs' \<and> length es' = capacity_at ci \<and>
      entries hs' es' = add_mset (hash, val) (entries hs es)"
proof (induction fuel arbitrary: hs es hash val idx distance)
  case 0
  then show ?case by simp
next
  case (Suc fuel)
  note inv = Suc.prems(1) and les = Suc.prems(2) and idx = Suc.prems(3) and h = Suc.prems(4)
    and d = Suc.prems(5) and slot = Suc.prems(6)
  have lhs: "length hs = capacity_at ci" using inv by (simp add: rh_inv_def)
  show ?case
  proof (cases "hs ! idx = EMPTY_HASH")
    case True
    have "rh_inv ci (hs[idx := hash])"
      using rh_update [OF inv ci idx] slot d True h by simp
    then show ?thesis
      using True h les idx lhs by (simp add: entries_update(1))
  next
    case False
    obtain k where k: "k < Suc fuel" "hs ! ((inc_slot ci ^^ k) idx) = EMPTY_HASH"
      using Suc.prems(7) by blast
    define nx where "nx = inc_slot ci idx"
    define e where "e = (inc_slot ci ^^ k) idx"
    obtain k' where k': "k = Suc k'" using k(2) False by (cases k) auto
    have e': "e = (inc_slot ci ^^ k') nx" unfolding e_def k' nx_def by (simp only: funpow_Suc_right o_apply)
    have e_less: "e < capacity_at ci"
      unfolding e_def inc_funpow [OF ci idx] using capacity_bounds [OF ci] by simp
    have e0: "hs ! e = EMPTY_HASH" using k(2) by (simp add: e_def)
    have nf: "distance + 1 < capacity_at ci"
      by (rule not_full [OF inv ci idx slot False e_less e0])
    have nx: "nx < capacity_at ci" "dec_mod nx (capacity_at ci) = idx"
      using idx by (simp_all add: nx_def inc_less [OF ci] dec_inc [OF ci])
    let ?p = "get_probe_length ci idx (hs ! idx)"
    show ?thesis
    proof (cases "?p < distance")
      case True
      let ?hs = "hs[idx := hash]" and ?es = "es[idx := val]"
      have inv': "rh_inv ci ?hs"
        using rh_update [OF inv ci idx] slot d True h by simp
      have d': "?p + 1 = get_probe_length ci nx (hs ! idx)"
        using probe_inc [OF ci idx] nf True by (simp add: nx_def)
      have slot': "rh_slot ci ?hs nx (?p + 1)"
        using nx idx lhs h d True by (simp add: rh_slot_def Let_def)
      have "e \<noteq> idx" using e0 False by auto
      then have ex: "\<exists>k < fuel. ?hs ! ((inc_slot ci ^^ k) nx) = EMPTY_HASH"
        using k k' e0 e' by (intro exI [of _ k']) auto
      obtain hs' es' where r: "insert_loop ci fuel ?hs ?es (hs ! idx) (es ! idx) nx (?p + 1) = Some (hs', es')"
        "rh_inv ci hs'" "length es' = capacity_at ci"
        "entries hs' es' = add_mset (hs ! idx, es ! idx) (entries ?hs ?es)"
        using Suc.IH [OF inv' _ nx(1) False d' slot' ex, of ?es "es ! idx"] les by auto
      then show ?thesis
        using False True idx lhs les h by (simp add: Let_def nx_def entries_update(2))
    next
      case nswap: False
      have d': "distance + 1 = get_probe_length ci nx hash"
        using probe_inc [OF ci idx] nf d by (simp add: nx_def)
      have slot': "rh_slot ci hs nx (distance + 1)"
        using nx False nswap by (simp add: rh_slot_def Let_def)
      have ex: "\<exists>k < fuel. hs ! ((inc_slot ci ^^ k) nx) = EMPTY_HASH"
        using k k' e0 e' by (intro exI [of _ k']) auto
      show ?thesis
        using Suc.IH [OF inv les nx(1) h d' slot' ex, of val] False nswap
        by (simp add: Let_def nx_def)
    qed
  qed
qed


section \<open>Lookup finds exactly the stored keys\<close>

definition slot_matches :: "('k \<Rightarrow> 'k \<Rightarrow> bool) \<Rightarrow> ('k, 'v) hmap \<Rightarrow> 'k \<Rightarrow> u32 \<Rightarrow> nat \<Rightarrow> bool" where
  "slot_matches cmp m key hash i \<longleftrightarrow> hashes m ! i = hash \<and>
     (\<exists>e. mem m (elements m ! i) = Some e \<and> cmp (e_key e) key)"

definition slots_alive :: "('k, 'v) hmap \<Rightarrow> bool" where
  "slots_alive m \<longleftrightarrow> (\<forall>i < capacity_at (capacity_idx m).
     hashes m ! i \<noteq> EMPTY_HASH \<longrightarrow> mem m (elements m ! i) \<noteq> None)"

lemma lookup_loop_found:
  assumes inv: "rh_inv ci (hashes m)" and ci: "valid_ci ci" "capacity_idx m = ci"
    and alive: "slots_alive m" and h: "hash \<noteq> EMPTY_HASH"
    and j: "j < capacity_at ci" "slot_matches cmp m key hash j"
    and uniq: "\<And>i. i < capacity_at ci \<Longrightarrow> slot_matches cmp m key hash i \<Longrightarrow> i = j"
  shows "idx < capacity_at ci \<Longrightarrow> (inc_slot ci ^^ n) idx = j \<Longrightarrow>
    distance + n = get_probe_length ci j hash \<Longrightarrow> n < fuel \<Longrightarrow>
    lookup_loop cmp m key hash fuel idx distance = Some (Some j)"
proof (induction fuel arbitrary: idx distance n)
  case 0
  then show ?case by simp
next
  case (Suc fuel)
  have hj: "hashes m ! j = hash" using j by (simp add: slot_matches_def)
  show ?case
  proof (cases n)
    case 0
    then have "idx = j" using Suc.prems by simp
    with 0 show ?thesis
      using Suc.prems j h by (auto simp: Let_def ci slot_matches_def)
  next
    case (Suc n')
    define p where "p = get_probe_length ci j hash"
    have "rh_slot ci (hashes m) j p"
      using rh_invD [OF inv j(1)] hj h by (simp add: p_def)
    moreover have "n' < p" using Suc.prems(3) Suc by (simp add: p_def)
    moreover have "((\<lambda>j. dec_mod j (capacity_at ci)) ^^ Suc n') j = idx"
      using dec_inc_funpow [OF ci(1) Suc.prems(1), of "Suc n'"] Suc.prems(2) Suc by simp
    ultimately have occ: "hashes m ! idx \<noteq> EMPTY_HASH"
      "distance \<le> get_probe_length ci idx (hashes m ! idx)"
      using rh_chain [OF inv ci(1) j(1), of p n'] Suc.prems(3) Suc by (auto simp: Let_def p_def)
    obtain e where e: "mem m (elements m ! idx) = Some e"
      using alive occ Suc.prems(1) ci by (auto simp: slots_alive_def)
    have step: "(inc_slot ci ^^ n') (inc_slot ci idx) = j"
      using Suc.prems(2) unfolding Suc funpow_Suc_right o_apply by simp
    have rec: "lookup_loop cmp m key hash fuel (inc_slot ci idx) (distance + 1) = Some (Some j)"
      by (rule Suc.IH [of _ n']) (use Suc.prems Suc step inc_less [OF ci(1)] in auto)
    show ?thesis
    proof (cases "hashes m ! idx = hash \<and> cmp (e_key e) key")
      case True
      then have "idx = j" using uniq [OF Suc.prems(1)] e by (simp add: slot_matches_def)
      then show ?thesis using True occ e h by (simp add: Let_def ci)
    next
      case False
      then show ?thesis using occ e rec by (simp add: Let_def ci)
    qed
  qed
qed

lemma lookup_loop_absent:
  assumes ci: "valid_ci ci" "capacity_idx m = ci"
    and alive: "slots_alive m" and h: "hash \<noteq> EMPTY_HASH"
    and none: "\<And>i. i < capacity_at ci \<Longrightarrow> \<not> slot_matches cmp m key hash i"
  shows "idx < capacity_at ci \<Longrightarrow> distance \<le> capacity_at ci \<Longrightarrow>
    capacity_at ci < fuel + distance \<Longrightarrow>
    lookup_loop cmp m key hash fuel idx distance = Some None"
proof (induction fuel arbitrary: idx distance)
  case 0
  then show ?case by simp
next
  case (Suc fuel)
  show ?case
  proof (cases "hashes m ! idx = EMPTY_HASH \<or> get_probe_length ci idx (hashes m ! idx) < distance")
    case True
    then show ?thesis by (auto simp: Let_def ci)
  next
    case False
    then have d: "distance < capacity_at ci"
      using probe_less [OF ci(1) Suc.prems(1), of "hashes m ! idx"] by linarith
    obtain e where e: "mem m (elements m ! idx) = Some e"
      using alive False Suc.prems(1) ci by (auto simp: slots_alive_def)
    have "\<not> (hashes m ! idx = hash \<and> cmp (e_key e) key)"
      using none [OF Suc.prems(1)] e by (simp add: slot_matches_def)
    moreover have "lookup_loop cmp m key hash fuel (inc_slot ci idx) (distance + 1) = Some None"
      by (rule Suc.IH) (use Suc.prems d inc_less [OF ci(1)] in auto)
    ultimately show ?thesis using False e by (auto simp: Let_def ci)
  qed
qed

lemma lookup_unchecked_correct:
  assumes inv: "rh_inv ci (hashes m)" and ci: "valid_ci ci" "capacity_idx m = ci"
    and alive: "slots_alive m" and h: "hash \<noteq> EMPTY_HASH"
    and uniq: "\<And>i j. i < capacity_at ci \<Longrightarrow> j < capacity_at ci \<Longrightarrow>
      slot_matches cmp m key hash i \<Longrightarrow> slot_matches cmp m key hash j \<Longrightarrow> i = j"
  shows "j < capacity_at ci \<Longrightarrow> slot_matches cmp m key hash j \<Longrightarrow>
      lookup_idx_unchecked cmp m key hash = Some (Some j)"
    and "(\<And>i. i < capacity_at ci \<Longrightarrow> \<not> slot_matches cmp m key hash i) \<Longrightarrow>
      lookup_idx_unchecked cmp m key hash = Some None"
proof -
  assume j: "j < capacity_at ci" "slot_matches cmp m key hash j"
  define n where "n = get_probe_length ci j hash"
  have n: "n < capacity_at ci" using probe_less [OF ci(1) j(1)] by (simp add: n_def)
  have "(inc_slot ci ^^ n) (home_idx ci hash) = j"
    using j(1) home_idx_less [OF ci(1), of hash]
    by (auto simp: inc_funpow [OF ci(1)] n_def get_probe_length_eq [OF ci(1) j(1)])
  then show "lookup_idx_unchecked cmp m key hash = Some (Some j)"
    unfolding lookup_idx_unchecked_def ci(2)
    by (intro lookup_loop_found [OF inv ci alive h j, where n = n])
      (use uniq j n home_idx_less [OF ci(1)] in \<open>auto simp: n_def\<close>)
next
  assume none: "\<And>i. i < capacity_at ci \<Longrightarrow> \<not> slot_matches cmp m key hash i"
  show "lookup_idx_unchecked cmp m key hash = Some None"
    unfolding lookup_idx_unchecked_def ci(2)
    by (rule lookup_loop_absent [OF ci alive h none])
      (use home_idx_less [OF ci(1)] in auto)
qed

section \<open>Deletion closes the gap\<close>

text \<open>The invariant while a hole (a slot that will be emptied) at \<open>idx\<close> moves forward;
  \<open>b\<close> is the displacement the hole's slot originally carried.\<close>

definition rh_hole :: "nat \<Rightarrow> u32 list \<Rightarrow> nat \<Rightarrow> nat \<Rightarrow> bool" where
  "rh_hole ci hs idx b \<longleftrightarrow> length hs = capacity_at ci \<and> rh_slot ci hs idx b \<and>
     (\<forall>i < capacity_at ci. i \<noteq> idx \<longrightarrow> hs ! i \<noteq> EMPTY_HASH \<longrightarrow>
        (if dec_mod i (capacity_at ci) = idx then get_probe_length ci i (hs ! i) \<le> b + 1
         else rh_slot ci hs i (get_probe_length ci i (hs ! i))))"

lemma rh_inv_hole:
  assumes "rh_inv ci hs" "idx < capacity_at ci" "hs ! idx \<noteq> EMPTY_HASH"
  shows "rh_hole ci hs idx (get_probe_length ci idx (hs ! idx))"
  using assms unfolding rh_hole_def rh_inv_def
  by (auto simp: rh_slot_def Let_def)

lemma rh_hole_close:
  assumes ci: "valid_ci ci" and idx: "idx < capacity_at ci" and hole: "rh_hole ci hs idx b"
    and nx: "nx = inc_slot ci idx"
    and stop: "hs ! nx = EMPTY_HASH \<or> get_probe_length ci nx (hs ! nx) = 0"
  shows "rh_inv ci (hs[idx := EMPTY_HASH])"
  unfolding rh_inv_def
proof (intro conjI allI impI)
  show "length (hs[idx := EMPTY_HASH]) = capacity_at ci" using hole by (simp add: rh_hole_def)
next
  fix i assume i: "i < capacity_at ci" and occ: "hs[idx := EMPTY_HASH] ! i \<noteq> EMPTY_HASH"
  have len: "length hs = capacity_at ci" using hole by (simp add: rh_hole_def)
  have ne: "i \<noteq> idx" using occ idx len by auto
  show "rh_slot ci (hs[idx := EMPTY_HASH]) i (get_probe_length ci i (hs[idx := EMPTY_HASH] ! i))"
  proof (cases "dec_mod i (capacity_at ci) = idx")
    case True
    then have "i = nx" using inc_dec [OF ci i] nx by auto
    then show ?thesis using stop occ ne by (auto simp: rh_slot_def)
  next
    case False
    then have "rh_slot ci hs i (get_probe_length ci i (hs ! i))"
      using hole i ne occ by (simp add: rh_hole_def)
    then show ?thesis using False ne by (simp add: rh_slot_def Let_def)
  qed
qed

lemma rh_hole_shift:
  assumes ci: "valid_ci ci" and idx: "idx < capacity_at ci" and hole: "rh_hole ci hs idx b"
    and nx: "nx = inc_slot ci idx" and h: "hs ! idx \<noteq> EMPTY_HASH"
    and go: "hs ! nx \<noteq> EMPTY_HASH" "get_probe_length ci nx (hs ! nx) \<noteq> 0"
  shows "rh_hole ci (hs[nx := hs ! idx, idx := hs ! nx]) nx (get_probe_length ci nx (hs ! nx))"
proof -
  define q where "q = get_probe_length ci nx (hs ! nx)"
  define hs' where "hs' = hs[nx := hs ! idx, idx := hs ! nx]"
  have nxl: "nx < capacity_at ci" and dnx: "dec_mod nx (capacity_at ci) = idx" and ne: "nx \<noteq> idx"
    using nx idx by (simp_all add: inc_less [OF ci] dec_inc [OF ci] inc_neq [OF ci])
  have len: "length hs = capacity_at ci" using hole by (simp add: rh_hole_def)
  have len': "length hs' = capacity_at ci" using len by (simp add: hs'_def)
  have qb: "q \<le> b + 1" using hole nxl ne go dnx by (auto simp: rh_hole_def q_def)
  have pd: "get_probe_length ci idx (hs ! nx) = q - 1"
    using probe_dec [OF ci nxl, of "hs ! nx"] go(2) dnx by (simp add: q_def)
  have at: "hs' ! nx = hs ! idx" "hs' ! idx = hs ! nx"
    "\<And>i. i \<noteq> nx \<Longrightarrow> i \<noteq> idx \<Longrightarrow> hs' ! i = hs ! i"
    using nxl idx len ne by (simp_all add: hs'_def)
  have dne: "dec_mod idx (capacity_at ci) \<noteq> idx" by (rule dec_neq [OF ci idx])
  have "rh_slot ci hs' nx q"
    using go(1) pd at dnx by (simp add: rh_slot_def Let_def)
  moreover have "if dec_mod i (capacity_at ci) = nx then get_probe_length ci i (hs' ! i) \<le> q + 1
       else rh_slot ci hs' i (get_probe_length ci i (hs' ! i))"
    if i: "i < capacity_at ci" "i \<noteq> nx" "hs' ! i \<noteq> EMPTY_HASH" for i
  proof (cases "i = idx")
    case True
    have "rh_slot ci hs idx b" using hole by (simp add: rh_hole_def)
    then have "rh_slot ci hs idx (q - 1)" using qb by (auto simp: rh_slot_def Let_def)
    moreover have "dec_mod idx (capacity_at ci) \<noteq> nx"
    proof
      assume "dec_mod idx (capacity_at ci) = nx"
      then have "inc_slot ci (inc_slot ci idx) = idx" using inc_dec [OF ci idx] nx by simp
      then show False using capacity_bounds [OF ci] idx
        by (auto simp: increment_mod_def Let_def split: if_splits)
    qed
    ultimately show ?thesis using True at pd dne by (simp add: rh_slot_def Let_def)
  next
    case False
    have di: "dec_mod i (capacity_at ci) \<noteq> idx"
      using inc_dec [OF ci i(1)] nx i(2) by auto
    then have "rh_slot ci hs i (get_probe_length ci i (hs ! i))"
      using hole i False at by (auto simp: rh_hole_def)
    then show ?thesis using False i at di
      by (auto simp: rh_slot_def Let_def q_def)
  qed
  ultimately show ?thesis
    unfolding rh_hole_def hs'_def [symmetric] q_def [symmetric]
    using len' by blast
qed

lemma entries_swap:
  assumes "i < length hs" "j < length hs" "length es = length hs"
  shows "entries (hs[j := hs ! i, i := hs ! j]) (es[j := es ! i, i := es ! j]) = entries hs es"
proof -
  define zs where "zs = zip hs es"
  have "zip (hs[j := hs ! i, i := hs ! j]) (es[j := es ! i, i := es ! j])
      = zs[j := zs ! i, i := zs ! j]"
    using assms by (simp add: zs_def update_zip)
  moreover have "mset (zs[j := zs ! i, i := zs ! j]) = mset zs"
    using assms mset_swap [of i zs j] by (simp add: zs_def)
  ultimately show ?thesis by (simp add: entries_def zs_def)
qed

lemma entries_clear:
  assumes "i < length hs" "length es = length hs" "hs ! i \<noteq> EMPTY_HASH"
  shows "entries hs es = add_mset (hs ! i, es ! i) (entries (hs[i := EMPTY_HASH]) es)"
proof -
  have z: "(hs ! i, es ! i) \<in># mset (zip hs es)"
    using assms by (force simp: set_zip)
  have "zip (hs[i := EMPTY_HASH]) es = (zip hs es)[i := (EMPTY_HASH, es ! i)]"
    using assms by (simp add: update_zip)
  then have "entries (hs[i := EMPTY_HASH]) es =
      filter_mset (\<lambda>p. fst p \<noteq> EMPTY_HASH) (mset (zip hs es) - {#(hs ! i, es ! i)#})"
    using assms by (simp add: entries_def mset_update)
  moreover have "entries hs es = filter_mset (\<lambda>p. fst p \<noteq> EMPTY_HASH)
      (add_mset (hs ! i, es ! i) (mset (zip hs es) - {#(hs ! i, es ! i)#}))"
    using z by (simp add: entries_def)
  ultimately show ?thesis using assms(3) by simp
qed

lemma erase_loop_correct:
  assumes ci: "valid_ci ci"
  shows "rh_hole ci hs idx b \<Longrightarrow> length es = capacity_at ci \<Longrightarrow> idx < capacity_at ci \<Longrightarrow>
    hs ! idx \<noteq> EMPTY_HASH \<Longrightarrow> nx = inc_slot ci idx \<Longrightarrow>
    \<exists>k < fuel. hs ! ((inc_slot ci ^^ k) nx) = EMPTY_HASH \<Longrightarrow>
    \<exists>hs' es' idx'. erase_loop ci fuel hs es idx nx = Some (hs', es', idx') \<and>
      idx' < capacity_at ci \<and> length hs' = capacity_at ci \<and> length es' = capacity_at ci \<and>
      hs' ! idx' = hs ! idx \<and> es' ! idx' = es ! idx \<and>
      rh_inv ci (hs'[idx' := EMPTY_HASH]) \<and> entries hs' es' = entries hs es"
proof (induction fuel arbitrary: hs es idx nx b)
  case 0
  then show ?case by simp
next
  case (Suc fuel)
  note hole = Suc.prems(1) and les = Suc.prems(2) and idx = Suc.prems(3) and h = Suc.prems(4)
    and nx = Suc.prems(5)
  have len: "length hs = capacity_at ci" using hole by (simp add: rh_hole_def)
  have nxl: "nx < capacity_at ci" "nx \<noteq> idx"
    using nx idx by (simp_all add: inc_less [OF ci] inc_neq [OF ci])
  show ?case
  proof (cases "hs ! nx \<noteq> EMPTY_HASH \<and> get_probe_length ci nx (hs ! nx) \<noteq> 0")
    case False
    then show ?thesis
      using rh_hole_close [OF ci idx hole nx] idx len les by auto
  next
    case True
    let ?hs = "hs[nx := hs ! idx, idx := hs ! nx]" and ?es = "es[nx := es ! idx, idx := es ! nx]"
    have hole': "rh_hole ci ?hs nx (get_probe_length ci nx (hs ! nx))"
      using rh_hole_shift [OF ci idx hole nx h] True by simp
    obtain k where k: "k < Suc fuel" "hs ! ((inc_slot ci ^^ k) nx) = EMPTY_HASH"
      using Suc.prems(6) by blast
    obtain k' where k': "k = Suc k'" using k True by (cases k) auto
    define e where "e = (inc_slot ci ^^ k') (inc_slot ci nx)"
    have e0: "hs ! e = EMPTY_HASH"
      using k(2) unfolding e_def k' funpow_Suc_right o_apply .
    then have "e \<noteq> nx" "e \<noteq> idx" using True h by auto
    then have "?hs ! e = EMPTY_HASH" using e0 by simp
    then have ex: "\<exists>k < fuel. ?hs ! ((inc_slot ci ^^ k) (inc_slot ci nx)) = EMPTY_HASH"
      using k k' by (auto simp: e_def)
    have at: "?hs ! nx = hs ! idx" "?es ! nx = es ! idx"
      using nxl len les idx by simp_all
    have "entries ?hs ?es = entries hs es"
      by (rule entries_swap) (use idx nxl len les in auto)
    then show ?thesis
      using Suc.IH [OF hole' _ nxl(1) _ refl ex, of ?es] True les at h by auto
  qed
qed


section \<open>The doubly linked list\<close>

definition key_of :: "(nat \<Rightarrow> ('k, 'v) elem option) \<Rightarrow> nat \<Rightarrow> 'k" where
  "key_of mm p = e_key (the (mm p))"

definition val_of :: "(nat \<Rightarrow> ('k, 'v) elem option) \<Rightarrow> nat \<Rightarrow> 'v" where
  "val_of mm p = e_val (the (mm p))"

definition items_of :: "(nat \<Rightarrow> ('k, 'v) elem option) \<Rightarrow> nat list \<Rightarrow> ('k \<times> 'v) list" where
  "items_of mm ps = map (\<lambda>p. (key_of mm p, val_of mm p)) ps"

definition next_in :: "nat list \<Rightarrow> nat \<Rightarrow> nat option" where
  "next_in ps i = (if Suc i < length ps then Some (ps ! Suc i) else None)"

definition prev_in :: "nat list \<Rightarrow> nat \<Rightarrow> nat option" where
  "prev_in ps i = (if i = 0 then None else Some (ps ! (i - 1)))"

definition linked ::
    "(nat \<Rightarrow> ('k, 'v) elem option) \<Rightarrow> nat option \<Rightarrow> nat option \<Rightarrow> nat list \<Rightarrow> bool" where
  "linked mm h t ps \<longleftrightarrow> distinct ps
     \<and> h = (if ps = [] then None else Some (hd ps))
     \<and> t = (if ps = [] then None else Some (last ps))
     \<and> (\<forall>i < length ps. \<exists>e. mm (ps ! i) = Some e
          \<and> e_next e = next_in ps i \<and> e_prev e = prev_in ps i)"

lemma linkedD:
  assumes "linked mm h t ps" "i < length ps"
  obtains e where "mm (ps ! i) = Some e" "e_next e = next_in ps i" "e_prev e = prev_in ps i"
  using assms unfolding linked_def by blast

lemma linked_mem: "linked mm h t ps \<Longrightarrow> p \<in> set ps \<Longrightarrow> \<exists>e. mm p = Some e"
  by (auto simp: in_set_conv_nth elim: linkedD)

lemma linked_distinct: "linked mm h t ps \<Longrightarrow> distinct ps"
  by (simp add: linked_def)

lemma linked_append:
  assumes l: "linked mm (Some h) (Some t) ps" and p: "p \<notin> set ps"
    and m: "mm p = Some \<lparr>e_next = None, e_prev = None, e_key = k, e_val = v\<rparr>"
    and mm1: "mm1 = mm(t := map_option (e_next_update (\<lambda>_. Some p)) (mm t))"
    and mm2: "mm2 = mm1(p := map_option (e_prev_update (\<lambda>_. Some t)) (mm1 p))"
  shows "linked mm2 (Some h) (Some p) (ps @ [p])"
proof -
  have ne: "ps \<noteq> []" and t: "t = last ps" and h: "h = hd ps" and d: "distinct ps"
    using l by (auto simp: linked_def split: if_splits)
  have tp: "t \<noteq> p" using p t ne last_in_set by metis
  have tn: "ps ! (length ps - 1) = t" using ne t by (simp add: last_conv_nth)
  have "\<exists>e. mm2 ((ps @ [p]) ! i) = Some e \<and> e_next e = next_in (ps @ [p]) i
      \<and> e_prev e = prev_in (ps @ [p]) i" if i: "i < length (ps @ [p])" for i
  proof (cases "i = length ps")
    case True
    then show ?thesis using m mm1 mm2 tp tn ne
      by (simp add: next_in_def prev_in_def nth_append)
  next
    case False
    then have il: "i < length ps" using i by simp
    obtain e where e: "mm (ps ! i) = Some e" "e_next e = next_in ps i" "e_prev e = prev_in ps i"
      using l il by (rule linkedD)
    have ip: "ps ! i \<noteq> p" using p il by auto
    show ?thesis
    proof (cases "ps ! i = t")
      case True
      then have "i = length ps - 1"
        using nth_eq_iff_index_eq [OF d il, of "length ps - 1"] tn ne by simp
      then show ?thesis using True e ip mm1 mm2 ne il
        by (auto simp: next_in_def prev_in_def nth_append)
    next
      case False
      then have "Suc i < length ps" using il tn by (cases "i = length ps - 1") auto
      then show ?thesis using False e ip mm1 mm2 il
        by (auto simp: next_in_def prev_in_def nth_append)
    qed
  qed
  then show ?thesis using d p ne h by (simp add: linked_def)
qed

lemma linked_prepend:
  assumes l: "linked mm (Some h) (Some t) ps" and p: "p \<notin> set ps"
    and m: "mm p = Some \<lparr>e_next = None, e_prev = None, e_key = k, e_val = v\<rparr>"
    and mm1: "mm1 = mm(h := map_option (e_prev_update (\<lambda>_. Some p)) (mm h))"
    and mm2: "mm2 = mm1(p := map_option (e_next_update (\<lambda>_. Some h)) (mm1 p))"
  shows "linked mm2 (Some p) (Some t) (p # ps)"
proof -
  have ne: "ps \<noteq> []" and t: "t = last ps" and h: "h = hd ps" and d: "distinct ps"
    using l by (auto simp: linked_def split: if_splits)
  have hp: "h \<noteq> p" using p h ne hd_in_set by metis
  have hn: "ps ! 0 = h" using ne h by (simp add: hd_conv_nth)
  have "\<exists>e. mm2 ((p # ps) ! i) = Some e \<and> e_next e = next_in (p # ps) i
      \<and> e_prev e = prev_in (p # ps) i" if i: "i < length (p # ps)" for i
  proof (cases i)
    case 0
    then show ?thesis using m mm1 mm2 hp hn ne
      by (simp add: next_in_def prev_in_def)
  next
    case (Suc j)
    then have jl: "j < length ps" using i by simp
    obtain e where e: "mm (ps ! j) = Some e" "e_next e = next_in ps j" "e_prev e = prev_in ps j"
      using l jl by (rule linkedD)
    have jp: "ps ! j \<noteq> p" using p jl by auto
    show ?thesis
    proof (cases "ps ! j = h")
      case True
      then have "j = 0" using nth_eq_iff_index_eq [OF d jl, of 0] hn ne by simp
      then show ?thesis using True e jp mm1 mm2 Suc
        by (auto simp: next_in_def prev_in_def)
    next
      case False
      then have "j \<noteq> 0" using hn by (cases j) auto
      then show ?thesis using False e jp mm1 mm2 Suc
        by (auto simp: next_in_def prev_in_def nth_Cons')
    qed
  qed
  then show ?thesis using d p ne t by (simp add: linked_def)
qed

text \<open>Unlinking the element at position \<open>i\<close>.\<close>

lemma nth_remove_at:
  assumes "i < length ps" "j < length ps - 1"
  shows "(take i ps @ drop (Suc i) ps) ! j = (if j < i then ps ! j else ps ! Suc j)"
  using assms by (auto simp: nth_append)

lemma linked_remove:
  assumes l: "linked mm h t ps" and i: "i < length ps"
    and p: "p = ps ! i" and e: "mm p = Some e"
    and mm1: "mm1 = (case e_prev e of None \<Rightarrow> mm
        | Some q \<Rightarrow> mm(q := map_option (e_next_update (\<lambda>_. e_next e)) (mm q)))"
    and mm2: "mm2 = (case e_next e of None \<Rightarrow> mm1
        | Some q \<Rightarrow> mm1(q := map_option (e_prev_update (\<lambda>_. e_prev e)) (mm1 q)))"
    and h': "h' = (if h = Some p then e_next e else h)"
    and t': "t' = (if t = Some p then e_prev e else t)"
  shows "linked (mm2(p := None)) h' t' (take i ps @ drop (Suc i) ps)"
proof -
  let ?qs = "take i ps @ drop (Suc i) ps"
  have d: "distinct ps" using l by (rule linked_distinct)
  have dq: "distinct ?qs"
  proof -
    have "distinct (take i ps @ ps ! i # drop (Suc i) ps)"
      using d id_take_nth_drop [OF i] by simp
    then show ?thesis by auto
  qed
  have pne: "ps \<noteq> []" using i by auto
  have lq: "length ?qs = length ps - 1" using i by simp
  have inj: "\<And>a b. a < length ps \<Longrightarrow> b < length ps \<Longrightarrow> ps ! a = ps ! b \<longleftrightarrow> a = b"
    using d by (simp add: nth_eq_iff_index_eq)
  have en: "e_next e = next_in ps i" and ep: "e_prev e = prev_in ps i"
    using linkedD [OF l i] e p by (metis option.inject)+
  have hne: "h = Some (ps ! 0)" "t = Some (ps ! (length ps - 1))"
    using l i by (auto simp: linked_def hd_conv_nth last_conv_nth)
  have hd: "h' = (if ?qs = [] then None else Some (hd ?qs))"
  proof (cases "i = 0")
    case True
    then show ?thesis using hne h' p en i
      by (auto simp: next_in_def hd_drop_conv_nth)
  next
    case False
    have "0 < length ps" using i by linarith
    then have "ps ! 0 \<noteq> p" using inj [of 0 i] i p False by metis
    moreover have "?qs \<noteq> []" "hd ?qs = ps ! 0"
      using False i by (auto simp: hd_append hd_conv_nth)
    ultimately show ?thesis using hne h' by simp
  qed
  have tl: "t' = (if ?qs = [] then None else Some (last ?qs))"
  proof (cases "i = length ps - 1")
    case True
    then show ?thesis using hne t' p ep i lq
      by (auto simp: prev_in_def last_conv_nth nth_append)
  next
    case False
    then have "ps ! (length ps - 1) \<noteq> p" using inj [of "length ps - 1" i] i p by auto
    moreover have si: "Suc i < length ps" using False i by linarith
    then have "?qs \<noteq> []" "last ?qs = last ps" by (auto simp: last_append last_drop)
    then have "?qs \<noteq> []" "last ?qs = ps ! (length ps - 1)"
      using last_conv_nth [of ps] by (simp_all add: pne)
    ultimately show ?thesis using hne t' by simp
  qed
  have "\<exists>e'. (mm2(p := None)) (?qs ! j) = Some e' \<and> e_next e' = next_in ?qs j
      \<and> e_prev e' = prev_in ?qs j" if j: "j < length ?qs" for j
  proof -
    define j' where "j' = (if j < i then j else Suc j)"
    have j': "j' < length ps" "j' \<noteq> i" using j lq by (auto simp: j'_def)
    have q: "?qs ! j = ps ! j'" using nth_remove_at [OF i] j lq by (simp add: j'_def)
    have qp: "ps ! j' \<noteq> p" using inj [of j' i] j' i p by simp
    obtain e' where e': "mm (ps ! j') = Some e'" "e_next e' = next_in ps j'" "e_prev e' = prev_in ps j'"
      using l j'(1) by (rule linkedD)
    have nx: "next_in ?qs j = (if Suc j' = i then next_in ps i else next_in ps j')"
      using i j lq by (auto simp: next_in_def j'_def nth_remove_at)
    have pv: "prev_in ?qs j = (if j' = Suc i then prev_in ps i else prev_in ps j')"
      using i j lq by (auto simp: prev_in_def j'_def nth_remove_at nth_append)
    have m1: "mm1 (ps ! j') = Some (if Suc j' = i then e'\<lparr>e_next := e_next e\<rparr> else e')"
      using mm1 e' ep inj [of j' "i - 1"] j' i
      by (auto simp: prev_in_def split: if_splits)
    have m2: "mm2 (ps ! j') = map_option (\<lambda>x. if j' = Suc i then x\<lparr>e_prev := e_prev e\<rparr> else x) (mm1 (ps ! j'))"
      using mm2 en inj [of j' "Suc i"] j' i
      by (auto simp: next_in_def option.map_ident split: if_splits)
    show ?thesis
      using m1 m2 q qp nx pv e' en ep by auto
  qed
  then show ?thesis using dq hd tl by (simp add: linked_def)
qed


section \<open>The invariant of the whole map\<close>

definition table_ok :: "('k, 'v) hmap \<Rightarrow> bool" where
  "table_ok m \<longleftrightarrow> valid_ci (capacity_idx m) \<and> rh_inv (capacity_idx m) (hashes m)
     \<and> length (elements m) = capacity_at (capacity_idx m)"

definition hm_inv :: "('k \<Rightarrow> u32) \<Rightarrow> ('k, 'v) hmap \<Rightarrow> nat list \<Rightarrow> bool" where
  "hm_inv hasher m ps \<longleftrightarrow>
     valid_ci (capacity_idx m)
   \<and> linked (mem m) (head_element m) (tail_element m) ps
   \<and> dom (mem m) = set ps \<and> (\<forall>p \<in> set ps. p < brk m)
   \<and> distinct (map (key_of (mem m)) ps)
   \<and> msize m = length ps
   \<and> length ps < capacity_at (capacity_idx m)
   \<and> (if allocated m then table_ok m \<and> entries (hashes m) (elements m)
          = mset (map (\<lambda>p. (key_hash hasher (key_of (mem m) p), p)) ps)
      else ps = [])"

lemma key_hash_nz [simp]: "key_hash hasher k \<noteq> EMPTY_HASH"
  by (simp add: key_hash_def Let_def EMPTY_HASH_def)

lemma entries_alt:
  assumes "length es = length hs"
  shows "entries hs es =
    mset (map (\<lambda>i. (hs ! i, es ! i)) (filter (\<lambda>i. hs ! i \<noteq> EMPTY_HASH) [0..<length hs]))"
proof -
  have "zip hs es = map (\<lambda>i. (hs ! i, es ! i)) [0..<length hs]"
    using assms by (intro nth_equalityI) auto
  then show ?thesis by (simp add: entries_def filter_map o_def)
qed

lemma entries_memE:
  assumes "(h, p) \<in># entries hs es" "length es = length hs"
  obtains i where "i < length hs" "hs ! i = h" "es ! i = p" "h \<noteq> EMPTY_HASH"
  using assms by (auto simp: entries_alt)

lemma entries_memI:
  assumes "i < length hs" "length es = length hs" "hs ! i \<noteq> EMPTY_HASH"
  shows "(hs ! i, es ! i) \<in># entries hs es"
  using assms by (auto simp: entries_alt)

lemma entries_inj:
  assumes e: "entries hs es = mset (map (\<lambda>p. (g p, p)) ps)" and l: "length es = length hs"
    and d: "distinct ps"
    and i: "i < length hs" "hs ! i \<noteq> EMPTY_HASH" and j: "j < length hs" "hs ! j \<noteq> EMPTY_HASH"
    and eq: "es ! i = es ! j"
  shows "i = j"
proof -
  let ?is = "filter (\<lambda>i. hs ! i \<noteq> EMPTY_HASH) [0..<length hs]"
  have "image_mset snd (entries hs es) = mset ps" unfolding e by (simp flip: mset_map add: o_def)
  then have "mset (map (\<lambda>i. es ! i) ?is) = mset ps"
    using l by (simp add: entries_alt flip: mset_map) (simp add: o_def)
  then have "distinct (map (\<lambda>i. es ! i) ?is)" using d mset_eq_imp_distinct_iff by blast
  then have "inj_on (\<lambda>i. es ! i) (set ?is)" by (simp add: distinct_map)
  then show ?thesis using i j eq by (auto dest: inj_onD)
qed

lemma entries_space:
  assumes "size (entries hs es) < length hs" "length es = length hs"
  shows "\<exists>i < length hs. hs ! i = EMPTY_HASH"
proof (rule ccontr)
  assume "\<not> ?thesis"
  then have "filter (\<lambda>i. hs ! i \<noteq> EMPTY_HASH) [0..<length hs] = [0..<length hs]"
    by (intro filter_True) auto
  then have "size (entries hs es) = length hs" using assms(2) by (simp add: entries_alt)
  with assms(1) show False by simp
qed

lemma empty_slot_reach:
  assumes ci: "valid_ci ci" and i: "i < capacity_at ci" and l: "length hs = capacity_at ci"
    and sp: "size (entries hs es) < capacity_at ci" "length es = capacity_at ci"
  shows "\<exists>k < capacity_at ci. hs ! ((inc_slot ci ^^ k) i) = EMPTY_HASH"
proof -
  obtain j where "j < capacity_at ci" "hs ! j = EMPTY_HASH"
    using entries_space [of hs es] sp l by auto
  then show ?thesis using inc_reaches [OF ci i] by metis
qed

section \<open>Lookup on a well-formed map\<close>

lemma hm_inv_mem:
  assumes "hm_inv hasher m ps" "p \<in> set ps"
  obtains e where "mem m p = Some e" "e_key e = key_of (mem m) p" "e_val e = val_of (mem m) p"
  using assms by (auto simp: hm_inv_def key_of_def val_of_def dest: linked_mem)

lemma slot_elem:
  assumes inv: "hm_inv hasher m ps" "allocated m"
    and i: "i < capacity_at (capacity_idx m)" "hashes m ! i \<noteq> EMPTY_HASH"
  shows "elements m ! i \<in> set ps"
    "hashes m ! i = key_hash hasher (key_of (mem m) (elements m ! i))"
proof -
  have l: "length (hashes m) = capacity_at (capacity_idx m)"
    "length (elements m) = capacity_at (capacity_idx m)"
    using inv by (auto simp: hm_inv_def table_ok_def rh_inv_def)
  have "(hashes m ! i, elements m ! i) \<in># entries (hashes m) (elements m)"
    using i l by (intro entries_memI) auto
  then show "elements m ! i \<in> set ps"
    "hashes m ! i = key_hash hasher (key_of (mem m) (elements m ! i))"
    using inv by (auto simp: hm_inv_def)
qed

lemma lookup_correct:
  assumes inv: "hm_inv hasher m ps"
  shows lookup_present: "p \<in> set ps \<Longrightarrow> key_of (mem m) p = k \<Longrightarrow>
      \<exists>i < capacity_at (capacity_idx m). lookup_idx hasher (=) m k = Some (Some i)
        \<and> elements m ! i = p \<and> hashes m ! i = key_hash hasher k \<and> allocated m"
    and lookup_missing: "k \<notin> key_of (mem m) ` set ps \<Longrightarrow> lookup_idx hasher (=) m k = Some None"
proof -
  have ci: "valid_ci (capacity_idx m)" and dk: "distinct (map (key_of (mem m)) ps)"
    and sz: "msize m = length ps"
    using inv by (auto simp: hm_inv_def)
  let ?ci = "capacity_idx m" and ?h = "key_hash hasher k"
  have uniq: "i = j" if al: "allocated m" and ij: "i < capacity_at ?ci" "j < capacity_at ?ci"
    "slot_matches (=) m k ?h i" "slot_matches (=) m k ?h j" for i j
  proof -
    have nz: "hashes m ! i \<noteq> EMPTY_HASH" "hashes m ! j \<noteq> EMPTY_HASH"
      using ij by (auto simp: slot_matches_def)
    have in_ps: "elements m ! i \<in> set ps" "elements m ! j \<in> set ps"
      using slot_elem(1) [OF inv al] ij nz by auto
    have "key_of (mem m) (elements m ! i) = key_of (mem m) (elements m ! j)"
      using ij by (auto simp: slot_matches_def key_of_def)
    then have "elements m ! i = elements m ! j"
      using dk in_ps by (simp add: distinct_map inj_on_def)
    then show "i = j"
      using entries_inj [of "hashes m" "elements m" _ ps i j] inv al ij nz
      by (auto simp: hm_inv_def table_ok_def rh_inv_def linked_def)
  qed
  have alive: "slots_alive m" if "allocated m"
    unfolding slots_alive_def using slot_elem(1) [OF inv that] inv
    by (auto simp: hm_inv_def dom_def)
  have rh: "rh_inv ?ci (hashes m)" if "allocated m"
    using inv that by (simp add: hm_inv_def table_ok_def)
  show "\<exists>i < capacity_at ?ci. lookup_idx hasher (=) m k = Some (Some i)
      \<and> elements m ! i = p \<and> hashes m ! i = ?h \<and> allocated m"
    if p: "p \<in> set ps" "key_of (mem m) p = k"
  proof -
    have al: "allocated m" using inv p by (auto simp: hm_inv_def split: if_splits)
    have "(?h, p) \<in># entries (hashes m) (elements m)" using inv al p by (auto simp: hm_inv_def)
    moreover have l: "length (elements m) = length (hashes m)" "length (hashes m) = capacity_at ?ci"
      using inv al by (simp_all add: hm_inv_def table_ok_def rh_inv_def)
    ultimately obtain i where i: "i < capacity_at ?ci" "hashes m ! i = ?h" "elements m ! i = p"
      by (metis entries_memE)
    have sm: "slot_matches (=) m k ?h i"
      using i p hm_inv_mem [OF inv p(1)] by (auto simp: slot_matches_def)
    have "lookup_idx_unchecked (=) m k ?h = Some (Some i)"
      by (rule lookup_unchecked_correct(1)
          [OF rh [OF al] ci refl alive [OF al] key_hash_nz uniq [OF al] i(1) sm])
    moreover have "msize m > 0" using sz p by auto
    ultimately show ?thesis using i al by (auto simp: lookup_idx_def)
  qed
  show "lookup_idx hasher (=) m k = Some None" if none: "k \<notin> key_of (mem m) ` set ps"
  proof (cases "allocated m")
    case True
    have no: "\<not> slot_matches (=) m k ?h i" if "i < capacity_at ?ci" for i
    proof
      assume s: "slot_matches (=) m k ?h i"
      then have "hashes m ! i \<noteq> EMPTY_HASH" by (simp add: slot_matches_def)
      then have "elements m ! i \<in> set ps" using slot_elem(1) [OF inv True that] by simp
      moreover have "key_of (mem m) (elements m ! i) = k"
        using s by (auto simp: slot_matches_def key_of_def)
      ultimately show False using none by blast
    qed
    have "lookup_idx_unchecked (=) m k ?h = Some None"
      by (rule lookup_unchecked_correct(2)
          [OF rh [OF True] ci refl alive [OF True] key_hash_nz uniq [OF True] no])
    then show ?thesis by (simp add: lookup_idx_def)
  next
    case False
    then show ?thesis by (simp add: lookup_idx_def)
  qed
qed


section \<open>Placing an element and growing the table\<close>

lemma insert_element_correct:
  assumes ok: "table_ok m" and h: "hash \<noteq> EMPTY_HASH"
    and sp: "size (entries (hashes m) (elements m)) < capacity_at (capacity_idx m)"
  shows "\<exists>hs es. insert_element hash p m = Some (m\<lparr>hashes := hs, elements := es, msize := msize m + 1\<rparr>)
    \<and> rh_inv (capacity_idx m) hs \<and> length es = capacity_at (capacity_idx m)
    \<and> entries hs es = add_mset (hash, p) (entries (hashes m) (elements m))"
proof -
  let ?ci = "capacity_idx m"
  have ci: "valid_ci ?ci" and inv: "rh_inv ?ci (hashes m)" and le: "length (elements m) = capacity_at ?ci"
    using ok by (auto simp: table_ok_def)
  have lh: "length (hashes m) = capacity_at ?ci" using inv by (simp add: rh_inv_def)
  have hl: "home_idx ?ci hash < capacity_at ?ci" using ci by simp
  have p0: "(0::nat) = get_probe_length ?ci (home_idx ?ci hash) hash"
    using probe_home_zero [OF ci] by simp
  have sl: "rh_slot ?ci (hashes m) (home_idx ?ci hash) 0" by (simp add: rh_slot_def)
  from insert_loop_correct [OF ci inv le hl h p0 sl empty_slot_reach [OF ci hl lh sp le], of p]
  obtain hs es where "insert_loop ?ci (capacity_at ?ci) (hashes m) (elements m) hash p
      (home_idx ?ci hash) 0 = Some (hs, es)" "rh_inv ?ci hs" "length es = capacity_at ?ci"
    "entries hs es = add_mset (hash, p) (entries (hashes m) (elements m))"
    by blast
  then show ?thesis
    by (intro exI [of _ hs] exI [of _ es]) (simp add: insert_element_def)
qed

lemma rh_inv_empty: "rh_inv ci (replicate (capacity_at ci) 0)"
  by (simp add: rh_inv_def EMPTY_HASH_def)

lemma entries_empty: "entries (replicate n 0) es = {#}"
  by (induction n arbitrary: es) (auto simp: entries_def EMPTY_HASH_def zip_Cons1 split: list.splits)

lemma table_ok_alloc:
  "valid_ci (capacity_idx m) \<Longrightarrow> table_ok (alloc_table (capacity_at (capacity_idx m)) m)"
  by (simp add: table_ok_def alloc_table_def rh_inv_empty)

lemma rehash_loop_correct:
  "table_ok m \<Longrightarrow>
   size (entries (hashes m) (elements m)) + length (filter (\<lambda>p. fst p \<noteq> EMPTY_HASH) old)
     < capacity_at (capacity_idx m) \<Longrightarrow>
   \<exists>hs es. rehash_loop old m = Some (m\<lparr>hashes := hs, elements := es,
        msize := msize m + length (filter (\<lambda>p. fst p \<noteq> EMPTY_HASH) old)\<rparr>)
     \<and> rh_inv (capacity_idx m) hs \<and> length es = capacity_at (capacity_idx m)
     \<and> entries hs es = mset (filter (\<lambda>p. fst p \<noteq> EMPTY_HASH) old) + entries (hashes m) (elements m)"
proof (induction old arbitrary: m)
  case Nil
  then show ?case
    by (intro exI [of _ "hashes m"] exI [of _ "elements m"]) (simp add: table_ok_def)
next
  case (Cons x old)
  obtain h e where x: "x = (h, e)" by fastforce
  show ?case
  proof (cases "h = EMPTY_HASH")
    case True
    then show ?thesis using Cons.IH [OF Cons.prems(1)] Cons.prems(2) x by simp
  next
    case False
    have "size (entries (hashes m) (elements m)) < capacity_at (capacity_idx m)"
      using Cons.prems(2) by linarith
    from insert_element_correct [OF Cons.prems(1) False this, of e]
    obtain hs es where r: "insert_element h e m = Some (m\<lparr>hashes := hs, elements := es, msize := msize m + 1\<rparr>)"
      "rh_inv (capacity_idx m) hs" "length es = capacity_at (capacity_idx m)"
      "entries hs es = add_mset (h, e) (entries (hashes m) (elements m))"
      by blast
    let ?m = "m\<lparr>hashes := hs, elements := es, msize := msize m + 1\<rparr>"
    have "table_ok ?m" using Cons.prems(1) r by (simp add: table_ok_def)
    from Cons.IH [OF this] Cons.prems(2) x False r show ?thesis by auto
  qed
qed

lemma resize_correct:
  assumes new: "valid_ci new_ci" "MIN_CAPACITY_INDEX < HASH_TABLE_SIZE_MAX"
    and ci': "ci' = (if new_ci > MIN_CAPACITY_INDEX then new_ci else MIN_CAPACITY_INDEX)"
    and sp: "size (entries (hashes m) (elements m)) < capacity_at ci'"
  shows "\<exists>hs es. resize_and_rehash new_ci m = Some (m\<lparr>allocated := True, hashes := hs, elements := es,
        capacity_idx := ci', msize := size (entries (hashes m) (elements m))\<rparr>)
     \<and> rh_inv ci' hs \<and> length es = capacity_at ci'
     \<and> entries hs es = entries (hashes m) (elements m)"
proof -
  have v: "valid_ci ci'" using new by (simp add: ci' valid_ci_def)
  let ?m = "alloc_table (capacity_at ci') (m\<lparr>capacity_idx := ci', msize := 0\<rparr>)"
  let ?old = "filter (\<lambda>p. fst p \<noteq> EMPTY_HASH) (zip (hashes m) (elements m))"
  have "table_ok ?m" using table_ok_alloc [of "m\<lparr>capacity_idx := ci', msize := 0\<rparr>"] v by simp
  moreover have "entries (hashes ?m) (elements ?m) = {#}" by (simp add: alloc_table_def entries_empty)
  moreover have len: "length ?old = size (entries (hashes m) (elements m))"
    by (simp only: entries_def size_mset)
  ultimately obtain hs es where r: "rehash_loop (zip (hashes m) (elements m)) ?m =
      Some (?m\<lparr>hashes := hs, elements := es, msize := msize ?m + length ?old\<rparr>)"
    "rh_inv (capacity_idx ?m) hs" "length es = capacity_at (capacity_idx ?m)"
    "entries hs es = mset ?old + entries (hashes ?m) (elements ?m)"
    using rehash_loop_correct [of ?m "zip (hashes m) (elements m)"] sp
    by (auto simp: alloc_table_def)
  have "resize_and_rehash new_ci m = Some (?m\<lparr>hashes := hs, elements := es, msize := msize ?m + length ?old\<rparr>)"
    using r(1) unfolding resize_and_rehash_def Let_def ci' [symmetric] .
  then show ?thesis
    using r(2-4) unfolding len
    by (intro exI [of _ hs] exI [of _ es])
      (simp add: alloc_table_def entries_empty, simp add: entries_def)
qed

lemma capacity_strict: "valid_ci (Suc ci) \<Longrightarrow> capacity_at ci < capacity_at (Suc ci)"
proof -
  assume "valid_ci (Suc ci)"
  moreover have "sorted_wrt (<) (map unat hash_table_size_primes)"
    by (simp add: hash_table_size_primes_def)
  ultimately show ?thesis
    by (auto simp: capacity_at_def valid_ci_def sorted_wrt_iff_nth_less
        dest!: spec [of _ ci] spec [of _ "Suc ci"])
qed


section \<open>The occupancy test leaves room\<close>

lemma bitlen_le: "0 < n \<Longrightarrow> 2 ^ (bitlen n - 1) \<le> n"
proof (induction n rule: bitlen.induct)
  case (1 n)
  show ?case
  proof (cases "n div 2 = 0")
    case True
    then have "n = 1" using 1 by arith
    then show ?thesis by (simp add: bitlen.simps)
  next
    case False
    then have ih: "2 ^ (bitlen (n div 2) - 1) \<le> n div 2" using 1 by simp
    have b: "bitlen (n div 2) = Suc (bitlen (n div 2) - 1)"
      using False by (subst (1 2) bitlen.simps) simp
    have "2 ^ (bitlen n - 1) = (2::nat) ^ bitlen (n div 2)"
      using 1 by (subst bitlen.simps) simp
    also have "\<dots> = 2 * 2 ^ (bitlen (n div 2) - 1)" by (subst b) simp
    also have "\<dots> \<le> n" using ih by linarith
    finally show ?thesis .
  qed
qed

lemma f32_round_bounds:
  "f32_round n * 16777216 \<le> n * 16777217" "n * 16777215 \<le> f32_round n * 16777216"
proof -
  have "f32_round n * 2 ^ 24 \<le> n * 2 ^ 24 + n \<and> n * 2 ^ 24 \<le> f32_round n * 2 ^ 24 + n"
  proof (cases "bitlen n \<le> 24")
    case True
    then show ?thesis by (simp add: f32_round_def)
  next
    case False
    then have n: "0 < n" by (cases "n = 0") (auto simp: bitlen.simps)
    obtain s where s: "bitlen n = Suc s + 24" using False less_imp_Suc_add [of 24 "bitlen n"] by auto
    define q r where "q = n div 2 ^ Suc s" and "r = n mod 2 ^ Suc s"
    have nq: "n = q * 2 ^ Suc s + r" by (simp only: q_def r_def div_mult_mod_eq)
    have r: "r < 2 ^ Suc s" by (simp add: r_def)
    have lo: "2 ^ s * 2 ^ 24 \<le> n"
      using bitlen_le [OF n] s by (simp add: power_add)
    have f: "f32_round n = (if 2 ^ s < r \<or> (r = 2 ^ s \<and> odd q) then q + 1 else q) * 2 ^ Suc s"
      by (simp add: f32_round_def s q_def r_def Let_def)
    have "f32_round n \<le> n + 2 ^ s \<and> n \<le> f32_round n + 2 ^ s"
      unfolding f by (subst (1 2) nq) (use r in \<open>auto simp: algebra_simps\<close>)
    then have "f32_round n * 2 ^ 24 \<le> (n + 2 ^ s) * 2 ^ 24" "n * 2 ^ 24 \<le> (f32_round n + 2 ^ s) * 2 ^ 24"
      by (auto intro: mult_le_mono1)
    then show ?thesis using lo by (simp add: algebra_simps)
  qed
  then show "f32_round n * 16777216 \<le> n * 16777217" "n * 16777215 \<le> f32_round n * 16777216"
    by simp_all
qed

lemma not_over_occupied: "\<not> over_occupancy s cap \<Longrightarrow> 0 < cap \<Longrightarrow> s < cap"
  using f32_round_bounds(1) [of cap] f32_round_bounds(1) [of "3 * f32_round cap"]
    f32_round_bounds(2) [of s]
  unfolding over_occupancy_def by linarith

section \<open>Linking a new element\<close>

lemma linked_cong:
  "linked mm h t ps \<Longrightarrow> (\<And>p. p \<in> set ps \<Longrightarrow> mm' p = mm p) \<Longrightarrow> linked mm' h t ps"
  by (auto simp: linked_def)

lemma key_val_of_link [simp]:
  "key_of (mm(p := map_option (e_next_update f) (mm p))) q = key_of mm q"
  "val_of (mm(p := map_option (e_next_update f) (mm p))) q = val_of mm q"
  "key_of (mm(p := map_option (e_prev_update f) (mm p))) q = key_of mm q"
  "val_of (mm(p := map_option (e_prev_update f) (mm p))) q = val_of mm q"
  by (cases "mm p"; simp add: key_of_def val_of_def)+

lemma dom_set_elem: "dom (mm(p := map_option f (mm p))) = dom mm"
  by (auto simp: dom_def split: if_splits)

lemma link_new_correct:
  assumes l: "linked (mem m) (head_element m) (tail_element m) ps"
    and dm: "dom (mem m) = set ps" and fresh: "brk m \<notin> set ps"
    and m3: "(p, m3) = new_element k v m" and m4: "m4 = link_element front p m3"
  shows "linked (mem m4) (head_element m4) (tail_element m4) (if front then p # ps else ps @ [p])"
    and "dom (mem m4) = insert p (set ps)"
    and "key_of (mem m4) q = (if q = p then k else key_of (mem m) q)"
    and "val_of (mem m4) q = (if q = p then v else val_of (mem m) q)"
    and "allocated m4 = allocated m \<and> hashes m4 = hashes m \<and> elements m4 = elements m
      \<and> capacity_idx m4 = capacity_idx m \<and> msize m4 = msize m \<and> brk m4 = brk m + 1"
proof -
  have p: "p = brk m" and m3': "m3 = m\<lparr>mem := (mem m)(p \<mapsto>
      \<lparr>e_next = None, e_prev = None, e_key = k, e_val = v\<rparr>), brk := brk m + 1\<rparr>"
    using m3 by (auto simp: new_element_def)
  have fp: "p \<notin> set ps" using fresh p by simp
  have l3: "linked (mem m3) (head_element m3) (tail_element m3) ps"
    using l fp by (auto simp: m3' intro: linked_cong)
  have mp: "mem m3 p = Some \<lparr>e_next = None, e_prev = None, e_key = k, e_val = v\<rparr>"
    by (simp add: m3')
  have kv: "key_of (mem m3) q = (if q = p then k else key_of (mem m) q)"
    "val_of (mem m3) q = (if q = p then v else val_of (mem m) q)"
    by (auto simp: m3' key_of_def val_of_def)
  have dm3: "dom (mem m3) = insert p (set ps)" by (simp add: m3' dm)
  have ht: "head_element m3 = (if ps = [] then None else Some (hd ps))"
    "tail_element m3 = (if ps = [] then None else Some (last ps))"
    using l3 by (auto simp: linked_def)
  have "linked (mem m4) (head_element m4) (tail_element m4) (if front then p # ps else ps @ [p])
      \<and> dom (mem m4) = insert p (set ps)
      \<and> key_of (mem m4) q = key_of (mem m3) q \<and> val_of (mem m4) q = val_of (mem m3) q
      \<and> allocated m4 = allocated m3 \<and> hashes m4 = hashes m3 \<and> elements m4 = elements m3
      \<and> capacity_idx m4 = capacity_idx m3 \<and> msize m4 = msize m3 \<and> brk m4 = brk m3"
  proof (cases "ps = []")
    case True
    then show ?thesis using ht mp dm3
      by (auto simp: m4 link_element_def linked_def next_in_def prev_in_def)
  next
    case False
    let ?h = "hd ps" and ?t = "last ps"
    have l3': "linked (mem m3) (Some ?h) (Some ?t) ps" using l3 ht False by simp
    show ?thesis
    proof (cases front)
      case True
      have "linked (mem m4) (Some p) (Some ?t) (p # ps)"
        by (rule linked_prepend [OF l3' fp mp refl])
          (simp add: m4 link_element_def ht False True set_elem_def)
      then show ?thesis using ht False True dm3
        by (simp add: m4 link_element_def set_elem_def dom_set_elem del: fun_upd_apply dom_fun_upd)
    next
      case front: False
      have "linked (mem m4) (Some ?h) (Some p) (ps @ [p])"
        by (rule linked_append [OF l3' fp mp refl])
          (simp add: m4 link_element_def ht False front set_elem_def)
      then show ?thesis using ht False front dm3
        by (simp add: m4 link_element_def set_elem_def dom_set_elem del: fun_upd_apply dom_fun_upd)
    qed
  qed
  then show "linked (mem m4) (head_element m4) (tail_element m4) (if front then p # ps else ps @ [p])"
    "dom (mem m4) = insert p (set ps)"
    "key_of (mem m4) q = (if q = p then k else key_of (mem m) q)"
    "val_of (mem m4) q = (if q = p then v else val_of (mem m) q)"
    "allocated m4 = allocated m \<and> hashes m4 = hashes m \<and> elements m4 = elements m
      \<and> capacity_idx m4 = capacity_idx m \<and> msize m4 = msize m \<and> brk m4 = brk m + 1"
    using kv by (simp_all add: m3')
qed

end
