(* ===== verification/HashMap_Ops.thy ===== *)
theory HashMap_Ops
  imports Ordered_HashMap
begin

text \<open>
  The operations of \<open>InsertionOrderedHashMap\<close> on a well-formed map: each keeps the
  invariant \<open>hm_inv\<close> and acts on the item sequence as the association-list operation its
  name promises. The file ends with the map's contract as a locale, interpreted on the model.
\<close>

section \<open>Operations preserve the invariant\<close>

lemma grow_correct:
  assumes inv: "hm_inv hasher m ps"
    and room: "over_occupancy (msize m + 1) (capacity_at (capacity_idx m)) \<Longrightarrow>
      capacity_idx m + 1 < HASH_TABLE_SIZE_MAX"
    and m1: "m1 = (if allocated m then m else alloc_table (capacity_at (capacity_idx m)) m)"
  shows "\<exists>m2. (if over_occupancy (msize m1 + 1) (capacity_at (capacity_idx m))
              then (if capacity_idx m1 + 1 < HASH_TABLE_SIZE_MAX
                    then resize_and_rehash (capacity_idx m1 + 1) m1 else None)
              else Some m1) = Some m2
    \<and> table_ok m2 \<and> allocated m2
    \<and> mem m2 = mem m \<and> head_element m2 = head_element m \<and> tail_element m2 = tail_element m
    \<and> brk m2 = brk m \<and> msize m2 = length ps
    \<and> entries (hashes m2) (elements m2) =
        mset (map (\<lambda>p. (key_hash hasher (key_of (mem m) p), p)) ps)
    \<and> length ps + 1 < capacity_at (capacity_idx m2)"
proof -
  let ?E = "mset (map (\<lambda>p. (key_hash hasher (key_of (mem m) p), p)) ps)"
  have ci: "valid_ci (capacity_idx m)" and sz: "msize m = length ps"
    and lt: "length ps < capacity_at (capacity_idx m)"
    using inv by (auto simp: hm_inv_def)
  have ok1: "table_ok m1" "allocated m1" "entries (hashes m1) (elements m1) = ?E"
    using inv table_ok_alloc [OF ci]
    by (auto simp: m1 hm_inv_def alloc_table_def entries_empty)
  have same: "mem m1 = mem m" "head_element m1 = head_element m" "tail_element m1 = tail_element m"
    "brk m1 = brk m" "msize m1 = length ps" "capacity_idx m1 = capacity_idx m"
    using sz by (auto simp: m1 alloc_table_def)
  show ?thesis
  proof (cases "over_occupancy (msize m1 + 1) (capacity_at (capacity_idx m))")
    case False
    then have "msize m1 + 1 < capacity_at (capacity_idx m)"
      using not_over_occupied capacity_bounds [OF ci] by force
    then show ?thesis using False ok1 same by auto
  next
    case True
    define ci' where "ci' = (if capacity_idx m1 + 1 > MIN_CAPACITY_INDEX then capacity_idx m1 + 1
      else MIN_CAPACITY_INDEX)"
    have room': "capacity_idx m + 1 < HASH_TABLE_SIZE_MAX" using room True same sz by simp
    have v1: "valid_ci (capacity_idx m1 + 1)" using room' same by (simp add: valid_ci_def)
    have mono: "capacity_at (capacity_idx m) < capacity_at ci'"
    proof (cases "capacity_idx m + 1 > MIN_CAPACITY_INDEX")
      case True
      then show ?thesis using capacity_strict [of "capacity_idx m"] v1 same by (simp add: ci'_def)
    next
      case False
      then have "capacity_idx m = 0 \<or> capacity_idx m = 1" by (auto simp: MIN_CAPACITY_INDEX_def)
      then show ?thesis using same False
        by (auto simp: ci'_def capacity_at_def MIN_CAPACITY_INDEX_def hash_table_size_primes_def)
    qed
    have "size (entries (hashes m1) (elements m1)) = length ps" using ok1 by simp
    then obtain hs es where r: "resize_and_rehash (capacity_idx m1 + 1) m1 =
        Some (m1\<lparr>allocated := True, hashes := hs, elements := es, capacity_idx := ci',
                 msize := length ps\<rparr>)"
      "rh_inv ci' hs" "length es = capacity_at ci'" "entries hs es = ?E"
      using resize_correct [OF v1 _ ci'_def, of m1] lt mono ok1
      by (auto simp: MIN_CAPACITY_INDEX_def HASH_TABLE_SIZE_MAX_def)
    have "valid_ci ci'" using v1 by (auto simp: ci'_def valid_ci_def MIN_CAPACITY_INDEX_def HASH_TABLE_SIZE_MAX_def)
    then show ?thesis using True r same lt mono room' by (auto simp: table_ok_def)
  qed
qed

lemma items_of_cong:
  "(\<And>p. p \<in> set ps \<Longrightarrow> key_of mm' p = key_of mm p \<and> val_of mm' p = val_of mm p) \<Longrightarrow>
   items_of mm' ps = items_of mm ps"
  by (simp add: items_of_def)

lemma insert_absent_correct:
  assumes inv: "hm_inv hasher m ps" and new: "k \<notin> key_of (mem m) ` set ps"
    and room: "over_occupancy (msize m + 1) (capacity_at (capacity_idx m)) \<Longrightarrow>
      capacity_idx m + 1 < HASH_TABLE_SIZE_MAX"
  shows "\<exists>p m'. insert_absent k v (key_hash hasher k) front m = Some (p, m')
    \<and> hm_inv hasher m' (if front then p # ps else ps @ [p])
    \<and> items_of (mem m') (if front then p # ps else ps @ [p])
        = (if front then (k, v) # items_of (mem m) ps else items_of (mem m) ps @ [(k, v)])
    \<and> mem m' p \<noteq> None \<and> key_of (mem m') p = k \<and> val_of (mem m') p = v"
proof -
  define m1 where "m1 = (if allocated m then m else alloc_table (capacity_at (capacity_idx m)) m)"
  obtain m2 where m2: "(if over_occupancy (msize m1 + 1) (capacity_at (capacity_idx m))
              then (if capacity_idx m1 + 1 < HASH_TABLE_SIZE_MAX
                    then resize_and_rehash (capacity_idx m1 + 1) m1 else None)
              else Some m1) = Some m2"
    "table_ok m2" "allocated m2" "mem m2 = mem m" "head_element m2 = head_element m"
    "tail_element m2 = tail_element m" "brk m2 = brk m" "msize m2 = length ps"
    "entries (hashes m2) (elements m2) =
        mset (map (\<lambda>p. (key_hash hasher (key_of (mem m) p), p)) ps)"
    "length ps + 1 < capacity_at (capacity_idx m2)"
    using grow_correct [OF inv room m1_def] by blast
  obtain p m3 where m3: "(p, m3) = new_element k v m2" by (metis surj_pair)
  define m4 where "m4 = link_element front p m3"
  let ?qs = "if front then p # ps else ps @ [p]"
  have l2: "linked (mem m2) (head_element m2) (tail_element m2) ps" "dom (mem m2) = set ps"
    "brk m2 \<notin> set ps" and dk: "distinct (map (key_of (mem m)) ps)"
    and lt: "\<forall>p \<in> set ps. p < brk m"
    using inv m2 by (auto simp: hm_inv_def)
  note link = link_new_correct [OF l2 m3 m4_def]
  have p: "p = brk m" "p \<notin> set ps" using m3 m2 l2 by (auto simp: new_element_def)
  have ok4: "table_ok m4" using m2 link(5) by (simp add: table_ok_def)
  have sz4: "size (entries (hashes m4) (elements m4)) < capacity_at (capacity_idx m4)"
    using m2 link(5) by simp
  obtain hs es where m5: "insert_element (key_hash hasher k) p m4 =
      Some (m4\<lparr>hashes := hs, elements := es, msize := msize m4 + 1\<rparr>)"
    "rh_inv (capacity_idx m4) hs" "length es = capacity_at (capacity_idx m4)"
    "entries hs es = add_mset (key_hash hasher k, p) (entries (hashes m4) (elements m4))"
    using insert_element_correct [OF ok4 key_hash_nz sz4, of hasher k p] by blast
  let ?m = "m4\<lparr>hashes := hs, elements := es, msize := msize m4 + 1\<rparr>"
  have ia: "insert_absent k v (key_hash hasher k) front m = Some (p, ?m)"
    unfolding insert_absent_def Let_def m1_def [symmetric] m2(1) option.case
    using m3 m5(1) by (simp add: m4_def flip: m3)
  have key4: "key_of (mem m4) q = (if q = p then k else key_of (mem m) q)"
    "val_of (mem m4) q = (if q = p then v else val_of (mem m) q)" for q
    using link(3,4) [of q] m2(4) by simp_all
  have keep: "\<And>q. q \<in> set ps \<Longrightarrow> q \<noteq> p" using p by auto
  have "hm_inv hasher ?m ?qs"
    unfolding hm_inv_def
  proof (intro conjI)
    show "valid_ci (capacity_idx ?m)" using ok4 by (simp add: table_ok_def)
    show "linked (mem ?m) (head_element ?m) (tail_element ?m) ?qs" using link(1) by simp
    show "dom (mem ?m) = set ?qs" using link(2) by auto
    show "\<forall>q \<in> set ?qs. q < brk ?m" using lt p link(5) m2(7) by (auto simp: less_SucI)
    have mk: "map (key_of (mem m4)) ps = map (key_of (mem m)) ps" using key4 keep by simp
    have "map (key_of (mem ?m)) ?qs = (if front then k # map (key_of (mem m)) ps
        else map (key_of (mem m)) ps @ [k])"
      using key4(1) [of p] by (simp flip: mk)
    moreover have "k \<notin> set (map (key_of (mem m)) ps)" using new by simp
    ultimately show "distinct (map (key_of (mem ?m)) ?qs)" using dk by (simp split: if_splits)
    show "msize ?m = length ?qs" using link(5) m2 by simp
    show "length ?qs < capacity_at (capacity_idx ?m)" using link(5) m2 by simp
    have eq: "map (\<lambda>q. (key_hash hasher (key_of (mem ?m) q), q)) ps
        = map (\<lambda>q. (key_hash hasher (key_of (mem m) q), q)) ps" using key4 keep by simp
    have "entries (hashes ?m) (elements ?m) = add_mset (key_hash hasher k, p)
        (mset (map (\<lambda>q. (key_hash hasher (key_of (mem ?m) q), q)) ps))"
      unfolding eq using link(5) m2(9) m5(4) by simp
    then have "entries (hashes ?m) (elements ?m)
        = mset (map (\<lambda>q. (key_hash hasher (key_of (mem ?m) q), q)) ?qs)"
      using key4(1) [of p] by simp
    moreover have "table_ok ?m" using m5 ok4 by (simp add: table_ok_def)
    ultimately show "if allocated ?m then table_ok ?m \<and> entries (hashes ?m) (elements ?m)
          = mset (map (\<lambda>q. (key_hash hasher (key_of (mem ?m) q), q)) ?qs)
      else ?qs = []"
      using link(5) m2(3) by simp
  qed
  moreover have "items_of (mem ?m) ps = items_of (mem m) ps"
    by (rule items_of_cong) (use key4 keep in auto)
  ultimately show ?thesis
    using ia key4 [of p] link(2) by (auto simp: items_of_def dom_def)
qed


lemma set_val_correct:
  assumes inv: "hm_inv hasher m ps" and p: "p \<in> set ps"
    and m': "m' = set_elem p (e_val_update (\<lambda>_. v)) m"
  shows "hm_inv hasher m' ps"
    and "items_of (mem m') ps = AList.update (key_of (mem m) p) v (items_of (mem m) ps)"
proof -
  have kk: "key_of (mem m') q = key_of (mem m) q" for q
    by (cases "mem m p") (auto simp: m' set_elem_def key_of_def)
  have vv: "val_of (mem m') q = (if q = p then v else val_of (mem m) q)" for q
  proof -
    have "p \<in> dom (mem m)" using inv p by (simp add: hm_inv_def)
    then obtain e where "mem m p = Some e" by blast
    then show ?thesis by (simp add: m' set_elem_def val_of_def)
  qed
  have "linked (mem m') h t ps" if l: "linked (mem m) h t ps" for h t
  proof -
    have "\<exists>e. mem m' (ps ! i) = Some e \<and> e_next e = next_in ps i \<and> e_prev e = prev_in ps i"
      if i: "i < length ps" for i
    proof -
      obtain e where "mem m (ps ! i) = Some e" "e_next e = next_in ps i" "e_prev e = prev_in ps i"
        using linkedD [OF l i] by blast
      moreover have "mem m' (ps ! i) = (if ps ! i = p then map_option (e_val_update (\<lambda>_. v))
          (mem m (ps ! i)) else mem m (ps ! i))" by (simp add: m' set_elem_def)
      ultimately show ?thesis by (cases "ps ! i = p") auto
    qed
    then show ?thesis using l unfolding linked_def by blast
  qed
  moreover have "dom (mem m') = dom (mem m)" by (simp add: m' set_elem_def dom_set_elem del: fun_upd_apply dom_fun_upd)
  moreover have "table_ok m' = table_ok m" by (simp add: table_ok_def m' set_elem_def)
  moreover have "head_element m' = head_element m" "tail_element m' = tail_element m"
    "capacity_idx m' = capacity_idx m" "brk m' = brk m" "msize m' = msize m"
    "allocated m' = allocated m" "hashes m' = hashes m" "elements m' = elements m"
    by (simp_all add: m' set_elem_def)
  moreover have "key_of (mem m') = key_of (mem m)" using kk by (rule ext)
  ultimately show "hm_inv hasher m' ps"
    using inv unfolding hm_inv_def by simp
  have d: "distinct (map (key_of (mem m)) ps)" using inv by (simp add: hm_inv_def)
  have "AList.update (key_of (mem m) p) v (map (\<lambda>q. (key_of (mem m) q, val_of (mem m) q)) qs)
      = map (\<lambda>q. (key_of (mem m) q, if q = p then v else val_of (mem m) q)) qs"
    if "p \<in> set qs" "distinct (map (key_of (mem m)) qs)" for qs
    using that
  proof (induction qs)
    case (Cons q qs)
    show ?case
    proof (cases "q = p")
      case True
      then have "\<forall>r \<in> set qs. r \<noteq> p" using Cons.prems(2) by auto
      then show ?thesis using True by simp
    next
      case False
      then have "p \<in> set qs" using Cons.prems(1) by simp
      moreover from this have "key_of (mem m) q \<noteq> key_of (mem m) p" using Cons.prems(2) by auto
      ultimately show ?thesis using Cons False by simp
    qed
  qed simp
  then show "items_of (mem m') ps = AList.update (key_of (mem m) p) v (items_of (mem m) ps)"
    using p d by (simp add: items_of_def kk vv)
qed

lemma insert_correct:
  assumes inv: "hm_inv hasher m ps" and room: "over_occupancy (msize m + 1) (capacity_at (capacity_idx m)) \<Longrightarrow>
      capacity_idx m + 1 < HASH_TABLE_SIZE_MAX"
  shows "\<exists>p m' qs. hm_insert hasher (=) k v front m = Some (p, m') \<and> hm_inv hasher m' qs
    \<and> items_of (mem m') qs =
        (if k \<in> key_of (mem m) ` set ps then AList.update k v (items_of (mem m) ps)
         else if front then (k, v) # items_of (mem m) ps else items_of (mem m) ps @ [(k, v)])"
proof (cases "k \<in> key_of (mem m) ` set ps")
  case True
  then obtain p where p: "p \<in> set ps" "key_of (mem m) p = k" by blast
  obtain i where "lookup_idx hasher (=) m k = Some (Some i)" "elements m ! i = p"
    using lookup_present [OF inv p] by blast
  then show ?thesis
    using True set_val_correct [OF inv p(1) refl, of v] p by (auto simp: hm_insert_def)
next
  case False
  obtain p m' where "insert_absent k v (key_hash hasher k) front m = Some (p, m')"
    "hm_inv hasher m' (if front then p # ps else ps @ [p])"
    "items_of (mem m') (if front then p # ps else ps @ [p])
        = (if front then (k, v) # items_of (mem m) ps else items_of (mem m) ps @ [(k, v)])"
    using insert_absent_correct [OF inv False room, of v front] by blast
  then show ?thesis
    using False lookup_missing [OF inv False] unfolding hm_insert_def by auto
qed

section \<open>Erasing\<close>

lemma unlink_frame:
  "allocated (unlink_element p e m) = allocated m \<and> hashes (unlink_element p e m) = hashes m
   \<and> elements (unlink_element p e m) = elements m
   \<and> capacity_idx (unlink_element p e m) = capacity_idx m \<and> msize (unlink_element p e m) = msize m
   \<and> brk (unlink_element p e m) = brk m"
  by (simp add: unlink_element_def Let_def set_elem_def split: option.splits)

lemma unlink_correct:
  assumes l: "linked (mem m) (head_element m) (tail_element m) ps" and dm: "dom (mem m) = set ps"
    and i: "i < length ps" and e: "mem m (ps ! i) = Some e"
    and m': "m' = unlink_element (ps ! i) e m"
  shows "linked (mem m') (head_element m') (tail_element m') (take i ps @ drop (Suc i) ps)"
    and "dom (mem m') = set ps - {ps ! i}"
    and "q \<noteq> ps ! i \<Longrightarrow> key_of (mem m') q = key_of (mem m) q \<and> val_of (mem m') q = val_of (mem m) q"
proof -
  define mm1 where "mm1 = (case e_prev e of None \<Rightarrow> mem m
        | Some q \<Rightarrow> (mem m)(q := map_option (e_next_update (\<lambda>_. e_next e)) (mem m q)))"
  define mm2 where "mm2 = (case e_next e of None \<Rightarrow> mm1
        | Some q \<Rightarrow> mm1(q := map_option (e_prev_update (\<lambda>_. e_prev e)) (mm1 q)))"
  have mm: "mem m' = mm2(ps ! i := None)"
    by (simp add: m' unlink_element_def Let_def set_elem_def mm1_def mm2_def split: option.splits)
  have h: "head_element m' = (if head_element m = Some (ps ! i) then e_next e else head_element m)"
    "tail_element m' = (if tail_element m = Some (ps ! i) then e_prev e else tail_element m)"
    by (simp_all add: m' unlink_element_def Let_def set_elem_def split: option.splits)
  show "linked (mem m') (head_element m') (tail_element m') (take i ps @ drop (Suc i) ps)"
    unfolding mm by (rule linked_remove [OF l i refl e mm1_def mm2_def h])
  have "dom mm2 = dom (mem m)"
    unfolding mm2_def mm1_def
    by (simp add: dom_set_elem del: fun_upd_apply dom_fun_upd split: option.splits)
  then show "dom (mem m') = set ps - {ps ! i}" using dm by (auto simp: mm)
  have "key_of mm2 q = key_of (mem m) q" "val_of mm2 q = val_of (mem m) q"
    unfolding mm2_def mm1_def by (simp_all split: option.splits)
  then show "q \<noteq> ps ! i \<Longrightarrow> key_of (mem m') q = key_of (mem m) q \<and> val_of (mem m') q = val_of (mem m) q"
    by (simp add: mm key_of_def val_of_def)
qed

lemma items_remove:
  assumes d: "distinct (map (key_of mm) ps)" and i: "i < length ps"
  shows "items_of mm (take i ps @ drop (Suc i) ps) = AList.delete (key_of mm (ps ! i)) (items_of mm ps)"
proof -
  have ps: "ps = take i ps @ ps ! i # drop (Suc i) ps" using id_take_nth_drop [OF i] .
  have "distinct (map (key_of mm) (take i ps @ ps ! i # drop (Suc i) ps))" using d ps by simp
  then have n: "\<forall>q \<in> set (take i ps). key_of mm q \<noteq> key_of mm (ps ! i)"
    "\<forall>q \<in> set (drop (Suc i) ps). key_of mm q \<noteq> key_of mm (ps ! i)"
    by (force simp: image_iff)+
  have "AList.delete k (items_of mm qs) = items_of mm qs" if "\<forall>q \<in> set qs. key_of mm q \<noteq> k" for k qs
    using that by (induction qs) (auto simp: items_of_def)
  moreover have "AList.delete k (xs @ ys) = AList.delete k xs @ AList.delete k ys" for k and xs ys :: "('a \<times> 'b) list"
    by (induction xs) auto
  ultimately show ?thesis
    by (subst (3) ps) (use n in \<open>simp add: items_of_def\<close>)
qed

lemma erase_present:
  assumes inv: "hm_inv hasher m ps" and k: "k \<in> key_of (mem m) ` set ps"
  shows "\<exists>m' qs. hm_erase hasher (=) k m = Some (True, m') \<and> hm_inv hasher m' qs
    \<and> items_of (mem m') qs = AList.delete k (items_of (mem m) ps)"
proof -
  obtain p where p: "p \<in> set ps" "key_of (mem m) p = k" using k by blast
  let ?ci = "capacity_idx m" and ?h = "key_hash hasher k"
  obtain i where i: "i < capacity_at ?ci" "lookup_idx hasher (=) m k = Some (Some i)"
    "elements m ! i = p" "hashes m ! i = ?h" "allocated m"
    using lookup_present [OF inv p] by blast
  have ci: "valid_ci ?ci" and rh: "rh_inv ?ci (hashes m)"
    and le: "length (elements m) = capacity_at ?ci"
    and ent: "entries (hashes m) (elements m) =
        mset (map (\<lambda>p. (key_hash hasher (key_of (mem m) p), p)) ps)"
    and lt: "length ps < capacity_at ?ci"
    using inv i(5) by (auto simp: hm_inv_def table_ok_def)
  have lh: "length (hashes m) = capacity_at ?ci" using rh by (simp add: rh_inv_def)
  have nx: "home_idx ?ci (of_nat (i + 1)) = increment_mod i (capacity_at ?ci)"
  proof -
    have "i + 1 < 2 ^ 32" using i(1) capacity_bounds(2) [OF ci] by simp
    then have "unat (of_nat (i + 1) :: u32) = i + 1"
      by (simp only: unat_of_nat take_bit_eq_mod) simp
    then show ?thesis using i(1) by (auto simp: home_idx_eq [OF ci] increment_mod_def Let_def)
  qed
  have ex: "\<exists>k < capacity_at ?ci. hashes m ! ((inc_slot ?ci ^^ k)
      (home_idx ?ci (of_nat (i + 1)))) = EMPTY_HASH"
    unfolding nx
    by (rule empty_slot_reach [OF ci inc_less [OF ci i(1)] lh _ le]) (use ent lt in simp)
  have nz: "hashes m ! i \<noteq> EMPTY_HASH" using i(4) by simp
  obtain hs es j where er: "erase_loop ?ci (capacity_at ?ci) (hashes m) (elements m) i
        (home_idx ?ci (of_nat (i + 1))) = Some (hs, es, j)"
    "j < capacity_at ?ci" "length hs = capacity_at ?ci" "length es = capacity_at ?ci"
    "hs ! j = ?h" "es ! j = p" "rh_inv ?ci (hs[j := EMPTY_HASH])"
    "entries hs es = entries (hashes m) (elements m)"
    using erase_loop_correct [OF ci rh_inv_hole [OF rh i(1) nz] le i(1) nz nx ex]
    unfolding i(3,4) by blast
  obtain e where e: "mem m p = Some e" using hm_inv_mem [OF inv p(1)] by blast
  define m1 where "m1 = m\<lparr>hashes := hs[j := EMPTY_HASH], elements := es\<rparr>"
  define m2 where "m2 = unlink_element p e m1"
  let ?m = "m2\<lparr>msize := msize m2 - 1\<rparr>"
  have res: "hm_erase hasher (=) k m = Some (True, ?m)"
    using i er e by (simp add: hm_erase_def Let_def m2_def m1_def)
  obtain n where n: "n < length ps" "p = ps ! n" using p(1) by (metis in_set_conv_nth)
  let ?qs = "take n ps @ drop (Suc n) ps"
  have ps: "ps = take n ps @ p # drop (Suc n) ps" using id_take_nth_drop [OF n(1)] n(2) by simp
  have l: "linked (mem m1) (head_element m1) (tail_element m1) ps" "dom (mem m1) = set ps"
    and dk: "distinct (map (key_of (mem m)) ps)"
    using inv by (simp_all add: hm_inv_def m1_def)
  have dp: "distinct ps" using l(1) by (rule linked_distinct)
  have e': "mem m1 (ps ! n) = Some e" using e n(2) by (simp add: m1_def)
  note unl = unlink_correct [OF l n(1) e' m2_def [unfolded n(2)]]
  note fr = unlink_frame [of p e m1, folded m2_def]
  have sub: "set ?qs = set ps - {p}"
    using dp by (subst (3) ps) (subst (asm) ps, auto)
  have kv: "key_of (mem m2) q = key_of (mem m) q \<and> val_of (mem m2) q = val_of (mem m) q"
    if "q \<in> set ?qs" for q
  proof -
    have "q \<noteq> ps ! n" using that unfolding sub n(2) by simp
    then show ?thesis using unl(3) [of q] by (simp add: m1_def)
  qed
  have keys: "map (key_of (mem m2)) ?qs = map (key_of (mem m)) ?qs"
    by (rule map_cong [OF refl]) (use kv in blast)
  have "mset (map (\<lambda>q. (key_hash hasher (key_of (mem m) q), q)) ps)
      = add_mset (?h, p) (mset (map (\<lambda>q. (key_hash hasher (key_of (mem m) q), q)) ?qs))"
    by (subst ps) (simp add: p(2))
  moreover have "entries hs es = add_mset (?h, p) (entries (hs[j := EMPTY_HASH]) es)"
    using entries_clear [of j hs es] er by simp
  ultimately have "entries (hs[j := EMPTY_HASH]) es =
      mset (map (\<lambda>q. (key_hash hasher (key_of (mem m) q), q)) ?qs)"
    using er(8) ent by simp
  also have "map (\<lambda>q. (key_hash hasher (key_of (mem m) q), q)) ?qs
      = map (\<lambda>q. (key_hash hasher (key_of (mem m2) q), q)) ?qs"
    by (rule map_cong [OF refl]) (use kv in simp)
  finally have ent': "entries (hs[j := EMPTY_HASH]) es =
      mset (map (\<lambda>q. (key_hash hasher (key_of (mem m2) q), q)) ?qs)" .
  have lq: "length ?qs = length ps - 1" using n(1) by simp
  have "hm_inv hasher ?m ?qs"
    unfolding hm_inv_def
  proof (intro conjI)
    show "valid_ci (capacity_idx ?m)" using fr ci by (simp add: m1_def)
    show "linked (mem ?m) (head_element ?m) (tail_element ?m) ?qs" using unl(1) by simp
    show "dom (mem ?m) = set ?qs" using unl(2) sub n(2) by simp
    show "\<forall>q \<in> set ?qs. q < brk ?m" using inv fr sub by (auto simp: hm_inv_def m1_def)
    have "distinct (map (key_of (mem m)) ?qs)"
      using dk by (subst (asm) ps) auto
    then have "distinct (map (key_of (mem m2)) ?qs)" unfolding keys .
    then show "distinct (map (key_of (mem ?m)) ?qs)" by simp
    show "msize ?m = length ?qs" using lq fr inv by (simp add: m1_def hm_inv_def)
    show "length ?qs < capacity_at (capacity_idx ?m)" using lq fr lt by (simp add: m1_def)
    show "if allocated ?m then table_ok ?m \<and> entries (hashes ?m) (elements ?m)
          = mset (map (\<lambda>q. (key_hash hasher (key_of (mem ?m) q), q)) ?qs) else ?qs = []"
      using fr i(5) ci er(4,7) ent' by (simp add: m1_def table_ok_def)
  qed
  moreover have "items_of (mem ?m) ?qs = AList.delete k (items_of (mem m) ps)"
    using items_remove [OF dk n(1)] items_of_cong [of ?qs "mem m2" "mem m"] kv p(2) n(2)
    by simp
  ultimately show ?thesis using res by blast
qed


text \<open>A map of fewer than \<open>2 ^ 30\<close> items never reaches the last prime's limit.\<close>

lemma room_below:
  assumes "hm_inv hasher m ps" "length ps < 1073741824"
    "over_occupancy (msize m + 1) (capacity_at (capacity_idx m))"
  shows "capacity_idx m + 1 < HASH_TABLE_SIZE_MAX"
proof (rule ccontr)
  assume "\<not> ?thesis"
  then have ci: "capacity_idx m = HASH_TABLE_SIZE_MAX - 1"
    using assms(1) unfolding hm_inv_def valid_ci_def by linarith
  have cap: "capacity_at (HASH_TABLE_SIZE_MAX - 1) = 1610612741"
    by (simp add: capacity_at_def HASH_TABLE_SIZE_MAX_def hash_table_size_primes_def)
  have "msize m + 1 \<le> 1073741824" using assms(1,2) by (simp add: hm_inv_def)
  moreover define x y z where "x = f32_round (msize m + 1)" and "y = f32_round 1610612741"
    and "z = f32_round (3 * y)"
  ultimately have "x * 16777216 \<le> 1073741824 * 16777217" "1610612741 * 16777215 \<le> y * 16777216"
    "3 * y * 16777215 \<le> z * 16777216"
    using f32_round_bounds(1) [of "msize m + 1"] f32_round_bounds(2) [of 1610612741]
      f32_round_bounds(2) [of "3 * y"] by auto
  moreover have "z < 4 * x"
    using assms(3) unfolding over_occupancy_def ci cap x_def y_def z_def .
  ultimately show False by linarith
qed

section \<open>Iterating, clearing, reserving, copying\<close>

lemma iterate_linked:
  assumes l: "linked (mem m) h t ps"
  shows "i \<le> length ps \<Longrightarrow> iterate (length ps - i) m (if i < length ps then Some (ps ! i) else None)
    = Some (items_of (mem m) (drop i ps))"
proof (induction "length ps - i" arbitrary: i)
  case 0
  then show ?case by (simp add: items_of_def)
next
  case (Suc n)
  then have i: "i < length ps" "length ps - i = Suc n" "n = length ps - Suc i" by simp_all
  obtain e where e: "mem m (ps ! i) = Some e" "e_next e = next_in ps i"
    using linkedD [OF l i(1)] by blast
  have "iterate n m (e_next e) = Some (items_of (mem m) (drop (Suc i) ps))"
    using Suc.hyps(1) [OF i(3)] i e(2) by (simp add: next_in_def)
  moreover have "items_of (mem m) (drop i ps) = (e_key e, e_val e) # items_of (mem m) (drop (Suc i) ps)"
    using i(1) e(1) by (simp add: items_of_def key_of_def val_of_def flip: Cons_nth_drop_Suc)
  ultimately show ?case using i e(1) by simp
qed

lemma hm_items_eq: "hm_inv hasher m ps \<Longrightarrow> hm_items m = Some (items_of (mem m) ps)"
  using iterate_linked [of m "head_element m" "tail_element m" ps 0]
  by (cases ps) (auto simp: hm_inv_def hm_items_def linked_def)

lemma keys_items: "fst ` set (items_of mm ps) = key_of mm ` set ps"
  by (auto simp: items_of_def image_iff)

lemma distinct_items: "hm_inv hasher m ps \<Longrightarrow> distinct (map fst (items_of (mem m) ps))"
  by (simp add: hm_inv_def items_of_def o_def)

lemma length_items [simp]: "length (items_of mm ps) = length ps"
  by (simp add: items_of_def)

lemma get_correct:
  assumes inv: "hm_inv hasher m ps"
  shows "hm_get hasher (=) m k = map_of (items_of (mem m) ps) k"
    and "hm_has hasher (=) m k = Some (k \<in> key_of (mem m) ` set ps)"
proof (atomize (full), cases "k \<in> key_of (mem m) ` set ps")
  case True
  then obtain p where p: "p \<in> set ps" "key_of (mem m) p = k" by blast
  obtain i where i: "lookup_idx hasher (=) m k = Some (Some i)" "elements m ! i = p"
    using lookup_present [OF inv p] by blast
  obtain e where e: "mem m p = Some e" "e_val e = val_of (mem m) p" using hm_inv_mem [OF inv p(1)] .
  have "(k, val_of (mem m) p) \<in> set (items_of (mem m) ps)" using p by (force simp: items_of_def)
  then have "map_of (items_of (mem m) ps) k = Some (val_of (mem m) p)"
    using distinct_items [OF inv] by simp
  then show "hm_get hasher (=) m k = map_of (items_of (mem m) ps) k \<and>
      hm_has hasher (=) m k = Some (k \<in> key_of (mem m) ` set ps)"
    using i e True by (simp add: hm_get_def hm_find_def hm_has_def)
next
  case False
  then have "map_of (items_of (mem m) ps) k = None" by (simp add: map_of_eq_None_iff keys_items)
  then show "hm_get hasher (=) m k = map_of (items_of (mem m) ps) k \<and>
      hm_has hasher (=) m k = Some (k \<in> key_of (mem m) ` set ps)"
    using lookup_missing [OF inv False] False by (simp add: hm_get_def hm_find_def hm_has_def)
qed

lemma hm_inv_fresh:
  "valid_ci ci \<Longrightarrow> hm_inv hasher (empty_hmap\<lparr>capacity_idx := ci\<rparr>) []"
  using capacity_bounds [of ci] by (simp add: hm_inv_def empty_hmap_def linked_def)

lemma hm_inv_empty: "hm_inv hasher empty_hmap []"
  using hm_inv_fresh [of "capacity_idx empty_hmap" hasher]
  by (simp add: empty_hmap_def valid_ci_def MIN_CAPACITY_INDEX_def HASH_TABLE_SIZE_MAX_def)

lemma clear_data_linked:
  assumes l: "linked mm h t ps"
  shows "i \<le> length ps \<Longrightarrow> (\<forall>j < i. mm' (ps ! j) = mm (ps ! j)) \<Longrightarrow>
    clear_data i (if i = 0 then None else Some (ps ! (i - 1))) mm'
      = Some (\<lambda>q. if q \<in> set (take i ps) then None else mm' q)"
proof (induction i arbitrary: mm')
  case 0
  then show ?case by simp
next
  case (Suc i)
  then have i: "i < length ps" by simp
  obtain e where e: "mm' (ps ! i) = Some e" "e_prev e = prev_in ps i"
    using linkedD [OF l i] Suc.prems(2) by auto
  have d: "distinct ps" using l by (rule linked_distinct)
  have "\<forall>j < i. (mm'(ps ! i := None)) (ps ! j) = mm (ps ! j)"
    using Suc.prems(2) d i by (auto simp: nth_eq_iff_index_eq)
  note ih = Suc.IH [OF _ this]
  have "(\<lambda>q. if q \<in> set (take (Suc i) ps) then None else mm' q)
      = (\<lambda>q. if q \<in> set (take i ps) then None else (mm'(ps ! i := None)) q)"
    using i by (auto simp: take_Suc_conv_app_nth fun_eq_iff)
  then show ?case
    using ih e i by (simp add: prev_in_def del: fun_upd_apply)
qed

lemma clear_correct:
  assumes inv: "hm_inv hasher m ps"
  shows "\<exists>m'. hm_clear m = Some m' \<and> hm_inv hasher m' [] \<and> items_of (mem m') [] = []
    \<and> capacity_idx m' = capacity_idx m"
proof (cases "\<not> allocated m \<or> msize m = 0")
  case True
  then have "ps = []" using inv by (auto simp: hm_inv_def)
  then show ?thesis using inv True by (auto simp: hm_clear_def items_of_def)
next
  case False
  have l: "linked (mem m) (head_element m) (tail_element m) ps" and s: "msize m = length ps"
    and dm: "dom (mem m) = set ps" and ci: "valid_ci (capacity_idx m)"
    and tk: "table_ok m"
    using inv False by (simp_all add: hm_inv_def)
  have "ps \<noteq> []" using False s by auto
  then have "tail_element m = Some (ps ! (length ps - 1))"
    using l by (simp add: linked_def last_conv_nth)
  moreover have "(\<lambda>q. if q \<in> set ps then None else mem m q) = Map.empty"
    using dm by (auto simp: fun_eq_iff dom_def)
  ultimately have "clear_data (msize m) (tail_element m) (mem m) = Some Map.empty"
    using clear_data_linked [OF l, of "length ps" "mem m"] s \<open>ps \<noteq> []\<close> by simp
  then show ?thesis
    using False ci tk capacity_bounds [OF ci] rh_inv_empty entries_empty
    by (auto simp: hm_clear_def hm_inv_def linked_def table_ok_def items_of_def EMPTY_HASH_def)
qed


lemma capacity_mono: "valid_ci j \<Longrightarrow> i < j \<Longrightarrow> capacity_at i < capacity_at j"
proof -
  assume "valid_ci j" "i < j"
  moreover have "sorted_wrt (<) (map unat hash_table_size_primes)"
    by (simp add: hash_table_size_primes_def)
  ultimately show ?thesis
    by (auto simp: capacity_at_def valid_ci_def sorted_wrt_iff_nth_less)
qed

lemma capacity_max: "valid_ci i \<Longrightarrow> capacity_at i \<le> capacity_at (HASH_TABLE_SIZE_MAX - 1)"
proof (cases "i = HASH_TABLE_SIZE_MAX - 1")
  case False
  moreover assume "valid_ci i"
  ultimately have "i < HASH_TABLE_SIZE_MAX - 1" "valid_ci (HASH_TABLE_SIZE_MAX - 1)"
    unfolding valid_ci_def by linarith+
  then show ?thesis using capacity_mono less_imp_le by blast
qed simp

lemma reserve_idx_correct:
  "valid_ci i \<Longrightarrow> cap \<le> capacity_at (HASH_TABLE_SIZE_MAX - 1) \<Longrightarrow> HASH_TABLE_SIZE_MAX - i \<le> fuel \<Longrightarrow>
   \<exists>j. reserve_idx fuel i cap = Some j \<and> i \<le> j \<and> valid_ci j \<and> cap \<le> capacity_at j"
proof (induction fuel arbitrary: i)
  case 0
  then show ?case by (simp add: valid_ci_def)
next
  case (Suc fuel)
  show ?case
  proof (cases "capacity_at i < cap")
    case True
    then have "i \<noteq> HASH_TABLE_SIZE_MAX - 1" using Suc.prems(2) by auto
    then have "valid_ci (Suc i)" using Suc.prems(1) by (simp add: valid_ci_def)
    moreover have "HASH_TABLE_SIZE_MAX - Suc i \<le> fuel" using Suc.prems(3) by arith
    ultimately obtain j where "reserve_idx fuel (Suc i) cap = Some j" "Suc i \<le> j" "valid_ci j"
      "cap \<le> capacity_at j"
      using Suc.IH [of "Suc i"] Suc.prems(2) by blast
    with \<open>valid_ci (Suc i)\<close> show ?thesis using True by (simp add: valid_ci_def)
  qed (use Suc.prems in auto)
qed

lemma reserve_correct:
  assumes inv: "hm_inv hasher m ps" and cap: "cap \<le> capacity_at (HASH_TABLE_SIZE_MAX - 1)"
  shows "\<exists>m'. hm_reserve cap m = Some m' \<and> hm_inv hasher m' ps \<and> mem m' = mem m
    \<and> cap \<le> capacity_at (capacity_idx m')"
proof -
  have ci: "valid_ci (capacity_idx m)" using inv by (simp add: hm_inv_def)
  obtain j where j: "reserve_idx HASH_TABLE_SIZE_MAX (capacity_idx m) cap = Some j"
    "capacity_idx m \<le> j" "valid_ci j" "cap \<le> capacity_at j"
    using reserve_idx_correct [OF ci cap diff_le_self] by blast
  show ?thesis
  proof (cases "j = capacity_idx m")
    case True
    then show ?thesis using inv j by (auto simp: hm_reserve_def)
  next
    case False
    then have lt: "capacity_at (capacity_idx m) < capacity_at j" using j by (intro capacity_mono) auto
    show ?thesis
    proof (cases "allocated m")
      case True
      define ci' where "ci' = (if j > MIN_CAPACITY_INDEX then j else MIN_CAPACITY_INDEX)"
      have v: "valid_ci ci'" using j(3) by (simp add: ci'_def valid_ci_def MIN_CAPACITY_INDEX_def HASH_TABLE_SIZE_MAX_def)
      have le: "capacity_at j \<le> capacity_at ci'"
        using capacity_mono [OF v, of j] unfolding ci'_def by (cases "j > MIN_CAPACITY_INDEX"; cases "j = MIN_CAPACITY_INDEX") simp_all
      have ent: "size (entries (hashes m) (elements m)) = length ps" and s: "length ps < capacity_at (capacity_idx m)"
        using inv True by (simp_all add: hm_inv_def)
      have sp: "size (entries (hashes m) (elements m)) < capacity_at ci'"
        using ent s lt le by linarith
      have mx: "MIN_CAPACITY_INDEX < HASH_TABLE_SIZE_MAX"
        by (simp add: MIN_CAPACITY_INDEX_def HASH_TABLE_SIZE_MAX_def)
      obtain hs es where r: "resize_and_rehash j m = Some (m\<lparr>allocated := True, hashes := hs, elements := es,
          capacity_idx := ci', msize := length ps\<rparr>)"
        "rh_inv ci' hs" "length es = capacity_at ci'" "entries hs es = entries (hashes m) (elements m)"
        using resize_correct [OF j(3) mx ci'_def sp] unfolding ent by blast
      then show ?thesis
        using inv True False j v le s lt by (auto simp: hm_reserve_def hm_inv_def table_ok_def)
    next
      case na: False
      then show ?thesis using inv j False lt by (auto simp: hm_reserve_def hm_inv_def)
    qed
  qed
qed

lemma insert_all_correct:
  "hm_inv hasher m ps \<Longrightarrow> distinct (map fst (items_of (mem m) ps @ xs)) \<Longrightarrow>
   length ps + length xs \<le> 1073741824 \<Longrightarrow>
   \<exists>m' qs. insert_all hasher (=) xs m = Some m' \<and> hm_inv hasher m' qs
     \<and> items_of (mem m') qs = items_of (mem m) ps @ xs"
proof (induction xs arbitrary: m ps)
  case Nil
  then show ?case by auto
next
  case (Cons kv xs)
  obtain k v where kv: "kv = (k, v)" by force
  have new: "k \<notin> key_of (mem m) ` set ps"
    using Cons.prems(2) keys_items [of "mem m" ps] by (auto simp: kv)
  have "length ps < 1073741824" using Cons.prems(3) by simp
  then obtain p m1 qs where 1: "hm_insert hasher (=) k v False m = Some (p, m1)" "hm_inv hasher m1 qs"
    "items_of (mem m1) qs = items_of (mem m) ps @ [(k, v)]"
    using insert_correct [OF Cons.prems(1), where k = k and v = v and front = False]
      room_below [OF Cons.prems(1)] new by auto
  have "length qs = length ps + 1" using arg_cong [OF 1(3), of length] by simp
  then show ?case
    using Cons.IH [OF 1(2)] Cons.prems 1 by (auto simp: kv)
qed

lemma copy_correct:
  fixes m :: "('k, 'v) hmap"
  assumes inv: "hm_inv hasher m ps" and s: "length ps \<le> 1073741824"
  shows "\<exists>m' qs. hm_copy hasher (=) m = Some m' \<and> hm_inv hasher m' qs
     \<and> items_of (mem m') qs = items_of (mem m) ps"
proof -
  have v0: "valid_ci 0" by (simp add: valid_ci_def HASH_TABLE_SIZE_MAX_def)
  have ci: "valid_ci (capacity_idx m)" using inv by (simp add: hm_inv_def)
  have "capacity_at (capacity_idx m) \<le> capacity_at (HASH_TABLE_SIZE_MAX - 1)"
    using ci by (rule capacity_max)
  then obtain m0 :: "('k, 'v) hmap" where m0: "hm_reserve (capacity_at (capacity_idx m)) (empty_hmap\<lparr>capacity_idx := 0\<rparr>) = Some m0"
    "hm_inv hasher m0 []"
    using reserve_correct [OF hm_inv_fresh [OF v0]] by blast
  have d: "distinct (map fst (items_of (mem m0) [] @ items_of (mem m) ps))"
    using distinct_items [OF inv] by (simp add: items_of_def)
  obtain m' qs where "insert_all hasher (=) (items_of (mem m) ps) m0 = Some m'" "hm_inv hasher m' qs"
    "items_of (mem m') qs = items_of (mem m) ps"
    using insert_all_correct [OF m0(2) d] s by (auto simp: items_of_def)
  moreover have "msize m = length ps" using inv by (simp add: hm_inv_def)
  ultimately show ?thesis
    using m0 hm_items_eq [OF inv] by (cases "ps = []") (auto simp: hm_copy_def items_of_def)
qed

section \<open>The contract of an insertion-ordered map\<close>

text \<open>
  What the clients of the map (\<open>SmallVector\<close>-free dictionaries, child indices, command tables)
  rely on: bounded insertion never fails, the items are the association list that
  overwriting in place and appending build, and lookup reads that list.
\<close>

datatype ('k, 'v) map_op = Put 'k 'v | Del 'k

fun map_run :: "('k \<Rightarrow> 'v \<Rightarrow> 'm \<Rightarrow> 'm option) \<Rightarrow> ('k \<Rightarrow> 'm \<Rightarrow> 'm option)
    \<Rightarrow> ('k, 'v) map_op list \<Rightarrow> 'm \<Rightarrow> 'm option" where
  "map_run ins del [] m = Some m"
| "map_run ins del (Put k v # ops) m =
     (case ins k v m of None \<Rightarrow> None | Some m' \<Rightarrow> map_run ins del ops m')"
| "map_run ins del (Del k # ops) m =
     (case del k m of None \<Rightarrow> None | Some m' \<Rightarrow> map_run ins del ops m')"

fun alist_run :: "('k, 'v) map_op list \<Rightarrow> ('k \<times> 'v) list \<Rightarrow> ('k \<times> 'v) list" where
  "alist_run [] xs = xs"
| "alist_run (Put k v # ops) xs = alist_run ops (AList.update k v xs)"
| "alist_run (Del k # ops) xs = alist_run ops (AList.delete k xs)"

locale ordered_map =
  fixes fresh :: 'm
    and lk :: "'m \<Rightarrow> 'k \<Rightarrow> 'v option"
    and ins :: "'k \<Rightarrow> 'v \<Rightarrow> 'm \<Rightarrow> 'm option"
    and del :: "'k \<Rightarrow> 'm \<Rightarrow> 'm option"
    and its :: "'m \<Rightarrow> ('k \<times> 'v) list"
    and ok :: "'m \<Rightarrow> bool"
    and limit :: nat
  assumes ok_fresh: "ok fresh" and its_fresh: "its fresh = []"
    and its_distinct: "ok m \<Longrightarrow> distinct (map fst (its m))"
    and lk_its: "ok m \<Longrightarrow> lk m k = map_of (its m) k"
    and ins_ok: "ok m \<Longrightarrow> length (its m) < limit \<Longrightarrow>
      \<exists>m'. ins k v m = Some m' \<and> ok m' \<and> its m' = AList.update k v (its m)"
    and del_ok: "ok m \<Longrightarrow> \<exists>m'. del k m = Some m' \<and> ok m' \<and> its m' = AList.delete k (its m)"
begin

lemma lk_ins:
  assumes "ok m" "length (its m) < limit" "ins k v m = Some m'"
  shows "lk m' q = (if q = k then Some v else lk m q)"
  using ins_ok [OF assms(1,2), of k v] assms lk_its by (auto simp: update_conv)

lemma lk_del:
  assumes "ok m" "del k m = Some m'"
  shows "lk m' q = (if q = k then None else lk m q)"
  using del_ok [OF assms(1), of k] assms lk_its by (auto simp: delete_conv)

lemma length_update_le: "length (AList.update k v xs) \<le> Suc (length xs)"
  by (induction xs) auto

lemma run_refines:
  "ok m \<Longrightarrow> length (its m) + length ops \<le> limit \<Longrightarrow>
   \<exists>m'. map_run ins del ops m = Some m' \<and> ok m' \<and> its m' = alist_run ops (its m)
     \<and> (\<forall>k. lk m' k = map_of (alist_run ops (its m)) k)"
proof (induction ops arbitrary: m)
  case Nil
  then show ?case by (simp add: lk_its)
next
  case (Cons x ops)
  show ?case
  proof (cases x)
    case (Put k v)
    obtain m1 where m1: "ins k v m = Some m1" "ok m1" "its m1 = AList.update k v (its m)"
      using ins_ok [OF Cons.prems(1)] Cons.prems(2) by force
    then show ?thesis
      using Cons.IH [OF m1(2)] Cons.prems(2) length_update_le [of k v "its m"] by (simp add: Put)
  next
    case (Del k)
    obtain m1 where m1: "del k m = Some m1" "ok m1" "its m1 = AList.delete k (its m)"
      using del_ok [OF Cons.prems(1)] by blast
    then show ?thesis
      using Cons.IH [OF m1(2)] Cons.prems(2) length_delete_le [of k "its m"] by (simp add: Del)
  qed
qed

lemma run_fresh:
  "length ops \<le> limit \<Longrightarrow>
   \<exists>m'. map_run ins del ops fresh = Some m' \<and> ok m' \<and> its m' = alist_run ops []
     \<and> (\<forall>k. lk m' k = map_of (alist_run ops []) k)"
  using run_refines [OF ok_fresh, of ops] by (simp add: its_fresh)

end

text \<open>The model's operations, with the iterator results dropped.\<close>

definition hm_ok :: "('k \<Rightarrow> u32) \<Rightarrow> ('k, 'v) hmap \<Rightarrow> bool" where
  "hm_ok hasher m \<longleftrightarrow> (\<exists>ps. hm_inv hasher m ps)"

definition hm_put :: "('k \<Rightarrow> u32) \<Rightarrow> 'k \<Rightarrow> 'v \<Rightarrow> ('k, 'v) hmap \<Rightarrow> ('k, 'v) hmap option" where
  "hm_put hasher k v m = map_option snd (hm_insert hasher (=) k v False m)"

definition hm_del :: "('k \<Rightarrow> u32) \<Rightarrow> 'k \<Rightarrow> ('k, 'v) hmap \<Rightarrow> ('k, 'v) hmap option" where
  "hm_del hasher k m = map_option snd (hm_erase hasher (=) k m)"

definition hm_list :: "('k, 'v) hmap \<Rightarrow> ('k \<times> 'v) list" where
  "hm_list m = the (hm_items m)"

lemma hm_list_eq: "hm_inv hasher m ps \<Longrightarrow> hm_list m = items_of (mem m) ps"
  by (simp add: hm_list_def hm_items_eq)

lemma update_absent: "k \<notin> fst ` set xs \<Longrightarrow> AList.update k v xs = xs @ [(k, v)]"
  by (induction xs) auto

lemma hm_insert_list:
  assumes inv: "hm_inv hasher m ps" and s: "length (hm_list m) < 1073741824"
  shows "\<exists>p m' qs. hm_insert hasher (=) k v front m = Some (p, m') \<and> hm_inv hasher m' qs
    \<and> hm_list m' = (if front \<and> k \<notin> fst ` set (hm_list m) then (k, v) # hm_list m
                    else AList.update k v (hm_list m))"
proof -
  have "length ps < 1073741824" using s hm_list_eq [OF inv] by simp
  then obtain p m' qs where 1: "hm_insert hasher (=) k v front m = Some (p, m')" "hm_inv hasher m' qs"
    "items_of (mem m') qs =
        (if k \<in> key_of (mem m) ` set ps then AList.update k v (items_of (mem m) ps)
         else if front then (k, v) # items_of (mem m) ps else items_of (mem m) ps @ [(k, v)])"
    using insert_correct [OF inv, where k = k and v = v and front = front] room_below [OF inv] by blast
  then show ?thesis
    using hm_list_eq [OF inv] hm_list_eq [OF 1(2)] keys_items [of "mem m" ps] update_absent
    by (metis (no_types, lifting))
qed

lemma hm_erase_list:
  assumes inv: "hm_inv hasher m ps"
  shows "\<exists>m' qs. hm_erase hasher (=) k m = Some (k \<in> fst ` set (hm_list m), m') \<and> hm_inv hasher m' qs
    \<and> hm_list m' = AList.delete k (hm_list m)"
proof (cases "k \<in> key_of (mem m) ` set ps")
  case True
  then show ?thesis
    using erase_present [OF inv True] hm_list_eq keys_items [of "mem m" ps] inv by (metis (full_types))
next
  case False
  then have "AList.delete k (items_of (mem m) ps) = items_of (mem m) ps"
    by (simp add: delete_idem keys_items)
  then show ?thesis
    using lookup_missing [OF inv False] False hm_list_eq [OF inv] keys_items [of "mem m" ps] inv
    by (auto simp: hm_erase_def)
qed

interpretation ohm: ordered_map empty_hmap "hm_get hasher (=)" "hm_put hasher" "hm_del hasher"
  hm_list "hm_ok hasher" 1073741824
  for hasher :: "'k \<Rightarrow> u32"
proof
  show "hm_ok hasher (empty_hmap :: ('k, 'v) hmap)" using hm_inv_empty by (auto simp: hm_ok_def)
  show "hm_list (empty_hmap :: ('k, 'v) hmap) = []"
    by (simp add: hm_list_eq [OF hm_inv_empty] items_of_def)
next
  fix m :: "('k, 'v) hmap" and k v assume "hm_ok hasher m"
  then obtain ps where inv: "hm_inv hasher m ps" by (auto simp: hm_ok_def)
  show "distinct (map fst (hm_list m))" using distinct_items [OF inv] hm_list_eq [OF inv] by simp
  show "hm_get hasher (=) m k = map_of (hm_list m) k"
    using get_correct(1) [OF inv] hm_list_eq [OF inv] by simp
  show "\<exists>m'. hm_del hasher k m = Some m' \<and> hm_ok hasher m' \<and> hm_list m' = AList.delete k (hm_list m)"
    using hm_erase_list [OF inv, of k] by (auto simp: hm_del_def hm_ok_def)
  assume "length (hm_list m) < 1073741824"
  then show "\<exists>m'. hm_put hasher k v m = Some m' \<and> hm_ok hasher m'
      \<and> hm_list m' = AList.update k v (hm_list m)"
    using hm_insert_list [OF inv, of k v False] by (auto simp: hm_put_def hm_ok_def)
qed

section \<open>Properties of the map\<close>

lemma hm_items_list: "hm_ok hasher m \<Longrightarrow> hm_items m = Some (hm_list m)"
  by (auto simp: hm_ok_def hm_list_def dest: hm_items_eq)

text \<open>C1: the Robin Hood table behaves as an insertion-ordered dictionary: every sequence of
  insertions and erasures of at most \<open>2 ^ 30\<close> operations on a fresh map returns (no probe loop
  runs on, no assertion fails), for every hash function, and afterwards iteration yields exactly
  the association list the same operations build and lookup reads that list.\<close>

theorem hashmap_run_refines:
  "length ops \<le> 1073741824 \<Longrightarrow>
   \<exists>m'. map_run (hm_put hasher) (hm_del hasher) ops empty_hmap = Some m'
     \<and> hm_items m' = Some (alist_run ops [])
     \<and> (\<forall>k. hm_get hasher (=) m' k = map_of (alist_run ops []) k)"
  using ohm.run_fresh [of ops hasher] hm_items_list by metis

lemma two_items:
  "\<exists>m. map_run (hm_put id) (hm_del id) [Put (5::u32) ''a'', Put 28 ''b''] empty_hmap = Some m
     \<and> hm_ok id m \<and> hm_list m = [(5, ''a''), (28, ''b'')]"
  using ohm.run_fresh [of "[Put (5::u32) ''a'', Put 28 ''b'']" id] by auto

theorem hashmap_run_refines_witness:
  "\<exists>m'. map_run (hm_put id) (hm_del id) [Put (5::u32) ''a'', Put 28 ''b'', Put 5 ''c'', Del 28] empty_hmap
        = Some m'
     \<and> hm_items m' = Some [(5, ''c'')] \<and> hm_get id (=) m' 28 = None"
  using hashmap_run_refines [of "[Put (5::u32) ''a'', Put 28 ''b'', Put 5 ''c'', Del 28]" id] by auto

text \<open>\<open>insert\<close> on a well-formed map of fewer than \<open>2 ^ 30\<close> items returns, keeps the map
  well formed, overwrites the value of a present key in place, puts a new key at the back (or
  the front when asked), and changes no other key's value.\<close>

theorem hashmap_insert:
  assumes "hm_ok hasher m" "length (hm_list m) < 1073741824"
  shows "\<exists>p m'. hm_insert hasher (=) k v front m = Some (p, m') \<and> hm_ok hasher m'
    \<and> hm_items m' = Some (if front \<and> k \<notin> fst ` set (hm_list m) then (k, v) # hm_list m
                          else AList.update k v (hm_list m))
    \<and> (\<forall>q. hm_get hasher (=) m' q = (if q = k then Some v else hm_get hasher (=) m q))"
proof -
  obtain ps where "hm_inv hasher m ps" using assms(1) by (auto simp: hm_ok_def)
  then obtain p m' qs where 1: "hm_insert hasher (=) k v front m = Some (p, m')" "hm_inv hasher m' qs"
    "hm_list m' = (if front \<and> k \<notin> fst ` set (hm_list m) then (k, v) # hm_list m
                   else AList.update k v (hm_list m))"
    using hm_insert_list [OF _ assms(2), of hasher ps k v front] by blast
  then have ok: "hm_ok hasher m'" by (auto simp: hm_ok_def)
  have "hm_get hasher (=) m' q = (if q = k then Some v else hm_get hasher (=) m q)" for q
    unfolding ohm.lk_its [OF ok] ohm.lk_its [OF assms(1)] 1(3) by (simp add: update_conv)
  then show ?thesis using 1 ok hm_items_list [OF ok] by auto
qed

theorem hashmap_insert_witness:
  "\<exists>m p m'. hm_list m = [(5, ''a''), (28, ''b'')] \<and> hm_insert id (=) (51::u32) ''c'' True m = Some (p, m')
     \<and> hm_items m' = Some [(51, ''c''), (5, ''a''), (28, ''b'')] \<and> hm_get id (=) m' 51 = Some ''c''"
proof -
  obtain m where m: "hm_ok id m" "hm_list m = [(5::u32, ''a''), (28, ''b'')]" using two_items by blast
  then show ?thesis
    using hashmap_insert [OF m(1), of 51 "''c''" True] by (auto intro!: exI [of _ m])
qed

text \<open>C2: \<open>erase\<close> with its backward shift always returns, reports whether the key was present,
  keeps the map well formed and removes exactly that key from the iteration order.\<close>

theorem hashmap_erase:
  assumes "hm_ok hasher m"
  shows "\<exists>m'. hm_erase hasher (=) k m = Some (k \<in> fst ` set (hm_list m), m') \<and> hm_ok hasher m'
    \<and> hm_items m' = Some (AList.delete k (hm_list m))
    \<and> (\<forall>q. hm_get hasher (=) m' q = (if q = k then None else hm_get hasher (=) m q))"
proof -
  obtain ps where "hm_inv hasher m ps" using assms by (auto simp: hm_ok_def)
  then obtain m' qs where 1: "hm_erase hasher (=) k m = Some (k \<in> fst ` set (hm_list m), m')"
    "hm_inv hasher m' qs" "hm_list m' = AList.delete k (hm_list m)"
    using hm_erase_list [of hasher m ps k] by blast
  then have ok: "hm_ok hasher m'" by (auto simp: hm_ok_def)
  have "hm_get hasher (=) m' q = (if q = k then None else hm_get hasher (=) m q)" for q
    unfolding ohm.lk_its [OF ok] ohm.lk_its [OF assms] 1(3) by (simp add: delete_conv)
  then show ?thesis using 1 ok hm_items_list [OF ok] by auto
qed

theorem hashmap_erase_witness:
  "\<exists>m m'. hm_list m = [(5, ''a''), (28, ''b'')] \<and> hm_erase id (=) (5::u32) m = Some (True, m')
     \<and> hm_items m' = Some [(28, ''b'')]"
proof -
  obtain m where m: "hm_ok id m" "hm_list m = [(5::u32, ''a''), (28, ''b'')]" using two_items by blast
  then show ?thesis
    using hashmap_erase [OF m(1), of 5] by simp blast
qed

text \<open>\<open>get\<close>, \<open>has\<close> and iteration agree on a well-formed map; \<open>clear\<close> empties it, \<open>reserve\<close>
  changes only the capacity, and the copy constructor yields the same items in the same order.\<close>

theorem hashmap_clear_reserve_copy:
  fixes m :: "('k, 'v) hmap"
  assumes "hm_ok hasher m"
  shows "hm_has hasher (=) m k = Some (k \<in> fst ` set (hm_list m))
    \<and> (\<exists>m'. hm_clear m = Some m' \<and> hm_ok hasher m' \<and> hm_items m' = Some [])
    \<and> (cap \<le> 1610612741 \<longrightarrow> (\<exists>m'. hm_reserve cap m = Some m' \<and> hm_ok hasher m'
          \<and> hm_items m' = Some (hm_list m) \<and> cap \<le> capacity_at (capacity_idx m')))
    \<and> (length (hm_list m) \<le> 1073741824 \<longrightarrow> (\<exists>m'. hm_copy hasher (=) m = Some m' \<and> hm_ok hasher m'
          \<and> hm_items m' = Some (hm_list m)))"
proof -
  obtain ps where inv: "hm_inv hasher m ps" using assms by (auto simp: hm_ok_def)
  have cap: "capacity_at (HASH_TABLE_SIZE_MAX - 1) = 1610612741"
    by (simp add: capacity_at_def HASH_TABLE_SIZE_MAX_def hash_table_size_primes_def)
  note l = hm_list_eq [OF inv]
  have "\<exists>m'. hm_clear m = Some m' \<and> hm_ok hasher m' \<and> hm_items m' = Some []"
    using clear_correct [OF inv] hm_items_eq by (metis hm_ok_def)
  moreover have "\<exists>m'. hm_reserve cap m = Some m' \<and> hm_ok hasher m'
      \<and> hm_items m' = Some (hm_list m) \<and> cap \<le> capacity_at (capacity_idx m')" if "cap \<le> 1610612741"
    using reserve_correct [OF inv, of cap] that hm_items_eq l unfolding cap by (metis hm_ok_def)
  moreover have "\<exists>m'. hm_copy hasher (=) m = Some m' \<and> hm_ok hasher m' \<and> hm_items m' = Some (hm_list m)"
    if "length (hm_list m) \<le> 1073741824"
    using copy_correct [OF inv] that hm_items_eq l by (metis hm_ok_def length_items)
  ultimately show ?thesis using get_correct(2) [OF inv] l keys_items [of "mem m" ps] by auto
qed

theorem hashmap_clear_reserve_copy_witness:
  "\<exists>m m'. hm_list m = [(5, ''a''), (28, ''b'')] \<and> hm_has id (=) m (5::u32) = Some True
     \<and> hm_copy id (=) m = Some m' \<and> hm_items m' = Some [(5, ''a''), (28, ''b'')]"
proof -
  obtain m where m: "hm_ok id m" "hm_list m = [(5::u32, ''a''), (28, ''b'')]" using two_items by blast
  then show ?thesis
    using hashmap_clear_reserve_copy [OF m(1), of 5 0] by simp blast
qed

end
