(* ===== verification/Node_Key.thy ===== *)
theory Node_Key
  imports VE_Prelude "HOL-Library.Char_ord"
begin

text \<open>
  Keys and names of \<open>ve::Node\<close> (\<open>ve/src/core/node.cpp\<close>, \<open>ve/include/ve/core/node.h\<close>): the parser
  and printer of \<open>name\<close>, \<open>name#N\<close> and \<open>#N\<close>, the name check and the splitting of a path into
  segments. Strings are character lists. \<open>parseKey\<close> accumulates its digits in an \<open>int\<close>; a
  value above \<open>INT_MAX\<close> is undefined behaviour there and the result \<open>KeyOverflow\<close> here.
\<close>

section \<open>Decimal text of integers\<close>

definition INT_MAX :: int where
  "INT_MAX = 2147483647"

definition is_digit :: "char \<Rightarrow> bool" where
  "is_digit c \<longleftrightarrow> CHR ''0'' \<le> c \<and> c \<le> CHR ''9''"

definition digit_val :: "char \<Rightarrow> nat" where
  "digit_val c = of_char c - 48"

definition digit_char :: "nat \<Rightarrow> char" where
  "digit_char d = char_of (48 + d)"

text \<open>\<open>std::to_chars\<close> in base ten.\<close>

fun nat_chars :: "nat \<Rightarrow> string" where
  "nat_chars n = (if n < 10 then [digit_char n] else nat_chars (n div 10) @ [digit_char (n mod 10)])"

declare nat_chars.simps [simp del]

definition int_chars :: "int \<Rightarrow> string" where
  "int_chars i = (if i < 0 then CHR ''-'' # nat_chars (nat (- i)) else nat_chars (nat i))"

section \<open>Keys\<close>

definition VE_NODE_KEY_SEP :: char where
  "VE_NODE_KEY_SEP = CHR ''#''"

definition VE_NODE_PATH_SEP :: char where
  "VE_NODE_PATH_SEP = CHR ''/''"

text \<open>\<open>std::string_view::rfind\<close> of one character, and \<open>find\<close>.\<close>

fun rfind :: "char \<Rightarrow> string \<Rightarrow> nat option" where
  "rfind c [] = None"
| "rfind c (x # xs) =
     (case rfind c xs of Some i \<Rightarrow> Some (Suc i) | None \<Rightarrow> if x = c then Some 0 else None)"

fun find_char :: "char \<Rightarrow> string \<Rightarrow> nat option" where
  "find_char c [] = None"
| "find_char c (x # xs) = (if x = c then Some 0 else map_option Suc (find_char c xs))"

datatype digits = DBad | DOverflow | DVal nat

fun parse_digits :: "nat \<Rightarrow> string \<Rightarrow> digits" where
  "parse_digits val [] = DVal val"
| "parse_digits val (c # cs) =
     (if c < CHR ''0'' \<or> CHR ''9'' < c then DBad
      else (let v = val * 10 + digit_val c
            in if INT_MAX < int v then DOverflow else parse_digits v cs))"

datatype key = KeyBad | KeyOverflow | Key string nat

definition parseKey :: "string \<Rightarrow> char \<Rightarrow> key" where
  "parseKey key key_sep =
     (if key = [] then KeyBad
      else (case rfind key_sep key of
              None \<Rightarrow> Key key 0
            | Some pos \<Rightarrow>
                (let dp = drop (pos + 1) key
                 in if dp = [] then Key (take pos key) 0
                    else (case parse_digits 0 dp of
                            DBad \<Rightarrow> KeyBad
                          | DOverflow \<Rightarrow> KeyOverflow
                          | DVal val \<Rightarrow> Key (take pos key) val))))"

definition toKey :: "string \<Rightarrow> int \<Rightarrow> char \<Rightarrow> string" where
  "toKey name index key_sep =
     (if name = [] then key_sep # int_chars index
      else if index < 0 then name
      else name @ key_sep # int_chars index)"

text \<open>\<open>None\<close> where the parser overflows.\<close>

definition keyIndex :: "string \<Rightarrow> char \<Rightarrow> int option" where
  "keyIndex key key_sep =
     (case parseKey key key_sep of
        KeyBad \<Rightarrow> Some (-1) | KeyOverflow \<Rightarrow> None | Key _ idx \<Rightarrow> Some (int idx))"

definition isName :: "string \<Rightarrow> char \<Rightarrow> char \<Rightarrow> bool" where
  "isName name path_sep key_sep =
     (if name = [] then False
      else find_char path_sep name = None \<and> find_char key_sep name = None)"

section \<open>Path segments\<close>

text \<open>The segments \<open>atPath\<close> walks through, empty ones skipped.\<close>

fun next_seg :: "char \<Rightarrow> string \<Rightarrow> string \<times> string" where
  "next_seg sep path =
     (case find_char sep path of
        None \<Rightarrow> (path, []) | Some slash \<Rightarrow> (take slash path, drop (slash + 1) path))"

declare next_seg.simps [simp del]

lemma find_char_less: "find_char c s = Some i \<Longrightarrow> i < length s"
  by (induction s arbitrary: i) (auto split: if_splits)

lemma next_seg_shorter [termination_simp]:
  "s \<noteq> [] \<Longrightarrow> (seg, rest) = next_seg sep s \<Longrightarrow> length rest < length s"
  by (auto simp: next_seg.simps split: option.splits dest: find_char_less)

function segments :: "char \<Rightarrow> string \<Rightarrow> string list" where
  "segments sep path =
     (if path = [] then []
      else (let (seg, rest) = next_seg sep path
            in if seg = [] then segments sep rest else seg # segments sep rest))"
  by pat_completeness auto
termination
  by (relation "measure (length \<circ> snd)") (auto simp: next_seg_shorter)

declare segments.simps [simp del]

section \<open>Facts about decimal text\<close>

lemma is_digit_iff: "is_digit c \<longleftrightarrow> \<not> (c < CHR ''0'' \<or> CHR ''9'' < c)"
  by (auto simp: is_digit_def)

lemma digit_char_props:
  assumes "d < 10"
  shows "is_digit (digit_char d)" "digit_val (digit_char d) = d"
proof -
  have "(of_char (digit_char d) :: nat) = 48 + d" using assms by (simp add: digit_char_def)
  then show "is_digit (digit_char d)" "digit_val (digit_char d) = d"
    using assms by (auto simp: is_digit_def less_eq_char_def digit_val_def)
qed

lemma nat_chars_digits: "c \<in> set (nat_chars n) \<Longrightarrow> is_digit c"
proof (induction n rule: nat_chars.induct)
  case (1 n)
  then show ?case by (subst (asm) (2) nat_chars.simps) (auto split: if_splits simp: digit_char_props)
qed

lemma nat_chars_not_Nil [simp]: "nat_chars n \<noteq> []"
  by (subst nat_chars.simps) simp

lemma parse_digits_append:
  "parse_digits v (xs @ ys) =
     (case parse_digits v xs of DBad \<Rightarrow> DBad | DOverflow \<Rightarrow> DOverflow | DVal w \<Rightarrow> parse_digits w ys)"
  by (induction xs arbitrary: v) (auto simp: Let_def)

lemma parse_nat_chars: "int n \<le> INT_MAX \<Longrightarrow> parse_digits 0 (nat_chars n) = DVal n"
proof (induction n rule: nat_chars.induct)
  case (1 n)
  show ?case
  proof (cases "n < 10")
    case True
    then show ?thesis using 1(2) digit_char_props [of n]
      by (simp add: nat_chars.simps is_digit_iff Let_def)
  next
    case False
    have le: "int (n div 10) \<le> INT_MAX" using 1(2) by (simp add: INT_MAX_def)
    have d: "is_digit (digit_char (n mod 10))" "digit_val (digit_char (n mod 10)) = n mod 10"
      by (simp_all add: digit_char_props)
    have n: "n div 10 * 10 + n mod 10 = n" by simp
    have "nat_chars n = nat_chars (n div 10) @ [digit_char (n mod 10)]"
      using False by (simp add: nat_chars.simps)
    then show ?thesis
      using 1(1) [OF False le] d 1(2) unfolding is_digit_iff
      by (simp add: parse_digits_append Let_def n del: parse_digits.simps) (simp add: n Let_def)
  qed
qed

lemma parse_digits_value: "parse_digits v s = DVal n \<Longrightarrow> int v \<le> INT_MAX \<Longrightarrow> int n \<le> INT_MAX"
  by (induction s arbitrary: v) (auto simp: Let_def split: if_splits)

lemma nat_chars_inj: "nat_chars m = nat_chars n \<Longrightarrow> int m \<le> INT_MAX \<Longrightarrow> int n \<le> INT_MAX \<Longrightarrow> m = n"
  using parse_nat_chars by (metis digits.inject)

section \<open>Facts about keys\<close>

lemma rfind_append: "c \<notin> set t \<Longrightarrow> rfind c (s @ c # t) = Some (length s)"
proof -
  have none: "c \<notin> set t \<Longrightarrow> rfind c t = None" for t by (induction t) auto
  assume "c \<notin> set t"
  then show ?thesis by (induction s) (auto simp: none)
qed

lemma rfind_None: "rfind c s = None \<longleftrightarrow> c \<notin> set s"
  by (induction s) (auto split: option.splits)

lemma find_char_None [simp]: "find_char c s = None \<longleftrightarrow> c \<notin> set s"
  by (induction s) auto

lemma find_char_append: "c \<notin> set s \<Longrightarrow> find_char c (s @ c # t) = Some (length s)"
  by (induction s) auto

lemma isName_iff: "isName name p k \<longleftrightarrow> name \<noteq> [] \<and> p \<notin> set name \<and> k \<notin> set name"
  by (auto simp: isName_def)

lemma parse_toKey_index:
  assumes "0 \<le> i" "i \<le> INT_MAX" "\<not> is_digit sep"
  shows "parseKey (toKey name i sep) sep = Key name (nat i)"
proof -
  have s: "sep \<notin> set (nat_chars (nat i))" using assms(3) nat_chars_digits by blast
  have t: "toKey name i sep = name @ sep # nat_chars (nat i)"
    using assms(1) by (auto simp: toKey_def int_chars_def)
  have "rfind sep (toKey name i sep) = Some (length name)" unfolding t using s by (rule rfind_append)
  moreover have "drop (length name + 1) (toKey name i sep) = nat_chars (nat i)"
    "take (length name) (toKey name i sep) = name" by (simp_all add: t)
  moreover have "parse_digits 0 (nat_chars (nat i)) = DVal (nat i)"
    using assms by (intro parse_nat_chars) simp
  ultimately show ?thesis by (simp add: parseKey_def Let_def) (simp add: t)
qed

lemma parse_toKey_sole:
  assumes "name \<noteq> []" "sep \<notin> set name" "i < 0"
  shows "parseKey (toKey name i sep) sep = Key name 0"
proof -
  have "rfind sep name = None" using assms(2) by (simp add: rfind_None)
  then show ?thesis using assms by (simp add: toKey_def parseKey_def)
qed

lemma rfind_SomeD:
  "rfind c s = Some pos \<Longrightarrow> \<exists>t. s = take pos s @ c # t \<and> c \<notin> set t \<and> drop (pos + 1) s = t"
proof (induction s arbitrary: pos)
  case (Cons x s)
  show ?case
  proof (cases "rfind c s")
    case None
    then have "c \<notin> set s" by (simp add: rfind_None)
    then show ?thesis using Cons.prems None by (simp split: if_splits)
  next
    case (Some i)
    then show ?thesis using Cons by auto
  qed
qed simp

lemma parseKey_shape:
  assumes "parseKey key sep = Key name n"
  shows "(key = name \<and> n = 0 \<and> sep \<notin> set key \<and> key \<noteq> [])
    \<or> (\<exists>ds. key = name @ sep # ds \<and> sep \<notin> set ds \<and> (if ds = [] then n = 0 else parse_digits 0 ds = DVal n))"
proof (cases "rfind sep key")
  case None
  then have "sep \<notin> set key" by (simp add: rfind_None)
  then show ?thesis using assms None by (simp add: parseKey_def split: if_splits)
next
  case (Some pos)
  obtain t where t: "key = take pos key @ sep # t" "sep \<notin> set t" "drop (pos + 1) key = t"
    using rfind_SomeD [OF Some] by blast
  have "key \<noteq> []" using Some by (cases key) auto
  then have "if t = [] then n = 0 \<and> name = take pos key
      else parse_digits 0 t = DVal n \<and> name = take pos key"
    using assms Some t(3) by (auto simp: parseKey_def Let_def split: if_splits digits.splits)
  then show ?thesis using t(1,2) by (auto split: if_splits)
qed

lemma parseKey_index_le:
  assumes "parseKey key sep = Key name n"
  shows "int n \<le> INT_MAX"
  using parseKey_shape [OF assms]
proof (elim disjE exE conjE)
  fix ds assume "if ds = [] then n = 0 else parse_digits 0 ds = DVal n"
  then show ?thesis using parse_digits_value [of 0 ds n] by (simp add: INT_MAX_def split: if_splits)
qed (simp add: INT_MAX_def)

section \<open>Facts about path segments\<close>

lemma segments_Nil [simp]: "segments sep [] = []"
  by (simp add: segments.simps)

lemma segments_cons:
  "seg \<noteq> [] \<Longrightarrow> sep \<notin> set seg \<Longrightarrow> segments sep (seg @ sep # rest) = seg # segments sep rest"
  by (subst segments.simps) (simp add: next_seg.simps find_char_append)

lemma segments_single: "seg \<noteq> [] \<Longrightarrow> sep \<notin> set seg \<Longrightarrow> segments sep seg = [seg]"
  by (subst segments.simps) (simp add: next_seg.simps flip: find_char_None)

lemma segments_sep [simp]: "segments sep (sep # rest) = segments sep rest"
  by (subst segments.simps) (simp add: next_seg.simps)

lemma segments_ok: "seg \<in> set (segments sep s) \<Longrightarrow> seg \<noteq> [] \<and> sep \<notin> set seg"
proof (induction sep s rule: segments.induct)
  case (1 sep path)
  have fc: "find_char sep s = Some i \<Longrightarrow> sep \<notin> set (take i s)" for s i
    by (induction s arbitrary: i) (auto split: if_splits)
  obtain s0 rest where n: "next_seg sep path = (s0, rest)" by force
  have "sep \<notin> set s0"
    using fc n by (auto simp: next_seg.simps split: option.splits)
  moreover have "segments sep path =
      (if path = [] then [] else if s0 = [] then segments sep rest else s0 # segments sep rest)"
    by (subst segments.simps) (simp add: n)
  ultimately show ?case
    using 1 n by (auto split: if_splits)
qed



end
