(* ===== verification/Double_Num.thy ===== *)
theory Double_Num
  imports Hash_Funcs Node_Key
begin

text \<open>
  IEEE 754 doubles as 64-bit patterns, with the library conversions the C++ sources use on
  them: integer to double and back, \<open>snprintf\<close> with \<open>%.*g\<close>, \<open>strtod\<close> and \<open>std::stod\<close> on decimal
  text, and \<open>std::stoll\<close>. All are exact rational computations on naturals followed by one
  rounding to nearest, ties to even. Hexadecimal text is not read (\<open>stod\<close> then stops after the
  leading 0, as it does here).
\<close>

type_synonym i64 = "64 word"

section \<open>Decoding\<close>

definition dbl_neg :: "u64 \<Rightarrow> bool" where
  "dbl_neg b \<longleftrightarrow> bit b 63"

definition dbl_exp :: "u64 \<Rightarrow> nat" where
  "dbl_exp b = unat (drop_bit 52 b AND 0x7FF)"

definition dbl_man :: "u64 \<Rightarrow> nat" where
  "dbl_man b = unat (b AND 0x000FFFFFFFFFFFFF)"

definition dbl_is_inf :: "u64 \<Rightarrow> bool" where
  "dbl_is_inf b \<longleftrightarrow> dbl_exp b = 2047 \<and> dbl_man b = 0"

definition dbl_finite :: "u64 \<Rightarrow> bool" where
  "dbl_finite b \<longleftrightarrow> dbl_exp b \<noteq> 2047"

text \<open>The magnitude of a finite double as a quotient of naturals.\<close>

definition dbl_ratio :: "u64 \<Rightarrow> nat \<times> nat" where
  "dbl_ratio b =
     (let m = (if dbl_exp b = 0 then dbl_man b else dbl_man b + 2 ^ 52);
          e = (if dbl_exp b = 0 then -1074 else int (dbl_exp b) - 1075)
      in if 0 \<le> e then (m * 2 ^ nat e, 1) else (m, 2 ^ nat (- e)))"

section \<open>Rounding a quotient to a double\<close>

fun nbits :: "nat \<Rightarrow> nat" where
  "nbits n = (if n = 0 then 0 else Suc (nbits (n div 2)))"

declare nbits.simps [simp del]

definition div_even :: "nat \<Rightarrow> nat \<Rightarrow> nat" where
  "div_even n d =
     (let q = n div d; r = n mod d
      in if d < 2 * r \<or> (2 * r = d \<and> odd q) then q + 1 else q)"

definition pow2_le :: "int \<Rightarrow> nat \<Rightarrow> nat \<Rightarrow> bool" where
  "pow2_le k n d = (if 0 \<le> k then d * 2 ^ nat k \<le> n else d \<le> n * 2 ^ nat (- k))"

text \<open>The bits of the double nearest to \<open>n / d\<close> (positive).\<close>

definition round_ratio :: "nat \<Rightarrow> nat \<Rightarrow> u64" where
  "round_ratio n d =
     (if n = 0 then 0
      else
        (let k0 = int (nbits n) - int (nbits d);
             k = (if pow2_le k0 n d then k0 else k0 - 1);
             e = (if k - 52 < -1074 then -1074 else k - 52);
             q = (if 0 \<le> e then div_even n (d * 2 ^ nat e) else div_even (n * 2 ^ nat (- e)) d);
             ex = nat (e + 1075) + (if q = 2 ^ 53 then 1 else 0);
             man = (if q = 2 ^ 53 then 0 else q - 2 ^ 52)
         in if q < 2 ^ 52 then of_nat q
            else if 2047 \<le> ex then 0x7FF0000000000000
            else of_nat (ex * 2 ^ 52 + man)))"

definition with_sign :: "bool \<Rightarrow> u64 \<Rightarrow> u64" where
  "with_sign neg b = (if neg then b OR 0x8000000000000000 else b)"

definition double_of_int :: "int \<Rightarrow> u64" where
  "double_of_int i = with_sign (i < 0) (round_ratio (nat \<bar>i\<bar>) 1)"

text \<open>Truncation towards zero; \<open>None\<close> for values that are not finite.\<close>

definition double_trunc :: "u64 \<Rightarrow> int option" where
  "double_trunc b =
     (if dbl_finite b
      then (let (n, d) = dbl_ratio b; q = int (n div d) in Some (if dbl_neg b then - q else q))
      else None)"

section \<open>\<open>snprintf(buf, n, "%.*g", prec, v)\<close>\<close>

text \<open>\<open>floor (log10 (n / d))\<close>; the fuel covers the range of doubles.\<close>

fun log10_up :: "nat \<Rightarrow> nat \<Rightarrow> nat \<Rightarrow> nat" where
  "log10_up 0 n d = 0"
| "log10_up (Suc fuel) n d = (if 10 * d \<le> n then Suc (log10_up fuel n (10 * d)) else 0)"

fun log10_down :: "nat \<Rightarrow> nat \<Rightarrow> nat \<Rightarrow> nat" where
  "log10_down 0 n d = 0"
| "log10_down (Suc fuel) n d = (if n < d then Suc (log10_down fuel (10 * n) d) else 0)"

definition log10_floor :: "nat \<Rightarrow> nat \<Rightarrow> int" where
  "log10_floor n d = (if n < d then - int (log10_down 400 n d) else int (log10_up 400 n d))"

definition strip_zeros :: "string \<Rightarrow> string" where
  "strip_zeros s = rev (dropWhile (\<lambda>c. c = CHR ''0'') (rev s))"

definition dec_tail :: "string \<Rightarrow> string" where
  "dec_tail frac = (let f = strip_zeros frac in if f = [] then [] else CHR ''.'' # f)"

definition exp_chars :: "int \<Rightarrow> string" where
  "exp_chars x =
     (let ds = nat_chars (nat \<bar>x\<bar>)
      in CHR ''e'' # (if x < 0 then CHR ''-'' else CHR ''+'')
           # (if length ds < 2 then CHR ''0'' # ds else ds))"

definition format_g_pos :: "nat \<Rightarrow> nat \<Rightarrow> nat \<Rightarrow> string" where
  "format_g_pos prec n d =
     (let x0 = log10_floor n d;
          s = x0 - int prec + 1;
          q0 = (if 0 \<le> s then div_even n (d * 10 ^ nat s) else div_even (n * 10 ^ nat (- s)) d);
          x = (if q0 = 10 ^ prec then x0 + 1 else x0);
          q = (if q0 = 10 ^ prec then 10 ^ (prec - 1) else q0);
          ds = nat_chars q
      in if x < -4 \<or> int prec \<le> x
         then take 1 ds @ dec_tail (drop 1 ds) @ exp_chars x
         else if 0 \<le> x
         then take (nat x + 1) ds @ dec_tail (drop (nat x + 1) ds)
         else CHR ''0'' # dec_tail (replicate (nat (- x) - 1) CHR ''0'' @ ds))"

definition format_g :: "nat \<Rightarrow> u64 \<Rightarrow> string" where
  "format_g prec b =
     (let sign = (if dbl_neg b then ''-'' else '''')
      in if dbl_is_inf b then sign @ ''inf''
         else if \<not> dbl_finite b then sign @ ''nan''
         else if fst (dbl_ratio b) = 0 then sign @ ''0''
         else sign @ format_g_pos prec (fst (dbl_ratio b)) (snd (dbl_ratio b)))"

section \<open>Reading decimal text\<close>

definition is_space :: "char \<Rightarrow> bool" where
  "is_space c \<longleftrightarrow> c = CHR '' '' \<or> (CHR 0x09 \<le> c \<and> c \<le> CHR 0x0D)"

definition read_sign :: "string \<Rightarrow> bool \<times> string" where
  "read_sign s = (case s of
     [] \<Rightarrow> (False, [])
   | c # cs \<Rightarrow> if c = CHR ''-'' then (True, cs) else if c = CHR ''+'' then (False, cs) else (False, s))"

fun digits_value :: "nat \<Rightarrow> string \<Rightarrow> nat" where
  "digits_value v [] = v"
| "digits_value v (c # cs) = digits_value (v * 10 + digit_val c) cs"

text \<open>\<open>std::stoll\<close> and \<open>std::stoi\<close>: \<open>None\<close> is the exception (no digits, or out of range).\<close>

definition sto_int :: "int \<Rightarrow> int \<Rightarrow> string \<Rightarrow> int option" where
  "sto_int lo hi s =
     (let (neg, r) = read_sign (dropWhile is_space s);
          ds = takeWhile is_digit r;
          v = (if neg then - int (digits_value 0 ds) else int (digits_value 0 ds))
      in if ds = [] \<or> v < lo \<or> hi < v then None else Some v)"

definition stoll :: "string \<Rightarrow> int option" where
  "stoll = sto_int (- (2 ^ 63)) (2 ^ 63 - 1)"

definition stoi :: "string \<Rightarrow> int option" where
  "stoi = sto_int (- (2 ^ 31)) (2 ^ 31 - 1)"

definition lower :: "char \<Rightarrow> char" where
  "lower c = (if CHR ''A'' \<le> c \<and> c \<le> CHR ''Z'' then char_of (of_char c + 32 :: nat) else c)"

text \<open>\<open>strtod\<close>: the value, whether the range error is set, and the text that was not read.\<close>

definition strtod :: "string \<Rightarrow> (u64 \<times> bool \<times> string) option" where
  "strtod s =
     (let (neg, r) = read_sign (dropWhile is_space s);
          ip = takeWhile is_digit r; r1 = drop (length ip) r;
          fp = (if take 1 r1 = ''.'' then takeWhile is_digit (drop 1 r1) else []);
          r2 = (if take 1 r1 = ''.'' then drop (1 + length fp) r1 else r1)
      in if map lower (take 3 r) = ''inf'' then
           Some (with_sign neg 0x7FF0000000000000, False,
                 if map lower (take 8 r) = ''infinity'' then drop 8 r else drop 3 r)
         else if map lower (take 3 r) = ''nan'' then
           Some (with_sign neg 0x7FF8000000000000, False, drop 3 r)
         else if ip = [] \<and> fp = [] then None
         else
           (let (eneg, er) = read_sign (drop 1 r2);
                eds = takeWhile is_digit er;
                has_exp = (take 1 r2 = ''e'' \<or> take 1 r2 = ''E'') \<and> eds \<noteq> [];
                ex = (if has_exp then (if eneg then - int (digits_value 0 eds) else int (digits_value 0 eds)) else 0)
                     - int (length fp);
                m = digits_value 0 (ip @ fp);
                n = (if 0 \<le> ex then m * 10 ^ nat ex else m);
                d = (if 0 \<le> ex then 1 else 10 ^ nat (- ex));
                b = round_ratio n d;
                tiny = dbl_exp b = 0 \<and> n * snd (dbl_ratio b) \<noteq> fst (dbl_ratio b) * d
            in Some (with_sign neg b, dbl_is_inf b \<or> tiny, if has_exp then drop (length eds) er else r2)))"

definition stod :: "string \<Rightarrow> u64 option" where
  "stod s = (case strtod s of
     None \<Rightarrow> None | Some (b, range_error, _) \<Rightarrow> if range_error then None else Some b)"

end
