(* ===== verification/Var.thy ===== *)
theory Var
  imports HashMap_Ops Double_Num
begin

text \<open>
  \<open>ve::Var\<close> (\<open>ve/include/ve/core/var.h\<close>, \<open>ve/src/core/var.cpp\<close>): the tagged union of the values a
  node holds. The heap-allocated payloads are the payloads themselves: copying is deep, so a
  copy is the value. A dictionary is the item list of the insertion-ordered map, which
  \<open>HashMap_Ops\<close> shows is what iteration and lookup read. Integers are 64-bit words in two's
  complement, doubles their bit patterns. Callables and custom payloads are opaque handles
  with the functions that read them as parameters.
\<close>

section \<open>The variant\<close>

datatype var =
  VNone
| VBool bool
| VInt i64
| VDouble u64
| VString string
| VBin "u8 list"
| VList "var list"
| VDict "(string \<times> var) list"
| VPointer u64
| VCallable nat
| VCustom nat

datatype var_type = T_NONE | T_BOOL | T_INT | T_DOUBLE | T_STRING | T_BIN | T_LIST | T_DICT | T_POINTER | T_CALLABLE | T_CUSTOM

fun type_of :: "var \<Rightarrow> var_type" where
  "type_of VNone = T_NONE" | "type_of (VBool _) = T_BOOL" | "type_of (VInt _) = T_INT"
| "type_of (VDouble _) = T_DOUBLE" | "type_of (VString _) = T_STRING" | "type_of (VBin _) = T_BIN"
| "type_of (VList _) = T_LIST" | "type_of (VDict _) = T_DICT" | "type_of (VPointer _) = T_POINTER"
| "type_of (VCallable _) = T_CALLABLE" | "type_of (VCustom _) = T_CUSTOM"

definition isNull :: "var \<Rightarrow> bool" where "isNull v \<longleftrightarrow> type_of v = T_NONE"
definition isList :: "var \<Rightarrow> bool" where "isList v \<longleftrightarrow> type_of v = T_LIST"
definition isDict :: "var \<Rightarrow> bool" where "isDict v \<longleftrightarrow> type_of v = T_DICT"

section \<open>Dictionaries\<close>

text \<open>\<open>dict[key] = v\<close>, \<open>find\<close>, and the keys: the item list of the insertion-ordered map.\<close>

definition dict_put :: "string \<Rightarrow> 'a \<Rightarrow> (string \<times> 'a) list \<Rightarrow> (string \<times> 'a) list" where
  "dict_put k v d = AList.update k v d"

definition dict_wf :: "(string \<times> 'a) list \<Rightarrow> bool" where
  "dict_wf d \<longleftrightarrow> distinct (map fst d)"

section \<open>Extraction\<close>

fun toBool :: "bool \<Rightarrow> var \<Rightarrow> bool" where
  "toBool def (VBool b) = b"
| "toBool def (VInt i) = (i \<noteq> 0)"
| "toBool def (VDouble d) = (\<not> double_is_zero d)"
| "toBool def (VString s) = (s = ''true'' \<or> s = ''1'' \<or> s \<noteq> [])"
| "toBool def _ = def"

text \<open>A conversion of a double that does not fit the integer type is undefined: \<open>None\<close>.\<close>

fun toInt :: "32 word \<Rightarrow> var \<Rightarrow> 32 word option" where
  "toInt def (VInt i) = Some (ucast i)"
| "toInt def (VBool b) = Some (if b then 1 else 0)"
| "toInt def (VDouble d) =
     (case double_trunc d of
        Some i \<Rightarrow> if - (2 ^ 31) \<le> i \<and> i < 2 ^ 31 then Some (of_int i) else None | None \<Rightarrow> None)"
| "toInt def (VString s) = Some (case stoi s of Some i \<Rightarrow> of_int i | None \<Rightarrow> def)"
| "toInt def _ = Some def"

fun toInt64 :: "i64 \<Rightarrow> var \<Rightarrow> i64 option" where
  "toInt64 def (VInt i) = Some i"
| "toInt64 def (VBool b) = Some (if b then 1 else 0)"
| "toInt64 def (VDouble d) =
     (case double_trunc d of
        Some i \<Rightarrow> if - (2 ^ 63) \<le> i \<and> i < 2 ^ 63 then Some (of_int i) else None | None \<Rightarrow> None)"
| "toInt64 def (VString s) = Some (case stoll s of Some i \<Rightarrow> of_int i | None \<Rightarrow> def)"
| "toInt64 def _ = Some def"

fun toDouble :: "u64 \<Rightarrow> var \<Rightarrow> u64" where
  "toDouble def (VDouble d) = d"
| "toDouble def (VInt i) = double_of_int (sint i)"
| "toDouble def (VBool b) = (if b then 0x3FF0000000000000 else 0)"
| "toDouble def (VString s) = (case stod s of Some d \<Rightarrow> d | None \<Rightarrow> def)"
| "toDouble def _ = def"

text \<open>The shortest precision whose text reads back as the same value.\<close>

fun shortest_g :: "nat list \<Rightarrow> u64 \<Rightarrow> string" where
  "shortest_g [] d = format_g 17 d"
| "shortest_g (prec # ps) d =
     (case strtod (format_g prec d) of
        Some (d', _) \<Rightarrow> if double_eq d' d then format_g prec d else shortest_g ps d
      | None \<Rightarrow> shortest_g ps d)"

definition double_text :: "u64 \<Rightarrow> string" where
  "double_text d = shortest_g [1..<18] d"

definition hex_digit :: "nat \<Rightarrow> char" where
  "hex_digit n = (if n < 10 then char_of (48 + n) else char_of (87 + n))"

definition hex_byte :: "u8 \<Rightarrow> string" where
  "hex_byte b = [hex_digit (unat b div 16), hex_digit (unat b mod 16)]"

fun hex_nat :: "nat \<Rightarrow> string" where
  "hex_nat n = (if n < 16 then [hex_digit n] else hex_nat (n div 16) @ [hex_digit (n mod 16)])"

declare hex_nat.simps [simp del]

definition pointer_text :: "u64 \<Rightarrow> string" where
  "pointer_text p = (if p = 0 then ''0'' else ''0x'' @ hex_nat (unat p))"

fun join_sep :: "string \<Rightarrow> string list \<Rightarrow> string" where
  "join_sep sep [] = []"
| "join_sep sep [s] = s"
| "join_sep sep (s # ss) = s @ sep @ join_sep sep ss"

text \<open>\<open>toString\<close>; \<open>cust\<close> is the text of a custom payload. Nested values use the empty default.\<close>

fun var_text :: "(nat \<Rightarrow> string) \<Rightarrow> string \<Rightarrow> var \<Rightarrow> string" where
  "var_text cust def (VString s) = s"
| "var_text cust def (VInt i) = int_chars (sint i)"
| "var_text cust def (VDouble d) = double_text d"
| "var_text cust def (VBool b) = (if b then ''true'' else ''false'')"
| "var_text cust def (VPointer p) = pointer_text p"
| "var_text cust def VNone = def"
| "var_text cust def (VBin bs) = concat (map hex_byte bs)"
| "var_text cust def (VList xs) =
     ''['' @ join_sep '', ''
       (map (\<lambda>x. if type_of x = T_STRING then CHR 0x22 # var_text cust [] x @ [CHR 0x22]
                 else var_text cust [] x) xs) @ '']''"
| "var_text cust def (VDict d) =
     ''{'' @ join_sep '', ''
       (map (\<lambda>(k, x). k @ '': '' @ (if type_of x = T_STRING then CHR 0x22 # var_text cust [] x @ [CHR 0x22]
                                   else var_text cust [] x)) d) @ ''}''"
| "var_text cust def (VCallable _) = ''<callable>''"
| "var_text cust def (VCustom c) = cust c"

definition char_byte :: "char \<Rightarrow> u8" where
  "char_byte c = of_char c"

definition byte_char :: "u8 \<Rightarrow> char" where
  "byte_char b = char_of (unat b)"

lemma byte_char_inverse [simp]: "byte_char (char_byte c) = c"
proof -
  have "of_char c mod 256 = (of_char c :: nat)" by (metis char_of_char of_char_of)
  then have "unat (of_nat (of_char c) :: u8) = of_char c" by (simp add: unat_of_nat)
  then have "unat (of_char c :: u8) = of_char c" by (simp only: of_nat_of_char)
  then show ?thesis by (simp add: byte_char_def char_byte_def)
qed

lemma map_byte_char [simp]: "map (byte_char \<circ> char_byte) s = s"
  by (simp add: map_idI)

lemma char_byte_eq [simp]: "char_byte a = char_byte b \<longleftrightarrow> a = b"
  by (metis byte_char_inverse)

fun toBin :: "(nat \<Rightarrow> u8 list) \<Rightarrow> var \<Rightarrow> u8 list" where
  "toBin cust (VBin bs) = bs"
| "toBin cust (VString s) = map char_byte s"
| "toBin cust (VCustom c) = cust c"
| "toBin cust _ = []"

fun toList :: "var \<Rightarrow> var list" where
  "toList (VList xs) = xs" | "toList _ = []"

fun toDict :: "var \<Rightarrow> (string \<times> var) list" where
  "toDict (VDict d) = d" | "toDict _ = []"

fun toPointer :: "var \<Rightarrow> u64" where
  "toPointer (VPointer p) = p" | "toPointer _ = 0"

fun var_at :: "var \<Rightarrow> nat \<Rightarrow> var" where
  "var_at (VList xs) i = (if length xs \<le> i then VNone else xs ! i)"
| "var_at _ i = VNone"

fun invoke :: "(nat \<Rightarrow> var \<Rightarrow> var) \<Rightarrow> var \<Rightarrow> var \<Rightarrow> var" where
  "invoke call (VCallable f) input = call f input"
| "invoke call _ input = VNone"

section \<open>Equality\<close>

lemma map_of_size:
  "map_of d k = Some w \<Longrightarrow> size w < Suc (size_list (size_prod (\<lambda>_. 0) size) d)"
  by (induction d) (auto split: if_splits)

lemma size_in_list: "z \<in> set a \<Longrightarrow> f z < Suc (size_list f a)"
  by (induction a) auto

text \<open>\<open>operator==\<close>; callables and custom payloads equal nothing.\<close>

function var_eq :: "var \<Rightarrow> var \<Rightarrow> bool" where
  "var_eq a b =
     (if type_of a \<noteq> type_of b then False
      else
        (case a of
           VNone \<Rightarrow> True
         | VBool x \<Rightarrow> b = VBool x
         | VInt x \<Rightarrow> b = VInt x
         | VDouble x \<Rightarrow> (case b of VDouble y \<Rightarrow> double_eq x y | _ \<Rightarrow> False)
         | VString x \<Rightarrow> b = VString x
         | VBin x \<Rightarrow> b = VBin x
         | VList x \<Rightarrow> (case b of VList y \<Rightarrow> list_all2 var_eq x y | _ \<Rightarrow> False)
         | VDict d1 \<Rightarrow>
             (case b of
                VDict d2 \<Rightarrow>
                  length d1 = length d2 \<and>
                  list_all (\<lambda>(k, v). case map_of d2 k of None \<Rightarrow> False | Some w \<Rightarrow> var_eq w v) d1
              | _ \<Rightarrow> False)
         | VPointer x \<Rightarrow> b = VPointer x
         | VCallable _ \<Rightarrow> False
         | VCustom _ \<Rightarrow> False))"
  by pat_completeness auto
termination
proof (relation "measure (\<lambda>(a, b). size a + size b)", goal_cases)
  case (2 a b x y u v)
  then show ?case using size_in_list [of u x size] size_in_list [of v y size] by simp
next
  case (3 a b d1 d2 kv k v w)
  then show ?case
    using size_in_list [of kv d1 "size_prod (\<lambda>_. 0) size"] map_of_size [of d2 k w] by auto
qed simp

declare var_eq.simps [simp del]

lemma var_eq_simps [simp]:
  "var_eq VNone b = (b = VNone)"
  "var_eq (VBool x) b = (b = VBool x)"
  "var_eq (VInt i) b = (b = VInt i)"
  "var_eq (VDouble d) (VDouble e) = double_eq d e"
  "var_eq (VString s) b = (b = VString s)"
  "var_eq (VBin bs) b = (b = VBin bs)"
  "var_eq (VList xs) (VList ys) = list_all2 var_eq xs ys"
  "var_eq (VDict d1) (VDict d2) =
     (length d1 = length d2 \<and>
      list_all (\<lambda>(k, v). case map_of d2 k of None \<Rightarrow> False | Some w \<Rightarrow> var_eq w v) d1)"
  "var_eq (VPointer p) b = (b = VPointer p)"
  "var_eq (VCallable f) b = False"
  "var_eq (VCustom c) b = False"
  "type_of a \<noteq> type_of b \<Longrightarrow> var_eq a b = False"
  by (subst var_eq.simps, (cases b; simp; fail) | auto simp: var_eq.simps)+

section \<open>Well-formed values\<close>

text \<open>Dictionaries have distinct keys at every level; plain values hold no callable, custom or
  pointer payload.\<close>

fun var_wf :: "var \<Rightarrow> bool" where
  "var_wf (VList xs) = list_all var_wf xs"
| "var_wf (VDict d) = (dict_wf d \<and> list_all (\<lambda>(k, v). var_wf v) d)"
| "var_wf _ = True"

fun comparable :: "var \<Rightarrow> bool" where
  "comparable (VDouble d) = (\<not> double_is_nan d)"
| "comparable (VList xs) = list_all comparable xs"
| "comparable (VDict d) = list_all (\<lambda>(k, v). comparable v) d"
| "comparable (VCallable _) = False"
| "comparable (VCustom _) = False"
| "comparable _ = True"

lemma var_eq_type: "var_eq a b \<Longrightarrow> type_of a = type_of b"
  using var_eq_simps(12) by blast

lemma double_eq_refl: "\<not> double_is_nan d \<Longrightarrow> double_eq d d"
  by (simp add: double_eq_def)

lemma double_eq_sym: "double_eq a b \<Longrightarrow> double_eq b a"
  by (auto simp: double_eq_def)

lemma double_eq_trans: "double_eq a b \<Longrightarrow> double_eq b c \<Longrightarrow> double_eq a c"
  by (auto simp: double_eq_def)

lemma var_eq_refl: "var_wf v \<Longrightarrow> comparable v \<Longrightarrow> var_eq v v"
proof (induction v)
  case (VList xs)
  then show ?case by (auto simp: list_all2_same list_all_iff)
next
  case (VDict d)
  have "var_eq w v" if "(k, v) \<in> set d" "map_of d k = Some w" for k v w
  proof -
    have "w = v" using that VDict.prems(1) by (simp add: dict_wf_def)
    then show ?thesis using VDict that(1) by (force simp: list_all_iff)
  qed
  moreover have "map_of d k \<noteq> None" if "(k, v) \<in> set d" for k v
    using weak_map_of_SomeI [OF that] by auto
  ultimately show ?case by (fastforce simp: list_all_iff split: option.splits)
qed (auto simp: double_eq_refl)

lemma dict_eqD:
  assumes eq: "var_eq (VDict d1) (VDict d2)" and wf: "dict_wf d1" "dict_wf d2"
  shows "fst ` set d1 = fst ` set d2"
    and "(k, v) \<in> set d1 \<Longrightarrow> (k, w) \<in> set d2 \<Longrightarrow> var_eq w v"
proof -
  have all: "\<exists>w. map_of d2 k = Some w \<and> var_eq w v" if "(k, v) \<in> set d1" for k v
    using eq that by (fastforce simp: list_all_iff split: option.splits)
  have sub: "fst ` set d1 \<subseteq> fst ` set d2" using all by (force dest: map_of_SomeD)
  moreover have "card (fst ` set d2) = card (fst ` set d1)"
  proof -
    have "length d1 = length d2" using eq by simp
    then show ?thesis
      using wf distinct_card [of "map fst d1"] distinct_card [of "map fst d2"] by (simp add: dict_wf_def)
  qed
  ultimately show "fst ` set d1 = fst ` set d2" by (intro card_subset_eq) simp_all
  assume "(k, v) \<in> set d1" "(k, w) \<in> set d2"
  then show "var_eq w v" using all [of k v] wf(2) by (auto simp: dict_wf_def)
qed

lemma dict_eqI:
  assumes wf: "dict_wf d1" "dict_wf d2" and keys: "fst ` set d1 = fst ` set d2"
    and eq: "\<And>k v w. (k, v) \<in> set d1 \<Longrightarrow> (k, w) \<in> set d2 \<Longrightarrow> var_eq w v"
  shows "var_eq (VDict d1) (VDict d2)"
proof -
  have "length d1 = length d2"
    using arg_cong [OF keys, of card] wf distinct_card [of "map fst d1"] distinct_card [of "map fst d2"]
    by (simp add: dict_wf_def)
  moreover have "case map_of d2 k of None \<Rightarrow> False | Some w \<Rightarrow> var_eq w v" if "(k, v) \<in> set d1" for k v
  proof -
    have "k \<in> fst ` set d2" using that keys by force
    then obtain w where "map_of d2 k = Some w" by (metis not_Some_eq map_of_eq_None_iff)
    then show ?thesis using eq [OF that] by (simp add: map_of_SomeD)
  qed
  ultimately show ?thesis by (auto simp: list_all_iff)
qed

lemma var_eq_commute: "var_wf a \<Longrightarrow> var_wf b \<Longrightarrow> var_eq a b = var_eq b a"
proof (induction a arbitrary: b)
  case (VList xs)
  show ?case
  proof (cases b)
    case b: (VList ys)
    have "var_eq (xs ! i) (ys ! i) = var_eq (ys ! i) (xs ! i)" if "i < length xs" "i < length ys" for i
      using VList.IH [of "xs ! i" "ys ! i"] VList.prems that by (simp add: b list_all_length)
    then show ?thesis by (auto simp: b list_all2_conv_all_nth)
  qed auto
next
  case (VDict d1)
  show ?case
  proof (cases b)
    case b: (VDict d2)
    have wf: "dict_wf d1" "dict_wf d2" using VDict.prems b by auto
    have flip: "var_eq v w = var_eq w v" if "(k, v) \<in> set d1" "(k', w) \<in> set d2" for k k' v w
    proof -
      have "var_wf v" "var_wf w" using VDict.prems that by (auto simp: b list_all_iff)
      then show ?thesis using VDict.IH [OF that(1), of v w] by simp
    qed
    have "var_eq (VDict d1) (VDict d2) \<Longrightarrow> var_eq (VDict d2) (VDict d1)"
      using dict_eqD [OF _ wf] flip by (intro dict_eqI [OF wf(2,1)]) blast+
    moreover have "var_eq (VDict d2) (VDict d1) \<Longrightarrow> var_eq (VDict d1) (VDict d2)"
      using dict_eqD [OF _ wf(2,1)] flip by (intro dict_eqI [OF wf]) blast+
    ultimately show ?thesis unfolding b by blast
  qed auto
next
  case (VDouble d)
  then show ?case by (cases b) (auto simp: double_eq_def)
next
  case (VCallable f)
  then show ?case by (cases b) auto
next
  case (VCustom c)
  then show ?case by (cases b) auto
next
  case VNone
  then show ?case by (cases b) auto
next
  case (VBool x)
  then show ?case by (cases b) auto
next
  case (VInt x)
  then show ?case by (cases b) auto
next
  case (VString x)
  then show ?case by (cases b) auto
next
  case (VBin x)
  then show ?case by (cases b) auto
next
  case (VPointer x)
  then show ?case by (cases b) auto
qed

lemma var_eq_trans:
  "var_wf a \<Longrightarrow> var_wf b \<Longrightarrow> var_wf c \<Longrightarrow> var_eq a b \<Longrightarrow> var_eq b c \<Longrightarrow> var_eq a c"
proof (induction a arbitrary: b c)
  case (VList xs)
  obtain ys zs where bc: "b = VList ys" "c = VList zs"
    using var_eq_type [OF VList.prems(4)] var_eq_type [OF VList.prems(5)] by (cases b; cases c) auto
  have "var_eq (xs ! i) (zs ! i)" if "i < length xs" for i
    using VList that by (auto simp: bc list_all_length list_all2_conv_all_nth)
  then show ?case using VList.prems(4,5) by (simp add: bc list_all2_conv_all_nth)
next
  case (VDict d1)
  obtain d2 d3 where bc: "b = VDict d2" "c = VDict d3"
    using var_eq_type [OF VDict.prems(4)] var_eq_type [OF VDict.prems(5)] by (cases b; cases c) auto
  have wf: "dict_wf d1" "dict_wf d2" "dict_wf d3" using VDict.prems bc by auto
  note e12 = dict_eqD [OF VDict.prems(4) [unfolded bc] wf(1,2)]
  note e23 = dict_eqD [OF VDict.prems(5) [unfolded bc] wf(2,3)]
  show ?case unfolding bc
  proof (rule dict_eqI [OF wf(1,3)])
    show "fst ` set d1 = fst ` set d3" using e12(1) e23(1) by simp
    fix k v u assume v: "(k, v) \<in> set d1" and u: "(k, u) \<in> set d3"
    then obtain w where w: "(k, w) \<in> set d2" using e12(1) by force
    have ok: "var_wf v" "var_wf w" "var_wf u"
      using VDict.prems v w u by (auto simp: bc list_all_iff)
    have "var_eq v w" "var_eq w u"
      using e12(2) [OF v w] e23(2) [OF w u] var_eq_commute ok by blast+
    then have "var_eq v u" using VDict.IH [OF v, of v w u] ok by simp
    then show "var_eq u v" using var_eq_commute ok by blast
  qed
next
  case (VDouble d)
  obtain e f where "b = VDouble e" "c = VDouble f"
    using var_eq_type [OF VDouble.prems(4)] var_eq_type [OF VDouble.prems(5)] by (cases b; cases c) auto
  then show ?case using VDouble.prems double_eq_trans by auto
qed auto

text \<open>C20: \<open>Var::operator==\<close> on well-formed values is symmetric and transitive, and reflexive on
  every value without NaN, callables and custom payloads; two dictionaries are equal exactly when
  they have the same keys with equal values, whatever their order.\<close>

theorem var_eq_equivalence:
  assumes "var_wf a" "var_wf b" "var_wf c"
  shows "(comparable a \<longrightarrow> var_eq a a) \<and> (var_eq a b \<longleftrightarrow> var_eq b a)
    \<and> (var_eq a b \<and> var_eq b c \<longrightarrow> var_eq a c)
    \<and> (a = VDict d1 \<and> b = VDict d2 \<longrightarrow>
         (var_eq a b \<longleftrightarrow> fst ` set d1 = fst ` set d2
            \<and> (\<forall>k v w. (k, v) \<in> set d1 \<and> (k, w) \<in> set d2 \<longrightarrow> var_eq w v)))"
proof (intro conjI impI)
  show "comparable a \<Longrightarrow> var_eq a a" using var_eq_refl assms by blast
  show "var_eq a b \<longleftrightarrow> var_eq b a" using var_eq_commute assms by blast
  show "var_eq a b \<and> var_eq b c \<Longrightarrow> var_eq a c" using var_eq_trans assms by blast
  assume ab: "a = VDict d1 \<and> b = VDict d2"
  then have wf: "dict_wf d1" "dict_wf d2" using assms by auto
  show "var_eq a b \<longleftrightarrow> fst ` set d1 = fst ` set d2
            \<and> (\<forall>k v w. (k, v) \<in> set d1 \<and> (k, w) \<in> set d2 \<longrightarrow> var_eq w v)"
  proof
    assume "var_eq a b"
    then have "var_eq (VDict d1) (VDict d2)" using ab by simp
    from dict_eqD [OF this wf] show "fst ` set d1 = fst ` set d2
            \<and> (\<forall>k v w. (k, v) \<in> set d1 \<and> (k, w) \<in> set d2 \<longrightarrow> var_eq w v)" by blast
  qed (use ab dict_eqI [OF wf] in blast)
qed

theorem var_eq_equivalence_witness:
  "var_eq (VDict [(''a'', VInt 1), (''b'', VList [VBool True])])
          (VDict [(''b'', VList [VBool True]), (''a'', VInt 1)])"
  using var_eq_equivalence [of "VDict [(''b'', VList [VBool True]), (''a'', VInt 1)]"
      "VDict [(''a'', VInt 1), (''b'', VList [VBool True])]" VNone]
  by (simp add: dict_wf_def)

section \<open>Text of numbers\<close>

lemma takeWhile_nat_chars: "takeWhile is_digit (nat_chars n) = nat_chars n"
  by (simp add: takeWhile_eq_all_conv nat_chars_digits)

lemma digits_value_append: "digits_value v (xs @ ys) = digits_value (digits_value v xs) ys"
  by (induction xs arbitrary: v) auto

lemma digits_value_nat_chars: "digits_value 0 (nat_chars n) = n"
proof (induction n rule: nat_chars.induct)
  case (1 n)
  show ?case
  proof (cases "n < 10")
    case True
    then show ?thesis by (simp add: nat_chars.simps digit_char_props)
  next
    case False
    have "nat_chars n = nat_chars (n div 10) @ [digit_char (n mod 10)]"
      using False by (simp add: nat_chars.simps)
    moreover have "digit_val (digit_char (n mod 10)) = n mod 10" by (simp add: digit_char_props)
    ultimately show ?thesis using 1 [OF False] by (simp add: digits_value_append)
  qed
qed

lemma hd_digit:
  obtains c cs where "nat_chars n = c # cs" "is_digit c"
proof (cases "nat_chars n")
  case (Cons c cs)
  then show ?thesis using that nat_chars_digits [of c n] by simp
qed simp

lemma is_digit_not: "is_digit c \<Longrightarrow> \<not> is_space c \<and> c \<noteq> CHR ''-'' \<and> c \<noteq> CHR ''+''"
  by (auto simp: is_digit_def is_space_def less_eq_char_def)

lemma sto_int_chars: "lo \<le> i \<Longrightarrow> i \<le> hi \<Longrightarrow> sto_int lo hi (int_chars i) = Some i"
proof -
  assume b: "lo \<le> i" "i \<le> hi"
  show ?thesis
  proof (cases "i < 0")
    case True
    then have "int_chars i = CHR ''-'' # nat_chars (nat (- i))" by (simp add: int_chars_def)
    moreover have "\<not> is_space CHR ''-''" by (simp add: is_space_def less_eq_char_def)
    ultimately have "read_sign (dropWhile is_space (int_chars i)) = (True, nat_chars (nat (- i)))"
      by (simp add: read_sign_def)
    then show ?thesis using True b
      by (simp add: sto_int_def takeWhile_nat_chars digits_value_nat_chars Let_def)
  next
    case False
    then have "int_chars i = nat_chars (nat i)" by (simp add: int_chars_def)
    moreover have "read_sign (dropWhile is_space (nat_chars (nat i))) = (False, nat_chars (nat i))"
      by (rule hd_digit [of "nat i"]) (auto simp: read_sign_def dest: is_digit_not)
    ultimately show ?thesis using False b
      by (simp add: sto_int_def takeWhile_nat_chars digits_value_nat_chars Let_def)
  qed
qed

text \<open>integer text round-trips: reading back the text of an integer value gives the value,
  for every 64-bit integer, and for \<open>toInt\<close> for every value that fits 32 bits.\<close>

theorem int_text_roundtrip:
  "toInt64 def (VString (var_text cust d (VInt i))) = Some i
   \<and> (toInt def' (VString (var_text cust d (VInt (scast (j :: 32 word))))) = Some j)"
proof
  have "- (2 ^ 63) \<le> sint i" "sint i \<le> 2 ^ 63 - 1"
    using sint_ge [of i] sint_lt [of i] by simp_all
  then show "toInt64 def (VString (var_text cust d (VInt i))) = Some i"
    using sto_int_chars [of "- (2 ^ 63)" "sint i" "2 ^ 63 - 1"] by (simp add: stoll_def)
  have s: "sint (scast j :: i64) = sint j" by (simp add: sint_up_scast is_up)
  have "- (2 ^ 31) \<le> sint j" "sint j \<le> 2 ^ 31 - 1"
    using sint_ge [of j] sint_lt [of j] by simp_all
  then show "toInt def' (VString (var_text cust d (VInt (scast j)))) = Some j"
    using sto_int_chars [of "- (2 ^ 31)" "sint j" "2 ^ 31 - 1"] by (simp add: stoi_def s)
qed

text \<open>\<open>toBool\<close> on text is "not empty": the spelled-out tests for true and 1 are subsumed, and
  the text false is true.\<close>

lemma toBool_text: "toBool def (VString s) = (s \<noteq> [])"
  by auto

end
