(* ===== verification/Node_Tree.thy ===== *)
theory Node_Tree
  imports Var Node_Key "HOL-Library.Monad_Syntax"
begin

text \<open>
  The data tree of \<open>ve/src/core/node.cpp\<close>: \<open>ve::Node\<close> objects on a heap, each with its name,
  parent and shadow pointers, value, flags and, once allocated, its children: the flat vector
  \<open>nodes\<close> in insertion order and the map \<open>indices\<close> from a child name to the ascending positions
  of the children of that name. Pointers are natural numbers (\<open>nid\<close>); a pointer outside the
  heap has been deleted, and \<open>obj\<close> is only meaningful on live ones. Every signal a node emits
  is appended to \<open>events\<close>, in the order of the code; the slots connected to a signal are the
  subject of \<open>Object_Signals\<close>. The per-object mutexes are not modelled: operations are atomic.
  Walks along parent or shadow pointers and recursive deletion take fuel; \<open>None\<close> means the walk
  has not ended, which on a well-formed heap does not happen.
\<close>

section \<open>State\<close>

type_synonym nid = nat

record children =
  indices :: "string \<Rightarrow> nat list option"
  nodes :: "nid list"

record nobj =
  o_name :: string
  o_parent :: "nid option"
  o_shadow :: "nid option"
  o_children :: "children option"
  o_value :: var
  o_flags :: u32

datatype node_signal = NODE_CHANGED | NODE_ADDED | NODE_REMOVED

datatype event =
  Changed nid var var
| Added nid string int
| Removed nid string int
| Activated nid node_signal nid
| Deleted nid

record forest =
  heap :: "nid \<Rightarrow> nobj option"
  next_id :: nat
  events :: "event list"

definition obj :: "forest \<Rightarrow> nid \<Rightarrow> nobj" where
  "obj st n = the (heap st n)"

definition alive :: "forest \<Rightarrow> nid \<Rightarrow> bool" where
  "alive st n \<longleftrightarrow> heap st n \<noteq> None"

definition upd :: "nid \<Rightarrow> (nobj \<Rightarrow> nobj) \<Rightarrow> forest \<Rightarrow> forest" where
  "upd n f st = st\<lparr>heap := (heap st)(n := map_option f (heap st n))\<rparr>"

definition name_of :: "forest \<Rightarrow> nid \<Rightarrow> string" where
  "name_of st n = o_name (obj st n)"

definition parent :: "forest \<Rightarrow> nid \<Rightarrow> nid option" where
  "parent st n = o_parent (obj st n)"

section \<open>Flags and signals\<close>

definition SILENT :: u32 where "SILENT = 0x01"
definition WATCHING :: u32 where "WATCHING = 0x02"

definition flags_get :: "u32 \<Rightarrow> u32 \<Rightarrow> bool" where
  "flags_get fl f \<longleftrightarrow> fl AND f = f"

definition flags_set :: "u32 \<Rightarrow> u32 \<Rightarrow> bool \<Rightarrow> u32" where
  "flags_set fl f on_off = (if on_off then fl OR f else fl AND NOT f)"

definition isSilent :: "forest \<Rightarrow> nid \<Rightarrow> bool" where
  "isSilent st n \<longleftrightarrow> flags_get (o_flags (obj st n)) SILENT"

definition isWatching :: "forest \<Rightarrow> nid \<Rightarrow> bool" where
  "isWatching st n \<longleftrightarrow> flags_get (o_flags (obj st n)) WATCHING"

definition silent :: "bool \<Rightarrow> nid \<Rightarrow> forest \<Rightarrow> forest" where
  "silent on n = upd n (o_flags_update (\<lambda>fl. flags_set fl SILENT on))"

definition watch :: "bool \<Rightarrow> nid \<Rightarrow> forest \<Rightarrow> forest" where
  "watch on n = upd n (o_flags_update (\<lambda>fl. flags_set fl WATCHING on))"

text \<open>\<open>trigger\<close>: nothing is dispatched by a silent node.\<close>

definition trigger :: "nid \<Rightarrow> event \<Rightarrow> forest \<Rightarrow> forest" where
  "trigger n e st = (if isSilent st n then st else st\<lparr>events := events st @ [e]\<rparr>)"

text \<open>\<open>activate\<close>: emit here, then bubble up while the parent is watching.\<close>

fun activate :: "nat \<Rightarrow> node_signal \<Rightarrow> nid \<Rightarrow> nid \<Rightarrow> forest \<Rightarrow> forest option" where
  "activate 0 sig source n st = None"
| "activate (Suc fuel) sig source n st =
     (if isSilent st n then Some st
      else
        (let st1 = trigger n (Activated n sig source) st
         in case parent st1 n of
              None \<Rightarrow> Some st1
            | Some p \<Rightarrow> if isWatching st1 p then activate fuel sig source p st1 else Some st1))"

text \<open>The common ending of the mutators: emit, then activate when the node itself is watching.\<close>

definition notify :: "nid \<Rightarrow> event \<Rightarrow> node_signal \<Rightarrow> forest \<Rightarrow> forest option" where
  "notify n e sig st =
     (let st1 = trigger n e st
      in if isWatching st1 n then activate (next_id st1 + 1) sig n n st1 else Some st1)"

section \<open>Construction and values\<close>

definition new_node :: "string \<Rightarrow> forest \<Rightarrow> nid \<times> forest" where
  "new_node name st =
     (next_id st,
      st\<lparr>heap := (heap st)(next_id st \<mapsto>
            \<lparr>o_name = name, o_parent = None, o_shadow = None, o_children = None,
             o_value = VNone, o_flags = 0\<rparr>),
         next_id := next_id st + 1\<rparr>)"

definition empty_forest :: forest where
  "empty_forest = \<lparr>heap = Map.empty, next_id = 0, events = []\<rparr>"

definition node_value :: "forest \<Rightarrow> nid \<Rightarrow> var" where
  "node_value st n = o_value (obj st n)"

definition set_value :: "nid \<Rightarrow> var \<Rightarrow> forest \<Rightarrow> forest option" where
  "set_value n v st =
     (let old = node_value st n; st1 = upd n (o_value_update (\<lambda>_. v)) st
      in notify n (Changed n v old) NODE_CHANGED st1)"

definition update_value :: "nid \<Rightarrow> var \<Rightarrow> forest \<Rightarrow> (bool \<times> forest) option" where
  "update_value n v st =
     (if var_eq (node_value st n) v then Some (False, st)
      else map_option (Pair True) (set_value n v st))"

section \<open>Navigation\<close>

definition kids :: "forest \<Rightarrow> nid \<Rightarrow> nid list" where
  "kids st n = (case o_children (obj st n) of None \<Rightarrow> [] | Some ch \<Rightarrow> nodes ch)"

fun parent_level :: "nat \<Rightarrow> forest \<Rightarrow> nid option \<Rightarrow> nid option" where
  "parent_level 0 st n = n"
| "parent_level (Suc i) st None = None"
| "parent_level (Suc i) st (Some n) = parent_level i st (parent st n)"

definition parent_at :: "forest \<Rightarrow> nid \<Rightarrow> nat \<Rightarrow> nid option" where
  "parent_at st n level = parent_level level st (parent st n)"

fun is_ancestor_loop :: "nat \<Rightarrow> forest \<Rightarrow> nid \<Rightarrow> nid option \<Rightarrow> bool option" where
  "is_ancestor_loop fuel st this None = Some False"
| "is_ancestor_loop 0 st this (Some p) = None"
| "is_ancestor_loop (Suc fuel) st this (Some p) =
     (if p = this then Some True else is_ancestor_loop fuel st this (parent st p))"

definition isAncestorOf :: "forest \<Rightarrow> nid \<Rightarrow> nid option \<Rightarrow> bool option" where
  "isAncestorOf st this descendant =
     (case descendant of
        None \<Rightarrow> Some False
      | Some d \<Rightarrow> is_ancestor_loop (next_id st + 1) st this (parent st d))"

text \<open>\<open>child(int)\<close>; the vector's \<open>value(i, d)\<close> is the entry or the default.\<close>

definition child_index :: "forest \<Rightarrow> nid \<Rightarrow> int \<Rightarrow> nid option" where
  "child_index st n index =
     (case o_children (obj st n) of
        None \<Rightarrow> None
      | Some ch \<Rightarrow>
          (let index = (if index < 0 then index + int (length (nodes ch)) else index)
           in if index < 0 \<or> int (length (nodes ch)) \<le> index then None
              else Some (nodes ch ! nat index)))"

definition vec_value :: "'a list \<Rightarrow> int \<Rightarrow> 'a option" where
  "vec_value xs i = (if 0 \<le> i \<and> i < int (length xs) then Some (xs ! nat i) else None)"

definition child_named :: "forest \<Rightarrow> nid \<Rightarrow> string \<Rightarrow> int \<Rightarrow> nid option" where
  "child_named st n name overlap =
     (if name = [] then child_index st n overlap
      else
        (case o_children (obj st n) of
           None \<Rightarrow> None
         | Some ch \<Rightarrow>
             if overlap < 0 then None
             else (case indices ch name of
                     None \<Rightarrow> None
                   | Some iv \<Rightarrow>
                       vec_value (nodes ch)
                         (case vec_value iv overlap of Some i \<Rightarrow> int i | None \<Rightarrow> -1))))"

fun first_at :: "nid list \<Rightarrow> nid \<Rightarrow> nat list \<Rightarrow> int" where
  "first_at ns c [] = -1"
| "first_at ns c (i # is) = (if vec_value ns (int i) = Some c then int i else first_at ns c is)"

text \<open>The outward scan of \<open>indexOf\<close> around a guess.\<close>

fun scan_out :: "nat \<Rightarrow> nid list \<Rightarrow> nid \<Rightarrow> int \<Rightarrow> int \<Rightarrow> int" where
  "scan_out 0 ns c guess d = -1"
| "scan_out (Suc fuel) ns c guess d =
     (let sz = int (length ns); lo = guess - d; hi = guess + d
      in if \<not> d < sz then -1
         else if 0 \<le> lo \<and> ns ! nat lo = c then lo
         else if hi < sz \<and> ns ! nat hi = c then hi
         else if lo < 0 \<and> sz \<le> hi then -1
         else scan_out fuel ns c guess (d + 1))"

definition indexOf :: "forest \<Rightarrow> nid \<Rightarrow> nid option \<Rightarrow> int \<Rightarrow> int" where
  "indexOf st n child_node guess =
     (case child_node of
        None \<Rightarrow> -1
      | Some c \<Rightarrow>
          (case o_children (obj st n) of
             None \<Rightarrow> -1
           | Some ch \<Rightarrow>
               (let sz = int (length (nodes ch))
                in if name_of st c \<noteq> [] then
                     (case indices ch (name_of st c) of
                        None \<Rightarrow> -1 | Some iv \<Rightarrow> first_at (nodes ch) c iv)
                   else if 0 \<le> guess \<and> guess < sz then
                     (if nodes ch ! nat guess = c then guess
                      else scan_out (length (nodes ch)) (nodes ch) c guess 1)
                   else first_at (nodes ch) c [0..<length (nodes ch)])))"

definition count :: "forest \<Rightarrow> nid \<Rightarrow> int" where
  "count st n = (case o_children (obj st n) of None \<Rightarrow> 0 | Some ch \<Rightarrow> int (length (nodes ch)))"

definition count_named :: "forest \<Rightarrow> nid \<Rightarrow> string \<Rightarrow> int" where
  "count_named st n name =
     (if name = [] then count st n
      else (case o_children (obj st n) of
              None \<Rightarrow> 0
            | Some ch \<Rightarrow> (case indices ch name of None \<Rightarrow> 0 | Some iv \<Rightarrow> int (length iv))))"

definition children_named :: "forest \<Rightarrow> nid \<Rightarrow> string \<Rightarrow> nid option list" where
  "children_named st n name =
     (if name = [] then map Some (kids st n)
      else (case o_children (obj st n) of
              None \<Rightarrow> []
            | Some ch \<Rightarrow>
                (case indices ch name of
                   None \<Rightarrow> []
                 | Some iv \<Rightarrow> map (\<lambda>i. vec_value (nodes ch) (int i)) iv)))"

fun unique_names :: "string list \<Rightarrow> string list \<Rightarrow> string list" where
  "unique_names seen [] = []"
| "unique_names seen (nm # nms) =
     (if nm \<noteq> [] \<and> nm \<notin> set seen then nm # unique_names (nm # seen) nms
      else unique_names seen nms)"

definition childNames :: "forest \<Rightarrow> nid \<Rightarrow> string list" where
  "childNames st n = unique_names [] (map (name_of st) (kids st n))"

section \<open>Taking a child out\<close>

definition shift :: "nat \<Rightarrow> int \<Rightarrow> (string \<Rightarrow> nat list option) \<Rightarrow> string \<Rightarrow> nat list option" where
  "shift from_idx delta idx = (\<lambda>nm. map_option
     (map (\<lambda>i. if from_idx \<le> i then nat (int i + delta) else i)) (idx nm))"

fun find_entry :: "nid list \<Rightarrow> nid \<Rightarrow> nat \<Rightarrow> nat list \<Rightarrow> nat option" where
  "find_entry ns c j [] = None"
| "find_entry ns c j (i # is) =
     (if vec_value ns (int i) = Some c then Some j else find_entry ns c (Suc j) is)"

definition remove_at :: "nat \<Rightarrow> 'a list \<Rightarrow> 'a list" where
  "remove_at i xs = take i xs @ drop (Suc i) xs"

text \<open>Position, overlap index (-1 when the name has no other child) and the indices without the
  child, as the search in \<open>take\<close> leaves them.\<close>

definition locate :: "children \<Rightarrow> string \<Rightarrow> nid \<Rightarrow> int \<times> int \<times> (string \<Rightarrow> nat list option)" where
  "locate ch nm c =
     (if nm = [] then (first_at (nodes ch) c [0..<length (nodes ch)], -1, indices ch)
      else
        (case indices ch nm of
           None \<Rightarrow> (-1, -1, indices ch)
         | Some iv \<Rightarrow>
             (case find_entry (nodes ch) c 0 iv of
                None \<Rightarrow> (-1, -1, if iv = [] then (indices ch)(nm := None) else indices ch)
              | Some j \<Rightarrow>
                  (int (iv ! j), if 1 < length iv then int j else -1,
                   if remove_at j iv = [] then (indices ch)(nm := None)
                   else (indices ch)(nm \<mapsto> remove_at j iv)))))"

definition take_child :: "nid \<Rightarrow> nid option \<Rightarrow> forest \<Rightarrow> (nid option \<times> forest) option" where
  "take_child n child st =
     (case child of
        None \<Rightarrow> Some (None, st)
      | Some c \<Rightarrow>
          (case o_children (obj st n) of
             None \<Rightarrow> Some (None, st)
           | Some ch \<Rightarrow>
               (let nm = name_of st c; (pos, oi, idx) = locate ch nm c
                in if pos < 0 then
                     Some (None, upd n (o_children_update (\<lambda>_. Some (ch\<lparr>indices := idx\<rparr>))) st)
                   else
                     (let key = (if nm = [] then toKey [] pos VE_NODE_KEY_SEP
                                 else toKey nm oi VE_NODE_KEY_SEP);
                          ch' = \<lparr>indices = shift (nat pos) (-1) idx, nodes = remove_at (nat pos) (nodes ch)\<rparr>;
                          st1 = upd c (o_parent_update (\<lambda>_. None))
                                  (upd n (o_children_update (\<lambda>_. Some ch')) st)
                      in map_option (Pair (Some c)) (notify n (Removed n key 0) NODE_REMOVED st1)))))"

section \<open>Inserting children\<close>

definition ensureChildren :: "nobj \<Rightarrow> children" where
  "ensureChildren ob =
     (case o_children ob of Some ch \<Rightarrow> ch | None \<Rightarrow> \<lparr>indices = Map.empty, nodes = []\<rparr>)"

definition lower_bound :: "nat list \<Rightarrow> nat \<Rightarrow> nat" where
  "lower_bound iv i = length (takeWhile (\<lambda>x. x < i) iv)"

definition insert_at :: "nat \<Rightarrow> 'a \<Rightarrow> 'a list \<Rightarrow> 'a list" where
  "insert_at i x xs = take i xs @ x # drop i xs"

definition index_list :: "(string \<Rightarrow> nat list option) \<Rightarrow> string \<Rightarrow> nat list" where
  "index_list idx nm = (case idx nm of Some iv \<Rightarrow> iv | None \<Rightarrow> [])"

text \<open>The locked part of \<open>insert\<close>: the key of the new child, or nothing when the index is out of
  range (the children vector has been allocated by then).\<close>

definition place_child :: "nid \<Rightarrow> nid \<Rightarrow> int \<Rightarrow> forest \<Rightarrow> string option \<times> forest" where
  "place_child n c index st =
     (let ch = ensureChildren (obj st n); sz = length (nodes ch);
          index = (if index < 0 then index + int sz + 1 else index)
      in if index < 0 \<or> int sz < index then
           (None, upd n (o_children_update (\<lambda>_. Some ch)) st)
         else
           (let i = nat index; nm = name_of st c;
                (idx, oi) =
                  (if i = sz then
                     (if nm = [] then (indices ch, -1)
                      else
                        (let iv = index_list (indices ch) nm @ [sz]
                         in ((indices ch)(nm \<mapsto> iv), if 1 < length iv then int (length iv) - 1 else -1)))
                   else
                     (let sh = shift i 1 (indices ch)
                      in if nm = [] then (sh, -1)
                         else
                           (let iv = index_list sh nm; it = lower_bound iv i; iv' = insert_at it i iv
                            in (sh(nm \<mapsto> iv'), if length iv' \<le> 1 then -1 else int it))));
                ch' = \<lparr>indices = idx,
                       nodes = (if i = sz then nodes ch @ [c] else insert_at i c (nodes ch))\<rparr>;
                st1 = upd c (o_parent_update (\<lambda>_. Some n))
                        (upd n (o_children_update (\<lambda>_. Some ch')) st)
            in (Some (toKey nm (if nm = [] then index else oi) VE_NODE_KEY_SEP), st1)))"

definition detach :: "nid \<Rightarrow> forest \<Rightarrow> forest option" where
  "detach c st =
     (case parent st c of None \<Rightarrow> Some st | Some q \<Rightarrow> map_option snd (take_child q (Some c) st))"

definition insert_child :: "nid \<Rightarrow> nid option \<Rightarrow> int \<Rightarrow> forest \<Rightarrow> (bool \<times> forest) option" where
  "insert_child n child index st =
     (case child of
        None \<Rightarrow> Some (False, st)
      | Some c \<Rightarrow>
          (case detach c st of
             None \<Rightarrow> None
           | Some st0 \<Rightarrow>
               (case place_child n c index st0 of
                  (None, st1) \<Rightarrow> Some (False, st1)
                | (Some key, st1) \<Rightarrow>
                    map_option (Pair True) (notify n (Added n key 0) NODE_ADDED st1))))"

fun detach_all :: "nid list \<Rightarrow> forest \<Rightarrow> forest option" where
  "detach_all [] st = Some st"
| "detach_all (c # cs) st = (case detach c st of None \<Rightarrow> None | Some st1 \<Rightarrow> detach_all cs st1)"

text \<open>The per-child loop of the batch insert: parents and indices; \<open>gi\<close> is the position of the
  next child, and the overlap index of the first child is kept.\<close>

fun batch_indices :: "(nid \<Rightarrow> string) \<Rightarrow> nat \<Rightarrow> nid list \<Rightarrow> (string \<Rightarrow> nat list option)
    \<Rightarrow> string \<Rightarrow> nat list option" where
  "batch_indices nmf gi [] idx = idx"
| "batch_indices nmf gi (c # cs) idx =
     (let nm = nmf c
      in batch_indices nmf (Suc gi) cs
           (if nm = [] then idx
            else (let iv = index_list idx nm in idx(nm \<mapsto> insert_at (lower_bound iv gi) gi iv))))"

definition first_overlap :: "(string \<Rightarrow> nat list option) \<Rightarrow> string \<Rightarrow> nat \<Rightarrow> int" where
  "first_overlap idx nm gi =
     (if nm = [] then -1
      else (let iv = index_list idx nm
            in if Suc (length iv) \<le> 1 then -1 else int (lower_bound iv gi)))"

fun set_parents :: "nid \<Rightarrow> nid list \<Rightarrow> forest \<Rightarrow> forest" where
  "set_parents n [] st = st"
| "set_parents n (c # cs) st = set_parents n cs (upd c (o_parent_update (\<lambda>_. Some n)) st)"

definition place_batch :: "nid \<Rightarrow> nid list \<Rightarrow> int \<Rightarrow> forest \<Rightarrow> string option \<times> forest" where
  "place_batch n cs index st =
     (let ch = ensureChildren (obj st n); sz = length (nodes ch);
          index = (if index < 0 then index + int sz + 1 else index)
      in if index < 0 \<or> int sz < index then
           (None, upd n (o_children_update (\<lambda>_. Some ch)) st)
         else
           (let i = nat index;
                sh = (if i < sz then shift i (int (length cs)) (indices ch) else indices ch);
                ch' = \<lparr>indices = batch_indices (name_of st) i cs sh,
                       nodes = take i (nodes ch) @ cs @ drop i (nodes ch)\<rparr>;
                nm = name_of st (hd cs);
                st1 = set_parents n cs (upd n (o_children_update (\<lambda>_. Some ch')) st)
            in (Some (toKey nm (if nm = [] then index else first_overlap sh nm i) VE_NODE_KEY_SEP), st1)))"

definition insert_batch :: "nid \<Rightarrow> nid option list \<Rightarrow> int \<Rightarrow> forest \<Rightarrow> (bool \<times> forest) option" where
  "insert_batch n cs index st =
     (if cs = [] then Some (True, st)
      else if None \<in> set cs then Some (False, st)
      else
        (case detach_all (map the cs) st of
           None \<Rightarrow> None
         | Some st0 \<Rightarrow>
             (case place_batch n (map the cs) index st0 of
                (None, st1) \<Rightarrow> Some (False, st1)
              | (Some key, st1) \<Rightarrow>
                  map_option (Pair True)
                    (notify n (Added n key (int (length cs) - 1)) NODE_ADDED st1))))"

fun new_nodes :: "nat \<Rightarrow> string \<Rightarrow> forest \<Rightarrow> nid list \<times> forest" where
  "new_nodes 0 name st = ([], st)"
| "new_nodes (Suc k) name st =
     (let (c, st1) = new_node name st; (cs, st2) = new_nodes k name st1 in (c # cs, st2))"

definition append_node :: "nid \<Rightarrow> string \<Rightarrow> int \<Rightarrow> forest \<Rightarrow> (nid option \<times> forest) option" where
  "append_node n name overlap st =
     (if overlap < 0 then Some (None, st)
      else if overlap = 0 then
        (let (cn, st1) = new_node name st
         in map_option (\<lambda>(_, st2). (Some cn, st2)) (insert_child n (Some cn) (-1) st1))
      else
        (let (batch, st1) = new_nodes (nat overlap + 1) name st
         in map_option (\<lambda>(_, st2). (Some (hd batch), st2)) (insert_batch n (map Some batch) (-1) st1)))"

section \<open>Deleting\<close>

text \<open>The destructor: the children first, each with its parent pointer cleared, then the
  deletion signal (which a silent node emits too), then the memory.\<close>

fun delete_node :: "nat \<Rightarrow> nid \<Rightarrow> forest \<Rightarrow> forest option"
  and delete_kids :: "nat \<Rightarrow> nid list \<Rightarrow> forest \<Rightarrow> forest option" where
  "delete_node 0 n st = None"
| "delete_node (Suc fuel) n st =
     (case delete_kids fuel (kids st n) st of
        None \<Rightarrow> None
      | Some st1 \<Rightarrow> Some (st1\<lparr>events := events st1 @ [Deleted n], heap := (heap st1)(n := None)\<rparr>))"
| "delete_kids fuel [] st = Some st"
| "delete_kids fuel (c # cs) st =
     (case delete_node fuel c (upd c (o_parent_update (\<lambda>_. None)) st) of
        None \<Rightarrow> None | Some st1 \<Rightarrow> delete_kids fuel cs st1)"

definition remove_child :: "nid \<Rightarrow> nid option \<Rightarrow> forest \<Rightarrow> (bool \<times> forest) option" where
  "remove_child n child st =
     (case take_child n child st of
        None \<Rightarrow> None
      | Some (None, st1) \<Rightarrow> Some (False, st1)
      | Some (Some c, st1) \<Rightarrow> map_option (Pair True) (delete_node (next_id st1 + 1) c st1))"

fun remove_loop :: "nat \<Rightarrow> nid \<Rightarrow> string \<Rightarrow> bool \<Rightarrow> forest \<Rightarrow> (bool \<times> forest) option" where
  "remove_loop 0 n name removed st = None"
| "remove_loop (Suc fuel) n name removed st =
     (case take_child n (child_named st n name 0) st of
        None \<Rightarrow> None
      | Some (None, st1) \<Rightarrow> Some (removed, st1)
      | Some (Some c, st1) \<Rightarrow>
          (case delete_node (next_id st1 + 1) c st1 of
             None \<Rightarrow> None | Some st2 \<Rightarrow> remove_loop fuel n name True st2))"

definition remove_named :: "nid \<Rightarrow> string \<Rightarrow> forest \<Rightarrow> (bool \<times> forest) option" where
  "remove_named n name st =
     (if name = [] then remove_child n (child_index st n (-1)) st
      else remove_loop (length (kids st n) + 1) n name False st)"

fun orphan_kids :: "nid list \<Rightarrow> forest \<Rightarrow> forest" where
  "orphan_kids [] st = st"
| "orphan_kids (c # cs) st = orphan_kids cs (upd c (o_parent_update (\<lambda>_. None)) st)"

definition clear_children :: "nid \<Rightarrow> bool \<Rightarrow> forest \<Rightarrow> forest option" where
  "clear_children n auto_delete st =
     (case o_children (obj st n) of
        None \<Rightarrow> Some st
      | Some ch \<Rightarrow>
          map_option (upd n (o_children_update (\<lambda>_. None)))
            (if auto_delete then delete_kids (next_id st + 1) (nodes ch) st
             else Some (orphan_kids (nodes ch) st)))"

definition clear :: "nid \<Rightarrow> bool \<Rightarrow> forest \<Rightarrow> forest option" where
  "clear n auto_delete st =
     (case o_children (obj st n) of
        None \<Rightarrow> Some st
      | Some ch \<Rightarrow>
          (let cnt = int (length (nodes ch))
           in case clear_children n auto_delete st of
                None \<Rightarrow> None
              | Some st1 \<Rightarrow>
                  if 0 < cnt then notify n (Removed n ''#0'' (cnt - 1)) NODE_REMOVED st1 else Some st1))"

section \<open>Keys of children and paths\<close>

fun position_in :: "nat \<Rightarrow> nat list \<Rightarrow> int \<Rightarrow> nat option" where
  "position_in k [] gi = None"
| "position_in k (i # is) gi = (if int i = gi then Some k else position_in (Suc k) is gi)"

definition keyOf :: "forest \<Rightarrow> nid \<Rightarrow> nid option \<Rightarrow> int \<Rightarrow> string" where
  "keyOf st n child guess =
     (case child of
        None \<Rightarrow> []
      | Some c \<Rightarrow>
          (case o_children (obj st n) of
             None \<Rightarrow> []
           | Some ch \<Rightarrow>
               (let gi = indexOf st n (Some c) guess; nm = name_of st c
                in if gi < 0 then []
                   else if nm = [] then toKey [] gi VE_NODE_KEY_SEP
                   else
                     (case indices ch nm of
                        None \<Rightarrow> nm
                      | Some iv \<Rightarrow>
                          if length iv \<le> 1 then nm
                          else (case position_in 0 iv gi of
                                  Some k \<Rightarrow> toKey nm (int k) VE_NODE_KEY_SEP | None \<Rightarrow> nm)))))"

fun path :: "nat \<Rightarrow> forest \<Rightarrow> nid \<Rightarrow> nid option \<Rightarrow> string option" where
  "path 0 st n ancestor = None"
| "path (Suc fuel) st n ancestor =
     (if Some n = ancestor then Some []
      else
        (case parent st n of
           None \<Rightarrow> Some (name_of st n)
         | Some p \<Rightarrow>
             (let seg = keyOf st p (Some n) (-1)
              in if Some p = ancestor then Some seg
                 else (case path fuel st p ancestor of
                         None \<Rightarrow> None
                       | Some pp \<Rightarrow> Some (if pp = [] then seg else pp @ CHR ''/'' # seg)))))"

definition path_of :: "forest \<Rightarrow> nid \<Rightarrow> nid option \<Rightarrow> string option" where
  "path_of st n ancestor = path (next_id st + 1) st n ancestor"

section \<open>Access by key\<close>

definition setShadow :: "nid \<Rightarrow> nid option \<Rightarrow> forest \<Rightarrow> forest" where
  "setShadow n s = upd n (o_shadow_update (\<lambda>_. s))"

fun at_index :: "nat \<Rightarrow> forest \<Rightarrow> nid \<Rightarrow> int \<Rightarrow> bool \<Rightarrow> nid option option" where
  "at_index 0 st n index use_shadow = None"
| "at_index (Suc fuel) st n index use_shadow =
     (case child_index st n index of
        Some c \<Rightarrow> Some (Some c)
      | None \<Rightarrow>
          if use_shadow then
            (case o_shadow (obj st n) of Some sn \<Rightarrow> at_index fuel st sn index True | None \<Rightarrow> Some None)
          else Some None)"

fun at_named :: "nat \<Rightarrow> forest \<Rightarrow> nid \<Rightarrow> string \<Rightarrow> int \<Rightarrow> bool \<Rightarrow> nid option option" where
  "at_named 0 st n name overlap use_shadow = None"
| "at_named (Suc fuel) st n name overlap use_shadow =
     (case child_named st n name overlap of
        Some c \<Rightarrow> Some (Some c)
      | None \<Rightarrow>
          if use_shadow then
            (case o_shadow (obj st n) of
               Some sn \<Rightarrow> at_named fuel st sn name overlap True | None \<Rightarrow> Some None)
          else Some None)"

text \<open>The \<open>const\<close> overload on a key; \<open>None\<close> also where the key parser overflows.\<close>

definition find_key :: "forest \<Rightarrow> nid \<Rightarrow> string \<Rightarrow> bool \<Rightarrow> char \<Rightarrow> nid option option" where
  "find_key st n key use_shadow key_sep =
     (case parseKey key key_sep of
        KeyBad \<Rightarrow> Some None
      | KeyOverflow \<Rightarrow> None
      | Key nm idx \<Rightarrow>
          if nm = [] then at_index (next_id st + 1) st n (int idx) use_shadow
          else at_named (next_id st + 1) st n nm (int idx) use_shadow)"

text \<open>The overloads that create what is missing.\<close>

definition ensure_index :: "nid \<Rightarrow> int \<Rightarrow> bool \<Rightarrow> forest \<Rightarrow> (nid option \<times> forest) option" where
  "ensure_index n index use_shadow st =
     (case at_index (next_id st + 1) st n index use_shadow of
        None \<Rightarrow> None
      | Some (Some cn) \<Rightarrow> Some (Some cn, st)
      | Some None \<Rightarrow>
          if index < 0 then Some (None, st)
          else
            (case append_node n [] (index - count st n) st of
               None \<Rightarrow> None
             | Some (None, st1) \<Rightarrow> Some (None, st1)
             | Some (Some _, st1) \<Rightarrow> Some (child_index st1 n index, st1)))"

definition ensure_named :: "nid \<Rightarrow> string \<Rightarrow> int \<Rightarrow> bool \<Rightarrow> forest \<Rightarrow> (nid option \<times> forest) option" where
  "ensure_named n name overlap use_shadow st =
     (case at_named (next_id st + 1) st n name overlap use_shadow of
        None \<Rightarrow> None
      | Some (Some cn) \<Rightarrow> Some (Some cn, st)
      | Some None \<Rightarrow>
          if overlap < 0 then Some (None, st)
          else
            (case append_node n name (overlap - count_named st n name) st of
               None \<Rightarrow> None
             | Some (None, st1) \<Rightarrow> Some (None, st1)
             | Some (Some _, st1) \<Rightarrow> Some (child_named st1 n name overlap, st1)))"

definition ensure_key :: "nid \<Rightarrow> string \<Rightarrow> bool \<Rightarrow> char \<Rightarrow> forest \<Rightarrow> (nid option \<times> forest) option" where
  "ensure_key n key use_shadow key_sep st =
     (case parseKey key key_sep of
        KeyBad \<Rightarrow> Some (None, st)
      | KeyOverflow \<Rightarrow> None
      | Key nm idx \<Rightarrow>
          if nm = [] then ensure_index n (int idx) use_shadow st
          else ensure_named n nm (int idx) use_shadow st)"

section \<open>Access by path\<close>

fun root_loop :: "nat \<Rightarrow> forest \<Rightarrow> nid \<Rightarrow> nid option" where
  "root_loop 0 st n = None"
| "root_loop (Suc fuel) st n =
     (case parent st n of None \<Rightarrow> Some n | Some p \<Rightarrow> root_loop fuel st p)"

definition root_of :: "forest \<Rightarrow> nid \<Rightarrow> nid option" where
  "root_of st n = root_loop (next_id st + 1) st n"

text \<open>Where a walk starts and the segments it takes: a leading separator means the root.\<close>

definition path_start :: "forest \<Rightarrow> nid \<Rightarrow> string \<Rightarrow> char \<Rightarrow> (nid \<times> string list) option" where
  "path_start st n p path_sep =
     (if p \<noteq> [] \<and> hd p = path_sep
      then map_option (\<lambda>r. (r, segments path_sep (tl p))) (root_of st n)
      else Some (n, segments path_sep p))"

fun find_walk :: "forest \<Rightarrow> nid \<Rightarrow> bool \<Rightarrow> char \<Rightarrow> string list \<Rightarrow> nid option option" where
  "find_walk st n use_shadow key_sep [] = Some (Some n)"
| "find_walk st n use_shadow key_sep (seg # segs) =
     (case find_key st n seg use_shadow key_sep of
        None \<Rightarrow> None
      | Some None \<Rightarrow> Some None
      | Some (Some c) \<Rightarrow> find_walk st c use_shadow key_sep segs)"

definition find_path :: "forest \<Rightarrow> nid \<Rightarrow> string \<Rightarrow> bool \<Rightarrow> char \<Rightarrow> char \<Rightarrow> nid option option" where
  "find_path st n p use_shadow path_sep key_sep =
     (case path_start st n p path_sep of
        None \<Rightarrow> None | Some (cur, segs) \<Rightarrow> find_walk st cur use_shadow key_sep segs)"

fun ensure_walk :: "nid \<Rightarrow> bool \<Rightarrow> char \<Rightarrow> string list \<Rightarrow> forest \<Rightarrow> (nid option \<times> forest) option" where
  "ensure_walk n use_shadow key_sep [] st = Some (Some n, st)"
| "ensure_walk n use_shadow key_sep (seg # segs) st =
     (case ensure_key n seg use_shadow key_sep st of
        None \<Rightarrow> None
      | Some (None, st1) \<Rightarrow> Some (None, st1)
      | Some (Some c, st1) \<Rightarrow> ensure_walk c use_shadow key_sep segs st1)"

definition ensure_path :: "nid \<Rightarrow> string \<Rightarrow> bool \<Rightarrow> char \<Rightarrow> char \<Rightarrow> forest \<Rightarrow> (nid option \<times> forest) option" where
  "ensure_path n p use_shadow path_sep key_sep st =
     (case path_start st n p path_sep of
        None \<Rightarrow> None | Some (cur, segs) \<Rightarrow> ensure_walk cur use_shadow key_sep segs st)"

definition erase_path :: "nid \<Rightarrow> string \<Rightarrow> bool \<Rightarrow> forest \<Rightarrow> (bool \<times> forest) option" where
  "erase_path n p auto_delete st =
     (case find_path st n p False VE_NODE_PATH_SEP VE_NODE_KEY_SEP of
        None \<Rightarrow> None
      | Some None \<Rightarrow> Some (False, st)
      | Some (Some t) \<Rightarrow>
          (case parent st t of
             None \<Rightarrow> Some (False, st)
           | Some q \<Rightarrow>
               if auto_delete then remove_child q (Some t) st
               else map_option (\<lambda>(r, st1). (r \<noteq> None, st1)) (take_child q (Some t) st)))"

text \<open>Values by path: \<open>get(path)\<close>, \<open>set(path, v)\<close> and \<open>update(path, v)\<close>, which look through
  shadows; \<open>set\<close> on a path that cannot be created dereferences a null pointer (\<open>None\<close>).\<close>

definition get_path :: "forest \<Rightarrow> nid \<Rightarrow> string \<Rightarrow> var option" where
  "get_path st n p =
     map_option (\<lambda>r. case r of Some c \<Rightarrow> node_value st c | None \<Rightarrow> VNone)
       (find_path st n p True VE_NODE_PATH_SEP VE_NODE_KEY_SEP)"

definition set_path :: "nid \<Rightarrow> string \<Rightarrow> var \<Rightarrow> forest \<Rightarrow> forest option" where
  "set_path n p v st =
     (case ensure_path n p True VE_NODE_PATH_SEP VE_NODE_KEY_SEP st of
        Some (Some c, st1) \<Rightarrow> set_value c v st1 | _ \<Rightarrow> None)"

definition update_path :: "nid \<Rightarrow> string \<Rightarrow> var \<Rightarrow> forest \<Rightarrow> (bool \<times> forest) option" where
  "update_path n p v st =
     (case get_path st n p of
        None \<Rightarrow> None
      | Some old \<Rightarrow>
          if var_eq old v then Some (False, st) else map_option (Pair True) (set_path n p v st))"

section \<open>Whole subtrees\<close>

fun watchAll :: "nat \<Rightarrow> bool \<Rightarrow> nid \<Rightarrow> forest \<Rightarrow> forest option"
  and watch_kids :: "nat \<Rightarrow> bool \<Rightarrow> nid list \<Rightarrow> forest \<Rightarrow> forest option" where
  "watchAll 0 on n st = None"
| "watchAll (Suc fuel) on n st = watch_kids fuel on (kids st n) (watch on n st)"
| "watch_kids fuel on [] st = Some st"
| "watch_kids fuel on (c # cs) st =
     (case watchAll fuel on c st of None \<Rightarrow> None | Some st1 \<Rightarrow> watch_kids fuel on cs st1)"

fun silentAll :: "nat \<Rightarrow> bool \<Rightarrow> nid \<Rightarrow> forest \<Rightarrow> forest option"
  and silent_kids :: "nat \<Rightarrow> bool \<Rightarrow> nid list \<Rightarrow> forest \<Rightarrow> forest option" where
  "silentAll 0 on n st = None"
| "silentAll (Suc fuel) on n st = silent_kids fuel on (kids st n) (silent on n st)"
| "silent_kids fuel on [] st = Some st"
| "silent_kids fuel on (c # cs) st =
     (case silentAll fuel on c st of None \<Rightarrow> None | Some st1 \<Rightarrow> silent_kids fuel on cs st1)"

definition sibling :: "forest \<Rightarrow> nid \<Rightarrow> int \<Rightarrow> nid option" where
  "sibling st n offset =
     (case parent st n of
        None \<Rightarrow> None
      | Some p \<Rightarrow>
          (let i = indexOf st p (Some n) (-1) + offset
           in if 0 \<le> i then child_index st p i else None))"

definition node_toList :: "forest \<Rightarrow> nid \<Rightarrow> var list" where
  "node_toList st n = map (node_value st) (kids st n)"

definition node_toDict :: "forest \<Rightarrow> nid \<Rightarrow> (string \<times> var) list" where
  "node_toDict st n =
     fold (\<lambda>c d. dict_put (name_of st c) (node_value st c) d) (kids st n) []"

fun dump :: "nat \<Rightarrow> (nat \<Rightarrow> string) \<Rightarrow> forest \<Rightarrow> nat \<Rightarrow> nid \<Rightarrow> string option"
  and dump_kids :: "nat \<Rightarrow> (nat \<Rightarrow> string) \<Rightarrow> forest \<Rightarrow> nat \<Rightarrow> nid list \<Rightarrow> string option" where
  "dump 0 cust st depth n = None"
| "dump (Suc fuel) cust st depth n =
     (let key = (case parent st n of Some p \<Rightarrow> keyOf st p (Some n) (-1) | None \<Rightarrow> name_of st n);
          key = (if key = [] then ''(anon)'' else key);
          line = replicate (depth * 2) (CHR '' '') @ key
            @ (if isNull (node_value st n) then [] else '' = '' @ var_text cust [] (node_value st n))
            @ (case o_shadow (obj st n) of Some s \<Rightarrow> ''  -> '' @ name_of st s | None \<Rightarrow> [])
            @ [CHR 0x0A]
      in map_option (\<lambda>t. line @ t) (dump_kids fuel cust st (depth + 1) (kids st n)))"
| "dump_kids fuel cust st depth [] = Some []"
| "dump_kids fuel cust st depth (c # cs) =
     (case dump fuel cust st depth c of
        None \<Rightarrow> None
      | Some t \<Rightarrow> map_option (\<lambda>ts. t @ ts) (dump_kids fuel cust st depth cs))"

end
