(* ===== verification/Node_Inv.thy ===== *)
theory Node_Inv
  imports Node_Tree
begin

text \<open>
  The invariant of the data tree and that the operations of \<open>Node_Tree\<close> keep it: every index
  map is the one computed from the child vector, parent pointers and child vectors agree,
  children are alive and listed once, and the parent relation has no cycle.
\<close>

section \<open>Positions of a name\<close>

definition positions :: "'a \<Rightarrow> 'a list \<Rightarrow> nat list" where
  "positions x xs = filter (\<lambda>i. xs ! i = x) [0..<length xs]"

definition idx_of :: "string list \<Rightarrow> string \<Rightarrow> nat list option" where
  "idx_of ns = (\<lambda>nm. if nm = [] \<or> nm \<notin> set ns then None else Some (positions nm ns))"

lemma positions_Nil [simp]: "positions x [] = []"
  by (simp add: positions_def)

lemma upt_add_map: "[n..<n + m] = map ((+) n) [0..<m]"
  by (induction m) auto

lemma positions_append:
  "positions x (xs @ ys) = positions x xs @ map ((+) (length xs)) (positions x ys)"
proof -
  have "[0..<length (xs @ ys)] = [0..<length xs] @ map ((+) (length xs)) [0..<length ys]"
    using upt_add_eq_append [of 0 "length xs" "length ys"] upt_add_map [of "length xs" "length ys"]
    by simp
  then show ?thesis
    by (auto simp: positions_def filter_map o_def nth_append intro!: filter_cong)
qed

lemma positions_single: "positions x [y] = (if x = y then [0] else [])"
  by (auto simp: positions_def)

lemma positions_Cons:
  "positions x (y # ys) = (if x = y then [0] else []) @ map Suc (positions x ys)"
  using positions_append [of x "[y]" ys] by (simp add: positions_single)

lemma positions_less: "i \<in> set (positions x xs) \<Longrightarrow> i < length xs"
  by (simp add: positions_def)

lemma positions_nth: "i \<in> set (positions x xs) \<longleftrightarrow> i < length xs \<and> xs ! i = x"
  by (auto simp: positions_def)

lemma positions_empty: "positions x xs = [] \<longleftrightarrow> x \<notin> set xs"
  by (auto simp: positions_def filter_empty_conv in_set_conv_nth)

lemma distinct_positions [simp]: "distinct (positions x xs)"
  by (simp add: positions_def)

lemma sorted_positions [simp]: "sorted (positions x xs)"
  by (simp add: positions_def sorted_filter [of id, simplified])

lemma map_shift_split:
  fixes k :: nat
  assumes "\<And>i. i \<in> set as \<Longrightarrow> i < k"
  shows "map (\<lambda>i. if k \<le> i then f i else i) (as @ map ((+) k) bs) = as @ map (\<lambda>i. f (k + i)) bs"
proof -
  have "map (\<lambda>i. if k \<le> i then f i else i) as = as"
    by (rule map_idI) (use assms in force)
  then show ?thesis by simp
qed

lemma shift_positions_up:
  "map (\<lambda>i. if length xs \<le> i then nat (int i + int d) else i) (positions x (xs @ ys))
     = positions x xs @ map ((+) (length xs + d)) (positions x ys)"
  unfolding positions_append
  by (subst map_shift_split) (auto dest: positions_less simp: nat_add_distrib)

lemma shift_positions_down:
  "map (\<lambda>i. if length xs \<le> i then nat (int i + - 1) else i)
     (positions x xs @ map ((+) (Suc (length xs))) (positions x ys))
   = positions x (xs @ ys)"
proof -
  have "map ((+) (Suc (length xs))) (positions x ys) = map ((+) (length xs)) (map Suc (positions x ys))"
    by simp
  then show ?thesis unfolding positions_append
    by (simp only:) (subst map_shift_split, auto dest: positions_less)
qed

lemma idx_of_empty_name [simp]: "idx_of ns [] = None"
  by (simp add: idx_of_def)

lemma index_list_idx_of: "nm \<noteq> [] \<Longrightarrow> index_list (idx_of ns) nm = positions nm ns"
  using positions_empty [of nm ns] by (auto simp: index_list_def idx_of_def)

lemma lower_bound_split:
  fixes k :: nat
  assumes "\<And>i. i \<in> set as \<Longrightarrow> i < k" "\<And>i. i \<in> set bs \<Longrightarrow> k \<le> i"
  shows "lower_bound (as @ bs) k = length as"
proof -
  have "takeWhile (\<lambda>x. x < k) as = as" using assms(1) by (simp add: takeWhile_eq_all_conv)
  moreover have "takeWhile (\<lambda>x. x < k) bs = []" using assms(2) by (cases bs) force+
  ultimately show ?thesis using assms(1) by (simp add: lower_bound_def takeWhile_append2)
qed

lemma insert_at_split: "insert_at (length as) x (as @ bs) = as @ x # bs"
  by (simp add: insert_at_def)

text \<open>Shifting for an insertion and adding the new positions gives the indices of the new list.\<close>

lemma shift_idx_of:
  "shift (length xs) (int d) (idx_of (xs @ ys)) nm =
     (if nm = [] \<or> nm \<notin> set (xs @ ys) then None
      else Some (positions nm xs @ map ((+) (length xs + d)) (positions nm ys)))"
  by (simp add: shift_def idx_of_def shift_positions_up)

lemma insert_idx:
  "(if nm = [] then shift (length xs) 1 (idx_of (xs @ ys))
    else (shift (length xs) 1 (idx_of (xs @ ys)))
      (nm \<mapsto> insert_at (lower_bound (index_list (shift (length xs) 1 (idx_of (xs @ ys))) nm) (length xs))
               (length xs) (index_list (shift (length xs) 1 (idx_of (xs @ ys))) nm)))
   = idx_of (xs @ nm # ys)"
proof
  fix x
  define sh where "sh = shift (length xs) 1 (idx_of (xs @ ys))"
  have sh: "sh x = (if x = [] \<or> x \<notin> set (xs @ ys) then None
       else Some (positions x xs @ map ((+) (Suc (length xs))) (positions x ys)))" for x
    using shift_idx_of [of xs 1 ys x] by (simp add: sh_def)
  have iv: "index_list sh nm = positions nm xs @ map ((+) (Suc (length xs))) (positions nm ys)"
    if "nm \<noteq> []"
    using that positions_empty [of nm xs] positions_empty [of nm ys]
    by (simp add: index_list_def sh)
  have lb: "lower_bound (positions nm xs @ map ((+) (Suc (length xs))) (positions nm ys)) (length xs)
      = length (positions nm xs)"
    by (rule lower_bound_split) (auto dest: positions_less)
  have new: "idx_of (xs @ nm # ys) x =
      (if x = [] \<or> x \<notin> set (xs @ nm # ys) then None
       else Some (positions x xs @ (if x = nm then [length xs] else [])
                  @ map ((+) (Suc (length xs))) (positions x ys)))"
    by (auto simp: idx_of_def positions_append positions_Cons)
  show "(if nm = [] then sh
      else sh(nm \<mapsto> insert_at (lower_bound (index_list sh nm) (length xs)) (length xs) (index_list sh nm))) x
      = idx_of (xs @ nm # ys) x"
  proof (cases "x = nm \<and> nm \<noteq> []")
    case True
    then show ?thesis unfolding new by (simp add: iv lb insert_at_split)
  next
    case False
    then show ?thesis unfolding new by (auto simp: sh)
  qed
qed

text \<open>Appending needs no shift.\<close>

lemma append_idx:
  "(if nm = [] then idx_of xs else (idx_of xs)(nm \<mapsto> index_list (idx_of xs) nm @ [length xs]))
   = idx_of (xs @ [nm])"
  by (rule ext) (auto simp: index_list_idx_of positions_append positions_single, auto simp: idx_of_def
      positions_append positions_single)

text \<open>The loop of the batch insert.\<close>

lemma batch_idx:
  assumes "\<And>x. x \<noteq> [] \<Longrightarrow> index_list idx x = positions x xs @ map ((+) (length xs + length cs)) (positions x ys)"
    and "\<And>x. idx x = None \<longleftrightarrow> x = [] \<or> x \<notin> set (xs @ ys)"
  shows "batch_indices nmf (length xs) cs idx = idx_of (xs @ map nmf cs @ ys)"
  using assms
proof (induction cs arbitrary: xs idx)
  case Nil
  show ?case
  proof
    fix x
    show "batch_indices nmf (length xs) [] idx x = idx_of (xs @ map nmf [] @ ys) x"
      using Nil.prems [of x] by (cases "idx x") (auto simp: idx_of_def index_list_def positions_append)
  qed
next
  case (Cons c cs)
  define nm where "nm = nmf c"
  define idx' where "idx' = (if nm = [] then idx
      else (let iv = index_list idx nm in idx(nm \<mapsto> insert_at (lower_bound iv (length xs)) (length xs) iv)))"
  have lb: "lower_bound (index_list idx nm) (length xs) = length (positions nm xs)" if "nm \<noteq> []"
    unfolding Cons.prems(1) [OF that] by (rule lower_bound_split) (auto dest: positions_less)
  have 1: "index_list idx' x = positions x (xs @ [nm]) @ map ((+) (length (xs @ [nm]) + length cs)) (positions x ys)"
    if "x \<noteq> []" for x
  proof (cases "x = nm")
    case True
    have nz: "nm \<noteq> []" using True that by simp
    have "index_list idx' nm = insert_at (lower_bound (index_list idx nm) (length xs)) (length xs)
        (index_list idx nm)"
      using nz by (simp add: idx'_def Let_def index_list_def [of "_(_ := _)"])
    then have "index_list idx' x = insert_at (length (positions nm xs)) (length xs)
        (positions nm xs @ map ((+) (length xs + length (c # cs))) (positions nm ys))"
      using True lb [OF nz] unfolding Cons.prems(1) [OF nz] by simp
    then show ?thesis using True
      by (simp only: insert_at_split) (simp add: positions_append positions_single)
  next
    case False
    then have "index_list idx' x = index_list idx x" by (simp add: idx'_def index_list_def Let_def)
    then show ?thesis using Cons.prems(1) [OF that] False
      by (simp add: positions_append positions_single)
  qed
  have 2: "idx' x = None \<longleftrightarrow> x = [] \<or> x \<notin> set ((xs @ [nm]) @ ys)" for x
    using Cons.prems(2) [of x] by (auto simp: idx'_def Let_def)
  have "batch_indices nmf (length xs) (c # cs) idx = batch_indices nmf (length (xs @ [nm])) cs idx'"
    by (simp add: Let_def idx'_def nm_def)
  also have "\<dots> = idx_of ((xs @ [nm]) @ map nmf cs @ ys)" by (rule Cons.IH [OF 1 2])
  finally show ?case by (simp add: nm_def)
qed

section \<open>Finding and removing an entry\<close>

lemma vec_value_nat [simp]: "vec_value xs (int i) = (if i < length xs then Some (xs ! i) else None)"
  by (simp add: vec_value_def)

lemma first_at_eq:
  "first_at ns c is = (case filter (\<lambda>i. i < length ns \<and> ns ! i = c) is of [] \<Rightarrow> -1 | i # _ \<Rightarrow> int i)"
  by (induction "is") auto

lemma find_entry_eq:
  "find_entry ns c j is =
    (case filter (\<lambda>i. is ! i < length ns \<and> ns ! (is ! i) = c) [0..<length is] of
       [] \<Rightarrow> None | i # _ \<Rightarrow> Some (j + i))"
proof (induction "is" arbitrary: j)
  case (Cons a "is")
  have "filter (\<lambda>i. (a # is) ! i < length ns \<and> ns ! ((a # is) ! i) = c) (map Suc [0..<length is])
      = map Suc (filter (\<lambda>i. is ! i < length ns \<and> ns ! (is ! i) = c) [0..<length is])"
    by (simp add: filter_map o_def)
  then show ?case
    using Cons.IH [of "Suc j"]
    by (auto simp: upt_conv_Cons map_Suc_upt [symmetric] simp del: upt_Suc map_Suc_upt split: list.splits)
qed simp

lemma find_entry_skip:
  "(\<And>i. i \<in> set as \<Longrightarrow> \<not> (i < length ns \<and> ns ! i = c)) \<Longrightarrow>
   find_entry ns c j (as @ bs) = find_entry ns c (j + length as) bs"
  by (induction as arbitrary: j) auto

lemma first_at_skip:
  "(\<And>i. i \<in> set as \<Longrightarrow> \<not> (i < length ns \<and> ns ! i = c)) \<Longrightarrow>
   first_at ns c (as @ bs) = first_at ns c bs"
  by (induction as) auto

lemma find_entry_none: "c \<notin> set ns \<Longrightarrow> find_entry ns c j is = None"
  by (induction "is" arbitrary: j) auto

lemma first_at_none: "c \<notin> set ns \<Longrightarrow> first_at ns c is = -1"
  by (induction "is") auto

lemma distinct_mid:
  "distinct (A @ c # B) \<Longrightarrow> i < length (A @ c # B) \<Longrightarrow> (A @ c # B) ! i = c \<Longrightarrow> i = length A"
proof -
  assume d: "distinct (A @ c # B)" and i: "i < length (A @ c # B)" and e: "(A @ c # B) ! i = c"
  have "(A @ c # B) ! i = (A @ c # B) ! length A" using e by simp
  then show "i = length A" using nth_eq_iff_index_eq [OF d i, of "length A"] by simp
qed

lemma positions_mid:
  "positions (f c) (map f (A @ c # B)) =
     positions (f c) (map f A) @ length A # map ((+) (Suc (length A))) (positions (f c) (map f B))"
  by (simp add: positions_append positions_Cons o_def)

lemma remove_at_split: "remove_at (length as) (as @ x # bs) = as @ bs"
  by (simp add: remove_at_def)

lemma first_at_mid:
  "distinct (A @ c # B) \<Longrightarrow> first_at (A @ c # B) c [0..<length (A @ c # B)] = int (length A)"
proof -
  assume d: "distinct (A @ c # B)"
  have "[0..<length (A @ c # B)] = [0..<length A] @ length A # [Suc (length A)..<length (A @ c # B)]"
  proof -
    have "[0..<length A + Suc (length B)] = [0..<length A] @ [length A..<length A + Suc (length B)]"
      by (rule upt_add_eq_append) simp
    moreover have "[length A..<length A + Suc (length B)]
        = length A # [Suc (length A)..<length A + Suc (length B)]"
      by (rule upt_conv_Cons) simp
    ultimately show ?thesis by (simp del: upt_Suc)
  qed
  moreover have "first_at (A @ c # B) c ([0..<length A] @ length A # [Suc (length A)..<length (A @ c # B)])
      = int (length A)"
  proof (subst first_at_skip)
    fix i assume "i \<in> set [0..<length A]"
    then have "i \<noteq> length A" by simp
    then show "\<not> (i < length (A @ c # B) \<and> (A @ c # B) ! i = c)" using distinct_mid [OF d, of i] by blast
  qed simp
  ultimately show ?thesis by simp
qed

lemma find_entry_mid:
  assumes d: "distinct (A @ c # B)"
  shows "find_entry (A @ c # B) c 0 (positions (f c) (map f (A @ c # B)))
     = Some (length (positions (f c) (map f A)))"
proof -
  have "i \<in> set (positions (f c) (map f A)) \<Longrightarrow> \<not> (i < length (A @ c # B) \<and> (A @ c # B) ! i = c)" for i
    using distinct_mid [OF d, of i] positions_less [of i "f c" "map f A"] by auto
  then show ?thesis unfolding positions_mid by (subst find_entry_skip) auto
qed

text \<open>The overlap index of a child: how many children of the same name precede it.\<close>

definition overlap_of :: "(nid \<Rightarrow> string) \<Rightarrow> nid list \<Rightarrow> nid \<Rightarrow> nat" where
  "overlap_of f ns c = length (filter (\<lambda>d. f d = f c) (takeWhile (\<lambda>d. d \<noteq> c) ns))"

lemma length_positions: "length (positions x xs) = length (filter (\<lambda>y. y = x) xs)"
  by (induction xs) (auto simp: positions_Cons)

lemma overlap_of_mid:
  "c \<notin> set A \<Longrightarrow> overlap_of f (A @ c # B) c = length (positions (f c) (map f A))"
proof -
  assume "c \<notin> set A"
  then have "takeWhile (\<lambda>d. d \<noteq> c) (A @ c # B) = A" by (subst takeWhile_append2) auto
  then show ?thesis
    by (simp add: overlap_of_def length_positions filter_map o_def)
qed

lemma locate_mid:
  fixes A c B f
  defines "ns \<equiv> A @ c # B"
  assumes d: "distinct ns"
  shows "\<exists>idx. locate \<lparr>indices = idx_of (map f ns), nodes = ns\<rparr> (f c) c
      = (int (length A),
         if f c \<noteq> [] \<and> 1 < length (positions (f c) (map f ns)) then int (overlap_of f ns c) else -1, idx)
     \<and> shift (length A) (-1) idx = idx_of (map f (A @ B))"
proof -
  let ?k = "length A" and ?nm = "f c"
  define idx where "idx = (if ?nm = [] then idx_of (map f ns)
      else if positions ?nm (map f A) @ map ((+) (Suc ?k)) (positions ?nm (map f B)) = []
      then (idx_of (map f ns))(?nm := None)
      else (idx_of (map f ns))(?nm \<mapsto> positions ?nm (map f A) @ map ((+) (Suc ?k)) (positions ?nm (map f B))))"
  have ov: "overlap_of f ns c = length (positions ?nm (map f A))"
    using d unfolding ns_def by (intro overlap_of_mid) auto
  have fe: "find_entry ns c 0 (positions ?nm (map f ns)) = Some (length (positions ?nm (map f A)))"
    using find_entry_mid d unfolding ns_def by blast
  have ra: "remove_at (length (positions ?nm (map f A))) (positions ?nm (map f ns))
      = positions ?nm (map f A) @ map ((+) (Suc ?k)) (positions ?nm (map f B))"
    unfolding ns_def positions_mid by (rule remove_at_split)
  have nk: "positions ?nm (map f ns) ! length (positions ?nm (map f A)) = ?k"
    unfolding ns_def positions_mid by (rule nth_append_length)
  have iv: "?nm \<noteq> [] \<Longrightarrow> idx_of (map f ns) ?nm = Some (positions ?nm (map f ns))"
    by (simp add: idx_of_def ns_def)
  have fa: "first_at ns c [0..<length ns] = int ?k" using d unfolding ns_def by (rule first_at_mid)
  have loc: "locate \<lparr>indices = idx_of (map f ns), nodes = ns\<rparr> ?nm c
      = (int ?k, if ?nm \<noteq> [] \<and> 1 < length (positions ?nm (map f ns)) then int (overlap_of f ns c) else -1, idx)"
  proof (cases "?nm = []")
    case True
    then show ?thesis by (simp add: locate_def fa idx_def)
  next
    case False
    then show ?thesis
      by (simp add: locate_def iv fe ra nk ov idx_def)
  qed
  have ix: "idx x = (if x = [] \<or> x \<notin> set (map f (A @ B)) then None
      else Some (positions x (map f A) @ map ((+) (Suc ?k)) (positions x (map f B))))" for x
  proof (cases "x = ?nm \<and> ?nm \<noteq> []")
    case True
    then show ?thesis
      using positions_empty [of ?nm "map f A"] positions_empty [of ?nm "map f B"]
      by (simp add: idx_def del: set_map)
  next
    case False
    then have "x \<noteq> [] \<Longrightarrow> positions x (map f ns) =
        positions x (map f A) @ map ((+) (Suc ?k)) (positions x (map f B))"
      by (auto simp: ns_def positions_append positions_Cons o_def)
    moreover have "x \<noteq> [] \<Longrightarrow> x \<in> set (map f ns) \<longleftrightarrow> x \<in> set (map f (A @ B))"
      using False by (auto simp: ns_def)
    ultimately show ?thesis using False by (auto simp: idx_def idx_of_def simp del: set_map map_append)
  qed
  have "shift ?k (-1) idx = idx_of (map f (A @ B))"
  proof
    fix x
    show "shift ?k (-1) idx x = idx_of (map f (A @ B)) x"
      using shift_positions_down [of "map f A" x "map f B"]
      by (simp add: shift_def ix idx_of_def del: set_append map_append) (simp del: map_append flip: map_append)
  qed
  then show ?thesis using loc by blast
qed

lemma locate_missing:
  assumes "c \<notin> set ns"
  shows "locate \<lparr>indices = idx_of (map f ns), nodes = ns\<rparr> nm c = (-1, -1, idx_of (map f ns))"
  using assms positions_empty [of nm "map f ns"]
  by (auto simp: locate_def first_at_none find_entry_none idx_of_def split: option.splits)

section \<open>The invariant\<close>

definition edges :: "forest \<Rightarrow> (nid \<times> nid) set" where
  "edges st = {(p, c). alive st c \<and> parent st c = Some p}"

definition children_ok :: "forest \<Rightarrow> nid \<Rightarrow> bool" where
  "children_ok st n \<longleftrightarrow>
     (case o_children (obj st n) of
        None \<Rightarrow> True | Some ch \<Rightarrow> indices ch = idx_of (map (name_of st) (nodes ch)))"

definition node_ok :: "forest \<Rightarrow> nid \<Rightarrow> bool" where
  "node_ok st n \<longleftrightarrow> children_ok st n \<and> distinct (kids st n)
     \<and> (\<forall>c \<in> set (kids st n). alive st c \<and> parent st c = Some n)
     \<and> (\<forall>p. parent st n = Some p \<longrightarrow> alive st p \<and> n \<in> set (kids st p))"

definition forest_ok :: "forest \<Rightarrow> bool" where
  "forest_ok st \<longleftrightarrow> (\<forall>n. alive st n \<longrightarrow> n < next_id st \<and> node_ok st n) \<and> acyclic (edges st)"

text \<open>What the structural operations leave alone.\<close>

definition same_data :: "forest \<Rightarrow> forest \<Rightarrow> bool" where
  "same_data st st' \<longleftrightarrow> next_id st' = next_id st \<and> (\<forall>n. alive st' n = alive st n)
     \<and> (\<forall>n. alive st n \<longrightarrow> name_of st' n = name_of st n \<and> node_value st' n = node_value st n
          \<and> o_shadow (obj st' n) = o_shadow (obj st n) \<and> o_flags (obj st' n) = o_flags (obj st n))"

lemma same_data_refl [simp]: "same_data st st"
  by (simp add: same_data_def)

lemma same_data_trans: "same_data a b \<Longrightarrow> same_data b c \<Longrightarrow> same_data a c"
  by (simp add: same_data_def)

lemma alive_upd [simp]: "alive (upd n f st) m = alive st m"
  by (simp add: alive_def upd_def)

lemma obj_upd: "alive st m \<Longrightarrow> obj (upd n f st) m = (if m = n then f (obj st m) else obj st m)"
  by (auto simp: alive_def obj_def upd_def)

lemma next_id_upd [simp]: "next_id (upd n f st) = next_id st" "events (upd n f st) = events st"
  by (simp_all add: upd_def)

lemma heap_eq_facts:
  assumes "heap st' = heap st"
  shows "obj st' = obj st" "alive st' = alive st" "name_of st' = name_of st" "parent st' = parent st"
    "kids st' = kids st" "node_value st' = node_value st" "edges st' = edges st" "isSilent st' = isSilent st"
    "isWatching st' = isWatching st" "children_ok st' = children_ok st" "node_ok st' = node_ok st"
proof -
  show o: "obj st' = obj st" using assms by (auto simp: obj_def fun_eq_iff)
  show a: "alive st' = alive st" using assms by (auto simp: alive_def fun_eq_iff)
  show n: "name_of st' = name_of st" by (simp add: name_of_def o fun_eq_iff)
  show p: "parent st' = parent st" by (simp add: parent_def o fun_eq_iff)
  show k: "kids st' = kids st" by (simp add: kids_def o fun_eq_iff)
  show "node_value st' = node_value st" by (simp add: node_value_def o fun_eq_iff)
  show "isSilent st' = isSilent st" by (simp add: isSilent_def o fun_eq_iff)
  show "isWatching st' = isWatching st" by (simp add: isWatching_def o fun_eq_iff)
  show "edges st' = edges st" by (simp add: edges_def a p)
  show c: "children_ok st' = children_ok st" unfolding children_ok_def [abs_def] o n ..
  show "node_ok st' = node_ok st" unfolding node_ok_def [abs_def] a p k c ..
qed

lemma forest_ok_heap:
  assumes "heap st' = heap st" "next_id st' = next_id st"
  shows "forest_ok st' = forest_ok st"
  using assms(2) by (simp add: forest_ok_def heap_eq_facts [OF assms(1)])

lemma same_data_heap:
  assumes "heap st' = heap st" "next_id st' = next_id st"
  shows "same_data st st'"
  using assms(2) by (simp add: same_data_def heap_eq_facts [OF assms(1)])

section \<open>Ancestors and termination of upward walks\<close>

definition anc :: "forest \<Rightarrow> nid \<Rightarrow> nid set" where
  "anc st n = {p. (p, n) \<in> (edges st)\<^sup>+}"

lemma parent_alive: "forest_ok st \<Longrightarrow> alive st n \<Longrightarrow> parent st n = Some p \<Longrightarrow> alive st p \<and> n \<in> set (kids st p)"
  unfolding forest_ok_def node_ok_def by blast

lemma kid_facts: "forest_ok st \<Longrightarrow> alive st p \<Longrightarrow> c \<in> set (kids st p) \<Longrightarrow> alive st c \<and> parent st c = Some p"
  unfolding forest_ok_def node_ok_def by blast

lemma edges_alive: "forest_ok st \<Longrightarrow> (p, c) \<in> edges st \<Longrightarrow> alive st p \<and> alive st c"
  unfolding edges_def using parent_alive by blast

lemma anc_alive: "forest_ok st \<Longrightarrow> p \<in> anc st n \<Longrightarrow> alive st p"
proof -
  assume ok: "forest_ok st" and "p \<in> anc st n"
  then obtain c where "(p, c) \<in> edges st" unfolding anc_def by (auto dest: tranclD)
  then show "alive st p" using edges_alive [OF ok] by blast
qed

lemma alive_less: "forest_ok st \<Longrightarrow> alive st n \<Longrightarrow> n < next_id st"
  by (simp add: forest_ok_def)

lemma anc_finite: "forest_ok st \<Longrightarrow> finite (anc st n)"
proof -
  assume ok: "forest_ok st"
  have "anc st n \<subseteq> {..<next_id st}" using anc_alive [OF ok] alive_less [OF ok] by blast
  then show ?thesis using finite_subset by blast
qed

lemma anc_irrefl: "forest_ok st \<Longrightarrow> n \<notin> anc st n"
  by (simp add: anc_def forest_ok_def acyclic_def)

lemma anc_step: "alive st n \<Longrightarrow> parent st n = Some p \<Longrightarrow> anc st n = insert p (anc st p)"
proof -
  assume "alive st n" "parent st n = Some p"
  then have e: "(q, n) \<in> edges st \<longleftrightarrow> q = p" for q by (auto simp: edges_def)
  have "(q, n) \<in> (edges st)\<^sup>+ \<longleftrightarrow> q = p \<or> (q, p) \<in> (edges st)\<^sup>+" for q
  proof
    assume "(q, n) \<in> (edges st)\<^sup>+"
    then obtain r where "(q, r) \<in> (edges st)\<^sup>*" "(r, n) \<in> edges st" by (blast dest: tranclD2)
    then show "q = p \<or> (q, p) \<in> (edges st)\<^sup>+" using e by (auto simp: rtrancl_eq_or_trancl)
  next
    assume "q = p \<or> (q, p) \<in> (edges st)\<^sup>+"
    then show "(q, n) \<in> (edges st)\<^sup>+"
      using e [of p] by (blast intro: r_into_trancl trancl_into_trancl)
  qed
  then show ?thesis by (auto simp: anc_def)
qed

lemma anc_root: "parent st n = None \<Longrightarrow> anc st n = {}"
proof -
  assume "parent st n = None"
  then have "(q, n) \<notin> edges st" for q by (simp add: edges_def)
  then show ?thesis unfolding anc_def by (blast dest: tranclD2)
qed

lemma card_anc_parent:
  assumes "forest_ok st" "alive st n" "parent st n = Some p"
  shows "card (anc st n) = Suc (card (anc st p))"
  using anc_step [OF assms(2,3)] anc_finite [OF assms(1)] anc_irrefl [OF assms(1), of p] by simp

lemma card_anc_less: "forest_ok st \<Longrightarrow> alive st n \<Longrightarrow> card (anc st n) < next_id st"
proof -
  assume ok: "forest_ok st" and a: "alive st n"
  have "insert n (anc st n) \<subseteq> {..<next_id st}"
    using a anc_alive [OF ok] alive_less [OF ok] by blast
  then have "card (insert n (anc st n)) \<le> next_id st" using card_mono [of "{..<next_id st}"] by force
  then show ?thesis using anc_finite [OF ok] anc_irrefl [OF ok] by simp
qed

lemma trigger_heap [simp]: "heap (trigger n e st) = heap st" "next_id (trigger n e st) = next_id st"
  by (simp_all add: trigger_def)

lemma activate_heap:
  "activate fuel sig src n st = Some st' \<Longrightarrow> heap st' = heap st \<and> next_id st' = next_id st"
proof (induction fuel arbitrary: n st)
  case (Suc fuel)
  show ?case
  proof (cases "isSilent st n")
    case False
    define st1 where "st1 = trigger n (Activated n sig src) st"
    have "heap st1 = heap st" "next_id st1 = next_id st" by (simp_all add: st1_def)
    then show ?thesis
      using Suc.prems Suc.IH [of _ st1] False
      by (auto simp: Let_def simp flip: st1_def split: option.splits if_splits)
  qed (use Suc.prems in simp)
qed simp

lemma activate_total:
  assumes "forest_ok st"
  shows "alive st n \<Longrightarrow> card (anc st n) < fuel \<Longrightarrow> heap st1 = heap st \<Longrightarrow>
    \<exists>st'. activate fuel sig src n st1 = Some st'"
proof (induction fuel arbitrary: n st1)
  case (Suc fuel)
  let ?st = "trigger n (Activated n sig src) st1"
  have h: "heap ?st = heap st" using Suc.prems(3) by simp
  have p: "parent ?st = parent st" using h by (rule heap_eq_facts)
  show ?case
  proof (cases "parent st n")
    case None
    then show ?thesis by (simp add: Let_def p)
  next
    case (Some q)
    have "card (anc st q) < fuel" "alive st q"
      using card_anc_parent [OF assms Suc.prems(1) Some] Suc.prems(2)
        parent_alive [OF assms Suc.prems(1) Some] by simp_all
    then show ?thesis
      using Suc.IH [OF _ _ h] Some by (simp add: Let_def p)
  qed
qed simp

lemma notify_total:
  assumes "forest_ok st" "alive st n"
  shows "\<exists>st'. notify n e sig st = Some st' \<and> heap st' = heap st \<and> next_id st' = next_id st"
proof -
  obtain st' where "activate (next_id st + 1) sig n n (trigger n e st) = Some st'"
    using activate_total [OF assms, of "next_id st + 1" "trigger n e st"] card_anc_less [OF assms] by auto
  then show ?thesis using activate_heap by (fastforce simp: notify_def Let_def)
qed

section \<open>Taking a child\<close>

text \<open>The key of a child, as a function of the child vector alone.\<close>

definition child_key :: "forest \<Rightarrow> nid list \<Rightarrow> nid \<Rightarrow> string" where
  "child_key st ns c =
     (let nm = name_of st c
      in if nm = [] then toKey [] (int (length (takeWhile (\<lambda>d. d \<noteq> c) ns))) VE_NODE_KEY_SEP
         else if length (filter (\<lambda>d. name_of st d = nm) ns) \<le> 1 then nm
         else toKey nm (int (overlap_of (name_of st) ns c)) VE_NODE_KEY_SEP)"

lemma kids_Some: "c \<in> set (kids st n) \<Longrightarrow> \<exists>ch. o_children (obj st n) = Some ch \<and> nodes ch = kids st n"
  by (cases "o_children (obj st n)") (auto simp: kids_def)

lemma children_record:
  "children_ok st n \<Longrightarrow> o_children (obj st n) = Some ch \<Longrightarrow>
   ch = \<lparr>indices = idx_of (map (name_of st) (kids st n)), nodes = kids st n\<rparr>"
  by (cases ch) (simp add: children_ok_def kids_def)

lemma toKey_named: "nm \<noteq> [] \<Longrightarrow> toKey nm (-1) sep = nm"
  by (simp add: toKey_def)

lemma length_takeWhile_mid: "c \<notin> set A \<Longrightarrow> length (takeWhile (\<lambda>d. d \<noteq> c) (A @ c # B)) = length A"
  by (subst takeWhile_append2) auto

lemma node_okD:
  assumes "forest_ok st" "alive st n"
  shows "children_ok st n" "distinct (kids st n)"
  using assms unfolding forest_ok_def node_ok_def by blast+

lemma children_ok_cong:
  assumes "o_children (obj st1 m) = o_children (obj st m)"
    "\<forall>d \<in> set (kids st m). name_of st1 d = name_of st d"
  shows "children_ok st1 m = children_ok st m"
proof (cases "o_children (obj st m)")
  case (Some ch)
  have "map (name_of st1) (nodes ch) = map (name_of st) (nodes ch)"
    using assms(2) Some by (simp add: kids_def)
  then show ?thesis using assms(1) Some by (simp add: children_ok_def del: map_eq_conv)
qed (use assms in \<open>simp add: children_ok_def\<close>)

text \<open>Moving a node out of its parent's vector keeps the invariant.\<close>

lemma forest_ok_detached:
  assumes ok: "forest_ok st" and n: "alive st n" and c: "c \<in> set (kids st n)"
    and ks: "kids st n = A @ c # B"
    and st1: "st1 = upd c (o_parent_update (\<lambda>_. None))
      (upd n (o_children_update (\<lambda>_. Some \<lparr>indices = idx_of (map (name_of st) (A @ B)), nodes = A @ B\<rparr>)) st)"
  shows "forest_ok st1" "same_data st st1" "kids st1 n = A @ B"
    "m \<noteq> n \<Longrightarrow> alive st m \<Longrightarrow> kids st1 m = kids st m"
    "parent st1 c = None" "m \<noteq> c \<Longrightarrow> alive st m \<Longrightarrow> parent st1 m = parent st m"
proof -
  have ca: "alive st c" "parent st c = Some n" using kid_facts [OF ok n c] by simp_all
  have nc: "n \<noteq> c" using anc_irrefl [OF ok, of c] anc_step [OF ca] by auto
  have al [simp]: "alive st1 m = alive st m" for m by (simp add: st1)
  have ob: "obj st1 m = (if m = c then o_parent_update (\<lambda>_. None) (obj st c)
      else if m = n then o_children_update (\<lambda>_. Some \<lparr>indices = idx_of (map (name_of st) (A @ B)),
        nodes = A @ B\<rparr>) (obj st n) else obj st m)" if "alive st m" for m
    using that nc ca by (auto simp: st1 obj_upd)
  have nm: "alive st m \<Longrightarrow> name_of st1 m = name_of st m" for m
    using nc by (auto simp: name_of_def ob)
  have d: "distinct (A @ c # B)" using node_okD(2) [OF ok n] ks by simp
  show k1: "kids st1 n = A @ B" using nc n by (simp add: kids_def ob)
  show k2: "m \<noteq> n \<Longrightarrow> alive st m \<Longrightarrow> kids st1 m = kids st m" for m by (simp add: kids_def ob)
  show p1: "parent st1 c = None" using ca by (simp add: parent_def ob)
  show p2: "m \<noteq> c \<Longrightarrow> alive st m \<Longrightarrow> parent st1 m = parent st m" for m by (simp add: parent_def ob)
  show sd: "same_data st st1"
    unfolding same_data_def
  proof (intro conjI allI impI)
    fix m assume m: "alive st m"
    show "name_of st1 m = name_of st m" using nm m .
    show "node_value st1 m = node_value st m" "o_shadow (obj st1 m) = o_shadow (obj st m)"
      "o_flags (obj st1 m) = o_flags (obj st m)"
      using m by (simp_all add: node_value_def ob)
  qed (simp_all add: st1)
  have names: "map (name_of st1) ns = map (name_of st) ns" if "\<forall>d \<in> set ns. alive st d" for ns
    using that nm by simp
  have kal: "\<forall>d \<in> set (kids st m). alive st d" if "alive st m" for m using kid_facts [OF ok that] by blast
  have "node_ok st1 m" if m: "alive st m" for m
    unfolding node_ok_def
  proof (intro conjI ballI allI impI)
    have nok: "node_ok st m" using ok m by (simp add: forest_ok_def)
    show "children_ok st1 m"
    proof (cases "m = n")
      case True
      have "\<forall>d \<in> set (A @ B). alive st d" using kal [OF n] ks by auto
      then have "map (name_of st1) (A @ B) = map (name_of st) (A @ B)" by (rule names)
      then show ?thesis using True nc n by (simp add: children_ok_def ob del: map_append map_eq_conv)
    next
      case False
      then have "o_children (obj st1 m) = o_children (obj st m)" using m by (simp add: ob)
      then show ?thesis
        using children_ok_cong [of st1 m st] nm kal [OF m] nok by (auto simp: node_ok_def)
    qed
    show "distinct (kids st1 m)"
      using nok d k1 k2 [of m] m by (cases "m = n") (auto simp: node_ok_def)
    show "alive st1 x" if "x \<in> set (kids st1 m)" for x
      using that kal [OF m] k1 k2 [of m] m ks by (cases "m = n") auto
    show "parent st1 x = Some m" if x: "x \<in> set (kids st1 m)" for x
    proof -
      have "x \<in> set (kids st m)" using x k1 k2 [of m] m ks by (cases "m = n") auto
      then have "alive st x" "parent st x = Some m" using kid_facts [OF ok m] by simp_all
      moreover have "x \<noteq> c"
        using x k1 k2 [of m] m d ca calculation by (cases "m = n") auto
      ultimately show ?thesis using p2 by simp
    qed
    show "alive st1 p" if "parent st1 m = Some p" for p
      using that p1 p2 [of m] m parent_alive [OF ok m, of p] by (cases "m = c") auto
    show "m \<in> set (kids st1 p)" if "parent st1 m = Some p" for p
    proof -
      have mc: "m \<noteq> c" "parent st m = Some p" using that p1 p2 [of m] m by (cases "m = c"; auto)+
      then have "alive st p" "m \<in> set (kids st p)" using parent_alive [OF ok m, of p] by simp_all
      then show ?thesis using k1 k2 [of p] ks mc(1) by (cases "p = n") auto
    qed
  qed
  moreover have "edges st1 \<subseteq> edges st"
  proof
    fix e assume e: "e \<in> edges st1"
    obtain p m where [simp]: "e = (p, m)" by force
    have "alive st m" "parent st1 m = Some p" using e by (simp_all add: edges_def)
    then show "e \<in> edges st" using p1 p2 [of m] by (cases "m = c") (auto simp: edges_def)
  qed
  then have "acyclic (edges st1)" using ok acyclic_subset by (auto simp: forest_ok_def)
  ultimately show "forest_ok st1" using ok by (auto simp: forest_ok_def st1)
qed

lemma remove1_mid: "c \<notin> set A \<Longrightarrow> remove1 c (A @ c # B) = A @ B"
  by (simp add: remove1_append)

lemma take_child_spec:
  assumes ok: "forest_ok st" and n: "alive st n" and c: "c \<in> set (kids st n)"
  shows "\<exists>st'. take_child n (Some c) st = Some (Some c, st') \<and> forest_ok st' \<and> same_data st st'
    \<and> kids st' n = remove1 c (kids st n) \<and> parent st' c = None
    \<and> (\<forall>m. m \<noteq> n \<longrightarrow> alive st m \<longrightarrow> kids st' m = kids st m)
    \<and> (\<forall>m. m \<noteq> c \<longrightarrow> alive st m \<longrightarrow> parent st' m = parent st m)
    \<and> (\<exists>st1. heap st1 = heap st' \<and> events st1 = events st
         \<and> notify n (Removed n (child_key st (kids st n) c) 0) NODE_REMOVED st1 = Some st')"
proof -
  obtain A B where ks: "kids st n = A @ c # B" using c by (meson split_list)
  have d: "distinct (A @ c # B)" and co: "children_ok st n"
    using node_okD [OF ok n] ks by simp_all
  obtain ch where ch: "o_children (obj st n) = Some ch" using kids_Some [OF c] by blast
  have chr: "ch = \<lparr>indices = idx_of (map (name_of st) (kids st n)), nodes = kids st n\<rparr>"
    using children_record [OF co ch] .
  have "\<exists>idx. locate ch (name_of st c) c = (int (length A),
         if name_of st c \<noteq> [] \<and> 1 < length (positions (name_of st c) (map (name_of st) (kids st n)))
         then int (overlap_of (name_of st) (kids st n) c) else -1, idx)
      \<and> shift (length A) (-1) idx = idx_of (map (name_of st) (A @ B))"
    using locate_mid [OF d, of "name_of st"] unfolding chr ks .
  then obtain idx where loc: "locate ch (name_of st c) c = (int (length A),
         if name_of st c \<noteq> [] \<and> 1 < length (positions (name_of st c) (map (name_of st) (kids st n)))
         then int (overlap_of (name_of st) (kids st n) c) else -1, idx)"
    "shift (length A) (-1) idx = idx_of (map (name_of st) (A @ B))"
    by (elim exE conjE)
  define st1 where "st1 = upd c (o_parent_update (\<lambda>_. None))
      (upd n (o_children_update (\<lambda>_. Some \<lparr>indices = idx_of (map (name_of st) (A @ B)), nodes = A @ B\<rparr>)) st)"
  note f = forest_ok_detached [OF ok n c ks st1_def]
  define key where "key = child_key st (kids st n) c"
  have ca: "c \<notin> set A" using d by simp
  have keq: "(if name_of st c = [] then toKey [] (int (length A)) VE_NODE_KEY_SEP
      else toKey (name_of st c) (if name_of st c \<noteq> [] \<and> 1 < length (positions (name_of st c) (map (name_of st) (kids st n)))
         then int (overlap_of (name_of st) (kids st n) c) else -1) VE_NODE_KEY_SEP) = key"
    using length_takeWhile_mid [OF ca, of B]
    by (auto simp: key_def child_key_def Let_def length_positions filter_map o_def toKey_named ks)
  have al: "alive st1 n" using n by (simp add: st1_def)
  obtain st' where st': "notify n (Removed n key 0) NODE_REMOVED st1 = Some st'" "heap st' = heap st1"
    "next_id st' = next_id st1"
    using notify_total [OF f(1) al] by blast
  have "nodes ch = A @ c # B" by (simp add: chr ks)
  moreover define im where "im = idx_of (map (name_of st) (A @ B))"
  moreover define oi where "oi = (if name_of st c \<noteq> [] \<and>
      1 < length (positions (name_of st c) (map (name_of st) (kids st n)))
         then int (overlap_of (name_of st) (kids st n) c) else -1)"
  ultimately have "take_child n (Some c) st = Some (Some c, st')"
    unfolding take_child_def using ch loc st'(1) keq
    unfolding st1_def im_def [symmetric] oi_def [symmetric]
    by (auto simp: Let_def remove_at_split)
  moreover have "forest_ok st'" using forest_ok_heap [OF st'(2,3)] f(1) by simp
  moreover have "same_data st st'" using same_data_trans [OF f(2) same_data_heap [OF st'(2,3)]] .
  moreover note h = heap_eq_facts [OF st'(2)]
  ultimately show ?thesis
    using f(3-6) remove1_mid [OF ca, of B] st' unfolding ks key_def
    by (intro exI [of _ st']) (auto simp: h st1_def intro!: exI [of _ st1])
qed

section \<open>Inserting children\<close>

lemma acyclic_star:
  assumes "acyclic E" "\<And>c. c \<in> set cs \<Longrightarrow> (c, n) \<notin> E\<^sup>*"
  shows "acyclic (E \<union> {n} \<times> set cs) \<and> (\<forall>c. (c, n) \<notin> E\<^sup>* \<longrightarrow> (c, n) \<notin> (E \<union> {n} \<times> set cs)\<^sup>*)"
  using assms(2)
proof (induction cs)
  case Nil
  then show ?case using assms(1) by simp
next
  case (Cons x cs)
  let ?F = "E \<union> {n} \<times> set cs"
  have F: "E \<union> {n} \<times> set (x # cs) = insert (n, x) ?F" by auto
  have ih: "acyclic ?F" "\<forall>c. (c, n) \<notin> E\<^sup>* \<longrightarrow> (c, n) \<notin> ?F\<^sup>*" using Cons by auto
  moreover have "(x, n) \<notin> ?F\<^sup>*" using ih(2) Cons.prems [of x] by simp
  ultimately show ?case unfolding F by (auto simp: rtrancl_insert)
qed

lemma set_parents_facts:
  "alive (set_parents n cs st) m = alive st m" "next_id (set_parents n cs st) = next_id st"
  "events (set_parents n cs st) = events st"
  "alive st m \<Longrightarrow> obj (set_parents n cs st) m =
     (if m \<in> set cs then o_parent_update (\<lambda>_. Some n) (obj st m) else obj st m)"
proof (induction cs arbitrary: st)
  case (Cons c cs)
  { case 1 show ?case using Cons.IH(1) by simp }
  { case 2 show ?case using Cons.IH(2) by simp }
  { case 3 show ?case using Cons.IH(3) by simp }
  { case 4 then show ?case using Cons.IH(4) [of "upd c (o_parent_update (\<lambda>_. Some n)) st"]
      by (auto simp: obj_upd) }
qed simp_all

lemma forest_ok_attached:
  assumes ok: "forest_ok st" and n: "alive st n" and ks: "kids st n = A @ B"
    and cs: "distinct cs" "\<And>c. c \<in> set cs \<Longrightarrow> alive st c \<and> parent st c = None \<and> c \<noteq> n \<and> c \<notin> anc st n"
    and st1: "st1 = set_parents n cs
      (upd n (o_children_update (\<lambda>_. Some \<lparr>indices = idx_of (map (name_of st) (A @ cs @ B)), nodes = A @ cs @ B\<rparr>)) st)"
  shows "forest_ok st1" "same_data st st1" "kids st1 n = A @ cs @ B"
    "m \<noteq> n \<Longrightarrow> alive st m \<Longrightarrow> kids st1 m = kids st m"
    "m \<in> set cs \<Longrightarrow> parent st1 m = Some n" "m \<notin> set cs \<Longrightarrow> alive st m \<Longrightarrow> parent st1 m = parent st m"
    "events st1 = events st"
proof -
  have ncs: "n \<notin> set cs" using cs(2) by blast
  have al [simp]: "alive st1 m = alive st m" for m by (simp add: st1 set_parents_facts)
  have ob: "obj st1 m = (if m \<in> set cs then o_parent_update (\<lambda>_. Some n) (obj st m)
      else if m = n then o_children_update (\<lambda>_. Some \<lparr>indices = idx_of (map (name_of st) (A @ cs @ B)),
        nodes = A @ cs @ B\<rparr>) (obj st n) else obj st m)" if "alive st m" for m
    using that ncs n by (auto simp: st1 set_parents_facts obj_upd)
  have nm: "alive st m \<Longrightarrow> name_of st1 m = name_of st m" for m
    by (simp add: name_of_def ob)
  show ev: "events st1 = events st" by (simp add: st1 set_parents_facts)
  have nid: "next_id st1 = next_id st" by (simp add: st1 set_parents_facts)
  show k1: "kids st1 n = A @ cs @ B" using ncs n by (simp add: kids_def ob)
  show k2: "m \<noteq> n \<Longrightarrow> alive st m \<Longrightarrow> kids st1 m = kids st m" for m by (simp add: kids_def ob)
  show p1: "m \<in> set cs \<Longrightarrow> parent st1 m = Some n" for m using cs(2) by (simp add: parent_def ob)
  show p2: "m \<notin> set cs \<Longrightarrow> alive st m \<Longrightarrow> parent st1 m = parent st m" for m by (simp add: parent_def ob)
  show "same_data st st1"
    unfolding same_data_def
  proof (intro conjI allI impI)
    fix m assume m: "alive st m"
    show "name_of st1 m = name_of st m" using nm m .
    show "node_value st1 m = node_value st m" "o_shadow (obj st1 m) = o_shadow (obj st m)"
      "o_flags (obj st1 m) = o_flags (obj st m)"
      using m by (simp_all add: node_value_def ob)
  qed (simp_all add: nid)
  have kal: "\<forall>d \<in> set (kids st m). alive st d" if "alive st m" for m using kid_facts [OF ok that] by blast
  have kcs: "x \<notin> set cs" if "alive st m" "x \<in> set (kids st m)" for x m
    using kid_facts [OF ok that] cs(2) [of x] by auto
  have allal: "\<forall>d \<in> set (A @ cs @ B). alive st d" using kal [OF n] ks cs(2) by auto
  have "node_ok st1 m" if m: "alive st m" for m
    unfolding node_ok_def
  proof (intro conjI ballI allI impI)
    show "children_ok st1 m"
    proof (cases "m = n")
      case True
      have "map (name_of st1) (A @ cs @ B) = map (name_of st) (A @ cs @ B)"
        using allal nm by (intro map_cong) auto
      then show ?thesis using True n ncs
        by (simp add: children_ok_def ob del: map_append map_eq_conv)
    next
      case False
      then have "o_children (obj st1 m) = o_children (obj st m)" using m by (simp add: ob)
      then show ?thesis
        using children_ok_cong [of st1 m st] nm kal [OF m] node_okD [OF ok m] by auto
    qed
    show "distinct (kids st1 m)"
    proof (cases "m = n")
      case True
      then show ?thesis using node_okD(2) [OF ok n] cs(1) ks kcs [OF n] k1 by fastforce
    qed (use node_okD(2) [OF ok m] k2 m in simp)
    show "alive st1 x" if "x \<in> set (kids st1 m)" for x
      using that kal [OF m] k1 k2 [of m] m allal by (cases "m = n") auto
    show "parent st1 x = Some m" if x: "x \<in> set (kids st1 m)" for x
    proof (cases "m = n \<and> x \<in> set cs")
      case True
      then show ?thesis using p1 by simp
    next
      case False
      then have "x \<in> set (kids st m)" using x k1 k2 [of m] m ks by (cases "m = n") auto
      then show ?thesis using kid_facts [OF ok m] kcs [OF m] p2 by simp
    qed
    show "alive st1 p" if "parent st1 m = Some p" for p
      using that p1 p2 [of m] m parent_alive [OF ok m, of p] n by (cases "m \<in> set cs") auto
    show "m \<in> set (kids st1 p)" if mp: "parent st1 m = Some p" for p
    proof (cases "m \<in> set cs")
      case True
      then show ?thesis using mp p1 k1 by simp
    next
      case False
      then have "alive st p" "m \<in> set (kids st p)" using mp p2 m parent_alive [OF ok m, of p] by simp_all
      then show ?thesis using k1 k2 [of p] ks by (cases "p = n") auto
    qed
  qed
  moreover have "edges st1 = edges st \<union> {n} \<times> set cs"
  proof -
    have "(p, m) \<in> edges st1 \<longleftrightarrow> (p, m) \<in> edges st \<union> {n} \<times> set cs" for p m
      using p1 [of m] p2 [of m] cs(2) [of m] by (cases "m \<in> set cs") (auto simp: edges_def)
    then show ?thesis by auto
  qed
  moreover have "acyclic (edges st \<union> {n} \<times> set cs)"
  proof -
    have "(c, n) \<notin> (edges st)\<^sup>*" if "c \<in> set cs" for c
      using cs(2) [OF that] by (auto simp: rtrancl_eq_or_trancl anc_def)
    moreover have "acyclic (edges st)" using ok by (simp add: forest_ok_def)
    ultimately show ?thesis by (intro conjunct1 [OF acyclic_star])
  qed
  moreover have "alive st m \<Longrightarrow> m < next_id st1" for m using alive_less [OF ok] nid by simp
  ultimately show "forest_ok st1" unfolding forest_ok_def al by simp
qed

lemma ensureChildren_eq:
  assumes "children_ok st n"
  shows "ensureChildren (obj st n) = \<lparr>indices = idx_of (map (name_of st) (kids st n)), nodes = kids st n\<rparr>"
proof (cases "o_children (obj st n)")
  case None
  then show ?thesis by (simp add: ensureChildren_def kids_def idx_of_def fun_eq_iff)
next
  case (Some ch)
  then show ?thesis using children_record [OF assms Some] by (simp add: ensureChildren_def)
qed

text \<open>Only allocating the children vector changes nothing visible.\<close>

lemma forest_ok_ensured:
  assumes ok: "forest_ok st" and n: "alive st n"
    and st1: "st1 = upd n (o_children_update (\<lambda>_. Some (ensureChildren (obj st n)))) st"
  shows "forest_ok st1" "same_data st st1" "alive st m \<Longrightarrow> kids st1 m = kids st m"
    "alive st m \<Longrightarrow> parent st1 m = parent st m" "events st1 = events st"
proof -
  have "st1 = set_parents n [] (upd n (o_children_update (\<lambda>_. Some
      \<lparr>indices = idx_of (map (name_of st) (kids st n @ [] @ [])), nodes = kids st n @ [] @ []\<rparr>)) st)"
    using ensureChildren_eq [OF node_okD(1) [OF ok n]] by (simp add: st1)
  note a = forest_ok_attached [OF ok n _ _ _ this]
  show "forest_ok st1" "same_data st st1" "events st1 = events st" using a by simp_all
  show "alive st m \<Longrightarrow> kids st1 m = kids st m" "alive st m \<Longrightarrow> parent st1 m = parent st m"
    using a(3) a(4) [of m] a(6) [of m] by (cases "m = n"; simp)+
qed

definition resolve :: "int \<Rightarrow> nat \<Rightarrow> int" where
  "resolve index sz = (if index < 0 then index + int sz + 1 else index)"

lemma place_child_spec:
  assumes ok: "forest_ok st" and n: "alive st n"
    and c: "alive st c" "parent st c = None" "c \<noteq> n" "c \<notin> anc st n"
    and i: "0 \<le> resolve index (length (kids st n))" "resolve index (length (kids st n)) \<le> int (length (kids st n))"
    and k: "k = nat (resolve index (length (kids st n)))"
  shows "\<exists>st1. place_child n c index st = (Some (child_key st1 (kids st1 n) c), st1)
    \<and> forest_ok st1 \<and> same_data st st1 \<and> kids st1 n = insert_at k c (kids st n)
    \<and> (\<forall>m. m \<noteq> n \<longrightarrow> alive st m \<longrightarrow> kids st1 m = kids st m) \<and> parent st1 c = Some n
    \<and> (\<forall>m. m \<noteq> c \<longrightarrow> alive st m \<longrightarrow> parent st1 m = parent st m) \<and> events st1 = events st"
proof -
  let ?ks = "kids st n" and ?nm = "name_of st c"
  define A B where "A = take k ?ks" and "B = drop k ?ks"
  have kl: "k \<le> length ?ks" using i k by simp
  have ks: "?ks = A @ B" and lA: "length A = k" using kl by (simp_all add: A_def B_def)
  have cA: "c \<notin> set A" "c \<notin> set B" using kid_facts [OF ok n, of c] c(2) ks by auto
  define ns where "ns = map (name_of st) (A @ [c] @ B)"
  define ch where "ch = \<lparr>indices = idx_of (map (name_of st) (A @ [c] @ B)), nodes = A @ [c] @ B\<rparr>"
  define st1 where "st1 = set_parents n [c] (upd n (o_children_update (\<lambda>_. Some ch)) st)"
  note f = forest_ok_attached [OF ok n ks, of "[c]" st1, OF _ _ st1_def [unfolded ch_def]]
  have nms: "name_of st1 d = name_of st d" if "alive st d" for d
    using f(2) c that by (auto simp: same_data_def)
  have kal: "\<forall>d \<in> set (A @ [c] @ B). alive st d" using kid_facts [OF ok n] ks c(1) by auto
  have pos: "positions ?nm (map (name_of st) (A @ c # B)) = positions ?nm (map (name_of st) A) @
      length A # map ((+) (Suc (length A))) (positions ?nm (map (name_of st) B))"
    by (rule positions_mid)
  have filt: "filter (\<lambda>d. name_of st1 d = name_of st1 c) (A @ c # B)
      = filter (\<lambda>d. name_of st d = ?nm) (A @ c # B)"
    using kal nms by (intro filter_cong) auto
  have ov: "overlap_of (name_of st1) (A @ c # B) c = length (positions ?nm (map (name_of st) A))"
  proof -
    have "overlap_of (name_of st1) (A @ c # B) c = length (filter (\<lambda>d. name_of st1 d = name_of st1 c) A)"
    proof -
      have "takeWhile (\<lambda>d. d \<noteq> c) (A @ c # B) = A" using cA(1) by (subst takeWhile_append2) auto
      then show ?thesis by (simp add: overlap_of_def)
    qed
    also have "filter (\<lambda>d. name_of st1 d = name_of st1 c) A = filter (\<lambda>d. name_of st d = ?nm) A"
      using kal nms by (intro filter_cong) auto
    finally show ?thesis by (simp add: length_positions filter_map o_def)
  qed
  have key: "child_key st1 (A @ c # B) c = (if ?nm = [] then toKey [] (int k) VE_NODE_KEY_SEP
      else if length (positions ?nm (map (name_of st) (A @ c # B))) \<le> 1 then ?nm
      else toKey ?nm (int (length (positions ?nm (map (name_of st) A)))) VE_NODE_KEY_SEP)"
    using length_takeWhile_mid [OF cA(1), of B] nms [OF c(1)] filt
    by (simp add: child_key_def Let_def ov lA length_positions filter_map o_def)
  have ens: "ensureChildren (obj st n) = \<lparr>indices = idx_of (map (name_of st) (A @ B)), nodes = A @ B\<rparr>"
    using ensureChildren_eq [OF node_okD(1) [OF ok n]] ks by simp
  let ?r = "resolve index (length (A @ B))"
  have r: "?r = int k" "(if index < 0 then index + int (length (A @ B)) + 1 else index) = int k"
    using i(1) k ks by (simp_all add: resolve_def)
  have st1': "st1 = upd c (o_parent_update (\<lambda>_. Some n)) (upd n (o_children_update (\<lambda>_. Some ch)) st)"
    by (simp add: st1_def)
  have place: "place_child n c index st = (Some (child_key st1 (A @ c # B) c), st1)"
  proof (cases "B = []")
    case True
    have idx: "(if ?nm = [] then idx_of (map (name_of st) A)
        else (idx_of (map (name_of st) A))(?nm \<mapsto> index_list (idx_of (map (name_of st) A)) ?nm @ [length A]))
        = idx_of (map (name_of st) (A @ [c]))"
      using append_idx [of ?nm "map (name_of st) A"] unfolding length_map by simp
    have il: "?nm \<noteq> [] \<Longrightarrow> index_list (idx_of (map (name_of st) A)) ?nm = positions ?nm (map (name_of st) A)"
      by (rule index_list_idx_of)
    show ?thesis unfolding key
      unfolding place_child_def Let_def ens r children.simps st1' ch_def
      using lA True pos idx il by (cases "?nm = []") (simp_all add: toKey_named)
  next
    case False
    then have kn: "k \<noteq> length (A @ B)" "k < length (A @ B)" using lA by simp_all
    define sh where "sh = shift k 1 (idx_of (map (name_of st) (A @ B)))"
    have idx: "(if ?nm = [] then sh
        else sh(?nm \<mapsto> insert_at (lower_bound (index_list sh ?nm) k) k (index_list sh ?nm)))
        = idx_of (map (name_of st) (A @ [c] @ B))"
      using insert_idx [of ?nm "map (name_of st) A" "map (name_of st) B"]
      unfolding length_map lA sh_def by (simp only: map_append append.simps list.map)
    have il: "index_list sh ?nm = positions ?nm (map (name_of st) A)
        @ map ((+) (Suc k)) (positions ?nm (map (name_of st) B))" if "?nm \<noteq> []"
      using that shift_idx_of [of "map (name_of st) A" 1 "map (name_of st) B" ?nm] lA
        positions_empty [of ?nm "map (name_of st) A"] positions_empty [of ?nm "map (name_of st) B"]
      by (simp add: index_list_def sh_def del: set_map)
    have lb: "lower_bound (index_list sh ?nm) k = length (positions ?nm (map (name_of st) A))" if "?nm \<noteq> []"
      unfolding il [OF that] by (rule lower_bound_split) (auto dest: positions_less simp: lA)
    have len: "length (insert_at (length (positions ?nm (map (name_of st) A))) k (index_list sh ?nm))
        = length (positions ?nm (map (name_of st) (A @ c # B)))" if "?nm \<noteq> []"
      unfolding il [OF that] insert_at_split pos by simp
    have ia: "insert_at k c (A @ B) = A @ [c] @ B" using insert_at_split [of A c B] lA by simp
    show ?thesis
    proof (cases "?nm = []")
      case True
      then show ?thesis unfolding key
        unfolding place_child_def Let_def ens r children.simps st1' ch_def nat_int sh_def [symmetric]
        using kn idx ia by (simp del: map_append append.simps)
    next
      case ne: False
      have idx': "sh(?nm \<mapsto> insert_at (length (positions ?nm (map (name_of st) A))) k (index_list sh ?nm))
          = idx_of (map (name_of st) (A @ [c] @ B))"
        using idx ne lb by simp
      have "place_child n c index st = (Some (toKey ?nm
          (if length (positions ?nm (map (name_of st) (A @ c # B))) \<le> 1 then -1
           else int (length (positions ?nm (map (name_of st) A)))) VE_NODE_KEY_SEP), st1)"
        unfolding place_child_def Let_def ens r children.simps st1' ch_def nat_int sh_def [symmetric]
        using kn ia ne by (simp add: lb len idx' del: map_append append.simps)
      then show ?thesis unfolding key using ne toKey_named by simp
    qed
  qed
  have "insert_at k c (kids st n) = A @ c # B" using insert_at_split [of A c B] lA ks by simp
  moreover have "kids st1 n = A @ c # B" using f(3) c by simp
  ultimately show ?thesis using place f c by auto
qed

section \<open>insert, with the detaching it does first\<close>

lemma is_ancestor_eq:
  assumes ok: "forest_ok st"
  shows "(\<And>q. p = Some q \<Longrightarrow> alive st q \<and> card (anc st q) < fuel) \<Longrightarrow>
    is_ancestor_loop fuel st this p = Some (case p of None \<Rightarrow> False | Some q \<Rightarrow> this = q \<or> this \<in> anc st q)"
proof (induction fuel arbitrary: p)
  case 0
  then show ?case by (cases p) auto
next
  case (Suc fuel)
  show ?case
  proof (cases p)
    case (Some q)
    have q: "alive st q" "card (anc st q) < Suc fuel" using Suc.prems Some by auto
    show ?thesis
    proof (cases "parent st q")
      case None
      then show ?thesis using Some anc_root [OF None] by (cases fuel) auto
    next
      case (Some r)
      have "alive st r" "card (anc st r) < fuel"
        using parent_alive [OF ok q(1) Some] card_anc_parent [OF ok q(1) Some] q(2) by simp_all
      then show ?thesis
        using Suc.IH [of "Some r"] \<open>p = Some q\<close> Some anc_step [OF q(1) Some] by auto
    qed
  qed simp
qed

lemma isAncestorOf_eq:
  assumes ok: "forest_ok st" and n: "alive st n"
  shows "isAncestorOf st this (Some n) = Some (this \<in> anc st n)"
proof (cases "parent st n")
  case None
  then show ?thesis using anc_root [OF None] by (simp add: isAncestorOf_def)
next
  case (Some p)
  have "alive st p" "card (anc st p) < next_id st + 1"
    using parent_alive [OF ok n Some] card_anc_less [OF ok, of p] by auto
  then have "is_ancestor_loop (next_id st + 1) st this (Some p) = Some (this = p \<or> this \<in> anc st p)"
    using is_ancestor_eq [OF ok, of "Some p" "next_id st + 1" this] by simp
  then show ?thesis using Some anc_step [OF n Some] by (simp add: isAncestorOf_def)
qed

lemma not_kid_remove1: "c \<notin> set xs \<Longrightarrow> remove1 c xs = xs"
  by (rule remove1_idem)

lemma detach_spec:
  assumes ok: "forest_ok st" and c: "alive st c"
  shows "\<exists>st'. detach c st = Some st' \<and> forest_ok st' \<and> same_data st st' \<and> parent st' c = None
    \<and> (\<forall>m. alive st m \<longrightarrow> kids st' m = remove1 c (kids st m))
    \<and> (\<forall>m. m \<noteq> c \<longrightarrow> alive st m \<longrightarrow> parent st' m = parent st m)
    \<and> (parent st c = None \<longrightarrow> st' = st)"
proof (cases "parent st c")
  case None
  then have "c \<notin> set (kids st m)" if "alive st m" for m using kid_facts [OF ok that, of c] by auto
  then show ?thesis using None ok by (simp add: detach_def not_kid_remove1)
next
  case (Some q)
  note q = parent_alive [OF ok c Some]
  obtain st' where st': "take_child q (Some c) st = Some (Some c, st')" "forest_ok st'" "same_data st st'"
    "kids st' q = remove1 c (kids st q)" "parent st' c = None"
    "\<And>m. m \<noteq> q \<Longrightarrow> alive st m \<Longrightarrow> kids st' m = kids st m"
    "\<And>m. m \<noteq> c \<Longrightarrow> alive st m \<Longrightarrow> parent st' m = parent st m"
    using take_child_spec [OF ok conjunct1 [OF q] conjunct2 [OF q]] by metis
  have "kids st' m = remove1 c (kids st m)" if m: "alive st m" for m
  proof (cases "m = q")
    case False
    then have "c \<notin> set (kids st m)" using kid_facts [OF ok m, of c] Some by auto
    then show ?thesis using st'(6) [OF False m] by (simp add: not_kid_remove1)
  qed (use st' in simp)
  then show ?thesis using st' Some by (auto simp: detach_def)
qed

lemma anc_subset:
  assumes "edges st' \<subseteq> edges st"
  shows "anc st' n \<subseteq> anc st n"
  using trancl_mono [OF _ assms] by (auto simp: anc_def)

lemma edges_detached:
  assumes "\<And>m. alive st' m = alive st m" "parent st' c = None"
    "\<And>m. m \<noteq> c \<Longrightarrow> alive st m \<Longrightarrow> parent st' m = parent st m"
  shows "edges st' \<subseteq> edges st"
proof
  fix e assume e: "e \<in> edges st'"
  obtain p m where [simp]: "e = (p, m)" by force
  have "alive st m" "parent st' m = Some p" using e assms(1) by (simp_all add: edges_def)
  then show "e \<in> edges st" using assms(2) assms(3) [of m] by (cases "m = c") (auto simp: edges_def)
qed

lemma insert_child_spec:
  assumes ok: "forest_ok st" and n: "alive st n" and c: "alive st c" "c \<noteq> n" "c \<notin> anc st n"
    and ks: "ks = remove1 c (kids st n)" and r: "r = resolve index (length ks)"
  shows "\<exists>st'. insert_child n (Some c) index st = Some (0 \<le> r \<and> r \<le> int (length ks), st')
    \<and> forest_ok st' \<and> same_data st st'
    \<and> (if 0 \<le> r \<and> r \<le> int (length ks)
       then kids st' n = insert_at (nat r) c ks \<and> parent st' c = Some n
       else kids st' n = ks \<and> parent st' c = None)
    \<and> (\<forall>m. m \<noteq> n \<longrightarrow> alive st m \<longrightarrow> kids st' m = remove1 c (kids st m))
    \<and> (\<forall>m. m \<noteq> c \<longrightarrow> alive st m \<longrightarrow> parent st' m = parent st m)"
proof -
  obtain st0 where st0: "detach c st = Some st0" "forest_ok st0" "same_data st st0" "parent st0 c = None"
    "\<And>m. alive st m \<Longrightarrow> kids st0 m = remove1 c (kids st m)"
    "\<And>m. m \<noteq> c \<Longrightarrow> alive st m \<Longrightarrow> parent st0 m = parent st m"
    using detach_spec [OF ok c(1)] by metis
  have al: "\<And>m. alive st0 m = alive st m" using st0(3) by (simp add: same_data_def)
  have n0: "alive st0 n" "alive st0 c" using n c al by simp_all
  have k0: "kids st0 n = ks" using st0(5) [OF n] ks by simp
  show ?thesis
  proof (cases "0 \<le> r \<and> r \<le> int (length ks)")
    case True
    have "c \<notin> anc st0 n" using anc_subset [OF edges_detached [OF al st0(4,6)]] c(3) by blast
    then obtain st1 where st1: "place_child n c index st0 = (Some (child_key st1 (kids st1 n) c), st1)"
      "forest_ok st1" "same_data st0 st1" "kids st1 n = insert_at (nat r) c ks"
      "\<And>m. m \<noteq> n \<Longrightarrow> alive st0 m \<Longrightarrow> kids st1 m = kids st0 m" "parent st1 c = Some n"
      "\<And>m. m \<noteq> c \<Longrightarrow> alive st0 m \<Longrightarrow> parent st1 m = parent st0 m"
      using place_child_spec [OF st0(2) n0 st0(4) c(2), of index "nat r"] True r unfolding k0 by metis
    have "alive st1 n" using st1(3) n0 by (simp add: same_data_def)
    then obtain st' where st': "notify n (Added n (child_key st1 (kids st1 n) c) 0) NODE_ADDED st1 = Some st'"
      "heap st' = heap st1" "next_id st' = next_id st1"
      using notify_total [OF st1(2)] by blast
    note h = heap_eq_facts [OF st'(2)]
    have "insert_child n (Some c) index st = Some (True, st')"
      using st0(1) st1(1) st'(1) by (simp add: insert_child_def)
    moreover have "forest_ok st'" using forest_ok_heap [OF st'(2,3)] st1(2) by simp
    moreover have "same_data st st'"
      using same_data_trans [OF same_data_trans [OF st0(3) st1(3)] same_data_heap [OF st'(2,3)]] .
    ultimately show ?thesis
      using True st1(4-7) st0(5,6) al by (intro exI [of _ st']) (simp add: h)
  next
    case False
    define st1 where "st1 = upd n (o_children_update (\<lambda>_. Some (ensureChildren (obj st0 n)))) st0"
    note e = forest_ok_ensured [OF st0(2) n0(1) st1_def]
    have len: "length (nodes (ensureChildren (obj st0 n))) = length ks"
      using ensureChildren_eq [OF node_okD(1) [OF st0(2) n0(1)]] k0 by simp
    have "place_child n c index st0 = (None, st1)"
      using False unfolding place_child_def Let_def len st1_def [symmetric]
      by (auto simp: r resolve_def)
    then have "insert_child n (Some c) index st = Some (False, st1)"
      using st0(1) by (simp add: insert_child_def)
    moreover have "same_data st st1" using same_data_trans [OF st0(3) e(2)] .
    ultimately show ?thesis
      using False e st0(4-6) al n n0 k0 c by (intro exI [of _ st1]) auto
  qed
qed

end
