(* ===== verification/Node_Paths.thy ===== *)
theory Node_Paths
  imports Node_Inv
begin

text \<open>
  Lookup in the data tree: children by index and by name, the key of a child and its inverse,
  and the path of a node, which leads back to the node.
\<close>

section \<open>Children by position and by name\<close>

definition named_kids :: "forest \<Rightarrow> nid \<Rightarrow> string \<Rightarrow> nid list" where
  "named_kids st n nm = filter (\<lambda>d. name_of st d = nm) (kids st n)"

lemma positions_filter: "map ((!) ns) (positions x (map f ns)) = filter (\<lambda>d. f d = x) ns"
proof (induction ns)
  case (Cons a ns)
  have "map ((!) (a # ns)) (map Suc (positions x (map f ns))) = map ((!) ns) (positions x (map f ns))"
    by simp
  then show ?case using Cons by (simp add: positions_Cons del: map_map)
qed simp

lemma child_index_spec:
  "child_index st n i =
     (let i = (if i < 0 then i + int (length (kids st n)) else i)
      in if 0 \<le> i \<and> i < int (length (kids st n)) then Some (kids st n ! nat i) else None)"
  by (cases "o_children (obj st n)") (auto simp: child_index_def kids_def Let_def)

lemma child_named_spec:
  assumes "forest_ok st" "alive st n" "nm \<noteq> []"
  shows "child_named st n nm ov =
     (if 0 \<le> ov \<and> ov < int (length (named_kids st n nm)) then Some (named_kids st n nm ! nat ov) else None)"
proof (cases "o_children (obj st n)")
  case None
  then show ?thesis using assms(3) by (simp add: child_named_def named_kids_def kids_def)
next
  case (Some ch)
  let ?ps = "positions nm (map (name_of st) (kids st n))"
  have ch: "ch = \<lparr>indices = idx_of (map (name_of st) (kids st n)), nodes = kids st n\<rparr>"
    using children_record [OF node_okD(1) [OF assms(1,2)] Some] .
  have nk: "named_kids st n nm = map ((!) (kids st n)) ?ps"
    by (simp add: named_kids_def positions_filter)
  have pl: "?ps ! k < length (kids st n)" if "k < length ?ps" for k
    using positions_less [OF nth_mem [OF that]] by simp
  show ?thesis
  proof (cases "nm \<in> set (map (name_of st) (kids st n))")
    case True
    then have "indices ch nm = Some ?ps" using assms(3) by (simp add: ch idx_of_def)
    then show ?thesis using assms(3) Some pl [of "nat ov"]
      by (auto simp: child_named_def vec_value_def nk ch)
  next
    case False
    then have "indices ch nm = None" "?ps = []" by (simp_all add: ch idx_of_def positions_empty)
    then show ?thesis using assms(3) Some by (simp add: child_named_def nk)
  qed
qed

lemma count_named_spec:
  assumes "forest_ok st" "alive st n" "nm \<noteq> []"
  shows "count_named st n nm = int (length (named_kids st n nm))"
proof (cases "o_children (obj st n)")
  case None
  then show ?thesis using assms(3) by (simp add: count_named_def named_kids_def kids_def)
next
  case (Some ch)
  have ch: "ch = \<lparr>indices = idx_of (map (name_of st) (kids st n)), nodes = kids st n\<rparr>"
    using children_record [OF node_okD(1) [OF assms(1,2)] Some] .
  show ?thesis using assms(3) Some positions_empty [of nm "map (name_of st) (kids st n)"]
    by (simp add: count_named_def ch idx_of_def named_kids_def flip: positions_filter)
qed

lemma count_spec: "count st n = int (length (kids st n))"
  by (simp add: count_def kids_def split: option.splits)

section \<open>The position of a child\<close>

definition pos_of :: "nid list \<Rightarrow> nid \<Rightarrow> nat" where
  "pos_of ns c = length (takeWhile (\<lambda>d. d \<noteq> c) ns)"

lemma pos_of_mid: "c \<notin> set A \<Longrightarrow> pos_of (A @ c # B) c = length A"
  by (simp add: pos_of_def length_takeWhile_mid)

lemma pos_of_less: "c \<in> set ns \<Longrightarrow> pos_of ns c < length ns \<and> ns ! pos_of ns c = c"
  using split_list_first [of c ns] by (auto simp: pos_of_mid)

lemma pos_of_unique: "distinct ns \<Longrightarrow> i < length ns \<Longrightarrow> ns ! i = c \<Longrightarrow> i = pos_of ns c"
  using pos_of_less [of c ns] by (metis nth_eq_iff_index_eq nth_mem)

lemma scan_out_found:
  assumes "distinct ns" "0 \<le> g" "g < int (length ns)" "c \<in> set ns"
  shows "d \<le> \<bar>int (pos_of ns c) - g\<bar> \<Longrightarrow> \<bar>int (pos_of ns c) - g\<bar> < d + int fuel \<Longrightarrow> 0 < d \<Longrightarrow>
    scan_out fuel ns c g d = int (pos_of ns c)"
proof (induction fuel arbitrary: d)
  case (Suc fuel)
  let ?k = "pos_of ns c"
  have k: "?k < length ns" "ns ! ?k = c" using pos_of_less [OF assms(4)] by simp_all
  have u: "j = int ?k" if "0 \<le> j" "j < int (length ns)" "ns ! nat j = c" for j
    using pos_of_unique [OF assms(1), of "nat j" c] that by simp
  have dsz: "d < int (length ns)" using Suc.prems(1) k(1) assms(2,3) by linarith
  show ?case
  proof (cases "\<bar>int ?k - g\<bar> = d")
    case True
    then consider "g - d = int ?k" | "g + d = int ?k" using Suc.prems(3) by linarith
    then show ?thesis
    proof cases
      case 1
      then show ?thesis using dsz k(2) by (simp add: Let_def)
    next
      case 2
      have "\<not> (0 \<le> g - d \<and> ns ! nat (g - d) = c)" using u [of "g - d"] 2 Suc.prems(3) assms(3) by auto
      then show ?thesis using 2 dsz k by (auto simp: Let_def)
    qed
  next
    case False
    then have le: "d + 1 \<le> \<bar>int ?k - g\<bar>" using Suc.prems(1) by linarith
    have "\<not> (0 \<le> g - d \<and> ns ! nat (g - d) = c)" "\<not> (g + d < int (length ns) \<and> ns ! nat (g + d) = c)"
      using u [of "g - d"] u [of "g + d"] False Suc.prems(3) assms(2,3) by auto
    moreover have "\<not> (g - d < 0 \<and> int (length ns) \<le> g + d)" using le k(1) Suc.prems(3) by linarith
    ultimately show ?thesis using Suc.IH [OF le] Suc.prems dsz by (auto simp: Let_def)
  qed
qed simp

lemma scan_out_none:
  assumes "c \<notin> set ns" "0 \<le> g" "g < int (length ns)"
  shows "0 < d \<Longrightarrow> scan_out fuel ns c g d = -1"
proof (induction fuel arbitrary: d)
  case (Suc fuel)
  have "\<not> (0 \<le> g - d \<and> ns ! nat (g - d) = c)"
    using assms Suc.prems nth_mem [of "nat (g - d)" ns] by auto
  moreover have "\<not> (g + d < int (length ns) \<and> ns ! nat (g + d) = c)"
    using assms Suc.prems nth_mem [of "nat (g + d)" ns] by auto
  ultimately show ?case using Suc by (auto simp: Let_def)
qed simp

lemma first_at_upt:
  assumes "distinct ns"
  shows "first_at ns c [0..<length ns] = (if c \<in> set ns then int (pos_of ns c) else -1)"
proof (cases "c \<in> set ns")
  case True
  then obtain A B where "ns = A @ c # B" by (meson split_list)
  then show ?thesis using assms first_at_mid [of A c B] pos_of_mid [of c A B] by auto
qed (simp add: first_at_none)

lemma first_at_positions:
  assumes d: "distinct ns" and c: "c \<in> set ns"
  shows "first_at ns c (positions (f c) (map f ns)) = int (pos_of ns c)"
proof -
  obtain A B where ns: "ns = A @ c # B" using c by (meson split_list)
  then have cA: "c \<notin> set A" using d by auto
  have "\<not> (i < length ns \<and> ns ! i = c)" if "i \<in> set (positions (f c) (map f A))" for i
    using distinct_mid [OF d [unfolded ns], of i] positions_less [OF that] by (auto simp: ns)
  then have "first_at ns c (positions (f c) (map f ns)) = int (length A)"
    unfolding ns positions_mid by (subst first_at_skip) (auto simp: ns)
  then show ?thesis using pos_of_mid [OF cA] by (simp add: ns)
qed

text \<open>\<open>indexOf\<close> finds the position whatever the guess.\<close>

lemma indexOf_spec:
  assumes ok: "forest_ok st" and n: "alive st n"
  shows "indexOf st n (Some c) guess = (if c \<in> set (kids st n) then int (pos_of (kids st n) c) else -1)"
proof (cases "o_children (obj st n)")
  case None
  then show ?thesis by (simp add: indexOf_def kids_def)
next
  case (Some ch)
  have d: "distinct (kids st n)" and ch: "ch = \<lparr>indices = idx_of (map (name_of st) (kids st n)), nodes = kids st n\<rparr>"
    using node_okD [OF ok n] children_record [OF node_okD(1) [OF ok n] Some] by simp_all
  show ?thesis
  proof (cases "name_of st c = []")
    case False
    show ?thesis
    proof (cases "c \<in> set (kids st n)")
      case True
      then have "indices ch (name_of st c) = Some (positions (name_of st c) (map (name_of st) (kids st n)))"
        using False by (auto simp: ch idx_of_def)
      then show ?thesis using first_at_positions [OF d True, of "name_of st"] False True Some
        by (simp add: indexOf_def ch)
    next
      case nc: False
      then show ?thesis using False Some
        by (simp add: indexOf_def ch first_at_none split: option.splits)
    qed
  next
    case True
    show ?thesis
    proof (cases "0 \<le> guess \<and> guess < int (length (kids st n))")
      case g: True
      show ?thesis
      proof (cases "c \<in> set (kids st n)")
        case c: True
        show ?thesis
        proof (cases "kids st n ! nat guess = c")
          case True
          then have "nat guess = pos_of (kids st n) c" using pos_of_unique [OF d, of "nat guess" c] g by auto
          then show ?thesis using True \<open>name_of st c = []\<close> Some g c by (auto simp: indexOf_def ch)
        next
          case False
          have k: "pos_of (kids st n) c < length (kids st n)" "kids st n ! pos_of (kids st n) c = c"
            using pos_of_less [OF c] by simp_all
          then have "int (pos_of (kids st n) c) \<noteq> guess" using False by auto
          then have "scan_out (length (kids st n)) (kids st n) c guess 1 = int (pos_of (kids st n) c)"
            using scan_out_found [OF d _ _ c, of guess 1 "length (kids st n)"] g k(1) by auto
          then show ?thesis using False True Some g c by (simp add: indexOf_def ch)
        qed
      next
        case c: False
        then have "kids st n ! nat guess \<noteq> c" using g nth_mem [of "nat guess" "kids st n"] by auto
        then show ?thesis using True Some g c scan_out_none [OF c, of guess 1]
          by (simp add: indexOf_def ch)
      qed
    next
      case False
      then show ?thesis using True Some first_at_upt [OF d] by (auto simp: indexOf_def ch)
    qed
  qed
qed

section \<open>The key of a child leads back to it\<close>

lemma position_in_nth:
  "distinct is \<Longrightarrow> j < length is \<Longrightarrow> position_in k is (int (is ! j)) = Some (k + j)"
proof (induction "is" arbitrary: k j)
  case (Cons i "is")
  then show ?case by (cases j) (auto simp: nth_eq_iff_index_eq)
qed simp

lemma keyOf_spec:
  assumes ok: "forest_ok st" and n: "alive st n" and c: "c \<in> set (kids st n)"
  shows "keyOf st n (Some c) guess = child_key st (kids st n) c"
proof -
  let ?nm = "name_of st c" and ?ks = "kids st n"
  let ?ps = "positions ?nm (map (name_of st) ?ks)"
  obtain ch where ch0: "o_children (obj st n) = Some ch" using kids_Some [OF c] by blast
  have d: "distinct ?ks" and ch: "ch = \<lparr>indices = idx_of (map (name_of st) ?ks), nodes = ?ks\<rparr>"
    using node_okD [OF ok n] children_record [OF node_okD(1) [OF ok n] ch0] by simp_all
  have gi: "indexOf st n (Some c) guess = int (pos_of ?ks c)" using indexOf_spec [OF ok n] c by simp
  obtain A B where ks: "?ks = A @ c # B" using c by (meson split_list)
  then have cA: "c \<notin> set A" using d by auto
  have pos: "pos_of ?ks c = length A" using pos_of_mid [OF cA] ks by simp
  have psl: "length ?ps = length (filter (\<lambda>d. name_of st d = ?nm) ?ks)"
    by (simp add: length_positions filter_map o_def)
  have ov: "overlap_of (name_of st) ?ks c = length (positions ?nm (map (name_of st) A))"
    using overlap_of_mid [OF cA] ks by simp
  have "?ps ! length (positions ?nm (map (name_of st) A)) = length A"
    "length (positions ?nm (map (name_of st) A)) < length ?ps"
    unfolding ks positions_mid by (simp_all add: nth_append)
  then have pin: "position_in 0 ?ps (int (length A)) = Some (length (positions ?nm (map (name_of st) A)))"
    using position_in_nth [of ?ps "length (positions ?nm (map (name_of st) A))" 0] by simp
  show ?thesis
  proof (cases "?nm = []")
    case True
    then show ?thesis using ch0 gi by (simp add: keyOf_def child_key_def pos_of_def)
  next
    case False
    then have "indices ch ?nm = Some ?ps" using c by (auto simp: ch idx_of_def)
    then show ?thesis
      using False ch0 gi pin pos psl ov by (simp add: keyOf_def child_key_def Let_def)
  qed
qed

definition proper_names :: "forest \<Rightarrow> bool" where
  "proper_names st \<longleftrightarrow> (\<forall>n. alive st n \<longrightarrow>
     (name_of st n = [] \<or> isName (name_of st n) VE_NODE_PATH_SEP VE_NODE_KEY_SEP)
     \<and> int (length (kids st n)) \<le> INT_MAX)"

lemma key_sep_not_digit [simp]: "\<not> is_digit VE_NODE_KEY_SEP" "\<not> is_digit VE_NODE_PATH_SEP"
  by (simp_all add: VE_NODE_KEY_SEP_def VE_NODE_PATH_SEP_def is_digit_def less_eq_char_def)

lemma named_overlap:
  assumes "distinct (kids st n)" "c \<in> set (kids st n)"
  shows "overlap_of (name_of st) (kids st n) c < length (named_kids st n (name_of st c))
    \<and> named_kids st n (name_of st c) ! overlap_of (name_of st) (kids st n) c = c"
proof -
  obtain A B where ks: "kids st n = A @ c # B" using assms(2) by (meson split_list)
  then have cA: "c \<notin> set A" using assms(1) by auto
  have "overlap_of (name_of st) (kids st n) c = length (filter (\<lambda>d. name_of st d = name_of st c) A)"
    using overlap_of_mid [OF cA, of "name_of st" B] ks by (simp add: length_positions filter_map o_def)
  then show ?thesis by (simp add: named_kids_def ks nth_append)
qed

lemma find_child_key:
  assumes ok: "forest_ok st" and pn: "proper_names st" and n: "alive st n" and c: "c \<in> set (kids st n)"
  shows "find_key st n (child_key st (kids st n) c) us VE_NODE_KEY_SEP = Some (Some c)"
proof -
  let ?nm = "name_of st c" and ?ks = "kids st n"
  have d: "distinct ?ks" using node_okD [OF ok n] by simp
  have len: "int (length ?ks) \<le> INT_MAX" using pn n by (simp add: proper_names_def)
  have nmok: "?nm = [] \<or> (VE_NODE_KEY_SEP \<notin> set ?nm)"
    using pn kid_facts [OF ok n c] by (auto simp: proper_names_def isName_iff)
  have nko: "overlap_of (name_of st) ?ks c < length (named_kids st n ?nm)"
    "named_kids st n ?nm ! overlap_of (name_of st) ?ks c = c" using named_overlap [OF d c] by simp_all
  have nkl: "length (named_kids st n ?nm) \<le> length ?ks" by (simp add: named_kids_def)
  show ?thesis
  proof (cases "?nm = []")
    case True
    have p: "pos_of ?ks c < length ?ks" "?ks ! pos_of ?ks c = c" using pos_of_less [OF c] by simp_all
    have "parseKey (child_key st ?ks c) VE_NODE_KEY_SEP = Key [] (pos_of ?ks c)"
      using parse_toKey_index [of "int (pos_of ?ks c)" VE_NODE_KEY_SEP "[]"] p(1) len True
      by (simp add: child_key_def pos_of_def)
    then show ?thesis using p by (simp add: find_key_def child_index_spec)
  next
    case False
    show ?thesis
    proof (cases "length (named_kids st n ?nm) \<le> 1")
      case True
      then have "overlap_of (name_of st) ?ks c = 0" using nko by simp
      moreover have "parseKey (child_key st ?ks c) VE_NODE_KEY_SEP = Key ?nm 0"
        using True False nmok parse_toKey_sole [of ?nm VE_NODE_KEY_SEP "-1"]
        by (simp add: child_key_def Let_def toKey_named named_kids_def)
      ultimately show ?thesis using False nko child_named_spec [OF ok n False]
        by (simp add: find_key_def)
    next
      case nt: False
      have "parseKey (child_key st ?ks c) VE_NODE_KEY_SEP = Key ?nm (overlap_of (name_of st) ?ks c)"
        using parse_toKey_index [of "int (overlap_of (name_of st) ?ks c)" VE_NODE_KEY_SEP ?nm]
          nko nkl len nt False by (simp add: child_key_def Let_def named_kids_def)
      then show ?thesis using False nko child_named_spec [OF ok n False]
        by (simp add: find_key_def)
    qed
  qed
qed

section \<open>The path of a node leads back to it\<close>

definition clean_seg :: "string \<Rightarrow> bool" where
  "clean_seg s \<longleftrightarrow> s \<noteq> [] \<and> VE_NODE_PATH_SEP \<notin> set s"

lemma child_key_clean:
  assumes pn: "proper_names st" and c: "alive st c"
  shows "clean_seg (child_key st ns c)"
proof -
  have nm: "VE_NODE_PATH_SEP \<notin> set (name_of st c)"
    using pn c by (auto simp: proper_names_def isName_iff)
  have num: "VE_NODE_PATH_SEP \<notin> set (int_chars (int i))" for i
    using nat_chars_digits [of VE_NODE_PATH_SEP] key_sep_not_digit(2) by (auto simp: int_chars_def)
  have sep: "VE_NODE_PATH_SEP \<noteq> VE_NODE_KEY_SEP" by (simp add: VE_NODE_PATH_SEP_def VE_NODE_KEY_SEP_def)
  show ?thesis using nm num sep by (auto simp: clean_seg_def child_key_def Let_def toKey_def)
qed

lemma join_snoc: "ks \<noteq> [] \<Longrightarrow> join_sep sep (ks @ [s]) = join_sep sep ks @ sep @ s"
  by (induction sep ks rule: join_sep.induct) auto

lemma join_not_Nil: "ks \<noteq> [] \<Longrightarrow> list_all clean_seg ks \<Longrightarrow> join_sep sep ks \<noteq> []"
  by (induction sep ks rule: join_sep.induct) (auto simp: clean_seg_def)

lemma segments_join:
  "list_all clean_seg ks \<Longrightarrow> segments VE_NODE_PATH_SEP (join_sep [VE_NODE_PATH_SEP] ks) = ks"
  by (induction "[VE_NODE_PATH_SEP]" ks rule: join_sep.induct)
    (auto simp: clean_seg_def segments_single segments_cons)

lemma hd_join: "ks \<noteq> [] \<Longrightarrow> list_all clean_seg ks \<Longrightarrow> hd (join_sep sep ks) \<noteq> VE_NODE_PATH_SEP"
proof (cases ks)
  case (Cons k rest)
  assume "list_all clean_seg ks"
  then have "k \<noteq> []" "VE_NODE_PATH_SEP \<notin> set k" using Cons by (simp_all add: clean_seg_def)
  then have "hd k \<noteq> VE_NODE_PATH_SEP" by (cases k) auto
  then show ?thesis using \<open>k \<noteq> []\<close> Cons by (cases rest) (simp_all add: hd_append)
qed simp

lemma find_walk_append:
  "find_walk st n us ks (xs @ ys) =
     (case find_walk st n us ks xs of Some (Some c) \<Rightarrow> find_walk st c us ks ys | r \<Rightarrow> r)"
  by (induction xs arbitrary: n) (auto split: option.splits)

lemma path_walk:
  assumes ok: "forest_ok st" and pn: "proper_names st"
  shows "alive st n \<Longrightarrow> card (anc st n) < fuel \<Longrightarrow> a \<in> anc st n \<Longrightarrow>
    \<exists>ks. ks \<noteq> [] \<and> list_all clean_seg ks
      \<and> path fuel st n (Some a) = Some (join_sep [VE_NODE_PATH_SEP] ks)
      \<and> (parent st a = None \<and> name_of st a = [] \<longrightarrow>
            path (Suc fuel) st n None = Some (join_sep [VE_NODE_PATH_SEP] ks))
      \<and> find_walk st a us VE_NODE_KEY_SEP ks = Some (Some n)"
proof (induction fuel arbitrary: n)
  case (Suc fuel)
  obtain p where p: "parent st n = Some p"
    using Suc.prems(3) anc_root by (cases "parent st n") auto
  have na: "n \<noteq> a" using Suc.prems(3) anc_irrefl [OF ok] by blast
  have pa: "alive st p" "n \<in> set (kids st p)" using parent_alive [OF ok Suc.prems(1) p] by simp_all
  define seg where "seg = child_key st (kids st p) n"
  have seg: "keyOf st p (Some n) (-1) = seg" using keyOf_spec [OF ok pa] by (simp add: seg_def)
  have cl: "clean_seg seg" using child_key_clean [OF pn Suc.prems(1)] by (simp add: seg_def)
  have fk: "find_key st p seg us VE_NODE_KEY_SEP = Some (Some n)"
    using find_child_key [OF ok pn pa] by (simp add: seg_def)
  show ?case
  proof (cases "p = a")
    case True
    then show ?thesis using na p seg cl fk by (intro exI [of _ "[seg]"]) simp
  next
    case False
    then have "a \<in> anc st p" using anc_step [OF Suc.prems(1) p] Suc.prems(3) by auto
    moreover have "card (anc st p) < fuel" using card_anc_parent [OF ok Suc.prems(1) p] Suc.prems(2) by simp
    ultimately obtain ks where ks: "ks \<noteq> []" "list_all clean_seg ks"
      "path fuel st p (Some a) = Some (join_sep [VE_NODE_PATH_SEP] ks)"
      "parent st a = None \<and> name_of st a = [] \<longrightarrow>
          path (Suc fuel) st p None = Some (join_sep [VE_NODE_PATH_SEP] ks)"
      "find_walk st a us VE_NODE_KEY_SEP ks = Some (Some p)"
      using Suc.IH [OF pa(1)] by blast
    have "path (Suc fuel) st n (Some a) = Some (join_sep [VE_NODE_PATH_SEP] (ks @ [seg]))"
      using na p seg False ks join_not_Nil [OF ks(1,2)]
      by (simp add: join_snoc VE_NODE_PATH_SEP_def)
    moreover have "path (Suc (Suc fuel)) st n None = Some (join_sep [VE_NODE_PATH_SEP] (ks @ [seg]))"
      if "parent st a = None \<and> name_of st a = []"
      using that p seg ks join_not_Nil [OF ks(1,2)]
      by (simp add: join_snoc VE_NODE_PATH_SEP_def Let_def)
    moreover have "find_walk st a us VE_NODE_KEY_SEP (ks @ [seg]) = Some (Some n)"
      using ks(5) fk by (simp add: find_walk_append)
    ultimately show ?thesis using ks cl by (intro exI [of _ "ks @ [seg]"]) simp
  qed
qed simp

lemma find_join:
  assumes "ks \<noteq> []" "list_all clean_seg ks"
  shows "find_path st a (join_sep [VE_NODE_PATH_SEP] ks) us VE_NODE_PATH_SEP VE_NODE_KEY_SEP
    = find_walk st a us VE_NODE_KEY_SEP ks"
  using assms hd_join [OF assms] segments_join [OF assms(2)]
  by (simp add: find_path_def path_start_def)

lemma root_loop_spec:
  assumes ok: "forest_ok st"
  shows "alive st n \<Longrightarrow> card (anc st n) < fuel \<Longrightarrow>
    \<exists>r. root_loop fuel st n = Some r \<and> alive st r \<and> parent st r = None \<and> (r = n \<or> r \<in> anc st n)"
proof (induction fuel arbitrary: n)
  case (Suc fuel)
  show ?case
  proof (cases "parent st n")
    case (Some p)
    have "alive st p" "card (anc st p) < fuel"
      using parent_alive [OF ok Suc.prems(1) Some] card_anc_parent [OF ok Suc.prems(1) Some] Suc.prems(2)
      by simp_all
    then show ?thesis using Suc.IH [of p] Some anc_step [OF Suc.prems(1) Some] by auto
  qed (use Suc.prems in simp)
qed simp

lemma root_of_spec:
  assumes "forest_ok st" "alive st n"
  shows "\<exists>r. root_of st n = Some r \<and> alive st r \<and> parent st r = None \<and> (r = n \<or> r \<in> anc st n)"
  using root_loop_spec [OF assms, of "next_id st + 1"] card_anc_less [OF assms]
  by (simp add: root_of_def)

end
