(* ===== verification/Node_Ensure.thy ===== *)
theory Node_Ensure
  imports Node_Paths
begin

text \<open>
  The operations of \<open>ve/src/core/node.cpp\<close> that create nodes: \<open>append\<close> and the non-const \<open>at\<close>
  overloads on an index, a name, a key and a path. A growing tree keeps every node it had, at the
  position it had among its siblings (\<open>grows\<close>), so that what was found by a key or a path before
  is found there afterwards, and what was missing is found once it has been ensured.
\<close>

section \<open>Fresh nodes\<close>

definition blank :: "string \<Rightarrow> nobj" where
  "blank name = \<lparr>o_name = name, o_parent = None, o_shadow = None, o_children = None,
     o_value = VNone, o_flags = 0\<rparr>"

lemma new_node_eq:
  "new_node name st = (next_id st, st\<lparr>heap := (heap st)(next_id st \<mapsto> blank name), next_id := next_id st + 1\<rparr>)"
  by (simp add: new_node_def blank_def)

lemma new_nodes_spec:
  "new_nodes k name st = (cs, st') \<Longrightarrow> cs = [next_id st..<next_id st + k]
    \<and> heap st' = (\<lambda>m. if m \<in> set cs then Some (blank name) else heap st m)
    \<and> next_id st' = next_id st + k \<and> events st' = events st"
proof (induction k arbitrary: cs st st')
  case (Suc k)
  let ?st1 = "st\<lparr>heap := (heap st)(next_id st \<mapsto> blank name), next_id := next_id st + 1\<rparr>"
  obtain ds st2 where n: "new_nodes k name ?st1 = (ds, st2)" by fastforce
  have ih: "ds = [next_id st + 1..<next_id st + 1 + k]"
    "heap st2 = (\<lambda>m. if m \<in> set ds then Some (blank name) else heap ?st1 m)"
    "next_id st2 = next_id st + 1 + k" "events st2 = events st"
    using Suc.IH [OF n] by simp_all
  have "cs = next_id st # ds" "st' = st2" using Suc.prems n by (simp_all add: new_node_eq)
  moreover have "next_id st # [next_id st + 1..<next_id st + 1 + k] = [next_id st..<next_id st + Suc k]"
    by (simp add: upt_rec [of "next_id st"])
  ultimately show ?case using ih by (auto simp: fun_eq_iff)
qed auto

text \<open>A well-formed tree with fresh nodes beside it.\<close>

lemma forest_ok_fresh:
  assumes ok: "forest_ok st" and cs: "\<And>c. c \<in> set cs \<Longrightarrow> next_id st \<le> c \<and> c < k" and k: "next_id st \<le> k"
    and h: "heap s = (\<lambda>m. if m \<in> set cs then Some (blank nm) else heap st m)" and nid: "next_id s = k"
  shows "forest_ok s" "alive s m = (alive st m \<or> m \<in> set cs)"
    "m \<in> set cs \<Longrightarrow> obj s m = blank nm" "alive st m \<Longrightarrow> m \<notin> set cs \<and> obj s m = obj st m"
    "edges s = edges st"
proof -
  show al: "alive s m = (alive st m \<or> m \<in> set cs)" for m by (auto simp: alive_def h)
  have new: "m \<notin> set cs" if "alive st m" for m using alive_less [OF ok that] cs [of m] by auto
  show on: "m \<in> set cs \<Longrightarrow> obj s m = blank nm" for m by (simp add: obj_def h)
  show oo: "alive st m \<Longrightarrow> m \<notin> set cs \<and> obj s m = obj st m" for m using new by (simp add: obj_def h)
  have pn: "m \<in> set cs \<Longrightarrow> parent s m = None \<and> kids s m = []" for m
    by (simp add: parent_def kids_def on blank_def)
  have po: "alive st m \<Longrightarrow> parent s m = parent st m \<and> kids s m = kids st m" for m
    using oo by (simp add: parent_def kids_def)
  show e: "edges s = edges st"
  proof -
    have "(p, c) \<in> edges s \<longleftrightarrow> (p, c) \<in> edges st" for p c
      using pn [of c] po [of c] al [of c] by (auto simp: edges_def)
    then show ?thesis by auto
  qed
  have "node_ok s m" if m: "alive s m" for m
  proof (cases "m \<in> set cs")
    case True
    then show ?thesis using pn [OF True] on [OF True]
      by (simp add: node_ok_def children_ok_def blank_def)
  next
    case False
    then have m': "alive st m" using m al by simp
    have "\<forall>d \<in> set (kids st m). name_of s d = name_of st d"
      using kid_facts [OF ok m'] oo by (simp add: name_of_def)
    then have "children_ok s m"
      using children_ok_cong [of s m st] oo [OF m'] node_okD(1) [OF ok m'] by simp
    moreover have "alive s c \<and> parent s c = Some m" if "c \<in> set (kids s m)" for c
      using kid_facts [OF ok m', of c] that po [OF m'] po [of c] al by simp
    moreover have "alive s p \<and> m \<in> set (kids s p)" if "parent s m = Some p" for p
      using parent_alive [OF ok m', of p] that po [OF m'] po [of p] al by simp
    ultimately show ?thesis using po [OF m'] node_okD(2) [OF ok m'] by (simp add: node_ok_def)
  qed
  moreover have "alive s m \<Longrightarrow> m < next_id s" for m
    using al alive_less [OF ok] cs k nid by fastforce
  ultimately show "forest_ok s" using ok e by (simp add: forest_ok_def)
qed

section \<open>Appending\<close>

definition keeps :: "forest \<Rightarrow> forest \<Rightarrow> nid \<Rightarrow> bool" where
  "keeps st st' m \<longleftrightarrow> alive st' m \<and> name_of st' m = name_of st m \<and> node_value st' m = node_value st m
     \<and> o_shadow (obj st' m) = o_shadow (obj st m) \<and> o_flags (obj st' m) = o_flags (obj st m)
     \<and> parent st' m = parent st m"

definition appended :: "nid \<Rightarrow> string \<Rightarrow> nid list \<Rightarrow> forest \<Rightarrow> forest \<Rightarrow> bool" where
  "appended n nm cs st st' \<longleftrightarrow> forest_ok st' \<and> kids st' n = kids st n @ cs
     \<and> (\<forall>m. alive st' m = (alive st m \<or> m \<in> set cs))
     \<and> (\<forall>m. alive st m \<longrightarrow> m \<notin> set cs \<and> keeps st st' m \<and> (m \<noteq> n \<longrightarrow> kids st' m = kids st m))
     \<and> (\<forall>c \<in> set cs. name_of st' c = nm \<and> parent st' c = Some n \<and> kids st' c = []
          \<and> node_value st' c = VNone)"

lemma detach_all_roots: "(\<And>c. c \<in> set cs \<Longrightarrow> parent st c = None) \<Longrightarrow> detach_all cs st = Some st"
  by (induction cs) (simp_all add: detach_def)

lemma place_batch_end:
  assumes ok: "forest_ok st" and n: "alive st n" and ne: "cs \<noteq> []" and d: "distinct cs"
    and cs: "\<And>c. c \<in> set cs \<Longrightarrow> alive st c \<and> parent st c = None \<and> c \<noteq> n \<and> c \<notin> anc st n"
  defines "st1 \<equiv> set_parents n cs (upd n (o_children_update (\<lambda>_. Some
      \<lparr>indices = idx_of (map (name_of st) (kids st n @ cs @ [])), nodes = kids st n @ cs @ []\<rparr>)) st)"
  shows "\<exists>key. place_batch n cs (-1) st = (Some key, st1)"
proof -
  let ?ks = "kids st n"
  have ens: "ensureChildren (obj st n) = \<lparr>indices = idx_of (map (name_of st) ?ks), nodes = ?ks\<rparr>"
    using ensureChildren_eq [OF node_okD(1) [OF ok n]] .
  have idx: "batch_indices (name_of st) (length ?ks) cs (idx_of (map (name_of st) ?ks))
      = idx_of (map (name_of st) (?ks @ cs @ []))"
    using batch_idx [of "idx_of (map (name_of st) ?ks)" "map (name_of st) ?ks" cs "[]" "name_of st"]
      index_list_idx_of [of _ "map (name_of st) ?ks"]
    by (simp add: idx_of_def)
  show ?thesis
    unfolding place_batch_def Let_def ens children.simps
    using idx by (simp add: st1_def)
qed

lemma append_new:
  assumes ok: "forest_ok st" and n: "alive st n" and k: "0 < k"
    and nn: "new_nodes k nm st = (cs, st0)"
  shows "length cs = k" "\<exists>st1. insert_batch n (map Some cs) (-1) st0 = Some (True, st1) \<and> appended n nm cs st st1"
    "k = 1 \<Longrightarrow> \<exists>st1. insert_child n (Some (hd cs)) (-1) st0 = Some (True, st1) \<and> appended n nm cs st st1"
proof -
  have f: "cs = [next_id st..<next_id st + k]"
    "heap st0 = (\<lambda>m. if m \<in> set cs then Some (blank nm) else heap st m)"
    "next_id st0 = next_id st + k" using new_nodes_spec [OF nn] by simp_all
  show len: "length cs = k" using f(1) by simp
  have rng: "next_id st \<le> c \<and> c < next_id st + k" if "c \<in> set cs" for c using that f(1) by simp
  note g = forest_ok_fresh [OF ok rng _ f(2,3)]
  have ok0: "forest_ok st0" and al0: "\<And>m. alive st0 m = (alive st m \<or> m \<in> set cs)"
    and on: "\<And>m. m \<in> set cs \<Longrightarrow> obj st0 m = blank nm"
    and oo: "\<And>m. alive st m \<Longrightarrow> m \<notin> set cs \<and> obj st0 m = obj st m" and ed: "edges st0 = edges st"
    using g by simp_all
  have n0: "alive st0 n" using n al0 by simp
  have cs0: "alive st0 c \<and> parent st0 c = None \<and> c \<noteq> n \<and> c \<notin> anc st0 n" if c: "c \<in> set cs" for c
  proof -
    have "\<not> alive st c" using oo c by blast
    then show ?thesis using c al0 on [OF c] n anc_alive [OF ok, of c n] ed
      by (auto simp: parent_def blank_def anc_def)
  qed
  have d: "distinct cs" "cs \<noteq> []" using f(1) k by auto
  have res: "appended n nm cs st st1" if s: "forest_ok st1" "same_data st0 st1" "kids st1 n = kids st0 n @ cs"
    "\<And>m. m \<noteq> n \<Longrightarrow> alive st0 m \<Longrightarrow> kids st1 m = kids st0 m"
    "\<And>c. c \<in> set cs \<Longrightarrow> parent st1 c = Some n"
    "\<And>m. m \<notin> set cs \<Longrightarrow> alive st0 m \<Longrightarrow> parent st1 m = parent st0 m" for st1
  proof -
    have kn: "kids st0 m = kids st m \<and> name_of st0 m = name_of st m \<and> node_value st0 m = node_value st m
        \<and> parent st0 m = parent st m" if "alive st m" for m
      using oo [OF that] by (simp add: kids_def name_of_def node_value_def parent_def)
    have new: "name_of st1 c = nm \<and> node_value st1 c = VNone \<and> kids st1 c = [] \<and> c \<noteq> n" if "c \<in> set cs" for c
      using s(2) s(4) [of c] cs0 [OF that] on [OF that]
      by (auto simp: same_data_def name_of_def node_value_def kids_def blank_def)
    show ?thesis unfolding appended_def keeps_def
    proof (intro conjI allI impI ballI)
      fix m assume m: "alive st m"
      then have m0: "alive st0 m" "m \<notin> set cs" using al0 oo by simp_all
      show "m \<notin> set cs" "alive st1 m" using m0 s(2) by (simp_all add: same_data_def)
      show "name_of st1 m = name_of st m" "node_value st1 m = node_value st m"
        "o_shadow (obj st1 m) = o_shadow (obj st m)" "o_flags (obj st1 m) = o_flags (obj st m)"
        using s(2) m0 kn [OF m] oo [OF m] by (simp_all add: same_data_def)
      show "parent st1 m = parent st m" using s(6) m0 kn [OF m] by simp
      show "kids st1 m = kids st m" if "m \<noteq> n" using s(4) that m0 kn [OF m] by simp
    next
      show "kids st1 n = kids st n @ cs" using s(3) kn [OF n] by simp
      show "forest_ok st1" by (rule s(1))
      show "alive st1 m = (alive st m \<or> m \<in> set cs)" for m using s(2) al0 by (simp add: same_data_def)
    qed (use s(5) new in auto)
  qed
  show "\<exists>st1. insert_batch n (map Some cs) (-1) st0 = Some (True, st1) \<and> appended n nm cs st st1"
  proof -
    define st1 where "st1 = set_parents n cs (upd n (o_children_update (\<lambda>_. Some
      \<lparr>indices = idx_of (map (name_of st0) (kids st0 n @ cs @ [])), nodes = kids st0 n @ cs @ []\<rparr>)) st0)"
    obtain key where pl: "place_batch n cs (-1) st0 = (Some key, st1)"
      using place_batch_end [OF ok0 n0 d(2,1) cs0] by (auto simp: st1_def)
    note a = forest_ok_attached [OF ok0 n0 _ d(1) cs0 st1_def]
    have al1: "alive st1 n" using a(2) n0 by (simp add: same_data_def)
    obtain st2 where st2: "notify n (Added n key (int (length (map Some cs)) - 1)) NODE_ADDED st1 = Some st2"
      "heap st2 = heap st1" "next_id st2 = next_id st1"
      using notify_total [of st1 n] a(1) al1 by auto
    note h = heap_eq_facts [OF st2(2)]
    have "insert_batch n (map Some cs) (-1) st0 = Some (True, st2)"
      using d detach_all_roots [of cs st0] cs0 pl st2(1) by (auto simp: insert_batch_def o_def)
    moreover have "appended n nm cs st st2"
    proof (rule res)
      show "forest_ok st2" using forest_ok_heap [OF st2(2,3)] a(1) by simp
      show "same_data st0 st2" using same_data_trans [OF _ same_data_heap [OF st2(2,3)]] a(2) by simp
    qed (use a in \<open>simp_all add: h\<close>)
    ultimately show ?thesis by blast
  qed
  assume "k = 1"
  then have c: "cs = [hd cs]" using len by (cases cs) auto
  then have sc: "set cs = {hd cs}" by (metis list.set(1) list.set(2))
  let ?c = "hd cs"
  have cc: "?c \<in> set cs" using d by simp
  have nk: "?c \<notin> set (kids st0 m)" if "alive st0 m" for m
    using kid_facts [OF ok0 that, of ?c] cs0 [OF cc] by auto
  have rm: "remove1 ?c (kids st0 m) = kids st0 m" if "alive st0 m" for m
    using not_kid_remove1 [OF nk [OF that]] .
  have r: "resolve (-1) (length (kids st0 n)) = int (length (kids st0 n))" by (simp add: resolve_def)
  obtain st1 where "insert_child n (Some ?c) (-1) st0 = Some (True, st1)" "forest_ok st1" "same_data st0 st1"
    "kids st1 n = insert_at (length (kids st0 n)) ?c (kids st0 n)" "parent st1 ?c = Some n"
    "\<And>m. m \<noteq> n \<Longrightarrow> alive st0 m \<Longrightarrow> kids st1 m = remove1 ?c (kids st0 m)"
    "\<And>m. m \<noteq> ?c \<Longrightarrow> alive st0 m \<Longrightarrow> parent st1 m = parent st0 m"
    using insert_child_spec [OF ok0 n0, of ?c "kids st0 n" "int (length (kids st0 n))" "-1"]
      cs0 [OF cc] rm [OF n0] r by auto
  then show "\<exists>st1. insert_child n (Some ?c) (-1) st0 = Some (True, st1) \<and> appended n nm cs st st1"
    using rm c sc by (intro exI [of _ st1] conjI res) (auto simp: insert_at_def)
qed

lemma append_node_spec:
  assumes ok: "forest_ok st" and n: "alive st n" and ov: "0 \<le> ov"
  shows "\<exists>cs st'. append_node n nm ov st = Some (Some (hd cs), st') \<and> length cs = nat ov + 1
    \<and> appended n nm cs st st'"
proof (cases "ov = 0")
  case True
  obtain cs st0 where nn: "new_nodes 1 nm st = (cs, st0)" by fastforce
  then have nw: "new_node nm st = (hd cs, st0)"
    by (auto simp: Let_def new_node_eq)
  note a = append_new [OF ok n zero_less_one nn]
  obtain st1 where "insert_child n (Some (hd cs)) (-1) st0 = Some (True, st1)" "appended n nm cs st st1"
    using a(3) by auto
  then show ?thesis using True nw a(1) by (intro exI [of _ cs] exI [of _ st1]) (simp add: append_node_def)
next
  case False
  obtain cs st0 where nn: "new_nodes (nat ov + 1) nm st = (cs, st0)" by fastforce
  note a = append_new [OF ok n _ nn]
  obtain st1 where "insert_batch n (map Some cs) (-1) st0 = Some (True, st1)" "appended n nm cs st st1"
    using a(2) by auto
  then show ?thesis using False ov nn a(1)
    by (intro exI [of _ cs] exI [of _ st1]) (simp add: append_node_def del: new_nodes.simps)
qed

section \<open>Growing trees\<close>

definition grows :: "forest \<Rightarrow> forest \<Rightarrow> bool" where
  "grows st st' \<longleftrightarrow> forest_ok st'
     \<and> (\<forall>m. alive st m \<longrightarrow> keeps st st' m \<and> (\<exists>cs. kids st' m = kids st m @ cs))"

lemma grows_refl: "forest_ok st \<Longrightarrow> grows st st"
  by (simp add: grows_def keeps_def)

lemma grows_alive: "grows st st' \<Longrightarrow> alive st m \<Longrightarrow> alive st' m"
  by (simp add: grows_def keeps_def)

lemma grows_trans:
  assumes "grows a b" "grows b c"
  shows "grows a c"
  unfolding grows_def
proof (intro conjI allI impI)
  fix m assume m: "alive a m"
  then have b: "alive b m" by (rule grows_alive [OF assms(1)])
  show "keeps a c m" using assms m b by (simp add: grows_def keeps_def)
  obtain xs ys where "kids b m = kids a m @ xs" "kids c m = kids b m @ ys"
    using assms m b unfolding grows_def by blast
  then show "\<exists>cs. kids c m = kids a m @ cs" by simp
qed (use assms in \<open>simp add: grows_def\<close>)


lemma grows_child:
  assumes ok: "forest_ok st" and g: "grows st st'" and n: "alive st n" and i: "0 \<le> i"
  shows "child_index st n i = Some c \<Longrightarrow> child_index st' n i = Some c"
    "nm \<noteq> [] \<Longrightarrow> child_named st n nm i = Some c \<Longrightarrow> child_named st' n nm i = Some c"
proof -
  obtain cs where cs: "kids st' n = kids st n @ cs" using g n unfolding grows_def by blast
  have "filter (\<lambda>d. name_of st' d = nm) (kids st n) = filter (\<lambda>d. name_of st d = nm) (kids st n)"
    using kid_facts [OF ok n] g by (intro filter_cong) (auto simp: grows_def keeps_def)
  then have nk: "named_kids st' n nm = named_kids st n nm @ filter (\<lambda>d. name_of st' d = nm) cs"
    by (simp add: named_kids_def cs)
  show "child_index st n i = Some c \<Longrightarrow> child_index st' n i = Some c"
    using i cs by (auto simp: child_index_spec nth_append split: if_splits)
  assume "nm \<noteq> []" "child_named st n nm i = Some c"
  then show "child_named st' n nm i = Some c"
    using i nk child_named_spec [OF ok n] child_named_spec [of st' n] g grows_alive [OF g n]
    by (auto simp: nth_append grows_def split: if_splits)
qed

lemma at_plain [simp]:
  "at_index (Suc k) st n i False = Some (child_index st n i)"
  "at_named (Suc k) st n nm ov False = Some (child_named st n nm ov)"
  by (simp_all split: option.splits)

lemma find_key_plain:
  "find_key st n key False sep =
     (case parseKey key sep of
        KeyBad \<Rightarrow> Some None
      | KeyOverflow \<Rightarrow> None
      | Key nm idx \<Rightarrow> Some (if nm = [] then child_index st n (int idx) else child_named st n nm (int idx)))"
  by (simp add: find_key_def split: key.splits option.splits)

lemma grows_find_key:
  assumes "forest_ok st" "grows st st'" "alive st n" "find_key st n key False sep = Some (Some c)"
  shows "find_key st' n key False sep = Some (Some c)"
  using assms(4) grows_child [OF assms(1-3)] by (auto simp: find_key_plain split: key.splits if_splits)

lemma find_key_kid:
  assumes "forest_ok st" "alive st n" "find_key st n key False sep = Some (Some c)"
  shows "c \<in> set (kids st n)"
proof -
  obtain nm i where p: "parseKey key sep = Key nm i"
    using assms(3) by (cases "parseKey key sep") (auto simp: find_key_plain)
  show ?thesis
  proof (cases "nm = []")
    case True
    then show ?thesis using assms(3) p by (auto simp: find_key_plain child_index_spec split: if_splits)
  next
    case False
    then have "c \<in> set (named_kids st n nm)"
      using assms(3) p child_named_spec [OF assms(1,2) False, of "int i"]
      by (auto simp: find_key_plain split: if_splits)
    then show ?thesis by (simp add: named_kids_def)
  qed
qed

lemma appended_grows:
  assumes "forest_ok st" "appended n nm cs st st'"
  shows "grows st st'"
  using assms unfolding appended_def grows_def by (metis append_Nil2)

section \<open>Ensuring a key\<close>

lemma ensure_index_spec:
  assumes ok: "forest_ok st" and n: "alive st n" and i: "0 \<le> i"
  shows "\<exists>c st'. ensure_index n i False st = Some (Some c, st') \<and> grows st st'
    \<and> child_index st' n i = Some c \<and> (child_index st n i \<noteq> None \<longrightarrow> st' = st)"
proof (cases "child_index st n i")
  case (Some c)
  then show ?thesis using ok by (intro exI [of _ c] exI [of _ st]) (simp add: ensure_index_def grows_refl)
next
  case None
  then have ge: "int (length (kids st n)) \<le> i" using i by (simp add: child_index_spec split: if_splits)
  obtain cs st' where a: "append_node n [] (i - count st n) st = Some (Some (hd cs), st')"
    "length cs = nat (i - count st n) + 1" "appended n [] cs st st'"
    using append_node_spec [OF ok n, of "i - count st n" "[]"] ge by (auto simp: count_spec)
  have "length (kids st' n) = nat i + 1" using a(2,3) ge by (simp add: appended_def count_spec)
  then have "child_index st' n i = Some (kids st' n ! nat i)" using i by (simp add: child_index_spec)
  then show ?thesis using None a(1) i appended_grows [OF ok a(3)] by (simp add: ensure_index_def)
qed

lemma ensure_named_spec:
  assumes ok: "forest_ok st" and n: "alive st n" and i: "0 \<le> i" and nm: "nm \<noteq> []"
  shows "\<exists>c st'. ensure_named n nm i False st = Some (Some c, st') \<and> grows st st'
    \<and> child_named st' n nm i = Some c \<and> (child_named st n nm i \<noteq> None \<longrightarrow> st' = st)"
proof (cases "child_named st n nm i")
  case (Some c)
  then show ?thesis using ok by (intro exI [of _ c] exI [of _ st]) (simp add: ensure_named_def grows_refl)
next
  case None
  let ?k = "length (named_kids st n nm)"
  have ge: "int ?k \<le> i" using None i child_named_spec [OF ok n nm, of i] by (simp split: if_splits)
  have ct: "count_named st n nm = int ?k" using count_named_spec [OF ok n nm] .
  obtain cs st' where a: "append_node n nm (i - count_named st n nm) st = Some (Some (hd cs), st')"
    "length cs = nat (i - count_named st n nm) + 1" "appended n nm cs st st'"
    using append_node_spec [OF ok n, of "i - count_named st n nm" nm] ge ct by auto
  have kn: "filter (\<lambda>d. name_of st' d = nm) (kids st n) = filter (\<lambda>d. name_of st d = nm) (kids st n)"
    using kid_facts [OF ok n] a(3) by (intro filter_cong) (auto simp: appended_def keeps_def)
  have "filter (\<lambda>d. name_of st' d = nm) cs = cs" using a(3) by (simp add: appended_def)
  then have "named_kids st' n nm = named_kids st n nm @ cs"
    using a(3) kn by (simp add: named_kids_def appended_def)
  then have "length (named_kids st' n nm) = nat i + 1" using a(2) ge ct by simp
  moreover have "forest_ok st'" "alive st' n" using a(3) n by (simp_all add: appended_def)
  ultimately have "child_named st' n nm i = Some (named_kids st' n nm ! nat i)"
    using i child_named_spec [of st' n nm i] nm by simp
  then show ?thesis using None a(1) i appended_grows [OF ok a(3)] by (simp add: ensure_named_def)
qed

lemma ensure_key_spec:
  assumes ok: "forest_ok st" and n: "alive st n" and p: "parseKey key sep = Key nm i"
  shows "\<exists>c st'. ensure_key n key False sep st = Some (Some c, st') \<and> grows st st'
    \<and> find_key st' n key False sep = Some (Some c)
    \<and> (\<forall>d. find_key st n key False sep = Some (Some d) \<longrightarrow> st' = st)"
  using ensure_index_spec [OF ok n, of "int i"] ensure_named_spec [OF ok n, of "int i" nm] p
  by (cases "nm = []") (fastforce simp: ensure_key_def find_key_plain)+

section \<open>Ensuring a path\<close>

lemma grows_find_walk:
  assumes ok: "forest_ok st" and g: "grows st st'"
  shows "alive st n \<Longrightarrow> find_walk st n False sep segs = Some (Some c) \<Longrightarrow>
    find_walk st' n False sep segs = Some (Some c)"
proof (induction segs arbitrary: n)
  case (Cons seg segs)
  obtain d where d: "find_key st n seg False sep = Some (Some d)" "find_walk st d False sep segs = Some (Some c)"
    using Cons.prems(2) by (auto split: option.splits)
  have "alive st d" using kid_facts [OF ok Cons.prems(1) find_key_kid [OF ok Cons.prems(1) d(1)]] by simp
  then show ?case using Cons.IH [OF _ d(2)] grows_find_key [OF ok g Cons.prems(1) d(1)] by simp
qed simp

definition key_segs :: "char \<Rightarrow> string list \<Rightarrow> bool" where
  "key_segs sep segs \<longleftrightarrow> (\<forall>s \<in> set segs. parseKey s sep \<noteq> KeyBad \<and> parseKey s sep \<noteq> KeyOverflow)"

lemma ensure_walk_spec:
  assumes "forest_ok st" "alive st n" "key_segs sep segs"
  shows "\<exists>c st'. ensure_walk n False sep segs st = Some (Some c, st') \<and> grows st st' \<and> alive st' c
    \<and> find_walk st' n False sep segs = Some (Some c)
    \<and> (\<forall>d. find_walk st n False sep segs = Some (Some d) \<longrightarrow> st' = st)"
  using assms
proof (induction segs arbitrary: n st)
  case Nil
  then show ?case by (simp add: grows_refl)
next
  case (Cons seg segs)
  obtain nm i where p: "parseKey seg sep = Key nm i"
    using Cons.prems(3) by (cases "parseKey seg sep") (auto simp: key_segs_def)
  obtain d st1 where d: "ensure_key n seg False sep st = Some (Some d, st1)" "grows st st1"
    "find_key st1 n seg False sep = Some (Some d)"
    "\<And>e. find_key st n seg False sep = Some (Some e) \<Longrightarrow> st1 = st"
    using ensure_key_spec [OF Cons.prems(1,2) p] by metis
  have ok1: "forest_ok st1" "alive st1 n" using d(2) grows_alive [OF d(2) Cons.prems(2)] by (simp_all add: grows_def)
  have d1: "alive st1 d" using kid_facts [OF ok1 find_key_kid [OF ok1 d(3)]] by simp
  obtain c st2 where c: "ensure_walk d False sep segs st1 = Some (Some c, st2)" "grows st1 st2" "alive st2 c"
    "find_walk st2 d False sep segs = Some (Some c)"
    "\<And>e. find_walk st1 d False sep segs = Some (Some e) \<Longrightarrow> st2 = st1"
    using Cons.IH [OF ok1(1) d1] Cons.prems(3) by (auto simp: key_segs_def)
  have "find_key st2 n seg False sep = Some (Some d)" by (rule grows_find_key [OF ok1(1) c(2) ok1(2) d(3)])
  then have "find_walk st2 n False sep (seg # segs) = Some (Some c)" using c(4) by simp
  moreover have "st2 = st" if fw: "find_walk st n False sep (seg # segs) = Some (Some e)" for e
  proof -
    obtain d' where d': "find_key st n seg False sep = Some (Some d')" "find_walk st d' False sep segs = Some (Some e)"
      using fw by (cases "find_key st n seg False sep") (auto split: option.splits)
    then have "st1 = st" using d(4) by blast
    then show ?thesis using d(3) d' c(5) by simp
  qed
  ultimately show ?case using d(1) c(1,3) grows_trans [OF d(2) c(2)] by auto
qed

lemma grows_root_loop:
  assumes ok: "forest_ok st" and g: "grows st st'"
  shows "alive st n \<Longrightarrow> root_loop k st n = Some r \<Longrightarrow> root_loop k' st' n = Some r' \<Longrightarrow> r = r'"
proof (induction k arbitrary: n k')
  case (Suc k)
  have p: "parent st' n = parent st n" using g Suc.prems(1) by (simp add: grows_def keeps_def)
  obtain j where j: "k' = Suc j" using Suc.prems(3) by (cases k') auto
  show ?case
  proof (cases "parent st n")
    case (Some q)
    have "alive st q" using parent_alive [OF ok Suc.prems(1) Some] by simp
    then show ?thesis using Suc.IH [of q j] Suc.prems(2,3) Some p j by simp
  qed (use Suc.prems p j in simp)
qed simp

lemma grows_path_start:
  assumes ok: "forest_ok st" and g: "grows st st'" and n: "alive st n"
  shows "path_start st' n p sep = path_start st n p sep"
proof -
  have n': "alive st' n" "forest_ok st'" using g grows_alive [OF g n] by (simp_all add: grows_def)
  obtain r r' where r: "root_of st n = Some r" "root_of st' n = Some r'"
    using root_of_spec [OF ok n] root_of_spec [OF n'(2,1)] by blast
  then have "r = r'" using grows_root_loop [OF ok g n] unfolding root_of_def by blast
  then show ?thesis using r by (simp add: path_start_def)
qed

lemma path_start_alive:
  assumes "forest_ok st" "alive st n"
  shows "\<exists>a. path_start st n p sep = Some (a, segments sep (if p \<noteq> [] \<and> hd p = sep then tl p else p)) \<and> alive st a"
  using root_of_spec [OF assms] assms(2) by (auto simp: path_start_def)

text \<open>C15: On a well-formed tree, \<open>at(path)\<close> without shadows, for a path all of whose segments are
  keys, returns a node: the one the const \<open>at\<close> finds under that path afterwards. The tree stays
  well-formed, every node keeps its name, value, parent, shadow and flags, and its children keep
  their positions (new ones are appended); nothing at all changes when the path existed.\<close>

theorem ensure_path_finds:
  assumes "forest_ok st" "alive st n"
    and "key_segs key_sep (segments path_sep (if p \<noteq> [] \<and> hd p = path_sep then tl p else p))"
  shows "\<exists>c st'. ensure_path n p False path_sep key_sep st = Some (Some c, st') \<and> grows st st' \<and> alive st' c
    \<and> find_path st' n p False path_sep key_sep = Some (Some c)
    \<and> (\<forall>d. find_path st n p False path_sep key_sep = Some (Some d) \<longrightarrow> c = d \<and> st' = st)"
proof -
  let ?segs = "segments path_sep (if p \<noteq> [] \<and> hd p = path_sep then tl p else p)"
  obtain a where a: "path_start st n p path_sep = Some (a, ?segs)" "alive st a"
    using path_start_alive [OF assms(1,2)] by blast
  obtain c st' where c: "ensure_walk a False key_sep ?segs st = Some (Some c, st')" "grows st st'" "alive st' c"
    "find_walk st' a False key_sep ?segs = Some (Some c)"
    "\<And>d. find_walk st a False key_sep ?segs = Some (Some d) \<Longrightarrow> st' = st"
    using ensure_walk_spec [OF assms(1) a(2) assms(3)] by metis
  have "path_start st' n p path_sep = Some (a, ?segs)"
    using grows_path_start [OF assms(1) c(2) assms(2)] a(1) by simp
  then show ?thesis using a(1) c by (intro exI [of _ c] exI [of _ st']) (auto simp: ensure_path_def find_path_def)
qed

end
