(* ===== verification/Node_Delete.thy ===== *)
theory Node_Delete
  imports Node_Paths
begin

text \<open>
  Deletion in the data tree: the recursive destructor removes exactly the subtree, and
  \<open>remove\<close>, \<open>clear\<close> and \<open>erase\<close> keep the forest well formed.
\<close>

section \<open>Subtrees\<close>

definition dset :: "forest \<Rightarrow> nid \<Rightarrow> nid set" where
  "dset st n = {m. (n, m) \<in> (edges st)\<^sup>*}"

lemma dset_self [simp]: "n \<in> dset st n"
  by (simp add: dset_def)

lemma dset_anc: "m \<in> dset st n \<longleftrightarrow> m = n \<or> n \<in> anc st m"
  by (auto simp: dset_def anc_def rtrancl_eq_or_trancl)

lemma kids_edges:
  assumes "forest_ok st" "alive st n"
  shows "(n, c) \<in> edges st \<longleftrightarrow> c \<in> set (kids st n)"
  using kid_facts [OF assms, of c] parent_alive [OF assms(1), of c n] by (auto simp: edges_def)

lemma dset_step:
  assumes "forest_ok st" "alive st n"
  shows "dset st n = insert n (\<Union>c \<in> set (kids st n). dset st c)"
proof -
  have "(n, m) \<in> (edges st)\<^sup>* \<longleftrightarrow> m = n \<or> (\<exists>c. (n, c) \<in> edges st \<and> (c, m) \<in> (edges st)\<^sup>*)" for m
    by (auto elim: converse_rtranclE intro: converse_rtrancl_into_rtrancl)
  then show ?thesis using kids_edges [OF assms] by (auto simp: dset_def)
qed

lemma dset_alive: "forest_ok st \<Longrightarrow> alive st n \<Longrightarrow> m \<in> dset st n \<Longrightarrow> alive st m"
proof -
  assume ok: "forest_ok st" and n: "alive st n" and "m \<in> dset st n"
  then have "(n, m) \<in> (edges st)\<^sup>*" by (simp add: dset_def)
  then show "alive st m" using n
    by (induction rule: rtrancl_induct) (auto dest: edges_alive [OF ok])
qed

lemma dset_finite: "forest_ok st \<Longrightarrow> alive st n \<Longrightarrow> finite (dset st n)"
proof -
  assume ok: "forest_ok st" and n: "alive st n"
  then have "dset st n \<subseteq> {..<next_id st}" using dset_alive alive_less by blast
  then show ?thesis using finite_subset by blast
qed

lemma card_dset_le: "forest_ok st \<Longrightarrow> alive st n \<Longrightarrow> card (dset st n) \<le> next_id st"
proof -
  assume ok: "forest_ok st" and n: "alive st n"
  then have "dset st n \<subseteq> {..<next_id st}" using dset_alive alive_less by blast
  then show ?thesis using card_mono [of "{..<next_id st}"] by force
qed

lemma kid_dset:
  assumes ok: "forest_ok st" and n: "alive st n" and c: "c \<in> set (kids st n)"
  shows "n \<notin> dset st c" "card (dset st c) < card (dset st n)" "dset st c \<subseteq> dset st n"
proof -
  have e: "(n, c) \<in> edges st" using kids_edges [OF ok n] c by simp
  show 1: "n \<notin> dset st c"
  proof
    assume "n \<in> dset st c"
    then have "(n, n) \<in> (edges st)\<^sup>+" using e by (auto simp: dset_def)
    then show False using ok by (simp add: forest_ok_def acyclic_def)
  qed
  show sub: "dset st c \<subseteq> dset st n"
    using e by (auto simp: dset_def intro: converse_rtrancl_into_rtrancl)
  show "card (dset st c) < card (dset st n)"
    using 1 sub dset_finite [OF ok n] by (intro psubset_card_mono) auto
qed

lemma siblings_disjoint:
  assumes ok: "forest_ok st" and n: "alive st n"
    and c: "c \<in> set (kids st n)" "c' \<in> set (kids st n)" "c \<noteq> c'"
  shows "dset st c \<inter> dset st c' = {}"
proof -
  have "m \<in> dset st c \<Longrightarrow> m \<in> dset st c' \<Longrightarrow> False" for m
  proof -
    assume "m \<in> dset st c" and m': "m \<in> dset st c'"
    then have "(c, m) \<in> (edges st)\<^sup>*" by (simp add: dset_def)
    then show False using m'
    proof (induction rule: rtrancl_induct)
      case base
      then have "c' \<in> anc st c" using c(3) by (simp add: dset_anc)
      moreover have "anc st c = insert n (anc st n)"
        using kid_facts [OF ok n c(1)] anc_step by blast
      ultimately have "n \<in> dset st c'"
        using kid_facts [OF ok n c(2)] anc_irrefl [OF ok, of n] anc_step [of st c' n]
          kid_dset(1) [OF ok n c(2)] by (auto simp: dset_anc)
      then show False using kid_dset(1) [OF ok n c(2)] by simp
    next
      case (step p m)
      have pm: "parent st m = Some p" "alive st m" using step.hyps(2) by (simp_all add: edges_def)
      show False
      proof (cases "m = c'")
        case True
        then have "p = n" using pm kid_facts [OF ok n c(2)] by simp
        then show False using step.hyps(1) kid_dset(1) [OF ok n c(1)] by (simp add: dset_def)
      next
        case False
        then have "c' \<in> anc st m" using step.prems by (simp add: dset_anc)
        then have "p \<in> dset st c'" using anc_step [OF pm(2,1)] by (auto simp: dset_anc)
        then show False using step.IH by simp
      qed
    qed
  qed
  then show ?thesis by blast
qed

section \<open>The destructor\<close>

text \<open>All that deletion reads of a subtree is the children of its nodes.\<close>

definition agrees :: "forest \<Rightarrow> forest \<Rightarrow> nid set \<Rightarrow> bool" where
  "agrees st s D \<longleftrightarrow> (\<forall>m \<in> D. alive s m \<and> o_children (obj s m) = o_children (obj st m))"

definition erased :: "nid set \<Rightarrow> forest \<Rightarrow> forest \<Rightarrow> bool" where
  "erased D s s' \<longleftrightarrow> heap s' = (\<lambda>m. if m \<in> D then None else heap s m) \<and> next_id s' = next_id s
     \<and> (\<exists>ds. set ds = D \<and> distinct ds \<and> events s' = events s @ map Deleted ds)"

lemma agrees_kids: "agrees st s D \<Longrightarrow> n \<in> D \<Longrightarrow> kids s n = kids st n"
  by (simp add: agrees_def kids_def)

lemma agrees_upd:
  "agrees st s D \<Longrightarrow> agrees st (upd c (o_parent_update f) s) D"
  by (auto simp: agrees_def obj_upd)

lemma agrees_erased:
  assumes "agrees st s D" "heap s' = (\<lambda>m. if m \<in> X then None else heap s m)" "X \<inter> D = {}"
  shows "agrees st s' D"
proof -
  have "heap s' m = heap s m" if "m \<in> D" for m using assms(2,3) that by auto
  then show ?thesis using assms(1) by (simp add: agrees_def alive_def obj_def)
qed

lemma erased_append:
  assumes "erased D1 s s1" "erased D2 s1 s2" "D1 \<inter> D2 = {}"
  shows "erased (D1 \<union> D2) s s2"
proof -
  obtain d1 d2 where "set d1 = D1" "distinct d1" "events s1 = events s @ map Deleted d1"
    "set d2 = D2" "distinct d2" "events s2 = events s1 @ map Deleted d2"
    using assms by (auto simp: erased_def)
  then show ?thesis using assms
    by (auto simp: erased_def fun_eq_iff intro!: exI [of _ "d1 @ d2"])
qed

lemma delete_kids_from:
  assumes ok: "forest_ok st" and p: "alive st p"
    and node: "\<And>n s. alive st n \<Longrightarrow> card (dset st n) \<le> fuel \<Longrightarrow> agrees st s (dset st n) \<Longrightarrow>
      \<exists>s'. delete_node fuel n s = Some s' \<and> erased (dset st n) s s'"
  shows "set cs \<subseteq> set (kids st p) \<Longrightarrow> distinct cs \<Longrightarrow> (\<And>c. c \<in> set cs \<Longrightarrow> card (dset st c) \<le> fuel) \<Longrightarrow>
    agrees st s (\<Union>c \<in> set cs. dset st c) \<Longrightarrow>
    \<exists>s'. delete_kids fuel cs s = Some s' \<and> erased (\<Union>c \<in> set cs. dset st c) s s'"
proof (induction cs arbitrary: s)
  case Nil
  then show ?case by (simp add: erased_def)
next
  case (Cons c cs)
  let ?D = "\<Union>c \<in> set cs. dset st c"
  have ck: "c \<in> set (kids st p)" "c \<notin> set cs" using Cons.prems(1,2) by auto
  have c: "alive st c" using kid_facts [OF ok p ck(1)] by simp
  let ?s = "upd c (o_parent_update (\<lambda>_. None)) s"
  have ag: "agrees st ?s (dset st c)" "agrees st s (dset st c)" "agrees st s ?D"
    using Cons.prems(4) agrees_upd by (auto simp: agrees_def obj_upd)
  obtain s1 where s1: "delete_node fuel c ?s = Some s1" "erased (dset st c) ?s s1"
    using node [OF c _ ag(1)] Cons.prems(3) by auto
  have dis: "dset st c \<inter> ?D = {}"
    using siblings_disjoint [OF ok p ck(1)] Cons.prems(1) ck(2) by fastforce
  have er: "erased (dset st c) s s1"
  proof -
    have "(\<lambda>m. if m \<in> dset st c then None else heap ?s m) = (\<lambda>m. if m \<in> dset st c then None else heap s m)"
      by (auto simp: upd_def fun_eq_iff)
    then show ?thesis using s1(2) by (simp add: erased_def)
  qed
  have "agrees st s1 ?D"
    by (rule agrees_erased [OF ag(3) _ dis]) (use er in \<open>simp add: erased_def\<close>)
  then obtain s2 where s2: "delete_kids fuel cs s1 = Some s2" "erased ?D s1 s2"
    using Cons.IH [of s1] Cons.prems(1-3) by auto
  show ?case using s1(1) s2(1) erased_append [OF er s2(2) dis] by auto
qed

lemma delete_node_spec:
  assumes ok: "forest_ok st"
  shows "alive st n \<Longrightarrow> card (dset st n) \<le> fuel \<Longrightarrow> agrees st s (dset st n) \<Longrightarrow>
    \<exists>s'. delete_node fuel n s = Some s' \<and> erased (dset st n) s s'"
proof (induction fuel arbitrary: n s)
  case 0
  then have "dset st n = {}" using dset_finite [OF ok] by simp
  then show ?case using dset_self [of n st] by simp
next
  case (Suc fuel)
  let ?D = "\<Union>c \<in> set (kids st n). dset st c"
  have ds: "dset st n = insert n ?D" using dset_step [OF ok Suc.prems(1)] .
  have nD: "n \<notin> ?D" using kid_dset(1) [OF ok Suc.prems(1)] by blast
  have k: "kids s n = kids st n" using agrees_kids [OF Suc.prems(3)] by simp
  have le: "card (dset st c) \<le> fuel" if "c \<in> set (kids st n)" for c
    using kid_dset(2) [OF ok Suc.prems(1) that] Suc.prems(2) by simp
  have ag: "agrees st s ?D" using Suc.prems(3) ds by (auto simp: agrees_def)
  obtain s1 where s1: "delete_kids fuel (kids st n) s = Some s1" "erased ?D s s1"
    using delete_kids_from [OF ok Suc.prems(1) Suc.IH _ node_okD(2) [OF ok Suc.prems(1)] le ag] by blast
  let ?s = "s1\<lparr>events := events s1 @ [Deleted n], heap := (heap s1)(n := None)\<rparr>"
  have "erased (dset st n) s ?s"
  proof -
    obtain d where "set d = ?D" "distinct d" "events s1 = events s @ map Deleted d"
      using s1(2) by (auto simp: erased_def)
    then show ?thesis using s1(2) nD unfolding ds
      by (auto simp: erased_def fun_eq_iff intro!: exI [of _ "d @ [n]"])
  qed
  then show ?case using s1(1) k by simp
qed

lemma agrees_refl: "forest_ok st \<Longrightarrow> (\<And>m. m \<in> D \<Longrightarrow> alive st m) \<Longrightarrow> agrees st st D"
  by (simp add: agrees_def)

section \<open>The forest without a subtree\<close>

text \<open>Removing a set of nodes that is closed downwards, with the children vector of \<open>n\<close> dropped
  when the set holds the children of \<open>n\<close>.\<close>

lemma forest_ok_erased:
  assumes ok: "forest_ok st"
    and down: "\<And>p c. p \<in> D \<Longrightarrow> (p, c) \<in> edges st \<Longrightarrow> c \<in> D"
    and up: "\<And>p c. c \<in> D \<Longrightarrow> (p, c) \<in> edges st \<Longrightarrow> p \<in> D \<or> (reset \<and> p = n)"
    and n: "reset \<Longrightarrow> n \<notin> D \<and> set (kids st n) \<subseteq> D"
    and h: "heap s = (\<lambda>m. if m \<in> D then None
        else if reset \<and> m = n then map_option (o_children_update (\<lambda>_. None)) (heap st m) else heap st m)"
    and nid: "next_id s = next_id st"
  shows "forest_ok s" "alive s m = (alive st m \<and> m \<notin> D)"
    "alive s m \<Longrightarrow> kids s m = (if reset \<and> m = n then [] else kids st m)"
    "alive s m \<Longrightarrow> parent s m = parent st m"
    "alive s m \<Longrightarrow> name_of s m = name_of st m \<and> node_value s m = node_value st m
       \<and> o_shadow (obj s m) = o_shadow (obj st m) \<and> o_flags (obj s m) = o_flags (obj st m)"
proof -
  show al: "alive s m = (alive st m \<and> m \<notin> D)" for m by (auto simp: alive_def h)
  have ob: "obj s m = (if reset \<and> m = n then o_children_update (\<lambda>_. None) (obj st m) else obj st m)"
    if "alive s m" for m
    using that by (auto simp: obj_def h al alive_def)
  show k: "alive s m \<Longrightarrow> kids s m = (if reset \<and> m = n then [] else kids st m)" for m
    by (simp add: kids_def ob)
  show p: "alive s m \<Longrightarrow> parent s m = parent st m" for m by (simp add: parent_def ob)
  show d: "alive s m \<Longrightarrow> name_of s m = name_of st m \<and> node_value s m = node_value st m
       \<and> o_shadow (obj s m) = o_shadow (obj st m) \<and> o_flags (obj s m) = o_flags (obj st m)" for m
    by (simp add: name_of_def node_value_def ob)
  have kal: "alive s c \<and> alive st c \<and> parent st c = Some m"
    if "alive s m" "c \<in> set (kids s m)" for m c
  proof -
    have m: "alive st m" "m \<notin> D" "c \<in> set (kids st m)" using that k [of m] al by (auto split: if_splits)
    then have c: "alive st c" "parent st c = Some m" using kid_facts [OF ok m(1)] by auto
    then have "(m, c) \<in> edges st" by (simp add: edges_def)
    then have "c \<notin> D" using up [of c m] m(2) that k [OF that(1)] by auto
    then show ?thesis using c al by simp
  qed
  have "node_ok s m" if m: "alive s m" for m
    unfolding node_ok_def
  proof (intro conjI ballI allI impI)
    have m': "alive st m" "m \<notin> D" using m al by simp_all
    show "children_ok s m"
    proof (cases "reset \<and> m = n")
      case True
      then show ?thesis using m by (simp add: children_ok_def ob)
    next
      case False
      then have "o_children (obj s m) = o_children (obj st m)" using m by (auto simp: ob)
      moreover have "\<forall>d \<in> set (kids st m). name_of s d = name_of st d"
        using kal [OF m] k [OF m] False d by auto
      ultimately show ?thesis using children_ok_cong node_okD(1) [OF ok m'(1)] by blast
    qed
    show "distinct (kids s m)" using k [OF m] node_okD(2) [OF ok m'(1)] by simp
    show "alive s c" "parent s c = Some m" if "c \<in> set (kids s m)" for c
      using kal [OF m that] p by auto
    show "alive s q" "m \<in> set (kids s q)" if mq: "parent s m = Some q" for q
    proof -
      have pq: "parent st m = Some q" using mq p [OF m] by simp
      then have q: "alive st q" "m \<in> set (kids st q)" "(q, m) \<in> edges st"
        using parent_alive [OF ok m'(1)] m'(1) by (auto simp: edges_def)
      then have qD: "q \<notin> D" using down m'(2) by blast
      then show "alive s q" using q al by simp
      have "\<not> (reset \<and> q = n)" using n q(2) m'(2) by blast
      then show "m \<in> set (kids s q)" using k [of q] q qD al by simp
    qed
  qed
  moreover have "edges s \<subseteq> edges st" using al p by (auto simp: edges_def)
  then have "acyclic (edges s)" using ok acyclic_subset by (auto simp: forest_ok_def)
  moreover have "alive s m \<Longrightarrow> m < next_id s" for m using al alive_less [OF ok] nid by simp
  ultimately show "forest_ok s" by (simp add: forest_ok_def)
qed

section \<open>remove and clear\<close>

text \<open>Deleting a whole tree: the node has no parent.\<close>

lemma delete_root_spec:
  assumes ok: "forest_ok st" and n: "alive st n" "parent st n = None"
  shows "\<exists>s. delete_node (next_id st + 1) n st = Some s \<and> forest_ok s
    \<and> (\<forall>m. alive s m = (alive st m \<and> m \<notin> dset st n))
    \<and> (\<forall>m. alive s m \<longrightarrow> kids s m = kids st m \<and> parent s m = parent st m
         \<and> name_of s m = name_of st m \<and> node_value s m = node_value st m)
    \<and> (\<exists>ds. set ds = dset st n \<and> distinct ds \<and> events s = events st @ map Deleted ds)"
proof -
  have "agrees st st (dset st n)" using dset_alive [OF ok n(1)] by (simp add: agrees_def)
  then obtain s where s: "delete_node (next_id st + 1) n st = Some s" "erased (dset st n) st s"
    using delete_node_spec [OF ok n(1)] card_dset_le [OF ok n(1)] le_SucI by (metis Suc_eq_plus1)
  have down: "p \<in> dset st n \<Longrightarrow> (p, c) \<in> edges st \<Longrightarrow> c \<in> dset st n" for p c
    by (auto simp: dset_def intro: rtrancl_into_rtrancl)
  have up: "p \<in> dset st n \<or> (False \<and> p = n)" if "c \<in> dset st n" "(p, c) \<in> edges st" for p c
  proof -
    have "alive st c" "parent st c = Some p" using that(2) by (simp_all add: edges_def)
    then show ?thesis using that(1) n(2) anc_step [of st c p] by (auto simp: dset_anc)
  qed
  have h: "heap s = (\<lambda>m. if m \<in> dset st n then None
      else if False \<and> m = n then map_option (o_children_update (\<lambda>_. None)) (heap st m) else heap st m)"
    "next_id s = next_id st"
    using s(2) by (auto simp: erased_def fun_eq_iff)
  have nk: "False \<Longrightarrow> n \<notin> dset st n \<and> set (kids st n) \<subseteq> dset st n" by simp
  have f: "forest_ok s" "\<And>m. alive s m = (alive st m \<and> m \<notin> dset st n)"
    "\<And>m. alive s m \<Longrightarrow> kids s m = kids st m" "\<And>m. alive s m \<Longrightarrow> parent s m = parent st m"
    "\<And>m. alive s m \<Longrightarrow> name_of s m = name_of st m \<and> node_value s m = node_value st m"
    using forest_ok_erased [OF ok, where D = "dset st n" and reset = False and n = n and s = s,
        OF down up nk h] by simp_all
  moreover have "\<exists>ds. set ds = dset st n \<and> distinct ds \<and> events s = events st @ map Deleted ds"
    using s(2) unfolding erased_def by blast
  ultimately show ?thesis using s(1) by blast
qed

lemma dset_eq_detached:
  assumes ok: "forest_ok st" "forest_ok st'" and sd: "same_data st st'"
    and p: "parent st' c = None" "\<And>m. m \<noteq> c \<Longrightarrow> alive st m \<Longrightarrow> parent st' m = parent st m"
  shows "dset st' c = dset st c"
proof
  have al: "\<And>m. alive st' m = alive st m" using sd by (simp add: same_data_def)
  have acy: "acyclic (edges st)" using ok(1) unfolding forest_ok_def by blast
  have e: "edges st' \<subseteq> edges st" by (rule edges_detached [OF al p])
  show "dset st' c \<subseteq> dset st c" using rtrancl_mono [OF e] by (auto simp: dset_def)
  show "dset st c \<subseteq> dset st' c"
  proof
    fix m assume "m \<in> dset st c"
    then have "(c, m) \<in> (edges st)\<^sup>*" by (simp add: dset_def)
    then show "m \<in> dset st' c"
    proof (induction rule: rtrancl_induct)
      case (step q m)
      have "(c, m) \<in> (edges st)\<^sup>+" using step.hyps by (rule rtrancl_into_trancl1)
      then have "m \<noteq> c" using acy unfolding acyclic_def by blast
      then have "(q, m) \<in> edges st'" using step.hyps(2) p(2) al by (auto simp: edges_def)
      then show ?case using step.IH unfolding dset_def by (blast intro: rtrancl_into_rtrancl)
    qed (simp add: dset_def)
  qed
qed

lemma remove_child_spec:
  assumes ok: "forest_ok st" and n: "alive st n" and c: "c \<in> set (kids st n)"
  shows "\<exists>s. remove_child n (Some c) st = Some (True, s) \<and> forest_ok s
    \<and> (\<forall>m. alive s m = (alive st m \<and> m \<notin> dset st c))
    \<and> kids s n = remove1 c (kids st n)
    \<and> (\<forall>m. alive s m \<longrightarrow> (m \<noteq> n \<longrightarrow> kids s m = kids st m) \<and> parent s m = parent st m
         \<and> name_of s m = name_of st m \<and> node_value s m = node_value st m)"
proof -
  obtain st' where t: "take_child n (Some c) st = Some (Some c, st')" "forest_ok st'" "same_data st st'"
    "kids st' n = remove1 c (kids st n)" "parent st' c = None"
    "\<And>m. m \<noteq> n \<Longrightarrow> alive st m \<Longrightarrow> kids st' m = kids st m"
    "\<And>m. m \<noteq> c \<Longrightarrow> alive st m \<Longrightarrow> parent st' m = parent st m"
    using take_child_spec [OF ok n c] by metis
  have al: "\<And>m. alive st' m = alive st m" using t(3) by (simp add: same_data_def)
  have ca: "alive st' c" using kid_facts [OF ok n c] al by simp
  have ds: "dset st' c = dset st c" by (rule dset_eq_detached [OF ok t(2,3,5,7)])
  have nD: "n \<notin> dset st c" by (rule kid_dset(1) [OF ok n c])
  obtain s where s: "delete_node (next_id st' + 1) c st' = Some s" "forest_ok s"
    "\<And>m. alive s m = (alive st m \<and> m \<notin> dset st c)"
    "\<And>m. alive s m \<Longrightarrow> kids s m = kids st' m \<and> parent s m = parent st' m
         \<and> name_of s m = name_of st' m \<and> node_value s m = node_value st' m"
    using delete_root_spec [OF t(2) ca t(5)] unfolding ds al by metis
  have "alive s m \<Longrightarrow> m \<noteq> c" for m using s(3) by auto
  moreover have "alive s n" using s(3) n nD by simp
  moreover have "alive s m \<Longrightarrow> name_of st' m = name_of st m \<and> node_value st' m = node_value st m" for m
    using t(3) s(3) by (simp add: same_data_def)
  ultimately show ?thesis
    using t s by (auto simp: remove_child_def intro!: exI [of _ s])
qed

lemma dset_mono_kids:
  assumes "forest_ok st" "alive st n"
  defines "D \<equiv> (\<Union>c \<in> set (kids st n). dset st c)"
  shows "n \<notin> D" "p \<in> D \<Longrightarrow> (p, c) \<in> edges st \<Longrightarrow> c \<in> D"
    "c \<in> D \<Longrightarrow> (p, c) \<in> edges st \<Longrightarrow> p \<in> D \<or> p = n" "set (kids st n) \<subseteq> D"
    "m \<in> D \<Longrightarrow> alive st m"
proof -
  show "n \<notin> D" using kid_dset(1) [OF assms(1,2)] by (auto simp: D_def)
  show "p \<in> D \<Longrightarrow> (p, c) \<in> edges st \<Longrightarrow> c \<in> D"
    by (auto simp: D_def dset_def intro: rtrancl_into_rtrancl)
  show "set (kids st n) \<subseteq> D" by (auto simp: D_def)
  show "m \<in> D \<Longrightarrow> alive st m"
    using dset_alive [OF assms(1)] kid_facts [OF assms(1,2)] by (auto simp: D_def)
  show "c \<in> D \<Longrightarrow> (p, c) \<in> edges st \<Longrightarrow> p \<in> D \<or> p = n"
  proof -
    assume "c \<in> D" and e: "(p, c) \<in> edges st"
    then obtain k where k: "k \<in> set (kids st n)" "c \<in> dset st k" by (auto simp: D_def)
    have pc: "alive st c" "parent st c = Some p" using e by (simp_all add: edges_def)
    show "p \<in> D \<or> p = n"
    proof (cases "c = k")
      case True
      then show ?thesis using kid_facts [OF assms(1,2) k(1)] pc by simp
    next
      case False
      then have "p \<in> dset st k" using k(2) anc_step [OF pc] by (auto simp: dset_anc)
      then show ?thesis using k(1) by (auto simp: D_def)
    qed
  qed
qed

lemma clear_children_spec:
  assumes ok: "forest_ok st" and n: "alive st n" and ch: "o_children (obj st n) \<noteq> None"
  defines "D \<equiv> (\<Union>c \<in> set (kids st n). dset st c)"
  shows "\<exists>s. clear_children n True st = Some s \<and> forest_ok s
    \<and> (\<forall>m. alive s m = (alive st m \<and> m \<notin> D))
    \<and> kids s n = []
    \<and> (\<forall>m. alive s m \<longrightarrow> (m \<noteq> n \<longrightarrow> kids s m = kids st m) \<and> parent s m = parent st m
         \<and> name_of s m = name_of st m \<and> node_value s m = node_value st m
         \<and> o_flags (obj s m) = o_flags (obj st m))"
proof -
  note D = dset_mono_kids [OF ok n, folded D_def]
  have node: "\<And>m s. alive st m \<Longrightarrow> card (dset st m) \<le> next_id st + 1 \<Longrightarrow> agrees st s (dset st m) \<Longrightarrow>
      \<exists>s'. delete_node (next_id st + 1) m s = Some s' \<and> erased (dset st m) s s'"
    by (rule delete_node_spec [OF ok])
  have le: "card (dset st c) \<le> next_id st + 1" if "c \<in> set (kids st n)" for c
    using card_dset_le [OF ok, of c] kid_facts [OF ok n that] by simp
  have "agrees st st D" using D(5) by (simp add: agrees_def)
  then obtain s where s: "delete_kids (next_id st + 1) (kids st n) st = Some s" "erased D st s"
    using delete_kids_from [OF ok n node subset_refl node_okD(2) [OF ok n] le] unfolding D_def by blast
  define s' where "s' = upd n (o_children_update (\<lambda>_. None)) s"
  have h: "heap s' = (\<lambda>m. if m \<in> D then None
      else if True \<and> m = n then map_option (o_children_update (\<lambda>_. None)) (heap st m) else heap st m)"
    "next_id s' = next_id st"
    using s(2) D(1) by (auto simp: s'_def upd_def erased_def fun_eq_iff)
  have up: "\<And>p c. c \<in> D \<Longrightarrow> (p, c) \<in> edges st \<Longrightarrow> p \<in> D \<or> (True \<and> p = n)" using D(3) by simp
  have nk: "True \<Longrightarrow> n \<notin> D \<and> set (kids st n) \<subseteq> D" using D(1,4) by simp
  have "nodes (the (o_children (obj st n))) = kids st n" using ch by (auto simp: kids_def)
  then have "clear_children n True st = Some s'"
    using ch s(1) by (auto simp: clear_children_def s'_def)
  moreover have fs: "forest_ok s'" "\<And>m. alive s' m = (alive st m \<and> m \<notin> D)"
    "\<And>m. alive s' m \<Longrightarrow> kids s' m = (if m = n then [] else kids st m)"
    "\<And>m. alive s' m \<Longrightarrow> parent s' m = parent st m"
    "\<And>m. alive s' m \<Longrightarrow> name_of s' m = name_of st m \<and> node_value s' m = node_value st m
       \<and> o_shadow (obj s' m) = o_shadow (obj st m) \<and> o_flags (obj s' m) = o_flags (obj st m)"
    using forest_ok_erased [where D = D and reset = True and n = n and s = s', OF ok D(2) up nk h]
    by simp_all
  moreover have "kids s' n = []" using fs(2,3) [of n] D(1) n by simp
  ultimately show ?thesis by (intro exI [of _ s']) simp
qed

lemma clear_spec:
  assumes ok: "forest_ok st" and n: "alive st n"
  defines "D \<equiv> (\<Union>c \<in> set (kids st n). dset st c)"
  shows "\<exists>s. clear n True st = Some s \<and> forest_ok s
    \<and> (\<forall>m. alive s m = (alive st m \<and> m \<notin> D)) \<and> kids s n = []
    \<and> (\<forall>m. alive s m \<longrightarrow> (m \<noteq> n \<longrightarrow> kids s m = kids st m) \<and> parent s m = parent st m
         \<and> name_of s m = name_of st m \<and> node_value s m = node_value st m)"
proof (cases "o_children (obj st n)")
  case None
  then have "kids st n = []" by (simp add: kids_def)
  then show ?thesis using None ok by (simp add: clear_def D_def)
next
  case (Some ch)
  obtain s where s: "clear_children n True st = Some s" "forest_ok s"
    "\<And>m. alive s m = (alive st m \<and> m \<notin> D)" "kids s n = []"
    "\<And>m. alive s m \<Longrightarrow> (m \<noteq> n \<longrightarrow> kids s m = kids st m) \<and> parent s m = parent st m
         \<and> name_of s m = name_of st m \<and> node_value s m = node_value st m"
    using clear_children_spec [OF ok n] Some unfolding D_def by (metis option.distinct(1))
  have a: "alive s n" using s(3) n dset_mono_kids(1) [OF ok n] by (simp add: D_def)
  obtain s' where s': "notify n (Removed n ''#0'' (int (length (nodes ch)) - 1)) NODE_REMOVED s = Some s'"
    "heap s' = heap s" "next_id s' = next_id s"
    using notify_total [OF s(2) a] by blast
  note h = heap_eq_facts [OF s'(2)]
  show ?thesis
  proof (cases "0 < int (length (nodes ch))")
    case True
    then have "clear n True st = Some s'" using Some s(1) s'(1) by (simp add: clear_def)
    moreover have "forest_ok s'" using forest_ok_heap [OF s'(2,3)] s(2) by simp
    ultimately show ?thesis using s by (intro exI [of _ s']) (simp add: h)
  next
    case False
    then have "clear n True st = Some s" using Some s(1) by (simp add: clear_def)
    then show ?thesis using s by blast
  qed
qed

end
