(* ===== verification/Node_Props.thy ===== *)
theory Node_Props
  imports Node_Ensure Node_Delete
begin

text \<open>
  What the node tree of \<open>ve/src/core/node.cpp\<close> promises: inserting and taking children, keys and
  paths that lead back to their node, removal of exactly a subtree, the signals a change emits and
  how far they bubble, and the loop that a missing ancestor check in \<open>insert\<close> makes possible.
\<close>

section \<open>Signals\<close>

text \<open>The nodes an activation reaches: upwards while the next node is watching, up to the first
  silent one.\<close>

fun lineage :: "nat \<Rightarrow> forest \<Rightarrow> nid \<Rightarrow> nid list" where
  "lineage 0 st n = []"
| "lineage (Suc k) st n = n # (case parent st n of None \<Rightarrow> [] | Some p \<Rightarrow> lineage k st p)"

definition reached :: "nat \<Rightarrow> forest \<Rightarrow> nid \<Rightarrow> nid list" where
  "reached k st n = takeWhile (\<lambda>m. \<not> isSilent st m) (n # takeWhile (isWatching st) (tl (lineage k st n)))"

definition bubble :: "forest \<Rightarrow> nid \<Rightarrow> nid list" where
  "bubble st n = (if isWatching st n then reached (next_id st + 1) st n else [])"

lemma reached_step:
  "reached (Suc k) st n = (if isSilent st n then []
     else n # (case parent st n of
         None \<Rightarrow> []
       | Some p \<Rightarrow> if isWatching st p \<and> 0 < k then reached k st p else []))"
  by (cases k) (auto simp: reached_def split: option.splits)

lemma activate_spec:
  assumes ok: "forest_ok st"
  shows "alive st n \<Longrightarrow> card (anc st n) < fuel \<Longrightarrow> heap s = heap st \<Longrightarrow>
    activate fuel sig src n s = Some (s\<lparr>events := events s @ map (\<lambda>m. Activated m sig src) (reached fuel st n)\<rparr>)"
proof (induction fuel arbitrary: n s)
  case (Suc fuel)
  note h = heap_eq_facts [OF Suc.prems(3)]
  let ?s = "s\<lparr>events := events s @ [Activated n sig src]\<rparr>"
  have hs: "heap ?s = heap st" using Suc.prems(3) by simp
  note hs' = heap_eq_facts [OF hs]
  show ?case
  proof (cases "isSilent st n")
    case True
    then show ?thesis by (simp add: h reached_step del: lineage.simps)
  next
    case False
    then have t: "trigger n (Activated n sig src) s = ?s" by (simp add: trigger_def h)
    show ?thesis
    proof (cases "parent st n")
      case None
      then show ?thesis using False t by (simp add: h hs' Let_def reached_step)
    next
      case (Some q)
      have q: "card (anc st q) < fuel" "alive st q"
        using card_anc_parent [OF ok Suc.prems(1) Some] Suc.prems(2)
          parent_alive [OF ok Suc.prems(1) Some] by simp_all
      then have "0 < fuel" by simp
      then show ?thesis
        using Suc.IH [OF q(2,1) hs] False t Some by (simp add: h hs' Let_def reached_step)
    qed
  qed
qed simp

lemma notify_spec:
  assumes ok: "forest_ok st" and n: "alive st n"
  shows "notify n e sig st = Some (st\<lparr>events := events st @
    (if isSilent st n then [] else e # map (\<lambda>m. Activated m sig n) (bubble st n))\<rparr>)"
proof -
  define s1 where "s1 = trigger n e st"
  have h: "heap s1 = heap st" "next_id s1 = next_id st" by (simp_all add: s1_def)
  note hs = heap_eq_facts [OF h(1)]
  have ev: "s1\<lparr>events := x\<rparr> = st\<lparr>events := x\<rparr>" "events s1 = events st @ (if isSilent st n then [] else [e])" for x
    by (simp_all add: s1_def trigger_def)
  have r0: "isSilent st n \<Longrightarrow> reached (next_id st + 1) st n = []" by (simp add: reached_def)
  have "card (anc st n) < next_id st + 1" using card_anc_less [OF ok n] by simp
  from activate_spec [OF ok n this h(1), of sig n]
  have a: "activate (next_id st + 1) sig n n s1 = Some (st\<lparr>events := (events st @ (if isSilent st n then [] else [e]))
      @ map (\<lambda>m. Activated m sig n) (reached (next_id st + 1) st n)\<rparr>)"
    unfolding ev .
  show ?thesis
  proof (cases "isWatching st n")
    case True
    then show ?thesis using a r0
      by (cases "isSilent st n") (simp_all add: notify_def Let_def hs h bubble_def flip: s1_def del: activate.simps)
  next
    case False
    then show ?thesis
      by (simp add: notify_def Let_def hs bubble_def flip: s1_def) (simp add: s1_def trigger_def)
  qed
qed

text \<open>Values.\<close>

lemma forest_ok_value:
  fixes v :: var
  assumes ok: "forest_ok st" and n: "alive st n"
  defines "st1 \<equiv> upd n (o_value_update (\<lambda>_. v)) st"
  shows "forest_ok st1" "alive st1 m = alive st m" "isSilent st1 n = isSilent st n" "bubble st1 n = bubble st n"
    "node_value st1 n = v"
    "alive st m \<Longrightarrow> kids st1 m = kids st m \<and> parent st1 m = parent st m \<and> name_of st1 m = name_of st m"
    "m \<noteq> n \<Longrightarrow> obj st1 m = obj st m"
proof -
  show al: "alive st1 m = alive st m" for m by (simp add: st1_def)
  have ob: "obj st1 m = (if m = n then o_value_update (\<lambda>_. v) (obj st m) else obj st m)" for m
    using n by (auto simp: st1_def obj_def upd_def alive_def)
  show d: "alive st m \<Longrightarrow> kids st1 m = kids st m \<and> parent st1 m = parent st m \<and> name_of st1 m = name_of st m" for m
    by (simp add: kids_def parent_def name_of_def ob)
  have d': "kids st1 = kids st" "parent st1 = parent st" "name_of st1 = name_of st"
    "isSilent st1 = isSilent st" "isWatching st1 = isWatching st"
    by (simp_all add: kids_def parent_def name_of_def isSilent_def isWatching_def ob fun_eq_iff)
  have co: "children_ok st1 = children_ok st"
    unfolding children_ok_def [abs_def] d' by (simp add: ob fun_eq_iff)
  have "node_ok st1 = node_ok st" unfolding node_ok_def [abs_def] al d' co ..
  moreover have "edges st1 = edges st" by (simp add: edges_def al d')
  moreover have "next_id st1 = next_id st" by (simp add: st1_def)
  ultimately show "forest_ok st1" using ok unfolding forest_ok_def al by simp
  show "isSilent st1 n = isSilent st n" by (simp add: d')
  have "lineage k st1 m = lineage k st m" for k m
    by (induction k arbitrary: m) (auto simp: d' split: option.splits)
  then show "bubble st1 n = bubble st n"
    by (simp add: bubble_def reached_def d' \<open>next_id st1 = next_id st\<close>)
  show "node_value st1 n = v" by (simp add: node_value_def ob)
  show "m \<noteq> n \<Longrightarrow> obj st1 m = obj st m" by (simp add: ob)
qed

text \<open>C18: Setting a value returns on every well-formed tree; only the node's value changes. A
  silent node emits nothing; any other node emits the change with the new and the old value, and a
  watching node then activates itself and its watching ancestors, nearest first, up to the first
  ancestor that does not watch or is silent.\<close>

theorem set_value_signals:
  assumes "forest_ok st" "alive st n"
  shows "\<exists>st'. set_value n v st = Some st' \<and> forest_ok st' \<and> node_value st' n = v
    \<and> (\<forall>m. alive st' m = alive st m) \<and> (\<forall>m. m \<noteq> n \<longrightarrow> obj st' m = obj st m)
    \<and> kids st' n = kids st n \<and> parent st' n = parent st n
    \<and> events st' = events st @ (if isSilent st n then []
        else Changed n v (node_value st n) # map (\<lambda>m. Activated m NODE_CHANGED n) (bubble st n))"
proof -
  define st1 where "st1 = upd n (o_value_update (\<lambda>_. v)) st"
  note f = forest_ok_value [OF assms, where v = v, folded st1_def]
  define st2 where "st2 = st1\<lparr>events := events st1 @ (if isSilent st n then []
        else Changed n v (node_value st n) # map (\<lambda>m. Activated m NODE_CHANGED n) (bubble st n))\<rparr>"
  have n1: "alive st1 n" using assms(2) f(2) by simp
  have "set_value n v st = Some st2"
    using notify_spec [OF f(1) n1, of "Changed n v (node_value st n)" NODE_CHANGED] f(3,4)
    by (simp add: set_value_def st2_def flip: st1_def)
  moreover have h: "heap st2 = heap st1" "next_id st2 = next_id st1" by (simp_all add: st2_def)
  moreover have "forest_ok st2" using forest_ok_heap [OF h] f(1) by simp
  ultimately show ?thesis
    using f assms(2) heap_eq_facts [OF h(1)] by (intro exI [of _ st2]) (simp add: st2_def st1_def)
qed

section \<open>A tree to try things on\<close>

text \<open>Root 0 without a name, its child 2 named robot, and the two children 3 and 4 of that, both
  named arm.\<close>

definition demo_node :: "string \<Rightarrow> nid option \<Rightarrow> (string \<Rightarrow> nat list option) \<Rightarrow> nid list \<Rightarrow> nobj" where
  "demo_node nm p idx cs = \<lparr>o_name = nm, o_parent = p, o_shadow = None,
     o_children = Some \<lparr>indices = idx, nodes = cs\<rparr>, o_value = VNone, o_flags = 0\<rparr>"

definition demo :: forest where
  "demo = \<lparr>heap = [0 \<mapsto> demo_node [] None [''robot'' \<mapsto> [0]] [2],
      2 \<mapsto> demo_node ''robot'' (Some 0) [''arm'' \<mapsto> [0, 1]] [3, 4],
      3 \<mapsto> demo_node ''arm'' (Some 2) Map.empty [],
      4 \<mapsto> demo_node ''arm'' (Some 2) Map.empty []],
    next_id = 5, events = []\<rparr>"

lemma demo_obj:
  "obj demo 0 = demo_node [] None [''robot'' \<mapsto> [0]] [2]"
  "obj demo 2 = demo_node ''robot'' (Some 0) [''arm'' \<mapsto> [0, 1]] [3, 4]"
  "obj demo 3 = demo_node ''arm'' (Some 2) Map.empty []"
  "obj demo 4 = demo_node ''arm'' (Some 2) Map.empty []"
  by (simp_all add: obj_def demo_def)

lemma demo_alive: "alive demo 0" "alive demo 2" "alive demo 3" "alive demo 4" "next_id demo = 5"
  by (simp_all add: alive_def demo_def)

lemma demo_only: "alive demo m \<Longrightarrow> m = 0 \<or> m = 2 \<or> m = 3 \<or> m = 4"
  by (auto simp: alive_def demo_def split: if_splits)

lemma demo_kids: "kids demo 0 = [2]" "kids demo 2 = [3, 4]" "kids demo 3 = []" "kids demo 4 = []"
  by (simp_all add: kids_def demo_obj demo_node_def)

lemma demo_parent: "parent demo 0 = None" "parent demo 2 = Some 0" "parent demo 3 = Some 2" "parent demo 4 = Some 2"
  by (simp_all add: parent_def demo_obj demo_node_def)

lemma demo_name: "name_of demo 0 = []" "name_of demo 2 = ''robot''" "name_of demo 3 = ''arm''" "name_of demo 4 = ''arm''"
  by (simp_all add: name_of_def demo_obj demo_node_def)

lemma demo_ok: "forest_ok demo"
proof -
  have "children_ok demo m" if "alive demo m" for m
    using demo_only [OF that] demo_name
    by (elim disjE; simp add: children_ok_def demo_obj demo_node_def fun_eq_iff idx_of_def positions_Cons)
  moreover have "edges demo \<subseteq> less_than"
    using demo_only demo_parent by (fastforce simp: edges_def)
  then have "acyclic (edges demo)" using acyclic_subset wf_acyclic wf_less_than by blast
  moreover have "node_ok demo m" if "children_ok demo m" "alive demo m" for m
    using demo_only [OF that(2)] that(1) demo_kids demo_parent demo_alive
    by (elim disjE; simp add: node_ok_def)
  moreover have "alive demo m \<Longrightarrow> m < next_id demo" for m using demo_only [of m] demo_alive(5) by auto
  ultimately show ?thesis unfolding forest_ok_def by blast
qed

lemma demo_proper: "proper_names demo"
proof -
  have "(name_of demo n = [] \<or> isName (name_of demo n) VE_NODE_PATH_SEP VE_NODE_KEY_SEP)
      \<and> int (length (kids demo n)) \<le> INT_MAX" if "alive demo n" for n
    using demo_only [OF that] demo_name demo_kids
    by (elim disjE; simp add: isName_def VE_NODE_PATH_SEP_def VE_NODE_KEY_SEP_def INT_MAX_def)
  then show ?thesis unfolding proper_names_def by blast
qed

lemma demo_anc: "isAncestorOf demo 4 (Some 0) = Some False" "isAncestorOf demo 0 (Some 4) = Some True"
proof -
  have "anc demo 0 = {}" by (rule anc_root) (simp add: demo_parent)
  moreover have "anc demo 4 = {2, 0}"
    using anc_step [OF demo_alive(4) demo_parent(4)] anc_step [OF demo_alive(2) demo_parent(2)] calculation
    by simp
  ultimately show "isAncestorOf demo 4 (Some 0) = Some False" "isAncestorOf demo 0 (Some 4) = Some True"
    using isAncestorOf_eq [OF demo_ok] demo_alive by simp_all
qed

theorem set_value_signals_witness:
  "forest_ok demo \<and> alive demo 4 \<and> (\<exists>st'. set_value 4 (VInt 7) demo = Some st' \<and> node_value st' 4 = VInt 7)"
  using set_value_signals [OF demo_ok demo_alive(4), of "VInt 7"] demo_ok demo_alive(4) by auto

section \<open>Inserting and taking\<close>

text \<open>C16: Inserting a node that is neither the receiver nor one of its ancestors returns; it
  succeeds exactly when the index, with -1 meaning the end, lies within the children that remain
  after the node has left its old parent. The node then stands at that index under its new parent
  and under no other, every other node keeps its parent and the order of its children, and the
  tree stays well-formed. On a bad index the node has still left its old parent.\<close>

theorem insert_moves_child:
  assumes "forest_ok st" "alive st n" "alive st c" "c \<noteq> n" "isAncestorOf st c (Some n) = Some False"
    and "ks = remove1 c (kids st n)" "r = resolve index (length ks)"
  shows "\<exists>st'. insert_child n (Some c) index st = Some (0 \<le> r \<and> r \<le> int (length ks), st')
    \<and> forest_ok st' \<and> same_data st st'
    \<and> (if 0 \<le> r \<and> r \<le> int (length ks)
       then kids st' n = insert_at (nat r) c ks \<and> parent st' c = Some n
       else kids st' n = ks \<and> parent st' c = None)
    \<and> (\<forall>m. m \<noteq> n \<longrightarrow> alive st m \<longrightarrow> kids st' m = remove1 c (kids st m))
    \<and> (\<forall>m. m \<noteq> c \<longrightarrow> alive st m \<longrightarrow> parent st' m = parent st m)"
  using insert_child_spec [OF assms(1-4) _ assms(6,7)] assms(5) isAncestorOf_eq [OF assms(1,2)] by simp

theorem insert_moves_child_witness:
  "\<exists>st'. insert_child 0 (Some 4) 0 demo = Some (True, st') \<and> kids st' 0 = [4, 2] \<and> kids st' 2 = [3]"
proof -
  from insert_moves_child [OF demo_ok demo_alive(1,4) _ demo_anc(1) refl refl, of 0]
  show ?thesis using demo_kids demo_alive by (auto simp: resolve_def insert_at_def)
qed

text \<open>Taking a child out of its parent returns it with its own subtree untouched: it has no
  parent afterwards, its siblings keep their order, every other node keeps its children and its
  parent, and the tree stays well-formed. Taking anything else returns a null pointer and leaves
  the children of every node as they were.\<close>

theorem take_child_removes:
  assumes "forest_ok st" "alive st n" "alive st c"
  shows "\<exists>st'. take_child n (Some c) st = Some (if c \<in> set (kids st n) then Some c else None, st')
    \<and> forest_ok st' \<and> same_data st st' \<and> kids st' n = remove1 c (kids st n)
    \<and> parent st' c = (if c \<in> set (kids st n) then None else parent st c)
    \<and> (\<forall>m. m \<noteq> n \<longrightarrow> alive st m \<longrightarrow> kids st' m = kids st m)
    \<and> (\<forall>m. m \<noteq> c \<longrightarrow> alive st m \<longrightarrow> parent st' m = parent st m)"
proof (cases "c \<in> set (kids st n)")
  case True
  then show ?thesis using take_child_spec [OF assms(1,2) True] by auto
next
  case False
  show ?thesis
  proof (cases "o_children (obj st n)")
    case None
    then show ?thesis using False assms(1) by (simp add: take_child_def not_kid_remove1)
  next
    case (Some ch)
    have co: "children_ok st n" using node_okD(1) [OF assms(1,2)] .
    have ch: "ch = \<lparr>indices = idx_of (map (name_of st) (kids st n)), nodes = kids st n\<rparr>"
      using children_record [OF co Some] .
    have "locate ch (name_of st c) c = (-1, -1, indices ch)"
      using locate_missing [OF False, of "name_of st" "name_of st c"] ch by simp
    then have t: "take_child n (Some c) st = Some (None, upd n (o_children_update (\<lambda>_. Some ch)) st)"
      using Some by (simp add: take_child_def)
    have "ensureChildren (obj st n) = ch" using Some by (simp add: ensureChildren_def)
    then show ?thesis
      using t False forest_ok_ensured [OF assms(1,2) refl] assms(3,2) by (simp add: not_kid_remove1)
  qed
qed

theorem take_child_removes_witness:
  "\<exists>st'. take_child 2 (Some 3) demo = Some (Some 3, st') \<and> kids st' 2 = [4] \<and> parent st' 3 = None"
  using take_child_removes [OF demo_ok demo_alive(2,3)] by (auto simp: demo_kids)

section \<open>Keys and paths\<close>

text \<open>For a child of a node, with any guess: \<open>indexOf\<close> is its position in the flat vector, and
  when no name holds a separator \<open>at\<close> finds the child under the key \<open>keyOf\<close> computes for it.\<close>

theorem child_key_finds:
  assumes "forest_ok st" "alive st n" "c \<in> set (kids st n)"
  shows "0 \<le> indexOf st n (Some c) guess \<and> child_index st n (indexOf st n (Some c) guess) = Some c
    \<and> (proper_names st \<longrightarrow>
         find_key st n (keyOf st n (Some c) guess) use_shadow VE_NODE_KEY_SEP = Some (Some c))"
  using assms indexOf_spec [OF assms(1,2)] pos_of_less [OF assms(3)] keyOf_spec [OF assms]
    find_child_key [OF assms(1) _ assms(2,3)]
  by (simp add: child_index_spec)

theorem child_key_finds_witness:
  "find_key demo 2 (keyOf demo 2 (Some 4) 7) False VE_NODE_KEY_SEP = Some (Some 4)
   \<and> keyOf demo 2 (Some 4) 7 = ''arm#1''"
proof -
  have "keyOf demo 2 (Some 4) 7 = ''arm#1''" by code_simp
  moreover have "4 \<in> set (kids demo 2)" by (simp add: demo_kids)
  ultimately show ?thesis using child_key_finds [OF demo_ok demo_alive(2), of 4 7 False] demo_proper by simp
qed

text \<open>C14: The path of a node relative to one of its ancestors leads from that ancestor back to the
  node; and when the root has no name, the path without an ancestor leads there from the root.\<close>

theorem path_finds:
  assumes "forest_ok st" "proper_names st" "alive st n" "isAncestorOf st a (Some n) = Some True"
  shows "(\<exists>p. path_of st n (Some a) = Some p
      \<and> find_path st a p use_shadow VE_NODE_PATH_SEP VE_NODE_KEY_SEP = Some (Some n))
    \<and> (parent st a = None \<and> name_of st a = [] \<longrightarrow>
        (\<exists>p. path_of st n None = Some p
          \<and> find_path st a p use_shadow VE_NODE_PATH_SEP VE_NODE_KEY_SEP = Some (Some n)))"
proof -
  have a: "a \<in> anc st n" using assms(4) isAncestorOf_eq [OF assms(1,3)] by simp
  have c: "card (anc st n) < next_id st" by (rule card_anc_less [OF assms(1,3)])
  obtain ks where ks: "ks \<noteq> []" "list_all clean_seg ks"
    "parent st a = None \<and> name_of st a = [] \<longrightarrow> path_of st n None = Some (join_sep [VE_NODE_PATH_SEP] ks)"
    "find_walk st a use_shadow VE_NODE_KEY_SEP ks = Some (Some n)"
    using path_walk [OF assms(1-3) c a, of use_shadow] unfolding path_of_def Suc_eq_plus1 by blast
  have "card (anc st n) < next_id st + 1" using c by simp
  then obtain ls where ls: "ls \<noteq> []" "list_all clean_seg ls"
    "path_of st n (Some a) = Some (join_sep [VE_NODE_PATH_SEP] ls)"
    "find_walk st a use_shadow VE_NODE_KEY_SEP ls = Some (Some n)"
    using path_walk [OF assms(1-3) _ a, of "next_id st + 1" use_shadow] unfolding path_of_def by blast
  show ?thesis using ks ls find_join [OF ks(1,2)] find_join [OF ls(1,2)] by simp
qed

theorem path_finds_witness:
  "\<exists>p. path_of demo 4 (Some 0) = Some p
     \<and> find_path demo 0 p True VE_NODE_PATH_SEP VE_NODE_KEY_SEP = Some (Some 4)"
  using path_finds [OF demo_ok demo_proper demo_alive(4) demo_anc(2)] by blast

theorem ensure_path_finds_witness:
  "\<exists>c st'. ensure_path 0 ''/robot/arm#1'' False VE_NODE_PATH_SEP VE_NODE_KEY_SEP demo = Some (Some c, st')
     \<and> find_path st' 0 ''/robot/arm#1'' False VE_NODE_PATH_SEP VE_NODE_KEY_SEP = Some (Some c)"
proof -
  have "key_segs VE_NODE_KEY_SEP (segments VE_NODE_PATH_SEP (if ''/robot/arm#1'' \<noteq> [] \<and> hd ''/robot/arm#1'' = VE_NODE_PATH_SEP
      then tl ''/robot/arm#1'' else ''/robot/arm#1''))"
    by code_simp
  from ensure_path_finds [OF demo_ok demo_alive(1) this] show ?thesis by blast
qed

section \<open>Removing\<close>

text \<open>C17: Removing a child deletes it and its descendants, and no other node; the other children of
  the parent keep their order and every surviving node its children, parent, name and value.\<close>

theorem remove_deletes_subtree:
  assumes "forest_ok st" "alive st n" "c \<in> set (kids st n)"
  shows "\<exists>s. remove_child n (Some c) st = Some (True, s) \<and> forest_ok s
    \<and> (\<forall>m. alive s m = (alive st m \<and> m \<noteq> c \<and> isAncestorOf st c (Some m) = Some False))
    \<and> kids s n = remove1 c (kids st n)
    \<and> (\<forall>m. alive s m \<longrightarrow> (m \<noteq> n \<longrightarrow> kids s m = kids st m) \<and> parent s m = parent st m
         \<and> name_of s m = name_of st m \<and> node_value s m = node_value st m)"
proof -
  have "m \<in> dset st c \<longleftrightarrow> m = c \<or> isAncestorOf st c (Some m) = Some True" if "alive st m" for m
    using isAncestorOf_eq [OF assms(1) that] dset_anc [of m st c] by auto
  moreover have "isAncestorOf st c (Some m) = Some True \<or> isAncestorOf st c (Some m) = Some False" if "alive st m" for m
    using isAncestorOf_eq [OF assms(1) that, of c] by auto
  ultimately have "(alive st m \<and> m \<notin> dset st c) \<longleftrightarrow> (alive st m \<and> m \<noteq> c \<and> isAncestorOf st c (Some m) = Some False)" for m
    by (metis option.inject)
  then show ?thesis using remove_child_spec [OF assms] by presburger
qed

theorem remove_deletes_subtree_witness:
  "\<exists>s. remove_child 0 (Some 2) demo = Some (True, s) \<and> kids s 0 = []"
  using remove_deletes_subtree [OF demo_ok demo_alive(1), of 2] by (auto simp: demo_kids)

text \<open>Clearing a node with deletion deletes all of its proper descendants and nothing else, and
  leaves the node without children.\<close>

theorem clear_deletes_descendants:
  assumes "forest_ok st" "alive st n"
  shows "\<exists>s. clear n True st = Some s \<and> forest_ok s
    \<and> (\<forall>m. alive s m = (alive st m \<and> isAncestorOf st n (Some m) = Some False)) \<and> kids s n = []
    \<and> (\<forall>m. alive s m \<longrightarrow> (m \<noteq> n \<longrightarrow> kids s m = kids st m) \<and> parent s m = parent st m
         \<and> name_of s m = name_of st m \<and> node_value s m = node_value st m)"
proof -
  let ?D = "\<Union>c \<in> set (kids st n). dset st c"
  have D: "m \<in> ?D \<longleftrightarrow> n \<in> anc st m" for m
  proof -
    have "m \<in> dset st n \<longleftrightarrow> m = n \<or> m \<in> ?D" using dset_step [OF assms] by blast
    then show ?thesis
      using dset_mono_kids(1) [OF assms] anc_irrefl [OF assms(1), of n] dset_anc [of m st n] by metis
  qed
  have "(alive st m \<and> m \<notin> ?D) \<longleftrightarrow> (alive st m \<and> isAncestorOf st n (Some m) = Some False)" for m
    using isAncestorOf_eq [OF assms(1), of m n] D [of m] by auto
  then show ?thesis using clear_spec [OF assms] by presburger
qed

theorem clear_deletes_descendants_witness:
  "\<exists>s. clear 2 True demo = Some s \<and> kids s 2 = [] \<and> kids s 0 = [2]"
proof -
  have "isAncestorOf demo 2 (Some 0) = Some False"
    using isAncestorOf_eq [OF demo_ok demo_alive(1), of 2] anc_root [of demo 0] demo_parent(1) by simp
  then show ?thesis
    using clear_deletes_descendants [OF demo_ok demo_alive(2)] demo_kids(1) demo_alive(1) by fastforce
qed

section \<open>Inserting an ancestor\<close>

definition cyclic :: "forest \<Rightarrow> nid set \<Rightarrow> bool" where
  "cyclic st S \<longleftrightarrow> (\<forall>m \<in> S. \<exists>p \<in> S. parent st m = Some p)"

lemma cyclic_walks:
  assumes "cyclic st S" "n \<in> S"
  shows "root_loop k st n = None \<and> path k st n None = None"
  using assms(2)
proof (induction k arbitrary: n)
  case (Suc k)
  then obtain p where "p \<in> S" "parent st n = Some p" using assms(1) by (auto simp: cyclic_def)
  then show ?case using Suc.IH by simp
qed simp

text \<open>\<open>insert\<close> does not check for ancestors: putting a root under its own grandchild succeeds,
  and afterwards neither the walk to the root nor the path of the node ever ends.\<close>

theorem insert_ancestor_diverges:
  "\<exists>st'. insert_child 4 (Some 0) (-1) demo = Some (True, st')
     \<and> (\<forall>k. root_loop k st' 4 = None \<and> path k st' 4 None = None)"
proof -
  have d: "detach 0 demo = Some demo" by (simp add: detach_def demo_parent)
  define s where "s = upd 0 (o_parent_update (\<lambda>_. Some 4))
    (upd 4 (o_children_update (\<lambda>_. Some \<lparr>indices = Map.empty, nodes = [0]\<rparr>)) demo)"
  have pl: "place_child 4 0 (-1) demo = (Some (toKey [] 0 VE_NODE_KEY_SEP), s)"
    by (simp add: place_child_def ensureChildren_def demo_obj demo_node_def demo_name s_def)
  have nt: "notify 4 e sig s = Some (s\<lparr>events := [e]\<rparr>)" for e sig
    by (simp add: notify_def trigger_def isSilent_def isWatching_def flags_get_def SILENT_def WATCHING_def
      obj_def s_def upd_def demo_def demo_node_def)
  have "insert_child 4 (Some 0) (-1) demo = Some (True, s\<lparr>events := [Added 4 (toKey [] 0 VE_NODE_KEY_SEP) 0]\<rparr>)"
    by (simp add: insert_child_def d pl nt)
  moreover have "cyclic (s\<lparr>events := x\<rparr>) {0, 2, 4}" for x
    by (simp add: cyclic_def parent_def obj_def s_def upd_def demo_def demo_node_def)
  ultimately show ?thesis using cyclic_walks [of _ "{0, 2, 4}" 4] by blast
qed

end
