(* ===== verification/Node_Copy.thy ===== *)
theory Node_Copy
  imports Node_Props
begin

text \<open>
  \<open>Node::copy\<close> of \<open>ve/src/core/node.cpp\<close>: make the children and the value of a node those of another
  one. Children are matched by name and occurrence through a \<open>CopyMatchState\<close>; children that match
  nothing are removed, sources that match nothing are inserted before the next match, and the rest is
  copied recursively. The fuel counts the levels of the recursion.
\<close>

section \<open>Matching children\<close>

record copy_match =
  cm_named :: "string \<Rightarrow> nid list"
  cm_anon :: "nid list"
  cm_cursor :: "string \<Rightarrow> nat"
  cm_anon_cursor :: nat
  cm_matched :: "nid list"

definition no_match :: copy_match where
  "no_match = \<lparr>cm_named = (\<lambda>_. []), cm_anon = [], cm_cursor = (\<lambda>_. 0), cm_anon_cursor = 0, cm_matched = []\<rparr>"

fun bucket_children :: "forest \<Rightarrow> nid list \<Rightarrow> copy_match \<Rightarrow> copy_match" where
  "bucket_children st [] cm = cm"
| "bucket_children st (c # cs) cm =
     bucket_children st cs
       (if name_of st c = [] then cm\<lparr>cm_anon := cm_anon cm @ [c]\<rparr>
        else cm\<lparr>cm_named := (cm_named cm)(name_of st c := cm_named cm (name_of st c) @ [c])\<rparr>)"

text \<open>The first candidate that is not matched yet, and the number of steps of the cursor.\<close>

fun next_unmatched :: "nid list \<Rightarrow> nid list \<Rightarrow> nid option \<times> nat" where
  "next_unmatched [] matched = (None, 0)"
| "next_unmatched (c # cs) matched =
     (if c \<notin> set matched then (Some c, 1)
      else (let (r, k) = next_unmatched cs matched in (r, Suc k)))"

definition take_copy_match :: "forest \<Rightarrow> nid \<Rightarrow> copy_match \<Rightarrow> nid option \<times> copy_match" where
  "take_copy_match st src cm =
     (let nm = name_of st src;
          (r, k) = (if nm = [] then next_unmatched (drop (cm_anon_cursor cm) (cm_anon cm)) (cm_matched cm)
                    else next_unmatched (drop (cm_cursor cm nm) (cm_named cm nm)) (cm_matched cm));
          cm1 = (if nm = [] then cm\<lparr>cm_anon_cursor := cm_anon_cursor cm + k\<rparr>
                 else cm\<lparr>cm_cursor := (cm_cursor cm)(nm := cm_cursor cm nm + k)\<rparr>)
      in (r, case r of Some c \<Rightarrow> cm1\<lparr>cm_matched := c # cm_matched cm1\<rparr> | None \<Rightarrow> cm1))"

fun match_all :: "forest \<Rightarrow> nid list \<Rightarrow> copy_match \<Rightarrow> copy_match" where
  "match_all st [] cm = cm"
| "match_all st (s # ss) cm = match_all st ss (snd (take_copy_match st s cm))"

section \<open>Copying\<close>

text \<open>From the last child to the first, remove what is not matched.\<close>

fun remove_unmatched :: "nid \<Rightarrow> nid list \<Rightarrow> nid list \<Rightarrow> forest \<Rightarrow> forest option" where
  "remove_unmatched n [] matched st = Some st"
| "remove_unmatched n (c # cs) matched st =
     (if c \<in> set matched then remove_unmatched n cs matched st
      else (case remove_child n (Some c) st of
              None \<Rightarrow> None | Some (_, st1) \<Rightarrow> remove_unmatched n cs matched st1))"

record copy_options =
  auto_insert :: bool
  auto_remove :: bool
  auto_update :: bool

definition insert_position :: "forest \<Rightarrow> nid \<Rightarrow> nid option \<Rightarrow> int" where
  "insert_position st n anchor =
     (let i = (case anchor of Some a \<Rightarrow> indexOf st n (Some a) (-1) | None \<Rightarrow> count st n)
      in if i < 0 then count st n else i)"

function (sequential) copy_node :: "nat \<Rightarrow> copy_options \<Rightarrow> nid \<Rightarrow> nid option \<Rightarrow> forest \<Rightarrow> forest option"
  and copy_sources :: "nat \<Rightarrow> copy_options \<Rightarrow> nid \<Rightarrow> nid list \<Rightarrow> copy_match \<Rightarrow> nid list \<Rightarrow> forest
    \<Rightarrow> (nid list \<times> forest) option"
  and flush_pending :: "nat \<Rightarrow> copy_options \<Rightarrow> nid \<Rightarrow> nid option \<Rightarrow> nid list \<Rightarrow> forest \<Rightarrow> forest option" where
  "copy_node 0 opts n other st = None"
| "copy_node (Suc fuel) opts n other st =
     (case other of
        None \<Rightarrow> Some st
      | Some src \<Rightarrow>
          if src = n then Some st
          else
            (let sources = kids st src;
                 removed = (if auto_remove opts \<and> kids st n \<noteq> []
                            then remove_unmatched n (rev (kids st n))
                                   (cm_matched (match_all st sources (bucket_children st (kids st n) no_match))) st
                            else Some st)
             in case removed of
                  None \<Rightarrow> None
                | Some st1 \<Rightarrow>
                    (case copy_sources fuel opts n sources (bucket_children st1 (kids st1 n) no_match) [] st1 of
                       None \<Rightarrow> None
                     | Some (pending, st2) \<Rightarrow>
                         (case flush_pending fuel opts n None pending st2 of
                            None \<Rightarrow> None
                          | Some st3 \<Rightarrow>
                              if auto_update opts then map_option snd (update_value n (node_value st3 src) st3)
                              else set_value n (node_value st3 src) st3))))"
| "copy_sources fuel opts n [] cm pending st = Some (pending, st)"
| "copy_sources fuel opts n (s # ss) cm pending st =
     (case take_copy_match st s cm of
        (None, cm1) \<Rightarrow> copy_sources fuel opts n ss cm1 (if auto_insert opts then pending @ [s] else pending) st
      | (Some match, cm1) \<Rightarrow>
          (case flush_pending fuel opts n (Some match) pending st of
             None \<Rightarrow> None
           | Some st1 \<Rightarrow>
               (case copy_node fuel opts match (Some s) st1 of
                  None \<Rightarrow> None
                | Some st2 \<Rightarrow> copy_sources fuel opts n ss cm1 [] st2)))"
| "flush_pending fuel opts n anchor [] st = Some st"
| "flush_pending fuel opts n anchor (s # ss) st =
     (let (inserted, st1) = new_node (name_of st s) st
      in case insert_child n (Some inserted) (insert_position st1 n anchor) st1 of
           None \<Rightarrow> None
         | Some (False, st2) \<Rightarrow>
             (case delete_node (next_id st2 + 1) inserted st2 of
                None \<Rightarrow> None | Some st3 \<Rightarrow> flush_pending fuel opts n anchor ss st3)
         | Some (True, st2) \<Rightarrow>
             (case copy_node fuel opts inserted (Some s) st2 of
                None \<Rightarrow> None | Some st3 \<Rightarrow> flush_pending fuel opts n anchor ss st3))"
  by pat_completeness auto

termination
  by (relation "measures [\<lambda>x. case x of Inl (f, _) \<Rightarrow> f | Inr (Inl (f, _)) \<Rightarrow> f | Inr (Inr (f, _)) \<Rightarrow> f,
      \<lambda>x. case x of Inl _ \<Rightarrow> 0 | Inr (Inl _) \<Rightarrow> 2 | Inr (Inr _) \<Rightarrow> 1,
      \<lambda>x. case x of Inl _ \<Rightarrow> 0 | Inr (Inl (_, _, _, ss, _)) \<Rightarrow> length ss | Inr (Inr (_, _, _, _, ss, _)) \<Rightarrow> length ss]")
    simp_all

section \<open>The shape of a subtree\<close>

datatype ntree = NT string var "ntree list"

fun shaped :: "forest \<Rightarrow> nid \<Rightarrow> ntree \<Rightarrow> bool" where
  "shaped st n (NT nm v ts) \<longleftrightarrow> alive st n \<and> name_of st n = nm \<and> node_value st n = v
     \<and> list_all2 (shaped st) (kids st n) ts"

fun height :: "ntree \<Rightarrow> nat" where
  "height (NT nm v ts) = Suc (fold max (map height ts) 0)"

text \<open>A change below \<open>n\<close>: the value and the children of \<open>n\<close> may differ and nodes may have been
  created, everything else is as before.\<close>

definition beside :: "nid \<Rightarrow> forest \<Rightarrow> forest \<Rightarrow> bool" where
  "beside n st st' \<longleftrightarrow> forest_ok st' \<and> (\<forall>m. alive st m \<longrightarrow> alive st' m \<and> name_of st' m = name_of st m
     \<and> parent st' m = parent st m \<and> (m \<noteq> n \<longrightarrow> kids st' m = kids st m \<and> node_value st' m = node_value st m))"

definition closed_kids :: "forest \<Rightarrow> nid set \<Rightarrow> bool" where
  "closed_kids st S \<longleftrightarrow> (\<forall>m \<in> S. alive st m \<and> set (kids st m) \<subseteq> S)"

lemma beside_refl: "forest_ok st \<Longrightarrow> beside n st st"
  by (simp add: beside_def)

lemma beside_trans: "beside n a b \<Longrightarrow> beside n b c \<Longrightarrow> beside n a c"
  by (simp add: beside_def)

lemma beside_inner: "beside n a b \<Longrightarrow> beside c b d \<Longrightarrow> \<not> alive a c \<Longrightarrow> beside n a d"
  unfolding beside_def by metis

lemma closed_beside: "closed_kids st S \<Longrightarrow> beside n st st' \<Longrightarrow> n \<notin> S \<Longrightarrow> closed_kids st' S"
  unfolding closed_kids_def beside_def by metis

lemma shaped_agree:
  assumes "closed_kids st S"
    "\<And>m. m \<in> S \<Longrightarrow> alive st' m \<and> name_of st' m = name_of st m \<and> node_value st' m = node_value st m \<and> kids st' m = kids st m"
  shows "m \<in> S \<Longrightarrow> shaped st m t \<Longrightarrow> shaped st' m t"
proof (induction t arbitrary: m)
  case (NT nm v ts)
  have "list_all2 (shaped st') (kids st m) ts"
  proof (rule list.rel_mono_strong)
    show "list_all2 (shaped st) (kids st m) ts" using NT.prems(2) by simp
  qed (use NT assms(1) in \<open>auto simp: closed_kids_def\<close>)
  then show ?case using NT.prems(2) assms(2) [OF NT.prems(1)] by simp
qed

lemma shaped_beside:
  assumes "closed_kids st S" "beside n st st'" "n \<notin> S"
  shows "m \<in> S \<Longrightarrow> shaped st m t \<Longrightarrow> shaped st' m t"
  using shaped_agree [OF assms(1), of st' m t] assms unfolding closed_kids_def beside_def by metis

lemma closed_dset: "forest_ok st \<Longrightarrow> alive st n \<Longrightarrow> closed_kids st (dset st n)"
  unfolding closed_kids_def
  by (metis (no_types, lifting) dset_alive dset_def kids_edges mem_Collect_eq rtrancl.rtrancl_into_rtrancl subsetI)

text \<open>Below a node, the subtrees of its children do not hold it.\<close>

lemma kid_shape:
  assumes "forest_ok st" "alive st n" "c \<in> set (kids st n)" "beside n st st'" "shaped st c t"
  shows "shaped st' c t"
  using assms kid_facts [OF assms(1-3)] kid_dset(1) [OF assms(1-3)]
  by (intro shaped_beside [OF closed_dset assms(4)]) auto

section \<open>Copying into a node without children\<close>

lemma take_no_match: "take_copy_match st s no_match = (None, no_match)"
  by (auto simp: take_copy_match_def no_match_def Let_def)

lemma copy_sources_unmatched:
  "auto_insert opts \<Longrightarrow> copy_sources fuel opts n ss no_match pending st = Some (pending @ ss, st)"
  by (induction ss arbitrary: pending) (simp_all add: take_no_match)

lemma insert_at_count:
  "parent st c = None \<Longrightarrow> insert_child n (Some c) (insert_position st n None) st = insert_child n (Some c) (-1) st"
proof -
  assume p: "parent st c = None"
  have e: "insert_position st n None = int (length (nodes (ensureChildren (obj st n))))"
    by (simp add: insert_position_def count_def ensureChildren_def split: option.splits)
  have "place_child n c (int (length (nodes (ensureChildren (obj st n))))) st = place_child n c (-1) st"
    unfolding place_child_def Let_def by simp
  then show ?thesis by (simp add: insert_child_def detach_def p e)
qed

text \<open>A new last child: what \<open>flush_pending\<close> inserts at the end.\<close>

lemma insert_fresh:
  assumes ok: "forest_ok st" and n: "alive st n"
  shows "\<exists>c st0 st1. new_node nm st = (c, st0) \<and> insert_child n (Some c) (insert_position st0 n None) st0 = Some (True, st1)
    \<and> \<not> alive st c \<and> beside n st st1 \<and> kids st1 n = kids st n @ [c] \<and> alive st1 c \<and> name_of st1 c = nm
    \<and> kids st1 c = [] \<and> node_value st1 c = VNone \<and> node_value st1 n = node_value st n"
proof -
  obtain cs st0 where nn: "new_nodes 1 nm st = (cs, st0)" by fastforce
  then have nw: "new_node nm st = (hd cs, st0)" by (auto simp: Let_def new_node_eq)
  note a = append_new [OF ok n zero_less_one nn]
  obtain st1 where st1: "insert_child n (Some (hd cs)) (-1) st0 = Some (True, st1)" "appended n nm cs st st1"
    using a(3) by auto
  have cs: "cs = [hd cs]" using a(1) by (cases cs) auto
  have "parent st0 (hd cs) = None" using nw by (auto simp: new_node_eq parent_def obj_def blank_def)
  then have "insert_child n (Some (hd cs)) (insert_position st0 n None) st0 = Some (True, st1)"
    using st1(1) insert_at_count by simp
  moreover have "hd cs \<in> set cs" by (subst cs) simp
  then have "\<not> alive st (hd cs)" "alive st1 (hd cs)" "name_of st1 (hd cs) = nm" "kids st1 (hd cs) = []"
    "node_value st1 (hd cs) = VNone" "kids st1 n = kids st n @ [hd cs]"
    using st1(2) cs unfolding appended_def by (blast, blast, blast, blast, blast, metis)
  moreover have "beside n st st1" "node_value st1 n = node_value st n"
    using st1(2) n unfolding appended_def beside_def keeps_def by blast+
  ultimately show ?thesis using nw by blast
qed

lemma set_value_beside:
  assumes ok: "forest_ok st" and n: "alive st n"
  shows "\<exists>st'. set_value n v st = Some st' \<and> beside n st st' \<and> kids st' n = kids st n \<and> node_value st' n = v"
proof -
  define st1 where "st1 = upd n (o_value_update (\<lambda>_. v)) st"
  note f = forest_ok_value [OF ok n, where v = v, folded st1_def]
  have n1: "alive st1 n" using f(2) n by simp
  obtain st' where st': "notify n (Changed n v (node_value st n)) NODE_CHANGED st1 = Some st'" "heap st' = heap st1"
    "next_id st' = next_id st1" using notify_total [OF f(1) n1] by blast
  note h = heap_eq_facts [OF st'(2)]
  have "forest_ok st'" using forest_ok_heap [OF st'(2,3)] f(1) by simp
  moreover have "node_value st1 m = node_value st m" if "m \<noteq> n" for m using f(7) [OF that] by (simp add: node_value_def)
  ultimately have "beside n st st'" unfolding beside_def using f(2,6) by (simp add: h)
  moreover have "set_value n v st = Some st'" using st'(1) by (simp add: set_value_def Let_def st1_def)
  ultimately show ?thesis using f(5,6) n by (auto simp: h)
qed

definition final_value :: "copy_options \<Rightarrow> var \<Rightarrow> var \<Rightarrow> var" where
  "final_value opts old v = (if auto_update opts \<and> var_eq old v then old else v)"

lemma final_value_none: "final_value opts VNone v = v"
  by (cases v) (auto simp: final_value_def)

lemma copy_value_beside:
  assumes ok: "forest_ok st" and n: "alive st n"
  shows "\<exists>st'. (if auto_update opts then map_option snd (update_value n v st) else set_value n v st) = Some st'
    \<and> beside n st st' \<and> kids st' n = kids st n \<and> node_value st' n = final_value opts (node_value st n) v"
  using set_value_beside [OF ok n, of v] beside_refl [OF ok]
  by (auto simp: update_value_def final_value_def)

lemma kids_shape:
  assumes "forest_ok st" "alive st n" "set cs \<subseteq> set (kids st n)" "beside n st st'" "list_all2 (shaped st) cs ts"
  shows "list_all2 (shaped st') cs ts"
  by (rule list.rel_mono_strong [OF assms(5)]) (use kid_shape [OF assms(1,2) _ assms(4)] assms(3) in blast)

lemma flush_spec:
  assumes copy: "\<And>c st s t. forest_ok st \<Longrightarrow> alive st c \<Longrightarrow> kids st c = [] \<Longrightarrow> closed_kids st S \<Longrightarrow> s \<in> S \<Longrightarrow> c \<notin> S
      \<Longrightarrow> shaped st s t \<Longrightarrow> height t \<le> fuel \<Longrightarrow> node_value st c = VNone \<Longrightarrow> name_of st c = name_of st s
      \<Longrightarrow> \<exists>st'. copy_node fuel opts c (Some s) st = Some st' \<and> beside c st st' \<and> shaped st' c t"
  shows "forest_ok st \<Longrightarrow> alive st n \<Longrightarrow> closed_kids st S \<Longrightarrow> n \<notin> S \<Longrightarrow> set ss \<subseteq> S \<Longrightarrow> list_all2 (shaped st) ss ts
      \<Longrightarrow> \<forall>t \<in> set ts. height t \<le> fuel
      \<Longrightarrow> \<exists>st' cs. flush_pending fuel opts n None ss st = Some st' \<and> beside n st st' \<and> kids st' n = kids st n @ cs
            \<and> list_all2 (shaped st') cs ts \<and> node_value st' n = node_value st n"
proof (induction ss arbitrary: st ts)
  case Nil
  then show ?case using beside_refl by auto
next
  case (Cons s ss)
  then obtain t ts' where ts: "ts = t # ts'" "shaped st s t" "list_all2 (shaped st) ss ts'"
    by (auto simp: list_all2_Cons1)
  obtain c st0 st1 where c: "new_node (name_of st s) st = (c, st0)"
    "insert_child n (Some c) (insert_position st0 n None) st0 = Some (True, st1)"
    "\<not> alive st c" "beside n st st1" "kids st1 n = kids st n @ [c]" "alive st1 c" "name_of st1 c = name_of st s"
    "kids st1 c = []" "node_value st1 c = VNone" "node_value st1 n = node_value st n"
    using insert_fresh [OF Cons.prems(1,2)] by metis
  have ok1: "forest_ok st1" and n1: "alive st1 n" using c(4) Cons.prems(2) by (auto simp: beside_def)
  have S1: "closed_kids st1 S" by (rule closed_beside [OF Cons.prems(3) c(4) Cons.prems(4)])
  have sh1: "shaped st1 m u" if "m \<in> S" "shaped st m u" for m u
    using shaped_beside [OF Cons.prems(3) c(4) Cons.prems(4)] that by blast
  have sS: "s \<in> S" "c \<notin> S" using Cons.prems(3,5) c(3) by (auto simp: closed_kids_def)
  have nm: "name_of st1 c = name_of st1 s" using c(4,7) Cons.prems(3) sS(1) by (auto simp: closed_kids_def beside_def)
  obtain st2 where st2: "copy_node fuel opts c (Some s) st1 = Some st2" "beside c st1 st2" "shaped st2 c t"
    using copy [OF ok1 c(6,8) S1 sS sh1 [OF sS(1) ts(2)] _ c(9) nm] Cons.prems(7) ts(1) by auto
  have b2: "beside n st st2" by (rule beside_inner [OF c(4) st2(2) c(3)])
  have "n \<noteq> c" using c(3) Cons.prems(2) by blast
  then have k2: "kids st2 n = kids st n @ [c]" "node_value st2 n = node_value st n"
    using st2(2) n1 c(5,10) by (simp_all add: beside_def)
  have ok2: "forest_ok st2" "alive st2 n" using b2 Cons.prems(2) by (auto simp: beside_def)
  have "list_all2 (shaped st2) ss ts'"
    by (rule list.rel_mono_strong [OF ts(3)])
      (use shaped_beside [OF Cons.prems(3) b2 Cons.prems(4)] Cons.prems(5) in auto)
  then obtain st3 cs where st3: "flush_pending fuel opts n None ss st2 = Some st3" "beside n st2 st3"
    "kids st3 n = kids st2 n @ cs" "list_all2 (shaped st3) cs ts'" "node_value st3 n = node_value st2 n"
    using Cons.IH [OF ok2 closed_beside [OF Cons.prems(3) b2 Cons.prems(4)] Cons.prems(4), of ts'] Cons.prems(5,7) ts(1)
    by (metis list.set_intros(2) set_subset_Cons subset_trans)
  have "shaped st3 c t" using kid_shape [OF ok2 _ st3(2) st2(3)] k2 by simp
  then show ?case using c(1,2) st2(1) st3 k2 beside_trans [OF b2 st3(2)] ts(1)
    by (intro exI [of _ st3] exI [of _ "c # cs"]) simp
qed

lemma height_kid: "t \<in> set ts \<Longrightarrow> height t < height (NT nm v ts)"
  using fold_max_ge [of "height t" "map height ts" 0] by simp

lemma copy_empty:
  assumes "auto_insert opts"
  shows "forest_ok st \<Longrightarrow> alive st n \<Longrightarrow> kids st n = [] \<Longrightarrow> closed_kids st S \<Longrightarrow> src \<in> S \<Longrightarrow> n \<notin> S
    \<Longrightarrow> shaped st src (NT nm v ts) \<Longrightarrow> height (NT nm v ts) \<le> fuel
    \<Longrightarrow> \<exists>st'. copy_node fuel opts n (Some src) st = Some st' \<and> beside n st st' \<and> list_all2 (shaped st') (kids st' n) ts
          \<and> node_value st' n = final_value opts (node_value st n) v"
proof (induction fuel arbitrary: st n src nm v ts)
  case (Suc fuel)
  have copy: "\<exists>st'. copy_node fuel opts c (Some s) st = Some st' \<and> beside c st st' \<and> shaped st' c t"
    if "forest_ok st" "alive st c" "kids st c = []" "closed_kids st S" "s \<in> S" "c \<notin> S" "shaped st s t" "height t \<le> fuel"
      "node_value st c = VNone" "name_of st c = name_of st s" for c st s t
  proof -
    note T = that
    obtain nm' v' ts' where t: "t = NT nm' v' ts'" by (cases t)
    obtain st' where st': "copy_node fuel opts c (Some s) st = Some st'" "beside c st st'" "list_all2 (shaped st') (kids st' c) ts'"
      "node_value st' c = final_value opts (node_value st c) v'"
      using Suc.IH [OF T(1-6) T(7) [unfolded t] T(8) [unfolded t]] by blast
    then show ?thesis using T by (auto simp: t beside_def final_value_none)
  qed
  have src: "list_all2 (shaped st) (kids st src) ts" "node_value st src = v" "set (kids st src) \<subseteq> S" "src \<noteq> n"
    using Suc.prems by (auto simp: closed_kids_def)
  have hs: "\<forall>t \<in> set ts. height t \<le> fuel" using height_kid [of _ ts nm v] Suc.prems(8) by fastforce
  have "\<exists>st' cs. flush_pending fuel opts n None (kids st src) st = Some st' \<and> beside n st st'
      \<and> kids st' n = kids st n @ cs \<and> list_all2 (shaped st') cs ts \<and> node_value st' n = node_value st n"
    by (rule flush_spec [OF _ Suc.prems(1,2,4,6) src(3,1) hs]) (rule copy)
  then obtain st3 cs where st3: "flush_pending fuel opts n None (kids st src) st = Some st3" "beside n st st3"
    "kids st3 n = cs" "list_all2 (shaped st3) cs ts" "node_value st3 n = node_value st n"
    unfolding Suc.prems(3) append_Nil by blast
  have ok3: "forest_ok st3" "alive st3 n" using st3(2) Suc.prems(2) by (auto simp: beside_def)
  have "alive st src" using Suc.prems(4,5) unfolding closed_kids_def by blast
  then have v3: "node_value st3 src = v" using st3(2) src(2,4) by (simp add: beside_def)
  obtain st4 where st4: "(if auto_update opts then map_option snd (update_value n v st3) else set_value n v st3) = Some st4"
    "beside n st3 st4" "kids st4 n = cs" "node_value st4 n = final_value opts (node_value st n) v"
    using copy_value_beside [OF ok3, of opts v] st3(3,5) by auto
  have "list_all2 (shaped st4) cs ts" by (rule kids_shape [OF ok3 _ st4(2) st3(4)]) (simp add: st3(3))
  moreover have "copy_node (Suc fuel) opts n (Some src) st = Some st4"
    using src(4) Suc.prems(3) copy_sources_unmatched [OF assms] st3(1) st4(1) v3
    by (auto simp: Let_def split: if_splits)
  ultimately show ?case using st4 beside_trans [OF st3(2) st4(2)] by auto
qed (simp add: height.simps)

section \<open>Every subtree has a shape\<close>

lemma fold_max_le: "(\<And>x. x \<in> set xs \<Longrightarrow> x \<le> b) \<Longrightarrow> a \<le> b \<Longrightarrow> fold max xs (a :: nat) \<le> b"
  by (induction xs arbitrary: a) auto

lemma shape_exists:
  assumes ok: "forest_ok st"
  shows "alive st n \<Longrightarrow> \<exists>t. shaped st n t \<and> height t \<le> card (dset st n)"
proof (induction "card (dset st n)" arbitrary: n rule: less_induct)
  case less
  have kid: "\<exists>t. shaped st c t \<and> Suc (height t) \<le> card (dset st n)" if c: "c \<in> set (kids st n)" for c
    using less(1) [OF kid_dset(2) [OF ok less(2) c]] kid_facts [OF ok less(2) c] kid_dset(2) [OF ok less(2) c]
    by fastforce
  then obtain f where f: "\<And>c. c \<in> set (kids st n) \<Longrightarrow> shaped st c (f c) \<and> Suc (height (f c)) \<le> card (dset st n)"
    by metis
  have "0 < card (dset st n)" using dset_finite [OF ok less(2)] dset_self card_gt_0_iff by blast
  moreover have "fold max (map height (map f (kids st n))) 0 \<le> card (dset st n) - 1"
    by (rule fold_max_le) (use f in fastforce)+
  ultimately have "height (NT (name_of st n) (node_value st n) (map f (kids st n))) \<le> card (dset st n)" by simp
  moreover have "shaped st n (NT (name_of st n) (node_value st n) (map f (kids st n)))"
    using less(2) f by (simp add: list_all2_map2 list.rel_refl_strong)
  ultimately show ?case by blast
qed

definition node_copy :: "copy_options \<Rightarrow> nid \<Rightarrow> nid option \<Rightarrow> forest \<Rightarrow> forest option" where
  "node_copy opts n other st = copy_node (next_id st + 1) opts n other st"

text \<open>C26: With insertion on, copying into a node without children makes below it an exact replica of
  the source's subtree - names, values and the order of the children, at every level - and sets its
  value, unless updating finds the old one equal; the source and every other node are as before.\<close>

theorem copy_into_empty:
  assumes ok: "forest_ok st" and n: "alive st n" "kids st n = []" and src: "alive st src" "n \<notin> dset st src"
    and ins: "auto_insert opts"
  shows "\<exists>v ts st'. shaped st src (NT (name_of st src) v ts) \<and> node_copy opts n (Some src) st = Some st' \<and> forest_ok st'
    \<and> shaped st' n (NT (name_of st n) (final_value opts (node_value st n) v) ts)
    \<and> shaped st' src (NT (name_of st src) v ts)
    \<and> (\<forall>m. alive st m \<and> m \<noteq> n \<longrightarrow> alive st' m \<and> kids st' m = kids st m \<and> node_value st' m = node_value st m
         \<and> name_of st' m = name_of st m \<and> parent st' m = parent st m)"
proof -
  obtain t where t: "shaped st src t" "height t \<le> card (dset st src)" using shape_exists [OF ok src(1)] by blast
  obtain v ts where tv: "t = NT (name_of st src) v ts" using t(1) by (cases t) auto
  have h: "height t \<le> next_id st + 1" using t(2) card_dset_le [OF ok src(1)] by simp
  obtain st' where st': "node_copy opts n (Some src) st = Some st'" "beside n st st'" "list_all2 (shaped st') (kids st' n) ts"
    "node_value st' n = final_value opts (node_value st n) v"
    using copy_empty [OF ins ok n closed_dset [OF ok src(1)] dset_self src(2) t(1) [unfolded tv] h [unfolded tv]]
    unfolding node_copy_def by blast
  have "shaped st' src t" by (rule shaped_beside [OF closed_dset [OF ok src(1)] st'(2) src(2) dset_self t(1)])
  then show ?thesis using st' t(1) n unfolding tv
    by (intro exI [of _ v] exI [of _ ts] exI [of _ st']) (auto simp: beside_def)
qed

theorem copy_into_empty_witness:
  "\<exists>st'. node_copy \<lparr>auto_insert = True, auto_remove = True, auto_update = True\<rparr> 5 (Some 2) (snd (new_node ''copy'' demo)) = Some st'
    \<and> length (kids st' 5) = 2"
proof -
  define st where "st = snd (new_node ''copy'' demo)"
  have f: "heap st = (\<lambda>m. if m \<in> set [5] then Some (blank ''copy'') else heap demo m)" "next_id st = 6"
    by (auto simp: st_def new_node_eq demo_def)
  note g = forest_ok_fresh [OF demo_ok _ _ f, simplified demo_alive]
  have ok: "forest_ok st" and a: "alive st 5" "alive st 2"
    and o: "obj st 5 = blank ''copy''" "obj st 2 = obj demo 2" using g demo_alive by simp_all
  have k: "kids st 5 = []" "kids st 2 = [3, 4]" "parent st 5 = None"
    using o demo_kids by (simp_all add: kids_def blank_def parent_def)
  have "5 \<notin> dset st 2" using anc_root [OF k(3)] by (simp add: dset_anc)
  then show ?thesis
    using copy_into_empty [OF ok a(1) k(1) a(2), of "\<lparr>auto_insert = True, auto_remove = True, auto_update = True\<rparr>"] k(2)
    unfolding st_def [symmetric] by (auto dest!: list_all2_lengthD)
qed

end
