(* ===== verification/Node_Import.thy ===== *)
theory Node_Import
  imports Node_Copy "HOL-Library.Monad_Syntax"
begin

text \<open>
  What the importers of \<open>ve/src/core/impl/bin.cpp\<close> and \<open>ve/src/core/schema.cpp\<close> share: a scratch tree
  of its own is built from the data, copied onto the target with \<open>Node::copy\<close> and destroyed.
\<close>

section \<open>Copying a scratch tree\<close>

definition copy_scratch :: "string \<Rightarrow> (nid \<Rightarrow> forest \<Rightarrow> forest option) \<Rightarrow> copy_options \<Rightarrow> nid \<Rightarrow> forest \<Rightarrow> forest option" where
  "copy_scratch name build opts n st =
     (let (parsed, st1) = new_node name st
      in do {
        st2 \<leftarrow> build parsed st1;
        st3 \<leftarrow> node_copy opts n (Some parsed) st2;
        delete_node (next_id st3 + 1) parsed st3 })"

definition isIgnoredChild :: "bool \<Rightarrow> string \<Rightarrow> bool" where
  "isIgnoredChild auto_ignore nm \<longleftrightarrow> auto_ignore \<and> nm \<noteq> [] \<and> hd nm = CHR ''_''"

section \<open>Shapes\<close>

fun tree_name :: "ntree \<Rightarrow> string" where
  "tree_name (NT nm v ts) = nm"

lemma shaped_name: "shaped st n t \<Longrightarrow> name_of st n = tree_name t"
  by (cases t) simp

fun renamed :: "string \<Rightarrow> ntree \<Rightarrow> ntree" where
  "renamed nm' (NT nm v ts) = NT nm' v ts"

lemma renamed_same [simp]: "renamed (tree_name t) t = t"
  by (cases t) simp

lemma list_all2_shaped_names: "list_all2 (shaped st) cs ts \<Longrightarrow> map (name_of st) cs = map tree_name ts"
  by (induction rule: list_all2_induct) (simp_all add: shaped_name)

lemma filter_list_all2:
  "list_all2 R xs ys \<Longrightarrow> (\<And>x y. R x y \<Longrightarrow> P x = Q y) \<Longrightarrow> list_all2 R (filter P xs) (filter Q ys)"
  by (induction rule: list_all2_induct) auto

section \<open>Building a subtree below a new node\<close>

definition builds :: "(nid \<Rightarrow> forest \<Rightarrow> forest option) \<Rightarrow> ntree \<Rightarrow> bool" where
  "builds f t \<longleftrightarrow> (\<forall>st n. forest_ok st \<longrightarrow> alive st n \<longrightarrow> kids st n = [] \<longrightarrow> node_value st n = VNone
     \<longrightarrow> (\<exists>st'. f n st = Some st' \<and> beside n st st' \<and> shaped st' n (renamed (name_of st n) t)))"

lemma append_fresh:
  assumes ok: "forest_ok st" and n: "alive st n"
  shows "\<exists>c st1. append_node n nm 0 st = Some (Some c, st1) \<and> \<not> alive st c \<and> beside n st st1
    \<and> kids st1 n = kids st n @ [c] \<and> alive st1 c \<and> name_of st1 c = nm \<and> kids st1 c = [] \<and> node_value st1 c = VNone
    \<and> node_value st1 n = node_value st n"
proof -
  obtain cs st1 where a: "append_node n nm 0 st = Some (Some (hd cs), st1)" "length cs = nat 0 + 1" "appended n nm cs st st1"
    using append_node_spec [OF ok n, of 0 nm] by auto
  have cs: "cs = [hd cs]" using a(2) by (cases cs) auto
  have "hd cs \<in> set cs" by (subst cs) simp
  then have "\<not> alive st (hd cs)" "alive st1 (hd cs)" "name_of st1 (hd cs) = nm" "kids st1 (hd cs) = []"
    "node_value st1 (hd cs) = VNone" "kids st1 n = kids st n @ [hd cs]"
    using a(3) cs unfolding appended_def by (blast, blast, blast, blast, blast, metis)
  moreover have "beside n st st1" "node_value st1 n = node_value st n"
    using a(3) n unfolding appended_def beside_def keeps_def by blast+
  ultimately show ?thesis using a(1) by blast
qed

lemma append_build:
  assumes ok: "forest_ok st" and n: "alive st n" and f: "builds f t"
  shows "\<exists>c st1 st2. append_node n (tree_name t) 0 st = Some (Some c, st1) \<and> f c st1 = Some st2 \<and> beside n st st2
    \<and> kids st2 n = kids st n @ [c] \<and> shaped st2 c t \<and> node_value st2 n = node_value st n"
proof -
  obtain c st1 where c: "append_node n (tree_name t) 0 st = Some (Some c, st1)" "\<not> alive st c" "beside n st st1"
    "kids st1 n = kids st n @ [c]" "alive st1 c" "name_of st1 c = tree_name t" "kids st1 c = []" "node_value st1 c = VNone"
    "node_value st1 n = node_value st n"
    using append_fresh [OF ok n] by metis
  have ok1: "forest_ok st1" using c(3) by (simp add: beside_def)
  obtain st2 where st2: "f c st1 = Some st2" "beside c st1 st2" "shaped st2 c t"
    using f ok1 c(5,7,8) unfolding builds_def by (metis c(6) renamed_same)
  have b2: "beside n st st2" by (rule beside_inner [OF c(3) st2(2) c(2)])
  have "n \<noteq> c" using c(2) n by blast
  then have "kids st2 n = kids st n @ [c]" "node_value st2 n = node_value st n"
    using st2(2) c(3,4,9) n by (simp_all add: beside_def)
  then show ?thesis using c(1) st2(1,3) b2 by blast
qed

text \<open>Appending a subtree for every item of a list.\<close>

lemma append_all:
  assumes step: "\<And>x xs n st. run (x # xs) n st = (case append_node n (nm x) 0 st of
      Some (Some c, st1) \<Rightarrow> (case f x c st1 of None \<Rightarrow> None | Some st2 \<Rightarrow> run xs n st2) | _ \<Rightarrow> None)"
    and nil: "\<And>n st. run [] n st = Some st"
    and built: "list_all2 (\<lambda>x t. nm x = tree_name t \<and> builds (f x) t) xs ts"
  shows "forest_ok st \<Longrightarrow> alive st n \<Longrightarrow> \<exists>st' cs. run xs n st = Some st' \<and> beside n st st'
    \<and> kids st' n = kids st n @ cs \<and> list_all2 (shaped st') cs ts \<and> node_value st' n = node_value st n"
  using built
proof (induction arbitrary: st rule: list_all2_induct)
  case Nil
  then show ?case using beside_refl nil by auto
next
  case (Cons x xs t ts)
  obtain c st1 st2 where c: "append_node n (tree_name t) 0 st = Some (Some c, st1)" "f x c st1 = Some st2" "beside n st st2"
    "kids st2 n = kids st n @ [c]" "shaped st2 c t" "node_value st2 n = node_value st n"
    using append_build [OF Cons.prems] Cons.hyps(1) by blast
  have ok2: "forest_ok st2" "alive st2 n" using c(3) Cons.prems(2) by (auto simp: beside_def)
  obtain st3 cs where st3: "run xs n st2 = Some st3" "beside n st2 st3" "kids st3 n = kids st2 n @ cs"
    "list_all2 (shaped st3) cs ts" "node_value st3 n = node_value st2 n"
    using Cons.IH [OF ok2] by blast
  have "shaped st3 c t" using kid_shape [OF ok2 _ st3(2) c(5)] c(4) by simp
  then show ?case using c Cons.hyps(1) st3 step [of x xs n st] beside_trans [OF c(3) st3(2)]
    by (intro exI [of _ st3] exI [of _ "c # cs"]) simp
qed

section \<open>The scratch tree comes and goes\<close>

lemma beside_anc:
  assumes "forest_ok st" "beside n st st'"
  shows "p \<in> anc st' m \<Longrightarrow> alive st m \<Longrightarrow> p \<in> anc st m"
proof -
  assume "p \<in> anc st' m" and m: "alive st m"
  then have "(p, m) \<in> (edges st')\<^sup>+" by (simp add: anc_def)
  moreover have e: "(q, k) \<in> edges st" "alive st q" if "(q, k) \<in> edges st'" "alive st k" for q k
    using that assms(2) parent_alive [OF assms(1), of k q] by (auto simp: edges_def beside_def)
  ultimately have "(p, m) \<in> (edges st)\<^sup>+ \<and> alive st p" using m
  proof (induction rule: converse_trancl_induct)
    case (step y z)
    then show ?case using e [of y z] trancl_into_trancl2 [of y z "edges st" m] by blast
  qed (use e in blast)
  then show "p \<in> anc st m" by (simp add: anc_def)
qed

lemma beside_dset:
  assumes "forest_ok st" "alive st r" "beside n st st'" "n \<notin> dset st r"
  shows "dset st' r = dset st r"
proof -
  have ok: "forest_ok st'" using assms(3) by (simp add: beside_def)
  have al: "m \<in> dset st r \<Longrightarrow> alive st m" for m by (rule dset_alive [OF assms(1,2)])
  have e: "(p, c) \<in> edges st' \<longleftrightarrow> (p, c) \<in> edges st" if p: "p \<in> dset st r" for p c
  proof -
    have "alive st p" "p \<noteq> n" using al [OF p] p assms(4) by auto
    then have "alive st' p" "kids st' p = kids st p" using assms(3) by (simp_all add: beside_def)
    then show ?thesis using kids_edges [OF ok] kids_edges [OF assms(1) \<open>alive st p\<close>] by simp
  qed
  have "m \<in> dset st r" if "(r, m) \<in> (edges st')\<^sup>*" for m
    using that
  proof (induction rule: rtrancl_induct)
    case (step p c)
    then have "(p, c) \<in> edges st" using e by blast
    then show ?case using step.IH by (auto simp: dset_def intro: rtrancl_into_rtrancl)
  qed simp
  moreover have "(r, m) \<in> (edges st')\<^sup>*" if "(r, m) \<in> (edges st)\<^sup>*" for m
    using that
  proof (induction rule: rtrancl_induct)
    case (step p c)
    then have "(p, c) \<in> edges st'" using e [of p c] by (simp add: dset_def)
    then show ?case using step.IH by (auto intro: rtrancl_into_rtrancl)
  qed simp
  ultimately show ?thesis by (auto simp: dset_def)
qed

lemma root_disjoint:
  assumes ok: "forest_ok st" and r: "parent st r = None" and d: "d \<noteq> r" "r \<notin> anc st d"
  shows "m \<in> dset st d \<Longrightarrow> m \<notin> dset st r"
proof
  assume "m \<in> dset st d" "m \<in> dset st r"
  then have "(m, d) \<in> ((edges st)\<inverse>)\<^sup>*" "(m, r) \<in> ((edges st)\<inverse>)\<^sup>*" by (simp_all add: dset_def rtrancl_converse)
  moreover have "single_valued ((edges st)\<inverse>)" by (auto simp: single_valued_def edges_def)
  ultimately have "(d, r) \<in> ((edges st)\<inverse>)\<^sup>* \<or> (r, d) \<in> ((edges st)\<inverse>)\<^sup>*" by (rule single_valued_confluent [rotated])
  then have "d \<in> dset st r \<or> r \<in> dset st d" by (simp add: rtrancl_converse dset_def)
  then show False using r d anc_root [OF r] by (auto simp: dset_anc)
qed

lemma shaped_unique: "shaped st n t \<Longrightarrow> shaped st n u \<Longrightarrow> t = u"
proof (induction t arbitrary: n u)
  case (NT nm v ts)
  obtain us where u: "u = NT nm v us" "list_all2 (shaped st) (kids st n) us" "list_all2 (shaped st) (kids st n) ts"
    using NT.prems by (cases u) auto
  have "list_all2 (=) ts us"
  proof (rule list_all2_all_nthI)
    fix i assume i: "i < length ts"
    then show "ts ! i = us ! i"
      using u(2,3) NT.IH [of "ts ! i" "kids st n ! i" "us ! i"] by (simp add: list_all2_conv_all_nth)
  qed (use list_all2_lengthD [OF u(2)] list_all2_lengthD [OF u(3)] in simp)
  then show ?case by (simp add: u(1) list.rel_eq)
qed

text \<open>Copying a scratch tree onto a node and deleting it.\<close>

lemma copy_and_delete:
  assumes ok: "forest_ok st" and n: "alive st n" "kids st n = []"
    and src: "alive st r" "parent st r = None" "n \<noteq> r" "r \<notin> anc st n"
    and sh: "shaped st r (NT nm v ts)" and ins: "auto_insert opts"
  shows "\<exists>st1 st2. node_copy opts n (Some r) st = Some st1 \<and> delete_node (next_id st1 + 1) r st1 = Some st2 \<and> forest_ok st2
    \<and> shaped st2 n (NT (name_of st n) (final_value opts (node_value st n) v) ts)
    \<and> (\<forall>m. alive st m \<and> m \<notin> dset st r \<and> m \<noteq> n \<longrightarrow> alive st2 m \<and> kids st2 m = kids st m
         \<and> node_value st2 m = node_value st m \<and> name_of st2 m = name_of st m \<and> parent st2 m = parent st m)
    \<and> (\<forall>m \<in> dset st r. \<not> alive st2 m)"
proof -
  have nr: "n \<notin> dset st r" using src(3,4) by (simp add: dset_anc)
  obtain t where t: "shaped st r t" "height t \<le> card (dset st r)" using shape_exists [OF ok src(1)] by blast
  have h: "height (NT nm v ts) \<le> next_id st + 1"
    using t(2) card_dset_le [OF ok src(1)] shaped_unique [OF t(1) sh] by simp
  obtain st1 where st1: "node_copy opts n (Some r) st = Some st1" "beside n st st1" "list_all2 (shaped st1) (kids st1 n) ts"
    "node_value st1 n = final_value opts (node_value st n) v"
    using copy_empty [OF ins ok n closed_dset [OF ok src(1)] dset_self nr sh h] unfolding node_copy_def by blast
  have ok1: "forest_ok st1" and al: "alive st1 r" "parent st1 r = None" and n1: "alive st1 n" "name_of st1 n = name_of st n"
    using st1(2) src n(1) by (auto simp: beside_def)
  have ds: "dset st1 r = dset st r" by (rule beside_dset [OF ok src(1) st1(2) nr])
  have an: "r \<notin> anc st1 n" using beside_anc [OF ok st1(2) _ n(1)] src(4) by blast
  obtain st2 where st2: "delete_node (next_id st1 + 1) r st1 = Some st2" "forest_ok st2"
    "\<And>m. alive st2 m = (alive st1 m \<and> m \<notin> dset st r)"
    "\<And>m. alive st2 m \<Longrightarrow> kids st2 m = kids st1 m \<and> parent st2 m = parent st1 m
         \<and> name_of st2 m = name_of st1 m \<and> node_value st2 m = node_value st1 m"
    using delete_root_spec [OF ok1 al] unfolding ds by metis
  have "shaped st2 n (NT (name_of st n) (final_value opts (node_value st n) v) ts)"
  proof (rule shaped_agree [OF closed_dset [OF ok1 n1(1)] _ dset_self])
    fix m assume m: "m \<in> dset st1 n"
    then have "alive st2 m"
      using st2(3) dset_alive [OF ok1 n1(1) m] root_disjoint [OF ok1 al(2) src(3) an m] ds by simp
    then show "alive st2 m \<and> name_of st2 m = name_of st1 m \<and> node_value st2 m = node_value st1 m \<and> kids st2 m = kids st1 m"
      using st2(4) by simp
  qed (use n1 st1 in simp)
  moreover have "alive st2 m \<and> kids st2 m = kids st m \<and> node_value st2 m = node_value st m \<and> name_of st2 m = name_of st m
      \<and> parent st2 m = parent st m" if "alive st m \<and> m \<notin> dset st r \<and> m \<noteq> n" for m
    using that st1(2) st2(3,4) [of m] by (simp add: beside_def)
  ultimately show ?thesis using st1(1) st2(1-3) by blast
qed

lemma copy_scratch_spec:
  assumes ok: "forest_ok st" and d: "alive st d" "kids st d = []" and ins: "auto_insert opts"
    and f: "builds f (NT nm v ts)"
  shows "\<exists>st'. copy_scratch name f opts d st = Some st' \<and> forest_ok st'
    \<and> shaped st' d (NT (name_of st d) (final_value opts (node_value st d) v) ts)
    \<and> (\<forall>m. alive st m \<and> m \<noteq> d \<longrightarrow> alive st' m \<and> kids st' m = kids st m \<and> node_value st' m = node_value st m
         \<and> name_of st' m = name_of st m \<and> parent st' m = parent st m)
    \<and> \<not> alive st' (next_id st)"
proof -
  define r where "r = next_id st"
  obtain st1 where st1: "new_node name st = (r, st1)"
    "heap st1 = (\<lambda>m. if m \<in> set [r] then Some (blank name) else heap st m)" "next_id st1 = r + 1"
    by (auto simp: new_node_eq r_def fun_eq_iff)
  note g = forest_ok_fresh [OF ok _ _ st1(2,3), simplified]
  have ok1: "forest_ok st1" and al1: "\<And>m. alive st1 m = (alive st m \<or> m = r)" and o1: "obj st1 r = blank name"
    and oo: "\<And>m. alive st m \<Longrightarrow> m \<noteq> r \<and> obj st1 m = obj st m" and e1: "edges st1 = edges st"
    using g by (auto simp: r_def)
  have r1: "kids st1 r = []" "node_value st1 r = VNone" "parent st1 r = None"
    using o1 by (simp_all add: kids_def blank_def parent_def node_value_def)
  have same: "kids st1 m = kids st m \<and> node_value st1 m = node_value st m \<and> name_of st1 m = name_of st m \<and> parent st1 m = parent st m"
    if "alive st m" for m using oo [OF that] by (simp add: kids_def node_value_def name_of_def parent_def)
  obtain st2 where st2: "f r st1 = Some st2" "beside r st1 st2" "shaped st2 r (NT (name_of st1 r) v ts)"
    using f ok1 al1 r1 unfolding builds_def by auto
  have ok2: "forest_ok st2" and d2: "alive st2 d" "kids st2 d = []" "d \<noteq> r" "name_of st2 d = name_of st d"
    "node_value st2 d = node_value st d" and r2: "alive st2 r" "parent st2 r = None"
    using st2(2) d same [OF d(1)] oo [OF d(1)] al1 r1 by (auto simp: beside_def)
  have "anc st1 d = anc st d" using e1 by (simp add: anc_def)
  then have an: "r \<notin> anc st2 d"
    using beside_anc [OF ok1 st2(2), of r d] al1 d(1) anc_alive [OF ok, of r d] alive_less [OF ok, of r] by (auto simp: r_def)
  obtain st3 st4 where st3: "node_copy opts d (Some r) st2 = Some st3" "delete_node (next_id st3 + 1) r st3 = Some st4"
    "forest_ok st4" "shaped st4 d (NT (name_of st2 d) (final_value opts (node_value st2 d) v) ts)"
    and keep: "\<forall>m. alive st2 m \<and> m \<notin> dset st2 r \<and> m \<noteq> d \<longrightarrow> alive st4 m \<and> kids st4 m = kids st2 m
         \<and> node_value st4 m = node_value st2 m \<and> name_of st4 m = name_of st2 m \<and> parent st4 m = parent st2 m"
    and gone: "\<forall>m \<in> dset st2 r. \<not> alive st4 m"
    using copy_and_delete [OF ok2 d2(1,2) r2 d2(3) an st2(3) ins] by (elim exE conjE) (rule that)
  have rest: "alive st4 m \<and> kids st4 m = kids st m \<and> node_value st4 m = node_value st m \<and> name_of st4 m = name_of st m
      \<and> parent st4 m = parent st m" if m: "alive st m" "m \<noteq> d" for m
  proof -
    have "m \<noteq> r" using oo [OF m(1)] by simp
    moreover have "r \<notin> anc st2 m"
      using beside_anc [OF ok1 st2(2), of r m] al1 m(1) anc_alive [OF ok, of r m] alive_less [OF ok, of r] e1
      by (auto simp: r_def anc_def)
    ultimately show ?thesis using keep [rule_format, of m] m same [OF m(1)] st2(2) al1 by (simp add: beside_def dset_anc)
  qed
  have "copy_scratch name f opts d st = Some st4"
    using st1(1) st2(1) st3(1,2) by (simp add: copy_scratch_def del: delete_node.simps)
  moreover have "\<not> alive st4 (next_id st)" using gone dset_self [of r st2] unfolding r_def by blast
  ultimately show ?thesis using st3(3) st3(4) [unfolded d2(4,5)] rest by (intro exI [of _ st4]) simp
qed

end
