(* ===== verification/Var_Tree.thy ===== *)
theory Var_Tree
  imports Node_Import
begin

text \<open>
  Node trees as values and back: \<open>SchemaTraits<VarS>\<close> of \<open>ve/src/core/schema.cpp\<close>. A childless node is
  its value, a node whose first child has no name is the list of its children, any other node a
  dictionary: its value under \<open>_value\<close>, the first child of every name, and the children without a name
  as a list under the empty key.
\<close>

section \<open>Export\<close>

fun first_seen :: "'a list \<Rightarrow> 'a list \<Rightarrow> 'a list" where
  "first_seen seen [] = seen"
| "first_seen seen (x # xs) = first_seen (if x \<in> set seen then seen else seen @ [x]) xs"

fun put_all :: "(string \<times> 'a) list \<Rightarrow> (string \<times> 'a) list \<Rightarrow> (string \<times> 'a) list" where
  "put_all [] d = d"
| "put_all ((k, v) # kvs) d = put_all kvs (dict_put k v d)"

fun nodeToVar :: "nat \<Rightarrow> bool \<Rightarrow> forest \<Rightarrow> nid \<Rightarrow> var option" where
  "nodeToVar 0 ign st n = None"
| "nodeToVar (Suc fuel) ign st n =
     (let visible = filter (\<lambda>c. \<not> isIgnoredChild ign (name_of st c)) (kids st n)
      in case visible of
           [] \<Rightarrow> Some (node_value st n)
         | c0 # _ \<Rightarrow>
             if name_of st c0 = [] then map_option VList (those (map (nodeToVar fuel ign st) visible))
             else
               (let d0 = (if isNull (node_value st n) then [] else dict_put ''_value'' (node_value st n) []);
                    named = filter (\<lambda>c. name_of st c \<noteq> []) visible;
                    anonymous = filter (\<lambda>c. name_of st c = []) visible;
                    names = first_seen [] (map (name_of st) named)
                in do {
                  kvs \<leftarrow> those (map (\<lambda>nm. map_option (Pair nm)
                      (nodeToVar fuel ign st (hd (filter (\<lambda>c. name_of st c = nm) named)))) names);
                  vs \<leftarrow> those (map (nodeToVar fuel ign st) anonymous);
                  Some (VDict (if anonymous = [] then put_all kvs d0
                               else dict_put [] (VList vs) (put_all kvs d0))) }))"

definition exportNode :: "bool \<Rightarrow> nid option \<Rightarrow> forest \<Rightarrow> var option" where
  "exportNode auto_ignore node st =
     (case node of None \<Rightarrow> Some VNone | Some n \<Rightarrow> nodeToVar (next_id st + 1) auto_ignore st n)"

section \<open>Import\<close>

definition resetNodeContent :: "nid \<Rightarrow> forest \<Rightarrow> forest option" where
  "resetNodeContent n st = do { st1 \<leftarrow> clear n True st; set_value n VNone st1 }"

fun clear_anonymous :: "nid \<Rightarrow> nat list \<Rightarrow> forest \<Rightarrow> forest option" where
  "clear_anonymous n [] st = Some st"
| "clear_anonymous n (i # is) st =
     (case child_index st n (int i) of
        None \<Rightarrow> clear_anonymous n is st
      | Some c \<Rightarrow>
          if name_of st c = []
          then (case remove_child n (Some c) st of None \<Rightarrow> None | Some (_, st1) \<Rightarrow> clear_anonymous n is st1)
          else clear_anonymous n is st)"

definition clearAnonymousChildren :: "nid \<Rightarrow> forest \<Rightarrow> forest option" where
  "clearAnonymousChildren n st = clear_anonymous n (rev [0..<nat (count st n)]) st"

fun trim_named :: "nat \<Rightarrow> nid \<Rightarrow> string \<Rightarrow> forest \<Rightarrow> forest option" where
  "trim_named 0 n key st = None"
| "trim_named (Suc fuel) n key st =
     (if 1 < count_named st n key
      then (case remove_child n (child_named st n key (count_named st n key - 1)) st of
              None \<Rightarrow> None | Some (_, st1) \<Rightarrow> trim_named fuel n key st1)
      else Some st)"

definition ensureSchemaChild :: "nid \<Rightarrow> string \<Rightarrow> forest \<Rightarrow> (nid option \<times> forest) option" where
  "ensureSchemaChild n key st =
     do {
       st1 \<leftarrow> trim_named (length (kids st n) + 1) n key st;
       (case child_named st1 n key 0 of
          Some c \<Rightarrow> map_option (Pair (Some c)) (resetNodeContent c st1)
        | None \<Rightarrow> append_node n key 0 st1) }"

function (sequential) varToNode :: "var \<Rightarrow> nid \<Rightarrow> forest \<Rightarrow> forest option"
  and entries_to_node :: "(string \<times> var) list \<Rightarrow> nid \<Rightarrow> forest \<Rightarrow> forest option"
  and elems_to_node :: "var list \<Rightarrow> nid \<Rightarrow> forest \<Rightarrow> forest option" where
  "varToNode (VDict d) n st = entries_to_node d n st"
| "varToNode (VList xs) n st = elems_to_node xs n st"
| "varToNode v n st = set_value n v st"
| "entries_to_node [] n st = Some st"
| "entries_to_node ((k, v) # kvs) n st =
     (case (if k = ''_value'' then set_value n v st
            else if k = [] then
              (case clearAnonymousChildren n st of
                 None \<Rightarrow> None
               | Some st1 \<Rightarrow> (case v of VList xs \<Rightarrow> elems_to_node xs n st1 | _ \<Rightarrow> Some st1))
            else
              (case ensureSchemaChild n k st of
                 None \<Rightarrow> None
               | Some (None, st1) \<Rightarrow> Some st1
               | Some (Some c, st1) \<Rightarrow>
                   (case v of VList xs \<Rightarrow> elems_to_node xs c st1 | _ \<Rightarrow> varToNode v c st1)))
      of None \<Rightarrow> None | Some st2 \<Rightarrow> entries_to_node kvs n st2)"
| "elems_to_node [] n st = Some st"
| "elems_to_node (x # xs) n st =
     (case append_node n [] 0 st of
        Some (Some c, st1) \<Rightarrow>
          (case varToNode x c st1 of None \<Rightarrow> None | Some st2 \<Rightarrow> elems_to_node xs n st2)
      | _ \<Rightarrow> None)"
  by pat_completeness auto

termination
  by (relation "measure (\<lambda>x. case x of Inl (v, _) \<Rightarrow> size v
      | Inr (Inl (kvs, _)) \<Rightarrow> size_list (size_prod (\<lambda>_. 0) size) kvs
      | Inr (Inr (xs, _)) \<Rightarrow> size_list size xs)")
    auto

definition importNode :: "nid option \<Rightarrow> var \<Rightarrow> copy_options \<Rightarrow> forest \<Rightarrow> (bool \<times> forest) option" where
  "importNode node data opts st =
     (case node of
        None \<Rightarrow> Some (False, st)
      | Some n \<Rightarrow> map_option (Pair True) (copy_scratch ''var_import'' (varToNode data) opts n st))"

section \<open>The tree of a value\<close>

fun var_tree :: "string \<Rightarrow> var \<Rightarrow> ntree" where
  "var_tree nm (VList xs) = NT nm VNone (map (var_tree []) xs)"
| "var_tree nm (VDict d) = NT nm VNone (map (\<lambda>(k, v). var_tree k v) d)"
| "var_tree nm v = NT nm v []"

text \<open>Values that survive: no empty lists or dictionaries, and keys that are not special.\<close>

fun canon :: "bool \<Rightarrow> var \<Rightarrow> bool" where
  "canon ign (VList xs) = (xs \<noteq> [] \<and> (\<forall>x \<in> set xs. canon ign x))"
| "canon ign (VDict d) = (d \<noteq> [] \<and> dict_wf d \<and> (\<forall>(k, v) \<in> set d. k \<noteq> [] \<and> k \<noteq> ''_value''
     \<and> \<not> isIgnoredChild ign k \<and> canon ign v))"
| "canon ign v = True"

lemma var_tree_name [simp]: "tree_name (var_tree nm v) = nm" "renamed nm' (var_tree nm v) = var_tree nm' v"
  by (cases v; simp)+

lemma not_ignored_Nil [simp]: "\<not> isIgnoredChild ign []"
  by (simp add: isIgnoredChild_def)

lemma first_seen_distinct: "distinct xs \<Longrightarrow> set seen \<inter> set xs = {} \<Longrightarrow> first_seen seen xs = seen @ xs"
  by (induction xs arbitrary: seen) auto

lemma put_all_distinct:
  "distinct (map fst kvs) \<Longrightarrow> fst ` set kvs \<inter> fst ` set d = {} \<Longrightarrow> put_all kvs d = d @ kvs"
proof (induction kvs arbitrary: d)
  case (Cons kv kvs)
  obtain k v where kv: "kv = (k, v)" by force
  have "dict_put k v d = d @ [(k, v)]" using Cons.prems(2) by (auto simp: dict_put_def kv update_absent)
  then show ?case using Cons.IH [of "d @ [(k, v)]"] Cons.prems by (auto simp: kv)
qed simp

lemma hd_filter_unique:
  "distinct (map f xs) \<Longrightarrow> x \<in> set xs \<Longrightarrow> hd (filter (\<lambda>y. f y = f x) xs) = x"
proof -
  assume d: "distinct (map f xs)" and x: "x \<in> set xs"
  have "filter (\<lambda>y. f y = f x) xs = filter (\<lambda>y. y = x) xs"
    using d x by (intro filter_cong) (auto simp: distinct_map dest: inj_onD)
  moreover have "filter (\<lambda>y. y = x) xs \<noteq> []" using x by (auto simp: filter_empty_conv)
  moreover have "set (filter (\<lambda>y. y = x) xs) \<subseteq> {x}" by auto
  ultimately show ?thesis by (metis hd_in_set singletonD subsetD)
qed

section \<open>Exporting the tree of a value\<close>

lemma those_shaped:
  assumes "list_all2 (shaped st) cs ts" "length vs = length ts"
    "\<And>i. i < length ts \<Longrightarrow> shaped st (cs ! i) (ts ! i) \<Longrightarrow> g (cs ! i) = Some (vs ! i)"
  shows "those (map g cs) = Some vs"
  unfolding those_Some using assms by (auto simp: list_all2_conv_all_nth)

lemma case_hd: "xs \<noteq> [] \<Longrightarrow> (case xs of [] \<Rightarrow> a | y # ys \<Rightarrow> b y) = b (hd xs)"
  by (cases xs) simp_all

lemma nodeToVar_tree:
  "shaped st n (var_tree nm v) \<Longrightarrow> height (var_tree nm v) \<le> fuel \<Longrightarrow> canon ign v \<Longrightarrow> nodeToVar fuel ign st n = Some v"
proof (induction v arbitrary: n nm fuel)
  case (VList xs)
  let ?ts = "map (var_tree []) xs"
  obtain f where f: "fuel = Suc f" using VList.prems(2) by (cases fuel) simp_all
  have sh: "list_all2 (shaped st) (kids st n) ?ts" using VList.prems(1) by simp
  have un: "name_of st c = []" if "c \<in> set (kids st n)" for c
    using that arg_cong [OF list_all2_shaped_names [OF sh], of set] by auto
  have vis: "filter (\<lambda>c. \<not> isIgnoredChild ign (name_of st c)) (kids st n) = kids st n"
    using un by (simp add: filter_id_conv)
  have h: "height t \<le> f" if "t \<in> set ?ts" for t
    using height_kid [OF that, of nm VNone] VList.prems(2) by (simp add: f del: height.simps)
  have "those (map (nodeToVar f ign st) (kids st n)) = Some xs"
    by (rule those_shaped [OF sh]) (use VList h in auto)
  moreover obtain c cs where "kids st n = c # cs" using sh VList.prems(3) by (cases "kids st n") auto
  ultimately show ?case using un vis by (simp add: f)
next
  case (VDict d)
  let ?ts = "map (\<lambda>(k, v). var_tree k v) d"
  obtain f where f: "fuel = Suc f" using VDict.prems(2) by (cases fuel) simp_all
  have sh: "list_all2 (shaped st) (kids st n) ?ts" and nv: "node_value st n = VNone" using VDict.prems(1) by simp_all
  have nms: "map (name_of st) (kids st n) = map fst d"
    using list_all2_shaped_names [OF sh] by (simp add: o_def case_prod_unfold)
  have kn: "name_of st c \<noteq> [] \<and> name_of st c \<noteq> ''_value'' \<and> \<not> isIgnoredChild ign (name_of st c)"
    if "c \<in> set (kids st n)" for c
  proof -
    have "name_of st c \<in> fst ` set d" using that arg_cong [OF nms, of set] by auto
    then show ?thesis using VDict.prems(3) by auto
  qed
  have dist: "distinct (map (name_of st) (kids st n))" using VDict.prems(3) by (simp add: nms dict_wf_def)
  have fl: "filter (\<lambda>c. \<not> isIgnoredChild ign (name_of st c)) (kids st n) = kids st n"
    "filter (\<lambda>c. name_of st c \<noteq> []) (kids st n) = kids st n" "filter (\<lambda>c. name_of st c = []) (kids st n) = []"
    using kn by (simp_all add: filter_id_conv filter_empty_conv)
  have h: "height t \<le> f" if "t \<in> set ?ts" for t
    using height_kid [OF that, of nm VNone] VDict.prems(2) by (simp add: f del: height.simps)
  let ?g = "\<lambda>nm. map_option (Pair nm) (nodeToVar f ign st (hd (filter (\<lambda>c. name_of st c = nm) (kids st n))))"
  have "those (map ?g (map (name_of st) (kids st n))) = Some d"
    unfolding map_map
  proof (rule those_shaped [OF sh])
    fix i assume i: "i < length ?ts" and s: "shaped st (kids st n ! i) (?ts ! i)"
    obtain k v where kv: "d ! i = (k, v)" by force
    have l: "length (kids st n) = length d" using list_all2_lengthD [OF sh] by simp
    have mem: "(k, v) \<in> set d" using i kv nth_mem [of i d] by simp
    have "hd (filter (\<lambda>c. name_of st c = name_of st (kids st n ! i)) (kids st n)) = kids st n ! i"
      using hd_filter_unique [OF dist] i l by simp
    moreover have "name_of st (kids st n ! i) = k" using s i by (simp add: kv shaped_name)
    moreover have "nodeToVar f ign st (kids st n ! i) = Some v"
      using VDict.IH [OF mem, of v "kids st n ! i" k f] s i h [of "?ts ! i"] VDict.prems(3) mem nth_mem [of i ?ts]
      by (auto simp: kv)
    ultimately show "(?g \<circ> name_of st) (kids st n ! i) = Some (d ! i)" by (simp add: kv)
  qed simp
  moreover have "put_all d [] = d" using put_all_distinct [of d "[]"] VDict.prems(3) by (simp add: dict_wf_def)
  moreover have "first_seen [] (map (name_of st) (kids st n)) = map (name_of st) (kids st n)"
    using first_seen_distinct [OF dist, of "[]"] by simp
  moreover have ne: "kids st n \<noteq> []" using sh VDict.prems(3) by auto
  moreover have "name_of st (hd (kids st n)) \<noteq> []" using kn hd_in_set [OF ne] by blast
  ultimately show ?case by (simp add: f fl nv isNull_def Let_def case_hd del: map_map)
qed (simp_all, (case_tac fuel; simp)+)

section \<open>Importing a value\<close>

lemma builds_rename: "builds f (var_tree nm v) \<Longrightarrow> builds f (var_tree nm' v)"
  by (simp add: builds_def)

text \<open>A key that no child has yet: the child is appended.\<close>

lemma ensureSchemaChild_new:
  assumes ok: "forest_ok st" and n: "alive st n" and k: "k \<noteq> []" "k \<notin> name_of st ` set (kids st n)"
  shows "ensureSchemaChild n k st = append_node n k 0 st"
proof -
  have "named_kids st n k = []" using k(2) by (auto simp: named_kids_def filter_empty_conv)
  then have "count_named st n k = 0" "child_named st n k 0 = None"
    using count_named_spec [OF ok n k(1)] child_named_spec [OF ok n k(1)] by simp_all
  then show ?thesis by (simp add: ensureSchemaChild_def)
qed

lemma list_branch: "(case v of VList xs \<Rightarrow> elems_to_node xs c st | _ \<Rightarrow> varToNode v c st) = varToNode v c st"
  by (cases v) simp_all

lemma entries_build:
  assumes "\<forall>(k, v) \<in> set d. k \<noteq> [] \<and> k \<noteq> ''_value'' \<and> builds (varToNode v) (var_tree k v)" "distinct (map fst d)"
  shows "forest_ok st \<Longrightarrow> alive st n \<Longrightarrow> fst ` set d \<inter> name_of st ` set (kids st n) = {}
    \<Longrightarrow> \<exists>st' cs. entries_to_node d n st = Some st' \<and> beside n st st' \<and> kids st' n = kids st n @ cs
          \<and> list_all2 (shaped st') cs (map (\<lambda>(k, v). var_tree k v) d) \<and> node_value st' n = node_value st n"
  using assms
proof (induction d arbitrary: st)
  case Nil
  then show ?case using beside_refl by auto
next
  case (Cons kv d)
  obtain k v where kv: "kv = (k, v)" by force
  have k: "k \<noteq> []" "k \<noteq> ''_value''" "builds (varToNode v) (var_tree k v)" "k \<notin> name_of st ` set (kids st n)"
    using Cons.prems by (auto simp: kv)
  obtain c st1 st2 where c: "append_node n k 0 st = Some (Some c, st1)" "varToNode v c st1 = Some st2" "beside n st st2"
    "kids st2 n = kids st n @ [c]" "shaped st2 c (var_tree k v)" "node_value st2 n = node_value st n"
    using append_build [OF Cons.prems(1,2) k(3)] by auto
  have ok2: "forest_ok st2" "alive st2 n" using c(3) Cons.prems(2) by (auto simp: beside_def)
  have "name_of st2 m = name_of st m" if "m \<in> set (kids st n)" for m
    using that c(3) kid_facts [OF Cons.prems(1,2)] by (simp add: beside_def)
  moreover have "name_of st2 c = k" using shaped_name [OF c(5)] by simp
  ultimately have "fst ` set d \<inter> name_of st2 ` set (kids st2 n) = {}"
    using Cons.prems(3,5) by (auto simp: c(4) kv)
  then obtain st3 cs where st3: "entries_to_node d n st2 = Some st3" "beside n st2 st3" "kids st3 n = kids st2 n @ cs"
    "list_all2 (shaped st3) cs (map (\<lambda>(k, v). var_tree k v) d)" "node_value st3 n = node_value st2 n"
    using Cons.IH [OF ok2] Cons.prems(4,5) by auto
  have "shaped st3 c (var_tree k v)" using kid_shape [OF ok2 _ st3(2) c(5)] c(4) by simp
  moreover have "entries_to_node (kv # d) n st = Some st3"
    using k c(1,2) st3(1) ensureSchemaChild_new [OF Cons.prems(1,2) k(1,4)] by (simp add: kv list_branch)
  ultimately show ?case using c(4,6) st3 beside_trans [OF c(3) st3(2)]
    by (intro exI [of _ st3] exI [of _ "c # cs"]) (simp add: kv)
qed

lemma varToNode_builds: "canon ign v \<Longrightarrow> builds (varToNode v) (var_tree nm v)"
proof (induction v arbitrary: nm)
  case (VList xs)
  have "list_all2 (\<lambda>x t. [] = tree_name t \<and> builds (varToNode x) t) xs (map (var_tree []) xs)"
    using VList by (auto simp: list_all2_map2 list_all2_same)
  note all = append_all [where run = elems_to_node and nm = "\<lambda>_. []" and f = varToNode, OF _ _ this]
  show ?case unfolding builds_def
  proof (intro allI impI)
    fix st n assume ok: "forest_ok st" and n: "alive st n" "kids st n = []" "node_value st n = VNone"
    obtain st' where "elems_to_node xs n st = Some st'" "beside n st st'" "list_all2 (shaped st') (kids st' n) (map (var_tree []) xs)"
      "node_value st' n = VNone"
      using all [OF _ _ ok n(1)] n(2,3) by auto
    then show "\<exists>st'. varToNode (VList xs) n st = Some st' \<and> beside n st st'
        \<and> shaped st' n (renamed (name_of st n) (var_tree nm (VList xs)))"
      using n(1) by (auto simp: beside_def)
  qed
next
  case (VDict d)
  have all: "\<forall>(k, v) \<in> set d. k \<noteq> [] \<and> k \<noteq> ''_value'' \<and> builds (varToNode v) (var_tree k v)" "distinct (map fst d)"
    using VDict by (auto simp: dict_wf_def)
  show ?case unfolding builds_def
  proof (intro allI impI)
    fix st n assume ok: "forest_ok st" and n: "alive st n" "kids st n = []" "node_value st n = VNone"
    obtain st' where "entries_to_node d n st = Some st'" "beside n st st'"
      "list_all2 (shaped st') (kids st' n) (map (\<lambda>(k, v). var_tree k v) d)" "node_value st' n = VNone"
      using entries_build [OF all ok n(1)] n(2,3) by auto
    then show "\<exists>st'. varToNode (VDict d) n st = Some st' \<and> beside n st st'
        \<and> shaped st' n (renamed (name_of st n) (var_tree nm (VDict d)))"
      using n(1) by (auto simp: beside_def)
  qed
qed (use set_value_beside in \<open>fastforce simp: builds_def beside_def\<close>)+

definition container_var :: "var \<Rightarrow> bool" where
  "container_var v \<longleftrightarrow> isList v \<or> isDict v"

text \<open>Through a scratch tree of any name.\<close>

lemma scratch_roundtrip:
  assumes "forest_ok st" "alive st d" "kids st d = []" "auto_insert opts" "canon ign v"
  shows "\<exists>st'. copy_scratch nm (varToNode v) opts d st = Some st' \<and> forest_ok st'
    \<and> exportNode ign (Some d) st' = Some (if container_var v then v else final_value opts (node_value st d) v)
    \<and> (\<forall>m. alive st m \<and> m \<noteq> d \<longrightarrow> alive st' m \<and> kids st' m = kids st m \<and> node_value st' m = node_value st m
         \<and> name_of st' m = name_of st m \<and> parent st' m = parent st m)"
proof -
  obtain nv ts where t: "var_tree (name_of st d) v = NT (name_of st d) nv ts" by (cases v) auto
  obtain st' where st': "copy_scratch nm (varToNode v) opts d st = Some st'" "forest_ok st'"
    "shaped st' d (NT (name_of st d) (final_value opts (node_value st d) nv) ts)"
    "\<forall>m. alive st m \<and> m \<noteq> d \<longrightarrow> alive st' m \<and> kids st' m = kids st m \<and> node_value st' m = node_value st m
         \<and> name_of st' m = name_of st m \<and> parent st' m = parent st m"
    using copy_scratch_spec [OF assms(1-4), of "varToNode v" "name_of st d" nv ts nm]
      varToNode_builds [OF assms(5), of "name_of st d"] by (auto simp: t)
  define w where "w = (if container_var v then v else final_value opts (node_value st d) v)"
  have w: "var_tree (name_of st d) w = NT (name_of st d) (final_value opts (node_value st d) nv) ts" "canon ign w"
  proof -
    have none: "final_value opts old VNone = VNone" for old
      by (cases old) (auto simp: final_value_def)
    have scalar: "var_tree nm (final_value opts old x) = NT nm (final_value opts old x) [] \<and> canon ign (final_value opts old x)"
      if "\<not> container_var x" for nm old x
      using that var_eq_type [of old x] by (cases x; cases old) (auto simp: final_value_def container_var_def isList_def isDict_def)
    show "var_tree (name_of st d) w = NT (name_of st d) (final_value opts (node_value st d) nv) ts" "canon ign w"
      using t none scalar [of v] assms(5)
      by (cases v; auto simp: w_def container_var_def isList_def isDict_def)+
  qed
  have a: "alive st' d" using st'(3) by simp
  obtain u where u: "shaped st' d u" "height u \<le> card (dset st' d)" using shape_exists [OF st'(2) a] by blast
  then have "height (var_tree (name_of st d) w) \<le> next_id st' + 1"
    using card_dset_le [OF st'(2) a] shaped_unique [OF u(1), of "var_tree (name_of st d) w"] st'(3) w(1) by simp
  then have "exportNode ign (Some d) st' = Some w"
    using nodeToVar_tree [of st' d "name_of st d" w "next_id st' + 1" ign] st'(3) w
    by (simp add: exportNode_def del: nodeToVar.simps)
  then show ?thesis using st' by (auto simp: w_def)
qed

text \<open>C28: Importing a value into a childless node and exporting the node gives the value back, when
  the value holds no empty list or dictionary and no key that is empty, \<open>_value\<close> or ignored by the
  export. A value that is neither list nor dictionary gives way to the node's old value where
  updating finds the two equal. Every other node is as before.\<close>

theorem var_tree_roundtrip:
  assumes "forest_ok st" "alive st d" "kids st d = []" "auto_insert opts" "canon ign v"
  shows "\<exists>st'. importNode (Some d) v opts st = Some (True, st') \<and> forest_ok st'
    \<and> exportNode ign (Some d) st' = Some (if container_var v then v else final_value opts (node_value st d) v)
    \<and> (\<forall>m. alive st m \<and> m \<noteq> d \<longrightarrow> alive st' m \<and> kids st' m = kids st m \<and> node_value st' m = node_value st m
         \<and> name_of st' m = name_of st m \<and> parent st' m = parent st m)"
  using scratch_roundtrip [OF assms, of "''var_import''"] by (auto simp: importNode_def)

theorem var_tree_roundtrip_witness:
  "\<exists>st'. importNode (Some 3) (VDict [(''a'', VList [VInt 1, VInt 2]), (''b'', VString ''x'')])
      \<lparr>auto_insert = True, auto_remove = False, auto_update = False\<rparr> demo = Some (True, st')
    \<and> exportNode False (Some 3) st' = Some (VDict [(''a'', VList [VInt 1, VInt 2]), (''b'', VString ''x'')])"
  using var_tree_roundtrip [OF demo_ok demo_alive(3) demo_kids(3), of "\<lparr>auto_insert = True, auto_remove = False, auto_update = False\<rparr>"
      False "VDict [(''a'', VList [VInt 1, VInt 2]), (''b'', VString ''x'')]"]
  by (auto simp: container_var_def isDict_def dict_wf_def isIgnoredChild_def)

end
