(* ===== verification/Node_Plain.thy ===== *)
theory Node_Plain
  imports Var_Tree
begin

text \<open>
  Trees without shadows. No operation on the tree sets a shadow but \<open>setShadow\<close>, which only command
  contexts use; without one, access by path with and without shadows is the same, and fields can be
  read off the shape of a subtree. The lemmas here are what the protocol's requests and replies need.
\<close>

section \<open>No shadows\<close>

definition plain :: "forest \<Rightarrow> bool" where
  "plain st \<longleftrightarrow> (\<forall>m ob. heap st m = Some ob \<longrightarrow> o_shadow ob = None)"

lemma plain_obj: "plain st \<Longrightarrow> alive st m \<Longrightarrow> o_shadow (obj st m) = None"
  by (auto simp: plain_def alive_def obj_def)

lemma plain_upd_same: "(\<And>ob. o_shadow (f ob) = o_shadow ob) \<Longrightarrow> plain (upd n f st) = plain st"
  unfolding plain_def
proof (rule arg_cong [of _ _ All], rule ext)
  fix m assume "\<And>ob. o_shadow (f ob) = o_shadow ob"
  then show "(\<forall>ob. heap (upd n f st) m = Some ob \<longrightarrow> o_shadow ob = None) = (\<forall>ob. heap st m = Some ob \<longrightarrow> o_shadow ob = None)"
    by (cases "heap st m") (auto simp: upd_def)
qed

lemma plain_upd [simp]:
  "plain (upd n (o_parent_update f) st) = plain st" "plain (upd n (o_children_update g) st) = plain st"
  "plain (upd n (o_value_update h) st) = plain st" "plain (upd n (o_flags_update k) st) = plain st"
  by (simp_all add: plain_upd_same)

lemma plain_trigger [simp]: "plain (trigger n e st) = plain st" "plain (st\<lparr>events := es\<rparr>) = plain st"
  by (simp_all add: trigger_def plain_def)

lemma plain_activate: "activate fuel sig source n st = Some st' \<Longrightarrow> plain st' = plain st"
  by (induction fuel sig source n st rule: activate.induct) (auto simp: Let_def split: if_splits option.splits)

lemma plain_notify: "notify n e sig st = Some st' \<Longrightarrow> plain st' = plain st"
  by (auto simp: notify_def Let_def simp del: activate.simps split: if_splits dest: plain_activate)

lemma plain_new: "new_node nm st = (c, st') \<Longrightarrow> plain st \<Longrightarrow> plain st'"
  by (auto simp: new_node_def plain_def split: if_splits)

lemma plain_news: "new_nodes k nm st = (cs, st') \<Longrightarrow> plain st \<Longrightarrow> plain st'"
  by (induction k nm st arbitrary: cs st' rule: new_nodes.induct) (auto simp: Let_def split: prod.splits dest: plain_new)

lemma plain_set_value: "set_value n v st = Some st' \<Longrightarrow> plain st' = plain st"
  by (auto simp: set_value_def Let_def dest: plain_notify)

lemma plain_update_value: "update_value n v st = Some (b, st') \<Longrightarrow> plain st' = plain st"
  by (auto simp: update_value_def split: if_splits dest: plain_set_value)

lemma plain_take: "take_child n c st = Some (r, st') \<Longrightarrow> plain st' = plain st"
  by (auto simp: take_child_def Let_def split: option.splits prod.splits if_splits dest: plain_notify)

lemma plain_place: "place_child n c i st = (k, st') \<Longrightarrow> plain st' = plain st"
  by (auto simp: place_child_def Let_def split: prod.splits if_splits)

lemma plain_detach: "detach c st = Some st' \<Longrightarrow> plain st' = plain st"
  by (auto simp: detach_def split: option.splits dest: plain_take)

lemma plain_insert: "insert_child n c i st = Some (b, st') \<Longrightarrow> plain st' = plain st"
  by (auto simp: insert_child_def split: option.splits prod.splits dest!: plain_detach plain_place plain_notify)

lemma plain_detach_all: "detach_all cs st = Some st' \<Longrightarrow> plain st' = plain st"
  by (induction cs st rule: detach_all.induct) (auto split: option.splits dest: plain_detach)

lemma plain_set_parents [simp]: "plain (set_parents n cs st) = plain st"
  by (induction n cs st rule: set_parents.induct) simp_all

lemma plain_place_batch: "place_batch n cs i st = (k, st') \<Longrightarrow> plain st' = plain st"
  by (auto simp: place_batch_def Let_def split: if_splits)

lemma plain_insert_batch: "insert_batch n cs i st = Some (b, st') \<Longrightarrow> plain st' = plain st"
  by (auto simp: insert_batch_def split: if_splits option.splits prod.splits dest!: plain_detach_all plain_place_batch plain_notify)

lemma plain_append: "append_node n nm ov st = Some (r, st') \<Longrightarrow> plain st \<Longrightarrow> plain st'"
  by (auto simp: append_node_def split: if_splits prod.splits dest: plain_new plain_news plain_insert plain_insert_batch)

lemma plain_delete:
  "delete_node fuel n st = Some st' \<Longrightarrow> plain st \<Longrightarrow> plain st'"
  "delete_kids fuel cs st = Some st' \<Longrightarrow> plain st \<Longrightarrow> plain st'"
proof (induction fuel n st and fuel cs st arbitrary: st' and st' rule: delete_node_delete_kids.induct)
  case (2 fuel n st)
  then show ?case by (auto simp: plain_def split: option.splits if_splits)
qed (auto split: option.splits)

lemma plain_remove: "remove_child n c st = Some (b, st') \<Longrightarrow> plain st \<Longrightarrow> plain st'"
  by (auto simp: remove_child_def simp del: delete_node.simps split: option.splits prod.splits dest: plain_take plain_delete(1))

lemma plain_orphan [simp]: "plain (orphan_kids cs st) = plain st"
  by (induction cs st rule: orphan_kids.induct) simp_all

lemma plain_clear: "clear n ad st = Some st' \<Longrightarrow> plain st \<Longrightarrow> plain st'"
  by (auto simp: clear_def clear_children_def Let_def simp del: delete_node.simps delete_kids.simps
      split: option.splits if_splits dest!: plain_delete(2) plain_notify)

lemma plain_remove_unmatched: "remove_unmatched n cs m st = Some st' \<Longrightarrow> plain st \<Longrightarrow> plain st'"
  by (induction n cs m st rule: remove_unmatched.induct) (auto split: if_splits option.splits dest: plain_remove)

lemma plain_copy:
  "copy_node fuel opts n other st = Some st' \<Longrightarrow> plain st \<Longrightarrow> plain st'"
  "copy_sources fuel opts n ss cm pending st = Some (ps, st') \<Longrightarrow> plain st \<Longrightarrow> plain st'"
  "flush_pending fuel opts n anchor ss st = Some st' \<Longrightarrow> plain st \<Longrightarrow> plain st'"
proof (induction fuel opts n other st and fuel opts n ss cm pending st and fuel opts n anchor ss st
    arbitrary: st' and st' ps and st' rule: copy_node_copy_sources_flush_pending.induct)
  case (2 fuel opts n other st)
  show ?case
  proof (cases "other = None \<or> other = Some n")
    case True
    then show ?thesis using 2 by auto
  next
    case False
    then obtain src where src: "other = Some src" "src \<noteq> n" by auto
    define removed where "removed = (if auto_remove opts \<and> kids st n \<noteq> [] then remove_unmatched n (rev (kids st n))
             (cm_matched (match_all st (kids st src) (bucket_children st (kids st n) no_match))) st else Some st)"
    obtain st1 ps st2 st3 where r: "removed = Some st1"
      "copy_sources fuel opts n (kids st src) (bucket_children st1 (kids st1 n) no_match) [] st1 = Some (ps, st2)"
      "flush_pending fuel opts n None ps st2 = Some st3"
      "(if auto_update opts then map_option snd (update_value n (node_value st3 src) st3) else set_value n (node_value st3 src) st3) = Some st'"
      using 2(3) src by (auto simp: Let_def simp flip: removed_def split: option.splits)
    have "plain st1" using r(1) 2(4) by (auto simp: removed_def split: if_splits dest: plain_remove_unmatched)
    then have "plain st2" using 2(1) [OF src refl removed_def r(1,2)] by simp
    then have "plain st3" using 2(2) [OF src refl removed_def r(1,2) refl r(3)] by simp
    then show ?thesis using r(4) by (auto split: if_splits dest: plain_set_value plain_update_value)
  qed
next
  case (4 fuel opts n s ss cm pending st)
  then show ?case by (fastforce split: option.splits prod.splits)
next
  case (6 fuel opts n anchor s ss st)
  obtain c st1 where c: "new_node (name_of st s) st = (c, st1)" by force
  obtain b st2 where b: "insert_child n (Some c) (insert_position st1 n anchor) st1 = Some (b, st2)"
    using 6(4) by (auto simp: c simp del: delete_node.simps split: option.splits)
  have p2: "plain st2" using plain_insert [OF b] plain_new [OF c 6(5)] by simp
  note IH = 6(1-3) [OF c [symmetric] refl b refl]
  show ?case
  proof (cases b)
    case True
    then obtain st3 where h: "copy_node fuel opts c (Some s) st2 = Some st3" "flush_pending fuel opts n anchor ss st3 = Some st'"
      using 6(4) b by (auto simp: c split: option.splits)
    show ?thesis using IH(2) [OF _ h IH(1) [OF _ h(1) p2]] True by simp
  next
    case False
    then obtain st3 where d: "delete_node (next_id st2 + 1) c st2 = Some st3" "flush_pending fuel opts n anchor ss st3 = Some st'"
      using 6(4) b by (auto simp: c simp del: delete_node.simps split: option.splits)
    show ?thesis using IH(3) [OF _ d plain_delete(1) [OF d(1) p2]] False by simp
  qed
qed auto

lemma plain_ensure_key: "ensure_key n key us sep st = Some (r, st') \<Longrightarrow> plain st \<Longrightarrow> plain st'"
  by (auto simp: ensure_key_def ensure_index_def ensure_named_def simp del: at_index.simps at_named.simps
      split: key.splits option.splits if_splits dest: plain_append)

lemma plain_ensure_walk: "ensure_walk n us sep segs st = Some (r, st') \<Longrightarrow> plain st \<Longrightarrow> plain st'"
  by (induction n us sep segs st arbitrary: r st' rule: ensure_walk.induct)
    (fastforce split: option.splits dest: plain_ensure_key)+

lemma plain_ensure_path: "ensure_path n p us ps sep st = Some (r, st') \<Longrightarrow> plain st \<Longrightarrow> plain st'"
  by (auto simp: ensure_path_def split: option.splits dest: plain_ensure_walk)

lemma plain_reset: "resetNodeContent n st = Some st' \<Longrightarrow> plain st \<Longrightarrow> plain st'"
  by (auto simp: resetNodeContent_def bind_eq_Some_conv dest: plain_clear plain_set_value)

lemma plain_clear_anonymous: "clear_anonymous n is st = Some st' \<Longrightarrow> plain st \<Longrightarrow> plain st'"
  by (induction "is" arbitrary: st) (auto split: option.splits if_splits dest: plain_remove)

lemma plain_trim: "trim_named fuel n key st = Some st' \<Longrightarrow> plain st \<Longrightarrow> plain st'"
  by (induction fuel arbitrary: st) (auto split: option.splits if_splits dest: plain_remove)

lemma plain_schema_child: "ensureSchemaChild n key st = Some (r, st') \<Longrightarrow> plain st \<Longrightarrow> plain st'"
  by (auto simp: ensureSchemaChild_def bind_eq_Some_conv simp del: trim_named.simps
      split: option.splits dest: plain_trim plain_reset plain_append)

lemma case_option_Some_iff: "(case x of None \<Rightarrow> None | Some y \<Rightarrow> f y) = Some z \<longleftrightarrow> (\<exists>y. x = Some y \<and> f y = Some z)"
  by (cases x) simp_all

lemma plain_import:
  "varToNode v n st = Some st' \<Longrightarrow> plain st \<Longrightarrow> plain st'"
  "entries_to_node kvs n st = Some st' \<Longrightarrow> plain st \<Longrightarrow> plain st'"
  "elems_to_node xs n st = Some st' \<Longrightarrow> plain st \<Longrightarrow> plain st'"
proof (induction v n st and kvs n st and xs n st arbitrary: st' and st' and st' rule: varToNode_entries_to_node_elems_to_node.induct)
  case (5 k v kvs n st)
  obtain st2 where st2: "(if k = ''_value'' then set_value n v st
            else if k = [] then
              (case clearAnonymousChildren n st of
                 None \<Rightarrow> None
               | Some st1 \<Rightarrow> (case v of VList xs \<Rightarrow> elems_to_node xs n st1 | _ \<Rightarrow> Some st1))
            else
              (case ensureSchemaChild n k st of
                 None \<Rightarrow> None
               | Some (None, st1) \<Rightarrow> Some st1
               | Some (Some c, st1) \<Rightarrow>
                   (case v of VList xs \<Rightarrow> elems_to_node xs c st1 | _ \<Rightarrow> varToNode v c st1))) = Some st2"
    "entries_to_node kvs n st2 = Some st'"
    using "5.prems"(1) [unfolded entries_to_node.simps(2), THEN case_option_Some_iff [THEN iffD1]] by (elim exE conjE) (rule that)
  consider "k = ''_value''" | "k = []" | "k \<noteq> ''_value''" "k \<noteq> []" by blast
  then have "plain st2"
  proof cases
    case 1
    then show ?thesis using st2(1) "5.prems"(2) plain_set_value by simp
  next
    case 2
    then obtain st1 where st1: "clearAnonymousChildren n st = Some st1"
      "(case v of VList xs \<Rightarrow> elems_to_node xs n st1 | _ \<Rightarrow> Some st1) = Some st2"
      using st2(1) by (auto split: option.splits)
    have "plain st1" using st1(1) "5.prems"(2) plain_clear_anonymous by (auto simp: clearAnonymousChildren_def)
    show ?thesis
    proof (cases "\<exists>xs. v = VList xs")
      case True
      then show ?thesis using "5.IH"(1) [OF _ 2 st1(1)] st1(2) 2 \<open>plain st1\<close> by auto
    next
      case False
      then show ?thesis using st1(2) \<open>plain st1\<close> by (cases v) auto
    qed
  next
    case 3
    then obtain r st1 where r: "ensureSchemaChild n k st = Some (r, st1)" using st2(1) by (auto split: option.splits)
    have p1: "plain st1" using plain_schema_child [OF r "5.prems"(2)] .
    show ?thesis
    proof (cases r)
      case None
      then show ?thesis using st2(1) r 3 p1 by simp
    next
      case (Some c)
      then have "(case v of VList xs \<Rightarrow> elems_to_node xs c st1 | _ \<Rightarrow> varToNode v c st1) = Some st2" using st2(1) r 3 by simp
      then show ?thesis using "5.IH"(2-12) [OF 3 r refl Some] p1 by (cases v) simp_all
    qed
  qed
  then show ?case using "5.IH"(13) [OF st2] by simp
next
  case (7 x xs n st)
  obtain c st1 where a: "append_node n [] 0 st = Some (Some c, st1)"
    using "7.prems"(1) unfolding elems_to_node.simps(2) by (auto split: option.splits simp del: varToNode.simps elems_to_node.simps)
  then obtain st2 where st2: "varToNode x c st1 = Some st2" "elems_to_node xs n st2 = Some st'"
    using "7.prems"(1) unfolding elems_to_node.simps(2) by (auto split: option.splits simp del: varToNode.simps elems_to_node.simps)
  show ?case
    using "7.IH"(2) [OF a refl refl st2 "7.IH"(1) [OF a refl refl st2(1) plain_append [OF a "7.prems"(2)]]] .
qed (auto dest: plain_set_value)

lemma plain_scratch:
  assumes "copy_scratch nm f opts n st = Some st'" "plain st" and f: "\<And>m s s'. f m s = Some s' \<Longrightarrow> plain s \<Longrightarrow> plain s'"
  shows "plain st'"
proof -
  obtain c st1 where c: "new_node nm st = (c, st1)" by force
  then obtain st2 st3 where r: "f c st1 = Some st2" "copy_node (next_id st2 + 1) opts n (Some c) st2 = Some st3"
    "delete_node (next_id st3 + 1) c st3 = Some st'"
    using assms(1) by (auto simp: copy_scratch_def node_copy_def bind_eq_Some_conv simp del: copy_node.simps delete_node.simps)
  show ?thesis using plain_delete(1) [OF r(3) plain_copy(1) [OF r(2) f [OF r(1) plain_new [OF c assms(2)]]]] .
qed

section \<open>Access without shadows\<close>

lemma at_index_plain: "o_shadow (obj st n) = None \<Longrightarrow> at_index (Suc f) st n i us = at_index (Suc f) st n i False"
  by (cases us) (simp_all split: option.split)

lemma at_named_plain: "o_shadow (obj st n) = None \<Longrightarrow> at_named (Suc f) st n nm i us = at_named (Suc f) st n nm i False"
  by (cases us) (simp_all split: option.split)

lemma find_key_plain_tree:
  assumes "plain st" "alive st n"
  shows "find_key st n key us sep = find_key st n key False sep"
  by (cases us) (simp_all only: find_key_def Suc_eq_plus1 [symmetric] at_index_plain [OF plain_obj [OF assms], of _ _ True]
    at_named_plain [OF plain_obj [OF assms], of _ _ _ True])

lemma find_walk_plain:
  assumes "plain st" "forest_ok st"
  shows "alive st n \<Longrightarrow> find_walk st n us sep segs = find_walk st n False sep segs"
proof (induction segs arbitrary: n)
  case (Cons seg segs)
  show ?case
    unfolding find_walk.simps find_key_plain_tree [OF assms(1) Cons.prems, of _ us]
    using Cons.IH kid_facts [OF assms(2) Cons.prems find_key_kid [OF assms(2) Cons.prems]] by (auto split: option.splits)
qed simp

lemma find_path_plain:
  assumes "plain st" "forest_ok st" "alive st n"
  shows "find_path st n p us ps sep = find_path st n p False ps sep"
  using path_start_alive [OF assms(2,3), of p ps] find_walk_plain [OF assms(1,2), of _ us] by (auto simp: find_path_def)

lemma ensure_key_plain_tree:
  assumes "plain st" "alive st n"
  shows "ensure_key n key us sep st = ensure_key n key False sep st"
  by (cases us) (simp_all only: ensure_key_def ensure_index_def ensure_named_def Suc_eq_plus1 [symmetric]
    at_index_plain [OF plain_obj [OF assms], of _ _ True] at_named_plain [OF plain_obj [OF assms], of _ _ _ True])

lemma ensure_walk_plain:
  "plain st \<Longrightarrow> forest_ok st \<Longrightarrow> alive st n \<Longrightarrow> ensure_walk n us sep segs st = ensure_walk n False sep segs st"
proof (induction segs arbitrary: n st)
  case (Cons seg segs)
  have "ensure_walk c us sep segs st1 = ensure_walk c False sep segs st1"
    if e: "ensure_key n seg False sep st = Some (Some c, st1)" for c st1
  proof (cases "parseKey seg sep")
    case (Key nm i)
    from ensure_key_spec [OF Cons.prems(2,3) this] e
    have g: "grows st st1" "find_key st1 n seg False sep = Some (Some c)" by auto
    then have ok: "forest_ok st1" "alive st1 n" using grows_alive [OF g(1) Cons.prems(3)] by (auto simp: grows_def)
    show ?thesis using Cons.IH [OF plain_ensure_key [OF e Cons.prems(1)] ok(1)] kid_facts [OF ok find_key_kid [OF ok g(2)]] by blast
  qed (use e in \<open>auto simp: ensure_key_def\<close>)
  then show ?case
    unfolding ensure_walk.simps ensure_key_plain_tree [OF Cons.prems(1,3), of _ us] by (auto split: option.splits)
qed simp

lemma ensure_path_plain:
  assumes "plain st" "forest_ok st" "alive st n"
  shows "ensure_path n p us ps sep st = ensure_path n p False ps sep st"
  using path_start_alive [OF assms(2,3), of p ps] ensure_walk_plain [OF assms(1,2), of _ us] by (auto simp: ensure_path_def)

lemma demo_plain: "plain demo"
  by (auto simp: plain_def demo_def demo_node_def split: if_splits)

end
