(* ===== verification/Simulation.thy ===== *)
theory Simulation
  imports Main
begin

text \<open>
  The contract shared by the components that implement an abstract data type: every operation
  allowed on the abstract state returns on a related concrete state, and the results are related.
  Proved once here: the same holds of every sequence of operations.
\<close>

fun run_ops :: "('o \<Rightarrow> 's \<Rightarrow> 's option) \<Rightarrow> 'o list \<Rightarrow> 's \<Rightarrow> 's option" where
  "run_ops step [] s = Some s"
| "run_ops step (a # as) s = (case step a s of None \<Rightarrow> None | Some s1 \<Rightarrow> run_ops step as s1)"

fun all_allowed :: "('o \<Rightarrow> 'a \<Rightarrow> bool) \<Rightarrow> ('o \<Rightarrow> 'a \<Rightarrow> 'a) \<Rightarrow> 'o list \<Rightarrow> 'a \<Rightarrow> bool" where
  "all_allowed pre astep [] s \<longleftrightarrow> True"
| "all_allowed pre astep (a # as) s \<longleftrightarrow> pre a s \<and> all_allowed pre astep as (astep a s)"

lemma run_ops_append:
  "run_ops step (xs @ ys) s = (case run_ops step xs s of None \<Rightarrow> None | Some s1 \<Rightarrow> run_ops step ys s1)"
  by (induction xs arbitrary: s) (auto split: option.splits)

locale simulation =
  fixes rel :: "'c \<Rightarrow> 'a \<Rightarrow> bool"
    and cstep :: "'o \<Rightarrow> 'c \<Rightarrow> 'c option"
    and astep :: "'o \<Rightarrow> 'a \<Rightarrow> 'a"
    and pre :: "'o \<Rightarrow> 'a \<Rightarrow> bool"
  assumes step: "rel c a \<Longrightarrow> pre x a \<Longrightarrow> \<exists>c'. cstep x c = Some c' \<and> rel c' (astep x a)"
begin

lemma run:
  "rel c a \<Longrightarrow> all_allowed pre astep xs a \<Longrightarrow> \<exists>c'. run_ops cstep xs c = Some c' \<and> rel c' (fold astep xs a)"
proof (induction xs arbitrary: c a)
  case (Cons x xs)
  obtain c1 where "cstep x c = Some c1" "rel c1 (astep x a)" using step Cons.prems by fastforce
  then show ?case using Cons.IH [of c1 "astep x a"] Cons.prems(2) by simp
qed simp

end

end
