(* ===== verification/Subscribe.thy ===== *)
theory Subscribe
  imports Node_Plain Simulation "HOL-Library.AList"
begin

text \<open>
  Subscriptions of remote sessions to nodes (\<open>ve/src/service/subscribe_service.cpp\<close>). A service keeps,
  for every session, a list of entries; each entry owns an observer connected to one signal of its
  target node. The services on one root node share a table that counts the entries of every path. The
  unordered maps are association lists without repeated keys; the locks are not modelled, operations
  are atomic.
\<close>

section \<open>Entries and shared counts\<close>

record sub_entry =
  se_path :: string
  se_bubble :: bool
  se_tree :: bool
  se_target :: nid

type_synonym counts = "string \<Rightarrow> nat option"

record subscribe_service =
  sv_root :: nid
  sv_sessions :: "(u64 \<times> sub_entry list) list"
  sv_push :: bool

definition normalizePath :: "string \<Rightarrow> string" where
  "normalizePath p = rev (dropWhile (\<lambda>c. c = CHR ''/'') (rev (dropWhile (\<lambda>c. c = CHR ''/'') p)))"

definition addCount :: "string \<Rightarrow> counts \<Rightarrow> counts" where
  "addCount p c = c(p \<mapsto> (case c p of None \<Rightarrow> 0 | Some k \<Rightarrow> k) + 1)"

definition removeCount :: "string \<Rightarrow> counts \<Rightarrow> counts" where
  "removeCount p c = (case c p of None \<Rightarrow> c | Some k \<Rightarrow> if 1 < k then c(p \<mapsto> k - 1) else c(p := None))"

definition getSubscriberCount :: "string \<Rightarrow> counts \<Rightarrow> nat" where
  "getSubscriberCount p c = (case c (normalizePath p) of None \<Rightarrow> 0 | Some k \<Rightarrow> k)"

section \<open>Operations\<close>

definition entries_of :: "subscribe_service \<Rightarrow> u64 \<Rightarrow> sub_entry list" where
  "entries_of sv s = (case map_of (sv_sessions sv) s of None \<Rightarrow> [] | Some es \<Rightarrow> es)"

definition stop_service :: "subscribe_service \<Rightarrow> counts \<Rightarrow> subscribe_service \<times> counts" where
  "stop_service sv c =
     (sv\<lparr>sv_sessions := []\<rparr>, fold removeCount (map se_path (concat (map snd (sv_sessions sv)))) c)"

text \<open>The target is looked up and, where it is missing, created; a path that cannot be created
  leaves everything as it is. \<open>None\<close>: the key parser's overflow, or a walk without end.\<close>

definition sub_target :: "nid \<Rightarrow> string \<Rightarrow> forest \<Rightarrow> (nid option \<times> forest) option" where
  "sub_target root normalized st =
     (case (if normalized = [] then Some (Some root)
            else find_path st root normalized True VE_NODE_PATH_SEP VE_NODE_KEY_SEP) of
        None \<Rightarrow> None
      | Some (Some n) \<Rightarrow> Some (Some n, st)
      | Some None \<Rightarrow> ensure_path root normalized True VE_NODE_PATH_SEP VE_NODE_KEY_SEP st)"

definition subscribe_path ::
  "u64 \<Rightarrow> string \<Rightarrow> bool \<Rightarrow> bool \<Rightarrow> subscribe_service \<Rightarrow> counts \<Rightarrow> forest \<Rightarrow> (subscribe_service \<times> counts \<times> forest) option" where
  "subscribe_path session p bubbles whole sv c st =
     (let normalized = normalizePath p
      in case sub_target (sv_root sv) normalized st of
           None \<Rightarrow> None
         | Some (None, st1) \<Rightarrow> Some (sv, c, st1)
         | Some (Some target, st1) \<Rightarrow>
             (let e = \<lparr>se_path = normalized, se_bubble = bubbles, se_tree = whole, se_target = target\<rparr>
              in case (if bubbles then watchAll (next_id st1 + 1) True target st1 else Some st1) of
                   None \<Rightarrow> None
                 | Some st2 \<Rightarrow>
                     Some (sv\<lparr>sv_sessions := AList.update session (entries_of sv session @ [e]) (sv_sessions sv)\<rparr>,
                           addCount normalized c, st2)))"

definition unsubscribe_path :: "u64 \<Rightarrow> string \<Rightarrow> subscribe_service \<Rightarrow> counts \<Rightarrow> subscribe_service \<times> counts" where
  "unsubscribe_path session p sv c =
     (let normalized = normalizePath p
      in case map_of (sv_sessions sv) session of
           None \<Rightarrow> (sv, c)
         | Some es \<Rightarrow>
             (let kept = filter (\<lambda>e. se_path e \<noteq> normalized) es;
                  gone = filter (\<lambda>e. se_path e = normalized) es
              in (sv\<lparr>sv_sessions := (if kept = [] then AList.delete session (sv_sessions sv)
                                    else AList.update session kept (sv_sessions sv))\<rparr>,
                  fold removeCount (map se_path gone) c)))"

definition removeSession :: "u64 \<Rightarrow> subscribe_service \<Rightarrow> counts \<Rightarrow> subscribe_service \<times> counts" where
  "removeSession session sv c =
     (sv\<lparr>sv_sessions := AList.delete session (sv_sessions sv)\<rparr>,
      fold removeCount (map se_path (entries_of sv session)) c)"

definition setPushCallback :: "bool \<Rightarrow> subscribe_service \<Rightarrow> subscribe_service" where
  "setPushCallback fn sv = sv\<lparr>sv_push := fn\<rparr>"

section \<open>Pushes\<close>

text \<open>What the observer of an entry pushes on an event, as path and value: an exact entry its own path
  with the node's value or its whole subtree, a bubbling one the path of the node that changed,
  below the root, with that node's value.\<close>

definition entry_push :: "subscribe_service \<Rightarrow> sub_entry \<Rightarrow> forest \<Rightarrow> event \<Rightarrow> (string \<times> var) list option" where
  "entry_push sv e st ev =
     (case ev of
        Changed n v old \<Rightarrow>
          if se_bubble e \<or> n \<noteq> se_target e \<or> \<not> sv_push sv then Some []
          else if se_tree e then map_option (\<lambda>x. [(se_path e, x)]) (exportNode False (Some (se_target e)) st)
          else Some [(se_path e, node_value st (se_target e))]
      | Activated n sig src \<Rightarrow>
          if \<not> se_bubble e \<or> n \<noteq> se_target e \<or> sig \<noteq> NODE_CHANGED \<or> \<not> sv_push sv then Some []
          else map_option (\<lambda>q. [(q, node_value st src)]) (path_of st src (Some (sv_root sv)))
      | _ \<Rightarrow> Some [])"

text \<open>What a session is sent for a sequence of events: event by event, and within one the entries in
  the order in which they were connected.\<close>

definition session_pushes :: "subscribe_service \<Rightarrow> u64 \<Rightarrow> forest \<Rightarrow> event list \<Rightarrow> (string \<times> var) list option" where
  "session_pushes sv s st evs =
     map_option concat (those (concat (map (\<lambda>ev. map (\<lambda>e. entry_push sv e st ev) (entries_of sv s)) evs)))"

section \<open>Services that share a root\<close>

text \<open>Services by order of construction, \<open>None\<close> once destroyed. The table for a root lives as long as a
  service on that root.\<close>

record sub_hub =
  hub_services :: "subscribe_service option list"
  hub_counts :: "nid \<Rightarrow> counts"

definition hub_uses :: "nid \<Rightarrow> sub_hub \<Rightarrow> bool" where
  "hub_uses root h = list_ex (\<lambda>s. case s of None \<Rightarrow> False | Some sv \<Rightarrow> sv_root sv = root) (hub_services h)"

definition sharedRegistryFor :: "nid \<Rightarrow> sub_hub \<Rightarrow> sub_hub" where
  "sharedRegistryFor root h = (if hub_uses root h then h else h\<lparr>hub_counts := (hub_counts h)(root := Map.empty)\<rparr>)"

definition new_service :: "nid \<Rightarrow> sub_hub \<Rightarrow> sub_hub" where
  "new_service root h =
     (let h1 = sharedRegistryFor root h
      in h1\<lparr>hub_services := hub_services h1 @ [Some \<lparr>sv_root = root, sv_sessions = [], sv_push = False\<rparr>]\<rparr>)"

definition hub_service :: "sub_hub \<Rightarrow> nat \<Rightarrow> subscribe_service option" where
  "hub_service h k = (if k < length (hub_services h) then hub_services h ! k else None)"

definition put_service :: "nat \<Rightarrow> subscribe_service \<times> counts \<Rightarrow> sub_hub \<Rightarrow> sub_hub" where
  "put_service k r h =
     h\<lparr>hub_services := (hub_services h)[k := Some (fst r)],
       hub_counts := (hub_counts h)(sv_root (fst r) := snd r)\<rparr>"

datatype sub_op =
  NewService nid
| DeleteService nat
| Stop nat
| Subscribe nat u64 string bool bool
| Unsubscribe nat u64 string
| RemoveSession nat u64
| SetPush nat bool

text \<open>One call; on a service that does not exist (any more) there is none. The destructor stops the
  service first.\<close>

definition hub_step :: "sub_op \<Rightarrow> sub_hub \<times> forest \<Rightarrow> (sub_hub \<times> forest) option" where
  "hub_step a hs =
     (let h = fst hs; st = snd hs;
          on = (\<lambda>k f. case hub_service h k of
                  None \<Rightarrow> None
                | Some sv \<Rightarrow> map_option (\<lambda>(r, st1). (put_service k r h, st1)) (f sv (hub_counts h (sv_root sv))))
      in case a of
           NewService root \<Rightarrow> Some (new_service root h, st)
         | DeleteService k \<Rightarrow>
             map_option (\<lambda>(h1, st1). (h1\<lparr>hub_services := (hub_services h1)[k := None]\<rparr>, st1))
               (on k (\<lambda>sv c. Some (stop_service sv c, st)))
         | Stop k \<Rightarrow> on k (\<lambda>sv c. Some (stop_service sv c, st))
         | Subscribe k s p b t \<Rightarrow> on k (\<lambda>sv c. map_option (\<lambda>(sv1, c1, st1). ((sv1, c1), st1)) (subscribe_path s p b t sv c st))
         | Unsubscribe k s p \<Rightarrow> on k (\<lambda>sv c. Some (unsubscribe_path s p sv c, st))
         | RemoveSession k s \<Rightarrow> on k (\<lambda>sv c. Some (removeSession s sv c, st))
         | SetPush k b \<Rightarrow> on k (\<lambda>sv c. Some ((setPushCallback b sv, c), st)))"

section \<open>The counts are the numbers of entries\<close>

definition tally :: "counts \<Rightarrow> (string \<Rightarrow> nat) \<Rightarrow> bool" where
  "tally c f \<longleftrightarrow> c = (\<lambda>p. if f p = 0 then None else Some (f p))"

lemma tally_add: "tally c f \<Longrightarrow> tally (addCount p c) (f(p := f p + 1))"
  by (auto simp: tally_def addCount_def)

lemma tally_remove: "tally c f \<Longrightarrow> 0 < f p \<Longrightarrow> tally (removeCount p c) (f(p := f p - 1))"
  by (auto simp: tally_def removeCount_def)

lemma tally_removes:
  "tally c f \<Longrightarrow> (\<And>p. count_list ps p \<le> f p) \<Longrightarrow> tally (fold removeCount ps c) (\<lambda>p. f p - count_list ps p)"
proof (induction ps arbitrary: c f)
  case (Cons q ps)
  have "tally (removeCount q c) (f(q := f q - 1))"
    by (rule tally_remove [OF Cons.prems(1)]) (use Cons.prems(2) [of q] in simp)
  moreover have "count_list ps p \<le> (f(q := f q - 1)) p" for p using Cons.prems(2) [of p] by (auto split: if_splits)
  ultimately have "tally (fold removeCount ps (removeCount q c)) (\<lambda>p. (f(q := f q - 1)) p - count_list ps p)"
    by (rule Cons.IH)
  moreover have "(\<lambda>p. (f(q := f q - 1)) p - count_list ps p) = (\<lambda>p. f p - count_list (q # ps) p)" by (auto simp: fun_eq_iff)
  ultimately show ?case by simp
qed simp

definition path_count :: "sub_entry list \<Rightarrow> string \<Rightarrow> nat" where
  "path_count es = count_list (map se_path es)"

lemma path_count_append [simp]: "path_count (es @ fs) p = path_count es p + path_count fs p"
  and path_count_simps [simp]: "path_count [] p = 0" "path_count [e] p = (if se_path e = p then 1 else 0)"
  by (simp_all add: path_count_def)

lemma path_count_filter:
  "path_count (filter (\<lambda>e. se_path e \<noteq> q) es) p + path_count (filter (\<lambda>e. se_path e = q) es) p = path_count es p"
  by (induction es) (auto simp: path_count_def)

definition service_count :: "subscribe_service \<Rightarrow> string \<Rightarrow> nat" where
  "service_count sv = path_count (concat (map snd (sv_sessions sv)))"

lemma session_split:
  "distinct (map fst xs) \<Longrightarrow> path_count (concat (map snd xs)) p
     = path_count (case map_of xs s of None \<Rightarrow> [] | Some es \<Rightarrow> es) p + path_count (concat (map snd (AList.delete s xs))) p"
proof (induction xs)
  case (Cons x xs)
  obtain a es where x: "x = (a, es)" by force
  show ?case
  proof (cases "a = s")
    case True
    then have "AList.delete s (x # xs) = xs"
      using Cons.prems by (auto simp: AList.delete_eq filter_id_conv x split_beta image_iff)
    then show ?thesis by (simp add: x True)
  next
    case False
    then show ?thesis using Cons by (simp add: x AList.delete_eq)
  qed
qed simp

lemma delete_update: "AList.delete s (AList.update s v xs) = AList.delete s xs"
  by (induction xs) (auto simp: AList.delete_eq)

text \<open>An operation of one service, on a table that also counts the entries of others.\<close>

definition keeps_tally :: "subscribe_service \<times> counts \<Rightarrow> subscribe_service \<times> counts \<Rightarrow> bool" where
  "keeps_tally a b \<longleftrightarrow> sv_root (fst b) = sv_root (fst a)
     \<and> (distinct (map fst (sv_sessions (fst a))) \<longrightarrow> distinct (map fst (sv_sessions (fst b)))
        \<and> (\<forall>f. tally (snd a) (\<lambda>p. f p + service_count (fst a) p) \<longrightarrow> tally (snd b) (\<lambda>p. f p + service_count (fst b) p)))"

lemma stop_tally: "keeps_tally (sv, c) (stop_service sv c)"
  unfolding keeps_tally_def
proof (intro conjI impI allI)
  fix f assume t: "tally (snd (sv, c)) (\<lambda>p. f p + service_count (fst (sv, c)) p)"
  have "tally (snd (stop_service sv c)) (\<lambda>p. f p + service_count sv p - service_count sv p)"
    using tally_removes [of c "\<lambda>p. f p + service_count sv p" "map se_path (concat (map snd (sv_sessions sv)))"] t
    by (simp add: stop_service_def service_count_def path_count_def)
  then show "tally (snd (stop_service sv c)) (\<lambda>p. f p + service_count (fst (stop_service sv c)) p)"
    by (simp add: stop_service_def service_count_def)
qed (simp_all add: stop_service_def)

lemma remove_session_tally: "keeps_tally (sv, c) (removeSession s sv c)"
proof -
  let ?sv = "sv\<lparr>sv_sessions := AList.delete s (sv_sessions sv)\<rparr>"
  have "tally (fold removeCount (map se_path (entries_of sv s)) c) (\<lambda>p. f p + service_count ?sv p)"
    if d: "distinct (map fst (sv_sessions sv))" and t: "tally c (\<lambda>p. f p + service_count sv p)" for f
  proof -
    have sp: "service_count sv p = path_count (entries_of sv s) p + service_count ?sv p" for p
      using session_split [OF d, of p s] by (simp add: service_count_def entries_of_def)
    have "tally (fold removeCount (map se_path (entries_of sv s)) c) (\<lambda>p. f p + service_count sv p - path_count (entries_of sv s) p)"
      unfolding path_count_def by (rule tally_removes [OF t]) (simp add: sp path_count_def)
    then show ?thesis by (simp add: sp)
  qed
  then show ?thesis by (simp add: keeps_tally_def removeSession_def AList.distinct_delete)
qed

lemma unsubscribe_tally: "keeps_tally (sv, c) (unsubscribe_path s p sv c)"
proof (cases "map_of (sv_sessions sv) s")
  case None
  then show ?thesis by (simp add: unsubscribe_path_def keeps_tally_def)
next
  case (Some es)
  define q kept gone where k: "q = normalizePath p" "kept = filter (\<lambda>e. se_path e \<noteq> q) es" "gone = filter (\<lambda>e. se_path e = q) es"
  define sv' where "sv' = sv\<lparr>sv_sessions := (if kept = [] then AList.delete s (sv_sessions sv) else AList.update s kept (sv_sessions sv))\<rparr>"
  have u: "unsubscribe_path s p sv c = (sv', fold removeCount (map se_path gone) c)"
    by (simp add: unsubscribe_path_def Some Let_def k sv'_def)
  have d': "distinct (map fst (sv_sessions sv'))" if "distinct (map fst (sv_sessions sv))"
    using that by (simp add: sv'_def AList.distinct_delete AList.distinct_update)
  have "tally (fold removeCount (map se_path gone) c) (\<lambda>p. f p + service_count sv' p)"
    if d: "distinct (map fst (sv_sessions sv))" and t: "tally c (\<lambda>p. f p + service_count sv p)" for f
  proof -
    have rest: "service_count sv' r = path_count kept r + path_count (concat (map snd (AList.delete s (sv_sessions sv)))) r" for r
      using session_split [OF AList.distinct_update [OF d, of s kept], of r s]
      by (simp add: sv'_def service_count_def delete_update AList.update_conv')
    have sp: "service_count sv r = path_count gone r + service_count sv' r" for r
      using session_split [OF d, of r s] path_count_filter [of q es r] rest [of r] Some by (simp add: service_count_def k)
    have "tally (fold removeCount (map se_path gone) c) (\<lambda>p. f p + service_count sv p - path_count gone p)"
      unfolding path_count_def by (rule tally_removes [OF t]) (simp add: sp path_count_def)
    then show ?thesis by (simp add: sp)
  qed
  then show ?thesis using d' by (simp add: keeps_tally_def u) (simp add: sv'_def)
qed

lemma subscribe_tally:
  assumes "subscribe_path s p b t sv c st = Some (sv', c', st')"
  shows "keeps_tally (sv, c) (sv', c')"
proof -
  define q where "q = normalizePath p"
  consider "sv' = sv" "c' = c"
    | n where "sv' = sv\<lparr>sv_sessions := AList.update s (entries_of sv s @ [\<lparr>se_path = q, se_bubble = b, se_tree = t, se_target = n\<rparr>])
        (sv_sessions sv)\<rparr>" "c' = addCount q c"
    using assms by (auto simp: subscribe_path_def Let_def q_def split: option.splits)
  then show ?thesis
  proof cases
    case 1
    then show ?thesis by (simp add: keeps_tally_def)
  next
    case 2
    define es where "es = entries_of sv s @ [\<lparr>se_path = q, se_bubble = b, se_tree = t, se_target = n\<rparr>]"
    have "tally c' (\<lambda>p. f p + service_count sv' p)"
      if d: "distinct (map fst (sv_sessions sv))" and t: "tally c (\<lambda>p. f p + service_count sv p)" for f
    proof -
      have sp: "service_count sv' r = service_count sv r + (if r = q then 1 else 0)" for r
        using session_split [OF AList.distinct_update [OF d, of s es], of r s] session_split [OF d, of r s]
        by (simp add: 2(1) service_count_def delete_update AList.update_conv' entries_of_def flip: es_def) (cases "r = q"; simp add: es_def entries_of_def)
      have "(\<lambda>p. f p + service_count sv' p) = (\<lambda>p. f p + service_count sv p)(q := f q + service_count sv q + 1)"
        by (auto simp: sp)
      then show ?thesis using tally_add [OF t, of q] by (simp add: 2(2))
    qed
    then show ?thesis by (simp add: keeps_tally_def 2(1) AList.distinct_update)
  qed
qed

section \<open>The table of a root\<close>

definition hub_total :: "sub_hub \<Rightarrow> nid \<Rightarrow> string \<Rightarrow> nat" where
  "hub_total h root p =
     sum_list (map (\<lambda>s. case s of None \<Rightarrow> 0 | Some sv \<Rightarrow> if sv_root sv = root then service_count sv p else 0) (hub_services h))"

definition hub_ok :: "sub_hub \<Rightarrow> bool" where
  "hub_ok h \<longleftrightarrow> (\<forall>sv. Some sv \<in> set (hub_services h) \<longrightarrow> distinct (map fst (sv_sessions sv))
     \<and> tally (hub_counts h (sv_root sv)) (hub_total h (sv_root sv)))"

lemma hub_service_Some: "hub_service h k = Some sv \<longleftrightarrow> k < length (hub_services h) \<and> hub_services h ! k = Some sv"
  by (simp add: hub_service_def)

lemma hub_total_put:
  assumes "k < length (hub_services h)"
  shows "hub_total (h\<lparr>hub_services := (hub_services h)[k := s], hub_counts := cs\<rparr>) root p
    = hub_total (h\<lparr>hub_services := (hub_services h)[k := None]\<rparr>) root p
      + (case s of None \<Rightarrow> 0 | Some sv \<Rightarrow> if sv_root sv = root then service_count sv p else 0)"
proof -
  define f where "f = case_option 0 (\<lambda>sv. if sv_root sv = root then service_count sv p else 0)"
  have f0: "f None = 0" by (simp add: f_def)
  have "f (hub_services h ! k) \<le> sum_list (map f (hub_services h))"
    using elem_le_sum_list [of k "map f (hub_services h)"] assms by simp
  then have u: "sum_list (map f ((hub_services h)[k := s])) = sum_list (map f ((hub_services h)[k := None])) + f s"
    using assms by (simp add: map_update sum_list_update f0)
  show ?thesis using u unfolding hub_total_def f_def by simp
qed

lemma put_service_ok:
  assumes ok: "hub_ok h" and k: "hub_service h k = Some sv" and t: "keeps_tally (sv, hub_counts h (sv_root sv)) r"
  shows "hub_ok (put_service k r h)"
proof -
  obtain sv' c' where r: "r = (sv', c')" by force
  let ?root = "sv_root sv"
  define rest where "rest = hub_total (h\<lparr>hub_services := (hub_services h)[k := None]\<rparr>)"
  have len: "k < length (hub_services h)" "hub_services h ! k = Some sv" using k by (simp_all add: hub_service_Some)
  have same: "hub_total h ?root = (\<lambda>p. rest ?root p + service_count sv p)"
    using hub_total_put [OF len(1), where s = "Some sv" and cs = "hub_counts h" and root = ?root] list_update_id [of "hub_services h" k]
    by (simp add: rest_def len(2) fun_eq_iff)
  have root: "sv_root sv' = ?root" using t by (simp add: keeps_tally_def r)
  have new: "hub_total (put_service k r h) q = (\<lambda>p. rest q p + (if q = ?root then service_count sv' p else 0))" for q
    using hub_total_put [OF len(1), where s = "Some sv'" and root = q] root by (auto simp: put_service_def r rest_def fun_eq_iff)
  have old: "hub_total h q = rest q" if "q \<noteq> ?root" for q
    using hub_total_put [OF len(1), where s = "Some sv" and cs = "hub_counts h" and root = q] list_update_id [of "hub_services h" k] that
    by (simp add: rest_def len(2) fun_eq_iff)
  have mem: "Some sv \<in> set (hub_services h)" using len nth_mem by fastforce
  have d: "distinct (map fst (sv_sessions sv))" "tally (hub_counts h ?root) (\<lambda>p. rest ?root p + service_count sv p)"
    using ok mem by (auto simp: hub_ok_def simp flip: same)
  then have d': "distinct (map fst (sv_sessions sv'))" "tally c' (\<lambda>p. rest ?root p + service_count sv' p)"
    using t by (auto simp: keeps_tally_def r)
  have cs: "hub_counts (put_service k r h) q = (if q = ?root then c' else hub_counts h q)" for q
    by (simp add: put_service_def r root)
  show ?thesis unfolding hub_ok_def
  proof (intro allI impI)
    fix w assume "Some w \<in> set (hub_services (put_service k r h))"
    then have w: "w = sv' \<or> Some w \<in> set (hub_services h)"
      using set_update_subset_insert [of "hub_services h" k "Some sv'"] by (auto simp: put_service_def r)
    show "distinct (map fst (sv_sessions w)) \<and> tally (hub_counts (put_service k r h) (sv_root w)) (hub_total (put_service k r h) (sv_root w))"
    proof (cases "sv_root w = ?root")
      case True
      then show ?thesis using d' w ok by (auto simp: cs new hub_ok_def)
    next
      case False
      then have "Some w \<in> set (hub_services h)" using w root by auto
      then show ?thesis using ok False by (auto simp: cs new hub_ok_def old)
    qed
  qed
qed

lemma new_service_ok:
  assumes "hub_ok h"
  shows "hub_ok (new_service root h)"
proof -
  have tot: "hub_total (new_service root h) q p = hub_total h q p" for q p
    by (simp add: new_service_def Let_def sharedRegistryFor_def hub_total_def service_count_def)
  have zero: "hub_total h root p = 0" if "\<not> hub_uses root h" for p
    using that by (auto simp: hub_total_def hub_uses_def list_ex_iff split: option.splits)
  have one: "hub_uses root h \<longleftrightarrow> (\<exists>sv. Some sv \<in> set (hub_services h) \<and> sv_root sv = root)"
    by (auto simp: hub_uses_def list_ex_iff split: option.splits)
  have "tally (hub_counts (new_service root h) root) (hub_total h root)"
    using assms zero one by (auto simp: new_service_def Let_def sharedRegistryFor_def hub_ok_def tally_def)
  moreover have "hub_counts (new_service root h) q = hub_counts h q" if "q \<noteq> root" for q
    using that by (simp add: new_service_def Let_def sharedRegistryFor_def)
  ultimately show ?thesis
    using assms unfolding hub_ok_def tot [abs_def] by (auto simp: new_service_def Let_def sharedRegistryFor_def)
qed

lemma drop_service_ok:
  assumes "hub_ok h" "hub_service h k = Some sv" "sv_sessions sv = []"
  shows "hub_ok (h\<lparr>hub_services := (hub_services h)[k := None]\<rparr>)"
proof -
  have len: "k < length (hub_services h)" "hub_services h ! k = Some sv" using assms(2) by (simp_all add: hub_service_Some)
  have "hub_total (h\<lparr>hub_services := (hub_services h)[k := None]\<rparr>) q = hub_total h q" for q
    using hub_total_put [OF len(1), where s = "Some sv" and cs = "hub_counts h" and root = q] list_update_id [of "hub_services h" k] assms(3)
    by (simp add: len(2) fun_eq_iff service_count_def)
  then show ?thesis using assms(1) set_update_subset_insert [of "hub_services h" k None] by (auto simp: hub_ok_def)
qed

lemma hub_step_ok:
  assumes ok: "hub_ok h" and s: "hub_step a (h, st) = Some (h', st')"
  shows "hub_ok h'"
proof -
  note p = put_service_ok [OF ok]
  show ?thesis
  proof (cases a)
    case (NewService root)
    then show ?thesis using s new_service_ok [OF ok] by (auto simp: hub_step_def)
  next
    case (DeleteService k)
    then obtain sv where sv: "hub_service h k = Some sv"
      "h' = (put_service k (stop_service sv (hub_counts h (sv_root sv))) h)
         \<lparr>hub_services := (hub_services (put_service k (stop_service sv (hub_counts h (sv_root sv))) h))[k := None]\<rparr>"
      using s by (auto simp: hub_step_def Let_def split: option.splits)
    show ?thesis unfolding sv(2)
      by (rule drop_service_ok [OF p [OF sv(1) stop_tally]]) (use sv(1) in \<open>auto simp: hub_service_Some put_service_def stop_service_def\<close>)
  next
    case (Stop k)
    then show ?thesis using s p [OF _ stop_tally] by (auto simp: hub_step_def Let_def split: option.splits)
  next
    case (Subscribe k u q b t)
    then show ?thesis using s p [OF _ subscribe_tally] by (fastforce simp: hub_step_def Let_def split: option.splits)
  next
    case (Unsubscribe k u q)
    then show ?thesis using s p [OF _ unsubscribe_tally] by (auto simp: hub_step_def Let_def split: option.splits)
  next
    case (RemoveSession k u)
    then show ?thesis using s p [OF _ remove_session_tally] by (auto simp: hub_step_def Let_def split: option.splits)
  next
    case (SetPush k b)
    have "keeps_tally (sv, c) (setPushCallback b sv, c)" for sv c
      by (simp add: keeps_tally_def setPushCallback_def service_count_def)
    then show ?thesis using SetPush s p by (auto simp: hub_step_def Let_def split: option.splits)
  qed
qed

lemma hub_run_ok: "run_ops hub_step as (h, st) = Some (h', st') \<Longrightarrow> hub_ok h \<Longrightarrow> hub_ok h'"
proof (induction as arbitrary: h st)
  case (Cons a as)
  obtain h1 st1 where "hub_step a (h, st) = Some (h1, st1)" "run_ops hub_step as (h1, st1) = Some (h', st')"
    using Cons.prems(1) by (auto split: option.splits)
  then show ?case using Cons.IH hub_step_ok [OF Cons.prems(2)] by blast
qed simp

definition no_hub :: sub_hub where
  "no_hub = \<lparr>hub_services = [], hub_counts = (\<lambda>_. Map.empty)\<rparr>"

text \<open>C37: However services are created, used and destroyed, the subscriber count a service reports for
  a path is the number of entries with that path, up to slashes at its ends, over all sessions of all
  services on the same root; and a path without an entry has no row in the shared table.\<close>

theorem subscriber_counts:
  assumes "run_ops hub_step as (no_hub, st) = Some (h, st')" "hub_service h k = Some sv"
  shows "getSubscriberCount p (hub_counts h (sv_root sv)) = hub_total h (sv_root sv) (normalizePath p)
    \<and> (hub_counts h (sv_root sv) q = None \<longleftrightarrow> hub_total h (sv_root sv) q = 0)"
proof -
  have "hub_ok h" by (rule hub_run_ok [OF assms(1)]) (simp add: hub_ok_def no_hub_def)
  moreover have "Some sv \<in> set (hub_services h)" using assms(2) nth_mem by (fastforce simp: hub_service_Some)
  ultimately have "tally (hub_counts h (sv_root sv)) (hub_total h (sv_root sv))" by (simp add: hub_ok_def)
  then show ?thesis
    by (simp_all add: tally_def getSubscriberCount_def)
qed

section \<open>Watching a subtree\<close>

definition watched :: "nid set \<Rightarrow> forest \<Rightarrow> forest" where
  "watched S st = st\<lparr>heap := \<lambda>m. if m \<in> S
     then map_option (o_flags_update (\<lambda>fl. flags_set fl WATCHING True)) (heap st m) else heap st m\<rparr>"

lemma watched_simps [simp]:
  "next_id (watched S st) = next_id st" "events (watched S st) = events st" "alive (watched S st) m = alive st m"
  by (simp_all add: watched_def alive_def)

lemma watched_obj:
  "alive st m \<Longrightarrow> obj (watched S st) m = (if m \<in> S then o_flags_update (\<lambda>fl. flags_set fl WATCHING True) (obj st m) else obj st m)"
  by (auto simp: watched_def obj_def alive_def)

lemma flags_twice [simp]: "flags_set (flags_set fl WATCHING True) WATCHING True = flags_set fl WATCHING True"
  by (simp add: flags_set_def or.assoc)

lemma watched_union: "watched A (watched B st) = watched (A \<union> B) st"
proof -
  have "map_option (o_flags_update (\<lambda>fl. flags_set fl WATCHING True)) (map_option (o_flags_update (\<lambda>fl. flags_set fl WATCHING True)) x)
    = map_option (o_flags_update (\<lambda>fl. flags_set fl WATCHING True)) x" for x :: "nobj option"
    by (cases x) simp_all
  then show ?thesis by (auto simp: watched_def fun_eq_iff)
qed

lemma watch_watched: "watch True n st = watched {n} st"
  by (auto simp: watch_def watched_def upd_def fun_eq_iff)

lemma watched_data:
  assumes "alive st m"
  shows "kids (watched S st) m = kids st m" "parent (watched S st) m = parent st m" "name_of (watched S st) m = name_of st m"
    "node_value (watched S st) m = node_value st m" "o_children (obj (watched S st) m) = o_children (obj st m)"
    "o_shadow (obj (watched S st) m) = o_shadow (obj st m)"
  using assms by (simp_all add: kids_def parent_def name_of_def node_value_def watched_obj)

lemma watched_edges: "edges (watched S st) = edges st"
  by (auto simp: edges_def watched_data)

lemma watched_ok: "forest_ok st \<Longrightarrow> forest_ok (watched S st)"
proof -
  assume ok: "forest_ok st"
  have "node_ok (watched S st) n" if n: "alive st n" for n
  proof -
    have o: "node_ok st n" using ok n by (simp add: forest_ok_def)
    have "map (name_of (watched S st)) (nodes ch) = map (name_of st) (nodes ch)" if "o_children (obj st n) = Some ch" for ch
      using o that by (intro map_cong) (auto simp: node_ok_def kids_def watched_data)
    then have "children_ok (watched S st) n" using o n by (auto simp: node_ok_def children_ok_def watched_data cong: map_cong split: option.splits)
    then show ?thesis using o n unfolding node_ok_def by (auto simp: watched_data)
  qed
  then show "forest_ok (watched S st)" using ok by (simp add: forest_ok_def watched_edges)
qed

lemma watchAll_spec:
  assumes ok: "forest_ok st"
  shows "alive st n \<Longrightarrow> card (dset st n) \<le> fuel \<Longrightarrow> watchAll fuel True n (watched S st) = Some (watched (dset st n \<union> S) st)"
proof (induction fuel arbitrary: n S)
  case 0
  then show ?case using dset_finite [OF ok 0(1)] dset_self [of n st] by (metis card_0_eq empty_iff le_zero_eq)
next
  case (Suc fuel)
  have kidsW: "watch_kids fuel True cs (watched T st) = Some (watched ((\<Union>c \<in> set cs. dset st c) \<union> T) st)"
    if "set cs \<subseteq> set (kids st n)" for cs T
    using that
  proof (induction cs arbitrary: T)
    case (Cons c cs)
    then have c: "alive st c" "card (dset st c) \<le> fuel"
      using kid_facts [OF ok Suc.prems(1)] kid_dset(2) [OF ok Suc.prems(1), of c] Suc.prems(2) by auto
    show ?case using Suc.IH [OF c, of T] Cons by (simp add: Un_assoc Un_left_commute)
  qed simp
  show ?case using kidsW [of "kids st n" "insert n S"] Suc.prems(1)
    by (simp add: watch_watched watched_union watched_data) (simp add: dset_step [OF ok Suc.prems(1)])
qed

lemma watchAll_eq:
  assumes "forest_ok st" "alive st n"
  shows "watchAll (next_id st + 1) True n st = Some (watched (dset st n) st)"
proof -
  have "watched {} st = st" by (simp add: watched_def)
  then show ?thesis
    using watchAll_spec [OF assms(1,2), of "next_id st + 1" "{}"] card_dset_le [OF assms] by (simp del: watchAll.simps)
qed

section \<open>Delivery to a bubbling entry\<close>

text \<open>Between a node and an ancestor that watches its whole subtree every node watches, so that an
  activation gets through, unless one of them is silent.\<close>

lemma lineage_reaches:
  assumes ok: "forest_ok st"
  shows "alive st d \<Longrightarrow> card (anc st d) < k \<Longrightarrow> d \<in> dset st n \<Longrightarrow> (\<And>m. m \<in> dset st n \<Longrightarrow> isWatching st m \<and> \<not> isSilent st m)
    \<Longrightarrow> n \<in> set (reached k st d)"
proof (induction k arbitrary: d)
  case (Suc k)
  have s: "\<not> isSilent st d" using Suc.prems(3,4) by blast
  show ?case
  proof (cases "d = n")
    case True
    then show ?thesis using s by (simp add: reached_step)
  next
    case False
    then have na: "n \<in> anc st d" using Suc.prems(3) by (simp add: dset_anc)
    obtain q where q: "parent st d = Some q" using na anc_root by (cases "parent st d") auto
    have "q \<in> dset st n" using na anc_step [OF Suc.prems(1) q] by (auto simp: dset_anc)
    moreover have "alive st q" using parent_alive [OF ok Suc.prems(1) q] by simp
    moreover have lt: "card (anc st q) < k" using card_anc_parent [OF ok Suc.prems(1) q] Suc.prems(2) by simp
    ultimately have "n \<in> set (reached k st q)" "isWatching st q" using Suc.IH Suc.prems(4) by blast+
    moreover have "0 < k" using lt by simp
    ultimately show ?thesis using s q by (simp add: reached_step)
  qed
qed simp

lemma reached_distinct:
  assumes ok: "forest_ok st"
  shows "alive st d \<Longrightarrow> set (reached k st d) \<subseteq> insert d (anc st d) \<and> distinct (reached k st d)"
proof (induction k arbitrary: d)
  case 0
  then show ?case by (simp add: reached_def)
next
  case (Suc k)
  show ?case
  proof (cases "parent st d")
    case None
    then show ?thesis by (simp add: reached_step)
  next
    case (Some q)
    have "alive st q" using parent_alive [OF ok Suc.prems Some] by simp
    note IH = Suc.IH [OF this]
    have "anc st d = insert q (anc st q)" "d \<notin> anc st d" using anc_step [OF Suc.prems Some] anc_irrefl [OF ok] by auto
    then show ?thesis using IH Some by (auto simp: reached_step)
  qed
qed

lemma path_same:
  assumes ok: "forest_ok st"
    and eq: "\<And>m. alive st m \<Longrightarrow> name_of st' m = name_of st m \<and> parent st' m = parent st m \<and> o_children (obj st' m) = o_children (obj st m)"
  shows "alive st n \<Longrightarrow> path fuel st' n a = path fuel st n a"
proof (induction fuel arbitrary: n)
  case (Suc fuel)
  show ?case
  proof (cases "parent st n")
    case (Some p)
    have p: "alive st p" using parent_alive [OF ok Suc.prems Some] by simp
    have "keyOf st' p (Some n) (-1) = keyOf st p (Some n) (-1)"
      unfolding keyOf_def indexOf_def option.case eq [OF p, THEN conjunct2, THEN conjunct2] eq [OF Suc.prems, THEN conjunct1] ..
    then show ?thesis using Suc.IH [OF p] eq [OF Suc.prems] Some by (simp add: Let_def)
  qed (use eq [OF Suc.prems] in simp)
qed simp

lemma set_value_heap:
  assumes "forest_ok st" "alive st n"
  shows "\<exists>st'. set_value n v st = Some st' \<and> next_id st' = next_id st \<and> node_value st' n = v
    \<and> (\<forall>m. alive st m \<longrightarrow> name_of st' m = name_of st m \<and> parent st' m = parent st m \<and> o_children (obj st' m) = o_children (obj st m))
    \<and> events st' = events st @ (if isSilent st n then []
        else Changed n v (node_value st n) # map (\<lambda>m. Activated m NODE_CHANGED n) (bubble st n))"
proof -
  define st1 where "st1 = upd n (o_value_update (\<lambda>_. v)) st"
  note f = forest_ok_value [OF assms, where v = v, folded st1_def]
  have o: "obj st1 m = (if m = n then o_value_update (\<lambda>_. v) (obj st n) else obj st m)" for m
    using assms(2) by (auto simp: st1_def obj_def upd_def alive_def)
  have n1: "alive st1 n" using assms(2) f(2) by simp
  define evs where "evs = (if isSilent st n then []
        else Changed n v (node_value st n) # map (\<lambda>m. Activated m NODE_CHANGED n) (bubble st n))"
  define st2 where "st2 = st1\<lparr>events := events st1 @ evs\<rparr>"
  have s: "set_value n v st = Some st2"
    using notify_spec [OF f(1) n1, of "Changed n v (node_value st n)" NODE_CHANGED] f(3,4)
    by (simp add: set_value_def st2_def evs_def flip: st1_def)
  have "heap st2 = heap st1" by (simp add: st2_def)
  note h = heap_eq_facts [OF this]
  have d: "name_of st2 m = name_of st m \<and> parent st2 m = parent st m \<and> o_children (obj st2 m) = o_children (obj st m)" for m
    unfolding h(3,4) unfolding name_of_def parent_def h(1) by (simp add: o)
  have "next_id st2 = next_id st" "events st2 = events st @ evs" by (simp_all add: st2_def st1_def)
  then show ?thesis using s d f(5) unfolding evs_def by (intro exI [of _ st2]) (simp add: h(6))
qed

definition entry_pushes :: "subscribe_service \<Rightarrow> sub_entry \<Rightarrow> forest \<Rightarrow> event list \<Rightarrow> (string \<times> var) list option" where
  "entry_pushes sv e st evs = map_option concat (those (map (entry_push sv e st) evs))"


lemma entry_pushes_once:
  "distinct ms \<Longrightarrow> (\<And>m. m \<in> set ms \<Longrightarrow> entry_push sv e st (f m) = Some (if m = t then [x] else []))
    \<Longrightarrow> entry_pushes sv e st (map f ms) = Some (if t \<in> set ms then [x] else [])"
proof (induction ms)
  case (Cons m ms)
  have "entry_pushes sv e st (map f ms) = Some (if t \<in> set ms then [x] else [])"
    by (rule Cons.IH) (use Cons.prems in auto)
  then obtain ys where "those (map (entry_push sv e st) (map f ms)) = Some ys" "concat ys = (if t \<in> set ms then [x] else [])"
    by (auto simp: entry_pushes_def simp del: map_map)
  then show ?case using Cons.prems(1) Cons.prems(2) [of m] by (auto simp: entry_pushes_def simp del: map_map)
qed (simp add: entry_pushes_def)

lemma entry_pushes_Cons:
  "entry_push sv e st ev = Some [] \<Longrightarrow> entry_pushes sv e st (ev # evs) = entry_pushes sv e st evs"
  by (cases "those (map (entry_push sv e st) evs)") (simp_all add: entry_pushes_def)

text \<open>C38: After a bubbling subscription to an existing node, setting the value of any node that was in
  its subtree then sends the subscriber, through the new entry, exactly one push: the path of that
  node below the root and the new value - provided that no node of the subtree is silent.\<close>

theorem bubble_subscription_delivers:
  assumes "forest_ok st" "alive st t" "sub_target (sv_root sv) (normalizePath p) st = Some (Some t, st)"
    and "d \<in> dset st t" "\<forall>m \<in> dset st t. \<not> isSilent st m" "sv_push sv"
    and "path_of st d (Some (sv_root sv)) = Some q"
  shows "\<exists>sv' c' st1 st2 e. subscribe_path s p True whole sv c st = Some (sv', c', st1)
    \<and> entries_of sv' s = entries_of sv s @ [e] \<and> getSubscriberCount p c' = getSubscriberCount p c + 1
    \<and> set_value d v st1 = Some st2
    \<and> entry_pushes sv' e st2 (drop (length (events st1)) (events st2)) = Some [(q, v)]"
proof -
  define e where "e = \<lparr>se_path = normalizePath p, se_bubble = True, se_tree = whole, se_target = t\<rparr>"
  define sv' where "sv' = sv\<lparr>sv_sessions := AList.update s (entries_of sv s @ [e]) (sv_sessions sv)\<rparr>"
  define st1 where "st1 = watched (dset st t) st"
  have sub: "subscribe_path s p True whole sv c st = Some (sv', addCount (normalizePath p) c, st1)"
    using watchAll_eq [OF assms(1,2)] assms(3) by (simp add: subscribe_path_def Let_def sv'_def e_def st1_def del: watchAll.simps)
  have ok1: "forest_ok st1" and al: "alive st1 m = alive st m" for m
    using watched_ok [OF assms(1)] by (simp_all add: st1_def)
  have d: "alive st d" "alive st1 d" using dset_alive [OF assms(1,2,4)] by (simp_all add: al)
  have ds: "dset st1 m = dset st m" for m by (simp add: dset_def st1_def watched_edges)
  have fl: "isWatching st1 m \<and> \<not> isSilent st1 m" if m: "m \<in> dset st1 t" for m
  proof -
    have m': "m \<in> dset st t" "alive st m" using m dset_alive [OF assms(1,2)] by (simp_all add: ds)
    then have o: "o_flags (obj st1 m) = flags_set (o_flags (obj st m)) WATCHING True"
      by (simp add: st1_def watched_obj)
    have w: "flags_get (flags_set fl WATCHING True) WATCHING" for fl
      by (simp add: flags_get_def flags_set_def bit_eq_iff bit_simps)
    have "flags_get (flags_set fl WATCHING True) SILENT = flags_get fl SILENT" for fl
    proof -
      have "(fl OR WATCHING) AND SILENT = fl AND SILENT"
        by (simp add: WATCHING_def SILENT_def bit.conj_disj_distrib2)
      then show ?thesis by (simp add: flags_get_def flags_set_def)
    qed
    then show ?thesis using w m' assms(5) by (simp add: isWatching_def isSilent_def o)
  qed
  have dt: "d \<in> dset st1 t" using assms(4) by (simp add: ds)
  obtain st2 where st2: "set_value d v st1 = Some st2" "next_id st2 = next_id st1" "node_value st2 d = v"
    "\<And>m. alive st1 m \<Longrightarrow> name_of st2 m = name_of st1 m \<and> parent st2 m = parent st1 m
       \<and> o_children (obj st2 m) = o_children (obj st1 m)"
    "events st2 = events st1 @ Changed d v (node_value st1 d) # map (\<lambda>m. Activated m NODE_CHANGED d) (bubble st1 d)"
    using set_value_heap [OF ok1 d(2), of v] fl [OF dt] by auto
  have b: "bubble st1 d = reached (next_id st1 + 1) st1 d" using fl [OF dt] by (simp add: bubble_def)
  have t: "t \<in> set (bubble st1 d)" unfolding b
    by (rule lineage_reaches [OF ok1 d(2) _ dt fl]) (use card_anc_less [OF ok1 d(2)] in simp)
  have "path_of st2 d a = path_of st d a" for a
  proof -
    have "path fuel st2 d a = path fuel st1 d a" for fuel by (rule path_same [OF ok1 st2(4) d(2)])
    moreover have "path fuel st1 d a = path fuel st d a" for fuel
      by (rule path_same [OF assms(1) _ d(1)]) (simp add: st1_def watched_data)
    ultimately show ?thesis using st2(2) by (simp add: path_of_def st1_def del: path.simps)
  qed
  then have q: "path_of st2 d (Some (sv_root sv')) = Some q" using assms(7) by (simp add: sv'_def)
  have push: "entry_push sv' e st2 (Activated m NODE_CHANGED d) = Some (if m = t then [(q, v)] else [])" for m
    using q st2(3) assms(6) by (simp add: entry_push_def e_def sv'_def)
  have "entry_pushes sv' e st2 (map (\<lambda>m. Activated m NODE_CHANGED d) (bubble st1 d)) = Some [(q, v)]"
    using entry_pushes_once [of "bubble st1 d" sv' e st2 "\<lambda>m. Activated m NODE_CHANGED d" t "(q, v)"]
      reached_distinct [OF ok1 d(2)] push t b by simp
  moreover have "entry_push sv' e st2 (Changed d v w) = Some []" for w by (simp add: entry_push_def e_def)
  ultimately have "entry_pushes sv' e st2 (drop (length (events st1)) (events st2)) = Some [(q, v)]"
    by (simp add: st2(5) entry_pushes_Cons)
  moreover have "entries_of sv' s = entries_of sv s @ [e]" by (simp add: sv'_def entries_of_def AList.update_conv')
  moreover have "getSubscriberCount p (addCount (normalizePath p) c) = getSubscriberCount p c + 1"
    by (simp add: getSubscriberCount_def addCount_def)
  ultimately show ?thesis using sub st2(1) by blast
qed


text \<open>A node that does not watch - every node created after the subscription - changes unseen.\<close>

lemma unwatched_change_unseen:
  assumes "forest_ok st" "alive st d" "\<not> isWatching st d" "set_value d v st = Some st'" "se_bubble e"
  shows "entry_pushes sv e st' (drop (length (events st)) (events st')) = Some []"
proof -
  have "drop (length (events st)) (events st') = (if isSilent st d then [] else [Changed d v (node_value st d)])"
    using set_value_heap [OF assms(1,2), of v] assms(3,4) by (auto simp: bubble_def)
  then show ?thesis using assms(5) by (simp add: entry_pushes_def entry_push_def)
qed

lemma append_unwatched:
  assumes "new_node nm st = (c, st1)"
  shows "\<not> isWatching st1 c"
  using assms by (auto simp: new_node_def isWatching_def obj_def flags_get_def WATCHING_def)

definition demo_service :: subscribe_service where
  "demo_service = \<lparr>sv_root = 0, sv_sessions = [(7, [])], sv_push = True\<rparr>"

lemma demo_target: "sub_target 0 (normalizePath ''/robot/'') demo = Some (Some 2, demo)"
proof -
  have "normalizePath ''/robot/'' = ''robot''" "find_path demo 0 ''robot'' True VE_NODE_PATH_SEP VE_NODE_KEY_SEP = Some (Some 2)"
    by code_simp+
  then show ?thesis by (simp add: sub_target_def)
qed

lemma demo_path3: "path_of demo 3 (Some 0) = Some ''robot/arm#0''"
  by code_simp

theorem bubble_subscription_delivers_witness:
  "\<exists>sv' c' st1 st2 e. subscribe_path 7 ''/robot/'' True False demo_service Map.empty demo = Some (sv', c', st1)
    \<and> set_value 3 (VInt 5) st1 = Some st2
    \<and> entry_pushes sv' e st2 (drop (length (events st1)) (events st2)) = Some [(''robot/arm#0'', VInt 5)]"
proof -
  have ds: "dset demo 2 = {2, 3, 4}"
    using dset_step [OF demo_ok demo_alive(2)] dset_step [OF demo_ok demo_alive(3)] dset_step [OF demo_ok demo_alive(4)]
    by (auto simp: demo_kids)
  have "3 \<in> dset demo 2" "\<forall>m \<in> dset demo 2. \<not> isSilent demo m"
    by (auto simp: ds isSilent_def demo_obj demo_node_def flags_get_def SILENT_def)
  from bubble_subscription_delivers [OF demo_ok demo_alive(2), of demo_service "''/robot/''" 3 "''robot/arm#0''" 7 False Map.empty "VInt 5",
      OF _ this] show ?thesis
    using demo_target demo_path3 by (auto simp: demo_service_def)
qed

theorem subscriber_counts_witness:
  "\<exists>h st'. run_ops hub_step [NewService 0, NewService 0, Subscribe 0 7 ''robot'' False True, Subscribe 1 7 ''/robot'' False False,
      Subscribe 1 8 ''robot/'' False False, RemoveSession 1 8] (no_hub, demo) = Some (h, st')
    \<and> getSubscriberCount ''/robot'' (hub_counts h 0) = 2"
proof -
  define as where "as = [NewService 0, NewService 0, Subscribe 0 7 ''robot'' False True, Subscribe 1 7 ''/robot'' False False,
      Subscribe 1 8 ''robot/'' False False, RemoveSession 1 8]"
  define r where "r = run_ops hub_step as (no_hub, demo)"
  have "map_option (\<lambda>(h, st). (map_option sv_root (hub_service h 0), hub_total h 0 ''robot'', normalizePath ''/robot'')) r
      = Some (Some 0, 2, ''robot'')"
    unfolding r_def as_def by code_simp
  then obtain h st sv where h: "r = Some (h, st)" "hub_service h 0 = Some sv" "sv_root sv = 0" "hub_total h 0 ''robot'' = 2"
      "normalizePath ''/robot'' = ''robot''"
    by auto
  show ?thesis
    using subscriber_counts [OF h(1) [unfolded r_def] h(2), of "''/robot''" "[]"] h by (auto simp: r_def as_def)
qed

end
