(* ===== verification/Utf8_Text.thy ===== *)
theory Utf8_Text
  imports Var
begin

text \<open>
  UTF-8 in the terminal (\<open>ve/src/service/terminal_utf8.h\<close>): lengths of characters at and before a
  byte position, decoding, and display widths. A C++ string is a list of bytes (\<open>char\<close>). \<open>utf8_text\<close>
  is what the functions take for text: a sequence of characters that each have a lead byte and as many
  continuation bytes as it announces. \<open>encode_utf8\<close> is the standard's encoding, written out as the
  reference that decoding is compared with.
\<close>

section \<open>Lengths\<close>

definition lead_len :: "u8 \<Rightarrow> nat" where
  "lead_len lead =
     (if lead AND 0x80 = 0 then 1
      else if lead AND 0xE0 = 0xC0 then 2
      else if lead AND 0xF0 = 0xE0 then 3
      else if lead AND 0xF8 = 0xF0 then 4 else 0)"

definition charByteLen :: "string \<Rightarrow> nat \<Rightarrow> nat" where
  "charByteLen str pos = (if length str \<le> pos then 0 else lead_len (char_byte (str ! pos)))"

definition is_cont :: "char \<Rightarrow> bool" where
  "is_cont c \<longleftrightarrow> char_byte c AND 0xC0 = 0x80"

fun scan_back :: "string \<Rightarrow> nat \<Rightarrow> nat" where
  "scan_back str 0 = 0"
| "scan_back str (Suc n) = (if is_cont (str ! Suc n) then scan_back str n else Suc n)"

definition prevCharByteLen :: "string \<Rightarrow> nat \<Rightarrow> nat" where
  "prevCharByteLen str pos =
     (if pos = 0 \<or> length str < pos then 0
      else (let scan = scan_back str (pos - 1); len = charByteLen str scan
            in if scan + len = pos then len else 0))"

section \<open>Decoding and widths\<close>

definition cont_bits :: "string \<Rightarrow> nat \<Rightarrow> u32" where
  "cont_bits str i = ucast (char_byte (str ! i)) AND 0x3F"

definition decodeChar :: "string \<Rightarrow> nat \<Rightarrow> u32" where
  "decodeChar str pos =
     (if length str \<le> pos then 0
      else
        (let lead = (ucast (char_byte (str ! pos)) :: u32); len = lead_len (char_byte (str ! pos))
         in if len = 0 \<or> length str < pos + len then 0
            else if len = 1 then lead
            else if len = 2 then push_bit 6 (lead AND 0x1F) OR cont_bits str (pos + 1)
            else if len = 3 then
              push_bit 12 (lead AND 0x0F) OR push_bit 6 (cont_bits str (pos + 1)) OR cont_bits str (pos + 2)
            else
              push_bit 18 (lead AND 0x07) OR push_bit 12 (cont_bits str (pos + 1))
                OR push_bit 6 (cont_bits str (pos + 2)) OR cont_bits str (pos + 3)))"

definition charDisplayWidth :: "string \<Rightarrow> nat \<Rightarrow> nat" where
  "charDisplayWidth str pos =
     (let cp = decodeChar str pos
      in if cp = 0 then 0
         else if 0x4E00 \<le> cp \<and> cp \<le> 0x9FFF then 2
         else if 0x3000 \<le> cp \<and> cp \<le> 0x303F then 2
         else if 0x3040 \<le> cp \<and> cp \<le> 0x309F then 2
         else if 0x30A0 \<le> cp \<and> cp \<le> 0x30FF then 2
         else if 0xAC00 \<le> cp \<and> cp \<le> 0xD7AF then 2
         else if 0xFF00 \<le> cp \<and> cp \<le> 0xFFEF then 2
         else 1)"

function char_count_loop :: "string \<Rightarrow> nat \<Rightarrow> nat \<Rightarrow> nat" where
  "char_count_loop str pos n =
     (if pos < length str
      then (let len = charByteLen str pos
            in if len = 0 then n else char_count_loop str (pos + len) (n + 1))
      else n)"
  by pat_completeness auto
termination
  by (relation "measure (\<lambda>(str, pos, _). length str - pos)") auto

declare char_count_loop.simps [simp del]

definition charCount :: "string \<Rightarrow> nat" where
  "charCount str = char_count_loop str 0 0"

function width_loop :: "string \<Rightarrow> nat \<Rightarrow> nat \<Rightarrow> nat" where
  "width_loop str pos width =
     (if pos < length str
      then (let len = charByteLen str pos
            in if len = 0 then width else width_loop str (pos + len) (width + charDisplayWidth str pos))
      else width)"
  by pat_completeness auto
termination
  by (relation "measure (\<lambda>(str, pos, _). length str - pos)") auto

definition displayWidth :: "string \<Rightarrow> nat" where
  "displayWidth str = width_loop str 0 0"

function width_range_loop :: "string \<Rightarrow> nat \<Rightarrow> nat \<Rightarrow> nat \<Rightarrow> nat" where
  "width_range_loop str to pos width =
     (if pos < to
      then (let len = charByteLen str pos
            in if len = 0 \<or> to < pos + len then width
               else width_range_loop str to (pos + len) (width + charDisplayWidth str pos))
      else width)"
  by pat_completeness auto
termination
  by (relation "measure (\<lambda>(_, to, pos, _). to - pos)") auto

declare width_loop.simps [simp del] width_range_loop.simps [simp del]

definition displayWidth_range :: "string \<Rightarrow> nat \<Rightarrow> nat \<Rightarrow> nat" where
  "displayWidth_range str lo to =
     (if to \<le> lo \<or> length str \<le> lo then 0 else width_range_loop str (min to (length str)) lo 0)"

section \<open>Text\<close>

definition utf8_char :: "string \<Rightarrow> bool" where
  "utf8_char s \<longleftrightarrow> s \<noteq> [] \<and> lead_len (char_byte (hd s)) = length s \<and> list_all is_cont (tl s)"

inductive utf8_text :: "string \<Rightarrow> bool" where
  utf8_Nil: "utf8_text []"
| utf8_char: "utf8_char c \<Longrightarrow> utf8_text s \<Longrightarrow> utf8_text (c @ s)"

definition encode_utf8 :: "u32 \<Rightarrow> string" where
  "encode_utf8 cp = map byte_char
     (if cp < 0x80 then [ucast cp]
      else if cp < 0x800 then [0xC0 OR ucast (drop_bit 6 cp), 0x80 OR ucast (cp AND 0x3F)]
      else if cp < 0x10000 then
        [0xE0 OR ucast (drop_bit 12 cp), 0x80 OR ucast (drop_bit 6 cp AND 0x3F), 0x80 OR ucast (cp AND 0x3F)]
      else
        [0xF0 OR ucast (drop_bit 18 cp), 0x80 OR ucast (drop_bit 12 cp AND 0x3F),
         0x80 OR ucast (drop_bit 6 cp AND 0x3F), 0x80 OR ucast (cp AND 0x3F)])"

lemma char_byte_inverse [simp]: "char_byte (byte_char b) = b"
proof -
  have "unat b < 256" using unsigned_less [of b] by simp
  then have "(of_nat (of_char (char_of (unat b) :: char)) :: u8) = b" by (simp only: of_char_of) simp
  then show ?thesis unfolding char_byte_def byte_char_def of_nat_of_char .
qed

lemma unat_char_byte: "unat (char_byte c) = of_char c"
proof -
  have "of_char c mod 256 = (of_char c :: nat)" by (metis char_of_char of_char_of)
  then have "unat (of_nat (of_char c) :: u8) = of_char c" by (simp add: unat_of_nat)
  then have "unat (of_char c :: u8) = of_char c" by (simp only: of_nat_of_char)
  then show ?thesis by (simp add: char_byte_def)
qed

lemma all_bytes: "list_all P (map of_nat [0..<256]) \<Longrightarrow> P (b :: u8)"
proof -
  have "unat b \<in> set [0..<256]" using unsigned_less [of b] by simp
  moreover have "b = of_nat (unat b)" by simp
  ultimately show "list_all P (map of_nat [0..<256]) \<Longrightarrow> P b"
    by (metis image_eqI list.set_map list_all_iff)
qed

lemma lead_not_cont: "b AND 0xC0 = 0x80 \<longrightarrow> lead_len b = 0"
  by (rule all_bytes [of "\<lambda>b. b AND 0xC0 = 0x80 \<longrightarrow> lead_len b = 0"]) (simp add: lead_len_def upt_rec)


lemma is_cont_lead: "is_cont c \<Longrightarrow> lead_len (char_byte c) = 0"
  using lead_not_cont [of "char_byte c"] by (simp add: is_cont_def)

lemma utf8_char_split: "utf8_char c \<longleftrightarrow> (\<exists>a t. c = a # t \<and> lead_len (char_byte a) = Suc (length t) \<and> list_all is_cont t)"
  by (cases c) (auto simp: utf8_char_def)

lemma utf8_char_first:
  assumes "utf8_char c" "utf8_char d" "c @ s = d @ t"
  shows "c = d \<and> s = t"
proof -
  have "length c = length d" using assms by (auto simp: utf8_char_split)
  then show ?thesis using assms(3) by simp
qed

inductive_cases utf8_text_cases: "utf8_text s"

lemma utf8_text_append: "utf8_text s \<Longrightarrow> utf8_text t \<Longrightarrow> utf8_text (s @ t)"
  by (induction rule: utf8_text.induct) (auto intro: utf8_text.intros)

lemma utf8_text_cancel: "utf8_text s \<Longrightarrow> utf8_text (s @ t) \<longleftrightarrow> utf8_text t"
proof (induction rule: utf8_text.induct)
  case (utf8_char c s)
  show ?case
  proof
    assume "utf8_text ((c @ s) @ t)"
    then obtain d u where "utf8_char d" "utf8_text u" "(c @ s) @ t = d @ u"
      using utf8_char.hyps(1) by (cases rule: utf8_text_cases) (auto simp: utf8_char_def)
    then show "utf8_text t" using utf8_char_first [OF utf8_char.hyps(1), of d "s @ t" u] utf8_char.IH by simp
  qed (use utf8_char utf8_text_append utf8_text.utf8_char in auto)
qed simp

lemma utf8_text_char [simp]: "utf8_char c \<Longrightarrow> utf8_text c"
  using utf8_text.utf8_char [OF _ utf8_Nil] by simp

lemma utf8_text_last:
  "utf8_text s \<Longrightarrow> s = [] \<or> (\<exists>p c. s = p @ c \<and> utf8_text p \<and> utf8_char c)"
proof (induction rule: utf8_text.induct)
  case (utf8_char c s)
  then show ?case
  proof (elim disjE exE conjE)
    assume "s = []"
    then show ?thesis using utf8_char.hyps utf8_Nil by (intro disjI2 exI [of _ "[]"] exI [of _ c]) simp
  next
    fix p d assume "s = p @ d" "utf8_text p" "utf8_char d"
    then show ?thesis using utf8_char.hyps
      by (intro disjI2 exI [of _ "c @ p"] exI [of _ d]) (simp add: utf8_text.utf8_char)
  qed
qed simp

lemma ascii_char [simp]: "char_byte a AND 0x80 = 0 \<Longrightarrow> utf8_char [a]"
  by (simp add: utf8_char_def lead_len_def)

section \<open>The functions on text\<close>

lemma charByteLen_char: "utf8_char c \<Longrightarrow> charByteLen (p @ c @ q) (length p) = length c"
  by (auto simp: charByteLen_def utf8_char_split nth_append)

lemma scan_back_char:
  assumes "utf8_char c"
  shows "k < length c \<Longrightarrow> scan_back (p @ c @ q) (length p + k) = length p"
proof (induction k)
  case 0
  show ?case
  proof (cases "length p")
    case (Suc n)
    have "\<not> is_cont (hd c)" using assms is_cont_lead [of "hd c"] by (auto simp: utf8_char_def)
    moreover have "(p @ c @ q) ! Suc n = hd c" using Suc assms by (auto simp: nth_append utf8_char_split)
    ultimately show ?thesis using Suc by simp
  qed simp
next
  case (Suc k)
  have "is_cont ((p @ c @ q) ! Suc (length p + k))"
    using assms Suc.prems by (auto simp: utf8_char_split nth_append list_all_length)
  then show ?case using Suc by simp
qed

lemma prevCharByteLen_char:
  assumes "utf8_char c"
  shows "prevCharByteLen (p @ c @ q) (length p + length c) = length c"
proof -
  obtain k where k: "length c = Suc k" using assms by (auto simp: utf8_char_split)
  then have "scan_back (p @ c @ q) (length p + k) = length p"
    using scan_back_char [OF assms, of k] by simp
  then show ?thesis using k charByteLen_char [OF assms, of p q]
    by (simp add: prevCharByteLen_def Let_def)
qed

lemma char_count_loop_chars:
  "list_all utf8_char cs \<Longrightarrow> char_count_loop (p @ concat cs) (length p) n = n + length cs"
proof (induction cs arbitrary: p n)
  case Nil
  show ?case by (simp add: char_count_loop.simps)
next
  case (Cons c cs)
  have "0 < length c" using Cons.prems by (auto simp: utf8_char_def)
  then have "char_count_loop (p @ c @ concat cs) (length p) n = char_count_loop (p @ c @ concat cs) (length p + length c) (n + 1)"
    using charByteLen_char [of c p "concat cs"] Cons.prems by (subst char_count_loop.simps) simp
  then show ?case using Cons.IH [of "p @ c" "n + 1"] Cons.prems by simp
qed

section \<open>Decoding what was encoded\<close>

lemma low_mask:
  "(w :: 'a :: len word) AND 0x3F = take_bit 6 w" "w AND 0x1F = take_bit 5 w"
  "w AND 0x0F = take_bit 4 w" "w AND 0x07 = take_bit 3 w"
  by (simp_all add: take_bit_eq_mask mask_numeral)

lemma take_bit_casts:
  "k \<le> 8 \<Longrightarrow> ucast (take_bit k (w :: u32)) = take_bit k (ucast w :: u8)"
  "k \<le> 8 \<Longrightarrow> take_bit k (ucast (b :: u8) :: u32) = ucast (take_bit k b)"
  "k \<le> 8 \<Longrightarrow> ucast (take_bit k (ucast w :: u8)) = take_bit k (w :: u32)"
  by (rule bit_word_eqI; auto simp: bit_simps)+

lemma lead_bytes:
  "lead_len (take_bit 7 y) = 1 \<and> (0x80 OR take_bit 6 y :: u8) AND 0xC0 = 0x80 \<and> lead_len (0xC0 OR take_bit 5 y) = 2
   \<and> lead_len (0xE0 OR take_bit 4 y) = 3 \<and> lead_len (0xF0 OR take_bit 3 y) = 4"
  by (rule all_bytes [of "\<lambda>y. lead_len (take_bit 7 y) = 1 \<and> (0x80 OR take_bit 6 y :: u8) AND 0xC0 = 0x80 \<and> lead_len (0xC0 OR take_bit 5 y) = 2
   \<and> lead_len (0xE0 OR take_bit 4 y) = 3 \<and> lead_len (0xF0 OR take_bit 3 y) = 4"]) (simp add: lead_len_def upt_rec)

lemma payload_bits:
  "take_bit 6 (ucast (0x80 OR take_bit 6 (ucast w) :: u8) :: u32) = take_bit 6 w"
  "take_bit 5 (ucast (0xC0 OR take_bit 5 (ucast w) :: u8) :: u32) = take_bit 5 w"
  "take_bit 4 (ucast (0xE0 OR take_bit 4 (ucast w) :: u8) :: u32) = take_bit 4 w"
  "take_bit 3 (ucast (0xF0 OR take_bit 3 (ucast w) :: u8) :: u32) = take_bit 3 w"
  by (simp_all add: take_bit_casts)

lemma small_word:
  assumes "(w :: u32) < 2 ^ k" "k < 32"
  shows "take_bit k w = w"
  using assms by (simp add: take_bit_eq_mod word_unat_eq_iff unat_mod_distrib word_less_nat_alt)


lemma sextet: "n < 6 \<or> 6 \<le> n \<and> n < 12 \<or> 12 \<le> n \<and> n < 18 \<or> 18 \<le> (n :: nat)"
  by auto

lemma join_2: "push_bit 6 (take_bit 5 (drop_bit 6 w)) OR take_bit 6 w = take_bit 11 w"
  (is "?l = ?r") for w :: u32
proof (rule bit_word_eqI)
  fix n
  show "bit ?l n = bit ?r n" using sextet [of n] by (elim disjE conjE) (simp_all add: bit_simps, auto)
qed

lemma join_3: "push_bit 12 (take_bit 4 (drop_bit 12 w)) OR push_bit 6 (take_bit 6 (drop_bit 6 w)) OR take_bit 6 w = take_bit 16 w"
  (is "?l = ?r") for w :: u32
proof (rule bit_word_eqI)
  fix n
  show "bit ?l n = bit ?r n" using sextet [of n] by (elim disjE conjE) (simp_all add: bit_simps, auto)
qed

lemma join_4: "push_bit 18 (take_bit 3 (drop_bit 18 w)) OR push_bit 12 (take_bit 6 (drop_bit 12 w))
    OR push_bit 6 (take_bit 6 (drop_bit 6 w)) OR take_bit 6 w = take_bit 21 w"
  (is "?l = ?r") for w :: u32
proof (rule bit_word_eqI)
  fix n
  show "bit ?l n = bit ?r n" using sextet [of n] by (elim disjE conjE) (simp_all add: bit_simps, auto)
qed

lemmas join_bits = join_2 join_3 join_4

lemma high_part:
  fixes w :: u32
  assumes "take_bit (m + k) w = w" "k \<le> 8"
  shows "(ucast (drop_bit m w) :: u8) = take_bit k (ucast (drop_bit m w))"
proof -
  have "drop_bit m w = take_bit k (drop_bit m w)"
    using assms(1) by (metis drop_bit_take_bit add_diff_cancel_left')
  then show ?thesis using take_bit_casts(1) [OF assms(2)] by metis
qed

lemma nth_mid: "(p @ x # q) ! length p = x" "(p @ x # y # q) ! Suc (length p) = y"
  "(p @ x # y # z # q) ! (length p + 2) = z" "(p @ x # y # z # q) ! Suc (Suc (length p)) = z"
  "(p @ x # y # z # u # q) ! (length p + 3) = u" "(p @ x # y # z # u # q) ! Suc (Suc (Suc (length p))) = u"
  by (simp_all add: nth_append)

text \<open>\<open>decodeChar\<close> recovers every code point below \<open>2 ^ 21\<close> from its UTF-8 encoding, wherever it
  stands; the encoding is one character, whose length \<open>charByteLen\<close> reports in front of it and
  \<open>prevCharByteLen\<close> behind it.\<close>

theorem utf8_decode_encode:
  assumes "cp < 2 ^ 21"
  shows "decodeChar (p @ encode_utf8 cp @ q) (length p) = cp \<and> utf8_char (encode_utf8 cp)
    \<and> charByteLen (p @ encode_utf8 cp @ q) (length p) = length (encode_utf8 cp)
    \<and> prevCharByteLen (p @ encode_utf8 cp @ q) (length p + length (encode_utf8 cp)) = length (encode_utf8 cp)"
proof -
  have *: "decodeChar (p @ encode_utf8 cp @ q) (length p) = cp \<and> utf8_char (encode_utf8 cp)"
  proof -
    consider "cp < 0x80" | "\<not> cp < 0x80" "cp < 0x800" | "\<not> cp < 0x800" "\<not> cp < 0x80" "cp < 0x10000"
      | "\<not> cp < 0x10000" "\<not> cp < 0x800" "\<not> cp < 0x80"
      using less_trans [of cp "0x800" "0x10000"] less_trans [of cp "0x80" "0x800"] by fastforce
    then show ?thesis
    proof cases
      case 1
      then have t: "take_bit 7 cp = cp" using small_word [of cp 7] by simp
      then have "encode_utf8 cp = [byte_char (take_bit 7 (ucast cp))]"
        using 1 take_bit_casts(1) [of 7 cp] by (simp add: encode_utf8_def)
      then show ?thesis using lead_bytes t take_bit_casts(3) [of 7 cp]
        by (simp add: decodeChar_def nth_mid utf8_char_def)
    next
      case 2
      then have t: "take_bit 11 cp = cp" using small_word [of cp 11] by simp
      note h = high_part [of 6 5 cp, simplified, OF t]
      have e: "encode_utf8 cp = map byte_char [0xC0 OR take_bit 5 (ucast (drop_bit 6 cp)), 0x80 OR take_bit 6 (ucast cp)]"
        using 2 h by (simp add: encode_utf8_def low_mask take_bit_casts(1))
      show ?thesis using lead_bytes t
        by (simp add: e decodeChar_def nth_mid cont_bits_def low_mask payload_bits join_bits utf8_char_def is_cont_def)
    next
      case 3
      then have t: "take_bit 16 cp = cp" using small_word [of cp 16] by simp
      note h = high_part [of 12 4 cp, simplified, OF t]
      have e: "encode_utf8 cp = map byte_char [0xE0 OR take_bit 4 (ucast (drop_bit 12 cp)),
          0x80 OR take_bit 6 (ucast (drop_bit 6 cp)), 0x80 OR take_bit 6 (ucast cp)]"
        using 3 h by (simp add: encode_utf8_def low_mask take_bit_casts(1))
      show ?thesis using lead_bytes t
        by (simp add: e decodeChar_def nth_mid cont_bits_def low_mask payload_bits join_bits utf8_char_def is_cont_def)
    next
      case 4
      have t: "take_bit 21 cp = cp" using small_word [of cp 21] assms by simp
      note h = high_part [of 18 3 cp, simplified, OF t]
      have e: "encode_utf8 cp = map byte_char [0xF0 OR take_bit 3 (ucast (drop_bit 18 cp)),
          0x80 OR take_bit 6 (ucast (drop_bit 12 cp)), 0x80 OR take_bit 6 (ucast (drop_bit 6 cp)), 0x80 OR take_bit 6 (ucast cp)]"
        using 4 h by (simp add: encode_utf8_def low_mask take_bit_casts(1))
      show ?thesis using lead_bytes t
        by (simp add: e decodeChar_def nth_mid cont_bits_def low_mask payload_bits join_bits utf8_char_def is_cont_def)
    qed
  qed
  then show ?thesis using charByteLen_char prevCharByteLen_char by blast
qed


theorem utf8_decode_encode_witness:
  "length (encode_utf8 0x4E2D) = 3 \<and> decodeChar (''a'' @ encode_utf8 0x4E2D @ ''b'') 1 = 0x4E2D"
  using utf8_decode_encode [of "0x4E2D" "''a''" "''b''"] by (simp add: encode_utf8_def)

end
