(* ===== verification/Json.thy ===== *)
theory Json
  imports Var_Tree Utf8_Text
begin

text \<open>
  JSON (\<open>ve/src/core/impl/json.cpp\<close>): values and node trees as text, and back from the document model of
  the on-demand parser (\<open>simdjson\<close>, a parameter \<open>simd\<close>). What the parser yields for a text is a
  \<open>json_doc\<close>; reading it may throw, which is \<open>None\<close> here, as is a negative indentation, for which the
  padding string cannot be made. \<open>cust\<close> is the text of custom payloads.
\<close>

section \<open>Values as text\<close>

definition DQUOTE :: char where "DQUOTE = CHR 0x22"
definition NEWLINE :: char where "NEWLINE = CHR 0x0A"

definition escape_char :: "char \<Rightarrow> string" where
  "escape_char c =
     (if c = CHR 0x22 then [CHR 0x5C, CHR 0x22]
      else if c = CHR 0x5C then [CHR 0x5C, CHR 0x5C]
      else if c = CHR 0x08 then [CHR 0x5C, CHR ''b'']
      else if c = CHR 0x0C then [CHR 0x5C, CHR ''f'']
      else if c = CHR 0x0A then [CHR 0x5C, CHR ''n'']
      else if c = CHR 0x0D then [CHR 0x5C, CHR ''r'']
      else if c = CHR 0x09 then [CHR 0x5C, CHR ''t'']
      else if char_byte c < 0x20 then [CHR 0x5C, CHR ''u'', CHR ''0'', CHR ''0''] @ hex_byte (char_byte c)
      else [c])"

definition json_escape :: "string \<Rightarrow> string" where
  "json_escape s = concat (map escape_char s)"

definition quoted :: "string \<Rightarrow> string" where
  "quoted s = DQUOTE # json_escape s @ [DQUOTE]"

fun varToJson :: "(nat \<Rightarrow> string) \<Rightarrow> var \<Rightarrow> string" where
  "varToJson cust VNone = ''null''"
| "varToJson cust (VBool b) = (if b then ''true'' else ''false'')"
| "varToJson cust (VInt i) = int_chars (sint i)"
| "varToJson cust (VDouble d) = (if dbl_finite d then format_g 17 d else ''null'')"
| "varToJson cust (VString s) = quoted s"
| "varToJson cust (VBin bs) = quoted (map byte_char bs)"
| "varToJson cust (VList xs) = ''['' @ join_sep '','' (map (varToJson cust) xs) @ '']''"
| "varToJson cust (VDict d) =
     ''{'' @ join_sep '','' (map (\<lambda>(k, x). quoted k @ '':'' @ varToJson cust x) d) @ ''}''"
| "varToJson cust v = quoted (var_text cust [] v)"

definition json_stringify :: "(nat \<Rightarrow> string) \<Rightarrow> var \<Rightarrow> string" where
  "json_stringify cust v = varToJson cust v"

section \<open>Node trees as text\<close>

record json_options =
  json_indent :: int
  json_auto_ignore :: bool

definition pad :: "json_options \<Rightarrow> nat \<Rightarrow> string" where
  "pad opts depth = replicate (depth * nat (json_indent opts)) CHR '' ''"

text \<open>The lines of an array or object: indented, separated by a comma at the end of the line.\<close>

fun json_lines :: "string \<Rightarrow> string list \<Rightarrow> string" where
  "json_lines p [] = []"
| "json_lines p [t] = p @ t @ [NEWLINE]"
| "json_lines p (t # ts) = p @ t @ '','' @ [NEWLINE] @ json_lines p ts"

definition visible_children :: "json_options \<Rightarrow> forest \<Rightarrow> nid \<Rightarrow> nid list" where
  "visible_children opts st n = filter (\<lambda>c. \<not> isIgnoredChild (json_auto_ignore opts) (name_of st c)) (kids st n)"

definition leaf_json :: "(nat \<Rightarrow> string) \<Rightarrow> forest \<Rightarrow> nid \<Rightarrow> string" where
  "leaf_json cust st n = (if isNull (node_value st n) then ''null'' else varToJson cust (node_value st n))"

text \<open>The lines of an object: \<open>_value\<close>, the first child of every name, the nameless children as an array.
  \<open>sub\<close> is the text of a child at the given depth.\<close>

definition object_json :: "(nat \<Rightarrow> string) \<Rightarrow> json_options \<Rightarrow> forest \<Rightarrow> nid \<Rightarrow> nid list \<Rightarrow> nat
    \<Rightarrow> (nid \<Rightarrow> nat \<Rightarrow> string option) \<Rightarrow> string option" where
  "object_json cust opts st n visible depth sub =
     (let named = filter (\<lambda>c. name_of st c \<noteq> []) visible;
          anonymous = filter (\<lambda>c. name_of st c = []) visible;
          names = first_seen [] (map (name_of st) named);
          value_line = (if isNull (node_value st n) then []
                        else [DQUOTE # ''_value'' @ [DQUOTE] @ '': '' @ varToJson cust (node_value st n)])
      in do {
        ts \<leftarrow> those (map (\<lambda>nm. map_option (\<lambda>t. quoted nm @ '': '' @ t)
                (sub (hd (filter (\<lambda>c. name_of st c = nm) named)) (depth + 1))) names);
        us \<leftarrow> those (map (\<lambda>c. sub c (depth + 2)) anonymous);
        Some (''{'' @ [NEWLINE]
          @ json_lines (pad opts (depth + 1)) (value_line @ ts
              @ (if anonymous = [] then []
                 else [[DQUOTE, DQUOTE] @ '': ['' @ [NEWLINE] @ json_lines (pad opts (depth + 2)) us
                       @ pad opts (depth + 1) @ '']'']))
          @ pad opts depth @ ''}'') })"

definition array_json :: "json_options \<Rightarrow> nid list \<Rightarrow> nat \<Rightarrow> (nid \<Rightarrow> nat \<Rightarrow> string option) \<Rightarrow> string option" where
  "array_json opts visible depth sub =
     map_option (\<lambda>ts. ''['' @ [NEWLINE] @ json_lines (pad opts (depth + 1)) ts @ pad opts depth @ '']'')
       (those (map (\<lambda>c. sub c (depth + 1)) visible))"

fun nodeToJsonImpl :: "nat \<Rightarrow> (nat \<Rightarrow> string) \<Rightarrow> json_options \<Rightarrow> forest \<Rightarrow> nid \<Rightarrow> nat \<Rightarrow> string option" where
  "nodeToJsonImpl 0 cust opts st n depth = None"
| "nodeToJsonImpl (Suc fuel) cust opts st n depth =
     (if json_indent opts < 0 then None
      else
        (let visible = visible_children opts st n
         in case visible of
              [] \<Rightarrow> Some (leaf_json cust st n)
            | c0 # _ \<Rightarrow>
                if name_of st c0 = [] then array_json opts visible depth (nodeToJsonImpl fuel cust opts st)
                else object_json cust opts st n visible depth (nodeToJsonImpl fuel cust opts st)))"

text \<open>With a depth limit: below it a node with children is \<open>"..."\<close>.\<close>

fun nodeToJsonImplWithDepth :: "nat \<Rightarrow> (nat \<Rightarrow> string) \<Rightarrow> json_options \<Rightarrow> int \<Rightarrow> forest \<Rightarrow> nid \<Rightarrow> nat \<Rightarrow> nat \<Rightarrow> string option" where
  "nodeToJsonImplWithDepth 0 cust opts maxDepth st n depth cur = None"
| "nodeToJsonImplWithDepth (Suc fuel) cust opts maxDepth st n depth cur =
     (if json_indent opts < 0 then None
      else
        (let visible = visible_children opts st n
         in if 0 \<le> maxDepth \<and> maxDepth \<le> int cur then
              Some (if visible = [] then leaf_json cust st n else DQUOTE # ''...'' @ [DQUOTE])
            else
              (case visible of
                 [] \<Rightarrow> Some (leaf_json cust st n)
               | c0 # _ \<Rightarrow>
                   (let sub = (\<lambda>c d. nodeToJsonImplWithDepth fuel cust opts maxDepth st c d (cur + 1))
                    in if name_of st c0 = [] then array_json opts visible depth sub
                       else object_json cust opts st n visible depth sub))))"

definition exportTree_json :: "(nat \<Rightarrow> string) \<Rightarrow> json_options \<Rightarrow> nid option \<Rightarrow> forest \<Rightarrow> string option" where
  "exportTree_json cust opts node st =
     (case node of
        None \<Rightarrow> Some ''null''
      | Some n \<Rightarrow> map_option (\<lambda>t. t @ [NEWLINE]) (nodeToJsonImpl (next_id st + 1) cust opts st n 0))"

definition exportTree_json_depth :: "(nat \<Rightarrow> string) \<Rightarrow> int \<Rightarrow> json_options \<Rightarrow> nid option \<Rightarrow> forest \<Rightarrow> string option" where
  "exportTree_json_depth cust maxDepth opts node st =
     (case node of
        None \<Rightarrow> Some ''null''
      | Some n \<Rightarrow> map_option (\<lambda>t. t @ [NEWLINE]) (nodeToJsonImplWithDepth (next_id st + 1) cust opts maxDepth st n 0 0))"

section \<open>The document model\<close>

text \<open>A document as the parser presents it; \<open>DThrows\<close> is an item whose access throws, such as an integer
  that does not fit 64 bits.\<close>

datatype dom =
  DNull | DBool bool | DInt i64 | DDouble u64 | DStr string | DArr "dom list" | DObj "(string \<times> dom) list" | DThrows

text \<open>What \<open>iterate\<close> and \<open>get_value\<close> give for a text: an error, a document that is a scalar (which
  \<open>get_value\<close> refuses), or a value.\<close>

datatype json_doc = Doc_Error | Doc_Scalar | Doc_Value dom

function (sequential) domToVar :: "dom \<Rightarrow> var option" where
  "domToVar DNull = Some VNone"
| "domToVar (DBool b) = Some (VBool b)"
| "domToVar (DInt i) = Some (VInt i)"
| "domToVar (DDouble d) = Some (VDouble d)"
| "domToVar (DStr s) = Some (VString s)"
| "domToVar (DArr ds) = map_option VList (those (map domToVar ds))"
| "domToVar (DObj fs) =
     map_option (\<lambda>kvs. VDict (put_all kvs [])) (those (map (\<lambda>(k, d). map_option (Pair k) (domToVar d)) fs))"
| "domToVar DThrows = None"
  by pat_completeness auto

termination by (relation "measure size") (auto simp: size_in_list less_Suc_eq_le
    dest: size_in_list [of _ _ "size_prod (\<lambda>_. 0) size"] size_in_list [of _ _ size])

function (sequential) domToNode :: "dom \<Rightarrow> nid \<Rightarrow> forest \<Rightarrow> forest option"
  and importObjectFields :: "(string \<times> dom) list \<Rightarrow> nid \<Rightarrow> forest \<Rightarrow> forest option"
  and append_elems :: "dom list \<Rightarrow> nid \<Rightarrow> forest \<Rightarrow> forest option" where
  "domToNode (DObj fs) n st = importObjectFields fs n st"
| "domToNode (DArr ds) n st = append_elems ds n st"
| "domToNode d n st = (case domToVar d of None \<Rightarrow> None | Some v \<Rightarrow> set_value n v st)"
| "importObjectFields [] n st = Some st"
| "importObjectFields ((k, d) # fs) n st =
     (case (if k = ''_value'' then (case domToVar d of None \<Rightarrow> None | Some v \<Rightarrow> set_value n v st)
            else if k = [] then
              (case clearAnonymousChildren n st of
                 None \<Rightarrow> None
               | Some st1 \<Rightarrow> (case d of DArr ds \<Rightarrow> append_elems ds n st1 | _ \<Rightarrow> Some st1))
            else
              (case ensureSchemaChild n k st of
                 None \<Rightarrow> None
               | Some (None, st1) \<Rightarrow> Some st1
               | Some (Some c, st1) \<Rightarrow>
                   (case d of DArr ds \<Rightarrow> append_elems ds c st1 | _ \<Rightarrow> domToNode d c st1)))
      of None \<Rightarrow> None | Some st2 \<Rightarrow> importObjectFields fs n st2)"
| "append_elems [] n st = Some st"
| "append_elems (d # ds) n st =
     (case append_node n [] 0 st of
        Some (Some c, st1) \<Rightarrow>
          (case domToNode d c st1 of None \<Rightarrow> None | Some st2 \<Rightarrow> append_elems ds n st2)
      | _ \<Rightarrow> None)"
  by pat_completeness auto

termination
  by (relation "measure (\<lambda>x. case x of Inl (d, _) \<Rightarrow> size d
      | Inr (Inl (fs, _)) \<Rightarrow> size_list (size_prod (\<lambda>_. 0) size) fs
      | Inr (Inr (ds, _)) \<Rightarrow> size_list size ds)")
    auto

section \<open>From text\<close>

definition trim :: "string \<Rightarrow> string" where
  "trim s = rev (dropWhile is_space (rev (dropWhile is_space s)))"

text \<open>The fallback for documents that are scalars.\<close>

definition parse_scalar :: "string \<Rightarrow> var" where
  "parse_scalar json =
     (let s = trim json
      in if s = [] then VNone
         else if s = ''null'' then VNone
         else if s = ''true'' then VBool True
         else if s = ''false'' then VBool False
         else if hd s = DQUOTE \<and> last s = DQUOTE \<and> 2 \<le> length s then VString (butlast (tl s))
         else if CHR ''.'' \<in> set s \<or> CHR ''e'' \<in> set s \<or> CHR ''E'' \<in> set s
         then (case stod s of Some d \<Rightarrow> VDouble d | None \<Rightarrow> VNone)
         else (case stoll s of Some i \<Rightarrow> VInt (of_int i) | None \<Rightarrow> VNone))"

definition json_parse :: "(string \<Rightarrow> json_doc) \<Rightarrow> string \<Rightarrow> var option" where
  "json_parse simd json =
     (if json = [] then Some VNone
      else
        (case simd json of
           Doc_Error \<Rightarrow> Some VNone
         | Doc_Value d \<Rightarrow> domToVar d
         | Doc_Scalar \<Rightarrow> Some (parse_scalar json)))"

definition importTree_json :: "(string \<Rightarrow> json_doc) \<Rightarrow> nid option \<Rightarrow> string \<Rightarrow> copy_options \<Rightarrow> forest \<Rightarrow> (bool \<times> forest) option" where
  "importTree_json simd node json opts st =
     (case node of
        None \<Rightarrow> Some (False, st)
      | Some n \<Rightarrow>
          if json = [] then Some (False, st)
          else
            (case simd json of
               Doc_Error \<Rightarrow> Some (False, st)
             | Doc_Scalar \<Rightarrow> Some (False, st)
             | Doc_Value d \<Rightarrow> map_option (Pair True) (copy_scratch ''json_import'' (domToNode d) opts n st)))"

end
