(* ===== verification/Object_Signals.thy ===== *)
theory Object_Signals
  imports Var
begin

text \<open>
  Signals and slots (\<open>ve/include/ve/core/object.h\<close>, \<open>ve/src/core/object.cpp\<close>) and the loops that
  queued slots are posted to (\<open>loop.h\<close>, \<open>loop.cpp\<close>). A slot is any C++ function, so an action is a
  number and \<open>prog\<close> gives the calls of this API that it makes when it runs: connecting, triggering
  and deleting objects from inside a slot is part of the model. Each run of a slot and each death of a
  token is appended to the log. Tokens (\<open>Alive\<close>) are numbers with a set of dead ones; a null token
  never dies. Using an object after its deletion is the outcome \<open>Undefined\<close>; nested triggers take
  fuel, and \<open>Stuck\<close> means they go deeper than that. A loop is the queue of one thread: the pool of
  several threads, the mutexes and the thread-local context of other threads are not modelled.
\<close>

section \<open>State\<close>

type_synonym oid = nat
type_synonym token = nat
type_synonym lid = nat
type_synonym signal = "64 word"

datatype 'a outcome = Done 'a | Stuck | Undefined

definition OBJECT_DELETED :: signal where
  "OBJECT_DELETED = -1"

record conn =
  observer :: "oid option"
  action :: nat
  c_loop :: "lid option"
  c_alive :: "token option"
  shotToken :: "token option"

record sobj =
  s_name :: string
  s_alive :: token
  s_silent :: bool
  connections :: "signal \<Rightarrow> conn list"

record task =
  t_guard :: "token option"
  t_context :: "oid option"
  t_action :: nat
  t_data :: var

record sloop =
  l_alive :: token
  l_running :: bool
  l_queue :: "task list"

datatype log_event =
  Ran nat var "oid option" "token option"
| RanQueued nat var "oid option" "token option"
| Killed token

record world =
  objs :: "oid \<Rightarrow> sobj option"
  dead_tokens :: "token \<Rightarrow> bool"
  next_token :: token
  loops :: "lid \<Rightarrow> sloop option"
  context_of :: "oid option"
  log :: "log_event list"

definition dead :: "world \<Rightarrow> token option \<Rightarrow> bool" where
  "dead w t = (case t of None \<Rightarrow> False | Some k \<Rightarrow> dead_tokens w k)"

definition kill :: "token option \<Rightarrow> world \<Rightarrow> world" where
  "kill t w = (case t of
     None \<Rightarrow> w
   | Some k \<Rightarrow> w\<lparr>dead_tokens := (dead_tokens w)(k := True), log := log w @ [Killed k]\<rparr>)"

definition create_token :: "world \<Rightarrow> token \<times> world" where
  "create_token w = (next_token w, w\<lparr>next_token := next_token w + 1\<rparr>)"

definition set_obj :: "oid \<Rightarrow> sobj \<Rightarrow> world \<Rightarrow> world" where
  "set_obj o' ob w = w\<lparr>objs := (objs w)(o' \<mapsto> ob)\<rparr>"

definition new_object :: "oid \<Rightarrow> string \<Rightarrow> world \<Rightarrow> world" where
  "new_object o' nm w =
     (let (t, w1) = create_token w
      in set_obj o' \<lparr>s_name = nm, s_alive = t, s_silent = False, connections = (\<lambda>_. [])\<rparr> w1)"

section \<open>Loops\<close>

definition post :: "lid option \<Rightarrow> task \<Rightarrow> world \<Rightarrow> world" where
  "post l t w =
     (case l of
        None \<Rightarrow> w
      | Some i \<Rightarrow>
          (case loops w i of
             None \<Rightarrow> w
           | Some lp \<Rightarrow>
               if dead_tokens w (l_alive lp) then w
               else w\<lparr>loops := (loops w)(i \<mapsto> lp\<lparr>l_queue := l_queue lp @ [t]\<rparr>)\<rparr>))"

definition loop_start :: "lid \<Rightarrow> world \<Rightarrow> bool \<times> world" where
  "loop_start i w =
     (case loops w i of
        None \<Rightarrow> (False, w)
      | Some lp \<Rightarrow>
          if l_running lp then (False, w)
          else (True, w\<lparr>loops := (loops w)(i \<mapsto> lp\<lparr>l_running := True\<rparr>)\<rparr>))"

definition loop_stop :: "lid \<Rightarrow> world \<Rightarrow> bool \<times> world" where
  "loop_stop i w =
     (case loops w i of
        None \<Rightarrow> (False, w)
      | Some lp \<Rightarrow>
          if \<not> l_running lp then (False, w)
          else (True, w\<lparr>loops := (loops w)(i \<mapsto> lp\<lparr>l_running := False\<rparr>)\<rparr>))"

text \<open>The destructor of a loop: its token dies first, then the backend with the queue goes.\<close>

definition loop_destroy :: "lid \<Rightarrow> world \<Rightarrow> world" where
  "loop_destroy i w =
     (case loops w i of
        None \<Rightarrow> w
      | Some lp \<Rightarrow> (let w1 = kill (Some (l_alive lp)) w in w1\<lparr>loops := (loops w1)(i := None)\<rparr>))"

section \<open>Connections\<close>

definition isDead :: "world \<Rightarrow> conn \<Rightarrow> bool" where
  "isDead w c \<longleftrightarrow> dead w (c_alive c) \<or> dead w (shotToken c)"

text \<open>\<open>connect\<close> and \<open>once\<close>; the observer's token is read when connecting.\<close>

definition add_connection :: "oid \<Rightarrow> signal \<Rightarrow> oid option \<Rightarrow> nat \<Rightarrow> lid option \<Rightarrow> bool \<Rightarrow> world \<Rightarrow> world outcome" where
  "add_connection o' sig obs act l one_shot w =
     (case objs w o' of
        None \<Rightarrow> Undefined
      | Some ob \<Rightarrow>
          (case (case obs of None \<Rightarrow> Some None | Some x \<Rightarrow> map_option (\<lambda>b. Some (s_alive b)) (objs w x)) of
             None \<Rightarrow> Undefined
           | Some tok \<Rightarrow>
               (let (shot, w1) = (if one_shot then (let (t, w1) = create_token w in (Some t, w1)) else (None, w));
                    c = \<lparr>observer = obs, action = act, c_loop = l, c_alive = tok, shotToken = shot\<rparr>
                in Done (set_obj o' (ob\<lparr>connections := (connections ob)(sig := connections ob sig @ [c])\<rparr>) w1))))"

definition removeObserver :: "oid option \<Rightarrow> conn list \<Rightarrow> conn list" where
  "removeObserver obs cs = filter (\<lambda>c. observer c \<noteq> obs) cs"

definition disconnect :: "oid \<Rightarrow> signal \<Rightarrow> oid option \<Rightarrow> world \<Rightarrow> world outcome" where
  "disconnect o' sig obs w =
     (case objs w o' of
        None \<Rightarrow> Undefined
      | Some ob \<Rightarrow>
          Done (set_obj o' (ob\<lparr>connections := (connections ob)(sig := removeObserver obs (connections ob sig))\<rparr>) w))"

definition disconnect_all :: "oid \<Rightarrow> oid option \<Rightarrow> world \<Rightarrow> world outcome" where
  "disconnect_all o' obs w =
     (case objs w o' of
        None \<Rightarrow> Undefined
      | Some ob \<Rightarrow>
          Done (set_obj o' (ob\<lparr>connections := (\<lambda>sig. removeObserver obs (connections ob sig))\<rparr>) w))"

definition hasConnection :: "sobj \<Rightarrow> signal \<Rightarrow> bool" where
  "hasConnection ob sig \<longleftrightarrow> connections ob sig \<noteq> []"

definition hasConnectionOf :: "sobj \<Rightarrow> signal \<Rightarrow> oid option \<Rightarrow> bool" where
  "hasConnectionOf ob sig obs \<longleftrightarrow> list_ex (\<lambda>c. observer c = obs) (connections ob sig)"

section \<open>Dispatch\<close>

datatype op =
  OpConnect oid signal "oid option" nat "lid option" bool
| OpDisconnect oid signal "oid option"
| OpDisconnectAll oid "oid option"
| OpTrigger oid signal var
| OpSilent oid bool
| OpDelete oid

definition set_silent :: "oid \<Rightarrow> bool \<Rightarrow> world \<Rightarrow> world outcome" where
  "set_silent o' on w =
     (case objs w o' of None \<Rightarrow> Undefined | Some ob \<Rightarrow> Done (set_obj o' (ob\<lparr>s_silent := on\<rparr>) w))"

text \<open>A slot that is due: posted to its loop, with the sender's token as guard except for the
  deletion signal, or run here in the sender's context.\<close>

definition queue_slot :: "token \<Rightarrow> oid \<Rightarrow> signal \<Rightarrow> var \<Rightarrow> conn \<Rightarrow> world \<Rightarrow> world" where
  "queue_slot sender o' sig data c w =
     post (c_loop c)
       (if sig \<noteq> OBJECT_DELETED
        then \<lparr>t_guard = Some sender, t_context = Some o', t_action = action c, t_data = data\<rparr>
        else \<lparr>t_guard = None, t_context = None, t_action = action c, t_data = data\<rparr>) w"

definition purge :: "oid \<Rightarrow> signal \<Rightarrow> world \<Rightarrow> world outcome" where
  "purge o' sig w =
     (case objs w o' of
        None \<Rightarrow> Undefined
      | Some ob \<Rightarrow>
          Done (set_obj o' (ob\<lparr>connections :=
            (connections ob)(sig := filter (\<lambda>c. \<not> isDead w c) (connections ob sig))\<rparr>) w))"

definition free_object :: "oid \<Rightarrow> world \<Rightarrow> world outcome" where
  "free_object o' w =
     (case objs w o' of None \<Rightarrow> Undefined | Some _ \<Rightarrow> Done (w\<lparr>objs := (objs w)(o' := None)\<rparr>))"

function (sequential) exec :: "(nat \<Rightarrow> op list) \<Rightarrow> nat \<Rightarrow> op list \<Rightarrow> world \<Rightarrow> world outcome"
  and obj_trigger :: "(nat \<Rightarrow> op list) \<Rightarrow> nat \<Rightarrow> oid \<Rightarrow> signal \<Rightarrow> var \<Rightarrow> world \<Rightarrow> world outcome"
  and dispatch :: "(nat \<Rightarrow> op list) \<Rightarrow> nat \<Rightarrow> token \<Rightarrow> oid \<Rightarrow> signal \<Rightarrow> var \<Rightarrow> conn list \<Rightarrow> bool \<Rightarrow> world
    \<Rightarrow> (bool \<times> world) outcome" where
  "exec prog fuel [] w = Done w"
| "exec prog fuel (a # as) w =
     (case (case a of
              OpConnect o' sig obs act l one \<Rightarrow> add_connection o' sig obs act l one w
            | OpDisconnect o' sig obs \<Rightarrow> disconnect o' sig obs w
            | OpDisconnectAll o' obs \<Rightarrow> disconnect_all o' obs w
            | OpTrigger o' sig data \<Rightarrow> obj_trigger prog fuel o' sig data w
            | OpSilent o' on \<Rightarrow> set_silent o' on w
            | OpDelete o' \<Rightarrow>
                (case objs w o' of
                   None \<Rightarrow> Undefined
                 | Some ob \<Rightarrow>
                     (case obj_trigger prog fuel o' OBJECT_DELETED VNone (kill (Some (s_alive ob)) w) of
                        Done w1 \<Rightarrow> free_object o' w1 | r \<Rightarrow> r)))
      of Done w1 \<Rightarrow> exec prog fuel as w1 | r \<Rightarrow> r)"
| "obj_trigger prog 0 o' sig data w = Stuck"
| "obj_trigger prog (Suc fuel) o' sig data w =
     (case objs w o' of
        None \<Rightarrow> Undefined
      | Some ob \<Rightarrow>
          if sig \<noteq> OBJECT_DELETED \<and> s_silent ob then Done w
          else
            (case dispatch prog fuel (s_alive ob) o' sig data (connections ob sig) False w of
               Done (has_dead, w1) \<Rightarrow> if has_dead then purge o' sig w1 else Done w1
             | Stuck \<Rightarrow> Stuck
             | Undefined \<Rightarrow> Undefined))"
| "dispatch prog fuel sender o' sig data [] has_dead w = Done (has_dead, w)"
| "dispatch prog fuel sender o' sig data (c # cs) has_dead w =
     (if dead w (c_alive c) \<or> dead w (shotToken c) then dispatch prog fuel sender o' sig data cs True w
      else
        (case (if c_loop c \<noteq> None then Done (queue_slot sender o' sig data c w)
               else
                 (let prev = context_of w;
                      w1 = w\<lparr>context_of := Some o', log := log w @ [Ran (action c) data (Some o') (c_alive c)]\<rparr>
                  in case exec prog fuel (prog (action c)) w1 of
                       Done w2 \<Rightarrow> Done (w2\<lparr>context_of := prev\<rparr>) | r \<Rightarrow> r))
         of Done w3 \<Rightarrow>
              if shotToken c \<noteq> None
              then dispatch prog fuel sender o' sig data cs True (kill (shotToken c) w3)
              else dispatch prog fuel sender o' sig data cs has_dead w3
          | Stuck \<Rightarrow> Stuck
          | Undefined \<Rightarrow> Undefined))"
  by pat_completeness auto
termination
  by (relation "measures [\<lambda>x. case x of Inl (_, f, _) \<Rightarrow> 3 * f + 1 | Inr (Inl (_, f, _)) \<Rightarrow> 3 * f
        | Inr (Inr (_, f, _)) \<Rightarrow> 3 * f + 2,
      \<lambda>x. case x of Inl (_, _, as, _) \<Rightarrow> length as | Inr (Inl _) \<Rightarrow> 0
        | Inr (Inr (_, _, _, _, _, _, cs, _)) \<Rightarrow> length cs]") auto

text \<open>Running the next task of a loop.\<close>

definition run_task :: "(nat \<Rightarrow> op list) \<Rightarrow> nat \<Rightarrow> lid \<Rightarrow> world \<Rightarrow> world outcome" where
  "run_task prog fuel i w =
     (case loops w i of
        None \<Rightarrow> Done w
      | Some lp \<Rightarrow>
          (case l_queue lp of
             [] \<Rightarrow> Done w
           | t # ts \<Rightarrow>
               if \<not> l_running lp then Done w
               else
                 (let w1 = w\<lparr>loops := (loops w)(i \<mapsto> lp\<lparr>l_queue := ts\<rparr>)\<rparr>
                  in if dead w1 (t_guard t) then Done w1
                     else
                       (let prev = context_of w1;
                            w2 = w1\<lparr>context_of := (if t_context t = None then prev else t_context t),
                                   log := log w1 @ [RanQueued (t_action t) (t_data t) (t_context t) (t_guard t)]\<rparr>
                        in case exec prog fuel (prog (t_action t)) w2 of
                             Done w3 \<Rightarrow> Done (w3\<lparr>context_of := prev\<rparr>) | r \<Rightarrow> r))))"

text \<open>The typed \<open>trigger<S>(args...)\<close>, and the arguments a slot of \<open>n\<close> parameters unpacks.\<close>

definition pack_args :: "var list \<Rightarrow> var" where
  "pack_args args = (case args of [] \<Rightarrow> VNone | [a] \<Rightarrow> a | _ \<Rightarrow> VList args)"

definition trigger_args :: "(nat \<Rightarrow> op list) \<Rightarrow> nat \<Rightarrow> oid \<Rightarrow> signal \<Rightarrow> var list \<Rightarrow> world \<Rightarrow> world outcome" where
  "trigger_args prog fuel o' sig args w =
     (case objs w o' of
        None \<Rightarrow> Undefined
      | Some ob \<Rightarrow>
          if s_silent ob \<or> \<not> hasConnection ob sig then Done w
          else obj_trigger prog fuel o' sig (pack_args args) w)"

definition call_args :: "nat \<Rightarrow> var \<Rightarrow> var list" where
  "call_args n v =
     (if n = 0 then []
      else if n = 1 then (if isList v then [var_at v 0] else [v])
      else map (var_at v) [0..<n])"

section \<open>Managers\<close>

text \<open>A manager owns objects by name in a hash map. The list holds its entries in the order the map's
  iteration visits them, which is unspecified; only the search by object in \<open>remove\<close> and the
  destructor follow it.\<close>

type_synonym manager = "(string \<times> oid) list"

definition obj_name :: "world \<Rightarrow> oid \<Rightarrow> string option" where
  "obj_name w o' = map_option s_name (objs w o')"

definition manager_get :: "manager \<Rightarrow> string \<Rightarrow> oid option" where
  "manager_get m key = map_of m key"

definition manager_add :: "(nat \<Rightarrow> op list) \<Rightarrow> nat \<Rightarrow> oid option \<Rightarrow> bool \<Rightarrow> manager \<Rightarrow> world
    \<Rightarrow> (oid option \<times> manager \<times> world) outcome" where
  "manager_add prog fuel x delete_if_failed m w =
     (case x of
        None \<Rightarrow> Done (None, m, w)
      | Some o' \<Rightarrow>
          (case obj_name w o' of
             None \<Rightarrow> Undefined
           | Some nm \<Rightarrow>
               if map_of m nm \<noteq> None then
                 (if delete_if_failed
                  then (case exec prog fuel [OpDelete o'] w of
                          Done w1 \<Rightarrow> Done (None, m, w1) | Stuck \<Rightarrow> Stuck | Undefined \<Rightarrow> Undefined)
                  else Done (None, m, w))
               else Done (Some o', AList.update nm o' m, w)))"

fun key_of_obj :: "oid \<Rightarrow> manager \<Rightarrow> string option" where
  "key_of_obj o' [] = None"
| "key_of_obj o' ((k, x) # m) = (if x = o' then Some k else key_of_obj o' m)"

definition delete_if :: "(nat \<Rightarrow> op list) \<Rightarrow> nat \<Rightarrow> bool \<Rightarrow> oid \<Rightarrow> world \<Rightarrow> world outcome" where
  "delete_if prog fuel b o' w = (if b then exec prog fuel [OpDelete o'] w else Done w)"

definition manager_remove :: "(nat \<Rightarrow> op list) \<Rightarrow> nat \<Rightarrow> oid option \<Rightarrow> bool \<Rightarrow> manager \<Rightarrow> world
    \<Rightarrow> (bool \<times> manager \<times> world) outcome" where
  "manager_remove prog fuel x auto_delete m w =
     (case x of
        None \<Rightarrow> Done (False, m, w)
      | Some o' \<Rightarrow>
          (case obj_name w o' of
             None \<Rightarrow> Undefined
           | Some nm \<Rightarrow>
               (let (found, m1) =
                      (if map_of m nm \<noteq> None then (True, AList.delete nm m)
                       else (case key_of_obj o' m of None \<Rightarrow> (False, m) | Some k \<Rightarrow> (True, AList.delete k m)))
                in case delete_if prog fuel (found \<and> auto_delete) o' w of
                     Done w1 \<Rightarrow> Done (found, m1, w1) | Stuck \<Rightarrow> Stuck | Undefined \<Rightarrow> Undefined)))"

definition manager_remove_named :: "(nat \<Rightarrow> op list) \<Rightarrow> nat \<Rightarrow> string \<Rightarrow> bool \<Rightarrow> manager \<Rightarrow> world
    \<Rightarrow> (bool \<times> manager \<times> world) outcome" where
  "manager_remove_named prog fuel nm auto_delete m w =
     (case manager_get m nm of
        None \<Rightarrow> Done (False, m, w)
      | Some o' \<Rightarrow>
          (case delete_if prog fuel auto_delete o' w of
             Done w1 \<Rightarrow> Done (True, AList.delete nm m, w1) | Stuck \<Rightarrow> Stuck | Undefined \<Rightarrow> Undefined))"

definition manager_destroy :: "(nat \<Rightarrow> op list) \<Rightarrow> nat \<Rightarrow> manager \<Rightarrow> world \<Rightarrow> world outcome" where
  "manager_destroy prog fuel m w = exec prog fuel (map (\<lambda>kv. OpDelete (snd kv)) m) w"

section \<open>No slot of a dead observer, no queued slot of a dead sender\<close>

definition entry_ok :: "log_event list \<Rightarrow> log_event \<Rightarrow> bool" where
  "entry_ok pre e =
     (case e of
        Ran _ _ _ (Some t) \<Rightarrow> Killed t \<notin> set pre
      | RanQueued _ _ _ (Some t) \<Rightarrow> Killed t \<notin> set pre
      | _ \<Rightarrow> True)"

definition sound_log :: "log_event list \<Rightarrow> bool" where
  "sound_log l \<longleftrightarrow> (\<forall>i < length l. entry_ok (take i l) (l ! i))"

definition sound :: "world \<Rightarrow> bool" where
  "sound w \<longleftrightarrow> (\<forall>t. dead_tokens w t = (Killed t \<in> set (log w))) \<and> sound_log (log w)"

lemma sound_log_snoc: "sound_log (l @ [e]) = (sound_log l \<and> entry_ok l e)"
proof -
  have "(\<forall>i < length (l @ [e]). entry_ok (take i (l @ [e])) ((l @ [e]) ! i))
      \<longleftrightarrow> (\<forall>i < length l. entry_ok (take i l) (l ! i)) \<and> entry_ok l e"
    by (auto simp: nth_append less_Suc_eq)
  then show ?thesis by (simp add: sound_log_def)
qed

lemma sound_kill: "sound w \<Longrightarrow> sound (kill t w)"
  by (cases t) (auto simp: sound_def kill_def sound_log_snoc entry_ok_def)

lemma sound_run: "sound w \<Longrightarrow> \<not> dead w t \<Longrightarrow> sound (w\<lparr>context_of := x, log := log w @ [Ran a d y t]\<rparr>)"
  by (cases t) (auto simp: sound_def dead_def sound_log_snoc entry_ok_def)

lemma sound_run_queued:
  "sound w \<Longrightarrow> \<not> dead w t \<Longrightarrow> sound (w\<lparr>context_of := x, log := log w @ [RanQueued a d y t]\<rparr>)"
  by (cases t) (auto simp: sound_def dead_def sound_log_snoc entry_ok_def)

lemma sound_frame: "dead_tokens w' = dead_tokens w \<Longrightarrow> log w' = log w \<Longrightarrow> sound w' = sound w"
  by (simp add: sound_def)

lemma sound_simple:
  "add_connection o' sig obs a l one w = Done w' \<Longrightarrow> sound w \<Longrightarrow> sound w'"
  "disconnect o' sig obs w = Done w' \<Longrightarrow> sound w \<Longrightarrow> sound w'"
  "disconnect_all o' obs w = Done w' \<Longrightarrow> sound w \<Longrightarrow> sound w'"
  "set_silent o' on w = Done w' \<Longrightarrow> sound w \<Longrightarrow> sound w'"
  "purge o' sig w = Done w' \<Longrightarrow> sound w \<Longrightarrow> sound w'"
  "free_object o' w = Done w' \<Longrightarrow> sound w \<Longrightarrow> sound w'"
  by (auto simp: add_connection_def disconnect_def disconnect_all_def set_silent_def purge_def free_object_def
      set_obj_def create_token_def Let_def sound_def split: option.splits if_splits)

lemma sound_queue: "sound w \<Longrightarrow> sound (queue_slot s o' sig d c w)"
  by (auto simp: queue_slot_def post_def sound_def split: option.splits)

lemma sound_steps:
  "exec prog fuel as w = Done w' \<Longrightarrow> sound w \<Longrightarrow> sound w'"
  "obj_trigger prog fuel o' sig data w = Done w' \<Longrightarrow> sound w \<Longrightarrow> sound w'"
  "dispatch prog fuel sender o' sig data cs hd0 w = Done (hd', w') \<Longrightarrow> sound w \<Longrightarrow> sound w'"
proof (induction prog fuel as w and prog fuel o' sig data w and prog fuel sender o' sig data cs hd0 w
    arbitrary: w' and w' and hd' w' rule: exec_obj_trigger_dispatch.induct)
  case (2 prog fuel a as w)
  obtain w1 where w1: "(case a of
      OpConnect o' sig obs act l one \<Rightarrow> add_connection o' sig obs act l one w
    | OpDisconnect o' sig obs \<Rightarrow> disconnect o' sig obs w
    | OpDisconnectAll o' obs \<Rightarrow> disconnect_all o' obs w
    | OpTrigger o' sig data \<Rightarrow> obj_trigger prog fuel o' sig data w
    | OpSilent o' on \<Rightarrow> set_silent o' on w
    | OpDelete o' \<Rightarrow>
        (case objs w o' of
           None \<Rightarrow> Undefined
         | Some ob \<Rightarrow>
             (case obj_trigger prog fuel o' OBJECT_DELETED VNone (kill (Some (s_alive ob)) w) of
                Done w1 \<Rightarrow> free_object o' w1 | r \<Rightarrow> r))) = Done w1"
    "exec prog fuel as w1 = Done w'"
    using "2.prems"(1) by (auto split: outcome.splits)
  have "sound w1"
    using w1(1) "2.prems"(2) sound_simple sound_kill "2.IH"(1,2)
    by (cases a) (auto split: option.splits outcome.splits)
  then show ?case using "2.IH"(3) w1 by blast
next
  case (4 prog fuel o' sig data w)
  then show ?case
    by (auto split: option.splits outcome.splits if_splits prod.splits intro: sound_simple)
next
  case (6 prog fuel sender o' sig data c cs has_dead w)
  show ?case
  proof (cases "dead w (c_alive c) \<or> dead w (shotToken c)")
    case True
    then show ?thesis using "6.IH"(1) "6.prems" by simp
  next
    case False
    obtain w3 where w3: "(if c_loop c \<noteq> None then Done (queue_slot sender o' sig data c w)
        else (let prev = context_of w;
                  w1 = w\<lparr>context_of := Some o', log := log w @ [Ran (action c) data (Some o') (c_alive c)]\<rparr>
              in case exec prog fuel (prog (action c)) w1 of
                Done w2 \<Rightarrow> Done (w2\<lparr>context_of := prev\<rparr>) | r \<Rightarrow> r)) = Done w3"
      "(if shotToken c \<noteq> None
        then dispatch prog fuel sender o' sig data cs True (kill (shotToken c) w3)
        else dispatch prog fuel sender o' sig data cs has_dead w3) = Done (hd', w')"
      using "6.prems"(1) False by (auto split: outcome.splits)
    have "sound w3"
    proof (cases "c_loop c = None")
      case True
      then obtain w2 where "exec prog fuel (prog (action c)) (w\<lparr>context_of := Some o',
                  log := log w @ [Ran (action c) data (Some o') (c_alive c)]\<rparr>) = Done w2"
        "w3 = w2\<lparr>context_of := context_of w\<rparr>"
        using w3(1) by (auto simp: Let_def split: outcome.splits)
      moreover have "sound w2"
        using "6.IH"(2) [OF False] True calculation(1) sound_run [OF "6.prems"(2)] False by blast
      ultimately show ?thesis by (simp add: sound_def)
    next
      case l: False
      then show ?thesis using w3(1) sound_queue [OF "6.prems"(2)] by auto
    qed
    then show ?thesis
      using w3(2) "6.IH"(3,4) [OF False] sound_kill w3(1) by (auto simp: Let_def split: if_splits)
  qed
qed simp_all


section \<open>Slots that do not call back\<close>

definition shots :: "conn list \<Rightarrow> token list" where
  "shots cs = concat (map (\<lambda>c. case shotToken c of Some t \<Rightarrow> [t] | None \<Rightarrow> []) cs)"

text \<open>Every one-shot connection has a token of its own.\<close>

definition own_shots :: "conn list \<Rightarrow> bool" where
  "own_shots cs \<longleftrightarrow> distinct (shots cs) \<and> (\<forall>c \<in> set cs. \<forall>t. c_alive c = Some t \<longrightarrow> t \<notin> set (shots cs))"

definition delivery :: "oid \<Rightarrow> var \<Rightarrow> conn \<Rightarrow> log_event list" where
  "delivery o' data c = Ran (action c) data (Some o') (c_alive c)
     # (case shotToken c of Some t \<Rightarrow> [Killed t] | None \<Rightarrow> [])"

lemma shots_Cons: "shots (c # cs) = (case shotToken c of Some t \<Rightarrow> [t] | None \<Rightarrow> []) @ shots cs"
  by (simp add: shots_def)

lemma shot_in: "c \<in> set cs \<Longrightarrow> shotToken c = Some t \<Longrightarrow> t \<in> set (shots cs)"
  by (induction cs) (auto simp: shots_Cons)

lemma isDead_other:
  assumes "dead_tokens w' = (\<lambda>k. k = t \<or> dead_tokens w k)" "c_alive c \<noteq> Some t" "shotToken c \<noteq> Some t"
  shows "isDead w' c = isDead w c"
  using assms by (auto simp: isDead_def dead_def split: option.splits)

lemma dispatch_simple:
  assumes "\<And>c. c \<in> set cs \<Longrightarrow> prog (action c) = [] \<and> c_loop c = None"
  shows "own_shots cs \<Longrightarrow> \<exists>w'. dispatch prog f sender o' sig data cs b w
      = Done (b \<or> (\<exists>c \<in> set cs. isDead w c \<or> shotToken c \<noteq> None), w')
    \<and> objs w' = objs w \<and> loops w' = loops w \<and> context_of w' = context_of w
    \<and> log w' = log w @ concat (map (delivery o' data) (filter (\<lambda>c. \<not> isDead w c) cs))
    \<and> (\<forall>c \<in> set cs. isDead w' c = (isDead w c \<or> shotToken c \<noteq> None))
    \<and> (\<forall>t. t \<notin> set (shots cs) \<longrightarrow> dead_tokens w' t = dead_tokens w t)"
  using assms
proof (induction cs arbitrary: b w)
  case (Cons c cs)
  have os: "own_shots cs" using Cons.prems(1) by (auto simp: own_shots_def shots_Cons)
  have sc: "c_alive d \<noteq> Some t \<and> shotToken d \<noteq> Some t" if "shotToken c = Some t" "d \<in> set cs" for d t
    using Cons.prems(1) that shot_in [of d cs t] by (auto simp: own_shots_def shots_Cons)
  have al: "c_alive c \<noteq> Some t" if "t \<in> set (shots cs)" for t
    using Cons.prems(1) that by (auto simp: own_shots_def shots_Cons)
  have pc: "prog (action c) = []" "c_loop c = None" using Cons.prems(2) by simp_all
  note ih = Cons.IH [OF os] 
  show ?case
  proof (cases "isDead w c")
    case True
    obtain w' where w': "dispatch prog f sender o' sig data cs True w = Done (True, w')"
      "objs w' = objs w" "loops w' = loops w" "context_of w' = context_of w"
      "log w' = log w @ concat (map (delivery o' data) (filter (\<lambda>c. \<not> isDead w c) cs))"
      "\<forall>c \<in> set cs. isDead w' c = (isDead w c \<or> shotToken c \<noteq> None)"
      "\<forall>t. t \<notin> set (shots cs) \<longrightarrow> dead_tokens w' t = dead_tokens w t"
      using ih [of True w] Cons.prems(2) by auto
    have "isDead w' c"
    proof -
      have "shotToken c = Some t \<Longrightarrow> t \<notin> set (shots cs)" for t
        using Cons.prems(1) by (auto simp: own_shots_def shots_Cons)
      moreover have "c_alive c = Some t \<Longrightarrow> t \<notin> set (shots cs)" for t using al by blast
      ultimately show ?thesis using True w'(7) by (auto simp: isDead_def dead_def split: option.splits)
    qed
    then show ?thesis using True w' by (auto simp: isDead_def shots_Cons)
  next
    case False
    define w2 where "w2 = kill (shotToken c) (w\<lparr>log := log w @ [Ran (action c) data (Some o') (c_alive c)]\<rparr>)"
    have d: "dispatch prog f sender o' sig data (c # cs) b w
        = dispatch prog f sender o' sig data cs (b \<or> shotToken c \<noteq> None) w2"
      using False pc by (cases "shotToken c") (simp_all add: isDead_def w2_def kill_def Let_def)
    obtain w' where w': "dispatch prog f sender o' sig data cs (b \<or> shotToken c \<noteq> None) w2
        = Done ((b \<or> shotToken c \<noteq> None) \<or> (\<exists>c \<in> set cs. isDead w2 c \<or> shotToken c \<noteq> None), w')"
      "objs w' = objs w2" "loops w' = loops w2" "context_of w' = context_of w2"
      "log w' = log w2 @ concat (map (delivery o' data) (filter (\<lambda>c. \<not> isDead w2 c) cs))"
      "\<forall>c \<in> set cs. isDead w' c = (isDead w2 c \<or> shotToken c \<noteq> None)"
      "\<forall>t. t \<notin> set (shots cs) \<longrightarrow> dead_tokens w' t = dead_tokens w2 t"
      using ih [of "b \<or> shotToken c \<noteq> None" w2] Cons.prems(2) by auto
    have same: "isDead w2 e = isDead w e" if "e \<in> set cs" for e
      using sc that isDead_other [of w2 _ w e]
      by (cases "shotToken c") (auto simp: w2_def kill_def isDead_def dead_def split: option.splits)
    have f: "filter (\<lambda>c. \<not> isDead w2 c) cs = filter (\<lambda>c. \<not> isDead w c) cs"
      using same by (intro filter_cong) auto
    have dc: "isDead w' c = (shotToken c \<noteq> None)"
    proof (cases "shotToken c")
      case None
      have "c_alive c = Some t \<Longrightarrow> dead_tokens w' t = dead_tokens w t" for t
        using w'(7) al [of t] None by (auto simp: w2_def kill_def)
      then show ?thesis using False None by (auto simp: isDead_def dead_def split: option.splits)
    next
      case (Some t)
      have "t \<notin> set (shots cs)" using Cons.prems(1) Some by (auto simp: own_shots_def shots_Cons)
      then have "dead_tokens w' t" using w'(7) Some by (simp add: w2_def kill_def)
      then show ?thesis using Some by (simp add: isDead_def dead_def)
    qed
    have dt: "dead_tokens w' t = dead_tokens w t" if "t \<notin> set (shots (c # cs))" for t
      using w'(7) that by (cases "shotToken c") (auto simp: w2_def kill_def shots_Cons)
    have "log w' = log w @ concat (map (delivery o' data) (filter (\<lambda>c. \<not> isDead w c) (c # cs)))"
      using w'(5) False f by (cases "shotToken c") (simp_all add: w2_def kill_def delivery_def)
    moreover have "objs w' = objs w" "loops w' = loops w" "context_of w' = context_of w"
      using w'(2-4) by (cases "shotToken c"; simp add: w2_def kill_def)+
    moreover have "((b \<or> shotToken c \<noteq> None) \<or> (\<exists>c \<in> set cs. isDead w2 c \<or> shotToken c \<noteq> None))
        = (b \<or> (\<exists>d \<in> set (c # cs). isDead w d \<or> shotToken d \<noteq> None))"
      using same False by auto
    ultimately show ?thesis
      unfolding d w'(1) using w'(6) dc dt same False by (intro exI [of _ w'] conjI) auto
  qed
qed (simp add: shots_def)

text \<open>C22: A trigger on an object that is not silent runs each connected slot whose observer is alive
  exactly once, in the order of connection, with the data of the trigger, and afterwards the signal
  has exactly the connections that are persistent and whose observer is alive, in their order. Slots
  here run directly and make no calls of their own.\<close>

theorem trigger_delivers:
  assumes "objs w o' = Some ob" and "sig = OBJECT_DELETED \<or> \<not> s_silent ob"
    and "cs = connections ob sig" and "own_shots cs"
    and "\<forall>c \<in> set cs. prog (action c) = [] \<and> c_loop c = None"
  shows "\<exists>w' ob'. obj_trigger prog (Suc f) o' sig data w = Done w'
    \<and> log w' = log w @ concat (map (delivery o' data) (filter (\<lambda>c. \<not> isDead w c) cs))
    \<and> objs w' = (objs w)(o' \<mapsto> ob')
    \<and> connections ob' = (connections ob)(sig := filter (\<lambda>c. \<not> isDead w c \<and> shotToken c = None) cs)"
proof -
  obtain w' where w': "dispatch prog f (s_alive ob) o' sig data cs False w
      = Done (\<exists>c \<in> set cs. isDead w c \<or> shotToken c \<noteq> None, w')"
    "objs w' = objs w" "log w' = log w @ concat (map (delivery o' data) (filter (\<lambda>c. \<not> isDead w c) cs))"
    "\<forall>c \<in> set cs. isDead w' c = (isDead w c \<or> shotToken c \<noteq> None)"
    using dispatch_simple [OF _ assms(4), of prog f "s_alive ob" o' sig data False w] assms(5) by auto
  have ns: "\<not> (sig \<noteq> OBJECT_DELETED \<and> s_silent ob)" using assms(2) by auto
  show ?thesis
  proof (cases "\<exists>c \<in> set cs. isDead w c \<or> shotToken c \<noteq> None")
    case True
    have "filter (\<lambda>c. \<not> isDead w' c) cs = filter (\<lambda>c. \<not> isDead w c \<and> shotToken c = None) cs"
      using w'(4) by (intro filter_cong) auto
    then show ?thesis using True w' assms(1,3) ns by (auto simp: purge_def set_obj_def)
  next
    case False
    then have "filter (\<lambda>c. \<not> isDead w c \<and> shotToken c = None) cs = cs" by (intro filter_True) auto
    then show ?thesis using False w' assms(1,3) ns
      by (intro exI [of _ w'] exI [of _ ob]) (auto simp: fun_upd_idem)
  qed
qed

section \<open>Witness worlds and what goes wrong\<close>

definition world0 :: world where
  "world0 = \<lparr>objs = Map.empty, dead_tokens = (\<lambda>_. False), next_token = 0,
     loops = [0 \<mapsto> \<lparr>l_alive = 100, l_running = True, l_queue = []\<rparr>], context_of = None, log = []\<rparr>"

text \<open>Two objects: 5 the sender and 6 the observer.\<close>

definition world1 :: world where
  "world1 = new_object 6 ''observer'' (new_object 5 ''sender'' world0)"

definition subscribe :: "nat \<Rightarrow> signal \<Rightarrow> lid option \<Rightarrow> bool \<Rightarrow> op" where
  "subscribe a sig l one = OpConnect 5 sig (Some 6) a l one"

fun outcome_holds :: "('a \<Rightarrow> bool) \<Rightarrow> 'a outcome \<Rightarrow> bool" where
  "outcome_holds P (Done x) = P x" | "outcome_holds P Stuck = False" | "outcome_holds P Undefined = False"

lemma outcome_holdsE: "outcome_holds P r \<Longrightarrow> \<exists>x. r = Done x \<and> P x"
  by (cases r) auto

definition slot_program :: "nat \<Rightarrow> op list" where
  "slot_program a = (if a = 0 then [OpDelete 6] else if a = 2 then [OpDelete 5] else [])"

definition demo_run :: world where
  "demo_run = (case exec slot_program 3
      [subscribe 0 7 None False, subscribe 1 7 None False, OpTrigger 5 7 VNone] world1 of Done w \<Rightarrow> w | _ \<Rightarrow> world0)"


definition spare_conn :: conn where
  "spare_conn = \<lparr>observer = None, action = 8, c_loop = None, c_alive = None, shotToken = Some 3\<rparr>"

definition spare :: sobj where
  "spare = \<lparr>s_name = [], s_alive = 0, s_silent = False, connections = (\<lambda>_. [])(7 := [spare_conn])\<rparr>"

theorem trigger_delivers_witness:
  "\<exists>w'. obj_trigger (\<lambda>_. []) 1 5 7 (VInt 4) (set_obj 5 spare world0) = Done w'
      \<and> log w' = [Ran 8 (VInt 4) (Some 5) None, Killed 3]"
proof -
  have l: "log (set_obj 5 spare world0) @ concat (map (delivery 5 (VInt 4))
      (filter (\<lambda>c. \<not> isDead (set_obj 5 spare world0) c) [spare_conn])) = [Ran 8 (VInt 4) (Some 5) None, Killed 3]"
    by (simp add: set_obj_def world0_def spare_conn_def delivery_def isDead_def dead_def)
  show ?thesis
    using trigger_delivers [of "set_obj 5 spare world0" 5 spare 7 "[spare_conn]" "\<lambda>_. []" 0 "VInt 4", unfolded l]
    by (auto simp: set_obj_def spare_def own_shots_def shots_def spare_conn_def)
qed

text \<open>A slot queued on a loop still runs after its observer was deleted: only the sender's token
  guards the posted task.\<close>

theorem queued_slot_outlives_observer:
  "outcome_holds (\<lambda>w1. Option.is_none (objs w1 6) \<and> Killed 1 \<in> set (log w1)
      \<and> outcome_holds (\<lambda>w2. log w2 = log w1 @ [RanQueued 1 VNone (Some 5) (Some 0)]) (run_task slot_program 3 0 w1))
    (exec slot_program 3 [subscribe 1 7 (Some 0) False, OpTrigger 5 7 VNone, OpDelete 6] world1)"
  by code_simp

lemma once_again:
  assumes "objs w 5 = Some ob" "connections ob 7 = [c]" "\<not> s_silent ob" "\<not> isDead w c" "c_loop c = None" "action c = 0"
  shows "obj_trigger (\<lambda>_. [OpTrigger 5 7 VNone]) fuel 5 7 VNone w = Stuck"
  using assms
proof (induction fuel arbitrary: w)
  case (Suc fuel)
  have "obj_trigger (\<lambda>_. [OpTrigger 5 7 VNone]) fuel 5 7 VNone
      (w\<lparr>context_of := Some 5, log := log w @ [Ran 0 VNone (Some 5) (c_alive c)]\<rparr>) = Stuck"
    using Suc.prems by (intro Suc.IH) (auto simp: isDead_def dead_def split: option.splits)
  then show ?case using Suc.prems by (simp add: Let_def isDead_def)
qed simp

text \<open>A one-shot slot whose action triggers its own signal again is called again before its
  connection is spent, so the trigger never returns, whatever the depth allowed.\<close>

theorem once_reentrant_diverges:
  "outcome_holds (\<lambda>w1. \<forall>fuel. obj_trigger (\<lambda>_. [OpTrigger 5 7 VNone]) fuel 5 7 VNone w1 = Stuck)
     (exec (\<lambda>_. [OpTrigger 5 7 VNone]) 0 [subscribe 0 7 None True] world1)"
proof -
  define c where "c = \<lparr>observer = Some 6, action = 0, c_loop = None, c_alive = Some (Suc 0), shotToken = Some (Suc (Suc 0))\<rparr>"
  define ob where "ob = \<lparr>s_name = ''sender'', s_alive = 0, s_silent = False, connections = (\<lambda>_. [])(7 := [c])\<rparr>"
  define w1 where "w1 = set_obj 5 ob (world1\<lparr>next_token := 3\<rparr>)"
  have "exec (\<lambda>_. [OpTrigger 5 7 VNone]) 0 [subscribe 0 7 None True] world1 = Done w1"
    by (simp add: w1_def ob_def c_def world1_def world0_def new_object_def create_token_def set_obj_def subscribe_def
        add_connection_def Let_def)
  moreover have "obj_trigger (\<lambda>_. [OpTrigger 5 7 VNone]) fuel 5 7 VNone w1 = Stuck" for fuel
    by (rule once_again [of _ ob c])
      (simp_all add: w1_def ob_def c_def isDead_def dead_def world1_def world0_def new_object_def create_token_def set_obj_def)
  ultimately show ?thesis by simp
qed

definition is_undefined :: "'a outcome \<Rightarrow> bool" where
  "is_undefined r = (case r of Undefined \<Rightarrow> True | _ \<Rightarrow> False)"

text \<open>When a one-shot slot deletes the sender, the trigger goes on to use the sender's lock and
  connections after the deletion; with a persistent connection it does not.\<close>

theorem once_deleting_sender_undefined:
  "is_undefined (exec slot_program 3 [subscribe 2 7 None True, OpTrigger 5 7 VNone] world1)
   \<and> outcome_holds (\<lambda>_. True) (exec slot_program 3 [subscribe 2 7 None False, OpTrigger 5 7 VNone] world1)"
  by code_simp

section \<open>Disconnecting and managers\<close>

text \<open>Disconnecting an observer from a signal removes all of its connections to that signal and no
  other, keeping the order; disconnecting it altogether does so for every signal.\<close>

theorem disconnect_removes:
  assumes "objs w o' = Some ob"
  shows "(\<exists>ob'. disconnect o' sig obs w = Done (w\<lparr>objs := (objs w)(o' \<mapsto> ob')\<rparr>)
      \<and> \<not> hasConnectionOf ob' sig obs
      \<and> (\<forall>x. x \<noteq> obs \<longrightarrow> hasConnectionOf ob' sig x = hasConnectionOf ob sig x
            \<and> filter (\<lambda>c. observer c = x) (connections ob' sig) = filter (\<lambda>c. observer c = x) (connections ob sig))
      \<and> (\<forall>s. s \<noteq> sig \<longrightarrow> connections ob' s = connections ob s))
    \<and> (\<exists>ob'. disconnect_all o' obs w = Done (w\<lparr>objs := (objs w)(o' \<mapsto> ob')\<rparr>)
      \<and> (\<forall>s. \<not> hasConnectionOf ob' s obs
           \<and> (\<forall>x. x \<noteq> obs \<longrightarrow>
                filter (\<lambda>c. observer c = x) (connections ob' s) = filter (\<lambda>c. observer c = x) (connections ob s))))"
proof -
  have f: "filter (\<lambda>c. observer c = x) (removeObserver obs cs) = filter (\<lambda>c. observer c = x) cs" if "x \<noteq> obs" for x cs
    using that by (auto simp: removeObserver_def intro: filter_cong)
  have n: "\<not> list_ex (\<lambda>c. observer c = obs) (removeObserver obs cs)" for cs
    by (simp add: removeObserver_def list_ex_iff)
  have m: "list_ex (\<lambda>c. observer c = x) (removeObserver obs cs) = list_ex (\<lambda>c. observer c = x) cs" if "x \<noteq> obs" for x cs
    using that by (auto simp: removeObserver_def list_ex_iff)
  show ?thesis using assms f n m by (auto simp: disconnect_def disconnect_all_def set_obj_def hasConnectionOf_def)
qed

theorem disconnect_removes_witness:
  "\<exists>ob'. disconnect 5 7 None (set_obj 5 spare world0) = Done (set_obj 5 ob' world0) \<and> \<not> hasConnectionOf ob' 7 None"
  using disconnect_removes [of "set_obj 5 spare world0" 5 spare 7 None] by (auto simp: set_obj_def)

text \<open>A manager refuses an object whose name is taken and otherwise finds it under its name;
  removing by object erases whatever is registered under the object's name, even a different object,
  and only when the name is free the entry that holds the object.\<close>

theorem manager_add_remove:
  assumes "objs w o' = Some ob" "distinct (map fst m)"
  shows "(map_of m (s_name ob) \<noteq> None \<longrightarrow> manager_add prog fuel (Some o') False m w = Done (None, m, w))
    \<and> (map_of m (s_name ob) = None \<longrightarrow> (\<exists>m'. manager_add prog fuel (Some o') False m w = Done (Some o', m', w)
         \<and> m' = m @ [(s_name ob, o')] \<and> manager_get m' (s_name ob) = Some o'
         \<and> manager_remove prog fuel (Some o') False m' w = Done (True, m, w)))
    \<and> (map_of m (s_name ob) = Some x \<longrightarrow>
         manager_remove prog fuel (Some o') False m w = Done (True, filter (\<lambda>kv. fst kv \<noteq> s_name ob) m, w))"
proof -
  have d: "AList.delete k m = filter (\<lambda>kv. fst kv \<noteq> k) m" for k and m :: manager
    by (simp add: AList.delete_eq case_prod_unfold eq_commute [of k])
  have u: "map_of m k = None \<Longrightarrow> AList.update k v m = m @ [(k, v)]" for k v and m :: manager
    by (induction m) (auto split: if_splits)
  have m0: "map_of m k = None \<Longrightarrow> filter (\<lambda>kv. fst kv \<noteq> k) m = m" for k
    by (auto simp: map_of_eq_None_iff filter_id_conv)
  have g: "map_of m k = None \<Longrightarrow> map_of (m @ [(k, v)]) k = Some v" for k and v :: oid
    by (simp add: map_add_def)
  show ?thesis using assms m0 g
    by (auto simp: manager_add_def manager_remove_def manager_get_def obj_name_def delete_if_def u d)
qed

theorem manager_add_remove_witness:
  "manager_remove (\<lambda>_. []) 1 (Some 5) False [(''x'', 9), (''sender'', 6)] world1 = Done (True, [(''x'', 9)], world1)"
  using manager_add_remove [of world1 5 "\<lparr>s_name = ''sender'', s_alive = 0, s_silent = False, connections = (\<lambda>_. [])\<rparr>"
      "[(''x'', 9), (''sender'', 6)]" "\<lambda>_. []" 1 6]
  by (simp add: world1_def world0_def new_object_def create_token_def set_obj_def)

end
