(* ===== verification/Pipeline.thy ===== *)
theory Pipeline
  imports Var_Tree Object_Signals
begin

text \<open>
  Pipelines of steps (\<open>ve/include/ve/core/pipeline.h\<close>, \<open>ve/src/core/pipeline.cpp\<close>) and the commands that
  build and drive them (\<open>command.h\<close>, \<open>command.cpp\<close>). A step is a callable and the loop it runs on, if
  any. Callables, slots and result handlers are functions of the user on the node forest; besides
  changing it they may call the pipeline again, as a list of operations. The record \<open>penv\<close> gives them,
  with the results inside custom payloads and the loops that still take tasks. Posted steps wait in
  the list of tasks, from which each loop takes its own in order. Nested calls take fuel: \<open>Stuck\<close> is
  its end. \<open>Undefined\<close> is the use of a destroyed pipeline, or a result too deep to export.
\<close>

section \<open>State\<close>

datatype pstate = IDLE | RUNNING | PAUSED | DONE | ERRORED

type_synonym presult = "int \<times> var"

definition isSuccess :: "presult \<Rightarrow> bool" where "isSuccess r \<longleftrightarrow> fst r = 0"
definition isError :: "presult \<Rightarrow> bool" where "isError r \<longleftrightarrow> fst r < 0"
definition isAccepted :: "presult \<Rightarrow> bool" where "isAccepted r \<longleftrightarrow> 0 < fst r"

definition result_ok :: "var \<Rightarrow> presult" where "result_ok v = (0, v)"
definition result_fail :: "var \<Rightarrow> presult" where "result_fail v = (-1, v)"
definition result_accept :: presult where "result_accept = (1, VNone)"

definition CMD_DONE :: signal where "CMD_DONE = 0xFFFF0030"
definition CMD_ERROR :: signal where "CMD_ERROR = 0xFFFF0031"

record pstep =
  ps_fn :: var
  ps_loop :: "lid option"

text \<open>A handler of the user, or the one a waiting caller sets.\<close>

datatype handler = HUser nat | HWait

record pipe =
  p_alive :: bool
  p_steps :: "pstep list"
  p_queue :: "pstep list"
  p_state :: pstate
  p_index :: int
  p_ctx :: nid
  p_owns :: bool
  p_last :: presult
  p_handler :: "handler option"
  p_finished :: bool
  p_tasks :: "(lid \<times> pstep) list"
  p_reports :: "(signal \<times> presult) list"
  p_called :: "(handler \<times> presult) list"
  p_forest :: forest

datatype pop =
  PStart
| PPause
| PResume
| PStop
| PFinish presult
| PAdd pstep
| PHandler "handler option"

record penv =
  run_step :: "nat \<Rightarrow> var \<Rightarrow> forest \<Rightarrow> pop list \<times> forest \<times> var"
  on_signal :: "signal \<Rightarrow> presult \<Rightarrow> forest \<Rightarrow> pop list \<times> forest"
  on_result :: "nat \<Rightarrow> presult \<Rightarrow> forest \<Rightarrow> pop list \<times> forest"
  as_result :: "nat \<Rightarrow> presult option"
  loop_open :: "lid \<Rightarrow> bool"

definition new_pipe :: "nid option \<Rightarrow> forest \<Rightarrow> pipe" where
  "new_pipe ctx st =
     (let (c, st1) = (case ctx of Some c \<Rightarrow> (c, st) | None \<Rightarrow> new_node ''_ctx'' st)
      in \<lparr>p_alive = True, p_steps = [], p_queue = [], p_state = IDLE, p_index = -1, p_ctx = c,
          p_owns = (ctx = None), p_last = result_ok VNone, p_handler = None, p_finished = False, p_tasks = [],
          p_reports = [], p_called = [], p_forest = st1\<rparr>)"

definition pl_add :: "pstep \<Rightarrow> pipe \<Rightarrow> pipe" where
  "pl_add s w = w\<lparr>p_steps := p_steps w @ [s]\<rparr>"

definition resultFromStepReturn :: "penv \<Rightarrow> var \<Rightarrow> presult" where
  "resultFromStepReturn env v =
     (case v of
        VCustom c \<Rightarrow> (case as_result env c of Some r \<Rightarrow> r | None \<Rightarrow> result_ok v)
      | _ \<Rightarrow> result_ok v)"

section \<open>The state machine\<close>

definition pl_pause :: "pipe \<Rightarrow> pipe" where
  "pl_pause w = (if p_state w = RUNNING then w\<lparr>p_state := PAUSED\<rparr> else w)"

definition pl_stop :: "pipe \<Rightarrow> pipe" where
  "pl_stop w = (if p_state w = IDLE then w else w\<lparr>p_queue := [], p_state := IDLE, p_index := -1\<rparr>)"

text \<open>The content of a finished pipeline: the child \<open>_result\<close> of the context, when there is one.\<close>

definition with_content :: "forest \<Rightarrow> nid \<Rightarrow> presult \<Rightarrow> presult option" where
  "with_content st ctx r =
     (case find_path st ctx ''_result'' False VE_NODE_PATH_SEP VE_NODE_KEY_SEP of
        None \<Rightarrow> None
      | Some None \<Rightarrow> Some r
      | Some (Some rn) \<Rightarrow> map_option (Pair (fst r)) (exportNode False (Some rn) st))"

definition no_callable :: presult where
  "no_callable = result_fail (VString ''step has no callable'')"

definition ctx_arg :: "pipe \<Rightarrow> var" where
  "ctx_arg w = VPointer (of_nat (p_ctx w))"

function (sequential) pl_exec :: "penv \<Rightarrow> nat \<Rightarrow> pop list \<Rightarrow> pipe \<Rightarrow> pipe outcome"
  and pl_start :: "penv \<Rightarrow> nat \<Rightarrow> pipe \<Rightarrow> (presult \<times> pipe) outcome"
  and pl_resume :: "penv \<Rightarrow> nat \<Rightarrow> pipe \<Rightarrow> pipe outcome"
  and run_next :: "penv \<Rightarrow> nat \<Rightarrow> pipe \<Rightarrow> pipe outcome"
  and handle_result :: "penv \<Rightarrow> nat \<Rightarrow> presult \<Rightarrow> pipe \<Rightarrow> pipe outcome"
  and complete :: "penv \<Rightarrow> nat \<Rightarrow> pstate \<Rightarrow> signal \<Rightarrow> presult \<Rightarrow> pipe \<Rightarrow> pipe outcome" where
  "pl_exec env 0 ops w = Stuck"
| "pl_exec env (Suc f) [] w = Done w"
| "pl_exec env (Suc f) (op # ops) w =
     (case (case op of
              PStart \<Rightarrow> (case pl_start env f w of Done (_, w1) \<Rightarrow> Done w1 | Stuck \<Rightarrow> Stuck | Undefined \<Rightarrow> Undefined)
            | PPause \<Rightarrow> Done (pl_pause w)
            | PResume \<Rightarrow> pl_resume env f w
            | PStop \<Rightarrow> Done (pl_stop w)
            | PFinish r \<Rightarrow> handle_result env f r w
            | PAdd s \<Rightarrow> Done (pl_add s w)
            | PHandler h \<Rightarrow> Done (w\<lparr>p_handler := h\<rparr>))
      of Done w1 \<Rightarrow> pl_exec env f ops w1 | r \<Rightarrow> r)"
| "pl_start env 0 w = Stuck"
| "pl_start env (Suc f) w =
     (let w1 = w\<lparr>p_state := RUNNING, p_index := 0, p_last := result_ok VNone, p_queue := p_steps w\<rparr>
      in if p_queue w1 = []
         then (case complete env f DONE CMD_DONE (result_ok VNone) w1 of
                 Done w2 \<Rightarrow> Done (p_last w2, w2) | Stuck \<Rightarrow> Stuck | Undefined \<Rightarrow> Undefined)
         else (case run_next env f w1 of
                 Done w2 \<Rightarrow>
                   Done (if p_state w2 = ERRORED then p_last w2
                         else if p_state w2 = RUNNING \<or> p_state w2 = PAUSED then result_accept
                         else p_last w2, w2)
               | Stuck \<Rightarrow> Stuck | Undefined \<Rightarrow> Undefined))"
| "pl_resume env 0 w = Stuck"
| "pl_resume env (Suc f) w =
     (if p_state w \<noteq> PAUSED then Done w else run_next env f (w\<lparr>p_state := RUNNING\<rparr>))"
| "run_next env 0 w = Stuck"
| "run_next env (Suc f) w =
     (if p_state w \<noteq> RUNNING then Done w
      else
        (case p_queue w of
           [] \<Rightarrow> complete env f DONE CMD_DONE (p_last w) w
         | step # rest \<Rightarrow>
             (let w1 = w\<lparr>p_queue := rest\<rparr>
              in case ps_loop step of
                   Some l \<Rightarrow> Done (if loop_open env l then w1\<lparr>p_tasks := p_tasks w1 @ [(l, step)]\<rparr> else w1)
                 | None \<Rightarrow>
                     (case ps_fn step of
                        VCallable k \<Rightarrow>
                          (case run_step env k (ctx_arg w1) (p_forest w1) of
                             (ops, st, ret) \<Rightarrow>
                               (case pl_exec env f ops (w1\<lparr>p_forest := st\<rparr>) of
                                  Done w2 \<Rightarrow>
                                    (let r = resultFromStepReturn env ret
                                     in if isAccepted r then Done w2
                                        else if isError r then complete env f ERRORED CMD_ERROR r w2
                                        else run_next env f (w2\<lparr>p_last := r, p_index := p_index w2 + 1\<rparr>))
                                | r \<Rightarrow> r))
                      | _ \<Rightarrow> complete env f ERRORED CMD_ERROR no_callable w1))))"
| "handle_result env 0 r w = Stuck"
| "handle_result env (Suc f) r w =
     (if p_state w \<noteq> RUNNING \<and> p_state w \<noteq> PAUSED then Done w
      else if isError r then complete env f ERRORED CMD_ERROR r w
      else
        (let w1 = w\<lparr>p_last := r, p_index := p_index w + 1\<rparr>
         in if p_queue w1 = [] then complete env f DONE CMD_DONE r w1
            else if p_state w1 = PAUSED then Done w1
            else run_next env f w1))"
| "complete env 0 final sig r w = Stuck"
| "complete env (Suc f) final sig r w =
     (case (if final = DONE \<and> sig = CMD_DONE then with_content (p_forest w) (p_ctx w) r else Some r) of
        None \<Rightarrow> Undefined
      | Some out \<Rightarrow>
          (let w1 = w\<lparr>p_state := final, p_last := out, p_queue := [], p_reports := p_reports w @ [(sig, out)]\<rparr>
           in case on_signal env sig out (p_forest w1) of
                (ops, st) \<Rightarrow>
                  (case pl_exec env f ops (w1\<lparr>p_forest := st\<rparr>) of
                     Done w2 \<Rightarrow>
                       (case p_handler w2 of
                          None \<Rightarrow> Done w2
                        | Some h \<Rightarrow>
                            (let w3 = w2\<lparr>p_handler := None, p_called := p_called w2 @ [(h, p_last w2)]\<rparr>
                             in case h of
                                  HWait \<Rightarrow> Done (w3\<lparr>p_finished := True\<rparr>)
                                | HUser k \<Rightarrow>
                                    (case on_result env k (p_last w2) (p_forest w3) of
                                       (ops', st') \<Rightarrow> pl_exec env f ops' (w3\<lparr>p_forest := st'\<rparr>))))
                   | r \<Rightarrow> r)))"
  by pat_completeness auto

termination
  by (relation "measure (\<lambda>x. case x of
        Inl (Inl (_, f, _)) \<Rightarrow> f
      | Inl (Inr (Inl (_, f, _))) \<Rightarrow> f
      | Inl (Inr (Inr (_, f, _))) \<Rightarrow> f
      | Inr (Inl (_, f, _)) \<Rightarrow> f
      | Inr (Inr (Inl (_, f, _))) \<Rightarrow> f
      | Inr (Inr (Inr (_, f, _))) \<Rightarrow> f)") simp_all

definition pl_finish :: "penv \<Rightarrow> nat \<Rightarrow> presult \<Rightarrow> pipe \<Rightarrow> pipe outcome" where
  "pl_finish env f r w = handle_result env f r w"

text \<open>A loop runs its next task. The token a posted step carries belongs to the task alone, so it
  is never dead.\<close>

definition run_posted :: "penv \<Rightarrow> nat \<Rightarrow> lid \<Rightarrow> pipe \<Rightarrow> pipe outcome" where
  "run_posted env f l w =
     (case filter (\<lambda>t. fst t = l) (p_tasks w) of
        [] \<Rightarrow> Done w
      | (_, step) # _ \<Rightarrow>
          (let w1 = w\<lparr>p_tasks := remove1 (l, step) (p_tasks w)\<rparr>
           in if \<not> p_alive w1 then Undefined
              else
                (case ps_fn step of
                   VCallable k \<Rightarrow>
                     (case run_step env k (ctx_arg w1) (p_forest w1) of
                        (ops, st, ret) \<Rightarrow>
                          (case pl_exec env f ops (w1\<lparr>p_forest := st\<rparr>) of
                             Done w2 \<Rightarrow> handle_result env f (resultFromStepReturn env ret) w2
                           | r \<Rightarrow> r))
                 | _ \<Rightarrow> handle_result env f no_callable w1)))"

text \<open>Destruction takes the context with it when the pipeline made it.\<close>

definition pl_delete :: "pipe \<Rightarrow> pipe outcome" where
  "pl_delete w =
     (if p_owns w
      then (case delete_node (next_id (p_forest w) + 1) (p_ctx w) (p_forest w) of
              None \<Rightarrow> Undefined | Some st \<Rightarrow> Done (w\<lparr>p_alive := False, p_forest := st\<rparr>))
      else Done (w\<lparr>p_alive := False\<rparr>))"

definition pl_clone :: "pipe \<Rightarrow> pipe" where
  "pl_clone w = (new_pipe None (p_forest w))\<lparr>p_steps := p_steps w\<rparr>"

section \<open>Commands\<close>

text \<open>The step of a node: its callable and the loop in its child \<open>loop\<close>, or the default.
  \<open>cust_loop\<close> is the loop a custom payload refers to.\<close>

definition node_step :: "(nat \<Rightarrow> lid option) \<Rightarrow> lid option \<Rightarrow> forest \<Rightarrow> nid \<Rightarrow> pstep list option" where
  "node_step cust_loop dflt st sn =
     (if type_of (node_value st sn) \<noteq> T_CALLABLE then Some []
      else
        (case find_path st sn ''loop'' False VE_NODE_PATH_SEP VE_NODE_KEY_SEP of
           None \<Rightarrow> None
         | Some ln \<Rightarrow>
             (let lr = (case ln of
                          None \<Rightarrow> None
                        | Some m \<Rightarrow> (case node_value st m of VCustom c \<Rightarrow> cust_loop c | _ \<Rightarrow> None))
              in Some [\<lparr>ps_fn = node_value st sn, ps_loop = (case lr of None \<Rightarrow> dflt | Some l \<Rightarrow> Some l)\<rparr>])))"

definition addToPipeline :: "(nat \<Rightarrow> lid option) \<Rightarrow> nid option \<Rightarrow> pipe \<Rightarrow> pipe option" where
  "addToPipeline cust_loop nd w =
     (case nd of
        None \<Rightarrow> Some w
      | Some n \<Rightarrow> map_option (\<lambda>ss. fold pl_add ss w) (node_step cust_loop None (p_forest w) n))"

definition build_steps :: "(nat \<Rightarrow> lid option) \<Rightarrow> lid \<Rightarrow> forest \<Rightarrow> nid \<Rightarrow> pstep list option" where
  "build_steps cust_loop main_loop st n =
     (if type_of (node_value st n) = T_CALLABLE then node_step cust_loop (Some main_loop) st n
      else
        (case find_path st n ''steps'' False VE_NODE_PATH_SEP VE_NODE_KEY_SEP of
           None \<Rightarrow> None
         | Some None \<Rightarrow> Some []
         | Some (Some sd) \<Rightarrow>
             map_option concat (those (map (node_step cust_loop (Some main_loop) st) (kids st sd)))))"

text \<open>\<open>Command::build\<close>: the pipeline, or nothing and the forest where there are no steps.\<close>

definition build :: "(nat \<Rightarrow> lid option) \<Rightarrow> lid \<Rightarrow> nid \<Rightarrow> nid option \<Rightarrow> forest \<Rightarrow> (forest + pipe) outcome" where
  "build cust_loop main_loop n ctx st =
     (let w = new_pipe ctx st
      in case (if ctx = None
               then (case find_path (p_forest w) n ''declare'' False VE_NODE_PATH_SEP VE_NODE_KEY_SEP of
                       None \<Rightarrow> None
                     | Some None \<Rightarrow> Some (p_forest w)
                     | Some (Some decl) \<Rightarrow> Some (setShadow (p_ctx w) (Some decl) (p_forest w)))
               else Some (p_forest w))
         of None \<Rightarrow> Undefined
          | Some st1 \<Rightarrow>
              (case build_steps cust_loop main_loop st1 n of
                 None \<Rightarrow> Undefined
               | Some ss \<Rightarrow>
                   (let w1 = fold pl_add ss (w\<lparr>p_forest := st1\<rparr>)
                    in if p_steps w1 = []
                       then (case pl_delete w1 of
                               Done w2 \<Rightarrow> Done (Inl (p_forest w2)) | Stuck \<Rightarrow> Stuck | Undefined \<Rightarrow> Undefined)
                       else Done (Inr w1))))"

text \<open>The waiting caller: other threads run the loops, in the order of the schedule, until the
  handler has run or a look at the state finds it final. With the schedule used up it waits forever.\<close>

fun wait_for :: "penv \<Rightarrow> nat \<Rightarrow> lid list \<Rightarrow> pipe \<Rightarrow> pipe outcome" where
  "wait_for env f sched w =
     (if p_finished w \<or> p_state w = DONE \<or> p_state w = ERRORED \<or> p_state w = IDLE then Done w
      else
        (case sched of
           [] \<Rightarrow> Stuck
         | l # ls \<Rightarrow> (case run_posted env f l w of Done w1 \<Rightarrow> wait_for env f ls w1 | r \<Rightarrow> r)))"

definition needs_detached :: presult where
  "needs_detached = result_fail (VString
     ''Command::call(..., wait=false) requires non-null Pipeline** when command is asynchronous'')"

text \<open>The result, and the pipeline when the caller takes it over; otherwise it is destroyed.\<close>

definition drivePipeline :: "penv \<Rightarrow> nat \<Rightarrow> lid list \<Rightarrow> bool \<Rightarrow> bool \<Rightarrow> pipe \<Rightarrow> (presult \<times> bool \<times> pipe) outcome" where
  "drivePipeline env f sched wait detachedOut w =
     (let destroy = (\<lambda>r w. case pl_delete w of
            Done w' \<Rightarrow> Done (r, False, w') | Stuck \<Rightarrow> Stuck | Undefined \<Rightarrow> Undefined)
      in if wait
         then (case pl_start env f (w\<lparr>p_handler := Some HWait\<rparr>) of
                 Done (r, w1) \<Rightarrow>
                   (case (if isAccepted r then wait_for env f sched w1 else Done w1) of
                      Done w2 \<Rightarrow> destroy (p_last w2) w2 | Stuck \<Rightarrow> Stuck | Undefined \<Rightarrow> Undefined)
               | Stuck \<Rightarrow> Stuck | Undefined \<Rightarrow> Undefined)
         else (case pl_start env f w of
                 Done (r, w1) \<Rightarrow>
                   if \<not> isAccepted r then destroy (p_last w1) w1
                   else if \<not> detachedOut then destroy needs_detached (pl_stop w1)
                   else Done (result_accept, True, w1)
               | Stuck \<Rightarrow> Stuck | Undefined \<Rightarrow> Undefined))"

definition command_call :: "penv \<Rightarrow> nat \<Rightarrow> lid list \<Rightarrow> (nat \<Rightarrow> lid option) \<Rightarrow> lid \<Rightarrow> nid \<Rightarrow> nid option \<Rightarrow> bool \<Rightarrow> bool
    \<Rightarrow> forest \<Rightarrow> (presult \<times> bool \<times> (forest + pipe)) outcome" where
  "command_call env f sched cust_loop main_loop n ctx wait detachedOut st =
     (case build cust_loop main_loop n ctx st of
        Done (Inl st1) \<Rightarrow>
          Done (result_fail (VString (''command has no steps: '' @ name_of st1 n)), False, Inl st1)
      | Done (Inr w) \<Rightarrow>
          (case drivePipeline env f sched wait detachedOut w of
             Done (r, d, w1) \<Rightarrow> Done (r, d, Inr w1) | Stuck \<Rightarrow> Stuck | Undefined \<Rightarrow> Undefined)
      | Stuck \<Rightarrow> Stuck | Undefined \<Rightarrow> Undefined)"

definition command_run :: "penv \<Rightarrow> nat \<Rightarrow> (nat \<Rightarrow> lid option) \<Rightarrow> lid \<Rightarrow> nid \<Rightarrow> nid option \<Rightarrow> forest
    \<Rightarrow> (forest + pipe) outcome" where
  "command_run env f cust_loop main_loop n ctx st =
     (case build cust_loop main_loop n ctx st of
        Done (Inr w) \<Rightarrow>
          (case pl_start env f w of Done (_, w1) \<Rightarrow> Done (Inr w1) | Stuck \<Rightarrow> Stuck | Undefined \<Rightarrow> Undefined)
      | r \<Rightarrow> r)"

declare wait_for.simps [simp del]

section \<open>Runs of steps\<close>

text \<open>Users that look but neither call the pipeline nor, outside the steps, change the forest.\<close>

definition quiet :: "penv \<Rightarrow> bool" where
  "quiet env \<longleftrightarrow> (\<forall>k v st. fst (run_step env k v st) = []) \<and> (\<forall>s r st. on_signal env s r st = ([], st))
     \<and> (\<forall>k r st. on_result env k r st = ([], st))"

definition step_result :: "penv \<Rightarrow> var \<Rightarrow> pstep \<Rightarrow> forest \<Rightarrow> presult \<times> forest" where
  "step_result env a s st =
     (case ps_fn s of
        VCallable k \<Rightarrow> (case run_step env k a st of (_, st', ret) \<Rightarrow> (resultFromStepReturn env ret, st'))
      | _ \<Rightarrow> (no_callable, st))"

text \<open>The steps one after the other, up to the first error.\<close>

fun seq_run :: "penv \<Rightarrow> var \<Rightarrow> pstep list \<Rightarrow> presult \<Rightarrow> forest \<Rightarrow> presult \<times> forest" where
  "seq_run env a [] prev st = (prev, st)"
| "seq_run env a (s # ss) prev st =
     (case step_result env a s st of (r, st') \<Rightarrow> if isError r then (r, st') else seq_run env a ss r st')"

definition final_result :: "forest \<Rightarrow> nid \<Rightarrow> presult \<Rightarrow> presult option" where
  "final_result st ctx r = (if isError r then Some r else with_content st ctx r)"

definition final_state :: "presult \<Rightarrow> pstate" where
  "final_state r = (if isError r then ERRORED else DONE)"

definition final_signal :: "presult \<Rightarrow> signal" where
  "final_signal r = (if isError r then CMD_ERROR else CMD_DONE)"

text \<open>The end of a run: the report, and the handler called once.\<close>

definition completed :: "presult \<Rightarrow> presult \<Rightarrow> pipe \<Rightarrow> pipe" where
  "completed r out w = w\<lparr>p_state := final_state r, p_last := out, p_queue := [],
     p_reports := p_reports w @ [(final_signal r, out)], p_handler := None,
     p_called := p_called w @ (case p_handler w of None \<Rightarrow> [] | Some h \<Rightarrow> [(h, out)]),
     p_finished := (p_finished w \<or> p_handler w = Some HWait)\<rparr>"

lemma signals_differ [simp]: "CMD_DONE \<noteq> CMD_ERROR" "CMD_ERROR \<noteq> CMD_DONE"
  by (simp_all add: CMD_DONE_def CMD_ERROR_def)

lemma no_callable_error [simp]: "isError no_callable" "\<not> isAccepted no_callable"
  by (simp_all add: isError_def isAccepted_def no_callable_def result_fail_def)

lemma quietD:
  "quiet env \<Longrightarrow> on_signal env s r st = ([], st)" "quiet env \<Longrightarrow> on_result env k r st = ([], st)"
  "quiet env \<Longrightarrow> run_step env k v st = (ops, st', ret) \<Longrightarrow> ops = []"
  unfolding quiet_def by (blast, blast, metis fst_conv)

lemma complete_quiet:
  assumes "quiet env" "final_result (p_forest w) (p_ctx w) r = Some out"
  shows "complete env (Suc (Suc f)) (final_state r) (final_signal r) r w = Done (completed r out w)"
  using assms(2)
  by (cases "isError r"; cases "p_handler w")
    (auto simp: quietD [OF assms(1)] Let_def final_result_def final_state_def final_signal_def completed_def split: handler.split)

lemma completed_simps [simp]:
  "p_state (completed r out w) = final_state r" "p_last (completed r out w) = out" "p_queue (completed r out w) = []"
  "p_tasks (completed r out w) = p_tasks w" "p_forest (completed r out w) = p_forest w" "p_ctx (completed r out w) = p_ctx w"
  "p_alive (completed r out w) = p_alive w" "p_owns (completed r out w) = p_owns w"
  "p_reports (completed r out w) = p_reports w @ [(final_signal r, out)]"
  by (simp_all add: completed_def)

lemma final_state_terminal [simp]: "final_state r = DONE \<or> final_state r = ERRORED" "final_state r \<noteq> RUNNING"
  "final_state r \<noteq> PAUSED" "final_state r \<noteq> IDLE"
  by (simp_all add: final_state_def)

section \<open>Steps on loops\<close>

definition bound :: "penv \<Rightarrow> pstep \<Rightarrow> bool" where
  "bound env s \<longleftrightarrow> (\<exists>l. ps_loop s = Some l \<and> loop_open env l)"

definition loop_of :: "pstep \<Rightarrow> lid" where
  "loop_of s = the (ps_loop s)"

text \<open>A step is posted and the rest waits.\<close>

definition waiting :: "pstep \<Rightarrow> pstep list \<Rightarrow> forest \<Rightarrow> pipe \<Rightarrow> pipe \<Rightarrow> bool" where
  "waiting s ss st w0 w \<longleftrightarrow> p_state w = RUNNING \<and> p_tasks w = [(loop_of s, s)] \<and> p_queue w = ss \<and> p_forest w = st
     \<and> p_alive w \<and> p_ctx w = p_ctx w0 \<and> p_owns w = p_owns w0 \<and> p_handler w = p_handler w0 \<and> p_finished w = p_finished w0
     \<and> p_reports w = p_reports w0 \<and> p_called w = p_called w0"

text \<open>The pipeline is through.\<close>

definition through :: "presult \<Rightarrow> presult \<Rightarrow> forest \<Rightarrow> pipe \<Rightarrow> pipe \<Rightarrow> bool" where
  "through r out st w0 w \<longleftrightarrow> p_state w = final_state r \<and> p_last w = out \<and> p_queue w = [] \<and> p_tasks w = []
     \<and> p_forest w = st \<and> p_alive w \<and> p_ctx w = p_ctx w0 \<and> p_owns w = p_owns w0
     \<and> p_reports w = p_reports w0 @ [(final_signal r, out)]
     \<and> p_called w = p_called w0 @ (case p_handler w0 of None \<Rightarrow> [] | Some h \<Rightarrow> [(h, out)])"

lemma run_posted_eq:
  assumes q: "quiet env" and t: "filter (\<lambda>t. fst t = l) (p_tasks w) = (l, s) # ts" and a: "p_alive w"
    and sr: "step_result env (ctx_arg w) s (p_forest w) = (r, st)"
  shows "run_posted env (Suc f) l w
    = handle_result env (Suc f) r (w\<lparr>p_tasks := remove1 (l, s) (p_tasks w), p_forest := st\<rparr>)"
proof (cases "\<exists>k. ps_fn s = VCallable k")
  case True
  then obtain k where k: "ps_fn s = VCallable k" by blast
  obtain ops ret where "run_step env k (ctx_arg w) (p_forest w) = (ops, st, ret)" "r = resultFromStepReturn env ret"
    using sr by (auto simp: step_result_def k split: prod.splits)
  moreover have "ops = []" using quietD(3) [OF q] calculation(1) by blast
  moreover have "ctx_arg (w\<lparr>p_tasks := x\<rparr>) = ctx_arg w" for x by (simp add: ctx_arg_def)
  ultimately show ?thesis using t a k by (simp add: run_posted_def Let_def del: handle_result.simps)
next
  case False
  then have "r = no_callable" "st = p_forest w" using sr by (auto simp: step_result_def split: var.splits)
  then show ?thesis using t a False by (cases "ps_fn s") (auto simp: run_posted_def Let_def simp del: handle_result.simps)
qed

lemma run_posted_step:
  assumes q: "quiet env" and w: "waiting s ss st w0 w" and sr: "step_result env (ctx_arg w0) s st = (r, st')"
  shows "isError r \<Longrightarrow> final_result st' (p_ctx w0) r = Some out
      \<Longrightarrow> \<exists>w'. run_posted env (Suc (Suc (Suc f))) (loop_of s) w = Done w' \<and> through r out st' w0 w'"
    and "\<not> isError r \<Longrightarrow> ss = [] \<Longrightarrow> final_result st' (p_ctx w0) r = Some out
      \<Longrightarrow> \<exists>w'. run_posted env (Suc (Suc (Suc f))) (loop_of s) w = Done w' \<and> through r out st' w0 w'"
    and "\<not> isError r \<Longrightarrow> ss = s' # ss' \<Longrightarrow> bound env s'
      \<Longrightarrow> \<exists>w'. run_posted env (Suc (Suc (Suc f))) (loop_of s) w = Done w' \<and> waiting s' ss' st' w0 w'"
proof -
  define w1 where "w1 = w\<lparr>p_tasks := [], p_forest := st'\<rparr>"
  have "ctx_arg w = ctx_arg w0" "p_forest w = st" using w by (simp_all add: waiting_def ctx_arg_def)
  then have rp: "run_posted env (Suc (Suc (Suc f))) (loop_of s) w = handle_result env (Suc (Suc (Suc f))) r w1"
    using run_posted_eq [OF q, of "loop_of s" w s "[]"] sr w by (simp add: waiting_def w1_def del: handle_result.simps)
  have w1: "p_state w1 = RUNNING" "p_ctx w1 = p_ctx w0" "p_queue w1 = ss" "p_forest w1 = st'"
    using w by (simp_all add: w1_def waiting_def)
  note c = complete_quiet [OF q]
  show "\<exists>w'. run_posted env (Suc (Suc (Suc f))) (loop_of s) w = Done w' \<and> through r out st' w0 w'"
    if "isError r" "final_result st' (p_ctx w0) r = Some out"
    using c [of w1 r out f] w1 that w unfolding rp
    by (auto simp: final_state_def final_signal_def through_def completed_def waiting_def w1_def simp del: complete.simps)
  show "\<exists>w'. run_posted env (Suc (Suc (Suc f))) (loop_of s) w = Done w' \<and> through r out st' w0 w'"
    if "\<not> isError r" "ss = []" "final_result st' (p_ctx w0) r = Some out"
    using c [of "w1\<lparr>p_last := r, p_index := p_index w1 + 1\<rparr>" r out f] w1 that w unfolding rp
    by (auto simp: final_state_def final_signal_def through_def completed_def waiting_def w1_def simp del: complete.simps)
  show "\<exists>w'. run_posted env (Suc (Suc (Suc f))) (loop_of s) w = Done w' \<and> waiting s' ss' st' w0 w'"
    if "\<not> isError r" "ss = s' # ss'" "bound env s'"
    using w1 that w unfolding rp by (auto simp: waiting_def w1_def bound_def loop_of_def Let_def)
qed

lemma wait_for_next: "\<not> p_finished w \<Longrightarrow> p_state w = RUNNING \<Longrightarrow> wait_for env f (l # ls) w
    = (case run_posted env f l w of Done w1 \<Rightarrow> wait_for env f ls w1 | x \<Rightarrow> x)"
  by (subst wait_for.simps) simp

lemma posted_run:
  assumes q: "quiet env" and fin: "\<not> p_finished w0"
  shows "waiting s ss st w0 w \<Longrightarrow> \<forall>x \<in> set ss. bound env x \<Longrightarrow> seq_run env (ctx_arg w0) (s # ss) prev st = (r, st')
    \<Longrightarrow> final_result st' (p_ctx w0) r = Some out
    \<Longrightarrow> \<exists>w'. wait_for env (Suc (Suc (Suc f))) (map loop_of (s # ss)) w = Done w' \<and> through r out st' w0 w'"
proof (induction ss arbitrary: s st w prev)
  case Nil
  obtain r1 st1 where sr: "step_result env (ctx_arg w0) s st = (r1, st1)" by (metis surj_pair)
  have e: "r1 = r" "st1 = st'" using Nil.prems(3) sr by (auto split: if_splits)
  obtain w' where w': "run_posted env (Suc (Suc (Suc f))) (loop_of s) w = Done w'" "through r out st' w0 w'"
    using run_posted_step(1,2) [OF q Nil.prems(1) sr, of out f] Nil.prems(4) unfolding e by (cases "isError r") auto
  have "wait_for env (Suc (Suc (Suc f))) [] w' = Done w'"
    using w'(2) by (subst wait_for.simps) (auto simp: through_def)
  then show ?case using w' Nil.prems(1) fin by (subst wait_for.simps) (auto simp: waiting_def)
next
  case (Cons s' ss)
  obtain r1 st1 where sr: "step_result env (ctx_arg w0) s st = (r1, st1)" by (metis surj_pair)
  have step: "wait_for env (Suc (Suc (Suc f))) (map loop_of (s # s' # ss)) w
      = (case run_posted env (Suc (Suc (Suc f))) (loop_of s) w of
           Done w1 \<Rightarrow> wait_for env (Suc (Suc (Suc f))) (map loop_of (s' # ss)) w1 | x \<Rightarrow> x)"
    unfolding list.map by (rule wait_for_next) (use Cons.prems(1) fin in \<open>simp_all add: waiting_def\<close>)
  show ?case
  proof (cases "isError r1")
    case True
    then have e: "r1 = r" "st1 = st'" using Cons.prems(3) sr by auto
    obtain w' where w': "run_posted env (Suc (Suc (Suc f))) (loop_of s) w = Done w'" "through r out st' w0 w'"
      using run_posted_step(1) [OF q Cons.prems(1) sr [unfolded e] True [unfolded e] Cons.prems(4)] by blast
    have "wait_for env (Suc (Suc (Suc f))) (map loop_of (s' # ss)) w' = Done w'"
      using w'(2) by (subst wait_for.simps) (auto simp: through_def)
    then show ?thesis using w' step by auto
  next
    case False
    obtain w1 where w1: "run_posted env (Suc (Suc (Suc f))) (loop_of s) w = Done w1" "waiting s' ss st1 w0 w1"
      using run_posted_step(3) [OF q Cons.prems(1) sr False refl, of f] Cons.prems(2) by auto
    have "seq_run env (ctx_arg w0) (s' # ss) r1 st1 = (r, st')" using Cons.prems(3) sr False by auto
    then show ?thesis using Cons.IH [OF w1(2) _ _ Cons.prems(4)] Cons.prems(2) w1(1) step by auto
  qed
qed

lemma start_posted:
  assumes "p_steps w = s # ss" "bound env s" "p_tasks w = []" "p_alive w"
  shows "\<exists>w1. pl_start env (Suc (Suc f)) w = Done (result_accept, w1) \<and> waiting s ss (p_forest w) w w1"
  using assms by (auto simp: bound_def waiting_def loop_of_def Let_def)

section \<open>Steps without a loop\<close>

text \<open>Such steps run at once: up to an error, or to a step that accepts, which leaves the rest queued.\<close>

fun inline_run :: "penv \<Rightarrow> var \<Rightarrow> pstep list \<Rightarrow> int \<Rightarrow> presult \<Rightarrow> forest \<Rightarrow> pstate \<times> int \<times> presult \<times> pstep list \<times> forest" where
  "inline_run env a [] i prev st = (DONE, i, prev, [], st)"
| "inline_run env a (s # ss) i prev st =
     (case step_result env a s st of (r, st') \<Rightarrow>
        if isAccepted r then (RUNNING, i, prev, ss, st')
        else if isError r then (ERRORED, i, r, ss, st')
        else inline_run env a ss (i + 1) r st')"

definition inline_end :: "pstate \<Rightarrow> int \<Rightarrow> presult \<Rightarrow> pstep list \<Rightarrow> forest \<Rightarrow> presult \<Rightarrow> pipe \<Rightarrow> pipe" where
  "inline_end s i r ss st out w =
     (if s = RUNNING then w\<lparr>p_queue := ss, p_index := i, p_last := r, p_forest := st\<rparr>
      else completed r out (w\<lparr>p_index := i, p_forest := st\<rparr>))"

lemma at_least_3: "3 \<le> f \<Longrightarrow> \<exists>f'. f = Suc (Suc (Suc f'))"
  by (rule exI [of _ "f - 3"]) simp

lemma not_error_accepted: "isAccepted r \<Longrightarrow> \<not> isError r"
  by (simp add: isAccepted_def isError_def)

lemma run_next_step:
  assumes q: "quiet env" and w: "p_state w = RUNNING" "p_queue w = s # ss" "ps_loop s = None"
    and sr: "step_result env (ctx_arg w) s (p_forest w) = (r, st)"
  defines "w1 \<equiv> w\<lparr>p_queue := ss, p_forest := st\<rparr>"
  shows "run_next env (Suc (Suc f)) w = (if isAccepted r then Done w1
      else if isError r then complete env (Suc f) ERRORED CMD_ERROR r w1
      else run_next env (Suc f) (w1\<lparr>p_last := r, p_index := p_index w1 + 1\<rparr>))"
proof (cases "\<exists>k. ps_fn s = VCallable k")
  case True
  then obtain k where k: "ps_fn s = VCallable k" by blast
  obtain ops ret where "run_step env k (ctx_arg w) (p_forest w) = (ops, st, ret)" "r = resultFromStepReturn env ret"
    using sr by (auto simp: step_result_def k split: prod.splits)
  moreover have "ops = []" using quietD(3) [OF q] calculation(1) by blast
  moreover have "ctx_arg (w\<lparr>p_queue := ss\<rparr>) = ctx_arg w" by (simp add: ctx_arg_def)
  ultimately show ?thesis using w k by (simp add: w1_def Let_def del: complete.simps)
next
  case False
  then have "r = no_callable" "st = p_forest w" using sr by (auto simp: step_result_def split: var.splits)
  then show ?thesis using w False by (cases "ps_fn s") (auto simp: w1_def Let_def simp del: complete.simps)
qed

lemma run_next_inline:
  assumes q: "quiet env"
  shows "p_state w = RUNNING \<Longrightarrow> p_queue w = ss \<Longrightarrow> \<forall>s \<in> set ss. ps_loop s = None \<Longrightarrow> \<not> isError (p_last w)
    \<Longrightarrow> inline_run env (ctx_arg w) ss (p_index w) (p_last w) (p_forest w) = (s, i, r, qs, st')
    \<Longrightarrow> s \<noteq> RUNNING \<longrightarrow> final_result st' (p_ctx w) r = Some out \<Longrightarrow> length ss + 3 \<le> f
    \<Longrightarrow> run_next env f w = Done (inline_end s i r qs st' out w)"
proof (induction ss arbitrary: w f)
  case Nil
  obtain f' where f: "f = Suc (Suc (Suc f'))" using at_least_3 [of f] Nil.prems(7) by auto
  have "complete env (Suc (Suc f')) DONE CMD_DONE (p_last w) w = Done (completed r out w)"
    using complete_quiet [OF q, of w r out f'] Nil.prems(4,5,6) by (simp add: final_state_def final_signal_def del: complete.simps)
  then show ?case using Nil.prems f by (auto simp: inline_end_def simp del: complete.simps)
next
  case (Cons x ss)
  obtain f' where f: "f = Suc (Suc (Suc f'))" using at_least_3 [of f] Cons.prems(7) by auto
  obtain r1 st1 where sr: "step_result env (ctx_arg w) x (p_forest w) = (r1, st1)" by (metis surj_pair)
  define w1 where "w1 = w\<lparr>p_queue := ss, p_forest := st1\<rparr>"
  have rn: "run_next env f w = (if isAccepted r1 then Done w1
      else if isError r1 then complete env (Suc (Suc f')) ERRORED CMD_ERROR r1 w1
      else run_next env (Suc (Suc f')) (w1\<lparr>p_last := r1, p_index := p_index w1 + 1\<rparr>))"
    using run_next_step [OF q Cons.prems(1,2) _ sr] Cons.prems(3) unfolding f w1_def by simp
  consider (acc) "isAccepted r1" | (err) "\<not> isAccepted r1" "isError r1" | (ok) "\<not> isAccepted r1" "\<not> isError r1" by blast
  then show ?case
  proof cases
    case acc
    then show ?thesis using rn Cons.prems(5) sr by (auto simp: w1_def inline_end_def)
  next
    case err
    then have e: "s = ERRORED" "r = r1" "i = p_index w" "st' = st1" using Cons.prems(5) sr by auto
    have "complete env (Suc (Suc f')) ERRORED CMD_ERROR r1 w1 = Done (completed r1 out w1)"
      using complete_quiet [OF q, of w1 r1 out f'] Cons.prems(6) err e
      by (simp add: w1_def final_state_def final_signal_def del: complete.simps)
    then show ?thesis using rn err e by (simp add: w1_def inline_end_def completed_def del: complete.simps)
  next
    case ok
    let ?w = "w1\<lparr>p_last := r1, p_index := p_index w1 + 1\<rparr>"
    have "run_next env (Suc (Suc f')) ?w = Done (inline_end s i r qs st' out ?w)"
    proof (rule Cons.IH)
      show "inline_run env (ctx_arg ?w) ss (p_index ?w) (p_last ?w) (p_forest ?w) = (s, i, r, qs, st')"
        using Cons.prems(5) sr ok by (simp add: w1_def ctx_arg_def)
    qed (use Cons.prems ok f in \<open>simp_all add: w1_def\<close>)
    moreover have "inline_end s i r qs st' out ?w = inline_end s i r qs st' out w"
      by (simp add: w1_def inline_end_def completed_def)
    ultimately show ?thesis using rn ok by simp
  qed
qed

lemma inline_rest:
  "inline_run env a ss i prev st = (s, i', r, qs, st') \<Longrightarrow> set qs \<subseteq> set ss \<and> length qs \<le> length ss"
  by (induction ss arbitrary: i prev st) (fastforce split: prod.splits if_splits)+

lemma inline_end_cong:
  "s = RUNNING \<Longrightarrow> p_state w = RUNNING \<Longrightarrow> inline_end s i r ss st out (w\<lparr>p_index := j, p_last := x\<rparr>) = inline_end s i r ss st out w"
  "s \<noteq> RUNNING \<Longrightarrow> inline_end s i r ss st out (w\<lparr>p_index := j, p_last := x\<rparr>) = inline_end s i r ss st out w"
  by (simp_all add: inline_end_def completed_def)

lemma start_inline:
  assumes q: "quiet env" and ss: "\<forall>s \<in> set (p_steps w). ps_loop s = None"
    and run: "inline_run env (ctx_arg w) (p_steps w) 0 (result_ok VNone) (p_forest w) = (s, i, r, qs, st')"
    and fin: "s \<noteq> RUNNING \<longrightarrow> final_result st' (p_ctx w) r = Some out" and f: "length (p_steps w) + 4 \<le> f"
  shows "pl_start env f w = Done (if s = RUNNING then result_accept else out,
    inline_end s i r qs st' out (w\<lparr>p_state := RUNNING, p_queue := p_steps w, p_last := result_ok VNone\<rparr>))"
proof -
  obtain f' where f': "f = Suc f'" "length (p_steps w) + 3 \<le> f'" using f by (cases f) auto
  obtain f'' where f'': "f' = Suc (Suc f'')" using at_least_3 [of f'] f'(2) by auto
  let ?w = "w\<lparr>p_state := RUNNING, p_index := 0, p_last := result_ok VNone, p_queue := p_steps w\<rparr>"
  let ?v = "w\<lparr>p_state := RUNNING, p_queue := p_steps w, p_last := result_ok VNone\<rparr>"
  have e: "inline_end s i r qs st' out ?w = inline_end s i r qs st' out ?v"
    by (simp add: inline_end_def completed_def)
  have ok: "\<not> isError (result_ok VNone)" by (simp add: isError_def result_ok_def)
  have "run_next env f' ?w = Done (inline_end s i r qs st' out ?w)"
    by (rule run_next_inline [OF q]) (use ss run fin f'(2) ok in \<open>simp_all add: ctx_arg_def\<close>)
  moreover have "complete env f' DONE CMD_DONE (result_ok VNone) ?w = Done (inline_end s i r qs st' out ?w)" if "p_steps w = []"
    using complete_quiet [OF q, of ?w "result_ok VNone" out f''] that run fin ok
    by (auto simp: f'' final_state_def final_signal_def inline_end_def completed_def simp del: complete.simps)
  moreover have "inline_end s i r qs st' out ?v = w' \<Longrightarrow> p_state w' = (if s = RUNNING then RUNNING else final_state r)
      \<and> (s \<noteq> RUNNING \<longrightarrow> p_last w' = out)" for w'
    by (auto simp: inline_end_def)
  moreover have "s = DONE" if "p_steps w = []" using run that by simp
  ultimately show ?thesis unfolding e f'(1)
    by (auto simp: Let_def final_state_def simp del: complete.simps run_next.simps split: if_splits)
qed

lemma finish_inline:
  assumes q: "quiet env" and w: "p_state w = RUNNING" and ss: "\<forall>s \<in> set (p_queue w). ps_loop s = None"
    and r: "\<not> isError r" and run: "inline_run env (ctx_arg w) (p_queue w) (p_index w + 1) r (p_forest w) = (s, i, r', qs, st')"
    and fin: "s \<noteq> RUNNING \<longrightarrow> final_result st' (p_ctx w) r' = Some out" and f: "length (p_queue w) + 4 \<le> f"
  shows "pl_finish env f r w = Done (inline_end s i r' qs st' out w)"
proof -
  obtain f' where f': "f = Suc f'" "length (p_queue w) + 3 \<le> f'" using f by (cases f) auto
  obtain f'' where f'': "f' = Suc (Suc f'')" using at_least_3 [of f'] f'(2) by auto
  let ?w = "w\<lparr>p_last := r, p_index := p_index w + 1\<rparr>"
  have e: "inline_end s i r' qs st' out ?w = inline_end s i r' qs st' out w"
    by (simp add: inline_end_def completed_def)
  have "run_next env f' ?w = Done (inline_end s i r' qs st' out ?w)"
    by (rule run_next_inline [OF q]) (use w ss r run fin f'(2) in \<open>simp_all add: ctx_arg_def\<close>)
  moreover have "complete env f' DONE CMD_DONE r ?w = Done (inline_end s i r' qs st' out ?w)" if "p_queue w = []"
    using complete_quiet [OF q, of ?w r out f''] that run fin r
    by (auto simp: f'' final_state_def final_signal_def inline_end_def completed_def simp del: complete.simps)
  ultimately show ?thesis using w r unfolding e pl_finish_def f'(1)
    by (auto simp: Let_def simp del: complete.simps run_next.simps)
qed

lemma node_step_bound:
  "node_step cust_loop (Some l) st n = Some ss \<Longrightarrow> x \<in> set ss \<Longrightarrow> \<exists>l. ps_loop x = Some l"
  by (auto simp: node_step_def Let_def split: if_splits option.splits)

lemma build_steps_bound:
  assumes "build_steps cust_loop main_loop st n = Some ss" "x \<in> set ss"
  shows "\<exists>l. ps_loop x = Some l"
proof (cases "type_of (node_value st n) = T_CALLABLE")
  case True
  then show ?thesis using assms node_step_bound by (auto simp: build_steps_def)
next
  case False
  then obtain sd yss where y: "ss = concat yss" "those (map (node_step cust_loop (Some main_loop) st) (kids st sd)) = Some yss"
    using assms by (auto simp: build_steps_def split: option.splits)
  have "list_all2 (\<lambda>m y. node_step cust_loop (Some main_loop) st m = Some y) (kids st sd) yss"
    using y(2) by (simp only: those_Some)
  then have "\<forall>y \<in> set yss. \<exists>m. node_step cust_loop (Some main_loop) st m = Some y"
    by (induction rule: list_all2_induct) auto
  then show ?thesis using assms(2) y(1) node_step_bound by auto
qed

lemma fold_pl_add: "fold pl_add ss w = w\<lparr>p_steps := p_steps w @ ss\<rparr>"
  by (induction ss arbitrary: w) (simp_all add: pl_add_def)

lemma build_ctx:
  "build_steps cust_loop main_loop st n = Some (s # ss)
    \<Longrightarrow> build cust_loop main_loop n (Some ctx) st = Done (Inr ((new_pipe (Some ctx) st)\<lparr>p_steps := s # ss\<rparr>))"
  by (simp add: build_def new_pipe_def fold_pl_add pl_add_def Let_def)

section \<open>Properties\<close>

text \<open>A pipeline whose steps have no loop runs them at once when it starts: in order, each on the
  forest the ones before it left, up to the first error, which ends it ERRORED, or the first result
  that accepts, after which it stays RUNNING with the remaining steps queued and \<open>start\<close> returns
  accepted. Without either it ends DONE with the last result, or the content of \<open>_result\<close>. The end is
  reported once, with the signal of its kind, and the handler called once. \<open>finish\<close> with a result
  that is no error goes on from there in the same way.\<close>

theorem inline_pipeline:
  assumes q: "quiet env" and ss: "\<forall>s \<in> set (p_steps w). ps_loop s = None"
    and run: "inline_run env (ctx_arg w) (p_steps w) 0 (result_ok VNone) (p_forest w) = (s, i, r, qs, st')"
    and fin: "s \<noteq> RUNNING \<longrightarrow> final_result st' (p_ctx w) r = Some out" and f: "length (p_steps w) + 4 \<le> f"
  shows "\<exists>w'. pl_start env f w = Done (if s = RUNNING then result_accept else out, w')
    \<and> w' = inline_end s i r qs st' out (w\<lparr>p_state := RUNNING, p_queue := p_steps w, p_last := result_ok VNone\<rparr>)
    \<and> (s = RUNNING \<and> \<not> isError r2
        \<and> inline_run env (ctx_arg w) qs (i + 1) r2 st' = (s2, i2, r3, qs2, st2)
        \<and> (s2 \<noteq> RUNNING \<longrightarrow> final_result st2 (p_ctx w) r3 = Some out2)
      \<longrightarrow> pl_finish env f r2 w' = Done (inline_end s2 i2 r3 qs2 st2 out2 w'))"
proof -
  define w' where "w' = inline_end s i r qs st' out (w\<lparr>p_state := RUNNING, p_queue := p_steps w, p_last := result_ok VNone\<rparr>)"
  have "pl_finish env f r2 w' = Done (inline_end s2 i2 r3 qs2 st2 out2 w')"
    if "s = RUNNING" "\<not> isError r2" "inline_run env (ctx_arg w) qs (i + 1) r2 st' = (s2, i2, r3, qs2, st2)"
      "s2 \<noteq> RUNNING \<longrightarrow> final_result st2 (p_ctx w) r3 = Some out2"
  proof (rule finish_inline [OF q])
    have "p_queue w' = qs" "p_index w' = i" "p_forest w' = st'" "p_ctx w' = p_ctx w" "p_state w' = RUNNING"
      using that(1) by (simp_all add: w'_def inline_end_def)
    then show "p_state w' = RUNNING" "\<forall>s \<in> set (p_queue w'). ps_loop s = None"
      "inline_run env (ctx_arg w') (p_queue w') (p_index w' + 1) r2 (p_forest w') = (s2, i2, r3, qs2, st2)"
      "s2 \<noteq> RUNNING \<longrightarrow> final_result st2 (p_ctx w') r3 = Some out2" "length (p_queue w') + 4 \<le> f"
      using that inline_rest [OF run] ss f by (auto simp: ctx_arg_def)
  qed (rule that(2))
  then show ?thesis using start_inline [OF q ss run fin f] unfolding w'_def by blast
qed


text \<open>A call that neither waits nor takes the pipeline over destroys it while its first step is
  still posted; the loop then runs the step on the destroyed pipeline.\<close>

theorem detached_call_dangles:
  assumes b: "build_steps cust_loop main_loop st n = Some (s # ss)" and l: "loop_open env (loop_of s)" and f: "2 \<le> f"
  shows "\<exists>w'. command_call env f sched cust_loop main_loop n (Some ctx) False False st = Done (needs_detached, False, Inr w')
    \<and> run_posted env f (loop_of s) w' = Undefined"
proof -
  define w where "w = (new_pipe (Some ctx) st)\<lparr>p_steps := s # ss\<rparr>"
  obtain f' where f': "f = Suc (Suc f')" using f by (metis add_2_eq_Suc le_Suc_ex)
  have bound: "bound env s" using build_steps_bound [OF b, of s] l by (auto simp: bound_def loop_of_def)
  have w: "p_steps w = s # ss" "p_tasks w = []" "p_alive w" "\<not> p_owns w" by (simp_all add: w_def new_pipe_def)
  obtain w1 where w1: "pl_start env f w = Done (result_accept, w1)" "waiting s ss (p_forest w) w w1"
    using start_posted [OF w(1) bound w(2,3), of f'] unfolding f' by auto
  define w2 where "w2 = (pl_stop w1)\<lparr>p_alive := False\<rparr>"
  have w2: "pl_delete (pl_stop w1) = Done w2" "p_tasks w2 = [(loop_of s, s)]" "\<not> p_alive w2"
    using w1(2) w(4) by (simp_all add: w2_def pl_delete_def pl_stop_def waiting_def)
  have "isAccepted result_accept" by (simp add: isAccepted_def result_accept_def)
  then have "drivePipeline env f sched False False w = Done (needs_detached, False, w2)"
    using w1(1) w2(1) by (simp add: drivePipeline_def del: pl_start.simps)
  moreover have "run_posted env f (loop_of s) w2 = Undefined" using w2 by (simp add: run_posted_def)
  ultimately show ?thesis using build_ctx [OF b, of ctx]
    by (auto simp: command_call_def w_def [symmetric])
qed

section \<open>Witnesses\<close>

lemma plain_key: "key_sep \<notin> set nm \<Longrightarrow> nm \<noteq> [] \<Longrightarrow> parseKey nm key_sep = Key nm 0"
  by (simp add: parseKey_def rfind_None [THEN iffD2])

text \<open>A plain name finds the first child that has it.\<close>

lemma find_simple:
  assumes "forest_ok st" "alive st n" "nm \<noteq> []" "VE_NODE_PATH_SEP \<notin> set nm" "VE_NODE_KEY_SEP \<notin> set nm"
  shows "find_path st n nm False VE_NODE_PATH_SEP VE_NODE_KEY_SEP
    = Some (case named_kids st n nm of [] \<Rightarrow> None | c # _ \<Rightarrow> Some c)"
proof -
  have "hd nm \<noteq> VE_NODE_PATH_SEP" using assms(3,4) by (cases nm) auto
  then have "find_path st n nm False VE_NODE_PATH_SEP VE_NODE_KEY_SEP = find_walk st n False VE_NODE_KEY_SEP [nm]"
    using assms(3,4) segments_single by (simp add: find_path_def path_start_def)
  then show ?thesis using assms child_named_spec [OF assms(1-3), of 0] plain_key [of VE_NODE_KEY_SEP nm]
    by (auto simp: find_key_plain split: list.splits)
qed

text \<open>The forest of the examples with a command: a callable on node 4.\<close>

definition cmd_demo :: forest where
  "cmd_demo = upd 4 (o_value_update (\<lambda>_. VCallable 0)) demo"

definition cmd_env :: penv where
  "cmd_env = \<lparr>run_step = (\<lambda>k v st. ([], st, if k = 0 then VInt 7 else VCustom 0)), on_signal = (\<lambda>s r st. ([], st)),
     on_result = (\<lambda>k r st. ([], st)), as_result = (\<lambda>c. Some result_accept), loop_open = (\<lambda>l. True)\<rparr>"

lemma cmd_demo_facts:
  "forest_ok cmd_demo" "alive cmd_demo 3" "alive cmd_demo 4" "kids cmd_demo 3 = []" "kids cmd_demo 4 = []"
  "node_value cmd_demo 4 = VCallable 0" "quiet cmd_env"
  using forest_ok_value [OF demo_ok demo_alive(4), where v = "VCallable 0"] demo_alive demo_kids
  unfolding cmd_demo_def [symmetric] by (simp_all add: cmd_env_def quiet_def)

lemma cmd_demo_step:
  "build_steps cust_loop main_loop cmd_demo 4 = Some [\<lparr>ps_fn = VCallable 0, ps_loop = Some main_loop\<rparr>]"
  "with_content cmd_demo 3 r = Some r"
  using find_simple [OF cmd_demo_facts(1,3), of "''loop''"] find_simple [OF cmd_demo_facts(1,2), of "''_result''"] cmd_demo_facts
  by (simp_all add: build_steps_def node_step_def with_content_def named_kids_def VE_NODE_PATH_SEP_def VE_NODE_KEY_SEP_def)

lemma cmd_step:
  "step_result cmd_env a \<lparr>ps_fn = VCallable k, ps_loop = l\<rparr> st = (if k = 0 then result_ok (VInt 7) else result_accept, st)"
  by (simp add: step_result_def cmd_env_def resultFromStepReturn_def)

lemma cmd_results [simp]: "\<not> isError (result_ok v)" "\<not> isAccepted (result_ok v)" "\<not> isError result_accept" "isAccepted result_accept"
  by (simp_all add: isError_def isAccepted_def result_ok_def result_accept_def)


theorem detached_call_dangles_witness:
  "\<exists>w'. command_call cmd_env 2 [] (\<lambda>_. None) 0 4 (Some 3) False False cmd_demo = Done (needs_detached, False, Inr w')
    \<and> run_posted cmd_env 2 0 w' = Undefined"
  using detached_call_dangles [OF cmd_demo_step(1) [of "\<lambda>_. None" 0], of cmd_env 2 "[]" 3]
  by (simp add: loop_of_def cmd_env_def [THEN arg_cong, of loop_open])

theorem inline_pipeline_witness:
  "\<exists>w'. pl_start cmd_env 6 (pl_add \<lparr>ps_fn = VCallable 0, ps_loop = None\<rparr>
        (pl_add \<lparr>ps_fn = VCallable 1, ps_loop = None\<rparr> (new_pipe (Some 3) cmd_demo))) = Done (result_accept, w')
    \<and> pl_finish cmd_env 6 (result_ok VNone) w' = Done (completed (result_ok (VInt 7)) (result_ok (VInt 7)) (w'\<lparr>p_index := 2\<rparr>))"
proof -
  define w where "w = pl_add \<lparr>ps_fn = VCallable 0, ps_loop = None\<rparr>
        (pl_add \<lparr>ps_fn = VCallable 1, ps_loop = None\<rparr> (new_pipe (Some 3) cmd_demo))"
  have w: "p_steps w = [\<lparr>ps_fn = VCallable 1, ps_loop = None\<rparr>, \<lparr>ps_fn = VCallable 0, ps_loop = None\<rparr>]"
    "p_forest w = cmd_demo" "p_ctx w = 3"
    by (simp_all add: w_def pl_add_def new_pipe_def)
  have r: "inline_run cmd_env (ctx_arg w) (p_steps w) 0 (result_ok VNone) (p_forest w)
      = (RUNNING, 0, result_ok VNone, [\<lparr>ps_fn = VCallable 0, ps_loop = None\<rparr>], cmd_demo)"
    by (simp add: w cmd_step)
  obtain w' where w': "pl_start cmd_env 6 w = Done (result_accept, w')" "p_forest w' = cmd_demo"
    "\<not> isError (result_ok VNone) \<and> inline_run cmd_env (ctx_arg w) [\<lparr>ps_fn = VCallable 0, ps_loop = None\<rparr>] (0 + 1) (result_ok VNone) cmd_demo
        = (DONE, 2, result_ok (VInt 7), [], cmd_demo)
      \<and> (DONE \<noteq> RUNNING \<longrightarrow> final_result cmd_demo (p_ctx w) (result_ok (VInt 7)) = Some (result_ok (VInt 7)))
      \<longrightarrow> pl_finish cmd_env 6 (result_ok VNone) w'
        = Done (inline_end DONE 2 (result_ok (VInt 7)) [] cmd_demo (result_ok (VInt 7)) w')"
    using inline_pipeline [OF cmd_demo_facts(7) _ r, where f = 6 and out = "result_ok VNone" and ?r2.0 = "result_ok VNone"
      and ?s2.0 = DONE and ?i2.0 = 2 and ?r3.0 = "result_ok (VInt 7)" and ?qs2.0 = "[]" and ?st2.0 = cmd_demo and ?out2.0 = "result_ok (VInt 7)"] w
    by (auto simp: inline_end_def simp del: inline_run.simps)
  have "w'\<lparr>p_index := 2, p_forest := cmd_demo\<rparr> = w'\<lparr>p_index := 2\<rparr>" using w'(2) by (cases w') simp
  then show ?thesis unfolding w_def [symmetric] using w'(1,3) cmd_demo_step(2)
    by (auto simp: cmd_step final_result_def w inline_end_def)
qed

section \<open>Any order of operations and posted steps\<close>

text \<open>What can happen to a pipeline from outside, in any order; the number counts the starts.\<close>

inductive pl_reach :: "penv \<Rightarrow> pipe \<Rightarrow> nat \<Rightarrow> pipe \<Rightarrow> bool" for env w0 where
  reach_init: "pl_reach env w0 0 w0"
| reach_start: "pl_reach env w0 k w \<Longrightarrow> pl_start env f w = Done (r, w') \<Longrightarrow> pl_reach env w0 (Suc k) w'"
| reach_pause: "pl_reach env w0 k w \<Longrightarrow> pl_reach env w0 k (pl_pause w)"
| reach_resume: "pl_reach env w0 k w \<Longrightarrow> pl_resume env f w = Done w' \<Longrightarrow> pl_reach env w0 k w'"
| reach_stop: "pl_reach env w0 k w \<Longrightarrow> pl_reach env w0 k (pl_stop w)"
| reach_finish: "pl_reach env w0 k w \<Longrightarrow> pl_finish env f r w = Done w' \<Longrightarrow> pl_reach env w0 k w'"
| reach_add: "pl_reach env w0 k w \<Longrightarrow> pl_reach env w0 k (pl_add s w)"
| reach_handler: "pl_reach env w0 k w \<Longrightarrow> pl_reach env w0 k (w\<lparr>p_handler := h\<rparr>)"
| reach_task: "pl_reach env w0 k w \<Longrightarrow> run_posted env f l w = Done w' \<Longrightarrow> pl_reach env w0 k w'"

definition active :: "pipe \<Rightarrow> bool" where
  "active w \<longleftrightarrow> p_state w = RUNNING \<or> p_state w = PAUSED"

definition reports_ok :: "(signal \<times> presult) list \<Rightarrow> bool" where
  "reports_ok rs \<longleftrightarrow> (\<forall>(sig, r) \<in> set rs. sig = final_signal r)"

definition pipe_inv :: "nat \<Rightarrow> pipe \<Rightarrow> bool" where
  "pipe_inv k w \<longleftrightarrow> (if active w then Suc (length (p_reports w)) \<le> k \<and> \<not> isError (p_last w)
      else length (p_reports w) \<le> k \<and> p_queue w = [])
    \<and> length (p_called w) \<le> length (p_reports w) \<and> reports_ok (p_reports w)"

lemma final_result_kind: "final_result st ctx r = Some out \<Longrightarrow> final_signal out = final_signal r"
  by (auto simp: final_result_def final_signal_def with_content_def isError_def split: if_splits option.splits)

lemma exec_nil: "pl_exec env f [] w = Done w' \<Longrightarrow> w' = w"
  by (cases f) auto

lemma complete_completed:
  assumes q: "quiet env" and d: "complete env f (final_state r) (final_signal r) r w = Done w'"
  shows "\<exists>out. final_result (p_forest w) (p_ctx w) r = Some out \<and> w' = completed r out w"
proof -
  obtain f' where f: "f = Suc f'" using d by (cases f) auto
  have e: "(if final_state r = DONE \<and> final_signal r = CMD_DONE then with_content (p_forest w) (p_ctx w) r else Some r)
      = final_result (p_forest w) (p_ctx w) r"
    by (simp add: final_state_def final_signal_def final_result_def)
  obtain out where out: "final_result (p_forest w) (p_ctx w) r = Some out"
    using d unfolding f complete.simps e by (cases "final_result (p_forest w) (p_ctx w) r") auto
  have "f' \<noteq> 0"
  proof
    assume "f' = 0"
    then show False using d unfolding f complete.simps e out by (simp add: quietD [OF q] Let_def)
  qed
  then obtain f'' where "f = Suc (Suc f'')" using f by (cases f') auto
  then show ?thesis using complete_quiet [OF q out] d out by (auto simp del: complete.simps)
qed

lemma complete_inv:
  assumes q: "quiet env" and i: "pipe_inv k w" "active w"
    and d: "complete env f (final_state r) (final_signal r) r (w\<lparr>p_queue := qs, p_last := x, p_index := j, p_forest := st\<rparr>) = Done w'"
  shows "pipe_inv k w'"
proof -
  obtain out where out: "final_signal out = final_signal r"
    "w' = completed r out (w\<lparr>p_queue := qs, p_last := x, p_index := j, p_forest := st\<rparr>)"
    using complete_completed [OF q d] final_result_kind by blast
  then show ?thesis using i by (auto simp: pipe_inv_def completed_def active_def reports_ok_def split: option.splits)
qed

lemma complete_invs:
  assumes q: "quiet env" and i: "pipe_inv k w" "active w"
  shows "isError r \<Longrightarrow> complete env f ERRORED CMD_ERROR r (w\<lparr>p_queue := qs, p_forest := st\<rparr>) = Done w' \<Longrightarrow> pipe_inv k w'"
    "\<not> isError r \<Longrightarrow> complete env f DONE CMD_DONE r (w\<lparr>p_last := x, p_index := j\<rparr>) = Done w' \<Longrightarrow> pipe_inv k w'"
    "isError r \<Longrightarrow> complete env f ERRORED CMD_ERROR r w = Done w' \<Longrightarrow> pipe_inv k w'"
    "\<not> isError r \<Longrightarrow> complete env f DONE CMD_DONE r w = Done w' \<Longrightarrow> pipe_inv k w'"
  using complete_inv [OF q i, where f = f and r = r and qs = qs and x = "p_last w" and j = "p_index w" and st = st and w' = w']
    complete_inv [OF q i, where f = f and r = r and qs = "p_queue w" and x = x and j = j and st = "p_forest w" and w' = w']
    complete_inv [OF q i, where f = f and r = r and qs = "p_queue w" and x = "p_last w" and j = "p_index w" and st = "p_forest w" and w' = w']
  by (simp_all add: final_state_def final_signal_def del: complete.simps)

lemma inv_forest: "pipe_inv k (w\<lparr>p_forest := st\<rparr>) = pipe_inv k w" "active (w\<lparr>p_forest := st\<rparr>) = active w"
  by (simp_all add: pipe_inv_def active_def)

lemma run_next_inv:
  assumes q: "quiet env"
  shows "run_next env f w = Done w' \<Longrightarrow> pipe_inv k w \<Longrightarrow> pipe_inv k w'"
proof (induction f arbitrary: w)
  case (Suc f)
  consider (off) "p_state w \<noteq> RUNNING" | (last) "p_state w = RUNNING" "p_queue w = []"
    | (loop) s ss l where "p_state w = RUNNING" "p_queue w = s # ss" "ps_loop s = Some l"
    | (step) s ss where "p_state w = RUNNING" "p_queue w = s # ss" "ps_loop s = None"
    by (metis list.exhaust option.exhaust)
  then show ?case
  proof cases
    case off
    then show ?thesis using Suc.prems by simp
  next
    case last
    then have "active w" "\<not> isError (p_last w)" using Suc.prems(2) by (simp_all add: active_def pipe_inv_def)
    then show ?thesis using Suc.prems last complete_invs(4) [OF q Suc.prems(2)] by (simp del: complete.simps)
  next
    case loop
    then show ?thesis using Suc.prems by (auto simp: pipe_inv_def active_def Let_def split: if_splits)
  next
    case step
    have act: "active w" using step by (simp add: active_def)
    obtain r st where sr: "step_result env (ctx_arg w) s (p_forest w) = (r, st)" by (metis surj_pair)
    define w1 where "w1 = w\<lparr>p_queue := ss, p_forest := st\<rparr>"
    obtain f' where f: "f = Suc f'"
      using Suc.prems(1) step by (cases f; cases "ps_fn s") (auto simp: Let_def split: prod.splits)
    have res: "(if isAccepted r then Done w1 else if isError r then complete env f ERRORED CMD_ERROR r w1
        else run_next env f (w1\<lparr>p_last := r, p_index := p_index w1 + 1\<rparr>)) = Done w'"
      using run_next_step [OF q step sr, of f'] Suc.prems(1) unfolding f w1_def by simp
    have "pipe_inv k w1" "\<not> isError r \<Longrightarrow> pipe_inv k (w1\<lparr>p_last := r, p_index := p_index w1 + 1\<rparr>)"
      using Suc.prems(2) step by (simp_all add: w1_def pipe_inv_def active_def)
    then show ?thesis using res complete_invs(1) [OF q Suc.prems(2) act, where r = r and f = f and qs = ss and st = st and w' = w'] Suc.IH
      by (auto simp: w1_def simp del: complete.simps run_next.simps split: if_splits)
  qed
qed simp

lemma handle_result_inv:
  assumes q: "quiet env" and d: "handle_result env f r w = Done w'" and i: "pipe_inv k w"
  shows "pipe_inv k w'"
proof -
  obtain f' where f: "f = Suc f'" using d by (cases f) auto
  have "pipe_inv k (w\<lparr>p_last := r, p_index := p_index w + 1\<rparr>)" if "\<not> isError r"
    using i that by (simp add: pipe_inv_def active_def)
  then show ?thesis
    using d i complete_invs(2,3) [OF q i] run_next_inv [OF q, of f' "w\<lparr>p_last := r, p_index := p_index w + 1\<rparr>" w' k] unfolding f
    by (auto simp: active_def Let_def simp del: complete.simps run_next.simps split: if_splits)
qed

lemma start_inv:
  assumes q: "quiet env" and d: "pl_start env f w = Done (r, w')" and i: "pipe_inv k w"
  shows "pipe_inv (Suc k) w'"
proof -
  obtain f' where f: "f = Suc f'" using d by (cases f) auto
  define w1 where "w1 = w\<lparr>p_state := RUNNING, p_index := 0, p_last := result_ok VNone, p_queue := p_steps w\<rparr>"
  have i1: "pipe_inv (Suc k) w1" and a1: "active w1"
    using i by (auto simp: pipe_inv_def active_def w1_def isError_def result_ok_def split: if_splits)
  have ok: "\<not> isError (result_ok VNone)" by simp
  consider "p_steps w = []" "complete env f' DONE CMD_DONE (result_ok VNone) w1 = Done w'"
    | "p_steps w \<noteq> []" "run_next env f' w1 = Done w'"
    using d unfolding f by (auto simp: Let_def w1_def simp del: complete.simps run_next.simps split: outcome.splits if_splits)
  then show ?thesis using complete_invs(4) [OF q i1 a1 ok] run_next_inv [OF q _ i1] by cases simp_all
qed

lemma run_posted_inv:
  assumes q: "quiet env" and d: "run_posted env f l w = Done w'" and i: "pipe_inv k w"
  shows "pipe_inv k w'"
proof (cases "filter (\<lambda>t. fst t = l) (p_tasks w)")
  case Nil
  then show ?thesis using d i by (simp add: run_posted_def)
next
  case (Cons t ts)
  have "t \<in> set (filter (\<lambda>t. fst t = l) (p_tasks w))" unfolding Cons by simp
  then have "fst t = l" by (simp only: set_filter mem_Collect_eq)
  then obtain s where t: "t = (l, s)" by (metis prod.collapse)
  obtain r st where sr: "step_result env (ctx_arg w) s (p_forest w) = (r, st)" by (metis surj_pair)
  have a: "p_alive w" using d Cons t by (auto simp: run_posted_def Let_def split: if_splits)
  obtain f' where f: "f = Suc f'"
    using d Cons t a by (cases f; cases "ps_fn s") (auto simp: run_posted_def Let_def split: prod.splits)
  have "handle_result env f r (w\<lparr>p_tasks := remove1 (l, s) (p_tasks w), p_forest := st\<rparr>) = Done w'"
    using run_posted_eq [OF q Cons [unfolded t] a sr, of f'] d unfolding f by simp
  then show ?thesis by (rule handle_result_inv [OF q]) (use i in \<open>simp add: pipe_inv_def active_def\<close>)
qed

text \<open>C29: Whatever operations and posted steps come in whatever order, with steps and observers that
  do not call the pipeline themselves: every start is reported at most once, and not before the run
  is over; the signal tells errors from results; every handler is called for a report of its own; and a
  pipeline that is not running holds no steps.\<close>

theorem pipeline_reports:
  assumes "quiet env" "pl_reach env (new_pipe ctx st) starts w"
  shows "length (p_reports w) + (if active w then 1 else 0) \<le> starts
    \<and> (\<forall>(sig, r) \<in> set (p_reports w). sig = (if isError r then CMD_ERROR else CMD_DONE))
    \<and> length (p_called w) \<le> length (p_reports w) \<and> (\<not> active w \<longrightarrow> p_queue w = [])"
proof -
  have "pipe_inv starts w"
    using assms(2)
  proof (induction rule: pl_reach.induct)
    case reach_init
    show ?case by (auto simp: new_pipe_def pipe_inv_def active_def reports_ok_def split: option.splits prod.splits)
  next
    case (reach_start k w f r w')
    then show ?case using start_inv [OF assms(1)] by blast
  next
    case (reach_resume k w f w')
    then have "pipe_inv k (w\<lparr>p_state := RUNNING\<rparr>)" if "p_state w = PAUSED"
      using that by (simp add: pipe_inv_def active_def)
    then show ?case using reach_resume run_next_inv [OF assms(1)]
      by (cases f) (auto simp del: run_next.simps split: if_splits)
  next
    case (reach_finish k w f r w')
    then show ?case using handle_result_inv [OF assms(1)] by (simp add: pl_finish_def)
  next
    case (reach_task k w f l w')
    then show ?case using run_posted_inv [OF assms(1)] by blast
  qed (auto simp: pipe_inv_def active_def pl_pause_def pl_stop_def pl_add_def split: if_splits)
  then show ?thesis by (auto simp: pipe_inv_def reports_ok_def final_signal_def)
qed

theorem pipeline_reports_witness:
  "\<exists>w. pl_reach cmd_env (new_pipe (Some 3) cmd_demo) 1 w \<and> length (p_reports w) = 1 \<and> \<not> active w \<and> p_queue w = []"
proof -
  define w0 where "w0 = new_pipe (Some 3) cmd_demo"
  have w0: "p_steps w0 = []" "p_forest w0 = cmd_demo" "p_ctx w0 = 3" "p_reports w0 = []" by (simp_all add: w0_def new_pipe_def)
  obtain w where w: "pl_start cmd_env 4 w0 = Done (result_ok VNone, w)" "p_reports w = [(CMD_DONE, result_ok VNone)]" "p_state w = DONE"
    using start_inline [OF cmd_demo_facts(7), of w0 DONE 0 "result_ok VNone" "[]" cmd_demo "result_ok VNone" 4] w0 cmd_demo_step(2)
    by (auto simp: inline_end_def final_result_def final_state_def final_signal_def simp del: pl_start.simps)
  have "pl_reach cmd_env w0 (Suc 0) w" by (rule reach_start [OF reach_init w(1)])
  then show ?thesis
    using pipeline_reports [OF cmd_demo_facts(7), of "Some 3" cmd_demo "Suc 0" w] w(2,3)
    unfolding w0_def by (auto simp: active_def)
qed

end
