(* ===== verification/Node_Protocol.thy ===== *)
theory Node_Protocol
  imports Subscribe Json Pipeline "HOL-Library.List_Lexorder" "HOL-Library.Char_ord"
begin

text \<open>
  The node protocol: one request, a tree, is answered by one reply, a tree
  (\<open>ve/src/service/node_protocol.cpp\<close>), and a detached command reports to a node of the data tree
  (\<open>ve/src/service/node_task_service.cpp\<close>). Root, request and reply live in the same forest. The
  commands of the application, the text of custom payloads, the JSON parser, the clock behind the task
  ids and the transport are functions of the environment. \<open>None\<close> is a null pointer dereferenced, the
  key parser's overflow, or a reader that throws.
\<close>

section \<open>Environment and state\<close>

text \<open>\<open>pe_call\<close> and \<open>pe_call_async\<close> run a command with its arguments, waiting or not; the latter also says
  whether a pipeline was detached, and with which last result when that has ended by now.
  \<open>pe_drop\<close> destroys a detached pipeline.\<close>

record proto_env =
  pe_root :: nid
  pe_cust :: "nat \<Rightarrow> string"
  pe_simd :: "string \<Rightarrow> json_doc"
  pe_limit :: int
  pe_allow_subs :: bool
  pe_session :: u64
  pe_send :: "(nid \<Rightarrow> forest \<Rightarrow> forest) option"
  pe_keys :: "string list"
  pe_help :: "string \<Rightarrow> string"
  pe_has :: "string \<Rightarrow> bool"
  pe_call :: "string \<Rightarrow> var \<Rightarrow> forest \<Rightarrow> (presult \<times> forest) option"
  pe_call_async :: "string \<Rightarrow> var \<Rightarrow> forest \<Rightarrow> (presult \<times> presult option option \<times> forest) option"
  pe_drop :: "string \<Rightarrow> forest \<Rightarrow> forest"
  pe_tasks :: "nid option option"
  pe_task_id :: "forest \<Rightarrow> string"

type_synonym sub_state = "(subscribe_service \<times> counts) option"

definition default_copy :: copy_options where
  "default_copy = \<lparr>auto_insert = True, auto_remove = False, auto_update = False\<rparr>"

definition compactJson :: json_options where
  "compactJson = \<lparr>json_indent = 0, json_auto_ignore = False\<rparr>"

fun type_code :: "var_type \<Rightarrow> i64" where
  "type_code T_NONE = 0" | "type_code T_BOOL = 1" | "type_code T_INT = 2" | "type_code T_DOUBLE = 3"
| "type_code T_STRING = 4" | "type_code T_BIN = 5" | "type_code T_LIST = 6" | "type_code T_DICT = 7"
| "type_code T_POINTER = 8" | "type_code T_CALLABLE = 9" | "type_code T_CUSTOM = 10"

section \<open>Fields and replies\<close>

text \<open>\<open>node->at(path)\<close>, used without a check for null, and \<open>node->find(path)\<close>.\<close>

definition at_path :: "nid \<Rightarrow> string \<Rightarrow> forest \<Rightarrow> (nid \<times> forest) option" where
  "at_path n p st =
     (case ensure_path n p True VE_NODE_PATH_SEP VE_NODE_KEY_SEP st of
        Some (Some c, st1) \<Rightarrow> Some (c, st1) | _ \<Rightarrow> None)"

definition find_field :: "forest \<Rightarrow> nid \<Rightarrow> string \<Rightarrow> nid option option" where
  "find_field st n p = find_path st n p True VE_NODE_PATH_SEP VE_NODE_KEY_SEP"

definition get_text :: "proto_env \<Rightarrow> forest \<Rightarrow> nid \<Rightarrow> string \<Rightarrow> string option" where
  "get_text env st n p = map_option (var_text (pe_cust env) []) (get_path st n p)"

definition okReply :: "nid \<Rightarrow> var \<Rightarrow> forest \<Rightarrow> forest option" where
  "okReply rep rid st =
     do {
       st1 \<leftarrow> clear rep True st;
       st2 \<leftarrow> set_path rep ''ok'' (VBool True) st1;
       (if isNull rid then Some st2 else set_path rep ''id'' rid st2) }"

definition okReply_data :: "nid \<Rightarrow> var \<Rightarrow> nid \<Rightarrow> forest \<Rightarrow> forest option" where
  "okReply_data rep rid data st =
     do {
       st1 \<leftarrow> okReply rep rid st;
       (c, st2) \<leftarrow> at_path rep ''data'' st1;
       node_copy default_copy c (Some data) st2 }"

definition okReply_var :: "nid \<Rightarrow> var \<Rightarrow> var \<Rightarrow> forest \<Rightarrow> forest option" where
  "okReply_var rep rid v st = do { st1 \<leftarrow> okReply rep rid st; set_path rep ''data'' v st1 }"

definition acceptedReply :: "nid \<Rightarrow> var \<Rightarrow> string \<Rightarrow> forest \<Rightarrow> forest option" where
  "acceptedReply rep rid taskId st =
     do {
       st1 \<leftarrow> okReply rep rid st;
       st2 \<leftarrow> set_path rep ''accepted'' (VBool True) st1;
       set_path rep ''task_id'' (VString taskId) st2 }"

definition errorReply :: "nid \<Rightarrow> var \<Rightarrow> string \<Rightarrow> string \<Rightarrow> forest \<Rightarrow> forest option" where
  "errorReply rep rid code msg st =
     do {
       st1 \<leftarrow> clear rep True st;
       st2 \<leftarrow> set_path rep ''ok'' (VBool False) st1;
       st3 \<leftarrow> (if isNull rid then Some st2 else set_path rep ''id'' rid st2);
       st4 \<leftarrow> set_path rep ''code'' (VString code) st3;
       set_path rep ''error'' (VString msg) st4 }"

text \<open>A reply with data that is filled into a local node, which is destroyed after the copy.\<close>

definition reply_with :: "nid \<Rightarrow> var \<Rightarrow> string \<Rightarrow> (nid \<Rightarrow> forest \<Rightarrow> forest option) \<Rightarrow> forest \<Rightarrow> forest option" where
  "reply_with rep rid name fill st =
     (let (d, st1) = new_node name st
      in do {
        st2 \<leftarrow> fill d st1;
        st3 \<leftarrow> okReply_data rep rid d st2;
        delete_node (next_id st3 + 1) d st3 })"

definition findNode :: "proto_env \<Rightarrow> nid \<Rightarrow> forest \<Rightarrow> nid option option" where
  "findNode env req st = do { p \<leftarrow> get_text env st req ''path''; find_field st (pe_root env) p }"

definition ensureNode :: "proto_env \<Rightarrow> nid \<Rightarrow> forest \<Rightarrow> (nid \<times> forest) option" where
  "ensureNode env req st = do { p \<leftarrow> get_text env st req ''path''; at_path (pe_root env) p st }"

definition exportTreeVar :: "proto_env \<Rightarrow> forest \<Rightarrow> nid \<Rightarrow> int \<Rightarrow> var option" where
  "exportTreeVar env st target depth =
     (if depth < 0 then exportNode False (Some target) st
      else do {
        t \<leftarrow> exportTree_json_depth (pe_cust env) depth compactJson (Some target) st;
        json_parse (pe_simd env) t })"

definition subscribers :: "sub_state \<Rightarrow> string \<Rightarrow> i64" where
  "subscribers sub p = (case sub of None \<Rightarrow> 0 | Some (sv, c) \<Rightarrow> of_nat (getSubscriberCount p c))"

definition makeNodeMeta :: "proto_env \<Rightarrow> sub_state \<Rightarrow> nid \<Rightarrow> nid \<Rightarrow> forest \<Rightarrow> forest option" where
  "makeNodeMeta env sub out target st =
     do {
       st1 \<leftarrow> set_path out ''type'' (VInt (type_code (type_of (node_value st target)))) st;
       st2 \<leftarrow> set_path out ''child_count'' (VInt (of_int (count st1 target))) st1;
       st3 \<leftarrow> set_path out ''has_shadow'' (VBool (o_shadow (obj st2 target) \<noteq> None)) st2;
       p \<leftarrow> path_of st3 target (Some (pe_root env));
       st4 \<leftarrow> set_path out ''subscribers'' (VInt (subscribers sub p)) st3;
       (case parent st4 target of
          None \<Rightarrow> Some st4
        | Some q \<Rightarrow> do { pp \<leftarrow> path_of st4 q (Some (pe_root env)); set_path out ''parent_path'' (VString pp) st4 }) }"

definition makeChildInfo :: "proto_env \<Rightarrow> sub_state \<Rightarrow> bool \<Rightarrow> nid \<Rightarrow> nid \<Rightarrow> forest \<Rightarrow> forest option" where
  "makeChildInfo env sub with_meta out child st =
     do {
       p \<leftarrow> path_of st child (Some (pe_root env));
       st1 \<leftarrow> set_path out ''name'' (VString (name_of st child)) st;
       st2 \<leftarrow> set_path out ''path'' (VString p) st1;
       st3 \<leftarrow> set_path out ''has_value'' (VBool (\<not> isNull (node_value st2 child))) st2;
       st4 \<leftarrow> set_path out ''child_count'' (VInt (of_int (count st3 child))) st3;
       (if with_meta
        then do {
          st5 \<leftarrow> set_path out ''type'' (VInt (type_code (type_of (node_value st4 child)))) st4;
          set_path out ''subscribers'' (VInt (subscribers sub p)) st5 }
        else Some st4) }"

fun child_infos :: "proto_env \<Rightarrow> sub_state \<Rightarrow> bool \<Rightarrow> nid \<Rightarrow> nid list \<Rightarrow> forest \<Rightarrow> forest option" where
  "child_infos env sub with_meta children [] st = Some st"
| "child_infos env sub with_meta children (c # cs) st =
     (case append_node children [] 0 st of
        Some (Some out, st1) \<Rightarrow>
          (case makeChildInfo env sub with_meta out c st1 of
             None \<Rightarrow> None | Some st2 \<Rightarrow> child_infos env sub with_meta children cs st2)
      | _ \<Rightarrow> None)"

section \<open>Operations on nodes\<close>

definition op_get :: "proto_env \<Rightarrow> sub_state \<Rightarrow> nid \<Rightarrow> nid \<Rightarrow> var \<Rightarrow> forest \<Rightarrow> forest option" where
  "op_get env sub req rep rid st =
     do {
       p \<leftarrow> get_text env st req ''path'';
       t \<leftarrow> findNode env req st;
       (case t of
          None \<Rightarrow> errorReply rep rid ''not_found'' (''node not found: '' @ p) st
        | Some target \<Rightarrow>
            reply_with rep rid ''data'' (\<lambda>data st1. do {
              q \<leftarrow> path_of st1 target (Some (pe_root env));
              st2 \<leftarrow> set_path data ''path'' (VString q) st1;
              st3 \<leftarrow> set_path data ''value'' (node_value st2 target) st2;
              has_depth \<leftarrow> find_field st3 req ''depth'';
              st4 \<leftarrow> (if has_depth = None then Some st3
                     else do {
                       (c, st4) \<leftarrow> at_path data ''tree'' st3;
                       dv \<leftarrow> get_path st4 req ''depth'';
                       depth \<leftarrow> toInt (-1) dv;
                       x \<leftarrow> exportTreeVar env st4 target (sint depth);
                       set_value c x st4 });
              m \<leftarrow> get_path st4 req ''meta'';
              (if toBool False m
               then do { (c, st5) \<leftarrow> at_path data ''meta'' st4; makeNodeMeta env sub c target st5 }
               else Some st4) }) st) }"

definition op_list :: "proto_env \<Rightarrow> sub_state \<Rightarrow> nid \<Rightarrow> nid \<Rightarrow> var \<Rightarrow> forest \<Rightarrow> forest option" where
  "op_list env sub req rep rid st =
     do {
       p \<leftarrow> get_text env st req ''path'';
       t \<leftarrow> findNode env req st;
       (case t of
          None \<Rightarrow> errorReply rep rid ''not_found'' (''node not found: '' @ p) st
        | Some target \<Rightarrow> do {
            m \<leftarrow> get_path st req ''meta'';
            reply_with rep rid ''data'' (\<lambda>data st1. do {
              q \<leftarrow> path_of st1 target (Some (pe_root env));
              st2 \<leftarrow> set_path data ''path'' (VString q) st1;
              (children, st3) \<leftarrow> at_path data ''children'' st2;
              child_infos env sub (toBool False m) children (kids st3 target) st3 }) st }) }"

text \<open>The data of a reply that only holds the path of the target.\<close>

definition reply_path :: "proto_env \<Rightarrow> nid \<Rightarrow> var \<Rightarrow> nid \<Rightarrow> forest \<Rightarrow> forest option" where
  "reply_path env rep rid target =
     reply_with rep rid ''data'' (\<lambda>data st1. do {
       q \<leftarrow> path_of st1 target (Some (pe_root env));
       set_path data ''path'' (VString q) st1 })"

definition op_set :: "proto_env \<Rightarrow> nid \<Rightarrow> nid \<Rightarrow> var \<Rightarrow> forest \<Rightarrow> forest option" where
  "op_set env req rep rid st =
     do {
       f \<leftarrow> find_field st req ''value'';
       (case f of
          None \<Rightarrow> errorReply rep rid ''invalid_params'' ''value is required'' st
        | Some value_node \<Rightarrow> do {
            (target, st1) \<leftarrow> ensureNode env req st;
            v \<leftarrow> exportNode False (Some value_node) st1;
            st2 \<leftarrow> set_value target v st1;
            reply_path env rep rid target st2 }) }"

definition op_put :: "proto_env \<Rightarrow> nid \<Rightarrow> nid \<Rightarrow> var \<Rightarrow> forest \<Rightarrow> forest option" where
  "op_put env req rep rid st =
     do {
       f \<leftarrow> find_field st req ''tree'';
       g \<leftarrow> (if f = None then find_field st req ''value'' else Some f);
       (case g of
          None \<Rightarrow> errorReply rep rid ''invalid_params'' ''tree is required'' st
        | Some tree_node \<Rightarrow> do {
            (target, st1) \<leftarrow> ensureNode env req st;
            v \<leftarrow> exportNode False (Some tree_node) st1;
            (_, st2) \<leftarrow> importNode (Some target) v \<lparr>auto_insert = True, auto_remove = True, auto_update = True\<rparr> st1;
            reply_path env rep rid target st2 }) }"

definition op_remove :: "proto_env \<Rightarrow> nid \<Rightarrow> nid \<Rightarrow> var \<Rightarrow> forest \<Rightarrow> forest option" where
  "op_remove env req rep rid st =
     do {
       p \<leftarrow> get_text env st req ''path'';
       (if p = [] then errorReply rep rid ''invalid_params'' ''cannot remove root'' st
        else do {
          (ok, st1) \<leftarrow> erase_path (pe_root env) p True st;
          (if \<not> ok then errorReply rep rid ''not_found'' (''node not found: '' @ p) st1
           else reply_with rep rid ''data'' (\<lambda>data. set_path data ''path'' (VString p)) st1) }) }"

definition op_trigger :: "proto_env \<Rightarrow> nid \<Rightarrow> nid \<Rightarrow> var \<Rightarrow> forest \<Rightarrow> forest option" where
  "op_trigger env req rep rid st =
     do {
       p \<leftarrow> get_text env st req ''path'';
       t \<leftarrow> findNode env req st;
       (case t of
          None \<Rightarrow> errorReply rep rid ''not_found'' (''node not found: '' @ p) st
        | Some target \<Rightarrow> do {
            st1 \<leftarrow> notify target (Changed target VNone VNone) NODE_CHANGED st;
            reply_path env rep rid target st1 }) }"

section \<open>Detached commands\<close>

text \<open>What happens when a detached pipeline ends, the first time: the task node is updated, an event is
  sent when the transport takes events, and the pipeline is destroyed.\<close>

definition task_path :: "string \<Rightarrow> string" where
  "task_path taskId = ''ve/server/tasks/'' @ taskId"

definition task_event :: "proto_env \<Rightarrow> var \<Rightarrow> string \<Rightarrow> presult \<Rightarrow> nid \<Rightarrow> forest \<Rightarrow> forest option" where
  "task_event env rid taskId res ev st =
     (let ok = isSuccess res \<or> isAccepted res
      in do {
        st1 \<leftarrow> set_path ev ''event'' (VString ''task.result'') st;
        st2 \<leftarrow> (if isNull rid then Some st1 else set_path ev ''id'' rid st1);
        st3 \<leftarrow> set_path ev ''task_id'' (VString taskId) st2;
        st4 \<leftarrow> set_path ev ''ok'' (VBool ok) st3;
        (if ok then set_path ev ''data'' (snd res) st4
         else do {
           st5 \<leftarrow> set_path ev ''code'' (VString (int_chars (fst res))) st4;
           set_path ev ''error'' (VString (var_text (pe_cust env) [] (snd res))) st5 }) })"

definition task_finalize :: "proto_env \<Rightarrow> nid \<Rightarrow> var \<Rightarrow> string \<Rightarrow> presult \<Rightarrow> forest \<Rightarrow> forest option" where
  "task_finalize env root rid taskId res st =
     (let ok = isSuccess res \<or> isAccepted res
      in do {
        t \<leftarrow> find_field st root (task_path taskId);
        st1 \<leftarrow> (case t of
                  None \<Rightarrow> Some st
                | Some task \<Rightarrow> do {
                    s1 \<leftarrow> set_path task ''status'' (VString (if ok then ''done'' else ''error'')) st;
                    s2 \<leftarrow> set_path task ''ok'' (VBool ok) s1;
                    (if ok then set_path task ''result'' (snd res) s2
                     else do {
                       s3 \<leftarrow> set_path task ''error'' (VString (var_text (pe_cust env) [] (snd res))) s2;
                       set_path task ''code'' (VInt (of_int (fst res))) s3 }) });
        (let (ev, st2) = new_node ''event'' st1
         in do {
           st3 \<leftarrow> task_event env rid taskId res ev st2;
           (let st4 = (case pe_send env of None \<Rightarrow> st3 | Some send \<Rightarrow> send ev st3)
            in map_option (pe_drop env taskId) (delete_node (next_id st4 + 1) ev st4)) }) })"

definition attach :: "proto_env \<Rightarrow> nid option \<Rightarrow> string \<Rightarrow> var \<Rightarrow> presult option \<Rightarrow> forest \<Rightarrow> (string \<times> forest) option" where
  "attach env task_root cmdKey rid ended st =
     (case task_root of
        None \<Rightarrow> Some ([], pe_drop env [] st)
      | Some root \<Rightarrow>
          (let taskId = pe_task_id env st
           in do {
             (task, st1) \<leftarrow> at_path root (task_path taskId) st;
             st2 \<leftarrow> set_path task ''status'' (VString ''running'') st1;
             st3 \<leftarrow> set_path task ''ok'' (VBool False) st2;
             st4 \<leftarrow> set_path task ''cmd'' (VString cmdKey) st3;
             st5 \<leftarrow> (if isNull rid then Some st4 else set_path task ''id'' rid st4);
             st6 \<leftarrow> (case ended of None \<Rightarrow> Some st5 | Some res \<Rightarrow> task_finalize env root rid taskId res st5);
             Some (taskId, st6) }))"

section \<open>Commands\<close>

definition command_names :: "string list \<Rightarrow> string list" where
  "command_names keys = remdups_adj (sort keys)"

fun command_items :: "proto_env \<Rightarrow> nid \<Rightarrow> string list \<Rightarrow> forest \<Rightarrow> forest option" where
  "command_items env commands [] st = Some st"
| "command_items env commands (k # ks) st =
     (case append_node commands [] 0 st of
        Some (Some item, st1) \<Rightarrow>
          (case set_path item ''name'' (VString k) st1 of
             None \<Rightarrow> None
           | Some st2 \<Rightarrow>
               (case set_path item ''help'' (VString (pe_help env k)) st2 of
                  None \<Rightarrow> None | Some st3 \<Rightarrow> command_items env commands ks st3))
      | _ \<Rightarrow> None)"

definition op_command_list :: "proto_env \<Rightarrow> nid \<Rightarrow> var \<Rightarrow> forest \<Rightarrow> forest option" where
  "op_command_list env rep rid =
     reply_with rep rid ''data'' (\<lambda>data st1. do {
       (commands, st2) \<leftarrow> at_path data ''commands'' st1;
       command_items env commands (command_names (pe_keys env)) st2 })"

definition reply_result :: "proto_env \<Rightarrow> nid \<Rightarrow> var \<Rightarrow> presult \<Rightarrow> forest \<Rightarrow> forest option" where
  "reply_result env rep rid res st =
     (if isSuccess res \<or> isAccepted res then okReply_var rep rid (snd res) st
      else errorReply rep rid ''command_failed'' (var_text (pe_cust env) [] (snd res)) st)"

definition command_args :: "nid \<Rightarrow> forest \<Rightarrow> var option" where
  "command_args req st =
     do {
       a \<leftarrow> find_field st req ''args'';
       b \<leftarrow> (if a = None then find_field st req ''body'' else Some a);
       (case b of None \<Rightarrow> Some VNone | Some n \<Rightarrow> exportNode False (Some n) st) }"

definition op_command_run :: "proto_env \<Rightarrow> nid \<Rightarrow> nid \<Rightarrow> var \<Rightarrow> forest \<Rightarrow> forest option" where
  "op_command_run env req rep rid st =
     do {
       name \<leftarrow> get_text env st req ''name'';
       (if name = [] then errorReply rep rid ''invalid_params'' ''command name is required'' st
        else if \<not> pe_has env name then errorReply rep rid ''not_found'' (''unknown command: '' @ name) st
        else do {
          args \<leftarrow> command_args req st;
          w \<leftarrow> find_field st req ''wait'';
          wv \<leftarrow> get_path st req ''wait'';
          (if w = None \<or> toBool True wv
           then do {
             (res, st1) \<leftarrow> pe_call env name args st;
             reply_result env rep rid res st1 }
           else do {
             (res, detached, st1) \<leftarrow> pe_call_async env name args st;
             (case detached of
                None \<Rightarrow> reply_result env rep rid res st1
              | Some ended \<Rightarrow>
                  (case pe_tasks env of
                     None \<Rightarrow> errorReply rep rid ''internal_error'' ''task service unavailable'' (pe_drop env [] st1)
                   | Some task_root \<Rightarrow> do {
                       (taskId, st2) \<leftarrow> attach env task_root name rid ended st1;
                       (if taskId = [] then errorReply rep rid ''internal_error'' ''failed to start task'' st2
                        else acceptedReply rep rid taskId st2) })) }) }) }"

section \<open>Subscriptions\<close>

definition unsupported_text :: string where
  "unsupported_text = ''subscriptions are not supported on this transport''"

definition op_subscribe :: "proto_env \<Rightarrow> nid \<Rightarrow> nid \<Rightarrow> var \<Rightarrow> sub_state \<times> forest \<Rightarrow> (sub_state \<times> forest) option" where
  "op_subscribe env req rep rid s =
     (case fst s of
        None \<Rightarrow> map_option (Pair None) (errorReply rep rid ''unsupported'' unsupported_text (snd s))
      | Some (sv, c) \<Rightarrow>
          if \<not> pe_allow_subs env then map_option (Pair (fst s)) (errorReply rep rid ''unsupported'' unsupported_text (snd s))
          else do {
            p \<leftarrow> get_text env (snd s) req ''path'';
            b \<leftarrow> get_path (snd s) req ''bubble'';
            t \<leftarrow> get_path (snd s) req ''tree'';
            (sv1, c1, st1) \<leftarrow> subscribe_path (pe_session env) p (toBool False b) (toBool False t) sv c (snd s);
            st2 \<leftarrow> reply_with rep rid ''data'' (\<lambda>data st. do {
              st1 \<leftarrow> set_path data ''path'' (VString p) st;
              set_path data ''subscribed'' (VBool True) st1 }) st1;
            Some (Some (sv1, c1), st2) })"

definition op_unsubscribe :: "proto_env \<Rightarrow> nid \<Rightarrow> nid \<Rightarrow> var \<Rightarrow> sub_state \<times> forest \<Rightarrow> (sub_state \<times> forest) option" where
  "op_unsubscribe env req rep rid s =
     (case fst s of
        None \<Rightarrow> map_option (Pair None) (errorReply rep rid ''unsupported'' unsupported_text (snd s))
      | Some (sv, c) \<Rightarrow>
          if \<not> pe_allow_subs env then map_option (Pair (fst s)) (errorReply rep rid ''unsupported'' unsupported_text (snd s))
          else do {
            p \<leftarrow> get_text env (snd s) req ''path'';
            st1 \<leftarrow> reply_with rep rid ''data'' (\<lambda>data st. do {
              st1 \<leftarrow> set_path data ''path'' (VString p) st;
              set_path data ''subscribed'' (VBool False) st1 }) (snd s);
            Some (Some (unsubscribe_path (pe_session env) p sv c), st1) })"

section \<open>Dispatch\<close>

definition simple_op :: "proto_env \<Rightarrow> string \<Rightarrow> nid \<Rightarrow> nid \<Rightarrow> var \<Rightarrow> sub_state \<times> forest \<Rightarrow> (sub_state \<times> forest) option" where
  "simple_op env op req rep rid s =
     (let sub = fst s; st = snd s; keep = map_option (Pair sub)
      in if op = ''node.get'' then keep (op_get env sub req rep rid st)
         else if op = ''node.list'' then keep (op_list env sub req rep rid st)
         else if op = ''node.set'' then keep (op_set env req rep rid st)
         else if op = ''node.put'' then keep (op_put env req rep rid st)
         else if op = ''node.remove'' then keep (op_remove env req rep rid st)
         else if op = ''node.trigger'' then keep (op_trigger env req rep rid st)
         else if op = ''command.list'' then keep (op_command_list env rep rid st)
         else if op = ''command.run'' then keep (op_command_run env req rep rid st)
         else if op = ''subscribe'' then op_subscribe env req rep rid s
         else if op = ''unsubscribe'' then op_unsubscribe env req rep rid s
         else keep (errorReply rep rid ''unknown_op'' (''unknown op: '' @ op) st))"

text \<open>A batch answers the items one after the other, each with a reply of its own in a local list; an
  item may be a batch again, down to the depth given as fuel. Items send no events.\<close>

fun dispatchNode :: "nat \<Rightarrow> proto_env \<Rightarrow> nid \<Rightarrow> nid \<Rightarrow> sub_state \<times> forest \<Rightarrow> (sub_state \<times> forest) option"
  and dispatch_items :: "nat \<Rightarrow> proto_env \<Rightarrow> nid \<Rightarrow> nid list \<Rightarrow> sub_state \<times> forest \<Rightarrow> (sub_state \<times> forest) option" where
  "dispatchNode 0 env req rep s = None"
| "dispatchNode (Suc fuel) env req rep s =
     do {
       rid \<leftarrow> get_path (snd s) req ''id'';
       op \<leftarrow> get_text env (snd s) req ''op'';
       (if op = [] then map_option (Pair (fst s)) (errorReply rep rid ''invalid_request'' ''op is required'' (snd s))
        else if op = ''batch'' then do {
          f \<leftarrow> find_field (snd s) req ''items'';
          (case f of
             None \<Rightarrow> map_option (Pair (fst s)) (errorReply rep rid ''invalid_params'' ''items array required'' (snd s))
           | Some items_node \<Rightarrow>
               if 0 < pe_limit env \<and> pe_limit env < count (snd s) items_node
               then map_option (Pair (fst s)) (errorReply rep rid ''invalid_params'' ''batch size exceeds limit'' (snd s))
               else (let (items, st1) = new_node ''items'' (snd s)
                     in do {
                       s2 \<leftarrow> dispatch_items fuel (env\<lparr>pe_send := None\<rparr>) items (kids st1 items_node) (fst s, st1);
                       st3 \<leftarrow> okReply_data rep rid items (snd s2);
                       st4 \<leftarrow> delete_node (next_id st3 + 1) items st3;
                       Some (fst s2, st4) })) }
        else simple_op env op req rep rid s) }"
| "dispatch_items fuel env items [] s = Some s"
| "dispatch_items fuel env items (c # cs) s =
     (case append_node items [] 0 (snd s) of
        Some (Some r, st1) \<Rightarrow>
          (case dispatchNode fuel env c r (fst s, st1) of
             None \<Rightarrow> None | Some s2 \<Rightarrow> dispatch_items fuel env items cs s2)
      | _ \<Rightarrow> None)"

end
