(* ===== verification/Protocol_Reply.thy ===== *)
theory Protocol_Reply
  imports Node_Protocol
begin

text \<open>
  Reading the fields of a request and writing those of a reply, on trees without shadows: the lemmas
  behind the properties of the node protocol. Requests and replies are described by their shape.
\<close>

section \<open>Field names\<close>

definition field_name :: "string \<Rightarrow> bool" where
  "field_name k \<longleftrightarrow> k \<noteq> [] \<and> VE_NODE_PATH_SEP \<notin> set k \<and> VE_NODE_KEY_SEP \<notin> set k"

lemma field_names [simp]:
  "field_name ''ok''" "field_name ''id''" "field_name ''op''" "field_name ''data''" "field_name ''code''" "field_name ''error''"
  "field_name ''path''" "field_name ''value''" "field_name ''tree''" "field_name ''depth''" "field_name ''meta''" "field_name ''items''"
  "field_name ''name''" "field_name ''accepted''" "field_name ''task_id''"
  by code_simp+

lemma field_start: "field_name k \<Longrightarrow> path_start st n k VE_NODE_PATH_SEP = Some (n, [k])"
proof -
  assume k: "field_name k"
  then have "hd k \<noteq> VE_NODE_PATH_SEP" by (cases k) (auto simp: field_name_def)
  then show ?thesis using k segments_single by (simp add: path_start_def field_name_def)
qed

section \<open>Reading fields\<close>

fun tree_value :: "ntree \<Rightarrow> var" where
  "tree_value (NT nm v ts) = v"

definition field :: "string \<Rightarrow> ntree list \<Rightarrow> ntree option" where
  "field k ts = List.find (\<lambda>t. tree_name t = k) ts"

definition field_value :: "string \<Rightarrow> ntree list \<Rightarrow> var" where
  "field_value k ts = (case field k ts of None \<Rightarrow> VNone | Some t \<Rightarrow> tree_value t)"

lemma shaped_value: "shaped st n t \<Longrightarrow> node_value st n = tree_value t"
  by (cases t) simp

lemma find_shapes:
  "list_all2 (shaped st) cs ts \<Longrightarrow>
     (case field k ts of
        None \<Rightarrow> filter (\<lambda>c. name_of st c = k) cs = []
      | Some t \<Rightarrow> \<exists>c ds. filter (\<lambda>c. name_of st c = k) cs = c # ds \<and> c \<in> set cs \<and> shaped st c t)"
proof (induction rule: list_all2_induct)
  case (Cons c cs t ts)
  then show ?case using shaped_name [OF Cons.hyps(1)] by (auto simp: field_def split: option.splits)
qed (simp add: field_def)

lemma find_field_shape:
  assumes ok: "forest_ok st" "plain st" and sh: "shaped st n (NT nm v ts)" and k: "field_name k"
  shows "case field k ts of
      None \<Rightarrow> find_field st n k = Some None
    | Some t \<Rightarrow> \<exists>c. find_field st n k = Some (Some c) \<and> c \<in> set (kids st n) \<and> shaped st c t"
proof -
  have n: "alive st n" and ks: "list_all2 (shaped st) (kids st n) ts" using sh by simp_all
  have "find_field st n k = find_path st n k False VE_NODE_PATH_SEP VE_NODE_KEY_SEP"
    unfolding find_field_def by (rule find_path_plain [OF ok(2,1) n])
  then have "find_field st n k = Some (case named_kids st n k of [] \<Rightarrow> None | c # _ \<Rightarrow> Some c)"
    using find_simple [OF ok(1) n] k by (simp add: field_name_def)
  then show ?thesis using find_shapes [OF ks, of k] by (auto simp: named_kids_def split: option.splits)
qed

lemma get_field_shape:
  assumes "forest_ok st" "plain st" "shaped st n (NT nm v ts)" "field_name k"
  shows "get_path st n k = Some (field_value k ts)"
  using find_field_shape [OF assms] shaped_value
  by (auto simp: get_path_def field_value_def simp flip: find_field_def split: option.splits)

section \<open>Writing fields\<close>

text \<open>The children of \<open>n\<close> grow at the end by the given trees, and nothing else changes.\<close>

definition grown :: "nid \<Rightarrow> forest \<Rightarrow> forest \<Rightarrow> ntree list \<Rightarrow> bool" where
  "grown n st st' ts \<longleftrightarrow> plain st' \<and> beside n st st' \<and> node_value st' n = node_value st n
     \<and> (\<exists>cs. kids st' n = kids st n @ cs \<and> list_all2 (shaped st') cs ts)"

lemma grown_refl: "forest_ok st \<Longrightarrow> plain st \<Longrightarrow> grown n st st []"
  by (simp add: grown_def beside_refl)

lemma grown_ok: "grown n st st' ts \<Longrightarrow> forest_ok st' \<and> plain st'"
  by (simp add: grown_def beside_def)

lemma grown_alive: "grown n st st' ts \<Longrightarrow> alive st m \<Longrightarrow> alive st' m"
  by (simp add: grown_def beside_def)

lemma grown_trans:
  assumes n: "alive a n" and g: "grown n a b ts" "grown n b c us"
  shows "grown n a c (ts @ us)"
proof -
  have okb: "forest_ok b" "alive b n" using g(1) n by (simp_all add: grown_def beside_def)
  obtain cs ds where cs: "kids b n = kids a n @ cs" "list_all2 (shaped b) cs ts" "kids c n = kids b n @ ds" "list_all2 (shaped c) ds us"
    using g unfolding grown_def by blast
  have "list_all2 (shaped c) cs ts"
  proof (rule list.rel_mono_strong [OF cs(2)])
    fix x t assume "x \<in> set cs" "shaped b x t"
    then show "shaped c x t" using kid_shape [OF okb, of x c t] cs(1) g(2) by (simp add: grown_def)
  qed
  then have "list_all2 (shaped c) (cs @ ds) (ts @ us)" using cs(4) by (rule list_all2_appendI)
  moreover have "beside n a c" using g beside_trans unfolding grown_def by blast
  ultimately show ?thesis using g cs by (auto simp: grown_def)
qed

lemma grown_names:
  assumes ok: "forest_ok st" and n: "alive st n" and g: "grown n st st' ts"
  shows "name_of st' ` set (kids st' n) = name_of st ` set (kids st n) \<union> set (map tree_name ts)"
proof -
  obtain cs where cs: "kids st' n = kids st n @ cs" "list_all2 (shaped st') cs ts" using g unfolding grown_def by blast
  have "name_of st' c = name_of st c" if "c \<in> set (kids st n)" for c
    using kid_facts [OF ok n that] g by (simp add: grown_def beside_def)
  moreover have "set (map tree_name ts) = name_of st' ` set cs"
    using arg_cong [OF list_all2_shaped_names [OF cs(2)], of set] by simp
  ultimately show ?thesis by (simp add: cs(1) image_Un)
qed

lemma grown_shape:
  assumes ok: "forest_ok st" and sh: "shaped st n (NT nm v us)" and g: "grown n st st' ts"
  shows "shaped st' n (NT nm v (us @ ts))"
proof -
  have n: "alive st n" and ks: "list_all2 (shaped st) (kids st n) us" using sh by simp_all
  obtain cs where cs: "kids st' n = kids st n @ cs" "list_all2 (shaped st') cs ts" using g unfolding grown_def by blast
  have "list_all2 (shaped st') (kids st n) us"
  proof (rule list.rel_mono_strong [OF ks])
    fix x t assume "x \<in> set (kids st n)" "shaped st x t"
    then show "shaped st' x t" using kid_shape [OF ok n] g by (simp add: grown_def)
  qed
  then show ?thesis using sh g cs by (auto simp: grown_def beside_def list_all2_appendI)
qed

text \<open>A field that is not there yet is appended.\<close>

lemma at_fresh:
  assumes ok: "forest_ok st" "plain st" and n: "alive st n" and k: "field_name k" "k \<notin> name_of st ` set (kids st n)"
  shows "\<exists>c st1. at_path n k st = Some (c, st1) \<and> \<not> alive st c \<and> grown n st st1 [NT k VNone []]
    \<and> kids st1 n = kids st n @ [c] \<and> alive st1 c \<and> kids st1 c = [] \<and> node_value st1 c = VNone \<and> name_of st1 c = k
    \<and> parent st1 c = Some n"
proof -
  have kn: "k \<noteq> []" using k(1) by (simp add: field_name_def)
  have nk: "named_kids st n k = []" using k(2) by (auto simp: named_kids_def filter_empty_conv)
  have z: "child_named st n k 0 = None" "count_named st n k = 0"
    using child_named_spec [OF ok(1) n kn] count_named_spec [OF ok(1) n kn] nk by simp_all
  obtain c st1 where a: "append_node n k 0 st = Some (Some c, st1)" "\<not> alive st c" "beside n st st1"
    "kids st1 n = kids st n @ [c]" "alive st1 c" "name_of st1 c = k" "kids st1 c = []" "node_value st1 c = VNone"
    "node_value st1 n = node_value st n"
    using append_fresh [OF ok(1) n, of k] by blast
  have ok1: "forest_ok st1" "alive st1 n" using a(3) n by (simp_all add: beside_def)
  have "child_named st1 n k 0 = Some c"
  proof -
    have "filter (\<lambda>d. name_of st1 d = k) (kids st n) = []"
      using k(2) kid_facts [OF ok(1) n] a(3) by (auto simp: filter_empty_conv beside_def)
    then have "named_kids st1 n k = [c]" by (simp add: named_kids_def a(4,6))
    then show ?thesis using child_named_spec [OF ok1 kn] by simp
  qed
  then have "ensure_key n k False VE_NODE_KEY_SEP st = Some (Some c, st1)"
    using plain_key [of VE_NODE_KEY_SEP k] k(1) kn a(1) z by (simp add: ensure_key_def ensure_named_def field_name_def)
  then have "ensure_path n k True VE_NODE_PATH_SEP VE_NODE_KEY_SEP st = Some (Some c, st1)"
    using ensure_key_plain_tree [OF ok(2) n, of k True] by (simp add: ensure_path_def field_start [OF k(1)])
  moreover have "grown n st st1 [NT k VNone []]"
    using a plain_append [OF a(1) ok(2)] by (auto simp: grown_def)
  moreover have "parent st1 c = Some n" using kid_facts [OF ok1, of c] a(4) by simp
  ultimately show ?thesis using a by (simp add: at_path_def)
qed

lemma set_fresh:
  assumes ok: "forest_ok st" "plain st" and n: "alive st n" and k: "field_name k" "k \<notin> name_of st ` set (kids st n)"
  shows "\<exists>st'. set_path n k v st = Some st' \<and> grown n st st' [NT k v []]"
proof -
  obtain c st1 where c: "at_path n k st = Some (c, st1)" "\<not> alive st c" "grown n st st1 [NT k VNone []]"
    "kids st1 n = kids st n @ [c]" "alive st1 c" "kids st1 c = []" "name_of st1 c = k"
    using at_fresh [OF assms] by blast
  have ok1: "forest_ok st1" "plain st1" using grown_ok [OF c(3)] by simp_all
  obtain st2 where st2: "set_value c v st1 = Some st2" "beside c st1 st2" "kids st2 c = kids st1 c" "node_value st2 c = v"
    using set_value_beside [OF ok1(1) c(5)] by blast
  have nc: "n \<noteq> c" using n c(2) by blast
  have n1: "alive st1 n" by (rule grown_alive [OF c(3) n])
  have "kids st2 n = kids st n @ [c]" "node_value st2 n = node_value st n"
    using st2(2) nc n1 c(3,4) by (simp_all add: beside_def grown_def)
  moreover have "shaped st2 c (NT k v [])" using st2 c(5-7) by (simp add: beside_def)
  moreover have "beside n st st2" using beside_inner [OF _ st2(2) c(2)] c(3) by (simp add: grown_def)
  moreover have "plain st2" using plain_set_value [OF st2(1)] ok1(2) by simp
  ultimately have "grown n st st2 [NT k v []]" by (auto simp: grown_def)
  moreover have "ensure_path n k True VE_NODE_PATH_SEP VE_NODE_KEY_SEP st = Some (Some c, st1)"
    using c(1) by (auto simp: at_path_def split: option.splits)
  ultimately show ?thesis using st2(1) by (simp add: set_path_def)
qed

text \<open>Several fields one after the other.\<close>

fun set_fields :: "nid \<Rightarrow> (string \<times> var) list \<Rightarrow> forest \<Rightarrow> forest option" where
  "set_fields n [] st = Some st"
| "set_fields n ((k, v) # kvs) st = do { st1 \<leftarrow> set_path n k v st; set_fields n kvs st1 }"

definition field_trees :: "(string \<times> var) list \<Rightarrow> ntree list" where
  "field_trees kvs = map (\<lambda>(k, v). NT k v []) kvs"

lemma field_trees_simps [simp]:
  "field_trees [] = []" "field_trees ((k, v) # kvs) = NT k v [] # field_trees kvs"
  "field_trees (xs @ ys) = field_trees xs @ field_trees ys" "map tree_name (field_trees kvs) = map fst kvs"
  by (auto simp: field_trees_def)

lemma set_fields_fresh:
  "forest_ok st \<Longrightarrow> plain st \<Longrightarrow> alive st n \<Longrightarrow> list_all field_name (map fst kvs) \<Longrightarrow> distinct (map fst kvs)
    \<Longrightarrow> name_of st ` set (kids st n) \<inter> fst ` set kvs = {}
    \<Longrightarrow> \<exists>st'. set_fields n kvs st = Some st' \<and> grown n st st' (field_trees kvs)"
proof (induction kvs arbitrary: st)
  case Nil
  then show ?case by (simp add: grown_refl)
next
  case (Cons kv kvs)
  obtain k v where kv: "kv = (k, v)" by force
  obtain st1 where st1: "set_path n k v st = Some st1" "grown n st st1 [NT k v []]"
    using set_fresh [OF Cons.prems(1-3), of k v] Cons.prems(4,6) by (auto simp: kv)
  have ok1: "forest_ok st1" "plain st1" "alive st1 n" using grown_ok [OF st1(2)] grown_alive [OF st1(2) Cons.prems(3)] by simp_all
  have "name_of st1 ` set (kids st1 n) \<inter> fst ` set kvs = {}"
    using grown_names [OF Cons.prems(1,3) st1(2)] Cons.prems(5,6) by (auto simp: kv)
  then obtain st2 where st2: "set_fields n kvs st1 = Some st2" "grown n st1 st2 (field_trees kvs)"
    using Cons.IH [OF ok1] Cons.prems(4,5) by (auto simp: kv)
  then show ?case using st1 grown_trans [OF Cons.prems(3) st1(2) st2(2)] by (auto simp: kv)
qed

section \<open>Replies\<close>

definition head_fields :: "bool \<Rightarrow> var \<Rightarrow> (string \<times> var) list" where
  "head_fields b rid = (''ok'', VBool b) # (if isNull rid then [] else [(''id'', rid)])"

definition error_fields :: "var \<Rightarrow> string \<Rightarrow> string \<Rightarrow> (string \<times> var) list" where
  "error_fields rid code msg = head_fields False rid @ [(''code'', VString code), (''error'', VString msg)]"

lemma set_fields_append: "set_fields n (xs @ ys) st = do { st1 \<leftarrow> set_fields n xs st; set_fields n ys st1 }"
  by (induction xs arbitrary: st) (auto split: bind_split)

lemma set_fields_funs: "set_fields n [] = Some" "set_fields n [(k, v)] = set_path n k v"
proof -
  show nil: "set_fields n [] = Some" by (simp add: fun_eq_iff)
  show "set_fields n [(k, v)] = set_path n k v" by (simp add: fun_eq_iff nil)
qed

lemma okReply_fields: "okReply rep rid st = do { st1 \<leftarrow> clear rep True st; set_fields rep (head_fields True rid) st1 }"
  by (auto simp: okReply_def head_fields_def set_fields_funs Option.bind_runit)

lemma errorReply_fields:
  "errorReply rep rid code msg st = do { st1 \<leftarrow> clear rep True st; set_fields rep (error_fields rid code msg) st1 }"
  by (auto simp: errorReply_def error_fields_def head_fields_def set_fields_append set_fields_funs Option.bind_runit split: bind_split)

lemma clear_childless:
  assumes ok: "forest_ok st" "plain st" and n: "alive st n" "kids st n = []"
  shows "\<exists>s. clear n True st = Some s \<and> grown n st s [] \<and> kids s n = []"
proof -
  obtain s where s: "clear n True st = Some s" "forest_ok s" "\<And>m. alive s m = (alive st m \<and> m \<notin> (\<Union>c \<in> set (kids st n). dset st c))"
    "kids s n = []"
    "\<And>m. alive s m \<Longrightarrow> (m \<noteq> n \<longrightarrow> kids s m = kids st m) \<and> parent s m = parent st m \<and> name_of s m = name_of st m \<and> node_value s m = node_value st m"
    using clear_spec [OF ok(1) n(1)] by (elim exE conjE) (rule that, blast+)
  have "beside n st s" "node_value s n = node_value st n" using s n by (auto simp: beside_def)
  then have "grown n st s []" using s(1,4) n(2) plain_clear [OF s(1) ok(2)] by (simp add: grown_def)
  then show ?thesis using s(1,4) by blast
qed

lemma head_names: "fst ` set (head_fields b rid) \<subseteq> {''ok'', ''id''}" "list_all field_name (map fst (head_fields b rid))"
  "distinct (map fst (head_fields b rid))"
  by (simp_all add: head_fields_def)

lemma fill_childless:
  assumes ok: "forest_ok st" "plain st" and n: "alive st n" "kids st n = []"
    and k: "list_all field_name (map fst kvs)" "distinct (map fst kvs)"
  shows "\<exists>s. do { st1 \<leftarrow> clear n True st; set_fields n kvs st1 } = Some s \<and> grown n st s (field_trees kvs)"
proof -
  obtain s where s: "clear n True st = Some s" "grown n st s []" "kids s n = []" using clear_childless [OF ok n] by blast
  have s1: "forest_ok s" "plain s" "alive s n" using grown_ok [OF s(2)] grown_alive [OF s(2) n(1)] by simp_all
  obtain s' where "set_fields n kvs s = Some s'" "grown n s s' (field_trees kvs)"
    using set_fields_fresh [OF s1 k] s(3) by auto
  then show ?thesis using s(1) grown_trans [OF n(1) s(2)] by fastforce
qed

lemma errorReply_spec:
  assumes "forest_ok st" "plain st" "alive st rep" "kids st rep = []"
  shows "\<exists>s. errorReply rep rid code msg st = Some s \<and> grown rep st s (field_trees (error_fields rid code msg))"
  unfolding errorReply_fields
  by (rule fill_childless [OF assms]) (use head_names in \<open>auto simp: error_fields_def head_fields_def\<close>)

lemma okReply_spec:
  assumes "forest_ok st" "plain st" "alive st rep" "kids st rep = []"
  shows "\<exists>s. okReply rep rid st = Some s \<and> grown rep st s (field_trees (head_fields True rid))"
  unfolding okReply_fields by (rule fill_childless [OF assms head_names(2,3)])

section \<open>Replies with data\<close>

lemma new_node_facts:
  assumes ok: "forest_ok st" "plain st" and d: "new_node nm st = (d, st1)"
  shows "d = next_id st" "\<not> alive st d" "forest_ok st1" "plain st1" "alive st1 d" "kids st1 d = []" "node_value st1 d = VNone"
    "name_of st1 d = nm" "parent st1 d = None" "beside x st st1"
    "alive st m \<Longrightarrow> kids st1 m = kids st m \<and> node_value st1 m = node_value st m"
proof -
  have dd: "d = next_id st" "heap st1 = (\<lambda>m. if m \<in> set [d] then Some (blank nm) else heap st m)" "next_id st1 = d + 1"
    using d by (auto simp: new_node_eq fun_eq_iff)
  show "d = next_id st" by (rule dd(1))
  note g = forest_ok_fresh [OF ok(1) _ _ dd(2,3), simplified]
  have al: "\<And>m. alive st1 m = (alive st m \<or> m = d)" and o1: "obj st1 d = blank nm"
    and oo: "\<And>m. alive st m \<Longrightarrow> m \<noteq> d \<and> obj st1 m = obj st m"
    using g by (auto simp: dd(1))
  show ok1: "forest_ok st1" using g by (simp add: dd(1))
  show "\<not> alive st d" using alive_less [OF ok(1), of d] dd(1) by auto
  show "plain st1" by (rule plain_new [OF d ok(2)])
  show "alive st1 d" by (simp add: al)
  show "kids st1 d = []" "node_value st1 d = VNone" "name_of st1 d = nm" "parent st1 d = None"
    using o1 by (simp_all add: kids_def blank_def node_value_def name_of_def parent_def)
  have same: "kids st1 m = kids st m \<and> node_value st1 m = node_value st m \<and> name_of st1 m = name_of st m \<and> parent st1 m = parent st m"
    if "alive st m" for m using oo [OF that] by (simp add: kids_def node_value_def name_of_def parent_def)
  then show "alive st m \<Longrightarrow> kids st1 m = kids st m \<and> node_value st1 m = node_value st m" by simp
  show "beside x st st1" using same al ok1 by (simp add: beside_def)
qed

lemma default_insert: "auto_insert default_copy"
  by (simp add: default_copy_def)

text \<open>Copying a detached tree onto a child that has just been made, and destroying the tree.\<close>

lemma copy_data:
  assumes ok: "forest_ok st" "plain st" and rep: "alive st rep"
    and d: "new_node nm st = (d, st1)" and fill: "grown d st1 st2 ts"
    and g: "grown rep st2 st3 us" and k: "field_name k" "k \<notin> name_of st3 ` set (kids st3 rep)"
  shows "\<exists>c st4 st5 st6. at_path rep k st3 = Some (c, st4) \<and> node_copy default_copy c (Some d) st4 = Some st5
    \<and> delete_node (next_id st5 + 1) d st5 = Some st6 \<and> grown rep st st6 (us @ [NT k VNone ts])"
proof -
  note nd = new_node_facts [OF ok d]
  have ok2: "forest_ok st2" "plain st2" "alive st2 d" using grown_ok [OF fill] grown_alive [OF fill nd(5)] by simp_all
  have b1: "beside d st st1" by (rule nd(10))
  have b2: "beside d st1 st2" using fill by (simp add: grown_def)
  have b: "beside rep st st2" by (rule beside_inner [OF nd(10) b2 nd(2)])
  have rd: "rep \<noteq> d" using rep nd(2) by blast
  have rep2: "alive st2 rep" "kids st2 rep = kids st rep" "node_value st2 rep = node_value st rep"
    using b2 nd(11) [OF rep] rd grown_alive [OF fill, of rep] b1 rep by (auto simp: beside_def)
  have sd2: "shaped st2 d (NT nm VNone ts)"
    using grown_shape [OF nd(3) _ fill, of nm VNone "[]"] nd by simp
  have ok3: "forest_ok st3" "plain st3" "alive st3 rep" using grown_ok [OF g] grown_alive [OF g rep2(1)] by simp_all
  obtain c st4 where c: "at_path rep k st3 = Some (c, st4)" "\<not> alive st3 c" "grown rep st3 st4 [NT k VNone []]"
    "kids st4 rep = kids st3 rep @ [c]" "alive st4 c" "kids st4 c = []" "node_value st4 c = VNone" "name_of st4 c = k" "parent st4 c = Some rep"
    using at_fresh [OF ok3 k] by blast
  have b4: "beside rep st2 st4" using g c(3) beside_trans unfolding grown_def by blast
  have b04: "beside rep st st4" by (rule beside_trans [OF b b4])
  have ok4: "forest_ok st4" "plain st4" "alive st4 rep" "alive st4 d" "parent st4 d = None"
    using grown_ok [OF c(3)] b4 rep2(1) ok2(3) nd(9) b2 nd(5) by (auto simp: beside_def)
  text \<open>The local tree is none of the trees the reply or the old nodes belong to.\<close>
  have anc_rep: "d \<notin> anc st4 m" if "alive st m" for m
    using beside_anc [OF ok(1) b04 _ that, of d] anc_alive [OF ok(1), of d m] nd(2) by blast
  have "d \<noteq> c" using c(2) g ok2(3) by (auto simp: grown_def beside_def)
  have "d \<notin> anc st4 c" using anc_step [OF c(5,9)] anc_rep [OF rep] rd by auto
  have disj2: "rep \<notin> dset st2 d"
    using beside_anc [OF ok(1) b _ rep, of d] anc_alive [OF ok(1), of d rep] nd(2) rd by (auto simp: dset_anc)
  have sd4: "shaped st4 d (NT nm VNone ts)"
    by (rule shaped_beside [OF closed_dset [OF ok2(1,3)] b4 disj2 dset_self sd2])
  obtain st5 st6 where st6: "node_copy default_copy c (Some d) st4 = Some st5" "delete_node (next_id st5 + 1) d st5 = Some st6"
    "forest_ok st6" "shaped st6 c (NT (name_of st4 c) (final_value default_copy (node_value st4 c) VNone) ts)"
    and keep: "\<forall>m. alive st4 m \<and> m \<notin> dset st4 d \<and> m \<noteq> c \<longrightarrow> alive st6 m \<and> kids st6 m = kids st4 m
         \<and> node_value st6 m = node_value st4 m \<and> name_of st6 m = name_of st4 m \<and> parent st6 m = parent st4 m"
    using copy_and_delete [OF ok4(1) c(5,6) ok4(4,5) \<open>d \<noteq> c\<close> [symmetric] \<open>d \<notin> anc st4 c\<close> sd4 default_insert]
    by (elim exE conjE) (rule that)
  have "plain st5" using plain_copy(1) st6(1) ok4(2) by (auto simp: node_copy_def simp del: copy_node.simps)
  then have p6: "plain st6" using plain_delete(1) st6(2) by blast
  have keep_old: "alive st6 m \<and> kids st6 m = kids st4 m \<and> node_value st6 m = node_value st4 m \<and> name_of st6 m = name_of st4 m
      \<and> parent st6 m = parent st4 m" if "alive st m" for m
  proof -
    have "m \<noteq> d" "m \<noteq> c" using that nd(2) c(2) b g by (auto simp: beside_def grown_def)
    moreover have "alive st4 m" using that b04 by (simp add: beside_def)
    ultimately show ?thesis using keep anc_rep [OF that] by (simp add: dset_anc)
  qed
  obtain cs where cs: "kids st3 rep = kids st2 rep @ cs" "list_all2 (shaped st3) cs us" using g unfolding grown_def by blast
  have kc: "x \<in> set (kids st4 rep) \<Longrightarrow> x \<noteq> c \<Longrightarrow> d \<notin> dset st4 x \<and> c \<notin> dset st4 x \<and> dset st4 x \<inter> dset st4 d = {}" for x
  proof -
    assume x: "x \<in> set (kids st4 rep)" "x \<noteq> c"
    have px: "alive st4 x" "parent st4 x = Some rep" using kid_facts [OF ok4(1,3) x(1)] by simp_all
    have "d \<notin> anc st4 x" "x \<noteq> d" using anc_step [OF px] anc_rep [OF rep] rd px(2) ok4(5) by auto
    moreover from this have "m \<in> dset st4 x \<Longrightarrow> m \<notin> dset st4 d" for m
      using root_disjoint [OF ok4(1,5), of x m] by blast
    moreover have "c \<notin> dset st4 x"
      using siblings_disjoint [OF ok4(1,3) x(1), of c] c(4) x(2) dset_self [of c st4] by auto
    ultimately show ?thesis using dset_self [of d st4] by blast
  qed
  have "list_all2 (shaped st6) cs us"
  proof (rule list.rel_mono_strong [OF cs(2)])
    fix x t assume x: "x \<in> set cs" and sx: "shaped st3 x t"
    have x4: "x \<in> set (kids st4 rep)" "x \<in> set (kids st3 rep)" using x cs(1) c(4) by simp_all
    have "alive st3 x" using kid_facts [OF ok3(1,3) x4(2)] by simp
    then have xc: "x \<noteq> c" using c(2) by blast
    have s4: "shaped st4 x t" using kid_shape [OF ok3(1,3) x4(2) _ sx] c(3) by (simp add: grown_def)
    have a4: "alive st4 x" using kid_facts [OF ok4(1,3) x4(1)] by simp
    show "shaped st6 x t"
    proof (rule shaped_agree [OF closed_dset [OF ok4(1) a4] _ dset_self s4])
      fix m assume m: "m \<in> dset st4 x"
      then have "alive st4 m" "m \<notin> dset st4 d" "m \<noteq> c" using dset_alive [OF ok4(1) a4 m] kc [OF x4(1) xc] by auto
      then show "alive st6 m \<and> name_of st6 m = name_of st4 m \<and> node_value st6 m = node_value st4 m \<and> kids st6 m = kids st4 m"
        using keep by simp
    qed
  qed
  moreover have "shaped st6 c (NT k VNone ts)" using st6(4) c(7,8) by (simp add: final_value_none)
  moreover have "kids st6 rep = kids st rep @ cs @ [c]" "node_value st6 rep = node_value st rep"
    using keep_old [OF rep] c(3,4) cs(1) rep2 g by (simp_all add: grown_def)
  moreover have "beside rep st st6" using keep_old b04 st6(3) by (simp add: beside_def)
  ultimately have "grown rep st st6 (us @ [NT k VNone ts])"
    using p6 by (auto simp: grown_def intro!: list_all2_appendI)
  then show ?thesis using c(1) st6(1,2) by blast
qed

lemma reply_with_spec:
  assumes ok: "forest_ok st" "plain st" and rep: "alive st rep" "kids st rep = []"
    and fill: "\<And>d st1. new_node nm st = (d, st1) \<Longrightarrow> \<exists>st2. fill d st1 = Some st2 \<and> grown d st1 st2 ts"
  shows "\<exists>s. reply_with rep rid nm fill st = Some s
    \<and> grown rep st s (field_trees (head_fields True rid) @ [NT ''data'' VNone ts])"
proof -
  obtain d st1 where d: "new_node nm st = (d, st1)" by force
  note nd = new_node_facts [OF ok d]
  obtain st2 where st2: "fill d st1 = Some st2" "grown d st1 st2 ts" using fill [OF d] by blast
  have b: "beside rep st st2"
    by (rule beside_inner [OF nd(10) _ nd(2)]) (use st2(2) in \<open>simp add: grown_def\<close>)
  have rd: "rep \<noteq> d" using rep(1) nd(2) by blast
  have rep2: "alive st2 rep" "kids st2 rep = []"
    using b rep st2(2) nd(11) [OF rep(1)] rd nd(10) [of d] by (auto simp: beside_def grown_def)
  obtain st3 where st3: "okReply rep rid st2 = Some st3" "grown rep st2 st3 (field_trees (head_fields True rid))"
    using okReply_spec [OF _ _ rep2] grown_ok [OF st2(2)] by blast
  have "''data'' \<notin> name_of st3 ` set (kids st3 rep)"
    unfolding grown_names [OF conjunct1 [OF grown_ok [OF st2(2)]] rep2(1) st3(2)] by (simp add: rep2(2) head_fields_def)
  from copy_data [OF ok rep(1) d st2(2) st3(2) field_names(4) this]
  obtain c st4 st5 st6 where st6: "at_path rep ''data'' st3 = Some (c, st4)" "node_copy default_copy c (Some d) st4 = Some st5"
    "delete_node (next_id st5 + 1) d st5 = Some st6" "grown rep st st6 (field_trees (head_fields True rid) @ [NT ''data'' VNone ts])"
    by blast
  have "okReply_data rep rid d st2 = Some st5" using st3(1) st6(1,2) by (simp add: okReply_data_def)
  then have "reply_with rep rid nm fill st = Some st6" using d st2(1) st6(3) by (simp add: reply_with_def del: delete_node.simps)
  then show ?thesis using st6(4) by blast
qed

end
