(* ===== verification/Protocol_Props.thy ===== *)
theory Protocol_Props
  imports Protocol_Reply
begin

text \<open>
  What the node protocol promises: a request that cannot be served is answered by its error and changes
  nothing else, \<open>node.get\<close> returns the value at the path, \<open>node.set\<close> creates the path and stores the
  value that a later \<open>node.get\<close> returns - and \<open>node.set\<close> on a path that is no path ends the program.
\<close>

section \<open>Walking and writing below a root\<close>

lemma appended_beside: "appended n nm cs st st' \<Longrightarrow> beside n st st'"
  unfolding appended_def beside_def keeps_def by blast

lemma append_node_beside:
  assumes "forest_ok st" "alive st n" "append_node n nm ov st = Some (r, st')" "0 \<le> ov"
  shows "beside n st st'"
  using append_node_spec [OF assms(1,2,4), of nm] assms(3) appended_beside by fastforce

lemma ensure_key_beside:
  assumes ok: "forest_ok st" and n: "alive st n" and e: "ensure_key n key False sep st = Some (r, st')"
  shows "beside n st st'"
proof (cases "parseKey key sep")
  case (Key nm i)
  show ?thesis
  proof (cases "nm = []")
    case True
    then have "ensure_index n (int i) False st = Some (r, st')" using e Key by (simp add: ensure_key_def)
    moreover have "0 \<le> int i - count st n" if "child_index st n (int i) = None"
      using that by (simp add: child_index_spec count_spec split: if_splits)
    ultimately show ?thesis using append_node_beside [OF ok n] beside_refl [OF ok]
      by (fastforce simp: ensure_index_def split: option.splits)
  next
    case False
    then have "ensure_named n nm (int i) False st = Some (r, st')" using e Key by (simp add: ensure_key_def)
    moreover have "0 \<le> int i - count_named st n nm" if "child_named st n nm (int i) = None"
      using that child_named_spec [OF ok n False] count_named_spec [OF ok n False] by (simp split: if_splits)
    ultimately show ?thesis using append_node_beside [OF ok n] beside_refl [OF ok]
      by (fastforce simp: ensure_named_def split: option.splits)
  qed
qed (use e beside_refl [OF ok] in \<open>auto simp: ensure_key_def\<close>)

lemma dset_back:
  assumes ok: "forest_ok st" and n: "alive st n" and b: "beside n st st'" and d: "d \<in> set (kids st' n)"
    and m: "alive st m" "m \<in> dset st' d"
  shows "m \<in> dset st n"
proof -
  have ok': "forest_ok st'" "alive st' n" using b n by (simp_all add: beside_def)
  have "(n, d) \<in> edges st'" using kids_edges [OF ok'] d by simp
  then have "n \<in> anc st' m" using m(2) by (auto simp: dset_def anc_def)
  then show ?thesis using beside_anc [OF ok b _ m(1)] by (simp add: dset_anc)
qed

text \<open>Creating a path touches the children of nodes below its start only, and no name, parent or value.\<close>

definition rooted :: "nid set \<Rightarrow> forest \<Rightarrow> forest \<Rightarrow> bool" where
  "rooted S st st' \<longleftrightarrow> forest_ok st' \<and> (\<forall>m. alive st m \<longrightarrow> alive st' m \<and> name_of st' m = name_of st m
     \<and> parent st' m = parent st m \<and> node_value st' m = node_value st m \<and> (m \<notin> S \<longrightarrow> kids st' m = kids st m))"

lemma ensure_walk_rooted:
  "forest_ok st \<Longrightarrow> alive st n \<Longrightarrow> ensure_walk n False sep segs st = Some (r, st') \<Longrightarrow> rooted (dset st n) st st'"
proof (induction segs arbitrary: n st)
  case Nil
  then show ?case by (simp add: rooted_def)
next
  case (Cons seg segs)
  obtain r1 st1 where e: "ensure_key n seg False sep st = Some (r1, st1)" using Cons.prems(3) by (auto split: option.splits)
  have b: "beside n st st1" by (rule ensure_key_beside [OF Cons.prems(1,2) e])
  have v: "node_value st1 m = node_value st m" if "alive st m" for m
  proof (cases "parseKey seg sep")
    case (Key nm i)
    then show ?thesis using ensure_key_spec [OF Cons.prems(1,2) Key] e that by (auto simp: grows_def keeps_def)
  qed (use e in \<open>auto simp: ensure_key_def\<close>)
  have r1: "rooted (dset st n) st st1" using b v by (auto simp: rooted_def beside_def)
  have ok1: "forest_ok st1" "alive st1 n" using b Cons.prems(2) by (simp_all add: beside_def)
  show ?case
  proof (cases r1)
    case None
    then show ?thesis using e Cons.prems(3) r1 by simp
  next
    case (Some d)
    have dk: "d \<in> set (kids st1 n)"
    proof (cases "parseKey seg sep")
      case (Key nm i)
      then have "find_key st1 n seg False sep = Some (Some d)"
        using ensure_key_spec [OF Cons.prems(1,2) Key] e Some by auto
      then show ?thesis by (rule find_key_kid [OF ok1])
    qed (use e Some in \<open>auto simp: ensure_key_def\<close>)
    have "alive st1 d" using kid_facts [OF ok1 dk] by simp
    then have r2: "rooted (dset st1 d) st1 st'" using Cons.IH [OF ok1(1)] Cons.prems(3) e Some by simp
    have "kids st' m = kids st m" if m: "alive st m" "m \<notin> dset st n" for m
    proof -
      have "m \<notin> dset st1 d" using dset_back [OF Cons.prems(1,2) b dk m(1)] m(2) by blast
      then show ?thesis using r1 r2 m by (simp add: rooted_def)
    qed
    then show ?thesis using r1 r2 by (simp add: rooted_def)
  qed
qed

lemma rooted_shape:
  assumes "forest_ok st" "alive st n" "rooted S st st'" "dset st n \<inter> S = {}" "shaped st n t"
  shows "shaped st' n t"
proof (rule shaped_agree [OF closed_dset [OF assms(1,2)] _ dset_self assms(5)])
  fix m assume m: "m \<in> dset st n"
  then have "alive st m" "m \<notin> S" using dset_alive [OF assms(1,2) m] assms(4) by auto
  then show "alive st' m \<and> name_of st' m = name_of st m \<and> node_value st' m = node_value st m \<and> kids st' m = kids st m"
    using assms(3) by (simp add: rooted_def)
qed

text \<open>A walk sees names and children only.\<close>

lemma find_walk_same:
  assumes ok: "forest_ok st" "forest_ok st'"
    and eq: "\<And>m. m \<in> dset st r \<Longrightarrow> alive st' m \<and> name_of st' m = name_of st m \<and> kids st' m = kids st m"
    and r: "alive st r"
  shows "n \<in> dset st r \<Longrightarrow> find_walk st' n False sep segs = find_walk st n False sep segs"
proof (induction segs arbitrary: n)
  case (Cons seg segs)
  have n: "alive st n" "alive st' n" using dset_alive [OF ok(1) r Cons.prems] eq [OF Cons.prems] by simp_all
  have kd: "c \<in> dset st r" if "c \<in> set (kids st n)" for c
    using closed_dset [OF ok(1) r] Cons.prems that by (auto simp: closed_kids_def)
  have "filter (\<lambda>d. name_of st' d = nm) (kids st n) = filter (\<lambda>d. name_of st d = nm) (kids st n)" for nm
    using kd eq by (intro filter_cong) auto
  then have "named_kids st' n nm = named_kids st n nm" for nm using eq [OF Cons.prems] by (simp add: named_kids_def)
  then have "find_key st' n seg False sep = find_key st n seg False sep"
    using child_named_spec [OF ok(1) n(1)] child_named_spec [OF ok(2) n(2)] eq [OF Cons.prems]
    by (auto simp: find_key_plain child_index_spec split: key.split)
  then show ?case using Cons.IH kd find_key_kid [OF ok(1) n(1)] by (auto split: option.split)
qed simp

lemma path_total: "forest_ok st \<Longrightarrow> alive st n \<Longrightarrow> card (anc st n) < k \<Longrightarrow> \<exists>q. path k st n a = Some q"
proof (induction k arbitrary: n)
  case (Suc k)
  show ?case
  proof (cases "parent st n")
    case (Some p)
    have "alive st p" "card (anc st p) < k"
      using parent_alive [OF Suc.prems(1,2) Some] card_anc_parent [OF Suc.prems(1,2) Some] Suc.prems(3) by simp_all
    then obtain q where "path k st p a = Some q" using Suc.IH Suc.prems(1) by blast
    then show ?thesis using Some by (auto simp: Let_def)
  qed simp
qed simp

lemma path_more: "path k st n a = Some q \<Longrightarrow> k \<le> j \<Longrightarrow> path j st n a = Some q"
proof (induction k arbitrary: n j q)
  case (Suc k)
  obtain i where i: "j = Suc i" "k \<le> i" using Suc.prems(2) by (cases j) auto
  show ?case
  proof (cases "Some n = a \<or> parent st n = None")
    case False
    then obtain p where p: "parent st n = Some p" by blast
    show ?thesis
    proof (cases "Some p = a")
      case False2: False
      then obtain pp where pp: "path k st p a = Some pp" using Suc.prems(1) False p by (auto simp: Let_def split: option.splits)
      show ?thesis using Suc.IH [OF pp i(2)] Suc.prems(1) pp p False False2 i(1) by (simp add: Let_def)
    qed (use Suc.prems(1) p False i(1) in \<open>auto simp: Let_def split: option.splits\<close>)
  qed (use Suc.prems(1) i(1) in auto)
qed simp

lemma path_of_new:
  assumes ok: "forest_ok st" and n: "alive st n" and d: "new_node nm st = (d, st1)"
  shows "path_of st1 n a = path_of st n a"
proof -
  have dd: "d = next_id st" "heap st1 = (\<lambda>m. if m = d then Some (blank nm) else heap st m)" "next_id st1 = next_id st + 1"
    using d by (auto simp: new_node_eq fun_eq_iff)
  have oo: "obj st1 m = obj st m" if "alive st m" for m
    using that alive_less [OF ok that] dd(1,2) by (auto simp: obj_def)
  obtain q where q: "path (next_id st + 1) st n a = Some q" using path_total [OF ok n] card_anc_less [OF ok n] by (metis less_SucI Suc_eq_plus1)
  have "path k st1 n a = path k st n a" for k
    by (rule path_same [OF ok _ n]) (simp add: name_of_def parent_def oo)
  then have "path (next_id st1 + 1) st1 n a = Some q" using path_more [OF q, of "next_id st1 + 1"] dd(3) by simp
  then show ?thesis using q unfolding path_of_def by simp
qed

section \<open>Requests that fail\<close>

definition text_field :: "proto_env \<Rightarrow> string \<Rightarrow> ntree list \<Rightarrow> string" where
  "text_field env k fs = var_text (pe_cust env) [] (field_value k fs)"

lemma get_text_shape:
  assumes "forest_ok st" "plain st" "shaped st req (NT nm v fs)" "field_name k"
  shows "get_text env st req k = Some (text_field env k fs)"
  using get_field_shape [OF assms] by (simp add: get_text_def text_field_def)

lemma findNode_shape:
  assumes "forest_ok st" "plain st" "shaped st req (NT nm v fs)"
  shows "findNode env req st = find_field st (pe_root env) (text_field env ''path'' fs)"
  using get_text_shape [OF assms field_names(7)] by (simp add: findNode_def)

text \<open>The error of a request: its code and text, read off the fields of the request; \<open>missing\<close> says that
  there is no node at the path, \<open>subs\<close> that the transport takes subscriptions.\<close>

definition request_error :: "proto_env \<Rightarrow> bool \<Rightarrow> bool \<Rightarrow> ntree list \<Rightarrow> (string \<times> string) option" where
  "request_error env subs missing fs =
     (let op = text_field env ''op'' fs; p = text_field env ''path'' fs; nm = text_field env ''name'' fs;
          not_found = (if missing then Some (''not_found'', ''node not found: '' @ p) else None);
          need = (\<lambda>k what. if field k fs = None then Some (''invalid_params'', what) else None)
      in if op = [] then Some (''invalid_request'', ''op is required'')
         else if op = ''batch'' then need ''items'' ''items array required''
         else if op \<in> {''node.get'', ''node.list'', ''node.trigger''} then not_found
         else if op = ''node.set'' then need ''value'' ''value is required''
         else if op = ''node.put'' then (if field ''tree'' fs = None then need ''value'' ''tree is required'' else None)
         else if op = ''node.remove'' then (if p = [] then Some (''invalid_params'', ''cannot remove root'') else not_found)
         else if op = ''command.list'' then None
         else if op = ''command.run'' then
           (if nm = [] then Some (''invalid_params'', ''command name is required'')
            else if pe_has env nm then None else Some (''not_found'', ''unknown command: '' @ nm))
         else if op \<in> {''subscribe'', ''unsubscribe''} then
           (if subs then None else Some (''unsupported'', unsupported_text))
         else Some (''unknown_op'', ''unknown op: '' @ op))"

definition takes_subs :: "proto_env \<Rightarrow> sub_state \<Rightarrow> bool" where
  "takes_subs env sub \<longleftrightarrow> pe_allow_subs env \<and> sub \<noteq> None"

lemma find_field_None:
  assumes "forest_ok st" "plain st" "shaped st n (NT nm v fs)" "field_name k" "field k fs = None"
  shows "find_field st n k = Some None"
  using find_field_shape [OF assms(1-4)] assms(5) by simp

lemma find_field_Some:
  assumes "forest_ok st" "plain st" "shaped st n (NT nm v fs)" "field_name k" "field k fs = Some t"
  shows "\<exists>c. find_field st n k = Some (Some c) \<and> c \<in> set (kids st n) \<and> shaped st c t"
  using find_field_shape [OF assms(1-4)] assms(5) by simp

lemma erase_missing:
  assumes "forest_ok st" "plain st" "alive st n" "find_field st n p = Some None"
  shows "erase_path n p True st = Some (False, st)"
  using assms find_path_plain [OF assms(2,1,3), of p True] by (simp add: erase_path_def find_field_def)

lemma simple_error:
  assumes ok: "forest_ok st" "plain st" and req: "shaped st req (NT nm v fs)" and root: "alive st (pe_root env)"
    and e: "request_error env (takes_subs env sub) (find_field st (pe_root env) (text_field env ''path'' fs) = Some None) fs = Some (code, msg)"
    and op: "text_field env ''op'' fs = op" "op \<noteq> []" "op \<noteq> ''batch''"
  shows "simple_op env op req rep rid (sub, st) = map_option (Pair sub) (errorReply rep rid code msg st)"
proof -
  note r = get_text_shape [OF ok req] findNode_shape [OF ok req] find_field_None [OF ok req] erase_missing [OF ok root]
  note d = request_error_def Let_def simple_op_def takes_subs_def
  show ?thesis
  proof (cases "op \<in> {''node.get'', ''node.list'', ''node.trigger'', ''node.remove''}")
    case True
    then show ?thesis
      by (elim insertE emptyE)
        (use e op(1) in \<open>simp_all add: d op_get_def op_list_def op_trigger_def op_remove_def r split: if_splits\<close>)
  next
    case False
    show ?thesis
    proof (cases "op \<in> {''node.set'', ''node.put'', ''command.run''}")
      case True
      then show ?thesis
        by (elim insertE emptyE)
          (use e op(1) in \<open>simp_all add: d op_set_def op_put_def op_command_run_def r split: if_splits\<close>)
    next
      case F2: False
      show ?thesis
      proof (cases "op \<in> {''subscribe'', ''unsubscribe''}")
        case True
        then show ?thesis using e op(1)
          by (auto simp: d op_subscribe_def op_unsubscribe_def split: if_splits option.splits)
      next
        case F3: False
        then have "op \<noteq> ''command.list''" using e op by (auto simp: d)
        then show ?thesis using e op False F2 F3 by (simp add: d)
      qed
    qed
  qed
qed

text \<open>C40: A request with an error - no operation or an unknown one, a parameter missing, no node at its
  path, a command that is not registered, subscriptions where there are none - is answered by \<open>ok\<close>
  false, the request's \<open>id\<close> if it has one, the error's code and its text; and the reply is all that
  changes: every other node keeps its name, parent, value and children.\<close>

theorem protocol_errors:
  assumes "forest_ok st" "plain st" "alive st (pe_root env)"
    and "shaped st req (NT nm v fs)" "alive st rep" "kids st rep = []"
    and "request_error env (takes_subs env sub) (find_field st (pe_root env) (text_field env ''path'' fs) = Some None) fs
      = Some (code, msg)"
  shows "\<exists>st'. dispatchNode (Suc fuel) env req rep (sub, st) = Some (sub, st') \<and> forest_ok st'
    \<and> shaped st' rep (NT (name_of st rep) (node_value st rep) (field_trees (error_fields (field_value ''id'' fs) code msg)))
    \<and> (\<forall>m. alive st m \<and> m \<noteq> rep \<longrightarrow> alive st' m \<and> name_of st' m = name_of st m \<and> parent st' m = parent st m
         \<and> node_value st' m = node_value st m \<and> kids st' m = kids st m)"
proof -
  define rid where "rid = field_value ''id'' fs"
  obtain s where s: "errorReply rep rid code msg st = Some s" "grown rep st s (field_trees (error_fields rid code msg))"
    using errorReply_spec [OF assms(1,2,5,6)] by blast
  have i: "get_path st req ''id'' = Some rid" "get_text env st req ''op'' = Some (text_field env ''op'' fs)"
    using get_field_shape [OF assms(1,2,4), of "''id''"] get_text_shape [OF assms(1,2,4), of "''op''"] by (simp_all add: rid_def)
  have "dispatchNode (Suc fuel) env req rep (sub, st) = Some (sub, s)"
  proof (cases "text_field env ''op'' fs = [] \<or> text_field env ''op'' fs = ''batch''")
    case True
    then show ?thesis
      using i s(1) assms(7) find_field_None [OF assms(1,2,4), of "''items''"] by (auto simp: request_error_def Let_def split: if_splits)
  next
    case False
    then show ?thesis using i s(1) simple_error [OF assms(1,2,4,3,7) refl, of rep rid] by simp
  qed
  moreover have "shaped st rep (NT (name_of st rep) (node_value st rep) [])" using assms(5,6) by simp
  note grown_shape [OF assms(1) this s(2)]
  ultimately show ?thesis using s(2) grown_ok [OF s(2)]
    by (intro exI [of _ s]) (simp add: rid_def grown_def beside_def)
qed

section \<open>Reading\<close>

definition path_fields :: "string \<Rightarrow> (string \<times> var) list" where
  "path_fields q = [(''path'', VString q)]"

lemma outside_shape:
  assumes "forest_ok st" "shaped st n t" "beside x st st'" "x \<notin> dset st n"
  shows "shaped st' n t"
proof -
  have "alive st n" using assms(2) by (cases t) simp
  then show ?thesis by (rule shaped_beside [OF closed_dset [OF assms(1)] assms(3,4) dset_self assms(2)])
qed

text \<open>What was alive before a local node was made is not in its tree, and keeps its shape while it grows.\<close>

lemma local_shape:
  assumes ok: "forest_ok st" "plain st" and d: "new_node nm st = (d, st1)" and g: "grown d st1 st2 ts"
    and n: "shaped st n t"
  shows "shaped st2 n t"
proof -
  note nd = new_node_facts [OF ok d]
  have a: "alive st n" using n by (cases t) simp
  have "d \<notin> dset st n" using dset_alive [OF ok(1) a, of d] nd(2) by blast
  then have s1: "shaped st1 n t" by (rule outside_shape [OF ok(1) n nd(10)])
  have "d \<notin> dset st1 n"
  proof
    assume m: "d \<in> dset st1 n"
    have "n \<noteq> d" using a nd(2) by blast
    then have "n \<in> anc st1 d" using m by (simp add: dset_anc)
    then show False using anc_root [OF nd(9)] by simp
  qed
  moreover have "beside d st1 st2" using g by (simp add: grown_def)
  ultimately show ?thesis using outside_shape [OF nd(3) s1] by blast
qed

lemma toBool_None [simp]: "\<not> toBool False VNone"
  by simp

lemma reply_path_spec:
  assumes ok: "forest_ok st" "plain st" and rep: "alive st rep" "kids st rep = []"
    and t: "alive st t" and q: "path_of st t (Some (pe_root env)) = Some q"
  shows "\<exists>s. reply_path env rep rid t st = Some s
    \<and> grown rep st s (field_trees (head_fields True rid) @ [NT ''data'' VNone (field_trees (path_fields q))])"
  unfolding reply_path_def
proof (rule reply_with_spec [OF ok rep])
  fix d st1 assume d: "new_node ''data'' st = (d, st1)"
  note nd = new_node_facts [OF ok d]
  have "path_of st1 t (Some (pe_root env)) = Some q" using path_of_new [OF ok(1) t d] q by simp
  moreover obtain st2 where "set_path d ''path'' (VString q) st1 = Some st2" "grown d st1 st2 [NT ''path'' (VString q) []]"
    using set_fresh [OF nd(3-5) field_names(7)] nd(6) by auto
  ultimately show "\<exists>st2. do { q \<leftarrow> path_of st1 t (Some (pe_root env)); set_path d ''path'' (VString q) st1 } = Some st2
      \<and> grown d st1 st2 (field_trees (path_fields q))"
    by (simp add: path_fields_def)
qed

lemma op_get_spec:
  assumes ok: "forest_ok st" "plain st" and req: "shaped st req (NT nm v fs)" and rep: "alive st rep" "kids st rep = []"
    and t: "find_field st (pe_root env) (text_field env ''path'' fs) = Some (Some t)" "alive st t"
    and q: "path_of st t (Some (pe_root env)) = Some q"
    and no: "field ''depth'' fs = None" "\<not> toBool False (field_value ''meta'' fs)"
  shows "\<exists>s. op_get env sub req rep rid st = Some s
    \<and> grown rep st s (field_trees (head_fields True rid)
        @ [NT ''data'' VNone (field_trees (path_fields q @ [(''value'', node_value st t)]))])"
proof -
  have "\<exists>s. reply_with rep rid ''data'' (\<lambda>data st1. do {
              q \<leftarrow> path_of st1 t (Some (pe_root env));
              st2 \<leftarrow> set_path data ''path'' (VString q) st1;
              st3 \<leftarrow> set_path data ''value'' (node_value st2 t) st2;
              has_depth \<leftarrow> find_field st3 req ''depth'';
              st4 \<leftarrow> (if has_depth = None then Some st3
                     else do {
                       (c, st4) \<leftarrow> at_path data ''tree'' st3;
                       dv \<leftarrow> get_path st4 req ''depth'';
                       depth \<leftarrow> toInt (-1) dv;
                       x \<leftarrow> exportTreeVar env st4 t (sint depth);
                       set_value c x st4 });
              m \<leftarrow> get_path st4 req ''meta'';
              (if toBool False m
               then do { (c, st5) \<leftarrow> at_path data ''meta'' st4; makeNodeMeta env sub c t st5 }
               else Some st4) }) st = Some s
    \<and> grown rep st s (field_trees (head_fields True rid)
        @ [NT ''data'' VNone (field_trees (path_fields q @ [(''value'', node_value st t)]))])"
  proof (rule reply_with_spec [OF ok rep])
    fix d st1 assume d: "new_node ''data'' st = (d, st1)"
    note nd = new_node_facts [OF ok d]
    have q1: "path_of st1 t (Some (pe_root env)) = Some q" using path_of_new [OF ok(1) t(2) d] q by simp
    obtain st2 where st2: "set_path d ''path'' (VString q) st1 = Some st2" "grown d st1 st2 [NT ''path'' (VString q) []]"
      using set_fresh [OF nd(3-5) field_names(7)] nd(6) by auto
    have td: "t \<noteq> d" using t(2) nd(2) by blast
    have vt: "node_value st2 t = node_value st t"
      using st2(2) td nd(11) [OF t(2)] nd(10) [of d] t(2) by (simp add: grown_def beside_def)
    have ok2: "forest_ok st2" "plain st2" "alive st2 d" using grown_ok [OF st2(2)] grown_alive [OF st2(2) nd(5)] by simp_all
    have "''value'' \<notin> name_of st2 ` set (kids st2 d)"
      unfolding grown_names [OF nd(3,5) st2(2)] by (simp add: nd(6))
    then obtain st3 where st3: "set_path d ''value'' (node_value st t) st2 = Some st3"
      "grown d st2 st3 [NT ''value'' (node_value st t) []]"
      using set_fresh [OF ok2 field_names(8)] by blast
    note g = grown_trans [OF nd(5) st2(2) st3(2)]
    have ok3: "forest_ok st3" "plain st3" using grown_ok [OF g] by simp_all
    have r3: "shaped st3 req (NT nm v fs)" by (rule local_shape [OF ok d g req])
    have "find_field st3 req ''depth'' = Some None" by (rule find_field_None [OF ok3 r3 field_names(10) no(1)])
    moreover have "get_path st3 req ''meta'' = Some (field_value ''meta'' fs)" by (rule get_field_shape [OF ok3 r3 field_names(11)])
    ultimately show "\<exists>st2. do {
              q \<leftarrow> path_of st1 t (Some (pe_root env));
              st2 \<leftarrow> set_path d ''path'' (VString q) st1;
              st3 \<leftarrow> set_path d ''value'' (node_value st2 t) st2;
              has_depth \<leftarrow> find_field st3 req ''depth'';
              st4 \<leftarrow> (if has_depth = None then Some st3
                     else do {
                       (c, st4) \<leftarrow> at_path d ''tree'' st3;
                       dv \<leftarrow> get_path st4 req ''depth'';
                       depth \<leftarrow> toInt (-1) dv;
                       x \<leftarrow> exportTreeVar env st4 t (sint depth);
                       set_value c x st4 });
              m \<leftarrow> get_path st4 req ''meta'';
              (if toBool False m
               then do { (c, st5) \<leftarrow> at_path d ''meta'' st4; makeNodeMeta env sub c t st5 }
               else Some st4) } = Some st2
        \<and> grown d st1 st2 (field_trees (path_fields q @ [(''value'', node_value st t)]))"
      using q1 st2(1) st3(1) no(2) vt g by (simp add: path_fields_def)
  qed
  moreover have "findNode env req st = Some (Some t)" using findNode_shape [OF ok req] t(1) by simp
  ultimately show ?thesis using get_text_shape [OF ok req field_names(7)] by (simp add: op_get_def)
qed

lemma dispatch_get:
  assumes "forest_ok st" "plain st" "shaped st req (NT nm v fs)" "text_field env ''op'' fs = ''node.get''"
  shows "dispatchNode (Suc fuel) env req rep (sub, st) = map_option (Pair sub) (op_get env sub req rep (field_value ''id'' fs) st)"
  using get_field_shape [OF assms(1-3) field_names(2)] get_text_shape [OF assms(1-3) field_names(3)] assms(4)
  by (simp add: simple_op_def)

text \<open>A \<open>node.get\<close> whose path leads to a node is answered by \<open>ok\<close> true, the request's \<open>id\<close> if it has
  one, and data holding the path of the node below the root and its value - for a request without
  \<open>depth\<close> and \<open>meta\<close>. Nothing but the reply changes.\<close>

theorem protocol_get:
  assumes "forest_ok st" "plain st" "shaped st req (NT nm v fs)" "alive st rep" "kids st rep = []"
    and "text_field env ''op'' fs = ''node.get''" "field ''depth'' fs = None" "\<not> toBool False (field_value ''meta'' fs)"
    and "find_field st (pe_root env) (text_field env ''path'' fs) = Some (Some t)" "alive st t"
  shows "\<exists>st' q. path_of st t (Some (pe_root env)) = Some q \<and> dispatchNode (Suc fuel) env req rep (sub, st) = Some (sub, st')
    \<and> forest_ok st' \<and> shaped st' rep (NT (name_of st rep) (node_value st rep)
        (field_trees (head_fields True (field_value ''id'' fs))
         @ [NT ''data'' VNone (field_trees [(''path'', VString q), (''value'', node_value st t)])]))
    \<and> (\<forall>m. alive st m \<and> m \<noteq> rep \<longrightarrow> alive st' m \<and> name_of st' m = name_of st m \<and> parent st' m = parent st m
         \<and> node_value st' m = node_value st m \<and> kids st' m = kids st m)"
proof -
  obtain q where q: "path_of st t (Some (pe_root env)) = Some q"
    using path_total [OF assms(1,10)] card_anc_less [OF assms(1,10)] unfolding path_of_def by (metis less_SucI Suc_eq_plus1)
  obtain s where s: "op_get env sub req rep (field_value ''id'' fs) st = Some s"
    "grown rep st s (field_trees (head_fields True (field_value ''id'' fs))
        @ [NT ''data'' VNone (field_trees (path_fields q @ [(''value'', node_value st t)]))])"
    using op_get_spec [OF assms(1-5,9,10) q assms(7,8)] by blast
  have "shaped st rep (NT (name_of st rep) (node_value st rep) [])" using assms(4,5) by simp
  note sh = grown_shape [OF assms(1) this s(2)]
  show ?thesis using dispatch_get [OF assms(1-3,6)] s q sh grown_ok [OF s(2)]
    by (intro exI [of _ s] exI [of _ q]) (simp add: path_fields_def grown_def beside_def)
qed

section \<open>Writing\<close>

definition path_segs :: "string \<Rightarrow> string list" where
  "path_segs p = segments VE_NODE_PATH_SEP (if p \<noteq> [] \<and> hd p = VE_NODE_PATH_SEP then tl p else p)"

lemma root_start:
  assumes "parent st r = None"
  shows "path_start st r p VE_NODE_PATH_SEP = Some (r, path_segs p)"
  using assms by (simp add: path_start_def path_segs_def root_of_def)

lemma find_from_root:
  assumes ok: "forest_ok st" "plain st" and r: "alive st r" "parent st r = None"
  shows "find_field st r p = find_walk st r False VE_NODE_KEY_SEP (path_segs p)"
  unfolding find_field_def find_path_plain [OF ok(2,1) r(1), of p True]
  by (simp add: find_path_def root_start [OF r(2)])

lemma walk_inside:
  "forest_ok st \<Longrightarrow> alive st n \<Longrightarrow> find_walk st n False sep segs = Some (Some c) \<Longrightarrow> c \<in> dset st n"
proof (induction segs arbitrary: n)
  case (Cons seg segs)
  obtain d where d: "find_key st n seg False sep = Some (Some d)" "find_walk st d False sep segs = Some (Some c)"
    using Cons.prems(3) by (auto split: option.splits)
  have k: "d \<in> set (kids st n)" by (rule find_key_kid [OF Cons.prems(1,2) d(1)])
  then have "alive st d" using kid_facts [OF Cons.prems(1,2)] by simp
  then have "c \<in> dset st d" using Cons.IH Cons.prems(1) d(2) by blast
  then show ?case using dset_step [OF Cons.prems(1,2)] k by blast
qed simp

lemma at_root:
  assumes ok: "forest_ok st" "plain st" and r: "alive st r" "parent st r = None" and p: "key_segs VE_NODE_KEY_SEP (path_segs p)"
  shows "\<exists>t st1. at_path r p st = Some (t, st1) \<and> plain st1 \<and> rooted (dset st r) st st1 \<and> alive st1 t \<and> t \<in> dset st1 r
    \<and> find_walk st1 r False VE_NODE_KEY_SEP (path_segs p) = Some (Some t)
    \<and> (\<forall>d. find_field st r p = Some (Some d) \<longrightarrow> t = d \<and> st1 = st)"
proof -
  obtain t st1 where t: "ensure_walk r False VE_NODE_KEY_SEP (path_segs p) st = Some (Some t, st1)" "alive st1 t"
    "find_walk st1 r False VE_NODE_KEY_SEP (path_segs p) = Some (Some t)"
    "\<And>d. find_walk st r False VE_NODE_KEY_SEP (path_segs p) = Some (Some d) \<Longrightarrow> st1 = st"
    using ensure_walk_spec [OF ok(1) r(1) p] by blast
  have e: "ensure_path r p True VE_NODE_PATH_SEP VE_NODE_KEY_SEP st = Some (Some t, st1)"
    unfolding ensure_path_plain [OF ok(2,1) r(1), of p True] by (simp add: ensure_path_def root_start [OF r(2)] t(1))
  have ro: "rooted (dset st r) st st1" by (rule ensure_walk_rooted [OF ok(1) r(1) t(1)])
  then have "forest_ok st1" "alive st1 r" using r(1) by (simp_all add: rooted_def)
  then have "t \<in> dset st1 r" using walk_inside t(3) by blast
  then show ?thesis using e t ro plain_ensure_path [OF e ok(2)] find_from_root [OF ok r]
    by (auto simp: at_path_def)
qed

text \<open>Exporting the subtree of a value.\<close>

lemma export_var_tree:
  assumes ok: "forest_ok st" and sh: "shaped st n (var_tree nm v)" and c: "canon ign v"
  shows "exportNode ign (Some n) st = Some v"
proof -
  have a: "alive st n" using sh by (cases "var_tree nm v") simp
  obtain u where u: "shaped st n u" "height u \<le> card (dset st n)" using shape_exists [OF ok a] by blast
  then have "height (var_tree nm v) \<le> next_id st + 1"
    using card_dset_le [OF ok a] shaped_unique [OF u(1) sh] by simp
  then show ?thesis using nodeToVar_tree [OF sh _ c] by (simp add: exportNode_def del: nodeToVar.simps)
qed

lemma dset_disjoint:
  assumes ok: "forest_ok st" and r: "parent st r = None" and n: "n \<notin> dset st r" "r \<notin> dset st n"
  shows "dset st n \<inter> dset st r = {}"
  using root_disjoint [OF ok r, of n] n dset_self [of n st] by (auto simp: dset_anc)

text \<open>A path is made of the keys of the node and its ancestors, which names and children determine.\<close>

lemma path_kids:
  assumes ok: "forest_ok st" "forest_ok st'"
  shows "alive st n \<Longrightarrow> (\<And>m. m = n \<or> m \<in> anc st n \<Longrightarrow> alive st' m \<and> name_of st' m = name_of st m \<and> parent st' m = parent st m)
    \<Longrightarrow> (\<And>m. m \<in> anc st n \<Longrightarrow> kids st' m = kids st m \<and> (\<forall>c \<in> set (kids st m). name_of st' c = name_of st c))
    \<Longrightarrow> path k st' n a = path k st n a"
proof (induction k arbitrary: n)
  case (Suc k)
  have pn: "parent st' n = parent st n" "name_of st' n = name_of st n" using Suc.prems(2) by auto
  show ?case
  proof (cases "parent st n")
    case (Some p)
    have an: "anc st n = insert p (anc st p)" by (rule anc_step [OF Suc.prems(1) Some])
    have p: "alive st p" "n \<in> set (kids st p)" using parent_alive [OF ok(1) Suc.prems(1) Some] by simp_all
    have p': "alive st' p" "kids st' p = kids st p" "\<forall>c \<in> set (kids st p). name_of st' c = name_of st c"
      using Suc.prems(2,3) an by auto
    have ov: "overlap_of (name_of st') (kids st p) n = overlap_of (name_of st) (kids st p) n"
      using p'(3) pn(2) by (auto simp: overlap_of_def intro!: arg_cong [where f = length] filter_cong dest: set_takeWhileD)
    have "filter (\<lambda>d. name_of st' d = name_of st n) (kids st p) = filter (\<lambda>d. name_of st d = name_of st n) (kids st p)"
      using p'(3) by (intro filter_cong) auto
    then have "child_key st' (kids st p) n = child_key st (kids st p) n" using ov pn(2) by (simp add: child_key_def Let_def)
    then have "keyOf st' p (Some n) (-1) = keyOf st p (Some n) (-1)"
      using keyOf_spec [OF ok(1) p] keyOf_spec [OF ok(2) p'(1)] p'(2) p(2) by simp
    moreover have "path k st' p a = path k st p a" using Suc.IH [OF p(1)] Suc.prems(2,3) an by blast
    ultimately show ?thesis using pn Some by (simp add: Let_def)
  qed (use pn in simp)
qed simp

text \<open>Where a tree and the reply stand to the tree of the root.\<close>

definition apart :: "forest \<Rightarrow> nid \<Rightarrow> nid \<Rightarrow> bool" where
  "apart st n m \<longleftrightarrow> n \<notin> dset st m \<and> m \<notin> dset st n"

lemma op_set_spec:
  assumes ok: "forest_ok st" "plain st" and root: "alive st (pe_root env)" "parent st (pe_root env) = None"
    and req: "shaped st req (NT nm v fs)" "apart st req (pe_root env)"
    and rep: "alive st rep" "kids st rep = []" "rep \<notin> dset st (pe_root env)"
    and val: "field ''value'' fs = Some (var_tree ''value'' x)" "canon False x"
    and p: "key_segs VE_NODE_KEY_SEP (path_segs (text_field env ''path'' fs))"
  shows "\<exists>s st1 t q. path_of s t (Some (pe_root env)) = Some q \<and> op_set env req rep rid st = Some s \<and> at_path (pe_root env) (text_field env ''path'' fs) st = Some (t, st1)
    \<and> rooted (dset st (pe_root env)) st st1 \<and> alive st1 t \<and> t \<in> dset st1 (pe_root env)
    \<and> find_field s (pe_root env) (text_field env ''path'' fs) = Some (Some t) \<and> node_value s t = x
    \<and> plain s \<and> forest_ok s
    \<and> shaped s rep (NT (name_of st rep) (node_value st rep) (field_trees (head_fields True rid)
        @ [NT ''data'' VNone (field_trees (path_fields q))]))
    \<and> (\<forall>m. alive st1 m \<longrightarrow> alive s m \<and> name_of s m = name_of st1 m \<and> parent s m = parent st1 m
         \<and> (m \<noteq> t \<and> m \<noteq> rep \<longrightarrow> node_value s m = node_value st1 m) \<and> (m \<noteq> rep \<longrightarrow> kids s m = kids st1 m))"
proof -
  define r where "r = pe_root env"
  define pt where "pt = text_field env ''path'' fs"
  note root' = root [folded r_def]
  obtain t st1 where t: "at_path r pt st = Some (t, st1)" "plain st1" "rooted (dset st r) st st1" "alive st1 t" "t \<in> dset st1 r"
    "find_walk st1 r False VE_NODE_KEY_SEP (path_segs pt) = Some (Some t)"
    using at_root [OF ok root' p [folded pt_def]] by blast
  have ok1: "forest_ok st1" using t(3) by (simp add: rooted_def)
  have al1: "alive st1 m" if "alive st m" for m using t(3) that by (simp add: rooted_def)
  have rk: "alive st req" using req(1) by simp
  have rk_disj: "dset st req \<inter> dset st r = {}"
    using dset_disjoint [OF ok(1) root'(2)] req(2) by (simp add: apart_def r_def)
  obtain vn where vn: "find_field st req ''value'' = Some (Some vn)" "vn \<in> set (kids st req)" "shaped st vn (var_tree ''value'' x)"
    using find_field_Some [OF ok req(1) field_names(8) val(1)] by blast
  have vnd: "alive st vn" "dset st vn \<inter> dset st r = {}"
    using kid_facts [OF ok(1) rk vn(2)] kid_dset(3) [OF ok(1) rk vn(2)] rk_disj by auto
  have "shaped st1 vn (var_tree ''value'' x)" by (rule rooted_shape [OF ok(1) vnd(1) t(3) vnd(2) vn(3)])
  then have ex: "exportNode False (Some vn) st1 = Some x" by (rule export_var_tree [OF ok1 _ val(2)])
  obtain st2 where st2: "set_value t x st1 = Some st2" "beside t st1 st2" "kids st2 t = kids st1 t" "node_value st2 t = x"
    using set_value_beside [OF ok1 t(4)] by blast
  have ok2: "forest_ok st2" "plain st2" using st2(2) plain_set_value [OF st2(1)] t(2) by (simp_all add: beside_def)
  have k2: "kids st2 m = kids st1 m" if "alive st1 m" for m using st2(2,3) that by (cases "m = t") (simp_all add: beside_def)
  have rt: "rep \<notin> dset st1 r"
  proof
    assume "rep \<in> dset st1 r"
    then have "rep = r \<or> r \<in> anc st1 rep" by (auto simp: dset_anc)
    moreover have "rep \<noteq> r" using rep(3) by (auto simp: r_def)
    moreover have "p' \<in> anc st1 m \<Longrightarrow> alive st m \<Longrightarrow> p' \<in> anc st m" for p' m
    proof -
      assume "p' \<in> anc st1 m" "alive st m"
      then have "(p', m) \<in> (edges st1)\<^sup>+" by (simp add: anc_def)
      then have "(p', m) \<in> (edges st)\<^sup>+" using \<open>alive st m\<close>
      proof (induction rule: converse_trancl_induct)
        case (base y)
        then show ?case using t(3) by (auto simp: edges_def rooted_def)
      next
        case (step y z)
        then have "(z, m) \<in> (edges st)\<^sup>+" by blast
        then have "alive st z" using anc_alive [OF ok(1), of z m] by (simp add: anc_def)
        then have "(y, z) \<in> edges st" using step(1) t(3) by (auto simp: edges_def rooted_def)
        then show ?case using \<open>(z, m) \<in> (edges st)\<^sup>+\<close> by simp
      qed
      then show "p' \<in> anc st m" by (simp add: anc_def)
    qed
    ultimately have "r \<in> anc st rep" using rep(1) by blast
    then show False using rep(3) by (simp add: dset_anc r_def)
  qed
  have rep2: "alive st2 rep" "kids st2 rep = []" "rep \<noteq> t"
    using k2 [OF al1 [OF rep(1)]] t(3,5) rep rt al1 [OF rep(1)] st2(2) by (auto simp: rooted_def beside_def r_def)
  have t2: "alive st2 t" using st2(2) t(4) by (simp add: beside_def)
  obtain q where q: "path_of st2 t (Some r) = Some q"
    using path_total [OF ok2(1) t2] card_anc_less [OF ok2(1) t2] unfolding path_of_def by (metis less_SucI Suc_eq_plus1)
  obtain s where s: "reply_path env rep rid t st2 = Some s"
    "grown rep st2 s (field_trees (head_fields True rid) @ [NT ''data'' VNone (field_trees (path_fields q))])"
    using reply_path_spec [OF ok2 rep2(1,2) t2 q [unfolded r_def]] by blast
  have oks: "forest_ok s" "plain s" using grown_ok [OF s(2)] by simp_all
  have fr: "alive s m \<and> name_of s m = name_of st1 m \<and> parent s m = parent st1 m
         \<and> (m \<noteq> t \<and> m \<noteq> rep \<longrightarrow> node_value s m = node_value st1 m) \<and> (m \<noteq> rep \<longrightarrow> kids s m = kids st1 m)" if "alive st1 m" for m
    using s(2) st2(2) k2 [OF that] that by (simp add: grown_def beside_def)
  have r1: "alive st1 r" "alive s r" "parent s r = None" using al1 [OF root'(1)] fr [of r] t(3) root' by (auto simp: rooted_def)
  have "find_walk s r False VE_NODE_KEY_SEP (path_segs pt) = find_walk st1 r False VE_NODE_KEY_SEP (path_segs pt)"
  proof (rule find_walk_same [OF ok1 oks(1) _ r1(1) dset_self])
    fix m assume m: "m \<in> dset st1 r"
    then have "alive st1 m" "m \<noteq> rep" using dset_alive [OF ok1 r1(1) m] rt by auto
    then show "alive s m \<and> name_of s m = name_of st1 m \<and> kids s m = kids st1 m" using fr by blast
  qed
  then have fs: "find_field s r pt = Some (Some t)" using find_from_root [OF oks r1(2,3)] t(6) by simp
  have nv: "node_value s t = x" using s(2) st2(4) t2 rep2(3) by (simp add: grown_def beside_def)
  have shr: "shaped s rep (NT (name_of st rep) (node_value st rep) (field_trees (head_fields True rid)
        @ [NT ''data'' VNone (field_trees (path_fields q))]))"
  proof -
    have "name_of st2 rep = name_of st rep" "node_value st2 rep = node_value st rep"
      using st2(2) t(3) al1 [OF rep(1)] rep(1) rep2(3) by (simp_all add: beside_def rooted_def)
    then have "shaped st2 rep (NT (name_of st rep) (node_value st rep) [])" using rep2 by simp
    from grown_shape [OF ok2(1) this s(2)] show ?thesis by simp
  qed
  have "op_set env req rep rid st = Some s"
    using vn(1) get_text_shape [OF ok req(1) field_names(7)] t(1) ex st2(1) s(1)
    by (simp add: op_set_def ensureNode_def r_def pt_def)
  moreover have "path_of s t (Some r) = Some q"
  proof -
    have no: "m \<noteq> rep" if m: "m \<in> anc st2 t" for m
    proof
      assume "m = rep"
      then obtain c where "(rep, c) \<in> edges st2" using tranclD [of rep t "edges st2"] m by (auto simp: anc_def)
      then show False using kids_edges [OF ok2(1) rep2(1)] rep2(2) by simp
    qed
    have g: "alive s m \<and> name_of s m = name_of st2 m \<and> parent s m = parent st2 m \<and> (m \<noteq> rep \<longrightarrow> kids s m = kids st2 m)" if "alive st2 m" for m
      using s(2) that by (simp add: grown_def beside_def)
    have "path k s t a = path k st2 t a" for k a
    proof (rule path_kids [OF ok2(1) oks(1) t2])
      fix m assume "m = t \<or> m \<in> anc st2 t"
      then have "alive st2 m" using t2 anc_alive [OF ok2(1)] by blast
      then show "alive s m \<and> name_of s m = name_of st2 m \<and> parent s m = parent st2 m" using g by simp
    next
      fix m assume m: "m \<in> anc st2 t"
      then have "alive st2 m" using anc_alive [OF ok2(1)] by blast
      then show "kids s m = kids st2 m \<and> (\<forall>c \<in> set (kids st2 m). name_of s c = name_of st2 c)"
        using g no [OF m] kid_facts [OF ok2(1)] by blast
    qed
    then have "path (next_id st2 + 1) s t (Some r) = Some q" using q by (simp only: path_of_def)
    moreover have ts: "alive s t" using g [OF t2] by simp
    obtain q' where q': "path (next_id s + 1) s t (Some r) = Some q'"
      using path_total [OF oks(1) ts] card_anc_less [OF oks(1) ts] by (metis less_SucI Suc_eq_plus1)
    ultimately have "q' = q"
      using path_more [of _ s t "Some r" _ "max (next_id st2 + 1) (next_id s + 1)"] by (metis max.cobounded1 max.cobounded2 option.inject)
    then show ?thesis using q' by (simp only: path_of_def)
  qed
  ultimately show ?thesis
    using t fs nv oks shr fr unfolding r_def pt_def
    by (intro exI [of _ s] exI [of _ st1] exI [of _ t] exI [of _ q] conjI allI impI) (simp_all del: shaped.simps)
qed

lemma rooted_anc:
  assumes ok: "forest_ok st" and ro: "rooted S st st1"
  shows "p \<in> anc st1 m \<Longrightarrow> alive st m \<Longrightarrow> p \<in> anc st m"
proof -
  assume "p \<in> anc st1 m" and m: "alive st m"
  then have "(p, m) \<in> (edges st1)\<^sup>+" by (simp add: anc_def)
  then have "(p, m) \<in> (edges st)\<^sup>+"
  proof (induction rule: converse_trancl_induct)
    case (base y)
    then show ?case using ro m by (auto simp: edges_def rooted_def)
  next
    case (step y z)
    then have "alive st z" using anc_alive [OF ok, of z m] by (simp add: anc_def)
    then have "(y, z) \<in> edges st" using step(1) ro by (auto simp: edges_def rooted_def)
    then show ?case using step.IH by simp
  qed
  then show "p \<in> anc st m" by (simp add: anc_def)
qed

lemma rooted_dset: "forest_ok st \<Longrightarrow> rooted S st st1 \<Longrightarrow> alive st m \<Longrightarrow> m \<in> dset st1 r \<Longrightarrow> m \<in> dset st r"
  using rooted_anc by (auto simp: dset_anc)

lemma dispatch_set:
  assumes "forest_ok st" "plain st" "shaped st req (NT nm v fs)" "text_field env ''op'' fs = ''node.set''"
  shows "dispatchNode (Suc fuel) env req rep (sub, st) = map_option (Pair sub) (op_set env req rep (field_value ''id'' fs) st)"
  using get_field_shape [OF assms(1-3) field_names(2)] get_text_shape [OF assms(1-3) field_names(3)] assms(4)
  by (simp add: simple_op_def)

text \<open>A \<open>node.set\<close> whose path is made of keys creates what is missing of the path and stores the value,
  a scalar, list or dictionary read back from its tree: afterwards the path leads to a node with that
  value, the one it led to before if there was one; the reply holds \<open>ok\<close> true, the \<open>id\<close> and the node's
  path. Names, parents and other values stay as they were, and so do the children of every node
  outside the tree of the root.\<close>

theorem protocol_set:
  assumes "forest_ok st" "plain st" "alive st (pe_root env)" "parent st (pe_root env) = None"
    and "shaped st req (NT nm v fs)" "apart st req (pe_root env)"
    and "alive st rep" "kids st rep = []" "rep \<notin> dset st (pe_root env)"
    and "text_field env ''op'' fs = ''node.set''" "field ''value'' fs = Some (var_tree ''value'' x)" "canon False x"
    and "key_segs VE_NODE_KEY_SEP (path_segs (text_field env ''path'' fs))"
  shows "\<exists>st' t q. dispatchNode (Suc fuel) env req rep (sub, st) = Some (sub, st') \<and> forest_ok st' \<and> plain st'
    \<and> find_field st' (pe_root env) (text_field env ''path'' fs) = Some (Some t) \<and> node_value st' t = x
    \<and> (\<forall>d. find_field st (pe_root env) (text_field env ''path'' fs) = Some (Some d) \<longrightarrow> t = d)
    \<and> path_of st' t (Some (pe_root env)) = Some q
    \<and> shaped st' rep (NT (name_of st rep) (node_value st rep)
        (field_trees (head_fields True (field_value ''id'' fs)) @ [NT ''data'' VNone [NT ''path'' (VString q) []]]))
    \<and> (\<forall>m. alive st m \<and> m \<noteq> rep \<longrightarrow> alive st' m \<and> name_of st' m = name_of st m \<and> parent st' m = parent st m
         \<and> (m \<noteq> t \<longrightarrow> node_value st' m = node_value st m) \<and> (m \<notin> dset st (pe_root env) \<longrightarrow> kids st' m = kids st m))"
proof -
  obtain s st1 t q where s: "path_of s t (Some (pe_root env)) = Some q"
    "op_set env req rep (field_value ''id'' fs) st = Some s"
    "at_path (pe_root env) (text_field env ''path'' fs) st = Some (t, st1)" "rooted (dset st (pe_root env)) st st1"
    "find_field s (pe_root env) (text_field env ''path'' fs) = Some (Some t)" "node_value s t = x" "plain s" "forest_ok s"
    "shaped s rep (NT (name_of st rep) (node_value st rep) (field_trees (head_fields True (field_value ''id'' fs))
        @ [NT ''data'' VNone (field_trees (path_fields q))]))"
    and fr: "\<And>m. alive st1 m \<Longrightarrow> alive s m \<and> name_of s m = name_of st1 m \<and> parent s m = parent st1 m
         \<and> (m \<noteq> t \<and> m \<noteq> rep \<longrightarrow> node_value s m = node_value st1 m) \<and> (m \<noteq> rep \<longrightarrow> kids s m = kids st1 m)"
    using op_set_spec [OF assms(1-9,11-13), of "field_value ''id'' fs"] by (elim exE conjE) (rule that, blast+)
  have "t = d" if "find_field st (pe_root env) (text_field env ''path'' fs) = Some (Some d)" for d
    using at_root [OF assms(1-4,13)] s(3) that by auto
  moreover have "dispatchNode (Suc fuel) env req rep (sub, st) = Some (sub, s)"
    using dispatch_set [OF assms(1,2,5,10)] s(2) by simp
  ultimately show ?thesis
    using s fr by (intro exI [of _ s] exI [of _ t] exI [of _ q]) (simp add: path_fields_def rooted_def del: shaped.simps)
qed

text \<open>C39: What \<open>node.set\<close> stores, a later \<open>node.get\<close> with the same path returns: the second reply holds the
  value, list and dictionary included, and the path that the first reply held.\<close>

theorem set_then_get:
  assumes "forest_ok st" "plain st" "alive st (pe_root env)" "parent st (pe_root env) = None"
    and "shaped st req (NT nm v fs)" "apart st req (pe_root env)"
    and "alive st rep" "kids st rep = []" "rep \<notin> dset st (pe_root env)"
    and "text_field env ''op'' fs = ''node.set''" "field ''value'' fs = Some (var_tree ''value'' x)" "canon False x"
    and "key_segs VE_NODE_KEY_SEP (path_segs (text_field env ''path'' fs))"
    and "shaped st req2 (NT nm2 v2 gs)" "apart st req2 (pe_root env)" "rep \<notin> dset st req2"
    and "alive st rep2" "kids st rep2 = []" "rep2 \<notin> dset st (pe_root env)" "rep2 \<noteq> rep"
    and "text_field env ''op'' gs = ''node.get''" "text_field env ''path'' gs = text_field env ''path'' fs"
    and "field ''depth'' gs = None" "\<not> toBool False (field_value ''meta'' gs)"
  shows "\<exists>st1 st2 q. dispatchNode (Suc fuel) env req rep (sub, st) = Some (sub, st1)
    \<and> dispatchNode (Suc fuel2) env req2 rep2 (sub, st1) = Some (sub, st2)
    \<and> shaped st1 rep (NT (name_of st rep) (node_value st rep)
        (field_trees (head_fields True (field_value ''id'' fs)) @ [NT ''data'' VNone [NT ''path'' (VString q) []]]))
    \<and> shaped st2 rep2 (NT (name_of st rep2) (node_value st rep2)
        (field_trees (head_fields True (field_value ''id'' gs))
         @ [NT ''data'' VNone [NT ''path'' (VString q) [], NT ''value'' x []]]))"
proof -
  obtain s st1 t q where s: "path_of s t (Some (pe_root env)) = Some q"
    "op_set env req rep (field_value ''id'' fs) st = Some s"
    "rooted (dset st (pe_root env)) st st1" "alive st1 t" "t \<in> dset st1 (pe_root env)"
    "find_field s (pe_root env) (text_field env ''path'' fs) = Some (Some t)" "node_value s t = x" "plain s" "forest_ok s"
    "shaped s rep (NT (name_of st rep) (node_value st rep) (field_trees (head_fields True (field_value ''id'' fs))
        @ [NT ''data'' VNone (field_trees (path_fields q))]))"
    and fr: "\<And>m. alive st1 m \<Longrightarrow> alive s m \<and> name_of s m = name_of st1 m \<and> parent s m = parent st1 m
         \<and> (m \<noteq> t \<and> m \<noteq> rep \<longrightarrow> node_value s m = node_value st1 m) \<and> (m \<noteq> rep \<longrightarrow> kids s m = kids st1 m)"
    using op_set_spec [OF assms(1-9,11-13), of "field_value ''id'' fs"] by (elim exE conjE) (rule that, blast+)
  have a2: "alive st req2" using assms(14) by simp
  have disj: "dset st req2 \<inter> dset st (pe_root env) = {}"
    using dset_disjoint [OF assms(1,4)] assms(15) by (simp add: apart_def)
  have "shaped s req2 (NT nm2 v2 gs)"
  proof (rule shaped_agree [OF closed_dset [OF assms(1) a2] _ dset_self assms(14)])
    fix m assume m: "m \<in> dset st req2"
    have am: "alive st m" by (rule dset_alive [OF assms(1) a2 m])
    have "m \<notin> dset st (pe_root env)" "m \<noteq> rep" using m disj assms(16) by auto
    moreover from this have "m \<noteq> t" using rooted_dset [OF assms(1) s(3) am] s(5) by blast
    ultimately show "alive s m \<and> name_of s m = name_of st m \<and> node_value s m = node_value st m \<and> kids s m = kids st m"
      using fr [of m] s(3) am by (simp add: rooted_def)
  qed
  moreover have r2: "alive s rep2" "kids s rep2 = []" "name_of s rep2 = name_of st rep2" "node_value s rep2 = node_value st rep2"
  proof -
    have "rep2 \<noteq> t" using rooted_dset [OF assms(1) s(3) assms(17)] s(5) assms(19) by blast
    then show "alive s rep2" "kids s rep2 = []" "name_of s rep2 = name_of st rep2" "node_value s rep2 = node_value st rep2"
      using fr [of rep2] s(3) assms(17-20) by (simp_all add: rooted_def)
  qed
  moreover have "alive s t" using fr [OF s(4)] by simp
  moreover have "find_field s (pe_root env) (text_field env ''path'' gs) = Some (Some t)" using s(6) assms(22) by simp
  ultimately obtain s2 where s2: "op_get env sub req2 rep2 (field_value ''id'' gs) s = Some s2"
    "grown rep2 s s2 (field_trees (head_fields True (field_value ''id'' gs))
        @ [NT ''data'' VNone (field_trees (path_fields q @ [(''value'', node_value s t)]))])"
    using op_get_spec [OF s(9,8) _ _ _ _ _ s(1) assms(23,24)] by blast
  have "shaped s rep2 (NT (name_of st rep2) (node_value st rep2) [])" using r2 by simp
  note g = grown_shape [OF s(9) this s2(2)]
  have "dispatchNode (Suc fuel) env req rep (sub, st) = Some (sub, s)"
    using dispatch_set [OF assms(1,2,5,10)] s(2) by simp
  moreover have "dispatchNode (Suc fuel2) env req2 rep2 (sub, s) = Some (sub, s2)"
    using dispatch_get [OF s(9,8) \<open>shaped s req2 (NT nm2 v2 gs)\<close> assms(21)] s2(1) by simp
  ultimately show ?thesis using s(10) g s(7)
    by (intro exI [of _ s] exI [of _ s2] exI [of _ q]) (simp add: path_fields_def del: shaped.simps)
qed

text \<open>A \<open>node.set\<close> with a value and a path one of whose segments is no key - a text before \<open>#\<close> is
  followed by something that is no number - ends the program: the node that could not be created is
  dereferenced. The keys before that segment may be anything that can be created.\<close>

theorem set_bad_path_crashes:
  assumes "forest_ok st" "plain st" "alive st (pe_root env)" "parent st (pe_root env) = None"
    and "shaped st req (NT nm v fs)" "text_field env ''op'' fs = ''node.set''" "field ''value'' fs \<noteq> None"
    and "path_segs (text_field env ''path'' fs) = bef @ seg # rest" "key_segs VE_NODE_KEY_SEP bef"
    and "parseKey seg VE_NODE_KEY_SEP = KeyBad"
  shows "dispatchNode (Suc fuel) env req rep (sub, st) = None"
proof -
  define r where "r = pe_root env"
  obtain vt where "field ''value'' fs = Some vt" using assms(7) by blast
  then obtain vn where vn: "find_field st req ''value'' = Some (Some vn)"
    using find_field_Some [OF assms(1,2,5) field_names(8)] by blast
  have walk: "\<exists>s. ensure_walk n False VE_NODE_KEY_SEP (bef @ seg # rest) st = Some (None, s)"
    if "forest_ok st" "alive st n" "key_segs VE_NODE_KEY_SEP bef" for n st
    using that
  proof (induction bef arbitrary: n st)
    case Nil
    then show ?case using assms(10) by (simp add: ensure_key_def)
  next
    case (Cons k ks)
    obtain nm i where p: "parseKey k VE_NODE_KEY_SEP = Key nm i"
      using Cons.prems(3) by (cases "parseKey k VE_NODE_KEY_SEP") (auto simp: key_segs_def)
    obtain d st1 where d: "ensure_key n k False VE_NODE_KEY_SEP st = Some (Some d, st1)" "grows st st1"
      "find_key st1 n k False VE_NODE_KEY_SEP = Some (Some d)"
      using ensure_key_spec [OF Cons.prems(1,2) p] by blast
    have ok1: "forest_ok st1" "alive st1 n" using d(2) grows_alive [OF d(2) Cons.prems(2)] by (simp_all add: grows_def)
    have "alive st1 d" using kid_facts [OF ok1 find_key_kid [OF ok1 d(3)]] by simp
    then show ?case using Cons.IH [OF ok1(1)] Cons.prems(3) d(1) by (auto simp: key_segs_def)
  qed
  obtain s where "ensure_walk r False VE_NODE_KEY_SEP (bef @ seg # rest) st = Some (None, s)"
    using walk [OF assms(1) assms(3) assms(9)] by (auto simp: r_def)
  then have "ensure_path r (text_field env ''path'' fs) True VE_NODE_PATH_SEP VE_NODE_KEY_SEP st = Some (None, s)"
    unfolding r_def ensure_path_plain [OF assms(2,1,3), of _ True]
    by (simp add: ensure_path_def root_start [OF assms(4)] assms(8))
  then have "ensureNode env req st = None"
    using get_text_shape [OF assms(1,2,5) field_names(7)] by (simp add: ensureNode_def at_path_def r_def)
  then show ?thesis using dispatch_set [OF assms(1,2,5,6)] vn by (simp add: op_set_def)
qed

section \<open>Requests to try\<close>

definition make_request :: "(string \<times> var) list \<Rightarrow> forest \<Rightarrow> (nid \<times> nid \<times> forest) option" where
  "make_request kvs st =
     (let (req, st1) = new_node ''req'' st
      in do {
        st2 \<leftarrow> set_fields req kvs st1;
        (let (rep, st3) = new_node ''rep'' st2 in Some (req, rep, st3)) })"

lemma roots_apart: "parent st a = None \<Longrightarrow> parent st b = None \<Longrightarrow> a \<noteq> b \<Longrightarrow> apart st a b"
  by (simp add: apart_def dset_anc anc_root)

lemma make_request_spec:
  assumes ok: "forest_ok st" "plain st" and k: "list_all field_name (map fst kvs)" "distinct (map fst kvs)"
  shows "\<exists>req rep st'. make_request kvs st = Some (req, rep, st') \<and> forest_ok st' \<and> plain st'
    \<and> shaped st' req (NT ''req'' VNone (field_trees kvs)) \<and> alive st' rep \<and> kids st' rep = [] \<and> name_of st' rep = ''rep''
    \<and> node_value st' rep = VNone \<and> parent st' req = None \<and> parent st' rep = None \<and> \<not> alive st req \<and> \<not> alive st rep \<and> rep \<noteq> req
    \<and> (\<forall>m. alive st m \<longrightarrow> alive st' m \<and> kids st' m = kids st m \<and> node_value st' m = node_value st m
         \<and> name_of st' m = name_of st m \<and> parent st' m = parent st m)"
proof -
  obtain req st1 where r: "new_node ''req'' st = (req, st1)" by force
  note nr = new_node_facts [OF ok r]
  obtain st2 where st2: "set_fields req kvs st1 = Some st2" "grown req st1 st2 (field_trees kvs)"
    using set_fields_fresh [OF nr(3-5) k] nr(6) by auto
  have ok2: "forest_ok st2" "plain st2" using grown_ok [OF st2(2)] by simp_all
  have s2: "shaped st2 req (NT ''req'' VNone (field_trees kvs))"
    using grown_shape [OF nr(3) _ st2(2), of "''req''" VNone "[]"] nr by simp
  obtain rep st3 where p: "new_node ''rep'' st2 = (rep, st3)" by force
  note np = new_node_facts [OF ok2 p]
  have same: "alive st3 m \<and> kids st3 m = kids st m \<and> node_value st3 m = node_value st m
         \<and> name_of st3 m = name_of st m \<and> parent st3 m = parent st m" if m: "alive st m" for m
  proof -
    have "m \<noteq> req" using m nr(2) by blast
    then have "alive st2 m \<and> kids st2 m = kids st m \<and> node_value st2 m = node_value st m \<and> name_of st2 m = name_of st m \<and> parent st2 m = parent st m"
      using st2(2) nr(10) [of req] nr(11) [OF m] m by (simp add: grown_def beside_def)
    then show ?thesis using np(10) [of rep] np(11) [of m] by (simp add: beside_def)
  qed
  have ar: "alive st2 req" using s2 by simp
  have "parent st3 req = None" using np(10) [of rep] ar st2(2) nr(5,9) by (simp add: grown_def beside_def)
  moreover have "shaped st3 req (NT ''req'' VNone (field_trees kvs))"
    by (rule outside_shape [OF ok2(1) s2 np(10)]) (use dset_alive [OF ok2(1) ar, of rep] np(2) in blast)
  moreover have "\<not> alive st rep" using st2(2) np(2) nr(10) [of req] by (auto simp: grown_def beside_def)
  moreover have "rep \<noteq> req" using ar np(2) by blast
  ultimately show ?thesis using r st2(1) p nr(2) np same
    by (intro exI [of _ req] exI [of _ rep] exI [of _ st3]) (simp add: make_request_def)
qed

definition demo_proto :: proto_env where
  "demo_proto = \<lparr>pe_root = 0, pe_cust = (\<lambda>_. []), pe_simd = (\<lambda>_. Doc_Error), pe_limit = 500, pe_allow_subs = False,
     pe_session = 0, pe_send = None, pe_keys = [], pe_help = (\<lambda>_. []), pe_has = (\<lambda>_. False),
     pe_call = (\<lambda>_ _ _. None), pe_call_async = (\<lambda>_ _ _. None), pe_drop = (\<lambda>_ st. st), pe_tasks = None,
     pe_task_id = (\<lambda>_. [])\<rparr>"

lemma demo_parent0: "parent demo 0 = None"
  by (simp add: parent_def demo_obj demo_node_def)

lemma find_after_request:
  assumes ok: "forest_ok st" "plain st" "alive st r" "parent st r = None" and ok': "forest_ok st'" "plain st'"
    and same: "\<forall>m. alive st m \<longrightarrow> alive st' m \<and> kids st' m = kids st m \<and> node_value st' m = node_value st m
         \<and> name_of st' m = name_of st m \<and> parent st' m = parent st m"
  shows "find_field st' r p = find_field st r p"
  using find_walk_same [OF ok(1) ok'(1) _ ok(3) dset_self, where sep = VE_NODE_KEY_SEP and segs = "path_segs p"] same
    dset_alive [OF ok(1,3)] find_from_root [OF ok] find_from_root [OF ok', of r] ok(3,4)
  by simp

theorem protocol_errors_witness:
  "\<exists>req rep st st'. make_request [(''op'', VString ''node.get''), (''path'', VString ''robot/leg''), (''id'', VInt 7)] demo = Some (req, rep, st)
    \<and> dispatchNode 1 demo_proto req rep (None, st) = Some (None, st')
    \<and> shaped st' rep (NT ''rep'' VNone [NT ''ok'' (VBool False) [], NT ''id'' (VInt 7) [], NT ''code'' (VString ''not_found'') [],
        NT ''error'' (VString ''node not found: robot/leg'') []])"
proof -
  define kvs where "kvs = [(''op'', VString ''node.get''), (''path'', VString ''robot/leg''), (''id'', VInt 7)]"
  have "list_all field_name (map fst kvs)" "distinct (map fst kvs)" by (simp_all add: kvs_def)
  from make_request_spec [OF demo_ok demo_plain this] obtain req rep st where st: "make_request kvs demo = Some (req, rep, st)"
    "forest_ok st" "plain st" "shaped st req (NT ''req'' VNone (field_trees kvs))" "alive st rep" "kids st rep = []" "name_of st rep = ''rep''"
    "node_value st rep = VNone"
    and same: "\<forall>m. alive demo m \<longrightarrow> alive st m \<and> kids st m = kids demo m \<and> node_value st m = node_value demo m
         \<and> name_of st m = name_of demo m \<and> parent st m = parent demo m" by blast
  have r: "pe_root demo_proto = 0" by (simp add: demo_proto_def)
  have "find_field demo 0 ''robot/leg'' = Some None" unfolding find_field_def by code_simp
  then have f: "find_field st 0 ''robot/leg'' = Some None"
    using find_after_request [OF demo_ok demo_plain demo_alive(1) demo_parent0 st(2,3) same] by simp
  have fv: "text_field demo_proto ''path'' (field_trees kvs) = ''robot/leg''" "text_field demo_proto ''op'' (field_trees kvs) = ''node.get''"
    "field_value ''id'' (field_trees kvs) = VInt 7"
    by (simp_all add: kvs_def text_field_def field_value_def field_def)
  have e: "request_error demo_proto (takes_subs demo_proto None)
      (find_field st (pe_root demo_proto) (text_field demo_proto ''path'' (field_trees kvs)) = Some None) (field_trees kvs)
      = Some (''not_found'', ''node not found: robot/leg'')"
    by (simp add: request_error_def Let_def fv r f)
  have a0: "alive st (pe_root demo_proto)" using same demo_alive(1) by (simp add: r)
  show ?thesis
    using protocol_errors [OF st(2,3) a0 st(4-6) e, of 0] st(1,7,8) fv
    by (auto simp: error_fields_def head_fields_def isNull_def kvs_def simp del: dispatchNode.simps)
qed

lemma request_kept:
  assumes "forest_ok st" "shaped st n t"
    and "\<forall>m. alive st m \<longrightarrow> alive st' m \<and> kids st' m = kids st m \<and> node_value st' m = node_value st m
         \<and> name_of st' m = name_of st m \<and> parent st' m = parent st m"
  shows "shaped st' n t"
proof -
  have a: "alive st n" using assms(2) by (cases t) simp
  show ?thesis
    by (rule shaped_agree [OF closed_dset [OF assms(1) a] _ dset_self assms(2)]) (use assms(3) dset_alive [OF assms(1) a] in blast)
qed

lemma fresh_apart:
  assumes "parent st r = None" "parent st n = None" "n \<noteq> r"
  shows "apart st n r" "n \<notin> dset st r"
  using roots_apart [OF assms(2,1,3)] by (simp_all add: apart_def)

definition set_request :: "(string \<times> var) list" where
  "set_request = [(''op'', VString ''node.set''), (''path'', VString ''robot/arm#1''), (''value'', VInt 5)]"

definition get_request :: "(string \<times> var) list" where
  "get_request = [(''op'', VString ''node.get''), (''path'', VString ''robot/arm#1''), (''id'', VInt 7)]"

lemma request_fields:
  "list_all field_name (map fst set_request)" "distinct (map fst set_request)"
  "list_all field_name (map fst get_request)" "distinct (map fst get_request)"
  "text_field demo_proto ''op'' (field_trees set_request) = ''node.set''"
  "text_field demo_proto ''path'' (field_trees set_request) = ''robot/arm#1''"
  "field ''value'' (field_trees set_request) = Some (var_tree ''value'' (VInt 5))" "field_value ''id'' (field_trees set_request) = VNone"
  "text_field demo_proto ''op'' (field_trees get_request) = ''node.get''"
  "text_field demo_proto ''path'' (field_trees get_request) = ''robot/arm#1''"
  "field ''depth'' (field_trees get_request) = None" "field_value ''meta'' (field_trees get_request) = VNone"
  "field_value ''id'' (field_trees get_request) = VInt 7" "pe_root demo_proto = 0"
  by (simp_all add: set_request_def get_request_def text_field_def field_value_def field_def demo_proto_def)

lemma demo_key_segs: "key_segs VE_NODE_KEY_SEP (path_segs ''robot/arm#1'')"
  by code_simp

lemma demo_find4: "find_field demo 0 ''robot/arm#1'' = Some (Some 4)"
  unfolding find_field_def by code_simp

theorem protocol_get_witness:
  "\<exists>req rep st st' q. make_request get_request demo = Some (req, rep, st) \<and> dispatchNode 1 demo_proto req rep (None, st) = Some (None, st')
    \<and> shaped st' rep (NT ''rep'' VNone [NT ''ok'' (VBool True) [], NT ''id'' (VInt 7) [],
        NT ''data'' VNone [NT ''path'' (VString q) [], NT ''value'' VNone []]])"
proof -
  from make_request_spec [OF demo_ok demo_plain request_fields(3,4)] obtain req rep st where st: "make_request get_request demo = Some (req, rep, st)"
    "forest_ok st" "plain st" "shaped st req (NT ''req'' VNone (field_trees get_request))" "alive st rep" "kids st rep = []" "name_of st rep = ''rep''"
    "node_value st rep = VNone"
    and same: "\<forall>m. alive demo m \<longrightarrow> alive st m \<and> kids st m = kids demo m \<and> node_value st m = node_value demo m
         \<and> name_of st m = name_of demo m \<and> parent st m = parent demo m" by blast
  have f: "find_field st (pe_root demo_proto) (text_field demo_proto ''path'' (field_trees get_request)) = Some (Some 4)"
    using find_after_request [OF demo_ok demo_plain demo_alive(1) demo_parent0 st(2,3) same] demo_find4 by (simp add: request_fields)
  have a4: "alive st 4" "node_value st 4 = VNone" using same demo_alive(4) by (simp_all add: node_value_def demo_obj demo_node_def)
  have m: "\<not> toBool False (field_value ''meta'' (field_trees get_request))" by (simp add: request_fields)
  show ?thesis
    using protocol_get [OF st(2-6) request_fields(9,11) m f a4(1), of 0 None] st(1,7,8) a4(2)
    by (auto simp: request_fields head_fields_def isNull_def simp del: dispatchNode.simps)
qed

theorem protocol_set_witness:
  "\<exists>req rep st st'. make_request set_request demo = Some (req, rep, st) \<and> dispatchNode 1 demo_proto req rep (None, st) = Some (None, st')
    \<and> find_field st' 0 ''robot/arm#1'' = Some (Some 4) \<and> node_value st' 4 = VInt 5"
proof -
  from make_request_spec [OF demo_ok demo_plain request_fields(1,2)] obtain req rep st where st: "make_request set_request demo = Some (req, rep, st)"
    "forest_ok st" "plain st" "shaped st req (NT ''req'' VNone (field_trees set_request))" "alive st rep" "kids st rep = []"
    "parent st req = None" "parent st rep = None" "\<not> alive demo req" "\<not> alive demo rep"
    and same: "\<forall>m. alive demo m \<longrightarrow> alive st m \<and> kids st m = kids demo m \<and> node_value st m = node_value demo m
         \<and> name_of st m = name_of demo m \<and> parent st m = parent demo m" by blast
  have r: "alive st (pe_root demo_proto)" "parent st (pe_root demo_proto) = None" "req \<noteq> pe_root demo_proto" "rep \<noteq> pe_root demo_proto"
    unfolding request_fields using same demo_alive(1) demo_parent0 st(9,10) by metis+
  have f: "find_field st (pe_root demo_proto) (text_field demo_proto ''path'' (field_trees set_request)) = Some (Some 4)"
    using find_after_request [OF demo_ok demo_plain demo_alive(1) demo_parent0 st(2,3) same] demo_find4 by (simp add: request_fields)
  have ks: "key_segs VE_NODE_KEY_SEP (path_segs (text_field demo_proto ''path'' (field_trees set_request)))"
    using demo_key_segs by (simp add: request_fields)
  have "canon False (VInt 5)" by simp
  from protocol_set [OF st(2,3) r(1,2) st(4) fresh_apart(1) [OF r(2) st(7) r(3)] st(5,6) fresh_apart(2) [OF r(2) st(8) r(4)] request_fields(5,7) this ks,
      of 0 None]
  obtain st' t where "dispatchNode (Suc 0) demo_proto req rep (None, st) = Some (None, st')"
    "find_field st' (pe_root demo_proto) (text_field demo_proto ''path'' (field_trees set_request)) = Some (Some t)" "node_value st' t = VInt 5"
    "\<forall>d. find_field st (pe_root demo_proto) (text_field demo_proto ''path'' (field_trees set_request)) = Some (Some d) \<longrightarrow> t = d"
    by blast
  then show ?thesis using st(1) f by (auto simp: request_fields simp del: dispatchNode.simps)
qed

theorem set_then_get_witness:
  "\<exists>req rep st req2 rep2 st0 st1 st2 q. make_request set_request demo = Some (req, rep, st) \<and> make_request get_request st = Some (req2, rep2, st0)
    \<and> dispatchNode 1 demo_proto req rep (None, st0) = Some (None, st1) \<and> dispatchNode 1 demo_proto req2 rep2 (None, st1) = Some (None, st2)
    \<and> shaped st2 rep2 (NT ''rep'' VNone [NT ''ok'' (VBool True) [], NT ''id'' (VInt 7) [],
        NT ''data'' VNone [NT ''path'' (VString q) [], NT ''value'' (VInt 5) []]])"
proof -
  from make_request_spec [OF demo_ok demo_plain request_fields(1,2)] obtain req rep st where st: "make_request set_request demo = Some (req, rep, st)"
    "forest_ok st" "plain st" "shaped st req (NT ''req'' VNone (field_trees set_request))" "alive st rep" "kids st rep = []"
    "parent st req = None" "parent st rep = None" "\<not> alive demo req" "\<not> alive demo rep"
    and same: "\<forall>m. alive demo m \<longrightarrow> alive st m \<and> kids st m = kids demo m \<and> node_value st m = node_value demo m
         \<and> name_of st m = name_of demo m \<and> parent st m = parent demo m" by blast
  from make_request_spec [OF st(2,3) request_fields(3,4)] obtain req2 rep2 st0 where st0: "make_request get_request st = Some (req2, rep2, st0)"
    "forest_ok st0" "plain st0" "shaped st0 req2 (NT ''req'' VNone (field_trees get_request))" "alive st0 rep2" "kids st0 rep2 = []"
    "parent st0 req2 = None" "parent st0 rep2 = None" "\<not> alive st req2" "\<not> alive st rep2" "name_of st0 rep2 = ''rep''" "node_value st0 rep2 = VNone"
    and same0: "\<forall>m. alive st m \<longrightarrow> alive st0 m \<and> kids st0 m = kids st m \<and> node_value st0 m = node_value st m
         \<and> name_of st0 m = name_of st m \<and> parent st0 m = parent st m" by blast
  have old: "alive st req" "alive st 0" using st(4) same demo_alive(1) by simp_all
  have r: "alive st0 (pe_root demo_proto)" "parent st0 (pe_root demo_proto) = None"
    using same0 old(2) same demo_alive(1) demo_parent0 by (simp_all add: request_fields)
  have ne: "req \<noteq> pe_root demo_proto" "rep \<noteq> pe_root demo_proto" "req2 \<noteq> pe_root demo_proto" "rep2 \<noteq> pe_root demo_proto"
    "rep2 \<noteq> rep" "rep \<noteq> req2"
    unfolding request_fields using demo_alive(1) st(5,9,10) st0(9,10) old by metis+
  have p: "parent st0 req = None" "parent st0 rep = None" "alive st0 rep" "kids st0 rep = []"
    using same0 old(1) st(5-8) by simp_all
  have sh: "shaped st0 req (NT ''req'' VNone (field_trees set_request))" by (rule request_kept [OF st(2,4) same0])
  have ks: "key_segs VE_NODE_KEY_SEP (path_segs (text_field demo_proto ''path'' (field_trees set_request)))"
    using demo_key_segs by (simp add: request_fields)
  have c: "canon False (VInt 5)" and m: "\<not> toBool False (field_value ''meta'' (field_trees get_request))" by (simp_all add: request_fields)
  have pp: "text_field demo_proto ''path'' (field_trees get_request) = text_field demo_proto ''path'' (field_trees set_request)"
    by (simp add: request_fields)
  from set_then_get [OF st0(2,3) r sh fresh_apart(1) [OF r(2) p(1) ne(1)] p(3,4) fresh_apart(2) [OF r(2) p(2) ne(2)] request_fields(5,7) c ks
      st0(4) fresh_apart(1) [OF r(2) st0(7) ne(3)] fresh_apart(2) [OF st0(7) p(2) ne(6)] st0(5,6) fresh_apart(2) [OF r(2) st0(8) ne(4)] ne(5)
      request_fields(9) pp request_fields(11) m, of 0 None 0]
  show ?thesis using st(1) st0(1,11,12)
    by (auto simp: request_fields head_fields_def isNull_def simp del: dispatchNode.simps)
qed

theorem set_bad_path_crashes_witness:
  "\<exists>req rep st. make_request [(''op'', VString ''node.set''), (''path'', VString ''robot/arm#x''), (''value'', VInt 5)] demo = Some (req, rep, st)
    \<and> dispatchNode 1 demo_proto req rep (None, st) = None"
proof -
  define kvs where "kvs = [(''op'', VString ''node.set''), (''path'', VString ''robot/arm#x''), (''value'', VInt 5)]"
  have "list_all field_name (map fst kvs)" "distinct (map fst kvs)" by (simp_all add: kvs_def)
  from make_request_spec [OF demo_ok demo_plain this] obtain req rep st where st: "make_request kvs demo = Some (req, rep, st)"
    "forest_ok st" "plain st" "shaped st req (NT ''req'' VNone (field_trees kvs))"
    and same: "\<forall>m. alive demo m \<longrightarrow> alive st m \<and> kids st m = kids demo m \<and> node_value st m = node_value demo m
         \<and> name_of st m = name_of demo m \<and> parent st m = parent demo m" by blast
  have f: "text_field demo_proto ''op'' (field_trees kvs) = ''node.set''" "field ''value'' (field_trees kvs) \<noteq> None"
    "text_field demo_proto ''path'' (field_trees kvs) = ''robot/arm#x''"
    by (simp_all add: kvs_def text_field_def field_value_def field_def)
  have "path_segs ''robot/arm#x'' = [''robot''] @ ''arm#x'' # []" "key_segs VE_NODE_KEY_SEP [''robot'']"
    "parseKey ''arm#x'' VE_NODE_KEY_SEP = KeyBad"
    by code_simp+
  note seg = this [folded f(3)]
  have "alive st (pe_root demo_proto)" "parent st (pe_root demo_proto) = None"
    using same demo_alive(1) demo_parent0 by (simp_all add: request_fields)
  from set_bad_path_crashes [OF st(2,3) this st(4) f(1,2) seg, of 0 rep None]
  show ?thesis using st(1) by (auto simp: kvs_def simp del: dispatchNode.simps)
qed

end
