(* ===== verification/Msgpack.thy ===== *)
theory Msgpack
  imports Var "HOL-Library.Monad_Syntax"
begin

text \<open>
  The part of the vendored MessagePack library (\<open>deps/msgpack-c\<close>) the binary codec is built on: the
  packer (\<open>v1/pack.hpp\<close>), the byte-at-a-time parser with its container stack (\<open>v2/parse.hpp\<close>) and
  the visitor that builds the object tree (\<open>v2/create_object_visitor.hpp\<close>), reached through
  \<open>v3::unpack\<close>. Bytes are 8-bit words. The parser's cursor is the input that is left. The
  visitor's stack of pointers into arrays of the zone is a stack of frames: the items already
  complete and the one being written. Allocation in the zone succeeds. The visitor's callbacks
  return true or throw, so \<open>PARSE_STOP_VISITOR\<close> does not arise.
\<close>

section \<open>Big-endian numbers\<close>

fun be_bytes :: "nat \<Rightarrow> nat \<Rightarrow> u8 list" where
  "be_bytes 0 n = []"
| "be_bytes (Suc k) n = of_nat (n div 256 ^ k) # be_bytes k n"

definition be_nat :: "u8 list \<Rightarrow> nat" where
  "be_nat bs = foldl (\<lambda>a b. a * 256 + unat b) 0 bs"

section \<open>The packer\<close>

definition pack_nil :: "u8 list" where
  "pack_nil = [0xc0]"

definition pack_bool :: "bool \<Rightarrow> u8 list" where
  "pack_bool b = (if b then [0xc3] else [0xc2])"

definition pack_imp_uint64 :: "u64 \<Rightarrow> u8 list" where
  "pack_imp_uint64 d =
     (if d < 2 ^ 8 then (if d < 2 ^ 7 then be_bytes 1 (unat d) else 0xcc # be_bytes 1 (unat d))
      else if d < 2 ^ 16 then 0xcd # be_bytes 2 (unat d)
      else if d < 2 ^ 32 then 0xce # be_bytes 4 (unat d)
      else 0xcf # be_bytes 8 (unat d))"

definition pack_imp_int64 :: "i64 \<Rightarrow> u8 list" where
  "pack_imp_int64 d =
     (if sint d < - (2 ^ 5) then
        (if sint d < - (2 ^ 15)
         then (if sint d < - (2 ^ 31) then 0xd3 # be_bytes 8 (unat d) else 0xd2 # be_bytes 4 (unat d))
         else (if sint d < - (2 ^ 7) then 0xd1 # be_bytes 2 (unat d) else 0xd0 # be_bytes 1 (unat d)))
      else if sint d < 2 ^ 7 then be_bytes 1 (unat d)
      else if sint d < 2 ^ 16
        then (if sint d < 2 ^ 8 then 0xcc # be_bytes 1 (unat d) else 0xcd # be_bytes 2 (unat d))
      else if sint d < 2 ^ 32 then 0xce # be_bytes 4 (unat d)
      else 0xcf # be_bytes 8 (unat d))"

text \<open>Comparison of a finite double with an integer.\<close>

definition double_le_int :: "u64 \<Rightarrow> int \<Rightarrow> bool" where
  "double_le_int d i =
     (let (n, q) = dbl_ratio d in (if dbl_neg d then - int n else int n) \<le> i * int q)"

definition int_le_double :: "int \<Rightarrow> u64 \<Rightarrow> bool" where
  "int_le_double i d =
     (let (n, q) = dbl_ratio d in i * int q \<le> (if dbl_neg d then - int n else int n))"

text \<open>A double with an integral value is packed as an integer. At \<open>2 ^ 64\<close> the bound check
  passes, because the largest \<open>uint64_t\<close> rounds up to it, and the conversion is undefined.\<close>

definition pack_double :: "u64 \<Rightarrow> u8 list option" where
  "pack_double d =
     (let raw = 0xcb # be_bytes 8 (unat d)
      in case double_trunc d of
           None \<Rightarrow> Some raw
         | Some t \<Rightarrow>
             if int_le_double 0 d \<and> double_le_int d (2 ^ 64) then
               (if 2 ^ 64 \<le> t then None
                else if double_eq d (double_of_int t) then Some (pack_imp_uint64 (of_int t)) else Some raw)
             else if \<not> int_le_double 0 d \<and> int_le_double (- (2 ^ 63)) d \<and> double_eq d (double_of_int t)
             then Some (pack_imp_int64 (of_int t))
             else Some raw)"

text \<open>The headers of arrays, maps, strings and binaries; the length is a \<open>uint32_t\<close>.\<close>

definition pack_array :: "nat \<Rightarrow> u8 list" where
  "pack_array n =
     (if n < 16 then [0x90 OR of_nat n]
      else if n < 65536 then 0xdc # be_bytes 2 n else 0xdd # be_bytes 4 n)"

definition pack_map :: "nat \<Rightarrow> u8 list" where
  "pack_map n =
     (if n < 16 then [0x80 OR of_nat n]
      else if n < 65536 then 0xde # be_bytes 2 n else 0xdf # be_bytes 4 n)"

definition pack_str :: "nat \<Rightarrow> u8 list" where
  "pack_str l =
     (if l < 32 then [0xa0 OR of_nat l]
      else if l < 256 then 0xd9 # be_bytes 1 l
      else if l < 65536 then 0xda # be_bytes 2 l else 0xdb # be_bytes 4 l)"

definition pack_bin :: "nat \<Rightarrow> u8 list" where
  "pack_bin l =
     (if l < 256 then 0xc4 # be_bytes 1 l
      else if l < 65536 then 0xc5 # be_bytes 2 l else 0xc6 # be_bytes 4 l)"

section \<open>Objects and the visitor that builds them\<close>

datatype mobj =
  MNil
| MBool bool
| MPos u64
| MNeg i64
| MFloat32 u64
| MFloat64 u64
| MStr "u8 list"
| MBin "u8 list"
| MExt "u8 list"
| MArr "mobj list"
| MMap "(mobj \<times> mobj) list"

record frame =
  fr_items :: "mobj list"
  fr_cur :: mobj

datatype mp_error = ParseError | InsufficientBytes | DepthOverflow

definition put_cur :: "mobj \<Rightarrow> frame list \<Rightarrow> frame list" where
  "put_cur m st = (case st of [] \<Rightarrow> [] | fr # frs \<Rightarrow> fr\<lparr>fr_cur := m\<rparr> # frs)"

definition int_obj :: "i64 \<Rightarrow> mobj" where
  "int_obj v = (if 0 \<le> sint v then MPos v else MNeg v)"

text \<open>\<open>start_array\<close> and \<open>start_map\<close> open a frame, \<open>end_array_item\<close>, \<open>end_map_key\<close> and
  \<open>end_map_value\<close> move on to the next item, \<open>end_array\<close> and \<open>end_map\<close> close the frame.\<close>

definition limit_depth :: nat where "limit_depth = 0xffffffff"

definition start_container :: "frame list \<Rightarrow> mp_error + frame list" where
  "start_container st =
     (if limit_depth < length st then Inl DepthOverflow
      else Inr (\<lparr>fr_items = [], fr_cur = MNil\<rparr> # st))"

definition next_item :: "frame list \<Rightarrow> frame list" where
  "next_item st =
     (case st of [] \<Rightarrow> [] | fr # frs \<Rightarrow> \<lparr>fr_items = fr_items fr @ [fr_cur fr], fr_cur = MNil\<rparr> # frs)"

fun pairs :: "mobj list \<Rightarrow> (mobj \<times> mobj) list" where
  "pairs (k # v # ms) = (k, v) # pairs ms"
| "pairs _ = []"

definition end_array :: "frame list \<Rightarrow> frame list" where
  "end_array st = (case st of [] \<Rightarrow> [] | fr # frs \<Rightarrow> put_cur (MArr (fr_items fr)) frs)"

definition end_map :: "frame list \<Rightarrow> frame list" where
  "end_map st = (case st of [] \<Rightarrow> [] | fr # frs \<Rightarrow> put_cur (MMap (pairs (fr_items fr))) frs)"

text \<open>The value of a \<open>float\<close> as a double.\<close>

definition double_of_f32 :: "32 word \<Rightarrow> u64" where
  "double_of_f32 w =
     (let e = unat (drop_bit 23 w AND 0xFF); m = unat (w AND 0x7FFFFF)
      in with_sign (bit w 31)
           (if e = 255 then (if m = 0 then 0x7FF0000000000000
                             else 0x7FF8000000000000 OR of_nat (m * 2 ^ 29))
            else if e = 0 then round_ratio m (2 ^ 149)
            else if 150 \<le> e then round_ratio ((m + 2 ^ 23) * 2 ^ (e - 150)) 1
            else round_ratio (m + 2 ^ 23) (2 ^ (150 - e))))"

section \<open>The parser\<close>

datatype container = ArrayItem | MapKey | MapValue

datatype parse_return = ParseSuccess | ParseExtraBytes | ParseContinue

record mp_ctx =
  mp_inp :: "u8 list"
  mp_cs :: nat
  mp_trail :: nat
  mp_again :: bool
  mp_stack :: "(container \<times> nat) list"
  mp_vis :: "frame list"

text \<open>One step of the parsing loop: go on, return, or an exception of the visitor.\<close>

datatype mp_out = Next mp_ctx | Return parse_return mp_ctx | Throw mp_error

abbreviation (input) "CS_HEADER \<equiv> 0 :: nat"
abbreviation (input) "ACS_STR_VALUE \<equiv> 0x20 :: nat"
abbreviation (input) "ACS_BIN_VALUE \<equiv> 0x21 :: nat"
abbreviation (input) "ACS_EXT_VALUE \<equiv> 0x22 :: nat"

text \<open>\<open>unpack_stack::consume\<close>: a value is complete; close the containers it completes.\<close>

fun consume :: "(container \<times> nat) list \<Rightarrow> frame list \<Rightarrow> parse_return \<times> (container \<times> nat) list \<times> frame list" where
  "consume [] vis = (ParseSuccess, [], vis)"
| "consume ((ArrayItem, r) # st) vis =
     (if r - 1 = 0 then consume st (end_array (next_item vis))
      else (ParseContinue, (ArrayItem, r - 1) # st, next_item vis))"
| "consume ((MapKey, r) # st) vis = (ParseContinue, (MapValue, r) # st, next_item vis)"
| "consume ((MapValue, r) # st) vis =
     (if r - 1 = 0 then consume st (end_map (next_item vis))
      else (ParseContinue, (MapKey, r - 1) # st, next_item vis))"

text \<open>\<open>after_visit_proc\<close>: move past the last byte of the value and complete it.\<close>

definition after_visit :: "mp_ctx \<Rightarrow> mp_out" where
  "after_visit c =
     (case consume (mp_stack c) (mp_vis c) of
        (ret, st, vis) \<Rightarrow>
          (let c' = c\<lparr>mp_inp := tl (mp_inp c), mp_stack := st, mp_vis := vis, mp_cs := CS_HEADER\<rparr>
           in if ret = ParseContinue then Next c' else Return ret c'))"

definition visit :: "mobj \<Rightarrow> mp_ctx \<Rightarrow> mp_out" where
  "visit m c = after_visit (c\<lparr>mp_vis := put_cur m (mp_vis c)\<rparr>)"

definition start_aggregate :: "container \<Rightarrow> nat \<Rightarrow> mp_ctx \<Rightarrow> mp_out" where
  "start_aggregate ct n c =
     (case start_container (mp_vis c) of
        Inl e \<Rightarrow> Throw e
      | Inr vis \<Rightarrow>
          if n = 0
          then after_visit (c\<lparr>mp_vis := (if ct = ArrayItem then end_array vis else end_map vis)\<rparr>)
          else Next (c\<lparr>mp_inp := tl (mp_inp c), mp_stack := (ct, n) # mp_stack c, mp_vis := vis,
                       mp_cs := CS_HEADER\<rparr>))"

definition trails :: "nat list" where
  "trails = [1, 2, 4, 1, 2, 4, 4, 8, 1, 2, 4, 8, 1, 2, 4, 8, 2, 3, 5, 9, 17, 1, 2, 4, 2, 4, 2, 4]"

definition mp_header :: "mp_ctx \<Rightarrow> mp_out" where
  "mp_header c =
     (let b = hd (mp_inp c); selector = unat b
      in if selector \<le> 0x7f then visit (MPos (ucast b)) c
         else if 0xe0 \<le> selector then visit (int_obj (scast b)) c
         else if 0xc4 \<le> selector \<and> selector \<le> 0xdf then
           Next (c\<lparr>mp_trail := trails ! (selector - 0xc4), mp_cs := selector mod 0x20, mp_again := True\<rparr>)
         else if 0xa0 \<le> selector \<and> selector \<le> 0xbf then
           (if selector mod 0x20 = 0 then visit (MStr []) (c\<lparr>mp_trail := 0\<rparr>)
            else Next (c\<lparr>mp_trail := selector mod 0x20, mp_cs := ACS_STR_VALUE, mp_again := True\<rparr>))
         else if 0x90 \<le> selector \<and> selector \<le> 0x9f then start_aggregate ArrayItem (selector mod 0x10) c
         else if 0x80 \<le> selector \<and> selector \<le> 0x8f then start_aggregate MapKey (selector mod 0x10) c
         else if selector = 0xc2 then visit (MBool False) c
         else if selector = 0xc3 then visit (MBool True) c
         else if selector = 0xc0 then visit MNil c
         else Throw ParseError)"

text \<open>The body of a string, binary or extension whose length was just read.\<close>

definition read_length :: "nat \<Rightarrow> nat \<Rightarrow> (u8 list \<Rightarrow> mobj) \<Rightarrow> mp_ctx \<Rightarrow> mp_out" where
  "read_length len acs mk c =
     (if len = 0 then visit (mk []) (c\<lparr>mp_trail := 0\<rparr>)
      else Next (c\<lparr>mp_trail := len, mp_cs := acs, mp_again := True\<rparr>))"

definition mp_value :: "u8 list \<Rightarrow> mp_ctx \<Rightarrow> mp_out" where
  "mp_value n c =
     (let cs = mp_cs c; v = be_nat n
      in if cs = 0x0a then visit (MFloat32 (double_of_f32 (of_nat v))) c
         else if cs = 0x0b then visit (MFloat64 (of_nat v)) c
         else if cs = 0x0c \<or> cs = 0x0d \<or> cs = 0x0e \<or> cs = 0x0f then visit (MPos (of_nat v)) c
         else if cs = 0x10 then visit (int_obj (scast (of_nat v :: 8 word))) c
         else if cs = 0x11 then visit (int_obj (scast (of_nat v :: 16 word))) c
         else if cs = 0x12 then visit (int_obj (scast (of_nat v :: 32 word))) c
         else if cs = 0x13 then visit (int_obj (of_nat v)) c
         else if 0x14 \<le> cs \<and> cs \<le> 0x18 then visit (MExt n) c
         else if cs = 0x19 \<or> cs = 0x1a \<or> cs = 0x1b then read_length v ACS_STR_VALUE MStr c
         else if cs = 0x04 \<or> cs = 0x05 \<or> cs = 0x06 then read_length v ACS_BIN_VALUE MBin c
         else if cs = 0x07 \<or> cs = 0x08 \<or> cs = 0x09 then read_length (v + 1) ACS_EXT_VALUE MExt c
         else if cs = ACS_STR_VALUE then visit (MStr n) c
         else if cs = ACS_BIN_VALUE then visit (MBin n) c
         else if cs = ACS_EXT_VALUE then visit (MExt (take (mp_trail c mod 2 ^ 32) n)) c
         else if cs = 0x1c \<or> cs = 0x1d then start_aggregate ArrayItem v c
         else if cs = 0x1e \<or> cs = 0x1f then start_aggregate MapKey v c
         else Throw ParseError)"

text \<open>The second half of an iteration: the bytes after a header. The cursor is left on their last byte.\<close>

definition mp_trailing :: "mp_ctx \<Rightarrow> mp_out" where
  "mp_trailing c =
     (let inp = (if mp_again c then tl (mp_inp c) else mp_inp c)
      in if length inp < mp_trail c then Return ParseContinue (c\<lparr>mp_inp := inp, mp_again := False\<rparr>)
         else mp_value (take (mp_trail c) inp)
                (c\<lparr>mp_inp := drop (mp_trail c - 1) inp, mp_again := False\<rparr>))"

definition mp_iteration :: "mp_ctx \<Rightarrow> mp_out" where
  "mp_iteration c =
     (case (if mp_cs c = CS_HEADER then mp_header (c\<lparr>mp_again := False\<rparr>) else Next c) of
        Next c' \<Rightarrow> if mp_cs c' \<noteq> CS_HEADER \<or> mp_again c' then mp_trailing c' else Next c'
      | out \<Rightarrow> out)"

text \<open>The loop ends by itself when the input is used up; \<open>None\<close> is the fuel running out.\<close>

fun mp_execute :: "nat \<Rightarrow> mp_ctx \<Rightarrow> mp_out option" where
  "mp_execute 0 c = None"
| "mp_execute (Suc fuel) c =
     (case mp_iteration c of
        Next c' \<Rightarrow> if mp_inp c' = [] then Some (Return ParseContinue c') else mp_execute fuel c'
      | out \<Rightarrow> Some out)"

definition mp_init :: "u8 list \<Rightarrow> mp_ctx" where
  "mp_init bytes = \<lparr>mp_inp = bytes, mp_cs = CS_HEADER, mp_trail = 0, mp_again = False, mp_stack = [],
     mp_vis = [\<lparr>fr_items = [], fr_cur = MNil\<rparr>]\<rparr>"

text \<open>\<open>unpack\<close>: the object and the number of bytes it took, or the exception. Running out of input
  throws \<open>insufficient_bytes\<close>.\<close>

definition unpack :: "u8 list \<Rightarrow> (mp_error + mobj \<times> nat) option" where
  "unpack bytes =
     (if bytes = [] then Some (Inl InsufficientBytes)
      else do {
        out \<leftarrow> mp_execute (length bytes) (mp_init bytes);
        Some (case out of
                Throw e \<Rightarrow> Inl e
              | Return ParseSuccess c \<Rightarrow>
                  Inr (fr_cur (last (mp_vis c)), length bytes - length (mp_inp c))
              | Return _ c \<Rightarrow> Inl InsufficientBytes
              | Next c \<Rightarrow> Inl InsufficientBytes) })"

section \<open>Numbers\<close>

lemma length_be_bytes [simp]: "length (be_bytes k n) = k"
  by (induction k) auto

lemma be_bytes_Suc: "0 < k \<Longrightarrow> \<exists>b bs. be_bytes k n = b # bs"
  by (cases k) auto

lemma be_nat_foldl: "foldl (\<lambda>a b. a * 256 + unat b) a (be_bytes k n) = a * 256 ^ k + n mod 256 ^ k"
proof (induction k arbitrary: a)
  case (Suc k)
  have "n mod 256 ^ Suc k = 256 ^ k * (n div 256 ^ k mod 256) + n mod 256 ^ k"
    using mod_mult2_eq [of n "256 ^ k" 256] by (simp add: mult.commute)
  moreover have "unat (of_nat (n div 256 ^ k) :: u8) = n div 256 ^ k mod 256" by (simp add: unat_of_nat)
  ultimately show ?case by (simp add: Suc distrib_left mult.commute mult.left_commute)
qed simp

lemma be_nat_be_bytes: "be_nat (be_bytes k n) = n mod 256 ^ k"
  using be_nat_foldl [of 0 k n] by (simp add: be_nat_def)

lemma be_nat_exact: "n < 256 ^ k \<Longrightarrow> be_nat (be_bytes k n) = n"
  by (simp add: be_nat_be_bytes)

lemma header_or:
  "n < 16 \<Longrightarrow> unat (0x90 OR of_nat n :: u8) = 0x90 + n"
  "n < 16 \<Longrightarrow> unat (0x80 OR of_nat n :: u8) = 0x80 + n"
  "n < 32 \<Longrightarrow> unat (0xa0 OR of_nat n :: u8) = 0xa0 + n"
proof -
  have "list_all (\<lambda>n. unat (0x90 OR of_nat n :: u8) = 0x90 + n \<and> unat (0x80 OR of_nat n :: u8) = 0x80 + n) [0..<16]"
    "list_all (\<lambda>n. unat (0xa0 OR of_nat n :: u8) = 0xa0 + n) [0..<32]" by code_simp+
  then show "n < 16 \<Longrightarrow> unat (0x90 OR of_nat n :: u8) = 0x90 + n"
    "n < 16 \<Longrightarrow> unat (0x80 OR of_nat n :: u8) = 0x80 + n"
    "n < 32 \<Longrightarrow> unat (0xa0 OR of_nat n :: u8) = 0xa0 + n" by (auto simp: list_all_iff)
qed

section \<open>One iteration\<close>

text \<open>Visiting a value and opening a container at a position, whatever is left in the registers.\<close>

definition visited where
  "visited m rest t a st vis =
     visit m \<lparr>mp_inp = 0 # rest, mp_cs = 0, mp_trail = t, mp_again = a, mp_stack = st, mp_vis = vis\<rparr>"

definition aggregated where
  "aggregated ct n rest t a st vis =
     start_aggregate ct n \<lparr>mp_inp = 0 # rest, mp_cs = 0, mp_trail = t, mp_again = a, mp_stack = st, mp_vis = vis\<rparr>"

lemma visit_visited:
  "visit m c = visited m (tl (mp_inp c)) (mp_trail c) (mp_again c) (mp_stack c) (mp_vis c)"
  by (cases c) (simp add: visit_def visited_def after_visit_def)

lemma start_aggregated:
  "start_aggregate ct n c = aggregated ct n (tl (mp_inp c)) (mp_trail c) (mp_again c) (mp_stack c) (mp_vis c)"
  by (cases c) (simp add: start_aggregate_def aggregated_def after_visit_def split: sum.splits)

lemma visited_Next:
  assumes "visited m rest t a st vis = Next c"
  shows "mp_inp c = rest \<and> mp_cs c = CS_HEADER \<and> mp_trail c = t \<and> mp_again c = a"
  using assms by (auto simp: visited_def visit_def after_visit_def Let_def split: prod.splits if_splits)

lemma aggregated_Next:
  assumes "aggregated ct n rest t a st vis = Next c"
  shows "mp_inp c = rest \<and> mp_cs c = CS_HEADER \<and> mp_trail c = t \<and> mp_again c = a"
  using assms
  by (auto simp: aggregated_def start_aggregate_def after_visit_def Let_def split: prod.splits sum.splits if_splits)

definition continue :: "nat \<Rightarrow> mp_out \<Rightarrow> mp_out option" where
  "continue f out =
     (case out of
        Next c' \<Rightarrow> if mp_inp c' = [] then Some (Return ParseContinue c') else mp_execute f c'
      | out \<Rightarrow> Some out)"

lemma execute_Suc: "mp_execute (Suc f) c = continue f (mp_iteration c)"
  by (simp add: continue_def split: mp_out.splits)

lemma trails_nth:
  assumes "0xc4 \<le> s" "s \<le> 0xdf"
  shows "trails ! (s - 0xc4) \<in> {1, 2, 3, 4, 5, 8, 9, 17}"
proof -
  have "s - 0xc4 < length trails" using assms by (simp add: trails_def)
  then have "trails ! (s - 0xc4) \<in> set trails" by (rule nth_mem)
  then show ?thesis by (auto simp: trails_def)
qed

lemma iteration_byte:
  assumes "mp_cs c = CS_HEADER" "mp_inp c = b # rest"
  shows "unat b \<le> 0x7f \<Longrightarrow> mp_iteration c = visited (MPos (ucast b)) rest (mp_trail c) False (mp_stack c) (mp_vis c)"
    and "0xe0 \<le> unat b \<Longrightarrow> mp_iteration c = visited (int_obj (scast b)) rest (mp_trail c) False (mp_stack c) (mp_vis c)"
    and "b = 0xc2 \<Longrightarrow> mp_iteration c = visited (MBool False) rest (mp_trail c) False (mp_stack c) (mp_vis c)"
    and "b = 0xc3 \<Longrightarrow> mp_iteration c = visited (MBool True) rest (mp_trail c) False (mp_stack c) (mp_vis c)"
    and "b = 0xc0 \<Longrightarrow> mp_iteration c = visited MNil rest (mp_trail c) False (mp_stack c) (mp_vis c)"
    and "unat b = 0xa0 \<Longrightarrow> mp_iteration c = visited (MStr []) rest 0 False (mp_stack c) (mp_vis c)"
  using assms
  by (auto simp: mp_iteration_def mp_header_def Let_def visit_visited split: mp_out.splits dest: visited_Next)

lemma iteration_aggregate:
  assumes "mp_cs c = CS_HEADER" "mp_inp c = b # rest"
  shows "0x90 \<le> unat b \<Longrightarrow> unat b \<le> 0x9f \<Longrightarrow>
      mp_iteration c = aggregated ArrayItem (unat b mod 0x10) rest (mp_trail c) False (mp_stack c) (mp_vis c)"
    and "0x80 \<le> unat b \<Longrightarrow> unat b \<le> 0x8f \<Longrightarrow>
      mp_iteration c = aggregated MapKey (unat b mod 0x10) rest (mp_trail c) False (mp_stack c) (mp_vis c)"
  using assms
  by (auto simp: mp_iteration_def mp_header_def Let_def start_aggregated split: mp_out.splits dest: aggregated_Next)

lemma mod32_range: "0xc4 \<le> s \<Longrightarrow> s \<le> 0xdf \<Longrightarrow> s mod 0x20 = s - 0xc0" for s :: nat
proof -
  assume "0xc4 \<le> s" "s \<le> 0xdf"
  then have "s mod 0x20 = (s - 0xc0 + 6 * 0x20) mod 0x20" by simp
  also have "\<dots> = (s - 0xc0) mod 0x20" by (rule mod_mult_self1)
  also have "\<dots> = s - 0xc0" using \<open>s \<le> 0xdf\<close> by simp
  finally show ?thesis .
qed

lemma iteration_fixed:
  assumes "mp_cs c = CS_HEADER" "mp_inp c = b # n @ rest" "0xc4 \<le> unat b" "unat b \<le> 0xdf"
    "length n = trails ! (unat b - 0xc4)"
  shows "mp_iteration c = mp_value n \<lparr>mp_inp = drop (length n - 1) (n @ rest), mp_cs = unat b - 0xc0,
      mp_trail = length n, mp_again = False, mp_stack = mp_stack c, mp_vis = mp_vis c\<rparr>"
  using assms mod32_range [OF assms(3,4)]
  by (cases c) (simp add: mp_iteration_def mp_header_def Let_def mp_trailing_def)

lemma iteration_body:
  assumes "s \<noteq> []"
  shows "mp_iteration \<lparr>mp_inp = x # s @ rest, mp_cs = ACS_STR_VALUE, mp_trail = length s, mp_again = True,
      mp_stack = st, mp_vis = vis\<rparr> = visited (MStr s) rest (length s) False st vis"
    and "mp_iteration \<lparr>mp_inp = x # s @ rest, mp_cs = ACS_BIN_VALUE, mp_trail = length s, mp_again = True,
      mp_stack = st, mp_vis = vis\<rparr> = visited (MBin s) rest (length s) False st vis"
proof -
  have "tl (drop (length s - 1) (s @ rest)) = rest"
    using assms by (cases s rule: rev_cases) auto
  then show "mp_iteration \<lparr>mp_inp = x # s @ rest, mp_cs = ACS_STR_VALUE, mp_trail = length s, mp_again = True,
      mp_stack = st, mp_vis = vis\<rparr> = visited (MStr s) rest (length s) False st vis"
    and "mp_iteration \<lparr>mp_inp = x # s @ rest, mp_cs = ACS_BIN_VALUE, mp_trail = length s, mp_again = True,
      mp_stack = st, mp_vis = vis\<rparr> = visited (MBin s) rest (length s) False st vis"
    using assms by (simp_all add: mp_iteration_def mp_trailing_def mp_value_def Let_def visit_visited)
qed

lemma iteration_fixstr:
  assumes "mp_cs c = CS_HEADER" "mp_inp c = b # s @ rest" "unat b = 0xa0 + length s" "length s < 32" "s \<noteq> []"
  shows "mp_iteration c = visited (MStr s) rest (length s) False (mp_stack c) (mp_vis c)"
proof -
  have "(0xa0 + length s) mod 0x20 = (length s + 5 * 0x20) mod 0x20" by (simp add: add.commute)
  also have "\<dots> = length s mod 0x20" by (rule mod_mult_self1)
  finally have m: "(0xa0 + length s) mod 0x20 = length s" using assms(4) by simp
  have "tl (drop (length s - 1) (s @ rest)) = rest"
    using assms(5) by (cases s rule: rev_cases) auto
  then show ?thesis
    using assms m by (simp add: mp_iteration_def mp_header_def Let_def mp_trailing_def mp_value_def visit_visited)
qed

section \<open>Integers at their widths\<close>

lemma sint_cases64: "sint (d :: 64 word) = uint d \<or> sint d = uint d - 2 ^ 64"
proof -
  have "take_bit 64 (uint d) = uint d" using uint_lt2p [of d] by (intro take_bit_int_eq_self) simp_all
  then show ?thesis
    using signed_take_bit_eq_take_bit_minus [of 63 "uint d"] by (simp add: sint_uint)
qed

lemma sint_nonneg: "0 \<le> sint (d :: 64 word) \<Longrightarrow> sint d = int (unat d)"
proof -
  assume "0 \<le> sint d"
  moreover have "uint d < 2 ^ 64" using uint_lt2p [of d] by simp
  ultimately have "sint d = uint d" using sint_cases64 [of d] by linarith
  then show ?thesis by (simp only: uint_nat)
qed

lemma sint_narrow:
  assumes "LENGTH('n) \<le> 64" "- (2 ^ (LENGTH('n) - 1)) \<le> sint (d :: 64 word)" "sint d < 2 ^ (LENGTH('n) - 1)"
  shows "sint (ucast d :: 'n :: len word) = sint d"
proof -
  have "take_bit LENGTH('n) (sint d) = take_bit LENGTH('n) (uint d)"
    unfolding sint_uint using assms(1) by (intro take_bit_signed_take_bit) simp
  then have "signed_take_bit (LENGTH('n) - 1) (uint d) = signed_take_bit (LENGTH('n) - 1) (sint d)"
    by (simp add: signed_take_bit_decr_length_iff)
  also have "\<dots> = sint d" using assms(2,3) by (intro signed_take_bit_int_eq_self)
  finally show ?thesis
    by (simp add: sint_uint unsigned_ucast_eq signed_take_bit_take_bit)
qed

lemma scast_narrow:
  assumes "LENGTH('n) \<le> 64" "- (2 ^ (LENGTH('n) - 1)) \<le> sint (d :: 64 word)" "sint d < 2 ^ (LENGTH('n) - 1)"
  shows "scast (ucast d :: 'n :: len word) = d"
  using sint_narrow [OF assms] by (simp add: scast_eq)

lemma of_nat_be:
  assumes "8 * k = LENGTH('n)"
  shows "(of_nat (be_nat (be_bytes k (unat d))) :: 'n :: len word) = ucast (d :: 64 word)"
proof -
  have "(256 :: nat) ^ k = 2 ^ LENGTH('n)" unfolding assms [symmetric] power_mult by simp
  then show ?thesis by (simp add: be_nat_be_bytes word_unat_eq_iff unat_of_nat unsigned_ucast_eq take_bit_eq_mod)
qed

lemma fixnum_bytes:
  assumes "- 32 \<le> sint (b :: u8)" "sint b < 0"
  shows "0xe0 \<le> unat b"
proof -
  have "take_bit 8 (uint b) = uint b" using uint_lt2p [of b] by (intro take_bit_int_eq_self) simp_all
  then have "sint b = uint b - 256 * of_bool (bit (uint b) 7)"
    using signed_take_bit_eq_take_bit_minus [of 7 "uint b"] by (simp add: sint_uint)
  then have "uint b = sint b + 256" using assms uint_ge_0 [of b] by (cases "bit (uint b) 7") (simp_all del: uint_ge_0)
  then have "224 \<le> uint b" using assms by linarith
  then show ?thesis unfolding uint_nat by linarith
qed

section \<open>Integers through the parser\<close>

lemma pack_byte: "be_bytes 1 n = [of_nat n]"
  by simp

lemma iteration_trail:
  assumes "mp_cs c = CS_HEADER" "mp_inp c = b # n @ rest" "0xc4 \<le> unat b" "unat b \<le> 0xdf"
    "length n = trails ! (unat b - 0xc4)"
  shows "\<exists>c'. mp_iteration c = mp_value n c' \<and> tl (mp_inp c') = rest \<and> mp_cs c' = unat b - 0xc0
    \<and> mp_again c' = False \<and> mp_stack c' = mp_stack c \<and> mp_vis c' = mp_vis c
    \<and> (n = n1 @ [x] \<longrightarrow> mp_inp c' = x # rest)"
proof -
  have "n \<noteq> []" using assms(5) trails_nth [OF assms(3,4)] by auto
  then have "tl (drop (length n - 1) (n @ rest)) = rest" "n = n1 @ [x] \<longrightarrow> drop (length n - 1) (n @ rest) = x # rest"
    by (cases n rule: rev_cases; simp)+
  then show ?thesis using iteration_fixed [OF assms] by auto
qed

lemma value_visited:
  assumes "mp_iteration c = mp_value n c'" "tl (mp_inp c') = rest" "mp_again c' = False"
    "mp_stack c' = mp_stack c" "mp_vis c' = mp_vis c" "mp_value n c' = visit m c'"
  shows "\<exists>t a. mp_iteration c = visited m rest t a (mp_stack c) (mp_vis c)"
  using assms by (auto simp: visit_visited)

lemma iteration_uint:
  assumes "mp_cs c = CS_HEADER" "mp_inp c = pack_imp_uint64 d @ rest"
  shows "\<exists>t a. mp_iteration c = visited (MPos d) rest t a (mp_stack c) (mp_vis c)"
proof -
  consider "d < 2 ^ 7" | k b where "k \<in> {1, 2, 4, 8}" "unat d < 256 ^ k" "pack_imp_uint64 d = b # be_bytes k (unat d)"
    "(k, b) \<in> {(1, 0xcc), (2, 0xcd), (4, 0xce), (8, 0xcf)}"
  proof -
    have "d < 2 ^ 7 \<or> (\<exists>k b. k \<in> {1, 2, 4, 8} \<and> unat d < 256 ^ k \<and> pack_imp_uint64 d = b # be_bytes k (unat d)
        \<and> (k, b) \<in> {(1, 0xcc), (2, 0xcd), (4, 0xce), (8, 0xcf)})"
      using unsigned_less [of d, where ?'a = nat]
      by (cases "d < 2 ^ 8"; cases "d < 2 ^ 16"; cases "d < 2 ^ 32"; cases "d < 2 ^ 7")
        (auto simp: pack_imp_uint64_def word_less_nat_alt simp del: be_bytes.simps)
    then show ?thesis using that by blast
  qed
  then show ?thesis
  proof cases
    case 1
    then have u: "unat d < 128" by (simp add: word_less_nat_alt)
    then have "d < 2 ^ 8" by (simp add: word_less_nat_alt)
    then have p: "pack_imp_uint64 d = [ucast d]" using 1 by (simp add: pack_imp_uint64_def)
    have n: "unat (ucast d :: u8) = unat d" using u by (simp add: unsigned_ucast_eq take_bit_nat_eq_self)
    moreover have "(ucast (ucast d :: u8) :: u64) = d"
      using u by (simp add: word_unat_eq_iff unsigned_ucast_eq unsigned_take_bit_eq take_bit_nat_eq_self)
    ultimately show ?thesis using iteration_byte(1) [OF assms(1), of "ucast d" rest] assms(2) p u by auto
  next
    case 2
    have v: "(of_nat (be_nat (be_bytes k (unat d))) :: u64) = d" using be_nat_exact [OF 2(2)] by simp
    have b: "0xc4 \<le> unat b" "unat b \<le> 0xdf" "k = trails ! (unat b - 0xc4)" "unat b - 0xc0 \<in> {0x0c, 0x0d, 0x0e, 0x0f}"
      using 2(4) by (auto simp: trails_def)
    obtain c' where c': "mp_iteration c = mp_value (be_bytes k (unat d)) c'" "tl (mp_inp c') = rest"
      "mp_cs c' = unat b - 0xc0" "mp_again c' = False" "mp_stack c' = mp_stack c" "mp_vis c' = mp_vis c"
      using iteration_trail [OF assms(1), of b "be_bytes k (unat d)" rest] assms(2) 2(3) b by auto
    have "mp_value (be_bytes k (unat d)) c' = visit (MPos d) c'"
      using b(4) by (auto simp: mp_value_def c'(3) v)
    then show ?thesis using value_visited [OF c'(1,2,4-6)] by blast
  qed
qed

lemma int64_nonneg: "0 \<le> sint d \<Longrightarrow> pack_imp_int64 d = pack_imp_uint64 d"
proof -
  assume s: "0 \<le> sint d"
  have n: "sint d < - (2 ^ k) \<longleftrightarrow> False" for k
  proof -
    have "0 \<le> (2 :: int) ^ k" by simp
    then have "\<not> sint d < - (2 ^ k)" using s by linarith
    then show ?thesis by simp
  qed
  have c: "sint d < 2 ^ k \<longleftrightarrow> unat d < 2 ^ k" for k
    unfolding sint_nonneg [OF s] by (metis of_nat_less_iff of_nat_numeral of_nat_power)
  show ?thesis
    unfolding pack_imp_int64_def pack_imp_uint64_def n c by (auto simp: word_less_nat_alt simp del: be_bytes.simps)
qed

lemma iteration_neg:
  assumes "mp_cs c = CS_HEADER" "mp_inp c = pack_imp_int64 d @ rest" "sint d < 0"
  shows "\<exists>t a. mp_iteration c = visited (MNeg d) rest t a (mp_stack c) (mp_vis c)"
proof -
  have io: "int_obj d = MNeg d" using assms(3) by (simp add: int_obj_def)
  have wide: "\<exists>t a. mp_iteration c = visited (MNeg d) rest t a (mp_stack c) (mp_vis c)"
    if p: "pack_imp_int64 d = b # be_bytes k (unat d)" and b: "0xc4 \<le> unat b" "unat b \<le> 0xdf" "k = trails ! (unat b - 0xc4)"
      and v: "\<And>c'. mp_cs c' = unat b - 0xc0 \<Longrightarrow> mp_value (be_bytes k (unat d)) c' = visit (int_obj d) c'" for b k
  proof -
    obtain c' where c': "mp_iteration c = mp_value (be_bytes k (unat d)) c'" "tl (mp_inp c') = rest"
      "mp_cs c' = unat b - 0xc0" "mp_again c' = False" "mp_stack c' = mp_stack c" "mp_vis c' = mp_vis c"
      using iteration_trail [OF assms(1), of b "be_bytes k (unat d)" rest] assms(2) p b by auto
    then show ?thesis using value_visited [OF c'(1,2,4-6)] v [OF c'(3)] io by simp
  qed
  have n8: "scast (ucast d :: 8 word) = d" if "- (2 ^ 7) \<le> sint d" using that assms(3) by (intro scast_narrow) simp_all
  have n16: "scast (ucast d :: 16 word) = d" if "- (2 ^ 15) \<le> sint d" using that assms(3) by (intro scast_narrow) simp_all
  have n32: "scast (ucast d :: 32 word) = d" if "- (2 ^ 31) \<le> sint d" using that assms(3) by (intro scast_narrow) simp_all
  consider "- (2 ^ 5) \<le> sint d" | "sint d < - (2 ^ 5)" "- (2 ^ 7) \<le> sint d" | "sint d < - (2 ^ 7)" "- (2 ^ 15) \<le> sint d"
    | "sint d < - (2 ^ 15)" "- (2 ^ 31) \<le> sint d" | "sint d < - (2 ^ 31)" by linarith
  then show ?thesis
  proof cases
    case 1
    then have p: "pack_imp_int64 d = [ucast d]" using assms(3) by (simp add: pack_imp_int64_def)
    have "sint (ucast d :: u8) = sint d" using 1 assms(3) by (intro sint_narrow) simp_all
    then have "0xe0 \<le> unat (ucast d :: u8)" using 1 assms(3) by (intro fixnum_bytes) simp_all
    then show ?thesis using iteration_byte(2) [OF assms(1), of "ucast d" rest] assms(2) p io n8 1 by auto
  next
    case 2
    show ?thesis
      by (rule wide [where b = "0xd0" and k = 1]) (use 2 in \<open>simp_all add: pack_imp_int64_def trails_def mp_value_def
        of_nat_be [where k = "Suc 0" and 'n = 8] n8 del: be_bytes.simps\<close>)
  next
    case 3
    show ?thesis
      by (rule wide [where b = "0xd1" and k = 2]) (use 3 in \<open>simp_all add: pack_imp_int64_def trails_def mp_value_def
        of_nat_be [where k = 2 and 'n = 16] n16 del: be_bytes.simps\<close>)
  next
    case 4
    show ?thesis
      by (rule wide [where b = "0xd2" and k = 4]) (use 4 in \<open>simp_all add: pack_imp_int64_def trails_def mp_value_def
        of_nat_be [where k = 4 and 'n = 32] n32 del: be_bytes.simps\<close>)
  next
    case 5
    show ?thesis
      by (rule wide [where b = "0xd3" and k = 8]) (use 5 in \<open>simp_all add: pack_imp_int64_def trails_def mp_value_def
        of_nat_be [where k = 8 and 'n = 64] del: be_bytes.simps\<close>)
  qed
qed

section \<open>Encoded objects through the parser\<close>

text \<open>What the packer writes for an object; extensions and single-precision floats are never packed.\<close>

fun enc :: "mobj \<Rightarrow> u8 list" where
  "enc MNil = pack_nil"
| "enc (MBool b) = pack_bool b"
| "enc (MPos u) = pack_imp_uint64 u"
| "enc (MNeg i) = pack_imp_int64 i"
| "enc (MFloat32 d) = []"
| "enc (MFloat64 d) = 0xcb # be_bytes 8 (unat d)"
| "enc (MStr s) = pack_str (length s) @ s"
| "enc (MBin s) = pack_bin (length s) @ s"
| "enc (MExt s) = []"
| "enc (MArr ms) = pack_array (length ms) @ concat (map enc ms)"
| "enc (MMap kvs) = pack_map (length kvs) @ concat (map (\<lambda>(k, v). enc k @ enc v) kvs)"

fun packable :: "mobj \<Rightarrow> bool" where
  "packable (MNeg i) = (sint i < 0)"
| "packable (MStr s) = (length s < 2 ^ 32)"
| "packable (MBin s) = (length s < 2 ^ 32)"
| "packable (MArr ms) = (length ms < 2 ^ 32 \<and> (\<forall>m \<in> set ms. packable m))"
| "packable (MMap kvs) = (length kvs < 2 ^ 32 \<and> (\<forall>kv \<in> set kvs. packable (fst kv) \<and> packable (snd kv)))"
| "packable (MFloat32 d) = False"
| "packable (MExt s) = False"
| "packable m = True"

fun depth :: "mobj \<Rightarrow> nat" where
  "depth (MArr ms) = Suc (fold max (map depth ms) 0)"
| "depth (MMap kvs) = Suc (fold max (map (\<lambda>(k, v). max (depth k) (depth v)) kvs) 0)"
| "depth m = 0"

text \<open>\<open>k\<close> iterations lead from a position to the outcome, whatever fuel is left.\<close>

definition reaches :: "mp_ctx \<Rightarrow> nat \<Rightarrow> mp_out \<Rightarrow> bool" where
  "reaches c k out \<longleftrightarrow> (\<forall>f. mp_execute (k + f) c = continue f out)"

lemma reaches_one: "mp_iteration c = out \<Longrightarrow> reaches c 1 out"
  by (simp add: reaches_def execute_Suc del: mp_execute.simps)

lemma reaches_trans:
  "reaches c k (Next c') \<Longrightarrow> mp_inp c' \<noteq> [] \<Longrightarrow> reaches c' j out \<Longrightarrow> reaches c (k + j) out"
  by (simp add: reaches_def continue_def add.assoc)

text \<open>From a position with an object's bytes ahead, the parser comes to visit exactly that object
  with the bytes behind it.\<close>

definition parses :: "mobj \<Rightarrow> bool" where
  "parses m \<longleftrightarrow>
     (\<forall>(c :: mp_ctx) rest. mp_cs c = CS_HEADER \<longrightarrow> mp_inp c = enc m @ rest
       \<longrightarrow> length (mp_vis c) + depth m \<le> Suc limit_depth
       \<longrightarrow> (\<exists>k t a. 0 < k \<and> k \<le> length (enc m) \<and> reaches c k (visited m rest t a (mp_stack c) (mp_vis c))))"

lemma parses_one:
  assumes "\<And>c rest. mp_cs c = CS_HEADER \<Longrightarrow> mp_inp c = enc m @ rest
    \<Longrightarrow> \<exists>t a. mp_iteration c = visited m rest t a (mp_stack c) (mp_vis c)" "enc m \<noteq> []"
  shows "parses m"
  unfolding parses_def
proof (intro allI impI)
  fix c :: mp_ctx and rest assume "mp_cs c = CS_HEADER" "mp_inp c = enc m @ rest"
  then obtain t a where "mp_iteration c = visited m rest t a (mp_stack c) (mp_vis c)" using assms(1) by blast
  then have "reaches c 1 (visited m rest t a (mp_stack c) (mp_vis c))" by (rule reaches_one)
  moreover have "1 \<le> length (enc m)" using assms(2) by (cases "enc m") auto
  ultimately show "\<exists>k t a. 0 < k \<and> k \<le> length (enc m) \<and> reaches c k (visited m rest t a (mp_stack c) (mp_vis c))"
    using zero_less_one by blast
qed

lemma iteration_double:
  assumes "mp_cs c = CS_HEADER" "mp_inp c = (0xcb # be_bytes 8 (unat d)) @ rest"
  shows "\<exists>t a. mp_iteration c = visited (MFloat64 d) rest t a (mp_stack c) (mp_vis c)"
proof -
  obtain c' where c': "mp_iteration c = mp_value (be_bytes 8 (unat d)) c'" "tl (mp_inp c') = rest"
    "mp_cs c' = 0x0b" "mp_again c' = False" "mp_stack c' = mp_stack c" "mp_vis c' = mp_vis c"
    using iteration_trail [OF assms(1), of "0xcb" "be_bytes 8 (unat d)" rest "[]" 0] assms(2)
    by (simp add: trails_def) blast
  have "mp_value (be_bytes 8 (unat d)) c' = visit (MFloat64 d) c'"
    using of_nat_be [where k = 8 and 'n = 64 and d = d] by (simp add: mp_value_def c'(3))
  then show ?thesis using value_visited [OF c'(1,2,4-6)] by blast
qed

text \<open>A string or binary whose length follows its first byte takes two iterations.\<close>

lemma parses_long:
  assumes h: "enc m = b # be_bytes k (length s) @ s" "0xc4 \<le> unat b" "unat b \<le> 0xdf" "k = trails ! (unat b - 0xc4)"
    and l: "length s < 256 ^ k"
    and acs: "(acs, m) \<in> {(ACS_STR_VALUE, MStr s), (ACS_BIN_VALUE, MBin s)}"
    and v: "\<And>c'. mp_cs c' = unat b - 0xc0 \<Longrightarrow>
      mp_value (be_bytes k (length s)) c' = read_length (length s) acs (if acs = ACS_STR_VALUE then MStr else MBin) c'"
  shows "parses m"
  unfolding parses_def
proof (intro allI impI)
  fix c :: mp_ctx and rest assume c: "mp_cs c = CS_HEADER" "mp_inp c = enc m @ rest"
  have mk: "(if acs = ACS_STR_VALUE then MStr else MBin) s = m" using acs by auto
  have k: "0 < k" using trails_nth [OF h(2,3)] h(4) by auto
  then obtain n1 x where nx: "be_bytes k (length s) = n1 @ [x]"
    using length_be_bytes [of k "length s"] by (metis length_greater_0_conv rev_exhaust)
  obtain c' where c': "mp_iteration c = mp_value (be_bytes k (length s)) c'" "mp_inp c' = x # s @ rest"
      "mp_cs c' = unat b - 0xc0" "mp_again c' = False" "mp_stack c' = mp_stack c" "mp_vis c' = mp_vis c"
    using iteration_trail [OF c(1), of b "be_bytes k (length s)" "s @ rest" n1 x] c(2) h nx by auto
  show "\<exists>j t a. 0 < j \<and> j \<le> length (enc m) \<and> reaches c j (visited m rest t a (mp_stack c) (mp_vis c))"
  proof (cases "s = []")
    case True
    then have "mp_iteration c = visited m rest 0 False (mp_stack c) (mp_vis c)"
      using v [OF c'(3)] c' mk by (simp add: read_length_def visit_visited)
    then have "reaches c 1 (visited m rest 0 False (mp_stack c) (mp_vis c))" by (rule reaches_one)
    moreover have "1 \<le> length (enc m)" by (simp add: h(1))
    ultimately show ?thesis using zero_less_one by blast
  next
    case False
    define c2 where "c2 = \<lparr>mp_inp = x # s @ rest, mp_cs = acs, mp_trail = length s, mp_again = True,
      mp_stack = mp_stack c, mp_vis = mp_vis c\<rparr>"
    have "mp_iteration c = Next c2"
      using v [OF c'(3)] c' False by (cases c') (simp add: read_length_def c2_def)
    then have "reaches c 1 (Next c2)" by (rule reaches_one)
    moreover have "mp_iteration c2 = visited m rest (length s) False (mp_stack c) (mp_vis c)"
      using iteration_body [OF False, of x rest "mp_stack c" "mp_vis c"] acs by (auto simp: c2_def)
    then have "reaches c2 1 (visited m rest (length s) False (mp_stack c) (mp_vis c))" by (rule reaches_one)
    moreover have "mp_inp c2 \<noteq> []" by (simp add: c2_def)
    ultimately have "reaches c (1 + 1) (visited m rest (length s) False (mp_stack c) (mp_vis c))"
      using reaches_trans by blast
    moreover have "1 + 1 \<le> length (enc m)" using False by (cases s) (simp_all add: h(1))
    ultimately show ?thesis by (metis add_gr_0 zero_less_one)
  qed
qed

section \<open>Containers through the parser\<close>

lemma iteration_container:
  assumes c: "mp_cs c = CS_HEADER" "mp_inp c = p n @ rest" and n: "n < 2 ^ 32"
    and p: "(p, ct, b) \<in> {(pack_array, ArrayItem, 0xdc :: u8), (pack_map, MapKey, 0xde)}"
  shows "\<exists>t a. mp_iteration c = aggregated ct n rest t a (mp_stack c) (mp_vis c)"
proof -
  have wide: "\<exists>t a. mp_iteration c = aggregated ct n rest t a (mp_stack c) (mp_vis c)"
    if e: "p n = b # be_bytes k n" "n < 256 ^ k" and b: "0xc4 \<le> unat b" "unat b \<le> 0xdf" "k = trails ! (unat b - 0xc4)"
      and v: "\<And>c'. mp_cs c' = unat b - 0xc0 \<Longrightarrow> mp_value (be_bytes k n) c' = start_aggregate ct n c'" for b k
  proof -
    obtain c' where c': "mp_iteration c = mp_value (be_bytes k n) c'" "tl (mp_inp c') = rest"
      "mp_cs c' = unat b - 0xc0" "mp_again c' = False" "mp_stack c' = mp_stack c" "mp_vis c' = mp_vis c"
      using iteration_trail [OF c(1), of b "be_bytes k n" rest "[]" 0] c(2) e(1) b by auto
    then show ?thesis using v [OF c'(3)] by (auto simp: start_aggregated)
  qed
  have be: "be_nat (be_bytes 2 n) = n" if "n < 65536" using that by (intro be_nat_exact) simp
  have be4: "be_nat (be_bytes 4 n) = n" using n by (intro be_nat_exact) simp
  have m: "(0x90 + n) mod 0x10 = n" "(0x80 + n) mod 0x10 = n" if "n < 16"
    using that mod_mult_self1 [of n 9 "0x10"] mod_mult_self1 [of n 8 "0x10"] by (simp_all add: add.commute)
  consider "n < 16" | "16 \<le> n" "n < 65536" | "65536 \<le> n" by linarith
  then show ?thesis
  proof cases
    case 1
    then show ?thesis
      using p c(2) m [OF 1] header_or(1,2) [OF 1] iteration_aggregate [OF c(1)]
      by (auto simp: pack_array_def pack_map_def intro!: exI)
  next
    case 2
    show ?thesis
      by (rule wide [of b 2]) (use p 2 be in \<open>auto simp: pack_array_def pack_map_def trails_def mp_value_def\<close>)
  next
    case 3
    show ?thesis
      by (rule wide [of "b + 1" 4]) (use p 3 n be4 in \<open>auto simp: pack_array_def pack_map_def trails_def mp_value_def\<close>)
  qed
qed

lemma aggregated_empty:
  assumes "length vis \<le> limit_depth"
  shows "aggregated ArrayItem 0 rest t a st vis = visited (MArr []) rest t a st vis"
    and "aggregated MapKey 0 rest t a st vis = visited (MMap []) rest t a st vis"
  using assms
  by (simp_all add: aggregated_def start_aggregate_def start_container_def visited_def visit_def after_visit_def
      end_array_def end_map_def)

lemma aggregated_open:
  assumes "length vis \<le> limit_depth" "0 < n"
  shows "aggregated ct n rest t a st vis =
    Next \<lparr>mp_inp = rest, mp_cs = CS_HEADER, mp_trail = t, mp_again = a, mp_stack = (ct, n) # st,
      mp_vis = \<lparr>fr_items = [], fr_cur = MNil\<rparr> # vis\<rparr>"
  using assms by (simp add: aggregated_def start_aggregate_def start_container_def)

lemma visited_item:
  "visited m rest t a ((ArrayItem, Suc 0) # st) (\<lparr>fr_items = ds, fr_cur = y\<rparr> # vis)
     = visited (MArr (ds @ [m])) rest t a st vis"
  "visited m rest t a ((ArrayItem, Suc (Suc r)) # st) (\<lparr>fr_items = ds, fr_cur = y\<rparr> # vis)
     = Next \<lparr>mp_inp = rest, mp_cs = CS_HEADER, mp_trail = t, mp_again = a, mp_stack = (ArrayItem, Suc r) # st,
         mp_vis = \<lparr>fr_items = ds @ [m], fr_cur = MNil\<rparr> # vis\<rparr>"
  "visited m rest t a ((MapKey, r) # st) (\<lparr>fr_items = ds, fr_cur = y\<rparr> # vis)
     = Next \<lparr>mp_inp = rest, mp_cs = CS_HEADER, mp_trail = t, mp_again = a, mp_stack = (MapValue, r) # st,
         mp_vis = \<lparr>fr_items = ds @ [m], fr_cur = MNil\<rparr> # vis\<rparr>"
  "visited m rest t a ((MapValue, Suc 0) # st) (\<lparr>fr_items = ds, fr_cur = y\<rparr> # vis)
     = visited (MMap (pairs (ds @ [m]))) rest t a st vis"
  "visited m rest t a ((MapValue, Suc (Suc r)) # st) (\<lparr>fr_items = ds, fr_cur = y\<rparr> # vis)
     = Next \<lparr>mp_inp = rest, mp_cs = CS_HEADER, mp_trail = t, mp_again = a, mp_stack = (MapKey, Suc r) # st,
         mp_vis = \<lparr>fr_items = ds @ [m], fr_cur = MNil\<rparr> # vis\<rparr>"
  by (simp_all add: visited_def visit_def after_visit_def put_cur_def next_item_def end_array_def end_map_def)

lemma enc_not_Nil: "packable m \<Longrightarrow> enc m \<noteq> []"
  by (cases m) (auto simp: pack_nil_def pack_bool_def pack_imp_uint64_def pack_imp_int64_def pack_array_def
      pack_map_def pack_str_def pack_bin_def)

lemma parsesD:
  assumes "parses m" "mp_cs c = CS_HEADER" "mp_inp c = enc m @ rest" "length (mp_vis c) + depth m \<le> Suc limit_depth"
  obtains k t a where "0 < k" "k \<le> length (enc m)" "reaches c k (visited m rest t a (mp_stack c) (mp_vis c))"
  using assms unfolding parses_def by blast

lemma array_items:
  assumes "\<forall>m \<in> set ms. parses m \<and> enc m \<noteq> [] \<and> Suc (length vis) + depth m \<le> Suc limit_depth" "ms \<noteq> []"
    "mp_cs c = CS_HEADER" "mp_inp c = concat (map enc ms) @ rest" "mp_stack c = (ArrayItem, length ms) # st"
    "mp_vis c = \<lparr>fr_items = ds, fr_cur = y\<rparr> # vis"
  shows "\<exists>k t a. 0 < k \<and> k \<le> length (concat (map enc ms)) \<and> reaches c k (visited (MArr (ds @ ms)) rest t a st vis)"
  using assms
proof (induction ms arbitrary: c ds y)
  case (Cons m ms)
  have m: "parses m" "length (mp_vis c) + depth m \<le> Suc limit_depth" using Cons.prems(1,6) by simp_all
  obtain k t a where k: "0 < k" "k \<le> length (enc m)"
    "reaches c k (visited m (concat (map enc ms) @ rest) t a (mp_stack c) (mp_vis c))"
    using parsesD [OF m(1) Cons.prems(3) _ m(2), of "concat (map enc ms) @ rest"] Cons.prems(4) by auto
  show ?case
  proof (cases ms)
    case Nil
    then show ?thesis using k Cons.prems(5,6) by (auto simp: visited_item)
  next
    case (Cons m' ms')
    define c1 where "c1 = \<lparr>mp_inp = concat (map enc ms) @ rest, mp_cs = CS_HEADER, mp_trail = t, mp_again = a,
      mp_stack = (ArrayItem, length ms) # st, mp_vis = \<lparr>fr_items = ds @ [m], fr_cur = MNil\<rparr> # vis\<rparr>"
    have "reaches c k (Next c1)" using k(3) Cons Cons.prems(5,6) by (simp add: visited_item c1_def)
    moreover have "mp_inp c1 \<noteq> []" using Cons Cons.prems(1) by (simp add: c1_def)
    moreover obtain j t' a' where "0 < j" "j \<le> length (concat (map enc ms))"
      "reaches c1 j (visited (MArr ((ds @ [m]) @ ms)) rest t' a' st vis)"
      using Cons.IH [of c1 "ds @ [m]" MNil] Cons.prems(1) Cons by (auto simp: c1_def)
    ultimately show ?thesis using k(1,2) reaches_trans [of c k c1 j] by (intro exI [of _ "k + j"] exI conjI) auto
  qed
qed simp

abbreviation flat :: "(mobj \<times> mobj) list \<Rightarrow> mobj list" where
  "flat kvs \<equiv> concat (map (\<lambda>(k, v). [k, v]) kvs)"

lemma pairs_flat [simp]: "pairs (flat kvs) = kvs"
  by (induction kvs) auto

lemma map_items:
  assumes "\<forall>(k, v) \<in> set kvs. parses k \<and> parses v \<and> enc k \<noteq> [] \<and> enc v \<noteq> []
      \<and> Suc (length vis) + depth k \<le> Suc limit_depth \<and> Suc (length vis) + depth v \<le> Suc limit_depth" "kvs \<noteq> []"
    "mp_cs c = CS_HEADER" "mp_inp c = concat (map (\<lambda>(k, v). enc k @ enc v) kvs) @ rest"
    "mp_stack c = (MapKey, length kvs) # st" "mp_vis c = \<lparr>fr_items = flat ds, fr_cur = y\<rparr> # vis"
  shows "\<exists>k t a. 0 < k \<and> k \<le> length (concat (map (\<lambda>(k, v). enc k @ enc v) kvs))
    \<and> reaches c k (visited (MMap (ds @ kvs)) rest t a st vis)"
  using assms
proof (induction kvs arbitrary: c ds y)
  case (Cons kv kvs)
  obtain k v where kv: "kv = (k, v)" by force
  let ?rest = "concat (map (\<lambda>(k, v). enc k @ enc v) kvs) @ rest"
  have k: "parses k" "length (mp_vis c) + depth k \<le> Suc limit_depth" and v: "parses v" "enc v \<noteq> []"
    using Cons.prems(1,6) by (simp_all add: kv)
  obtain i t a where i: "0 < i" "i \<le> length (enc k)"
    "reaches c i (visited k (enc v @ ?rest) t a (mp_stack c) (mp_vis c))"
    using parsesD [OF k(1) Cons.prems(3) _ k(2), of "enc v @ ?rest"] Cons.prems(4) by (auto simp: kv)
  define c1 where "c1 = \<lparr>mp_inp = enc v @ ?rest, mp_cs = CS_HEADER, mp_trail = t, mp_again = a,
    mp_stack = (MapValue, Suc (length kvs)) # st, mp_vis = \<lparr>fr_items = flat ds @ [k], fr_cur = MNil\<rparr> # vis\<rparr>"
  have i1: "reaches c i (Next c1)" using i(3) Cons.prems(5,6) by (simp add: visited_item c1_def)
  have "length (mp_vis c1) + depth v \<le> Suc limit_depth" using Cons.prems(1) by (simp add: kv c1_def)
  then obtain j t a where j: "0 < j" "j \<le> length (enc v)" "reaches c1 j (visited v ?rest t a (mp_stack c1) (mp_vis c1))"
    using parsesD [OF v(1), of c1 ?rest] by (auto simp: c1_def)
  have ij: "reaches c (i + j) (visited v ?rest t a (mp_stack c1) (mp_vis c1))"
    using reaches_trans [OF i1 _ j(3)] v(2) by (simp add: c1_def)
  have fl: "pairs (flat ds @ [k, v]) = ds @ [(k, v)]" using pairs_flat [of "ds @ [(k, v)]"] by simp
  show ?case
  proof (cases kvs)
    case Nil
    have "reaches c (i + j) (visited (MMap (ds @ [kv])) rest t a st vis)"
      using ij Nil fl by (simp add: c1_def visited_item kv)
    then show ?thesis using i j Nil by (intro exI [of _ "i + j"] exI conjI) (auto simp: kv)
  next
    case (Cons kv' kvs')
    define c2 where "c2 = \<lparr>mp_inp = ?rest, mp_cs = CS_HEADER, mp_trail = t, mp_again = a,
      mp_stack = (MapKey, length kvs) # st, mp_vis = \<lparr>fr_items = flat (ds @ [kv]), fr_cur = MNil\<rparr> # vis\<rparr>"
    have "reaches c (i + j) (Next c2)" using ij Cons by (simp add: c1_def c2_def visited_item kv)
    moreover have "mp_inp c2 \<noteq> []" using Cons Cons.prems(1) by (auto simp: c2_def)
    moreover obtain l t' a' where "0 < l" "l \<le> length (concat (map (\<lambda>(k, v). enc k @ enc v) kvs))"
      "reaches c2 l (visited (MMap ((ds @ [kv]) @ kvs)) rest t' a' st vis)"
      using Cons.IH [of c2 "ds @ [kv]" MNil] Cons.prems(1) Cons by (auto simp: c2_def)
    ultimately show ?thesis using i(1,2) j(1,2) reaches_trans [of c "i + j" c2 l]
      by (intro exI [of _ "i + j + l"] exI conjI) (auto simp: kv)
  qed
qed simp

section \<open>Round trip and totality\<close>

lemma be_small: "n < 256 \<Longrightarrow> be_nat (be_bytes (Suc 0) n) = n" "n < 65536 \<Longrightarrow> be_nat (be_bytes 2 n) = n"
  "n < 4294967296 \<Longrightarrow> be_nat (be_bytes 4 n) = n"
  using be_nat_exact [of n 1] be_nat_exact [of n 2] be_nat_exact [of n 4] by (simp_all del: be_bytes.simps)

lemma parses_str:
  assumes "length s < 2 ^ 32"
  shows "parses (MStr s)"
proof -
  consider "length s < 32" | "32 \<le> length s" "length s < 256" | "256 \<le> length s" "length s < 65536" | "65536 \<le> length s"
    by linarith
  then show ?thesis
  proof cases
    case 1
    then have e: "enc (MStr s) = (0xa0 OR of_nat (length s)) # s" by (simp add: pack_str_def)
    have u: "unat (0xa0 OR of_nat (length s) :: u8) = 0xa0 + length s" by (rule header_or(3) [OF 1])
    show ?thesis
    proof (rule parses_one)
      fix c :: mp_ctx and rest assume c: "mp_cs c = CS_HEADER" "mp_inp c = enc (MStr s) @ rest"
      then have i: "mp_inp c = (0xa0 OR of_nat (length s)) # s @ rest" by (simp only: e append_Cons)
      show "\<exists>t a. mp_iteration c = visited (MStr s) rest t a (mp_stack c) (mp_vis c)"
      proof (cases "s = []")
        case True
        have "mp_iteration c = visited (MStr s) rest 0 False (mp_stack c) (mp_vis c)"
          using iteration_byte(6) [OF c(1) i] u True by simp
        then show ?thesis by blast
      next
        case False
        then show ?thesis using iteration_fixstr [OF c(1) i u 1 False] by blast
      qed
    qed (simp only: e, simp)
  next
    case 2
    then show ?thesis
      by (intro parses_long [where b = "0xd9" and k = 1 and s = s and acs = "0x20"])
        (simp_all add: pack_str_def trails_def mp_value_def be_small del: be_bytes.simps)
  next
    case 3
    then show ?thesis
      by (intro parses_long [where b = "0xda" and k = 2 and s = s and acs = "0x20"])
        (simp_all add: pack_str_def trails_def mp_value_def be_small del: be_bytes.simps)
  next
    case 4
    then show ?thesis using assms
      by (intro parses_long [where b = "0xdb" and k = 4 and s = s and acs = "0x20"])
        (simp_all add: pack_str_def trails_def mp_value_def be_small del: be_bytes.simps)
  qed
qed

lemma parses_bin:
  assumes "length s < 2 ^ 32"
  shows "parses (MBin s)"
proof -
  consider "length s < 256" | "256 \<le> length s" "length s < 65536" | "65536 \<le> length s" by linarith
  then show ?thesis
  proof cases
    case 1
    then show ?thesis
      by (intro parses_long [where b = "0xc4" and k = 1 and s = s and acs = "0x21"])
        (simp_all add: pack_bin_def trails_def mp_value_def be_small del: be_bytes.simps)
  next
    case 2
    then show ?thesis
      by (intro parses_long [where b = "0xc5" and k = 2 and s = s and acs = "0x21"])
        (simp_all add: pack_bin_def trails_def mp_value_def be_small del: be_bytes.simps)
  next
    case 3
    then show ?thesis using assms
      by (intro parses_long [where b = "0xc6" and k = 4 and s = s and acs = "0x21"])
        (simp_all add: pack_bin_def trails_def mp_value_def be_small del: be_bytes.simps)
  qed
qed

lemma parses_container:
  assumes p: "(p, ct, b) \<in> {(pack_array, ArrayItem, 0xdc :: u8), (pack_map, MapKey, 0xde)}"
    and e: "enc m = p n @ body" "n < 2 ^ 32" "p n \<noteq> []" "0 < depth m"
    and empty: "\<And>rest t a st vis. n = 0 \<Longrightarrow> length vis \<le> limit_depth
      \<Longrightarrow> aggregated ct 0 rest t a st vis = visited m rest t a st vis \<and> body = []"
    and items: "\<And>rest t a st vis. 0 < n \<Longrightarrow> length vis + depth m \<le> Suc limit_depth \<Longrightarrow> body \<noteq> [] \<and>
      (\<exists>k t' a'. 0 < k \<and> k \<le> length body
        \<and> reaches \<lparr>mp_inp = body @ rest, mp_cs = CS_HEADER, mp_trail = t, mp_again = a, mp_stack = (ct, n) # st,
            mp_vis = \<lparr>fr_items = [], fr_cur = MNil\<rparr> # vis\<rparr> k (visited m rest t' a' st vis))"
  shows "parses m"
  unfolding parses_def
proof (intro allI impI)
  fix c :: mp_ctx and rest
  assume c: "mp_cs c = CS_HEADER" "mp_inp c = enc m @ rest" "length (mp_vis c) + depth m \<le> Suc limit_depth"
  have d: "length (mp_vis c) \<le> limit_depth" using c(3) e(4) by linarith
  obtain t a where it: "mp_iteration c = aggregated ct n (body @ rest) t a (mp_stack c) (mp_vis c)"
    using iteration_container [where p = p and n = n, OF c(1) _ e(2) p] c(2) e(1) by auto
  have pos: "1 \<le> length (p n)" using e(3) by (cases "p n") auto
  show "\<exists>k t a. 0 < k \<and> k \<le> length (enc m) \<and> reaches c k (visited m rest t a (mp_stack c) (mp_vis c))"
  proof (cases "n = 0")
    case True
    then have "reaches c 1 (visited m rest t a (mp_stack c) (mp_vis c))"
      using it empty [OF True d] by (intro reaches_one) simp
    moreover have "1 \<le> length (enc m)" using pos by (simp add: e(1))
    ultimately show ?thesis using zero_less_one by blast
  next
    case False
    then obtain k t' a' where k: "body \<noteq> []" "0 < k" "k \<le> length body"
      "reaches \<lparr>mp_inp = body @ rest, mp_cs = CS_HEADER, mp_trail = t, mp_again = a, mp_stack = (ct, n) # mp_stack c,
        mp_vis = \<lparr>fr_items = [], fr_cur = MNil\<rparr> # mp_vis c\<rparr> k (visited m rest t' a' (mp_stack c) (mp_vis c))"
      using items [OF _ c(3)] by blast
    have "0 < n" using False by simp
    then have "reaches c (1 + k) (visited m rest t' a' (mp_stack c) (mp_vis c))"
      using reaches_trans [OF reaches_one [OF it [unfolded aggregated_open [OF d \<open>0 < n\<close>]]] _ k(4)] k(1)
      by simp
    moreover have "0 < 1 + k" "1 + k \<le> length (enc m)" using pos k(3) by (simp_all add: e(1))
    ultimately show ?thesis by blast
  qed
qed

lemma parses_array:
  assumes "\<forall>m \<in> set ms. parses m \<and> enc m \<noteq> []" "length ms < 2 ^ 32"
  shows "parses (MArr ms)"
proof -
  have d: "depth m < depth (MArr ms)" if "m \<in> set ms" for m
    using that fold_max_ge [of "depth m" "map depth ms" 0] by simp
  show ?thesis
  proof (rule parses_container [where p = pack_array and ct = ArrayItem and b = "0xdc" and n = "length ms"])
    fix rest t a st and vis :: "frame list"
    assume n: "0 < length ms" and l: "length vis + depth (MArr ms) \<le> Suc limit_depth"
    have "\<forall>m \<in> set ms. parses m \<and> enc m \<noteq> [] \<and> Suc (length vis) + depth m \<le> Suc limit_depth"
      using assms(1) d l by fastforce
    then show "concat (map enc ms) \<noteq> [] \<and> (\<exists>k t' a'. 0 < k \<and> k \<le> length (concat (map enc ms))
        \<and> reaches \<lparr>mp_inp = concat (map enc ms) @ rest, mp_cs = CS_HEADER, mp_trail = t, mp_again = a,
            mp_stack = (ArrayItem, length ms) # st, mp_vis = \<lparr>fr_items = [], fr_cur = MNil\<rparr> # vis\<rparr> k
            (visited (MArr ms) rest t' a' st vis))"
      using array_items [of ms vis "\<lparr>mp_inp = concat (map enc ms) @ rest, mp_cs = CS_HEADER, mp_trail = t, mp_again = a,
            mp_stack = (ArrayItem, length ms) # st, mp_vis = \<lparr>fr_items = [], fr_cur = MNil\<rparr> # vis\<rparr>" rest st "[]" MNil] n
      by (cases ms) auto
  qed (use assms(2) in \<open>auto simp: pack_array_def aggregated_empty\<close>)
qed

lemma parses_map:
  assumes "\<forall>(k, v) \<in> set kvs. parses k \<and> parses v \<and> enc k \<noteq> [] \<and> enc v \<noteq> []" "length kvs < 2 ^ 32"
  shows "parses (MMap kvs)"
proof -
  have d: "depth k < depth (MMap kvs) \<and> depth v < depth (MMap kvs)" if "(k, v) \<in> set kvs" for k v
  proof -
    have "max (depth k) (depth v) \<in> set (map (\<lambda>(k, v). max (depth k) (depth v)) kvs)" using that by force
    then have "max (depth k) (depth v) \<le> fold max (map (\<lambda>(k, v). max (depth k) (depth v)) kvs) 0" by (rule fold_max_ge)
    then show ?thesis by simp
  qed
  show ?thesis
  proof (rule parses_container [where p = pack_map and ct = MapKey and b = "0xde" and n = "length kvs"])
    fix rest t a st and vis :: "frame list"
    assume n: "0 < length kvs" and l: "length vis + depth (MMap kvs) \<le> Suc limit_depth"
    have "\<forall>(k, v) \<in> set kvs. parses k \<and> parses v \<and> enc k \<noteq> [] \<and> enc v \<noteq> []
        \<and> Suc (length vis) + depth k \<le> Suc limit_depth \<and> Suc (length vis) + depth v \<le> Suc limit_depth"
      using assms(1) d l by fastforce
    then show "concat (map (\<lambda>(k, v). enc k @ enc v) kvs) \<noteq> []
        \<and> (\<exists>k t' a'. 0 < k \<and> k \<le> length (concat (map (\<lambda>(k, v). enc k @ enc v) kvs))
        \<and> reaches \<lparr>mp_inp = concat (map (\<lambda>(k, v). enc k @ enc v) kvs) @ rest, mp_cs = CS_HEADER, mp_trail = t,
            mp_again = a, mp_stack = (MapKey, length kvs) # st, mp_vis = \<lparr>fr_items = [], fr_cur = MNil\<rparr> # vis\<rparr> k
            (visited (MMap kvs) rest t' a' st vis))"
      using map_items [of kvs vis "\<lparr>mp_inp = concat (map (\<lambda>(k, v). enc k @ enc v) kvs) @ rest, mp_cs = CS_HEADER,
          mp_trail = t, mp_again = a, mp_stack = (MapKey, length kvs) # st,
          mp_vis = \<lparr>fr_items = [], fr_cur = MNil\<rparr> # vis\<rparr>" rest st "[]" MNil] n
      by (cases kvs) auto
  qed (use assms(2) in \<open>auto simp: pack_map_def aggregated_empty\<close>)
qed

lemma parses_scalar:
  "parses MNil" "parses (MBool b)" "parses (MPos u)" "sint i < 0 \<Longrightarrow> parses (MNeg i)" "parses (MFloat64 d)"
proof -
  show "parses MNil" by (rule parses_one) (use iteration_byte(5) in \<open>force simp: pack_nil_def\<close>)+
  show "parses (MBool b)"
    by (rule parses_one) (use iteration_byte(3,4) in \<open>force simp: pack_bool_def split: if_splits\<close>)+
  show "parses (MPos u)" by (rule parses_one) (use iteration_uint enc_not_Nil [of "MPos u"] in auto)
  show "parses (MFloat64 d)" by (rule parses_one) (use iteration_double in auto)
  assume "sint i < 0"
  then show "parses (MNeg i)" by (intro parses_one) (use iteration_neg enc_not_Nil [of "MNeg i"] in auto)
qed

lemma parses_packable: "packable m \<Longrightarrow> parses m"
proof (induction m rule: depth.induct)
  case (1 ms)
  then show ?case by (intro parses_array) (simp_all add: enc_not_Nil)
next
  case (2 kvs)
  then have "\<forall>(k, v) \<in> set kvs. parses k \<and> parses v \<and> enc k \<noteq> [] \<and> enc v \<noteq> []"
    by (fastforce simp: enc_not_Nil)
  then show ?case using 2(3) by (intro parses_map) simp_all
qed (simp_all add: parses_scalar parses_str parses_bin)

lemma unpack_enc:
  assumes "packable m" "depth m \<le> limit_depth"
  shows "unpack (enc m @ rest) = Some (Inr (m, length (enc m)))"
proof -
  let ?c = "mp_init (enc m @ rest)"
  have c: "mp_cs ?c = CS_HEADER" "mp_inp ?c = enc m @ rest" "length (mp_vis ?c) + depth m \<le> Suc limit_depth"
    using assms(2) by (simp_all add: mp_init_def)
  obtain k t a where k: "k \<le> length (enc m)" "reaches ?c k (visited m rest t a (mp_stack ?c) (mp_vis ?c))"
    using parsesD [OF parses_packable [OF assms(1)] c] by blast
  have "mp_execute (k + (length (enc m @ rest) - k)) ?c
      = continue (length (enc m @ rest) - k) (visited m rest t a (mp_stack ?c) (mp_vis ?c))"
    using k(2) unfolding reaches_def by blast
  moreover have "visited m rest t a (mp_stack ?c) (mp_vis ?c)
      = Return ParseSuccess \<lparr>mp_inp = rest, mp_cs = CS_HEADER, mp_trail = t, mp_again = a, mp_stack = [],
          mp_vis = [\<lparr>fr_items = [], fr_cur = m\<rparr>]\<rparr>"
    by (simp add: visited_def visit_def after_visit_def put_cur_def mp_init_def)
  ultimately show ?thesis using k(1) enc_not_Nil [OF assms(1)] by (simp add: unpack_def continue_def)
qed

text \<open>Every iteration that goes on has consumed input, so the loop ends on any input.\<close>

definition ready :: "mp_ctx \<Rightarrow> bool" where
  "ready c \<longleftrightarrow> mp_cs c = CS_HEADER \<or> (mp_again c \<and> 0 < mp_trail c)"

lemma visit_Next: "visit m c = Next c' \<Longrightarrow> mp_inp c' = tl (mp_inp c) \<and> mp_cs c' = CS_HEADER \<and> mp_again c' = mp_again c"
  using visited_Next by (auto simp: visit_visited)

lemma start_Next:
  "start_aggregate ct n c = Next c' \<Longrightarrow> mp_inp c' = tl (mp_inp c) \<and> mp_cs c' = CS_HEADER \<and> mp_again c' = mp_again c"
  using aggregated_Next by (auto simp: start_aggregated)

lemma header_Next:
  "mp_header c = Next c' \<Longrightarrow> (mp_inp c' = tl (mp_inp c) \<and> mp_cs c' = CS_HEADER \<and> mp_again c' = mp_again c)
    \<or> (mp_inp c' = mp_inp c \<and> mp_again c' \<and> 0 < mp_trail c')"
  using trails_nth [of "unat (hd (mp_inp c))"]
  by (auto simp: mp_header_def Let_def dest!: visit_Next start_Next split: if_splits)

lemma value_Next:
  "mp_value n c = Next c' \<Longrightarrow> length (mp_inp c') \<le> length (mp_inp c) \<and> ready c'"
  by (auto simp: mp_value_def read_length_def ready_def Let_def dest!: visit_Next start_Next split: if_splits)

lemma trailing_Next:
  assumes "mp_trailing c = Next c'" "mp_again c" "0 < mp_trail c" "mp_inp c \<noteq> []"
  shows "length (mp_inp c') < length (mp_inp c) \<and> ready c'"
proof -
  have "mp_value (take (mp_trail c) (tl (mp_inp c))) (c\<lparr>mp_inp := drop (mp_trail c - 1) (tl (mp_inp c)), mp_again := False\<rparr>) = Next c'"
    using assms(1,2) by (auto simp: mp_trailing_def Let_def split: if_splits)
  then have "length (mp_inp c') \<le> length (drop (mp_trail c - 1) (tl (mp_inp c))) \<and> ready c'" using value_Next by fastforce
  then show ?thesis using assms(4) by (cases "mp_inp c") auto
qed

lemma iteration_Next:
  assumes "mp_iteration c = Next c'" "ready c" "mp_inp c \<noteq> []"
  shows "length (mp_inp c') < length (mp_inp c) \<and> ready c'"
proof (cases "mp_cs c = CS_HEADER")
  case True
  then obtain c1 where c1: "mp_header (c\<lparr>mp_again := False\<rparr>) = Next c1"
    "(if mp_cs c1 \<noteq> CS_HEADER \<or> mp_again c1 then mp_trailing c1 else Next c1) = Next c'"
    using assms(1) by (auto simp: mp_iteration_def split: mp_out.splits)
  show ?thesis
    using header_Next [OF c1(1)]
  proof
    assume "mp_inp c1 = tl (mp_inp (c\<lparr>mp_again := False\<rparr>)) \<and> mp_cs c1 = CS_HEADER \<and> mp_again c1 = mp_again (c\<lparr>mp_again := False\<rparr>)"
    then show ?thesis using c1(2) assms(3) by (auto simp: ready_def)
  next
    assume h: "mp_inp c1 = mp_inp (c\<lparr>mp_again := False\<rparr>) \<and> mp_again c1 \<and> 0 < mp_trail c1"
    then show ?thesis using trailing_Next [of c1 c'] c1(2) assms(3) by simp
  qed
next
  case False
  then show ?thesis using assms trailing_Next [of c c'] by (auto simp: mp_iteration_def ready_def)
qed

lemma execute_total: "ready c \<Longrightarrow> mp_inp c \<noteq> [] \<Longrightarrow> length (mp_inp c) \<le> fuel \<Longrightarrow> mp_execute fuel c \<noteq> None"
proof (induction fuel arbitrary: c)
  case (Suc fuel)
  show ?case
  proof (cases "mp_iteration c")
    case (Next c')
    then show ?thesis using iteration_Next [OF Next Suc.prems(1,2)] Suc.IH [of c'] Suc.prems(3) by auto
  qed simp_all
qed simp

lemma unpack_total: "unpack bytes \<noteq> None"
  using execute_total [of "mp_init bytes" "length bytes"] by (auto simp: unpack_def mp_init_def ready_def)

end
