(* ===== verification/Bin_Codec.thy ===== *)
theory Bin_Codec
  imports Msgpack
begin

text \<open>
  Values to MessagePack and back (\<open>ve/src/core/impl/bin.cpp\<close>): \<open>packVar\<close>, \<open>unpackVar\<close>, \<open>writeVar\<close>
  and \<open>readVar\<close>. A value is written by one call of the packer per item; the lengths are cast to
  \<open>uint32_t\<close>. \<open>cust\<close> is the text of a custom payload.
\<close>

section \<open>Writing\<close>

definition u32_size :: "'a list \<Rightarrow> nat" where
  "u32_size xs = length xs mod 2 ^ 32"

definition pack_text :: "string \<Rightarrow> u8 list" where
  "pack_text s = pack_str (u32_size s) @ take (u32_size s) (map char_byte s)"

fun packVar :: "(nat \<Rightarrow> string) \<Rightarrow> var \<Rightarrow> u8 list option" where
  "packVar cust VNone = Some pack_nil"
| "packVar cust (VBool b) = Some (pack_bool b)"
| "packVar cust (VInt i) = Some (pack_imp_int64 i)"
| "packVar cust (VDouble d) = pack_double d"
| "packVar cust (VString s) = Some (pack_text s)"
| "packVar cust (VBin bs) = Some (pack_bin (u32_size bs) @ take (u32_size bs) bs)"
| "packVar cust (VList xs) =
     map_option (\<lambda>bss. pack_array (u32_size xs) @ concat bss) (those (map (packVar cust) xs))"
| "packVar cust (VDict d) =
     map_option (\<lambda>bss. pack_map (u32_size d) @ concat bss)
       (those (map (\<lambda>(k, v). map_option (\<lambda>bs. pack_text k @ bs) (packVar cust v)) d))"
| "packVar cust v = Some (pack_text (var_text cust [] v))"

section \<open>Reading\<close>

definition put_entry :: "mobj \<Rightarrow> var \<Rightarrow> (string \<times> var) list \<Rightarrow> (string \<times> var) list" where
  "put_entry k v d = (case k of MStr s \<Rightarrow> dict_put (map byte_char s) v d | _ \<Rightarrow> d)"

fun unpackVar :: "mobj \<Rightarrow> var" where
  "unpackVar MNil = VNone"
| "unpackVar (MBool b) = VBool b"
| "unpackVar (MPos u) = VInt u"
| "unpackVar (MNeg i) = VInt i"
| "unpackVar (MFloat32 d) = VDouble d"
| "unpackVar (MFloat64 d) = VDouble d"
| "unpackVar (MStr s) = VString (map byte_char s)"
| "unpackVar (MBin bs) = VBin bs"
| "unpackVar (MArr ms) = VList (map unpackVar ms)"
| "unpackVar (MMap kvs) = VDict (fold (\<lambda>(k, v). put_entry k v) (map (\<lambda>(k, v). (k, unpackVar v)) kvs) [])"
| "unpackVar (MExt bs) = VNone"

definition writeVar :: "(nat \<Rightarrow> string) \<Rightarrow> var \<Rightarrow> u8 list \<Rightarrow> u8 list option" where
  "writeVar cust v buf = map_option (\<lambda>bs. buf @ bs) (packVar cust v)"

text \<open>The cursor is the input from \<open>ptr\<close> to \<open>end\<close>, \<open>None\<close> for a null pointer, which an exception leaves.\<close>

definition readVar :: "u8 list option \<Rightarrow> var \<times> u8 list option" where
  "readVar p =
     (case p of
        None \<Rightarrow> (VNone, None)
      | Some [] \<Rightarrow> (VNone, Some [])
      | Some bs \<Rightarrow>
          (case unpack bs of
             Some (Inr (m, n)) \<Rightarrow> (unpackVar m, Some (drop n bs))
           | _ \<Rightarrow> (VNone, None)))"

section \<open>The object of a value\<close>

text \<open>The integer a double is written as, when its value is integral and in range; \<open>2 ^ 64\<close> is
  the undefined conversion.\<close>

definition packed_int :: "u64 \<Rightarrow> i64 option" where
  "packed_int d =
     (case double_trunc d of
        None \<Rightarrow> None
      | Some t \<Rightarrow>
          if double_eq d (double_of_int t) \<and> int_le_double (- (2 ^ 63)) d \<and> double_le_int d (2 ^ 64)
          then Some (of_int t) else None)"

definition dbl_obj :: "u64 \<Rightarrow> mobj option" where
  "dbl_obj d =
     (case double_trunc d of
        None \<Rightarrow> Some (MFloat64 d)
      | Some t \<Rightarrow>
          if int_le_double 0 d \<and> double_le_int d (2 ^ 64) then
            (if 2 ^ 64 \<le> t then None
             else if double_eq d (double_of_int t) then Some (MPos (of_int t)) else Some (MFloat64 d))
          else if \<not> int_le_double 0 d \<and> int_le_double (- (2 ^ 63)) d \<and> double_eq d (double_of_int t)
          then Some (int_obj (of_int t)) else Some (MFloat64 d))"

lemma enc_int_obj: "enc (int_obj i) = pack_imp_int64 i"
  by (simp add: int_obj_def int64_nonneg)

lemma pack_double_obj: "pack_double d = map_option enc (dbl_obj d)"
  by (simp add: pack_double_def dbl_obj_def Let_def enc_int_obj split: option.splits)

abbreviation str_obj :: "string \<Rightarrow> mobj" where
  "str_obj s \<equiv> MStr (map char_byte s)"

fun var_obj :: "(nat \<Rightarrow> string) \<Rightarrow> var \<Rightarrow> mobj option" where
  "var_obj cust VNone = Some MNil"
| "var_obj cust (VBool b) = Some (MBool b)"
| "var_obj cust (VInt i) = Some (int_obj i)"
| "var_obj cust (VDouble d) = dbl_obj d"
| "var_obj cust (VString s) = Some (str_obj s)"
| "var_obj cust (VBin bs) = Some (MBin bs)"
| "var_obj cust (VList xs) = map_option MArr (those (map (var_obj cust) xs))"
| "var_obj cust (VDict d) =
     map_option MMap (those (map (\<lambda>(k, v). map_option (Pair (str_obj k)) (var_obj cust v)) d))"
| "var_obj cust v = Some (str_obj (var_text cust [] v))"

text \<open>Sizes that fit the format, and dictionaries without repeated keys.\<close>

fun fits :: "(nat \<Rightarrow> string) \<Rightarrow> var \<Rightarrow> bool" where
  "fits cust (VString s) = (length s < 2 ^ 32)"
| "fits cust (VBin bs) = (length bs < 2 ^ 32)"
| "fits cust (VList xs) = (length xs < 2 ^ 32 \<and> (\<forall>x \<in> set xs. fits cust x))"
| "fits cust (VDict d) = (length d < 2 ^ 32 \<and> dict_wf d \<and> (\<forall>kv \<in> set d. length (fst kv) < 2 ^ 32 \<and> fits cust (snd kv)))"
| "fits cust (VPointer p) = (length (var_text cust [] (VPointer p)) < 2 ^ 32)"
| "fits cust (VCustom c) = (length (var_text cust [] (VCustom c)) < 2 ^ 32)"
| "fits cust v = True"

fun nesting :: "var \<Rightarrow> nat" where
  "nesting (VList xs) = Suc (fold max (map nesting xs) 0)"
| "nesting (VDict d) = Suc (fold max (map (\<lambda>kv. nesting (snd kv)) d) 0)"
| "nesting v = 0"

text \<open>The value read back.\<close>

fun stored :: "(nat \<Rightarrow> string) \<Rightarrow> var \<Rightarrow> var" where
  "stored cust (VDouble d) = (case packed_int d of Some i \<Rightarrow> VInt i | None \<Rightarrow> VDouble d)"
| "stored cust (VList xs) = VList (map (stored cust) xs)"
| "stored cust (VDict d) = VDict (map (\<lambda>(k, v). (k, stored cust v)) d)"
| "stored cust (VPointer p) = VString (var_text cust [] (VPointer p))"
| "stored cust (VCallable c) = VString (var_text cust [] (VCallable c))"
| "stored cust (VCustom c) = VString (var_text cust [] (VCustom c))"
| "stored cust v = v"

section \<open>The object is what is written, and what it reads back as\<close>

lemma u32_size_exact [simp]: "length xs < 2 ^ 32 \<Longrightarrow> u32_size xs = length xs"
  by (simp add: u32_size_def)

lemma pack_text_enc: "length s < 2 ^ 32 \<Longrightarrow> pack_text s = enc (str_obj s)"
  by (simp add: pack_text_def)

lemma packVar_obj: "fits cust v \<Longrightarrow> packVar cust v = map_option enc (var_obj cust v)"
proof (induction v rule: fits.induct)
  case (3 cust xs)
  have "those (map (packVar cust) xs) = those (map (\<lambda>x. map_option enc (var_obj cust x)) xs)"
    using 3 by (intro those_cong) auto
  then show ?case using 3(2) those_map_option [of enc "var_obj cust" xs]
    by (cases "those (map (var_obj cust) xs)") (auto dest: those_length)
next
  case (4 cust d)
  have "those (map (\<lambda>(k, v). map_option (\<lambda>bs. pack_text k @ bs) (packVar cust v)) d)
      = those (map (\<lambda>kv. map_option (\<lambda>(k, v). enc k @ enc v) ((\<lambda>(k, v). map_option (Pair (str_obj k)) (var_obj cust v)) kv)) d)"
    using 4 by (intro those_cong) (auto simp: pack_text_enc option.map_comp o_def)
  also have "\<dots> = map_option (map (\<lambda>(k, v). enc k @ enc v))
      (those (map (\<lambda>(k, v). map_option (Pair (str_obj k)) (var_obj cust v)) d))"
    by (rule those_map_option)
  finally show ?case using 4(2)
    by (cases "those (map (\<lambda>(k, v). map_option (Pair (str_obj k)) (var_obj cust v)) d)")
      (auto dest: those_length)
qed (simp_all add: pack_text_enc enc_int_obj pack_double_obj)

lemma int_obj_facts [simp]: "packable (int_obj i)" "depth (int_obj i) = 0" "unpackVar (int_obj i) = VInt i"
  by (simp_all add: int_obj_def)

lemma double_bounds:
  "int_le_double 0 d \<Longrightarrow> int_le_double (- (2 ^ 63)) d"
  "\<not> int_le_double 0 d \<Longrightarrow> double_le_int d (2 ^ 64)"
proof -
  obtain n q where r: "dbl_ratio d = (n, q)" by force
  show "int_le_double 0 d \<Longrightarrow> int_le_double (- (2 ^ 63)) d"
    unfolding int_le_double_def r by (auto simp: Let_def intro: order_trans [of _ 0])
  show "\<not> int_le_double 0 d \<Longrightarrow> double_le_int d (2 ^ 64)"
    unfolding int_le_double_def double_le_int_def r by (auto simp: Let_def intro: order_trans [of _ 0] split: if_splits)
qed

lemma dbl_obj_stored:
  assumes "dbl_obj d = Some m"
  shows "packable m \<and> depth m = 0 \<and> unpackVar m = stored cust (VDouble d)"
  using assms double_bounds [of d]
  by (auto simp: dbl_obj_def packed_int_def split: option.splits if_splits)

lemma fold_put_entries:
  assumes "distinct (map fst d)" "set (map fst d) \<inter> set (map fst acc) = {}"
  shows "fold (\<lambda>(k, v). put_entry k v) (map (\<lambda>(k, v). (str_obj k, v)) d) acc = acc @ d"
  using assms
proof (induction d arbitrary: acc)
  case (Cons kv d)
  obtain k v where kv: "kv = (k, v)" by force
  have "put_entry (str_obj k) v acc = acc @ [(k, v)]"
    using Cons.prems(2) by (auto simp: put_entry_def dict_put_def kv update_absent)
  then show ?case using Cons.IH [of "acc @ [(k, v)]"] Cons.prems by (auto simp: kv)
qed simp

lemma fold_max_map: "list_all2 (\<lambda>x y. f x = g y) xs ys \<Longrightarrow> fold max (map f xs) (0 :: nat) = fold max (map g ys) 0"
  by (metis list_all2_map1 list_all2_map2 list_all2_eq list.rel_eq)

lemma var_obj_spec:
  "fits cust v \<Longrightarrow> var_obj cust v = Some m \<Longrightarrow> packable m \<and> depth m = nesting v \<and> unpackVar m = stored cust v"
proof (induction v arbitrary: m rule: fits.induct)
  case (3 cust xs)
  then obtain ms where ms: "m = MArr ms" "those (map (var_obj cust) xs) = Some ms" by auto
  then have l: "list_all2 (\<lambda>x y. var_obj cust x = Some y) xs ms" by (simp add: those_Some)
  have all: "list_all2 (\<lambda>x y. packable y \<and> depth y = nesting x \<and> unpackVar y = stored cust x) xs ms"
    by (rule list.rel_mono_strong [OF l]) (use 3 in auto)
  have "fold max (map nesting xs) 0 = fold max (map depth ms) 0"
    by (rule fold_max_map) (rule list_all2_mono [OF all], simp)
  moreover have "map (stored cust) xs = map unpackVar ms"
    using all by (induction rule: list_all2_induct) auto
  moreover have "\<forall>m \<in> set ms. packable m"
    using all by (induction rule: list_all2_induct) auto
  ultimately show ?case using 3(2) those_length [OF ms(2)] by (simp add: ms(1))
next
  case (4 cust d)
  then obtain kvs where m: "m = MMap kvs"
    and kvs: "those (map (\<lambda>(k, v). map_option (Pair (str_obj k)) (var_obj cust v)) d) = Some kvs" by auto
  have l: "list_all2 (\<lambda>(k, v) y. map_option (Pair (str_obj k)) (var_obj cust v) = Some y) d kvs"
    using kvs by (simp add: those_Some case_prod_unfold)
  have all: "list_all2 (\<lambda>(k, v) y. fst y = str_obj k \<and> packable (fst y) \<and> packable (snd y) \<and> depth (fst y) = 0
      \<and> depth (snd y) = nesting v \<and> unpackVar (snd y) = stored cust v) d kvs"
    by (rule list.rel_mono_strong [OF l]) (use 4 in fastforce)
  have "list_all2 (\<lambda>x y. nesting (snd x) = max (depth (fst y)) (depth (snd y))) d kvs"
    by (rule list_all2_mono [OF all]) auto
  then have "fold max (map (\<lambda>kv. nesting (snd kv)) d) 0 = fold max (map (\<lambda>kv. max (depth (fst kv)) (depth (snd kv))) kvs) 0"
    by (rule fold_max_map)
  moreover have "map (\<lambda>(k, v). (k, unpackVar v)) kvs = map (\<lambda>(k, v). (str_obj k, v)) (map (\<lambda>(k, v). (k, stored cust v)) d)"
    using all by (induction rule: list_all2_induct) (auto simp: case_prod_unfold)
  then have "unpackVar m = VDict (fold (\<lambda>(k, v). put_entry k v) (map (\<lambda>(k, v). (str_obj k, v)) (map (\<lambda>(k, v). (k, stored cust v)) d)) [])"
    by (simp add: m)
  moreover have "\<dots> = VDict (map (\<lambda>(k, v). (k, stored cust v)) d)"
    using 4(2) fold_put_entries [of "map (\<lambda>(k, v). (k, stored cust v)) d" "[]"]
    by (simp add: dict_wf_def case_prod_unfold o_def)
  moreover have "\<forall>kv \<in> set kvs. packable (fst kv) \<and> packable (snd kv)"
    using all by (induction rule: list_all2_induct) auto
  ultimately show ?case using 4(2) those_length [OF kvs] by (simp add: m case_prod_unfold)
qed (auto dest: dbl_obj_stored)

lemma written_read:
  assumes "fits cust v" "nesting v \<le> limit_depth"
  shows "case writeVar cust v buf of
      None \<Rightarrow> var_obj cust v = None
    | Some bs \<Rightarrow> \<exists>w. bs = buf @ w \<and> readVar (Some (w @ rest)) = (stored cust v, Some rest)"
proof (cases "var_obj cust v")
  case None
  then show ?thesis using packVar_obj [OF assms(1)] by (simp add: writeVar_def)
next
  case (Some m)
  note s = var_obj_spec [OF assms(1) Some]
  have "unpack (enc m @ rest) = Some (Inr (m, length (enc m)))"
    using s assms(2) by (intro unpack_enc) simp_all
  moreover obtain b bs where "enc m = b # bs" using enc_not_Nil s by (metis neq_Nil_conv)
  ultimately have "readVar (Some (enc m @ rest)) = (stored cust v, Some rest)"
    using s by (simp add: readVar_def)
  then show ?thesis using packVar_obj [OF assms(1)] Some by (simp add: writeVar_def)
qed

text \<open>C24: Writing a value whose sizes fit the format appends bytes from which \<open>readVar\<close> reads the
  stored form of the value back, leaving the cursor on whatever follows. The stored form is the
  value itself, except that a double with an integral value has become an integer and pointers,
  callables and custom payloads their text. Nothing is written only when the value holds a double of
  \<open>2 ^ 64\<close>, whose conversion is undefined.\<close>

theorem bin_var_roundtrip:
  assumes "fits cust v" "nesting v \<le> limit_depth"
  shows "case writeVar cust v buf of
      None \<Rightarrow> var_obj cust v = None
    | Some bs \<Rightarrow> \<exists>w. bs = buf @ w \<and> readVar (Some (w @ rest)) = (stored cust v, Some rest)"
  using written_read [OF assms] .

theorem bin_var_roundtrip_witness:
  "\<exists>w. writeVar (\<lambda>_. []) (VDict [(''a'', VList [VInt 5, VString ''x'', VNone])]) [7] = Some ([7] @ w)
    \<and> readVar (Some (w @ [0])) = (VDict [(''a'', VList [VInt 5, VString ''x'', VNone])], Some [0])"
  using bin_var_roundtrip [of "\<lambda>_. []" "VDict [(''a'', VList [VInt 5, VString ''x'', VNone])]" "[7]" "[0]"]
  by (auto simp: dict_wf_def limit_depth_def split: option.splits)

text \<open>A double whose value is integral, at least \<open>- 2 ^ 63\<close> and below \<open>2 ^ 64\<close> is read back as
  an integer: the type is lost, and from \<open>2 ^ 63\<close> on the integer is negative.\<close>

theorem bin_integral_double:
  assumes "double_trunc d = Some t" "t < 2 ^ 64" "double_eq d (double_of_int t)"
    "int_le_double (- (2 ^ 63)) d" "double_le_int d (2 ^ 64)"
  shows "\<exists>w. writeVar cust (VDouble d) buf = Some (buf @ w)
    \<and> readVar (Some (w @ rest)) = (VInt (of_int t), Some rest)"
proof -
  have "dbl_obj d \<noteq> None" using assms by (auto simp: dbl_obj_def)
  moreover have "stored cust (VDouble d) = VInt (of_int t)" using assms by (simp add: packed_int_def)
  ultimately show ?thesis
    using written_read [of cust "VDouble d" buf rest] by (auto split: option.splits)
qed

text \<open>The double \<open>1e19\<close>.\<close>

lemma double_1e19:
  "double_trunc 0x43E158E460913D00 = Some 10000000000000000000"
  "double_of_int 10000000000000000000 = 0x43E158E460913D00"
  "int_le_double i 0x43E158E460913D00 \<longleftrightarrow> i \<le> 10000000000000000000"
  "double_le_int 0x43E158E460913D00 i \<longleftrightarrow> 10000000000000000000 \<le> i"
proof -
  have e: "dbl_exp 0x43E158E460913D00 = 1086" "dbl_man 0x43E158E460913D00 = 0x158E460913D00"
    "\<not> dbl_neg 0x43E158E460913D00"
    by (simp_all add: dbl_exp_def dbl_man_def dbl_neg_def)
  show "double_trunc 0x43E158E460913D00 = Some 10000000000000000000"
    "int_le_double i 0x43E158E460913D00 \<longleftrightarrow> i \<le> 10000000000000000000"
    "double_le_int 0x43E158E460913D00 i \<longleftrightarrow> 10000000000000000000 \<le> i"
    by (simp_all add: double_trunc_def dbl_ratio_def dbl_finite_def int_le_double_def double_le_int_def e Let_def)
  show "double_of_int 10000000000000000000 = 0x43E158E460913D00"
    by (simp add: double_of_int_def with_sign_def round_ratio_def nbits.simps Let_def pow2_le_def div_even_def)
qed

theorem bin_integral_double_witness:
  "\<exists>w. writeVar (\<lambda>_. []) (VDouble 0x43E158E460913D00) [] = Some w
    \<and> readVar (Some w) = (VInt 10000000000000000000, Some []) \<and> sint (10000000000000000000 :: i64) < 0"
proof -
  have "double_eq 0x43E158E460913D00 0x43E158E460913D00" by code_simp
  then show ?thesis
    using bin_integral_double [of "0x43E158E460913D00" 10000000000000000000 "\<lambda>_. []" "[]" "[]"]
    by (simp add: double_1e19)
qed

text \<open>C25: The parser of the MessagePack library is total: whatever the bytes, the loop ends within
  as many iterations as there are bytes, with an object or an exception.\<close>

theorem unpack_terminates: "\<exists>r. unpack bytes = Some r"
  using unpack_total [of bytes] by blast

end
