(* ===== verification/Bin_Tree.thy ===== *)
theory Bin_Tree
  imports Node_Import Bin_Codec
begin

text \<open>
  Node trees to MessagePack and back (\<open>ve/src/core/impl/bin.cpp\<close>): a node is a map with its value
  under \<open>_v\<close> and its children, pairs of a name and a node, under \<open>_c\<close>. An import builds a tree of
  its own from the parsed object, copies it onto the target with \<open>Node::copy\<close> and destroys it.
\<close>

section \<open>Export\<close>

fun packNode :: "nat \<Rightarrow> (nat \<Rightarrow> string) \<Rightarrow> bool \<Rightarrow> forest \<Rightarrow> nid \<Rightarrow> u8 list option" where
  "packNode 0 cust ign st n = None"
| "packNode (Suc fuel) cust ign st n =
     (let v = node_value st n;
          visible = filter (\<lambda>c. \<not> isIgnoredChild ign (name_of st c)) (kids st n);
          fields = (if isNull v then 0 else 1) + (if visible = [] then 0 else 1)
      in do {
        vb \<leftarrow> (if isNull v then Some [] else map_option (\<lambda>bs. pack_text ''_v'' @ bs) (packVar cust v));
        cb \<leftarrow> (if visible = [] then Some []
               else map_option (\<lambda>bss. pack_text ''_c'' @ pack_array (u32_size visible) @ concat bss)
                      (those (map (\<lambda>c. map_option (\<lambda>bs. pack_array 2 @ pack_text (name_of st c) @ bs)
                                         (packNode fuel cust ign st c)) visible)));
        Some (pack_map fields @ vb @ cb) })"

definition exportTree :: "(nat \<Rightarrow> string) \<Rightarrow> bool \<Rightarrow> nid option \<Rightarrow> forest \<Rightarrow> u8 list option" where
  "exportTree cust auto_ignore node st =
     (case node of None \<Rightarrow> Some [] | Some n \<Rightarrow> packNode (next_id st + 1) cust auto_ignore st n)"

section \<open>Import\<close>

function (sequential) unpackNode :: "mobj \<Rightarrow> nid \<Rightarrow> forest \<Rightarrow> forest option"
  and unpack_fields :: "(mobj \<times> mobj) list \<Rightarrow> nid \<Rightarrow> forest \<Rightarrow> forest option"
  and unpack_children :: "mobj list \<Rightarrow> nid \<Rightarrow> forest \<Rightarrow> forest option" where
  "unpackNode (MMap kvs) n st = unpack_fields kvs n st"
| "unpackNode m n st = Some st"
| "unpack_fields [] n st = Some st"
| "unpack_fields ((k, val) # kvs) n st =
     (if k = MStr (map char_byte ''_v'') then
        (let v = unpackVar val
         in if isNull v then unpack_fields kvs n st
            else (case set_value n v st of None \<Rightarrow> None | Some st1 \<Rightarrow> unpack_fields kvs n st1))
      else if k = MStr (map char_byte ''_c'') then
        (case val of
           MArr ms \<Rightarrow> (case unpack_children ms n st of None \<Rightarrow> None | Some st1 \<Rightarrow> unpack_fields kvs n st1)
         | _ \<Rightarrow> unpack_fields kvs n st)
      else unpack_fields kvs n st)"
| "unpack_children [] n st = Some st"
| "unpack_children (MArr [MStr s, node] # ms) n st =
     (case append_node n (map byte_char s) 0 st of
        Some (Some c, st1) \<Rightarrow>
          (case unpackNode node c st1 of None \<Rightarrow> None | Some st2 \<Rightarrow> unpack_children ms n st2)
      | _ \<Rightarrow> None)"
| "unpack_children (m # ms) n st = unpack_children ms n st"
  by pat_completeness auto

termination
  by (relation "measure (\<lambda>x. case x of Inl (m, _) \<Rightarrow> size m
      | Inr (Inl (kvs, _)) \<Rightarrow> size_list (size_prod size size) kvs
      | Inr (Inr (ms, _)) \<Rightarrow> size_list size ms)")
    auto

definition importTree :: "nid option \<Rightarrow> u8 list \<Rightarrow> copy_options \<Rightarrow> forest \<Rightarrow> (bool \<times> forest) option" where
  "importTree node bytes opts st =
     (case node of
        None \<Rightarrow> Some (False, st)
      | Some n \<Rightarrow>
          if bytes = [] then Some (False, st)
          else
            (case unpack bytes of
               Some (Inr (m, _)) \<Rightarrow>
                 map_option (Pair True) (copy_scratch ''bin_import'' (unpackNode m) opts n st)
             | _ \<Rightarrow> Some (False, st)))"

section \<open>The object of a tree\<close>

fun tree_obj :: "(nat \<Rightarrow> string) \<Rightarrow> bool \<Rightarrow> ntree \<Rightarrow> mobj option" where
  "tree_obj cust ign (NT nm v ts) =
     do {
       vs \<leftarrow> (if isNull v then Some [] else map_option (\<lambda>m. [(str_obj ''_v'', m)]) (var_obj cust v));
       cs \<leftarrow> those (map (\<lambda>t. map_option (\<lambda>m. MArr [str_obj (tree_name t), m]) (tree_obj cust ign t))
                     (filter (\<lambda>t. \<not> isIgnoredChild ign (tree_name t)) ts));
       Some (MMap (vs @ (if cs = [] then [] else [(str_obj ''_c'', MArr cs)]))) }"

text \<open>The tree that is read back: hidden children are gone and values are in their stored form.\<close>

fun stored_tree :: "(nat \<Rightarrow> string) \<Rightarrow> bool \<Rightarrow> ntree \<Rightarrow> ntree" where
  "stored_tree cust ign (NT nm v ts) =
     NT nm (stored cust v) (map (stored_tree cust ign) (filter (\<lambda>t. \<not> isIgnoredChild ign (tree_name t)) ts))"

fun tree_fits :: "(nat \<Rightarrow> string) \<Rightarrow> ntree \<Rightarrow> bool" where
  "tree_fits cust (NT nm v ts) \<longleftrightarrow> fits cust v \<and> length nm < 2 ^ 32 \<and> length ts < 2 ^ 32 \<and> (\<forall>t \<in> set ts. tree_fits cust t)"

fun tree_nesting :: "ntree \<Rightarrow> nat" where
  "tree_nesting (NT nm v ts) = Suc (fold max (map (\<lambda>t. 2 + tree_nesting t) ts) (nesting v))"

lemma tree_nesting_kid: "t \<in> set ts \<Longrightarrow> 2 + tree_nesting t < tree_nesting (NT nm v ts)"
  using fold_max_ge [of "2 + tree_nesting t" "map (\<lambda>t. 2 + tree_nesting t) ts" "nesting v"] by simp

lemma fold_max_base: "a \<le> fold max xs (a :: nat)"
proof (induction xs arbitrary: a)
  case (Cons x xs)
  show ?case using Cons [of "max x a"] by simp
qed simp

lemma packNode_obj:
  "shaped st n t \<Longrightarrow> height t \<le> fuel \<Longrightarrow> tree_fits cust t
    \<Longrightarrow> packNode fuel cust ign st n = map_option enc (tree_obj cust ign t)"
proof (induction fuel arbitrary: n t)
  case 0
  then show ?case by (cases t) simp
next
  case (Suc fuel)
  obtain nm v ts where t: "t = NT nm v ts" by (cases t)
  define us where "us = filter (\<lambda>t. \<not> isIgnoredChild ign (tree_name t)) ts"
  define cs where "cs = filter (\<lambda>c. \<not> isIgnoredChild ign (name_of st c)) (kids st n)"
  have v: "node_value st n = v" "list_all2 (shaped st) (kids st n) ts" using Suc.prems(1) t by simp_all
  have cu: "list_all2 (shaped st) cs us"
    unfolding cs_def us_def using v(2) by (rule filter_list_all2) (auto dest: shaped_name)
  have us: "t \<in> set us \<Longrightarrow> height t \<le> fuel \<and> tree_fits cust t" for t
    using Suc.prems(2,3) height_kid [of t ts nm v] by (auto simp: t us_def)
  have l: "length cs = length us" "length us < 2 ^ 32"
    using list_all2_lengthD [OF cu] Suc.prems(3) le_less_trans [OF length_filter_le] by (auto simp: t us_def)
  define F where "F t = map_option (\<lambda>m. MArr [str_obj (tree_name t), m]) (tree_obj cust ign t)" for t
  have "list_all2 (\<lambda>c t. map_option (\<lambda>bs. pack_array 2 @ pack_text (name_of st c) @ bs) (packNode fuel cust ign st c)
      = map_option enc (F t)) cs us"
  proof (rule list.rel_mono_strong [OF cu])
    fix c t assume "t \<in> set us" "shaped st c t"
    moreover have "length (tree_name t) < 2 ^ 32" using us [OF \<open>t \<in> set us\<close>] by (cases t) simp
    ultimately show "map_option (\<lambda>bs. pack_array 2 @ pack_text (name_of st c) @ bs) (packNode fuel cust ign st c)
      = map_option enc (F t)"
      using Suc.IH [of c t] us [of t] shaped_name [of st c t]
      by (simp add: F_def option.map_comp o_def pack_text_enc numeral_2_eq_2)
  qed
  from those_list_all2 [OF this] have k: "those (map (\<lambda>c. map_option (\<lambda>bs. pack_array 2 @ pack_text (name_of st c) @ bs)
      (packNode fuel cust ign st c)) cs) = map_option (map enc) (those (map F us))"
    using those_map_option [of enc F us] by simp
  have p: "packVar cust v = map_option enc (var_obj cust v)" using Suc.prems(3) t by (intro packVar_obj) simp
  have u: "u32_size cs = length cs" "pack_text ''_v'' = enc (str_obj ''_v'')" "pack_text ''_c'' = enc (str_obj ''_c'')"
    using l by (simp_all add: pack_text_enc)
  have e: "cs = [] \<longleftrightarrow> us = []" using l(1) by auto
  show ?case
    unfolding t tree_obj.simps packNode.simps v(1) Let_def cs_def [symmetric] us_def [symmetric] k p u e
    using l(1) those_length [of F us]
    by (cases "isNull v"; cases "var_obj cust v"; cases "those (map F us)"; cases "us = []")
      (auto simp: F_def [symmetric] simp del: enc.simps(7))
qed

lemma tree_obj_spec:
  "tree_fits cust t \<Longrightarrow> tree_obj cust ign t = Some m \<Longrightarrow> packable m \<and> depth m \<le> tree_nesting t"
proof (induction t arbitrary: m)
  case (NT nm v ts)
  define us where "us = filter (\<lambda>t. \<not> isIgnoredChild ign (tree_name t)) ts"
  obtain vs cs where c: "m = MMap (vs @ (if cs = [] then [] else [(str_obj ''_c'', MArr cs)]))"
    "(if isNull v then Some [] else map_option (\<lambda>m. [(str_obj ''_v'', m)]) (var_obj cust v)) = Some vs"
    "those (map (\<lambda>t. map_option (\<lambda>m. MArr [str_obj (tree_name t), m]) (tree_obj cust ign t)) us) = Some cs"
    using NT.prems(2) by (auto simp: us_def bind_eq_Some_conv)
  let ?N = "tree_nesting (NT nm v ts)"
  have vs: "length vs \<le> 1 \<and> (\<forall>kv \<in> set vs. fst kv = str_obj ''_v'' \<and> packable (snd kv) \<and> depth (snd kv) = nesting v)"
    using c(2) NT.prems(1) by (auto split: if_splits dest: var_obj_spec)
  have nv: "nesting v < ?N" using fold_max_base [of "nesting v" "map (\<lambda>t. 2 + tree_nesting t) ts"] by simp
  have l: "list_all2 (\<lambda>t m. map_option (\<lambda>m. MArr [str_obj (tree_name t), m]) (tree_obj cust ign t) = Some m) us cs"
    using c(3) by (simp only: those_Some)
  have "list_all2 (\<lambda>t m. packable m \<and> Suc (depth m) < ?N) us cs"
  proof (rule list.rel_mono_strong [OF l])
    fix t m assume t: "t \<in> set us" "map_option (\<lambda>m. MArr [str_obj (tree_name t), m]) (tree_obj cust ign t) = Some m"
    then obtain m' where m': "m = MArr [str_obj (tree_name t), m']" "tree_obj cust ign t = Some m'" by auto
    have ts: "t \<in> set ts" "tree_fits cust t" using t(1) NT.prems(1) by (auto simp: us_def)
    have "length (tree_name t) < 2 ^ 32" using ts(2) by (cases t) simp
    then show "packable m \<and> Suc (depth m) < ?N"
      using NT.IH [OF ts m'(2)] tree_nesting_kid [OF ts(1), of nm v] by (simp add: m'(1) del: tree_nesting.simps)
  qed
  then have cs: "\<forall>m \<in> set cs. packable m \<and> Suc (depth m) < ?N" by (induction rule: list_all2_induct) auto
  have "length cs < 2 ^ 32"
    using those_length [OF c(3)] NT.prems(1) le_less_trans [OF length_filter_le] by (auto simp: us_def)
  then have "packable m" using vs cs by (auto simp: c(1))
  moreover have "fold max (map (\<lambda>(k, v). max (depth k) (depth v)) (vs @ (if cs = [] then [] else [(str_obj ''_c'', MArr cs)]))) 0
      \<le> ?N - 1"
  proof (rule fold_max_le)
    have "fold max (map depth cs) 0 \<le> ?N - 2" by (rule fold_max_le) (use cs in fastforce)+
    then show "x \<le> ?N - 1" if "x \<in> set (map (\<lambda>(k, v). max (depth k) (depth v))
        (vs @ (if cs = [] then [] else [(str_obj ''_c'', MArr cs)])))" for x
      using that vs nv cs by (cases cs) (fastforce simp del: tree_nesting.simps)+
  qed simp
  ultimately show ?case using nv by (simp add: c(1) del: tree_nesting.simps)
qed

section \<open>Reading a tree back\<close>

lemma stored_not_null: "isNull (stored cust v) \<longleftrightarrow> isNull v"
  by (cases v) (auto simp: isNull_def split: option.splits)

definition kid_obj :: "(nat \<Rightarrow> string) \<Rightarrow> bool \<Rightarrow> ntree \<Rightarrow> mobj option" where
  "kid_obj cust ign t = map_option (\<lambda>m. MArr [str_obj (tree_name t), m]) (tree_obj cust ign t)"

lemma unpack_children_spec:
  assumes "list_all2 (\<lambda>m t. \<exists>m'. m = MArr [str_obj (tree_name t), m'] \<and> builds (unpackNode m') t) ms ts"
  shows "forest_ok st \<Longrightarrow> alive st n \<Longrightarrow> \<exists>st' cs. unpack_children ms n st = Some st' \<and> beside n st st'
    \<and> kids st' n = kids st n @ cs \<and> list_all2 (shaped st') cs ts \<and> node_value st' n = node_value st n"
  using assms
proof (induction arbitrary: st rule: list_all2_induct)
  case Nil
  then show ?case using beside_refl by auto
next
  case (Cons m ms t ts)
  obtain m' where m: "m = MArr [str_obj (tree_name t), m']" "builds (unpackNode m') t" using Cons.hyps(1) by blast
  obtain c st1 st2 where c: "append_node n (tree_name t) 0 st = Some (Some c, st1)" "unpackNode m' c st1 = Some st2"
    "beside n st st2" "kids st2 n = kids st n @ [c]" "shaped st2 c t" "node_value st2 n = node_value st n"
    using append_build [OF Cons.prems m(2)] by blast
  have ok2: "forest_ok st2" "alive st2 n" using c(3) Cons.prems(2) by (auto simp: beside_def)
  obtain st3 cs where st3: "unpack_children ms n st2 = Some st3" "beside n st2 st3" "kids st3 n = kids st2 n @ cs"
    "list_all2 (shaped st3) cs ts" "node_value st3 n = node_value st2 n"
    using Cons.IH [OF ok2] by blast
  have "shaped st3 c t" using kid_shape [OF ok2 _ st3(2) c(5)] c(4) by simp
  then show ?case using c m(1) st3 beside_trans [OF c(3) st3(2)]
    by (intro exI [of _ st3] exI [of _ "c # cs"]) simp
qed

lemma restored_value:
  assumes "forest_ok st" "alive st n" "node_value st n = VNone" "fits cust v"
    "(if isNull v then Some [] else map_option (\<lambda>m. [(str_obj ''_v'', m)]) (var_obj cust v)) = Some vs"
  shows "\<exists>st1. unpack_fields (vs @ rest) n st = unpack_fields rest n st1 \<and> beside n st st1 \<and> kids st1 n = kids st n
    \<and> node_value st1 n = stored cust v"
proof (cases "isNull v")
  case True
  then have "stored cust v = VNone" by (cases v) (simp_all add: isNull_def)
  then show ?thesis using assms True beside_refl by auto
next
  case False
  then obtain m where m: "vs = [(str_obj ''_v'', m)]" "var_obj cust v = Some m" using assms(5) by auto
  have "unpackVar m = stored cust v" using var_obj_spec [OF assms(4) m(2)] by blast
  then show ?thesis using set_value_beside [OF assms(1,2), of "stored cust v"] False stored_not_null
    by (auto simp: m(1) Let_def)
qed

lemma tree_obj_restores:
  "tree_fits cust t \<Longrightarrow> tree_obj cust ign t = Some m \<Longrightarrow> builds (unpackNode m) (stored_tree cust ign t)"
proof (induction t arbitrary: m)
  case (NT nm v ts)
  define us where "us = filter (\<lambda>t. \<not> isIgnoredChild ign (tree_name t)) ts"
  obtain vs cs where c: "m = MMap (vs @ (if cs = [] then [] else [(str_obj ''_c'', MArr cs)]))"
    "(if isNull v then Some [] else map_option (\<lambda>m. [(str_obj ''_v'', m)]) (var_obj cust v)) = Some vs"
    "those (map (kid_obj cust ign) us) = Some cs"
    using NT.prems(2) by (auto simp: us_def bind_eq_Some_conv kid_obj_def [abs_def])
  have l: "list_all2 (\<lambda>t m. kid_obj cust ign t = Some m) us cs" using c(3) by (simp only: those_Some)
  have "list_all2 (\<lambda>t m. \<exists>m'. m = MArr [str_obj (tree_name (stored_tree cust ign t)), m'] \<and> builds (unpackNode m') (stored_tree cust ign t)) us cs"
  proof (rule list.rel_mono_strong [OF l])
    fix t m assume t: "t \<in> set us" "kid_obj cust ign t = Some m"
    then have "t \<in> set ts" "tree_fits cust t" using NT.prems(1) by (auto simp: us_def)
    moreover have "tree_name (stored_tree cust ign t) = tree_name t" by (cases t) simp
    ultimately show "\<exists>m'. m = MArr [str_obj (tree_name (stored_tree cust ign t)), m'] \<and> builds (unpackNode m') (stored_tree cust ign t)"
      using t(2) NT.IH [of t] by (auto simp: kid_obj_def)
  qed
  then have cs: "list_all2 (\<lambda>m t. \<exists>m'. m = MArr [str_obj (tree_name t), m'] \<and> builds (unpackNode m') t) cs (map (stored_tree cust ign) us)"
    by (simp add: list_all2_map2 list_all2_conv_all_nth)
  show ?case unfolding builds_def
  proof (intro allI impI)
    fix st n assume ok: "forest_ok st" and n: "alive st n" "kids st n = []" "node_value st n = VNone"
    obtain st1 where st1: "unpackNode m n st = unpack_fields (if cs = [] then [] else [(str_obj ''_c'', MArr cs)]) n st1"
      "beside n st st1" "kids st1 n = []" "node_value st1 n = stored cust v"
      using restored_value [OF ok n(1,3) _ c(2)] NT.prems(1) n(2) by (auto simp: c(1))
    have ok1: "forest_ok st1" "alive st1 n" using st1(2) n(1) by (simp_all add: beside_def)
    obtain st2 ks where st2: "unpack_children cs n st1 = Some st2" "beside n st1 st2" "kids st2 n = ks"
      "list_all2 (shaped st2) ks (map (stored_tree cust ign) us)" "node_value st2 n = stored cust v"
      using unpack_children_spec [OF cs ok1] st1(3,4) by auto
    have "unpackNode m n st = Some st2" using st1(1) st2(1) by (cases "cs = []") simp_all
    moreover have b: "beside n st st2" by (rule beside_trans [OF st1(2) st2(2)])
    ultimately show "\<exists>st'. unpackNode m n st = Some st' \<and> beside n st st' \<and> shaped st' n (renamed (name_of st n) (stored_tree cust ign (NT nm v ts)))"
      using st2(3-5) n(1) by (auto simp: us_def [symmetric] beside_def)
  qed
qed

text \<open>C27: Exporting a subtree whose sizes and nesting fit the format and importing the bytes into a
  childless node, of the same forest or of another one, rebuilds the subtree below that node: names,
  order, and values in the form they are stored in, without the children that are ignored. No other
  node is touched and the scratch tree of the import is gone. Nothing is written only when the
  subtree holds a double of \<open>2 ^ 64\<close>.\<close>

theorem bin_tree_roundtrip:
  assumes "forest_ok st" "alive st n" "shaped st n t" "tree_fits cust t" "tree_nesting t \<le> limit_depth"
    and "forest_ok st2" "alive st2 d" "kids st2 d = []" "auto_insert opts"
  shows "case exportTree cust ign (Some n) st of
      None \<Rightarrow> tree_obj cust ign t = None
    | Some bytes \<Rightarrow> \<exists>v ts st'. stored_tree cust ign t = NT (name_of st n) v ts
        \<and> importTree (Some d) bytes opts st2 = Some (True, st') \<and> forest_ok st'
        \<and> shaped st' d (NT (name_of st2 d) (final_value opts (node_value st2 d) v) ts)
        \<and> (\<forall>m. alive st2 m \<and> m \<noteq> d \<longrightarrow> alive st' m \<and> kids st' m = kids st2 m \<and> node_value st' m = node_value st2 m
             \<and> name_of st' m = name_of st2 m \<and> parent st' m = parent st2 m)
        \<and> \<not> alive st' (next_id st2)"
proof -
  obtain t' where t': "shaped st n t'" "height t' \<le> card (dset st n)" using shape_exists [OF assms(1,2)] by blast
  then have "height t \<le> next_id st + 1"
    using card_dset_le [OF assms(1,2)] shaped_unique [OF t'(1) assms(3)] by simp
  then have e: "exportTree cust ign (Some n) st = map_option enc (tree_obj cust ign t)"
    using packNode_obj [OF assms(3) _ assms(4), of "next_id st + 1" ign]
    by (simp add: exportTree_def del: packNode.simps)
  show ?thesis
  proof (cases "tree_obj cust ign t")
    case (Some m)
    note s = tree_obj_spec [OF assms(4) Some]
    obtain v ts where vt: "stored_tree cust ign t = NT (name_of st n) v ts"
      using assms(3) by (cases t) auto
    have "unpack (enc m) = Some (Inr (m, length (enc m)))" using unpack_enc [of m "[]"] s assms(5) by simp
    moreover have "enc m \<noteq> []" using enc_not_Nil s by blast
    moreover have "builds (unpackNode m) (NT (name_of st n) v ts)"
      using tree_obj_restores [OF assms(4) Some] by (simp add: vt)
    ultimately obtain st' where "importTree (Some d) (enc m) opts st2 = Some (True, st')" "forest_ok st'"
      "shaped st' d (NT (name_of st2 d) (final_value opts (node_value st2 d) v) ts)"
      "\<forall>m. alive st2 m \<and> m \<noteq> d \<longrightarrow> alive st' m \<and> kids st' m = kids st2 m \<and> node_value st' m = node_value st2 m
         \<and> name_of st' m = name_of st2 m \<and> parent st' m = parent st2 m" "\<not> alive st' (next_id st2)"
      using copy_scratch_spec [OF assms(6-9), of "unpackNode m" "name_of st n" v ts "''bin_import''"]
      by (auto simp: importTree_def)
    then show ?thesis unfolding e Some option.map option.case
      by (intro exI [of _ v] exI [of _ ts] exI [of _ st']) (simp add: vt)
  qed (simp add: e)
qed

theorem bin_tree_roundtrip_witness:
  "\<exists>bytes st'. exportTree (\<lambda>_. []) True (Some 2) demo = Some bytes
    \<and> importTree (Some 3) bytes \<lparr>auto_insert = True, auto_remove = True, auto_update = True\<rparr> demo = Some (True, st')
    \<and> length (kids st' 3) = 2"
proof -
  define t where "t = NT ''robot'' VNone [NT ''arm'' VNone [], NT ''arm'' VNone []]"
  have s: "shaped demo 2 t"
    using demo_alive by (simp add: t_def demo_kids name_of_def node_value_def demo_obj demo_node_def)
  have "tree_fits (\<lambda>_. []) t" "tree_nesting t \<le> limit_depth" by (simp_all add: t_def limit_depth_def)
  note r = bin_tree_roundtrip [OF demo_ok demo_alive(2) s this demo_ok demo_alive(3) demo_kids(3),
      of "\<lparr>auto_insert = True, auto_remove = True, auto_update = True\<rparr>" True]
  have "tree_obj (\<lambda>_. []) True t \<noteq> None" by (simp add: t_def isIgnoredChild_def isNull_def)
  then show ?thesis using r
    by (auto simp: t_def isIgnoredChild_def split: option.splits dest!: list_all2_lengthD)
qed

end
