(* ===== verification/Small_Vector.thy ===== *)
theory Small_Vector
  imports Simulation "HOL-Library.Monad_Syntax"
begin

text \<open>
  \<open>SmallVectorImpl\<close> (\<open>ve/include/ve/core/impl/small_vector.h\<close>): a vector with an inline buffer of
  \<open>N\<close> elements and a heap buffer beyond that. A buffer is a list of cells with the lifetime of the
  object in each: raw storage, a live object, or one that was moved from and is still to be
  destroyed. Constructing over an object, destroying or moving from raw storage and assigning to
  it are undefined: the operation is \<open>None\<close>. Sizes and capacities are \<open>uint32_t\<close>, so sums and
  doubling wrap; allocation succeeds. The block moves for trivially copyable elements are at the end.
\<close>

section \<open>Objects in a buffer\<close>

datatype 'a cell = Raw | Live 'a | MovedFrom

definition construct :: "nat \<Rightarrow> 'a \<Rightarrow> 'a cell list \<Rightarrow> 'a cell list option" where
  "construct i x b = (if i < length b then (case b ! i of Raw \<Rightarrow> Some (b[i := Live x]) | _ \<Rightarrow> None) else None)"

definition destroy :: "nat \<Rightarrow> 'a cell list \<Rightarrow> 'a cell list option" where
  "destroy i b = (if i < length b then (case b ! i of Raw \<Rightarrow> None | _ \<Rightarrow> Some (b[i := Raw])) else None)"

definition move_out :: "nat \<Rightarrow> 'a cell list \<Rightarrow> ('a \<times> 'a cell list) option" where
  "move_out i b = (if i < length b then (case b ! i of Live x \<Rightarrow> Some (x, b[i := MovedFrom]) | _ \<Rightarrow> None) else None)"

definition assign :: "nat \<Rightarrow> 'a \<Rightarrow> 'a cell list \<Rightarrow> 'a cell list option" where
  "assign i x b = (if i < length b then (case b ! i of Raw \<Rightarrow> None | _ \<Rightarrow> Some (b[i := Live x])) else None)"

definition read_cell :: "nat \<Rightarrow> 'a cell list \<Rightarrow> 'a option" where
  "read_cell i b = (if i < length b then (case b ! i of Live x \<Rightarrow> Some x | _ \<Rightarrow> None) else None)"

definition move_assign :: "nat \<Rightarrow> nat \<Rightarrow> 'a cell list \<Rightarrow> 'a cell list option" where
  "move_assign i j b = do { (x, b) \<leftarrow> move_out j b; assign i x b }"

section \<open>The vector\<close>

record 'a svec =
  v_inline :: "'a cell list"
  v_heap :: "'a cell list option"
  v_size :: nat
  v_cap :: nat

definition sv_empty :: "nat \<Rightarrow> 'a svec" where
  "sv_empty N = \<lparr>v_inline = replicate N Raw, v_heap = None, v_size = 0, v_cap = N\<rparr>"

definition inline_cap :: "'a svec \<Rightarrow> nat" where
  "inline_cap v = length (v_inline v)"

definition is_inline :: "'a svec \<Rightarrow> bool" where
  "is_inline v \<longleftrightarrow> v_heap v = None"

definition data :: "'a svec \<Rightarrow> 'a cell list" where
  "data v = (case v_heap v of None \<Rightarrow> v_inline v | Some h \<Rightarrow> h)"

definition set_data :: "'a cell list \<Rightarrow> 'a svec \<Rightarrow> 'a svec" where
  "set_data b v = (case v_heap v of None \<Rightarrow> v\<lparr>v_inline := b\<rparr> | Some _ \<Rightarrow> v\<lparr>v_heap := Some b\<rparr>)"

text \<open>\<open>_size + 1\<close> in 32 bits.\<close>

definition next_size :: "nat \<Rightarrow> nat" where
  "next_size n = (n + 1) mod 2 ^ 32"

fun destroy_range :: "nat list \<Rightarrow> 'a cell list \<Rightarrow> 'a cell list option" where
  "destroy_range [] b = Some b"
| "destroy_range (i # is) b = do { b \<leftarrow> destroy i b; destroy_range is b }"

definition free_heap :: "'a svec \<Rightarrow> 'a svec" where
  "free_heap v = (if is_inline v then v else v\<lparr>v_heap := None, v_cap := inline_cap v\<rparr>)"

fun copy_construct :: "nat list \<Rightarrow> 'a cell list \<Rightarrow> 'a cell list \<Rightarrow> 'a cell list option" where
  "copy_construct [] src dst = Some dst"
| "copy_construct (i # is) src dst = do { x \<leftarrow> read_cell i src; dst \<leftarrow> construct i x dst; copy_construct is src dst }"

fun move_construct :: "nat list \<Rightarrow> 'a cell list \<Rightarrow> 'a cell list \<Rightarrow> ('a cell list \<times> 'a cell list) option" where
  "move_construct [] src dst = Some (src, dst)"
| "move_construct (i # is) src dst =
     do { (x, src) \<leftarrow> move_out i src; dst \<leftarrow> construct i x dst; src \<leftarrow> destroy i src; move_construct is src dst }"

section \<open>Growth\<close>

fun grow_cap :: "nat \<Rightarrow> nat \<Rightarrow> nat \<Rightarrow> nat option" where
  "grow_cap 0 cap min_cap = None"
| "grow_cap (Suc fuel) cap min_cap =
     (if cap < min_cap then grow_cap fuel (if cap < 4 then 4 else cap * 2 mod 2 ^ 32) min_cap else Some cap)"

definition grow :: "nat \<Rightarrow> 'a svec \<Rightarrow> 'a svec option" where
  "grow min_cap v =
     do { new_cap \<leftarrow> grow_cap 64 (v_cap v) min_cap;
          (src, dst) \<leftarrow> move_construct [0..<v_size v] (data v) (replicate new_cap Raw);
          Some ((set_data src v)\<lparr>v_heap := Some dst, v_cap := new_cap\<rparr>) }"

definition ensure_capacity :: "nat \<Rightarrow> 'a svec \<Rightarrow> 'a svec option" where
  "ensure_capacity needed v = (if v_cap v < needed then grow needed v else Some v)"

definition reserve :: "nat \<Rightarrow> 'a svec \<Rightarrow> 'a svec option" where
  "reserve new_cap v = (if v_cap v < new_cap then grow new_cap v else Some v)"

section \<open>Appending and inserting\<close>

definition push_back :: "'a \<Rightarrow> 'a svec \<Rightarrow> 'a svec option" where
  "push_back x v =
     do { v \<leftarrow> ensure_capacity (next_size (v_size v)) v;
          b \<leftarrow> construct (v_size v) x (data v);
          Some ((set_data b v)\<lparr>v_size := next_size (v_size v)\<rparr>) }"

text \<open>The argument is a reference; here to an element of the vector itself. Once the buffer has been
  replaced it refers to freed storage, or to the emptied inline buffer.\<close>

definition push_back_own :: "nat \<Rightarrow> 'a svec \<Rightarrow> 'a svec option" where
  "push_back_own k v =
     do { v' \<leftarrow> ensure_capacity (next_size (v_size v)) v;
          x \<leftarrow> (if v_cap v < next_size (v_size v)
                then (if is_inline v then read_cell k (v_inline v') else None)
                else read_cell k (data v'));
          b \<leftarrow> construct (v_size v') x (data v');
          Some ((set_data b v')\<lparr>v_size := next_size (v_size v')\<rparr>) }"

fun shift_right :: "nat list \<Rightarrow> 'a cell list \<Rightarrow> 'a cell list option" where
  "shift_right [] b = Some b"
| "shift_right (i # is) b = do { b \<leftarrow> move_assign i (i - 1) b; shift_right is b }"

definition open_gap :: "nat \<Rightarrow> 'a svec \<Rightarrow> 'a svec option" where
  "open_gap index v =
     do { v \<leftarrow> ensure_capacity (next_size (v_size v)) v;
          b \<leftarrow> (if index < v_size v
                then do { (x, b) \<leftarrow> move_out (v_size v - 1) (data v);
                          b \<leftarrow> construct (v_size v) x b;
                          b \<leftarrow> shift_right (rev [index + 1..<v_size v]) b;
                          destroy index b }
                else Some (data v));
          Some ((set_data b v)\<lparr>v_size := next_size (v_size v)\<rparr>) }"

definition sv_insert :: "nat \<Rightarrow> 'a \<Rightarrow> 'a svec \<Rightarrow> 'a svec option" where
  "sv_insert index x v =
     do { v \<leftarrow> open_gap index v; b \<leftarrow> construct index x (data v); Some (set_data b v) }"

section \<open>Erasing\<close>

fun shift_left :: "nat list \<Rightarrow> 'a cell list \<Rightarrow> 'a cell list option" where
  "shift_left [] b = Some b"
| "shift_left (i # is) b = do { b \<leftarrow> move_assign i (i + 1) b; shift_left is b }"

definition sv_erase :: "nat \<Rightarrow> 'a svec \<Rightarrow> 'a svec option" where
  "sv_erase index v =
     do { b \<leftarrow> destroy index (data v);
          b \<leftarrow> (if 0 < v_size v - index - 1
                then do { (x, b) \<leftarrow> move_out (index + 1) b;
                          b \<leftarrow> construct index x b;
                          b \<leftarrow> shift_left [index + 1..<v_size v - 1] b;
                          destroy (v_size v - 1) b }
                else Some b);
          Some ((set_data b v)\<lparr>v_size := v_size v - 1\<rparr>) }"

definition erase_swap :: "nat \<Rightarrow> 'a svec \<Rightarrow> 'a svec option" where
  "erase_swap index v =
     (let sz = v_size v - 1
      in do { b \<leftarrow> (if index \<noteq> sz
                then do { b \<leftarrow> destroy index (data v); (x, b) \<leftarrow> move_out sz b; construct index x b }
                else Some (data v));
              b \<leftarrow> destroy sz b;
              Some ((set_data b v)\<lparr>v_size := sz\<rparr>) })"

definition pop_back :: "'a svec \<Rightarrow> 'a svec option" where
  "pop_back v =
     do { b \<leftarrow> destroy (v_size v - 1) (data v); Some ((set_data b v)\<lparr>v_size := v_size v - 1\<rparr>) }"

definition sv_clear :: "'a svec \<Rightarrow> 'a svec option" where
  "sv_clear v = do { b \<leftarrow> destroy_range [0..<v_size v] (data v); Some ((set_data b v)\<lparr>v_size := 0\<rparr>) }"

section \<open>Resizing and whole vectors\<close>

fun fill_range :: "nat list \<Rightarrow> 'a \<Rightarrow> 'a cell list \<Rightarrow> 'a cell list option" where
  "fill_range [] x b = Some b"
| "fill_range (i # is) x b = do { b \<leftarrow> construct i x b; fill_range is x b }"

definition resize :: "nat \<Rightarrow> 'a \<Rightarrow> 'a svec \<Rightarrow> 'a svec option" where
  "resize new_size x v =
     do { v \<leftarrow> (if new_size < v_size v
                then do { b \<leftarrow> destroy_range [new_size..<v_size v] (data v); Some (set_data b v) }
                else if v_size v < new_size
                then do { v \<leftarrow> reserve new_size v;
                          b \<leftarrow> fill_range [v_size v..<new_size] x (data v); Some (set_data b v) }
                else Some v);
          Some (v\<lparr>v_size := new_size\<rparr>) }"

definition shrink_to_fit :: "'a svec \<Rightarrow> 'a svec option" where
  "shrink_to_fit v =
     (if is_inline v \<or> v_size v = v_cap v then Some v
      else if v_size v \<le> inline_cap v
      then do { (src, dst) \<leftarrow> move_construct [0..<v_size v] (data v) (v_inline v);
                Some (v\<lparr>v_inline := dst, v_heap := None, v_cap := inline_cap v\<rparr>) }
      else do { (src, dst) \<leftarrow> move_construct [0..<v_size v] (data v) (replicate (v_size v) Raw);
                Some (v\<lparr>v_heap := Some dst, v_cap := v_size v\<rparr>) })"

definition sv_destroy :: "'a svec \<Rightarrow> 'a svec option" where
  "sv_destroy v = do { b \<leftarrow> destroy_range [0..<v_size v] (data v); Some (free_heap (set_data b v)) }"

definition copy_from :: "'a svec \<Rightarrow> 'a svec \<Rightarrow> 'a svec option" where
  "copy_from src v =
     do { v \<leftarrow> reserve (v_size src) v;
          b \<leftarrow> copy_construct [0..<v_size src] (data src) (data v);
          Some ((set_data b v)\<lparr>v_size := v_size src\<rparr>) }"

definition sv_copy :: "'a svec \<Rightarrow> 'a svec option" where
  "sv_copy src = copy_from src (sv_empty (inline_cap src))"

definition copy_assign :: "'a svec \<Rightarrow> 'a svec \<Rightarrow> 'a svec option" where
  "copy_assign src v = do { v \<leftarrow> sv_clear v; copy_from src v }"

definition steal_from :: "'a svec \<Rightarrow> 'a svec \<Rightarrow> ('a svec \<times> 'a svec) option" where
  "steal_from src v =
     (if is_inline src
      then do { (s, d) \<leftarrow> move_construct [0..<v_size src] (data src) (data v);
                Some ((set_data d v)\<lparr>v_size := v_size src\<rparr>, (set_data s src)\<lparr>v_size := 0\<rparr>) }
      else Some (v\<lparr>v_heap := v_heap src, v_size := v_size src, v_cap := v_cap src\<rparr>,
                 src\<lparr>v_heap := None, v_size := 0, v_cap := inline_cap src\<rparr>))"

definition sv_move :: "'a svec \<Rightarrow> ('a svec \<times> 'a svec) option" where
  "sv_move src = steal_from src (sv_empty (inline_cap src))"

definition move_assign_vec :: "'a svec \<Rightarrow> 'a svec \<Rightarrow> ('a svec \<times> 'a svec) option" where
  "move_assign_vec src v =
     do { v \<leftarrow> sv_destroy v; steal_from src (v\<lparr>v_size := 0, v_cap := inline_cap v\<rparr>) }"

section \<open>Access and comparison\<close>

text \<open>\<open>at\<close>: \<open>Inl\<close> is the exception; \<open>operator[]\<close>, \<open>front\<close> and \<open>back\<close> are undefined out of range.\<close>

definition sv_at :: "nat \<Rightarrow> 'a svec \<Rightarrow> (unit + 'a) option" where
  "sv_at i v = (if v_size v \<le> i then Some (Inl ()) else map_option Inr (read_cell i (data v)))"

definition sv_index :: "nat \<Rightarrow> 'a svec \<Rightarrow> 'a option" where
  "sv_index i v = (if i < v_size v then read_cell i (data v) else None)"

definition sv_front :: "'a svec \<Rightarrow> 'a option" where
  "sv_front v = (if 0 < v_size v then read_cell 0 (data v) else None)"

definition sv_back :: "'a svec \<Rightarrow> 'a option" where
  "sv_back v = (if 0 < v_size v then read_cell (v_size v - 1) (data v) else None)"

fun equal_range :: "nat list \<Rightarrow> 'a cell list \<Rightarrow> 'a cell list \<Rightarrow> bool option" where
  "equal_range [] a b = Some True"
| "equal_range (i # is) a b =
     do { x \<leftarrow> read_cell i a; y \<leftarrow> read_cell i b; if x = y then equal_range is a b else Some False }"

definition sv_equal :: "'a svec \<Rightarrow> 'a svec \<Rightarrow> bool option" where
  "sv_equal v w = (if v_size v \<noteq> v_size w then Some False else equal_range [0..<v_size v] (data v) (data w))"

section \<open>The block moves of trivially copyable elements\<close>

text \<open>\<open>memmove\<close> of \<open>n\<close> cells from \<open>from\<close> to \<open>to\<close> within a buffer; constructing a trivial object may
  overwrite one, and its destructor does nothing.\<close>

definition memmove :: "nat \<Rightarrow> nat \<Rightarrow> nat \<Rightarrow> 'a cell list \<Rightarrow> 'a cell list" where
  "memmove to from n b = take to b @ take n (drop from b) @ drop (to + n) b"

definition insert_trivial :: "nat \<Rightarrow> 'a \<Rightarrow> 'a svec \<Rightarrow> 'a svec option" where
  "insert_trivial index x v =
     do { v \<leftarrow> ensure_capacity (next_size (v_size v)) v;
          let b = (if index < v_size v then memmove (index + 1) index (v_size v - index) (data v) else data v);
          Some ((set_data (b[index := Live x]) v)\<lparr>v_size := next_size (v_size v)\<rparr>) }"

definition erase_trivial :: "nat \<Rightarrow> 'a svec \<Rightarrow> 'a svec" where
  "erase_trivial index v =
     (let trailing = v_size v - index - 1;
          b = (if 0 < trailing then memmove index (index + 1) trailing (data v) else data v)
      in (set_data b v)\<lparr>v_size := v_size v - 1\<rparr>)"

section \<open>Cells by position\<close>

lemma cell_ops [simp]:
  "construct (length p) x (p @ Raw # s) = Some (p @ Live x # s)"
  "c \<noteq> Raw \<Longrightarrow> destroy (length p) (p @ c # s) = Some (p @ Raw # s)"
  "move_out (length p) (p @ Live x # s) = Some (x, p @ MovedFrom # s)"
  "c \<noteq> Raw \<Longrightarrow> assign (length p) x (p @ c # s) = Some (p @ Live x # s)"
  "read_cell (length p) (p @ Live x # s) = Some x"
  by (cases c; simp add: construct_def destroy_def move_out_def assign_def read_cell_def)+

lemma cell_ops_at:
  "k = length p \<Longrightarrow> construct k x (p @ Raw # s) = Some (p @ Live x # s)"
  "k = length p \<Longrightarrow> c \<noteq> Raw \<Longrightarrow> destroy k (p @ c # s) = Some (p @ Raw # s)"
  "k = length p \<Longrightarrow> move_out k (p @ Live x # s) = Some (x, p @ MovedFrom # s)"
  "k = length p \<Longrightarrow> c \<noteq> Raw \<Longrightarrow> assign k x (p @ c # s) = Some (p @ Live x # s)"
  "k = length p \<Longrightarrow> read_cell k (p @ Live x # s) = Some x"
  by simp_all

lemma read_live: "k < length xs \<Longrightarrow> read_cell k (map Live xs @ r) = Some (xs ! k)"
  by (simp add: read_cell_def nth_append)

lemma upt_shift: "[k..<k + length (y # ys)] = k # [Suc k..<Suc k + length ys]"
  by (simp add: upt_rec)

lemma move_construct_live:
  "length p = k \<Longrightarrow> length ps = k \<Longrightarrow> move_construct [k..<k + length ys]
     (p @ map Live ys @ r) (map Live ps @ replicate (length ys) Raw @ q)
   = Some (p @ replicate (length ys) Raw @ r, map Live (ps @ ys) @ q)"
proof (induction ys arbitrary: k p ps)
  case (Cons y ys)
  have "move_construct [Suc k..<Suc k + length ys]
      ((p @ [Raw]) @ map Live ys @ r) (map Live (ps @ [y]) @ replicate (length ys) Raw @ q)
    = Some ((p @ [Raw]) @ replicate (length ys) Raw @ r, map Live ((ps @ [y]) @ ys) @ q)"
    by (rule Cons.IH) (simp_all add: Cons.prems)
  then show ?case
    using Cons.prems unfolding upt_shift
    by (simp add: cell_ops_at(1) [of k "map Live ps"] cell_ops_at(2,3) [of k p] del: upt.simps)
qed simp

lemma move_construct_all:
  "move_construct [0..<length xs] (map Live xs @ r) (replicate (length xs) Raw @ q)
   = Some (replicate (length xs) Raw @ r, map Live xs @ q)"
  using move_construct_live [of "[]" 0 "[]" xs r q] by simp

lemma copy_construct_live:
  "length ps = k \<Longrightarrow> copy_construct [k..<k + length ys]
     (map Live (ps @ ys) @ r) (map Live ps @ replicate (length ys) Raw @ q) = Some (map Live (ps @ ys) @ q)"
proof (induction ys arbitrary: k ps)
  case (Cons y ys)
  have "copy_construct [Suc k..<Suc k + length ys]
      (map Live ((ps @ [y]) @ ys) @ r) (map Live (ps @ [y]) @ replicate (length ys) Raw @ q)
    = Some (map Live ((ps @ [y]) @ ys) @ q)"
    by (rule Cons.IH) (simp add: Cons.prems)
  then show ?case
    using Cons.prems unfolding upt_shift by (simp add: cell_ops_at(1,5) [of k "map Live ps"] del: upt.simps)
qed simp

lemma destroy_range_live:
  "length p = k \<Longrightarrow> destroy_range [k..<k + length ys] (p @ map Live ys @ r) = Some (p @ replicate (length ys) Raw @ r)"
proof (induction ys arbitrary: k p)
  case (Cons y ys)
  have "destroy_range [Suc k..<Suc k + length ys] ((p @ [Raw]) @ map Live ys @ r)
      = Some ((p @ [Raw]) @ replicate (length ys) Raw @ r)"
    by (rule Cons.IH) (simp add: Cons.prems)
  then show ?case using Cons.prems unfolding upt_shift by (simp add: cell_ops_at(2) [of k p] del: upt.simps)
qed simp

lemma fill_range_raw:
  "length p = k \<Longrightarrow> fill_range [k..<k + n] x (p @ replicate n Raw @ r) = Some (p @ replicate n (Live x) @ r)"
proof (induction n arbitrary: k p)
  case (Suc n)
  have "fill_range [Suc k..<Suc k + n] x ((p @ [Live x]) @ replicate n Raw @ r)
      = Some ((p @ [Live x]) @ replicate n (Live x) @ r)"
    by (rule Suc.IH) (simp add: Suc.prems)
  moreover have "[k..<k + Suc n] = k # [Suc k..<Suc k + n]" by (simp add: upt_rec)
  ultimately show ?case using Suc.prems by (simp add: cell_ops_at(1) [of k p] del: upt.simps)
qed simp

lemma shift_right_live:
  "length p = k \<Longrightarrow> shift_right (rev [k + 1..<k + 1 + length ys]) (p @ map Live ys @ MovedFrom # s)
   = Some (p @ MovedFrom # map Live ys @ s)"
proof (induction ys arbitrary: s rule: rev_induct)
  case (snoc y ys)
  have "move_assign (k + 1 + length ys) (k + length ys) (p @ map Live ys @ Live y # MovedFrom # s)
      = Some (p @ map Live ys @ MovedFrom # Live y # s)"
    using cell_ops_at(3) [of "k + length ys" "p @ map Live ys" y "MovedFrom # s"]
      cell_ops_at(4) [of "k + 1 + length ys" "p @ map Live ys @ [MovedFrom]" MovedFrom y s] snoc.prems
    by (simp add: move_assign_def)
  then show ?case using snoc.IH [OF snoc.prems, of "Live y # s"] by simp
qed simp

lemma shift_left_live:
  "length p = k \<Longrightarrow> shift_left [k..<k + length ys] (p @ MovedFrom # map Live ys @ s)
   = Some (p @ map Live ys @ MovedFrom # s)"
proof (induction ys arbitrary: k p)
  case (Cons y ys)
  have "move_assign k (k + 1) (p @ MovedFrom # Live y # map Live ys @ s)
      = Some (p @ Live y # MovedFrom # map Live ys @ s)"
    using cell_ops_at(3) [of "k + 1" "p @ [MovedFrom]" y "map Live ys @ s"]
      cell_ops_at(4) [of k p MovedFrom y "MovedFrom # map Live ys @ s"] Cons.prems
    by (simp add: move_assign_def)
  moreover have "shift_left [Suc k..<Suc k + length ys] ((p @ [Live y]) @ MovedFrom # map Live ys @ s)
      = Some ((p @ [Live y]) @ map Live ys @ MovedFrom # s)"
    by (rule Cons.IH) (simp add: Cons.prems)
  ultimately show ?case unfolding upt_shift by (simp del: upt.simps)
qed simp

section \<open>Growth\<close>

lemma grow_cap_total:
  "cap < min_cap \<Longrightarrow> min_cap \<le> 2 ^ 31 \<Longrightarrow> 4 \<le> cap \<Longrightarrow> min_cap \<le> cap * 2 ^ k \<Longrightarrow> k < fuel \<Longrightarrow>
    \<exists>c. grow_cap fuel cap min_cap = Some c \<and> min_cap \<le> c \<and> c < 2 ^ 32"
proof (induction k arbitrary: fuel cap)
  case (Suc k)
  then obtain f where f: "fuel = Suc f" by (cases fuel) auto
  have small: "cap * 2 < 2 ^ 32" using Suc.prems(1,2) by simp
  show ?case
  proof (cases "cap * 2 < min_cap")
    case True
    then show ?thesis using Suc.IH [of "cap * 2" f] Suc.prems f small by (simp add: ac_simps)
  next
    case False
    obtain g where "f = Suc g" using Suc.prems(5) f by (cases f) auto
    then show ?thesis using False f small Suc.prems by simp
  qed
qed simp

lemma grow_cap_spec:
  assumes "min_cap \<le> 2 ^ 31" "cap < 2 ^ 32"
  shows "\<exists>c. grow_cap 64 cap min_cap = Some c \<and> max cap min_cap \<le> c \<and> c < 2 ^ 32
    \<and> (min_cap \<le> cap \<longrightarrow> c = cap)"
proof (cases "cap < min_cap")
  case False
  then have "grow_cap 64 cap min_cap = Some cap" using grow_cap.simps(2) [of 63 cap min_cap] by simp
  then show ?thesis using assms False by simp
next
  case lt: True
  have pos: "\<exists>c. grow_cap 63 x min_cap = Some c \<and> min_cap \<le> c \<and> c < 2 ^ 32" if "4 \<le> x" "x < 2 ^ 32" for x
  proof (cases "x < min_cap")
    case True
    have "4 * 2 ^ 29 \<le> x * 2 ^ 29" using that(1) by (rule mult_le_mono1)
    then have "min_cap \<le> x * 2 ^ 29" using assms(1) by simp
    then show ?thesis using grow_cap_total [OF True assms(1) that(1), of 29 63] by simp
  next
    case False
    then have "grow_cap 63 x min_cap = Some x" using grow_cap.simps(2) [of 62 x min_cap] by simp
    then show ?thesis using False that by simp
  qed
  have "(if cap < 4 then 4 else cap * 2 mod 2 ^ 32) < 2 ^ 32" "4 \<le> (if cap < 4 then 4 else cap * 2 mod 2 ^ 32)"
    using lt assms(1) by auto
  then obtain c where "grow_cap 63 (if cap < 4 then 4 else cap * 2 mod 2 ^ 32) min_cap = Some c" "min_cap \<le> c" "c < 2 ^ 32"
    using pos by blast
  moreover have "grow_cap 64 cap min_cap = grow_cap 63 (if cap < 4 then 4 else cap * 2 mod 2 ^ 32) min_cap"
    using lt grow_cap.simps(2) [of 63 cap min_cap] by simp
  ultimately show ?thesis using lt by auto
qed

section \<open>The vector as a list\<close>

definition sv_rel :: "'a svec \<Rightarrow> 'a list \<Rightarrow> bool" where
  "sv_rel v xs \<longleftrightarrow> data v = map Live xs @ replicate (v_cap v - length xs) Raw \<and> v_size v = length xs
     \<and> length xs \<le> v_cap v \<and> v_cap v < 2 ^ 32 \<and> 0 < inline_cap v \<and> inline_cap v < 2 ^ 32
     \<and> (case v_heap v of None \<Rightarrow> v_cap v = inline_cap v | Some _ \<Rightarrow> v_inline v = replicate (inline_cap v) Raw)"

lemma next_size [simp]: "n < 2 ^ 31 \<Longrightarrow> next_size n = Suc n"
  by (simp add: next_size_def)

lemma set_data_simps [simp]:
  "data (set_data b v) = b" "v_cap (set_data b v) = v_cap v" "v_size (set_data b v) = v_size v"
  "v_heap (set_data b v) = None \<longleftrightarrow> v_heap v = None" "is_inline (set_data b v) = is_inline v"
  "data (v\<lparr>v_size := n\<rparr>) = data v" "set_data b (v\<lparr>v_size := n\<rparr>) = (set_data b v)\<lparr>v_size := n\<rparr>"
  "inline_cap (v\<lparr>v_size := n\<rparr>) = inline_cap v"
  by (auto simp: data_def set_data_def is_inline_def inline_cap_def split: option.splits)

lemma sv_relI:
  assumes r: "sv_rel v xs" and b: "b = map Live ys @ replicate (v_cap v - length ys) Raw" "length ys \<le> v_cap v" "n = length ys"
  shows "sv_rel ((set_data b v)\<lparr>v_size := n\<rparr>) ys" "inline_cap ((set_data b v)\<lparr>v_size := n\<rparr>) = inline_cap v"
proof -
  have lb: "length b = v_cap v" using b by simp
  have f: "v_cap v < 2 ^ 32" "0 < inline_cap v" "inline_cap v < 2 ^ 32"
    "case v_heap v of None \<Rightarrow> v_cap v = inline_cap v | Some _ \<Rightarrow> v_inline v = replicate (inline_cap v) Raw"
    using r unfolding sv_rel_def by blast+
  have ic: "inline_cap (set_data b v) = inline_cap v"
  proof (cases "v_heap v")
    case None
    then have "inline_cap (set_data b v) = length b" by (simp add: set_data_def inline_cap_def)
    then show ?thesis using f(4) lb None by simp
  qed (simp add: set_data_def inline_cap_def)
  then show "inline_cap ((set_data b v)\<lparr>v_size := n\<rparr>) = inline_cap v" by simp
  have "v_heap v \<noteq> None \<Longrightarrow> v_inline (set_data b v) = v_inline v" by (auto simp: set_data_def)
  moreover have "v_heap (set_data b v) = (if v_heap v = None then None else Some b)" by (auto simp: set_data_def split: option.splits)
  ultimately show "sv_rel ((set_data b v)\<lparr>v_size := n\<rparr>) ys"
    unfolding sv_rel_def using f ic b by (auto split: option.splits)
qed

lemma sv_rel_data:
  assumes "sv_rel v xs" "length xs < v_cap v"
  shows "data v = map Live xs @ Raw # replicate (v_cap v - length xs - 1) Raw"
  using assms by (cases "v_cap v - length xs") (auto simp: sv_rel_def)

lemma grow_spec:
  assumes r: "sv_rel v xs" and m: "v_cap v < min_cap" "min_cap \<le> 2 ^ 31"
  shows "\<exists>v'. grow min_cap v = Some v' \<and> sv_rel v' xs \<and> min_cap \<le> v_cap v' \<and> inline_cap v' = inline_cap v"
proof -
  obtain c where c: "grow_cap 64 (v_cap v) min_cap = Some c" "max (v_cap v) min_cap \<le> c" "c < 2 ^ 32"
    using grow_cap_spec [OF m(2), of "v_cap v"] r by (auto simp: sv_rel_def)
  have lc: "length xs \<le> c" using r c(2) by (simp add: sv_rel_def)
  have rep: "replicate c Raw = replicate (length xs) Raw @ replicate (c - length xs) (Raw :: 'a cell)"
    using lc by (simp flip: replicate_add)
  have mc: "move_construct [0..<v_size v] (data v) (replicate c Raw)
      = Some (replicate (v_cap v) Raw, map Live xs @ replicate (c - length xs) Raw)"
    using r move_construct_all [of xs "replicate (v_cap v - length xs) Raw" "replicate (c - length xs) Raw"]
    unfolding rep sv_rel_def by (simp flip: replicate_add)
  define v' where "v' = (set_data (replicate (v_cap v) Raw) v)\<lparr>v_heap := Some (map Live xs @ replicate (c - length xs) Raw), v_cap := c\<rparr>"
  have "grow min_cap v = Some v'" using c(1) mc by (simp add: grow_def v'_def)
  moreover have "inline_cap v' = inline_cap v" "v_inline v' = replicate (inline_cap v) Raw"
    using r by (auto simp: v'_def set_data_def inline_cap_def sv_rel_def split: option.splits)
  ultimately show ?thesis using r c lc by (auto simp: sv_rel_def v'_def data_def)
qed

lemma ensure_spec:
  assumes "sv_rel v xs" "n \<le> 2 ^ 31"
  shows "\<exists>v'. ensure_capacity n v = Some v' \<and> sv_rel v' xs \<and> n \<le> v_cap v' \<and> inline_cap v' = inline_cap v"
  using grow_spec [OF assms(1) _ assms(2)] assms(1) by (cases "v_cap v < n") (auto simp: ensure_capacity_def)

lemma reserve_spec:
  assumes "sv_rel v xs" "n \<le> 2 ^ 31"
  shows "\<exists>v'. reserve n v = Some v' \<and> sv_rel v' xs \<and> n \<le> v_cap v' \<and> inline_cap v' = inline_cap v"
  using ensure_spec [OF assms] by (simp add: reserve_def ensure_capacity_def)

lemma push_back_spec:
  assumes r: "sv_rel v xs" and l: "length xs < 2 ^ 31"
  shows "\<exists>v'. push_back x v = Some v' \<and> sv_rel v' (xs @ [x])"
proof -
  have sz: "next_size (v_size v) = Suc (length xs)" using r l by (simp add: sv_rel_def)
  obtain v1 where v1: "ensure_capacity (Suc (length xs)) v = Some v1" "sv_rel v1 xs" "Suc (length xs) \<le> v_cap v1"
    using ensure_spec [OF r, of "Suc (length xs)"] l by auto
  define R where "R = replicate (v_cap v1 - length xs - 1) (Raw :: 'a cell)"
  have d: "data v1 = map Live xs @ Raw # R" using v1 unfolding R_def by (intro sv_rel_data) auto
  have n: "v_size v1 = length xs" using v1(2) by (simp add: sv_rel_def)
  have c: "construct (length xs) x (map Live xs @ Raw # R) = Some (map Live xs @ Live x # R)"
    by (rule cell_ops_at(1)) simp
  have "sv_rel ((set_data (map Live xs @ Live x # R) v1)\<lparr>v_size := Suc (length xs)\<rparr>) (xs @ [x])"
    by (rule sv_relI(1) [OF v1(2)]) (use v1(3) in \<open>simp_all add: R_def\<close>)
  then show ?thesis using v1(1) l by (simp add: push_back_def sz d n c)
qed

lemma sv_insert_spec:
  assumes r: "sv_rel v xs" and l: "length xs < 2 ^ 31" and i: "i \<le> length xs"
  shows "\<exists>v'. sv_insert i x v = Some v' \<and> sv_rel v' (take i xs @ x # drop i xs)"
proof -
  have sz: "next_size (v_size v) = Suc (length xs)" using r l by (simp add: sv_rel_def)
  obtain v1 where v1: "ensure_capacity (Suc (length xs)) v = Some v1" "sv_rel v1 xs" "Suc (length xs) \<le> v_cap v1"
    using ensure_spec [OF r, of "Suc (length xs)"] l by auto
  define R where "R = replicate (v_cap v1 - length xs - 1) (Raw :: 'a cell)"
  have d: "data v1 = map Live xs @ Raw # R" using v1 unfolding R_def by (intro sv_rel_data) auto
  have n: "v_size v1 = length xs" using v1(2) by (simp add: sv_rel_def)
  define A B where "A = take i xs" and "B = drop i xs"
  have xs: "xs = A @ B" and lA: "length A = i" using i by (simp_all add: A_def B_def)
  define b where "b = map Live A @ Raw # map Live B @ R"
  have gap: "open_gap i v = Some ((set_data b v1)\<lparr>v_size := Suc (length xs)\<rparr>)"
  proof (cases "i < length xs")
    case True
    then obtain B' z where B: "B = B' @ [z]" using xs lA by (cases B rule: rev_cases) auto
    have li: "length xs = Suc (i + length B')" using xs lA B by simp
    have m: "move_out (i + length B') (map Live xs @ Raw # R)
        = Some (z, map Live A @ map Live B' @ MovedFrom # Raw # R)"
      using cell_ops_at(3) [of "i + length B'" "map Live A @ map Live B'" z "Raw # R"] lA by (simp add: xs B)
    have c: "construct (Suc (i + length B')) z (map Live A @ map Live B' @ MovedFrom # Raw # R)
        = Some (map Live A @ map Live B' @ MovedFrom # Live z # R)"
      using cell_ops_at(1) [of "Suc (i + length B')" "map Live A @ map Live B' @ [MovedFrom]" z R] lA by simp
    have s: "shift_right (rev [i + 1..<Suc (i + length B')]) (map Live A @ map Live B' @ MovedFrom # Live z # R)
        = Some (map Live A @ MovedFrom # map Live B' @ Live z # R)"
      using shift_right_live [of "map Live A" i B' "Live z # R"] lA by simp
    have e: "destroy i (map Live A @ MovedFrom # map Live B' @ Live z # R) = Some b"
      using cell_ops_at(2) [of i "map Live A" MovedFrom] lA by (simp add: b_def B)
    have "length xs - 1 = i + length B'" using li by simp
    then show ?thesis using v1(1) True m c s e l li
      unfolding open_gap_def sz by (simp add: n d del: upt.simps shift_right.simps)
  next
    case False
    then have "B = []" "A = xs" "i = length xs" using i by (simp_all add: A_def B_def)
    then show ?thesis using v1(1) d n l by (simp add: open_gap_def sz b_def)
  qed
  have "construct i x b = Some (map Live A @ Live x # map Live B @ R)"
    using cell_ops_at(1) [of i "map Live A"] lA by (simp add: b_def)
  moreover have "sv_rel ((set_data (map Live A @ Live x # map Live B @ R) v1)\<lparr>v_size := Suc (length xs)\<rparr>) (A @ x # B)"
    by (rule sv_relI(1) [OF v1(2)]) (use v1(3) xs in \<open>simp_all add: R_def\<close>)
  ultimately show ?thesis using gap
    by (simp add: sv_insert_def flip: A_def B_def) (simp add: set_data_def split: option.splits)
qed

lemma sv_erase_spec:
  assumes r: "sv_rel v xs" and i: "i < length xs"
  shows "\<exists>v'. sv_erase i v = Some v' \<and> sv_rel v' (take i xs @ drop (i + 1) xs)"
proof -
  define A B where "A = take i xs" and "B = drop (i + 1) xs"
  have xs: "xs = A @ xs ! i # B" and lA: "length A = i"
    using i by (simp_all add: A_def B_def id_take_nth_drop)
  define R where "R = replicate (v_cap v - length xs) (Raw :: 'a cell)"
  have d: "data v = map Live A @ Live (xs ! i) # map Live B @ R" and n: "v_size v = length xs"
    using r by (simp_all add: sv_rel_def R_def) (metis (no_types, lifting) append.assoc append_Cons list.simps(9) map_append xs)
  have dd: "destroy i (data v) = Some (map Live A @ Raw # map Live B @ R)"
    using lA cell_ops_at(2) [of i "map Live A" "Live (xs ! i)"] by (simp add: d)
  have ln: "length xs = Suc (i + length B)" using xs lA by (metis add_Suc_right length_Cons length_append)
  have er: "sv_erase i v = Some ((set_data (map Live A @ map Live B @ Raw # R) v)\<lparr>v_size := length xs - 1\<rparr>)"
  proof (cases B)
    case Nil
    then show ?thesis using dd n ln by (simp add: sv_erase_def)
  next
    case (Cons y B')
    have m: "move_out (i + 1) (map Live A @ Raw # map Live B @ R)
        = Some (y, map Live A @ Raw # MovedFrom # map Live B' @ R)"
      using cell_ops_at(3) [of "i + 1" "map Live A @ [Raw]" y] lA by (simp add: Cons)
    have c: "construct i y (map Live A @ Raw # MovedFrom # map Live B' @ R)
        = Some (map Live A @ Live y # MovedFrom # map Live B' @ R)"
      using cell_ops_at(1) [of i "map Live A"] lA by simp
    have s: "shift_left [i + 1..<i + 1 + length B'] (map Live A @ Live y # MovedFrom # map Live B' @ R)
        = Some (map Live A @ Live y # map Live B' @ MovedFrom # R)"
      using shift_left_live [of "map Live A @ [Live y]" "i + 1" B' R] lA by simp
    have e: "destroy (i + 1 + length B') (map Live A @ Live y # map Live B' @ MovedFrom # R)
        = Some (map Live A @ Live y # map Live B' @ Raw # R)"
      using cell_ops_at(2) [of "i + 1 + length B'" "map Live A @ Live y # map Live B'" MovedFrom R] lA by simp
    show ?thesis using dd n ln m c s e Cons by (simp add: sv_erase_def del: upt.simps shift_left.simps)
  qed
  have "sv_rel ((set_data (map Live A @ map Live B @ Raw # R) v)\<lparr>v_size := length xs - 1\<rparr>) (A @ B)"
    by (rule sv_relI(1) [OF r])
      (use r ln lA in \<open>auto simp: R_def sv_rel_def Suc_diff_le simp flip: replicate_Suc\<close>)
  then show ?thesis using er by (simp add: A_def B_def)
qed

section \<open>The remaining operations\<close>

lemma sv_rel_snocD:
  assumes "sv_rel v (xs @ [z])"
  shows "data v = map Live xs @ Live z # replicate (v_cap v - length (xs @ [z])) Raw" "v_size v = Suc (length xs)"
  using assms by (simp_all add: sv_rel_def)

lemma sv_rel_shorter:
  assumes "sv_rel v (xs @ [z])"
  shows "sv_rel ((set_data (map Live xs @ Raw # replicate (v_cap v - length (xs @ [z])) Raw) v)\<lparr>v_size := length xs\<rparr>) xs"
  by (rule sv_relI(1) [OF assms])
    (use assms in \<open>auto simp: sv_rel_def Suc_diff_Suc simp flip: replicate_Suc\<close>)

lemma pop_back_spec:
  assumes "sv_rel v xs" "xs \<noteq> []"
  shows "\<exists>v'. pop_back v = Some v' \<and> sv_rel v' (butlast xs)"
proof -
  obtain ys z where xs: "xs = ys @ [z]" using assms(2) by (cases xs rule: rev_cases) auto
  note d = sv_rel_snocD [OF assms(1) [unfolded xs]]
  have "destroy (length ys) (map Live ys @ Live z # R) = Some (map Live ys @ Raw # R)" for R
    by (rule cell_ops_at(2)) simp_all
  then show ?thesis using sv_rel_shorter [OF assms(1) [unfolded xs]] by (simp add: pop_back_def d xs)
qed

lemma erase_swap_spec:
  assumes "sv_rel v xs" "i < length xs"
  shows "\<exists>v'. erase_swap i v = Some v' \<and> sv_rel v' (butlast (xs[i := last xs]))"
proof -
  obtain ys z where xs: "xs = ys @ [z]" using assms(2) by (cases xs rule: rev_cases) auto
  define R where "R = replicate (v_cap v - length xs) (Raw :: 'a cell)"
  have d: "data v = map Live ys @ Live z # R" "v_size v = Suc (length ys)"
    using sv_rel_snocD [OF assms(1) [unfolded xs]] by (simp_all add: R_def xs)
  show ?thesis
  proof (cases "i = length ys")
    case True
    have "destroy (length ys) (map Live ys @ Live z # R) = Some (map Live ys @ Raw # R)"
      by (rule cell_ops_at(2)) simp_all
    then show ?thesis using True sv_rel_shorter [OF assms(1) [unfolded xs]]
      by (simp add: erase_swap_def Let_def d xs R_def)
  next
    case False
    then have i: "i < length ys" using assms(2) xs by simp
    define A B where "A = take i ys" and "B = drop (i + 1) ys"
    have ys: "ys = A @ ys ! i # B" and lA: "length A = i" using i by (simp_all add: A_def B_def id_take_nth_drop)
    have ly: "length ys = Suc (i + length B)" using ys lA by (metis add_Suc_right length_Cons length_append)
    have dv: "data v = map Live A @ Live (ys ! i) # map Live B @ Live z # R"
      unfolding d by (subst ys) simp
    have 1: "destroy i (map Live A @ Live (ys ! i) # map Live B @ Live z # R) = Some (map Live A @ Raw # map Live B @ Live z # R)"
      using lA by (intro cell_ops_at(2)) simp_all
    have 2: "move_out (length ys) (map Live A @ Raw # map Live B @ Live z # R) = Some (z, map Live A @ Raw # map Live B @ MovedFrom # R)"
      using cell_ops_at(3) [of "length ys" "map Live A @ Raw # map Live B" z R] ly lA by simp
    have 3: "construct i z (map Live A @ Raw # map Live B @ MovedFrom # R) = Some (map Live A @ Live z # map Live B @ MovedFrom # R)"
      using lA by (intro cell_ops_at(1)) simp
    have 4: "destroy (length ys) (map Live A @ Live z # map Live B @ MovedFrom # R) = Some (map Live A @ Live z # map Live B @ Raw # R)"
      using cell_ops_at(2) [of "length ys" "map Live A @ Live z # map Live B" MovedFrom R] ly lA by simp
    have res: "butlast (xs[i := last xs]) = A @ z # B"
    proof -
      have "xs[i := z] = ys[i := z] @ [z]" using i xs by (simp add: list_update_append)
      moreover have "ys[i := z] = A @ z # B" using i by (simp add: A_def B_def upd_conv_take_nth_drop)
      ultimately have "xs[i := z] = (A @ z # B) @ [z]" by simp
      then show ?thesis using butlast_snoc [of "A @ z # B" z] by (simp add: xs)
    qed
    have "sv_rel ((set_data (map Live A @ Live z # map Live B @ Raw # R) v)\<lparr>v_size := length ys\<rparr>) (A @ z # B)"
      by (rule sv_relI(1) [OF assms(1)])
        (use assms(1) ly lA in \<open>auto simp: sv_rel_def R_def xs Suc_diff_Suc simp flip: replicate_Suc\<close>)
    then show ?thesis using False 1 2 3 4 unfolding res by (simp add: erase_swap_def Let_def d(2) dv)
  qed
qed

lemma destroy_all:
  assumes "sv_rel v xs"
  shows "destroy_range [0..<v_size v] (data v) = Some (replicate (v_cap v) Raw)"
  using destroy_range_live [of "[]" 0 xs "replicate (v_cap v - length xs) Raw"] assms
  by (simp add: sv_rel_def flip: replicate_add)

lemma sv_clear_spec:
  assumes "sv_rel v xs"
  shows "\<exists>v'. sv_clear v = Some v' \<and> sv_rel v' [] \<and> inline_cap v' = inline_cap v"
  using destroy_all [OF assms] sv_relI [OF assms, of "replicate (v_cap v) Raw" "[]" 0] by (simp add: sv_clear_def)

lemma resize_spec:
  assumes r: "sv_rel v xs" and n: "n \<le> 2 ^ 31"
  shows "\<exists>v'. resize n x v = Some v' \<and> sv_rel v' (take n xs @ replicate (n - length xs) x)"
proof -
  have sz: "v_size v = length xs" using r by (simp add: sv_rel_def)
  consider "n < length xs" | "n = length xs" | "length xs < n" by linarith
  then show ?thesis
  proof cases
    case 1
    define R where "R = replicate (v_cap v - length xs) (Raw :: 'a cell)"
    have rng: "[n..<length xs] = [n..<n + length (drop n xs)]" using 1 by simp
    have dv: "data v = map Live (take n xs) @ map Live (drop n xs) @ R"
      using r by (simp add: sv_rel_def R_def flip: map_append append_assoc)
    have "destroy_range [n..<length xs] (data v) = Some (map Live (take n xs) @ replicate (length xs - n) Raw @ R)"
      unfolding rng dv by (subst destroy_range_live) (use 1 in simp_all)
    moreover have "sv_rel ((set_data (map Live (take n xs) @ replicate (length xs - n) Raw @ R) v)\<lparr>v_size := n\<rparr>) (take n xs)"
      by (rule sv_relI(1) [OF r]) (use 1 r in \<open>auto simp: R_def sv_rel_def simp flip: replicate_add\<close>)
    ultimately show ?thesis using 1 by (simp add: resize_def sz)
  next
    case 2
    then have "v\<lparr>v_size := n\<rparr> = v" using sz by (cases v) simp
    then have "resize n x v = Some v" using 2 sz by (simp add: resize_def)
    then show ?thesis using r 2 by simp
  next
    case 3
    obtain v1 where v1: "reserve n v = Some v1" "sv_rel v1 xs" "n \<le> v_cap v1" using reserve_spec [OF r n] by blast
    have s1: "v_size v1 = length xs" using v1(2) by (simp add: sv_rel_def)
    have "data v1 = map Live xs @ replicate (n - length xs) Raw @ replicate (v_cap v1 - n) Raw"
      using v1(2,3) 3 by (simp add: sv_rel_def flip: replicate_add)
    then have "fill_range [length xs..<n] x (data v1)
        = Some (map Live xs @ replicate (n - length xs) (Live x) @ replicate (v_cap v1 - n) Raw)"
      using fill_range_raw [of "map Live xs" "length xs" "n - length xs" x "replicate (v_cap v1 - n) Raw"] 3 by simp
    moreover have "sv_rel ((set_data (map Live xs @ replicate (n - length xs) (Live x) @ replicate (v_cap v1 - n) Raw) v1)\<lparr>v_size := n\<rparr>)
        (xs @ replicate (n - length xs) x)"
      by (rule sv_relI(1) [OF v1(2)]) (use 3 v1(3) in \<open>simp_all add: map_replicate\<close>)
    ultimately show ?thesis using 3 v1(1) by (simp add: resize_def sz s1)
  qed
qed

lemma sv_rel_heap_raw: "sv_rel v xs \<Longrightarrow> \<not> is_inline v \<Longrightarrow> v_inline v = replicate (inline_cap v) Raw"
  by (auto simp: sv_rel_def is_inline_def)

lemma shrink_spec:
  assumes r: "sv_rel v xs"
  shows "\<exists>v'. shrink_to_fit v = Some v' \<and> sv_rel v' xs \<and> (\<not> is_inline v' \<longrightarrow> v_cap v' = length xs)"
proof (cases "is_inline v \<or> v_size v = v_cap v")
  case True
  then show ?thesis using r by (intro exI [of _ v]) (auto simp: shrink_to_fit_def sv_rel_def)
next
  case False
  then have h: "v_inline v = replicate (inline_cap v) Raw" using sv_rel_heap_raw [OF r] by blast
  have sz: "v_size v = length xs" using r by (simp add: sv_rel_def)
  have mc: "move_construct [0..<length xs] (data v) (replicate (length xs) Raw @ q)
      = Some (replicate (v_cap v) Raw, map Live xs @ q)" for q
    using move_construct_all [of xs "replicate (v_cap v - length xs) Raw" q] r
    by (simp add: sv_rel_def flip: replicate_add)
  have b: "v_cap v < 2 ^ 32" "0 < inline_cap v" "inline_cap v < 2 ^ 32" "length xs \<le> v_cap v" using r unfolding sv_rel_def by blast+
  show ?thesis
  proof (cases "length xs \<le> inline_cap v")
    case True
    have "v_inline v = replicate (length xs) Raw @ replicate (inline_cap v - length xs) Raw"
      using h True by (simp flip: replicate_add)
    then have m: "move_construct [0..<length xs] (data v) (v_inline v)
        = Some (replicate (v_cap v) Raw, map Live xs @ replicate (inline_cap v - length xs) Raw)"
      using mc by simp
    define v' where "v' = v\<lparr>v_inline := map Live xs @ replicate (inline_cap v - length xs) Raw, v_heap := None, v_cap := inline_cap v\<rparr>"
    have ic: "inline_cap v' = inline_cap v" using True by (simp add: v'_def inline_cap_def)
    have "shrink_to_fit v = Some v'" using False True m sz by (simp add: shrink_to_fit_def v'_def)
    moreover have "data v' = map Live xs @ replicate (v_cap v' - length xs) Raw" by (simp add: v'_def data_def)
    then have "sv_rel v' xs"
      unfolding sv_rel_def ic using True b sz by (simp add: v'_def)
    ultimately show ?thesis by (auto simp: v'_def is_inline_def)
  next
    case big: False
    define v' where "v' = v\<lparr>v_heap := Some (map Live xs), v_cap := length xs\<rparr>"
    have "shrink_to_fit v = Some v'" using False big mc [of "[]"] sz by (simp add: shrink_to_fit_def v'_def)
    moreover have ic: "inline_cap v' = inline_cap v" by (simp add: v'_def inline_cap_def)
    have "data v' = map Live xs" "v_inline v' = replicate (inline_cap v) Raw" "v_heap v' = Some (map Live xs)"
      "v_cap v' = length xs" "v_size v' = length xs" using h sz by (simp_all add: v'_def data_def)
    then have "sv_rel v' xs" unfolding sv_rel_def ic using b by simp
    ultimately show ?thesis by (auto simp: v'_def)
  qed
qed

section \<open>Copies and moves\<close>

lemma sv_empty_rel: "0 < N \<Longrightarrow> N < 2 ^ 32 \<Longrightarrow> sv_rel (sv_empty N) [] \<and> inline_cap (sv_empty N) = N"
  by (simp add: sv_rel_def sv_empty_def data_def inline_cap_def)

lemma copy_from_spec:
  assumes s: "sv_rel src xs" and v: "sv_rel v []" and l: "length xs \<le> 2 ^ 31"
  shows "\<exists>v'. copy_from src v = Some v' \<and> sv_rel v' xs \<and> inline_cap v' = inline_cap v"
proof -
  have sz: "v_size src = length xs" using s by (simp add: sv_rel_def)
  obtain v1 where v1: "reserve (length xs) v = Some v1" "sv_rel v1 []" "length xs \<le> v_cap v1" "inline_cap v1 = inline_cap v"
    using reserve_spec [OF v l] by blast
  have d: "data v1 = replicate (length xs) Raw @ replicate (v_cap v1 - length xs) Raw"
    using v1(2,3) by (simp add: sv_rel_def flip: replicate_add)
  have "copy_construct [0..<length xs] (data src) (data v1) = Some (map Live xs @ replicate (v_cap v1 - length xs) Raw)"
    using copy_construct_live [of "[]" 0 xs "replicate (v_cap src - length xs) Raw" "replicate (v_cap v1 - length xs) Raw"] s
    by (simp add: sv_rel_def d)
  then show ?thesis using v1 sv_relI [OF v1(2) refl v1(3) refl] by (simp add: copy_from_def sz)
qed

lemma steal_spec:
  assumes s: "sv_rel src xs" and v: "sv_rel v []" "is_inline v" and N: "inline_cap src = inline_cap v"
  shows "\<exists>v' src'. steal_from src v = Some (v', src') \<and> sv_rel v' xs \<and> sv_rel src' []"
proof (cases "is_inline src")
  case True
  have sz: "v_size src = length xs" using s by (simp add: sv_rel_def)
  have caps: "v_cap src = inline_cap src" "v_cap v = inline_cap v" "length xs \<le> v_cap src"
    using s v True by (auto simp: sv_rel_def is_inline_def)
  have "data v = replicate (length xs) Raw @ replicate (v_cap v - length xs) Raw"
    using v(1) caps N by (simp add: sv_rel_def flip: replicate_add)
  then have "move_construct [0..<length xs] (data src) (data v)
      = Some (replicate (v_cap src) Raw, map Live xs @ replicate (v_cap v - length xs) Raw)"
    using move_construct_all [of xs "replicate (v_cap src - length xs) Raw" "replicate (v_cap v - length xs) Raw"] s
    by (simp add: sv_rel_def flip: replicate_add)
  then show ?thesis
    using True sv_relI(1) [OF v(1) refl, of xs "length xs"] sv_relI(1) [OF s, of "replicate (v_cap src) Raw" "[]" 0] caps N
    by (simp add: steal_from_def sz)
next
  case False
  have h: "v_inline src = replicate (inline_cap src) Raw" using sv_rel_heap_raw [OF s False] .
  have hv: "v_inline v = replicate (inline_cap v) Raw"
    using v by (simp add: sv_rel_def is_inline_def data_def)
  define v' where "v' = v\<lparr>v_heap := v_heap src, v_size := v_size src, v_cap := v_cap src\<rparr>"
  define src' where "src' = src\<lparr>v_heap := None, v_size := 0, v_cap := inline_cap src\<rparr>"
  have ic: "inline_cap v' = inline_cap v" "inline_cap src' = inline_cap src"
    by (simp_all add: v'_def src'_def inline_cap_def)
  have d: "data v' = data src" "data src' = replicate (inline_cap src) Raw"
    using False h by (auto simp: v'_def src'_def data_def is_inline_def)
  have f: "v_inline v' = v_inline v" "v_heap v' = v_heap src" "v_cap v' = v_cap src" "v_size v' = v_size src"
    "v_heap src' = None" "v_cap src' = inline_cap src" "v_size src' = 0" by (simp_all add: v'_def src'_def)
  have "sv_rel v' xs"
    unfolding sv_rel_def ic f d hv using s N False unfolding sv_rel_def by (auto simp: is_inline_def)
  moreover have "sv_rel src' []"
    unfolding sv_rel_def ic f d using s unfolding sv_rel_def by simp
  ultimately show ?thesis using False by (simp add: steal_from_def v'_def src'_def)
qed

lemma sv_destroy_spec:
  assumes "sv_rel v xs"
  shows "\<exists>v'. sv_destroy v = Some v' \<and> is_inline v' \<and> inline_cap v' = inline_cap v
    \<and> sv_rel (v'\<lparr>v_size := 0, v_cap := inline_cap v'\<rparr>) [] \<and> set (v_inline v') \<subseteq> {Raw}"
proof -
  define v1 where "v1 = set_data (replicate (v_cap v) Raw) v"
  have d: "sv_destroy v = Some (free_heap v1)" using destroy_all [OF assms] by (simp add: sv_destroy_def v1_def)
  have r1: "sv_rel (v1\<lparr>v_size := 0\<rparr>) []" "inline_cap v1 = inline_cap v"
    using sv_relI [OF assms, of "replicate (v_cap v) Raw" "[]" 0] by (simp_all add: v1_def)
  have q: "data v1 = replicate (v_cap v1) Raw"
    "case v_heap v1 of None \<Rightarrow> v_cap v1 = inline_cap v1 | Some _ \<Rightarrow> v_inline v1 = replicate (inline_cap v1) Raw"
    using r1(1) unfolding sv_rel_def by (auto split: option.splits)
  have raw: "v_inline v1 = replicate (inline_cap v) Raw"
  proof (cases "v_heap v1")
    case None
    then have "data v1 = v_inline v1" "v_cap v1 = inline_cap v" using q(2) r1(2) by (simp_all add: data_def)
    then show ?thesis using q(1) by simp
  next
    case (Some h)
    then show ?thesis using q(2) r1(2) by simp
  qed
  define v' where "v' = free_heap v1"
  have f: "v_heap v' = None" "v_inline v' = replicate (inline_cap v) Raw" "inline_cap v' = inline_cap v"
    using raw r1(2) by (auto simp: v'_def free_heap_def is_inline_def inline_cap_def)
  have "inline_cap (v'\<lparr>v_size := 0, v_cap := inline_cap v'\<rparr>) = inline_cap v'" by (simp add: inline_cap_def)
  then have "sv_rel (v'\<lparr>v_size := 0, v_cap := inline_cap v'\<rparr>) []"
    unfolding sv_rel_def using f assms unfolding sv_rel_def by (simp add: data_def)
  then show ?thesis using d f by (auto simp: is_inline_def simp flip: v'_def)
qed

text \<open>The constructors from a count and a value, and from a list of elements.\<close>

definition sv_filled :: "nat \<Rightarrow> nat \<Rightarrow> 'a \<Rightarrow> 'a svec option" where
  "sv_filled N count x = resize count x (sv_empty N)"

fun push_all :: "'a list \<Rightarrow> 'a svec \<Rightarrow> 'a svec option" where
  "push_all [] v = Some v"
| "push_all (x # xs) v = do { v \<leftarrow> push_back x v; push_all xs v }"

definition sv_of_list :: "nat \<Rightarrow> 'a list \<Rightarrow> 'a svec option" where
  "sv_of_list N xs = do { v \<leftarrow> reserve (length xs) (sv_empty N); push_all xs v }"

lemma push_all_spec:
  "sv_rel v ys \<Longrightarrow> length ys + length xs \<le> 2 ^ 31 \<Longrightarrow> \<exists>v'. push_all xs v = Some v' \<and> sv_rel v' (ys @ xs)"
proof (induction xs arbitrary: v ys)
  case (Cons x xs)
  then obtain v1 where "push_back x v = Some v1" "sv_rel v1 (ys @ [x])"
    using push_back_spec [OF Cons.prems(1), of x] by auto
  then show ?case using Cons.IH [of v1 "ys @ [x]"] Cons.prems(2) by simp
qed simp

lemma constructors_spec:
  assumes N: "0 < N" "N < 2 ^ 32"
  shows "count \<le> 2 ^ 31 \<Longrightarrow> \<exists>v. sv_filled N count x = Some v \<and> sv_rel v (replicate count x)"
    and "length xs \<le> 2 ^ 31 \<Longrightarrow> \<exists>v. sv_of_list N xs = Some v \<and> sv_rel v xs"
proof -
  have e: "sv_rel (sv_empty N :: 'a svec) []" using sv_empty_rel [OF N] by blast
  show "\<exists>v. sv_filled N count x = Some v \<and> sv_rel v (replicate count x)" if "count \<le> 2 ^ 31"
    using resize_spec [OF sv_empty_rel [OF N, THEN conjunct1] that, of x] by (simp add: sv_filled_def)
  show "\<exists>v. sv_of_list N xs = Some v \<and> sv_rel v xs" if l: "length xs \<le> 2 ^ 31"
  proof -
    obtain v where "reserve (length xs) (sv_empty N) = Some v" "sv_rel v ([] :: 'b list)"
      using reserve_spec [OF sv_empty_rel [OF N, THEN conjunct1] l] by blast
    then show ?thesis using push_all_spec [of v "[]" xs] l by (simp add: sv_of_list_def)
  qed
qed

section \<open>Sequences of operations\<close>

datatype 'a sv_op = Push 'a | Insert nat 'a | Erase nat | EraseSwap nat | Pop | Clear | Reserve nat
  | Resize nat 'a | Shrink | CopySelf

fun sv_step :: "'a sv_op \<Rightarrow> 'a svec \<Rightarrow> 'a svec option" where
  "sv_step (Push x) v = push_back x v"
| "sv_step (Insert i x) v = sv_insert i x v"
| "sv_step (Erase i) v = sv_erase i v"
| "sv_step (EraseSwap i) v = erase_swap i v"
| "sv_step Pop v = pop_back v"
| "sv_step Clear v = sv_clear v"
| "sv_step (Reserve n) v = reserve n v"
| "sv_step (Resize n x) v = resize n x v"
| "sv_step Shrink v = shrink_to_fit v"
| "sv_step CopySelf v = sv_copy v"

fun list_step :: "'a sv_op \<Rightarrow> 'a list \<Rightarrow> 'a list" where
  "list_step (Push x) xs = xs @ [x]"
| "list_step (Insert i x) xs = take i xs @ x # drop i xs"
| "list_step (Erase i) xs = take i xs @ drop (i + 1) xs"
| "list_step (EraseSwap i) xs = butlast (xs[i := last xs])"
| "list_step Pop xs = butlast xs"
| "list_step Clear xs = []"
| "list_step (Resize n x) xs = take n xs @ replicate (n - length xs) x"
| "list_step _ xs = xs"

fun list_pre :: "'a sv_op \<Rightarrow> 'a list \<Rightarrow> bool" where
  "list_pre (Push x) xs = (length xs < 2 ^ 31)"
| "list_pre (Insert i x) xs = (length xs < 2 ^ 31 \<and> i \<le> length xs)"
| "list_pre (Erase i) xs = (i < length xs)"
| "list_pre (EraseSwap i) xs = (i < length xs)"
| "list_pre Pop xs = (xs \<noteq> [])"
| "list_pre (Reserve n) xs = (n \<le> 2 ^ 31)"
| "list_pre (Resize n x) xs = (n \<le> 2 ^ 31)"
| "list_pre CopySelf xs = (length xs \<le> 2 ^ 31)"
| "list_pre _ xs = True"

lemma sv_copy_spec:
  assumes "sv_rel v xs" "length xs \<le> 2 ^ 31"
  shows "\<exists>v'. sv_copy v = Some v' \<and> sv_rel v' xs"
proof -
  have "0 < inline_cap v" "inline_cap v < 2 ^ 32" using assms(1) unfolding sv_rel_def by blast+
  then have "sv_rel (sv_empty (inline_cap v)) ([] :: 'a list)" using sv_empty_rel by blast
  then show ?thesis using copy_from_spec [OF assms(1) _ assms(2)] by (auto simp: sv_copy_def)
qed

interpretation sv: simulation sv_rel sv_step list_step list_pre
proof
  fix v :: "'a svec" and xs x
  assume r: "sv_rel v xs" and p: "list_pre x xs"
  show "\<exists>v'. sv_step x v = Some v' \<and> sv_rel v' (list_step x xs)"
    using r p push_back_spec [OF r] sv_insert_spec [OF r] sv_erase_spec [OF r] erase_swap_spec [OF r]
      pop_back_spec [OF r] sv_clear_spec [OF r] reserve_spec [OF r] resize_spec [OF r] shrink_spec [OF r]
      sv_copy_spec [OF r]
    by (cases x) (simp_all, blast+)
qed

text \<open>C23: Any sequence of operations on a fresh vector, with indices in range and sizes up to 2 to the
  31, returns - so no operation touches an object outside its lifetime - and leaves exactly the list
  the operations describe; destroying the vector then destroys every object and frees the heap buffer.\<close>

theorem small_vector_refines_list:
  assumes "0 < N" "N < 2 ^ 32" "all_allowed list_pre list_step as []"
  shows "\<exists>v. run_ops sv_step as (sv_empty N) = Some v \<and> sv_rel v (fold list_step as [])
    \<and> (\<exists>v'. sv_destroy v = Some v' \<and> is_inline v' \<and> set (v_inline v') \<subseteq> {Raw})"
proof -
  obtain v where v: "run_ops sv_step as (sv_empty N) = Some v" "sv_rel v (fold list_step as [])"
    using sv.run [of "sv_empty N" "[]" as] sv_empty_rel [OF assms(1,2)] assms(3) by blast
  then show ?thesis using sv_destroy_spec [OF v(2)] by blast
qed

theorem small_vector_refines_list_witness:
  "\<exists>v. run_ops sv_step [Push 1, Push 2, Insert 1 (5 :: nat), Erase 0, EraseSwap 0] (sv_empty 1) = Some v \<and> sv_rel v [2]"
  using small_vector_refines_list [of 1 "[Push 1, Push 2, Insert 1 (5 :: nat), Erase 0, EraseSwap 0]"] by auto

text \<open>Copying gives a vector with the same elements and leaves the source; moving gives the
  elements to the target and leaves the source empty and usable; both assignments first destroy what
  the target held. Element access reads the element at the index, \<open>at\<close> throwing exactly when it is
  out of range, and comparison is equality of the lists.\<close>

theorem small_vector_copy_move:
  assumes "sv_rel v xs" "sv_rel w ys" "inline_cap v = inline_cap w" "length xs \<le> 2 ^ 31"
  shows "(\<exists>c. sv_copy v = Some c \<and> sv_rel c xs)
    \<and> (\<exists>c. copy_assign v w = Some c \<and> sv_rel c xs)
    \<and> (\<exists>t s. sv_move v = Some (t, s) \<and> sv_rel t xs \<and> sv_rel s [])
    \<and> (\<exists>t s. move_assign_vec v w = Some (t, s) \<and> sv_rel t xs \<and> sv_rel s [])
    \<and> sv_at i v = Some (if i < length xs then Inr (xs ! i) else Inl ())
    \<and> sv_equal v w = Some (xs = ys)"
proof (intro conjI)
  have sz: "v_size v = length xs" "v_size w = length ys" using assms(1,2) by (simp_all add: sv_rel_def)
  show "\<exists>c. sv_copy v = Some c \<and> sv_rel c xs" by (rule sv_copy_spec [OF assms(1,4)])
  obtain w1 where "sv_clear w = Some w1" "sv_rel w1 []" using sv_clear_spec [OF assms(2)] by blast
  then show "\<exists>c. copy_assign v w = Some c \<and> sv_rel c xs"
    using copy_from_spec [OF assms(1) _ assms(4)] by (auto simp: copy_assign_def)
  have "0 < inline_cap v" "inline_cap v < 2 ^ 32" using assms(1) unfolding sv_rel_def by blast+
  then have e: "sv_rel (sv_empty (inline_cap v)) ([] :: 'a list)"
    "inline_cap (sv_empty (inline_cap v) :: 'a svec) = inline_cap v"
    using sv_empty_rel by blast+
  show "\<exists>t s. sv_move v = Some (t, s) \<and> sv_rel t xs \<and> sv_rel s []"
    using steal_spec [OF assms(1) e(1) _ e(2) [symmetric]]
    by (simp add: sv_move_def is_inline_def sv_empty_def)
  obtain w2 where w2: "sv_destroy w = Some w2" "is_inline w2" "inline_cap w2 = inline_cap w"
    "sv_rel (w2\<lparr>v_size := 0, v_cap := inline_cap w2\<rparr>) []"
    using sv_destroy_spec [OF assms(2)] by blast
  have "is_inline (w2\<lparr>v_size := 0, v_cap := inline_cap w2\<rparr>)"
    "inline_cap (w2\<lparr>v_size := 0, v_cap := inline_cap w2\<rparr>) = inline_cap w2"
    using w2(2) by (simp_all add: is_inline_def inline_cap_def)
  then show "\<exists>t s. move_assign_vec v w = Some (t, s) \<and> sv_rel t xs \<and> sv_rel s []"
    using steal_spec [OF assms(1) w2(4)] w2 assms(3) by (simp add: move_assign_vec_def)
  have rv: "read_cell k (data v) = Some (xs ! k)" if "k < length xs" for k
    using assms(1) read_live [OF that] by (simp add: sv_rel_def)
  have rw: "read_cell k (data w) = Some (ys ! k)" if "k < length ys" for k
    using assms(2) read_live [OF that] by (simp add: sv_rel_def)
  show "sv_at i v = Some (if i < length xs then Inr (xs ! i) else Inl ())"
    using rv [of i] by (simp add: sv_at_def sz)
  have eq: "equal_range is (data v) (data w) = Some (\<forall>i \<in> set is. xs ! i = ys ! i)"
    if "\<forall>i \<in> set is. i < length xs \<and> i < length ys" for "is"
    using that
  proof (induction "is")
    case (Cons i "is")
    then have i: "i < length xs" "i < length ys" and IH: "equal_range is (data v) (data w) = Some (\<forall>i \<in> set is. xs ! i = ys ! i)"
      by auto
    show ?case using IH by (simp add: rv [OF i(1)] rw [OF i(2)])
  qed simp
  show "sv_equal v w = Some (xs = ys)"
  proof (cases "length xs = length ys")
    case True
    then have "sv_equal v w = Some (\<forall>i \<in> set [0..<length xs]. xs ! i = ys ! i)"
      unfolding sv_equal_def sz by (subst eq) auto
    moreover have "(\<forall>i \<in> set [0..<length xs]. xs ! i = ys ! i) \<longleftrightarrow> xs = ys"
      using nth_equalityI [OF True] by auto
    ultimately show ?thesis by simp
  next
    case False
    then show ?thesis by (auto simp: sv_equal_def sz)
  qed
qed

theorem small_vector_copy_move_witness:
  "\<exists>t s. sv_move (sv_empty 2 :: nat svec) = Some (t, s) \<and> sv_rel t [] \<and> sv_rel s []"
  using small_vector_copy_move [of "sv_empty 2" "[] :: nat list" "sv_empty 2" "[]" 0] sv_empty_rel [of 2] by force

section \<open>Aliasing and growth beyond the half of the range\<close>

text \<open>\<open>push_back\<close> of a reference to an element of the vector itself reads storage that is no
  longer the element exactly when the push has to grow the buffer; otherwise it appends a copy.\<close>

theorem push_back_own_element:
  assumes "sv_rel v xs" "k < length xs" "length xs < 2 ^ 31"
  shows "(length xs = v_cap v \<longrightarrow> push_back_own k v = None)
    \<and> (length xs < v_cap v \<longrightarrow> push_back_own k v = push_back (xs ! k) v
         \<and> (\<exists>v'. push_back_own k v = Some v' \<and> sv_rel v' (xs @ [xs ! k])))"
proof -
  have sz: "v_size v = length xs" "length xs \<le> v_cap v" using assms(1) by (simp_all add: sv_rel_def)
  have rd: "read_cell k (data v) = Some (xs ! k)"
    using assms(1) read_live [OF assms(2)] by (simp add: sv_rel_def)
  have "push_back_own k v = push_back (xs ! k) v" if "length xs < v_cap v"
    using that rd assms(3) by (simp add: push_back_own_def push_back_def ensure_capacity_def sz)
  moreover have "push_back_own k v = None" if full: "length xs = v_cap v"
  proof -
    obtain v' where v': "grow (Suc (length xs)) v = Some v'" "sv_rel v' xs" "Suc (length xs) \<le> v_cap v'"
      "inline_cap v' = inline_cap v"
      using grow_spec [OF assms(1), of "Suc (length xs)"] full assms(3) by auto
    have "\<not> is_inline v'"
      using v'(1) by (auto simp: grow_def is_inline_def split: Option.bind_splits prod.splits)
    then have "v_inline v' = replicate (inline_cap v') Raw" using sv_rel_heap_raw [OF v'(2)] by blast
    then have "read_cell k (v_inline v') = None" by (auto simp: read_cell_def)
    then show ?thesis using v'(1) full assms(3)
      by (simp add: push_back_own_def ensure_capacity_def sz)
  qed
  ultimately show ?thesis using push_back_spec [OF assms(1,3)] by auto
qed

theorem push_back_own_element_witness:
  "push_back_own 0 \<lparr>v_inline = [Live 7], v_heap = None, v_size = 1, v_cap = 1\<rparr> = None"
proof -
  have "sv_rel \<lparr>v_inline = [Live 7], v_heap = None, v_size = 1, v_cap = 1\<rparr> [7]"
    by (simp add: sv_rel_def data_def inline_cap_def)
  then show ?thesis using push_back_own_element [of _ "[7]" 0] by fastforce
qed

text \<open>The doubling loop of \<open>_grow\<close> ends within 64 rounds for every capacity asked for up to 2 to the
  31, with a capacity that suffices and fits 32 bits. From any power of two it never ends when more
  than 2 to the 31 is asked for: the doubled capacity wraps to zero.\<close>

theorem grow_cap_ends:
  "(min_cap \<le> 2 ^ 31 \<and> cap < 2 ^ 32 \<longrightarrow>
      (\<exists>c. grow_cap 64 cap min_cap = Some c \<and> max cap min_cap \<le> c \<and> c < 2 ^ 32))
   \<and> (2 ^ 31 < min_cap \<and> k \<le> 31 \<longrightarrow> grow_cap fuel (2 ^ k) min_cap = None)"
proof -
  have "grow_cap fuel c min_cap = None"
    if m: "2 ^ 31 < min_cap" and c: "c = 0 \<or> (\<exists>k \<le> 31. c = 2 ^ k)" for c
    using c
  proof (induction fuel arbitrary: c)
    case (Suc fuel)
    have le: "c \<le> 2 ^ 31" using Suc.prems power_increasing [of _ 31 "2 :: nat"] by auto
    have "(if c < 4 then 4 else c * 2 mod 2 ^ 32) = 0 \<or> (\<exists>k \<le> 31. (if c < 4 then 4 else c * 2 mod 2 ^ 32) = 2 ^ k)"
    proof (cases "c < 4")
      case True
      then show ?thesis by (intro disjI2 exI [of _ 2]) simp
    next
      case False
      then obtain k where k: "k \<le> 31" "c = 2 ^ k" using Suc.prems by auto
      show ?thesis
      proof (cases "k = 31")
        case True
        then show ?thesis using k by simp
      next
        case k31: False
        then have "2 ^ Suc k \<le> (2 ^ 31 :: nat)" using k(1) by (intro power_increasing) auto
        then show ?thesis using False k k31 by (intro disjI2 exI [of _ "Suc k"]) simp
      qed
    qed
    then show ?case using Suc.IH le m by (simp del: power_numeral)
  qed simp
  then show ?thesis using grow_cap_spec [of min_cap cap] by blast
qed

theorem grow_cap_ends_witness:
  "(\<exists>c. grow_cap 64 1 9 = Some c \<and> 9 \<le> c) \<and> grow_cap 1000 (2 ^ 3) (2 ^ 31 + 1) = None"
  using grow_cap_ends [of 9 1 3 1000] grow_cap_ends [of "2 ^ 31 + 1" 0 3 1000] by auto

section \<open>Block moves\<close>

lemma memmove_right:
  "memmove (length A + 1) (length A) (length B) (A @ B @ c # R) = A @ hd (B @ [c]) # B @ R"
  by (cases B) (simp_all add: memmove_def)

text \<open>For trivially copyable elements the block moves insert and erase as the element-wise moves
  do: the resulting list is the same.\<close>

theorem trivial_moves_agree:
  assumes "sv_rel v xs" "length xs < 2 ^ 31" "i \<le> length xs"
  shows "(\<exists>v1 v2. insert_trivial i x v = Some v1 \<and> sv_insert i x v = Some v2
      \<and> take (v_size v1) (data v1) = take (v_size v2) (data v2) \<and> v_size v1 = v_size v2)
    \<and> (i < length xs \<longrightarrow> (\<exists>v2. sv_erase i v = Some v2
      \<and> take (v_size (erase_trivial i v)) (data (erase_trivial i v)) = take (v_size v2) (data v2)
      \<and> v_size (erase_trivial i v) = v_size v2))"
proof -
  have tk: "take (v_size u) (data u) = map Live ys \<and> v_size u = length ys" if "sv_rel u ys" for u and ys :: "'a list"
    using that by (simp add: sv_rel_def)
  have sz: "next_size (v_size v) = Suc (length xs)" using assms(1,2) by (simp add: sv_rel_def)
  obtain v1 where v1: "ensure_capacity (Suc (length xs)) v = Some v1" "sv_rel v1 xs" "Suc (length xs) \<le> v_cap v1"
    using ensure_spec [OF assms(1), of "Suc (length xs)"] assms(2) by auto
  define R where "R = replicate (v_cap v1 - length xs - 1) (Raw :: 'a cell)"
  have d: "data v1 = map Live xs @ Raw # R" using v1 unfolding R_def by (intro sv_rel_data) auto
  have n: "v_size v1 = length xs" using v1(2) by (simp add: sv_rel_def)
  define A B where "A = take i xs" and "B = drop i xs"
  have xs: "xs = A @ B" and lA: "length A = i" using assms(3) by (simp_all add: A_def B_def)
  have mm: "memmove (Suc i) i (length xs - i) (data v1) = map Live A @ hd (map Live B @ [Raw]) # map Live B @ R"
    using memmove_right [of "map Live A" "map Live B" Raw R] lA by (simp add: d xs)
  have ins: "(if i < length xs then memmove (Suc i) i (length xs - i) (data v1) else data v1)[i := Live x]
      = map Live (A @ x # B) @ R"
  proof (cases "i < length xs")
    case True
    then show ?thesis using lA unfolding mm by (simp add: list_update_append)
  next
    case False
    then have "B = []" using xs lA by simp
    then show ?thesis using False lA by (simp add: d xs list_update_append)
  qed
  obtain v2 where v2: "sv_insert i x v = Some v2" "sv_rel v2 (A @ x # B)"
    using sv_insert_spec [OF assms] by (auto simp: A_def B_def)
  have "insert_trivial i x v = Some ((set_data (map Live (A @ x # B) @ R) v1)\<lparr>v_size := Suc (length xs)\<rparr>)"
    unfolding insert_trivial_def sz v1(1) using assms(2) ins
    by (cases "i < length xs") (simp_all add: n Let_def del: map_append list.map)
  moreover have "take (v_size u) (data u) = take (v_size v2) (data v2) \<and> v_size u = v_size v2"
    if "u = (set_data (map Live (A @ x # B) @ R) v1)\<lparr>v_size := Suc (length xs)\<rparr>" for u
  proof -
    have e: "v_size v2 = Suc (length A + length B)" using tk [OF v2(2)] by simp
    then have "take (Suc (length A + length B)) (data v2) = map Live A @ Live x # map Live B"
      using conjunct1 [OF tk [OF v2(2)]] unfolding e by simp
    then show ?thesis by (simp add: that xs e)
  qed
  ultimately have 1: "\<exists>v1 v2. insert_trivial i x v = Some v1 \<and> sv_insert i x v = Some v2
      \<and> take (v_size v1) (data v1) = take (v_size v2) (data v2) \<and> v_size v1 = v_size v2"
    using v2(1) by blast
  have 2: "\<exists>v2. sv_erase i v = Some v2
      \<and> take (v_size (erase_trivial i v)) (data (erase_trivial i v)) = take (v_size v2) (data v2)
      \<and> v_size (erase_trivial i v) = v_size v2" if il: "i < length xs"
  proof -
    obtain v3 where v3: "sv_erase i v = Some v3" "sv_rel v3 (take i xs @ drop (i + 1) xs)"
      using sv_erase_spec [OF assms(1) il] by blast
    have sv: "v_size v = length xs" and dv: "data v = map Live xs @ replicate (v_cap v - length xs) Raw"
      using assms(1) by (simp_all add: sv_rel_def)
    have "v_size (erase_trivial i v) = length xs - 1" by (simp add: erase_trivial_def Let_def sv)
    moreover have "take (length xs - 1) (data (erase_trivial i v)) = map Live (take i xs @ drop (i + 1) xs)"
    proof (cases "Suc i < length xs")
      case True
      then show ?thesis by (auto simp: erase_trivial_def Let_def sv dv memmove_def take_map drop_map)
    next
      case False
      then have "length xs = Suc i" using il by simp
      then show ?thesis by (simp add: erase_trivial_def Let_def sv dv take_map)
    qed
    moreover have s3: "v_size v3 = length xs - 1" using tk [OF v3(2)] il by simp
    moreover have "take (length xs - 1) (data v3) = map Live (take i xs @ drop (i + 1) xs)"
      using conjunct1 [OF tk [OF v3(2)]] unfolding s3 .
    ultimately show ?thesis using v3(1) by simp
  qed
  show ?thesis using 1 2 by blast
qed

theorem trivial_moves_agree_witness:
  "\<exists>v1 v2. insert_trivial 0 (3 :: nat) (sv_empty 2) = Some v1 \<and> sv_insert 0 3 (sv_empty 2) = Some v2
     \<and> take (v_size v1) (data v1) = take (v_size v2) (data v2)"
  using trivial_moves_agree [of "sv_empty 2" "[]" 0 "3 :: nat"] sv_empty_rel [of 2] by force

end
