(* ===== verification/Bin_Tcp.thy ===== *)
theory Bin_Tcp
  imports Bin_Codec
begin

text \<open>
  The binary protocol over TCP: the frames of \<open>ve/src/service/tcp_bin_frame.cpp\<close> (a flag byte, the
  length of the payload as four little-endian bytes, the payload in MessagePack), and the client of
  \<open>ve/src/service/tcp_bin_client.cpp\<close> with its receive buffer and its one outstanding call. The socket
  is the sequence of chunks it hands to \<open>onRecv\<close>; the condition variable is the point between
  \<open>call_send\<close> and \<open>call_return\<close> at which \<open>onRecv\<close> and \<open>onDisconnect\<close> run. The mutexes are not modelled.
\<close>

section \<open>Frames\<close>

definition FLAG_REQUEST :: u8 where "FLAG_REQUEST = 0x00"
definition FLAG_RESPONSE :: u8 where "FLAG_RESPONSE = 0x40"
definition FLAG_NOTIFY :: u8 where "FLAG_NOTIFY = 0x80"
definition FLAG_ERROR :: u8 where "FLAG_ERROR = 0xC0"
definition FLAG_TYPE_MASK :: u8 where "FLAG_TYPE_MASK = 0xC0"
definition FRAME_HEADER_SIZE :: nat where "FRAME_HEADER_SIZE = 5"

definition encodeFrame :: "(nat \<Rightarrow> string) \<Rightarrow> u8 \<Rightarrow> var \<Rightarrow> u8 list option" where
  "encodeFrame cust flag payload =
     (case writeVar cust payload [] of
        None \<Rightarrow> None
      | Some body \<Rightarrow>
          (let len = (of_nat (length body) :: u32)
           in Some (flag # ucast len # ucast (drop_bit 8 len) # ucast (drop_bit 16 len) # ucast (drop_bit 24 len) # body)))"

text \<open>\<open>tryPopFrame\<close>: whether a frame was there, and the buffer, flag and value afterwards; the flag is
  written as soon as there is a header.\<close>

definition tryPopFrame :: "u8 list \<Rightarrow> u8 \<Rightarrow> var \<Rightarrow> bool \<times> u8 list \<times> u8 \<times> var" where
  "tryPopFrame buf flag outVar =
     (if length buf < FRAME_HEADER_SIZE then (False, buf, flag, outVar)
      else
        (let flag = buf ! 0;
             len = (ucast (buf ! 1) :: u32) OR push_bit 8 (ucast (buf ! 2)) OR push_bit 16 (ucast (buf ! 3))
                     OR push_bit 24 (ucast (buf ! 4))
         in if length buf < FRAME_HEADER_SIZE + unat len then (False, buf, flag, outVar)
            else (True, drop (FRAME_HEADER_SIZE + unat len) buf, flag,
                  fst (readVar (Some (take (unat len) (drop FRAME_HEADER_SIZE buf)))))))"

lemma tryPopFrame_shorter: "tryPopFrame buf f v = (True, buf', f', v') \<Longrightarrow> length buf' < length buf"
  by (auto simp: tryPopFrame_def FRAME_HEADER_SIZE_def Let_def split: if_splits)

section \<open>The client\<close>

record bin_client =
  recvBuf :: "u8 list"
  waitActive :: bool
  waitDone :: bool
  waitId :: i64
  response :: var
  nextId :: i64
  connected :: bool

definition new_client :: bin_client where
  "new_client = \<lparr>recvBuf = [], waitActive = False, waitDone = False, waitId = 0, response = VNone,
     nextId = 1, connected = False\<rparr>"

text \<open>The identifier of a message, \<open>None\<close> when it has none; the outer \<open>None\<close> is the undefined conversion
  of a double.\<close>

definition message_id :: "var \<Rightarrow> i64 option option" where
  "message_id msg =
     (case msg of
        VDict dict \<Rightarrow> (case map_of dict ''id'' of None \<Rightarrow> Some None | Some v \<Rightarrow> map_option Some (toInt64 0 v))
      | _ \<Rightarrow> Some None)"

definition on_frame :: "u8 \<Rightarrow> var \<Rightarrow> bin_client \<Rightarrow> bin_client option" where
  "on_frame flag msg c =
     (let ty = flag AND FLAG_TYPE_MASK
      in if ty = FLAG_NOTIFY then Some c
         else if ty \<noteq> FLAG_RESPONSE \<and> ty \<noteq> FLAG_ERROR then Some c
         else
           (case message_id msg of
              None \<Rightarrow> None
            | Some None \<Rightarrow> Some c
            | Some (Some rid) \<Rightarrow>
                Some (if waitActive c \<and> rid = waitId c
                      then c\<lparr>response := msg, waitDone := True, waitActive := False\<rparr> else c)))"

text \<open>The loop of \<open>onRecv\<close> over the frames in the buffer.\<close>

function recv_loop :: "u8 list \<Rightarrow> u8 \<Rightarrow> var \<Rightarrow> bin_client \<Rightarrow> bin_client option" where
  "recv_loop buf flag msg c =
     (case tryPopFrame buf flag msg of
        (False, buf', _, _) \<Rightarrow> Some (c\<lparr>recvBuf := buf'\<rparr>)
      | (True, buf', flag', msg') \<Rightarrow>
          (case on_frame flag' msg' c of None \<Rightarrow> None | Some c' \<Rightarrow> recv_loop buf' flag' msg' c'))"
  by pat_completeness auto
termination
  by (relation "measure (\<lambda>(buf, _). length buf)") (auto dest: sym simp: tryPopFrame_shorter)

declare recv_loop.simps [simp del]

definition onRecv :: "u8 list \<Rightarrow> bin_client \<Rightarrow> bin_client option" where
  "onRecv data c = recv_loop (recvBuf c @ data) 0 VNone c"

definition onDisconnect :: "bin_client \<Rightarrow> bin_client" where
  "onDisconnect c =
     (let c1 = c\<lparr>connected := False\<rparr>
      in if waitActive c1 then c1\<lparr>waitDone := True, waitActive := False\<rparr> else c1)"

definition client_disconnect :: "bin_client \<Rightarrow> bin_client" where
  "client_disconnect c =
     (let c1 = c\<lparr>connected := False\<rparr>;
          c2 = (if waitActive c1 then c1\<lparr>waitDone := True\<rparr> else c1)
      in c2\<lparr>waitActive := False, recvBuf := []\<rparr>)"

text \<open>\<open>connect\<close>, with whether the socket could be opened.\<close>

definition client_connect :: "bool \<Rightarrow> bin_client \<Rightarrow> bool \<times> bin_client" where
  "client_connect ok c =
     (let c1 = (client_disconnect c)\<lparr>recvBuf := [], connected := ok\<rparr>
      in (ok, if ok then c1\<lparr>waitDone := False, waitActive := False\<rparr> else c1))"

text \<open>\<open>call\<close> up to the wait: \<open>Some None\<close> when it returns false at once, otherwise the packet sent.\<close>

definition call_send :: "(nat \<Rightarrow> string) \<Rightarrow> var \<Rightarrow> bin_client \<Rightarrow> (bin_client \<times> u8 list) option option" where
  "call_send cust request c =
     (if \<not> connected c then Some None
      else
        (case request of
           VDict dict \<Rightarrow>
             (case (case map_of dict ''id'' of
                      Some v \<Rightarrow> map_option (\<lambda>rid. (rid, dict, nextId c)) (toInt64 0 v)
                    | None \<Rightarrow> Some (nextId c, dict_put ''id'' (VInt (nextId c)) dict, nextId c + 1)) of
                None \<Rightarrow> None
              | Some (rid, dict, next) \<Rightarrow>
                  (case encodeFrame cust FLAG_REQUEST (VDict dict) of
                     None \<Rightarrow> None
                   | Some frame \<Rightarrow>
                       Some (Some (c\<lparr>nextId := next, waitId := rid, waitDone := False, waitActive := True,
                                     response := VNone\<rparr>, frame))))
         | _ \<Rightarrow> Some None))"

text \<open>\<open>call\<close> after the wait, which ends with \<open>waitDone\<close> or by the timeout without it.\<close>

definition call_return :: "bin_client \<Rightarrow> var option \<times> bin_client" where
  "call_return c =
     (let c1 = c\<lparr>waitActive := False\<rparr>
      in if \<not> waitDone c1 then (None, c1)
         else if \<not> isDict (response c1) then (None, c1)
         else (Some (response c1), c1\<lparr>response := VNone\<rparr>))"

section \<open>Streams of frames\<close>

function pop_all :: "u8 list \<Rightarrow> (u8 \<times> var) list \<times> u8 list" where
  "pop_all buf =
     (case tryPopFrame buf 0 VNone of
        (False, buf', _, _) \<Rightarrow> ([], buf')
      | (True, buf', flag, msg) \<Rightarrow> (let (fs, r) = pop_all buf' in ((flag, msg) # fs, r)))"
  by pat_completeness auto
termination
  by (relation "measure length") (auto dest: sym simp: tryPopFrame_shorter)

declare pop_all.simps [simp del]

lemma byte_split:
  fixes len :: u32
  shows "(ucast (ucast len :: u8) :: u32) OR push_bit 8 (ucast (ucast (drop_bit 8 len) :: u8))
    OR push_bit 16 (ucast (ucast (drop_bit 16 len) :: u8)) OR push_bit 24 (ucast (ucast (drop_bit 24 len) :: u8)) = len"
proof (rule bit_word_eqI)
  fix n assume n: "n < LENGTH(32)"
  then have "n < 8 \<or> 8 \<le> n \<and> n < 16 \<or> 16 \<le> n \<and> n < 24 \<or> 24 \<le> n \<and> n < 32" by auto
  then show "bit ((ucast (ucast len :: u8) :: u32) OR push_bit 8 (ucast (ucast (drop_bit 8 len) :: u8))
    OR push_bit 16 (ucast (ucast (drop_bit 16 len) :: u8)) OR push_bit 24 (ucast (ucast (drop_bit 24 len) :: u8))) n = bit len n"
    by (elim disjE) (auto simp: bit_simps)
qed

lemma drop_header: "drop (5 + n) (a # b # c # d # e # xs) = drop n xs"
  by (simp add: eval_nat_numeral)

text \<open>Values a frame can carry.\<close>

definition sendable :: "(nat \<Rightarrow> string) \<Rightarrow> var \<Rightarrow> bool" where
  "sendable cust v \<longleftrightarrow> fits cust v \<and> nesting v \<le> limit_depth
     \<and> (case packVar cust v of None \<Rightarrow> True | Some bs \<Rightarrow> length bs < 2 ^ 32)"

lemma pop_encoded:
  assumes w: "encodeFrame cust f v = Some w" and s: "sendable cust v"
  shows "tryPopFrame (w @ rest) g u = (True, rest, f, stored cust v)"
proof -
  obtain body where b: "packVar cust v = Some body" and w': "w = f # ucast (of_nat (length body) :: u32)
      # ucast (drop_bit 8 (of_nat (length body) :: u32)) # ucast (drop_bit 16 (of_nat (length body) :: u32))
      # ucast (drop_bit 24 (of_nat (length body) :: u32)) # body"
    using w by (auto simp: encodeFrame_def writeVar_def Let_def split: option.splits)
  have "length body < 2 ^ 32" using s b by (simp add: sendable_def)
  then have len: "unat (of_nat (length body) :: u32) = length body" by (simp add: unat_of_nat take_bit_nat_eq_self)
  have "fst (readVar (Some body)) = stored cust v"
    using written_read [of cust v "[]" "[]"] s b by (auto simp: sendable_def writeVar_def split: option.splits)
  then show ?thesis
    by (simp add: tryPopFrame_def w' FRAME_HEADER_SIZE_def byte_split len Let_def drop_header)
qed

lemma try_append:
  "tryPopFrame x f v = (True, x', f', v') \<Longrightarrow> tryPopFrame (x @ y) g u = (True, x' @ y, f', v')"
  by (auto simp: tryPopFrame_def FRAME_HEADER_SIZE_def Let_def nth_append split: if_splits)

lemma try_false: "tryPopFrame x f v = (False, x', f', v') \<Longrightarrow> x' = x"
  by (auto simp: tryPopFrame_def Let_def split: if_splits)

lemma try_outcome: "fst (tryPopFrame x f v) = fst (tryPopFrame x g u)"
  by (auto simp: tryPopFrame_def Let_def)

lemma pop_all_append:
  "pop_all (x @ y) = (let (fs, r) = pop_all x; (gs, s) = pop_all (r @ y) in (fs @ gs, s))"
proof (induction x rule: pop_all.induct)
  case (1 buf)
  obtain b x' f v where t: "tryPopFrame buf 0 VNone = (b, x', f, v)" by (cases "tryPopFrame buf 0 VNone")
  show ?case
  proof (cases b)
    case True
    then have "pop_all (buf @ y) = (let (fs, r) = pop_all (x' @ y) in ((f, v) # fs, r))"
      using try_append [of buf 0 VNone x' f v y 0 VNone] t by (subst pop_all.simps) simp
    moreover have "pop_all buf = (let (fs, r) = pop_all x' in ((f, v) # fs, r))"
      using t True by (subst pop_all.simps) simp
    ultimately show ?thesis using 1 [of True "(x', f, v)" x' "(f, v)" f v] t True by (simp add: Let_def split: prod.splits)
  next
    case False
    then have "pop_all buf = ([], buf)" using t try_false [of buf 0 VNone x' f v] by (subst pop_all.simps) simp
    then show ?thesis by simp
  qed
qed

lemma pop_all_stream:
  assumes "list_all2 (\<lambda>(f, v) w. encodeFrame cust f v = Some w \<and> sendable cust v) fs ws"
  shows "pop_all (concat ws @ rest) = (let (gs, r) = pop_all rest in (map (\<lambda>(f, v). (f, stored cust v)) fs @ gs, r))"
  using assms
proof (induction rule: list_all2_induct)
  case (Cons fv fs w ws)
  obtain f v where fv: "fv = (f, v)" by (cases fv)
  have "tryPopFrame (w @ concat ws @ rest) 0 VNone = (True, concat ws @ rest, f, stored cust v)"
    using Cons.hyps(1) fv by (intro pop_encoded) simp_all
  then have "pop_all (w @ concat ws @ rest) = (let (fs, r) = pop_all (concat ws @ rest) in ((f, stored cust v) # fs, r))"
    by (subst pop_all.simps) simp
  then show ?case using Cons.IH fv by (simp add: Let_def split: prod.splits)
qed simp

section \<open>The client on a stream\<close>

fun run_frames :: "(u8 \<times> var) list \<Rightarrow> bin_client \<Rightarrow> bin_client option" where
  "run_frames [] c = Some c"
| "run_frames ((f, v) # fs) c = (case on_frame f v c of None \<Rightarrow> None | Some c' \<Rightarrow> run_frames fs c')"

fun recv_chunks :: "u8 list list \<Rightarrow> bin_client \<Rightarrow> bin_client option" where
  "recv_chunks [] c = Some c"
| "recv_chunks (d # ds) c = (case onRecv d c of None \<Rightarrow> None | Some c' \<Rightarrow> recv_chunks ds c')"

lemma on_frame_buf: "on_frame f v (c\<lparr>recvBuf := b\<rparr>) = map_option (recvBuf_update (\<lambda>_. b)) (on_frame f v c)"
  by (auto simp: on_frame_def Let_def split: option.splits)

lemma run_frames_buf: "run_frames fs (c\<lparr>recvBuf := b\<rparr>) = map_option (recvBuf_update (\<lambda>_. b)) (run_frames fs c)"
  by (induction fs arbitrary: c) (auto simp: on_frame_buf split: option.splits)

lemma run_frames_append: "run_frames (fs @ gs) c = Option.bind (run_frames fs c) (run_frames gs)"
  by (induction fs arbitrary: c) (auto split: option.splits)

lemma recv_loop_frames:
  "recv_loop buf f v c = (let (fs, r) = pop_all buf in map_option (recvBuf_update (\<lambda>_. r)) (run_frames fs c))"
proof (induction buf f v c rule: recv_loop.induct)
  case (1 buf flag msg c)
  obtain b x' f v where t: "tryPopFrame buf flag msg = (b, x', f, v)" by (cases "tryPopFrame buf flag msg")
  show ?case
  proof (cases b)
    case True
    then have p: "tryPopFrame buf 0 VNone = (True, x', f, v)"
      using try_append [of buf flag msg x' f v "[]" 0 VNone] t by simp
    have "recv_loop buf flag msg c = (case on_frame f v c of None \<Rightarrow> None | Some c' \<Rightarrow> recv_loop x' f v c')"
      using t True by (subst recv_loop.simps) simp
    moreover have "pop_all buf = (let (fs, r) = pop_all x' in ((f, v) # fs, r))"
      using p by (subst pop_all.simps) simp
    moreover have "on_frame f v c = Some c' \<Longrightarrow> recv_loop x' f v c'
        = (let (fs, r) = pop_all x' in map_option (recvBuf_update (\<lambda>_. r)) (run_frames fs c'))" for c'
      using 1 [of True "(x', f, v)" x' "(f, v)" f v c'] t True by simp
    ultimately show ?thesis by (auto simp: Let_def split: option.splits prod.splits)
  next
    case False
    then obtain g u where "tryPopFrame buf 0 VNone = (False, buf, g, u)"
      using try_outcome [of buf flag msg 0 VNone] t try_false [of buf 0 VNone]
      by (cases "tryPopFrame buf 0 VNone") auto
    then have "pop_all buf = ([], buf)" by (subst pop_all.simps) simp
    moreover have "recv_loop buf flag msg c = Some (c\<lparr>recvBuf := buf\<rparr>)"
      using t False try_false [of buf flag msg] by (subst recv_loop.simps) auto
    ultimately show ?thesis by simp
  qed
qed

lemma recv_chunks_frames:
  assumes "pop_all (recvBuf c) = ([], recvBuf c)"
  shows "recv_chunks ds c = (let (fs, r) = pop_all (recvBuf c @ concat ds)
    in map_option (recvBuf_update (\<lambda>_. r)) (run_frames fs c))"
  using assms
proof (induction ds arbitrary: c)
  case Nil
  then show ?case by simp
next
  case (Cons d ds)
  obtain fs r where p: "pop_all (recvBuf c @ d) = (fs, r)" by (cases "pop_all (recvBuf c @ d)")
  have r: "pop_all r = ([], r)"
    using pop_all_append [of "recvBuf c @ d" "[]"] p by (auto simp: Let_def split: prod.splits)
  have c: "onRecv d c = map_option (recvBuf_update (\<lambda>_. r)) (run_frames fs c)"
    by (simp add: onRecv_def recv_loop_frames p)
  show ?case
  proof (cases "run_frames fs c")
    case None
    then show ?thesis using c pop_all_append [of "recvBuf c @ d" "concat ds"] p
      by (simp add: Let_def run_frames_append split: prod.splits)
  next
    case (Some c')
    have "recv_chunks ds (c'\<lparr>recvBuf := r\<rparr>) = (let (gs, s) = pop_all (r @ concat ds)
        in map_option (recvBuf_update (\<lambda>_. s)) (run_frames gs c'))"
      using Cons.IH [of "c'\<lparr>recvBuf := r\<rparr>"] r
      by (simp add: run_frames_buf option.map_comp o_def Let_def split: prod.splits)
    then show ?thesis using c Some pop_all_append [of "recvBuf c @ d" "concat ds"] p
      by (simp add: Let_def run_frames_append split: prod.splits)
  qed
qed


text \<open>C31: A call gets the reply that carries its identifier, however the stream is cut into chunks and
  whatever else is in it: notifications, requests and replies with other identifiers before it do not
  end the wait, and frames after it do not replace it. The buffer is empty when the stream ends with a
  frame.\<close>

theorem client_gets_reply:
  assumes sent: "call_send cust request c = Some (Some (c1, packet))" and buf: "recvBuf c = []"
    and frames: "list_all2 (\<lambda>(f, v) w. encodeFrame cust f v = Some w \<and> sendable cust v) (pre @ (flag, VDict r) # post) ws"
    and chunks: "concat chunks = concat ws"
    and reply: "flag AND FLAG_TYPE_MASK \<in> {FLAG_RESPONSE, FLAG_ERROR}" "message_id (stored cust (VDict r)) = Some (Some (waitId c1))"
    and before: "\<forall>(f, v) \<in> set pre. f AND FLAG_TYPE_MASK \<in> {FLAG_RESPONSE, FLAG_ERROR}
      \<longrightarrow> message_id (stored cust v) \<notin> {None, Some (Some (waitId c1))}"
    and after: "\<forall>(f, v) \<in> set post. message_id (stored cust v) \<noteq> None"
  shows "\<exists>c2. recv_chunks chunks c1 = Some c2 \<and> recvBuf c2 = []
    \<and> call_return c2 = (Some (stored cust (VDict r)), c2\<lparr>waitActive := False, response := VNone\<rparr>)"
proof -
  let ?st = "map (\<lambda>(f, v). (f, stored cust v))"
  have c1: "waitActive c1" "recvBuf c1 = []"
    using sent buf by (auto simp: call_send_def split: var.splits option.splits if_splits prod.splits)
  have pre: "run_frames (?st pre) c1 = Some c1"
    using before
  proof (induction pre)
    case (Cons fv pre)
    then have "on_frame (fst fv) (stored cust (snd fv)) c1 = Some c1"
      by (auto simp: on_frame_def Let_def split: option.splits)
    then show ?case using Cons by (auto simp: case_prod_unfold)
  qed simp
  define c2 where "c2 = c1\<lparr>response := stored cust (VDict r), waitDone := True, waitActive := False\<rparr>"
  have hit: "on_frame flag (stored cust (VDict r)) c1 = Some c2"
    using reply c1 by (auto simp: on_frame_def c2_def Let_def FLAG_NOTIFY_def FLAG_RESPONSE_def FLAG_ERROR_def)
  have post: "run_frames (?st post) c2 = Some c2"
    using after
  proof (induction post)
    case (Cons fv post)
    then have "on_frame (fst fv) (stored cust (snd fv)) c2 = Some c2"
      by (auto simp: on_frame_def c2_def Let_def split: option.splits)
    then show ?case using Cons by (auto simp: case_prod_unfold)
  qed simp
  have none: "pop_all [] = ([], [])" by (subst pop_all.simps) (simp add: tryPopFrame_def FRAME_HEADER_SIZE_def)
  have "recv_chunks chunks c1 = Some (c2\<lparr>recvBuf := []\<rparr>)"
    using recv_chunks_frames [of c1 chunks] pop_all_stream [OF frames, of "[]"] pre hit post
    by (simp add: c1 none chunks run_frames_append)
  then show ?thesis by (simp add: call_return_def c2_def isDict_def)
qed

lemma demo_packed:
  "packVar (\<lambda>_. []) (VInt 7) = Some [7]"
  "packVar (\<lambda>_. []) (VDict [(''id'', VInt 1)]) = Some [0x81, 0xA2, 0x69, 0x64, 1]"
  by (simp_all add: pack_imp_int64_def pack_imp_uint64_def pack_map_def pack_text_def pack_str_def u32_size_def char_byte_def)

lemma demo_frames:
  "encodeFrame (\<lambda>_. []) 0x80 (VInt 7) = Some [0x80, 1, 0, 0, 0, 7]"
  "encodeFrame (\<lambda>_. []) 0x40 (VDict [(''id'', VInt 1)]) = Some [0x40, 5, 0, 0, 0, 0x81, 0xA2, 0x69, 0x64, 1]"
  by (simp_all add: encodeFrame_def writeVar_def demo_packed del: packVar.simps)

theorem client_gets_reply_witness:
  "\<exists>c1 packet c2. call_send (\<lambda>_. []) (VDict [(''op'', VString ''x'')]) (new_client\<lparr>connected := True\<rparr>) = Some (Some (c1, packet))
    \<and> recv_chunks [[0x80, 1, 0], [0, 0, 7, 0x40, 5, 0], [0, 0, 0x81, 0xA2, 0x69, 0x64, 1]] c1 = Some c2
    \<and> fst (call_return c2) = Some (VDict [(''id'', VInt 1)])"
proof -
  obtain c1 packet where c: "call_send (\<lambda>_. []) (VDict [(''op'', VString ''x'')]) (new_client\<lparr>connected := True\<rparr>) = Some (Some (c1, packet))"
    "waitId c1 = 1"
    by (auto simp: call_send_def new_client_def dict_put_def encodeFrame_def writeVar_def Let_def)
  have "\<exists>c2. recv_chunks [[0x80, 1, 0], [0, 0, 7, 0x40, 5, 0], [0, 0, 0x81, 0xA2, 0x69, 0x64, 1]] c1 = Some c2 \<and> recvBuf c2 = []
    \<and> call_return c2 = (Some (stored (\<lambda>_. []) (VDict [(''id'', VInt 1)])), c2\<lparr>waitActive := False, response := VNone\<rparr>)"
  proof (rule client_gets_reply [OF c(1), where pre = "[(0x80, VInt 7)]" and flag = "0x40" and post = "[]"
        and ws = "[[0x80, 1, 0, 0, 0, 7], [0x40, 5, 0, 0, 0, 0x81, 0xA2, 0x69, 0x64, 1]]"])
    show "list_all2 (\<lambda>(f, v) w. encodeFrame (\<lambda>_. []) f v = Some w \<and> sendable (\<lambda>_. []) v)
      ([(0x80, VInt 7)] @ (0x40, VDict [(''id'', VInt 1)]) # []) [[0x80, 1, 0, 0, 0, 7], [0x40, 5, 0, 0, 0, 0x81, 0xA2, 0x69, 0x64, 1]]"
      by (simp add: demo_frames demo_packed sendable_def limit_depth_def dict_wf_def del: packVar.simps)
  qed (simp_all add: c(2) new_client_def FLAG_RESPONSE_def FLAG_ERROR_def FLAG_TYPE_MASK_def message_id_def)
  then show ?thesis using c(1) by auto
qed

end
