(* ===== verification/Line_Editor.thy ===== *)
theory Line_Editor
  imports Utf8_Text
begin

text \<open>
  The line editor of the terminal (\<open>ve/src/service/terminal_line_editor.h\<close>): the line as bytes, the
  cursor as a byte position, browsing the history, completion, and submission. The session behind the
  editor is what the editor calls of it: its history, its completions of a text, and executing a line,
  which may change it (\<open>session_ops\<close>). \<open>None\<close> is the exception \<open>std::string\<close> throws for a position
  behind its end.
\<close>

section \<open>State\<close>

datatype terminal_key =
  K_NONE | K_CHARACTER | K_ENTER | K_BACKSPACE | K_TAB | K_CTRL_C | K_CTRL_U | K_LEFT | K_RIGHT | K_UP | K_DOWN
| K_DELETE | K_HOME | K_END | K_EOF

record key_event =
  ev_key :: terminal_key
  ev_ch :: char
  ev_chars :: string

record edit_result =
  r_output :: string
  r_redraw :: bool
  r_prompt_on_new_line :: bool
  r_disconnect :: bool
  r_eof :: bool

definition no_result :: edit_result where
  "no_result = \<lparr>r_output = [], r_redraw = False, r_prompt_on_new_line = False, r_disconnect = False, r_eof = False\<rparr>"

datatype editor_mode = COOKED | CONTROLLED

record 's session_ops =
  op_history :: "'s \<Rightarrow> string list"
  op_complete :: "'s \<Rightarrow> string \<Rightarrow> string list"
  op_execute :: "'s \<Rightarrow> string \<Rightarrow> string \<times> 's"
  op_prompt :: "'s \<Rightarrow> string"

record 's editor =
  e_session :: "'s option"
  e_mode :: editor_mode
  e_line :: string
  e_cursor :: nat
  e_history_index :: int
  e_history_draft :: string

definition new_editor :: "'s option \<Rightarrow> editor_mode \<Rightarrow> 's editor" where
  "new_editor session m = \<lparr>e_session = session, e_mode = m, e_line = [], e_cursor = 0,
     e_history_index = -1, e_history_draft = []\<rparr>"

definition setMode :: "editor_mode \<Rightarrow> 's editor \<Rightarrow> 's editor" where
  "setMode m ed = ed\<lparr>e_mode := m\<rparr>"

definition cursorColsToEnd :: "'s editor \<Rightarrow> nat" where
  "cursorColsToEnd ed = displayWidth_range (e_line ed) (e_cursor ed) (length (e_line ed))"

definition prompt :: "'s session_ops \<Rightarrow> 's editor \<Rightarrow> string" where
  "prompt ops ed = (case e_session ed of Some s \<Rightarrow> op_prompt ops s | None \<Rightarrow> ''> '')"

definition renderedLine :: "'s session_ops \<Rightarrow> 's editor \<Rightarrow> string" where
  "renderedLine ops ed = prompt ops ed @ e_line ed"

section \<open>Strings\<close>

text \<open>\<open>insert\<close> and \<open>erase\<close> at a position, which must lie within the string or at its end.\<close>

definition str_insert :: "nat \<Rightarrow> string \<Rightarrow> string \<Rightarrow> string option" where
  "str_insert pos t s = (if length s < pos then None else Some (take pos s @ t @ drop pos s))"

definition str_erase :: "nat \<Rightarrow> nat \<Rightarrow> string \<Rightarrow> string option" where
  "str_erase pos n s = (if length s < pos then None else Some (take pos s @ drop (pos + n) s))"

definition put_text :: "string \<Rightarrow> 's editor \<Rightarrow> 's editor option" where
  "put_text t ed =
     (case str_insert (e_cursor ed) t (e_line ed) of
        None \<Rightarrow> None | Some l \<Rightarrow> Some (ed\<lparr>e_line := l, e_cursor := e_cursor ed + length t\<rparr>))"

definition cut_text :: "nat \<Rightarrow> nat \<Rightarrow> 's editor \<Rightarrow> 's editor option" where
  "cut_text pos n ed = (case str_erase pos n (e_line ed) of None \<Rightarrow> None | Some l \<Rightarrow> Some (ed\<lparr>e_line := l\<rparr>))"

fun common2 :: "string \<Rightarrow> string \<Rightarrow> string" where
  "common2 (a # as) (b # bs) = (if a = b then a # common2 as bs else [])"
| "common2 _ _ = []"

definition commonPrefix :: "string list \<Rightarrow> string" where
  "commonPrefix items = (case items of [] \<Rightarrow> [] | x # xs \<Rightarrow> foldl common2 x xs)"

definition formatMatches :: "string list \<Rightarrow> string" where
  "formatMatches matches =
     (if matches = [] then []
      else CHR 0x0A # concat (map (\<lambda>m. ''  '' @ m @ [CHR 0x0A]) matches))"

definition prefixOutputIfControlled :: "'s editor \<Rightarrow> string \<Rightarrow> string" where
  "prefixOutputIfControlled ed t =
     (if e_mode ed = CONTROLLED \<and> t \<noteq> [] \<and> hd t \<noteq> CHR 0x0A then CHR 0x0A # t else t)"

text \<open>The text behind the last blank.\<close>

definition last_word :: "string \<Rightarrow> string" where
  "last_word s = (case rfind (CHR '' '') s of None \<Rightarrow> s | Some i \<Rightarrow> drop (i + 1) s)"

definition completion_suffix :: "string \<Rightarrow> string list \<Rightarrow> string" where
  "completion_suffix word matches =
     (let common = commonPrefix matches
      in if length word < length common then drop (length word) common else [])"

section \<open>Editing\<close>

definition clearLine :: "'s editor \<Rightarrow> 's editor" where
  "clearLine ed = ed\<lparr>e_line := [], e_cursor := 0, e_history_index := -1, e_history_draft := []\<rparr>"

definition appendCooked :: "char \<Rightarrow> 's editor \<Rightarrow> 's editor" where
  "appendCooked ch ed = ed\<lparr>e_line := e_line ed @ [ch], e_cursor := length (e_line ed) + 1\<rparr>"

definition resetHistoryBrowse :: "'s editor \<Rightarrow> 's editor" where
  "resetHistoryBrowse ed = ed\<lparr>e_history_index := -1, e_history_draft := []\<rparr>"

definition show_history :: "string list \<Rightarrow> 's editor \<Rightarrow> bool \<times> 's editor" where
  "show_history hist ed =
     (let l = hist ! nat (e_history_index ed) in (True, ed\<lparr>e_line := l, e_cursor := length l\<rparr>))"

definition browseHistory :: "'s session_ops \<Rightarrow> int \<Rightarrow> 's editor \<Rightarrow> bool \<times> 's editor" where
  "browseHistory ops direction ed =
     (case e_session ed of
        None \<Rightarrow> (False, ed)
      | Some s \<Rightarrow>
          (let hist = op_history ops s
           in if hist = [] then (False, ed)
              else if direction < 0 then
                (if e_history_index ed < 0
                 then show_history hist (ed\<lparr>e_history_draft := e_line ed, e_history_index := int (length hist) - 1\<rparr>)
                 else if 0 < e_history_index ed
                 then show_history hist (ed\<lparr>e_history_index := e_history_index ed - 1\<rparr>)
                 else show_history hist ed)
              else if e_history_index ed < 0 then (False, ed)
              else if e_history_index ed + 1 < int (length hist)
              then show_history hist (ed\<lparr>e_history_index := e_history_index ed + 1\<rparr>)
              else (True, ed\<lparr>e_history_index := -1, e_line := e_history_draft ed,
                             e_cursor := length (e_history_draft ed), e_history_draft := []\<rparr>)))"

text \<open>The blank after the only completion of the first word, unless the completion ends with a slash.\<close>

definition wants_blank :: "string \<Rightarrow> string list \<Rightarrow> bool" where
  "wants_blank head matches \<longleftrightarrow> length matches = 1 \<and> rfind (CHR '' '') head = None
     \<and> \<not> (hd matches \<noteq> [] \<and> last (hd matches) = CHR ''/'')"

definition completeAtCursor :: "'s session_ops \<Rightarrow> 's editor \<Rightarrow> (edit_result \<times> 's editor) option" where
  "completeAtCursor ops ed =
     (case e_session ed of
        None \<Rightarrow> Some (no_result, ed)
      | Some s \<Rightarrow>
          (let head = take (e_cursor ed) (e_line ed); matches = op_complete ops s head
           in if matches = [] then Some (no_result, ed)
              else
                (case (let t = completion_suffix (last_word head) matches
                       in if t = [] then Some ed else put_text t ed) of
                   None \<Rightarrow> None
                 | Some ed1 \<Rightarrow>
                     (case (if wants_blank head matches
                               \<and> (e_cursor ed1 = length (e_line ed1) \<or> e_line ed1 ! e_cursor ed1 \<noteq> CHR '' '')
                            then put_text '' '' ed1 else Some ed1) of
                        None \<Rightarrow> None
                      | Some ed2 \<Rightarrow>
                          Some (no_result\<lparr>r_output := (if 1 < length matches then formatMatches matches else []),
                                          r_redraw := True\<rparr>, ed2)))))"

section \<open>Submission\<close>

text \<open>The tabs a cooked line holds are completions to do: the text so far, whether there was a tab, and the
  matches to print.\<close>

fun submit_tabs :: "(string \<Rightarrow> string list) \<Rightarrow> string \<Rightarrow> string \<Rightarrow> bool \<Rightarrow> string \<Rightarrow> string \<times> bool \<times> string" where
  "submit_tabs complete [] current had_tab match_output = (current, had_tab, match_output)"
| "submit_tabs complete (ch # chs) current had_tab match_output =
     (if ch \<noteq> CHR 0x09 then submit_tabs complete chs (current @ [ch]) had_tab match_output
      else
        (let matches = complete current
         in if matches = [] then submit_tabs complete chs current True match_output
            else
              (let extended = current @ completion_suffix (last_word current) matches
               in if wants_blank current matches
                  then submit_tabs complete chs (extended @ '' '') True match_output
                  else submit_tabs complete chs extended True
                         (if 1 < length matches then match_output @ formatMatches matches else match_output))))"

definition applySubmittedTabs :: "'s session_ops \<Rightarrow> 's editor \<Rightarrow> (string \<times> 's editor) option" where
  "applySubmittedTabs ops ed =
     (case e_session ed of
        None \<Rightarrow> None
      | Some s \<Rightarrow>
          (case submit_tabs (op_complete ops s) (e_line ed) [] False [] of
             (current, had_tab, match_output) \<Rightarrow>
               if \<not> had_tab then None
               else Some (match_output, ed\<lparr>e_line := current, e_cursor := length current\<rparr>)))"

definition submitLine :: "'s session_ops \<Rightarrow> 's editor \<Rightarrow> edit_result \<times> 's editor" where
  "submitLine ops ed =
     (if e_line ed = [] then (no_result\<lparr>r_prompt_on_new_line := True\<rparr>, ed)
      else
        (case (if e_mode ed = COOKED then applySubmittedTabs ops ed else None) of
           Some (match_output, ed1) \<Rightarrow> (no_result\<lparr>r_output := match_output, r_prompt_on_new_line := True\<rparr>, ed1)
         | None \<Rightarrow>
             (let line = e_line ed; ed1 = clearLine ed;
                  (result, ed2) = (case e_session ed1 of
                     Some s \<Rightarrow> (case op_execute ops s line of (r, s') \<Rightarrow> (r, ed1\<lparr>e_session := Some s'\<rparr>))
                   | None \<Rightarrow> ([], ed1))
              in if result \<noteq> [] \<and> hd result = CHR 0x04
                 then (no_result\<lparr>r_output := prefixOutputIfControlled ed2 (''bye'' @ [CHR 0x0A]), r_disconnect := True\<rparr>, ed2)
                 else
                   (no_result\<lparr>r_output := (if result = [] then []
                        else prefixOutputIfControlled ed2
                               (if last result \<noteq> CHR 0x0A then result @ [CHR 0x0A] else result)),
                      r_prompt_on_new_line := True\<rparr>, ed2))))"

section \<open>Keys\<close>

text \<open>What follows a change of the line: browsing ends, and a controlled line is drawn again.\<close>

definition edited :: "'s editor option \<Rightarrow> (edit_result \<times> 's editor) option" where
  "edited r = (case r of
      None \<Rightarrow> None | Some ed \<Rightarrow> Some (no_result\<lparr>r_redraw := e_mode ed = CONTROLLED\<rparr>, ed))"

definition moved :: "bool \<Rightarrow> 's editor \<Rightarrow> (edit_result \<times> 's editor) option" where
  "moved b ed = Some (no_result\<lparr>r_redraw := b\<rparr>, ed)"

definition prev_len :: "'s editor \<Rightarrow> nat" where
  "prev_len ed = (let n = prevCharByteLen (e_line ed) (e_cursor ed) in if n = 0 then 1 else n)"

definition next_len :: "'s editor \<Rightarrow> nat" where
  "next_len ed = (let n = charByteLen (e_line ed) (e_cursor ed) in if n = 0 then 1 else n)"

definition key_input :: "key_event \<Rightarrow> string" where
  "key_input ev =
     (if ev_chars ev \<noteq> [] then ev_chars ev
      else if CHR 0x20 \<le> ev_ch ev \<and> ev_ch ev < CHR 0x7F then [ev_ch ev] else [])"

definition onKey :: "'s session_ops \<Rightarrow> key_event \<Rightarrow> 's editor \<Rightarrow> (edit_result \<times> 's editor) option" where
  "onKey ops ev ed =
     (case ev_key ev of
        K_CHARACTER \<Rightarrow>
          (if key_input ev = [] then Some (no_result, ed)
           else edited (put_text (key_input ev) (resetHistoryBrowse ed)))
      | K_ENTER \<Rightarrow> Some (submitLine ops ed)
      | K_BACKSPACE \<Rightarrow>
          (if 0 < e_cursor ed
           then edited (map_option (e_cursor_update (\<lambda>c. c - prev_len ed))
                  (cut_text (e_cursor ed - prev_len ed) (prev_len ed) (resetHistoryBrowse ed)))
           else Some (no_result, ed))
      | K_TAB \<Rightarrow>
          (if e_mode ed = CONTROLLED then completeAtCursor ops ed
           else map_option (Pair no_result) (put_text [CHR 0x09] ed))
      | K_CTRL_C \<Rightarrow>
          (let ed1 = clearLine (resetHistoryBrowse ed)
           in Some (no_result\<lparr>r_output := prefixOutputIfControlled ed1 (''^C'' @ [CHR 0x0A]),
                              r_prompt_on_new_line := True\<rparr>, ed1))
      | K_CTRL_U \<Rightarrow>
          (if e_line ed \<noteq> []
           then edited (map_option (e_cursor_update (\<lambda>_. 0)) (cut_text 0 (e_cursor ed) (resetHistoryBrowse ed)))
           else Some (no_result, ed))
      | K_LEFT \<Rightarrow>
          (if e_mode ed = CONTROLLED \<and> 0 < e_cursor ed
           then moved True (ed\<lparr>e_cursor := e_cursor ed - prev_len ed\<rparr>) else moved False ed)
      | K_RIGHT \<Rightarrow>
          (if e_mode ed = CONTROLLED \<and> e_cursor ed < length (e_line ed)
           then moved True (ed\<lparr>e_cursor := e_cursor ed + next_len ed\<rparr>) else moved False ed)
      | K_HOME \<Rightarrow>
          (if e_mode ed = CONTROLLED \<and> e_cursor ed \<noteq> 0
           then moved True (ed\<lparr>e_cursor := 0\<rparr>) else moved False ed)
      | K_END \<Rightarrow>
          (if e_mode ed = CONTROLLED \<and> e_cursor ed \<noteq> length (e_line ed)
           then moved True (ed\<lparr>e_cursor := length (e_line ed)\<rparr>) else moved False ed)
      | K_DELETE \<Rightarrow>
          (if e_mode ed = CONTROLLED \<and> e_cursor ed < length (e_line ed)
           then (case cut_text (e_cursor ed) (next_len ed) (resetHistoryBrowse ed) of
                   None \<Rightarrow> None | Some ed1 \<Rightarrow> moved True ed1)
           else moved False ed)
      | K_UP \<Rightarrow>
          (if e_mode ed = CONTROLLED
           then (case browseHistory ops (-1) ed of (b, ed1) \<Rightarrow> moved b ed1) else moved False ed)
      | K_DOWN \<Rightarrow>
          (if e_mode ed = CONTROLLED
           then (case browseHistory ops 1 ed of (b, ed1) \<Rightarrow> moved b ed1) else moved False ed)
      | K_EOF \<Rightarrow> Some (no_result\<lparr>r_eof := True, r_disconnect := True\<rparr>, ed)
      | K_NONE \<Rightarrow> Some (no_result, ed))"

section \<open>Lines are text and the cursor is between characters\<close>

definition between :: "string \<Rightarrow> nat \<Rightarrow> bool" where
  "between s pos \<longleftrightarrow> (\<exists>l r. s = l @ r \<and> pos = length l \<and> utf8_text l \<and> utf8_text r)"

text \<open>The invariant of the editor. The index into the history may lie behind its end only while nothing
  is browsed, and the session knows the texts it offers.\<close>

definition editor_ok :: "'s session_ops \<Rightarrow> ('s \<Rightarrow> bool) \<Rightarrow> 's editor \<Rightarrow> bool" where
  "editor_ok ops P ed \<longleftrightarrow> between (e_line ed) (e_cursor ed) \<and> utf8_text (e_history_draft ed)
     \<and> -1 \<le> e_history_index ed
     \<and> (case e_session ed of None \<Rightarrow> True | Some s \<Rightarrow> P s \<and> e_history_index ed < int (length (op_history ops s)))"

text \<open>A session that offers text: every entry of its history, and what its completions have in common
  beyond the word they complete.\<close>

definition text_session :: "'s session_ops \<Rightarrow> ('s \<Rightarrow> bool) \<Rightarrow> bool" where
  "text_session ops P \<longleftrightarrow>
     (\<forall>s. P s \<longrightarrow> list_all utf8_text (op_history ops s)
        \<and> (\<forall>head. utf8_text head \<longrightarrow> utf8_text (completion_suffix (last_word head) (op_complete ops s head)))
        \<and> (\<forall>line. utf8_text line \<longrightarrow> P (snd (op_execute ops s line))))"

lemma between_ends [simp]: "utf8_text s \<Longrightarrow> between s (length s)" "utf8_text s \<Longrightarrow> between s 0"
  unfolding between_def using utf8_Nil by (metis append_Nil2, metis append_Nil list.size(3))

lemma between_text: "between s pos \<Longrightarrow> utf8_text s \<and> pos \<le> length s"
  by (auto simp: between_def intro: utf8_text_append)

lemma put_text_ok:
  assumes "between (e_line ed) (e_cursor ed)" "utf8_text t"
  shows "\<exists>ed'. put_text t ed = Some ed' \<and> between (e_line ed') (e_cursor ed')
    \<and> ed' = ed\<lparr>e_line := e_line ed', e_cursor := e_cursor ed'\<rparr>"
proof -
  obtain l r where l: "e_line ed = l @ r" "e_cursor ed = length l" "utf8_text l" "utf8_text r"
    using assms(1) by (auto simp: between_def)
  have "utf8_text (l @ t)" using l(3) assms(2) by (rule utf8_text_append)
  then have "between (l @ t @ r) (length l + length t)"
    using l(4) unfolding between_def by (intro exI [of _ "l @ t"] exI [of _ r]) simp
  then show ?thesis using l by (simp add: put_text_def str_insert_def)
qed

lemma prev_len_ok:
  assumes "between (e_line ed) (e_cursor ed)" "0 < e_cursor ed"
  shows "\<exists>p c r. e_line ed = p @ c @ r \<and> e_cursor ed = length p + length c \<and> prev_len ed = length c
    \<and> utf8_text p \<and> utf8_text r \<and> utf8_char c"
proof -
  obtain l r where l: "e_line ed = l @ r" "e_cursor ed = length l" "utf8_text l" "utf8_text r" "l \<noteq> []"
    using assms by (auto simp: between_def)
  then obtain p c where p: "l = p @ c" "utf8_text p" "utf8_char c" using utf8_text_last [OF l(3)] by blast
  then have "prev_len ed = length c"
    using l prevCharByteLen_char [OF p(3), of p r] by (auto simp: prev_len_def Let_def utf8_char_def)
  then show ?thesis using l p by (intro exI [of _ p] exI [of _ c] exI [of _ r]) simp
qed

lemma next_len_ok:
  assumes "between (e_line ed) (e_cursor ed)" "e_cursor ed < length (e_line ed)"
  shows "\<exists>l c r. e_line ed = l @ c @ r \<and> e_cursor ed = length l \<and> next_len ed = length c
    \<and> utf8_text l \<and> utf8_text r \<and> utf8_char c"
proof -
  obtain l q where l: "e_line ed = l @ q" "e_cursor ed = length l" "utf8_text l" "utf8_text q" "q \<noteq> []"
    using assms by (auto simp: between_def)
  obtain c r where c: "q = c @ r" "utf8_char c" "utf8_text r"
    by (rule utf8_text_cases [OF l(4)]) (use that l(5) in auto)
  then have "next_len ed = length c"
    using l charByteLen_char [OF c(2), of l r] by (auto simp: next_len_def Let_def utf8_char_def)
  then show ?thesis using l c by (intro exI [of _ l] exI [of _ c] exI [of _ r]) simp
qed


definition same_browse :: "'s editor \<Rightarrow> 's editor \<Rightarrow> bool" where
  "same_browse ed ed' \<longleftrightarrow> ed' = ed\<lparr>e_line := e_line ed', e_cursor := e_cursor ed'\<rparr>"

lemma editor_okI:
  "editor_ok ops P ed \<Longrightarrow> same_browse ed ed' \<Longrightarrow> between (e_line ed') (e_cursor ed') \<Longrightarrow> editor_ok ops P ed'"
  unfolding editor_ok_def same_browse_def by (cases ed, cases ed') (auto split: option.splits)

lemma reset_ok: "editor_ok ops P ed \<Longrightarrow> editor_ok ops P (resetHistoryBrowse ed)"
  by (auto simp: editor_ok_def resetHistoryBrowse_def utf8_Nil split: option.splits)

lemma clear_ok: "editor_ok ops P ed \<Longrightarrow> editor_ok ops P (clearLine ed)"
  by (auto simp: editor_ok_def clearLine_def utf8_Nil split: option.splits)

lemma put_ok: "editor_ok ops P ed \<Longrightarrow> utf8_text t \<Longrightarrow> \<exists>ed'. put_text t ed = Some ed' \<and> editor_ok ops P ed'"
  using put_text_ok [of ed t] editor_okI [of ops P ed] by (metis editor_ok_def same_browse_def)

lemma blank_text [simp]: "utf8_text '' ''" "utf8_text [CHR 0x09]"
  by (rule utf8_text_char; simp add: utf8_char_def lead_len_def char_byte_def)+

lemma backspace_ok:
  assumes "editor_ok ops P ed" "0 < e_cursor ed"
  shows "\<exists>ed'. map_option (e_cursor_update (\<lambda>c. c - prev_len ed))
    (cut_text (e_cursor ed - prev_len ed) (prev_len ed) (resetHistoryBrowse ed)) = Some ed' \<and> editor_ok ops P ed'"
proof -
  obtain p c r where p: "e_line ed = p @ c @ r" "e_cursor ed = length p + length c" "prev_len ed = length c"
    "utf8_text p" "utf8_text r" using prev_len_ok [OF _ assms(2)] assms(1) by (auto simp: editor_ok_def)
  let ?ed = "(resetHistoryBrowse ed)\<lparr>e_line := p @ r, e_cursor := length p\<rparr>"
  have "map_option (e_cursor_update (\<lambda>c. c - prev_len ed))
    (cut_text (e_cursor ed - prev_len ed) (prev_len ed) (resetHistoryBrowse ed)) = Some ?ed"
    using p by (simp add: cut_text_def str_erase_def resetHistoryBrowse_def)
  moreover have "between (p @ r) (length p)" using p(4,5) by (auto simp: between_def)
  then have "editor_ok ops P ?ed"
    by (intro editor_okI [OF reset_ok [OF assms(1)]]) (simp_all add: same_browse_def)
  ultimately show ?thesis by blast
qed

lemma delete_ok:
  assumes "editor_ok ops P ed" "e_cursor ed < length (e_line ed)"
  shows "\<exists>ed'. cut_text (e_cursor ed) (next_len ed) (resetHistoryBrowse ed) = Some ed' \<and> editor_ok ops P ed'"
proof -
  obtain l c r where p: "e_line ed = l @ c @ r" "e_cursor ed = length l" "next_len ed = length c"
    "utf8_text l" "utf8_text r" using next_len_ok [OF _ assms(2)] assms(1) by (auto simp: editor_ok_def)
  let ?ed = "(resetHistoryBrowse ed)\<lparr>e_line := l @ r\<rparr>"
  have "cut_text (e_cursor ed) (next_len ed) (resetHistoryBrowse ed) = Some ?ed"
    using p by (simp add: cut_text_def str_erase_def resetHistoryBrowse_def)
  moreover have "between (l @ r) (length l)" using p(4,5) by (auto simp: between_def)
  then have "editor_ok ops P ?ed" using p(2)
    by (intro editor_okI [OF reset_ok [OF assms(1)]]) (simp_all add: same_browse_def resetHistoryBrowse_def)
  ultimately show ?thesis by blast
qed

lemma kill_ok:
  assumes "editor_ok ops P ed"
  shows "\<exists>ed'. map_option (e_cursor_update (\<lambda>_. 0)) (cut_text 0 (e_cursor ed) (resetHistoryBrowse ed)) = Some ed'
    \<and> editor_ok ops P ed'"
proof -
  obtain l r where l: "e_line ed = l @ r" "e_cursor ed = length l" "utf8_text r"
    using assms by (auto simp: between_def editor_ok_def)
  let ?ed = "(resetHistoryBrowse ed)\<lparr>e_line := r, e_cursor := 0\<rparr>"
  have "map_option (e_cursor_update (\<lambda>_. 0)) (cut_text 0 (e_cursor ed) (resetHistoryBrowse ed)) = Some ?ed"
    using l by (simp add: cut_text_def str_erase_def resetHistoryBrowse_def)
  moreover have "editor_ok ops P ?ed" using l(3)
    by (intro editor_okI [OF reset_ok [OF assms]]) (simp_all add: same_browse_def)
  ultimately show ?thesis by blast
qed

lemma move_ok:
  assumes "editor_ok ops P ed"
  shows "0 < e_cursor ed \<Longrightarrow> editor_ok ops P (ed\<lparr>e_cursor := e_cursor ed - prev_len ed\<rparr>)"
    "e_cursor ed < length (e_line ed) \<Longrightarrow> editor_ok ops P (ed\<lparr>e_cursor := e_cursor ed + next_len ed\<rparr>)"
    "editor_ok ops P (ed\<lparr>e_cursor := 0\<rparr>)" "editor_ok ops P (ed\<lparr>e_cursor := length (e_line ed)\<rparr>)"
proof -
  have b: "between (e_line ed) (e_cursor ed)" using assms by (simp add: editor_ok_def)
  have "between (e_line ed) pos \<Longrightarrow> editor_ok ops P (ed\<lparr>e_cursor := pos\<rparr>)" for pos
    by (rule editor_okI [OF assms]) (simp_all add: same_browse_def)
  moreover have "between (e_line ed) (e_cursor ed - prev_len ed)" if cur: "0 < e_cursor ed"
  proof -
    obtain p c r where "e_line ed = p @ c @ r" "e_cursor ed - prev_len ed = length p"
      "utf8_text p" "utf8_text r" "utf8_char c" using prev_len_ok [OF b cur] by auto
    then show ?thesis unfolding between_def
      by (intro exI [of _ p] exI [of _ "c @ r"]) (simp add: utf8_text.utf8_char)
  qed
  moreover have "between (e_line ed) (e_cursor ed + next_len ed)" if cur: "e_cursor ed < length (e_line ed)"
  proof -
    obtain l c r where "e_line ed = (l @ c) @ r" "e_cursor ed + next_len ed = length (l @ c)"
      "utf8_text l" "utf8_text r" "utf8_char c" using next_len_ok [OF b cur] by auto
    then show ?thesis unfolding between_def by (intro exI [of _ "l @ c"] exI [of _ r]) (simp add: utf8_text_append)
  qed
  ultimately show "0 < e_cursor ed \<Longrightarrow> editor_ok ops P (ed\<lparr>e_cursor := e_cursor ed - prev_len ed\<rparr>)"
    "e_cursor ed < length (e_line ed) \<Longrightarrow> editor_ok ops P (ed\<lparr>e_cursor := e_cursor ed + next_len ed\<rparr>)"
    "editor_ok ops P (ed\<lparr>e_cursor := 0\<rparr>)" "editor_ok ops P (ed\<lparr>e_cursor := length (e_line ed)\<rparr>)"
    using between_text [OF b] by simp_all
qed


lemma browse_ok:
  assumes ok: "editor_ok ops P ed" and ts: "text_session ops P" and b: "browseHistory ops d ed = (b, ed')"
  shows "editor_ok ops P ed'"
proof (cases "e_session ed")
  case (Some s)
  have P: "P s" "e_history_index ed < int (length (op_history ops s))" "-1 \<le> e_history_index ed"
    using ok Some by (simp_all add: editor_ok_def)
  then have entry: "i < length (op_history ops s) \<Longrightarrow> utf8_text (op_history ops s ! i)" for i
    using ts by (simp add: text_session_def list_all_length)
  have show_ok: "editor_ok ops P ed2" if "show_history (op_history ops s) ed1 = (b', ed2)" "editor_ok ops P ed1"
    "e_session ed1 = Some s" "0 \<le> e_history_index ed1" for ed1 ed2 b'
  proof -
    have "nat (e_history_index ed1) < length (op_history ops s)" using that by (auto simp: editor_ok_def)
    then show ?thesis using that(1) entry
      by (intro editor_okI [OF that(2)]) (auto simp: show_history_def same_browse_def Let_def)
  qed
  have idx: "editor_ok ops P (ed\<lparr>e_history_index := i\<rparr>)" if "-1 \<le> i" "i < int (length (op_history ops s))" for i
    using ok that Some by (simp add: editor_ok_def)
  have drf: "editor_ok ops P (ed\<lparr>e_history_draft := e_line ed, e_history_index := i\<rparr>)"
    if "-1 \<le> i" "i < int (length (op_history ops s))" for i
    using ok that Some between_text by (auto simp: editor_ok_def)
  have bck: "editor_ok ops P (ed\<lparr>e_history_index := -1, e_line := e_history_draft ed,
      e_cursor := length (e_history_draft ed), e_history_draft := []\<rparr>)"
    using ok Some P by (simp add: editor_ok_def utf8_Nil)
  define H where "H = op_history ops s"
  define i where "i = e_history_index ed"
  define ed_draft where "ed_draft = ed\<lparr>e_history_draft := e_line ed, e_history_index := int (length H) - 1\<rparr>"
  define ed_up where "ed_up = ed\<lparr>e_history_index := i - 1\<rparr>"
  define ed_down where "ed_down = ed\<lparr>e_history_index := i + 1\<rparr>"
  define ed_back where "ed_back = ed\<lparr>e_history_index := -1, e_line := e_history_draft ed,
          e_cursor := length (e_history_draft ed), e_history_draft := []\<rparr>"
  have "(if H = [] then (False, ed) else if d < 0 then
        (if i < 0 then show_history H ed_draft else if 0 < i then show_history H ed_up else show_history H ed)
      else if i < 0 then (False, ed) else if i + 1 < int (length H) then show_history H ed_down else (True, ed_back)) = (b, ed')"
    using b by (simp only: browseHistory_def Some option.case Let_def ed_draft_def ed_up_def ed_down_def ed_back_def H_def i_def)
  moreover have "H \<noteq> [] \<Longrightarrow> editor_ok ops P ed_draft \<and> e_session ed_draft = Some s \<and> 0 \<le> e_history_index ed_draft"
    using drf [of "int (length H) - 1"] Some unfolding H_def ed_draft_def by (simp add: Suc_le_eq)
  moreover have "0 < i \<Longrightarrow> editor_ok ops P ed_up \<and> e_session ed_up = Some s \<and> 0 \<le> e_history_index ed_up"
    using idx [of "i - 1"] Some P unfolding ed_up_def i_def by simp
  moreover have "\<not> i < 0 \<Longrightarrow> editor_ok ops P ed \<and> e_session ed = Some s \<and> 0 \<le> e_history_index ed"
    using Some ok unfolding i_def by simp
  moreover have "\<not> i < 0 \<Longrightarrow> i + 1 < int (length H) \<Longrightarrow> editor_ok ops P ed_down \<and> e_session ed_down = Some s
      \<and> 0 \<le> e_history_index ed_down"
    using idx [of "i + 1"] Some unfolding ed_down_def H_def i_def by simp
  moreover have "editor_ok ops P ed_back" using bck by (simp add: ed_back_def)
  ultimately show ?thesis using ok show_ok [folded H_def] by (metis Pair_inject)
qed (use b ok in \<open>simp add: browseHistory_def\<close>)

lemma complete_ok:
  assumes ok: "editor_ok ops P ed" and ts: "text_session ops P"
  shows "\<exists>r ed'. completeAtCursor ops ed = Some (r, ed') \<and> editor_ok ops P ed'"
proof (cases "e_session ed")
  case None
  then show ?thesis using ok by (simp add: completeAtCursor_def)
next
  case (Some s)
  obtain l r where l: "e_line ed = l @ r" "e_cursor ed = length l" "utf8_text l"
    using ok by (auto simp: editor_ok_def between_def)
  let ?m = "op_complete ops s l"
  have t: "utf8_text (completion_suffix (last_word l) ?m)"
    using ts ok Some l(3) by (simp add: text_session_def editor_ok_def)
  obtain ed1 where ed1: "(let t = completion_suffix (last_word l) ?m in if t = [] then Some ed else put_text t ed) = Some ed1"
    "editor_ok ops P ed1"
    using put_ok [OF ok t] ok by (cases "completion_suffix (last_word l) ?m = []") (auto simp: Let_def)
  obtain ed2 where ed2: "(if wants_blank l ?m \<and> (e_cursor ed1 = length (e_line ed1) \<or> e_line ed1 ! e_cursor ed1 \<noteq> CHR '' '')
      then put_text '' '' ed1 else Some ed1) = Some ed2" "editor_ok ops P ed2"
    using put_ok [OF ed1(2) blank_text(1)] ed1(2)
    by (cases "wants_blank l ?m \<and> (e_cursor ed1 = length (e_line ed1) \<or> e_line ed1 ! e_cursor ed1 \<noteq> CHR '' '')") auto
  show ?thesis using Some l ed1 ed2 ok
    by (cases "?m = []") (simp_all add: completeAtCursor_def Let_def)
qed

section \<open>Submission keeps the invariant\<close>

lemma no_tab: "utf8_char c \<Longrightarrow> c \<noteq> [CHR 0x09] \<Longrightarrow> CHR 0x09 \<notin> set c"
proof
  assume c: "utf8_char c" "c \<noteq> [CHR 0x09]" "CHR 0x09 \<in> set c"
  then obtain a t where a: "c = a # t" "lead_len (char_byte a) = Suc (length t)" "list_all is_cont t"
    by (auto simp: utf8_char_split)
  have "\<not> is_cont (CHR 0x09)" "lead_len (char_byte (CHR 0x09)) = 1"
    by (simp_all add: is_cont_def lead_len_def char_byte_def)
  then show False using a c(2,3) by (auto simp: list_all_iff)
qed

lemma submit_plain:
  "CHR 0x09 \<notin> set c \<Longrightarrow> submit_tabs f (c @ s) cur h out = submit_tabs f s (cur @ c) h out"
  by (induction c arbitrary: cur) auto

lemma submit_tabs_text:
  assumes "\<And>head. utf8_text head \<Longrightarrow> utf8_text (completion_suffix (last_word head) (f head))"
  shows "utf8_text s \<Longrightarrow> utf8_text cur \<Longrightarrow> utf8_text (fst (submit_tabs f s cur h out))"
proof (induction s arbitrary: cur h out rule: utf8_text.induct)
  case (utf8_char c s)
  show ?case
  proof (cases "c = [CHR 0x09]")
    case True
    have "utf8_text (cur @ completion_suffix (last_word cur) (f cur))"
      using utf8_char.prems assms by (intro utf8_text_append)
    then show ?thesis using utf8_char.IH utf8_char.prems True utf8_text_append [OF _ blank_text(1)]
      by (simp add: Let_def flip: append_assoc)
  next
    case False
    then show ?thesis using utf8_char submit_plain [OF no_tab] utf8_text_append by simp
  qed
qed simp

lemma submit_ok:
  assumes ok: "editor_ok ops P ed" and ts: "text_session ops P" and s: "submitLine ops ed = (r, ed')"
  shows "editor_ok ops P ed'"
proof -
  have line: "utf8_text (e_line ed)" using ok between_text by (auto simp: editor_ok_def)
  have tabs: "editor_ok ops P ed1" if a: "applySubmittedTabs ops ed = Some (out, ed1)" for out ed1
  proof -
    obtain s where s: "e_session ed = Some s" using a by (auto simp: applySubmittedTabs_def split: option.splits)
    then have "utf8_text (fst (submit_tabs (op_complete ops s) (e_line ed) [] False []))"
      using ts ok line utf8_Nil by (intro submit_tabs_text) (simp_all add: text_session_def editor_ok_def)
    then show ?thesis using a s
      by (intro editor_okI [OF ok]) (auto simp: applySubmittedTabs_def same_browse_def split: prod.splits if_splits)
  qed
  have run: "editor_ok ops P ((clearLine ed)\<lparr>e_session := Some (snd (op_execute ops s (e_line ed)))\<rparr>)"
    if "e_session ed = Some s" for s
    using clear_ok [OF ok] that ts ok line
    by (simp add: editor_ok_def clearLine_def text_session_def)
  show ?thesis
    using s ok tabs run clear_ok [OF ok]
    by (auto simp: submitLine_def Let_def clearLine_def split: if_splits option.splits prod.splits)
qed

section \<open>Every key\<close>

lemma key_input_text: "utf8_text (ev_chars ev) \<Longrightarrow> utf8_text (key_input ev)"
proof -
  have "lead_len (char_byte c) = 1" if "CHR 0x20 \<le> c \<and> c < CHR 0x7F" for c
  proof -
    have "lead_len b = 1 \<or> \<not> unat b < 128" for b
      by (rule all_bytes [of "\<lambda>b. lead_len b = 1 \<or> \<not> unat b < 128"]) (simp add: lead_len_def upt_rec)
    moreover have "(of_char c :: nat) < 128" using that by (simp add: less_char_def)
    ultimately show ?thesis by (metis unat_char_byte)
  qed
  then show "utf8_text (ev_chars ev) \<Longrightarrow> utf8_text (key_input ev)"
    by (auto simp: key_input_def utf8_Nil utf8_char_def intro!: utf8_text_char)
qed

lemma edited_ok: "\<exists>ed'. r = Some ed' \<and> editor_ok ops P ed' \<Longrightarrow> \<exists>x ed'. edited r = Some (x, ed') \<and> editor_ok ops P ed'"
  by (auto simp: edited_def)

lemma moved_ok: "editor_ok ops P ed \<Longrightarrow> \<exists>x ed'. moved b ed = Some (x, ed') \<and> editor_ok ops P ed'"
  by (simp add: moved_def)

lemma onKey_ok:
  assumes ok: "editor_ok ops P ed" and ts: "text_session ops P" and t: "utf8_text (ev_chars ev)"
  shows "\<exists>r ed'. onKey ops ev ed = Some (r, ed') \<and> editor_ok ops P ed'"
proof -
  have brw: "editor_ok ops P (snd (browseHistory ops d ed))" for d
    using browse_ok [OF ok ts, of d] by (metis prod.collapse)
  have sub: "editor_ok ops P (snd (submitLine ops ed))" using submit_ok [OF ok ts] by (metis prod.collapse)
  show ?thesis
  proof (cases "ev_key ev")
    case K_CHARACTER
    have "\<exists>ed'. put_text (key_input ev) (resetHistoryBrowse ed) = Some ed' \<and> editor_ok ops P ed'"
      using put_ok [OF reset_ok [OF ok] key_input_text [OF t]] .
    from edited_ok [OF this] show ?thesis using K_CHARACTER ok by (simp add: onKey_def)
  next
    case K_ENTER
    then show ?thesis using sub by (simp add: onKey_def) (metis prod.collapse)
  next
    case K_BACKSPACE
    then show ?thesis using edited_ok [OF backspace_ok [OF ok]] ok by (simp add: onKey_def)
  next
    case K_TAB
    then show ?thesis using complete_ok [OF ok ts] put_ok [OF ok blank_text(2)] by (auto simp: onKey_def)
  next
    case K_CTRL_C
    then show ?thesis using clear_ok [OF reset_ok [OF ok]] by (simp add: onKey_def Let_def)
  next
    case K_CTRL_U
    then show ?thesis using edited_ok [OF kill_ok [OF ok]] ok by (simp add: onKey_def)
  next
    case K_DELETE
    then show ?thesis using delete_ok [OF ok] ok by (auto simp: onKey_def moved_def)
  next
    case K_UP
    then show ?thesis using brw [of "-1"] ok by (auto simp: onKey_def moved_def split: prod.splits)
  next
    case K_DOWN
    then show ?thesis using brw [of 1] ok by (auto simp: onKey_def moved_def split: prod.splits)
  qed (use move_ok [OF ok] ok in \<open>auto simp: onKey_def moved_def\<close>)
qed

fun type_keys :: "'s session_ops \<Rightarrow> key_event list \<Rightarrow> 's editor \<Rightarrow> 's editor option" where
  "type_keys ops [] ed = Some ed"
| "type_keys ops (ev # evs) ed = (case onKey ops ev ed of None \<Rightarrow> None | Some (_, ed') \<Rightarrow> type_keys ops evs ed')"

lemma type_keys_ok:
  "text_session ops P \<Longrightarrow> editor_ok ops P ed \<Longrightarrow> \<forall>ev \<in> set evs. utf8_text (ev_chars ev)
    \<Longrightarrow> \<exists>ed'. type_keys ops evs ed = Some ed' \<and> editor_ok ops P ed'"
proof (induction evs arbitrary: ed)
  case (Cons ev evs)
  obtain r ed' where "onKey ops ev ed = Some (r, ed')" "editor_ok ops P ed'"
    using onKey_ok [OF Cons.prems(2,1), of ev] Cons.prems(3) by auto
  then show ?case using Cons by simp
qed simp

definition key_press :: "terminal_key \<Rightarrow> key_event" where
  "key_press k = \<lparr>ev_key = k, ev_ch = CHR 0x00, ev_chars = []\<rparr>"

definition accents :: "unit session_ops" where
  "accents = \<lparr>op_history = (\<lambda>_. []), op_complete = (\<lambda>_ _. [[CHR 0xC3, CHR 0xA9], [CHR 0xC3, CHR 0xA8]]),
     op_execute = (\<lambda>s _. ([], s)), op_prompt = (\<lambda>_. [])\<rparr>"

text \<open>Completing a word whose candidates start with different characters that share a lead byte
  inserts that byte alone; moving right over it then puts the cursor behind the end of the line, and the
  next character typed throws.\<close>

theorem completion_splits_character:
  "\<exists>ed. type_keys accents [key_press K_TAB, key_press K_LEFT, key_press K_RIGHT] (new_editor (Some ()) CONTROLLED) = Some ed
    \<and> list_all utf8_char (op_complete accents () [])
    \<and> length (e_line ed) < e_cursor ed
    \<and> onKey accents ((key_press K_CHARACTER)\<lparr>ev_chars := ''x''\<rparr>) ed = None"
proof -
  have b: "char_byte (CHR 0xC3) = 0xC3" "char_byte (CHR 0xA9) = 0xA9" "char_byte (CHR 0xA8) = 0xA8"
    by (simp_all add: char_byte_def)
  let ?e = "\<lambda>c. (new_editor (Some ()) CONTROLLED)\<lparr>e_line := [CHR 0xC3], e_cursor := c\<rparr>"
  have "completeAtCursor accents (new_editor (Some ()) CONTROLLED) = Some
      (no_result\<lparr>r_output := formatMatches [[CHR 0xC3, CHR 0xA9], [CHR 0xC3, CHR 0xA8]], r_redraw := True\<rparr>, ?e 1)"
    by (simp add: completeAtCursor_def new_editor_def accents_def completion_suffix_def commonPrefix_def last_word_def
        put_text_def str_insert_def wants_blank_def)
  moreover have "prev_len (?e 1) = 1" "next_len (?e 0) = 2"
    by (simp_all add: prev_len_def next_len_def prevCharByteLen_def charByteLen_def b lead_len_def Let_def)
  ultimately have "type_keys accents [key_press K_TAB, key_press K_LEFT, key_press K_RIGHT] (new_editor (Some ()) CONTROLLED) = Some (?e 2)"
    by (simp add: onKey_def key_press_def moved_def new_editor_def)
  moreover have "onKey accents ((key_press K_CHARACTER)\<lparr>ev_chars := ''x''\<rparr>) (?e 2) = None"
    by (simp add: onKey_def key_press_def key_input_def edited_def put_text_def str_insert_def resetHistoryBrowse_def)
  ultimately show ?thesis
    by (simp add: accents_def utf8_char_def b lead_len_def is_cont_def)
qed

end
