(* ===== verification/Terminal_Input.thy ===== *)
theory Terminal_Input
  imports Line_Editor
begin

text \<open>
  The receiving side of a terminal connection (\<open>ve/src/service/terminal_service.cpp\<close>): telnet
  negotiation bytes, escape sequences, control bytes and UTF-8 characters are taken out of the byte
  stream and handed to the line editor; what the editor answers is sent back. A connection without
  telnet negotiation starts in cooked mode. What is sent is collected in \<open>c_sent\<close>; \<open>None\<close> is an
  exception of the editor.
\<close>

section \<open>The connection\<close>

record 's term_conn =
  c_editor :: "'s editor"
  c_iac_state :: nat
  c_esc_seq :: string
  c_prev_cr :: bool
  c_controls :: bool
  c_ansi :: bool
  c_utf8_buf :: string
  c_utf8_expected :: nat
  c_sent :: "string list"

definition new_conn :: "'s \<Rightarrow> bool \<Rightarrow> bool \<Rightarrow> 's term_conn" where
  "new_conn session controls ansi =
     \<lparr>c_editor = new_editor (Some session) (if controls then CONTROLLED else COOKED), c_iac_state = 0, c_esc_seq = [],
      c_prev_cr = False, c_controls = controls, c_ansi = ansi, c_utf8_buf = [], c_utf8_expected = 0, c_sent = []\<rparr>"

section \<open>Output\<close>

definition toTcpText :: "string \<Rightarrow> string" where
  "toTcpText t = concat (map (\<lambda>ch. if ch = CHR 0x0A then [CHR 0x0D, CHR 0x0A] else [ch]) t)"

definition renderEditorLine :: "'s session_ops \<Rightarrow> 's editor \<Rightarrow> bool \<Rightarrow> bool \<Rightarrow> string" where
  "renderEditorLine ops ed new_line use_ansi =
     (if new_line then [CHR 0x0D, CHR 0x0A] else [CHR 0x0D]) @ renderedLine ops ed
     @ (if use_ansi
        then CHR 0x1B # ''[K'' @
          (let back_cols = cursorColsToEnd ed
           in if 0 < back_cols then CHR 0x1B # ''['' @ nat_chars back_cols @ ''D'' else [])
        else [])"

definition send :: "string \<Rightarrow> 's term_conn \<Rightarrow> 's term_conn" where
  "send t c = c\<lparr>c_sent := c_sent c @ [t]\<rparr>"

text \<open>\<open>flushResult\<close>: whether the connection is stopped.\<close>

definition flushResult :: "'s session_ops \<Rightarrow> edit_result \<Rightarrow> 's term_conn \<Rightarrow> bool \<times> 's term_conn" where
  "flushResult ops r c =
     (let c1 = (if r_output r \<noteq> [] then send (toTcpText (r_output r)) c else c)
      in if r_disconnect r then (True, c1)
         else (False,
           if r_prompt_on_new_line r then send (renderEditorLine ops (c_editor c1) True (c_ansi c1)) c1
           else if r_redraw r \<and> c_controls c1 then send (renderEditorLine ops (c_editor c1) False (c_ansi c1)) c1
           else c1))"

section \<open>Decoding\<close>

definition consumeTelnetByte :: "u8 \<Rightarrow> nat \<Rightarrow> bool \<times> nat" where
  "consumeTelnetByte ch iac =
     (if iac = 1 then (if 0xFB \<le> ch \<and> ch \<le> 0xFE then (True, 2) else (True, 0))
      else if iac = 2 then (True, 0)
      else if ch = 0xFF then (True, 1) else (False, iac))"

definition esc :: "string \<Rightarrow> string" where "esc s = CHR 0x1B # s"

definition esc_key :: "string \<Rightarrow> terminal_key" where
  "esc_key s =
     (if s = esc ''[A'' then K_UP else if s = esc ''[B'' then K_DOWN
      else if s = esc ''[C'' then K_RIGHT else if s = esc ''[D'' then K_LEFT
      else if s = esc ''[H'' \<or> s = esc ''OH'' then K_HOME
      else if s = esc ''[F'' \<or> s = esc ''OF'' then K_END
      else if s = esc ''[3~'' then K_DELETE else K_NONE)"

text \<open>Whether the byte belongs to an escape sequence, the sequence afterwards, and the key.\<close>

definition decodeEscapedTcpKey :: "u8 \<Rightarrow> string \<Rightarrow> bool \<times> string \<times> terminal_key" where
  "decodeEscapedTcpKey ch s =
     (if s = [] then (if ch = 0x1B then (True, [byte_char ch], K_NONE) else (False, [], K_NONE))
      else
        (let s' = s @ [byte_char ch]
         in if s' = esc ''['' \<or> s' = esc ''O'' then (True, s', K_NONE) else (True, [], esc_key s')))"

definition send_key :: "'s session_ops \<Rightarrow> key_event \<Rightarrow> 's term_conn \<Rightarrow> (bool \<times> 's term_conn) option" where
  "send_key ops ev c =
     (case onKey ops ev (c_editor c) of
        None \<Rightarrow> None | Some (r, ed) \<Rightarrow> Some (flushResult ops r (c\<lparr>c_editor := ed\<rparr>)))"

definition char_event :: "string \<Rightarrow> key_event" where
  "char_event t = \<lparr>ev_key = K_CHARACTER, ev_ch = (if length t = 1 then hd t else CHR 0x00), ev_chars = t\<rparr>"

text \<open>A complete character: typed in controlled mode, appended in cooked mode.\<close>

definition text_input :: "'s session_ops \<Rightarrow> string \<Rightarrow> 's term_conn \<Rightarrow> (bool \<times> 's term_conn) option" where
  "text_input ops t c =
     (if c_controls c then send_key ops (char_event t) c
      else Some (False, c\<lparr>c_editor := fold appendCooked t (c_editor c)\<rparr>))"

definition drop_char :: "'s term_conn \<Rightarrow> 's term_conn" where
  "drop_char c = c\<lparr>c_utf8_buf := [], c_utf8_expected := 0\<rparr>"

definition high_byte :: "'s session_ops \<Rightarrow> u8 \<Rightarrow> 's term_conn \<Rightarrow> (bool \<times> 's term_conn) option" where
  "high_byte ops ch c =
     (if c_utf8_buf c = [] then
        Some (False,
          if ch AND 0xE0 = 0xC0 then c\<lparr>c_utf8_buf := [byte_char ch], c_utf8_expected := 2\<rparr>
          else if ch AND 0xF0 = 0xE0 then c\<lparr>c_utf8_buf := [byte_char ch], c_utf8_expected := 3\<rparr>
          else if ch AND 0xF8 = 0xF0 then c\<lparr>c_utf8_buf := [byte_char ch], c_utf8_expected := 4\<rparr>
          else drop_char c)
      else if ch AND 0xC0 = 0x80 then
        (let buf = c_utf8_buf c @ [byte_char ch]
         in if c_utf8_expected c \<le> length buf then text_input ops buf (drop_char c)
            else Some (False, c\<lparr>c_utf8_buf := buf\<rparr>))
      else Some (False, drop_char c))"

definition plain_byte :: "'s session_ops \<Rightarrow> u8 \<Rightarrow> 's term_conn \<Rightarrow> (bool \<times> 's term_conn) option" where
  "plain_byte ops ch c =
     (if ch = 0x0D \<or> ch = 0x0A then send_key ops (key_press K_ENTER) c
      else if ch = 0x7F \<or> ch = 0x08 then send_key ops (key_press K_BACKSPACE) c
      else if ch = 0x03 then send_key ops (key_press K_CTRL_C) c
      else if ch = 0x04 then send_key ops (key_press K_EOF) c
      else if ch = 0x09 then send_key ops (key_press K_TAB) c
      else if ch = 0x15 then send_key ops (key_press K_CTRL_U) c
      else if 0x20 \<le> ch \<and> ch < 0x7F then text_input ops [byte_char ch] c
      else if 0x80 \<le> ch then high_byte ops ch c
      else Some (False, c))"

definition escaped_byte :: "'s session_ops \<Rightarrow> u8 \<Rightarrow> 's term_conn \<Rightarrow> (bool \<times> 's term_conn) option" where
  "escaped_byte ops ch c =
     (case decodeEscapedTcpKey ch (c_esc_seq c) of
        (True, s, k) \<Rightarrow>
          (let c1 = c\<lparr>c_esc_seq := s\<rparr>
           in if c_controls c1 \<and> k \<noteq> K_NONE then send_key ops (key_press k) c1 else Some (False, c1))
      | (False, s, k) \<Rightarrow>
          (let c1 = c\<lparr>c_esc_seq := s\<rparr> in if c_esc_seq c1 \<noteq> [] then Some (False, c1) else plain_byte ops ch c1))"

text \<open>The body of the loop over the received bytes.\<close>

definition recv_byte :: "'s session_ops \<Rightarrow> u8 \<Rightarrow> 's term_conn \<Rightarrow> (bool \<times> 's term_conn) option" where
  "recv_byte ops ch c =
     (case consumeTelnetByte ch (c_iac_state c) of
        (True, iac) \<Rightarrow>
          (let c1 = c\<lparr>c_iac_state := iac\<rparr>
           in Some (False,
             if \<not> c_controls c1 then c1\<lparr>c_controls := True, c_editor := setMode CONTROLLED (c_editor c1)\<rparr> else c1))
      | (False, iac) \<Rightarrow>
          (let c1 = c\<lparr>c_iac_state := iac\<rparr>
           in if ch = 0x0A \<and> c_prev_cr c1 then Some (False, c1\<lparr>c_prev_cr := False\<rparr>)
              else escaped_byte ops ch (c1\<lparr>c_prev_cr := ch = 0x0D\<rparr>)))"

fun recv_bytes :: "'s session_ops \<Rightarrow> u8 list \<Rightarrow> 's term_conn \<Rightarrow> (bool \<times> 's term_conn) option" where
  "recv_bytes ops [] c = Some (False, c)"
| "recv_bytes ops (b # bs) c =
     (case recv_byte ops b c of
        None \<Rightarrow> None | Some (True, c') \<Rightarrow> Some (True, c') | Some (False, c') \<Rightarrow> recv_bytes ops bs c')"

section \<open>Any bytes\<close>

definition conn_ok :: "'s session_ops \<Rightarrow> ('s \<Rightarrow> bool) \<Rightarrow> 's term_conn \<Rightarrow> bool" where
  "conn_ok ops P c \<longleftrightarrow> editor_ok ops P (c_editor c) \<and> (e_mode (c_editor c) = CONTROLLED) = c_controls c
     \<and> (c_utf8_buf c = [] \<or> 2 \<le> lead_len (char_byte (hd (c_utf8_buf c)))
          \<and> lead_len (char_byte (hd (c_utf8_buf c))) = c_utf8_expected c
          \<and> length (c_utf8_buf c) < c_utf8_expected c \<and> list_all is_cont (tl (c_utf8_buf c)))"

lemma ex_not [simp]: "\<exists>b. \<not> b" "\<exists>b. (b :: bool)"
  by blast+

lemma mode_kept: "onKey ops ev ed = Some (r, ed') \<Longrightarrow> e_mode ed' = e_mode ed"
  by (auto simp: onKey_def edited_def moved_def put_text_def cut_text_def submitLine_def applySubmittedTabs_def
      browseHistory_def show_history_def completeAtCursor_def clearLine_def resetHistoryBrowse_def Let_def
      split: terminal_key.splits if_splits option.splits prod.splits)

lemma flush_fields [simp]:
  "c_editor (snd (flushResult ops r c)) = c_editor c" "c_controls (snd (flushResult ops r c)) = c_controls c"
  "c_utf8_buf (snd (flushResult ops r c)) = c_utf8_buf c" "c_utf8_expected (snd (flushResult ops r c)) = c_utf8_expected c"
  "c_esc_seq (snd (flushResult ops r c)) = c_esc_seq c" "c_iac_state (snd (flushResult ops r c)) = c_iac_state c"
  "fst (flushResult ops r c) = r_disconnect r"
  by (simp_all add: flushResult_def send_def Let_def)

lemma key_chars [simp]: "ev_chars (key_press k) = []" "ev_key (key_press k) = k"
  by (simp_all add: key_press_def)

lemma conn_ok_parts:
  "conn_ok ops P c \<Longrightarrow> editor_ok ops P ed \<Longrightarrow> e_mode ed = e_mode (c_editor c) \<Longrightarrow> conn_ok ops P (c\<lparr>c_editor := ed\<rparr>)"
  by (simp add: conn_ok_def)

lemma send_key_ok:
  assumes ts: "text_session ops P" and c: "conn_ok ops P c" and t: "utf8_text (ev_chars ev)"
  shows "\<exists>b c'. send_key ops ev c = Some (b, c') \<and> conn_ok ops P c'"
proof -
  have "editor_ok ops P (c_editor c)" using c by (simp add: conn_ok_def)
  then obtain r ed where k: "onKey ops ev (c_editor c) = Some (r, ed)" "editor_ok ops P ed"
    using onKey_ok [OF _ ts t] by blast
  have "conn_ok ops P (c\<lparr>c_editor := ed\<rparr>)" using conn_ok_parts [OF c k(2) mode_kept [OF k(1)]] .
  then have "conn_ok ops P (snd (flushResult ops r (c\<lparr>c_editor := ed\<rparr>)))" by (simp add: conn_ok_def)
  then show ?thesis using k(1) by (simp add: send_key_def) (metis prod.collapse)
qed

lemma fold_cooked: "fold appendCooked t ed = ed\<lparr>e_line := e_line ed @ t,
    e_cursor := (if t = [] then e_cursor ed else length (e_line ed) + length t)\<rparr>"
  by (induction t arbitrary: ed) (simp_all add: appendCooked_def)

lemma text_input_ok:
  assumes ts: "text_session ops P" and c: "conn_ok ops P c" and t: "utf8_text t" "t \<noteq> []"
  shows "\<exists>b c'. text_input ops t c = Some (b, c') \<and> conn_ok ops P c'"
proof (cases "c_controls c")
  case True
  then show ?thesis using send_key_ok [OF ts c, of "char_event t"] t by (simp add: text_input_def char_event_def)
next
  case False
  have ok: "editor_ok ops P (c_editor c)" using c by (simp add: conn_ok_def)
  have "utf8_text (e_line (c_editor c) @ t)"
    using between_text [of "e_line (c_editor c)"] ok t utf8_text_append by (auto simp: editor_ok_def)
  then have "editor_ok ops P (fold appendCooked t (c_editor c))" using t
    by (intro editor_okI [OF ok]) (simp_all add: fold_cooked same_browse_def flip: length_append)
  then show ?thesis using False conn_ok_parts [OF c] by (simp add: text_input_def fold_cooked)
qed

lemma drop_char_ok: "conn_ok ops P c \<Longrightarrow> conn_ok ops P (drop_char c)"
  by (simp add: conn_ok_def drop_char_def)

lemma lead_lengths:
  "ch AND 0xE0 = 0xC0 \<Longrightarrow> lead_len ch = 2" "ch AND 0xF0 = 0xE0 \<Longrightarrow> lead_len ch = 3"
  "ch AND 0xF8 = 0xF0 \<Longrightarrow> lead_len ch = 4"
proof -
  have "(ch AND 0xE0 = 0xC0 \<longrightarrow> lead_len ch = 2) \<and> (ch AND 0xF0 = 0xE0 \<longrightarrow> lead_len ch = 3)
    \<and> (ch AND 0xF8 = 0xF0 \<longrightarrow> lead_len ch = 4)"
    by (rule all_bytes [of "\<lambda>ch. (ch AND 0xE0 = 0xC0 \<longrightarrow> lead_len ch = 2) \<and> (ch AND 0xF0 = 0xE0 \<longrightarrow> lead_len ch = 3)
      \<and> (ch AND 0xF8 = 0xF0 \<longrightarrow> lead_len ch = 4)"]) (simp add: lead_len_def upt_rec)
  then show "ch AND 0xE0 = 0xC0 \<Longrightarrow> lead_len ch = 2" "ch AND 0xF0 = 0xE0 \<Longrightarrow> lead_len ch = 3"
    "ch AND 0xF8 = 0xF0 \<Longrightarrow> lead_len ch = 4" by blast+
qed

lemma high_byte_ok:
  assumes ts: "text_session ops P" and c: "conn_ok ops P c"
  shows "\<exists>b c'. high_byte ops ch c = Some (b, c') \<and> conn_ok ops P c'"
proof (cases "c_utf8_buf c")
  case Nil
  then show ?thesis using c lead_lengths [of ch] drop_char_ok [OF c] by (simp add: high_byte_def conn_ok_def)
next
  case (Cons a t)
  let ?buf = "a # t @ [byte_char ch]"
  have a: "lead_len (char_byte a) = c_utf8_expected c" "Suc (length t) < c_utf8_expected c" "list_all is_cont t"
    using c Cons by (auto simp: conn_ok_def)
  show ?thesis
  proof (cases "ch AND 0xC0 = 0x80")
    case True
    then have cont: "list_all is_cont (t @ [byte_char ch])" using a(3) by (simp add: is_cont_def)
    show ?thesis
    proof (cases "c_utf8_expected c \<le> length ?buf")
      case full: True
      then have "utf8_char ?buf" using a cont by (simp add: utf8_char_split)
      then have "\<exists>b c'. text_input ops ?buf (drop_char c) = Some (b, c') \<and> conn_ok ops P c'"
        using text_input_ok [OF ts drop_char_ok [OF c]] by simp
      then show ?thesis using True Cons full by (simp add: high_byte_def Let_def)
    next
      case False
      then show ?thesis using True Cons c a cont by (simp add: high_byte_def conn_ok_def Let_def)
    qed
  next
    case False
    then show ?thesis using Cons drop_char_ok [OF c] by (simp add: high_byte_def)
  qed
qed

lemma printable_ascii: "0x20 \<le> ch \<Longrightarrow> ch < 0x7F \<Longrightarrow> utf8_char [byte_char ch]"
proof -
  have "0x20 \<le> ch \<and> ch < 0x7F \<longrightarrow> lead_len ch = 1"
    by (rule all_bytes [of "\<lambda>ch. 0x20 \<le> ch \<and> ch < 0x7F \<longrightarrow> lead_len ch = 1"]) (simp add: lead_len_def upt_rec)
  then show "0x20 \<le> ch \<Longrightarrow> ch < 0x7F \<Longrightarrow> utf8_char [byte_char ch]" by (simp add: utf8_char_def)
qed

lemma plain_byte_ok:
  assumes ts: "text_session ops P" and c: "conn_ok ops P c"
  shows "\<exists>b c'. plain_byte ops ch c = Some (b, c') \<and> conn_ok ops P c'"
proof -
  have k: "\<exists>b c'. send_key ops (key_press k) c = Some (b, c') \<and> conn_ok ops P c'" for k
    using send_key_ok [OF ts c, of "key_press k"] utf8_Nil by simp
  have t: "0x20 \<le> ch \<Longrightarrow> ch < 0x7F \<Longrightarrow> \<exists>b c'. text_input ops [byte_char ch] c = Some (b, c') \<and> conn_ok ops P c'"
    using text_input_ok [OF ts c, of "[byte_char ch]"] printable_ascii by simp
  show ?thesis using k t c high_byte_ok [OF ts c, of ch] by (simp add: plain_byte_def)
qed

lemma recv_byte_ok:
  assumes ts: "text_session ops P" and c: "conn_ok ops P c"
  shows "\<exists>b c'. recv_byte ops ch c = Some (b, c') \<and> conn_ok ops P c'"
proof -
  have esc: "\<exists>b c'. escaped_byte ops ch d = Some (b, c') \<and> conn_ok ops P c'" if d: "conn_ok ops P d" for d
  proof -
    have "conn_ok ops P (d\<lparr>c_esc_seq := s\<rparr>)" for s using d by (simp add: conn_ok_def)
    note k = send_key_ok [OF ts this, of "key_press _"] plain_byte_ok [OF ts this] this
    show ?thesis using k utf8_Nil
      by (simp add: escaped_byte_def Let_def split: prod.splits bool.splits)
  qed
  have "conn_ok ops P (c\<lparr>c_iac_state := i\<rparr>)" "conn_ok ops P (c\<lparr>c_iac_state := i, c_prev_cr := p\<rparr>)" for i p
    using c by (simp_all add: conn_ok_def)
  moreover have "conn_ok ops P (c\<lparr>c_iac_state := i, c_controls := True, c_editor := setMode CONTROLLED (c_editor c)\<rparr>)" for i
    using c by (auto simp: conn_ok_def editor_ok_def setMode_def split: option.splits)
  ultimately show ?thesis using esc
    by (simp add: recv_byte_def Let_def split: prod.splits bool.splits)
qed

lemma recv_bytes_ok:
  "text_session ops P \<Longrightarrow> conn_ok ops P c \<Longrightarrow> \<exists>b c'. recv_bytes ops bs c = Some (b, c') \<and> conn_ok ops P c'"
proof (induction bs arbitrary: c)
  case (Cons b bs)
  obtain x c' where "recv_byte ops b c = Some (x, c')" "conn_ok ops P c'"
    using recv_byte_ok [OF Cons.prems] by blast
  then show ?case using Cons by (cases x) simp_all
qed simp


lemma new_conn_ok: "P s \<Longrightarrow> conn_ok ops P (new_conn s controls ansi)"
  by (simp add: conn_ok_def new_conn_def new_editor_def editor_ok_def utf8_Nil)


definition echo :: "string list session_ops" where
  "echo = \<lparr>op_history = (\<lambda>h. h), op_complete = (\<lambda>_ _. []), op_execute = (\<lambda>h l. (l, h @ [l])), op_prompt = (\<lambda>_. ''> '')\<rparr>"


section \<open>Typed text\<close>

definition printable :: "string \<Rightarrow> bool" where
  "printable c \<longleftrightarrow> utf8_char c \<and> (length c = 1 \<longrightarrow> CHR 0x20 \<le> hd c \<and> hd c < CHR 0x7F)"

definition idle :: "'s term_conn \<Rightarrow> bool" where
  "idle c \<longleftrightarrow> c_iac_state c = 0 \<and> c_esc_seq c = [] \<and> c_utf8_buf c = [] \<and> e_cursor (c_editor c) = length (e_line (c_editor c))"

lemma high_bytes:
  "2 \<le> lead_len b \<or> b AND 0xC0 = 0x80 \<Longrightarrow> 0x80 \<le> b \<and> b \<noteq> 0xFF"
  "2 \<le> lead_len b \<Longrightarrow> lead_len b = (if b AND 0xE0 = 0xC0 then 2 else if b AND 0xF0 = 0xE0 then 3 else 4)
     \<and> (b AND 0xE0 = 0xC0 \<or> b AND 0xF0 = 0xE0 \<or> b AND 0xF8 = 0xF0)"
proof -
  have "(2 \<le> lead_len b \<or> b AND 0xC0 = 0x80 \<longrightarrow> 0x80 \<le> b \<and> b \<noteq> 0xFF)"
    by (rule all_bytes [of "\<lambda>b. 2 \<le> lead_len b \<or> b AND 0xC0 = 0x80 \<longrightarrow> 0x80 \<le> b \<and> b \<noteq> 0xFF"]) (simp add: lead_len_def upt_rec)
  then show "2 \<le> lead_len b \<or> b AND 0xC0 = 0x80 \<Longrightarrow> 0x80 \<le> b \<and> b \<noteq> 0xFF" by blast
  show "2 \<le> lead_len b \<Longrightarrow> lead_len b = (if b AND 0xE0 = 0xC0 then 2 else if b AND 0xF0 = 0xE0 then 3 else 4)
     \<and> (b AND 0xE0 = 0xC0 \<or> b AND 0xF0 = 0xE0 \<or> b AND 0xF8 = 0xF0)"
    by (auto simp: lead_len_def split: if_splits)
qed

lemma recv_idle:
  assumes "c_iac_state c = 0" "c_esc_seq c = []" "b \<noteq> 0xFF" "b \<noteq> 0x0A" "b \<noteq> 0x1B" "b \<noteq> 0x0D"
  shows "recv_byte ops b c = plain_byte ops b (c\<lparr>c_prev_cr := False\<rparr>)"
proof -
  have "c\<lparr>c_iac_state := 0\<rparr> = c" "c\<lparr>c_prev_cr := False, c_esc_seq := []\<rparr> = c\<lparr>c_prev_cr := False\<rparr>"
    "c\<lparr>c_iac_state := 0, c_prev_cr := False, c_esc_seq := []\<rparr> = c\<lparr>c_prev_cr := False\<rparr>"
    using assms(1,2) by (cases c; simp)+
  then show ?thesis using assms
    by (cases c) (simp add: recv_byte_def consumeTelnetByte_def escaped_byte_def decodeEscapedTcpKey_def Let_def)
qed

lemma recv_high:
  assumes "c_iac_state c = 0" "c_esc_seq c = []" "0x80 \<le> b \<and> b \<noteq> 0xFF"
  shows "recv_byte ops b c = high_byte ops b (c\<lparr>c_prev_cr := False\<rparr>)"
proof -
  have b: "b \<noteq> 0x0D" "b \<noteq> 0x0A" "b \<noteq> 0x7F" "b \<noteq> 0x08" "b \<noteq> 0x03" "b \<noteq> 0x04" "b \<noteq> 0x09" "b \<noteq> 0x15" "\<not> b < 0x7F"
    "b \<noteq> 0x1B" using assms(3) by (auto simp: word_le_nat_alt word_less_nat_alt)
  have "recv_byte ops b c = plain_byte ops b (c\<lparr>c_prev_cr := False\<rparr>)" using assms b by (intro recv_idle) simp_all
  then show ?thesis using b assms(3) by (simp add: plain_byte_def)
qed

lemma text_input_idle:
  assumes "idle c" "t \<noteq> []"
  shows "\<exists>c'. text_input ops t c = Some (False, c') \<and> idle c' \<and> e_line (c_editor c') = e_line (c_editor c) @ t"
proof (cases "c_controls c")
  case True
  define ed where "ed = (resetHistoryBrowse (c_editor c))\<lparr>e_line := e_line (c_editor c) @ t,
      e_cursor := length (e_line (c_editor c)) + length t\<rparr>"
  have "onKey ops (char_event t) (c_editor c)
      = Some (no_result\<lparr>r_redraw := e_mode ed = CONTROLLED\<rparr>, ed)"
    using assms by (simp add: onKey_def char_event_def key_input_def edited_def put_text_def str_insert_def resetHistoryBrowse_def ed_def idle_def)
  then have "text_input ops t c = Some (flushResult ops (no_result\<lparr>r_redraw := e_mode ed = CONTROLLED\<rparr>) (c\<lparr>c_editor := ed\<rparr>))"
    using True by (simp add: text_input_def send_key_def)
  moreover obtain b c' where f: "flushResult ops (no_result\<lparr>r_redraw := e_mode ed = CONTROLLED\<rparr>) (c\<lparr>c_editor := ed\<rparr>) = (b, c')"
    by (cases "flushResult ops (no_result\<lparr>r_redraw := e_mode ed = CONTROLLED\<rparr>) (c\<lparr>c_editor := ed\<rparr>)")
  moreover have "b = False" "c_editor c' = ed" "idle c'"
    using f assms(1) flush_fields [of ops "no_result\<lparr>r_redraw := e_mode ed = CONTROLLED\<rparr>" "c\<lparr>c_editor := ed\<rparr>"]
    by (simp_all add: no_result_def idle_def ed_def)
  ultimately show ?thesis by (simp add: ed_def)
next
  case False
  then show ?thesis using assms by (simp add: text_input_def fold_cooked idle_def)
qed

lemma recv_conts:
  "c_iac_state c = 0 \<Longrightarrow> c_esc_seq c = [] \<Longrightarrow> e_cursor (c_editor c) = length (e_line (c_editor c)) \<Longrightarrow>
    c_utf8_buf c = t \<Longrightarrow> t \<noteq> [] \<Longrightarrow> c_utf8_expected c = length t + length u \<Longrightarrow> list_all is_cont u \<Longrightarrow> u \<noteq> [] \<Longrightarrow>
    \<exists>c'. (\<forall>bs. recv_bytes ops (map char_byte u @ bs) c = recv_bytes ops bs c') \<and> idle c'
      \<and> e_line (c_editor c') = e_line (c_editor c) @ t @ u"
proof (induction u arbitrary: t c)
  case (Cons x u)
  let ?d = "c\<lparr>c_prev_cr := False\<rparr>"
  have x: "char_byte x AND 0xC0 = 0x80" using Cons.prems by (simp add: is_cont_def)
  have r: "recv_byte ops (char_byte x) c = high_byte ops (char_byte x) ?d"
    using Cons.prems high_bytes(1) [of "char_byte x"] x by (intro recv_high) simp_all
  show ?case
  proof (cases "u = []")
    case True
    have "idle (drop_char ?d)" using Cons.prems by (simp add: idle_def drop_char_def)
    then obtain c' where c': "text_input ops (t @ [x]) (drop_char ?d) = Some (False, c')" "idle c'"
      "e_line (c_editor c') = e_line (c_editor c) @ t @ [x]"
      using text_input_idle [of "drop_char ?d" "t @ [x]" ops] by (auto simp: drop_char_def)
    then have "recv_byte ops (char_byte x) c = Some (False, c')"
      using r x Cons.prems True by (simp add: high_byte_def)
    then show ?thesis using c' True by (intro exI [of _ c']) simp
  next
    case False
    let ?e = "?d\<lparr>c_utf8_buf := t @ [x]\<rparr>"
    have "recv_byte ops (char_byte x) c = Some (False, ?e)"
      using r x Cons.prems False by (simp add: high_byte_def Let_def)
    moreover obtain c' where "\<forall>bs. recv_bytes ops (map char_byte u @ bs) ?e = recv_bytes ops bs c'" "idle c'"
      "e_line (c_editor c') = e_line (c_editor c) @ (t @ [x]) @ u"
      using Cons.IH [of ?e "t @ [x]"] Cons.prems False by auto
    ultimately show ?thesis by (intro exI [of _ c']) simp
  qed
qed simp

lemma recv_char:
  assumes i: "idle c" and p: "printable s"
  shows "\<exists>c'. (\<forall>bs. recv_bytes ops (map char_byte s @ bs) c = recv_bytes ops bs c') \<and> idle c'
    \<and> e_line (c_editor c') = e_line (c_editor c) @ s"
proof -
  obtain a t where s: "s = a # t" "lead_len (char_byte a) = Suc (length t)" "list_all is_cont t"
    using p by (auto simp: printable_def utf8_char_split)
  let ?d = "c\<lparr>c_prev_cr := False\<rparr>"
  show ?thesis
  proof (cases "t = []")
    case True
    then have r: "0x20 \<le> char_byte a" "char_byte a < 0x7F"
      using p s by (simp_all add: printable_def less_eq_char_def less_char_def word_le_nat_alt word_less_nat_alt unat_char_byte)
    then have "recv_byte ops (char_byte a) c = plain_byte ops (char_byte a) ?d"
      using i by (intro recv_idle) (auto simp: idle_def word_le_nat_alt word_less_nat_alt)
    moreover have "plain_byte ops (char_byte a) ?d = text_input ops [a] ?d"
      using r by (auto simp: plain_byte_def word_le_nat_alt word_less_nat_alt)
    moreover have "idle ?d" using i by (simp add: idle_def)
    ultimately show ?thesis using text_input_idle [of ?d "[a]" ops] True s(1) by auto
  next
    case False
    then have l: "2 \<le> lead_len (char_byte a)" using s(2) by (cases t) simp_all
    have "recv_byte ops (char_byte a) c = high_byte ops (char_byte a) ?d"
      using high_bytes(1) [of "char_byte a"] l i by (intro recv_high) (simp_all add: idle_def)
    moreover have "high_byte ops (char_byte a) ?d
        = Some (False, ?d\<lparr>c_utf8_buf := [a], c_utf8_expected := lead_len (char_byte a)\<rparr>)"
      using i high_bytes(2) [OF l] by (auto simp: high_byte_def idle_def)
    moreover obtain c' where "\<forall>bs. recv_bytes ops (map char_byte t @ bs)
        (?d\<lparr>c_utf8_buf := [a], c_utf8_expected := lead_len (char_byte a)\<rparr>) = recv_bytes ops bs c'"
      "idle c'" "e_line (c_editor c') = e_line (c_editor c) @ [a] @ t"
      using recv_conts [of "?d\<lparr>c_utf8_buf := [a], c_utf8_expected := lead_len (char_byte a)\<rparr>" "[a]" t ops] i [unfolded idle_def] False s
      by auto
    ultimately show ?thesis using s(1) by (intro exI [of _ c']) simp
  qed
qed

text \<open>Typing text - printable ASCII and multi-byte characters - puts exactly that text on the line,
  with the cursor behind it, in cooked and in controlled mode; \<open>charCount\<close> counts its characters.\<close>

theorem typed_text_arrives:
  assumes "list_all printable cs"
  shows "\<exists>c. recv_bytes ops (map char_byte (concat cs)) (new_conn s controls ansi) = Some (False, c)
    \<and> e_line (c_editor c) = concat cs \<and> e_cursor (c_editor c) = length (concat cs)
    \<and> charCount (e_line (c_editor c)) = length cs"
proof -
  have cnt: "charCount (concat cs) = length cs"
    using assms char_count_loop_chars [of cs "[]" 0] by (simp add: charCount_def printable_def list_all_iff)
  have "\<exists>c'. recv_bytes ops (map char_byte (concat cs)) c = Some (False, c') \<and> idle c'
      \<and> e_line (c_editor c') = e_line (c_editor c) @ concat cs" if "idle c" for c
    using assms that
  proof (induction cs arbitrary: c)
    case (Cons x cs)
    then obtain c' where c': "\<forall>bs. recv_bytes ops (map char_byte x @ bs) c = recv_bytes ops bs c'" "idle c'"
      "e_line (c_editor c') = e_line (c_editor c) @ x" using recv_char [of c x ops] by auto
    then show ?case using Cons.IH [of c'] Cons.prems by simp
  qed simp
  moreover have "idle (new_conn s controls ansi)" by (simp add: idle_def new_conn_def new_editor_def)
  ultimately obtain c' where "recv_bytes ops (map char_byte (concat cs)) (new_conn s controls ansi) = Some (False, c')"
    "idle c'" "e_line (c_editor c') = e_line (c_editor (new_conn s controls ansi)) @ concat cs" by blast
  then show ?thesis using cnt by (simp add: idle_def new_conn_def new_editor_def)
qed

theorem typed_text_arrives_witness:
  "\<exists>c. recv_bytes echo [0x61, 0xC3, 0xA9] (new_conn [] True True) = Some (False, c)
    \<and> e_line (c_editor c) = [CHR ''a'', CHR 0xC3, CHR 0xA9] \<and> charCount (e_line (c_editor c)) = 2"
proof -
  have "list_all printable [[CHR ''a''], [CHR 0xC3, CHR 0xA9]]"
    by (simp add: printable_def utf8_char_def lead_len_def is_cont_def char_byte_def less_char_def less_eq_char_def)
  from typed_text_arrives [OF this, of echo "[]" True True] show ?thesis
    by (simp add: char_byte_def numeral_2_eq_2) blast
qed

text \<open>The sequence a terminal sends for the delete key is not recognised: \<open>ESC [ 3\<close> matches no key, so the
  sequence ends there and the tilde that follows is typed.\<close>

lemma delete_key_types_tilde:
  "\<exists>c. recv_bytes echo [0x1B, 0x5B, 0x33, 0x7E] (new_conn [] True True) = Some (False, c) \<and> e_line (c_editor c) = ''~''"
proof -
  let ?c = "new_conn [] True True :: string list term_conn"
  have e: "(byte_char 0x1B) = CHR 0x1B" "byte_char 0x5B = CHR ''[''" "byte_char 0x33 = CHR ''3''" "byte_char 0x7E = CHR ''~''"
    using byte_char_inverse [of "CHR 0x1B"] byte_char_inverse [of "CHR ''[''"] byte_char_inverse [of "CHR ''3''"]
      byte_char_inverse [of "CHR ''~''"] by (simp_all add: char_byte_def)
  have "recv_bytes echo [0x1B, 0x5B, 0x33, 0x7E] ?c = recv_bytes echo [0x7E] ?c"
    by (simp add: recv_byte_def consumeTelnetByte_def escaped_byte_def decodeEscapedTcpKey_def esc_def esc_key_def e
        new_conn_def Let_def)
  moreover have "char_byte (CHR ''~'') = 0x7E" by (simp add: char_byte_def)
  moreover have "printable ''~''"
    by (simp add: printable_def utf8_char_def lead_len_def char_byte_def less_char_def less_eq_char_def)
  then have "\<exists>c'. (\<forall>bs. recv_bytes echo (map char_byte ''~'' @ bs) ?c = recv_bytes echo bs c') \<and> idle c'
      \<and> e_line (c_editor c') = e_line (c_editor ?c) @ ''~''"
    by (intro recv_char) (simp add: idle_def new_conn_def new_editor_def)
  then obtain c' where "recv_bytes echo (map char_byte ''~'' @ []) ?c = recv_bytes echo [] c'" "e_line (c_editor c') = e_line (c_editor ?c) @ ''~''"
    by blast
  ultimately show ?thesis
    by (intro exI [of _ c']) (simp add: new_conn_def new_editor_def del: recv_bytes.simps(2))
qed

end
