(* ===== verification/Terminal_Client.thy ===== *)
theory Terminal_Client
  imports Terminal_Input
begin

text \<open>
  The keyboard side of the terminal (\<open>ve/src/service/terminal_service.cpp\<close>): reading a key from the bytes
  of a POSIX terminal (\<open>readStdioKey\<close>) and the bytes the TCP client sends for a key
  (\<open>keyEventToBytes\<close>). The input is the list of bytes still to be read; at its end \<open>read\<close> fails.
\<close>

section \<open>Reading a key\<close>

definition bracket_key :: "u8 \<Rightarrow> u8 list \<Rightarrow> key_event \<times> u8 list" where
  "bracket_key seq2 bs =
     (if seq2 = 0x41 then (key_press K_UP, bs)
      else if seq2 = 0x42 then (key_press K_DOWN, bs)
      else if seq2 = 0x43 then (key_press K_RIGHT, bs)
      else if seq2 = 0x44 then (key_press K_LEFT, bs)
      else if seq2 = 0x48 then (key_press K_HOME, bs)
      else if seq2 = 0x46 then (key_press K_END, bs)
      else if seq2 = 0x33 then
        (case bs of [] \<Rightarrow> (key_press K_NONE, []) | tilde # bs' \<Rightarrow> (key_press (if tilde = 0x7E then K_DELETE else K_NONE), bs'))
      else (key_press K_NONE, bs))"

definition escape_key :: "u8 list \<Rightarrow> key_event \<times> u8 list" where
  "escape_key bs =
     (case bs of
        [] \<Rightarrow> (key_press K_NONE, [])
      | seq1 # bs1 \<Rightarrow>
          if seq1 = 0x5B then
            (case bs1 of [] \<Rightarrow> (key_press K_NONE, []) | seq2 # bs2 \<Rightarrow> bracket_key seq2 bs2)
          else (key_press K_NONE, bs1))"

fun read_conts :: "nat \<Rightarrow> string \<Rightarrow> u8 list \<Rightarrow> key_event \<times> u8 list" where
  "read_conts 0 t bs = (char_event t, bs)"
| "read_conts (Suc n) t [] = (key_press K_NONE, [])"
| "read_conts (Suc n) t (b # bs) =
     (if b AND 0xC0 \<noteq> 0x80 then (key_press K_NONE, bs) else read_conts n (t @ [byte_char b]) bs)"

definition readStdioKey :: "u8 list \<Rightarrow> key_event \<times> u8 list" where
  "readStdioKey bs0 =
     (case bs0 of
        [] \<Rightarrow> (key_press K_EOF, [])
      | ch # bs \<Rightarrow>
          if ch = 0x0A \<or> ch = 0x0D then (key_press K_ENTER, bs)
          else if ch = 0x09 then (key_press K_TAB, bs)
          else if ch = 0x7F \<or> ch = 0x08 then (key_press K_BACKSPACE, bs)
          else if ch = 0x03 then (key_press K_CTRL_C, bs)
          else if ch = 0x15 then (key_press K_CTRL_U, bs)
          else if ch = 0x04 then (key_press K_EOF, bs)
          else if ch = 0x1B then escape_key bs
          else if 0x20 \<le> ch \<and> ch < 0x7F then (char_event [byte_char ch], bs)
          else if 0x80 \<le> ch then
            (if ch AND 0xE0 = 0xC0 then read_conts 1 [byte_char ch] bs
             else if ch AND 0xF0 = 0xE0 then read_conts 2 [byte_char ch] bs
             else if ch AND 0xF8 = 0xF0 then read_conts 3 [byte_char ch] bs
             else (key_press K_NONE, bs))
          else (key_press K_NONE, bs))"

section \<open>Sending a key\<close>

definition keyEventToBytes :: "key_event \<Rightarrow> string" where
  "keyEventToBytes ev =
     (case ev_key ev of
        K_CHARACTER \<Rightarrow> key_input ev
      | K_ENTER \<Rightarrow> [CHR 0x0D]
      | K_BACKSPACE \<Rightarrow> [CHR 0x08]
      | K_TAB \<Rightarrow> [CHR 0x09]
      | K_CTRL_C \<Rightarrow> [CHR 0x03]
      | K_CTRL_U \<Rightarrow> [CHR 0x15]
      | K_EOF \<Rightarrow> [CHR 0x04]
      | K_LEFT \<Rightarrow> esc ''[D''
      | K_RIGHT \<Rightarrow> esc ''[C''
      | K_UP \<Rightarrow> esc ''[A''
      | K_DOWN \<Rightarrow> esc ''[B''
      | K_DELETE \<Rightarrow> esc ''[3~''
      | K_HOME \<Rightarrow> esc ''[H''
      | K_END \<Rightarrow> esc ''[F''
      | K_NONE \<Rightarrow> [])"

section \<open>From the keyboard to the editor\<close>

definition quiet :: "'s term_conn \<Rightarrow> bool" where
  "quiet c \<longleftrightarrow> c_iac_state c = 0 \<and> c_esc_seq c = [] \<and> c_utf8_buf c = [] \<and> c_utf8_expected c = 0 \<and> \<not> c_prev_cr c"

text \<open>The events \<open>readStdioKey\<close> makes.\<close>

definition typed :: "key_event \<Rightarrow> bool" where
  "typed ev \<longleftrightarrow> (\<exists>k. ev = key_press k \<and> k \<noteq> K_CHARACTER \<and> k \<noteq> K_NONE) \<or> (\<exists>t. printable t \<and> ev = char_event t)"

lemma recv_last: "recv_bytes ops [b] c = recv_byte ops b c"
  by (auto split: option.splits bool.splits)

lemma recv_multi:
  "c_iac_state c = 0 \<Longrightarrow> c_esc_seq c = [] \<Longrightarrow> c_utf8_buf c = t \<Longrightarrow> t \<noteq> [] \<Longrightarrow> \<not> c_prev_cr c \<Longrightarrow>
    c_utf8_expected c = length t + length u \<Longrightarrow> list_all is_cont u \<Longrightarrow> u \<noteq> [] \<Longrightarrow>
    recv_bytes ops (map char_byte u) c = text_input ops (t @ u) (drop_char c)"
proof (induction u arbitrary: t c)
  case (Cons x u)
  have pc: "c\<lparr>c_prev_cr := False\<rparr> = c" using Cons.prems by (cases c) simp
  have x: "char_byte x AND 0xC0 = 0x80" using Cons.prems by (simp add: is_cont_def)
  have r: "recv_byte ops (char_byte x) c = high_byte ops (char_byte x) c"
    using Cons.prems high_bytes(1) [of "char_byte x"] x recv_high [of c "char_byte x" ops] pc by simp
  show ?case
  proof (cases "u = []")
    case True
    then show ?thesis using r x Cons.prems by (simp add: high_byte_def recv_last del: recv_bytes.simps)
  next
    case False
    have "recv_byte ops (char_byte x) c = Some (False, c\<lparr>c_utf8_buf := t @ [x]\<rparr>)"
      using r x Cons.prems False by (simp add: high_byte_def Let_def)
    then show ?thesis using Cons.IH [of "c\<lparr>c_utf8_buf := t @ [x]\<rparr>" "t @ [x]"] Cons.prems False
      by (simp add: drop_char_def)
  qed
qed simp

lemma quiet_same:
  assumes "quiet c"
  shows "c\<lparr>c_prev_cr := False\<rparr> = c" "c\<lparr>c_utf8_buf := [], c_utf8_expected := 0\<rparr> = c"
  using assms by (cases c; simp add: quiet_def)+

lemma recv_text:
  assumes q: "quiet c" and p: "printable s"
  shows "recv_bytes ops (map char_byte s) c = text_input ops s c"
proof -
  obtain a t where s: "s = a # t" "lead_len (char_byte a) = Suc (length t)" "list_all is_cont t"
    using p by (auto simp: printable_def utf8_char_split)
  note q1 = q [unfolded quiet_def] and q2 = quiet_same(1) [OF q]
  show ?thesis
  proof (cases "t = []")
    case True
    then have r: "0x20 \<le> char_byte a" "char_byte a < 0x7F"
      using p s by (simp_all add: printable_def less_eq_char_def less_char_def word_le_nat_alt word_less_nat_alt unat_char_byte)
    then have "char_byte a \<noteq> 0xFF \<and> char_byte a \<noteq> 0x0A \<and> char_byte a \<noteq> 0x1B \<and> char_byte a \<noteq> 0x0D"
      by (auto simp: word_le_nat_alt word_less_nat_alt)
    then have "recv_byte ops (char_byte a) c = plain_byte ops (char_byte a) c"
      using q1 recv_idle [of c "char_byte a" ops, unfolded q2] by simp
    moreover have "plain_byte ops (char_byte a) c = text_input ops [a] c"
      using r by (auto simp: plain_byte_def word_le_nat_alt word_less_nat_alt)
    ultimately show ?thesis using True s(1) by (simp add: recv_last del: recv_bytes.simps)
  next
    case False
    then have l: "2 \<le> lead_len (char_byte a)" using s(2) by (cases t) simp_all
    let ?d = "c\<lparr>c_utf8_buf := [a], c_utf8_expected := lead_len (char_byte a)\<rparr>"
    have "recv_byte ops (char_byte a) c = high_byte ops (char_byte a) c"
      using high_bytes(1) [of "char_byte a"] l q1 recv_high [of c "char_byte a" ops, unfolded q2] by simp
    moreover have "high_byte ops (char_byte a) c = Some (False, ?d)"
      using q1 high_bytes(2) [OF l] by (auto simp: high_byte_def)
    moreover have "recv_bytes ops (map char_byte t) ?d = text_input ops ([a] @ t) (drop_char ?d)"
      using q1 False s by (intro recv_multi) simp_all
    moreover have "drop_char ?d = c" using quiet_same(2) [OF q] by (cases c) (simp add: drop_char_def)
    ultimately show ?thesis using s(1) by simp
  qed
qed

lemma bytes_of: "char_byte (CHR 0x0D) = 0x0D" "char_byte (CHR 0x08) = 0x08" "char_byte (CHR 0x09) = 0x09"
  "char_byte (CHR 0x03) = 0x03" "char_byte (CHR 0x15) = 0x15" "char_byte (CHR 0x04) = 0x04"
  "map char_byte (esc (CHR ''['' # t)) = 0x1B # 0x5B # map char_byte t"
  by (simp_all add: char_byte_def esc_def)

text \<open>An escape sequence of three bytes.\<close>

lemma recv_escape:
  assumes "quiet c" "c_controls c" "b \<noteq> 0xFF" "b \<noteq> 0x0A" "b \<noteq> 0x0D"
  shows "recv_bytes ops [0x1B, 0x5B, b] c =
    (let k = esc_key (esc [CHR ''['', byte_char b])
     in if k \<noteq> K_NONE then send_key ops (key_press k) c else Some (False, c))"
proof -
  have e: "byte_char 0x1B = CHR 0x1B" "byte_char 0x5B = CHR ''[''"
    using byte_char_inverse [of "CHR 0x1B"] byte_char_inverse [of "CHR ''[''"] by (simp_all add: char_byte_def)
  note q1 = assms(1) [unfolded quiet_def]
  have s: "recv_byte ops 0x1B c = Some (False, c\<lparr>c_esc_seq := esc []\<rparr>)"
    "recv_byte ops 0x5B (c\<lparr>c_esc_seq := esc []\<rparr>) = Some (False, c\<lparr>c_esc_seq := esc ''[''\<rparr>)"
    using q1 by (cases c; simp add: recv_byte_def consumeTelnetByte_def escaped_byte_def decodeEscapedTcpKey_def esc_def e Let_def)+
  moreover have "recv_byte ops b (c\<lparr>c_esc_seq := esc ''[''\<rparr>) = (let k = esc_key (esc [CHR ''['', byte_char b])
     in if k \<noteq> K_NONE then send_key ops (key_press k) c else Some (False, c))"
    using q1 assms(2-) by (cases c) (simp add: recv_byte_def consumeTelnetByte_def escaped_byte_def decodeEscapedTcpKey_def esc_def Let_def)
  ultimately show ?thesis using recv_last [of ops b] by (simp del: recv_bytes.simps add: recv_bytes.simps(2))
qed


lemma recv_bytes_append: "recv_bytes ops xs c = Some (False, c') \<Longrightarrow> recv_bytes ops (xs @ ys) c = recv_bytes ops ys c'"
  by (induction xs arbitrary: c) (auto split: option.splits bool.splits)

lemma recv_control:
  assumes "quiet c" "b \<in> {0x0D, 0x08, 0x09, 0x03, 0x15, 0x04}"
  shows "recv_bytes ops [b] c = plain_byte ops b (c\<lparr>c_prev_cr := b = 0x0D\<rparr>)"
  using assms unfolding recv_last
  by (cases c) (auto simp: quiet_def recv_byte_def consumeTelnetByte_def escaped_byte_def decodeEscapedTcpKey_def Let_def)

lemma read_conts_text:
  "list_all is_cont u \<Longrightarrow> read_conts (length u) t (map char_byte u @ rest) = (char_event (t @ u), rest)"
  by (induction u arbitrary: t) (simp_all add: is_cont_def)

lemma read_char:
  assumes "printable s"
  shows "readStdioKey (map char_byte s @ rest) = (char_event s, rest)"
proof -
  obtain a t where s: "s = a # t" "lead_len (char_byte a) = Suc (length t)" "list_all is_cont t"
    using assms by (auto simp: printable_def utf8_char_split)
  show ?thesis
  proof (cases "t = []")
    case True
    then have "0x20 \<le> char_byte a" "char_byte a < 0x7F"
      using assms s by (simp_all add: printable_def less_eq_char_def less_char_def word_le_nat_alt word_less_nat_alt unat_char_byte)
    then show ?thesis using True s(1) by (auto simp: readStdioKey_def word_le_nat_alt word_less_nat_alt)
  next
    case False
    then have l: "2 \<le> lead_len (char_byte a)" using s(2) by (cases t) simp_all
    have n: "char_byte a \<noteq> 0x0D" "char_byte a \<noteq> 0x0A" "char_byte a \<noteq> 0x7F" "char_byte a \<noteq> 0x08" "char_byte a \<noteq> 0x03"
      "char_byte a \<noteq> 0x04" "char_byte a \<noteq> 0x09" "char_byte a \<noteq> 0x15" "\<not> char_byte a < 0x7F" "char_byte a \<noteq> 0x1B" "0x80 \<le> char_byte a"
      using high_bytes(1) [of "char_byte a"] l by (auto simp: word_le_nat_alt word_less_nat_alt)
    have r: "readStdioKey (char_byte a # bs) = read_conts (length t) [a] bs" for bs
      using n high_bytes(2) [OF l] s(2) by (auto simp: readStdioKey_def numeral_3_eq_3 numeral_2_eq_2 split: if_splits)
    show ?thesis using read_conts_text [OF s(3), of "[a]" rest] by (simp add: s(1) r)
  qed
qed

text \<open>C33: A key read from the terminal arrives. Its bytes are read back as the same key and nothing
  more is consumed; sent to a connection in controlled mode that is not inside a sequence, they have the
  effect of that key on the remote editor - except the delete key, which types a tilde there, because the
  server gives up on the sequence one byte too early.\<close>

theorem keys_cross_the_wire:
  assumes "quiet c" "c_controls c" "typed ev"
  shows "readStdioKey (map char_byte (keyEventToBytes ev) @ rest) = (ev, rest)
    \<and> recv_bytes ops (map char_byte (keyEventToBytes ev)) c
        = (if ev_key ev = K_DELETE then send_key ops (char_event ''~'') c
           else send_key ops ev (c\<lparr>c_prev_cr := ev_key ev = K_ENTER\<rparr>))"
proof (cases "\<exists>t. printable t \<and> ev = char_event t")
  case True
  then obtain t where t: "printable t" "ev = char_event t" by blast
  then have "keyEventToBytes ev = t" "ev_key ev = K_CHARACTER"
    by (auto simp: keyEventToBytes_def char_event_def key_input_def printable_def utf8_char_def)
  then show ?thesis
    using t read_char [OF t(1)] recv_text [OF assms(1) t(1)] assms(2) quiet_same(1) [OF assms(1)]
    by (simp add: text_input_def)
next
  case False
  then obtain k where k: "ev = key_press k" "k \<noteq> K_CHARACTER" "k \<noteq> K_NONE" using assms(3) by (auto simp: typed_def)
  have b: "char_byte (CHR ''A'') = 0x41" "char_byte (CHR ''B'') = 0x42" "char_byte (CHR ''C'') = 0x43" "char_byte (CHR ''D'') = 0x44"
    "char_byte (CHR ''H'') = 0x48" "char_byte (CHR ''F'') = 0x46" "char_byte (CHR ''3'') = 0x33" "char_byte (CHR ''~'') = 0x7E"
    by (simp_all add: char_byte_def)
  have rd: "readStdioKey (map char_byte (keyEventToBytes ev) @ rest) = (ev, rest)"
    using k by (cases k) (simp_all add: keyEventToBytes_def bytes_of b readStdioKey_def escape_key_def bracket_key_def)
  note e = recv_escape [OF assms(1,2), of _ ops]
  have i: "byte_char 0x41 = CHR ''A''" "byte_char 0x42 = CHR ''B''" "byte_char 0x43 = CHR ''C''" "byte_char 0x44 = CHR ''D''"
    "byte_char 0x48 = CHR ''H''" "byte_char 0x46 = CHR ''F''" "byte_char 0x33 = CHR ''3''"
    using b byte_char_inverse by metis+
  have es: "esc_key (esc ''[A'') = K_UP" "esc_key (esc ''[B'') = K_DOWN" "esc_key (esc ''[C'') = K_RIGHT"
    "esc_key (esc ''[D'') = K_LEFT" "esc_key (esc ''[H'') = K_HOME" "esc_key (esc ''[F'') = K_END"
    by (simp_all add: esc_key_def esc_def)
  have "recv_bytes ops ([0x1B, 0x5B, 0x33] @ [0x7E]) c = recv_bytes ops [0x7E] c"
    using e [of "0x33"] i by (intro recv_bytes_append) (simp add: esc_key_def esc_def)
  moreover have "printable ''~''"
    by (simp add: printable_def utf8_char_def lead_len_def b less_char_def less_eq_char_def)
  then have "recv_bytes ops [0x7E] c = send_key ops (char_event ''~'') c"
    using recv_text [OF assms(1), of "''~''" ops] assms(2) b by (simp add: text_input_def del: recv_bytes.simps)
  ultimately have del: "recv_bytes ops [0x1B, 0x5B, 0x33, 0x7E] c = send_key ops (char_event ''~'') c" by simp
  have "recv_bytes ops (map char_byte (keyEventToBytes ev)) c
        = (if k = K_DELETE then send_key ops (char_event ''~'') c else send_key ops ev (c\<lparr>c_prev_cr := k = K_ENTER\<rparr>))"
    using k del e i quiet_same(1) [OF assms(1)]
    by (cases k) (simp_all add: keyEventToBytes_def bytes_of b es recv_control [OF assms(1)] plain_byte_def
        del: recv_bytes.simps)
  then show ?thesis using rd k(1) by simp
qed

theorem keys_cross_the_wire_witness:
  "readStdioKey [0x1B, 0x5B, 0x44, 0x61] = (key_press K_LEFT, [0x61])
   \<and> recv_bytes echo [0x1B, 0x5B, 0x44] (new_conn [] True True) = send_key echo (key_press K_LEFT) (new_conn [] True True)"
proof -
  have b: "map char_byte (keyEventToBytes (key_press K_LEFT)) = [0x1B, 0x5B, 0x44]"
    by (simp add: keyEventToBytes_def bytes_of char_byte_def)
  have q: "quiet (new_conn [] True True)" "(new_conn [] True True)\<lparr>c_prev_cr := False\<rparr> = new_conn [] True True"
    by (simp_all add: quiet_def new_conn_def)
  then show ?thesis
    using keys_cross_the_wire [OF q(1), of "key_press K_LEFT" "[0x61]" echo] b
    by (simp add: typed_def new_conn_def del: recv_bytes.simps) blast
qed

end
