(* ===== verification/Json_Text.thy ===== *)
theory Json_Text
  imports Json
begin

text \<open>
  JSON text (RFC 8259): a grammar, and a reader for it that stands for a conforming parser. \<open>json_text d t\<close>
  says that \<open>t\<close> is a JSON value with the document \<open>d\<close>; surrogate pairs written as two escapes are left
  out. The writers of \<open>Json\<close> produce texts of this grammar, whatever whitespace they put in.
\<close>

section \<open>Characters\<close>

definition scalar_value :: "u32 \<Rightarrow> bool" where
  "scalar_value cp \<longleftrightarrow> cp < 0x110000 \<and> \<not> (0xD800 \<le> cp \<and> cp < 0xE000)"

inductive utf8_string :: "string \<Rightarrow> bool" where
  utf8_empty: "utf8_string []"
| utf8_code: "scalar_value cp \<Longrightarrow> utf8_string s \<Longrightarrow> utf8_string (encode_utf8 cp @ s)"

definition is_ws :: "char \<Rightarrow> bool" where
  "is_ws c \<longleftrightarrow> c = CHR '' '' \<or> c = CHR 0x09 \<or> c = CHR 0x0A \<or> c = CHR 0x0D"

definition hex_val :: "char \<Rightarrow> nat option" where
  "hex_val c =
     (if is_digit c then Some (of_char c - 48)
      else if CHR ''a'' \<le> c \<and> c \<le> CHR ''f'' then Some (of_char c - 87)
      else if CHR ''A'' \<le> c \<and> c \<le> CHR ''F'' then Some (of_char c - 55)
      else None)"

definition hex4 :: "char \<Rightarrow> char \<Rightarrow> char \<Rightarrow> char \<Rightarrow> u32 option" where
  "hex4 a b c d =
     (case (hex_val a, hex_val b, hex_val c, hex_val d) of
        (Some w, Some x, Some y, Some z) \<Rightarrow> Some (of_nat (((w * 16 + x) * 16 + y) * 16 + z))
      | _ \<Rightarrow> None)"

definition short_escape :: "char \<Rightarrow> char option" where
  "short_escape e =
     (if e = CHR 0x22 \<or> e = CHR 0x5C \<or> e = CHR ''/'' then Some e
      else if e = CHR ''b'' then Some (CHR 0x08)
      else if e = CHR ''f'' then Some (CHR 0x0C)
      else if e = CHR ''n'' then Some (CHR 0x0A)
      else if e = CHR ''r'' then Some (CHR 0x0D)
      else if e = CHR ''t'' then Some (CHR 0x09)
      else None)"

section \<open>The grammar\<close>

text \<open>The body of a string literal and the string it denotes.\<close>

inductive json_body :: "string \<Rightarrow> string \<Rightarrow> bool" where
  body_end: "json_body [] []"
| body_plain: "scalar_value cp \<Longrightarrow> 0x20 \<le> cp \<Longrightarrow> cp \<noteq> 0x22 \<Longrightarrow> cp \<noteq> 0x5C \<Longrightarrow> json_body s b
    \<Longrightarrow> json_body (encode_utf8 cp @ s) (encode_utf8 cp @ b)"
| body_short: "short_escape e = Some c \<Longrightarrow> json_body s b \<Longrightarrow> json_body (c # s) (CHR 0x5C # e # b)"
| body_hex: "hex4 h1 h2 h3 h4 = Some cp \<Longrightarrow> scalar_value cp \<Longrightarrow> json_body s b
    \<Longrightarrow> json_body (encode_utf8 cp @ s) (CHR 0x5C # CHR ''u'' # h1 # h2 # h3 # h4 # b)"

definition json_string :: "string \<Rightarrow> string \<Rightarrow> bool" where
  "json_string s t \<longleftrightarrow> (\<exists>b. json_body s b \<and> t = DQUOTE # b @ [DQUOTE])"

text \<open>Numbers: sign, integer part, fraction, exponent.\<close>

definition digits :: "string \<Rightarrow> bool" where
  "digits s \<longleftrightarrow> s \<noteq> [] \<and> list_all is_digit s"

record number =
  n_neg :: bool
  n_int :: string
  n_frac :: "string option"
  n_exp :: "(char \<times> string \<times> string) option"

definition number_ok :: "number \<Rightarrow> bool" where
  "number_ok x \<longleftrightarrow> digits (n_int x) \<and> (hd (n_int x) = CHR ''0'' \<longrightarrow> length (n_int x) = 1)
     \<and> (case n_frac x of None \<Rightarrow> True | Some f \<Rightarrow> digits f)
     \<and> (case n_exp x of None \<Rightarrow> True
        | Some (e, sg, ds) \<Rightarrow> (e = CHR ''e'' \<or> e = CHR ''E'') \<and> (sg = [] \<or> sg = ''+'' \<or> sg = ''-'') \<and> digits ds)"

definition number_text :: "number \<Rightarrow> string" where
  "number_text x = (if n_neg x then ''-'' else []) @ n_int x
     @ (case n_frac x of None \<Rightarrow> [] | Some f \<Rightarrow> CHR ''.'' # f)
     @ (case n_exp x of None \<Rightarrow> [] | Some (e, sg, ds) \<Rightarrow> e # sg @ ds)"

text \<open>Integers that fit 64 bits are integers, everything else a double.\<close>

definition number_dom :: "number \<Rightarrow> dom" where
  "number_dom x =
     (if n_frac x = None \<and> n_exp x = None
      then (case stoll (number_text x) of Some i \<Rightarrow> DInt (of_int i) | None \<Rightarrow> DThrows)
      else (case strtod (number_text x) of
              Some (d, _) \<Rightarrow> if dbl_finite d then DDouble d else DThrows | None \<Rightarrow> DThrows))"

inductive json_text :: "dom \<Rightarrow> string \<Rightarrow> bool"
  and json_elems :: "dom list \<Rightarrow> string \<Rightarrow> bool"
  and json_fields :: "(string \<times> dom) list \<Rightarrow> string \<Rightarrow> bool" where
  text_null: "json_text DNull ''null''"
| text_true: "json_text (DBool True) ''true''"
| text_false: "json_text (DBool False) ''false''"
| text_number: "number_ok x \<Longrightarrow> json_text (number_dom x) (number_text x)"
| text_string: "json_string s t \<Longrightarrow> json_text (DStr s) t"
| text_empty_array: "list_all is_ws w \<Longrightarrow> json_text (DArr []) (''['' @ w @ '']'')"
| text_array: "json_elems ds t \<Longrightarrow> json_text (DArr ds) (''['' @ t @ '']'')"
| text_empty_object: "list_all is_ws w \<Longrightarrow> json_text (DObj []) (''{'' @ w @ ''}'')"
| text_object: "json_fields fs t \<Longrightarrow> json_text (DObj fs) (''{'' @ t @ ''}'')"
| elems_one: "list_all is_ws u \<Longrightarrow> json_text d t \<Longrightarrow> list_all is_ws w \<Longrightarrow> json_elems [d] (u @ t @ w)"
| elems_more: "list_all is_ws u \<Longrightarrow> json_text d t \<Longrightarrow> list_all is_ws w \<Longrightarrow> json_elems ds r
    \<Longrightarrow> json_elems (d # ds) (u @ t @ w @ '','' @ r)"
| fields_one: "list_all is_ws u \<Longrightarrow> json_string k s \<Longrightarrow> list_all is_ws x \<Longrightarrow> list_all is_ws y \<Longrightarrow> json_text d t
    \<Longrightarrow> list_all is_ws w \<Longrightarrow> json_fields [(k, d)] (u @ s @ x @ '':'' @ y @ t @ w)"
| fields_more: "list_all is_ws u \<Longrightarrow> json_string k s \<Longrightarrow> list_all is_ws x \<Longrightarrow> list_all is_ws y \<Longrightarrow> json_text d t
    \<Longrightarrow> list_all is_ws w \<Longrightarrow> json_fields fs r
    \<Longrightarrow> json_fields ((k, d) # fs) (u @ s @ x @ '':'' @ y @ t @ w @ '','' @ r)"

fun dom_depth :: "dom \<Rightarrow> nat" where
  "dom_depth (DArr ds) = Suc (fold max (map dom_depth ds) 0)"
| "dom_depth (DObj fs) = Suc (fold max (map (\<lambda>(k, d). dom_depth d) fs) 0)"
| "dom_depth d = 0"

fun is_scalar :: "dom \<Rightarrow> bool" where
  "is_scalar (DArr _) = False" | "is_scalar (DObj _) = False" | "is_scalar d = True"

text \<open>What the code relies on in the parser: a text that is JSON, within the parser's limits on nesting
  and size, is presented as its document, and a scalar is refused by \<open>get_value\<close>.\<close>

definition within_limits :: "dom \<Rightarrow> string \<Rightarrow> bool" where
  "within_limits d t \<longleftrightarrow> dom_depth d < 1024 \<and> length t < 2 ^ 32 - 64"

locale json_parser =
  fixes simd :: "string \<Rightarrow> json_doc"
  assumes reads: "json_text d t \<Longrightarrow> list_all is_ws u \<Longrightarrow> list_all is_ws w \<Longrightarrow> within_limits d (u @ t @ w)
    \<Longrightarrow> simd (u @ t @ w) = (if is_scalar d then Doc_Scalar else Doc_Value d)"

section \<open>A reader\<close>

abbreviation skip_ws :: "string \<Rightarrow> string" where
  "skip_ws \<equiv> dropWhile is_ws"

fun read_body :: "string \<Rightarrow> (string \<times> string) option" where
  "read_body [] = None"
| "read_body (c # s) =
     (if c = DQUOTE then Some ([], s)
      else if c \<noteq> CHR 0x5C then
        (if char_byte c < 0x20 then None else map_option (\<lambda>(x, r). (c # x, r)) (read_body s))
      else
        (case s of
           [] \<Rightarrow> None
         | e # s1 \<Rightarrow>
             (case short_escape e of
                Some c' \<Rightarrow> map_option (\<lambda>(x, r). (c' # x, r)) (read_body s1)
              | None \<Rightarrow>
                  (case s1 of
                     h1 # h2 # h3 # h4 # s2 \<Rightarrow>
                       (case (if e = CHR ''u'' then hex4 h1 h2 h3 h4 else None) of
                          None \<Rightarrow> None
                        | Some cp \<Rightarrow> map_option (\<lambda>(x, r). (encode_utf8 cp @ x, r)) (read_body s2))
                   | _ \<Rightarrow> None))))"

definition read_fraction :: "string \<Rightarrow> (string option \<times> string) option" where
  "read_fraction s =
     (if take 1 s = ''.'' then
        (let f = takeWhile is_digit (tl s) in if f = [] then None else Some (Some f, drop (length f) (tl s)))
      else Some (None, s))"

definition read_exponent :: "string \<Rightarrow> ((char \<times> string \<times> string) option \<times> string) option" where
  "read_exponent s =
     (case s of
        [] \<Rightarrow> Some (None, [])
      | e # r \<Rightarrow>
          if e = CHR ''e'' \<or> e = CHR ''E'' then
            (let sg = (if take 1 r = ''+'' \<or> take 1 r = ''-'' then take 1 r else []);
                 ds = takeWhile is_digit (drop (length sg) r)
             in if ds = [] then None else Some (Some (e, sg, ds), drop (length sg + length ds) r))
          else Some (None, s))"

definition read_number :: "string \<Rightarrow> (dom \<times> string) option" where
  "read_number s =
     (let neg = (take 1 s = ''-''); s1 = (if neg then tl s else s); ip = takeWhile is_digit s1
      in if ip = [] \<or> (hd ip = CHR ''0'' \<and> length ip \<noteq> 1) then None
         else
           (case read_fraction (drop (length ip) s1) of
              None \<Rightarrow> None
            | Some (fp, s2) \<Rightarrow>
                (case read_exponent s2 of
                   None \<Rightarrow> None
                 | Some (ex, r) \<Rightarrow>
                     Some (number_dom \<lparr>n_neg = neg, n_int = ip, n_frac = fp, n_exp = ex\<rparr>, r))))"

fun read_value :: "nat \<Rightarrow> string \<Rightarrow> (dom \<times> string) option"
  and read_elems :: "nat \<Rightarrow> string \<Rightarrow> (dom list \<times> string) option"
  and read_fields :: "nat \<Rightarrow> string \<Rightarrow> ((string \<times> dom) list \<times> string) option" where
  "read_value 0 s = None"
| "read_value (Suc fuel) s =
     (let t = skip_ws s
      in if t = [] then None
         else if take 4 t = ''null'' then Some (DNull, drop 4 t)
         else if take 4 t = ''true'' then Some (DBool True, drop 4 t)
         else if take 5 t = ''false'' then Some (DBool False, drop 5 t)
         else if hd t = DQUOTE then map_option (\<lambda>(x, r). (DStr x, r)) (read_body (tl t))
         else if hd t = CHR ''['' then
           (if take 1 (skip_ws (tl t)) = '']'' then Some (DArr [], tl (skip_ws (tl t)))
            else map_option (\<lambda>(ds, r). (DArr ds, r)) (read_elems fuel (tl t)))
         else if hd t = CHR ''{'' then
           (if take 1 (skip_ws (tl t)) = ''}'' then Some (DObj [], tl (skip_ws (tl t)))
            else map_option (\<lambda>(fs, r). (DObj fs, r)) (read_fields fuel (tl t)))
         else read_number t)"
| "read_elems 0 s = None"
| "read_elems (Suc fuel) s =
     (case read_value fuel s of
        None \<Rightarrow> None
      | Some (d, r) \<Rightarrow>
          (case skip_ws r of
             [] \<Rightarrow> None
           | c # r1 \<Rightarrow>
               if c = CHR '']'' then Some ([d], r1)
               else if c = CHR '','' then map_option (\<lambda>(ds, r2). (d # ds, r2)) (read_elems fuel r1)
               else None))"
| "read_fields 0 s = None"
| "read_fields (Suc fuel) s =
     (if take 1 (skip_ws s) \<noteq> [DQUOTE] then None
      else
        (case read_body (tl (skip_ws s)) of
           None \<Rightarrow> None
         | Some (k, r) \<Rightarrow>
             if take 1 (skip_ws r) \<noteq> '':'' then None
             else
               (case read_value fuel (tl (skip_ws r)) of
                  None \<Rightarrow> None
                | Some (d, r1) \<Rightarrow>
                    (case skip_ws r1 of
                       [] \<Rightarrow> None
                     | c # r2 \<Rightarrow>
                         if c = CHR ''}'' then Some ([(k, d)], r2)
                         else if c = CHR '','' then map_option (\<lambda>(fs, r3). ((k, d) # fs, r3)) (read_fields fuel r2)
                         else None))))"

definition read_document :: "string \<Rightarrow> json_doc" where
  "read_document t =
     (case read_value (length t) t of
        None \<Rightarrow> Doc_Error
      | Some (d, r) \<Rightarrow> if skip_ws r \<noteq> [] then Doc_Error else if is_scalar d then Doc_Scalar else Doc_Value d)"

section \<open>Strings are read\<close>

definition plain_char :: "char \<Rightarrow> bool" where
  "plain_char c \<longleftrightarrow> 0x20 \<le> char_byte c \<and> c \<noteq> CHR 0x22 \<and> c \<noteq> CHR 0x5C"

lemma or_ge_80: "0x80 \<le> (0x80 OR x :: u8)" "0x80 \<le> (0xC0 OR x :: u8)" "0x80 \<le> (0xE0 OR x :: u8)" "0x80 \<le> (0xF0 OR x :: u8)"
  using le_word_or2 [of "0x80 :: u8" x] le_word_or2 [of "0xC0 :: u8" x] le_word_or2 [of "0xE0 :: u8" x]
    le_word_or2 [of "0xF0 :: u8" x] by (auto intro: order_trans [rotated])

lemma encode_high: "\<not> cp < 0x80 \<Longrightarrow> list_all (\<lambda>c. 0x80 \<le> char_byte c) (encode_utf8 cp)"
  by (simp add: encode_utf8_def or_ge_80)

lemma encode_ascii: "cp < 0x80 \<Longrightarrow> encode_utf8 cp = [byte_char (ucast cp)]"
  by (simp add: encode_utf8_def)

lemma char_bytes: "char_byte (CHR 0x22) = 0x22" "char_byte (CHR 0x5C) = 0x5C" "char_byte (CHR 0x08) = 0x08"
  "char_byte (CHR 0x0C) = 0x0C" "char_byte (CHR 0x0A) = 0x0A" "char_byte (CHR 0x0D) = 0x0D" "char_byte (CHR 0x09) = 0x09"
  by (simp_all add: char_byte_def)

lemma byte_char_eq: "byte_char b = c \<longleftrightarrow> b = char_byte c"
  by auto

lemma high_char: "0x80 \<le> char_byte c \<Longrightarrow> plain_char c \<and> escape_char c = [c]"
proof -
  assume c: "0x80 \<le> char_byte c"
  have ne: "c \<noteq> d" if "char_byte d < 0x80" for d using that c by auto
  have big: "\<not> char_byte c < 0x20" "0x20 \<le> char_byte c"
    using order.strict_trans1 [OF c, of "0x20"] order_trans [OF _ c, of "0x20"] by simp_all
  show ?thesis using ne [of "CHR 0x22"] ne [of "CHR 0x5C"] ne [of "CHR 0x08"] ne [of "CHR 0x0C"] ne [of "CHR 0x0A"]
      ne [of "CHR 0x0D"] ne [of "CHR 0x09"] big
    by (simp add: plain_char_def escape_char_def char_bytes)
qed

lemma below_128:
  assumes "cp < 0x80"
  shows "unat (ucast cp :: u8) = unat cp" "(ucast (ucast cp :: u8) :: u32) = cp"
proof -
  have "take_bit 8 cp = cp" using small_word [of cp 8] order.strict_trans [OF assms, of "0x100"] by simp
  then show "unat (ucast cp :: u8) = unat cp" by (metis unsigned_take_bit_eq unsigned_ucast_eq len_bit0 len_num1 mult.right_neutral mult_2 numeral_Bit0)
  have "(ucast (ucast cp :: u8) :: u32) = take_bit 8 cp" by (rule bit_word_eqI) (auto simp: bit_simps)
  then show "(ucast (ucast cp :: u8) :: u32) = cp" using \<open>take_bit 8 cp = cp\<close> by simp
qed

lemma plain_encode: "0x20 \<le> cp \<Longrightarrow> cp \<noteq> 0x22 \<Longrightarrow> cp \<noteq> 0x5C \<Longrightarrow> list_all plain_char (encode_utf8 cp)"
proof (cases "cp < 0x80")
  case True
  assume cp: "0x20 \<le> cp" "cp \<noteq> 0x22" "cp \<noteq> 0x5C"
  have "0x20 \<le> (ucast cp :: u8)" using cp(1) below_128(1) [OF True] by (simp add: word_le_nat_alt)
  moreover have "(ucast cp :: u8) \<noteq> 0x22" "(ucast cp :: u8) \<noteq> 0x5C"
    using below_128(2) [OF True] cp(2,3) by auto
  ultimately show ?thesis by (simp add: encode_ascii [OF True] plain_char_def byte_char_eq char_bytes)
next
  case False
  then show ?thesis using encode_high [OF False] high_char by (auto simp: list_all_iff)
qed

lemma read_plain: "list_all plain_char u \<Longrightarrow> read_body (u @ r) = map_option (\<lambda>(x, t). (u @ x, t)) (read_body r)"
proof (induction u)
  case Nil
  then show ?case by (cases "read_body r") auto
next
  case (Cons c u)
  then show ?case by (cases "read_body r") (auto simp: plain_char_def DQUOTE_def)
qed

lemma not_short_u: "short_escape (CHR ''u'') = None"
  by (simp add: short_escape_def)

lemma body_read: "json_body s b \<Longrightarrow> read_body (b @ DQUOTE # r) = Some (s, r)"
proof (induction rule: json_body.induct)
  case (body_plain cp s b)
  then show ?case using plain_encode [of cp] read_plain by simp
qed (simp_all add: DQUOTE_def not_short_u)

lemma string_read: "json_string s t \<Longrightarrow> \<exists>b. t = DQUOTE # b \<and> (\<forall>r. read_body (b @ r) = Some (s, r))"
  using body_read by (auto simp: json_string_def)

section \<open>Strings are written\<close>

lemma escape_append: "json_escape (s @ t) = json_escape s @ json_escape t"
  by (simp add: json_escape_def)

lemma escape_high: "list_all (\<lambda>c. 0x80 \<le> char_byte c) u \<Longrightarrow> json_escape u = u"
  by (induction u) (simp_all add: json_escape_def high_char)

lemma control_hex: "b < 0x20 \<Longrightarrow> \<exists>h l. hex_byte b = [h, l] \<and> hex4 (CHR ''0'') (CHR ''0'') h l = Some (ucast b)"
proof -
  let ?P = "\<lambda>b :: u8. \<exists>h l. hex_byte b = [h, l] \<and> hex4 (CHR ''0'') (CHR ''0'') h l = Some (ucast b)"
  assume "b < 0x20"
  then have "unat b < 32" by (simp add: word_less_nat_alt)
  then have "unat b \<in> set [0..<0x20]" by simp
  moreover have "b = of_nat (unat b)" by simp
  ultimately have "b \<in> set (map of_nat [0..<0x20])" by (metis image_eqI list.set_map)
  moreover have "list_all ?P (map of_nat [0..<0x20])"
    by (simp add: upt_rec hex_byte_def hex4_def hex_digit_def hex_val_def is_digit_def less_eq_char_def)
  ultimately show "?P b" by (simp only: list_all_iff)
qed

lemma escape_code:
  assumes cp: "scalar_value cp" and b: "json_body s b"
  shows "json_body (encode_utf8 cp @ s) (json_escape (encode_utf8 cp) @ b)"
proof (cases "cp < 0x80")
  case True
  define c where "c = byte_char (ucast cp)"
  have e: "encode_utf8 cp = [c]" "char_byte c = ucast cp" using encode_ascii [OF True] by (simp_all add: c_def)
  have esc: "json_escape (encode_utf8 cp) = escape_char c" by (simp add: e json_escape_def)
  consider e' where "escape_char c = [CHR 0x5C, e']" "short_escape e' = Some c"
    | "char_byte c < 0x20" "escape_char c = [CHR 0x5C, CHR ''u'', CHR ''0'', CHR ''0''] @ hex_byte (char_byte c)"
    | "plain_char c" "escape_char c = [c]"
    by (cases "c = CHR 0x22 \<or> c = CHR 0x5C \<or> c = CHR 0x08 \<or> c = CHR 0x0C \<or> c = CHR 0x0A \<or> c = CHR 0x0D \<or> c = CHR 0x09";
        cases "char_byte c < 0x20") (auto simp: escape_char_def short_escape_def plain_char_def not_less)
  then show ?thesis
  proof cases
    case 1
    then show ?thesis using body_short [OF 1(2) b] by (simp add: esc) (simp add: e)
  next
    case 2
    obtain h l where hl: "hex_byte (char_byte c) = [h, l]" "hex4 (CHR ''0'') (CHR ''0'') h l = Some cp"
      using control_hex [OF 2(1)] below_128(2) [OF True] by (auto simp: e(2))
    then show ?thesis using body_hex [OF hl(2) cp b] by (simp add: esc 2)
  next
    case 3
    have "unat (0x20 :: u8) \<le> unat (char_byte c)" using 3(1) by (simp add: plain_char_def word_le_nat_alt)
    then have "0x20 \<le> cp" using below_128(1) [OF True] by (simp add: e(2) word_le_nat_alt)
    moreover have "cp \<noteq> 0x22" "cp \<noteq> 0x5C" using 3(1) by (auto simp: plain_char_def c_def byte_char_eq char_bytes)
    ultimately show ?thesis using body_plain [OF cp _ _ _ b] by (simp add: esc 3(2)) (simp add: e)
  qed
next
  case False
  have "0x80 \<le> cp" using False by simp
  then have "0x20 \<le> cp" "cp \<noteq> 0x22" "cp \<noteq> 0x5C" using order_trans [of "0x20" "0x80" cp] False by auto
  then show ?thesis using body_plain [OF cp _ _ _ b] escape_high [OF encode_high [OF False]] by simp
qed

lemma escape_body: "utf8_string s \<Longrightarrow> json_body s (json_escape s)"
proof (induction rule: utf8_string.induct)
  case utf8_empty
  show ?case by (simp add: json_escape_def body_end)
qed (simp add: escape_append escape_code)

lemma quoted_string: "utf8_string s \<Longrightarrow> json_string s (quoted s)"
  using escape_body by (auto simp: json_string_def quoted_def)

lemma utf8_append: "utf8_string s \<Longrightarrow> utf8_string t \<Longrightarrow> utf8_string (s @ t)"
  by (induction rule: utf8_string.induct) (auto intro: utf8_string.intros)

lemma ascii_string: "list_all (\<lambda>c. char_byte c < 0x80) s \<Longrightarrow> utf8_string s"
proof (induction s)
  case (Cons c s)
  define cp where "cp = (ucast (char_byte c) :: u32)"
  have "unat (char_byte c) < 256" using unsigned_less [of "char_byte c"] by simp
  then have "unat (char_byte c) < 2 ^ 32" by simp
  then have u: "unat cp = unat (char_byte c)" by (simp add: cp_def unsigned_ucast_eq take_bit_nat_eq_self_iff)
  then have cp: "cp < 0x80" using Cons.prems by (simp add: word_less_nat_alt)
  have "(ucast cp :: u8) = char_byte c" by (simp add: word_unat_eq_iff below_128(1) [OF cp] u)
  then have "encode_utf8 cp = [c]" using encode_ascii [OF cp] by simp
  moreover have "scalar_value cp"
    using order.strict_trans [OF cp, of "0x110000"] order.strict_trans2 [OF cp, of "0xD800"] by (auto simp: scalar_value_def)
  ultimately show ?case using utf8_code [of cp s] Cons by simp
qed (simp add: utf8_empty)

section \<open>Numbers are written\<close>

lemma nat_chars_ne: "nat_chars n \<noteq> []"
  by (subst nat_chars.simps) simp

lemma nat_chars_all: "list_all is_digit (nat_chars n)"
  using nat_chars_digits by (simp add: list_all_iff)

lemma nat_chars_head: "hd (nat_chars n) = CHR ''0'' \<Longrightarrow> n = 0"
proof (induction n rule: nat_chars.induct)
  case (1 n)
  show ?case
  proof (cases "n < 10")
    case True
    then have "digit_char n = CHR ''0''" using 1(2) by (subst (asm) nat_chars.simps) simp
    then have "digit_val (digit_char n) = 0" by (simp add: digit_val_def)
    then show ?thesis using True by (simp add: digit_char_props)
  next
    case False
    then have "hd (nat_chars n) = hd (nat_chars (n div 10))"
      by (subst nat_chars.simps) (simp add: nat_chars_ne)
    then show ?thesis using 1 False by simp
  qed
qed

lemma nat_chars_zero: "nat_chars 0 = ''0''"
  by code_simp

lemma nat_chars_int: "digits (nat_chars n) \<and> (hd (nat_chars n) = CHR ''0'' \<longrightarrow> length (nat_chars n) = 1)"
  using nat_chars_ne nat_chars_all nat_chars_head [of n] nat_chars_zero by (auto simp: digits_def)


lemma json_int: "json_text (DInt i) (int_chars (sint i))"
proof -
  let ?x = "\<lparr>n_neg = sint i < 0, n_int = nat_chars (nat \<bar>sint i\<bar>), n_frac = None, n_exp = None\<rparr>"
  have "number_text ?x = int_chars (sint i)" by (simp add: number_text_def int_chars_def)
  moreover have "stoll (int_chars (sint i)) = Some (sint i)"
    unfolding stoll_def using sint_greater_eq [of i] sint_less [of i] by (intro sto_int_chars) auto
  ultimately show ?thesis
    using text_number [of ?x] nat_chars_int by (simp add: number_ok_def number_dom_def)
qed

definition frac_part :: "string \<Rightarrow> string option" where
  "frac_part f = (if strip_zeros f = [] then None else Some (strip_zeros f))"

lemma dec_tail_frac: "dec_tail f = (case frac_part f of None \<Rightarrow> [] | Some g \<Rightarrow> CHR ''.'' # g)"
  by (simp add: dec_tail_def frac_part_def Let_def)

lemma frac_digits: "list_all is_digit f \<Longrightarrow> case frac_part f of None \<Rightarrow> True | Some g \<Rightarrow> digits g"
  by (auto simp: frac_part_def digits_def strip_zeros_def list_all_iff dest: set_dropWhileD)

lemma exp_text: "\<exists>e sg ds. exp_chars x = e # sg @ ds \<and> e = CHR ''e'' \<and> (sg = ''+'' \<or> sg = ''-'') \<and> digits ds"
proof -
  let ?d = "nat_chars (nat \<bar>x\<bar>)"
  have "digits ?d" "digits (CHR ''0'' # ?d)" using nat_chars_int [of "nat \<bar>x\<bar>"] by (simp_all add: digits_def is_digit_def)
  then have dg: "digits (if length ?d < 2 then CHR ''0'' # ?d else ?d)" by simp
  have eq: "exp_chars x = CHR ''e'' # (if x < 0 then ''-'' else ''+'') @ (if length ?d < 2 then CHR ''0'' # ?d else ?d)"
    by (simp add: exp_chars_def Let_def)
  show ?thesis by (rule exI, rule exI, rule exI, rule conjI, rule eq) (use dg in simp)
qed

lemma take_int:
  assumes "digits ds" "hd ds = CHR ''0'' \<longrightarrow> length ds = 1" "0 < k"
  shows "digits (take k ds) \<and> (hd (take k ds) = CHR ''0'' \<longrightarrow> length (take k ds) = 1)"
proof -
  have "hd (take k ds) = hd ds" using assms(3) by (cases ds; cases k) simp_all
  then show ?thesis using assms by (auto simp: digits_def list_all_iff dest: in_set_takeD)
qed

lemma format_pos_number: "\<exists>x. number_ok x \<and> format_g_pos prec n d = number_text x \<and> \<not> n_neg x"
proof -
  define x0 where "x0 = log10_floor n d"
  define s where "s = x0 - int prec + 1"
  define q0 where "q0 = (if 0 \<le> s then div_even n (d * 10 ^ nat s) else div_even (n * 10 ^ nat (- s)) d)"
  define x where "x = (if q0 = 10 ^ prec then x0 + 1 else x0)"
  define ds where "ds = nat_chars (if q0 = 10 ^ prec then 10 ^ (prec - 1) else q0)"
  have f: "format_g_pos prec n d = (if x < -4 \<or> int prec \<le> x
         then take 1 ds @ dec_tail (drop 1 ds) @ exp_chars x
         else if 0 \<le> x then take (nat x + 1) ds @ dec_tail (drop (nat x + 1) ds)
         else CHR ''0'' # dec_tail (replicate (nat (- x) - 1) CHR ''0'' @ ds))"
    unfolding format_g_pos_def Let_def x0_def [symmetric] s_def [symmetric] q0_def [symmetric] x_def [symmetric]
      ds_def [symmetric] by (rule refl)
  have ds: "digits ds" "hd ds = CHR ''0'' \<longrightarrow> length ds = 1" using nat_chars_int by (simp_all add: ds_def)
  have dr: "case frac_part (drop k ds) of None \<Rightarrow> True | Some g \<Rightarrow> digits g" for k
    using ds by (intro frac_digits) (auto simp: digits_def list_all_iff dest: in_set_dropD)
  have z: "case frac_part (replicate k CHR ''0'' @ ds) of None \<Rightarrow> True | Some g \<Rightarrow> digits g" for k
    using ds by (intro frac_digits) (auto simp: digits_def list_all_iff is_digit_def)
  obtain e sg es where ex: "exp_chars x = e # sg @ es" "e = CHR ''e''" "sg = ''+'' \<or> sg = ''-''" "digits es"
    using exp_text by metis
  consider "x < -4 \<or> int prec \<le> x" | "\<not> (x < -4 \<or> int prec \<le> x)" "0 \<le> x" | "\<not> (x < -4 \<or> int prec \<le> x)" "\<not> 0 \<le> x" by blast
  then show ?thesis
  proof cases
    case 1
    let ?x = "\<lparr>n_neg = False, n_int = take 1 ds, n_frac = frac_part (drop 1 ds), n_exp = Some (e, sg, es)\<rparr>"
    have "number_ok ?x" using take_int [OF ds, of 1] dr [of 1] ex by (auto simp: number_ok_def)
    moreover have "format_g_pos prec n d = number_text ?x" using 1 ex(1) by (simp add: f number_text_def dec_tail_frac)
    ultimately show ?thesis by (intro exI [of _ ?x]) simp
  next
    case 2
    let ?x = "\<lparr>n_neg = False, n_int = take (nat x + 1) ds, n_frac = frac_part (drop (nat x + 1) ds), n_exp = None\<rparr>"
    have "number_ok ?x" using take_int [OF ds, of "nat x + 1"] dr [of "nat x + 1"] by (auto simp: number_ok_def)
    moreover have "format_g_pos prec n d = number_text ?x" using 2 by (simp add: f number_text_def dec_tail_frac)
    ultimately show ?thesis by (intro exI [of _ ?x]) simp
  next
    case 3
    let ?x = "\<lparr>n_neg = False, n_int = ''0'', n_frac = frac_part (replicate (nat (- x) - 1) CHR ''0'' @ ds), n_exp = None\<rparr>"
    have "number_ok ?x" using z by (simp add: number_ok_def digits_def is_digit_def)
    moreover have "format_g_pos prec n d = number_text ?x" using 3 by (simp add: f number_text_def dec_tail_frac)
    ultimately show ?thesis by (intro exI [of _ ?x]) simp
  qed
qed

section \<open>Numbers are read\<close>

definition num_end :: "string \<Rightarrow> bool" where
  "num_end r \<longleftrightarrow> r = [] \<or> (\<not> is_digit (hd r) \<and> hd r \<noteq> CHR ''.'' \<and> hd r \<noteq> CHR ''e'' \<and> hd r \<noteq> CHR ''E'')"

lemma take_digits: "list_all is_digit ds \<Longrightarrow> r = [] \<or> \<not> is_digit (hd r) \<Longrightarrow> takeWhile is_digit (ds @ r) = ds"
  by (cases r) (auto simp: takeWhile_append list_all_iff)

lemma take_digits_all: "list_all is_digit ds \<Longrightarrow> takeWhile is_digit ds = ds"
  using take_digits [of ds "[]"] by simp

lemma not_digit [simp]: "\<not> is_digit CHR ''.''" "\<not> is_digit CHR ''e''" "\<not> is_digit CHR ''E''" "\<not> is_digit CHR ''-''" "\<not> is_digit CHR ''+''"
  by (simp_all add: is_digit_def less_eq_char_def)

lemma digit_first: "digits ds \<Longrightarrow> \<exists>a t. ds = a # t \<and> is_digit a"
  by (cases ds) (auto simp: digits_def)

lemma number_read:
  assumes ok: "number_ok x" and r: "num_end r"
  shows "read_number (number_text x @ r) = Some (number_dom x, r)"
proof -
  define fr where "fr = (case n_frac x of None \<Rightarrow> [] | Some f \<Rightarrow> CHR ''.'' # f)"
  define er where "er = (case n_exp x of None \<Rightarrow> [] | Some (e, sg, ds) \<Rightarrow> e # sg @ ds)"
  have ip: "digits (n_int x)" "hd (n_int x) = CHR ''0'' \<longrightarrow> length (n_int x) = 1" using ok by (simp_all add: number_ok_def)
  have er_hd: "er @ r = [] \<or> (\<not> is_digit (hd (er @ r)) \<and> hd (er @ r) \<noteq> CHR ''.'')"
    using ok r by (auto simp: er_def number_ok_def num_end_def split: option.splits)
  have fr_hd: "fr @ er @ r = [] \<or> \<not> is_digit (hd (fr @ er @ r))"
    using er_hd by (auto simp: fr_def split: option.splits)
  have ex: "read_exponent (er @ r) = Some (n_exp x, r)"
  proof (cases "n_exp x")
    case None
    then show ?thesis using r by (cases r) (auto simp: er_def read_exponent_def num_end_def)
  next
    case (Some p)
    obtain e sg ds where p: "p = (e, sg, ds)" by (cases p)
    then have e: "e = CHR ''e'' \<or> e = CHR ''E''" "sg = [] \<or> sg = ''+'' \<or> sg = ''-''" "digits ds"
      using ok Some by (simp_all add: number_ok_def)
    obtain a t where a: "ds = a # t" "is_digit a" using digit_first [OF e(3)] by blast
    have "takeWhile is_digit (ds @ r) = ds" using e(3) r by (intro take_digits) (auto simp: digits_def num_end_def)
    moreover have "(if take 1 (sg @ ds @ r) = ''+'' \<or> take 1 (sg @ ds @ r) = ''-'' then take 1 (sg @ ds @ r) else []) = sg"
      using e(2) a by auto
    ultimately show ?thesis using e(1,3) by (simp add: er_def Some p read_exponent_def Let_def digits_def)
  qed
  have fp: "read_fraction (fr @ er @ r) = Some (n_frac x, er @ r)"
  proof (cases "n_frac x")
    case None
    have "take 1 (er @ r) \<noteq> ''.''" using er_hd by (cases "er @ r") auto
    then show ?thesis by (simp add: fr_def None read_fraction_def)
  next
    case (Some f)
    then have "digits f" using ok by (simp add: number_ok_def)
    moreover have "takeWhile is_digit (f @ er @ r) = f"
      using calculation er_hd by (intro take_digits) (auto simp: digits_def)
    ultimately show ?thesis by (simp add: fr_def Some read_fraction_def Let_def digits_def)
  qed
  obtain a t where a: "n_int x = a # t" "is_digit a" using digit_first [OF ip(1)] by blast
  have tw: "takeWhile is_digit (n_int x @ fr @ er @ r) = n_int x"
    using ip(1) fr_hd by (intro take_digits) (auto simp: digits_def)
  let ?s = "number_text x @ r"
  have s: "?s = (if n_neg x then ''-'' else []) @ n_int x @ fr @ er @ r" by (simp add: number_text_def fr_def er_def)
  have neg: "(take 1 ?s = ''-'') = n_neg x" "(if n_neg x then tl ?s else ?s) = n_int x @ fr @ er @ r"
    using a by (auto simp: s)
  have "number_dom \<lparr>n_neg = n_neg x, n_int = n_int x, n_frac = n_frac x, n_exp = n_exp x\<rparr> = number_dom x"
    by (rule arg_cong [of _ _ number_dom]) simp
  then show ?thesis unfolding read_number_def Let_def neg tw using ip fp ex by (simp add: digits_def)
qed

definition double_dom :: "u64 \<Rightarrow> dom" where
  "double_dom d =
     (if dbl_finite d then (case read_number (format_g 17 d) of Some (dm, _) \<Rightarrow> dm | None \<Rightarrow> DThrows) else DNull)"

lemma json_double: "json_text (double_dom d) (if dbl_finite d then format_g 17 d else ''null'')"
proof (cases "dbl_finite d")
  case True
  have inf: "\<not> dbl_is_inf d" using True by (auto simp: dbl_is_inf_def dbl_finite_def)
  have "\<exists>x. number_ok x \<and> format_g 17 d = number_text x"
  proof (cases "fst (dbl_ratio d) = 0")
    case zero: True
    let ?x = "\<lparr>n_neg = dbl_neg d, n_int = ''0'', n_frac = None, n_exp = None\<rparr>"
    have "number_ok ?x" by (simp add: number_ok_def digits_def is_digit_def)
    moreover have "format_g 17 d = number_text ?x" using True zero inf by (simp add: format_g_def number_text_def)
    ultimately show ?thesis by blast
  next
    case False
    obtain x where x: "number_ok x" "format_g_pos 17 (fst (dbl_ratio d)) (snd (dbl_ratio d)) = number_text x" "\<not> n_neg x"
      using format_pos_number by blast
    have "number_ok (x\<lparr>n_neg := dbl_neg d\<rparr>)" using x(1) by (simp add: number_ok_def)
    moreover have "format_g 17 d = number_text (x\<lparr>n_neg := dbl_neg d\<rparr>)"
      using True False inf x(2,3) by (simp add: format_g_def number_text_def)
    ultimately show ?thesis by blast
  qed
  then obtain x where x: "number_ok x" "format_g 17 d = number_text x" by blast
  have "read_number (number_text x) = Some (number_dom x, [])"
    using number_read [OF x(1), of "[]"] by (simp add: num_end_def)
  then show ?thesis using text_number [OF x(1)] True by (simp add: double_dom_def x(2))
qed (simp add: double_dom_def text_null)

section \<open>Values are written\<close>

text \<open>The document of a value: doubles become what their 17 digits read as, NaN and the infinities
  null, bytes and everything without a JSON form a string.\<close>

fun var_dom :: "(nat \<Rightarrow> string) \<Rightarrow> var \<Rightarrow> dom" where
  "var_dom cust VNone = DNull"
| "var_dom cust (VBool b) = DBool b"
| "var_dom cust (VInt i) = DInt i"
| "var_dom cust (VDouble d) = double_dom d"
| "var_dom cust (VString s) = DStr s"
| "var_dom cust (VBin bs) = DStr (map byte_char bs)"
| "var_dom cust (VList xs) = DArr (map (var_dom cust) xs)"
| "var_dom cust (VDict d) = DObj (map (\<lambda>(k, x). (k, var_dom cust x)) d)"
| "var_dom cust v = DStr (var_text cust [] v)"

text \<open>Every string in the value is UTF-8.\<close>

fun text_ok :: "(nat \<Rightarrow> string) \<Rightarrow> var \<Rightarrow> bool" where
  "text_ok cust (VString s) = utf8_string s"
| "text_ok cust (VBin bs) = utf8_string (map byte_char bs)"
| "text_ok cust (VList xs) = (\<forall>x \<in> set xs. text_ok cust x)"
| "text_ok cust (VDict d) = (\<forall>(k, x) \<in> set d. utf8_string k \<and> text_ok cust x)"
| "text_ok cust (VPointer p) = utf8_string (pointer_text p)"
| "text_ok cust (VCallable f) = True"
| "text_ok cust (VCustom c) = utf8_string (cust c)"
| "text_ok cust v = True"

lemma join_elems:
  assumes "xs \<noteq> []" "\<And>x. x \<in> set xs \<Longrightarrow> json_text (f x) (g x)"
  shows "json_elems (map f xs) (join_sep '','' (map g xs))"
  using assms
proof (induction xs)
  case (Cons x xs)
  have ws: "list_all is_ws ([] :: string)" by simp
  show ?case
  proof (cases xs)
    case Nil
    then show ?thesis using elems_one [OF ws Cons.prems(2) ws, of x] by simp
  next
    case (Cons y ys)
    then have "json_elems (map f xs) (join_sep '','' (map g xs))" using Cons.IH Cons.prems(2) by simp
    from elems_more [OF ws Cons.prems(2) ws this, of x] show ?thesis by (simp add: Cons)
  qed
qed simp

lemma join_fields:
  assumes "xs \<noteq> []" "\<And>x. x \<in> set xs \<Longrightarrow> json_string (k x) (h x) \<and> json_text (f x) (g x)"
  shows "json_fields (map (\<lambda>x. (k x, f x)) xs) (join_sep '','' (map (\<lambda>x. h x @ '':'' @ g x) xs))"
  using assms
proof (induction xs)
  case (Cons x xs)
  have ws: "list_all is_ws ([] :: string)" by simp
  have x: "json_string (k x) (h x)" "json_text (f x) (g x)" using Cons.prems(2) [of x] by simp_all
  show ?case
  proof (cases xs)
    case Nil
    then show ?thesis using fields_one [OF ws x(1) ws ws x(2) ws] by simp
  next
    case (Cons y ys)
    then have "json_fields (map (\<lambda>x. (k x, f x)) xs) (join_sep '','' (map (\<lambda>x. h x @ '':'' @ g x) xs))"
      using Cons.IH Cons.prems(2) by simp
    from fields_more [OF ws x(1) ws ws x(2) ws this] show ?thesis by (simp add: Cons)
  qed
qed simp

lemma callable_utf8: "utf8_string ''<callable>''"
  by (rule ascii_string) (simp add: char_byte_def)

lemma value_text: "text_ok cust v \<Longrightarrow> json_text (var_dom cust v) (varToJson cust v)"
proof (induction v)
  case (VList xs)
  show ?case
  proof (cases "xs = []")
    case True
    then show ?thesis using text_empty_array [of "[]"] by simp
  next
    case False
    then show ?thesis using join_elems [OF False, of "var_dom cust" "varToJson cust"] VList text_array by simp
  qed
next
  case (VDict d)
  show ?case
  proof (cases "d = []")
    case True
    then show ?thesis using text_empty_object [of "[]"] by simp
  next
    case False
    have "json_string (fst p) (quoted (fst p)) \<and> json_text (var_dom cust (snd p)) (varToJson cust (snd p))" if "p \<in> set d" for p
      using VDict.IH [of p "snd p"] VDict.prems that quoted_string by (cases p) auto
    from join_fields [OF False this] show ?thesis using text_object by (simp add: case_prod_unfold)
  qed
qed (auto simp: json_int json_double text_null text_true text_false intro: text_string quoted_string callable_utf8)

section \<open>The reader reads the grammar\<close>

lemma skip_ws_app [simp]: "list_all is_ws w \<Longrightarrow> skip_ws (w @ r) = skip_ws r"
  by (induction w) simp_all

text \<open>What a value starts with.\<close>

definition value_start :: "char \<Rightarrow> bool" where
  "value_start c \<longleftrightarrow> \<not> is_ws c \<and> c \<noteq> CHR '']'' \<and> c \<noteq> CHR ''}'' \<and> c \<noteq> CHR '','' \<and> c \<noteq> CHR '':''"

lemma digit_start: "is_digit c \<Longrightarrow> value_start c \<and> c \<noteq> CHR 0x22 \<and> c \<noteq> CHR ''['' \<and> c \<noteq> CHR ''{'' \<and> c \<noteq> CHR ''n'' \<and> c \<noteq> CHR ''t'' \<and> c \<noteq> CHR ''f''"
  by (auto simp: is_digit_def value_start_def is_ws_def less_eq_char_def)

lemma number_start:
  assumes "number_ok x"
  shows "\<exists>a t. number_text x = a # t \<and> value_start a \<and> a \<noteq> CHR 0x22 \<and> a \<noteq> CHR ''['' \<and> a \<noteq> CHR ''{'' \<and> a \<noteq> CHR ''n''
    \<and> a \<noteq> CHR ''t'' \<and> a \<noteq> CHR ''f''"
proof -
  obtain a t where "n_int x = a # t" "is_digit a" using digit_first [of "n_int x"] assms by (auto simp: number_ok_def)
  then show ?thesis using digit_start [of a]
    by (cases "n_neg x") (auto simp: number_text_def value_start_def is_ws_def)
qed

lemma text_start: "json_text d t \<Longrightarrow> \<exists>a u. t = a # u \<and> value_start a"
proof -
  assume "json_text d t"
  then show ?thesis
    by (cases rule: json_text.cases)
      (use number_start in \<open>fastforce simp: value_start_def is_ws_def json_string_def DQUOTE_def\<close>)+
qed

lemma skip_start: "value_start a \<Longrightarrow> skip_ws (a # u) = a # u"
  by (simp add: value_start_def)

lemma not_ws [simp]: "\<not> is_ws CHR '']''" "\<not> is_ws CHR ''}''" "\<not> is_ws CHR '',''" "\<not> is_ws CHR '':''"
  "\<not> is_ws CHR ''[''" "\<not> is_ws CHR ''{''" "\<not> is_ws CHR 0x22"
  by (simp_all add: is_ws_def)

text \<open>A number ends before what can follow a value.\<close>

definition follows :: "string \<Rightarrow> bool" where
  "follows r \<longleftrightarrow> r = [] \<or> is_ws (hd r) \<or> hd r \<in> {CHR '','', CHR '']'', CHR ''}''}"

lemma follows_end: "follows r \<Longrightarrow> num_end r"
  by (auto simp: follows_def num_end_def is_ws_def is_digit_def less_eq_char_def)

lemma follows_ws: "list_all is_ws w \<Longrightarrow> follows r \<Longrightarrow> follows (w @ r)"
  by (cases w) (auto simp: follows_def)

lemma follows_simps [simp]: "follows []" "follows (CHR '','' # r)" "follows (CHR '']'' # r)" "follows (CHR ''}'' # r)"
  by (simp_all add: follows_def)

lemma elems_start: "json_elems ds t \<Longrightarrow> \<exists>a u. skip_ws (t @ r) = a # u \<and> value_start a"
proof -
  assume "json_elems ds t"
  then show ?thesis by (cases rule: json_elems.cases) (use text_start skip_start in fastforce)+
qed

lemma fields_start: "json_fields fs t \<Longrightarrow> \<exists>u. skip_ws (t @ r) = CHR 0x22 # u"
proof -
  assume "json_fields fs t"
  then show ?thesis by (cases rule: json_fields.cases) (auto simp: json_string_def DQUOTE_def)
qed

lemma read_value_ws [simp]: "list_all is_ws u \<Longrightarrow> read_value f (u @ s) = read_value f s"
  by (cases f) (simp_all add: Let_def)

text \<open>One element, one field: the value is read up to the separator that follows it.\<close>

definition value_reads :: "dom \<Rightarrow> string \<Rightarrow> bool" where
  "value_reads d t \<longleftrightarrow> (\<forall>fuel r. length t \<le> fuel \<longrightarrow> follows r \<longrightarrow> read_value fuel (t @ r) = Some (d, r))"

lemma elem_step:
  assumes "list_all is_ws u" "list_all is_ws w" "value_reads d t" "length t \<le> f" "c = CHR '','' \<or> c = CHR '']''"
  shows "read_elems (Suc f) (u @ t @ w @ c # r)
    = (if c = CHR '']'' then Some ([d], r) else map_option (\<lambda>(ds, s). (d # ds, s)) (read_elems f r))"
proof -
  have "read_value f (t @ w @ c # r) = Some (d, w @ c # r)"
    using assms follows_ws [OF assms(2), of "c # r"] by (auto simp: value_reads_def)
  then show ?thesis using assms by auto
qed

lemma field_step:
  assumes "list_all is_ws u" "json_string k s" "list_all is_ws x" "list_all is_ws y" "list_all is_ws w" "value_reads d t"
    "length t \<le> f" "c = CHR '','' \<or> c = CHR ''}''"
  shows "read_fields (Suc f) (u @ s @ x @ '':'' @ y @ t @ w @ c # r)
    = (if c = CHR ''}'' then Some ([(k, d)], r) else map_option (\<lambda>(fs, s). ((k, d) # fs, s)) (read_fields f r))"
proof -
  obtain b where b: "s = CHR 0x22 # b" "\<And>r. read_body (b @ r) = Some (k, r)"
    using string_read [OF assms(2)] by (auto simp: DQUOTE_def)
  have "read_value f (t @ w @ c # r) = Some (d, w @ c # r)"
    using assms follows_ws [OF assms(5), of "c # r"] by (auto simp: value_reads_def)
  then show ?thesis using assms b by (auto simp: DQUOTE_def)
qed

lemma value_read:
  "json_text d t \<Longrightarrow> (\<forall>fuel r. length t \<le> fuel \<longrightarrow> follows r \<longrightarrow> read_value fuel (t @ r) = Some (d, r))"
  "json_elems ds t \<Longrightarrow> (\<forall>fuel r. length t < fuel \<longrightarrow> read_elems fuel (t @ CHR '']'' # r) = Some (ds, r))"
  "json_fields fs t \<Longrightarrow> (\<forall>fuel r. length t < fuel \<longrightarrow> read_fields fuel (t @ CHR ''}'' # r) = Some (fs, r))"
proof (induction rule: json_text_json_elems_json_fields.inducts)
  case (text_number x)
  show ?case
  proof (intro allI impI)
    fix fuel r assume a: "length (number_text x) \<le> fuel" "follows r"
    obtain a t where t: "number_text x = a # t" "value_start a" "a \<noteq> CHR 0x22" "a \<noteq> CHR ''[''" "a \<noteq> CHR ''{''" "a \<noteq> CHR ''n''"
      "a \<noteq> CHR ''t''" "a \<noteq> CHR ''f''" using number_start [OF text_number] by blast
    then obtain f where "fuel = Suc f" using a(1) by (cases fuel) auto
    then show "read_value fuel (number_text x @ r) = Some (number_dom x, r)"
      using t number_read [OF text_number follows_end [OF a(2)]] by (simp add: Let_def DQUOTE_def value_start_def)
  qed
next
  case (text_string s t)
  obtain b where b: "t = DQUOTE # b" "\<forall>r. read_body (b @ r) = Some (s, r)" using string_read [OF text_string] by blast
  then show ?case by (intro allI impI) (case_tac fuel; simp add: DQUOTE_def)
next
  case (text_array ds t)
  show ?case
  proof (intro allI impI)
    fix fuel r assume a: "length (''['' @ t @ '']'') \<le> fuel"
    then obtain f where f: "fuel = Suc f" "length t < f" by (cases fuel) auto
    obtain b u where "skip_ws (t @ CHR '']'' # r) = b # u" "value_start b" using elems_start [OF text_array(1)] by blast
    then show "read_value fuel ((''['' @ t @ '']'') @ r) = Some (DArr ds, r)"
      using text_array.IH f by (simp add: DQUOTE_def value_start_def)
  qed
next
  case (text_object fs t)
  show ?case
  proof (intro allI impI)
    fix fuel r assume a: "length (''{'' @ t @ ''}'') \<le> fuel"
    then obtain f where f: "fuel = Suc f" "length t < f" by (cases fuel) auto
    obtain u where "skip_ws (t @ CHR ''}'' # r) = CHR 0x22 # u" using fields_start [OF text_object(1)] by blast
    then show "read_value fuel ((''{'' @ t @ ''}'') @ r) = Some (DObj fs, r)"
      using text_object.IH f by (simp add: DQUOTE_def)
  qed
next
  case (elems_one u d t w)
  show ?case
    by (intro allI impI, case_tac fuel)
      (use elem_step [OF elems_one(1,3), of d t _ "CHR '']''"] elems_one(4) in \<open>simp_all add: value_reads_def\<close>)
next
  case (elems_more u d t w ds e)
  show ?case
    by (intro allI impI, case_tac fuel)
      (use elem_step [OF elems_more(1,3), of d t _ "CHR '',''"] elems_more(5,6) in \<open>simp_all add: value_reads_def\<close>)
next
  case (fields_one u k s x y d t w)
  show ?case
    by (intro allI impI, case_tac fuel)
      (use field_step [OF fields_one(1-4,6), of d t _ "CHR ''}''"] fields_one(7) in \<open>simp_all add: value_reads_def\<close>)
next
  case (fields_more u k s x y d t w fs e)
  show ?case
    by (intro allI impI, case_tac fuel)
      (use field_step [OF fields_more(1-4,6), of d t _ "CHR '',''"] fields_more(8,9) in \<open>simp_all add: value_reads_def\<close>)
qed (auto dest!: Suc_le_D simp: DQUOTE_def is_ws_def)

section \<open>A parser that reads JSON\<close>

lemma fold_max_bound: "x \<in> set xs \<Longrightarrow> x \<le> fold max xs (a :: nat)"
  using fold_max_ge by blast

lemma document_read:
  assumes "json_text d t" "list_all is_ws u" "list_all is_ws w"
  shows "read_document (u @ t @ w) = (if is_scalar d then Doc_Scalar else Doc_Value d)"
proof -
  have "follows w" using assms(3) by (cases w) (simp_all add: follows_def)
  then have "read_value (length (u @ t @ w)) (t @ w) = Some (d, w)" using value_read(1) [OF assms(1)] by simp
  moreover have "skip_ws w = []" using assms(3) by (simp add: list_all_iff)
  ultimately show ?thesis using assms(2) by (simp add: read_document_def)
qed

interpretation reader: json_parser read_document
  by unfold_locales (rule document_read)

section \<open>What is parsed back\<close>

text \<open>Values that JSON keeps: no doubles, bytes, pointers, callables or custom payloads.\<close>

fun json_plain :: "var \<Rightarrow> bool" where
  "json_plain (VList xs) = (\<forall>x \<in> set xs. json_plain x)"
| "json_plain (VDict d) = (dict_wf d \<and> (\<forall>(k, x) \<in> set d. json_plain x))"
| "json_plain VNone = True"
| "json_plain (VBool b) = True"
| "json_plain (VInt i) = True"
| "json_plain (VString s) = True"
| "json_plain v = False"

lemma those_map_some: "(\<And>x. x \<in> set xs \<Longrightarrow> f x = Some (g x)) \<Longrightarrow> those (map f xs) = Some (map g xs)"
  by (induction xs) simp_all

lemma plain_dom: "json_plain v \<Longrightarrow> domToVar (var_dom cust v) = Some v"
proof (induction v)
  case (VList xs)
  have "those (map (domToVar \<circ> var_dom cust) xs) = Some (map (\<lambda>x. x) xs)"
    by (rule those_map_some) (use VList in auto)
  then show ?case by simp
next
  case (VDict d)
  have "those (map ((\<lambda>(k, d). map_option (Pair k) (domToVar d)) \<circ> (\<lambda>(k, x). (k, var_dom cust x))) d) = Some (map (\<lambda>p. p) d)"
  proof (rule those_map_some)
    fix p assume p: "p \<in> set d"
    obtain k x where kx: "p = (k, x)" by (cases p)
    have "domToVar (var_dom cust x) = Some x" using VDict.IH [OF p, of x] VDict.prems p by (auto simp: kx)
    then show "((\<lambda>(k, d). map_option (Pair k) (domToVar d)) \<circ> (\<lambda>(k, x). (k, var_dom cust x))) p = Some p" by (simp add: kx)
  qed
  moreover have "put_all d [] = d" using put_all_distinct [of d "[]"] VDict.prems by (simp add: dict_wf_def)
  ultimately show ?case by simp
qed simp_all

lemma scalar_dom: "is_scalar (var_dom cust v) = (\<not> container_var v)"
proof -
  have "is_scalar (number_dom x)" for x by (auto simp: number_dom_def split: option.splits)
  then have "is_scalar (double_dom d)" for d
    by (auto simp: double_dom_def read_number_def Let_def split: option.splits prod.splits)
  then show ?thesis by (cases v) (auto simp: container_var_def isList_def isDict_def)
qed

lemma trim_same: "s \<noteq> [] \<Longrightarrow> \<not> is_space (hd s) \<Longrightarrow> \<not> is_space (last s) \<Longrightarrow> trim s = s"
proof -
  assume s: "s \<noteq> []" "\<not> is_space (hd s)" "\<not> is_space (last s)"
  have "dropWhile is_space s = s" using s by (cases s) auto
  moreover have "dropWhile is_space (rev s) = rev s" using s by (cases s rule: rev_cases) auto
  ultimately show ?thesis by (simp add: trim_def)
qed

lemma int_chars_ends: "int_chars i \<noteq> []" "is_digit (last (int_chars i))" "hd (int_chars i) = CHR ''-'' \<or> is_digit (hd (int_chars i))"
proof -
  let ?d = "nat_chars (nat \<bar>i\<bar>)"
  have d: "?d \<noteq> []" "list_all is_digit ?d" using nat_chars_ne nat_chars_all by simp_all
  then have "is_digit (last ?d)" "is_digit (hd ?d)" by (simp_all add: list_all_iff)
  then show "int_chars i \<noteq> []" "is_digit (last (int_chars i))" "hd (int_chars i) = CHR ''-'' \<or> is_digit (hd (int_chars i))"
    using d(1) by (auto simp: int_chars_def)
qed

lemma digit_not_space: "is_digit c \<Longrightarrow> \<not> is_space c"
  by (auto simp: is_digit_def is_space_def less_eq_char_def)

lemma parse_int: "parse_scalar (int_chars (sint i)) = VInt i"
proof -
  let ?s = "int_chars (sint i)"
  note e = int_chars_ends [of "sint i"]
  have tr: "trim ?s = ?s"
    using e(3) digit_not_space [OF e(2)] digit_not_space [of "hd ?s"]
    by (intro trim_same) (auto simp: e(1) is_space_def less_eq_char_def)
  have al: "x = CHR ''-'' \<or> is_digit x" if "x \<in> set ?s" for x
    using that nat_chars_all [of "nat \<bar>sint i\<bar>"] by (auto simp: int_chars_def list_all_iff split: if_splits)
  have out: "c \<notin> set ?s" if "c \<noteq> CHR ''-''" "\<not> is_digit c" for c using al [of c] that by blast
  have no: "CHR ''n'' \<notin> set ?s" "CHR ''t'' \<notin> set ?s" "CHR ''f'' \<notin> set ?s" "CHR ''.'' \<notin> set ?s" "CHR ''e'' \<notin> set ?s"
    "CHR ''E'' \<notin> set ?s" "DQUOTE \<notin> set ?s"
    by (rule out; simp add: is_digit_def less_eq_char_def DQUOTE_def)+
  have "stoll ?s = Some (sint i)"
    unfolding stoll_def using sint_greater_eq [of i] sint_less [of i] by (intro sto_int_chars) auto
  moreover have "hd ?s \<noteq> DQUOTE" using no(7) hd_in_set [OF e(1)] by metis
  moreover have "?s \<noteq> ''null''" "?s \<noteq> ''true''" "?s \<noteq> ''false''" "?s \<noteq> []" using no e(1) by auto
  ultimately show ?thesis using no by (simp add: parse_scalar_def tr Let_def)
qed

lemma parse_quoted: "parse_scalar (quoted s) = VString (json_escape s)"
proof -
  have "trim (quoted s) = quoted s"
    by (rule trim_same) (simp_all add: quoted_def DQUOTE_def is_space_def less_eq_char_def)
  then show ?thesis by (simp add: parse_scalar_def Let_def quoted_def DQUOTE_def butlast_append)
qed

section \<open>Values through text\<close>

context json_parser
begin

lemma parse_container:
  assumes "text_ok cust v" "within_limits (var_dom cust v) (json_stringify cust v)" "container_var v"
  shows "json_parse simd (json_stringify cust v) = domToVar (var_dom cust v)"
proof -
  have "json_text (var_dom cust v) (json_stringify cust v)" using value_text [OF assms(1)] by (simp add: json_stringify_def)
  from reads [OF this, of "[]" "[]"] text_start [OF this] show ?thesis
    using assms(2,3) by (auto simp: scalar_dom json_parse_def)
qed

lemma parse_plain_scalar:
  assumes "text_ok cust v" "within_limits (var_dom cust v) (json_stringify cust v)" "\<not> container_var v" "json_plain v"
  shows "json_parse simd (json_stringify cust v) = Some (case v of VString s \<Rightarrow> VString (json_escape s) | _ \<Rightarrow> v)"
proof -
  have t: "json_text (var_dom cust v) (json_stringify cust v)" using value_text [OF assms(1)] by (simp add: json_stringify_def)
  from reads [OF this, of "[]" "[]"] text_start [OF this]
  have "json_parse simd (json_stringify cust v) = Some (parse_scalar (json_stringify cust v))"
    using assms(2,3) by (auto simp: scalar_dom json_parse_def)
  moreover have "parse_scalar ''null'' = VNone" "parse_scalar ''true'' = VBool True" "parse_scalar ''false'' = VBool False"
    by code_simp+
  ultimately show ?thesis using assms(3,4) parse_int parse_quoted
    by (cases v) (auto simp: json_stringify_def container_var_def isList_def isDict_def)
qed

end

text \<open>C36: \<open>stringify\<close> writes JSON: for every value whose strings are UTF-8 the text is in the grammar, with the
  document of the value. With any parser that reads JSON, \<open>parse\<close> gives a list or dictionary of plain
  values back exactly, and so it does null, booleans and integers; a string comes back with its escapes
  in place, because \<open>parse\<close> does not decode the scalars the parser refuses.\<close>

theorem json_value_roundtrip:
  assumes "json_parser simd" "text_ok cust v" "within_limits (var_dom cust v) (json_stringify cust v)"
  shows "json_text (var_dom cust v) (json_stringify cust v)
    \<and> (container_var v \<longrightarrow> json_parse simd (json_stringify cust v) = domToVar (var_dom cust v))
    \<and> (json_plain v \<longrightarrow> json_parse simd (json_stringify cust v) =
         Some (case v of VString s \<Rightarrow> VString (json_escape s) | _ \<Rightarrow> v))"
proof -
  note p = json_parser.parse_container [OF assms(1-3)] json_parser.parse_plain_scalar [OF assms(1-3)]
  have "json_parse simd (json_stringify cust v) = Some (case v of VString s \<Rightarrow> VString (json_escape s) | _ \<Rightarrow> v)"
    if "json_plain v"
  proof (cases "container_var v")
    case True
    then have "(case v of VString s \<Rightarrow> VString (json_escape s) | _ \<Rightarrow> v) = v"
      by (cases v) (auto simp: container_var_def isList_def isDict_def)
    then show ?thesis using p(1) [OF True] plain_dom [OF that] by simp
  qed (use p(2) that in blast)
  then show ?thesis using p(1) value_text [OF assms(2)] by (auto simp: json_stringify_def)
qed

theorem json_value_roundtrip_witness:
  "json_parse read_document (json_stringify (\<lambda>_. []) (VDict [(''a'', VList [VInt 7, VString ''x''])]))
     = Some (VDict [(''a'', VList [VInt 7, VString ''x''])])
   \<and> json_parse read_document (json_stringify (\<lambda>_. []) (VString [CHR 0x0A])) = Some (VString [CHR 0x5C, CHR ''n''])"
proof -
  have s: "utf8_string ''a''" "utf8_string ''x''" "utf8_string [CHR 0x0A]"
    by (rule ascii_string; simp add: char_byte_def)+
  let ?v = "VDict [(''a'', VList [VInt 7, VString ''x''])]"
  have l: "within_limits (var_dom (\<lambda>_. []) ?v) (json_stringify (\<lambda>_. []) ?v)"
    by (simp add: within_limits_def json_stringify_def quoted_def json_escape_def escape_char_def char_byte_def int_chars_def nat_chars.simps)
  have m: "within_limits (var_dom (\<lambda>_. []) (VString [CHR 0x0A])) (json_stringify (\<lambda>_. []) (VString [CHR 0x0A]))"
    by (simp add: within_limits_def json_stringify_def quoted_def json_escape_def escape_char_def)
  show ?thesis
    using json_value_roundtrip [OF reader.json_parser_axioms _ l] json_value_roundtrip [OF reader.json_parser_axioms _ m] s
    by (simp add: dict_wf_def json_escape_def escape_char_def)
qed

end
