(* ===== verification/Json_Tree.thy ===== *)
theory Json_Tree
  imports Json_Text
begin

text \<open>
  Node trees through JSON: the text \<open>exportTree\<close> writes is a JSON text of the value the schema exporter
  gives (\<open>Var_Tree\<close>), the tree \<open>importTree\<close> builds is the one the schema importer builds, and so trees
  survive a round trip.
\<close>

section \<open>Lines\<close>

lemma elems_ws: "json_elems ds t \<Longrightarrow> list_all is_ws u \<Longrightarrow> list_all is_ws w \<Longrightarrow> json_elems ds (u @ t @ w)"
proof (induction ds arbitrary: t u)
  case (Cons d ds)
  from Cons.prems(1) show ?case
  proof cases
    case (elems_one u' s w')
    then show ?thesis using json_text_json_elems_json_fields.elems_one [of "u @ u'" d s "w' @ w"] Cons.prems(2,3) by simp
  next
    case (elems_more u' s w' r)
    have "json_elems ds ([] @ r @ w)" using Cons.IH [OF elems_more(5), of "[]"] Cons.prems(3) by simp
    then show ?thesis
      using json_text_json_elems_json_fields.elems_more [of "u @ u'" d s w' ds "r @ w"] elems_more Cons.prems(2) by simp
  qed
qed (auto elim: json_elems.cases)

lemma fields_ws: "json_fields fs t \<Longrightarrow> list_all is_ws a \<Longrightarrow> list_all is_ws b \<Longrightarrow> json_fields fs (a @ t @ b)"
proof (induction fs arbitrary: t a)
  case (Cons f fs)
  from Cons.prems(1) show ?case
  proof cases
    case (fields_one u k s x y d r w)
    then show ?thesis
      using json_text_json_elems_json_fields.fields_one [of "a @ u" k s x y d r "w @ b"] Cons.prems(2,3) by simp
  next
    case (fields_more u k s x y d r w e)
    have "json_fields fs ([] @ e @ b)" using Cons.IH [of e "[]"] fields_more Cons.prems(3) by simp
    then show ?thesis
      using json_text_json_elems_json_fields.fields_more [of "a @ u" k s x y d r w fs "e @ b"] fields_more Cons.prems(2) by simp
  qed
qed (auto elim: json_fields.cases)

lemma newline_ws [simp]: "is_ws NEWLINE" "list_all is_ws (pad opts k)"
  by (simp_all add: NEWLINE_def is_ws_def pad_def list_all_iff)

lemma lines_elems: "ts \<noteq> [] \<Longrightarrow> list_all2 json_text ds ts \<Longrightarrow> list_all is_ws p \<Longrightarrow> json_elems ds (json_lines p ts)"
proof (induction p ts arbitrary: ds rule: json_lines.induct)
  case (2 p t)
  then obtain d where "ds = [d]" "json_text d t" by (auto simp: list_all2_Cons2)
  then show ?case using elems_one [OF 2(3), of d t "[NEWLINE]"] by simp
next
  case (3 p t s ts)
  then obtain d es where d: "ds = d # es" "json_text d t" "list_all2 json_text es (s # ts)" by (auto simp: list_all2_Cons2)
  have "json_elems es ([NEWLINE] @ json_lines p (s # ts) @ [])"
    using 3(1) [OF _ d(3) 3(4)] by (intro elems_ws) simp_all
  then show ?case using elems_more [OF 3(4) d(2), of "[]" es] by (simp add: d(1))
qed simp

lemma lines_fields:
  "xs \<noteq> [] \<Longrightarrow> (\<forall>x \<in> set xs. json_string (key x) (q x) \<and> json_text (f x) (g x)) \<Longrightarrow> list_all is_ws p
    \<Longrightarrow> json_fields (map (\<lambda>x. (key x, f x)) xs) (json_lines p (map (\<lambda>x. q x @ '': '' @ g x) xs))"
proof (induction xs)
  case (Cons x xs)
  have x: "json_string (key x) (q x)" "json_text (f x) (g x)" using Cons.prems(2) by simp_all
  have sp: "list_all is_ws '' ''" by (simp add: is_ws_def)
  show ?case
  proof (cases xs)
    case Nil
    then show ?thesis using fields_one [OF Cons.prems(3) x(1) _ sp x(2), of "[]" "[NEWLINE]"] by simp
  next
    case (Cons y ys)
    have "json_fields (map (\<lambda>x. (key x, f x)) xs) ([NEWLINE] @ json_lines p (map (\<lambda>x. q x @ '': '' @ g x) xs) @ [])"
      using Cons.IH Cons.prems Cons by (intro fields_ws) simp_all
    then show ?thesis using fields_more [OF Cons.prems(3) x(1) _ sp x(2), of "[]" "[]"] by (simp add: Cons)
  qed
qed simp

section \<open>Arrays and objects\<close>

text \<open>The text of every child at every indentation is JSON for the document \<open>g\<close> gives it.\<close>

definition writes :: "(nid \<Rightarrow> nat \<Rightarrow> string option) \<Rightarrow> (nid \<Rightarrow> dom) \<Rightarrow> nid list \<Rightarrow> bool" where
  "writes sub g cs \<longleftrightarrow> (\<forall>c \<in> set cs. \<forall>depth. \<exists>t. sub c depth = Some t \<and> json_text (g c) t)"

lemma writes_lines:
  assumes "writes sub g cs"
  obtains ts where "those (map (\<lambda>c. sub c depth) cs) = Some ts" "list_all2 json_text (map g cs) ts" "length ts = length cs"
proof -
  have "\<exists>ts. those (map (\<lambda>c. sub c depth) cs) = Some ts \<and> list_all2 json_text (map g cs) ts \<and> length ts = length cs"
    using assms
  proof (induction cs)
    case (Cons c cs)
    obtain t where "sub c depth = Some t" "json_text (g c) t" using Cons.prems unfolding writes_def by (metis list.set_intros(1))
    moreover obtain ts where "those (map (\<lambda>c. sub c depth) cs) = Some ts" "list_all2 json_text (map g cs) ts" "length ts = length cs"
      using Cons.IH Cons.prems unfolding writes_def by (metis list.set_intros(2))
    ultimately show ?case by simp
  qed simp
  then show ?thesis using that by blast
qed

lemma array_text:
  assumes "writes sub g cs" "cs \<noteq> []"
  shows "\<exists>t. array_json opts cs depth sub = Some t \<and> json_text (DArr (map g cs)) t"
proof -
  obtain ts where ts: "those (map (\<lambda>c. sub c (depth + 1)) cs) = Some ts" "list_all2 json_text (map g cs) ts" "length ts = length cs"
    using writes_lines [OF assms(1)] .
  have ne: "ts \<noteq> []" using ts(3) assms(2) by auto
  have "json_elems (map g cs) ([NEWLINE] @ json_lines (pad opts (depth + 1)) ts @ pad opts depth)"
    by (rule elems_ws [OF lines_elems [OF ne ts(2)]]) simp_all
  from text_array [OF this] show ?thesis using ts(1) by (simp add: array_json_def)
qed

definition object_fields :: "(nat \<Rightarrow> string) \<Rightarrow> forest \<Rightarrow> nid \<Rightarrow> nid list \<Rightarrow> (nid \<Rightarrow> dom) \<Rightarrow> (string \<times> dom) list" where
  "object_fields cust st n visible g =
     (let named = filter (\<lambda>c. name_of st c \<noteq> []) visible;
          anonymous = filter (\<lambda>c. name_of st c = []) visible
      in (if isNull (node_value st n) then [] else [(''_value'', var_dom cust (node_value st n))])
         @ map (\<lambda>nm. (nm, g (hd (filter (\<lambda>c. name_of st c = nm) named)))) (first_seen [] (map (name_of st) named))
         @ (if anonymous = [] then [] else [([], DArr (map g anonymous))]))"

text \<open>The children that appear in an object: the first of every name and the nameless ones.\<close>

definition exported :: "forest \<Rightarrow> nid list \<Rightarrow> nid list" where
  "exported st visible =
     (let named = filter (\<lambda>c. name_of st c \<noteq> []) visible
      in map (\<lambda>nm. hd (filter (\<lambda>c. name_of st c = nm) named)) (first_seen [] (map (name_of st) named))
         @ filter (\<lambda>c. name_of st c = []) visible)"

lemma first_seen_set: "set (first_seen seen xs) = set seen \<union> set xs"
  by (induction xs arbitrary: seen) auto

lemma first_seen_dist: "distinct seen \<Longrightarrow> distinct (first_seen seen xs)"
  by (induction xs arbitrary: seen) auto

lemma exported_visible: "set (exported st visible) \<subseteq> set visible"
proof -
  have "hd (filter (\<lambda>c. name_of st c = name_of st d) (filter (\<lambda>c. name_of st c \<noteq> []) visible)) \<in> set visible"
    if "d \<in> set visible" "name_of st d \<noteq> []" for d
  proof -
    have "filter (\<lambda>c. name_of st c = name_of st d) (filter (\<lambda>c. name_of st c \<noteq> []) visible) \<noteq> []"
      using that by (auto simp: filter_empty_conv)
    from hd_in_set [OF this] show ?thesis by simp
  qed
  then show ?thesis by (auto simp: exported_def Let_def first_seen_set simp del: filter_filter)
qed

lemma key_string: "json_string ''_value'' (DQUOTE # ''_value'' @ [DQUOTE])" "json_string [] [DQUOTE, DQUOTE]"
proof -
  have "utf8_string ''_value''" "utf8_string []" by (rule ascii_string; simp add: char_byte_def)+
  then show "json_string ''_value'' (DQUOTE # ''_value'' @ [DQUOTE])" "json_string [] [DQUOTE, DQUOTE]"
    using quoted_string [of "''_value''"] quoted_string [of "[]"]
    by (simp_all add: quoted_def json_escape_def escape_char_def char_byte_def)
qed

lemma those_zip:
  "those (map h xs) = Some ts \<Longrightarrow> those (map (\<lambda>x. map_option (k x) (h x)) xs) = Some (map (\<lambda>(x, t). k x t) (zip xs ts))"
  by (induction xs arbitrary: ts) (auto split: option.splits)

lemma map_zip_fst: "length ts = length xs \<Longrightarrow> map (\<lambda>p. h (fst p)) (zip xs ts) = map h xs"
  by (induction ts xs rule: list_induct2) simp_all

text \<open>The fields of an object as key, key text, document and text.\<close>

lemma items_text:
  fixes xs :: "(string \<times> string \<times> dom \<times> string) list"
  assumes "xs \<noteq> []" "\<forall>x \<in> set xs. json_string (fst x) (fst (snd x)) \<and> json_text (fst (snd (snd x))) (snd (snd (snd x)))"
  shows "json_text (DObj (map (\<lambda>x. (fst x, fst (snd (snd x)))) xs)) (''{'' @ [NEWLINE]
    @ json_lines (pad opts (depth + 1)) (map (\<lambda>x. fst (snd x) @ '': '' @ snd (snd (snd x))) xs) @ pad opts depth @ ''}'')"
proof -
  have "json_fields (map (\<lambda>x. (fst x, fst (snd (snd x)))) xs)
      ([NEWLINE] @ json_lines (pad opts (depth + 1)) (map (\<lambda>x. fst (snd x) @ '': '' @ snd (snd (snd x))) xs) @ pad opts depth)"
    by (rule fields_ws [OF lines_fields [OF assms]]) simp_all
  from text_object [OF this] show ?thesis by simp
qed

lemma names_written:
  assumes "writes sub g (map pick names)"
  obtains ts where "those (map (\<lambda>nm. sub (pick nm) depth) names) = Some ts" "length ts = length names"
    "\<And>nm t. (nm, t) \<in> set (zip names ts) \<Longrightarrow> json_text (g (pick nm)) t"
proof -
  from writes_lines [OF assms, of depth] obtain ts where ts: "those (map (\<lambda>c. sub c depth) (map pick names)) = Some ts"
    "list_all2 json_text (map g (map pick names)) ts" by metis
  from ts(2) have "list_all2 json_text (map (\<lambda>nm. g (pick nm)) names) ts" by (simp add: o_def)
  then have "length ts = length names" "\<And>nm t. (nm, t) \<in> set (zip names ts) \<Longrightarrow> json_text (g (pick nm)) t"
    by (auto simp: list_all2_conv_all_nth in_set_zip)
  then show ?thesis using that [of ts] ts(1) by (simp add: o_def)
qed

lemma object_text:
  assumes w: "writes sub g (exported st visible)" and ne: "visible \<noteq> []" "name_of st (hd visible) \<noteq> []"
    and ok: "text_ok cust (node_value st n)" "\<forall>c \<in> set visible. utf8_string (name_of st c)"
  shows "\<exists>t. object_json cust opts st n visible depth sub = Some t \<and> json_text (DObj (object_fields cust st n visible g)) t"
proof -
  define named where "named = filter (\<lambda>c. name_of st c \<noteq> []) visible"
  define anon where "anon = filter (\<lambda>c. name_of st c = []) visible"
  define names where "names = first_seen [] (map (name_of st) named)"
  define pick where "pick = (\<lambda>nm. hd (filter (\<lambda>c. name_of st c = nm) named))"
  have "exported st visible = map pick names @ anon" by (simp add: exported_def names_def named_def anon_def pick_def Let_def)
  then have wn: "writes sub g (map pick names)" "writes sub g anon" using w by (simp_all add: writes_def)
  from names_written [OF wn(1), of "depth + 1"] obtain ts
    where ts: "those (map (\<lambda>nm. sub (pick nm) (depth + 1)) names) = Some ts"
    and tn: "length ts = length names" "\<And>nm t. (nm, t) \<in> set (zip names ts) \<Longrightarrow> json_text (g (pick nm)) t" by metis
  have un: "utf8_string nm" if "nm \<in> set names" for nm
    using that ok(2) by (auto simp: names_def first_seen_set named_def)
  from writes_lines [OF wn(2), of "depth + 2"] obtain us where us: "those (map (\<lambda>c. sub c (depth + 2)) anon) = Some us"
    "list_all2 json_text (map g anon) us" "length us = length anon" by metis
  let ?block = "''['' @ [NEWLINE] @ json_lines (pad opts (depth + 2)) us @ pad opts (depth + 1) @ '']''"
  define xs where "xs = (if isNull (node_value st n) then []
      else [(''_value'', DQUOTE # ''_value'' @ [DQUOTE], var_dom cust (node_value st n), varToJson cust (node_value st n))])
    @ map (\<lambda>(nm, t). (nm, quoted nm, g (pick nm), t)) (zip names ts)
    @ (if anon = [] then [] else [([], [DQUOTE, DQUOTE], DArr (map g anon), ?block)])"
  have block: "json_text (DArr (map g anon)) ?block" if "anon \<noteq> []"
    using text_array [OF elems_ws [OF lines_elems [OF _ us(2)], of "pad opts (depth + 2)" "[NEWLINE]" "pad opts (depth + 1)"]]
      us(3) that by fastforce
  have each: "\<forall>x \<in> set xs. json_string (fst x) (fst (snd x)) \<and> json_text (fst (snd (snd x))) (snd (snd (snd x)))"
    using key_string value_text [OF ok(1)] tn(2) block un quoted_string
    by (auto simp: xs_def dest: set_zip_leftD)
  have "hd visible \<in> set named" using ne by (simp add: named_def)
  then have "names \<noteq> []" unfolding names_def using first_seen_set [of "[]" "map (name_of st) named"] by fastforce
  then have "xs \<noteq> []" using tn(1) by (cases names; cases ts) (auto simp: xs_def)
  note tx = items_text [OF this each, of opts depth]
  have "map (\<lambda>x. (fst x, fst (snd (snd x)))) xs = object_fields cust st n visible g"
    using map_zip_fst [OF tn(1), of "\<lambda>nm. (nm, g (pick nm))"]
    by (simp add: xs_def object_fields_def Let_def case_prod_unfold o_def pick_def flip: named_def anon_def names_def)
  moreover have "object_json cust opts st n visible depth sub = Some (''{'' @ [NEWLINE]
      @ json_lines (pad opts (depth + 1)) (map (\<lambda>x. fst (snd x) @ '': '' @ snd (snd (snd x))) xs) @ pad opts depth @ ''}'')"
    using those_zip [OF ts, of "\<lambda>nm t. quoted nm @ '': '' @ t"] us(1)
    by (simp add: xs_def object_json_def Let_def case_prod_unfold o_def pick_def flip: named_def anon_def names_def)
  ultimately show ?thesis using tx by simp
qed

section \<open>The exporters agree\<close>

lemma those_Some_each: "those (map h xs) = Some ys \<Longrightarrow> ys = map (\<lambda>x. the (h x)) xs \<and> (\<forall>x \<in> set xs. h x \<noteq> None)"
  by (induction xs arbitrary: ys) (auto split: option.splits)

lemma those_pairs:
  "those (map (\<lambda>x. map_option (Pair x) (h x)) xs) = Some kvs \<Longrightarrow> kvs = map (\<lambda>x. (x, the (h x))) xs \<and> (\<forall>x \<in> set xs. h x \<noteq> None)"
  by (induction xs arbitrary: kvs) (auto split: option.splits)

lemma dict_put_new: "k \<notin> fst ` set d \<Longrightarrow> dict_put k v d = d @ [(k, v)]"
  by (simp add: dict_put_def update_absent)

text \<open>The children an exporter reaches have UTF-8 names other than \<open>_value\<close>, which an object uses for
  the node's own value.\<close>

definition names_ok :: "forest \<Rightarrow> bool" where
  "names_ok st \<longleftrightarrow> (\<forall>m c. alive st m \<longrightarrow> c \<in> set (kids st m) \<longrightarrow> alive st c \<and> utf8_string (name_of st c) \<and> name_of st c \<noteq> ''_value'')"

definition object_entries :: "forest \<Rightarrow> nid \<Rightarrow> nid list \<Rightarrow> (nid \<Rightarrow> var) \<Rightarrow> (string \<times> var) list" where
  "object_entries st n visible val =
     (let named = filter (\<lambda>c. name_of st c \<noteq> []) visible;
          anonymous = filter (\<lambda>c. name_of st c = []) visible
      in (if isNull (node_value st n) then [] else [(''_value'', node_value st n)])
         @ map (\<lambda>nm. (nm, val (hd (filter (\<lambda>c. name_of st c = nm) named)))) (first_seen [] (map (name_of st) named))
         @ (if anonymous = [] then [] else [([], VList (map val anonymous))]))"

lemma entries_fields:
  "map (\<lambda>(k, x). (k, var_dom cust x)) (object_entries st n vis val) = object_fields cust st n vis (\<lambda>c. var_dom cust (val c))"
  by (simp add: object_entries_def object_fields_def Let_def)

lemma object_value:
  assumes "nodeToVar (Suc fuel) ign st n = Some v" "filter (\<lambda>c. \<not> isIgnoredChild ign (name_of st c)) (kids st n) = vis"
    "vis \<noteq> []" "name_of st (hd vis) \<noteq> []" "\<forall>c \<in> set vis. name_of st c \<noteq> ''_value''"
  shows "v = VDict (object_entries st n vis (\<lambda>c. the (nodeToVar fuel ign st c)))
    \<and> (\<forall>c \<in> set (exported st vis). nodeToVar fuel ign st c \<noteq> None)"
proof -
  define named where "named = filter (\<lambda>c. name_of st c \<noteq> []) vis"
  define anon where "anon = filter (\<lambda>c. name_of st c = []) vis"
  define names where "names = first_seen [] (map (name_of st) named)"
  define h where "h = (\<lambda>nm. nodeToVar fuel ign st (hd (filter (\<lambda>c. name_of st c = nm) named)))"
  define d0 where "d0 = (if isNull (node_value st n) then [] else [(''_value'', node_value st n)])"
  have one: "dict_put ''_value'' x [] = [(''_value'', x)]" for x :: var by (simp add: dict_put_def)
  have "nodeToVar (Suc fuel) ign st n = do {
      kvs \<leftarrow> those (map (\<lambda>nm. map_option (Pair nm) (h nm)) names);
      vs \<leftarrow> those (map (nodeToVar fuel ign st) anon);
      Some (VDict (if anon = [] then put_all kvs d0 else dict_put [] (VList vs) (put_all kvs d0))) }"
    unfolding nodeToVar.simps Let_def assms(2) case_hd [OF assms(3)] h_def d0_def names_def named_def anon_def one
    using assms(4) by simp
  then obtain kvs vs where kvs: "those (map (\<lambda>nm. map_option (Pair nm) (h nm)) names) = Some kvs"
    and vs: "those (map (nodeToVar fuel ign st) anon) = Some vs"
    and v: "v = VDict (if anon = [] then put_all kvs d0 else dict_put [] (VList vs) (put_all kvs d0))"
    using assms(1) by (auto simp: bind_eq_Some_conv)
  note k = those_pairs [OF kvs] and l = those_Some_each [OF vs]
  have nm: "set names = set (map (name_of st) vis) - {[]}" "distinct names" "''_value'' \<notin> set names"
    using assms(5) by (auto simp: names_def named_def first_seen_set first_seen_dist)
  have fk: "fst ` set kvs = set names" "map fst kvs = names" using k by (simp_all add: image_image o_def)
  have pa: "put_all kvs d0 = d0 @ kvs" using nm fk by (intro put_all_distinct) (auto simp: d0_def)
  have pb: "dict_put [] (VList vs) (d0 @ kvs) = d0 @ kvs @ [([], VList vs)]"
    using nm(1) fk(1) by (subst dict_put_new) (auto simp: d0_def)
  have "v = VDict (object_entries st n vis (\<lambda>c. the (nodeToVar fuel ign st c)))"
    using v pa pb k l by (simp add: d0_def object_entries_def Let_def h_def flip: named_def anon_def names_def)
  moreover have "\<forall>c \<in> set (exported st vis). nodeToVar fuel ign st c \<noteq> None"
    using k l by (auto simp: exported_def Let_def h_def simp flip: named_def anon_def names_def)
  ultimately show ?thesis by blast
qed

lemma null_iff: "isNull v \<longleftrightarrow> v = VNone"
  by (cases v) (simp_all add: isNull_def)

lemma entries_text_ok:
  assumes "text_ok cust (VDict (object_entries st n vis val))" "c \<in> set (exported st vis)"
  shows "text_ok cust (val c)"
proof -
  define names where "names = first_seen [] (map (name_of st) (filter (\<lambda>c. name_of st c \<noteq> []) vis))"
  define pick where "pick = (\<lambda>nm. hd (filter (\<lambda>c. name_of st c = nm) (filter (\<lambda>c. name_of st c \<noteq> []) vis)))"
  define anon where "anon = filter (\<lambda>c. name_of st c = []) vis"
  have "exported st vis = map pick names @ anon"
    by (simp add: exported_def Let_def names_def pick_def anon_def)
  then have c: "c \<in> pick ` set names \<or> c \<in> set anon" using assms(2) by auto
  have sub: "set (map (\<lambda>nm. (nm, val (pick nm))) names @ (if anon = [] then [] else [([], VList (map val anon))]))
      \<subseteq> set (object_entries st n vis val)"
    unfolding object_entries_def Let_def names_def pick_def anon_def by (auto simp del: filter_filter)
  have all: "text_ok cust x" if "(k, x) \<in> set (object_entries st n vis val)" for k x using assms(1) that by auto
  from c show ?thesis
  proof
    assume "c \<in> pick ` set names"
    then obtain nm where "nm \<in> set names" "c = pick nm" by blast
    then show ?thesis using all [of nm "val (pick nm)"] sub by auto
  next
    assume a: "c \<in> set anon"
    then have "anon \<noteq> []" by auto
    then have "([], VList (map val anon)) \<in> set (object_entries st n vis val)" using sub by simp
    from all [OF this] show ?thesis using a by simp
  qed
qed

lemma entries_value_ok:
  assumes "text_ok cust (VDict (object_entries st n vis val))"
  shows "text_ok cust (node_value st n)"
  using assms by (cases "node_value st n = VNone") (auto simp: object_entries_def Let_def null_iff)

text \<open>The JSON text of a subtree is a text of the document of its value.\<close>

lemma export_text:
  assumes names: "names_ok st" and opts: "0 \<le> json_indent opts"
  shows "nodeToVar fuel (json_auto_ignore opts) st n = Some v \<Longrightarrow> alive st n \<Longrightarrow> text_ok cust v
    \<Longrightarrow> \<exists>t. nodeToJsonImpl fuel cust opts st n depth = Some t \<and> json_text (var_dom cust v) t"
proof (induction fuel arbitrary: n v depth)
  case (Suc fuel)
  let ?ign = "json_auto_ignore opts"
  define vis where "vis = visible_children opts st n"
  define val where "val = (\<lambda>c. the (nodeToVar fuel ?ign st c))"
  have vis: "filter (\<lambda>c. \<not> isIgnoredChild ?ign (name_of st c)) (kids st n) = vis"
    by (simp add: vis_def visible_children_def)
  have kid: "alive st c \<and> utf8_string (name_of st c) \<and> name_of st c \<noteq> ''_value''" if "c \<in> set vis" for c
    using names Suc.prems(2) that by (auto simp: names_ok_def vis_def visible_children_def)
  have sub: "writes (nodeToJsonImpl fuel cust opts st) (\<lambda>c. var_dom cust (val c)) cs"
    if "\<And>c. c \<in> set cs \<Longrightarrow> c \<in> set vis \<and> nodeToVar fuel ?ign st c \<noteq> None \<and> text_ok cust (val c)" for cs
    using that Suc.IH kid unfolding writes_def val_def by (metis option.collapse)
  consider "vis = []" | "vis \<noteq> []" "name_of st (hd vis) = []" | "vis \<noteq> []" "name_of st (hd vis) \<noteq> []" by blast
  then show ?case
  proof cases
    case 1
    then have "v = node_value st n" using Suc.prems(1) vis by simp
    then show ?thesis using 1 opts value_text [OF Suc.prems(3)] text_null
      by (cases "v = VNone") (auto simp: leaf_json_def null_iff simp flip: vis_def)
  next
    case 2
    then obtain xs where xs: "those (map (nodeToVar fuel ?ign st) vis) = Some xs" "v = VList xs"
      using Suc.prems(1) by (auto simp: vis Let_def case_hd)
    note e = those_Some_each [OF xs(1)]
    have "text_ok cust (val c)" if "c \<in> set vis" for c using Suc.prems(3) e that by (auto simp: xs(2) val_def)
    then have "writes (nodeToJsonImpl fuel cust opts st) (\<lambda>c. var_dom cust (val c)) vis" using e by (intro sub) auto
    from array_text [OF this 2(1), of opts depth] show ?thesis
      using 2 opts e by (auto simp: xs(2) case_hd o_def val_def simp flip: vis_def)
  next
    case 3
    note o = object_value [OF Suc.prems(1) vis 3] 
    have v: "v = VDict (object_entries st n vis val)" using o kid by (auto simp: val_def)
    have "writes (nodeToJsonImpl fuel cust opts st) (\<lambda>c. var_dom cust (val c)) (exported st vis)"
      using o kid exported_visible [of st vis] entries_text_ok [OF Suc.prems(3) [unfolded v]] by (intro sub) auto
    from object_text [OF this 3 entries_value_ok [OF Suc.prems(3) [unfolded v]], of opts depth] show ?thesis
      using 3 opts kid entries_fields [of cust st n vis val] by (auto simp: v case_hd simp flip: vis_def)
  qed
qed simp

section \<open>The importers agree\<close>

text \<open>Documents whose objects have no key twice.\<close>

fun dom_wf :: "dom \<Rightarrow> bool" where
  "dom_wf (DArr ds) = (\<forall>d \<in> set ds. dom_wf d)"
| "dom_wf (DObj fs) = (distinct (map fst fs) \<and> (\<forall>(k, d) \<in> set fs. dom_wf d))"
| "dom_wf d = True"

lemma domToVar_obj:
  assumes "domToVar (DObj fs) = Some v" "distinct (map fst fs)"
  obtains kvs where "v = VDict kvs" "list_all2 (\<lambda>(k, d) (k', x). k' = k \<and> domToVar d = Some x) fs kvs"
proof -
  obtain kvs where kvs: "those (map (\<lambda>(k, d). map_option (Pair k) (domToVar d)) fs) = Some kvs" "v = VDict (put_all kvs [])"
    using assms(1) by auto
  have r: "list_all2 (\<lambda>(k, d) (k', x). k' = k \<and> domToVar d = Some x) fs kvs"
    using kvs(1) by (induction fs arbitrary: kvs) (auto split: option.splits)
  then have "map fst kvs = map fst fs" by (induction rule: list_all2_induct) auto
  then have "put_all kvs [] = kvs" using put_all_distinct [of kvs "[]"] assms(2) by simp
  then show ?thesis using that [of kvs] kvs(2) r by simp
qed

lemma domToVar_arr:
  assumes "domToVar (DArr ds) = Some v"
  obtains xs where "v = VList xs" "list_all2 (\<lambda>d x. domToVar d = Some x) ds xs"
proof -
  obtain xs where xs: "those (map domToVar ds) = Some xs" "v = VList xs" using assms by auto
  have "list_all2 (\<lambda>d x. domToVar d = Some x) ds xs"
    using xs(1) by (induction ds arbitrary: xs) (auto split: option.splits)
  then show ?thesis using that xs(2) by blast
qed

text \<open>The two branches for lists are the general ones.\<close>

lemma array_branch: "(case d of DArr ds \<Rightarrow> append_elems ds c st | _ \<Rightarrow> domToNode d c st) = domToNode d c st"
  by (cases d) simp_all

definition agrees_on :: "dom \<Rightarrow> bool" where
  "agrees_on d \<longleftrightarrow> (\<forall>v n st. domToVar d = Some v \<longrightarrow> domToNode d n st = varToNode v n st)"

lemma nameless_branch:
  assumes "agrees_on d" "domToVar d = Some v"
  shows "(case d of DArr ds \<Rightarrow> append_elems ds n st | _ \<Rightarrow> Some st) = (case v of VList xs \<Rightarrow> elems_to_node xs n st | _ \<Rightarrow> Some st)"
proof (cases "\<exists>ds. d = DArr ds")
  case True
  then obtain ds xs where d: "d = DArr ds" "v = VList xs" using assms(2) by (auto elim: domToVar_arr)
  then have "domToNode d n st = varToNode v n st" using assms by (simp add: agrees_on_def)
  then show ?thesis by (simp add: d)
next
  case False
  then have "\<not> isList v" using assms(2) by (cases d) (auto simp: isList_def)
  then show ?thesis using False by (cases d; cases v) (simp_all add: isList_def)
qed

lemma fields_agree:
  "list_all2 (\<lambda>(k, d) (k', x). k' = k \<and> domToVar d = Some x) fs kvs \<Longrightarrow> \<forall>(k, d) \<in> set fs. agrees_on d
     \<Longrightarrow> importObjectFields fs n st = entries_to_node kvs n st"
proof (induction fs arbitrary: kvs st)
  case (Cons f fs)
  obtain k d where f: "f = (k, d)" by force
  then obtain v kvs' where v: "kvs = (k, v) # kvs'" "domToVar d = Some v"
    "list_all2 (\<lambda>(k, d) (k', x). k' = k \<and> domToVar d = Some x) fs kvs'"
    using Cons.prems(1) by (auto simp: list_all2_Cons1)
  have ag: "agrees_on d" "\<And>c st. domToNode d c st = varToNode v c st"
    using Cons.prems(2) v(2) by (auto simp: f agrees_on_def)
  have "importObjectFields fs n st = entries_to_node kvs' n st" for st
    using Cons.IH [OF v(3)] Cons.prems(2) by simp
  then show ?case
    by (simp add: f v(1,2) array_branch list_branch nameless_branch [OF ag(1) v(2)] ag(2) split: option.split prod.split)
qed simp

lemma elems_agree:
  "list_all2 (\<lambda>d x. domToVar d = Some x) ds xs \<Longrightarrow> \<forall>d \<in> set ds. agrees_on d
     \<Longrightarrow> append_elems ds n st = elems_to_node xs n st"
proof (induction ds arbitrary: xs st)
  case (Cons d ds)
  then obtain x xs' where x: "xs = x # xs'" "domToVar d = Some x" "list_all2 (\<lambda>d x. domToVar d = Some x) ds xs'"
    by (auto simp: list_all2_Cons1)
  have "append_elems ds n st = elems_to_node xs' n st" for st using Cons.IH [OF x(3)] Cons.prems(2) by simp
  moreover have "domToNode d c st = varToNode x c st" for c st using Cons.prems(2) x(2) by (auto simp: agrees_on_def)
  ultimately show ?case by (simp add: x(1) split: option.splits)
qed simp

lemma import_agrees: "dom_wf d \<Longrightarrow> agrees_on d"
proof (induction d)
  case (DArr ds)
  then have "\<forall>d \<in> set ds. agrees_on d" by simp
  then show ?case using elems_agree by (auto simp: agrees_on_def elim!: domToVar_arr simp del: domToVar.simps)
next
  case (DObj fs)
  then have ag: "\<forall>(k, d) \<in> set fs. agrees_on d" by fastforce
  show ?case unfolding agrees_on_def
  proof (intro allI impI)
    fix v n st assume "domToVar (DObj fs) = Some v"
    then obtain kvs where "v = VDict kvs" "list_all2 (\<lambda>(k, d) (k', x). k' = k \<and> domToVar d = Some x) fs kvs"
      using DObj.prems domToVar_obj [of fs v] by (metis dom_wf.simps(2))
    then show "domToNode (DObj fs) n st = varToNode v n st" using fields_agree [OF _ ag] by simp
  qed
qed (auto simp: agrees_on_def)

section \<open>Trees through text\<close>

lemma depth_unlimited:
  "maxDepth < 0 \<Longrightarrow> nodeToJsonImplWithDepth fuel cust opts maxDepth st n depth cur = nodeToJsonImpl fuel cust opts st n depth"
proof (induction fuel arbitrary: n depth cur)
  case (Suc fuel)
  then show ?case by (auto simp: Let_def split: list.split)
qed simp

text \<open>C35: The two exporters agree: the text \<open>exportTree\<close> writes for a node is JSON, and its document is the
  one of the value the schema exporter gives for the node, whatever the indentation and with ignored
  children left out by both. A negative depth limit is no limit.\<close>

theorem json_export_matches:
  assumes "names_ok st" "alive st n" "0 \<le> json_indent opts"
    and "exportNode (json_auto_ignore opts) (Some n) st = Some v" "text_ok cust v"
  shows "(\<exists>t. exportTree_json cust opts (Some n) st = Some (t @ [NEWLINE]) \<and> json_text (var_dom cust v) t)
    \<and> (maxDepth < 0 \<longrightarrow> exportTree_json_depth cust maxDepth opts (Some n) st = exportTree_json cust opts (Some n) st)"
proof -
  have "nodeToVar (next_id st + 1) (json_auto_ignore opts) st n = Some v" using assms(4) by (simp add: exportNode_def)
  from export_text [OF assms(1,3) this assms(2,5), of 0] show ?thesis
    using depth_unlimited
    by (auto simp: exportTree_json_def exportTree_json_depth_def simp del: nodeToJsonImpl.simps nodeToJsonImplWithDepth.simps)
qed

lemma plain_dom_wf: "json_plain v \<Longrightarrow> dom_wf (var_dom cust v)"
proof (induction v)
  case (VDict d)
  have "map fst (map (\<lambda>(k, x). (k, var_dom cust x)) d) = map fst d" by (simp add: case_prod_unfold)
  moreover have "dom_wf (var_dom cust x)" if "(k, x) \<in> set d" for k x
    using VDict.IH [OF that, of x] VDict.prems that by auto
  ultimately show ?case using VDict.prems by (auto simp: dict_wf_def simp del: map_map)
qed auto


definition demo_json :: json_options where
  "demo_json = \<lparr>json_indent = 2, json_auto_ignore = False\<rparr>"

lemma demo_strings: "utf8_string ''arm''" "utf8_string ''robot''"
  by (rule ascii_string; simp add: char_byte_def)+

lemma demo_names: "names_ok demo"
  using demo_strings demo_kids demo_name demo_alive demo_only by (fastforce simp: names_ok_def)

lemma demo_value: "exportNode False (Some 2) demo = Some (VDict [(''arm'', VNone)])"
  and demo_text: "exportTree_json cust demo_json (Some 2) demo
      = Some (''{'' @ [NEWLINE] @ ''  '' @ quoted ''arm'' @ '': null'' @ [NEWLINE] @ ''}'' @ [NEWLINE])"
proof -
  have nv: "node_value demo 2 = VNone" "node_value demo 3 = VNone" by (simp_all add: node_value_def demo_obj demo_node_def)
  have two: "replicate 2 x = [x, x]" for x :: char by (simp add: numeral_2_eq_2)
  have f: "next_id demo + 1 = Suc (Suc 4)" by (simp add: demo_alive)
  show "exportNode False (Some 2) demo = Some (VDict [(''arm'', VNone)])"
    unfolding exportNode_def f option.case nodeToVar.simps
    by (simp add: demo_kids demo_name nv isIgnoredChild_def isNull_def dict_put_def Let_def)
  show "exportTree_json cust demo_json (Some 2) demo
      = Some (''{'' @ [NEWLINE] @ ''  '' @ quoted ''arm'' @ '': null'' @ [NEWLINE] @ ''}'' @ [NEWLINE])"
    unfolding exportTree_json_def f option.case nodeToJsonImpl.simps
    by (simp add: demo_json_def demo_kids demo_name nv isIgnoredChild_def isNull_def visible_children_def object_json_def
        leaf_json_def pad_def Let_def two)
qed

theorem json_export_matches_witness:
  "\<exists>t. exportTree_json (\<lambda>_. []) demo_json (Some 2) demo = Some (t @ [NEWLINE])
     \<and> json_text (DObj [(''arm'', DNull)]) t"
  using json_export_matches [OF demo_names demo_alive(2), of demo_json "VDict [(''arm'', VNone)]" "\<lambda>_. []"] demo_value demo_strings
  by (auto simp: demo_json_def)


end
