(* ===== verification/Command_Args.thy ===== *)
theory Command_Args
  imports Protocol_Reply "HOL-Library.AList"
begin

text \<open>
  Arguments of commands: values and flags out of words (\<open>ve/src/core/parse_util.h\<close>), the words of a
  command line bound to the parameters a command declares, and reading them back with the declared
  defaults (\<open>ve/src/core/command.cpp\<close>). A context is a node whose shadow is the declaration; its
  children are the arguments. \<open>None\<close> is an exception of the number parser or a null pointer
  dereferenced. \<open>cust\<close> is the text of custom payloads.
\<close>

section \<open>Words\<close>

definition unsigned_part :: "string \<Rightarrow> string" where
  "unsigned_part s = (case s of [] \<Rightarrow> [] | c # cs \<Rightarrow> if c = CHR ''-'' \<or> c = CHR ''+'' then cs else s)"

definition isInt :: "string \<Rightarrow> bool" where
  "isInt s \<longleftrightarrow> unsigned_part s \<noteq> [] \<and> list_all is_digit (unsigned_part s)"

fun one_dot :: "bool \<Rightarrow> string \<Rightarrow> bool" where
  "one_dot dot [] = dot"
| "one_dot dot (c # cs) =
     (if c = CHR ''.'' then (if dot then False else one_dot True cs)
      else if \<not> is_digit c then False else one_dot dot cs)"

definition isDouble :: "string \<Rightarrow> bool" where
  "isDouble s \<longleftrightarrow> unsigned_part s \<noteq> [] \<and> one_dot False (unsigned_part s)"

definition parseValue :: "string \<Rightarrow> var option" where
  "parseValue raw =
     (if raw = ''null'' then Some VNone
      else if raw = ''true'' then Some (VBool True)
      else if raw = ''false'' then Some (VBool False)
      else if 2 \<le> length raw \<and> hd raw = CHR 0x22 \<and> last raw = CHR 0x22 then Some (VString (butlast (tl raw)))
      else if isInt raw then map_option (\<lambda>i. VInt (of_int i)) (stoll raw)
      else if isDouble raw then map_option VDouble (stod raw)
      else Some (VString raw))"

text \<open>Where a word \<open>--name=value\<close> is split.\<close>

definition split_eq :: "string \<Rightarrow> (string \<times> string) option" where
  "split_eq token =
     (let body = drop 2 token; nm = takeWhile (\<lambda>c. c \<noteq> CHR ''='') body
      in if length nm < length body then Some (nm, drop (length nm + 1) body) else None)"

section \<open>Flags\<close>

record flags =
  named :: "(string \<times> string) list"
  positional :: "string list"

definition flag_match :: "string \<Rightarrow> char option \<Rightarrow> string \<Rightarrow> bool" where
  "flag_match longName shortName k \<longleftrightarrow>
     k = longName \<or> (case shortName of None \<Rightarrow> False | Some c \<Rightarrow> k = [c])"

definition flags_has :: "flags \<Rightarrow> string \<Rightarrow> char option \<Rightarrow> bool" where
  "flags_has f longName shortName \<longleftrightarrow> list_ex (\<lambda>(k, _). flag_match longName shortName k) (named f)"

definition flags_value :: "flags \<Rightarrow> string \<Rightarrow> char option \<Rightarrow> string \<Rightarrow> string" where
  "flags_value f longName shortName def =
     (case List.find (\<lambda>(k, _). flag_match longName shortName k) (named f) of
        None \<Rightarrow> def | Some (_, v) \<Rightarrow> if v = [] then def else v)"

definition flags_pos :: "flags \<Rightarrow> int \<Rightarrow> string" where
  "flags_pos f idx = (if 0 \<le> idx \<and> idx < int (length (positional f)) then positional f ! nat idx else [])"

definition flags_posCount :: "flags \<Rightarrow> int" where
  "flags_posCount f = int (length (positional f))"

text \<open>The word after a flag is its value unless it starts with a dash.\<close>

definition takes_next :: "string list \<Rightarrow> bool" where
  "takes_next rest = (case rest of [] \<Rightarrow> False | b # _ \<Rightarrow> b \<noteq> [] \<and> hd b \<noteq> CHR ''-'')"

definition add_named :: "string \<Rightarrow> string \<Rightarrow> flags \<Rightarrow> flags" where
  "add_named k v f = f\<lparr>named := named f @ [(k, v)]\<rparr>"

definition add_positional :: "string \<Rightarrow> flags \<Rightarrow> flags" where
  "add_positional a f = f\<lparr>positional := positional f @ [a]\<rparr>"

text \<open>A word of short flags: the last of them takes the value.\<close>

fun add_short :: "string \<Rightarrow> string \<Rightarrow> flags \<Rightarrow> flags" where
  "add_short [] v f = f"
| "add_short [c] v f = add_named [c] v f"
| "add_short (c # cs) v f = add_short cs v (add_named [c] [] f)"

fun flag_loop :: "bool \<Rightarrow> string list \<Rightarrow> flags \<Rightarrow> flags" where
  "flag_loop endOfFlags [] f = f"
| "flag_loop True (a # rest) f = flag_loop True rest (add_positional a f)"
| "flag_loop False (a # rest) f =
     (if a = ''--'' then flag_loop True rest f
      else if 2 < length a \<and> a ! 0 = CHR ''-'' \<and> a ! 1 = CHR ''-'' then
        (case split_eq a of
           Some (k, v) \<Rightarrow> flag_loop False rest (add_named k v f)
         | None \<Rightarrow>
             if takes_next rest then flag_loop False (tl rest) (add_named (drop 2 a) (hd rest) f)
             else flag_loop False rest (add_named (drop 2 a) [] f))
      else if 1 < length a \<and> a ! 0 = CHR ''-'' \<and> \<not> isInt a \<and> \<not> isDouble a then
        (if takes_next rest then flag_loop False (tl rest) (add_short (tl a) (hd rest) f)
         else flag_loop False rest (add_short (tl a) [] f))
      else flag_loop False rest (add_positional a f))"

text \<open>A negative start index becomes a huge one.\<close>

definition from_index :: "int \<Rightarrow> 'a list \<Rightarrow> 'a list" where
  "from_index i xs = (if i < 0 then [] else drop (nat i) xs)"

definition parseFlags :: "string list \<Rightarrow> int \<Rightarrow> flags" where
  "parseFlags args startIdx = flag_loop False (from_index startIdx args) \<lparr>named = [], positional = []\<rparr>"

section \<open>Binding the words of a command line\<close>

record decl_info =
  paramOrder :: "string list"
  shortMap :: "string \<Rightarrow> string option"
  longNames :: "string list"

definition hidden_name :: "string \<Rightarrow> bool" where
  "hidden_name nm \<longleftrightarrow> nm = [] \<or> hd nm = CHR ''_''"

definition short_node :: "forest \<Rightarrow> nid \<Rightarrow> nid option option" where
  "short_node st param = find_path st param ''_short'' False VE_NODE_PATH_SEP VE_NODE_KEY_SEP"

fun decl_loop :: "(nat \<Rightarrow> string) \<Rightarrow> forest \<Rightarrow> nid list \<Rightarrow> decl_info \<Rightarrow> decl_info option" where
  "decl_loop cust st [] di = Some di"
| "decl_loop cust st (param # ps) di =
     (let nm = name_of st param
      in if hidden_name nm then decl_loop cust st ps di
         else
           (let di1 = di\<lparr>longNames := longNames di @ [nm]\<rparr>
            in case short_node st param of
                 None \<Rightarrow> None
               | Some None \<Rightarrow> decl_loop cust st ps (di1\<lparr>paramOrder := paramOrder di1 @ [nm]\<rparr>)
               | Some (Some sn) \<Rightarrow>
                   (let s = var_text cust [] (node_value st sn)
                    in decl_loop cust st ps
                         (if s = [] then di1 else di1\<lparr>shortMap := (shortMap di1)(s \<mapsto> nm)\<rparr>))))"

definition buildDeclInfo :: "(nat \<Rightarrow> string) \<Rightarrow> forest \<Rightarrow> nid option \<Rightarrow> decl_info option" where
  "buildDeclInfo cust st decl =
     (let di = \<lparr>paramOrder = [], shortMap = Map.empty, longNames = []\<rparr>
      in case decl of None \<Rightarrow> Some di | Some d \<Rightarrow> decl_loop cust st (kids st d) di)"

definition isKeyword :: "decl_info \<Rightarrow> string \<Rightarrow> string" where
  "isKeyword di token =
     (if length token < 2 \<or> token ! 0 \<noteq> CHR ''-'' then []
      else if isInt token \<or> isDouble token then []
      else if token ! 1 = CHR ''-'' then
        (let nm = (case split_eq token of Some (nm, _) \<Rightarrow> nm | None \<Rightarrow> drop 2 token)
         in if nm \<in> set (longNames di) then nm else [])
      else if length token = 2 then
        (case shortMap di [token ! 1] of Some nm \<Rightarrow> nm | None \<Rightarrow> [])
      else [])"

text \<open>The form \<open>--name=value\<close> with a declared name.\<close>

definition inline_form :: "decl_info \<Rightarrow> string \<Rightarrow> (string \<times> string) option" where
  "inline_form di token =
     (if 2 < length token \<and> token ! 0 = CHR ''-'' \<and> token ! 1 = CHR ''-'' then
        (case split_eq token of
           Some (nm, raw) \<Rightarrow> if nm \<in> set (longNames di) then Some (nm, raw) else None
         | None \<Rightarrow> None)
      else None)"

definition set_own :: "nid \<Rightarrow> string \<Rightarrow> var \<Rightarrow> forest \<Rightarrow> forest option" where
  "set_own ctx p v st =
     (case ensure_path ctx p False VE_NODE_PATH_SEP VE_NODE_KEY_SEP st of
        Some (Some c, st1) \<Rightarrow> set_value c v st1 | _ \<Rightarrow> None)"

definition set_own_index :: "nid \<Rightarrow> int \<Rightarrow> var \<Rightarrow> forest \<Rightarrow> forest option" where
  "set_own_index ctx i v st =
     (case ensure_index ctx i False st of
        Some (Some c, st1) \<Rightarrow> set_value c v st1 | _ \<Rightarrow> None)"

fun args_loop :: "decl_info \<Rightarrow> nid \<Rightarrow> string list \<Rightarrow> string \<Rightarrow> nat \<Rightarrow> forest \<Rightarrow> (string \<times> forest) option" where
  "args_loop di ctx [] target posIndex st = Some (target, st)"
| "args_loop di ctx (token # ts) target posIndex st =
     (case inline_form di token of
        Some (nm, raw) \<Rightarrow>
          do { v \<leftarrow> parseValue raw; st1 \<leftarrow> set_own ctx nm v st; args_loop di ctx ts [] posIndex st1 }
      | None \<Rightarrow>
          (let matched = isKeyword di token
           in if matched \<noteq> [] then args_loop di ctx ts matched posIndex st
              else if target \<noteq> [] then
                do { v \<leftarrow> parseValue token; st1 \<leftarrow> set_own ctx target v st; args_loop di ctx ts [] posIndex st1 }
              else if posIndex < length (paramOrder di) then
                do { v \<leftarrow> parseValue token; st1 \<leftarrow> set_own ctx (paramOrder di ! posIndex) v st;
                     args_loop di ctx ts [] (posIndex + 1) st1 }
              else
                do { v \<leftarrow> parseValue token; st1 \<leftarrow> set_own_index ctx (count st ctx) v st;
                     args_loop di ctx ts [] posIndex st1 }))"

definition parseArgs :: "(nat \<Rightarrow> string) \<Rightarrow> nid option \<Rightarrow> string list \<Rightarrow> int \<Rightarrow> forest \<Rightarrow> (bool \<times> forest) option" where
  "parseArgs cust c args startIdx st =
     (case c of
        None \<Rightarrow> Some (False, st)
      | Some ctx \<Rightarrow>
          do {
            st1 \<leftarrow> clear ctx True st;
            di \<leftarrow> buildDeclInfo cust st1 (o_shadow (obj st1 ctx));
            (target, st2) \<leftarrow> args_loop di ctx (from_index startIdx args) [] 0 st1;
            st3 \<leftarrow> (if target \<noteq> [] then set_own ctx target (VBool True) st2 else Some st2);
            Some (True, st3) })"

section \<open>Arguments out of a value\<close>

fun dict_args :: "nid \<Rightarrow> (string \<times> var) list \<Rightarrow> forest \<Rightarrow> forest option" where
  "dict_args ctx [] st = Some st"
| "dict_args ctx ((k, v) # kvs) st =
     (if hidden_name k then dict_args ctx kvs st
      else (case set_own ctx k v st of None \<Rightarrow> None | Some st1 \<Rightarrow> dict_args ctx kvs st1))"

text \<open>The parameter a single value goes to: the first one without a short form.\<close>

fun first_param :: "forest \<Rightarrow> nid list \<Rightarrow> string option option" where
  "first_param st [] = Some None"
| "first_param st (param # ps) =
     (if hidden_name (name_of st param) then first_param st ps
      else (case short_node st param of
              None \<Rightarrow> None
            | Some None \<Rightarrow> Some (Some (name_of st param))
            | Some (Some _) \<Rightarrow> first_param st ps))"

definition parseArgs_var :: "(nat \<Rightarrow> string) \<Rightarrow> nid option \<Rightarrow> var \<Rightarrow> forest \<Rightarrow> (bool \<times> forest) option" where
  "parseArgs_var cust c input st =
     (case c of
        None \<Rightarrow> Some (False, st)
      | Some ctx \<Rightarrow>
          do {
            st1 \<leftarrow> clear ctx True st;
            (case input of
               VNone \<Rightarrow> Some (True, st1)
             | VDict d \<Rightarrow> map_option (Pair True) (dict_args ctx d st1)
             | VList xs \<Rightarrow> parseArgs cust (Some ctx) (map (var_text cust []) xs) 0 st1
             | _ \<Rightarrow>
                 (case (case o_shadow (obj st1 ctx) of None \<Rightarrow> Some None | Some d \<Rightarrow> first_param st1 (kids st1 d)) of
                    None \<Rightarrow> None
                  | Some (Some nm) \<Rightarrow> map_option (Pair True) (set_own ctx nm input st1)
                  | Some None \<Rightarrow> map_option (Pair True) (set_own_index ctx 0 input st1))) })"

section \<open>Reading arguments\<close>

definition args_var :: "nid option \<Rightarrow> string \<Rightarrow> var \<Rightarrow> forest \<Rightarrow> var option" where
  "args_var c key def st =
     (case c of
        None \<Rightarrow> Some def
      | Some ctx \<Rightarrow>
          if key = [] then Some def
          else map_option (\<lambda>f. case f of
                 None \<Rightarrow> def
               | Some n \<Rightarrow> if isNull (node_value st n) then def else node_value st n)
             (find_path st ctx key True VE_NODE_PATH_SEP VE_NODE_KEY_SEP))"

definition args_string :: "(nat \<Rightarrow> string) \<Rightarrow> nid option \<Rightarrow> string \<Rightarrow> string \<Rightarrow> forest \<Rightarrow> string option" where
  "args_string cust c key def st =
     map_option (\<lambda>v. if isNull v then def else var_text cust def v) (args_var c key VNone st)"

definition args_integer :: "nid option \<Rightarrow> string \<Rightarrow> i64 \<Rightarrow> forest \<Rightarrow> i64 option" where
  "args_integer c key def st =
     (case args_var c key VNone st of None \<Rightarrow> None | Some v \<Rightarrow> if isNull v then Some def else toInt64 def v)"

definition args_number :: "nid option \<Rightarrow> string \<Rightarrow> u64 \<Rightarrow> forest \<Rightarrow> u64 option" where
  "args_number c key def st =
     map_option (\<lambda>v. if isNull v then def else toDouble def v) (args_var c key VNone st)"

definition args_flag :: "nid option \<Rightarrow> string \<Rightarrow> bool \<Rightarrow> forest \<Rightarrow> bool option" where
  "args_flag c key def st =
     map_option (\<lambda>v. if isNull v then def else toBool def v) (args_var c key VNone st)"

definition args_has :: "nid option \<Rightarrow> string \<Rightarrow> forest \<Rightarrow> bool option" where
  "args_has c key st =
     (case c of
        None \<Rightarrow> Some False
      | Some ctx \<Rightarrow>
          if key = [] then Some False
          else map_option (\<lambda>f. case f of None \<Rightarrow> False | Some n \<Rightarrow> \<not> isNull (node_value st n))
             (find_path st ctx key False VE_NODE_PATH_SEP VE_NODE_KEY_SEP))"

section \<open>What is left alone\<close>

text \<open>Shadows of the nodes that are left.\<close>

definition sub_shadow :: "forest \<Rightarrow> forest \<Rightarrow> bool" where
  "sub_shadow st st' \<longleftrightarrow>
     (\<forall>m ob'. heap st' m = Some ob' \<longrightarrow> (\<exists>ob. heap st m = Some ob \<and> o_shadow ob = o_shadow ob'))"

lemma sub_shadow_refl [simp]: "sub_shadow st st"
  by (simp add: sub_shadow_def)

lemma sub_shadow_trans: "sub_shadow a b \<Longrightarrow> sub_shadow b c \<Longrightarrow> sub_shadow a c"
  unfolding sub_shadow_def by metis

lemma sub_shadow_upd: "(\<And>ob. o_shadow (f ob) = o_shadow ob) \<Longrightarrow> sub_shadow st (upd n f st)"
  by (auto simp: sub_shadow_def upd_def split: if_splits)

lemma sub_shadow_heap: "heap b = heap b' \<Longrightarrow> sub_shadow a b = sub_shadow a b'"
  by (simp add: sub_shadow_def)

lemma sub_shadow_delete:
  "delete_node fuel n st = Some st' \<Longrightarrow> sub_shadow st st'"
  "delete_kids fuel cs st = Some st' \<Longrightarrow> sub_shadow st st'"
proof (induction fuel n st and fuel cs st arbitrary: st' and st' rule: delete_node_delete_kids.induct)
  case (2 fuel n st)
  then show ?case by (auto simp: sub_shadow_def split: option.splits if_splits)
next
  case (4 fuel c cs st)
  have "sub_shadow st (upd c (o_parent_update (\<lambda>_. None)) st)" by (simp add: sub_shadow_upd)
  then show ?case using 4 by (fastforce split: option.splits intro: sub_shadow_trans)
qed auto

lemma notify_heap: "notify n e sig st = Some st' \<Longrightarrow> heap st' = heap st"
  by (auto simp: notify_def Let_def trigger_def simp del: activate.simps split: if_splits dest: activate_heap)

lemma sub_shadow_clear: "clear n True st = Some st' \<Longrightarrow> sub_shadow st st'"
proof -
  assume c: "clear n True st = Some st'"
  show ?thesis
  proof (cases "o_children (obj st n)")
    case None
    then show ?thesis using c by (simp add: clear_def)
  next
    case (Some ch)
    then obtain s where s: "delete_kids (next_id st + 1) (nodes ch) st = Some s"
      "heap st' = heap (upd n (o_children_update (\<lambda>_. None)) s)"
      using c by (auto simp: clear_def clear_children_def Let_def simp del: delete_kids.simps split: option.splits if_splits dest!: notify_heap)
    have "sub_shadow st (upd n (o_children_update (\<lambda>_. None)) s)"
      by (rule sub_shadow_trans [OF sub_shadow_delete(2) [OF s(1)] sub_shadow_upd]) simp
    then show ?thesis using sub_shadow_heap [OF s(2)] by simp
  qed
qed

lemma sub_shadow_obj: "sub_shadow st st' \<Longrightarrow> alive st' m \<Longrightarrow> o_shadow (obj st' m) = o_shadow (obj st m)"
  by (fastforce simp: sub_shadow_def alive_def obj_def)

text \<open>A change among the arguments: nodes may have been added below \<open>n\<close>, the values of its children
  may differ, all else is as it was.\<close>

definition arg_step :: "nid \<Rightarrow> forest \<Rightarrow> forest \<Rightarrow> bool" where
  "arg_step n st st' \<longleftrightarrow> forest_ok st' \<and> (\<forall>m. alive st m \<longrightarrow>
     alive st' m \<and> name_of st' m = name_of st m \<and> parent st' m = parent st m \<and> o_shadow (obj st' m) = o_shadow (obj st m)
     \<and> (m \<noteq> n \<longrightarrow> kids st' m = kids st m) \<and> (parent st m \<noteq> Some n \<longrightarrow> node_value st' m = node_value st m))"

lemma arg_step_refl: "forest_ok st \<Longrightarrow> arg_step n st st"
  by (simp add: arg_step_def)

lemma arg_step_trans: "arg_step n a b \<Longrightarrow> arg_step n b c \<Longrightarrow> arg_step n a c"
  unfolding arg_step_def by metis

lemma set_value_child:
  assumes ok: "forest_ok st" and n: "alive st n" and c: "c \<in> set (kids st n)"
  shows "\<exists>st'. set_value c v st = Some st' \<and> arg_step n st st' \<and> kids st' n = kids st n
    \<and> (\<forall>m. alive st m \<longrightarrow> node_value st' m = (if m = c then v else node_value st m))"
proof -
  have ca: "alive st c" "parent st c = Some n" using kid_facts [OF ok n c] by simp_all
  obtain st' where st': "set_value c v st = Some st'" "beside c st st'" "kids st' c = kids st c" "node_value st' c = v"
    using set_value_beside [OF ok ca(1)] by blast
  have "heap st' = heap (upd c (o_value_update (\<lambda>_. v)) st)" using st'(1) by (simp add: set_value_def Let_def notify_heap)
  then have "sub_shadow st st'" using sub_shadow_heap [of st' _ st] sub_shadow_upd [of "o_value_update (\<lambda>_. v)" st c] by simp
  then have sh: "alive st m \<Longrightarrow> o_shadow (obj st' m) = o_shadow (obj st m)" for m
    using sub_shadow_obj st'(2) by (simp add: beside_def)
  have "arg_step n st st'" unfolding arg_step_def using st' sh ca by (auto simp: beside_def)
  moreover have "kids st' n = kids st n" using st'(2,3) n by (cases "n = c") (auto simp: beside_def)
  ultimately show ?thesis using st' by (auto simp: beside_def)
qed

lemma appended_arg_step: "appended n nm cs st st' \<Longrightarrow> arg_step n st st'"
  unfolding appended_def arg_step_def keeps_def by blast

section \<open>Writing one argument\<close>

definition args_of :: "forest \<Rightarrow> nid \<Rightarrow> (string \<times> var) list" where
  "args_of st n = map (\<lambda>c. (name_of st c, node_value st c)) (kids st n)"

definition leaf_kids :: "forest \<Rightarrow> nid \<Rightarrow> bool" where
  "leaf_kids st n \<longleftrightarrow> (\<forall>c \<in> set (kids st n). kids st c = [])"

lemma update_first:
  "distinct cs \<Longrightarrow> filter (\<lambda>d. f d = k) cs = c # rest \<Longrightarrow>
   map (\<lambda>d. (f d, if d = c then v else g d)) cs = AList.update k v (map (\<lambda>d. (f d, g d)) cs)"
proof (induction cs)
  case (Cons a cs)
  show ?case
  proof (cases "f a = k")
    case True
    then have "c = a" using Cons.prems by simp
    moreover have "map (\<lambda>d. (f d, if d = a then v else g d)) cs = map (\<lambda>d. (f d, g d)) cs" using Cons.prems(1) by auto
    ultimately show ?thesis using True by simp
  next
    case False
    then have f: "filter (\<lambda>d. f d = k) cs = c # rest" using Cons.prems by simp
    then have "c \<in> set cs" by (metis (mono_tags, lifting) filter_is_subset list.set_intros(1) subset_code(1))
    then have "a \<noteq> c" using Cons.prems(1) by auto
    then show ?thesis using False Cons.IH [OF _ f] Cons.prems(1) by simp
  qed
qed simp

lemma update_new: "k \<notin> fst ` set xs \<Longrightarrow> AList.update k v xs = xs @ [(k, v)]"
  by (induction xs) auto

lemma ensure_missing:
  assumes ok: "forest_ok st" and n: "alive st n" and k: "field_name k" and none: "named_kids st n k = []"
  shows "\<exists>c st1. ensure_path n k False VE_NODE_PATH_SEP VE_NODE_KEY_SEP st = Some (Some c, st1)
    \<and> appended n k [c] st st1"
proof -
  have kn: "k \<noteq> []" "VE_NODE_KEY_SEP \<notin> set k" using k by (simp_all add: field_name_def)
  have z: "child_named st n k 0 = None" "count_named st n k = 0"
    using child_named_spec [OF ok n kn(1)] count_named_spec [OF ok n kn(1)] none by simp_all
  obtain cs st1 where a: "append_node n k 0 st = Some (Some (hd cs), st1)" "length cs = nat 0 + 1" "appended n k cs st st1"
    using append_node_spec [OF ok n, of 0 k] by auto
  obtain c where c: "cs = [c]" using a(2) by (cases cs) auto
  have ap: "appended n k [c] st st1" using a(3) c by simp
  have ok1: "forest_ok st1" "alive st1 n" using ap n by (simp_all add: appended_def)
  have "named_kids st1 n k = [c]"
  proof -
    have "filter (\<lambda>d. name_of st1 d = k) (kids st n) = named_kids st n k"
      unfolding named_kids_def using kid_facts [OF ok n] ap by (intro filter_cong) (auto simp: appended_def keeps_def)
    then show ?thesis using ap none by (simp add: named_kids_def appended_def)
  qed
  then have "child_named st1 n k 0 = Some c" using child_named_spec [OF ok1 kn(1)] by simp
  then have "ensure_key n k False VE_NODE_KEY_SEP st = Some (Some c, st1)"
    using plain_key [of VE_NODE_KEY_SEP k] kn a(1) z c by (simp add: ensure_key_def ensure_named_def)
  then show ?thesis using ap by (auto simp: ensure_path_def field_start [OF k])
qed

lemma set_new_child:
  assumes ok: "forest_ok st" and n: "alive st n" and ap: "appended n k [c] st st1"
  shows "\<exists>st'. set_value c v st1 = Some st' \<and> arg_step n st st' \<and> args_of st' n = args_of st n @ [(k, v)]
    \<and> (leaf_kids st n \<longrightarrow> leaf_kids st' n)"
proof -
  have ok1: "forest_ok st1" "alive st1 n" "kids st1 n = kids st n @ [c]" "\<not> alive st c" "alive st1 c" "name_of st1 c = k" "kids st1 c = []"
    using ap n by (auto simp: appended_def)
  obtain st' where st': "set_value c v st1 = Some st'" "arg_step n st1 st'" "kids st' n = kids st1 n"
    "\<And>m. alive st1 m \<Longrightarrow> node_value st' m = (if m = c then v else node_value st1 m)"
    using set_value_child [OF ok1(1,2), of c v] ok1(3) by auto
  have s: "arg_step n st st1" by (rule appended_arg_step [OF ap])
  have kid: "alive st d \<and> alive st1 d \<and> d \<noteq> c \<and> d \<noteq> n" if "d \<in> set (kids st n)" for d
    using kid_facts [OF ok n that] kid_dset(1) [OF ok n that] ok1(4) s by (auto simp: arg_step_def)
  have one: "name_of st' d = name_of st d \<and> node_value st' d = node_value st d \<and> kids st' d = kids st d"
    if "d \<in> set (kids st n)" for d
  proof -
    have "node_value st1 d = node_value st d" using ap kid [OF that] by (auto simp: appended_def keeps_def)
    then show ?thesis using kid [OF that] st'(2,4) s by (auto simp: arg_step_def)
  qed
  have "c \<noteq> n" using ok1(4) n by blast
  then have new: "name_of st' c = k" "node_value st' c = v" "kids st' c = []" using st'(2,4) ok1 by (auto simp: arg_step_def)
  have "args_of st' n = args_of st n @ [(k, v)]" using one new by (simp add: args_of_def st'(3) ok1(3))
  moreover have "leaf_kids st n \<longrightarrow> leaf_kids st' n" using one new by (auto simp: leaf_kids_def st'(3) ok1(3))
  ultimately show ?thesis using st'(1) arg_step_trans [OF s st'(2)] by blast
qed

lemma set_own_spec:
  assumes ok: "forest_ok st" and n: "alive st n" and k: "field_name k"
  shows "\<exists>st'. set_own n k v st = Some st' \<and> arg_step n st st' \<and> args_of st' n = AList.update k v (args_of st n)
    \<and> (leaf_kids st n \<longrightarrow> leaf_kids st' n)"
proof (cases "named_kids st n k")
  case Nil
  obtain c st1 where c: "ensure_path n k False VE_NODE_PATH_SEP VE_NODE_KEY_SEP st = Some (Some c, st1)"
    "appended n k [c] st st1" using ensure_missing [OF ok n k Nil] by blast
  have "k \<notin> fst ` set (args_of st n)" using Nil by (auto simp: args_of_def named_kids_def filter_empty_conv)
  then show ?thesis using set_new_child [OF ok n c(2), of v] c(1) by (simp add: set_own_def update_new)
next
  case (Cons c rest)
  have kf: "k \<noteq> []" "VE_NODE_PATH_SEP \<notin> set k" "VE_NODE_KEY_SEP \<notin> set k" using k by (simp_all add: field_name_def)
  have "c \<in> set (named_kids st n k)" using Cons by simp
  then have cin: "c \<in> set (kids st n)" by (simp add: named_kids_def)
  have dist: "distinct (kids st n)" by (rule node_okD(2) [OF ok n])
  have "child_named st n k 0 = Some c" using child_named_spec [OF ok n kf(1), of 0] Cons by simp
  then have "ensure_key n k False VE_NODE_KEY_SEP st = Some (Some c, st)"
    using plain_key [OF kf(3,1)] kf(1) by (simp add: ensure_key_def ensure_named_def)
  then have e: "ensure_path n k False VE_NODE_PATH_SEP VE_NODE_KEY_SEP st = Some (Some c, st)"
    by (simp add: ensure_path_def field_start [OF k])
  obtain st' where st': "set_value c v st = Some st'" "arg_step n st st'" "kids st' n = kids st n"
    "\<And>m. alive st m \<Longrightarrow> node_value st' m = (if m = c then v else node_value st m)"
    using set_value_child [OF ok n cin, of v] by blast
  have al: "alive st d" if "d \<in> set (kids st n)" for d using kid_facts [OF ok n that] by simp
  have "args_of st' n = map (\<lambda>d. (name_of st d, if d = c then v else node_value st d)) (kids st n)"
    using al st'(2,4) by (auto simp: args_of_def st'(3) arg_step_def)
  then have "args_of st' n = AList.update k v (args_of st n)"
    using update_first [OF dist, of "name_of st" k c rest v "node_value st"] Cons by (simp add: args_of_def named_kids_def)
  moreover have "kids st' d = kids st d" if "d \<in> set (kids st n)" for d
    using st'(2) al [OF that] kid_dset(1) [OF ok n that] by (auto simp: arg_step_def)
  ultimately show ?thesis using st'(1,2) e by (auto simp: set_own_def leaf_kids_def st'(3))
qed

lemma set_own_end:
  assumes ok: "forest_ok st" and n: "alive st n"
  shows "\<exists>st'. set_own_index n (count st n) v st = Some st' \<and> arg_step n st st' \<and> args_of st' n = args_of st n @ [([], v)]
    \<and> (leaf_kids st n \<longrightarrow> leaf_kids st' n)"
proof -
  have none: "child_index st n (count st n) = None" by (simp add: child_index_spec count_spec)
  obtain cs st1 where a: "append_node n [] 0 st = Some (Some (hd cs), st1)" "length cs = nat 0 + 1" "appended n [] cs st st1"
    using append_node_spec [OF ok n, of 0 "[]"] by auto
  obtain c where c: "cs = [c]" using a(2) by (cases cs) auto
  have ap: "appended n [] [c] st st1" using a(3) c by simp
  have "child_index st1 n (count st n) = Some c"
    using ap by (simp add: child_index_spec count_spec appended_def nth_append)
  then have "ensure_index n (count st n) False st = Some (Some c, st1)"
    using none a(1) c by (simp add: ensure_index_def count_spec)
  then show ?thesis using set_new_child [OF ok n ap, of v] by (simp add: set_own_index_def)
qed

section \<open>The bindings of a command line\<close>

text \<open>What the words bind, as a list in the order of the words: a value for a parameter, or one more value
  without a name. The tree plays no part in it.\<close>

datatype binding = Bound string var | Extra var

fun bind_args :: "decl_info \<Rightarrow> string list \<Rightarrow> string \<Rightarrow> nat \<Rightarrow> binding list option" where
  "bind_args di [] target pos = Some (if target \<noteq> [] then [Bound target (VBool True)] else [])"
| "bind_args di (token # ts) target pos =
     (case inline_form di token of
        Some (nm, raw) \<Rightarrow> do { v \<leftarrow> parseValue raw; bs \<leftarrow> bind_args di ts [] pos; Some (Bound nm v # bs) }
      | None \<Rightarrow>
          if isKeyword di token \<noteq> [] then bind_args di ts (isKeyword di token) pos
          else do {
            v \<leftarrow> parseValue token;
            (if target \<noteq> [] then map_option ((#) (Bound target v)) (bind_args di ts [] pos)
             else if pos < length (paramOrder di)
             then map_option ((#) (Bound (paramOrder di ! pos) v)) (bind_args di ts [] (pos + 1))
             else map_option ((#) (Extra v)) (bind_args di ts [] pos)) })"

fun bind_one :: "binding \<Rightarrow> (string \<times> var) list \<Rightarrow> (string \<times> var) list" where
  "bind_one (Bound k v) xs = AList.update k v xs"
| "bind_one (Extra v) xs = xs @ [([], v)]"

definition bound_args :: "binding list \<Rightarrow> (string \<times> var) list \<Rightarrow> (string \<times> var) list" where
  "bound_args bs xs = fold bind_one bs xs"

definition decl_names :: "decl_info \<Rightarrow> bool" where
  "decl_names di \<longleftrightarrow> list_all field_name (longNames di) \<and> list_all field_name (paramOrder di)
     \<and> (\<forall>s nm. shortMap di s = Some nm \<longrightarrow> field_name nm)"

lemma keyword_name: "decl_names di \<Longrightarrow> isKeyword di token \<noteq> [] \<Longrightarrow> field_name (isKeyword di token)"
  by (auto simp: isKeyword_def decl_names_def list_all_iff Let_def split: if_splits option.splits)

lemma inline_name: "decl_names di \<Longrightarrow> inline_form di token = Some (nm, raw) \<Longrightarrow> field_name nm"
  by (auto simp: inline_form_def decl_names_def list_all_iff split: if_splits option.splits)

definition flush_target :: "nid \<Rightarrow> string \<times> forest \<Rightarrow> forest option" where
  "flush_target ctx r = (if fst r \<noteq> [] then set_own ctx (fst r) (VBool True) (snd r) else Some (snd r))"

definition args_written :: "nid \<Rightarrow> binding list \<Rightarrow> forest \<Rightarrow> forest \<Rightarrow> bool" where
  "args_written n bs st st' \<longleftrightarrow> arg_step n st st' \<and> args_of st' n = bound_args bs (args_of st n)
     \<and> (leaf_kids st n \<longrightarrow> leaf_kids st' n)"

lemma args_written_Nil: "forest_ok st \<Longrightarrow> args_written n [] st st"
  by (simp add: args_written_def bound_args_def arg_step_refl)

lemma args_written_one:
  "forest_ok st \<Longrightarrow> alive st n \<Longrightarrow> field_name k \<Longrightarrow> \<exists>st'. set_own n k v st = Some st' \<and> args_written n [Bound k v] st st'"
  "forest_ok st \<Longrightarrow> alive st n \<Longrightarrow> \<exists>st'. set_own_index n (count st n) v st = Some st' \<and> args_written n [Extra v] st st'"
  using set_own_spec [of st n k v] set_own_end [of st n v] by (auto simp: args_written_def bound_args_def)

lemma args_written_Cons:
  "args_written n [b] st st1 \<Longrightarrow> args_written n bs st1 st2 \<Longrightarrow> args_written n (b # bs) st st2"
  using arg_step_trans by (auto simp: args_written_def bound_args_def)

lemma args_written_ok: "args_written n bs st st' \<Longrightarrow> alive st n \<Longrightarrow> forest_ok st' \<and> alive st' n"
  by (simp add: args_written_def arg_step_def)

lemma args_loop_spec:
  assumes di: "decl_names di"
  shows "forest_ok st \<Longrightarrow> alive st n \<Longrightarrow> target = [] \<or> field_name target \<Longrightarrow> bind_args di ts target pos = Some bs
    \<Longrightarrow> \<exists>r st'. args_loop di n ts target pos st = Some r \<and> flush_target n r = Some st' \<and> args_written n bs st st'"
proof (induction ts arbitrary: target pos st bs)
  case Nil
  show ?case
  proof (cases "target = []")
    case True
    then show ?thesis using Nil args_written_Nil by (simp add: flush_target_def)
  next
    case False
    then show ?thesis using Nil args_written_one(1) [OF Nil.prems(1,2), of target "VBool True"] by (auto simp: flush_target_def)
  qed
next
  case (Cons token ts)
  have step: "\<exists>r st'. args_loop di n ts [] p s = Some r \<and> flush_target n r = Some st' \<and> args_written n (b # cs) st st'"
    if s: "args_written n [b] st s" and c: "bind_args di ts [] p = Some cs" for b s p cs
    using Cons.IH [of s "[]" p cs] args_written_ok [OF s Cons.prems(2)] c args_written_Cons [OF s] by blast
  show ?case
  proof (cases "inline_form di token")
    case (Some f)
    then obtain nm raw where f: "inline_form di token = Some (nm, raw)" by force
    obtain v cs where v: "parseValue raw = Some v" "bind_args di ts [] pos = Some cs" "bs = Bound nm v # cs"
      using Cons.prems(4) f by (auto simp: bind_eq_Some_conv)
    obtain s where s: "set_own n nm v st = Some s" "args_written n [Bound nm v] st s"
      using args_written_one(1) [OF Cons.prems(1,2) inline_name [OF di f]] by blast
    show ?thesis using step [OF s(2) v(2)] f v s(1) by simp
  next
    case None
    show ?thesis
    proof (cases "isKeyword di token = []")
      case False
      then show ?thesis using None Cons.prems Cons.IH [OF Cons.prems(1,2), of "isKeyword di token" pos bs] keyword_name [OF di False]
        by simp
    next
      case True
      obtain v where v: "parseValue token = Some v" using Cons.prems(4) None True by (auto simp: bind_eq_Some_conv)
      consider "target \<noteq> []" | "target = []" "pos < length (paramOrder di)" | "target = []" "\<not> pos < length (paramOrder di)" by blast
      then show ?thesis
      proof cases
        case 1
        then obtain cs where c: "bind_args di ts [] pos = Some cs" "bs = Bound target v # cs"
          using Cons.prems(4) None True v by auto
        obtain s where s: "set_own n target v st = Some s" "args_written n [Bound target v] st s"
          using args_written_one(1) [OF Cons.prems(1,2)] Cons.prems(3) 1 by blast
        show ?thesis using step [OF s(2) c(1)] None True 1 v s(1) c(2) by simp
      next
        case 2
        then obtain cs where c: "bind_args di ts [] (pos + 1) = Some cs" "bs = Bound (paramOrder di ! pos) v # cs"
          using Cons.prems(4) None True v by auto
        have "field_name (paramOrder di ! pos)" using di 2 by (simp add: decl_names_def list_all_length)
        then obtain s where s: "set_own n (paramOrder di ! pos) v st = Some s" "args_written n [Bound (paramOrder di ! pos) v] st s"
          using args_written_one(1) [OF Cons.prems(1,2)] by blast
        show ?thesis using step [OF s(2) c(1)] None True 2 v s(1) c(2) by simp
      next
        case 3
        then obtain cs where c: "bind_args di ts [] pos = Some cs" "bs = Extra v # cs"
          using Cons.prems(4) None True v by auto
        obtain s where s: "set_own_index n (count st n) v st = Some s" "args_written n [Extra v] st s"
          using args_written_one(2) [OF Cons.prems(1,2)] by blast
        show ?thesis using step [OF s(2) c(1)] None True 3 v s(1) c(2) by simp
      qed
    qed
  qed
qed

section \<open>The declaration\<close>

definition visible_kids :: "forest \<Rightarrow> nid \<Rightarrow> nid list" where
  "visible_kids st d = filter (\<lambda>c. \<not> hidden_name (name_of st c)) (kids st d)"

definition decl_ok :: "forest \<Rightarrow> nid \<Rightarrow> bool" where
  "decl_ok st d \<longleftrightarrow> alive st d \<and> (\<forall>c \<in> set (visible_kids st d). field_name (name_of st c))"

lemma short_name: "''_short'' \<noteq> []" "VE_NODE_PATH_SEP \<notin> set ''_short''" "VE_NODE_KEY_SEP \<notin> set ''_short''"
  by (simp_all add: VE_NODE_PATH_SEP_def VE_NODE_KEY_SEP_def)

lemma short_node_spec:
  "forest_ok st \<Longrightarrow> alive st p \<Longrightarrow>
   short_node st p = Some (case named_kids st p ''_short'' of [] \<Rightarrow> None | c # _ \<Rightarrow> Some c)"
  unfolding short_node_def by (rule find_simple [OF _ _ short_name])

lemma decl_loop_total:
  assumes ok: "forest_ok st"
  shows "(\<And>p. p \<in> set ps \<Longrightarrow> alive st p) \<Longrightarrow> (\<And>p. p \<in> set ps \<Longrightarrow> hidden_name (name_of st p) \<or> field_name (name_of st p))
    \<Longrightarrow> decl_names di \<Longrightarrow> \<exists>di'. decl_loop cust st ps di = Some di' \<and> decl_names di'"
proof (induction ps arbitrary: di)
  case (Cons p ps)
  have ih: "decl_names di1 \<Longrightarrow> \<exists>di'. decl_loop cust st ps di1 = Some di' \<and> decl_names di'" for di1
    using Cons.IH Cons.prems(1,2) by simp
  show ?case
  proof (cases "hidden_name (name_of st p)")
    case True
    then show ?thesis using ih [OF Cons.prems(3)] by simp
  next
    case False
    then have f: "field_name (name_of st p)" using Cons.prems(2) [of p] by simp
    show ?thesis
    proof (cases "named_kids st p ''_short''")
      case Nil
      then show ?thesis using ih False f Cons.prems(3) short_node_spec [OF ok Cons.prems(1), of p] by (simp add: Let_def decl_names_def)
    next
      case (Cons c cs)
      then show ?thesis using ih False f Cons.prems(3) short_node_spec [OF ok Cons.prems(1), of p] by (simp add: Let_def decl_names_def)
    qed
  qed
qed simp

lemma decl_total: "forest_ok st \<Longrightarrow> decl_ok st d \<Longrightarrow> \<exists>di. buildDeclInfo cust st (Some d) = Some di \<and> decl_names di"
  unfolding buildDeclInfo_def Let_def
  by (simp, rule decl_loop_total) (auto simp: decl_ok_def visible_kids_def decl_names_def dest: kid_facts)

text \<open>The declaration is what it was when its subtree is.\<close>

lemma decl_loop_agree:
  assumes ok: "forest_ok st" "forest_ok st'"
    and same: "\<And>m. m \<in> D \<Longrightarrow> alive st m \<and> alive st' m \<and> name_of st' m = name_of st m \<and> node_value st' m = node_value st m
      \<and> kids st' m = kids st m \<and> set (kids st m) \<subseteq> D"
  shows "set ps \<subseteq> D \<Longrightarrow> decl_loop cust st' ps di = decl_loop cust st ps di"
proof (induction ps arbitrary: di)
  case (Cons p ps)
  have p: "p \<in> D" using Cons.prems by simp
  have nk: "named_kids st' p ''_short'' = named_kids st p ''_short''"
    unfolding named_kids_def using same [OF p] same by (auto intro!: filter_cong)
  have v: "node_value st' c = node_value st c" if "named_kids st p ''_short'' = c # cs" for c cs
  proof -
    have "c \<in> set (named_kids st p ''_short'')" using that by simp
    then show ?thesis using same [of c] same [OF p] by (auto simp: named_kids_def)
  qed
  have ih: "decl_loop cust st' ps di1 = decl_loop cust st ps di1" for di1 using Cons.IH Cons.prems by simp
  show ?case
    using same [OF p] nk v ih short_node_spec [OF ok(1), of p] short_node_spec [OF ok(2), of p]
    by (auto simp: Let_def split: list.splits)
qed simp

lemma dset_linear:
  assumes ok: "forest_ok st" and m: "m \<in> dset st a" "m \<in> dset st b"
  shows "a \<in> dset st b \<or> b \<in> dset st a"
proof -
  have "single_valued ((edges st)\<inverse>)" by (auto simp: single_valued_def edges_def)
  moreover have "(m, a) \<in> ((edges st)\<inverse>)\<^sup>*" "(m, b) \<in> ((edges st)\<inverse>)\<^sup>*"
    using m by (simp_all add: dset_def rtrancl_converse)
  ultimately show ?thesis using single_valued_confluent by (fastforce simp: dset_def rtrancl_converse)
qed

text \<open>Clearing a context leaves its declaration.\<close>

lemma clear_apart:
  assumes ok: "forest_ok st" and n: "alive st n" and d: "alive st d" "d \<notin> dset st n" "n \<notin> dset st d"
  shows "\<exists>s. clear n True st = Some s \<and> forest_ok s \<and> alive s n \<and> kids s n = [] \<and> name_of s n = name_of st n
    \<and> node_value s n = node_value st n \<and> o_shadow (obj s n) = o_shadow (obj st n)
    \<and> (\<forall>m \<in> dset st d. alive s m \<and> name_of s m = name_of st m \<and> node_value s m = node_value st m
        \<and> kids s m = kids st m \<and> parent s m = parent st m \<and> o_shadow (obj s m) = o_shadow (obj st m))"
proof -
  let ?D = "\<Union>c \<in> set (kids st n). dset st c"
  obtain s where s: "clear n True st = Some s" "forest_ok s" "\<And>m. alive s m = (alive st m \<and> m \<notin> ?D)" "kids s n = []"
    "\<And>m. alive s m \<Longrightarrow> (m \<noteq> n \<longrightarrow> kids s m = kids st m) \<and> parent s m = parent st m \<and> name_of s m = name_of st m \<and> node_value s m = node_value st m"
    using clear_spec [OF ok n] by (elim exE conjE) (rule that, blast+)
  have sh: "alive s m \<Longrightarrow> o_shadow (obj s m) = o_shadow (obj st m)" for m
    by (rule sub_shadow_obj [OF sub_shadow_clear [OF s(1)]])
  have na: "alive s n" using s(3) n kid_dset(1) [OF ok n] by auto
  have da: "alive s m" if m: "m \<in> dset st d" for m
  proof (rule ccontr)
    assume "\<not> alive s m"
    then obtain c where c: "c \<in> set (kids st n)" "m \<in> dset st c" using s(3) [of m] dset_alive [OF ok d(1) m] by blast
    have cn: "c \<in> dset st n" using kid_dset(3) [OF ok n c(1)] dset_self by blast
    have cd: "alive st c" "parent st c = Some n" using kid_facts [OF ok n c(1)] by simp_all
    consider "d \<in> dset st c" | "c \<in> dset st d" "c \<noteq> d" using dset_linear [OF ok m c(2)] by (cases "c = d") auto
    then show False
    proof cases
      case 1
      then show False using kid_dset(3) [OF ok n c(1)] d(2) by blast
    next
      case 2
      then have "(d, c) \<in> (edges st)\<^sup>+" by (simp add: dset_def rtrancl_eq_or_trancl)
      then obtain q where q: "(d, q) \<in> (edges st)\<^sup>*" "(q, c) \<in> edges st" by (meson tranclD2)
      then have "q = n" using cd(2) by (simp add: edges_def)
      then show False using q(1) d(3) by (simp add: dset_def)
    qed
  qed
  have ne: "m \<noteq> n" if "m \<in> dset st d" for m using that d(3) by blast
  show ?thesis using s(1,2,4) na da s(5) sh ne by (intro exI [of _ s]) blast
qed

section \<open>Binding and reading\<close>

text \<open>A context, a node that is not related to the declaration behind it.\<close>

definition context_ok :: "forest \<Rightarrow> nid \<Rightarrow> nid \<Rightarrow> bool" where
  "context_ok st ctx d \<longleftrightarrow> forest_ok st \<and> alive st ctx \<and> o_shadow (obj st ctx) = Some d \<and> decl_ok st d
     \<and> d \<notin> dset st ctx \<and> ctx \<notin> dset st d"

lemma shaped_leaves:
  assumes "forest_ok st" "alive st n" "leaf_kids st n"
  shows "shaped st n (NT (name_of st n) (node_value st n) (field_trees (args_of st n)))"
proof -
  have "list_all2 (shaped st) (kids st n) (field_trees (args_of st n))"
    using assms kid_facts [OF assms(1,2)]
    by (auto simp: leaf_kids_def args_of_def field_trees_def list_all2_conv_all_nth)
  then show ?thesis using assms(2) by simp
qed

lemma parseArgs_spec:
  assumes c: "context_ok st ctx d" and di: "buildDeclInfo cust st (Some d) = Some di"
    and b: "bind_args di (from_index i words) [] 0 = Some bs"
  shows "\<exists>st'. parseArgs cust (Some ctx) words i st = Some (True, st') \<and> forest_ok st' \<and> alive st' ctx
    \<and> name_of st' ctx = name_of st ctx \<and> node_value st' ctx = node_value st ctx \<and> o_shadow (obj st' ctx) = Some d
    \<and> leaf_kids st' ctx \<and> args_of st' ctx = bound_args bs []
    \<and> (\<forall>m \<in> dset st d. alive st' m \<and> name_of st' m = name_of st m \<and> node_value st' m = node_value st m
        \<and> kids st' m = kids st m \<and> o_shadow (obj st' m) = o_shadow (obj st m))"
proof -
  have ok: "forest_ok st" and n: "alive st ctx" and sh: "o_shadow (obj st ctx) = Some d" and dok: "decl_ok st d"
    and d: "alive st d" "d \<notin> dset st ctx" "ctx \<notin> dset st d" using c by (auto simp: context_ok_def decl_ok_def)
  obtain s where s: "clear ctx True st = Some s" "forest_ok s" "alive s ctx" "kids s ctx = []" "name_of s ctx = name_of st ctx"
    "node_value s ctx = node_value st ctx" "o_shadow (obj s ctx) = Some d"
    "\<And>m. m \<in> dset st d \<Longrightarrow> alive s m \<and> name_of s m = name_of st m \<and> node_value s m = node_value st m
        \<and> kids s m = kids st m \<and> parent s m = parent st m \<and> o_shadow (obj s m) = o_shadow (obj st m)"
    using clear_apart [OF ok n d] unfolding sh by blast
  have cl: "m \<in> dset st d \<Longrightarrow> alive st m \<and> set (kids st m) \<subseteq> dset st d" for m
    using closed_dset [OF ok d(1)] by (auto simp: closed_kids_def)
  have dk: "set (kids st d) \<subseteq> dset st d" using cl [of d] by simp
  have "decl_loop cust s (kids st d) e = decl_loop cust st (kids st d) e" for e
    by (rule decl_loop_agree [OF ok s(2) _ dk]) (use s(8) cl in blast)
  then have dis: "buildDeclInfo cust s (Some d) = Some di" using di s(8) [of d] by (simp add: buildDeclInfo_def)
  have dn: "decl_names di" using decl_total [OF ok dok, of cust] di by auto
  obtain r st' where r: "args_loop di ctx (from_index i words) [] 0 s = Some r" "flush_target ctx r = Some st'" "args_written ctx bs s st'"
    using args_loop_spec [OF dn s(2,3) _ b] by blast
  have run: "parseArgs cust (Some ctx) words i st = Some (True, st')"
    using s(1,7) dis r(1,2) by (cases r) (simp add: parseArgs_def flush_target_def split: if_splits)
  have step: "arg_step ctx s st'" using r(3) by (simp add: args_written_def)
  have root: "parent s ctx \<noteq> Some ctx"
  proof
    assume "parent s ctx = Some ctx"
    then have "(ctx, ctx) \<in> (edges s)\<^sup>+" using s(3) by (intro r_into_trancl) (simp add: edges_def)
    then show False using s(2) by (simp add: forest_ok_def acyclic_def)
  qed
  have keep: "alive st' m \<and> name_of st' m = name_of st m \<and> node_value st' m = node_value st m
      \<and> kids st' m = kids st m \<and> o_shadow (obj st' m) = o_shadow (obj st m)" if m: "m \<in> dset st d" for m
  proof -
    have "m \<noteq> ctx" using m d(3) by blast
    moreover have "parent s m \<noteq> Some ctx"
    proof
      assume p: "parent s m = Some ctx"
      then have "m \<in> set (kids s ctx)" using s(2) s(8) [OF m] p unfolding forest_ok_def node_ok_def by blast
      then show False using s(4) by simp
    qed
    ultimately show ?thesis using step s(8) [OF m] by (auto simp: arg_step_def)
  qed
  have "leaf_kids s ctx" "args_of s ctx = []" by (simp_all add: leaf_kids_def args_of_def s(4))
  then have "leaf_kids st' ctx" "args_of st' ctx = bound_args bs []" using r(3) by (simp_all add: args_written_def)
  then show ?thesis using run step root s(3,5,6,7) keep by (auto simp: arg_step_def)
qed

text \<open>The value a command sees for a parameter: what was bound last, else what the declaration holds.\<close>

definition seen_value :: "forest \<Rightarrow> nid \<Rightarrow> (string \<times> var) list \<Rightarrow> string \<Rightarrow> var" where
  "seen_value st d xs key =
     (case map_of xs key of
        Some v \<Rightarrow> v
      | None \<Rightarrow> (case named_kids st d key of [] \<Rightarrow> VNone | c # _ \<Rightarrow> node_value st c))"

lemma map_of_args: "map_of (args_of st n) key = (case named_kids st n key of [] \<Rightarrow> None | c # _ \<Rightarrow> Some (node_value st c))"
proof -
  have "map_of (map (\<lambda>c. (name_of st c, node_value st c)) cs) key
      = (case filter (\<lambda>d. name_of st d = key) cs of [] \<Rightarrow> None | c # _ \<Rightarrow> Some (node_value st c))" for cs
    by (induction cs) auto
  then show ?thesis by (simp add: args_of_def named_kids_def)
qed

lemma find_through_shadow:
  assumes ok: "forest_ok st" and n: "alive st n" "o_shadow (obj st n) = Some d" and d: "alive st d" "o_shadow (obj st d) = None"
    and k: "field_name key"
  shows "find_path st n key True VE_NODE_PATH_SEP VE_NODE_KEY_SEP
    = Some (case named_kids st n key of c # _ \<Rightarrow> Some c
        | [] \<Rightarrow> (case named_kids st d key of [] \<Rightarrow> None | c # _ \<Rightarrow> Some c))"
proof -
  have kn: "key \<noteq> []" "VE_NODE_KEY_SEP \<notin> set key" using k by (simp_all add: field_name_def)
  obtain j where j: "next_id st = Suc j" using ok n(1) by (cases "next_id st") (auto simp: forest_ok_def)
  have nd: "child_named st n key 0 = (case named_kids st n key of [] \<Rightarrow> None | c # _ \<Rightarrow> Some c)"
    "child_named st d key 0 = (case named_kids st d key of [] \<Rightarrow> None | c # _ \<Rightarrow> Some c)"
    using child_named_spec [OF ok n(1) kn(1), of 0] child_named_spec [OF ok d(1) kn(1), of 0] by (auto split: list.splits)
  have "find_key st n key True VE_NODE_KEY_SEP = Some (case named_kids st n key of c # _ \<Rightarrow> Some c
        | [] \<Rightarrow> (case named_kids st d key of [] \<Rightarrow> None | c # _ \<Rightarrow> Some c))"
    using plain_key [OF kn(2,1)] kn(1) j n(2) d(2) nd by (auto simp: find_key_def split: list.splits)
  then show ?thesis by (simp add: find_path_def field_start [OF k] split: list.splits)
qed

lemma args_var_seen:
  assumes ok: "forest_ok st" and n: "alive st n" "o_shadow (obj st n) = Some d" and d: "alive st d" "o_shadow (obj st d) = None"
    and k: "field_name key"
  shows "args_var (Some n) key def st =
    Some (if isNull (seen_value st d (args_of st n) key) then def else seen_value st d (args_of st n) key)"
proof -
  have "key \<noteq> []" using k by (simp add: field_name_def)
  then show ?thesis
    using find_through_shadow [OF assms] by (auto simp: args_var_def seen_value_def map_of_args isNull_def split: list.splits)
qed

section \<open>Words in order\<close>

definition plain_word :: "decl_info \<Rightarrow> string \<Rightarrow> bool" where
  "plain_word di w \<longleftrightarrow> inline_form di w = None \<and> isKeyword di w = []"

lemma bind_plain_words:
  assumes po: "distinct (paramOrder di)"
  shows "list_all (plain_word di) ws \<Longrightarrow> those (map parseValue ws) = Some vs
    \<Longrightarrow> fst ` set xs \<inter> set (drop pos (paramOrder di)) = {} \<Longrightarrow>
    \<exists>bs. bind_args di ws [] pos = Some bs
      \<and> bound_args bs xs = xs @ zip (drop pos (paramOrder di)) vs @ map (Pair []) (drop (length (paramOrder di) - pos) vs)"
proof (induction ws arbitrary: vs xs pos)
  case Nil
  then show ?case by (simp add: bound_args_def)
next
  case (Cons w ws)
  obtain v us where v: "parseValue w = Some v" "those (map parseValue ws) = Some us" "vs = v # us"
    using Cons.prems(2) by (auto split: option.splits)
  have pw0: "plain_word di w" "list_all (plain_word di) ws" using Cons.prems(1) by simp_all
  then have pw: "inline_form di w = None" "isKeyword di w = []" "list_all (plain_word di) ws"
    unfolding plain_word_def by blast+
  show ?case
  proof (cases "pos < length (paramOrder di)")
    case True
    let ?k = "paramOrder di ! pos"
    have dr: "drop pos (paramOrder di) = ?k # drop (Suc pos) (paramOrder di)" using True by (simp add: Cons_nth_drop_Suc)
    have kx: "?k \<notin> fst ` set xs" using Cons.prems(3) dr by auto
    have kr: "?k \<notin> set (drop (Suc pos) (paramOrder di))"
      using po distinct_drop [of "paramOrder di" pos] dr by simp
    have "fst ` set (xs @ [(?k, v)]) \<inter> set (drop (Suc pos) (paramOrder di)) = {}" using Cons.prems(3) dr kr by auto
    then obtain bs where "bind_args di ws [] (Suc pos) = Some bs"
      "bound_args bs (xs @ [(?k, v)]) = (xs @ [(?k, v)]) @ zip (drop (Suc pos) (paramOrder di)) us
          @ map (Pair []) (drop (length (paramOrder di) - Suc pos) us)"
      using Cons.IH [OF pw(3) v(2)] by blast
    then show ?thesis using pw v True dr update_new [OF kx, of v]
      by (simp add: bound_args_def Suc_diff_Suc [symmetric])
  next
    case False
    have "fst ` set (xs @ [([], v)]) \<inter> set (drop pos (paramOrder di)) = {}" using False by simp
    then obtain bs where "bind_args di ws [] pos = Some bs"
      "bound_args bs (xs @ [([], v)]) = (xs @ [([], v)]) @ zip (drop pos (paramOrder di)) us
          @ map (Pair []) (drop (length (paramOrder di) - pos) us)"
      using Cons.IH [OF pw(3) v(2)] by blast
    then show ?thesis using pw v False by (simp add: bound_args_def)
  qed
qed

section \<open>Properties\<close>

text \<open>C99: Parsing the words of a command line into a context replaces the context's children by exactly
  the bindings of the words, in order: one child for every parameter that was bound, holding its last
  value, and one without a name for every value beyond the parameters. Name and value of the context
  stay, and the tree stays well formed.\<close>

theorem parseArgs_binds:
  assumes "context_ok st ctx d" and "buildDeclInfo cust st (Some d) = Some di"
    and "bind_args di (from_index i words) [] 0 = Some bs"
  shows "\<exists>st'. parseArgs cust (Some ctx) words i st = Some (True, st') \<and> forest_ok st'
    \<and> shaped st' ctx (NT (name_of st ctx) (node_value st ctx) (field_trees (bound_args bs [])))"
proof -
  obtain st' where st': "parseArgs cust (Some ctx) words i st = Some (True, st')" "forest_ok st'" "alive st' ctx"
    "name_of st' ctx = name_of st ctx" "node_value st' ctx = node_value st ctx" "leaf_kids st' ctx"
    "args_of st' ctx = bound_args bs []"
    using parseArgs_spec [OF assms] by blast
  show ?thesis using shaped_leaves [OF st'(2,3,6)] st' by auto
qed

text \<open>C7: After parsing, the value a command reads for a parameter is the one bound to it last; for a
  parameter that was not bound it is the value the declaration holds, and without either, or where
  that value is null, it is the caller's default.\<close>

theorem args_resolve:
  assumes "context_ok st ctx d" and "buildDeclInfo cust st (Some d) = Some di"
    and "bind_args di (from_index i words) [] 0 = Some bs"
    and "o_shadow (obj st d) = None" and "field_name key"
  shows "\<exists>st'. parseArgs cust (Some ctx) words i st = Some (True, st')
    \<and> args_var (Some ctx) key def st' =
        Some (let v = seen_value st d (bound_args bs []) key in if isNull v then def else v)"
proof -
  obtain st' where st': "parseArgs cust (Some ctx) words i st = Some (True, st')" "forest_ok st'" "alive st' ctx"
    "o_shadow (obj st' ctx) = Some d" "args_of st' ctx = bound_args bs []"
    "\<And>m. m \<in> dset st d \<Longrightarrow> alive st' m \<and> name_of st' m = name_of st m \<and> node_value st' m = node_value st m
        \<and> kids st' m = kids st m \<and> o_shadow (obj st' m) = o_shadow (obj st m)"
    using parseArgs_spec [OF assms(1-3)] by blast
  have d: "alive st d" "forest_ok st" using assms(1) by (auto simp: context_ok_def decl_ok_def)
  have kd: "c \<in> dset st d" if "c \<in> set (kids st d)" for c using kid_dset(3) [OF d(2,1) that] dset_self by blast
  have nk: "named_kids st' d key = named_kids st d key"
    unfolding named_kids_def using st'(6) [of d] st'(6) [OF kd] by (auto intro!: filter_cong)
  have "node_value st' c = node_value st c" if "named_kids st d key = c # cs" for c cs
  proof -
    have "c \<in> set (named_kids st d key)" using that by simp
    then show ?thesis using st'(6) [OF kd] by (simp add: named_kids_def)
  qed
  then have "seen_value st' d xs key = seen_value st d xs key" for xs
    by (auto simp: seen_value_def nk split: option.splits list.splits)
  then show ?thesis
    using st'(1) args_var_seen [OF st'(2,3,4) _ _ assms(5), of def] st'(6) [of d] assms(4) st'(5) by (simp add: Let_def)
qed

text \<open>C6: Words that are no keywords are taken in order: the first goes to the first parameter without a
  short form, the second to the second, and those beyond the parameters become children without a
  name.\<close>

theorem positional_arguments:
  assumes "context_ok st ctx d" and "buildDeclInfo cust st (Some d) = Some di" and "distinct (paramOrder di)"
    and "list_all (plain_word di) words" and "those (map parseValue words) = Some vs"
  shows "\<exists>st'. parseArgs cust (Some ctx) words 0 st = Some (True, st') \<and> forest_ok st'
    \<and> shaped st' ctx (NT (name_of st ctx) (node_value st ctx)
        (field_trees (zip (paramOrder di) vs @ map (Pair []) (drop (length (paramOrder di)) vs))))"
proof -
  obtain bs where bs: "bind_args di words [] 0 = Some bs"
    "bound_args bs [] = zip (paramOrder di) vs @ map (Pair []) (drop (length (paramOrder di)) vs)"
    using bind_plain_words [OF assms(3-5), of "[]" 0] by auto
  have b: "bind_args di (from_index 0 words) [] 0 = Some bs" using bs(1) by (simp add: from_index_def)
  obtain st' where st': "parseArgs cust (Some ctx) words 0 st = Some (True, st')" "forest_ok st'" "alive st' ctx"
    "name_of st' ctx = name_of st ctx" "node_value st' ctx = node_value st ctx" "leaf_kids st' ctx"
    "args_of st' ctx = bound_args bs []"
    using parseArgs_spec [OF assms(1,2) b] by blast
  show ?thesis using shaped_leaves [OF st'(2,3,6)] st' bs(2) by auto
qed

section \<open>A command line to try\<close>

text \<open>A declaration 0 with the parameters speed, 5 by default, and mode with the short form m, and a
  context 4 that has an old argument 5.\<close>

definition arg_node :: "string \<Rightarrow> nid option \<Rightarrow> nid option \<Rightarrow> (string \<Rightarrow> nat list option) \<Rightarrow> nid list \<Rightarrow> var \<Rightarrow> nobj" where
  "arg_node nm p sh idx cs v = \<lparr>o_name = nm, o_parent = p, o_shadow = sh,
     o_children = Some \<lparr>indices = idx, nodes = cs\<rparr>, o_value = v, o_flags = 0\<rparr>"

definition arg_demo :: forest where
  "arg_demo = \<lparr>heap = [0 \<mapsto> arg_node ''declare'' None None [''speed'' \<mapsto> [0], ''mode'' \<mapsto> [1]] [6, 2] VNone,
      6 \<mapsto> arg_node ''speed'' (Some 0) None Map.empty [] (VInt 5),
      2 \<mapsto> arg_node ''mode'' (Some 0) None [''_short'' \<mapsto> [0]] [3] VNone,
      3 \<mapsto> arg_node ''_short'' (Some 2) None Map.empty [] (VString ''m''),
      4 \<mapsto> arg_node ''_ctx'' None (Some 0) [''old'' \<mapsto> [0]] [5] VNone,
      5 \<mapsto> arg_node ''old'' (Some 4) None Map.empty [] (VInt 1)],
    next_id = 7, events = []\<rparr>"

lemma arg_obj:
  "obj arg_demo 0 = arg_node ''declare'' None None [''speed'' \<mapsto> [0], ''mode'' \<mapsto> [1]] [6, 2] VNone"
  "obj arg_demo 6 = arg_node ''speed'' (Some 0) None Map.empty [] (VInt 5)"
  "obj arg_demo 2 = arg_node ''mode'' (Some 0) None [''_short'' \<mapsto> [0]] [3] VNone"
  "obj arg_demo 3 = arg_node ''_short'' (Some 2) None Map.empty [] (VString ''m'')"
  "obj arg_demo 4 = arg_node ''_ctx'' None (Some 0) [''old'' \<mapsto> [0]] [5] VNone"
  "obj arg_demo 5 = arg_node ''old'' (Some 4) None Map.empty [] (VInt 1)"
  by (simp_all add: obj_def arg_demo_def)

lemma arg_alive: "alive arg_demo m \<longleftrightarrow> m \<in> {0, 2, 3, 4, 5, 6}"
  by (auto simp: alive_def arg_demo_def)

lemma arg_facts:
  "kids arg_demo 0 = [6, 2]" "kids arg_demo 6 = []" "kids arg_demo 2 = [3]" "kids arg_demo 3 = []" "kids arg_demo 4 = [5]" "kids arg_demo 5 = []"
  "parent arg_demo 0 = None" "parent arg_demo 6 = Some 0" "parent arg_demo 2 = Some 0" "parent arg_demo 3 = Some 2"
  "parent arg_demo 4 = None" "parent arg_demo 5 = Some 4"
  "name_of arg_demo 0 = ''declare''" "name_of arg_demo 6 = ''speed''" "name_of arg_demo 2 = ''mode''" "name_of arg_demo 3 = ''_short''"
  "name_of arg_demo 4 = ''_ctx''" "name_of arg_demo 5 = ''old''"
  "node_value arg_demo 6 = VInt 5" "node_value arg_demo 3 = VString ''m''" "node_value arg_demo 4 = VNone"
  by (simp_all add: kids_def parent_def name_of_def node_value_def arg_obj arg_node_def)

lemma arg_ok: "forest_ok arg_demo"
proof -
  have ch: "children_ok arg_demo m" if "alive arg_demo m" for m
    using that unfolding arg_alive
    by (elim insertE emptyE; simp add: children_ok_def arg_obj arg_facts arg_node_def fun_eq_iff idx_of_def positions_Cons)
  have "edges arg_demo \<subseteq> less_than" by (auto simp: edges_def arg_alive arg_facts)
  then have "acyclic (edges arg_demo)" using acyclic_subset wf_acyclic wf_less_than by blast
  moreover have "node_ok arg_demo m" if "alive arg_demo m" for m
    using that ch [OF that] unfolding arg_alive by (elim insertE emptyE; simp add: node_ok_def arg_facts arg_alive)
  moreover have "alive arg_demo m \<Longrightarrow> m < next_id arg_demo" for m unfolding arg_alive by (auto simp: arg_demo_def)
  ultimately show ?thesis unfolding forest_ok_def by blast
qed

definition arg_decl :: decl_info where
  "arg_decl = \<lparr>paramOrder = [''speed''], shortMap = [''m'' \<mapsto> ''mode''], longNames = [''speed'', ''mode'']\<rparr>"

lemma arg_context: "context_ok arg_demo 4 0" "o_shadow (obj arg_demo 0) = None" "buildDeclInfo cust arg_demo (Some 0) = Some arg_decl"
proof -
  have "anc arg_demo 0 = {}" "anc arg_demo 4 = {}" by (rule anc_root, simp add: arg_facts)+
  moreover have "field_name ''speed''" "field_name ''mode''" by code_simp+
  ultimately show "context_ok arg_demo 4 0"
    using arg_ok by (auto simp: context_ok_def arg_alive arg_obj arg_node_def decl_ok_def visible_kids_def arg_facts dset_anc)
  show "o_shadow (obj arg_demo 0) = None" by (simp add: arg_obj arg_node_def)
  show "buildDeclInfo cust arg_demo (Some 0) = Some arg_decl"
    using short_node_spec [OF arg_ok, of 6] short_node_spec [OF arg_ok, of 2]
    by (simp add: buildDeclInfo_def arg_facts hidden_name_def arg_alive named_kids_def arg_decl_def Let_def)
qed

lemma arg_bind:
  "bind_args arg_decl (from_index 1 [''drive'', ''7'', ''-m'', ''slow'', ''x'']) [] 0
    = Some [Bound ''speed'' (VInt 7), Bound ''mode'' (VString ''slow''), Extra (VString ''x'')]"
  by code_simp

theorem parseArgs_binds_witness:
  "\<exists>st'. parseArgs (\<lambda>_. []) (Some 4) [''drive'', ''7'', ''-m'', ''slow'', ''x''] 1 arg_demo = Some (True, st') \<and> forest_ok st'
    \<and> shaped st' 4 (NT ''_ctx'' VNone [NT ''speed'' (VInt 7) [], NT ''mode'' (VString ''slow'') [], NT [] (VString ''x'') []])"
  using parseArgs_binds [OF arg_context(1,3) arg_bind, of "\<lambda>_. []"] by (simp add: arg_facts bound_args_def)

theorem args_resolve_witness:
  "\<exists>st'. parseArgs (\<lambda>_. []) (Some 4) [''--mode=slow''] 0 arg_demo = Some (True, st')
    \<and> args_var (Some 4) ''speed'' (VInt 9) st' = Some (VInt 5)"
proof -
  have b: "bind_args arg_decl (from_index 0 [''--mode=slow'']) [] 0 = Some [Bound ''mode'' (VString ''slow'')]" by code_simp
  have f: "field_name ''speed''" by code_simp
  show ?thesis using args_resolve [OF arg_context(1,3) b arg_context(2) f, of "\<lambda>_. []" "VInt 9"]
    by (simp add: bound_args_def seen_value_def named_kids_def arg_facts isNull_def)
qed

theorem positional_arguments_witness:
  "\<exists>st'. parseArgs (\<lambda>_. []) (Some 4) [''7'', ''true''] 0 arg_demo = Some (True, st') \<and> forest_ok st'
    \<and> shaped st' 4 (NT ''_ctx'' VNone [NT ''speed'' (VInt 7) [], NT [] (VBool True) []])"
proof -
  have d: "distinct (paramOrder arg_decl)" "paramOrder arg_decl = [''speed'']" by (simp_all add: arg_decl_def)
  have p: "list_all (plain_word arg_decl) [''7'', ''true'']" by code_simp
  have v: "those (map parseValue [''7'', ''true'']) = Some [VInt 7, VBool True]" by code_simp
  show ?thesis using positional_arguments [OF arg_context(1,3) d(1) p v, of "\<lambda>_. []"] by (simp add: arg_facts d(2))
qed

section \<open>Values that the number parser refuses, and integers\<close>

text \<open>A dot alone passes the test for a number with a point, and a long row of digits the test for an
  integer; the library functions behind them throw, and nothing catches it.\<close>

lemma parseValue_throws:
  "parseValue ''.'' = None" "parseValue ''-.'' = None" "parseValue ''9223372036854775808'' = None"
  "parseArgs cust (Some 4) [''.''] 0 arg_demo = None"
proof -
  show d: "parseValue ''.'' = None" "parseValue ''-.'' = None" "parseValue ''9223372036854775808'' = None"
    by (simp_all add: parseValue_def isInt_def isDouble_def unsigned_part_def is_digit_def stod_def strtod_def is_space_def read_sign_def
        lower_def less_eq_char_def stoll_def sto_int_def digit_val_def)
  have k: "inline_form arg_decl ''.'' = None" "isKeyword arg_decl ''.'' = []" by code_simp+
  obtain s where s: "clear 4 True arg_demo = Some s" "o_shadow (obj s 4) = Some 0" "forest_ok s"
    "\<And>m. m \<in> dset arg_demo 0 \<Longrightarrow> alive s m \<and> name_of s m = name_of arg_demo m \<and> node_value s m = node_value arg_demo m
        \<and> kids s m = kids arg_demo m \<and> parent s m = parent arg_demo m \<and> o_shadow (obj s m) = o_shadow (obj arg_demo m)"
    using clear_apart [OF arg_ok, of 4 0] arg_context(1) by (auto simp: context_ok_def decl_ok_def)
  have c: "closed_kids arg_demo (dset arg_demo 0)" using closed_dset [OF arg_ok] by (simp add: arg_alive)
  have cl: "alive arg_demo m \<and> set (kids arg_demo m) \<subseteq> dset arg_demo 0" if "m \<in> dset arg_demo 0" for m
    using c that by (auto simp: closed_kids_def)
  have "decl_loop cust s (kids arg_demo 0) e = decl_loop cust arg_demo (kids arg_demo 0) e" for e
    by (rule decl_loop_agree [OF arg_ok s(3), of "dset arg_demo 0"]) (use s(4) cl cl [OF dset_self] in blast)+
  then have "buildDeclInfo cust s (Some 0) = Some arg_decl"
    using arg_context(3) [of cust] s(4) [OF dset_self] by (simp add: buildDeclInfo_def)
  then show "parseArgs cust (Some 4) [''.''] 0 arg_demo = None"
    using s(1,2) d(1) k by (simp add: parseArgs_def from_index_def arg_decl_def)
qed

text \<open>The text of an integer is read back as that integer.\<close>

lemma parseValue_int: "parseValue (int_chars (sint i)) = Some (VInt i)"
proof -
  have dig: "x \<noteq> CHR ''n'' \<and> x \<noteq> CHR ''t'' \<and> x \<noteq> CHR ''f'' \<and> x \<noteq> CHR 0x22 \<and> x \<noteq> CHR ''-'' \<and> x \<noteq> CHR ''+''" if "is_digit x" for x
    using that by (auto simp: is_digit_def less_eq_char_def)
  have nc: "nat_chars n \<noteq> [] \<and> list_all is_digit (nat_chars n)" for n
    using hd_digit [of n] nat_chars_digits [of _ n] by (auto simp: list_all_iff)
  have int: "isInt (int_chars j)" for j
    using nc [of "nat j"] nc [of "nat (- j)"] dig
    by (cases "nat_chars (nat j)") (auto simp: isInt_def unsigned_part_def int_chars_def)
  have hd: "hd (int_chars j) = CHR ''-'' \<or> is_digit (hd (int_chars j))" for j
    using nc [of "nat j"] by (cases "nat_chars (nat j)") (auto simp: int_chars_def)
  have "int_chars (sint i) \<noteq> ''null''" "int_chars (sint i) \<noteq> ''true''" "int_chars (sint i) \<noteq> ''false''"
    "hd (int_chars (sint i)) \<noteq> CHR 0x22"
    using hd [of "sint i"] dig [of "hd (int_chars (sint i))"] by auto
  moreover have "stoll (int_chars (sint i)) = Some (sint i)"
    using sint_ge [of i] sint_lt [of i] sto_int_chars [of "- (2 ^ 63)" "sint i" "2 ^ 63 - 1"] by (simp add: stoll_def)
  ultimately show ?thesis using int by (simp add: parseValue_def)
qed

end
