(* ===== verification/Command_Factory.thy ===== *)
theory Command_Factory
  imports Command_Args Protocol_Props
begin

text \<open>
  The registry of commands (\<open>ve/src/core/factory.cpp\<close>, \<open>factory.h\<close>) and commands on it
  (\<open>command.cpp\<close>, \<open>command.h\<close>): registering a callable or a list of steps under a key, finding a
  command, describing it, and calling it with arguments. A factory is a node of the tree and the list
  of its keys. \<open>payload\<close> is the custom payload that holds a reference to a loop, \<open>cust_loop\<close> its
  inverse. \<open>None\<close> is a null pointer dereferenced or the key parser's overflow.
\<close>

section \<open>Factories\<close>

record factory =
  fa_node :: "nid option"
  fa_keys :: "string list"

definition factory_new :: "nid \<Rightarrow> string \<Rightarrow> forest \<Rightarrow> (factory \<times> forest) option" where
  "factory_new root nm st =
     map_option (\<lambda>(n, st1). (\<lparr>fa_node = n, fa_keys = []\<rparr>, st1))
       (ensure_path root (''ve/factory/'' @ nm) True VE_NODE_PATH_SEP VE_NODE_KEY_SEP st)"

text \<open>The global table of factories.\<close>

definition factory_at :: "nid \<Rightarrow> string \<Rightarrow> (string \<times> factory) list \<Rightarrow> forest \<Rightarrow> (factory \<times> (string \<times> factory) list \<times> forest) option" where
  "factory_at root nm reg st =
     (case map_of reg nm of
        Some f \<Rightarrow> Some (f, reg, st)
      | None \<Rightarrow> map_option (\<lambda>(f, st1). (f, reg @ [(nm, f)], st1)) (factory_new root nm st))"

definition factory_find :: "factory \<Rightarrow> string \<Rightarrow> char \<Rightarrow> forest \<Rightarrow> nid option option" where
  "factory_find fa key sep st =
     (case fa_node fa of None \<Rightarrow> Some None | Some n \<Rightarrow> find_path st n key False sep VE_NODE_KEY_SEP)"

definition factory_ensure :: "factory \<Rightarrow> string \<Rightarrow> char \<Rightarrow> forest \<Rightarrow> (nid option \<times> forest) option" where
  "factory_ensure fa key sep st =
     (case fa_node fa of None \<Rightarrow> Some (None, st) | Some n \<Rightarrow> ensure_path n key True sep VE_NODE_KEY_SEP st)"

definition factory_reg_node :: "(lid \<Rightarrow> nat) \<Rightarrow> string \<Rightarrow> nid option \<Rightarrow> var \<Rightarrow> string \<Rightarrow> lid option \<Rightarrow> factory \<times> forest
    \<Rightarrow> (factory \<times> forest) option" where
  "factory_reg_node payload key functor callable help lr s =
     (let (fa, st) = s
      in case functor of
           None \<Rightarrow> Some s
         | Some f \<Rightarrow>
             if key \<in> set (fa_keys fa) then Some s
             else do {
               st1 \<leftarrow> set_value f callable st;
               st2 \<leftarrow> (if help \<noteq> [] then set_path f ''help'' (VString help) st1 else Some st1);
               st3 \<leftarrow> (case lr of None \<Rightarrow> Some st2 | Some l \<Rightarrow> set_path f ''loop'' (VCustom (payload l)) st2);
               Some (fa\<lparr>fa_keys := fa_keys fa @ [key]\<rparr>, st3) })"

definition factory_reg :: "(lid \<Rightarrow> nat) \<Rightarrow> string \<Rightarrow> var \<Rightarrow> string \<Rightarrow> lid option \<Rightarrow> char \<Rightarrow> factory \<times> forest
    \<Rightarrow> (factory \<times> forest) option" where
  "factory_reg payload key callable help lr sep s =
     (case factory_ensure (fst s) key sep (snd s) of
        None \<Rightarrow> None
      | Some (functor, st1) \<Rightarrow> factory_reg_node payload key functor callable help lr (fst s, st1))"

text \<open>Calling what is registered: one argument is passed as it is, several as a list.\<close>

definition factory_exec :: "(nat \<Rightarrow> var \<Rightarrow> var) \<Rightarrow> factory \<Rightarrow> string \<Rightarrow> var list \<Rightarrow> forest \<Rightarrow> var option" where
  "factory_exec call fa key params st =
     map_option (\<lambda>r. case r of
         None \<Rightarrow> VNone
       | Some f \<Rightarrow>
           if type_of (node_value st f) \<noteq> T_CALLABLE then VNone
           else invoke call (node_value st f) (case params of [] \<Rightarrow> VNone | [p] \<Rightarrow> p | _ \<Rightarrow> VList params))
       (factory_find fa key VE_NODE_PATH_SEP st)"

section \<open>Commands and their nodes\<close>

text \<open>\<open>Command(key)\<close>: the node of the key, or the node \<open>missing\<close> whose callable always fails.\<close>

definition command_of :: "nid \<Rightarrow> factory \<Rightarrow> string \<Rightarrow> char \<Rightarrow> forest \<Rightarrow> nid option" where
  "command_of missing fa key sep st =
     map_option (\<lambda>r. case r of None \<Rightarrow> missing | Some n \<Rightarrow> n) (factory_find fa key sep st)"

definition command_valid :: "nid \<Rightarrow> nid \<Rightarrow> bool" where
  "command_valid missing n \<longleftrightarrow> n \<noteq> missing"

definition command_has :: "factory \<Rightarrow> string \<Rightarrow> char \<Rightarrow> forest \<Rightarrow> bool option" where
  "command_has fa key sep st = map_option (\<lambda>r. r \<noteq> None) (factory_find fa key sep st)"

definition command_declare :: "nid \<Rightarrow> forest \<Rightarrow> (nid option \<times> forest) option" where
  "command_declare n st = ensure_path n ''declare'' True VE_NODE_PATH_SEP VE_NODE_KEY_SEP st"

definition command_help :: "(nat \<Rightarrow> string) \<Rightarrow> nid \<Rightarrow> forest \<Rightarrow> string option" where
  "command_help cust n st = map_option (var_text cust []) (get_path st n ''help'')"

definition command_setHelp :: "nid \<Rightarrow> string \<Rightarrow> forest \<Rightarrow> forest option" where
  "command_setHelp n h st = set_path n ''help'' (VString h) st"

text \<open>Counting the steps makes the child \<open>steps\<close> when it is missing.\<close>

definition command_stepCount :: "nid \<Rightarrow> forest \<Rightarrow> (int \<times> forest) option" where
  "command_stepCount n st = map_option (\<lambda>(s, st1). (count st1 s, st1)) (at_path n ''steps'' st)"

definition step_writeTo :: "(lid \<Rightarrow> nat) \<Rightarrow> pstep \<Rightarrow> nid option \<Rightarrow> forest \<Rightarrow> forest option" where
  "step_writeTo payload step nd st =
     (case nd of
        None \<Rightarrow> Some st
      | Some n \<Rightarrow> do {
          st1 \<leftarrow> set_value n (ps_fn step) st;
          (case ps_loop step of
             None \<Rightarrow> Some st1
           | Some l \<Rightarrow> do { (c, st2) \<leftarrow> at_path n ''loop'' st1; set_value c (VCustom (payload l)) st2 }) })"

definition command_addStep :: "(lid \<Rightarrow> nat) \<Rightarrow> nid \<Rightarrow> pstep \<Rightarrow> forest \<Rightarrow> forest option" where
  "command_addStep payload n step st =
     do {
       (steps, st1) \<leftarrow> at_path n ''steps'' st;
       (sn, st2) \<leftarrow> ensure_index steps (count st1 steps) True st1;
       step_writeTo payload step sn st2 }"

text \<open>Registration by a builder: a list of steps, a help text, declarations. The builder is a function on
  the node it is given.\<close>

definition command_reg :: "(lid \<Rightarrow> nat) \<Rightarrow> string \<Rightarrow> (nid \<Rightarrow> forest \<Rightarrow> forest option) \<Rightarrow> string \<Rightarrow> char \<Rightarrow> factory \<times> forest
    \<Rightarrow> (factory \<times> forest) option" where
  "command_reg payload key builder help sep s =
     do {
       s1 \<leftarrow> (if key \<notin> set (fa_keys (fst s)) then factory_reg payload key VNone [] None sep s else Some s);
       (nd, st2) \<leftarrow> factory_ensure (fst s1) key sep (snd s1);
       (case nd of
          None \<Rightarrow> None
        | Some n \<Rightarrow> do {
            st3 \<leftarrow> builder n st2;
            st4 \<leftarrow> (if help \<noteq> [] then command_setHelp n help st3 else Some st3);
            Some (fst s1, st4) }) }"

text \<open>A context of its own for a command.\<close>

definition command_context :: "factory \<Rightarrow> string \<Rightarrow> char \<Rightarrow> forest \<Rightarrow> (nid \<times> forest) option" where
  "command_context fa key sep st =
     (let (ctx, st1) = new_node ''_ctx'' st
      in case factory_find fa key sep st1 of
           None \<Rightarrow> None
         | Some None \<Rightarrow> Some (ctx, st1)
         | Some (Some n) \<Rightarrow>
             (case find_path st1 n ''declare'' False VE_NODE_PATH_SEP VE_NODE_KEY_SEP of
                None \<Rightarrow> None
              | Some None \<Rightarrow> Some (ctx, st1)
              | Some (Some decl) \<Rightarrow> Some (ctx, setShadow ctx (Some decl) st1)))"

text \<open>A function of several parameters takes them from the first children of the context, which are made
  when neither the context nor its declaration has them.\<close>

fun unpack_args :: "nat \<Rightarrow> nat \<Rightarrow> nid \<Rightarrow> forest \<Rightarrow> (var list \<times> forest) option" where
  "unpack_args i 0 ctx st = Some ([], st)"
| "unpack_args i (Suc k) ctx st =
     (case ensure_index ctx (int i) True st of
        None \<Rightarrow> None
      | Some (c, st1) \<Rightarrow>
          (let v = (case c of None \<Rightarrow> VNone | Some n \<Rightarrow> node_value st1 n)
           in map_option (\<lambda>(vs, st2). (v # vs, st2)) (unpack_args (Suc i) k ctx st1)))"

definition wrapMultiArg :: "nat \<Rightarrow> (var \<Rightarrow> var) \<Rightarrow> nid option \<Rightarrow> forest \<Rightarrow> (var \<times> forest) option" where
  "wrapMultiArg arity f ctx st =
     (case ctx of
        None \<Rightarrow> Some (f (VList (replicate arity VNone)), st)
      | Some c \<Rightarrow> map_option (\<lambda>(vs, st1). (f (VList vs), st1)) (unpack_args 0 arity c st))"

section \<open>Calls with arguments\<close>

definition no_steps :: "forest \<Rightarrow> nid \<Rightarrow> presult" where
  "no_steps st n = result_fail (VString (''command has no steps: '' @ name_of st n))"

text \<open>The pipeline makes its context; the arguments are parsed into it before the pipeline starts.\<close>

definition with_input :: "(nat \<Rightarrow> string) \<Rightarrow> var \<Rightarrow> pipe \<Rightarrow> pipe option" where
  "with_input cust input w =
     map_option (\<lambda>(_, st). w\<lparr>p_forest := st\<rparr>) (parseArgs_var cust (Some (p_ctx w)) input (p_forest w))"

definition command_call_input :: "penv \<Rightarrow> nat \<Rightarrow> lid list \<Rightarrow> (nat \<Rightarrow> string) \<Rightarrow> (nat \<Rightarrow> lid option) \<Rightarrow> lid \<Rightarrow> nid \<Rightarrow> var
    \<Rightarrow> bool \<Rightarrow> forest \<Rightarrow> (presult \<times> bool \<times> (forest + pipe)) outcome" where
  "command_call_input env f sched cust cust_loop main_loop n input wait st =
     (case build cust_loop main_loop n None st of
        Done (Inl st1) \<Rightarrow> Done (no_steps st1 n, False, Inl st1)
      | Done (Inr w) \<Rightarrow>
          (case with_input cust input w of
             None \<Rightarrow> Undefined
           | Some w1 \<Rightarrow>
               (case drivePipeline env f sched wait False w1 of
                  Done (r, d, w2) \<Rightarrow> Done (r, d, Inr w2) | Stuck \<Rightarrow> Stuck | Undefined \<Rightarrow> Undefined))
      | Stuck \<Rightarrow> Stuck | Undefined \<Rightarrow> Undefined)"

text \<open>With the node the caller stands on, as the value of the context.\<close>

definition command_call_at :: "penv \<Rightarrow> nat \<Rightarrow> lid list \<Rightarrow> (nat \<Rightarrow> string) \<Rightarrow> (nat \<Rightarrow> lid option) \<Rightarrow> lid \<Rightarrow> nid \<Rightarrow> var
    \<Rightarrow> nid \<Rightarrow> bool \<Rightarrow> bool \<Rightarrow> forest \<Rightarrow> (presult \<times> bool \<times> (forest + pipe)) outcome" where
  "command_call_at env f sched cust cust_loop main_loop n input current wait detachedOut st =
     (case build cust_loop main_loop n None st of
        Done (Inl st1) \<Rightarrow> Done (no_steps st1 n, False, Inl st1)
      | Done (Inr w) \<Rightarrow>
          (case set_value (p_ctx w) (VPointer (of_nat current)) (p_forest w) of
             None \<Rightarrow> Undefined
           | Some st1 \<Rightarrow>
               (case with_input cust input (w\<lparr>p_forest := st1\<rparr>) of
                  None \<Rightarrow> Undefined
                | Some w1 \<Rightarrow>
                    (case drivePipeline env f sched wait detachedOut w1 of
                       Done (r, d, w2) \<Rightarrow> Done (r, d, Inr w2) | Stuck \<Rightarrow> Stuck | Undefined \<Rightarrow> Undefined)))
      | Stuck \<Rightarrow> Stuck | Undefined \<Rightarrow> Undefined)"

definition command_run_input :: "penv \<Rightarrow> nat \<Rightarrow> (nat \<Rightarrow> string) \<Rightarrow> (nat \<Rightarrow> lid option) \<Rightarrow> lid \<Rightarrow> nid \<Rightarrow> var \<Rightarrow> forest
    \<Rightarrow> (forest + pipe) outcome" where
  "command_run_input env f cust cust_loop main_loop n input st =
     (case build cust_loop main_loop n None st of
        Done (Inr w) \<Rightarrow>
          (case with_input cust input w of
             None \<Rightarrow> Undefined
           | Some w1 \<Rightarrow>
               (case pl_start env f w1 of Done (_, w2) \<Rightarrow> Done (Inr w2) | Stuck \<Rightarrow> Stuck | Undefined \<Rightarrow> Undefined))
      | r \<Rightarrow> r)"

section \<open>Walks and what happens at their end\<close>

text \<open>A change at \<open>n\<close> and at the values of its children.\<close>

definition around :: "nid \<Rightarrow> forest \<Rightarrow> forest \<Rightarrow> bool" where
  "around n st st' \<longleftrightarrow> forest_ok st' \<and> (\<forall>m. alive st m \<longrightarrow> alive st' m \<and> name_of st' m = name_of st m
     \<and> (m \<noteq> n \<longrightarrow> kids st' m = kids st m))"

lemma beside_around: "beside n st st' \<Longrightarrow> around n st st'"
  by (simp add: beside_def around_def)

lemma arg_step_around: "arg_step n st st' \<Longrightarrow> around n st st'"
  by (simp add: arg_step_def around_def)

lemma around_trans: "around n a b \<Longrightarrow> around n b c \<Longrightarrow> around n a c"
  unfolding around_def by metis

lemma find_key_around:
  assumes ok: "forest_ok st" and a: "around n st st'" and m: "alive st m" "m \<noteq> n"
  shows "find_key st' m key False sep = find_key st m key False sep"
proof -
  have ok': "forest_ok st'" "alive st' m" "kids st' m = kids st m" using a m by (simp_all add: around_def)
  have nk: "named_kids st' m nm = named_kids st m nm" for nm
    unfolding named_kids_def ok'(3) using kid_facts [OF ok m(1)] a by (intro filter_cong) (auto simp: around_def)
  have "child_index st' m i = child_index st m i" for i by (simp add: child_index_spec ok'(3) Let_def)
  moreover have "nm \<noteq> [] \<Longrightarrow> child_named st' m nm ov = child_named st m nm ov" for nm ov
    using child_named_spec [OF ok m(1)] child_named_spec [OF ok'(1,2)] nk by simp
  ultimately show ?thesis by (auto simp: find_key_plain split: key.split)
qed

lemma find_walk_around:
  assumes ok: "forest_ok st" and a: "around n st st'"
  shows "alive st m \<Longrightarrow> find_walk st m False sep segs = Some (Some n) \<Longrightarrow> find_walk st' m False sep segs = Some (Some n)"
proof (induction segs arbitrary: m)
  case (Cons seg segs)
  obtain d where d: "find_key st m seg False sep = Some (Some d)" "find_walk st d False sep segs = Some (Some n)"
    using Cons.prems(2) by (auto split: option.splits)
  have k: "d \<in> set (kids st m)" by (rule find_key_kid [OF ok Cons.prems(1) d(1)])
  have da: "alive st d" using kid_facts [OF ok Cons.prems(1) k] by simp
  have "m \<noteq> n" using walk_inside [OF ok da d(2)] kid_dset(1) [OF ok Cons.prems(1) k] by blast
  then show ?case using find_key_around [OF ok a Cons.prems(1)] d(1) Cons.IH [OF da d(2)] by simp
qed simp

text \<open>What is made at the end of a walk has no children yet.\<close>

lemma ensure_key_fresh:
  assumes ok: "forest_ok st" and n: "alive st n" and p: "parseKey key sep = Key nm i"
    and none: "find_key st n key False sep = Some None" and e: "ensure_key n key False sep st = Some (Some c, st')"
  shows "kids st' c = []"
proof (cases "nm = []")
  case True
  have i: "child_index st n (int i) = None" using none p True by (simp add: find_key_plain)
  then have ge: "length (kids st n) \<le> i" by (simp add: child_index_spec split: if_splits)
  obtain cs st1 where a: "append_node n [] (int i - count st n) st = Some (Some (hd cs), st1)"
    "length cs = nat (int i - count st n) + 1" "appended n [] cs st st1"
    using append_node_spec [OF ok n, of "int i - count st n" "[]"] ge by (auto simp: count_spec)
  have "child_index st1 n (int i) = Some c" "st' = st1" using e p True i a(1) by (auto simp: ensure_key_def ensure_index_def)
  then have "c \<in> set cs" using a(2,3) ge by (auto simp: child_index_spec count_spec appended_def nth_append split: if_splits)
  then show ?thesis using a(3) \<open>st' = st1\<close> by (simp add: appended_def)
next
  case False
  have i: "child_named st n nm (int i) = None" using none p False by (simp add: find_key_plain)
  then have ge: "length (named_kids st n nm) \<le> i" using child_named_spec [OF ok n False] by (simp split: if_splits)
  obtain cs st1 where a: "append_node n nm (int i - count_named st n nm) st = Some (Some (hd cs), st1)"
    "length cs = nat (int i - count_named st n nm) + 1" "appended n nm cs st st1"
    using append_node_spec [OF ok n, of "int i - count_named st n nm" nm] ge count_named_spec [OF ok n False] by auto
  have ok1: "forest_ok st1" "alive st1 n" using a(3) n by (simp_all add: appended_def)
  have "filter (\<lambda>d. name_of st1 d = nm) (kids st n) = named_kids st n nm"
    unfolding named_kids_def using kid_facts [OF ok n] a(3) by (intro filter_cong) (auto simp: appended_def keeps_def)
  then have nk: "named_kids st1 n nm = named_kids st n nm @ cs" using a(3) by (simp add: named_kids_def appended_def)
  have "child_named st1 n nm (int i) = Some c" "st' = st1" using e p False i a(1) by (auto simp: ensure_key_def ensure_named_def)
  then have "c \<in> set cs" using child_named_spec [OF ok1 False, of "int i"] nk ge by (auto simp: nth_append split: if_splits)
  then show ?thesis using a(3) \<open>st' = st1\<close> by (simp add: appended_def)
qed

lemma ensure_walk_fresh:
  "forest_ok st \<Longrightarrow> alive st n \<Longrightarrow> key_segs sep segs \<Longrightarrow> find_walk st n False sep segs = Some None
    \<Longrightarrow> ensure_walk n False sep segs st = Some (Some c, st') \<Longrightarrow> kids st' c = []"
proof (induction segs arbitrary: n st)
  case (Cons seg segs)
  obtain nm i where p: "parseKey seg sep = Key nm i"
    using Cons.prems(3) by (cases "parseKey seg sep") (auto simp: key_segs_def)
  obtain d st1 where d: "ensure_key n seg False sep st = Some (Some d, st1)" "grows st st1"
    "find_key st1 n seg False sep = Some (Some d)" "\<And>x. find_key st n seg False sep = Some (Some x) \<Longrightarrow> st1 = st"
    using ensure_key_spec [OF Cons.prems(1,2) p] by blast
  have ok1: "forest_ok st1" "alive st1 n" using d(2) grows_alive [OF d(2) Cons.prems(2)] by (simp_all add: grows_def)
  have da: "alive st1 d" using kid_facts [OF ok1 find_key_kid [OF ok1 d(3)]] by simp
  have ks: "key_segs sep segs" using Cons.prems(3) by (simp add: key_segs_def)
  have w: "ensure_walk d False sep segs st1 = Some (Some c, st')" using Cons.prems(5) d(1) by simp
  show ?case
  proof (cases "find_key st n seg False sep = Some None")
    case True
    have kd: "kids st1 d = []" by (rule ensure_key_fresh [OF Cons.prems(1,2) p True d(1)])
    show ?thesis
    proof (cases segs)
      case Nil
      then show ?thesis using w kd by simp
    next
      case (Cons s ss)
      obtain nm' i' where p': "parseKey s sep = Key nm' i'"
        using ks Cons by (cases "parseKey s sep") (auto simp: key_segs_def)
      have "named_kids st1 d nm' = []" by (simp add: named_kids_def kd)
      then have "find_key st1 d s False sep = Some None"
        using p' child_named_spec [OF ok1(1) da, of nm' "int i'"] by (simp add: find_key_plain child_index_spec kd)
      then have "find_walk st1 d False sep segs = Some None" using Cons by simp
      then show ?thesis using Cons.IH [OF ok1(1) da ks _ w] by blast
    qed
  next
    case False
    then obtain x where x: "find_key st n seg False sep = Some (Some x)"
      using p by (cases "find_key st n seg False sep") (auto simp: find_key_plain)
    have "st1 = st" by (rule d(4) [OF x])
    moreover have "x = d" using d(3) x calculation by simp
    ultimately show ?thesis using Cons.IH [OF ok1(1) da ks _ w] Cons.prems(4) x by simp
  qed
qed simp

section \<open>Registering\<close>

lemma set_path_own:
  assumes "plain st" "forest_ok st" "alive st n"
  shows "set_path n p v st = set_own n p v st"
  using ensure_path_plain [OF assms, of p True] by (simp add: set_path_def set_own_def)

lemma plain_set_own: "set_own n p v st = Some st' \<Longrightarrow> plain st \<Longrightarrow> plain st'"
proof -
  assume a: "set_own n p v st = Some st'" and pl: "plain st"
  then obtain c st1 where c: "ensure_path n p False VE_NODE_PATH_SEP VE_NODE_KEY_SEP st = Some (Some c, st1)" "set_value c v st1 = Some st'"
    by (auto simp: set_own_def split: option.splits)
  show "plain st'" using plain_ensure_path [OF c(1) pl] plain_set_value [OF c(2)] by simp
qed

text \<open>Writing a field: the fields after it, and what is left alone.\<close>

lemma set_field_spec:
  assumes ok: "forest_ok st" "plain st" "alive st n" "parent st n \<noteq> Some n" and k: "field_name k"
  shows "\<exists>st'. set_path n k v st = Some st' \<and> forest_ok st' \<and> plain st' \<and> alive st' n \<and> parent st' n = parent st n
    \<and> around n st st' \<and> args_of st' n = AList.update k v (args_of st n) \<and> node_value st' n = node_value st n"
proof -
  obtain st' where st': "set_own n k v st = Some st'" "arg_step n st st'" "args_of st' n = AList.update k v (args_of st n)"
    using set_own_spec [OF ok(1,3) k] by blast
  then show ?thesis
    using set_path_own [OF ok(2,1,3)] plain_set_own [OF st'(1) ok(2)] arg_step_around [OF st'(2)] ok(3,4)
    by (auto simp: arg_step_def)
qed

lemma no_self_parent: "forest_ok st \<Longrightarrow> alive st n \<Longrightarrow> parent st n \<noteq> Some n"
  by (auto simp: forest_ok_def acyclic_def edges_def)

definition reg_fields :: "(lid \<Rightarrow> nat) \<Rightarrow> string \<Rightarrow> lid option \<Rightarrow> (string \<times> var) list" where
  "reg_fields payload help lr =
     (if help \<noteq> [] then [(''help'', VString help)] else [])
     @ (case lr of None \<Rightarrow> [] | Some l \<Rightarrow> [(''loop'', VCustom (payload l))])"

lemma reg_names: "field_name ''help''" "field_name ''loop''" "field_name ''declare''" "field_name ''steps''"
  by code_simp+

lemma factory_reg_spec:
  assumes ok: "forest_ok st" "plain st" and fa: "fa_node fa = Some fn" "alive st fn" "key \<notin> set (fa_keys fa)"
    and key: "key \<noteq> [] \<longrightarrow> hd key \<noteq> sep" "key_segs VE_NODE_KEY_SEP (segments sep key)"
    and none: "factory_find fa key sep st = Some None"
  shows "\<exists>st' n. factory_reg payload key callable help lr sep (fa, st) = Some (fa\<lparr>fa_keys := fa_keys fa @ [key]\<rparr>, st')
    \<and> factory_find fa key sep st' = Some (Some n) \<and> forest_ok st' \<and> plain st' \<and> alive st' n
    \<and> node_value st' n = callable \<and> args_of st' n = reg_fields payload help lr"
proof -
  let ?segs = "segments sep key"
  have start: "path_start s fn key sep = Some (fn, ?segs)" for s using key(1) by (auto simp: path_start_def)
  have n0: "find_walk st fn False VE_NODE_KEY_SEP ?segs = Some None"
    using none by (simp add: factory_find_def fa(1) find_path_def start)
  obtain n st1 where e: "ensure_walk fn False VE_NODE_KEY_SEP ?segs st = Some (Some n, st1)" "grows st st1" "alive st1 n"
    "find_walk st1 fn False VE_NODE_KEY_SEP ?segs = Some (Some n)"
    using ensure_walk_spec [OF ok(1) fa(2) key(2)] by blast
  have "ensure_path fn key False sep VE_NODE_KEY_SEP st = Some (Some n, st1)" by (simp add: ensure_path_def start e(1))
  then have ep: "factory_ensure fa key sep st = Some (Some n, st1)"
    using ensure_path_plain [OF ok(2,1) fa(2), of key True] by (simp add: factory_ensure_def fa(1))
  have s1: "forest_ok st1" "plain st1" "alive st1 fn" "kids st1 n = []"
    using e(2) grows_alive [OF e(2) fa(2)] plain_ensure_walk [OF e(1) ok(2)] ensure_walk_fresh [OF ok(1) fa(2) key(2) n0 e(1)]
    by (simp_all add: grows_def)
  obtain st2 where st2: "set_value n callable st1 = Some st2" "beside n st1 st2" "kids st2 n = kids st1 n" "node_value st2 n = callable"
    using set_value_beside [OF s1(1) e(3)] by blast
  have s2: "forest_ok st2" "plain st2" "alive st2 n" "around n st1 st2" "args_of st2 n = []"
    using st2 e(3) plain_set_value [OF st2(1)] s1(2,4) beside_around [OF st2(2)] by (simp_all add: beside_def args_of_def)
  obtain st3 where st3: "(if help \<noteq> [] then set_path n ''help'' (VString help) st2 else Some st2) = Some st3"
    "forest_ok st3" "plain st3" "alive st3 n" "around n st2 st3"
    "args_of st3 n = (if help \<noteq> [] then [(''help'', VString help)] else [])" "node_value st3 n = callable"
  proof (cases "help = []")
    case True
    then show ?thesis using that [of st2] s2 st2(4) arg_step_around [OF arg_step_refl [OF s2(1)]] by simp
  next
    case False
    then show ?thesis
      using set_field_spec [OF s2(1-3) no_self_parent [OF s2(1,3)] reg_names(1), of "VString help"] s2(5) st2(4) that by auto
  qed
  obtain st4 where st4: "(case lr of None \<Rightarrow> Some st3 | Some l \<Rightarrow> set_path n ''loop'' (VCustom (payload l)) st3) = Some st4"
    "forest_ok st4" "plain st4" "alive st4 n" "around n st3 st4" "args_of st4 n = reg_fields payload help lr" "node_value st4 n = callable"
  proof (cases lr)
    case None
    then show ?thesis using that [of st3] st3 arg_step_around [OF arg_step_refl [OF st3(2)]] by (simp add: reg_fields_def)
  next
    case (Some l)
    then show ?thesis
      using set_field_spec [OF st3(2-4) no_self_parent [OF st3(2,4)] reg_names(2), of "VCustom (payload l)"] st3(6,7) that
      by (auto simp: reg_fields_def)
  qed
  have "around n st1 st4" by (rule around_trans [OF around_trans [OF s2(4) st3(5)] st4(5)])
  then have "find_walk st4 fn False VE_NODE_KEY_SEP ?segs = Some (Some n)" by (rule find_walk_around [OF s1(1) _ s1(3) e(4)])
  then have f: "factory_find fa key sep st4 = Some (Some n)" by (simp add: factory_find_def fa(1) find_path_def start)
  have "factory_reg payload key callable help lr sep (fa, st) = Some (fa\<lparr>fa_keys := fa_keys fa @ [key]\<rparr>, st4)"
    using ep fa(3) st2(1) st3(1) st4(1) by (simp add: factory_reg_def factory_reg_node_def Let_def)
  then show ?thesis using f st4 by blast
qed

lemma args_find:
  assumes "forest_ok st" "alive st n" "field_name k"
  shows "map_option (map_option (node_value st)) (find_path st n k False VE_NODE_PATH_SEP VE_NODE_KEY_SEP)
    = Some (map_of (args_of st n) k)"
  using find_simple [OF assms(1,2)] assms(3) by (auto simp: map_of_args field_name_def split: list.splits)

text \<open>C8: A callable registered under a new key is found under it: the factory lists the key, the command
  of the key is a node with the callable, its help text reads back, and the pipeline built from it has
  one step, the callable, on the loop it was registered with or else on the main loop.\<close>

theorem registered_command_builds:
  assumes "forest_ok st" "plain st" and "fa_node fa = Some fn" "alive st fn" "key \<notin> set (fa_keys fa)"
    and "key \<noteq> [] \<longrightarrow> hd key \<noteq> sep" "key_segs VE_NODE_KEY_SEP (segments sep key)"
    and "factory_find fa key sep st = Some None" and loops: "\<And>l. lr = Some l \<Longrightarrow> cust_loop (payload l) = Some l"
  shows "\<exists>fa' st' n. factory_reg payload key (VCallable k) help lr sep (fa, st) = Some (fa', st')
    \<and> fa_keys fa' = fa_keys fa @ [key] \<and> forest_ok st'
    \<and> command_of missing fa' key sep st' = Some n \<and> command_has fa' key sep st' = Some True
    \<and> command_help cust n st' = Some help
    \<and> build_steps cust_loop main_loop st' n
        = Some [\<lparr>ps_fn = VCallable k, ps_loop = Some (case lr of None \<Rightarrow> main_loop | Some l \<Rightarrow> l)\<rparr>]"
proof -
  obtain st' n where r: "factory_reg payload key (VCallable k) help lr sep (fa, st) = Some (fa\<lparr>fa_keys := fa_keys fa @ [key]\<rparr>, st')"
    "factory_find fa key sep st' = Some (Some n)" "forest_ok st'" "plain st'" "alive st' n" "node_value st' n = VCallable k"
    "args_of st' n = reg_fields payload help lr"
    using factory_reg_spec [OF assms(1-8)] by blast
  have f: "factory_find (fa\<lparr>fa_keys := fa_keys fa @ [key]\<rparr>) key sep st' = Some (Some n)" using r(2) by (simp add: factory_find_def)
  obtain ln where ln: "find_path st' n ''loop'' False VE_NODE_PATH_SEP VE_NODE_KEY_SEP = Some ln"
    "map_option (node_value st') ln = map_of (reg_fields payload help lr) ''loop''"
    using args_find [OF r(3,5) reg_names(2)] r(7) by auto
  have "build_steps cust_loop main_loop st' n
      = Some [\<lparr>ps_fn = VCallable k, ps_loop = Some (case lr of None \<Rightarrow> main_loop | Some l \<Rightarrow> l)\<rparr>]"
    using ln r(6) loops by (auto simp: build_steps_def node_step_def reg_fields_def split: option.splits if_splits)
  moreover have "command_help cust n st' = Some help"
  proof -
    obtain hn where "find_path st' n ''help'' True VE_NODE_PATH_SEP VE_NODE_KEY_SEP = Some hn"
      "map_option (node_value st') hn = map_of (reg_fields payload help lr) ''help''"
      using args_find [OF r(3,5) reg_names(1)] find_path_plain [OF r(4,3,5), of "''help''" True] r(7) by auto
    then show ?thesis
      by (auto simp: command_help_def get_path_def reg_fields_def split: option.splits if_splits)
  qed
  ultimately show ?thesis using r(1,3) f by (intro exI conjI) (auto simp: command_of_def command_has_def)
qed

section \<open>Calling with arguments\<close>

lemma delete_gone:
  assumes ok: "forest_ok st" and n: "alive st n"
  shows "\<exists>s. delete_node (next_id st + 1) n st = Some s \<and> \<not> alive s n"
proof -
  have "agrees st st (dset st n)" using dset_alive [OF ok n] by (simp add: agrees_def)
  then obtain s where "delete_node (next_id st + 1) n st = Some s" "erased (dset st n) st s"
    using delete_node_spec [OF ok n] card_dset_le [OF ok n] by (metis le_SucI Suc_eq_plus1)
  then show ?thesis by (intro exI [of _ s]) (simp add: erased_def alive_def)
qed

text \<open>A waiting call on a pipeline of one step that is to run on an open loop.\<close>

lemma drive_one:
  assumes q: "quiet env" and w: "p_steps w = [s]" "p_tasks w = []" "p_alive w" "\<not> p_finished w" "p_reports w = []"
    and b: "bound env s" and run: "step_result env (ctx_arg w) s (p_forest w) = (r, st')"
    and fin: "final_result st' (p_ctx w) r = Some out" and f: "3 \<le> f"
  shows "\<exists>w2. drivePipeline env f [loop_of s] True d w
      = (case pl_delete w2 of Done w' \<Rightarrow> Done (out, False, w') | Stuck \<Rightarrow> Stuck | Undefined \<Rightarrow> Undefined)
    \<and> p_forest w2 = st' \<and> p_ctx w2 = p_ctx w \<and> p_owns w2 = p_owns w \<and> p_state w2 = final_state r
    \<and> p_reports w2 = [(final_signal r, out)] \<and> p_tasks w2 = []"
proof -
  define w0 where "w0 = w\<lparr>p_handler := Some HWait\<rparr>"
  obtain f' where f': "f = Suc (Suc (Suc f'))" using at_least_3 [OF f] by blast
  have w0: "p_steps w0 = [s]" "p_tasks w0 = []" "p_alive w0" "\<not> p_finished w0" "p_forest w0 = p_forest w" "p_ctx w0 = p_ctx w"
    "p_owns w0 = p_owns w" "p_reports w0 = []" "ctx_arg w0 = ctx_arg w"
    using w by (simp_all add: w0_def ctx_arg_def)
  obtain w1 where w1: "pl_start env f w0 = Done (result_accept, w1)" "waiting s [] (p_forest w) w0 w1"
    using start_posted [OF w0(1) b w0(2,3), of "Suc f'"] w0(5) unfolding f' by auto
  have run': "seq_run env (ctx_arg w0) [s] (result_ok VNone) (p_forest w) = (r, st')" using run w0(9) by simp
  obtain w2 where w2: "wait_for env f [loop_of s] w1 = Done w2" "through r out st' w0 w2"
    using posted_run [OF q w0(4) w1(2) _ run', of out f'] fin w0(6) unfolding f' by auto
  have "isAccepted result_accept" by (simp add: isAccepted_def result_accept_def)
  then have "drivePipeline env f [loop_of s] True d w
      = (case pl_delete w2 of Done w' \<Rightarrow> Done (out, False, w') | Stuck \<Rightarrow> Stuck | Undefined \<Rightarrow> Undefined)"
    using w1(1) w2 unfolding drivePipeline_def Let_def w0_def [symmetric]
    by (simp add: through_def del: pl_start.simps split: outcome.split)
  then show ?thesis using w2(2) w0 by (auto simp: through_def)
qed

text \<open>The context a pipeline makes: a new node with the declaration as its shadow.\<close>

lemma context_of_build:
  assumes ok: "forest_ok st" and n: "alive st n" and d: "find_path st n ''declare'' False VE_NODE_PATH_SEP VE_NODE_KEY_SEP = Some (Some d)"
    and decl: "decl_ok st d" and b: "build cust_loop main_loop n None st = Done (Inr w)"
  shows "p_ctx w = next_id st" "context_ok (p_forest w) (p_ctx w) d" "kids (p_forest w) (p_ctx w) = []"
    "o_children (obj (p_forest w) (p_ctx w)) = None"
    "node_value (p_forest w) (p_ctx w) = VNone" "name_of (p_forest w) (p_ctx w) = ''_ctx''"
    "p_owns w" "p_alive w" "p_tasks w = []" "\<not> p_finished w" "p_reports w = []"
    "buildDeclInfo cust (p_forest w) (Some d) = buildDeclInfo cust st (Some d)"
proof -
  obtain c st1 where c: "new_node ''_ctx'' st = (c, st1)" by force
  define st2 where "st2 = setShadow c (Some d) st1"
  have dd: "c = next_id st" "heap st1 = (\<lambda>m. if m \<in> set [c] then Some (blank ''_ctx'') else heap st m)" "next_id st1 = c + 1"
    using c by (auto simp: new_node_eq fun_eq_iff)
  note g = forest_ok_fresh [OF ok _ _ dd(2,3), simplified]
  have c1: "forest_ok st1" "\<And>m. alive st1 m = (alive st m \<or> m = c)" "obj st1 c = blank ''_ctx''"
    "\<And>m. alive st m \<Longrightarrow> m \<noteq> c \<and> obj st1 m = obj st m"
    using g by (auto simp: dd(1))
  have nk: "named_kids st n ''declare'' = named_kids st1 n ''declare''"
    unfolding named_kids_def using c1(4) n kid_facts [OF ok n] by (intro filter_cong) (auto simp: kids_def name_of_def)
  have n1: "alive st1 n" using c1(2) n by simp
  have dn: "''declare'' \<noteq> []" "VE_NODE_PATH_SEP \<notin> set ''declare''" "VE_NODE_KEY_SEP \<notin> set ''declare''"
    using reg_names(3) by (simp_all add: field_name_def)
  have f1: "find_path st1 n ''declare'' False VE_NODE_PATH_SEP VE_NODE_KEY_SEP = Some (Some d)"
    using find_simple [OF ok n dn] find_simple [OF c1(1) n1 dn] nk d by simp
  have np: "p_forest (new_pipe None st) = st1" "p_ctx (new_pipe None st) = c" "p_owns (new_pipe None st)" "p_alive (new_pipe None st)"
    "p_tasks (new_pipe None st) = []" "\<not> p_finished (new_pipe None st)" "p_reports (new_pipe None st) = []"
    by (simp_all add: new_pipe_def c)
  have bw: "build_steps cust_loop main_loop st2 n \<noteq> None"
    "w = fold pl_add (the (build_steps cust_loop main_loop st2 n)) ((new_pipe None st)\<lparr>p_forest := st2\<rparr>)"
    using b f1 by (auto simp: build_def Let_def np st2_def split: option.splits if_splits outcome.splits)
  have fold: "p_forest (fold pl_add ss v) = p_forest v \<and> p_ctx (fold pl_add ss v) = p_ctx v \<and> p_owns (fold pl_add ss v) = p_owns v
      \<and> p_alive (fold pl_add ss v) = p_alive v \<and> p_tasks (fold pl_add ss v) = p_tasks v \<and> p_finished (fold pl_add ss v) = p_finished v
      \<and> p_reports (fold pl_add ss v) = p_reports v" for ss v
    by (induction ss arbitrary: v) (simp_all add: pl_add_def)
  have w: "p_forest w = st2" "p_ctx w = c" "p_owns w" "p_alive w" "p_tasks w = []" "\<not> p_finished w" "p_reports w = []"
    unfolding bw(2) using fold by (simp_all add: np)
  have o2: "obj st2 m = (if m = c then (blank ''_ctx'')\<lparr>o_shadow := Some d\<rparr> else obj st1 m)" and a2: "alive st2 m = alive st1 m" for m
    using dd(2) by (auto simp: st2_def setShadow_def upd_def obj_def alive_def)
  have same: "kids st2 m = kids st1 m \<and> parent st2 m = parent st1 m \<and> name_of st2 m = name_of st1 m \<and> node_value st2 m = node_value st1 m
      \<and> o_children (obj st2 m) = o_children (obj st1 m)" for m
    using c1(3) by (simp add: kids_def parent_def name_of_def node_value_def o2)
  have d': "kids st2 = kids st1" "parent st2 = parent st1" "name_of st2 = name_of st1" "alive st2 = alive st1"
    using same a2 by (simp_all add: fun_eq_iff)
  have co: "children_ok st2 = children_ok st1" unfolding children_ok_def [abs_def] d' using same by (simp add: fun_eq_iff)
  have no: "node_ok st2 = node_ok st1" unfolding node_ok_def [abs_def] d' co ..
  have ed: "edges st2 = edges st1" unfolding edges_def d' ..
  have "next_id st2 = next_id st1" by (simp add: st2_def setShadow_def)
  then have ok2: "forest_ok st2" using c1(1) unfolding forest_ok_def d' no ed by simp
  have old: "alive st m \<Longrightarrow> alive st2 m \<and> name_of st2 m = name_of st m \<and> node_value st2 m = node_value st m \<and> kids st2 m = kids st m" for m
    using same a2 c1(2,4) by (auto simp: name_of_def node_value_def kids_def)
  have dst: "alive st d" using decl by (simp add: decl_ok_def)
  have kc: "kids st2 c = []" "parent st2 c = None" using o2 by (simp_all add: kids_def parent_def blank_def)
  have ac: "alive st2 c" using c1(2) a2 by simp
  have dc: "d \<noteq> c" using c1(4) [OF dst] by simp
  have "d \<notin> dset st2 c"
  proof
    assume "d \<in> dset st2 c"
    then have "c \<in> anc st2 d" using dc by (simp add: dset_anc)
    then obtain x where "(c, x) \<in> edges st2" unfolding anc_def by (auto dest: tranclD)
    then show False using kids_edges [OF ok2 ac] kc(1) by auto
  qed
  moreover have "c \<notin> dset st2 d" using dc anc_root [OF kc(2)] by (simp add: dset_anc)
  moreover have "decl_ok st2 d"
    using decl old [OF dst] old kid_facts [OF ok dst] by (auto simp: decl_ok_def visible_kids_def)
  ultimately show "context_ok (p_forest w) (p_ctx w) d"
    unfolding context_ok_def w using ok2 ac o2 by simp
  show "p_ctx w = next_id st" "kids (p_forest w) (p_ctx w) = []" "node_value (p_forest w) (p_ctx w) = VNone"
    "o_children (obj (p_forest w) (p_ctx w)) = None"
    "name_of (p_forest w) (p_ctx w) = ''_ctx''" "p_owns w" "p_alive w" "p_tasks w = []" "\<not> p_finished w" "p_reports w = []"
    using w kc dd(1) o2 by (simp_all add: node_value_def name_of_def blank_def)
  have sub: "set (kids st d) \<subseteq> {m. alive st m}" using kid_facts [OF ok dst] by blast
  have "decl_loop cust st2 (kids st d) e = decl_loop cust st (kids st d) e" for e
    by (rule decl_loop_agree [OF ok ok2 _ sub]) (use old kid_facts [OF ok] in blast)
  then show "buildDeclInfo cust (p_forest w) (Some d) = buildDeclInfo cust st (Some d)"
    using old [OF dst] by (simp add: buildDeclInfo_def w)
qed


section \<open>A command to try\<close>

text \<open>The command 0, a callable, with a declaration 2 of one parameter.\<close>

definition call_demo :: forest where
  "call_demo = \<lparr>heap = [0 \<mapsto> arg_node ''drive'' None None [''declare'' \<mapsto> [0]] [2] (VCallable 0),
      2 \<mapsto> arg_node ''declare'' (Some 0) None [''speed'' \<mapsto> [0]] [3] VNone,
      3 \<mapsto> arg_node ''speed'' (Some 2) None Map.empty [] (VInt 5)],
    next_id = 4, events = []\<rparr>"

lemma call_obj:
  "obj call_demo 0 = arg_node ''drive'' None None [''declare'' \<mapsto> [0]] [2] (VCallable 0)"
  "obj call_demo 2 = arg_node ''declare'' (Some 0) None [''speed'' \<mapsto> [0]] [3] VNone"
  "obj call_demo 3 = arg_node ''speed'' (Some 2) None Map.empty [] (VInt 5)"
  by (simp_all add: obj_def call_demo_def)

lemma call_alive: "alive call_demo m \<longleftrightarrow> m \<in> {0, 2, 3}"
  by (auto simp: alive_def call_demo_def)

lemma call_facts:
  "kids call_demo 0 = [2]" "kids call_demo 2 = [3]" "kids call_demo 3 = []"
  "parent call_demo 0 = None" "parent call_demo 2 = Some 0" "parent call_demo 3 = Some 2"
  "name_of call_demo 0 = ''drive''" "name_of call_demo 2 = ''declare''" "name_of call_demo 3 = ''speed''"
  by (simp_all add: kids_def parent_def name_of_def call_obj arg_node_def)

lemma call_ok: "forest_ok call_demo"
proof -
  have ch: "children_ok call_demo m" if "alive call_demo m" for m
    using that unfolding call_alive
    by (elim insertE emptyE; simp add: children_ok_def call_obj call_facts arg_node_def fun_eq_iff idx_of_def positions_Cons)
  have "edges call_demo \<subseteq> less_than" by (auto simp: edges_def call_alive call_facts)
  then have "acyclic (edges call_demo)" using acyclic_subset wf_acyclic wf_less_than by blast
  moreover have "node_ok call_demo m" if "alive call_demo m" for m
    using that ch [OF that] unfolding call_alive by (elim insertE emptyE; simp add: node_ok_def call_facts call_alive)
  moreover have "alive call_demo m \<Longrightarrow> m < next_id call_demo" for m unfolding call_alive by (auto simp: call_demo_def)
  ultimately show ?thesis unfolding forest_ok_def by blast
qed

lemma call_build:
  "\<exists>w. build (\<lambda>_. None) 0 0 None call_demo = Done (Inr w) \<and> p_steps w = [\<lparr>ps_fn = VCallable 0, ps_loop = Some 0\<rparr>]"
proof -
  have "case build (\<lambda>_. None) 0 0 None call_demo of
      Done (Inr w) \<Rightarrow> p_steps w = [\<lparr>ps_fn = VCallable 0, ps_loop = Some 0\<rparr>] | _ \<Rightarrow> False" by code_simp
  then show ?thesis by (auto split: outcome.splits sum.splits)
qed


theorem registered_command_builds_witness:
  "\<exists>fa' st' n. factory_reg (\<lambda>l. l) ''sys.echo'' (VCallable 3) ''say it'' (Some 5) CHR ''.'' (\<lparr>fa_node = Some 0, fa_keys = []\<rparr>, demo) = Some (fa', st')
    \<and> command_of 9 fa' ''sys.echo'' CHR ''.'' st' = Some n
    \<and> build_steps Some 0 st' n = Some [\<lparr>ps_fn = VCallable 3, ps_loop = Some 5\<rparr>]"
proof -
  have k: "''sys.echo'' \<noteq> [] \<longrightarrow> hd ''sys.echo'' \<noteq> CHR ''.''" by simp
  have s: "key_segs VE_NODE_KEY_SEP (segments CHR ''.'' ''sys.echo'')" by code_simp
  have n: "factory_find \<lparr>fa_node = Some 0, fa_keys = []\<rparr> ''sys.echo'' CHR ''.'' demo = Some None" by code_simp
  show ?thesis
    using registered_command_builds [OF demo_ok demo_plain _ demo_alive(1) _ k s n, of "Some 5" Some "\<lambda>l. l" 3 "''say it''" 9 "\<lambda>_. []" 0] by auto
qed

end
