(* ===== verification/Node_Ops.thy ===== *)
theory Node_Ops
  imports Node_Plain Node_Props
begin

text \<open>
  Any program on the tree (\<open>ve/src/core/node.cpp\<close>): the operations of \<open>Node\<close> as one step relation, what a
  caller must see to (the nodes it names are alive, no node is put below itself), and that under it every
  operation returns and leaves a well-formed forest, in any order, from the empty forest on.
\<close>

section \<open>Operations\<close>

datatype node_op =
  New string
| SetValue nid var
| UpdateValue nid var
| Insert nid nid int
| InsertAll nid "nid list" int
| Append nid string int
| Ensure nid string
| Take nid nid
| Remove nid nid
| RemoveNamed nid string
| Clear nid bool
| Erase nid string bool
| Silence nid bool
| Watch nid bool
| Shadow nid "nid option"

definition tree_step :: "node_op \<Rightarrow> forest \<Rightarrow> forest option" where
  "tree_step a st =
     (case a of
        New nm \<Rightarrow> Some (snd (new_node nm st))
      | SetValue n v \<Rightarrow> set_value n v st
      | UpdateValue n v \<Rightarrow> map_option snd (update_value n v st)
      | Insert n c i \<Rightarrow> map_option snd (insert_child n (Some c) i st)
      | InsertAll n cs i \<Rightarrow> map_option snd (insert_batch n (map Some cs) i st)
      | Append n nm k \<Rightarrow> map_option snd (append_node n nm k st)
      | Ensure n p \<Rightarrow> map_option snd (ensure_path n p False VE_NODE_PATH_SEP VE_NODE_KEY_SEP st)
      | Take n c \<Rightarrow> map_option snd (take_child n (Some c) st)
      | Remove n c \<Rightarrow> map_option snd (remove_child n (Some c) st)
      | RemoveNamed n nm \<Rightarrow> map_option snd (remove_named n nm st)
      | Clear n auto_delete \<Rightarrow> clear n auto_delete st
      | Erase n p auto_delete \<Rightarrow> map_option snd (erase_path n p auto_delete st)
      | Silence n on \<Rightarrow> Some (silent on n st)
      | Watch n on \<Rightarrow> Some (watch on n st)
      | Shadow n s \<Rightarrow> Some (setShadow n s st))"

text \<open>Segments of a path that the key parser takes, or refuses, without overflowing.\<close>

definition no_overflow :: "string \<Rightarrow> bool" where
  "no_overflow p \<longleftrightarrow>
     (\<forall>s \<in> set (segments VE_NODE_PATH_SEP (if p \<noteq> [] \<and> hd p = VE_NODE_PATH_SEP then tl p else p)).
        parseKey s VE_NODE_KEY_SEP \<noteq> KeyOverflow)"

definition op_ok :: "node_op \<Rightarrow> forest \<Rightarrow> bool" where
  "op_ok a st \<longleftrightarrow>
     (case a of
        New nm \<Rightarrow> True
      | SetValue n v \<Rightarrow> alive st n
      | UpdateValue n v \<Rightarrow> alive st n
      | Insert n c i \<Rightarrow> alive st n \<and> alive st c \<and> c \<noteq> n \<and> isAncestorOf st c (Some n) = Some False
      | InsertAll n cs i \<Rightarrow> alive st n \<and> distinct cs \<and>
          (\<forall>c \<in> set cs. alive st c \<and> c \<noteq> n \<and> isAncestorOf st c (Some n) = Some False)
      | Append n nm k \<Rightarrow> alive st n
      | Ensure n p \<Rightarrow> alive st n \<and> no_overflow p
      | Take n c \<Rightarrow> alive st n \<and> alive st c
      | Remove n c \<Rightarrow> alive st n \<and> alive st c
      | RemoveNamed n nm \<Rightarrow> alive st n
      | Clear n auto_delete \<Rightarrow> alive st n
      | Erase n p auto_delete \<Rightarrow> alive st n \<and> no_overflow p
      | Silence n on \<Rightarrow> alive st n
      | Watch n on \<Rightarrow> alive st n
      | Shadow n s \<Rightarrow> alive st n)"

inductive reachable :: "forest \<Rightarrow> bool" where
  reach_empty: "reachable empty_forest"
| reach_step: "reachable st \<Longrightarrow> op_ok a st \<Longrightarrow> tree_step a st = Some st' \<Longrightarrow> reachable st'"

section \<open>Single operations\<close>

definition sound :: "forest option \<Rightarrow> bool" where
  "sound r \<longleftrightarrow> (\<exists>st'. r = Some st' \<and> forest_ok st')"

lemma soundI: "r = Some st' \<Longrightarrow> forest_ok st' \<Longrightarrow> sound r"
  by (simp add: sound_def)

lemma upd_ok:
  assumes ok: "forest_ok st"
    and f: "\<And>ob. o_name (f ob) = o_name ob \<and> o_parent (f ob) = o_parent ob \<and> o_children (f ob) = o_children ob"
  shows "forest_ok (upd n f st)"
proof -
  have ob: "alive st m \<Longrightarrow> obj (upd n f st) m = (if m = n then f (obj st m) else obj st m)" for m by (rule obj_upd)
  have d: "alive st m \<Longrightarrow> kids (upd n f st) m = kids st m \<and> parent (upd n f st) m = parent st m
      \<and> name_of (upd n f st) m = name_of st m \<and> o_children (obj (upd n f st) m) = o_children (obj st m)" for m
    using f by (simp add: kids_def parent_def name_of_def ob)
  have "node_ok (upd n f st) m" if m: "alive st m" for m
  proof -
    have nm: "\<forall>c \<in> set (kids st m). name_of (upd n f st) c = name_of st c" using kid_facts [OF ok m] d by blast
    have "children_ok (upd n f st) m"
      using children_ok_cong [of "upd n f st" m st] d [OF m] nm node_okD(1) [OF ok m] by simp
    then show ?thesis
      using node_okD(2) [OF ok m] kid_facts [OF ok m] parent_alive [OF ok m] d d [OF m] unfolding node_ok_def by fastforce
  qed
  moreover have "edges (upd n f st) = edges st" using d by (auto simp: edges_def)
  ultimately show ?thesis using ok by (simp add: forest_ok_def)
qed

lemma flags_ok: "forest_ok st \<Longrightarrow> forest_ok (silent on n st) \<and> forest_ok (watch on n st) \<and> forest_ok (setShadow n s st)"
  unfolding silent_def watch_def setShadow_def by (intro conjI upd_ok) simp_all

lemma new_ok: "forest_ok st \<Longrightarrow> forest_ok (snd (new_node nm st))"
  by (rule forest_ok_fresh(1) [where st = st and cs = "[next_id st]" and k = "next_id st + 1" and nm = nm])
    (auto simp: new_node_eq fun_eq_iff)

lemma value_sound:
  assumes "forest_ok st" "alive st n"
  shows "sound (set_value n v st)" "sound (map_option snd (update_value n v st))"
proof -
  obtain st' where s: "set_value n v st = Some st'" "forest_ok st'"
    using set_value_beside [OF assms, of v] by (auto simp: beside_def)
  then show "sound (set_value n v st)" by (rule soundI)
  show "sound (map_option snd (update_value n v st))"
    using s assms(1) by (cases "var_eq (node_value st n) v") (auto simp: update_value_def sound_def)
qed

text \<open>Taking a node that is no child finds nothing.\<close>

lemma take_other:
  assumes ok: "forest_ok st" and n: "alive st n" and c: "c \<notin> set (kids st n)"
  shows "\<exists>st'. take_child n (Some c) st = Some (None, st') \<and> heap st' = heap st \<and> next_id st' = next_id st"
proof (cases "o_children (obj st n)")
  case None
  then show ?thesis by (simp add: take_child_def)
next
  case (Some ch)
  have chr: "ch = \<lparr>indices = idx_of (map (name_of st) (kids st n)), nodes = kids st n\<rparr>"
    using children_record [OF node_okD(1) [OF ok n] Some] .
  have "\<exists>j. locate ch (name_of st c) c = (-1, j, indices ch)"
  proof (cases "name_of st c = []")
    case True
    then show ?thesis using first_at_none [OF c] by (simp add: locate_def chr)
  next
    case False
    show ?thesis
    proof (cases "indices ch (name_of st c)")
      case (Some iv)
      then have "iv \<noteq> []" using positions_empty [of "name_of st c" "map (name_of st) (kids st n)"]
        by (auto simp: chr idx_of_def split: if_splits)
      then show ?thesis using Some False find_entry_none [OF c] by (simp add: locate_def chr)
    qed (use False in \<open>simp add: locate_def\<close>)
  qed
  then have t: "take_child n (Some c) st = Some (None, upd n (o_children_update (\<lambda>_. Some ch)) st)"
    using Some by (auto simp: take_child_def Let_def)
  have "heap (upd n (o_children_update (\<lambda>_. Some ch)) st) = heap st"
    using Some n by (auto simp: upd_def obj_def alive_def fun_eq_iff)
  then show ?thesis using t by simp
qed

lemma take_sound:
  assumes ok: "forest_ok st" and n: "alive st n"
  shows "sound (map_option snd (take_child n (Some c) st))" "sound (map_option snd (remove_child n (Some c) st))"
proof -
  obtain st' where o': "take_child n (Some c) st = Some (None, st')" "heap st' = heap st" "next_id st' = next_id st"
    if "c \<notin> set (kids st n)"
    using take_other [OF ok n] by blast
  show "sound (map_option snd (take_child n (Some c) st))"
  proof (cases "c \<in> set (kids st n)")
    case True
    obtain s where "take_child n (Some c) st = Some (Some c, s)" "forest_ok s" using take_child_spec [OF ok n True] by metis
    then show ?thesis by (simp add: sound_def)
  next
    case False
    then show ?thesis using o'(1) forest_ok_heap [OF o'(2,3)] ok by (simp add: sound_def)
  qed
  show "sound (map_option snd (remove_child n (Some c) st))"
  proof (cases "c \<in> set (kids st n)")
    case True
    obtain s where "remove_child n (Some c) st = Some (True, s)" "forest_ok s" using remove_child_spec [OF ok n True] by metis
    then show ?thesis by (simp add: sound_def)
  next
    case False
    then show ?thesis using o'(1) forest_ok_heap [OF o'(2,3)] ok by (simp add: sound_def remove_child_def)
  qed
qed

lemma remove_loop_sound:
  "forest_ok st \<Longrightarrow> alive st n \<Longrightarrow> nm \<noteq> [] \<Longrightarrow> length (kids st n) < fuel \<Longrightarrow> sound (map_option snd (remove_loop fuel n nm b st))"
proof (induction fuel arbitrary: st b)
  case (Suc fuel)
  show ?case
  proof (cases "child_named st n nm 0")
    case None
    then show ?thesis using Suc.prems(1) by (simp add: take_child_def sound_def)
  next
    case (Some c)
    have "c \<in> set (named_kids st n nm)"
      using Some child_named_spec [OF Suc.prems(1-3), of 0] by (auto split: if_splits)
    then have c: "c \<in> set (kids st n)" by (simp add: named_kids_def)
    obtain st1 where st1: "take_child n (Some c) st = Some (Some c, st1)"
      using take_child_spec [OF Suc.prems(1,2) c] by blast
    obtain s where s: "remove_child n (Some c) st = Some (True, s)" "forest_ok s"
      "\<And>m. alive s m = (alive st m \<and> m \<notin> dset st c)" "kids s n = remove1 c (kids st n)"
      using remove_child_spec [OF Suc.prems(1,2) c] by metis
    have d: "delete_node (next_id st1 + 1) c st1 = Some s" using s(1) st1 by (auto simp: remove_child_def simp del: delete_node.simps)
    have n: "alive s n" using s(3) Suc.prems(2) kid_dset(1) [OF Suc.prems(1,2) c] by simp
    have "length (kids s n) = length (kids st n) - 1" using s(4) c by (simp add: length_remove1)
    then have l: "length (kids s n) < fuel" using Suc.prems(4) length_pos_if_in_set [OF c] by linarith
    show ?thesis using Suc.IH [OF s(2) n Suc.prems(3) l, of True] Some st1 d by (simp del: delete_node.simps)
  qed
qed simp

lemma remove_named_sound:
  assumes "forest_ok st" "alive st n"
  shows "sound (map_option snd (remove_named n nm st))"
proof (cases "nm = []")
  case True
  show ?thesis
  proof (cases "child_index st n (-1)")
    case None
    then show ?thesis using True assms(1) by (simp add: remove_named_def remove_child_def take_child_def sound_def)
  next
    case (Some c)
    then show ?thesis using True take_sound(2) [OF assms] by (simp add: remove_named_def)
  qed
next
  case False
  then show ?thesis using remove_loop_sound [OF assms False, of "length (kids st n) + 1"] by (simp add: remove_named_def)
qed

section \<open>Paths\<close>

lemma ensure_walk_sound:
  "forest_ok st \<Longrightarrow> alive st n \<Longrightarrow> (\<And>s. s \<in> set segs \<Longrightarrow> parseKey s sep \<noteq> KeyOverflow)
    \<Longrightarrow> sound (map_option snd (ensure_walk n False sep segs st))"
proof (induction segs arbitrary: n st)
  case Nil
  then show ?case by (simp add: sound_def)
next
  case (Cons seg segs)
  show ?case
  proof (cases "parseKey seg sep")
    case KeyBad
    then show ?thesis using Cons.prems(1) by (simp add: ensure_key_def sound_def)
  next
    case KeyOverflow
    then show ?thesis using Cons.prems(3) [of seg] by simp
  next
    case (Key nm i)
    obtain d st1 where d: "ensure_key n seg False sep st = Some (Some d, st1)" "grows st st1"
      "find_key st1 n seg False sep = Some (Some d)"
      using ensure_key_spec [OF Cons.prems(1,2) Key] by blast
    have ok1: "forest_ok st1" "alive st1 n" using d(2) grows_alive [OF d(2) Cons.prems(2)] by (simp_all add: grows_def)
    have "alive st1 d" using kid_facts [OF ok1 find_key_kid [OF ok1 d(3)]] by simp
    then show ?thesis using Cons.IH [OF ok1(1), of d] Cons.prems(3) d(1) by simp
  qed
qed

lemma ensure_path_sound:
  assumes "forest_ok st" "alive st n" "no_overflow p"
  shows "sound (map_option snd (ensure_path n p False VE_NODE_PATH_SEP VE_NODE_KEY_SEP st))"
  using path_start_alive [OF assms(1,2), of p VE_NODE_PATH_SEP] ensure_walk_sound [OF assms(1)] assms(3)
  by (auto simp: ensure_path_def no_overflow_def)

lemma find_walk_total:
  "forest_ok st \<Longrightarrow> alive st n \<Longrightarrow> (\<And>s. s \<in> set segs \<Longrightarrow> parseKey s sep \<noteq> KeyOverflow)
    \<Longrightarrow> \<exists>r. find_walk st n False sep segs = Some r \<and> (\<forall>t. r = Some t \<longrightarrow> alive st t)"
proof (induction segs arbitrary: n)
  case (Cons seg segs)
  show ?case
  proof (cases "find_key st n seg False sep")
    case None
    then have "parseKey seg sep = KeyOverflow" by (simp add: find_key_plain split: key.splits)
    then show ?thesis using Cons.prems(3) [of seg] by simp
  next
    case (Some r)
    then show ?thesis
      using Cons.IH [OF Cons.prems(1), of "the r"] Cons.prems kid_facts [OF Cons.prems(1,2) find_key_kid [OF Cons.prems(1,2)]]
      by (cases r) auto
  qed
qed simp

lemma erase_path_sound:
  assumes "forest_ok st" "alive st n" "no_overflow p"
  shows "sound (map_option snd (erase_path n p auto_delete st))"
proof -
  obtain a where a: "path_start st n p VE_NODE_PATH_SEP
      = Some (a, segments VE_NODE_PATH_SEP (if p \<noteq> [] \<and> hd p = VE_NODE_PATH_SEP then tl p else p))" "alive st a"
    using path_start_alive [OF assms(1,2)] by blast
  obtain r where r: "find_path st n p False VE_NODE_PATH_SEP VE_NODE_KEY_SEP = Some r" "\<And>t. r = Some t \<Longrightarrow> alive st t"
    using find_walk_total [OF assms(1) a(2)] assms(3) a(1) by (fastforce simp: find_path_def no_overflow_def)
  show ?thesis
  proof (cases r)
    case None
    then show ?thesis using r(1) assms(1) by (simp add: erase_path_def sound_def)
  next
    case (Some t)
    show ?thesis
    proof (cases "parent st t")
      case None
      then show ?thesis using r(1) Some assms(1) by (simp add: erase_path_def sound_def)
    next
      case (Some q)
      then have "alive st q" using parent_alive [OF assms(1) r(2) Some] \<open>r = Some t\<close> by simp
      note k = take_sound [OF assms(1) this, of t]
      show ?thesis
      proof (cases auto_delete)
        case True
        then show ?thesis using r(1) Some \<open>r = Some t\<close> k(2) by (simp add: erase_path_def)
      next
        case False
        then show ?thesis using r(1) Some \<open>r = Some t\<close> k(1)
          by (auto simp: erase_path_def option.map_comp o_def case_prod_beta)
      qed
    qed
  qed
qed

section \<open>Clearing without deleting\<close>

lemma orphan_facts:
  "alive (orphan_kids cs st) m = alive st m" "next_id (orphan_kids cs st) = next_id st"
  "alive st m \<Longrightarrow> obj (orphan_kids cs st) m = (if m \<in> set cs then o_parent_update (\<lambda>_. None) (obj st m) else obj st m)"
proof (induction cs arbitrary: st)
  case (Cons c cs)
  { case 1 show ?case using Cons.IH(1) by simp }
  { case 2 show ?case using Cons.IH(2) by simp }
  { case 3 then show ?case using Cons.IH(3) [of "upd c (o_parent_update (\<lambda>_. None)) st"] by (auto simp: obj_upd) }
qed simp_all

lemma forest_ok_orphaned:
  assumes ok: "forest_ok st" and n: "alive st n"
  defines "st1 \<equiv> upd n (o_children_update (\<lambda>_. None)) (orphan_kids (kids st n) st)"
  shows "forest_ok st1"
proof -
  let ?K = "set (kids st n)"
  have nk: "n \<notin> ?K" using kid_dset(1) [OF ok n] dset_self by blast
  have al [simp]: "alive st1 m = alive st m" for m by (simp add: st1_def orphan_facts)
  have ob: "obj st1 m = (if m = n then o_children_update (\<lambda>_. None) (obj st m)
      else if m \<in> ?K then o_parent_update (\<lambda>_. None) (obj st m) else obj st m)" if "alive st m" for m
    using that nk by (auto simp: st1_def obj_upd orphan_facts)
  have k: "alive st m \<Longrightarrow> kids st1 m = (if m = n then [] else kids st m)" for m by (simp add: kids_def ob)
  have p: "alive st m \<Longrightarrow> parent st1 m = (if m \<in> ?K then None else parent st m)" for m
    using nk by (simp add: parent_def ob)
  have nm: "alive st m \<Longrightarrow> name_of st1 m = name_of st m" for m by (simp add: name_of_def ob)
  have "node_ok st1 m" if m: "alive st m" for m
    unfolding node_ok_def
  proof (intro conjI ballI allI impI)
    show "children_ok st1 m"
    proof (cases "m = n")
      case True
      then show ?thesis using n by (simp add: children_ok_def ob)
    next
      case False
      then have "o_children (obj st1 m) = o_children (obj st m)" using m by (simp add: ob)
      then show ?thesis using children_ok_cong [of st1 m st] nm kid_facts [OF ok m] node_okD(1) [OF ok m] by auto
    qed
    show "distinct (kids st1 m)" using k [OF m] node_okD(2) [OF ok m] by simp
    show "alive st1 c" if "c \<in> set (kids st1 m)" for c using that k [OF m] kid_facts [OF ok m, of c] by (auto split: if_splits)
    show "parent st1 c = Some m" if c: "c \<in> set (kids st1 m)" for c
    proof -
      have cm: "m \<noteq> n" "c \<in> set (kids st m)" using c k [OF m] by (auto split: if_splits)
      have "c \<notin> ?K" using kid_facts [OF ok m cm(2)] kid_facts [OF ok n, of c] cm(1) by auto
      then show ?thesis using p kid_facts [OF ok m cm(2)] by simp
    qed
    show "alive st1 q" if "parent st1 m = Some q" for q using that p [OF m] parent_alive [OF ok m] by (auto split: if_splits)
    show "m \<in> set (kids st1 q)" if mq: "parent st1 m = Some q" for q
    proof -
      have q: "m \<notin> ?K" "parent st m = Some q" using mq p [OF m] by (auto split: if_splits)
      then have "alive st q" "m \<in> set (kids st q)" using parent_alive [OF ok m] by auto
      then show ?thesis using k q(1) by auto
    qed
  qed
  moreover have "edges st1 \<subseteq> edges st" using p by (auto simp: edges_def split: if_splits)
  then have "acyclic (edges st1)" using ok acyclic_subset by (auto simp: forest_ok_def)
  moreover have "next_id st1 = next_id st" by (simp add: st1_def orphan_facts)
  then have "alive st m \<Longrightarrow> m < next_id st1" for m using alive_less [OF ok] by simp
  ultimately show ?thesis by (simp add: forest_ok_def)
qed

lemma clear_sound:
  assumes ok: "forest_ok st" and n: "alive st n"
  shows "sound (clear n auto_delete st)"
proof (cases auto_delete)
  case True
  obtain s where "clear n True st = Some s" "forest_ok s" using clear_spec [OF ok n] by metis
  then show ?thesis using True by (simp add: sound_def)
next
  case False
  show ?thesis
  proof (cases "o_children (obj st n)")
    case None
    then show ?thesis using ok by (simp add: clear_def sound_def)
  next
    case (Some ch)
    define s where "s = upd n (o_children_update (\<lambda>_. None)) (orphan_kids (kids st n) st)"
    have s: "forest_ok s" "alive s n" "clear_children n False st = Some s"
      using forest_ok_orphaned [OF ok n] n Some by (simp_all add: s_def orphan_facts clear_children_def kids_def)
    obtain s' where s': "notify n (Removed n ''#0'' (int (length (nodes ch)) - 1)) NODE_REMOVED s = Some s'"
      "heap s' = heap s" "next_id s' = next_id s"
      using notify_total [OF s(1,2)] by blast
    then show ?thesis using Some False s forest_ok_heap [OF s'(2,3)] by (simp add: clear_def sound_def)
  qed
qed

section \<open>Inserting several nodes\<close>

lemma detach_all_spec:
  "forest_ok st \<Longrightarrow> \<forall>c \<in> set cs. alive st c
    \<Longrightarrow> \<exists>st'. detach_all cs st = Some st' \<and> forest_ok st' \<and> same_data st st' \<and> edges st' \<subseteq> edges st
        \<and> (\<forall>c \<in> set cs. parent st' c = None) \<and> (\<forall>c. alive st c \<longrightarrow> parent st c = None \<longrightarrow> parent st' c = None)"
proof (induction cs arbitrary: st)
  case (Cons c cs)
  obtain s where s: "detach c st = Some s" "forest_ok s" "same_data st s" "parent s c = None"
    "\<And>m. m \<noteq> c \<Longrightarrow> alive st m \<Longrightarrow> parent s m = parent st m"
    using detach_spec [OF Cons.prems(1), of c] Cons.prems(2) by (metis list.set_intros(1))
  have al: "\<And>m. alive s m = alive st m" using s(3) by (simp add: same_data_def)
  have e: "edges s \<subseteq> edges st" by (rule edges_detached [OF al s(4,5)])
  obtain st' where t: "detach_all cs s = Some st'" "forest_ok st'" "same_data s st'" "edges st' \<subseteq> edges s"
    "\<forall>c \<in> set cs. parent st' c = None" "\<And>c. alive s c \<Longrightarrow> parent s c = None \<Longrightarrow> parent st' c = None"
    using Cons.IH [OF s(2)] Cons.prems(2) al by auto
  have "parent st' m = None" if "alive st m" "parent st m = None" for m
    using t(6) [of m] al s(4,5) that by (cases "m = c") auto
  then show ?case
    using s(1) t(1,2,4,5) t(6) [of c] e same_data_trans [OF s(3) t(3)] s(4) al Cons.prems(2) by auto
qed (simp add: same_data_heap)

text \<open>The batch is placed at any index in range; out of range only the children vector is allocated.\<close>

lemma place_batch_sound:
  assumes ok: "forest_ok st" and n: "alive st n" and d: "distinct cs"
    and cs: "\<And>c. c \<in> set cs \<Longrightarrow> alive st c \<and> parent st c = None \<and> c \<noteq> n \<and> c \<notin> anc st n"
  shows "forest_ok (snd (place_batch n cs index st)) \<and> alive (snd (place_batch n cs index st)) n"
proof -
  define sz where "sz = length (kids st n)"
  have ens: "ensureChildren (obj st n) = \<lparr>indices = idx_of (map (name_of st) (kids st n)), nodes = kids st n\<rparr>"
    using ensureChildren_eq [OF node_okD(1) [OF ok n]] .
  define r where "r = (if index < 0 then index + int sz + 1 else index)"
  show ?thesis
  proof (cases "r < 0 \<or> int sz < r")
    case True
    have "snd (place_batch n cs index st) = upd n (o_children_update (\<lambda>_. Some (ensureChildren (obj st n)))) st"
      using True unfolding place_batch_def Let_def ens children.simps sz_def [symmetric] r_def [symmetric] by simp
    then show ?thesis using forest_ok_ensured(1) [OF ok n refl] n by simp
  next
    case False
    define A B where "A = take (nat r) (kids st n)" and "B = drop (nat r) (kids st n)"
    have ks: "kids st n = A @ B" "length A = nat r" using False by (auto simp: A_def B_def sz_def min_def)
    let ?ns = "map (name_of st) A @ map (name_of st) B"
    define sh where "sh = (if nat r < sz then shift (nat r) (int (length cs)) (idx_of ?ns) else idx_of ?ns)"
    have shx: "sh x = (if x = [] \<or> x \<notin> set ?ns then None
        else Some (positions x (map (name_of st) A) @ map ((+) (nat r + length cs)) (positions x (map (name_of st) B))))" for x
    proof (cases "nat r < sz")
      case True
      then show ?thesis using shift_idx_of [of "map (name_of st) A" "length cs" "map (name_of st) B" x] ks(2)
        by (simp add: sh_def)
    next
      case False
      then have "B = []" by (simp add: B_def sz_def)
      then show ?thesis using False by (simp add: sh_def idx_of_def positions_def)
    qed
    have "batch_indices (name_of st) (length (map (name_of st) A)) cs sh
        = idx_of (map (name_of st) A @ map (name_of st) cs @ map (name_of st) B)"
    proof (rule batch_idx)
      show "index_list sh x = positions x (map (name_of st) A)
          @ map ((+) (length (map (name_of st) A) + length cs)) (positions x (map (name_of st) B))" if "x \<noteq> []" for x
        using that ks(2) positions_empty [of x "map (name_of st) A"] positions_empty [of x "map (name_of st) B"]
        by (auto simp: index_list_def shx)
    qed (simp add: shx)
    then have idx: "batch_indices (name_of st) (nat r) cs sh = idx_of (map (name_of st) (A @ cs @ B))" using ks(2) by simp
    define st1 where "st1 = set_parents n cs
      (upd n (o_children_update (\<lambda>_. Some \<lparr>indices = idx_of (map (name_of st) (A @ cs @ B)), nodes = A @ cs @ B\<rparr>)) st)"
    have "snd (place_batch n cs index st) = st1"
      using False idx ks(1)
      unfolding place_batch_def Let_def ens children.simps sz_def [symmetric] r_def [symmetric] A_def [symmetric] B_def [symmetric]
      by (cases "nat r < sz") (simp_all add: st1_def sh_def)
    then show ?thesis using forest_ok_attached(1) [OF ok n ks(1) d cs st1_def] n by (simp add: st1_def set_parents_facts)
  qed
qed

lemma insert_batch_sound:
  assumes ok: "forest_ok st" and n: "alive st n" and d: "distinct cs"
    and cs: "\<And>c. c \<in> set cs \<Longrightarrow> alive st c \<and> c \<noteq> n \<and> c \<notin> anc st n"
  shows "sound (map_option snd (insert_batch n (map Some cs) index st))"
proof (cases "cs = []")
  case False
  obtain s where s: "detach_all cs st = Some s" "forest_ok s" "same_data st s" "edges s \<subseteq> edges st"
    "\<forall>c \<in> set cs. parent s c = None"
    using detach_all_spec [OF ok, of cs] cs by blast
  have c: "c \<in> set cs \<Longrightarrow> alive s c \<and> parent s c = None \<and> c \<noteq> n \<and> c \<notin> anc s n" for c
    using cs [of c] s(3,5) anc_subset [OF s(4), of n] by (auto simp: same_data_def)
  obtain k s1 where p: "place_batch n cs index s = (k, s1)" by force
  have ok1: "forest_ok s1" "alive s1 n" using place_batch_sound [OF s(2) _ d c, where index = index] p n s(3) by (auto simp: same_data_def)
  have e: "insert_batch n (map Some cs) index st =
      (case k of None \<Rightarrow> Some (False, s1)
       | Some key \<Rightarrow> map_option (Pair True) (notify n (Added n key (int (length cs) - 1)) NODE_ADDED s1))"
    using False s(1) p by (auto simp: insert_batch_def comp_def split: option.splits)
  show ?thesis
  proof (cases k)
    case (Some key)
    obtain s2 where "notify n (Added n key (int (length cs) - 1)) NODE_ADDED s1 = Some s2" "heap s2 = heap s1" "next_id s2 = next_id s1"
      using notify_total [OF ok1] by blast
    then show ?thesis using e Some forest_ok_heap [of s2 s1] ok1 by (simp add: sound_def)
  qed (use e ok1 in \<open>simp add: sound_def\<close>)
qed (use ok in \<open>simp add: insert_batch_def sound_def\<close>)

section \<open>Any program\<close>

lemma insert_sound:
  assumes "forest_ok st" "alive st n" "alive st c" "c \<noteq> n" "c \<notin> anc st n"
  shows "sound (map_option snd (insert_child n (Some c) i st))"
  using insert_child_spec [OF assms refl refl, of i] by (auto simp: sound_def)

lemma append_sound:
  assumes "forest_ok st" "alive st n"
  shows "sound (map_option snd (append_node n nm k st))"
proof (cases "k < 0")
  case False
  then show ?thesis using append_node_spec [OF assms, of k nm] by (auto simp: sound_def appended_def)
qed (use assms in \<open>simp add: append_node_def sound_def\<close>)

lemma step_sound:
  assumes ok: "forest_ok st" and a: "op_ok a st"
  shows "sound (tree_step a st)"
proof (cases a)
  case (New nm)
  then show ?thesis using new_ok [OF ok] by (simp add: tree_step_def sound_def)
next
  case (Insert n c i)
  then show ?thesis using insert_sound [OF ok, where n = n and c = c and i = i] a by (auto simp: tree_step_def op_ok_def isAncestorOf_eq [OF ok])
next
  case (InsertAll n cs i)
  then show ?thesis using insert_batch_sound [OF ok, where n = n and cs = cs and index = i] a by (auto simp: tree_step_def op_ok_def isAncestorOf_eq [OF ok])
qed (use a ok in \<open>simp_all add: tree_step_def op_ok_def value_sound append_sound ensure_path_sound take_sound
  remove_named_sound clear_sound erase_path_sound flags_ok soundI\<close>)

lemma empty_ok: "forest_ok empty_forest"
  by (simp add: forest_ok_def empty_forest_def alive_def edges_def acyclic_def)

lemma reachable_ok: "reachable st \<Longrightarrow> forest_ok st"
  by (induction rule: reachable.induct) (use step_sound empty_ok in \<open>fastforce simp: sound_def\<close>)+



end
