(* ===== verification/Pool.thy ===== *)
theory Pool
  imports VE_Prelude "HOL-Library.Monad_Syntax" "HOL-Library.Word"
begin

text \<open>
  The object pool and the shared pointer over it (\<open>ve/include/ve/core/factory.h\<close>, \<open>Pool\<close>, \<open>Pooled\<close>,
  \<open>PoolPtr\<close>, \<open>SharedPoolPtr\<close>). A slot is a union of an object and the link of the free list; reading the
  link of a slot that holds something else, or destroying an object that is not there, is undefined: the
  operation is \<open>None\<close>. \<open>BlockCap\<close> is a parameter. Reference counts are 32 bits wide.
\<close>

section \<open>Pool\<close>

text \<open>A slot by its block and its place in it; a block that has been allocated is never given back.\<close>

datatype slot = Slot (slot_block: nat) (slot_index: nat)

datatype 'a slot_cell = Fresh | Obj 'a | Next "slot option"

record 'a pool =
  pool_free :: "slot option"
  pool_blocks :: nat
  pool_used :: nat
  pool_mem :: "slot \<Rightarrow> 'a slot_cell option"

definition pool_new :: "nat \<Rightarrow> 'a pool" where
  "pool_new cap = \<lparr>pool_free = None, pool_blocks = 0, pool_used = cap, pool_mem = Map.empty\<rparr>"

definition add_block :: "nat \<Rightarrow> 'a pool \<Rightarrow> 'a pool" where
  "add_block cap p = p\<lparr>pool_blocks := Suc (pool_blocks p), pool_used := 0,
     pool_mem := (\<lambda>s. if slot_block s = pool_blocks p \<and> slot_index s < cap then Some Fresh else pool_mem p s)\<rparr>"

definition pool_alloc :: "nat \<Rightarrow> 'a pool \<Rightarrow> (slot \<times> 'a pool) option" where
  "pool_alloc cap p =
     (case pool_free p of
        Some s \<Rightarrow> (case pool_mem p s of Some (Next n) \<Rightarrow> Some (s, p\<lparr>pool_free := n\<rparr>) | _ \<Rightarrow> None)
      | None \<Rightarrow>
          (let p1 = (if cap \<le> pool_used p then add_block cap p else p)
           in if pool_blocks p1 = 0 then None
              else Some (Slot (pool_blocks p1 - 1) (pool_used p1), p1\<lparr>pool_used := Suc (pool_used p1)\<rparr>)))"

definition pool_dealloc :: "slot \<Rightarrow> 'a pool \<Rightarrow> 'a pool option" where
  "pool_dealloc s p =
     (if pool_mem p s = None then None
      else Some (p\<lparr>pool_mem := (pool_mem p)(s \<mapsto> Next (pool_free p)), pool_free := Some s\<rparr>))"

text \<open>Constructing in a slot, destroying there, and assigning to the object.\<close>

definition slot_construct :: "slot \<Rightarrow> 'a \<Rightarrow> 'a pool \<Rightarrow> 'a pool option" where
  "slot_construct s x p =
     (case pool_mem p s of
        None \<Rightarrow> None
      | Some (Obj y) \<Rightarrow> None
      | Some _ \<Rightarrow> Some (p\<lparr>pool_mem := (pool_mem p)(s \<mapsto> Obj x)\<rparr>))"

definition slot_object :: "'a pool \<Rightarrow> slot \<Rightarrow> 'a option" where
  "slot_object p s = (case pool_mem p s of Some (Obj x) \<Rightarrow> Some x | _ \<Rightarrow> None)"

definition slot_destroy :: "slot \<Rightarrow> 'a pool \<Rightarrow> 'a pool option" where
  "slot_destroy s p =
     (case slot_object p s of None \<Rightarrow> None | Some x \<Rightarrow> Some (p\<lparr>pool_mem := (pool_mem p)(s \<mapsto> Fresh)\<rparr>))"

definition slot_write :: "slot \<Rightarrow> 'a \<Rightarrow> 'a pool \<Rightarrow> 'a pool option" where
  "slot_write s x p =
     (case slot_object p s of None \<Rightarrow> None | Some y \<Rightarrow> Some (p\<lparr>pool_mem := (pool_mem p)(s \<mapsto> Obj x)\<rparr>))"

definition pool_ptr_new :: "nat \<Rightarrow> 'a \<Rightarrow> 'a pool \<Rightarrow> (slot \<times> 'a pool) option" where
  "pool_ptr_new cap x p = do { (s, p1) \<leftarrow> pool_alloc cap p; p2 \<leftarrow> slot_construct s x p1; Some (s, p2) }"

definition pool_ptr_delete :: "slot \<Rightarrow> 'a pool \<Rightarrow> 'a pool option" where
  "pool_ptr_delete s p = do { p1 \<leftarrow> slot_destroy s p; pool_dealloc s p1 }"

section \<open>Shared pointers\<close>

text \<open>A control block is a count and an object; \<open>cbs\<close> is the \<open>_cb\<close> of every pointer variable.\<close>

record ('v, 'a) shared =
  sh_pool :: "(32 word \<times> 'a) pool"
  cbs :: "'v \<Rightarrow> slot option"

definition sp_addRef :: "'v \<Rightarrow> ('v, 'a) shared \<Rightarrow> ('v, 'a) shared option" where
  "sp_addRef v w =
     (case cbs w v of
        None \<Rightarrow> Some w
      | Some s \<Rightarrow> do {
          (r, x) \<leftarrow> slot_object (sh_pool w) s;
          p \<leftarrow> slot_write s (r + 1, x) (sh_pool w);
          Some (w\<lparr>sh_pool := p\<rparr>) })"

definition sp_release :: "'v \<Rightarrow> ('v, 'a) shared \<Rightarrow> ('v, 'a) shared option" where
  "sp_release v w =
     (case cbs w v of
        None \<Rightarrow> Some w
      | Some s \<Rightarrow> do {
          (r, x) \<leftarrow> slot_object (sh_pool w) s;
          p1 \<leftarrow> slot_write s (r - 1, x) (sh_pool w);
          p2 \<leftarrow> (if r = 1 then pool_ptr_delete s p1 else Some p1);
          Some (w\<lparr>sh_pool := p2, cbs := (cbs w)(v := None)\<rparr>) })"

definition sp_new :: "nat \<Rightarrow> 'v \<Rightarrow> 'a \<Rightarrow> ('v, 'a) shared \<Rightarrow> ('v, 'a) shared option" where
  "sp_new cap v x w = do {
     (s, p) \<leftarrow> pool_ptr_new cap (1, x) (sh_pool w);
     Some (w\<lparr>sh_pool := p, cbs := (cbs w)(v \<mapsto> s)\<rparr>) }"

definition sp_copy :: "'v \<Rightarrow> 'v \<Rightarrow> ('v, 'a) shared \<Rightarrow> ('v, 'a) shared option" where
  "sp_copy v src w = sp_addRef v (w\<lparr>cbs := (cbs w)(v := cbs w src)\<rparr>)"

definition sp_assign :: "'v \<Rightarrow> 'v \<Rightarrow> ('v, 'a) shared \<Rightarrow> ('v, 'a) shared option" where
  "sp_assign v src w = (if v = src then Some w else do { w1 \<leftarrow> sp_release v w; sp_copy v src w1 })"

definition sp_move :: "'v \<Rightarrow> 'v \<Rightarrow> ('v, 'a) shared \<Rightarrow> ('v, 'a) shared" where
  "sp_move v src w = w\<lparr>cbs := (cbs w)(v := cbs w src, src := None)\<rparr>"

definition sp_move_assign :: "'v \<Rightarrow> 'v \<Rightarrow> ('v, 'a) shared \<Rightarrow> ('v, 'a) shared option" where
  "sp_move_assign v src w = (if v = src then Some w else do { w1 \<leftarrow> sp_release v w; Some (sp_move v src w1) })"

definition sp_get :: "'v \<Rightarrow> ('v, 'a) shared \<Rightarrow> 'a option" where
  "sp_get v w = Option.bind (cbs w v) (\<lambda>s. map_option snd (slot_object (sh_pool w) s))"

section \<open>The pool is a store of objects\<close>

text \<open>The free list is a chain of links through slots that hold no object; together they are the slots
  handed out so far.\<close>

fun free_chain :: "(slot \<Rightarrow> 'a slot_cell option) \<Rightarrow> slot option \<Rightarrow> slot list \<Rightarrow> bool" where
  "free_chain m h [] = (h = None)"
| "free_chain m h (s # ss) = (h = Some s \<and> (\<exists>n. m s = Some (Next n) \<and> free_chain m n ss))"

definition handed_out :: "nat \<Rightarrow> 'a pool \<Rightarrow> slot \<Rightarrow> bool" where
  "handed_out cap p s \<longleftrightarrow> slot_index s < cap \<and> (Suc (slot_block s) < pool_blocks p \<or> Suc (slot_block s) = pool_blocks p \<and> slot_index s < pool_used p)"

definition pool_ok :: "nat \<Rightarrow> 'a pool \<Rightarrow> bool" where
  "pool_ok cap p \<longleftrightarrow> 0 < cap \<and> pool_used p \<le> cap \<and> (pool_blocks p = 0 \<longrightarrow> pool_used p = cap)
     \<and> (\<forall>s. pool_mem p s \<noteq> None \<longleftrightarrow> slot_block s < pool_blocks p \<and> slot_index s < cap)
     \<and> (\<exists>fs. free_chain (pool_mem p) (pool_free p) fs \<and> distinct fs
          \<and> (\<forall>s. handed_out cap p s \<longleftrightarrow> s \<in> set fs \<or> slot_object p s \<noteq> None)
          \<and> (\<forall>s \<in> set fs. slot_object p s = None))"

lemma free_chain_cong: "(\<And>s. s \<in> set fs \<Longrightarrow> m' s = m s) \<Longrightarrow> free_chain m' h fs = free_chain m h fs"
  by (induction fs arbitrary: h) auto

lemma pool_new_ok: "0 < cap \<Longrightarrow> pool_ok cap (pool_new cap)"
  by (auto simp: pool_ok_def pool_new_def handed_out_def slot_object_def intro!: exI [of _ "[]"])

lemma free_chain_put [simp]: "s \<notin> set fs \<Longrightarrow> free_chain (m(s \<mapsto> x)) h fs = free_chain m h fs"
  by (rule free_chain_cong) auto

lemma pool_okI:
  assumes "0 < cap" "pool_used p \<le> cap" "pool_blocks p = 0 \<Longrightarrow> pool_used p = cap"
    "\<And>s. pool_mem p s \<noteq> None \<longleftrightarrow> slot_block s < pool_blocks p \<and> slot_index s < cap"
    "free_chain (pool_mem p) (pool_free p) fs" "distinct fs"
    "\<And>s. handed_out cap p s \<longleftrightarrow> s \<in> set fs \<or> slot_object p s \<noteq> None"
    "\<And>s. s \<in> set fs \<Longrightarrow> slot_object p s = None"
  shows "pool_ok cap p"
  unfolding pool_ok_def using assms by blast

lemma pool_okE:
  assumes "pool_ok cap p"
  obtains fs where "0 < cap" "pool_used p \<le> cap" "pool_blocks p = 0 \<longrightarrow> pool_used p = cap"
    "\<And>s. pool_mem p s \<noteq> None \<longleftrightarrow> slot_block s < pool_blocks p \<and> slot_index s < cap"
    "free_chain (pool_mem p) (pool_free p) fs" "distinct fs"
    "\<And>s. handed_out cap p s \<longleftrightarrow> s \<in> set fs \<or> slot_object p s \<noteq> None"
    "\<And>s. s \<in> set fs \<Longrightarrow> slot_object p s = None"
  using assms unfolding pool_ok_def by metis

lemma object_of_put:
  "slot_object (p\<lparr>pool_mem := (pool_mem p)(s \<mapsto> Obj x)\<rparr>) = (slot_object p)(s \<mapsto> x)"
  by (auto simp: slot_object_def fun_eq_iff)

text \<open>With no free slot the next one of the newest block is used, a new block when that is full.\<close>

lemma add_block_ok:
  assumes ok: "pool_ok cap p" and f: "pool_free p = None" and full: "cap \<le> pool_used p"
  shows "pool_ok cap (add_block cap p) \<and> slot_object (add_block cap p) = slot_object p"
proof -
  obtain fs where fs: "0 < cap" "pool_used p \<le> cap" "pool_blocks p = 0 \<longrightarrow> pool_used p = cap"
    "\<And>s. pool_mem p s \<noteq> None \<longleftrightarrow> slot_block s < pool_blocks p \<and> slot_index s < cap"
    "free_chain (pool_mem p) (pool_free p) fs" "\<And>s. handed_out cap p s \<longleftrightarrow> s \<in> set fs \<or> slot_object p s \<noteq> None"
    using pool_okE [OF ok] by metis
  have fs0: "fs = []" using fs(5) f by (cases fs) auto
  have o: "slot_object (add_block cap p) = slot_object p"
  proof
    fix s
    show "slot_object (add_block cap p) s = slot_object p s"
    proof (cases "slot_block s = pool_blocks p \<and> slot_index s < cap")
      case True
      then have "pool_mem p s = None" using fs(4) [of s] by simp
      then show ?thesis using True by (simp add: slot_object_def add_block_def)
    next
      case False
      then show ?thesis by (auto simp: slot_object_def add_block_def)
    qed
  qed
  have h: "handed_out cap (add_block cap p) s = handed_out cap p s" for s
    using full fs(2) by (auto simp: handed_out_def add_block_def)
  show ?thesis
  proof (intro conjI pool_okI [of _ _ "[]"])
    show "(pool_mem (add_block cap p) s \<noteq> None) = (slot_block s < pool_blocks (add_block cap p) \<and> slot_index s < cap)" for s
      using fs(4) [of s] by (auto simp: add_block_def)
    show "handed_out cap (add_block cap p) s = (s \<in> set [] \<or> slot_object (add_block cap p) s \<noteq> None)" for s
      using fs(6) [of s] fs0 h o by simp
  qed (use fs f o in \<open>auto simp: add_block_def\<close>)
qed

lemma new_spec:
  assumes ok: "pool_ok cap p"
  shows "\<exists>s p'. pool_ptr_new cap x p = Some (s, p') \<and> slot_object p s = None
    \<and> slot_object p' = (slot_object p)(s \<mapsto> x) \<and> pool_ok cap p'"
proof (cases "pool_free p")
  case (Some s)
  obtain fs where fs: "0 < cap" "pool_used p \<le> cap" "pool_blocks p = 0 \<longrightarrow> pool_used p = cap"
    "\<And>s. pool_mem p s \<noteq> None \<longleftrightarrow> slot_block s < pool_blocks p \<and> slot_index s < cap"
    "free_chain (pool_mem p) (pool_free p) fs" "distinct fs"
    "\<And>s. handed_out cap p s \<longleftrightarrow> s \<in> set fs \<or> slot_object p s \<noteq> None"
    "\<And>s. s \<in> set fs \<Longrightarrow> slot_object p s = None"
    using pool_okE [OF ok] by metis
  obtain n fs' where n: "fs = s # fs'" "pool_mem p s = Some (Next n)" "free_chain (pool_mem p) n fs'"
    using fs(5) Some by (cases fs) auto
  define p' where "p' = p\<lparr>pool_free := n, pool_mem := (pool_mem p)(s \<mapsto> Obj x)\<rparr>"
  have e: "pool_ptr_new cap x p = Some (s, p')"
    using Some n(2) by (simp add: pool_ptr_new_def pool_alloc_def slot_construct_def p'_def)
  have o: "slot_object p' = (slot_object p)(s \<mapsto> x)" by (auto simp: p'_def slot_object_def fun_eq_iff)
  have "pool_ok cap p'"
  proof (rule pool_okI [of _ _ fs'])
    show "free_chain (pool_mem p') (pool_free p') fs'"
      using n fs(6) by (auto simp: p'_def)
    show "(pool_mem p' t \<noteq> None) = (slot_block t < pool_blocks p' \<and> slot_index t < cap)" for t
      using fs(4) [of t] n(2) by (auto simp: p'_def)
    show "handed_out cap p' t = (t \<in> set fs' \<or> slot_object p' t \<noteq> None)" for t
      using fs(7) [of t] o n(1) by (auto simp: handed_out_def p'_def)
    show "slot_object p' t = None" if "t \<in> set fs'" for t using that fs(6,8) o n(1) by auto
  qed (use fs n in \<open>auto simp: p'_def\<close>)
  then show ?thesis using e o fs(8) [of s] n(1) by auto
next
  case None
  define p1 where "p1 = (if cap \<le> pool_used p then add_block cap p else p)"
  have p1: "pool_ok cap p1" "slot_object p1 = slot_object p"
    using add_block_ok [OF ok None] ok by (auto simp: p1_def)
  obtain fs where fs: "0 < cap" "pool_blocks p = 0 \<longrightarrow> pool_used p = cap" using ok by (auto simp: pool_ok_def)
  have c: "pool_free p1 = None" "pool_used p1 < cap" "pool_blocks p1 \<noteq> 0"
    using None fs by (auto simp: p1_def add_block_def)
  obtain gs where gs: "\<And>s. pool_mem p1 s \<noteq> None \<longleftrightarrow> slot_block s < pool_blocks p1 \<and> slot_index s < cap"
    "free_chain (pool_mem p1) (pool_free p1) gs"
    "\<And>s. handed_out cap p1 s \<longleftrightarrow> s \<in> set gs \<or> slot_object p1 s \<noteq> None"
    using pool_okE [OF p1(1)] by metis
  have gs0: "gs = []" using gs(2) c(1) by (cases gs) auto
  define s where "s = Slot (pool_blocks p1 - 1) (pool_used p1)"
  have ns: "slot_object p1 s = None" using gs(3) [of s] gs0 by (auto simp: s_def handed_out_def)
  have ms: "pool_mem p1 s \<noteq> None" using gs(1) [of s] c by (simp add: s_def)
  define p' where "p' = p1\<lparr>pool_used := Suc (pool_used p1), pool_mem := (pool_mem p1)(s \<mapsto> Obj x)\<rparr>"
  have "pool_alloc cap p = Some (s, p1\<lparr>pool_used := Suc (pool_used p1)\<rparr>)"
    using None c(3) by (simp add: pool_alloc_def Let_def flip: p1_def) (simp add: s_def)
  then have e: "pool_ptr_new cap x p = Some (s, p')"
    using ms ns by (auto simp: pool_ptr_new_def slot_construct_def slot_object_def p'_def split: slot_cell.splits)
  have o: "slot_object p' = (slot_object p)(s \<mapsto> x)" by (auto simp: p'_def slot_object_def fun_eq_iff simp flip: p1(2))
  have "pool_ok cap p'"
  proof (rule pool_okI [of _ _ "[]"])
    show "(pool_mem p' t \<noteq> None) = (slot_block t < pool_blocks p' \<and> slot_index t < cap)" for t
      using gs(1) [of t] ms by (auto simp: p'_def)
    show "handed_out cap p' t = (t \<in> set [] \<or> slot_object p' t \<noteq> None)" for t
      using gs(3) [of t] gs0 o p1(2) c by (cases t) (auto simp: handed_out_def p'_def s_def less_Suc_eq)
  qed (use fs c gs0 gs in \<open>auto simp: p'_def\<close>)
  then show ?thesis using e o ns p1(2) by auto
qed

text \<open>A deleted object's slot is the next one handed out.\<close>

lemma delete_spec:
  assumes ok: "pool_ok cap p" and s: "slot_object p s \<noteq> None"
  shows "\<exists>p'. pool_ptr_delete s p = Some p' \<and> slot_object p' = (slot_object p)(s := None) \<and> pool_ok cap p'
    \<and> pool_free p' = Some s \<and> pool_blocks p' = pool_blocks p"
proof -
  obtain fs where fs: "0 < cap" "pool_used p \<le> cap" "pool_blocks p = 0 \<longrightarrow> pool_used p = cap"
    "\<And>s. pool_mem p s \<noteq> None \<longleftrightarrow> slot_block s < pool_blocks p \<and> slot_index s < cap"
    "free_chain (pool_mem p) (pool_free p) fs" "distinct fs"
    "\<And>s. handed_out cap p s \<longleftrightarrow> s \<in> set fs \<or> slot_object p s \<noteq> None"
    "\<And>s. s \<in> set fs \<Longrightarrow> slot_object p s = None"
    using pool_okE [OF ok] by metis
  define p' where "p' = p\<lparr>pool_free := Some s, pool_mem := (pool_mem p)(s \<mapsto> Next (pool_free p))\<rparr>"
  have e: "pool_ptr_delete s p = Some p'"
    using s by (auto simp: pool_ptr_delete_def slot_destroy_def pool_dealloc_def p'_def)
  have o: "slot_object p' = (slot_object p)(s := None)" by (auto simp: p'_def slot_object_def fun_eq_iff)
  have sf: "s \<notin> set fs" using s fs(8) by auto
  have "pool_ok cap p'"
  proof (rule pool_okI [of _ _ "s # fs"])
    show "free_chain (pool_mem p') (pool_free p') (s # fs)"
      using fs(5) sf by (auto simp: p'_def)
    show "(pool_mem p' t \<noteq> None) = (slot_block t < pool_blocks p' \<and> slot_index t < cap)" for t
      using fs(4) [of t] fs(4) [of s] s by (auto simp: p'_def slot_object_def)
    show "handed_out cap p' t = (t \<in> set (s # fs) \<or> slot_object p' t \<noteq> None)" for t
      using fs(7) [of t] fs(7) [of s] s o by (auto simp: handed_out_def p'_def)
    show "slot_object p' t = None" if "t \<in> set (s # fs)" for t using that fs(8) o by auto
  qed (use fs sf in \<open>auto simp: p'_def\<close>)
  then show ?thesis using e o by (simp add: p'_def)
qed

lemma write_spec:
  assumes ok: "pool_ok cap p" and s: "slot_object p s \<noteq> None"
  shows "\<exists>p'. slot_write s x p = Some p' \<and> slot_object p' = (slot_object p)(s \<mapsto> x) \<and> pool_ok cap p'"
proof -
  obtain fs where fs: "0 < cap" "pool_used p \<le> cap" "pool_blocks p = 0 \<longrightarrow> pool_used p = cap"
    "\<And>s. pool_mem p s \<noteq> None \<longleftrightarrow> slot_block s < pool_blocks p \<and> slot_index s < cap"
    "free_chain (pool_mem p) (pool_free p) fs" "distinct fs"
    "\<And>s. handed_out cap p s \<longleftrightarrow> s \<in> set fs \<or> slot_object p s \<noteq> None"
    "\<And>s. s \<in> set fs \<Longrightarrow> slot_object p s = None"
    using pool_okE [OF ok] by metis
  define p' where "p' = p\<lparr>pool_mem := (pool_mem p)(s \<mapsto> Obj x)\<rparr>"
  have e: "slot_write s x p = Some p'" using s by (auto simp: slot_write_def p'_def)
  have o: "slot_object p' = (slot_object p)(s \<mapsto> x)" by (simp add: p'_def object_of_put)
  have sf: "s \<notin> set fs" using s fs(8) by auto
  have "pool_ok cap p'"
  proof (rule pool_okI [of _ _ fs])
    show "free_chain (pool_mem p') (pool_free p') fs"
      using fs(5) sf by (auto simp: p'_def)
    show "(pool_mem p' t \<noteq> None) = (slot_block t < pool_blocks p' \<and> slot_index t < cap)" for t
      using fs(4) [of t] fs(4) [of s] s by (auto simp: p'_def slot_object_def)
    show "handed_out cap p' t = (t \<in> set fs \<or> slot_object p' t \<noteq> None)" for t
      using fs(7) [of t] fs(7) [of s] s o by (auto simp: handed_out_def p'_def)
    show "slot_object p' t = None" if "t \<in> set fs" for t using that fs(8) sf o by auto
  qed (use fs in \<open>auto simp: p'_def\<close>)
  then show ?thesis using e o by simp
qed

section \<open>Counting\<close>

definition owners :: "('v, 'a) shared \<Rightarrow> slot \<Rightarrow> 'v set" where
  "owners w s = {v. cbs w v = Some s}"

definition held :: "('v, 'a) shared \<Rightarrow> slot \<Rightarrow> 'a option" where
  "held w s = map_option snd (slot_object (sh_pool w) s)"

text \<open>The count of every control block is the number of its pointers, and none has no pointer.\<close>

definition shared_ok :: "nat \<Rightarrow> ('v, 'a) shared \<Rightarrow> bool" where
  "shared_ok cap w \<longleftrightarrow> pool_ok cap (sh_pool w) \<and> finite (dom (cbs w))
     \<and> (\<forall>s. map_option fst (slot_object (sh_pool w) s)
            = (if owners w s = {} then None else Some (of_nat (card (owners w s)))))"

lemma owners_finite: "shared_ok cap w \<Longrightarrow> finite (owners w s) \<and> card (owners w s) \<le> card (dom (cbs w))"
  using finite_subset [of "owners w s" "dom (cbs w)"] card_mono [of "dom (cbs w)" "owners w s"]
  by (auto simp: shared_ok_def owners_def)

lemma owned_object:
  assumes ok: "shared_ok cap w" and s: "cbs w v = Some s"
  obtains x where "slot_object (sh_pool w) s = Some (of_nat (card (owners w s)), x)" "held w s = Some x"
    "0 < card (owners w s)" "v \<in> owners w s"
proof -
  have v: "v \<in> owners w s" using s by (simp add: owners_def)
  then have "owners w s \<noteq> {}" by blast
  then have "map_option fst (slot_object (sh_pool w) s) = Some (of_nat (card (owners w s)))"
    using ok by (simp add: shared_ok_def)
  then show ?thesis using that v owners_finite [OF ok, of s] card_gt_0_iff [of "owners w s"] by (auto simp: held_def)
qed

lemma unowned_object: "shared_ok cap w \<Longrightarrow> (slot_object (sh_pool w) s = None) = (owners w s = {})"
  by (cases "slot_object (sh_pool w) s") (auto simp: shared_ok_def dest: spec [of _ s] split: if_splits)

lemma get_held: "sp_get v w = Option.bind (cbs w v) (held w)"
  by (simp add: sp_get_def held_def [abs_def])

lemma release_spec:
  assumes ok: "shared_ok cap w" and few: "card (dom (cbs w)) < 2 ^ 32"
  shows "\<exists>w'. sp_release v w = Some w' \<and> shared_ok cap w' \<and> cbs w' = (cbs w)(v := None)
    \<and> (\<forall>s. owners w' s \<noteq> {} \<longrightarrow> held w' s = held w s)"
proof (cases "cbs w v")
  case None
  then show ?thesis using ok by (auto simp: sp_release_def fun_upd_idem)
next
  case (Some s)
  define n where "n = card (owners w s)"
  obtain x where x: "slot_object (sh_pool w) s = Some (of_nat n, x)" "held w s = Some x" "0 < n" "v \<in> owners w s"
    using owned_object [OF ok Some] unfolding n_def by metis
  have p: "pool_ok cap (sh_pool w)" "finite (dom (cbs w))" using ok by (simp_all add: shared_ok_def)
  obtain p1 where p1: "slot_write s (of_nat n - 1, x) (sh_pool w) = Some p1"
    "slot_object p1 = (slot_object (sh_pool w))(s \<mapsto> (of_nat n - 1, x))" "pool_ok cap p1"
    using write_spec [OF p(1), of s "(of_nat n - 1, x)"] x(1) by auto
  have n32: "n < 2 ^ 32" using owners_finite [OF ok, of s] few by (simp add: n_def)
  have "unat (of_nat n :: 32 word) = n" using n32 by (simp add: unat_of_nat take_bit_nat_eq_self)
  then have one: "(of_nat n = (1::32 word)) = (n = 1)" by (metis of_nat_1 unsigned_1)
  obtain p2 where p2: "(if n = 1 then pool_ptr_delete s p1 else Some p1) = Some p2" "pool_ok cap p2"
    "slot_object p2 = (slot_object (sh_pool w))(s := (if n = 1 then None else Some (of_nat n - 1, x)))"
    using delete_spec [OF p1(3), of s] p1 by (cases "n = 1") auto
  define w' where "w' = w\<lparr>sh_pool := p2, cbs := (cbs w)(v := None)\<rparr>"
  have r: "sp_release v w = Some w'" using Some x(1) p1(1) p2(1) by (simp add: sp_release_def one w'_def)
  have o: "owners w' t = (if t = s then owners w s - {v} else owners w t)" for t
    using Some by (auto simp: owners_def w'_def)
  have fin: "finite (owners w s)" using owners_finite [OF ok] by blast
  have c: "card (owners w s - {v}) = n - 1" using x(4) fin by (simp add: n_def)
  have e: "(owners w s - {v} = {}) = (n = 1)" using c fin x(3,4) card_0_eq [of "owners w s - {v}"] by auto
  have "map_option fst (slot_object p2 t) = (if owners w' t = {} then None else Some (of_nat (card (owners w' t))))" for t
  proof (cases "t = s")
    case True
    then show ?thesis using p2(3) o c e x(3) by (simp add: of_nat_diff)
  next
    case False
    then show ?thesis using ok p2(3) o by (simp add: shared_ok_def)
  qed
  then have "shared_ok cap w'" using p2(2) p(2) by (simp add: shared_ok_def w'_def)
  moreover have "held w' t = held w t" if "owners w' t \<noteq> {}" for t
    using that o e p2(3) x(1) by (cases "t = s") (auto simp: held_def w'_def)
  ultimately show ?thesis using r by (auto simp: w'_def)
qed

lemma copy_spec:
  assumes ok: "shared_ok cap w" and v: "cbs w v = None"
  shows "\<exists>w'. sp_copy v src w = Some w' \<and> shared_ok cap w' \<and> cbs w' = (cbs w)(v := cbs w src) \<and> held w' = held w"
proof (cases "cbs w src")
  case None
  then have "(cbs w)(v := None) = cbs w" using v by (simp add: fun_upd_idem)
  then show ?thesis using None ok v by (simp add: sp_copy_def sp_addRef_def)
next
  case (Some s)
  define n where "n = card (owners w s)"
  obtain x where x: "slot_object (sh_pool w) s = Some (of_nat n, x)" "held w s = Some x" "0 < n"
    using owned_object [OF ok Some] unfolding n_def by metis
  have p: "pool_ok cap (sh_pool w)" "finite (dom (cbs w))" using ok by (simp_all add: shared_ok_def)
  obtain p1 where p1: "slot_write s (of_nat n + 1, x) (sh_pool w) = Some p1"
    "slot_object p1 = (slot_object (sh_pool w))(s \<mapsto> (of_nat n + 1, x))" "pool_ok cap p1"
    using write_spec [OF p(1), of s "(of_nat n + 1, x)"] x(1) by auto
  define w' where "w' = w\<lparr>sh_pool := p1, cbs := (cbs w)(v \<mapsto> s)\<rparr>"
  have r: "sp_copy v src w = Some w'" using Some x(1) p1(1) by (simp add: sp_copy_def sp_addRef_def w'_def)
  have o: "owners w' t = (if t = s then insert v (owners w s) else owners w t)" for t
    using v by (auto simp: owners_def w'_def)
  have "card (insert v (owners w s)) = Suc n" using v owners_finite [OF ok, of s] by (simp add: n_def owners_def)
  then have "map_option fst (slot_object p1 t) = (if owners w' t = {} then None else Some (of_nat (card (owners w' t))))" for t
    using p1(2) o ok by (cases "t = s") (simp_all add: shared_ok_def add.commute)
  then have "shared_ok cap w'" using p1(3) p(2) by (simp add: shared_ok_def w'_def)
  moreover have "held w' = held w" using p1(2) x(1) by (auto simp: held_def w'_def fun_eq_iff)
  ultimately show ?thesis using r Some by (auto simp: w'_def)
qed

lemma make_spec:
  assumes ok: "shared_ok cap w" and v: "cbs w v = None"
  shows "\<exists>w' s. sp_new cap v x w = Some w' \<and> shared_ok cap w' \<and> cbs w' = (cbs w)(v \<mapsto> s)
    \<and> owners w s = {} \<and> held w' = (held w)(s \<mapsto> x)"
proof -
  have p: "pool_ok cap (sh_pool w)" "finite (dom (cbs w))" using ok by (simp_all add: shared_ok_def)
  obtain s p1 where s: "pool_ptr_new cap (1, x) (sh_pool w) = Some (s, p1)" "slot_object (sh_pool w) s = None"
    "slot_object p1 = (slot_object (sh_pool w))(s \<mapsto> (1, x))" "pool_ok cap p1"
    using new_spec [OF p(1), of "(1, x)"] by blast
  define w' where "w' = w\<lparr>sh_pool := p1, cbs := (cbs w)(v \<mapsto> s)\<rparr>"
  have e: "owners w s = {}" using unowned_object [OF ok] s(2) by blast
  have o: "owners w' t = (if t = s then {v} else owners w t)" for t
    using v e by (auto simp: owners_def w'_def)
  have "map_option fst (slot_object p1 t) = (if owners w' t = {} then None else Some (of_nat (card (owners w' t))))" for t
    using s(3) o ok by (cases "t = s") (simp_all add: shared_ok_def)
  then have "shared_ok cap w'" using s(4) p(2) by (simp add: shared_ok_def w'_def)
  moreover have "held w' = (held w)(s \<mapsto> x)" using s(3) by (auto simp: held_def w'_def fun_eq_iff)
  ultimately show ?thesis using s(1) e by (auto simp: sp_new_def w'_def)
qed

lemma move_spec:
  assumes ok: "shared_ok cap w" and v: "cbs w v = None" "v \<noteq> src"
  shows "shared_ok cap (sp_move v src w) \<and> held (sp_move v src w) = held w"
proof -
  have o: "owners (sp_move v src w) s
      = (if src \<in> owners w s then insert v (owners w s - {src}) else owners w s)" for s
    using v by (auto simp: owners_def sp_move_def)
  have vn: "v \<notin> owners w s" for s using v by (simp add: owners_def)
  have "card (owners (sp_move v src w) s) = card (owners w s)
      \<and> (owners (sp_move v src w) s = {}) = (owners w s = {})" for s
    using vn [of s] owners_finite [OF ok, of s] card_Suc_Diff1 [of "owners w s" src] unfolding o by auto
  moreover have "finite (dom (cbs (sp_move v src w)))" using ok by (simp add: shared_ok_def sp_move_def)
  moreover have "sh_pool (sp_move v src w) = sh_pool w" by (simp add: sp_move_def)
  ultimately show ?thesis using ok by (simp add: shared_ok_def held_def fun_eq_iff)
qed

section \<open>Programs with shared pointers\<close>

datatype ('v, 'a) sp_op =
  MakeP 'v 'a
| CopyP 'v 'v
| AssignP 'v 'v
| MoveP 'v 'v
| MoveAssignP 'v 'v
| DropP 'v

fun sp_step :: "nat \<Rightarrow> ('v, 'a) sp_op \<Rightarrow> ('v, 'a) shared \<Rightarrow> ('v, 'a) shared option" where
  "sp_step cap (MakeP v x) w = sp_new cap v x w"
| "sp_step cap (CopyP v u) w = sp_copy v u w"
| "sp_step cap (AssignP v u) w = sp_assign v u w"
| "sp_step cap (MoveP v u) w = Some (sp_move v u w)"
| "sp_step cap (MoveAssignP v u) w = sp_move_assign v u w"
| "sp_step cap (DropP v) w = sp_release v w"

text \<open>A constructor makes a new variable, and there are fewer than \<open>2 ^ 32\<close> pointers.\<close>

fun sp_ok :: "('v, 'a) sp_op \<Rightarrow> ('v, 'a) shared \<Rightarrow> bool" where
  "sp_ok (MakeP v x) w = (cbs w v = None)"
| "sp_ok (CopyP v u) w = (cbs w v = None)"
| "sp_ok (MoveP v u) w = (cbs w v = None \<and> v \<noteq> u)"
| "sp_ok op w = (card (dom (cbs w)) < 2 ^ 32)"

text \<open>What a program sees: the object of each pointer.\<close>

fun sp_spec :: "('v, 'a) sp_op \<Rightarrow> ('v \<Rightarrow> 'a option) \<Rightarrow> 'v \<Rightarrow> 'a option" where
  "sp_spec (MakeP v x) g = g(v \<mapsto> x)"
| "sp_spec (CopyP v u) g = g(v := g u)"
| "sp_spec (AssignP v u) g = g(v := g u)"
| "sp_spec (MoveP v u) g = g(v := g u, u := None)"
| "sp_spec (MoveAssignP v u) g = (if v = u then g else g(v := g u, u := None))"
| "sp_spec (DropP v) g = g(v := None)"

definition sp_start :: "nat \<Rightarrow> ('v, 'a) shared" where
  "sp_start cap = \<lparr>sh_pool = pool_new cap, cbs = Map.empty\<rparr>"

inductive sp_reach :: "nat \<Rightarrow> ('v, 'a) shared \<Rightarrow> bool" for cap where
  sp_reach_start: "0 < cap \<Longrightarrow> sp_reach cap (sp_start cap)"
| sp_reach_step: "sp_reach cap w \<Longrightarrow> sp_ok op w \<Longrightarrow> sp_step cap op w = Some w' \<Longrightarrow> sp_reach cap w'"

lemma owners_iff: "(u \<in> owners w s) = (cbs w u = Some s)"
  by (simp add: owners_def)

lemma release_get:
  assumes "cbs w' = (cbs w)(v := None)" "\<forall>s. owners w' s \<noteq> {} \<longrightarrow> held w' s = held w s"
  shows "(\<lambda>u. sp_get u w') = (\<lambda>u. sp_get u w)(v := None)"
proof
  fix u
  show "sp_get u w' = ((\<lambda>u. sp_get u w)(v := None)) u"
    using assms(2) owners_iff [of u w'] by (cases "cbs w' u") (auto simp: get_held assms(1) split: if_splits)
qed

lemma same_held: "held w' = held w \<Longrightarrow> sp_get u w' = Option.bind (cbs w' u) (held w)"
  by (simp add: get_held)

lemma sp_step_spec:
  assumes ok: "shared_ok cap w" and op: "sp_ok op w"
  shows "\<exists>w'. sp_step cap op w = Some w' \<and> shared_ok cap w' \<and> (\<lambda>v. sp_get v w') = sp_spec op (\<lambda>v. sp_get v w)"
proof (cases op)
  case (MakeP v x)
  then obtain w' s where w': "sp_new cap v x w = Some w'" "shared_ok cap w'" "cbs w' = (cbs w)(v \<mapsto> s)"
    "owners w s = {}" "held w' = (held w)(s \<mapsto> x)" using make_spec [OF ok, of v x] op by auto
  have "sp_get u w' = ((\<lambda>v. sp_get v w)(v \<mapsto> x)) u" for u
    using w'(4) owners_iff [of u w] by (cases "cbs w u") (auto simp: get_held w'(3,5))
  then show ?thesis using w' MakeP by auto
next
  case (CopyP v u)
  then obtain w' where "sp_copy v u w = Some w'" "shared_ok cap w'" "cbs w' = (cbs w)(v := cbs w u)" "held w' = held w"
    using copy_spec [OF ok, of v u] op by auto
  then show ?thesis using CopyP by (auto simp: get_held)
next
  case (AssignP v u)
  show ?thesis
  proof (cases "v = u")
    case False
    obtain w1 where w1: "sp_release v w = Some w1" "shared_ok cap w1" "cbs w1 = (cbs w)(v := None)"
      "\<forall>s. owners w1 s \<noteq> {} \<longrightarrow> held w1 s = held w s" using release_spec [OF ok, of v] op AssignP by auto
    obtain w' where w': "sp_copy v u w1 = Some w'" "shared_ok cap w'" "cbs w' = (cbs w1)(v := cbs w1 u)" "held w' = held w1"
      using copy_spec [OF w1(2), of v u] w1(3) by auto
    have "(\<lambda>x. sp_get x w') = (\<lambda>x. sp_get x w1)(v := sp_get u w1)" using w'(3,4) by (auto simp: get_held)
    moreover have "sp_get u w1 = sp_get u w" using fun_cong [OF release_get [OF w1(3,4)], of u] False by simp
    ultimately show ?thesis using False AssignP w1(1) w'(1,2) release_get [OF w1(3,4)] by (simp add: sp_assign_def)
  qed (use AssignP ok in \<open>simp add: sp_assign_def fun_upd_idem\<close>)
next
  case (MoveP v u)
  then have "shared_ok cap (sp_move v u w) \<and> held (sp_move v u w) = held w" using move_spec [OF ok, of v u] op by simp
  then show ?thesis using MoveP by (auto simp: get_held sp_move_def)
next
  case (MoveAssignP v u)
  show ?thesis
  proof (cases "v = u")
    case False
    obtain w1 where w1: "sp_release v w = Some w1" "shared_ok cap w1" "cbs w1 = (cbs w)(v := None)"
      "\<forall>s. owners w1 s \<noteq> {} \<longrightarrow> held w1 s = held w s" using release_spec [OF ok, of v] op MoveAssignP by auto
    have m: "shared_ok cap (sp_move v u w1)" "held (sp_move v u w1) = held w1"
      using move_spec [OF w1(2), of v u] w1(3) False by auto
    have "(\<lambda>x. sp_get x (sp_move v u w1)) = (\<lambda>x. sp_get x w1)(v := sp_get u w1, u := None)"
    proof
      fix x
      have "cbs (sp_move v u w1) = (cbs w1)(v := cbs w1 u, u := None)" by (simp add: sp_move_def)
      then show "sp_get x (sp_move v u w1) = ((\<lambda>x. sp_get x w1)(v := sp_get u w1, u := None)) x"
        using same_held [OF m(2), of x] by (simp add: get_held)
    qed
    moreover have "sp_get u w1 = sp_get u w" using fun_cong [OF release_get [OF w1(3,4)], of u] False by simp
    ultimately show ?thesis using False MoveAssignP w1(1) m release_get [OF w1(3,4)] by (simp add: sp_move_assign_def)
  qed (use MoveAssignP ok in \<open>simp add: sp_move_assign_def\<close>)
next
  case (DropP v)
  obtain w1 where "sp_release v w = Some w1" "shared_ok cap w1" "cbs w1 = (cbs w)(v := None)"
      "\<forall>s. owners w1 s \<noteq> {} \<longrightarrow> held w1 s = held w s" using release_spec [OF ok, of v] op DropP by auto
  then show ?thesis using DropP release_get by auto
qed

lemma sp_reach_ok: "sp_reach cap w \<Longrightarrow> shared_ok cap w"
proof (induction rule: sp_reach.induct)
  case sp_reach_start
  have "slot_object (pool_new cap :: (32 word \<times> 'b) pool) s = None" for s by (simp add: slot_object_def pool_new_def)
  then show ?case using pool_new_ok [OF sp_reach_start] by (simp add: shared_ok_def sp_start_def owners_def)
next
  case (sp_reach_step w op w')
  then show ?case using sp_step_spec by fastforce
qed



end
