(* ===== verification/Markdown.thy ===== *)
theory Markdown
  imports Node_Plain Pipeline
begin

text \<open>
  Trees as Markdown (\<open>ve/src/core/impl/md.cpp\<close>): a node is a section, its name and \<open>_title\<close> child the
  heading, its value the text below, its children the sections of the next level. The importer reads
  headings line by line, keeps the open sections on a stack and what is not a heading in a buffer that
  becomes the value of the section when the next heading comes; a fenced block of code hides headings.
\<close>

section \<open>Headings\<close>

definition is_blank :: "char \<Rightarrow> bool" where
  "is_blank c \<longleftrightarrow> c = CHR '' '' \<or> c = CHR 0x09"

definition trim_right :: "(char \<Rightarrow> bool) \<Rightarrow> string \<Rightarrow> string" where
  "trim_right P s = rev (dropWhile P (rev s))"

definition clean_char :: "char \<Rightarrow> string" where
  "clean_char c =
     (if c \<in> {CHR ''*'', CHR ''_'', CHR 0x60, CHR ''['', CHR '']'', CHR ''('', CHR '')'', CHR ''#'', CHR 0x5C} then []
      else if c \<in> {CHR ''/'', CHR ''|'', CHR ''<'', CHR ''>'', CHR '':'', CHR 0x22, CHR ''?'', CHR 0x09, CHR 0x0D, CHR 0x0A}
           then '' '' else [c])"

definition cleanHeadingText :: "string \<Rightarrow> string" where
  "cleanHeadingText s = trim_right (\<lambda>c. c = CHR '' '') (dropWhile (\<lambda>c. c = CHR '' '') (concat (map clean_char s)))"

definition stripNodeNameSuffix :: "string \<Rightarrow> string" where
  "stripNodeNameSuffix nm = takeWhile (\<lambda>c. c \<noteq> CHR ''#'') nm"

text \<open>Up to three leading characters of a kind.\<close>

definition skip3 :: "(char \<Rightarrow> bool) \<Rightarrow> string \<Rightarrow> string" where
  "skip3 P s = drop (min 3 (length (takeWhile P s))) s"

text \<open>The closing hashes of a heading go when a blank is before them.\<close>

definition close_title :: "string \<Rightarrow> string" where
  "close_title s =
     (let t = trim_right is_blank s; u = trim_right (\<lambda>c. c = CHR ''#'') t
      in if u \<noteq> [] \<and> length u < length t \<and> is_blank (last u) then trim_right is_blank u else t)"

text \<open>Level, title and name of a heading.\<close>

definition parseHeadingLine :: "string \<Rightarrow> (int \<times> string \<times> string) option" where
  "parseHeadingLine line =
     (let s = skip3 (\<lambda>c. c = CHR '' '') line;
          level = length (takeWhile (\<lambda>c. c = CHR ''#'') s);
          rest = drop level s
      in if level < 1 \<or> 6 < level then None
         else if rest \<noteq> [] \<and> \<not> is_blank (hd rest) then None
         else (let raw = close_title (dropWhile is_blank rest) in Some (int level, raw, cleanHeadingText raw)))"

text \<open>Inside a code fence after this line, and the marker that closes it.\<close>

definition isInsideCodeFence :: "string \<Rightarrow> bool \<Rightarrow> string \<Rightarrow> bool \<times> string" where
  "isInsideCodeFence line inside marker =
     (let s = skip3 is_blank line;
          fenceChar = (if s \<noteq> [] \<and> (hd s = CHR 0x60 \<or> hd s = CHR ''~'') then hd s else CHR 0x00);
          fenceLen = (if fenceChar = CHR 0x00 then 0 else length (takeWhile (\<lambda>c. c = fenceChar) s))
      in if fenceLen < 3 then (inside, marker)
         else if \<not> inside then (True, replicate fenceLen fenceChar)
         else if fenceChar = (if marker = [] then CHR 0x00 else hd marker) \<and> length marker \<le> fenceLen then (False, [])
         else (True, marker))"

definition trimTrailingWhitespace :: "string \<Rightarrow> string" where
  "trimTrailingWhitespace s = trim_right (\<lambda>c. c = CHR '' '' \<or> c = CHR 0x09 \<or> c = CHR 0x0D \<or> c = CHR 0x0A) s"

section \<open>Import\<close>

definition flushContent :: "nid \<Rightarrow> string \<Rightarrow> forest \<Rightarrow> forest option" where
  "flushContent target content st =
     (let trimmed = trimTrailingWhitespace content in if trimmed \<noteq> [] then set_value target (VString trimmed) st else Some st)"

text \<open>The open sections, innermost first.\<close>

record md_state =
  md_stack :: "(nid \<times> int) list"
  md_current :: nid
  md_buf :: string
  md_fence :: bool
  md_marker :: string
  md_forest :: forest

fun pop_levels :: "int \<Rightarrow> (nid \<times> int) list \<Rightarrow> (nid \<times> int) list" where
  "pop_levels level (e # f # es) = (if level \<le> snd e then pop_levels level (f # es) else e # f # es)"
| "pop_levels level es = es"

definition append_with :: "nid \<Rightarrow> string \<Rightarrow> var \<Rightarrow> forest \<Rightarrow> forest option" where
  "append_with n nm v st =
     (case append_node n nm 0 st of Some (Some c, st1) \<Rightarrow> set_value c v st1 | _ \<Rightarrow> None)"

definition md_heading :: "int \<Rightarrow> string \<Rightarrow> string \<Rightarrow> md_state \<Rightarrow> md_state option" where
  "md_heading level raw nm s =
     do {
       st1 \<leftarrow> flushContent (md_current s) (md_buf s) (md_forest s);
       let stack = pop_levels level (md_stack s);
       let (parent, parentLevel) = hd stack;
       (c, st2) \<leftarrow> (case append_node parent nm 0 st1 of Some (Some c, st2) \<Rightarrow> Some (c, st2) | _ \<Rightarrow> None);
       st3 \<leftarrow> (if nm \<noteq> raw then append_with c ''_title'' (VString raw) st2 else Some st2);
       st4 \<leftarrow> (if level \<noteq> parentLevel + 1 then append_with c ''_level'' (VInt (of_int level)) st3 else Some st3);
       Some (s\<lparr>md_stack := (c, level) # stack, md_current := c, md_buf := [], md_forest := st4\<rparr>) }"

definition md_line :: "string \<Rightarrow> md_state \<Rightarrow> md_state option" where
  "md_line line s =
     (let l = (if line \<noteq> [] \<and> last line = CHR 0x0D then butlast line else line);
          (inside, marker) = isInsideCodeFence l (md_fence s) (md_marker s);
          s1 = s\<lparr>md_fence := inside, md_marker := marker\<rparr>;
          more = s1\<lparr>md_buf := md_buf s @ l @ [CHR 0x0A]\<rparr>
      in if md_fence s \<or> inside then Some more
         else (case parseHeadingLine l of None \<Rightarrow> Some more | Some (level, raw, nm) \<Rightarrow> md_heading level raw nm s1))"

fun md_lines :: "string list \<Rightarrow> md_state \<Rightarrow> md_state option" where
  "md_lines [] s = Some s"
| "md_lines (l # ls) s = (case md_line l s of None \<Rightarrow> None | Some s1 \<Rightarrow> md_lines ls s1)"

text \<open>\<open>std::getline\<close>: the last line need not end in a newline.\<close>

fun getlines :: "string \<Rightarrow> string \<Rightarrow> string list" where
  "getlines line [] = (if line = [] then [] else [line])"
| "getlines line (c # cs) = (if c = CHR 0x0A then line # getlines [] cs else getlines (line @ [c]) cs)"

definition importDirect :: "nid \<Rightarrow> string \<Rightarrow> forest \<Rightarrow> forest option" where
  "importDirect root md st =
     do {
       s \<leftarrow> md_lines (getlines [] md)
              \<lparr>md_stack = [(root, 0)], md_current = root, md_buf = [], md_fence = False, md_marker = [], md_forest = st\<rparr>;
       flushContent (md_current s) (md_buf s) (md_forest s) }"

definition importTree_md :: "nid option \<Rightarrow> string \<Rightarrow> forest \<Rightarrow> (bool \<times> forest) option" where
  "importTree_md node md st =
     (case node of
        None \<Rightarrow> Some (False, st)
      | Some n \<Rightarrow> if md = [] then Some (False, st) else map_option (Pair True) (importDirect n md st))"

definition importTree_md_opts :: "nid option \<Rightarrow> string \<Rightarrow> copy_options \<Rightarrow> forest \<Rightarrow> (bool \<times> forest) option" where
  "importTree_md_opts node md opts st =
     (case node of
        None \<Rightarrow> Some (False, st)
      | Some n \<Rightarrow>
          if md = [] then Some (False, st)
          else if \<not> auto_insert opts \<and> \<not> auto_remove opts \<and> \<not> auto_update opts then map_option (Pair True) (importDirect n md st)
          else map_option (Pair True) (copy_scratch ''md_import'' (\<lambda>p. importDirect p md) opts n st))"

section \<open>Export\<close>

definition hidden_child :: "forest \<Rightarrow> nid \<Rightarrow> bool" where
  "hidden_child st c \<longleftrightarrow> name_of st c \<noteq> [] \<and> hd (name_of st c) = CHR ''_''"

definition md_content :: "(nat \<Rightarrow> string) \<Rightarrow> var \<Rightarrow> string" where
  "md_content cust v =
     (if isNull v then []
      else (let content = var_text cust [] v
            in if content = [] then [] else if last content = CHR 0x0A then content else content @ [CHR 0x0A]))"

fun exportNodeRecursive :: "nat \<Rightarrow> (nat \<Rightarrow> string) \<Rightarrow> forest \<Rightarrow> int \<Rightarrow> nid \<Rightarrow> string option" where
  "exportNodeRecursive 0 cust st parentLevel n = None"
| "exportNodeRecursive (Suc fuel) cust st parentLevel n =
     do {
       levelNode \<leftarrow> find_path st n ''_level'' True VE_NODE_PATH_SEP VE_NODE_KEY_SEP;
       level0 \<leftarrow> (case levelNode of
                   None \<Rightarrow> Some (parentLevel + 1)
                 | Some c \<Rightarrow> map_option sint (toInt (of_int (parentLevel + 1)) (node_value st c)));
       let level = min level0 6;
       heading \<leftarrow> (if 0 < level then do {
                     titleNode \<leftarrow> find_path st n ''_title'' True VE_NODE_PATH_SEP VE_NODE_KEY_SEP;
                     let title = (case titleNode of
                                    Some c \<Rightarrow> var_text cust [] (node_value st c)
                                  | None \<Rightarrow> stripNodeNameSuffix (name_of st n));
                     Some (if title \<noteq> [] then replicate (nat level) (CHR ''#'') @ '' '' @ title @ [CHR 0x0A] else []) }
                   else Some []);
       sections \<leftarrow> those (map (exportNodeRecursive fuel cust st level) (filter (\<lambda>c. \<not> hidden_child st c) (kids st n)));
       Some (heading @ md_content cust (node_value st n) @ (if 0 < level then [CHR 0x0A] else []) @ concat sections) }"

definition exportTree_md :: "(nat \<Rightarrow> string) \<Rightarrow> nid option \<Rightarrow> forest \<Rightarrow> string option" where
  "exportTree_md cust node st =
     (case node of
        None \<Rightarrow> Some []
      | Some n \<Rightarrow>
          do {
            levelNode \<leftarrow> find_path st n ''_level'' True VE_NODE_PATH_SEP VE_NODE_KEY_SEP;
            let content = md_content cust (node_value st n);
            let preamble = (if levelNode = None \<and> content \<noteq> [] then content @ [CHR 0x0A] else []);
            sections \<leftarrow> those (map (exportNodeRecursive (next_id st + 1) cust st 0)
                                  (filter (\<lambda>c. \<not> hidden_child st c) (kids st n)));
            Some (preamble @ concat sections) })"

section \<open>Documents\<close>

text \<open>A section: its title, the lines of its text, its subsections.\<close>

datatype md_section = Section string "string list" "md_section list"

definition unlines :: "string list \<Rightarrow> string" where
  "unlines ls = concat (map (\<lambda>l. l @ [CHR 0x0A]) ls)"

definition content_text :: "string list \<Rightarrow> string" where
  "content_text ls = butlast (unlines ls)"

fun section_lines :: "nat \<Rightarrow> md_section \<Rightarrow> string list" where
  "section_lines k (Section raw ls subs) =
     (replicate k (CHR ''#'') @ '' '' @ raw) # ls @ [''''] @ concat (map (section_lines (Suc k)) subs)"

definition text_value :: "string list \<Rightarrow> var" where
  "text_value ls = (if ls = [] then VNone else VString (content_text ls))"

definition title_kids :: "string \<Rightarrow> ntree list" where
  "title_kids raw = (if cleanHeadingText raw \<noteq> raw then [NT ''_title'' (VString raw) []] else [])"

fun section_tree :: "md_section \<Rightarrow> ntree" where
  "section_tree (Section raw ls subs) =
     NT (cleanHeadingText raw) (text_value ls) (title_kids raw @ map section_tree subs)"

text \<open>Lines that the importer takes as text, from outside a fence back to outside.\<close>

fun outside :: "bool \<Rightarrow> string \<Rightarrow> string list \<Rightarrow> bool" where
  "outside inside marker [] = (\<not> inside \<and> marker = [])"
| "outside inside marker (l # ls) =
     (let (inside', marker') = isInsideCodeFence l inside marker
      in (inside \<or> inside' \<or> parseHeadingLine l = None) \<and> outside inside' marker' ls)"

definition plain_lines :: "string list \<Rightarrow> bool" where
  "plain_lines ls \<longleftrightarrow> (\<forall>l \<in> set ls. CHR 0x0A \<notin> set l \<and> (l = [] \<or> last l \<noteq> CHR 0x0D))"

definition text_lines_ok :: "string list \<Rightarrow> bool" where
  "text_lines_ok ls \<longleftrightarrow> plain_lines ls \<and> outside False [] ls
     \<and> (ls = [] \<or> content_text ls \<noteq> [] \<and> last (content_text ls) \<notin> {CHR '' '', CHR 0x09, CHR 0x0D, CHR 0x0A})"

definition title_ok :: "string \<Rightarrow> bool" where
  "title_ok raw \<longleftrightarrow> raw \<noteq> [] \<and> CHR 0x0A \<notin> set raw \<and> \<not> is_blank (hd raw)
     \<and> last raw \<notin> {CHR '' '', CHR 0x09, CHR 0x0D, CHR ''#''}"

text \<open>Six levels are all there are.\<close>

fun section_ok :: "nat \<Rightarrow> md_section \<Rightarrow> bool" where
  "section_ok k (Section raw ls subs) = (k \<le> 6 \<and> title_ok raw \<and> text_lines_ok ls \<and> (\<forall>s \<in> set subs. section_ok (Suc k) s))"

lemma trim_right_id [simp]: "s = [] \<or> \<not> P (last s) \<Longrightarrow> trim_right P s = s"
  by (cases s rule: rev_cases) (auto simp: trim_right_def)

lemma trim_right_snoc [simp]: "P c \<Longrightarrow> trim_right P (s @ [c]) = trim_right P s"
  by (simp add: trim_right_def)

lemma unlines_simps [simp]:
  "unlines [] = []" "unlines (l # ls) = l @ CHR 0x0A # unlines ls" "unlines (xs @ ys) = unlines xs @ unlines ys"
  by (simp_all add: unlines_def)

lemma unlines_content: "ls \<noteq> [] \<Longrightarrow> unlines ls = content_text ls @ [CHR 0x0A]"
  unfolding content_text_def by (cases ls rule: rev_cases) (simp_all add: butlast_append)

lemma getlines_line: "CHR 0x0A \<notin> set l \<Longrightarrow> getlines a (l @ CHR 0x0A # t) = (a @ l) # getlines [] t"
  by (induction l arbitrary: a) auto

lemma getlines_unlines: "\<forall>l \<in> set ls. CHR 0x0A \<notin> set l \<Longrightarrow> getlines [] (unlines ls) = ls"
  by (induction ls) (simp_all add: getlines_line)

lemma skip3_id: "s = [] \<or> \<not> P (hd s) \<Longrightarrow> skip3 P s = s"
  by (cases s) (simp_all add: skip3_def)

lemma hashes:
  "takeWhile (\<lambda>c. c = CHR ''#'') (replicate k (CHR ''#'') @ '' '' @ s) = replicate k (CHR ''#'')"
  by (induction k) simp_all

lemma close_title_ok: "title_ok raw \<Longrightarrow> close_title raw = raw"
  by (simp add: close_title_def title_ok_def is_blank_def Let_def)

lemma heading_parse:
  assumes "title_ok raw" "1 \<le> k" "k \<le> 6"
  shows "parseHeadingLine (replicate k (CHR ''#'') @ '' '' @ raw) = Some (int k, raw, cleanHeadingText raw)"
proof -
  let ?l = "replicate k (CHR ''#'') @ '' '' @ raw"
  have "hd ?l = CHR ''#''" using assms(2) by (cases k) auto
  then have s: "skip3 (\<lambda>c. c = CHR '' '') ?l = ?l" by (simp add: skip3_id)
  have "dropWhile is_blank ('' '' @ raw) = raw"
    using assms(1) by (cases raw) (simp_all add: title_ok_def is_blank_def)
  then show ?thesis using assms(2,3)
    unfolding parseHeadingLine_def Let_def s hashes by (simp add: close_title_ok [OF assms(1)] is_blank_def)
qed

lemma heading_no_fence:
  assumes "1 \<le> k"
  shows "isInsideCodeFence (replicate k (CHR ''#'') @ s) inside marker = (inside, marker)"
proof -
  have "hd (replicate k (CHR ''#'') @ s) = CHR ''#''" using assms by (cases k) auto
  then have "skip3 is_blank (replicate k (CHR ''#'') @ s) = replicate k (CHR ''#'') @ s" "hd (replicate k (CHR ''#'') @ s) = CHR ''#''"
    by (simp_all add: skip3_id is_blank_def)
  then show ?thesis by (simp add: isInsideCodeFence_def Let_def)
qed

lemma blank_line [simp]: "isInsideCodeFence [] inside marker = (inside, marker)" "parseHeadingLine [] = None"
  by (simp_all add: isInsideCodeFence_def parseHeadingLine_def skip3_def)

section \<open>Running the importer\<close>

lemma md_lines_append: "md_lines (xs @ ys) s = (case md_lines xs s of None \<Rightarrow> None | Some s1 \<Rightarrow> md_lines ys s1)"
  by (induction xs arbitrary: s) (simp_all split: option.split)

lemma text_lines:
  "plain_lines ls \<Longrightarrow> outside (md_fence s) (md_marker s) ls
    \<Longrightarrow> md_lines ls s = Some (s\<lparr>md_buf := md_buf s @ unlines ls, md_fence := False, md_marker := []\<rparr>)"
proof (induction ls arbitrary: s)
  case (Cons l ls)
  have l: "(if l \<noteq> [] \<and> last l = CHR 0x0D then butlast l else l) = l" using Cons.prems(1) by (auto simp: plain_lines_def)
  obtain f m where f: "isInsideCodeFence l (md_fence s) (md_marker s) = (f, m)" by force
  let ?s = "s\<lparr>md_fence := f, md_marker := m, md_buf := md_buf s @ l @ [CHR 0x0A]\<rparr>"
  have p: "md_fence s \<or> f \<or> parseHeadingLine l = None" "outside f m ls" using Cons.prems(2) f by simp_all
  have "md_line l s = Some ?s" using p(1) f unfolding md_line_def l Let_def by auto
  moreover have "md_lines ls ?s = Some (?s\<lparr>md_buf := md_buf ?s @ unlines ls, md_fence := False, md_marker := []\<rparr>)"
    using Cons.prems(1) p(2) by (intro Cons.IH) (simp_all add: plain_lines_def)
  ultimately show ?case by simp
qed simp

definition flush_state :: "md_state \<Rightarrow> forest option" where
  "flush_state s = flushContent (md_current s) (md_buf s) (md_forest s)"

lemma trim_content: "text_lines_ok ls \<Longrightarrow> trimTrailingWhitespace (unlines (ls @ [''''])) = content_text ls"
proof (cases "ls = []")
  case False
  assume ok: "text_lines_ok ls"
  have "unlines (ls @ ['''']) = (content_text ls @ [CHR 0x0A]) @ [CHR 0x0A]" by (simp add: unlines_content [OF False])
  moreover have "trim_right P ((t @ [CHR 0x0A]) @ [CHR 0x0A]) = trim_right P t" if "P (CHR 0x0A)" for P t
    using that by (simp only: trim_right_snoc)
  ultimately show ?thesis using ok False by (simp add: trimTrailingWhitespace_def text_lines_ok_def del: unlines_simps)
qed (simp add: trimTrailingWhitespace_def trim_right_def content_text_def)

lemma flush_text:
  assumes "forest_ok st" "alive st n" "text_lines_ok ls"
  shows "\<exists>st'. flushContent n (unlines (ls @ [''''])) st = Some st' \<and> beside n st st' \<and> kids st' n = kids st n
    \<and> node_value st' n = (if ls = [] then node_value st n else text_value ls)"
proof (cases "ls = []")
  case True
  then show ?thesis using trim_content [OF assms(3)] beside_refl [OF assms(1)] by (simp add: flushContent_def content_text_def)
next
  case False
  then have "content_text ls \<noteq> []" using assms(3) by (simp add: text_lines_ok_def)
  then show ?thesis using False trim_content [OF assms(3)] set_value_beside [OF assms(1,2), of "VString (content_text ls)"]
    by (simp add: flushContent_def text_value_def)
qed

lemma append_with_spec:
  assumes ok: "forest_ok st" and n: "alive st n"
  shows "\<exists>st' c. append_with n nm v st = Some st' \<and> beside n st st' \<and> kids st' n = kids st n @ [c]
    \<and> shaped st' c (NT nm v []) \<and> node_value st' n = node_value st n"
proof -
  have "builds (\<lambda>c. set_value c v) (NT nm v [])"
    unfolding builds_def
  proof (intro allI impI)
    fix st c assume a: "forest_ok st" "alive st c" "kids st c = []"
    obtain st' where "set_value c v st = Some st'" "beside c st st'" "kids st' c = kids st c" "node_value st' c = v"
      using set_value_beside [OF a(1,2)] by blast
    then show "\<exists>st'. set_value c v st = Some st' \<and> beside c st st' \<and> shaped st' c (renamed (name_of st c) (NT nm v []))"
      using a by (auto simp: beside_def)
  qed
  from append_build [OF ok n this] show ?thesis by (auto simp: append_with_def)
qed

lemma pop_levels_to: "\<forall>e \<in> set E. k \<le> snd e \<Longrightarrow> pop_levels k (E @ (p, k - 1) # B) = (p, k - 1) # B"
proof (induction E)
  case Nil
  show ?case by (cases B) simp_all
next
  case (Cons e E)
  then show ?case by (cases E) simp_all
qed

lemma heading_spec:
  assumes "flush_state s = Some st1" "forest_ok st1" "alive st1 p" "pop_levels k (md_stack s) = (p, k - 1) # B"
  shows "\<exists>c st2. md_heading k raw (cleanHeadingText raw) s
      = Some (s\<lparr>md_stack := (c, k) # (p, k - 1) # B, md_current := c, md_buf := [], md_forest := st2\<rparr>)
    \<and> beside p st1 st2 \<and> \<not> alive st1 c \<and> alive st2 c \<and> kids st2 p = kids st1 p @ [c] \<and> name_of st2 c = cleanHeadingText raw
    \<and> node_value st2 c = VNone \<and> node_value st2 p = node_value st1 p \<and> list_all2 (shaped st2) (kids st2 c) (title_kids raw)"
proof -
  obtain c st2 where c: "append_node p (cleanHeadingText raw) 0 st1 = Some (Some c, st2)" "\<not> alive st1 c" "beside p st1 st2"
    "kids st2 p = kids st1 p @ [c]" "alive st2 c" "name_of st2 c = cleanHeadingText raw" "kids st2 c = []" "node_value st2 c = VNone"
    "node_value st2 p = node_value st1 p"
    using append_fresh [OF assms(2,3)] by metis
  have ok2: "forest_ok st2" and pc: "p \<noteq> c" using c(2,3) assms(3) by (auto simp: beside_def)
  obtain st3 where st3: "(if cleanHeadingText raw \<noteq> raw then append_with c ''_title'' (VString raw) st2 else Some st2) = Some st3"
    "beside c st2 st3" "list_all2 (shaped st3) (kids st3 c) (title_kids raw)" "node_value st3 c = VNone"
  proof (cases "cleanHeadingText raw = raw")
    case True
    then show ?thesis using that [of st2] c(7,8) beside_refl [OF ok2] by (simp add: title_kids_def)
  next
    case False
    then show ?thesis using that append_with_spec [OF ok2 c(5), of "''_title''" "VString raw"] c(7,8)
      by (auto simp: title_kids_def)
  qed
  have "md_heading k raw (cleanHeadingText raw) s
      = Some (s\<lparr>md_stack := (c, k) # (p, k - 1) # B, md_current := c, md_buf := [], md_forest := st3\<rparr>)"
    using assms(1,4) c(1) st3(1) by (simp add: md_heading_def flush_state_def)
  moreover have "beside p st1 st3" by (rule beside_inner [OF c(3) st3(2) c(2)])
  ultimately show ?thesis using c st3 pc assms(3)
    by (intro exI [of _ c] exI [of _ st3]) (auto simp: beside_def)
qed

section \<open>Sections\<close>

text \<open>Lines that, read while the section of \<open>p\<close> is open, add subtrees to it. What is still in the
  buffer counts as written.\<close>

definition ready :: "md_state \<Rightarrow> int \<Rightarrow> nid \<Rightarrow> (nid \<times> int) list \<Rightarrow> forest \<Rightarrow> bool" where
  "ready s k p B st \<longleftrightarrow> \<not> md_fence s \<and> md_marker s = [] \<and> flush_state s = Some st \<and> forest_ok st \<and> alive st p
     \<and> (\<exists>E. md_stack s = E @ (p, k - 1) # B \<and> (\<forall>e \<in> set E. k \<le> snd e))"

definition adds :: "int \<Rightarrow> string list \<Rightarrow> ntree list \<Rightarrow> bool" where
  "adds k ls ts \<longleftrightarrow> (\<forall>s p B st. ready s k p B st \<longrightarrow> (\<exists>s' st' cs. md_lines ls s = Some s' \<and> ready s' k p B st' \<and> beside p st st'
     \<and> kids st' p = kids st p @ cs \<and> list_all2 (shaped st') cs ts \<and> node_value st' p = node_value st p))"

lemma adds_nil: "adds k [] []"
  unfolding adds_def by (auto simp: ready_def beside_refl)

lemma adds_append:
  assumes "adds k xs ts" "adds k ys us"
  shows "adds k (xs @ ys) (ts @ us)"
  unfolding adds_def
proof (intro allI impI)
  fix s p B st assume r: "ready s k p B st"
  obtain s1 st1 cs where 1: "md_lines xs s = Some s1" "ready s1 k p B st1" "beside p st st1" "kids st1 p = kids st p @ cs"
    "list_all2 (shaped st1) cs ts" "node_value st1 p = node_value st p" using assms(1) r unfolding adds_def by metis
  obtain s2 st2 ds where 2: "md_lines ys s1 = Some s2" "ready s2 k p B st2" "beside p st1 st2" "kids st2 p = kids st1 p @ ds"
    "list_all2 (shaped st2) ds us" "node_value st2 p = node_value st1 p" using assms(2) 1(2) unfolding adds_def by metis
  have "list_all2 (shaped st2) cs ts"
    using kids_shape [OF _ _ _ 2(3) 1(5)] 1(2,4) by (auto simp: ready_def)
  then have "list_all2 (shaped st2) (cs @ ds) (ts @ us)" using 2(5) by (rule list_all2_appendI)
  then show "\<exists>s' st' cs. md_lines (xs @ ys) s = Some s' \<and> ready s' k p B st' \<and> beside p st st'
     \<and> kids st' p = kids st p @ cs \<and> list_all2 (shaped st') cs (ts @ us) \<and> node_value st' p = node_value st p"
    using 1 2 beside_trans [OF 1(3) 2(3)] by (intro exI [of _ s2] exI [of _ st2] exI [of _ "cs @ ds"]) (simp add: md_lines_append)
qed

lemma adds_section:
  assumes sub: "adds (int (Suc k)) ys ts" and ok: "1 \<le> k" "k \<le> 6" "title_ok raw" "text_lines_ok ls"
  shows "adds (int k) ((replicate k (CHR ''#'') @ '' '' @ raw) # ls @ [''''] @ ys)
    [NT (cleanHeadingText raw) (text_value ls) (title_kids raw @ ts)]"
  unfolding adds_def
proof (intro allI impI)
  fix s p B st assume r: "ready s (int k) p B st"
  obtain E where E: "md_stack s = E @ (p, int k - 1) # B" "\<forall>e \<in> set E. int k \<le> snd e" using r by (auto simp: ready_def)
  have rs: "\<not> md_fence s" "md_marker s = []" "flush_state s = Some st" "forest_ok st" "alive st p" using r by (simp_all add: ready_def)
  let ?h = "replicate k (CHR ''#'') @ '' '' @ raw"
  obtain c st2 where c: "md_heading (int k) raw (cleanHeadingText raw) s
      = Some (s\<lparr>md_stack := (c, int k) # (p, int k - 1) # B, md_current := c, md_buf := [], md_forest := st2\<rparr>)"
    "beside p st st2" "\<not> alive st c" "alive st2 c" "kids st2 p = kids st p @ [c]" "name_of st2 c = cleanHeadingText raw"
    "node_value st2 c = VNone" "node_value st2 p = node_value st p" "list_all2 (shaped st2) (kids st2 c) (title_kids raw)"
    using heading_spec [OF rs(3-5), of "int k" B raw] pop_levels_to [OF E(2)] E(1) by auto
  define s1 where "s1 = s\<lparr>md_stack := (c, int k) # (p, int k - 1) # B, md_current := c, md_buf := [], md_forest := st2\<rparr>"
  have ok2: "forest_ok st2" and pc: "p \<noteq> c" using c(2,3) rs(5) by (auto simp: beside_def)
  have "(if ?h \<noteq> [] \<and> last ?h = CHR 0x0D then butlast ?h else ?h) = ?h" using ok(3) by (auto simp: title_ok_def)
  moreover have "s\<lparr>md_fence := False, md_marker := []\<rparr> = s" using rs(1,2) by simp
  then have "md_heading (int k) raw (cleanHeadingText raw) (s\<lparr>md_fence := False, md_marker := []\<rparr>) = Some s1"
    using c(1) unfolding s1_def by (simp only:)
  ultimately have h: "md_line ?h s = Some s1"
    using heading_parse [OF ok(3,1,2)] heading_no_fence [OF ok(1), of "'' '' @ raw" False "[]"] rs(1,2)
    unfolding md_line_def Let_def by simp
  define s2 where "s2 = s1\<lparr>md_buf := unlines (ls @ [''''])\<rparr>"
  have tl: "plain_lines (ls @ [''''])" "outside False [] (ls @ [''''])"
  proof -
    have "outside f m xs \<Longrightarrow> outside f m (xs @ [''''])" for f m xs by (induction f m xs rule: outside.induct) auto
    then show "plain_lines (ls @ [''''])" "outside False [] (ls @ [''''])" using ok(4) by (auto simp: text_lines_ok_def plain_lines_def)
  qed
  have s1f: "md_fence s1 = False" "md_marker s1 = []" "md_buf s1 = []" using rs(1,2) by (simp_all add: s1_def)
  have "s1\<lparr>md_buf := md_buf s1 @ unlines (ls @ ['''']), md_fence := False, md_marker := []\<rparr> = s2"
    unfolding s2_def using s1f by simp
  then have t: "md_lines (ls @ ['''']) s1 = Some s2" using text_lines [OF tl(1), of s1] tl(2) s1f by simp
  obtain st3 where st3: "flushContent c (unlines (ls @ [''''])) st2 = Some st3" "beside c st2 st3" "kids st3 c = kids st2 c"
    "node_value st3 c = text_value ls"
    using flush_text [OF ok2 c(4) ok(4)] c(7) by (auto simp: text_value_def split: if_splits)
  have ok3: "forest_ok st3" "alive st3 c" using st3(2) c(4) by (simp_all add: beside_def)
  have "ready s2 (int (Suc k)) c ((p, int k - 1) # B) st3"
    using st3(1) ok3 s1f unfolding ready_def flush_state_def by (simp add: s2_def s1_def)
  then obtain s4 st4 cs where 4: "md_lines ys s2 = Some s4" "ready s4 (int (Suc k)) c ((p, int k - 1) # B) st4" "beside c st3 st4"
    "kids st4 c = kids st3 c @ cs" "list_all2 (shaped st4) cs ts" "node_value st4 c = node_value st3 c"
    using sub unfolding adds_def by metis
  have b: "beside c st2 st4" by (rule beside_trans [OF st3(2) 4(3)])
  have bp: "beside p st st4" by (rule beside_inner [OF c(2) b c(3)])
  have "list_all2 (shaped st4) (kids st2 c) (title_kids raw)" by (rule kids_shape [OF ok2 c(4) subset_refl b c(9)])
  then have "shaped st4 c (NT (cleanHeadingText raw) (text_value ls) (title_kids raw @ ts))"
    using b c(4,6) 4(4-6) st3(3,4) by (auto simp: beside_def intro: list_all2_appendI)
  moreover have "kids st4 p = kids st p @ [c]" "node_value st4 p = node_value st p"
    using b pc c(5,8) c(2) rs(5) by (simp_all add: beside_def)
  moreover have "ready s4 (int k) p B st4"
  proof -
    obtain E' where "md_stack s4 = E' @ (c, int k) # (p, int k - 1) # B" "\<forall>e \<in> set E'. int (Suc k) \<le> snd e"
      using 4(2) by (auto simp: ready_def)
    then have "md_stack s4 = (E' @ [(c, int k)]) @ (p, int k - 1) # B" "\<forall>e \<in> set (E' @ [(c, int k)]). int k \<le> snd e" by auto
    then show ?thesis using 4(2) bp rs(5) unfolding ready_def beside_def by blast
  qed
  moreover have "md_lines (?h # ls @ [''''] @ ys) s = Some s4"
    using h t 4(1) md_lines_append [of "ls @ ['''']" ys s1] by simp
  ultimately show "\<exists>s' st' cs. md_lines (?h # ls @ [''''] @ ys) s = Some s' \<and> ready s' (int k) p B st' \<and> beside p st st'
     \<and> kids st' p = kids st p @ cs \<and> list_all2 (shaped st') cs [NT (cleanHeadingText raw) (text_value ls) (title_kids raw @ ts)]
     \<and> node_value st' p = node_value st p"
    using bp by (intro exI [of _ s4] exI [of _ st4] exI [of _ "[c]"]) simp
qed

lemma adds_concat: "(\<And>s. s \<in> set ss \<Longrightarrow> adds k (f s) [g s]) \<Longrightarrow> adds k (concat (map f ss)) (map g ss)"
proof (induction ss)
  case (Cons s ss)
  then show ?case using adds_append [of k "f s" "[g s]" "concat (map f ss)" "map g ss"] by simp
qed (simp add: adds_nil)

lemma section_adds: "1 \<le> k \<Longrightarrow> section_ok k s \<Longrightarrow> adds (int k) (section_lines k s) [section_tree s]"
proof (induction s arbitrary: k)
  case (Section raw ls subs)
  have "adds (int (Suc k)) (concat (map (section_lines (Suc k)) subs)) (map section_tree subs)"
    by (rule adds_concat, rule Section.IH) (use Section.prems in auto)
  from adds_section [OF this] show ?case using Section.prems by simp
qed

section \<open>Reading sections off the tree\<close>

lemma clean_no_mark: "c \<in> {CHR ''_'', CHR ''#''} \<Longrightarrow> c \<notin> set (cleanHeadingText s)"
proof
  assume c: "c \<in> {CHR ''_'', CHR ''#''}" "c \<in> set (cleanHeadingText s)"
  have "set (trim_right P t) \<subseteq> set t" for P t by (auto simp: trim_right_def dest: set_dropWhileD)
  then have "c \<in> set (concat (map clean_char s))" using c(2) set_dropWhileD unfolding cleanHeadingText_def by fast
  then obtain d where "c \<in> set (clean_char d)" by auto
  then show False using c(1) by (auto simp: clean_char_def split: if_splits)
qed

lemma clean_strip: "stripNodeNameSuffix (cleanHeadingText s) = cleanHeadingText s"
  using clean_no_mark [of "CHR ''#''" s] by (auto simp: stripNodeNameSuffix_def takeWhile_eq_all_conv)

lemma clean_visible: "cleanHeadingText s \<noteq> CHR ''_'' # t"
  using clean_no_mark [of "CHR ''_''" s] by auto

lemma section_name: "\<exists>s. tree_name (section_tree x) = cleanHeadingText s"
  by (cases x) auto

definition md_kids :: "forest \<Rightarrow> nid \<Rightarrow> nid list \<Rightarrow> nid list \<Rightarrow> string \<Rightarrow> md_section list \<Rightarrow> bool" where
  "md_kids st n as cs raw ss \<longleftrightarrow> kids st n = as @ cs \<and> list_all2 (shaped st) as (title_kids raw)
     \<and> list_all2 (shaped st) cs (map section_tree ss)"

lemma section_kid_names:
  assumes "list_all2 (shaped st) cs (map section_tree ss)"
  shows "filter (\<lambda>c. \<not> hidden_child st c) cs = cs" "filter (\<lambda>c. name_of st c = CHR ''_'' # t) cs = []"
proof -
  have "name_of st c \<noteq> CHR ''_'' # u" if "c \<in> set cs" for c u
  proof -
    have "name_of st c \<in> set (map tree_name (map section_tree ss))"
      using that list_all2_shaped_names [OF assms] by (metis image_eqI list.set_map)
    then obtain x where "name_of st c = tree_name (section_tree x)" by auto
    then show ?thesis using section_name [of x] clean_visible by metis
  qed
  then show "filter (\<lambda>c. \<not> hidden_child st c) cs = cs" "filter (\<lambda>c. name_of st c = CHR ''_'' # t) cs = []"
    by (auto simp: filter_id_conv filter_empty_conv hidden_child_def neq_Nil_conv)
qed

lemma md_kids_names:
  assumes "md_kids st n as cs raw ss"
  shows "filter (\<lambda>c. \<not> hidden_child st c) (kids st n) = cs" "named_kids st n ''_level'' = []"
    "named_kids st n ''_title'' = as" "as = [] \<longleftrightarrow> cleanHeadingText raw = raw"
    "\<And>a bs. as = a # bs \<Longrightarrow> node_value st a = VString raw"
proof -
  have a: "as = [] \<and> cleanHeadingText raw = raw
      \<or> (\<exists>a. as = [a] \<and> name_of st a = ''_title'' \<and> node_value st a = VString raw \<and> cleanHeadingText raw \<noteq> raw)"
    using assms by (auto simp: md_kids_def title_kids_def list_all2_Cons2 split: if_splits)
  have k: "kids st n = as @ cs" "list_all2 (shaped st) cs (map section_tree ss)" using assms by (simp_all add: md_kids_def)
  show "filter (\<lambda>c. \<not> hidden_child st c) (kids st n) = cs" "named_kids st n ''_level'' = []" "named_kids st n ''_title'' = as"
    using a section_kid_names [OF k(2)] by (auto simp: k(1) named_kids_def hidden_child_def)
  show "as = [] \<longleftrightarrow> cleanHeadingText raw = raw" "\<And>a bs. as = a # bs \<Longrightarrow> node_value st a = VString raw" using a by auto
qed

lemma find_field:
  assumes "forest_ok st" "plain st" "alive st n" "nm \<noteq> []" "VE_NODE_PATH_SEP \<notin> set nm" "VE_NODE_KEY_SEP \<notin> set nm"
  shows "find_path st n nm True VE_NODE_PATH_SEP VE_NODE_KEY_SEP = Some (case named_kids st n nm of [] \<Rightarrow> None | c # _ \<Rightarrow> Some c)"
  using find_simple [OF assms(1,3-6)] find_path_plain [OF assms(2,1,3), of nm True] by simp

lemma content_written: "text_lines_ok ls \<Longrightarrow> md_content cust (text_value ls) = unlines ls"
  using unlines_content [of ls] by (auto simp: md_content_def text_value_def isNull_def text_lines_ok_def)

lemma those_all: "list_all2 (\<lambda>c s. f c = Some (g s)) cs ss \<Longrightarrow> those (map f cs) = Some (map g ss)"
  by (induction rule: list_all2_induct) auto

lemma unlines_concat: "unlines (concat lss) = concat (map unlines lss)"
  by (induction lss) simp_all

lemma export_section:
  assumes ok: "forest_ok st" "plain st"
  shows "section_ok k s \<Longrightarrow> 1 \<le> k \<Longrightarrow> shaped st n (section_tree s) \<Longrightarrow> height (section_tree s) \<le> fuel
    \<Longrightarrow> exportNodeRecursive fuel cust st (int k - 1) n = Some (unlines (section_lines k s))"
proof (induction fuel arbitrary: k s n)
  case 0
  then show ?case by (cases s) simp
next
  case (Suc fuel)
  obtain raw ls subs where s: "s = Section raw ls subs" by (cases s)
  have sok: "k \<le> 6" "title_ok raw" "text_lines_ok ls" "\<And>x. x \<in> set subs \<Longrightarrow> section_ok (Suc k) x"
    using Suc.prems(1) s by simp_all
  have n: "alive st n" "name_of st n = cleanHeadingText raw" "node_value st n = text_value ls"
    "list_all2 (shaped st) (kids st n) (title_kids raw @ map section_tree subs)"
    using Suc.prems(3) s by simp_all
  obtain as cs where k: "md_kids st n as cs raw subs"
    using n(4) unfolding list_all2_append2 md_kids_def by blast
  note names = md_kids_names [OF k]
  have lv: "find_path st n ''_level'' True VE_NODE_PATH_SEP VE_NODE_KEY_SEP = Some None"
    "find_path st n ''_title'' True VE_NODE_PATH_SEP VE_NODE_KEY_SEP = Some (case as of [] \<Rightarrow> None | a # _ \<Rightarrow> Some a)"
    using find_field [OF ok n(1)] names(2,3) by (simp_all add: VE_NODE_PATH_SEP_def VE_NODE_KEY_SEP_def)
  have title: "(case (case as of [] \<Rightarrow> None | a # _ \<Rightarrow> Some a) of Some c \<Rightarrow> var_text cust [] (node_value st c)
      | None \<Rightarrow> stripNodeNameSuffix (name_of st n)) = raw"
    using names(4,5) n(2) clean_strip [of raw] by (auto split: list.splits)
  have "exportNodeRecursive fuel cust st (int k) c = Some (unlines (section_lines (Suc k) x))"
    if x: "x \<in> set subs" "shaped st c (section_tree x)" for c x
  proof -
    have "height (section_tree x) < height (section_tree s)" using x(1) s height_kid [of "section_tree x" "title_kids raw @ map section_tree subs"] by simp
    then show ?thesis using Suc.IH [OF sok(4) [OF x(1)] _ x(2)] Suc.prems(4) by simp
  qed
  then have "list_all2 (\<lambda>c x. exportNodeRecursive fuel cust st (int k) c = Some (unlines (section_lines (Suc k) x))) cs subs"
    using k by (auto simp: md_kids_def list_all2_map2 intro: list.rel_mono_strong)
  from those_all [OF this] have subs: "those (map (exportNodeRecursive fuel cust st (int k)) cs)
      = Some (map (\<lambda>x. unlines (section_lines (Suc k) x)) subs)" .
  have "unlines (section_lines k s) = replicate k (CHR ''#'') @ '' '' @ raw @ [CHR 0x0A] @ unlines ls @ [CHR 0x0A]
      @ concat (map (\<lambda>x. unlines (section_lines (Suc k) x)) subs)"
    by (simp add: s unlines_concat comp_def)
  then show ?case
    using lv title subs names(1) sok(1,2) Suc.prems(2) content_written [OF sok(3), of cust] n(3)
    by (simp add: title_ok_def)
qed

section \<open>Round trip\<close>

lemma export_document:
  assumes "forest_ok st" "plain st" "alive st n" "shaped st n (NT nm (text_value pre) (map section_tree ss))"
    and "text_lines_ok pre" "\<forall>s \<in> set ss. section_ok 1 s"
  shows "exportTree_md cust (Some n) st
    = Some (unlines ((if pre = [] then [] else pre @ ['''']) @ concat (map (section_lines 1) ss)))"
proof -
  have k: "list_all2 (shaped st) (kids st n) (map section_tree ss)" and v: "node_value st n = text_value pre"
    using assms(4) by simp_all
  note names = section_kid_names [OF k]
  have lv: "find_path st n ''_level'' True VE_NODE_PATH_SEP VE_NODE_KEY_SEP = Some None"
    using find_field [OF assms(1-3), of "''_level''"] names(2) by (simp add: named_kids_def VE_NODE_PATH_SEP_def VE_NODE_KEY_SEP_def)
  obtain t where t: "shaped st n t" "height t \<le> card (dset st n)" using shape_exists [OF assms(1,3)] by blast
  have h: "height (NT nm (text_value pre) (map section_tree ss)) \<le> next_id st + 1"
    using t(2) card_dset_le [OF assms(1,3)] shaped_unique [OF t(1) assms(4)] by simp
  have "exportNodeRecursive (next_id st + 1) cust st 0 c = Some (unlines (section_lines 1 x))"
    if x: "x \<in> set ss" "shaped st c (section_tree x)" for c x
  proof -
    have "height (section_tree x) \<le> next_id st + 1" using height_kid [of "section_tree x" "map section_tree ss" nm "text_value pre"] x(1) h by simp
    then show ?thesis using export_section [OF assms(1,2), of 1 x c "next_id st + 1" cust] assms(6) x by simp
  qed
  then have "list_all2 (\<lambda>c x. exportNodeRecursive (next_id st + 1) cust st 0 c = Some (unlines (section_lines 1 x))) (kids st n) ss"
    using k by (auto simp: list_all2_map2 intro: list.rel_mono_strong)
  from those_all [OF this] have subs: "those (map (exportNodeRecursive (next_id st + 1) cust st 0) (kids st n))
      = Some (map (\<lambda>x. unlines (section_lines 1 x)) ss)" .
  have "unlines pre = [] \<longleftrightarrow> pre = []" by (cases pre) simp_all
  then show ?thesis
    using lv subs names(1) content_written [OF assms(5), of cust] v
    by (simp add: exportTree_md_def unlines_concat comp_def del: exportNodeRecursive.simps)
qed

lemma section_lines_plain: "section_ok k s \<Longrightarrow> \<forall>l \<in> set (section_lines k s). CHR 0x0A \<notin> set l"
  by (induction s arbitrary: k) (auto simp: title_ok_def text_lines_ok_def plain_lines_def)

lemma outside_blank: "outside f m xs \<Longrightarrow> outside f m (xs @ [''''])"
  by (induction f m xs rule: outside.induct) auto

lemma import_document:
  assumes "forest_ok st" "alive st n" "kids st n = []" "node_value st n = VNone"
    and "text_lines_ok pre" "\<forall>s \<in> set ss. section_ok 1 s"
  shows "\<exists>st'. importDirect n (unlines ((if pre = [] then [] else pre @ ['''']) @ concat (map (section_lines 1) ss))) st = Some st'
    \<and> beside n st st' \<and> shaped st' n (NT (name_of st n) (text_value pre) (map section_tree ss))"
proof -
  let ?pre = "if pre = [] then [] else pre @ ['''']" and ?ss = "concat (map (section_lines 1) ss)"
  let ?s0 = "\<lparr>md_stack = [(n, 0)], md_current = n, md_buf = [], md_fence = False, md_marker = [], md_forest = st\<rparr>"
  have lf: "getlines [] (unlines (?pre @ ?ss)) = ?pre @ ?ss"
    by (rule getlines_unlines) (use assms(5,6) section_lines_plain in \<open>auto simp: text_lines_ok_def plain_lines_def\<close>)
  obtain s1 st1 where s1: "md_lines ?pre ?s0 = Some s1" "ready s1 1 n [] st1" "beside n st st1" "kids st1 n = []"
    "node_value st1 n = text_value pre"
  proof (cases "pre = []")
    case True
    then show ?thesis using that [of ?s0 st] assms(1-4) beside_refl [OF assms(1)]
      by (auto simp: ready_def flush_state_def flushContent_def trimTrailingWhitespace_def text_value_def)
  next
    case False
    have o: "plain_lines (pre @ [''''])" "outside False [] (pre @ [''''])"
      using assms(5) outside_blank by (auto simp: text_lines_ok_def plain_lines_def)
    define s1 where "s1 = ?s0\<lparr>md_buf := unlines (pre @ [''''])\<rparr>"
    have m: "md_lines (pre @ ['''']) ?s0 = Some s1" using text_lines [OF o(1), of ?s0] o(2) by (simp add: s1_def)
    obtain st1 where f: "flushContent n (unlines (pre @ [''''])) st = Some st1" "beside n st st1" "kids st1 n = kids st n"
      "node_value st1 n = text_value pre" using flush_text [OF assms(1,2,5)] False by auto
    have "ready s1 1 n [] st1" using f(1,2) assms(2) by (auto simp: ready_def flush_state_def s1_def beside_def)
    then show ?thesis using that m f False assms(3) by simp
  qed
  have "adds 1 ?ss (map section_tree ss)"
    using adds_concat [of ss 1 "section_lines 1" section_tree] section_adds [of 1] assms(6) by simp
  then obtain s2 st2 cs where s2: "md_lines ?ss s1 = Some s2" "ready s2 1 n [] st2" "beside n st1 st2" "kids st2 n = kids st1 n @ cs"
    "list_all2 (shaped st2) cs (map section_tree ss)" "node_value st2 n = node_value st1 n"
    using s1(2) unfolding adds_def by metis
  have "importDirect n (unlines (?pre @ ?ss)) st = Some st2"
    using lf s1(1) s2(1,2) md_lines_append [of ?pre ?ss ?s0] by (simp add: importDirect_def ready_def flush_state_def)
  moreover have b: "beside n st st2" by (rule beside_trans [OF s1(3) s2(3)])
  ultimately show ?thesis using s1 s2 assms(2) by (auto simp: beside_def)
qed

text \<open>C10: Markdown round trip. Exporting a tree of sections, at most six deep, with any titles that are
  one line without blanks or hashes at the ends and any texts without loose headings, open code fences
  or trailing blanks, and importing the text into a node without value and children, of the same
  forest or another, gives the same tree below it: the titles with their marks (in \<open>_title\<close>), the
  cleaned names, the texts and the nesting. No other node is touched.\<close>

theorem md_tree_roundtrip:
  assumes "forest_ok st" "plain st" "alive st n" "shaped st n (NT nm (text_value pre) (map section_tree ss))"
    and "text_lines_ok pre" "\<forall>s \<in> set ss. section_ok 1 s"
    and "forest_ok st2" "alive st2 m" "kids st2 m = []" "node_value st2 m = VNone"
  shows "\<exists>md st'. exportTree_md cust (Some n) st = Some md \<and> importTree_md (Some m) md st2 = Some (md \<noteq> [], st')
    \<and> shaped st' m (NT (name_of st2 m) (text_value pre) (map section_tree ss)) \<and> beside m st2 st'"
proof -
  let ?md = "unlines ((if pre = [] then [] else pre @ ['''']) @ concat (map (section_lines 1) ss))"
  obtain st' where st': "importDirect m ?md st2 = Some st'" "beside m st2 st'"
    "shaped st' m (NT (name_of st2 m) (text_value pre) (map section_tree ss))"
    using import_document [OF assms(7-10,5,6)] by blast
  have "importDirect m [] st2 = Some st2" by (simp add: importDirect_def flushContent_def trimTrailingWhitespace_def)
  then have "?md = [] \<Longrightarrow> st' = st2" using st'(1) by simp
  then show ?thesis using export_document [OF assms(1-6), of cust] st' by (auto simp: importTree_md_def)
qed

section \<open>Any text\<close>

text \<open>What is open is the target or was made by the import.\<close>

definition md_sound :: "nid \<Rightarrow> forest \<Rightarrow> md_state \<Rightarrow> bool" where
  "md_sound n st s \<longleftrightarrow> beside n st (md_forest s) \<and> md_stack s \<noteq> []
     \<and> (\<forall>c \<in> insert (md_current s) (fst ` set (md_stack s)). alive (md_forest s) c \<and> (c = n \<or> \<not> alive st c))"

lemma beside_within: "beside n a b \<Longrightarrow> beside c b d \<Longrightarrow> c = n \<or> \<not> alive a c \<Longrightarrow> beside n a d"
  using beside_inner beside_trans by blast

lemma pop_levels_set: "es \<noteq> [] \<Longrightarrow> pop_levels k es \<noteq> [] \<and> set (pop_levels k es) \<subseteq> set es"
  by (induction k es rule: pop_levels.induct) auto

lemma flush_any:
  assumes "forest_ok st" "alive st c"
  shows "\<exists>st'. flushContent c t st = Some st' \<and> beside c st st'"
  using set_value_beside [OF assms] beside_refl [OF assms(1)] by (auto simp: flushContent_def Let_def)

lemma heading_sound:
  assumes s: "md_sound n st s"
  shows "\<exists>s'. md_heading level raw nm s = Some s' \<and> md_sound n st s'"
proof -
  have b: "beside n st (md_forest s)" and ok: "forest_ok (md_forest s)" using s by (simp_all add: md_sound_def beside_def)
  have cur: "alive (md_forest s) (md_current s)" "md_current s = n \<or> \<not> alive st (md_current s)" using s by (auto simp: md_sound_def)
  obtain st1 where st1: "flushContent (md_current s) (md_buf s) (md_forest s) = Some st1" "beside (md_current s) (md_forest s) st1"
    using flush_any [OF ok cur(1)] by blast
  have b1: "beside n st st1" by (rule beside_within [OF b st1(2) cur(2)])
  define stack where "stack = pop_levels level (md_stack s)"
  have stk: "stack \<noteq> []" "set stack \<subseteq> set (md_stack s)" using pop_levels_set s unfolding stack_def by (auto simp: md_sound_def)
  obtain p pl where p: "hd stack = (p, pl)" by force
  have "(p, pl) \<in> set (md_stack s)" using p stk hd_in_set [OF stk(1)] by auto
  then have pa: "alive st1 p" "p = n \<or> \<not> alive st p" using s st1(2) by (auto simp: md_sound_def beside_def)
  have ok1: "forest_ok st1" using b1 by (simp add: beside_def)
  obtain c st2 where c: "append_node p nm 0 st1 = Some (Some c, st2)" "\<not> alive st1 c" "beside p st1 st2" "alive st2 c"
    using append_fresh [OF ok1 pa(1)] by metis
  have b2: "beside n st st2" by (rule beside_within [OF b1 c(3) pa(2)])
  have cn: "\<not> alive st c" using b1 c(2) by (auto simp: beside_def)
  have field: "\<exists>st'. (if b then append_with c k v st0 else Some st0) = Some st' \<and> beside n st st' \<and> beside c st0 st'"
    if "beside n st st0" "alive st0 c" for b k v st0
  proof (cases b)
    case True
    have "forest_ok st0" using that(1) by (simp add: beside_def)
    then show ?thesis using True append_with_spec [OF _ that(2), of k v] beside_within [OF that(1)] cn by auto
  qed (use that beside_refl in \<open>auto simp: beside_def\<close>)
  obtain st3 where st3: "(if nm \<noteq> raw then append_with c ''_title'' (VString raw) st2 else Some st2) = Some st3"
    "beside n st st3" "beside c st2 st3" using field [OF b2 c(4)] by blast
  have c3: "alive st3 c" using st3(3) c(4) by (simp add: beside_def)
  obtain st4 where st4: "(if level \<noteq> pl + 1 then append_with c ''_level'' (VInt (of_int level)) st3 else Some st3) = Some st4"
    "beside n st st4" "beside c st3 st4" using field [OF st3(2) c3] by blast
  define s' where "s' = s\<lparr>md_stack := (c, level) # stack, md_current := c, md_buf := [], md_forest := st4\<rparr>"
  have h: "md_heading level raw nm s = Some s'"
    using st1(1) p c(1) st3(1) st4(1) unfolding md_heading_def stack_def [symmetric] Let_def by (simp add: s'_def)
  have "alive (md_forest s) m \<Longrightarrow> alive st4 m" for m using st1(2) c(3) st3(3) st4(3) by (simp add: beside_def)
  then have "alive st4 m \<and> (m = n \<or> \<not> alive st m)" if "m \<in> fst ` set stack" for m
    using that s stk(2) unfolding md_sound_def by blast
  moreover have "alive st4 c" using st4(3) c3 by (simp add: beside_def)
  ultimately have "md_sound n st s'" using st4(2) cn unfolding md_sound_def s'_def by auto
  then show ?thesis using h by blast
qed

lemma line_sound:
  assumes "md_sound n st s"
  shows "\<exists>s'. md_line l s = Some s' \<and> md_sound n st s'"
proof -
  have [simp]: "md_sound n st (s\<lparr>md_fence := f\<rparr>) = md_sound n st s" "md_sound n st (s\<lparr>md_marker := m\<rparr>) = md_sound n st s"
    "md_sound n st (s\<lparr>md_buf := b\<rparr>) = md_sound n st s" for f m b s
    by (simp_all add: md_sound_def)
  show ?thesis using assms heading_sound unfolding md_line_def Let_def by (auto split: prod.splits option.splits)
qed

lemma lines_sound: "md_sound n st s \<Longrightarrow> \<exists>s'. md_lines ls s = Some s' \<and> md_sound n st s'"
proof (induction ls arbitrary: s)
  case (Cons l ls)
  obtain s1 where "md_line l s = Some s1" "md_sound n st s1" using line_sound [OF Cons.prems] by blast
  then show ?case using Cons.IH by simp
qed simp

text \<open>C11: No text makes the Markdown importer fail: whatever the headings, levels, fences and bytes, the
  import into a node returns true (false for the empty text), leaves the forest well-formed and touches
  nothing outside the node but the nodes it makes.\<close>

theorem md_import_any:
  assumes "forest_ok st" "alive st n"
  shows "\<exists>st'. importTree_md (Some n) md st = Some (md \<noteq> [], st') \<and> beside n st st'"
proof -
  let ?s0 = "\<lparr>md_stack = [(n, 0)], md_current = n, md_buf = [], md_fence = False, md_marker = [], md_forest = st\<rparr>"
  have "md_sound n st ?s0" using assms beside_refl by (simp add: md_sound_def)
  then obtain s where s: "md_lines (getlines [] md) ?s0 = Some s" "md_sound n st s" using lines_sound by blast
  have "forest_ok (md_forest s)" "alive (md_forest s) (md_current s)" using s(2) by (auto simp: md_sound_def beside_def)
  then obtain st' where st': "flushContent (md_current s) (md_buf s) (md_forest s) = Some st'" "beside (md_current s) (md_forest s) st'"
    using flush_any by blast
  have "beside n st st'" using s(2) st'(2) beside_within by (auto simp: md_sound_def)
  then show ?thesis using s(1) st'(1) beside_refl [OF assms(1)] by (simp add: importTree_md_def importDirect_def)
qed

section \<open>Examples\<close>

lemma demo_document:
  "shaped demo 0 (NT [] (text_value []) (map section_tree [Section ''robot'' [] [Section ''arm'' [] [], Section ''arm'' [] []]]))"
  "section_ok 1 (Section ''robot'' [] [Section ''arm'' [] [], Section ''arm'' [] []])"
proof -
  have c: "cleanHeadingText ''robot'' = ''robot''" "cleanHeadingText ''arm'' = ''arm''"
    by (simp_all add: cleanHeadingText_def clean_char_def trim_right_def)
  then show "shaped demo 0 (NT [] (text_value []) (map section_tree [Section ''robot'' [] [Section ''arm'' [] [], Section ''arm'' [] []]]))"
    using demo_kids demo_name demo_alive by (simp add: text_value_def title_kids_def node_value_def demo_obj demo_node_def)
  show "section_ok 1 (Section ''robot'' [] [Section ''arm'' [] [], Section ''arm'' [] []])"
    by (simp add: title_ok_def text_lines_ok_def plain_lines_def is_blank_def)
qed

theorem md_tree_roundtrip_witness:
  "\<exists>md st'. exportTree_md (\<lambda>_. []) (Some 0) demo = Some md \<and> importTree_md (Some 4) md demo = Some (md \<noteq> [], st')
    \<and> shaped st' 4 (NT ''arm'' VNone [NT ''robot'' VNone [NT ''arm'' VNone [], NT ''arm'' VNone []]])"
proof -
  have c: "cleanHeadingText ''robot'' = ''robot''" "cleanHeadingText ''arm'' = ''arm''"
    by (simp_all add: cleanHeadingText_def clean_char_def trim_right_def)
  have t: "text_lines_ok []" by (simp add: text_lines_ok_def plain_lines_def)
  have "node_value demo 4 = VNone" by (simp add: node_value_def demo_obj demo_node_def)
  from md_tree_roundtrip [OF demo_ok demo_plain demo_alive(1) demo_document(1) t _ demo_ok demo_alive(4) demo_kids(4) this, of "\<lambda>_. []"]
  show ?thesis using demo_document(2) demo_name c by (simp add: text_value_def title_kids_def) blast
qed

theorem md_import_any_witness:
  "\<exists>st'. importTree_md (Some 4) ''## a ##'' demo = Some (True, st') \<and> beside 4 demo st'"
  using md_import_any [OF demo_ok demo_alive(4), of "''## a ##''"] by simp

end
