(* ===== verification/Html_Fix.thy ===== *)
theory Html_Fix
  imports VE_Prelude
begin

text \<open>
  The HTML fallback of the XML importer (\<open>fixHtmlToXml\<close> in \<open>ve/src/core/impl/xml.cpp\<close>): what is not XML is
  cleaned of scripts, styles, comments and declarations, void elements are closed and a stack of open
  tags closes what was left open. A position in the text is the text from there on. The output is a list
  of pieces, so that the tags in it can be told from the text.
\<close>

section \<open>Searching\<close>


text \<open>\<open>std::string::find\<close>.\<close>

fun find_sub :: "string \<Rightarrow> string \<Rightarrow> nat option" where
  "find_sub pat [] = (if pat = [] then Some 0 else None)"
| "find_sub pat (c # cs) =
     (if take (length pat) (c # cs) = pat then Some 0 else map_option Suc (find_sub pat cs))"

lemma find_sub_less: "find_sub pat s = Some i \<Longrightarrow> pat \<noteq> [] \<Longrightarrow> i < length s"
  by (induction pat s arbitrary: i rule: find_sub.induct) (auto split: if_splits)

section \<open>Scripts and styles\<close>

definition tag_boundary :: "string \<Rightarrow> bool" where
  "tag_boundary s \<longleftrightarrow> s \<noteq> [] \<and> hd s \<in> {CHR ''>'', CHR '' '', CHR 0x09, CHR 0x0D, CHR 0x0A, CHR ''/''}"

function strip_tag :: "string \<Rightarrow> string \<Rightarrow> string" where
  "strip_tag tag s =
     (case find_sub (''<'' @ tag) s of
        None \<Rightarrow> s
      | Some i \<Rightarrow>
          (let at = drop i s; after = drop (Suc (length tag)) at
           in if \<not> tag_boundary after then take i s @ ''<'' @ tag @ strip_tag tag after
              else
                (case find_sub (''</'' @ tag) at of
                   Some e \<Rightarrow>
                     (case find_sub ''>'' (drop e at) of
                        Some g \<Rightarrow> take i s @ strip_tag tag (drop (e + g + 1) at)
                      | None \<Rightarrow> take i s @ strip_tag tag (drop (e + length tag + 2) at))
                 | None \<Rightarrow>
                     (case find_sub ''>'' at of
                        Some g \<Rightarrow> take i s @ strip_tag tag (drop (g + 1) at)
                      | None \<Rightarrow> take i s @ ''<'' @ tag @ strip_tag tag after))))"
  by pat_completeness auto

termination
  by (relation "measure (\<lambda>(tag, s). length s)") (auto dest: find_sub_less)

section \<open>Tags\<close>

datatype piece = Raw string | OpenTag string string | EmptyTag string | CloseTag string

fun piece_text :: "piece \<Rightarrow> string" where
  "piece_text (Raw s) = s"
| "piece_text (OpenTag content nm) = ''<'' @ content @ ''>''"
| "piece_text (EmptyTag content) = ''<'' @ content @ ''>''"
| "piece_text (CloseTag nm) = ''</'' @ nm @ ''>''"

text \<open>The end of a tag, past any \<open>>\<close> in quotes; \<open>None\<close> when there is none.\<close>

fun scan_tag :: "char option \<Rightarrow> string \<Rightarrow> (string \<times> string) option" where
  "scan_tag quote [] = None"
| "scan_tag (Some q) (c # cs) = map_option (apfst ((#) c)) (scan_tag (if c = q then None else Some q) cs)"
| "scan_tag None (c # cs) =
     (if c = CHR 0x22 \<or> c = CHR 0x27 then map_option (apfst ((#) c)) (scan_tag (Some c) cs)
      else if c = CHR ''>'' then Some ([], cs)
      else map_option (apfst ((#) c)) (scan_tag None cs))"

definition tolower :: "char \<Rightarrow> char" where
  "tolower c = (if 65 \<le> (of_char c :: nat) \<and> (of_char c :: nat) \<le> 90 then char_of (of_char c + 32 :: nat) else c)"

definition tag_name :: "string \<Rightarrow> string" where
  "tag_name s = takeWhile (\<lambda>c. c \<notin> {CHR '' '', CHR 0x09, CHR 0x0D, CHR 0x0A, CHR ''/''}) s"

definition void_tags :: "string list" where
  "void_tags = [''area'', ''base'', ''br'', ''col'', ''embed'', ''hr'', ''img'', ''input'', ''link'', ''meta'', ''param'',
     ''source'', ''track'', ''wbr'']"

text \<open>A tag with content, against the open tags, innermost first.\<close>

definition html_tag :: "string \<Rightarrow> string list \<Rightarrow> piece list \<times> string list" where
  "html_tag content stack =
     (let is_closing = (hd content = CHR ''/'');
          is_self_closing = (last content = CHR ''/'');
          nm = map tolower (tag_name (if is_closing then tl content else content))
      in if is_closing then
           (if nm \<in> set stack then
              (let above = takeWhile (\<lambda>n. n \<noteq> nm) stack
               in (map CloseTag above @ [CloseTag nm], drop (Suc (length above)) stack))
            else ([], stack))
         else if nm \<in> set void_tags then
           ([EmptyTag (if is_self_closing then content else content @ ''/'')], stack)
         else if is_self_closing then ([EmptyTag content], stack)
         else ([OpenTag content nm], nm # stack))"

lemma scan_tag_less: "scan_tag quote s = Some (a, b) \<Longrightarrow> length b < length s"
  by (induction quote s arbitrary: a b rule: scan_tag.induct) (fastforce split: if_splits)+

function html_loop :: "string list \<Rightarrow> string \<Rightarrow> piece list" where
  "html_loop stack s =
     (if s = [] then map CloseTag stack
      else
        (case find_sub ''<'' s of
           None \<Rightarrow> Raw s # map CloseTag stack
         | Some i \<Rightarrow>
             (let t = drop i s
              in Raw (take i s) #
                (if take 4 t = ''<!--'' then
                   (case find_sub ''-->'' (drop 4 t) of
                      None \<Rightarrow> map CloseTag stack
                    | Some e \<Rightarrow> html_loop stack (drop (4 + e + 3) t))
                 else if take 9 t = ''<![CDATA['' then
                   (case find_sub '']]>'' (drop 9 t) of
                      None \<Rightarrow> Raw t # map CloseTag stack
                    | Some e \<Rightarrow> Raw (take (9 + e + 3) t) # html_loop stack (drop (9 + e + 3) t))
                 else if take 2 t = ''<!'' then
                   (case find_sub ''>'' (drop 2 t) of
                      None \<Rightarrow> map CloseTag stack
                    | Some e \<Rightarrow> html_loop stack (drop (2 + e + 1) t))
                 else
                   (case scan_tag None (tl t) of
                      None \<Rightarrow> Raw t # map CloseTag stack
                    | Some (content, rest) \<Rightarrow>
                        if content = [] then Raw ''<>'' # html_loop stack rest
                        else if hd content = CHR ''?'' then html_loop stack rest
                        else (let (ps, stack') = html_tag content stack in ps @ html_loop stack' rest))))))"
  by pat_completeness auto

termination
proof (relation "measure (\<lambda>(stack, s). length s)")
  show "wf (measure (\<lambda>(stack, s). length s))" by simp
qed (auto dest!: find_sub_less scan_tag_less)

definition fix_pieces :: "string \<Rightarrow> piece list" where
  "fix_pieces html = html_loop [] (strip_tag ''style'' (strip_tag ''script'' html))"

definition fixHtmlToXml :: "string \<Rightarrow> string" where
  "fixHtmlToXml html = ''<root>'' @ concat (map piece_text (fix_pieces html)) @ ''</root>''"

declare html_loop.simps [simp del] strip_tag.simps [simp del]

section \<open>The tags of the output\<close>

text \<open>Every closing tag closes the innermost open one, and at the end none is open.\<close>

fun tags_balance :: "string list \<Rightarrow> piece list \<Rightarrow> bool" where
  "tags_balance stack [] = (stack = [])"
| "tags_balance stack (OpenTag content nm # ps) = tags_balance (nm # stack) ps"
| "tags_balance stack (CloseTag nm # ps) = (stack \<noteq> [] \<and> hd stack = nm \<and> tags_balance (tl stack) ps)"
| "tags_balance stack (p # ps) = tags_balance stack ps"

fun named_open :: "piece \<Rightarrow> bool" where
  "named_open (OpenTag content nm) = (nm = map tolower (tag_name content))"
| "named_open p = True"

lemma balance_close: "tags_balance (inner @ stack) (map CloseTag inner @ ps) = tags_balance stack ps"
  by (induction inner) simp_all

lemma balance_all [simp]: "tags_balance stack (map CloseTag stack)"
  using balance_close [of stack "[]" "[]"] by simp

lemma html_tag_balance:
  assumes "html_tag content stack = (ps, stack')"
  shows "tags_balance stack (ps @ qs) = tags_balance stack' qs"
proof (cases "hd content = CHR ''/''")
  case True
  define nm where "nm = map tolower (tag_name (tl content))"
  show ?thesis
  proof (cases "nm \<in> set stack")
    case True
    obtain inner where inner: "inner = takeWhile (\<lambda>n. n \<noteq> nm) stack" by simp
    have "dropWhile (\<lambda>n. n \<noteq> nm) stack \<noteq> []" using True by (auto simp: dropWhile_eq_Nil_conv)
    then obtain rest where "dropWhile (\<lambda>n. n \<noteq> nm) stack = nm # rest"
      using hd_dropWhile [of "\<lambda>n. n \<noteq> nm" stack] by (cases "dropWhile (\<lambda>n. n \<noteq> nm) stack") auto
    then have s: "stack = inner @ nm # rest" unfolding inner by (metis takeWhile_dropWhile_id)
    have "ps = map CloseTag (inner @ [nm])" "stack' = drop (Suc (length inner)) stack"
      using assms \<open>hd content = CHR ''/''\<close> True by (simp_all add: html_tag_def Let_def flip: nm_def inner)
    then have "ps = map CloseTag (inner @ [nm])" "stack' = rest" by (simp_all add: s)
    then show ?thesis using balance_close [of "inner @ [nm]" rest qs] s by simp
  qed (use assms \<open>hd content = CHR ''/''\<close> in \<open>auto simp: html_tag_def Let_def nm_def\<close>)
qed (use assms in \<open>auto simp: html_tag_def Let_def split: if_splits\<close>)

lemma html_tag_open: "html_tag content stack = (ps, stack') \<Longrightarrow> OpenTag c nm \<in> set ps \<Longrightarrow> nm = map tolower (tag_name c)"
  by (auto simp: html_tag_def Let_def split: if_splits)

text \<open>The loop at a tag that is no comment and no declaration.\<close>

definition plain_tag :: "string \<Rightarrow> nat \<Rightarrow> bool" where
  "plain_tag s i \<longleftrightarrow> s \<noteq> [] \<and> find_sub ''<'' s = Some i
     \<and> take 4 (drop i s) \<noteq> ''<!--'' \<and> take 9 (drop i s) \<noteq> ''<![CDATA['' \<and> take 2 (drop i s) \<noteq> ''<!''"

lemma loop_at_tag:
  assumes "plain_tag s i"
  shows "html_loop stack s = Raw (take i s) #
    (case scan_tag None (tl (drop i s)) of
       None \<Rightarrow> Raw (drop i s) # map CloseTag stack
     | Some (content, rest) \<Rightarrow>
         if content = [] then Raw ''<>'' # html_loop stack rest
         else if hd content = CHR ''?'' then html_loop stack rest
         else fst (html_tag content stack) @ html_loop (snd (html_tag content stack)) rest)"
  using assms unfolding plain_tag_def
  by (subst html_loop.simps) (simp add: Let_def case_prod_beta split: option.split)

definition good_tags :: "string list \<Rightarrow> piece list \<Rightarrow> bool" where
  "good_tags stack ps \<longleftrightarrow> tags_balance stack ps \<and> (\<forall>c nm. OpenTag c nm \<in> set ps \<longrightarrow> nm = map tolower (tag_name c))"

lemma good_simps [simp]: "good_tags stack (Raw s # ps) = good_tags stack ps" "good_tags stack (map CloseTag stack)"
  by (auto simp: good_tags_def)

lemma html_loop_tags: "good_tags stack (html_loop stack s)"
proof (induction stack s rule: html_loop.induct)
  case (1 stack s)
  show ?case
  proof (cases "s = [] \<or> find_sub ''<'' s = None")
    case False
    then obtain i where i: "s \<noteq> []" "find_sub ''<'' s = Some i" by auto
    note IH = 1 [OF i refl]
    show ?thesis
    proof (cases "plain_tag s i")
      case False
      then have "take 4 (drop i s) = ''<!--'' \<or> take 9 (drop i s) = ''<![CDATA['' \<or> take 2 (drop i s) = ''<!''"
        using i by (auto simp: plain_tag_def)
      then consider (comment) "take 4 (drop i s) = ''<!--''"
        | (cdata) "take 4 (drop i s) \<noteq> ''<!--''" "take 9 (drop i s) = ''<![CDATA[''"
        | (other) "take 4 (drop i s) \<noteq> ''<!--''" "take 9 (drop i s) \<noteq> ''<![CDATA[''" "take 2 (drop i s) = ''<!''" by blast
      then show ?thesis
      proof cases
        case comment
        then show ?thesis using IH(1) i by (subst html_loop.simps) (cases "find_sub ''-->'' (drop 4 (drop i s))"; simp)
      next
        case cdata
        then show ?thesis using IH(2) i by (subst html_loop.simps) (cases "find_sub '']]>'' (drop 9 (drop i s))"; simp)
      next
        case other
        then show ?thesis using IH(3) i by (subst html_loop.simps) (cases "find_sub ''>'' (drop 2 (drop i s))"; simp)
      qed
    next
      case True
      note p = True [unfolded plain_tag_def]
      show ?thesis
      proof (cases "scan_tag None (tl (drop i s))")
        case None
        then show ?thesis by (simp add: loop_at_tag [OF True])
      next
        case (Some cr)
        obtain content rest where cr: "scan_tag None (tl (drop i s)) = Some (content, rest)" using Some by (cases cr) simp
        obtain ps stack' where t: "html_tag content stack = (ps, stack')" by force
        have "good_tags stack (ps @ html_loop stack' rest)" if "content \<noteq> []" "hd content \<noteq> CHR ''?''"
          using IH(6) [OF _ _ _ cr refl that refl t [symmetric]] p html_tag_balance [OF t] html_tag_open [OF t]
          by (auto simp: good_tags_def)
        then show ?thesis using IH(4,5) [OF _ _ _ cr refl] p cr t by (simp add: loop_at_tag [OF True])
      qed
    qed
  qed (subst html_loop.simps, auto)
qed

text \<open>C12: The HTML fallback ends on any text and the tags it writes are balanced: every closing tag closes
  the innermost open one under its lower-case name, nothing is closed that was not open, and at the
  end nothing is left open.\<close>

theorem html_tags_balanced: "tags_balance [] (fix_pieces html) \<and> list_all named_open (fix_pieces html)"
proof -
  have g: "tags_balance [] (fix_pieces html)"
    "\<And>c nm. OpenTag c nm \<in> set (fix_pieces html) \<Longrightarrow> nm = map tolower (tag_name c)"
    using html_loop_tags unfolding fix_pieces_def good_tags_def by blast+
  have "named_open p" if "p \<in> set (fix_pieces html)" for p by (cases p) (use that g(2) in simp_all)
  then show ?thesis using g(1) by (simp add: list_all_iff)
qed

section \<open>Well-formed text passes\<close>

datatype html = HText string | HElem string "html list"

fun html_text :: "html \<Rightarrow> string" where
  "html_text (HText s) = s"
| "html_text (HElem content ks) = ''<'' @ content @ ''>'' @ concat (map html_text ks) @ ''</'' @ tag_name content @ ''>''"

definition elem_ok :: "string \<Rightarrow> bool" where
  "elem_ok content \<longleftrightarrow> tag_name content \<noteq> [] \<and> hd content \<notin> {CHR ''/'', CHR ''?'', CHR ''!''} \<and> last content \<noteq> CHR ''/''
     \<and> scan_tag None (content @ ''>'') = Some (content, []) \<and> map tolower (tag_name content) = tag_name content
     \<and> tag_name content \<notin> set void_tags \<and> set (tag_name content) \<inter> {CHR 0x22, CHR 0x27, CHR ''>''} = {}"

fun html_ok :: "html \<Rightarrow> bool" where
  "html_ok (HText s) = (CHR ''<'' \<notin> set s)"
| "html_ok (HElem content ks) = (elem_ok content \<and> (\<forall>k \<in> set ks. html_ok k))"

definition loop_text :: "string list \<Rightarrow> string \<Rightarrow> string" where
  "loop_text stack s = concat (map piece_text (html_loop stack s))"

lemma find_lt_append: "CHR ''<'' \<notin> set s \<Longrightarrow> find_sub ''<'' (s @ t) = map_option ((+) (length s)) (find_sub ''<'' t)"
proof (induction s)
  case Nil
  then show ?case by (cases "find_sub ''<'' t") simp_all
next
  case (Cons c s)
  then show ?case by (cases "find_sub ''<'' t") auto
qed

lemma text_passes:
  assumes "CHR ''<'' \<notin> set s"
  shows "loop_text stack (s @ t) = s @ loop_text stack t"
proof (cases "t = []")
  case True
  then show ?thesis using find_lt_append [OF assms, of "[]"] by (simp add: loop_text_def html_loop.simps)
next
  case False
  then show ?thesis
    unfolding loop_text_def
    by (subst (1 2) html_loop.simps)
      (cases "find_sub ''<'' t"; simp add: find_lt_append [OF assms] Let_def split: option.split prod.split)
qed

lemma scan_tag_append: "scan_tag q s = Some (a, b) \<Longrightarrow> scan_tag q (s @ t) = Some (a, b @ t)"
  by (induction q s arbitrary: a b rule: scan_tag.induct) (auto split: if_splits)

lemma scan_plain: "set s \<inter> {CHR 0x22, CHR 0x27, CHR ''>''} = {} \<Longrightarrow> scan_tag None (s @ CHR ''>'' # t) = Some (s, t)"
  by (induction s) auto

lemma tag_name_idem: "tag_name (tag_name s) = tag_name s"
  by (simp add: tag_name_def takeWhile_eq_all_conv)

lemma take_lt: "take (Suc (Suc k)) (CHR ''<'' # c # s) \<noteq> CHR ''<'' # CHR ''!'' # t" if "c \<noteq> CHR ''!''" for s t :: string
  using that by simp

lemma open_passes:
  assumes "elem_ok content"
  shows "loop_text stack (''<'' @ content @ ''>'' @ t) = ''<'' @ content @ ''>'' @ loop_text (tag_name content # stack) t"
proof -
  obtain c cs where c: "content = c # cs" using assms by (cases content) (auto simp: elem_ok_def tag_name_def)
  let ?s = "CHR ''<'' # content @ CHR ''>'' # t"
  have p: "plain_tag ?s 0" using assms by (simp add: plain_tag_def c elem_ok_def)
  have sc: "scan_tag None (content @ CHR ''>'' # t) = Some (content, t)"
    using assms scan_tag_append [of None "content @ ''>''" content "[]" t] by (simp add: elem_ok_def)
  have "html_tag content stack = ([OpenTag content (tag_name content)], tag_name content # stack)"
    using assms by (simp add: html_tag_def Let_def elem_ok_def)
  then have "html_loop stack ?s = Raw [] # OpenTag content (tag_name content) # html_loop (tag_name content # stack) t"
    using sc assms loop_at_tag [OF p, of stack] by (auto simp: elem_ok_def c)
  then show ?thesis by (simp add: loop_text_def)
qed

lemma close_passes:
  assumes "elem_ok content"
  shows "loop_text (tag_name content # stack) (''</'' @ tag_name content @ ''>'' @ t) = ''</'' @ tag_name content @ ''>'' @ loop_text stack t"
proof -
  let ?s = "CHR ''<'' # CHR ''/'' # tag_name content @ CHR ''>'' # t"
  have p: "plain_tag ?s 0" by (simp add: plain_tag_def)
  have sc: "scan_tag None (CHR ''/'' # tag_name content @ CHR ''>'' # t) = Some (CHR ''/'' # tag_name content, t)"
    using assms scan_plain [of "tag_name content" t] by (simp add: elem_ok_def)
  have "html_tag (CHR ''/'' # tag_name content) (tag_name content # stack) = ([CloseTag (tag_name content)], stack)"
    using assms by (simp add: html_tag_def Let_def elem_ok_def tag_name_idem)
  then have "html_loop (tag_name content # stack) ?s = Raw [] # CloseTag (tag_name content) # html_loop stack t"
    using sc loop_at_tag [OF p, of "tag_name content # stack"] by simp
  then show ?thesis by (simp add: loop_text_def)
qed

lemma kids_pass:
  "(\<And>k stack t. k \<in> set ks \<Longrightarrow> loop_text stack (html_text k @ t) = html_text k @ loop_text stack t)
    \<Longrightarrow> loop_text stack (concat (map html_text ks) @ t) = concat (map html_text ks) @ loop_text stack t"
  by (induction ks) simp_all

lemma html_passes: "html_ok h \<Longrightarrow> loop_text stack (html_text h @ t) = html_text h @ loop_text stack t"
proof (induction h arbitrary: stack t)
  case (HText s)
  then show ?case using text_passes by simp
next
  case (HElem content ks)
  have k: "loop_text st (concat (map html_text ks) @ u) = concat (map html_text ks) @ loop_text st u" for st u
    by (rule kids_pass) (use HElem in auto)
  show ?case
    using open_passes [of content stack "concat (map html_text ks) @ ''</'' @ tag_name content @ ''>'' @ t"]
      k [of "tag_name content # stack" "''</'' @ tag_name content @ ''>'' @ t"] close_passes [of content stack t] HElem.prems
    by simp
qed

text \<open>C13: The fallback leaves alone what needs no fixing: a text of properly nested elements with lower-case
  names, none of them void, without scripts and styles, comes out as it went in, inside a root element.\<close>

theorem html_wellformed_kept:
  assumes "\<forall>h \<in> set hs. html_ok h"
    and "find_sub ''<script'' (concat (map html_text hs)) = None" "find_sub ''<style'' (concat (map html_text hs)) = None"
  shows "fixHtmlToXml (concat (map html_text hs)) = ''<root>'' @ concat (map html_text hs) @ ''</root>''"
proof -
  let ?t = "concat (map html_text hs)"
  have "strip_tag ''style'' (strip_tag ''script'' ?t) = ?t" using assms(2,3) by (simp add: strip_tag.simps)
  moreover have "loop_text [] (?t @ []) = ?t @ loop_text [] []" by (rule kids_pass) (use assms(1) html_passes in blast)
  moreover have "loop_text [] [] = []" by (simp add: loop_text_def html_loop.simps)
  ultimately show ?thesis by (simp add: fixHtmlToXml_def fix_pieces_def loop_text_def)
qed

definition html_sample :: html where
  "html_sample = HElem (''p a='' @ [CHR 0x22] @ ''x>y'' @ [CHR 0x22]) [HText ''hi '', HElem ''b'' [HText ''you'']]"

theorem html_wellformed_kept_witness:
  "fixHtmlToXml (html_text html_sample) = ''<root>'' @ html_text html_sample @ ''</root>''"
proof -
  have n: "tag_name (''p a='' @ [CHR 0x22] @ ''x>y'' @ [CHR 0x22]) = ''p''" "tag_name ''b'' = ''b''" by (simp_all add: tag_name_def)
  have l: "tolower CHR ''p'' = CHR ''p''" "tolower CHR ''b'' = CHR ''b''" by (simp_all add: tolower_def)
  have ok: "\<forall>h \<in> set [html_sample]. html_ok h" using n by (simp add: html_sample_def elem_ok_def l void_tags_def)
  have f: "find_sub ''<script'' (concat (map html_text [html_sample])) = None" "find_sub ''<style'' (concat (map html_text [html_sample])) = None"
    using n by (simp_all add: html_sample_def)
  show ?thesis using html_wellformed_kept [OF ok f] by simp
qed

text \<open>Closing tags are written in lower case, opening tags as they were: an XML parser, for which case
  counts, refuses the result.\<close>

lemma upper_case_broken: "fixHtmlToXml ''<DIV>x</DIV>'' = ''<root><DIV>x</div></root>''"
  by code_simp

text \<open>A script inside a script tag survives its removal.\<close>

lemma nested_script_kept: "strip_tag ''script'' ''<scr<script></script>ipt>'' = ''<script>''"
  by (simp add: strip_tag.simps tag_boundary_def)

end
